(* ===== verification/Prelude.thy ===== *)
theory Prelude
  imports Main "HOL-Library.Word" "HOL-Library.Monad_Syntax"
begin

text \<open>
  What every component of the kernel model shares: the names of the C integer types, the two
  collections the component proofs extend (\<open>inv_simps\<close> unfolds invariants, \<open>step_simps\<close> unfolds
  single steps of handlers) and the facts on lists, options and words that more than one
  component needs. Sizes and indices that the code never lets wrap are natural numbers; every
  value whose wrap-around matters is kept at its width.
\<close>

unbundle bit_operations_syntax

section \<open>Types\<close>

type_synonym u8 = "8 word"
type_synonym u16 = "16 word"
type_synonym u32 = "32 word"
type_synonym u64 = "64 word"

named_theorems inv_simps \<open>definitions of the component invariants\<close>
named_theorems step_simps \<open>definitions of single operations\<close>

section \<open>Lists\<close>

lemma takeWhile_neq_append:
  "c \<notin> set xs \<Longrightarrow> takeWhile (\<lambda>x. x \<noteq> c) (xs @ c # ys) = xs"
  by (induction xs) auto

lemma split_at_first:
  assumes "c \<in> set xs"
  obtains ys zs where "xs = ys @ c # zs" "c \<notin> set ys" "takeWhile (\<lambda>x. x \<noteq> c) xs = ys"
  using assms by (metis split_list_first takeWhile_neq_append)

lemma sum_list_update:
  fixes xs :: "nat list"
  assumes "i < length xs"
  shows "sum_list (xs[i := x]) + xs ! i = sum_list xs + x"
  using assms by (induction xs arbitrary: i) (auto split: nat.splits)

text \<open>
  Copying between two distinct objects, with the bounds of both: \<open>slice_at\<close> reads \<open>n\<close> elements
  from \<open>off\<close>, \<open>blit\<close> overwrites the elements from \<open>off\<close> on. \<open>None\<close> is an access outside the object.
\<close>

definition slice_at :: "'a list \<Rightarrow> nat \<Rightarrow> nat \<Rightarrow> 'a list option" where
  "slice_at s off n = (if off + n \<le> length s then Some (take n (drop off s)) else None)"

definition blit :: "'a list \<Rightarrow> nat \<Rightarrow> 'a list \<Rightarrow> 'a list option" where
  "blit buf off xs =
     (if off + length xs \<le> length buf
      then Some (take off buf @ xs @ drop (off + length xs) buf) else None)"

lemma slice_length: "slice_at s off n = Some xs \<Longrightarrow> length xs = n"
  by (auto simp: slice_at_def split: if_splits)

lemma slice_nth: "slice_at s off n = Some xs \<Longrightarrow> i < n \<Longrightarrow> xs ! i = s ! (off + i)"
  by (auto simp: slice_at_def split: if_splits)

lemma blit_length: "blit buf off xs = Some buf' \<Longrightarrow> length buf' = length buf"
  by (auto simp: blit_def split: if_splits)

lemma blit_nth:
  "blit buf off xs = Some buf' \<Longrightarrow> i < length buf \<Longrightarrow>
   buf' ! i = (if off \<le> i \<and> i < off + length xs then xs ! (i - off) else buf ! i)"
  by (auto simp: blit_def nth_append min_def not_less add.commute split: if_splits)

lemma slice_blit_same: "blit buf off xs = Some buf' \<Longrightarrow> slice_at buf' off (length xs) = Some xs"
  by (auto simp: slice_at_def blit_def split: if_splits)

section \<open>Loops that may fault\<close>

text \<open>A counting loop whose body is a step on the state; \<open>None\<close> is a fault in one of its turns.\<close>

primrec foldM :: "('a \<Rightarrow> 's \<Rightarrow> 's option) \<Rightarrow> 'a list \<Rightarrow> 's \<Rightarrow> 's option" where
  "foldM f [] s = Some s"
| "foldM f (x # xs) s = Option.bind (f x s) (foldM f xs)"

lemma foldM_append: "foldM f (xs @ ys) s = Option.bind (foldM f xs s) (foldM f ys)"
proof (induction xs arbitrary: s)
  case (Cons x xs)
  show ?case by (cases "f x s") (simp_all add: Cons.IH)
qed simp

text \<open>A loop whose turns all succeed and keep an invariant that may mention the turns done so far.\<close>

lemma foldM_invariant:
  assumes "P [] s"
    and "\<And>ys y zs t. xs = ys @ y # zs \<Longrightarrow> P ys t \<Longrightarrow> \<exists>t'. f y t = Some t' \<and> P (ys @ [y]) t'"
  shows "\<exists>s'. foldM f xs s = Some s' \<and> P xs s'"
  using assms
proof (induction xs rule: rev_induct)
  case (snoc x xs)
  have "\<exists>s'. foldM f xs s = Some s' \<and> P xs s'"
    by (rule snoc.IH [OF snoc.prems(1)]) (use snoc.prems(2) in \<open>metis append_Cons append_assoc\<close>)
  then obtain t where t: "foldM f xs s = Some t" "P xs t" by blast
  from snoc.prems(2) [of xs x "[]", OF _ t(2)] show ?case using t(1) by (auto simp: foldM_append)
qed simp

section \<open>Options\<close>

lemma bind_Some_iff: "Option.bind m f = Some y \<longleftrightarrow> (\<exists>x. m = Some x \<and> f x = Some y)"
  by (cases m) auto

lemma option_neq_None_iff: "m \<noteq> None \<longleftrightarrow> (\<exists>x. m = Some x)"
  by (cases m) auto

section \<open>Words\<close>

lemma unat_plus_small:
  fixes a b :: "'a::len word"
  assumes "unat a + unat b < 2 ^ LENGTH('a)"
  shows "unat (a + b) = unat a + unat b"
  using assms by (simp add: unat_word_ariths)

lemma unat_minus_small:
  fixes a b :: "'a::len word"
  assumes "b \<le> a"
  shows "unat (a - b) = unat a - unat b"
  using assms by (simp add: unat_sub)

lemma unat_of_nat_small: "n < 2 ^ LENGTH('a) \<Longrightarrow> unat (of_nat n :: 'a::len word) = n"
  by (simp add: unat_of_nat take_bit_nat_eq_self)

lemma ucast_of_nat_down:
  "LENGTH('b) \<le> LENGTH('a) \<Longrightarrow> (ucast (of_nat n :: 'a::len word) :: 'b::len word) = of_nat n"
  by (rule bit_word_eqI) (simp add: bit_simps unsigned_of_nat)

lemma ucast_of_nat_small: "n < 2 ^ LENGTH('a) \<Longrightarrow> ucast (of_nat n :: 'a::len word) = of_nat n"
  by (simp add: unsigned_of_nat take_bit_nat_eq_self)

lemma unat_ucast_up:
  "LENGTH('a) \<le> LENGTH('b) \<Longrightarrow> unat (ucast (w :: 'a::len word) :: 'b::len word) = unat w"
proof -
  assume "LENGTH('a) \<le> LENGTH('b)"
  then have "(2 :: nat) ^ LENGTH('a) \<le> 2 ^ LENGTH('b)" by (rule power_increasing) simp
  with unsigned_less have "unat w < 2 ^ LENGTH('b)" by (rule less_le_trans)
  then show ?thesis by (simp add: unsigned_ucast_eq take_bit_nat_eq_self)
qed

lemma less_div_times: "k < n div (w :: nat) \<Longrightarrow> (k + 1) * w \<le> n"
  by (metis Suc_eq_plus1 Suc_leI div_times_less_eq_dividend dual_order.trans mult_le_mono1)

lemma word_eq_bits: "(a :: 'a::len word) = b \<longleftrightarrow> (\<forall>n. bit a n = bit b n)"
  by (auto intro: bit_word_eqI)

lemma unat_less_2p: "unat (a :: 'a::len word) < 2 ^ LENGTH('a)"
  by (rule unsigned_less)

lemma word_le_unat: "(a :: 'a::len word) \<le> b \<longleftrightarrow> unat a \<le> unat b"
  by (rule word_le_nat_alt)

lemma word_less_unat: "(a :: 'a::len word) < b \<longleftrightarrow> unat a < unat b"
  by (rule word_less_nat_alt)

end
