(* ===== verification/Strings.thy ===== *)
theory Strings
  imports Prelude
begin

text \<open>
  The freestanding C library of the kernel: \<open>gcc_utils.c\<close> (memcpy, memset, memmove, memcmp),
  \<open>string.c\<close> and \<open>lib.c\<close>. A pointer into an object is the list of bytes from it to the end of
  the object; every function is partial and \<open>None\<close> is an access past that end, so a result
  \<open>Some r\<close> also says that the function stayed inside its objects. A string argument is a byte
  list that holds a NUL somewhere. \<open>int\<close> results of the comparisons are integers, \<open>long\<close> values
  are 64-bit words.
\<close>

section \<open>gcc\_utils.c\<close>

text \<open>
  The four functions work on one flat memory, so that overlapping regions are in reach; \<open>d\<close> and
  \<open>s\<close> are the offsets of the two pointers. The first argument counts the bytes left.
\<close>

primrec memcpy_loop :: "nat \<Rightarrow> nat \<Rightarrow> u8 list \<Rightarrow> nat \<Rightarrow> nat \<Rightarrow> u8 list option" where
  "memcpy_loop 0 i m d s = Some m"
| "memcpy_loop (Suc k) i m d s =
     (if d + i < length m \<and> s + i < length m
      then memcpy_loop k (Suc i) (m[d + i := m ! (s + i)]) d s else None)"

definition c_memcpy :: "u8 list \<Rightarrow> nat \<Rightarrow> nat \<Rightarrow> nat \<Rightarrow> u8 list option" where
  "c_memcpy m d s n = memcpy_loop n 0 m d s"

primrec memset_loop :: "nat \<Rightarrow> nat \<Rightarrow> u8 list \<Rightarrow> nat \<Rightarrow> u8 \<Rightarrow> u8 list option" where
  "memset_loop 0 i m p c = Some m"
| "memset_loop (Suc k) i m p c =
     (if p + i < length m then memset_loop k (Suc i) (m[p + i := c]) p c else None)"

definition c_memset :: "u8 list \<Rightarrow> nat \<Rightarrow> u32 \<Rightarrow> nat \<Rightarrow> u8 list option" where
  "c_memset m p c n = memset_loop n 0 m p (ucast c)"

primrec memmove_back :: "nat \<Rightarrow> u8 list \<Rightarrow> nat \<Rightarrow> nat \<Rightarrow> u8 list option" where
  "memmove_back 0 m d s = Some m"
| "memmove_back (Suc i) m d s =
     (if d + i < length m \<and> s + i < length m
      then memmove_back i (m[d + i := m ! (s + i)]) d s else None)"

definition c_memmove :: "u8 list \<Rightarrow> nat \<Rightarrow> nat \<Rightarrow> nat \<Rightarrow> u8 list option" where
  "c_memmove m d s n =
     (if s > d then memcpy_loop n 0 m d s
      else if s < d then memmove_back n m d s
      else Some m)"

primrec c_memcmp :: "nat \<Rightarrow> u8 list \<Rightarrow> u8 list \<Rightarrow> int option" where
  "c_memcmp 0 a b = Some 0"
| "c_memcmp (Suc n) a b =
     (case (a, b) of
        (x # a', y # b') \<Rightarrow>
          if x \<noteq> y then Some (if x < y then -1 else 1) else c_memcmp n a' b'
      | _ \<Rightarrow> None)"

text \<open>
  A forward copy from a region at or above its target, and a backward copy from a region at or
  below it, never read a byte they have already overwritten.
\<close>

lemma memcpy_loop_correct:
  assumes "d + i + k \<le> length m" "s + i + k \<le> length m" "d \<le> s \<or> s + i + k \<le> d"
  shows "\<exists>m'. memcpy_loop k i m d s = Some m' \<and> length m' = length m \<and>
    (\<forall>j<length m. m' ! j = (if d + i \<le> j \<and> j < d + i + k then m ! (s + (j - d)) else m ! j))"
  using assms
proof (induction k arbitrary: i m)
  case 0
  then show ?case by auto
next
  case (Suc k)
  let ?m = "m[d + i := m ! (s + i)]"
  from Suc.prems have "d + Suc i + k \<le> length ?m" "s + Suc i + k \<le> length ?m"
    "d \<le> s \<or> s + Suc i + k \<le> d" by auto
  from Suc.IH [OF this] obtain m' where m': "memcpy_loop k (Suc i) ?m d s = Some m'"
    "length m' = length m"
    "\<And>j. j < length m \<Longrightarrow> m' ! j =
       (if d + Suc i \<le> j \<and> j < d + Suc i + k then ?m ! (s + (j - d)) else ?m ! j)" by auto
  have "m' ! j = (if d + i \<le> j \<and> j < d + i + Suc k then m ! (s + (j - d)) else m ! j)"
    if "j < length m" for j
    using m'(3) [OF that] Suc.prems that by (auto simp: nth_list_update)
  with m' Suc.prems show ?case by auto
qed

lemma memmove_back_correct:
  assumes "d + k \<le> length m" "s + k \<le> length m" "s \<le> d"
  shows "\<exists>m'. memmove_back k m d s = Some m' \<and> length m' = length m \<and>
    (\<forall>j<length m. m' ! j = (if d \<le> j \<and> j < d + k then m ! (s + (j - d)) else m ! j))"
  using assms
proof (induction k arbitrary: m)
  case 0
  then show ?case by auto
next
  case (Suc k)
  let ?m = "m[d + k := m ! (s + k)]"
  from Suc.prems have "d + k \<le> length ?m" "s + k \<le> length ?m" "s \<le> d" by auto
  from Suc.IH [OF this] obtain m' where m': "memmove_back k ?m d s = Some m'"
    "length m' = length m"
    "\<And>j. j < length m \<Longrightarrow> m' ! j =
       (if d \<le> j \<and> j < d + k then ?m ! (s + (j - d)) else ?m ! j)" by auto
  have "m' ! j = (if d \<le> j \<and> j < d + Suc k then m ! (s + (j - d)) else m ! j)"
    if "j < length m" for j
    using m'(3) [OF that] Suc.prems that by (auto simp: nth_list_update)
  with m' Suc.prems show ?case by auto
qed

lemma blit_slice_nth:
  assumes "s + n \<le> length m" "d + n \<le> length m" "length m' = length m"
    "\<And>j. j < length m \<Longrightarrow> m' ! j = (if d \<le> j \<and> j < d + n then m ! (s + (j - d)) else m ! j)"
  shows "slice_at m s n \<bind> blit m d = Some m'"
proof -
  from assms(1) have sl: "slice_at m s n = Some (take n (drop s m))" by (simp add: slice_at_def)
  with assms(1,2) obtain m2 where m2: "blit m d (take n (drop s m)) = Some m2"
    by (auto simp: blit_def)
  have "m2 = m'"
    using blit_length [OF m2] blit_nth [OF m2] assms by (intro nth_equalityI) auto
  with sl m2 show ?thesis by simp
qed

text \<open>
  C31: memmove copies as if through a temporary: the target region ends with what the source
  region held before the call, whatever the overlap, and no byte outside it changes.
\<close>

theorem memmove_correct:
  assumes "d + n \<le> length m" "s + n \<le> length m"
  shows "c_memmove m d s n = slice_at m s n \<bind> blit m d"
proof -
  consider "s > d" | "s < d" | "s = d" by linarith
  then show ?thesis
  proof cases
    case 1
    with memcpy_loop_correct [of d 0 n m s] assms show ?thesis
      by (auto simp: c_memmove_def intro!: blit_slice_nth [symmetric])
  next
    case 2
    with memmove_back_correct [of d n m s] assms show ?thesis
      by (auto simp: c_memmove_def intro!: blit_slice_nth [symmetric])
  next
    case 3
    with assms show ?thesis
      by (auto simp: c_memmove_def intro!: blit_slice_nth [symmetric])
  qed
qed

theorem memmove_correct_witness:
  "c_memmove [1, 2, 3, 4] 1 0 3 = Some [1, 1, 2, 3]"
  using memmove_correct [of 1 3 "[1, 2, 3, 4]" 0] by (simp add: slice_at_def blit_def)

text \<open>On disjoint regions memcpy is the same copy; this is what its callers rely on.\<close>

lemma memcpy_disjoint:
  assumes "d + n \<le> length m" "s + n \<le> length m" "s + n \<le> d \<or> d + n \<le> s"
  shows "c_memcpy m d s n = slice_at m s n \<bind> blit m d"
  using memcpy_loop_correct [of d 0 n m s] assms
  by (auto simp: c_memcpy_def intro!: blit_slice_nth [symmetric])

lemma memset_loop_correct:
  assumes "p + i + k \<le> length m"
  shows "memset_loop k i m p c = blit m (p + i) (replicate k c)"
  using assms
proof (induction k arbitrary: i m)
  case 0
  then show ?case by (simp add: blit_def)
next
  case (Suc k)
  from Suc.prems have "p + Suc i + k \<le> length (m[p + i := c])" by simp
  from Suc.IH [OF this] Suc.prems show ?case
    by (auto simp: blit_def upd_conv_take_nth_drop replicate_append_same take_Suc_conv_app_nth ac_simps)
qed

lemma memset_correct:
  "p + n \<le> length m \<Longrightarrow> c_memset m p c n = blit m p (replicate n (ucast c))"
  using memset_loop_correct [of p 0 n m] by (simp add: c_memset_def)

section \<open>string.c\<close>

fun c_strlen :: "u8 list \<Rightarrow> nat option" where
  "c_strlen [] = None"
| "c_strlen (c # s) = (if c = 0 then Some 0 else map_option Suc (c_strlen s))"

text \<open>\<open>c\_strcmp\<close> and \<open>c\_strncmp\<close> return the difference of the first unequal bytes, as the code does.\<close>

fun c_strcmp :: "u8 list \<Rightarrow> u8 list \<Rightarrow> int option" where
  "c_strcmp (x # a) (y # b) =
     (if x \<noteq> 0 \<and> x = y then c_strcmp a b else Some (uint x - uint y))"
| "c_strcmp _ _ = None"

fun c_strncmp :: "u8 list \<Rightarrow> u8 list \<Rightarrow> nat \<Rightarrow> int option" where
  "c_strncmp a b 0 = Some 0"
| "c_strncmp (x # a) (y # b) (Suc n) =
     (if x \<noteq> 0 \<and> x = y then c_strncmp a b n else Some (uint x - uint y))"
| "c_strncmp _ _ (Suc n) = None"

fun c_strcpy :: "u8 list \<Rightarrow> u8 list \<Rightarrow> u8 list option" where
  "c_strcpy (d # dst) (c # src) =
     (if c = 0 then Some (0 # dst) else map_option ((#) c) (c_strcpy dst src))"
| "c_strcpy _ _ = None"

text \<open>After the NUL of the source the rest of the target, up to \<open>n\<close>, is filled with NULs.\<close>

fun strncpy_fill :: "u8 list \<Rightarrow> nat \<Rightarrow> u8 list option" where
  "strncpy_fill dst 0 = Some dst"
| "strncpy_fill (d # dst) (Suc n) = map_option ((#) 0) (strncpy_fill dst n)"
| "strncpy_fill [] (Suc n) = None"

fun c_strncpy :: "u8 list \<Rightarrow> u8 list \<Rightarrow> nat \<Rightarrow> u8 list option" where
  "c_strncpy dst src 0 = Some dst"
| "c_strncpy (d # dst) (c # src) (Suc n) =
     (if c = 0 then strncpy_fill (d # dst) (Suc n)
      else map_option ((#) c) (c_strncpy dst src n))"
| "c_strncpy _ _ (Suc n) = None"

text \<open>The result is the pair of the new target and the returned source length.\<close>

definition c_strlcpy :: "u8 list \<Rightarrow> u8 list \<Rightarrow> nat \<Rightarrow> (u8 list \<times> nat) option" where
  "c_strlcpy dst src sz =
     c_strlen src \<bind> (\<lambda>len.
     if sz \<noteq> 0 then
       let n = (if len < sz - 1 then len else sz - 1)
       in slice_at src 0 n \<bind> blit dst 0 \<bind> (\<lambda>dst'. blit dst' n [0]) \<bind> (\<lambda>dst'. Some (dst', len))
     else Some (dst, len))"

definition c_strcat :: "u8 list \<Rightarrow> u8 list \<Rightarrow> u8 list option" where
  "c_strcat dst src =
     c_strlen dst \<bind> (\<lambda>n. map_option ((@) (take n dst)) (c_strcpy (drop n dst) src))"

text \<open>
  A returned pointer is its offset from the argument; the inner \<open>None\<close> is the NULL result.
\<close>

fun c_strchr :: "u8 list \<Rightarrow> u8 \<Rightarrow> nat option option" where
  "c_strchr [] c = None"
| "c_strchr (x # s) c =
     (if x = c then Some (Some 0)
      else if x = 0 then Some None
      else map_option (map_option Suc) (c_strchr s c))"

fun strrchr_loop :: "u8 list \<Rightarrow> u8 \<Rightarrow> nat \<Rightarrow> nat option \<Rightarrow> nat option option" where
  "strrchr_loop [] c i found = None"
| "strrchr_loop (x # s) c i found =
     (let found' = (if x = c then Some i else found)
      in if x = 0 then Some found' else strrchr_loop s c (Suc i) found')"

definition c_strrchr :: "u8 list \<Rightarrow> u8 \<Rightarrow> nat option option" where
  "c_strrchr s c = strrchr_loop s c 0 None"

fun strstr_loop :: "u8 list \<Rightarrow> u8 list \<Rightarrow> nat \<Rightarrow> nat option option" where
  "strstr_loop [] needle nlen = None"
| "strstr_loop (x # h) needle nlen =
     (if x = 0 then Some None
      else c_strncmp (x # h) needle nlen \<bind> (\<lambda>r.
        if r = 0 then Some (Some 0) else map_option (map_option Suc) (strstr_loop h needle nlen)))"

definition c_strstr :: "u8 list \<Rightarrow> u8 list \<Rightarrow> nat option option" where
  "c_strstr haystack needle =
     c_strlen needle \<bind> (\<lambda>nlen.
       if nlen = 0 then Some (Some 0) else strstr_loop haystack needle nlen)"

text \<open>\<open>strdup\<close> asks malloc for \<open>strlen + 1\<close> bytes; \<open>p\<close> is the object malloc returns for that size.\<close>

definition c_strdup :: "(nat \<Rightarrow> u8 list option) \<Rightarrow> u8 list \<Rightarrow> u8 list option option" where
  "c_strdup alloc s =
     c_strlen s \<bind> (\<lambda>len. let n = len + 1 in
       case alloc n of
         None \<Rightarrow> Some None
       | Some p \<Rightarrow> slice_at s 0 n \<bind> blit p 0 \<bind> (\<lambda>p'. Some (Some p')))"

fun skip_blanks :: "u8 list \<Rightarrow> u8 list option" where
  "skip_blanks [] = None"
| "skip_blanks (c # s) = (if c = 32 \<or> c = 9 then skip_blanks s else Some (c # s))"

definition digit_val :: "u8 \<Rightarrow> int option" where
  "digit_val c =
     (if 48 \<le> c \<and> c \<le> 57 then Some (uint c - 48)
      else if 97 \<le> c \<and> c \<le> 122 then Some (uint c - 97 + 10)
      else if 65 \<le> c \<and> c \<le> 90 then Some (uint c - 65 + 10)
      else None)"

fun strtol_digits :: "int \<Rightarrow> u64 \<Rightarrow> u8 list \<Rightarrow> (u64 \<times> u8 list) option" where
  "strtol_digits base val [] = None"
| "strtol_digits base val (c # s) =
     (case digit_val c of
        None \<Rightarrow> Some (val, c # s)
      | Some d \<Rightarrow>
          if d \<ge> base then Some (val, c # s)
          else strtol_digits base (val * of_int base + of_int d) s)"

text \<open>
  The sign, then the base prefix: for base 0 or 16 a leading \<open>0x\<close> selects 16 and is skipped, for
  base 0 a leading \<open>0\<close> selects 8. The accumulated value wraps at 64 bits, as the compiled code
  does (the C standard leaves that overflow undefined). The second result is \<open>*end\<close>.
\<close>

definition strtol_base :: "u8 list \<Rightarrow> int \<Rightarrow> (int \<times> u8 list) option" where
  "strtol_base s base =
     (case s of
        [] \<Rightarrow> None
      | c0 # s1 \<Rightarrow>
          if (base = 0 \<or> base = 16) \<and> c0 = 48 then
            (case s1 of
               [] \<Rightarrow> None
             | c1 # s2 \<Rightarrow>
                 if c1 = 120 \<or> c1 = 88 then Some (16, s2)
                 else Some (if base = 0 then 8 else base, s))
          else Some (if base = 0 then 10 else base, s))"

definition c_strtol :: "u8 list \<Rightarrow> int \<Rightarrow> (u64 \<times> u8 list) option" where
  "c_strtol s base =
     skip_blanks s \<bind> (\<lambda>s1.
     let neg = (hd s1 = 45);
         s2 = (if hd s1 = 45 \<or> hd s1 = 43 then tl s1 else s1)
     in strtol_base s2 base \<bind> (\<lambda>(b, s3).
        strtol_digits b 0 s3 \<bind> (\<lambda>(val, s4).
        Some (if neg then - val else val, s4))))"

definition c_atoi :: "u8 list \<Rightarrow> u32 option" where
  "c_atoi s = map_option (\<lambda>(v, _). ucast v) (c_strtol s 10)"

section \<open>lib.c\<close>

text \<open>\<open>to\_string\<close> writes the digits from the lowest up and then reverses them in place.\<close>

function to_string_digits :: "u64 \<Rightarrow> nat \<Rightarrow> u8 list \<Rightarrow> (u8 list \<times> nat) option" where
  "to_string_digits num i str =
     (if num > 0 then
        if i < length str
        then to_string_digits (num div 10) (Suc i) (str[i := ucast (num mod 10) + 48])
        else None
      else Some (str, i))"
  by pat_completeness auto
termination
proof (relation "measure (\<lambda>(num, i, str). unat num)")
  fix num :: u64 and i and str :: "u8 list"
  assume "0 < num"
  then have "0 < unat num" by (simp add: unat_gt_0)
  then show "((num div 10, Suc i, str[i := ucast (num mod 10) + 48]), (num, i, str))
    \<in> measure (\<lambda>(num, i, str). unat num)" by (simp add: unat_div)
qed simp

function to_string_rev :: "nat \<Rightarrow> int \<Rightarrow> u8 list \<Rightarrow> u8 list option" where
  "to_string_rev j i str =
     (if int j < i then
        if nat i < length str
        then to_string_rev (Suc j) (i - 1) (str[j := str ! nat i, nat i := str ! j])
        else None
      else Some str)"
  by pat_completeness auto
termination by (relation "measure (\<lambda>(j, i, str). nat (i - int j))") auto

declare to_string_digits.simps [simp del] to_string_rev.simps [simp del]

definition to_string :: "u64 \<Rightarrow> u8 list \<Rightarrow> u8 list option" where
  "to_string num str =
     to_string_digits num 0 str \<bind> (\<lambda>(str1, i).
       blit str1 i [0] \<bind> to_string_rev 0 (int i - 1))"

text \<open>
  \<open>cmp\_string\<close> walks both strings with an 8-bit index, which wraps at 256; \<open>fuel\<close> counts the
  iterations, and running out of it is \<open>None\<close> like an access outside an object.
\<close>

fun cmp_string_loop :: "nat \<Rightarrow> u8 list \<Rightarrow> u8 list \<Rightarrow> u8 \<Rightarrow> bool option" where
  "cmp_string_loop 0 a b index = None"
| "cmp_string_loop (Suc fuel) a b index =
     (if unat index < length a \<and> unat index < length b then
        if a ! unat index \<noteq> 0 \<or> b ! unat index \<noteq> 0 then
          if a ! unat index \<noteq> b ! unat index then Some False
          else cmp_string_loop fuel a b (index + 1)
        else Some True
      else None)"

section \<open>Strings as NUL-terminated lists\<close>

text \<open>
  \<open>xs @ 0 # rest\<close> with no NUL in \<open>xs\<close> is an object that holds the string \<open>xs\<close>; every valid string
  argument has this form.
\<close>

lemma c_strlen_str [simp]: "0 \<notin> set xs \<Longrightarrow> c_strlen (xs @ 0 # r) = Some (length xs)"
  by (induction xs) auto

lemma c_strlen_Some:
  "c_strlen s = Some n \<Longrightarrow> \<exists>xs r. s = xs @ 0 # r \<and> 0 \<notin> set xs \<and> length xs = n"
proof (induction s arbitrary: n)
  case (Cons c s)
  show ?case
  proof (cases "c = 0")
    case True
    with Cons.prems have "c # s = [] @ 0 # s \<and> 0 \<notin> set ([] :: u8 list) \<and> length ([] :: u8 list) = n"
      by simp
    then show ?thesis by blast
  next
    case False
    with Cons.prems obtain m where m: "c_strlen s = Some m" "n = Suc m" by auto
    from Cons.IH [OF m(1)] obtain xs r where "s = xs @ 0 # r" "0 \<notin> set xs" "length xs = m"
      by auto
    with m(2) False have "c # s = (c # xs) @ 0 # r \<and> 0 \<notin> set (c # xs) \<and> length (c # xs) = n"
      by auto
    then show ?thesis by blast
  qed
qed simp

lemma byte_zero: "uint (x :: u8) = 0 \<longleftrightarrow> x = 0"
  by (metis unsigned_0 unsigned_word_eqI)

lemma byte_pos: "(0 :: u8) \<noteq> x \<Longrightarrow> 0 < uint x"
  by (metis unsigned_0 unsigned_word_eqI uint_ge_0 order_le_less)

text \<open>
  On two strings strcmp returns a value whose sign is the lexicographic order of their bytes
  read as unsigned numbers, and zero exactly for equal strings.
\<close>

theorem strcmp_order:
  assumes "0 \<notin> set xs" "0 \<notin> set ys"
  shows "\<exists>k. c_strcmp (xs @ 0 # r) (ys @ 0 # q) = Some k \<and>
    (k < 0 \<longleftrightarrow> (xs, ys) \<in> lexord {(a, b). a < b}) \<and> (k = 0 \<longleftrightarrow> xs = ys)"
  using assms
proof (induction xs arbitrary: ys)
  case Nil
  then show ?case by (cases ys) (auto simp: byte_pos byte_zero)
next
  case (Cons x xs)
  show ?case
  proof (cases ys)
    case Nil
    with Cons.prems show ?thesis by (auto simp: byte_pos byte_zero)
  next
    case (Cons y ys')
    with Cons.prems Cons.IH [of ys'] show ?thesis
      by (cases "x = y") (auto simp: word_less_def word_uint_eq_iff)
  qed
qed

theorem strcmp_order_witness:
  "\<exists>k. c_strcmp [97, 98, 0] [97, 200, 0] = Some k \<and> k < 0 \<and> k \<noteq> 0"
  using strcmp_order [of "[97, 98]" "[97, 200]" "[]" "[]"] by auto

text \<open>
  The result of strlcpy: the longest prefix that fits, a NUL, the rest of the target as before,
  and the full length of the source.
\<close>

lemma strlcpy_correct:
  assumes "0 \<notin> set xs" "0 < sz" "sz \<le> length dst"
  shows "c_strlcpy dst (xs @ 0 # r) sz =
    Some (take (sz - 1) xs @ 0 # drop (Suc (min (length xs) (sz - 1))) dst, length xs)"
proof -
  define n where "n = min (length xs) (sz - 1)"
  have n: "(if length xs < sz - 1 then length xs else sz - 1) = n" by (simp add: n_def)
  have le: "n \<le> length xs" "n < length dst" using assms by (auto simp: n_def)
  have t: "take n xs = take (sz - 1) xs"  by (cases "length xs \<le> sz - 1") (auto simp: n_def)
  have sl: "slice_at (xs @ 0 # r) 0 n = Some (take (sz - 1) xs)"
    using le t by (simp add: slice_at_def)
  have ln: "length (take (sz - 1) xs) = n" by (simp add: n_def)
  have b1: "blit dst 0 (take (sz - 1) xs) = Some (take (sz - 1) xs @ drop n dst)"
    using le ln by (simp add: blit_def)
  have b2: "blit (take (sz - 1) xs @ drop n dst) n [0] =
      Some (take (sz - 1) xs @ 0 # drop (Suc n) dst)"
    using le ln t by (simp add: blit_def)
  show ?thesis
    using assms n sl b1 b2 by (simp add: c_strlcpy_def Let_def) (simp add: n_def)
qed

section \<open>Decimal numbers\<close>

text \<open>\<open>decimal n\<close> is the decimal numeral of \<open>n\<close>, highest digit first and empty for 0.\<close>

fun decimal :: "nat \<Rightarrow> u8 list" where
  "decimal n = (if n = 0 then [] else decimal (n div 10) @ [of_nat (n mod 10) + 48])"

declare decimal.simps [simp del]

lemma decimal_0 [simp]: "decimal 0 = []"
  by (simp add: decimal.simps)

lemma digit_byte: "d < 10 \<Longrightarrow> uint (of_nat d + 48 :: u8) = int d + 48"
proof -
  assume d: "d < 10"
  then have "unat (of_nat d :: u8) = d" by (simp add: unat_of_nat)
  with d have "unat (of_nat d + 48 :: u8) = d + 48" by (subst unat_plus_small) auto
  then show ?thesis by (metis int_ops(5) of_nat_unat of_nat_numeral)
qed

lemma digit_val_byte: "d < 10 \<Longrightarrow> digit_val (of_nat d + 48) = Some (int d)"
  by (simp add: digit_val_def word_le_def digit_byte)

lemma decimal_digits:
  "c \<in> set (decimal n) \<Longrightarrow> \<exists>d<10. c = of_nat d + 48"
proof (induction n rule: decimal.induct)
  case (1 n)
  show ?case
  proof (cases "n = 0")
    case False
    with 1 show ?thesis by (auto simp: decimal.simps [of n] intro: exI [of _ "n mod 10"])
  qed (use 1 in simp)
qed

lemma decimal_no_NUL: "0 \<notin> set (decimal n)"
proof
  assume "0 \<in> set (decimal n)"
  then obtain d where "d < 10" "(0 :: u8) = of_nat d + 48" using decimal_digits by blast
  then have "uint (0 :: u8) = int d + 48" using digit_byte by metis
  then show False by simp
qed

lemma strtol_digits_decimal:
  assumes "digit_val c = None"
  shows "strtol_digits 10 val (decimal n @ c # r) =
    Some (val * 10 ^ length (decimal n) + of_nat n, c # r)"
proof -
  have "strtol_digits 10 val (decimal n @ s) =
    strtol_digits 10 (val * 10 ^ length (decimal n) + of_nat n) s" for s
  proof (induction n arbitrary: s rule: decimal.induct)
    case (1 n)
    show ?case
    proof (cases "n = 0")
      case False
      have "(of_nat n :: u64) = of_nat (n div 10) * 10 + of_nat (n mod 10)"
        by (metis of_nat_add of_nat_mult of_nat_numeral div_mult_mod_eq)
      moreover have "n mod 10 < 10" by simp
      then have "\<not> 10 \<le> n mod 10" "digit_val (48 + of_nat (n mod 10)) = Some (int (n mod 10))"
        using digit_val_byte [of "n mod 10"] by (simp_all only: not_le add.commute)
      ultimately show ?thesis
        using False 1 by (simp add: decimal.simps [of n] algebra_simps)
    qed simp
  qed
  with assms show ?thesis by simp
qed

section \<open>to\_string and strtol\<close>

text \<open>The first loop leaves the digits in reverse order.\<close>

lemma to_string_digits_correct:
  assumes "length pre + length (decimal (unat num)) \<le> length pre + length post"
  shows "to_string_digits num (length pre) (pre @ post) =
    Some (pre @ rev (decimal (unat num)) @ drop (length (decimal (unat num))) post,
          length pre + length (decimal (unat num)))"
  using assms
proof (induction "unat num" arbitrary: num pre post rule: less_induct)
  case less
  show ?case
  proof (cases "num = 0")
    case True
    then show ?thesis by (simp add: to_string_digits.simps)
  next
    case False
    let ?d = "of_nat (unat num mod 10) + 48 :: u8"
    have pos: "0 < unat num" using False by (simp add: unat_gt_0)
    have dec: "decimal (unat num) = decimal (unat (num div 10)) @ [?d]"
      using pos by (subst decimal.simps) (simp add: unat_div)
    have d: "ucast (num mod 10) + 48 = ?d"
      
      using of_nat_unat [of "num mod 10", where 'a = "8 word"] by (simp add: unat_mod)
    from less.prems dec obtain c post' where post: "post = c # post'" by (cases post) auto
    have lt: "unat (num div 10) < unat num" using pos by (simp add: unat_div)
    have len: "length (pre @ [?d]) + length (decimal (unat (num div 10)))
        \<le> length (pre @ [?d]) + length post'"
      using less.prems dec post by simp
    have "to_string_digits num (length pre) (pre @ post) =
        to_string_digits (num div 10) (length (pre @ [?d])) ((pre @ [?d]) @ post')"
      using False post d by (subst to_string_digits.simps) (simp add: word_gt_0)
    also have "\<dots> = Some ((pre @ [?d]) @ rev (decimal (unat (num div 10))) @
          drop (length (decimal (unat (num div 10)))) post',
          length (pre @ [?d]) + length (decimal (unat (num div 10))))"
      using less.hyps [OF lt len] .
    also have "\<dots> = Some (pre @ rev (decimal (unat num)) @
          drop (length (decimal (unat num))) post, length pre + length (decimal (unat num)))"
      using dec post by simp
    finally show ?thesis .
  qed
qed

lemma to_string_rev_correct:
  "to_string_rev (length pre) (int (length pre + length xs) - 1) (pre @ xs @ post) =
   Some (pre @ rev xs @ post)"
proof (induction "length xs" arbitrary: pre xs post rule: less_induct)
  case less
  show ?case
  proof (cases "length xs < 2")
    case True
    then have "rev xs = xs" by (cases xs) (auto simp: less_2_cases_iff)
    with True show ?thesis by (subst to_string_rev.simps) auto
  next
    case False
    then obtain a ys b where xs: "xs = a # ys @ [b]"
      by (cases xs; cases "tl xs" rule: rev_cases) auto
    have n: "nat (int (length pre + length xs) - 1) = length pre + Suc (length ys)"
      by (simp add: xs)
    have upd: "(pre @ xs @ post)[length pre := b, length pre + Suc (length ys) := a] =
        (pre @ [b]) @ ys @ a # post"
      by (simp add: xs list_update_append)
    have "to_string_rev (length pre) (int (length pre + length xs) - 1) (pre @ xs @ post) =
        to_string_rev (length (pre @ [b])) (int (length (pre @ [b]) + length ys) - 1)
          ((pre @ [b]) @ ys @ a # post)"
      using n upd by (subst to_string_rev.simps) (simp add: xs nth_append algebra_simps)
    also have "\<dots> = Some ((pre @ [b]) @ rev ys @ a # post)"
      using less.hyps [of ys "pre @ [b]" "a # post"] by (simp add: xs)
    finally show ?thesis by (simp add: xs)
  qed
qed

lemma to_string_correct:
  assumes "length (decimal (unat num)) < length str"
  shows "to_string num str =
    Some (decimal (unat num) @ 0 # drop (Suc (length (decimal (unat num)))) str)"
proof -
  let ?d = "decimal (unat num)"
  have "to_string_digits num 0 str = Some (rev ?d @ drop (length ?d) str, length ?d)"
    using to_string_digits_correct [of "[]" num str] assms by simp
  moreover have "blit (rev ?d @ drop (length ?d) str) (length ?d) [0] =
      Some ([] @ rev ?d @ 0 # drop (Suc (length ?d)) str)"
    using assms by (simp add: blit_def)
  moreover note to_string_rev_correct [of "[]" "rev ?d" "0 # drop (Suc (length ?d)) str"]
  ultimately show ?thesis by (simp add: to_string_def)
qed

lemma skip_blanks_other: "c \<noteq> 32 \<Longrightarrow> c \<noteq> 9 \<Longrightarrow> skip_blanks (c # s) = Some (c # s)"
  by simp

lemma decimal_hd: "decimal n = c # s \<Longrightarrow> \<exists>d<10. c = of_nat d + 48"
  using decimal_digits [of c n] by simp

lemma digit_byte_ge: "d < 10 \<Longrightarrow> 48 \<le> uint (of_nat d + 48 :: u8)"
  by (simp add: digit_byte)

text \<open>
  The number printed by to\_string is read back by strtol in base 10, for every 64-bit value
  (the digits of the largest ones pass through the wrap-around of the accumulator unharmed).
\<close>

theorem to_string_strtol:
  assumes "21 \<le> length str"
  shows "\<exists>str'. to_string num str = Some str' \<and>
    (\<exists>rest. c_strtol str' 10 = Some (num, 0 # rest))"
proof -
  let ?d = "decimal (unat num)"
  have len: "length ?d \<le> 20"
  proof -
    have "n < 10 ^ k \<Longrightarrow> length (decimal n) \<le> k" for n k
    proof (induction k arbitrary: n)
      case (Suc k)
      then show ?case by (cases "n = 0") (auto simp: decimal.simps [of n])
    qed simp
    moreover have "unat num < 10 ^ 20" using unat_less_2p [of num] by simp
    ultimately show ?thesis by blast
  qed
  define r where "r = drop (Suc (length ?d)) str"
  have to: "to_string num str = Some (?d @ 0 # r)"
    using to_string_correct len assms by (simp add: r_def)
  have z: "digit_val 0 = None" by (simp add: digit_val_def)
  have "c_strtol (?d @ 0 # r) 10 = Some (num, 0 # r)"
  proof (cases "?d")
    case Nil
    then have "unat num = 0" using decimal.simps [of "unat num"] by (auto split: if_splits)
    then have "num = 0" by (simp add: unat_eq_zero)
    with Nil z show ?thesis by (simp add: c_strtol_def strtol_base_def)
  next
    case (Cons c s)
    then obtain d where d: "d < 10" "c = of_nat d + 48" using decimal_hd by blast
    then have "48 \<le> uint c" using digit_byte_ge by blast
    then have "c \<noteq> 32" "c \<noteq> 9" "c \<noteq> 45" "c \<noteq> 43" by auto
    moreover have "strtol_digits 10 0 (?d @ 0 # r) = Some (num, 0 # r)"
      using strtol_digits_decimal [OF z, of 0 "unat num" r] by simp
    ultimately show ?thesis
      using Cons by (simp add: c_strtol_def strtol_base_def)
  qed
  with to show ?thesis by blast
qed

theorem to_string_strtol_witness:
  "\<exists>str'. to_string 18446744073709551615 (replicate 64 7) = Some str' \<and>
     (\<exists>rest. c_strtol str' 10 = Some (18446744073709551615, 0 # rest))"
  by (rule to_string_strtol) simp

text \<open>
  The 8-bit index of cmp\_string: two equal strings of 256 bytes or more send it round for ever.
\<close>

lemma cmp_string_diverges:
  assumes "256 \<le> length a" "256 \<le> length b" "\<And>i. i < 256 \<Longrightarrow> a ! i = b ! i \<and> a ! i \<noteq> 0"
  shows "cmp_string_loop fuel a b index = None"
proof (induction fuel arbitrary: index)
  case (Suc fuel)
  have "unat index < 256" using unat_less_2p [of index] by simp
  with assms(3) have "a ! unat index = b ! unat index" "a ! unat index \<noteq> 0" by blast+
  with assms(1,2) Suc \<open>unat index < 256\<close> show ?case by simp
qed simp

end
