(* ===== verification/Interfaces.thy ===== *)
theory Interfaces
  imports Prelude
begin

text \<open>
  The contracts between components. Each locale fixes the operations a client calls and assumes
  the laws the provider promises; the provider's theory interprets it on its own definitions,
  and the client's theory proves its lemmas inside it.
\<close>

section \<open>Page allocator and physical memory\<close>

text \<open>
  What \<open>vmm.c\<close> needs of \<open>pmm.c\<close>: one zeroed page at a time, never one that is already owned, and
  the 64-bit words of physical memory. The operations are passed to the client's definitions as
  one record.
\<close>

record 's page_ops =
  page_alloc :: "'s \<Rightarrow> (nat \<times> 's) option"
  word_read :: "'s \<Rightarrow> nat \<Rightarrow> u64"
  word_write :: "nat \<Rightarrow> u64 \<Rightarrow> 's \<Rightarrow> 's"

locale page_allocator =
  fixes ops :: "'s page_ops"
    and owned :: "'s \<Rightarrow> nat \<Rightarrow> bool"
    and inv :: "'s \<Rightarrow> bool"
  assumes alloc_total: "inv s \<Longrightarrow> page_alloc ops s \<noteq> None"
    and alloc_null: "inv s \<Longrightarrow> page_alloc ops s = Some (0, s') \<Longrightarrow> s' = s"
    and alloc_page: "inv s \<Longrightarrow> page_alloc ops s = Some (a, s') \<Longrightarrow> a \<noteq> 0 \<Longrightarrow>
      inv s' \<and> (\<exists>p. a = p * 4096 \<and> 1 \<le> p \<and> p < 2 ^ 40 \<and> \<not> owned s p \<and>
        (\<forall>c. owned s' c \<longleftrightarrow> c = p \<or> owned s c) \<and>
        (\<forall>w. word_read ops s' w = (if w div 512 = p then 0 else word_read ops s w)))"
    and read_write: "word_read ops (word_write ops w x s) v =
      (if v = w then x else word_read ops s v)"
    and write_inv: "inv (word_write ops w x s) \<longleftrightarrow> inv s"
    and write_owned: "owned (word_write ops w x s) = owned s"

section \<open>Heap\<close>

text \<open>
  What the kernel's clients need of \<open>malloc\<close> and \<open>free\<close>: \<open>regions\<close> are the regions in use, as pairs
  of a pointer and a size. A request for a size that does not wrap is answered with NULL and an
  unchanged heap, or with a new region apart from all others; a region in use can be freed. All
  regions lie in the \<open>arena\<close>, the addresses the heap was given at boot, so static objects of the
  kernel are apart from them.
\<close>

record 'h heap_ops =
  heap_malloc :: "u64 \<Rightarrow> 'h \<Rightarrow> (u64 \<times> 'h) option"
  heap_free :: "u64 \<Rightarrow> 'h \<Rightarrow> 'h option"

locale heap_allocator =
  fixes ops :: "'h heap_ops"
    and regions :: "'h \<Rightarrow> (u64 \<times> nat) set"
    and inv :: "'h \<Rightarrow> bool"
    and arena :: "'h \<Rightarrow> u64 set"
  assumes malloc_total: "inv h \<Longrightarrow> sz \<noteq> 0 \<Longrightarrow> unat sz \<le> 2 ^ 64 - 16 \<Longrightarrow> heap_malloc ops sz h \<noteq> None"
    and malloc_null: "inv h \<Longrightarrow> sz \<noteq> 0 \<Longrightarrow> unat sz \<le> 2 ^ 64 - 16 \<Longrightarrow>
      heap_malloc ops sz h = Some (0, h') \<Longrightarrow> h' = h"
    and malloc_region: "inv h \<Longrightarrow> sz \<noteq> 0 \<Longrightarrow> unat sz \<le> 2 ^ 64 - 16 \<Longrightarrow>
      heap_malloc ops sz h = Some (p, h') \<Longrightarrow> p \<noteq> 0 \<Longrightarrow>
      inv h' \<and> 16 dvd unat p \<and> (\<exists>m. unat sz \<le> m \<and> unat p + m < 2 ^ 64 \<and>
        regions h' = insert (p, m) (regions h) \<and> (\<forall>n. (p, n) \<notin> regions h))"
    and free_region: "inv h \<Longrightarrow> (p, n) \<in> regions h \<Longrightarrow>
      \<exists>h'. heap_free ops p h = Some h' \<and> inv h' \<and> regions h' = regions h - {(p, n)}"
    and region_unique: "inv h \<Longrightarrow> (p, n) \<in> regions h \<Longrightarrow> (p, m) \<in> regions h \<Longrightarrow> m = n"
    and region_null: "inv h \<Longrightarrow> (0, n) \<notin> regions h"
    and region_arena: "inv h \<Longrightarrow> (p, n) \<in> regions h \<Longrightarrow> p \<in> arena h"
    and malloc_arena: "heap_malloc ops sz h = Some (p, h') \<Longrightarrow> arena h' = arena h"
    and free_arena: "heap_free ops p h = Some h' \<Longrightarrow> arena h' = arena h"
begin

text \<open>Freeing several regions one after the other.\<close>

primrec free_list :: "u64 list \<Rightarrow> 'h \<Rightarrow> 'h option" where
  "free_list [] h = Some h"
| "free_list (p # ps) h = heap_free ops p h \<bind> free_list ps"

lemma free_list_regions:
  assumes "inv h" "distinct ps" "set ps \<subseteq> fst ` regions h"
  shows "\<exists>h'. free_list ps h = Some h' \<and> inv h' \<and> regions h' = {r \<in> regions h. fst r \<notin> set ps}"
  using assms
proof (induction ps arbitrary: h)
  case (Cons p ps)
  from Cons.prems obtain n where n: "(p, n) \<in> regions h" by auto
  from free_region [OF Cons.prems(1) n] obtain h1 where
    h1: "heap_free ops p h = Some h1" "inv h1" "regions h1 = regions h - {(p, n)}" by blast
  have p: "r \<in> regions h1 \<longleftrightarrow> r \<in> regions h \<and> fst r \<noteq> p" for r
    using region_unique [OF Cons.prems(1) n, of "snd r"] n by (cases r) (auto simp: h1(3))
  have "set ps \<subseteq> fst ` regions h1"
  proof
    fix q assume q: "q \<in> set ps"
    then obtain m where "(q, m) \<in> regions h" using Cons.prems(3) by auto
    moreover have "q \<noteq> p" using q Cons.prems(2) by auto
    ultimately have "(q, m) \<in> regions h1" by (simp add: p)
    then show "q \<in> fst ` regions h1" by force
  qed
  with Cons.IH [OF h1(2)] Cons.prems(2) obtain h' where
    "free_list ps h1 = Some h'" "inv h'" "regions h' = {r \<in> regions h1. fst r \<notin> set ps}" by auto
  moreover have "{r \<in> regions h1. fst r \<notin> set ps} = {r \<in> regions h. fst r \<notin> set (p # ps)}"
    by (auto simp: p)
  ultimately show ?case using h1(1) by simp
qed simp

end

text \<open>
  C's \<open>malloc\<close> and \<open>free\<close> at their edges: no memory for a size of 0, and freeing NULL does nothing. A
  function that allocates and frees again is described by \<open>temp\<close>: besides the regions \<open>R\<close> that were
  there before, the regions in use are those of the pointers \<open>ps\<close>, some of which may be NULL.
\<close>

locale c_heap = heap_allocator +
  assumes malloc_zero: "heap_malloc ops 0 h = Some (0, h)"
    and free_null: "heap_free ops 0 h = Some h"
begin

definition temp :: "(u64 \<times> nat) set \<Rightarrow> u64 list \<Rightarrow> 'a \<Rightarrow> bool" where
  "temp R ps h \<longleftrightarrow> inv h \<and> R \<subseteq> regions h \<and> fst ` (regions h - R) = set ps - {0} \<and>
     (set ps - {0}) \<inter> fst ` R = {} \<and> distinct (removeAll 0 ps)"

lemma temp_start: "inv h \<Longrightarrow> temp (regions h) [] h"
  by (simp add: temp_def)

lemma temp_end: "temp R ps h \<Longrightarrow> set ps \<subseteq> {0} \<Longrightarrow> inv h \<and> regions h = R"
  unfolding temp_def by auto

lemma temp_inv: "temp R ps h \<Longrightarrow> inv h"
  by (simp add: temp_def)

lemma malloc_temp:
  assumes t: "temp R ps h" and sz: "unat sz \<le> 2 ^ 64 - 16"
  shows "\<exists>p h'. heap_malloc ops sz h = Some (p, h') \<and> temp R (p # ps) h'"
proof (cases "sz = 0")
  case True
  then show ?thesis using malloc_zero t by (auto simp: temp_def)
next
  case False
  have inv: "inv h" using t by (rule temp_inv)
  from malloc_total [OF inv False sz] obtain p h' where m: "heap_malloc ops sz h = Some (p, h')" by auto
  show ?thesis
  proof (cases "p = 0")
    case True
    then have "h' = h" using malloc_null [OF inv False sz] m by simp
    then show ?thesis using m True t by (auto simp: temp_def)
  next
    case p: False
    from malloc_region [OF inv False sz m p] obtain k where k: "inv h'" "regions h' = insert (p, k) (regions h)"
      "\<forall>n. (p, n) \<notin> regions h" by blast
    have np: "p \<notin> fst ` regions h" using k(3) by force
    have "R \<subseteq> regions h" "fst ` (regions h - R) = set ps - {0}" using t by (simp_all add: temp_def)
    then have n: "p \<notin> set ps" "p \<notin> fst ` R" using np p by (blast, blast)
    have "regions h' - R = insert (p, k) (regions h - R)" using k(2) n(2) by force
    then show ?thesis using m t k(1,2) n p by (auto simp: temp_def)
  qed
qed

lemma free_temp:
  assumes t: "temp R ps h" and p: "p \<in> set ps"
  shows "\<exists>h'. heap_free ops p h = Some h' \<and> temp R (removeAll p ps) h'"
proof (cases "p = 0")
  case True
  then show ?thesis using free_null t by (auto simp: temp_def)
next
  case False
  have T: "inv h" "R \<subseteq> regions h" "fst ` (regions h - R) = set ps - {0}" "(set ps - {0}) \<inter> fst ` R = {}"
    "distinct (removeAll 0 ps)" using t by (simp_all add: temp_def)
  have "p \<in> fst ` (regions h - R)" using T(3) p False by simp
  then obtain n where n: "(p, n) \<in> regions h" "(p, n) \<notin> R" by auto
  from free_region [OF T(1) n(1)] obtain h' where h: "heap_free ops p h = Some h'" "inv h'"
    "regions h' = regions h - {(p, n)}" by blast
  have u: "r = (p, n)" if "r \<in> regions h" "fst r = p" for r
    using region_unique [OF T(1) n(1), of "snd r"] that by (cases r) auto
  have "fst ` (regions h' - R) = fst ` (regions h - R) - {p}"
    unfolding h(3) using u by force
  moreover have "distinct (removeAll 0 (removeAll p ps))"
  proof -
    have "removeAll 0 (removeAll p ps) = removeAll p (removeAll 0 ps)" by (induction ps) auto
    then show ?thesis using T(5) by (simp add: distinct_removeAll)
  qed
  ultimately have "temp R (removeAll p ps) h'"
    unfolding temp_def using T h n by auto
  then show ?thesis using h(1) by blast
qed

end

section \<open>Bounded queue\<close>

text \<open>
  The contract of a bounded queue that drops what does not fit: \<open>contents\<close> is the list of pending
  elements, oldest first, and \<open>cap\<close> the number of elements it can hold.
\<close>

locale bounded_queue =
  fixes push :: "'a \<Rightarrow> 'q \<Rightarrow> 'q"
    and poll :: "'q \<Rightarrow> ('a \<times> 'q) option"
    and contents :: "'q \<Rightarrow> 'a list"
    and invar :: "'q \<Rightarrow> bool"
    and cap :: nat
  assumes push_invar: "invar q \<Longrightarrow> invar (push x q)"
    and push_contents: "invar q \<Longrightarrow>
      contents (push x q) = (if length (contents q) < cap then contents q @ [x] else contents q)"
    and poll_None: "invar q \<Longrightarrow> poll q = None \<longleftrightarrow> contents q = []"
    and poll_Some: "invar q \<Longrightarrow> poll q = Some (x, q') \<Longrightarrow> invar q' \<and> contents q = x # contents q'"
    and contents_cap: "invar q \<Longrightarrow> length (contents q) \<le> cap"
begin

lemma push_all_contents:
  assumes "invar q" "length (contents q) + length xs \<le> cap"
  shows "invar (fold push xs q) \<and> contents (fold push xs q) = contents q @ xs"
  using assms
proof (induction xs arbitrary: q)
  case (Cons x xs)
  then show ?case using Cons.IH [of "push x q"] by (auto simp: push_contents push_invar)
qed simp

lemma push_prefix: "invar q \<Longrightarrow> \<exists>ys. contents (fold push xs q) = contents q @ ys \<and> invar (fold push xs q)"
proof (induction xs arbitrary: q)
  case (Cons x xs)
  then obtain ys where "contents (fold push xs (push x q)) = contents (push x q) @ ys"
    "invar (fold push xs (push x q))" using push_invar by blast
  then show ?case using push_contents [OF Cons.prems, of x] by auto
qed simp

lemma poll_after_push:
  assumes "invar q" "contents q = []" "0 < cap"
  shows "\<exists>q'. poll (push x q) = Some (x, q') \<and> contents q' = []"
proof -
  have c: "contents (push x q) = [x]" using push_contents [OF assms(1), of x] assms by simp
  with poll_None [OF push_invar [OF assms(1)], of x] obtain y q' where
    "poll (push x q) = Some (y, q')" by (cases "poll (push x q)") auto
  with poll_Some [OF push_invar [OF assms(1)] this] c show ?thesis by simp
qed

end

section \<open>Total preorders given by a comparison function\<close>

text \<open>
  What sorting and searching need of a three-way comparison such as strcmp: \<open>cmp x y\<close> is negative,
  zero or positive, and reads as a total preorder.
\<close>

locale comparison =
  fixes cmp :: "'a \<Rightarrow> 'a \<Rightarrow> int"
  assumes cmp_swap: "cmp x y < 0 \<longleftrightarrow> 0 < cmp y x"
    and cmp_trans: "cmp x y \<le> 0 \<Longrightarrow> cmp y z \<le> 0 \<Longrightarrow> cmp x z \<le> 0"
begin

definition le :: "'a \<Rightarrow> 'a \<Rightarrow> bool" where
  "le x y \<longleftrightarrow> cmp x y \<le> 0"

lemma le_refl: "le x x"
  using cmp_swap [of x x] by (auto simp: le_def)

lemma le_total: "le x y \<or> le y x"
  using cmp_swap [of x y] cmp_swap [of y x] by (auto simp: le_def)

lemma le_trans: "le x y \<Longrightarrow> le y z \<Longrightarrow> le x z"
  using cmp_trans by (auto simp: le_def)

lemma not_le_less: "\<not> le x y \<longleftrightarrow> cmp y x < 0"
  using cmp_swap [of y x] by (auto simp: le_def)

lemma le_eq: "cmp x y = 0 \<longleftrightarrow> le x y \<and> le y x"
  using cmp_swap [of x y] cmp_swap [of y x] by (auto simp: le_def)

end

end
