(* ===== verification/Pmm.thy ===== *)
theory Pmm
  imports Interfaces
begin

text \<open>
  The physical page allocator, \<open>pmm.c\<close>: one bit per page (1 = used), a first-fit search for runs
  of pages, and zeroing of what is handed out. The state holds the bitmap bytes, the page count
  and the 64-bit words of physical memory, word \<open>w\<close> at physical address \<open>8 * w\<close> (the HHDM offset
  the code adds to reach them cancels out). Physical addresses are natural numbers, 0 is NULL.
  The bitmap itself lies in pages that \<open>pmm\_init\<close> marks used, so no page handed out overlaps it,
  and the model keeps it apart from the other memory. \<open>None\<close> is an access outside the bitmap.
\<close>

section \<open>State and bitmap\<close>

record pmm =
  bitmap :: "u8 list"
  highest_page :: nat
  phys :: "nat \<Rightarrow> u64"

definition bitmap_set :: "nat \<Rightarrow> u8 list \<Rightarrow> u8 list option" where
  "bitmap_set b bm =
     (if b div 8 < length bm
      then Some (bm[b div 8 := (bm ! (b div 8)) OR push_bit (b mod 8) 1]) else None)"

definition bitmap_clear :: "nat \<Rightarrow> u8 list \<Rightarrow> u8 list option" where
  "bitmap_clear b bm =
     (if b div 8 < length bm
      then Some (bm[b div 8 := (bm ! (b div 8)) AND NOT (push_bit (b mod 8) 1)]) else None)"

definition bitmap_test :: "nat \<Rightarrow> u8 list \<Rightarrow> bool option" where
  "bitmap_test b bm =
     (if b div 8 < length bm
      then Some ((bm ! (b div 8)) AND push_bit (b mod 8) 1 \<noteq> 0) else None)"

primrec bitmap_set_run :: "nat \<Rightarrow> nat \<Rightarrow> u8 list \<Rightarrow> u8 list option" where
  "bitmap_set_run start 0 bm = Some bm"
| "bitmap_set_run start (Suc n) bm = bitmap_set start bm \<bind> bitmap_set_run (Suc start) n"

primrec bitmap_clear_run :: "nat \<Rightarrow> nat \<Rightarrow> u8 list \<Rightarrow> u8 list option" where
  "bitmap_clear_run start 0 bm = Some bm"
| "bitmap_clear_run start (Suc n) bm = bitmap_clear start bm \<bind> bitmap_clear_run (Suc start) n"

section \<open>Allocation and release\<close>

text \<open>
  The search of \<open>pmm\_alloc\_pages\<close>: the inner result is the first page of the first run of \<open>count\<close>
  free pages from page 1 on.
\<close>

function alloc_scan :: "u8 list \<Rightarrow> nat \<Rightarrow> nat \<Rightarrow> nat \<Rightarrow> nat \<Rightarrow> nat \<Rightarrow> nat option option" where
  "alloc_scan bm highest count i run_length run_start =
     (if i < highest then
        bitmap_test i bm \<bind> (\<lambda>used.
        if \<not> used then
          let run_start' = (if run_length = 0 then i else run_start);
              run_length' = Suc run_length
          in if run_length' = count then Some (Some run_start')
             else alloc_scan bm highest count (Suc i) run_length' run_start'
        else alloc_scan bm highest count (Suc i) 0 run_start)
      else Some None)"
  by pat_completeness auto
termination by (relation "measure (\<lambda>(bm, highest, count, i, l, s). highest - i)") auto

declare alloc_scan.simps [simp del]

definition zero_pages :: "nat \<Rightarrow> nat \<Rightarrow> (nat \<Rightarrow> u64) \<Rightarrow> nat \<Rightarrow> u64" where
  "zero_pages start count ph =
     (\<lambda>w. if start * 512 \<le> w \<and> w < start * 512 + (4096 * count) div 8 then 0 else ph w)"

definition pmm_alloc_pages :: "nat \<Rightarrow> pmm \<Rightarrow> (nat \<times> pmm) option" where
  "pmm_alloc_pages count pm =
     (if count = 0 then Some (0, pm)
      else alloc_scan (bitmap pm) (highest_page pm) count 1 0 0 \<bind> (\<lambda>r.
        case r of
          None \<Rightarrow> Some (0, pm)
        | Some run_start \<Rightarrow>
            bitmap_set_run run_start count (bitmap pm) \<bind> (\<lambda>bm.
            Some (run_start * 4096,
                  pm\<lparr>bitmap := bm, phys := zero_pages run_start count (phys pm)\<rparr>))))"

definition pmm_alloc_page :: "pmm \<Rightarrow> (nat \<times> pmm) option" where
  "pmm_alloc_page = pmm_alloc_pages 1"

definition pmm_free_pages :: "nat \<Rightarrow> nat \<Rightarrow> pmm \<Rightarrow> pmm option" where
  "pmm_free_pages page count pm =
     (if page mod 4096 \<noteq> 0 then Some pm
      else map_option (\<lambda>bm. pm\<lparr>bitmap := bm\<rparr>)
             (bitmap_clear_run (page div 4096) count (bitmap pm)))"

definition pmm_free_page :: "nat \<Rightarrow> pmm \<Rightarrow> pmm option" where
  "pmm_free_page page = pmm_free_pages page 1"

section \<open>Initialisation\<close>

text \<open>The entries of the boot loader's memory map, with the types \<open>pmm\_init\<close> looks at.\<close>

datatype mm_type =
  Usable | Reserved | Acpi_Reclaimable | Acpi_Nvs | Bad_Memory | Bootloader_Reclaimable
| Kernel_And_Modules | Framebuffer

record mm_entry =
  mm_base :: nat
  mm_length :: nat
  mm_kind :: mm_type

definition counts_for_top :: "mm_type \<Rightarrow> bool" where
  "counts_for_top t \<longleftrightarrow>
     t = Usable \<or> t = Bootloader_Reclaimable \<or> t = Acpi_Reclaimable \<or> t = Kernel_And_Modules"

fun highest_addr :: "mm_entry list \<Rightarrow> nat \<Rightarrow> nat" where
  "highest_addr [] h = h"
| "highest_addr (e # es) h =
     highest_addr es
       (if counts_for_top (mm_kind e) \<and> mm_base e + mm_length e > h
        then mm_base e + mm_length e else h)"

fun find_bitmap :: "nat \<Rightarrow> mm_entry list \<Rightarrow> nat option" where
  "find_bitmap bsize [] = None"
| "find_bitmap bsize (e # es) =
     (if mm_kind e = Usable \<and> mm_length e \<ge> bsize then Some (mm_base e) else find_bitmap bsize es)"

text \<open>\<open>for (addr = from; addr < to; addr += PAGE\_SIZE)\<close> with one bitmap update per page.\<close>

function for_pages :: "(nat \<Rightarrow> u8 list \<Rightarrow> u8 list option) \<Rightarrow> nat \<Rightarrow> nat \<Rightarrow> u8 list \<Rightarrow> u8 list option" where
  "for_pages f addr to bm =
     (if addr < to then f (addr div 4096) bm \<bind> for_pages f (addr + 4096) to else Some bm)"
  by pat_completeness auto
termination by (relation "measure (\<lambda>(f, addr, to, bm). to - addr)") auto

declare for_pages.simps [simp del]

fun free_usable :: "mm_entry list \<Rightarrow> u8 list \<Rightarrow> u8 list option" where
  "free_usable [] bm = Some bm"
| "free_usable (e # es) bm =
     (if mm_kind e = Usable
      then for_pages bitmap_clear (mm_base e) (mm_base e + mm_length e) bm
      else Some bm) \<bind> free_usable es"

text \<open>
  The state before \<open>pmm\_init\<close> has no bitmap and no pages; with no region for the bitmap it keeps
  no bitmap but does set the page count. The memory map is \<open>None\<close> when the boot loader gave none.
\<close>

definition pmm_init :: "mm_entry list option \<Rightarrow> bool \<Rightarrow> (nat \<Rightarrow> u64) \<Rightarrow> pmm option" where
  "pmm_init mmap hhdm_response ph =
     (case mmap of
        None \<Rightarrow> Some \<lparr>bitmap = [], highest_page = 0, phys = ph\<rparr>
      | Some es \<Rightarrow>
          if \<not> hhdm_response then Some \<lparr>bitmap = [], highest_page = 0, phys = ph\<rparr>
          else
            let hp = highest_addr es 0 div 4096;
                b = hp div 8;
                bsize = (if b * 8 < hp then b + 1 else b)
            in case find_bitmap bsize es of
                 None \<Rightarrow> Some \<lparr>bitmap = [], highest_page = hp, phys = ph\<rparr>
               | Some bphys \<Rightarrow>
                   free_usable es (replicate bsize 0xFF) \<bind>
                   for_pages bitmap_set bphys (bphys + bsize) \<bind>
                   bitmap_set 0 \<bind> (\<lambda>bm.
                   Some \<lparr>bitmap = bm, highest_page = hp, phys = ph\<rparr>))"

section \<open>The bitmap as a set of used pages\<close>

definition used :: "u8 list \<Rightarrow> nat \<Rightarrow> bool" where
  "used bm b \<longleftrightarrow> bit (bm ! (b div 8)) (b mod 8)"

definition free_run :: "u8 list \<Rightarrow> nat \<Rightarrow> nat \<Rightarrow> bool" where
  "free_run bm start n \<longleftrightarrow> (\<forall>j<n. \<not> used bm (start + j))"

text \<open>
  The invariant: the bitmap covers every managed page, page 0 is used, and addresses fit in the
  52 bits of an x86-64 physical address.
\<close>

definition pmm_inv :: "pmm \<Rightarrow> bool" where
  [inv_simps]: "pmm_inv pm \<longleftrightarrow> highest_page pm \<le> 8 * length (bitmap pm) \<and>
     highest_page pm \<le> 2 ^ 40 \<and> (0 < highest_page pm \<longrightarrow> used (bitmap pm) 0)"

lemma div8_less: "b < 8 * n \<Longrightarrow> b div 8 < (n :: nat)"
  by (simp add: less_mult_imp_div_less mult.commute)

lemma bitmap_test_used: "b < 8 * length bm \<Longrightarrow> bitmap_test b bm = Some (used bm b)"
  by (simp add: bitmap_test_def used_def bit_iff_and_push_bit_not_eq_0 div8_less)

lemma same_bit: "b div 8 = c div 8 \<Longrightarrow> b mod 8 = c mod 8 \<Longrightarrow> b = (c :: nat)"
  by (metis div_mult_mod_eq)

lemma bitmap_set_used:
  assumes "b < 8 * length bm"
  shows "\<exists>bm'. bitmap_set b bm = Some bm' \<and> length bm' = length bm \<and>
    (\<forall>c. used bm' c \<longleftrightarrow> c = b \<or> used bm c)"
proof -
  have "bit (bm[b div 8 := bm ! (b div 8) OR push_bit (b mod 8) 1] ! (c div 8)) (c mod 8) \<longleftrightarrow>
      c = b \<or> bit (bm ! (c div 8)) (c mod 8)" for c
    using assms same_bit [of c b]
    by (cases "c div 8 = b div 8") (auto simp: bit_simps div8_less nth_list_update)
  then show ?thesis using assms by (simp add: bitmap_set_def div8_less used_def)
qed

lemma bitmap_clear_used:
  assumes "b < 8 * length bm"
  shows "\<exists>bm'. bitmap_clear b bm = Some bm' \<and> length bm' = length bm \<and>
    (\<forall>c. used bm' c \<longleftrightarrow> c \<noteq> b \<and> used bm c)"
proof -
  have "bit (bm[b div 8 := bm ! (b div 8) AND NOT (push_bit (b mod 8) 1)] ! (c div 8)) (c mod 8)
      \<longleftrightarrow> c \<noteq> b \<and> bit (bm ! (c div 8)) (c mod 8)" for c
    using assms same_bit [of c b]
    by (cases "c div 8 = b div 8") (auto simp: bit_simps div8_less nth_list_update)
  then show ?thesis using assms by (simp add: bitmap_clear_def div8_less used_def)
qed

lemma bitmap_set_run_used:
  assumes "start + n \<le> 8 * length bm"
  shows "\<exists>bm'. bitmap_set_run start n bm = Some bm' \<and> length bm' = length bm \<and>
    (\<forall>c. used bm' c \<longleftrightarrow> start \<le> c \<and> c < start + n \<or> used bm c)"
  using assms
proof (induction n arbitrary: start bm)
  case (Suc n)
  then obtain bm1 where bm1: "bitmap_set start bm = Some bm1" "length bm1 = length bm"
    "\<And>c. used bm1 c \<longleftrightarrow> c = start \<or> used bm c" using bitmap_set_used [of start bm] by auto
  with Suc.IH [of "Suc start" bm1] Suc.prems show ?case by auto
qed auto

lemma bitmap_clear_run_used:
  assumes "start + n \<le> 8 * length bm"
  shows "\<exists>bm'. bitmap_clear_run start n bm = Some bm' \<and> length bm' = length bm \<and>
    (\<forall>c. used bm' c \<longleftrightarrow> \<not> (start \<le> c \<and> c < start + n) \<and> used bm c)"
  using assms
proof (induction n arbitrary: start bm)
  case (Suc n)
  then obtain bm1 where bm1: "bitmap_clear start bm = Some bm1" "length bm1 = length bm"
    "\<And>c. used bm1 c \<longleftrightarrow> c \<noteq> start \<and> used bm c" using bitmap_clear_used [of start bm] by auto
  with Suc.IH [of "Suc start" bm1] Suc.prems show ?case by auto
qed auto

section \<open>First fit\<close>

text \<open>
  What the search has established at page \<open>i\<close>: the current run starts at \<open>c\<close>, reaches up to \<open>i\<close> and
  is still too short, and no run of the wanted length starts before \<open>c\<close>.
\<close>

lemma alloc_scan_correct:
  assumes "highest \<le> 8 * length bm" "c + l = i" "1 \<le> c" "l < count" "l \<noteq> 0 \<longrightarrow> s = c"
    "i \<le> max 1 highest" "free_run bm c l" "\<And>t. 1 \<le> t \<Longrightarrow> t < c \<Longrightarrow> \<not> free_run bm t count"
  shows "\<exists>r. alloc_scan bm highest count i l s = Some r \<and>
    (case r of
       None \<Rightarrow> \<forall>t. 1 \<le> t \<and> t + count \<le> highest \<longrightarrow> \<not> free_run bm t count
     | Some p \<Rightarrow> 1 \<le> p \<and> p + count \<le> highest \<and> free_run bm p count \<and>
         (\<forall>t. 1 \<le> t \<and> t < p \<longrightarrow> \<not> free_run bm t count))"
  using assms
proof (induction "highest - i" arbitrary: c l i s rule: less_induct)
  case less
  show ?case
  proof (cases "i < highest")
    case False
    with less.prems have "\<not> free_run bm t count" if "1 \<le> t" "t + count \<le> highest" for t
      using that by (cases "t < c") auto
    with False show ?thesis by (subst alloc_scan.simps) auto
  next
    case True
    note test = bitmap_test_used [of i bm]
    note IH = less.hyps [of "Suc i"]
    show ?thesis
    proof (cases "used bm i")
      case used: True
      have "\<not> free_run bm t count" if "1 \<le> t" "t < Suc i" for t
        using less.prems(2,4,8) used that unfolding free_run_def
        by (cases "t < c") (auto intro!: exI [of _ "i - t"])
      then show ?thesis
        using IH [of "Suc i" 0 s] less.prems True used test
        by (subst alloc_scan.simps) (auto simp: free_run_def)
    next
      case unused: False
      define s' where "s' = (if l = 0 then i else s)"
      have s': "s' = c" using less.prems by (auto simp: s'_def)
      have run: "free_run bm c (Suc l)"
        using less.prems(2,7) unused by (auto simp: free_run_def less_Suc_eq)
      show ?thesis
      proof (cases "Suc l = count")
        case full: True
        have "alloc_scan bm highest count i l s = Some (Some c)"
          using less.prems True unused test full s'
          by (subst alloc_scan.simps) (auto simp: s'_def Let_def)
        then show ?thesis using less.prems run True full by auto
      next
        case False
        have "alloc_scan bm highest count i l s = alloc_scan bm highest count (Suc i) (Suc l) s'"
          using less.prems True unused test False
          by (subst alloc_scan.simps) (auto simp: s'_def Let_def)
        then show ?thesis
          using IH [of c "Suc l" s'] less.prems True False run s' by auto
      qed
    qed
  qed
qed

text \<open>The specification: the outcome \<open>(a, pm')\<close> of a request for \<open>count\<close> pages in state \<open>pm\<close>.\<close>

definition first_fit_outcome :: "nat \<Rightarrow> pmm \<Rightarrow> nat \<Rightarrow> pmm \<Rightarrow> bool" where
  "first_fit_outcome count pm a pm' \<longleftrightarrow>
    (if a = 0
     then pm' = pm \<and>
       \<not> (\<exists>t. 1 \<le> t \<and> t + count \<le> highest_page pm \<and> free_run (bitmap pm) t count)
     else (\<exists>p. a = p * 4096 \<and> 1 \<le> p \<and> p + count \<le> highest_page pm \<and>
       free_run (bitmap pm) p count \<and>
       \<not> (\<exists>t. 1 \<le> t \<and> t < p \<and> free_run (bitmap pm) t count) \<and>
       pmm_inv pm' \<and> highest_page pm' = highest_page pm \<and>
       length (bitmap pm') = length (bitmap pm) \<and>
       (\<forall>c. used (bitmap pm') c = (p \<le> c \<and> c < p + count \<or> used (bitmap pm) c)) \<and>
       (\<forall>w. phys pm' w = (if w div 512 \<in> {p..<p + count} then 0 else phys pm w))))"

lemma pmm_alloc_pages_first_fit_lemma:
  assumes "pmm_inv pm" "0 < count"
  shows "\<exists>a pm'. pmm_alloc_pages count pm = Some (a, pm') \<and>
    first_fit_outcome count pm a pm'"
proof -
  from assms have hi: "highest_page pm \<le> 8 * length (bitmap pm)" by (simp add: inv_simps)
  obtain r where r: "alloc_scan (bitmap pm) (highest_page pm) count 1 0 0 = Some r"
    "case r of
       None \<Rightarrow> \<forall>t. 1 \<le> t \<and> t + count \<le> highest_page pm \<longrightarrow> \<not> free_run (bitmap pm) t count
     | Some p \<Rightarrow> 1 \<le> p \<and> p + count \<le> highest_page pm \<and> free_run (bitmap pm) p count \<and>
         (\<forall>t. 1 \<le> t \<and> t < p \<longrightarrow> \<not> free_run (bitmap pm) t count)"
    using alloc_scan_correct [OF hi, of 1 0 1 count 0] assms by (auto simp: free_run_def)
  show ?thesis
  proof (cases r)
    case None
    with r assms show ?thesis by (auto simp: pmm_alloc_pages_def first_fit_outcome_def)
  next
    case (Some p)
    with r have p: "1 \<le> p" "p + count \<le> highest_page pm" "free_run (bitmap pm) p count"
      "\<not> (\<exists>t. 1 \<le> t \<and> t < p \<and> free_run (bitmap pm) t count)" by auto
    with hi bitmap_set_run_used [of p count "bitmap pm"] obtain bm where
      bm: "bitmap_set_run p count (bitmap pm) = Some bm" "length bm = length (bitmap pm)"
      "\<And>c. used bm c \<longleftrightarrow> p \<le> c \<and> c < p + count \<or> used (bitmap pm) c" by auto
    have z: "zero_pages p count ph w = (if w div 512 \<in> {p..<p + count} then 0 else ph w)"
      for ph w
    proof -
      have "(4096 * count) div 8 = 512 * count" by simp
      moreover have "(p * 512 \<le> w \<and> w < p * 512 + 512 * count) \<longleftrightarrow>
          (p \<le> w div 512 \<and> w div 512 < p + count)"
        by (auto simp: less_eq_div_iff_mult_less_eq div_less_iff_less_mult algebra_simps)
      ultimately show ?thesis by (simp add: zero_pages_def)
    qed
    let ?pm = "pm\<lparr>bitmap := bm, phys := zero_pages p count (phys pm)\<rparr>"
    have "pmm_alloc_pages count pm = Some (p * 4096, ?pm)"
      using assms Some r bm by (simp add: pmm_alloc_pages_def)
    moreover have "pmm_inv ?pm" using assms bm by (auto simp: inv_simps)
    moreover have "first_fit_outcome count pm (p * 4096) ?pm"
      using p bm z calculation(2) by (auto simp: first_fit_outcome_def)
    ultimately show ?thesis by blast
  qed
qed

text \<open>
  C1: with the allocator's invariant pmm\_alloc\_pages never leaves the bitmap and hands out the
  first run of free pages that is long enough: it lies within the managed pages, starts after
  page 0, is marked used (and nothing else changes), and is zeroed (and no other word of memory
  changes). It returns NULL, changing nothing, exactly when there is no such run.
\<close>

theorem pmm_alloc_pages_first_fit:
  assumes "pmm_inv pm" "0 < count"
  shows "\<exists>a pm'. pmm_alloc_pages count pm = Some (a, pm') \<and> first_fit_outcome count pm a pm'"
  by (rule pmm_alloc_pages_first_fit_lemma [OF assms])

theorem pmm_alloc_pages_first_fit_witness:
  "\<exists>pm'. pmm_alloc_pages 2 \<lparr>bitmap = [0x25], highest_page = 8, phys = \<lambda>_. 7\<rparr> =
    Some (3 * 4096, pm') \<and> phys pm' 1536 = 0"
proof -
  let ?pm = "\<lparr>bitmap = [0x25], highest_page = 8, phys = \<lambda>_. 7\<rparr>"
  have "pmm_inv ?pm" by (simp add: inv_simps used_def)
  from pmm_alloc_pages_first_fit [OF this, of 2]
  have "pmm_alloc_pages 2 ?pm \<noteq> None" by auto
  moreover have "alloc_scan [0x25] 8 2 1 0 0 = Some (Some 3)"
    by (simp add: alloc_scan.simps bitmap_test_def)
  ultimately show ?thesis
    by (simp add: pmm_alloc_pages_def zero_pages_def numeral_2_eq_2 bitmap_set_def)
qed

section \<open>Release\<close>

lemma used_ext:
  assumes "length a = length b" "\<And>c. used a c \<longleftrightarrow> used b c"
  shows "a = b"
proof (rule nth_equalityI)
  fix i assume "i < length a"
  have "bit (a ! i) j = bit (b ! i) j" if "j < 8" for j
    using assms(2) [of "8 * i + j"] that by (simp add: used_def)
  then show "a ! i = b ! i" by (intro bit_word_eqI) simp
qed (rule assms)

text \<open>
  Pages that were handed out and are given back leave the bitmap as it was before the
  allocation, byte for byte.
\<close>

theorem pmm_alloc_free_roundtrip:
  assumes "pmm_inv pm" "0 < count" "pmm_alloc_pages count pm = Some (a, pm1)" "a \<noteq> 0"
  shows "\<exists>pm2. pmm_free_pages a count pm1 = Some pm2 \<and> bitmap pm2 = bitmap pm \<and>
    highest_page pm2 = highest_page pm"
proof -
  from pmm_alloc_pages_first_fit_lemma [OF assms(1,2)] assms(3,4) obtain p where
    p: "a = p * 4096" "p + count \<le> highest_page pm" "free_run (bitmap pm) p count"
      "highest_page pm1 = highest_page pm" "length (bitmap pm1) = length (bitmap pm)"
      "pmm_inv pm1"
      "\<And>c. used (bitmap pm1) c = (p \<le> c \<and> c < p + count \<or> used (bitmap pm) c)"
    by (auto simp: first_fit_outcome_def)
  then have "p + count \<le> 8 * length (bitmap pm1)" by (auto simp: inv_simps)
  from bitmap_clear_run_used [OF this] obtain bm where
    bm: "bitmap_clear_run p count (bitmap pm1) = Some bm" "length bm = length (bitmap pm1)"
      "\<And>c. used bm c \<longleftrightarrow> \<not> (p \<le> c \<and> c < p + count) \<and> used (bitmap pm1) c" by auto
  have "bm = bitmap pm"
  proof (rule used_ext)
    show "length bm = length (bitmap pm)" using bm p by simp
    fix c
    have "\<not> used (bitmap pm) c" if "p \<le> c" "c < p + count"
      using p(3) that unfolding free_run_def by (metis add_diff_inverse_nat leD nat_add_left_cancel_less)
    then show "used bm c \<longleftrightarrow> used (bitmap pm) c" using bm(3) p(7) by blast
  qed
  with bm p show ?thesis by (simp add: pmm_free_pages_def)
qed

theorem pmm_alloc_free_roundtrip_witness:
  "\<exists>pm1 pm2. pmm_alloc_pages 2 \<lparr>bitmap = [0x25], highest_page = 8, phys = \<lambda>_. 7\<rparr> =
      Some (12288, pm1) \<and> pmm_free_pages 12288 2 pm1 = Some pm2 \<and> bitmap pm2 = [0x25]"
proof -
  let ?pm = "\<lparr>bitmap = [0x25], highest_page = 8, phys = \<lambda>_. 7 :: u64\<rparr>"
  have inv: "pmm_inv ?pm" by (simp add: inv_simps used_def)
  have "alloc_scan [0x25] 8 2 1 0 0 = Some (Some 3)"
    by (simp add: alloc_scan.simps bitmap_test_def)
  then obtain pm1 where a: "pmm_alloc_pages 2 ?pm = Some (12288, pm1)"
    by (simp add: pmm_alloc_pages_def numeral_2_eq_2 bitmap_set_def)
  with pmm_alloc_free_roundtrip [OF inv _ a] show ?thesis by auto
qed

section \<open>Initialisation\<close>

lemma for_pages_used:
  assumes f: "\<And>b bm. b < 8 * length bm \<Longrightarrow> \<exists>bm'. f b bm = Some bm' \<and> length bm' = length bm \<and>
      (\<forall>c. used bm' c \<longleftrightarrow> (if c = b then v else used bm c))"
    and "4096 dvd addr" "to \<le> 4096 * (8 * length bm)"
  shows "\<exists>bm'. for_pages f addr to bm = Some bm' \<and> length bm' = length bm \<and>
    (\<forall>c. used bm' c \<longleftrightarrow> (if addr \<le> 4096 * c \<and> 4096 * c < to then v else used bm c))"
  using assms(2,3)
proof (induction "to - addr" arbitrary: addr bm rule: less_induct)
  case less
  show ?case
  proof (cases "addr < to")
    case False
    then show ?thesis by (subst for_pages.simps) auto
  next
    case True
    from less.prems obtain p where p: "addr = 4096 * p" by (auto elim: dvdE)
    with True less.prems have "p < 8 * length bm" by simp
    with f obtain bm1 where bm1: "f p bm = Some bm1" "length bm1 = length bm"
      "\<And>c. used bm1 c \<longleftrightarrow> (if c = p then v else used bm c)" by blast
    have dvd: "4096 dvd addr + 4096" using less.prems by simp
    obtain bm2 where bm2: "for_pages f (addr + 4096) to bm1 = Some bm2" "length bm2 = length bm1"
      "\<And>c. used bm2 c \<longleftrightarrow> (if addr + 4096 \<le> 4096 * c \<and> 4096 * c < to then v else used bm1 c)"
    proof -
      have "to - (addr + 4096) < to - addr" using True by linarith
      from less.hyps [OF this dvd, of bm1] less.prems(2) bm1(2) that show ?thesis by auto
    qed
    have "for_pages f addr to bm = Some bm2"
      using True p bm1(1) bm2(1) by (subst for_pages.simps) simp
    moreover have "used bm2 c \<longleftrightarrow> (if addr \<le> 4096 * c \<and> 4096 * c < to then v else used bm c)" for c
    proof -
      have "addr \<le> 4096 * c \<longleftrightarrow> c = p \<or> addr + 4096 \<le> 4096 * c" using p by auto
      moreover have "c = p \<Longrightarrow> 4096 * c < to \<and> \<not> addr + 4096 \<le> 4096 * c" using p True by simp
      ultimately show ?thesis using bm1(3) bm2(3) by auto
    qed
    ultimately show ?thesis using bm1(2) bm2(2) by auto
  qed
qed

text \<open>The boot loader's promise for usable entries: base and length are whole pages.\<close>

definition usable_aligned :: "mm_entry list \<Rightarrow> bool" where
  "usable_aligned es \<longleftrightarrow>
     (\<forall>e\<in>set es. mm_kind e = Usable \<longrightarrow> 4096 dvd mm_base e \<and> 4096 dvd mm_length e)"

definition usable_page :: "mm_entry list \<Rightarrow> nat \<Rightarrow> bool" where
  "usable_page es p \<longleftrightarrow> (\<exists>e\<in>set es. mm_kind e = Usable \<and>
     mm_base e \<le> 4096 * p \<and> 4096 * p < mm_base e + mm_length e)"

lemma highest_addr_mono: "h \<le> highest_addr es h"
  by (induction es arbitrary: h) (auto intro: order_trans [rotated] less_imp_le)

lemma highest_addr_ge:
  "e \<in> set es \<Longrightarrow> counts_for_top (mm_kind e) \<Longrightarrow> mm_base e + mm_length e \<le> highest_addr es h"
proof (induction es arbitrary: h)
  case (Cons a es)
  then show ?case
    using highest_addr_mono [of "mm_base e + mm_length e" es] highest_addr_mono [of h es]
    by (auto intro: order_trans [OF _ highest_addr_mono])
qed simp

lemma free_usable_used:
  assumes "usable_aligned es"
    "\<And>e. e \<in> set es \<Longrightarrow> mm_kind e = Usable \<Longrightarrow> mm_base e + mm_length e \<le> 4096 * (8 * length bm)"
  shows "\<exists>bm'. free_usable es bm = Some bm' \<and> length bm' = length bm \<and>
    (\<forall>c. used bm' c \<longleftrightarrow> \<not> usable_page es c \<and> used bm c)"
  using assms
proof (induction es arbitrary: bm)
  case Nil
  then show ?case by (simp add: usable_page_def)
next
  case (Cons e es)
  have al: "usable_aligned es" using Cons.prems(1) by (simp add: usable_aligned_def)
  show ?case
  proof (cases "mm_kind e = Usable")
    case True
    then have "4096 dvd mm_base e" "mm_base e + mm_length e \<le> 4096 * (8 * length bm)"
      using Cons.prems by (auto simp: usable_aligned_def)
    from for_pages_used [of bitmap_clear False, OF _ this] bitmap_clear_used
    obtain bm1 where bm1: "for_pages bitmap_clear (mm_base e) (mm_base e + mm_length e) bm = Some bm1"
      "length bm1 = length bm"
      "\<And>c. used bm1 c \<longleftrightarrow>
        (if mm_base e \<le> 4096 * c \<and> 4096 * c < mm_base e + mm_length e then False else used bm c)"
      by (metis (no_types, lifting))
    from Cons.IH [OF al, of bm1] Cons.prems(2) bm1(2) obtain bm2 where
      "free_usable es bm1 = Some bm2" "length bm2 = length bm1"
      "\<And>c. used bm2 c \<longleftrightarrow> \<not> usable_page es c \<and> used bm1 c" by auto
    with bm1 True show ?thesis by (auto simp: usable_page_def)
  next
    case False
    with Cons.IH [OF al, of bm] Cons.prems(2) show ?thesis by (auto simp: usable_page_def)
  qed
qed

definition bitmap_bytes :: "mm_entry list \<Rightarrow> nat" where
  "bitmap_bytes es =
     (let hp = highest_addr es 0 div 4096 in if hp div 8 * 8 < hp then hp div 8 + 1 else hp div 8)"

lemma bitmap_bytes_bounds:
  "highest_addr es 0 div 4096 \<le> 8 * bitmap_bytes es \<and>
   (4096 \<le> highest_addr es 0 \<longrightarrow> 0 < bitmap_bytes es)"
proof -
  have "4096 \<le> h \<Longrightarrow> 0 < h div 4096" for h :: nat by (simp add: div_greater_zero_iff)
  then have "4096 \<le> highest_addr es 0 \<Longrightarrow> 0 < highest_addr es 0 div 4096" by blast
  then show ?thesis unfolding bitmap_bytes_def Let_def by auto
qed

lemma find_bitmap_Some:
  "find_bitmap n es = Some b \<Longrightarrow>
   \<exists>e\<in>set es. mm_kind e = Usable \<and> mm_base e = b \<and> n \<le> mm_length e"
  by (induction es) (auto split: if_splits)

lemma usable_top:
  assumes "usable_aligned es" "e \<in> set es" "mm_kind e = Usable"
  shows "mm_base e + mm_length e \<le> 4096 * (8 * bitmap_bytes es)"
proof -
  from assms obtain k where k: "mm_base e + mm_length e = 4096 * k"
    by (metis usable_aligned_def dvd_add dvdE)
  have "mm_base e + mm_length e \<le> highest_addr es 0"
    using assms highest_addr_ge by (simp add: counts_for_top_def)
  with k have "k \<le> highest_addr es 0 div 4096" by simp
  with bitmap_bytes_bounds [of es] have "k \<le> 8 * bitmap_bytes es" by linarith
  with k show ?thesis by simp
qed

lemma pmm_init_lemma:
  assumes "usable_aligned es" "4096 \<le> highest_addr es 0" "highest_addr es 0 \<le> 2 ^ 52"
    "find_bitmap (bitmap_bytes es) es = Some b"
  shows "\<exists>pm. pmm_init (Some es) True ph = Some pm \<and> pmm_inv pm \<and>
    highest_page pm = highest_addr es 0 div 4096 \<and>
    {p. p < 8 * length (bitmap pm) \<and> \<not> used (bitmap pm) p} =
    {p. p \<noteq> 0 \<and> usable_page es p \<and> \<not> (b \<le> 4096 * p \<and> 4096 * p < b + bitmap_bytes es)}"
proof -
  let ?n = "bitmap_bytes es"
  from find_bitmap_Some [OF assms(4)] obtain e where
    e: "e \<in> set es" "mm_kind e = Usable" "mm_base e = b" "?n \<le> mm_length e" by auto
  have dvd: "4096 dvd b" using e assms(1) by (auto simp: usable_aligned_def)
  have top: "b + ?n \<le> 4096 * (8 * ?n)" using usable_top [OF assms(1) e(1,2)] e by linarith
  have full: "used (replicate ?n 0xFF) c" if "c < 8 * ?n" for c
  proof -
    have "bit (0xFF :: u8) (c mod 8)" 
    proof -
      have "(0xFF :: u8) = -1" by simp
      then show ?thesis by (simp only: bit_minus_1_iff possible_bit_word) simp
    qed
    with that show ?thesis by (simp add: used_def div8_less)
  qed
  obtain bm1 where bm1: "free_usable es (replicate ?n 0xFF) = Some bm1" "length bm1 = ?n"
    "\<And>c. used bm1 c \<longleftrightarrow> \<not> usable_page es c \<and> used (replicate ?n 0xFF) c"
    using free_usable_used [OF assms(1), of "replicate ?n 0xFF"] usable_top [OF assms(1)] by auto
  have to: "b + ?n \<le> 4096 * (8 * length bm1)" using top bm1 by simp
  have "\<And>b bm. b < 8 * length bm \<Longrightarrow> \<exists>bm'. bitmap_set b bm = Some bm' \<and> length bm' = length bm \<and>
      (\<forall>c. used bm' c \<longleftrightarrow> (if c = b then True else used bm c))"
    by (drule bitmap_set_used) auto
  from for_pages_used [OF this dvd to] obtain bm2 where
    bm2: "for_pages bitmap_set b (b + ?n) bm1 = Some bm2" "length bm2 = ?n"
      "\<And>c. used bm2 c \<longleftrightarrow> (if b \<le> 4096 * c \<and> 4096 * c < b + ?n then True else used bm1 c)"
    using bm1(2) by metis
  have pos: "0 < ?n" using bitmap_bytes_bounds assms(2) by simp
  then obtain bm3 where bm3: "bitmap_set 0 bm2 = Some bm3" "length bm3 = ?n"
    "\<And>c. used bm3 c \<longleftrightarrow> c = 0 \<or> used bm2 c" using bitmap_set_used [of 0 bm2] bm2(2) by auto
  let ?pm = "\<lparr>bitmap = bm3, highest_page = highest_addr es 0 div 4096, phys = ph\<rparr>"
  have "pmm_init (Some es) True ph = Some ?pm"
    using assms(4) bm1(1) bm2(1) bm3(1) by (simp add: pmm_init_def bitmap_bytes_def Let_def)
  moreover have "highest_addr es 0 div 4096 \<le> 2 ^ 40" using assms(3) by simp
  then have "pmm_inv ?pm" using bm3 bitmap_bytes_bounds [of es] by (simp add: inv_simps)
  moreover have "p < 8 * ?n" if up: "usable_page es p" for p
  proof -
    from up obtain u where "u \<in> set es" "mm_kind u = Usable" "4096 * p < mm_base u + mm_length u"
      by (auto simp: usable_page_def)
    with usable_top [OF assms(1)] have "4096 * p < 4096 * (8 * ?n)" by (metis order_less_le_trans)
    then show ?thesis by simp
  qed
  then have "{p. p < 8 * length bm3 \<and> \<not> used bm3 p} =
    {p. p \<noteq> 0 \<and> usable_page es p \<and> \<not> (b \<le> 4096 * p \<and> 4096 * p < b + ?n)}"
    using bm1(3) bm2(3) bm3(2,3) full by auto
  ultimately show ?thesis by (intro exI [of _ ?pm]) simp
qed

text \<open>
  C6: on a memory map whose usable entries are whole pages and leave room for the bitmap,
  pmm\_init establishes the invariant, and the pages it leaves free are exactly the usable ones
  other than page 0 and the pages of the bitmap.
\<close>

theorem pmm_init_sound:
  assumes "usable_aligned es" "4096 \<le> highest_addr es 0" "highest_addr es 0 \<le> 2 ^ 52"
    "find_bitmap (bitmap_bytes es) es = Some b"
  shows "\<exists>pm. pmm_init (Some es) True ph = Some pm \<and> pmm_inv pm \<and>
    highest_page pm = highest_addr es 0 div 4096 \<and>
    {p. p < 8 * length (bitmap pm) \<and> \<not> used (bitmap pm) p} =
    {p. p \<noteq> 0 \<and> usable_page es p \<and> \<not> (b \<le> 4096 * p \<and> 4096 * p < b + bitmap_bytes es)}"
  by (rule pmm_init_lemma [OF assms])

theorem pmm_init_sound_witness:
  "\<exists>pm. pmm_init (Some [\<lparr>mm_base = 0, mm_length = 8192, mm_kind = Usable\<rparr>,
      \<lparr>mm_base = 8192, mm_length = 8192, mm_kind = Reserved\<rparr>]) True (\<lambda>_. 0) = Some pm \<and>
    {p. p < 8 * length (bitmap pm) \<and> \<not> used (bitmap pm) p} = {1}"
proof -
  let ?es = "[\<lparr>mm_base = 0, mm_length = 8192, mm_kind = Usable\<rparr>,
      \<lparr>mm_base = 8192, mm_length = 8192, mm_kind = Reserved\<rparr>]"
  have n: "bitmap_bytes ?es = 1" by (simp add: bitmap_bytes_def counts_for_top_def)
  have "usable_aligned ?es" by (simp add: usable_aligned_def)
  from pmm_init_sound [OF this, of 0 "\<lambda>_. 0"] obtain pm where
    pm: "pmm_init (Some ?es) True (\<lambda>_. 0) = Some pm"
    "{p. p < 8 * length (bitmap pm) \<and> \<not> used (bitmap pm) p} =
     {p. p \<noteq> 0 \<and> usable_page ?es p \<and> \<not> (0 \<le> 4096 * p \<and> 4096 * p < 0 + bitmap_bytes ?es)}"
    using n by (auto simp: counts_for_top_def)
  have "{p. p \<noteq> 0 \<and> usable_page ?es p \<and> \<not> (0 \<le> 4096 * p \<and> 4096 * p < 0 + bitmap_bytes ?es)} = {1}"
    unfolding n by (auto simp: usable_page_def)
  with pm show ?thesis by auto
qed

section \<open>The allocator as a provider of pages\<close>

definition kernel_pages :: "pmm page_ops" where
  "kernel_pages = \<lparr>page_alloc = pmm_alloc_page, word_read = phys,
     word_write = (\<lambda>w x pm. pm\<lparr>phys := (phys pm)(w := x)\<rparr>)\<rparr>"

interpretation pages: page_allocator kernel_pages "\<lambda>pm. used (bitmap pm)" pmm_inv
proof
  fix s s' a
  assume inv: "pmm_inv s"
  note out = pmm_alloc_pages_first_fit_lemma [OF inv zero_less_one]
  show "page_alloc kernel_pages s \<noteq> None"
    using out by (auto simp: kernel_pages_def pmm_alloc_page_def)
  show "page_alloc kernel_pages s = Some (0, s') \<Longrightarrow> s' = s"
    using out by (auto simp: kernel_pages_def pmm_alloc_page_def first_fit_outcome_def split: if_splits)
  assume a: "page_alloc kernel_pages s = Some (a, s')" "a \<noteq> 0"
  with out have "first_fit_outcome 1 s a s'" by (auto simp: kernel_pages_def pmm_alloc_page_def)
  with a inv obtain p where p: "a = p * 4096" "1 \<le> p" "p + 1 \<le> highest_page s" "pmm_inv s'"
    "\<not> used (bitmap s) p" "\<forall>c. used (bitmap s') c = (p \<le> c \<and> c < p + 1 \<or> used (bitmap s) c)"
    "\<forall>w. phys s' w = (if w div 512 \<in> {p..<p + 1} then 0 else phys s w)"
    by (auto simp: first_fit_outcome_def free_run_def)
  moreover have "p < 2 ^ 40" using p(3) inv by (simp add: inv_simps)
  moreover have "p \<le> c \<and> c < p + 1 \<longleftrightarrow> c = p" for c by auto
  ultimately show "pmm_inv s' \<and> (\<exists>p. a = p * 4096 \<and> 1 \<le> p \<and> p < 2 ^ 40 \<and> \<not> used (bitmap s) p \<and>
      (\<forall>c. used (bitmap s') c \<longleftrightarrow> c = p \<or> used (bitmap s) c) \<and>
      (\<forall>w. word_read kernel_pages s' w = (if w div 512 = p then 0 else word_read kernel_pages s w)))"
    by (auto simp: kernel_pages_def intro!: exI [of _ p])
next
  fix w x s v
  show "word_read kernel_pages (word_write kernel_pages w x s) v =
      (if v = w then x else word_read kernel_pages s v)"
    and "pmm_inv (word_write kernel_pages w x s) \<longleftrightarrow> pmm_inv s"
    and "used (bitmap (word_write kernel_pages w x s)) = used (bitmap s)"
    by (simp_all add: kernel_pages_def inv_simps)
qed

end
