(* ===== verification/Vmm.thy ===== *)
theory Vmm
  imports Pmm
begin

text \<open>
  The four-level page tables of \<open>vmm.c\<close>. A table is named by its physical address: the code adds
  the HHDM offset to every physical address before it follows it, and the model leaves out that
  detour. The operations take the page allocator and the memory as a \<open>page\_ops\<close> record; the
  kernel instance is \<open>kernel\_pages\<close> of \<open>Pmm\<close>. The TLB (\<open>invlpg\<close>) is not modelled. The outer
  option of a result is the allocator's (an access outside its bitmap).
\<close>

section \<open>Entries and indices\<close>

definition PTE_PRESENT :: u64 where "PTE_PRESENT = 1"
definition PTE_WRITABLE :: u64 where "PTE_WRITABLE = 2"
definition PTE_USER :: u64 where "PTE_USER = 4"
definition PTE_ADDR_MASK :: u64 where "PTE_ADDR_MASK = 0x000ffffffffff000"

definition pt_index :: "nat \<Rightarrow> u64 \<Rightarrow> nat" where
  "pt_index shift vaddr = unat (drop_bit shift vaddr AND 0x1ff)"

definition get_next_level ::
  "'s page_ops \<Rightarrow> nat \<Rightarrow> nat \<Rightarrow> bool \<Rightarrow> 's \<Rightarrow> (nat option \<times> 's) option" where
  "get_next_level ops current_level index allocate s =
     (let entry = word_read ops s (current_level div 8 + index)
      in if entry AND PTE_PRESENT \<noteq> 0 then Some (Some (unat (entry AND PTE_ADDR_MASK)), s)
         else if \<not> allocate then Some (None, s)
         else page_alloc ops s \<bind> (\<lambda>(new, s1).
           if new = 0 then Some (None, s1)
           else Some (Some new,
             word_write ops (current_level div 8 + index)
               (of_nat new OR PTE_PRESENT OR PTE_WRITABLE OR PTE_USER) s1)))"

section \<open>The operations\<close>

definition vmm_map_page :: "'s page_ops \<Rightarrow> nat \<Rightarrow> u64 \<Rightarrow> u64 \<Rightarrow> u64 \<Rightarrow> 's \<Rightarrow> 's option" where
  "vmm_map_page ops pml4 vaddr paddr flags s =
     get_next_level ops pml4 (pt_index 39 vaddr) True s \<bind> (\<lambda>(r, s). case r of
       None \<Rightarrow> Some s
     | Some pdp \<Rightarrow> get_next_level ops pdp (pt_index 30 vaddr) True s \<bind> (\<lambda>(r, s). case r of
         None \<Rightarrow> Some s
       | Some pd \<Rightarrow> get_next_level ops pd (pt_index 21 vaddr) True s \<bind> (\<lambda>(r, s). case r of
           None \<Rightarrow> Some s
         | Some pt \<Rightarrow> Some (word_write ops (pt div 8 + pt_index 12 vaddr)
             ((paddr AND PTE_ADDR_MASK) OR flags OR PTE_PRESENT) s))))"

definition vmm_unmap_page :: "'s page_ops \<Rightarrow> nat \<Rightarrow> u64 \<Rightarrow> 's \<Rightarrow> 's option" where
  "vmm_unmap_page ops pml4 vaddr s =
     get_next_level ops pml4 (pt_index 39 vaddr) False s \<bind> (\<lambda>(r, s). case r of
       None \<Rightarrow> Some s
     | Some pdp \<Rightarrow> get_next_level ops pdp (pt_index 30 vaddr) False s \<bind> (\<lambda>(r, s). case r of
         None \<Rightarrow> Some s
       | Some pd \<Rightarrow> get_next_level ops pd (pt_index 21 vaddr) False s \<bind> (\<lambda>(r, s). case r of
           None \<Rightarrow> Some s
         | Some pt \<Rightarrow> Some (word_write ops (pt div 8 + pt_index 12 vaddr) 0 s))))"

definition vmm_get_phys :: "'s page_ops \<Rightarrow> nat \<Rightarrow> u64 \<Rightarrow> 's \<Rightarrow> u64 option" where
  "vmm_get_phys ops pml4 vaddr s =
     get_next_level ops pml4 (pt_index 39 vaddr) False s \<bind> (\<lambda>(r, s). case r of
       None \<Rightarrow> Some 0
     | Some pdp \<Rightarrow> get_next_level ops pdp (pt_index 30 vaddr) False s \<bind> (\<lambda>(r, s). case r of
         None \<Rightarrow> Some 0
       | Some pd \<Rightarrow> get_next_level ops pd (pt_index 21 vaddr) False s \<bind> (\<lambda>(r, s). case r of
           None \<Rightarrow> Some 0
         | Some pt \<Rightarrow>
             (let e = word_read ops s (pt div 8 + pt_index 12 vaddr)
              in if e AND PTE_PRESENT = 0 then Some 0
                 else Some ((e AND PTE_ADDR_MASK) + (vaddr AND 0xfff))))))"

text \<open>
  The address-space registers: \<open>vmm\_init\<close> takes the boot loader's top table from \<open>cr3\<close>, and
  switching to a table loads its physical address. Here the HHDM offset is explicit.
\<close>

record vmm =
  vmm_hhdm_offset :: u64
  kernel_pml4 :: u64

definition vmm_init :: "u64 option \<Rightarrow> u64 \<Rightarrow> vmm \<Rightarrow> vmm" where
  "vmm_init hhdm_response cr3 v =
     (case hhdm_response of
        None \<Rightarrow> v
      | Some off \<Rightarrow> v\<lparr>vmm_hhdm_offset := off, kernel_pml4 := (cr3 AND PTE_ADDR_MASK) + off\<rparr>)"

definition vmm_switch_pml4 :: "vmm \<Rightarrow> u64 \<Rightarrow> u64" where
  "vmm_switch_pml4 v pml4 = pml4 - vmm_hhdm_offset v"

lemma vmm_switch_kernel:
  "vmm_switch_pml4 (vmm_init (Some off) cr3 v) (kernel_pml4 (vmm_init (Some off) cr3 v)) =
   cr3 AND PTE_ADDR_MASK"
  by (simp add: vmm_switch_pml4_def vmm_init_def)

section \<open>The tree of tables\<close>

text \<open>
  \<open>table\_at ops s t path\<close> is the table reached from table \<open>t\<close> along a list of indices; \<open>leaf\<close> is the
  last-level entry for a path of three indices and a fourth, 0 where a table is missing.
\<close>

fun table_at :: "'s page_ops \<Rightarrow> 's \<Rightarrow> nat \<Rightarrow> nat list \<Rightarrow> nat option" where
  "table_at ops s t [] = Some t"
| "table_at ops s t (i # path) =
     (let e = word_read ops s (t div 8 + i)
      in if e AND PTE_PRESENT \<noteq> 0 then table_at ops s (unat (e AND PTE_ADDR_MASK)) path else None)"

definition leaf :: "'s page_ops \<Rightarrow> 's \<Rightarrow> nat \<Rightarrow> nat list \<Rightarrow> nat \<Rightarrow> u64" where
  "leaf ops s root path i =
     (case table_at ops s root path of None \<Rightarrow> 0 | Some t \<Rightarrow> word_read ops s (t div 8 + i))"

definition table_path :: "nat \<Rightarrow> nat list \<Rightarrow> bool" where
  "table_path n path \<longleftrightarrow> length path \<le> n \<and> (\<forall>i\<in>set path. i < 512)"

text \<open>
  Well-formed tables: every table of the first four levels is a page the allocator counts as
  owned, and no table is reached along two paths.
\<close>

definition pt_wf :: "'s page_ops \<Rightarrow> ('s \<Rightarrow> nat \<Rightarrow> bool) \<Rightarrow> nat \<Rightarrow> 's \<Rightarrow> bool" where
  "pt_wf ops owned root s \<longleftrightarrow>
     (\<forall>p t. table_path 3 p \<and> table_at ops s root p = Some t \<longrightarrow>
        4096 dvd t \<and> owned s (t div 4096)) \<and>
     (\<forall>p q t. table_path 3 p \<and> table_path 3 q \<and> table_at ops s root p = Some t \<and>
        table_at ops s root q = Some t \<longrightarrow> p = q)"

definition upper_path :: "u64 \<Rightarrow> nat list" where
  "upper_path v = [pt_index 39 v, pt_index 30 v, pt_index 21 v]"

lemma pt_wf_page:
  assumes "pt_wf ops owned root s" "table_path 3 Q" "table_at ops s root Q = Some u"
  shows "4096 dvd u" "owned s (u div 4096)"
  using assms unfolding pt_wf_def by blast+

lemma pt_wf_unique:
  "pt_wf ops owned root s \<Longrightarrow> table_path 3 P \<Longrightarrow> table_path 3 Q \<Longrightarrow>
   table_at ops s root P = Some t \<Longrightarrow> table_at ops s root Q = Some t \<Longrightarrow> P = Q"
  unfolding pt_wf_def by blast

lemma pt_index_less: "pt_index k v < 512"
proof -
  have "unat (drop_bit k v AND 0x1ff) \<le> unat (0x1ff :: u64)"
    by (rule word_and_le1 [THEN word_le_nat_alt [THEN iffD1]])
  then show ?thesis by (simp add: pt_index_def)
qed

lemma upper_path_table: "table_path 3 (upper_path v)"
  by (simp add: table_path_def upper_path_def pt_index_less)

lemma table_path_snoc: "table_path n p \<Longrightarrow> i < 512 \<Longrightarrow> table_path (Suc n) (p @ [i])"
  by (auto simp: table_path_def)

lemma table_path_append: "table_path n (p @ q) \<Longrightarrow> table_path n p"
  by (auto simp: table_path_def)

lemma table_at_append: "table_at ops s t (p @ q) = table_at ops s t p \<bind> (\<lambda>u. table_at ops s u q)"
  by (induction p arbitrary: t) (auto simp: Let_def)

lemma get_phys_leaf:
  "vmm_get_phys ops root v s = Some
     (let e = leaf ops s root (upper_path v) (pt_index 12 v)
      in if e AND PTE_PRESENT = 0 then 0 else (e AND PTE_ADDR_MASK) + (v AND 0xfff))"
  by (simp add: vmm_get_phys_def get_next_level_def leaf_def upper_path_def Let_def)

lemma word_index_inj:
  assumes "4096 dvd t" "4096 dvd u" "i < 512" "j < 512" "u div 8 + j = t div 8 + (i :: nat)"
  shows "u = t \<and> j = i"
proof -
  from assms(1,2) obtain a b where ab: "t = 4096 * a" "u = 4096 * b" by (auto elim!: dvdE)
  with assms(3-5) have "b * 512 + j = a * 512 + i" by simp
  moreover have "(b * 512 + j) div 512 = b" "(a * 512 + i) div 512 = a" using assms(3,4) by simp_all
  ultimately have "b = a" by metis
  with \<open>b * 512 + j = a * 512 + i\<close> ab show ?thesis by simp
qed

lemma word_index_page: "4096 dvd t \<Longrightarrow> i < 512 \<Longrightarrow> (t div 8 + i) div 512 = t div (4096 :: nat)"
  by (auto elim!: dvdE)

lemma new_entry:
  assumes "p < 2 ^ 40"
  shows "unat ((of_nat (p * 4096) OR PTE_PRESENT OR PTE_WRITABLE OR PTE_USER) AND PTE_ADDR_MASK) =
      p * 4096"
    and "(of_nat (p * 4096) OR PTE_PRESENT OR PTE_WRITABLE OR PTE_USER) AND PTE_PRESENT \<noteq> 0"
proof -
  let ?a = "of_nat (p * 4096) :: u64"
  have pa: "?a = push_bit 12 (of_nat p)" by (simp add: push_bit_eq_mult mult.commute)
  have small: "p * 4096 < 2 ^ 52" using assms by simp
  have hi: "\<not> bit ?a n" if "52 \<le> n" for n
  proof -
    have "unat ?a = p * 4096" by (rule unat_of_nat_small) (use small in simp)
    then have "take_bit 52 (unat ?a) = unat ?a" using small by (simp only: take_bit_nat_eq_self)
    then have "\<not> bit (unat ?a) n" using that by (metis bit_take_bit_iff not_le)
    moreover have "bit (unat ?a) n \<longleftrightarrow> bit ?a n" by (simp only: bit_unsigned_iff possible_bit_nat simp_thms)
    ultimately show ?thesis by blast
  qed
  have mask: "bit PTE_ADDR_MASK n \<longleftrightarrow> 12 \<le> n \<and> n < 52" for n
  proof -
    have m: "PTE_ADDR_MASK = push_bit 12 (mask 40)" by (simp add: PTE_ADDR_MASK_def mask_eq_exp_minus_1 push_bit_eq_mult)
    show ?thesis unfolding m bit_push_bit_iff bit_mask_iff by auto
  qed
  have low: "\<not> bit (PTE_PRESENT OR PTE_WRITABLE OR PTE_USER) n" if "12 \<le> n" for n
  proof -
    have "PTE_PRESENT OR PTE_WRITABLE OR PTE_USER = mask 3"
      by (simp add: PTE_PRESENT_def PTE_WRITABLE_def PTE_USER_def mask_eq_exp_minus_1)
    then show ?thesis using that by (simp add: bit_mask_iff)
  qed
  have "(?a OR PTE_PRESENT OR PTE_WRITABLE OR PTE_USER) AND PTE_ADDR_MASK = ?a"
  proof (rule bit_word_eqI)
    fix n
    show "bit ((?a OR PTE_PRESENT OR PTE_WRITABLE OR PTE_USER) AND PTE_ADDR_MASK) n = bit ?a n"
      using hi [of n] mask [of n] low [of n] pa
      by (cases "12 \<le> n") (auto simp: bit_and_iff bit_or_iff bit_push_bit_iff)
  qed
  moreover have "unat ?a = p * 4096" by (rule unat_of_nat_small) (use small in simp)
  ultimately show "unat ((?a OR PTE_PRESENT OR PTE_WRITABLE OR PTE_USER) AND PTE_ADDR_MASK) = p * 4096"
    by simp
  have "bit ((?a OR PTE_PRESENT OR PTE_WRITABLE OR PTE_USER) AND PTE_PRESENT) 0"
    by (simp add: PTE_PRESENT_def bit_and_iff bit_or_iff)
  then show "(?a OR PTE_PRESENT OR PTE_WRITABLE OR PTE_USER) AND PTE_PRESENT \<noteq> 0" by auto
qed

section \<open>Writing an entry\<close>

context page_allocator
begin

text \<open>
  One entry of one table is overwritten: every table whose path does not pass through that entry
  stays where it was, and the others hang below the new entry.
\<close>

lemma table_at_write:
  assumes wf: "pt_wf ops owned root s" and P: "table_path 3 P" "table_at ops s root P = Some t"
    and i: "i < 512" and Q: "table_path 4 Q"
  shows "table_at ops (word_write ops (t div 8 + i) x s) root Q =
    (if \<exists>R. Q = P @ i # R
     then if x AND PTE_PRESENT \<noteq> 0
       then table_at ops (word_write ops (t div 8 + i) x s) (unat (x AND PTE_ADDR_MASK))
         (drop (Suc (length P)) Q)
       else None
     else table_at ops s root Q)"
  using Q
proof (induction Q rule: rev_induct)
  case Nil
  then show ?case by simp
next
  case (snoc j Q)
  let ?s = "word_write ops (t div 8 + i) x s"
  have Q: "table_path 4 Q" "j < 512" using snoc.prems by (auto simp: table_path_def)
  have Q3: "table_path 3 Q" using snoc.prems by (auto simp: table_path_def)
  note IH = snoc.IH [OF Q(1)]
  have step: "table_at ops r root (Q @ [j]) = table_at ops r root Q \<bind> (\<lambda>u. table_at ops r u [j])" for r
    by (rule table_at_append)
  show ?case
  proof (cases "\<exists>R. Q = P @ i # R")
    case True
    then obtain R where R: "Q = P @ i # R" by blast
    then have d: "drop (Suc (length P)) (Q @ [j]) = drop (Suc (length P)) Q @ [j]" by simp
    have "\<exists>R. Q @ [j] = P @ i # R" using R by simp
    with IH True step d show ?thesis by (simp add: table_at_append)
  next
    case False
    then have same: "table_at ops ?s root Q = table_at ops s root Q" using IH by simp
    show ?thesis
    proof (cases "table_at ops s root Q")
      case None
      then have "Q \<noteq> P" using P by auto
      with False have "\<not> (\<exists>R. Q @ [j] = P @ i # R)" by (auto simp: append_eq_append_conv2 append_eq_Cons_conv Cons_eq_append_conv)
      with None same step show ?thesis by simp
    next
      case (Some u)
      have al: "4096 dvd u" "4096 dvd t" using wf Some P Q3 by (auto simp: pt_wf_def)
      show ?thesis
      proof (cases "u = t \<and> j = i")
        case True
        then have "Q = P" using wf Some P Q3 unfolding pt_wf_def by blast
        with True Some same step show ?thesis by (simp add: read_write Let_def)
      next
        case other: False
        then have "u div 8 + j \<noteq> t div 8 + i" using word_index_inj al i Q(2) by blast
        moreover have "\<not> (\<exists>R. Q @ [j] = P @ i # R)"
          using False other Some P by (auto simp: append_eq_append_conv2 append_eq_Cons_conv Cons_eq_append_conv)
        ultimately show ?thesis using Some same step by (simp add: read_write Let_def)
      qed
    qed
  qed
qed

text \<open>The last-level write changes one leaf and no table.\<close>

lemma leaf_write:
  assumes wf: "pt_wf ops owned root s" and P: "table_path 3 P" "length P = 3"
    "table_at ops s root P = Some t" and i: "i < 512"
  shows "pt_wf ops owned root (word_write ops (t div 8 + i) x s)"
    and "table_path 3 Q \<Longrightarrow> length Q = 3 \<Longrightarrow> j < 512 \<Longrightarrow>
      leaf ops (word_write ops (t div 8 + i) x s) root Q j =
      (if Q = P \<and> j = i then x else leaf ops s root Q j)"
proof -
  let ?s = "word_write ops (t div 8 + i) x s"
  have same: "table_at ops ?s root Q = table_at ops s root Q" if "table_path 3 Q" for Q
  proof -
    have "table_path 4 Q" using that by (auto simp: table_path_def)
    moreover have "\<not> (\<exists>R. Q = P @ i # R)" using that P by (auto simp: table_path_def)
    ultimately show ?thesis using table_at_write [OF wf P(1,3) i] by simp
  qed
  show "pt_wf ops owned root ?s" using wf same unfolding pt_wf_def write_owned by metis
  assume Q: "table_path 3 Q" "length Q = 3" "j < 512"
  show "leaf ops ?s root Q j = (if Q = P \<and> j = i then x else leaf ops s root Q j)"
  proof (cases "table_at ops s root Q")
    case None
    with P have "Q \<noteq> P" by auto
    with None same [OF Q(1)] show ?thesis by (simp add: leaf_def)
  next
    case (Some u)
    have "4096 dvd u" "4096 dvd t" "u = t \<Longrightarrow> Q = P" using wf Some P Q by (auto simp: pt_wf_def)
    then have "u div 8 + j = t div 8 + i \<longleftrightarrow> Q = P \<and> j = i"
      using word_index_inj i Q(3) Some P by (metis option.inject)
    with Some same [OF Q(1)] show ?thesis by (auto simp: leaf_def read_write)
  qed
qed

text \<open>A fresh page: no table of the tree lies in it, so no path changes.\<close>

lemma table_at_alloc:
  assumes wf: "pt_wf ops owned root s" and inv: "inv s"
    and al: "page_alloc ops s = Some (a, s')" "a \<noteq> 0" and Q: "table_path 4 Q"
  shows "table_at ops s' root Q = table_at ops s root Q"
  using Q
proof (induction Q rule: rev_induct)
  case (snoc j Q)
  have Q: "table_path 4 Q" "table_path 3 Q" "j < 512" using snoc.prems by (auto simp: table_path_def)
  obtain p where p: "\<not> owned s p" "\<forall>w. word_read ops s' w = (if w div 512 = p then 0 else word_read ops s w)"
    using alloc_page [OF inv al] by blast
  show ?case
  proof (cases "table_at ops s root Q")
    case None
    with snoc.IH [OF Q(1)] show ?thesis by (simp add: table_at_append)
  next
    case (Some u)
    then have "4096 dvd u" "owned s (u div 4096)" using wf Q(2) by (auto simp: pt_wf_def)
    then have "(u div 8 + j) div 512 \<noteq> p" using word_index_page Q(3) p(1) by metis
    with snoc.IH [OF Q(1)] Some p(2) show ?thesis by (simp add: table_at_append Let_def)
  qed
qed simp

lemma alloc_wf:
  assumes wf: "pt_wf ops owned root s" and inv: "inv s"
    and al: "page_alloc ops s = Some (a, s')" "a \<noteq> 0"
  shows "pt_wf ops owned root s'"
    and "table_path 3 Q \<Longrightarrow> j < 512 \<Longrightarrow> leaf ops s' root Q j = leaf ops s root Q j"
proof -
  obtain p where p: "\<not> owned s p" "\<forall>c. owned s' c \<longleftrightarrow> c = p \<or> owned s c"
    "\<forall>w. word_read ops s' w = (if w div 512 = p then 0 else word_read ops s w)"
    using alloc_page [OF inv al] by blast
  have same: "table_at ops s' root Q = table_at ops s root Q" if "table_path 3 Q" for Q
    using table_at_alloc [OF wf inv al] that by (simp add: table_path_def)
  show "pt_wf ops owned root s'" using wf same p(2) unfolding pt_wf_def by metis
  assume Q: "table_path 3 Q" "j < 512"
  show "leaf ops s' root Q j = leaf ops s root Q j"
  proof (cases "table_at ops s root Q")
    case (Some u)
    then have "4096 dvd u" "owned s (u div 4096)" using wf Q by (auto simp: pt_wf_def)
    then have "(u div 8 + j) div 512 \<noteq> p" using word_index_page Q(2) p(1) by metis
    with Some same [OF Q(1)] p(3) show ?thesis by (simp add: leaf_def)
  qed (use same [OF Q(1)] in \<open>simp add: leaf_def\<close>)
qed

text \<open>
  Hanging the fresh page below an empty entry adds one table, whose entries are all empty.
\<close>

lemma table_at_new:
  assumes wf: "pt_wf ops owned root s" and inv: "inv s"
    and al: "page_alloc ops s = Some (a, s1)" "a \<noteq> 0"
    and P: "table_path 2 P" "table_at ops s root P = Some t" and i: "i < 512"
    and s': "s' = word_write ops (t div 8 + i) (of_nat a OR PTE_PRESENT OR PTE_WRITABLE OR PTE_USER) s1"
    and Q: "table_path 4 Q"
  shows "table_at ops s' root Q =
    (if Q = P @ [i] then Some a else if \<exists>R. Q = P @ i # R then None else table_at ops s root Q)"
proof -
  obtain p where p: "a = p * 4096" "p < 2 ^ 40" "\<not> owned s p"
    "\<forall>w. word_read ops s1 w = (if w div 512 = p then 0 else word_read ops s w)"
    using alloc_page [OF inv al] by blast
  note e = new_entry [OF p(2), folded p(1)]
  have P3: "table_path 3 P" "table_path 4 P" using P(1) by (auto simp: table_path_def)
  have t: "4096 dvd t" "owned s (t div 4096)" using wf P3(1) P(2) by (auto simp: pt_wf_def)
  have P1: "table_at ops s1 root P = Some t" using table_at_alloc [OF wf inv al P3(2)] P(2) by simp
  have wr: "table_at ops s' root Q = (if \<exists>R. Q = P @ i # R
      then table_at ops s' a (drop (Suc (length P)) Q) else table_at ops s1 root Q)"
    unfolding s' using table_at_write [OF alloc_wf(1) [OF wf inv al] P3(1) P1 i Q] e by simp
  have zero: "word_read ops s' (a div 8 + j) = 0" if "j < 512" for j
  proof -
    have aj: "(a div 8 + j) div 512 = p" using word_index_page [of a j] that p(1) by simp
    moreover have "a div 8 + j \<noteq> t div 8 + i"
      using word_index_page [OF t(1) i] aj t(2) p(3) by metis
    ultimately show ?thesis using p(4) by (simp add: s' read_write)
  qed
  show ?thesis
  proof (cases "\<exists>R. Q = P @ i # R")
    case True
    then obtain R where R: "Q = P @ i # R" by blast
    show ?thesis
    proof (cases R)
      case (Cons j R')
      then have "j < 512" using Q R by (simp add: table_path_def)
      with wr R Cons zero show ?thesis by (simp add: Let_def)
    qed (use wr R in simp)
  next
    case False
    with wr table_at_alloc [OF wf inv al Q] show ?thesis by auto
  qed
qed

lemma path_below: "table_path 3 Q \<Longrightarrow> length Q = 3 \<Longrightarrow> table_path 4 Q"
  by (simp add: table_path_def)

lemma new_table_wf:
  assumes wf: "pt_wf ops owned root s" and inv: "inv s"
    and al: "page_alloc ops s = Some (a, s1)" "a \<noteq> 0"
    and P: "table_path 2 P" "table_at ops s root P = Some t" and i: "i < 512"
    and s': "s' = word_write ops (t div 8 + i) (of_nat a OR PTE_PRESENT OR PTE_WRITABLE OR PTE_USER) s1"
  shows "pt_wf ops owned root s'"
proof -
  obtain p where p: "a = p * 4096" "\<not> owned s p" "\<forall>c. owned s1 c \<longleftrightarrow> c = p \<or> owned s c"
    using alloc_page [OF inv al] by blast
  have at: "table_at ops s' root Q = Some u \<Longrightarrow>
      Q = P @ [i] \<and> u = a \<or> table_at ops s root Q = Some u \<and> u \<noteq> a" if "table_path 3 Q" for Q u
  proof -
    have "table_path 4 Q" using that by (simp add: table_path_def)
    moreover have "table_at ops s root Q = Some u \<Longrightarrow> u \<noteq> a" using pt_wf_page(2) [OF wf that] p(1,2) by auto
    ultimately show "table_at ops s' root Q = Some u \<Longrightarrow> ?thesis"
      using table_at_new [OF wf inv al P i s'] by (auto split: if_splits)
  qed
  have own: "owned s' c \<longleftrightarrow> c = p \<or> owned s c" for c by (simp add: s' write_owned p(3))
  show ?thesis unfolding pt_wf_def own
  proof (intro conjI allI impI; elim conjE)
    fix Q u assume Q: "table_path 3 Q" "table_at ops s' root Q = Some u"
    from at [OF this] have "u = a \<or> table_at ops s root Q = Some u" by blast
    then have "4096 dvd u \<and> (u div 4096 = p \<or> owned s (u div 4096))"
      using wf Q(1) p(1) by (auto simp: pt_wf_def)
    then show "4096 dvd u" "u div 4096 = p \<or> owned s (u div 4096)" by blast+
  next
    fix Q R u assume "table_path 3 Q" "table_path 3 R" "table_at ops s' root Q = Some u"
      "table_at ops s' root R = Some u"
    with at [of Q u] at [of R u] show "Q = R" using wf unfolding pt_wf_def by blast
  qed
qed

lemma new_table_leaf:
  assumes wf: "pt_wf ops owned root s" and inv: "inv s"
    and al: "page_alloc ops s = Some (a, s1)" "a \<noteq> 0"
    and P: "table_path 2 P" "table_at ops s root P = Some t" and i: "i < 512"
    and empty: "word_read ops s (t div 8 + i) AND PTE_PRESENT = 0"
    and s': "s' = word_write ops (t div 8 + i) (of_nat a OR PTE_PRESENT OR PTE_WRITABLE OR PTE_USER) s1"
    and Q: "table_path 3 Q" "length Q = 3" "j < 512"
  shows "leaf ops s' root Q j = leaf ops s root Q j"
proof -
  obtain p where p: "a = p * 4096" "\<not> owned s p"
    "\<forall>w. word_read ops s1 w = (if w div 512 = p then 0 else word_read ops s w)"
    using alloc_page [OF inv al] by blast
  have P3: "table_path 3 P" using P(1) by (simp add: table_path_def)
  have t: "4096 dvd t" "owned s (t div 4096)" using wf P3 P(2) by (auto simp: pt_wf_def)
  have rd: "word_read ops s' w = (if w div 512 = p then 0 else word_read ops s w)"
    if "w \<noteq> t div 8 + i" for w using that p(3) by (simp add: s' read_write)
  have aj: "(a div 8 + j) div 512 = p" using word_index_page [of a j] Q(3) p(1) by simp
  note new = table_at_new [OF wf inv al P i s' path_below [OF Q(1,2)]]
  show ?thesis
  proof (cases "\<exists>R. Q = P @ i # R")
    case True
    then have old: "table_at ops s root Q = None" using P(2) empty by (auto simp: table_at_append)
    have "a div 8 + j \<noteq> t div 8 + i" using word_index_page [OF t(1) i] aj t(2) p(2) by metis
    with new True old rd aj show ?thesis by (auto simp: leaf_def split: if_splits)
  next
    case False
    then have at: "table_at ops s' root Q = table_at ops s root Q" using new by auto
    show ?thesis
    proof (cases "table_at ops s root Q")
      case (Some u)
      have u: "4096 dvd u" "owned s (u div 4096)" using wf Some Q by (auto simp: pt_wf_def)
      have "P \<noteq> Q" using P(1) Q(2) by (auto simp: table_path_def)
      then have "u \<noteq> t" using pt_wf_unique [OF wf P3 Q(1) P(2)] Some by blast
      then have "u div 8 + j \<noteq> t div 8 + i" using word_index_inj [OF t(1) u(1) i Q(3)] by blast
      moreover have "(u div 8 + j) div 512 \<noteq> p" using word_index_page [OF u(1) Q(3)] u(2) p(2) by metis
      ultimately show ?thesis using at Some rd by (simp add: leaf_def)
    qed (simp add: at leaf_def)
  qed
qed

text \<open>One level of the walk of \<open>vmm\_map\_page\<close>.\<close>

lemma next_level:
  assumes wf: "pt_wf ops owned root s" and inv: "inv s"
    and P: "table_path 2 P" "table_at ops s root P = Some t" and i: "i < 512"
  obtains r s' where "get_next_level ops t i True s = Some (r, s')"
    "pt_wf ops owned root s'" "inv s'"
    "\<And>Q j. table_path 3 Q \<Longrightarrow> length Q = 3 \<Longrightarrow> j < 512 \<Longrightarrow> leaf ops s' root Q j = leaf ops s root Q j"
    "r = None \<Longrightarrow> page_alloc ops s' = Some (0, s')"
    "\<And>u. r = Some u \<Longrightarrow> table_at ops s' root (P @ [i]) = Some u"
proof (cases "word_read ops s (t div 8 + i) AND PTE_PRESENT \<noteq> 0")
  case True
  let ?u = "unat (word_read ops s (t div 8 + i) AND PTE_ADDR_MASK)"
  have "get_next_level ops t i True s = Some (Some ?u, s)" using True by (simp add: get_next_level_def)
  moreover have "table_at ops s root (P @ [i]) = Some ?u" using True P(2) by (simp add: table_at_append)
  ultimately show ?thesis using that wf inv by force
next
  case False
  then have empty: "word_read ops s (t div 8 + i) AND PTE_PRESENT = 0" by simp
  obtain a s1 where al: "page_alloc ops s = Some (a, s1)" using alloc_total [OF inv] by auto
  show ?thesis
  proof (cases "a = 0")
    case True
    with al have "s1 = s" using alloc_null [OF inv] by blast
    with al True empty have "get_next_level ops t i True s = Some (None, s)" by (simp add: get_next_level_def)
    then show ?thesis using that wf inv al True \<open>s1 = s\<close> by force
  next
    case False
    let ?s = "word_write ops (t div 8 + i) (of_nat a OR PTE_PRESENT OR PTE_WRITABLE OR PTE_USER) s1"
    have inv': "inv ?s" using alloc_page [OF inv al False] by (simp add: write_inv)
    have "table_path 4 (P @ [i])" using P(1) i by (simp add: table_path_def)
    then have "table_at ops ?s root (P @ [i]) = Some a"
      using table_at_new [OF wf inv al False P i refl] by simp
    moreover have "get_next_level ops t i True s = Some (Some a, ?s)"
      using empty al False by (simp add: get_next_level_def)
    ultimately show ?thesis
      using that new_table_wf [OF wf inv al False P i refl] inv'
        new_table_leaf [OF wf inv al False P i empty refl] by blast
  qed
qed

text \<open>
  \<open>vmm\_map\_page\<close> either installs one leaf and leaves the others alone, or runs out of pages and
  leaves all leaves alone (the tables it hung below the tree on the way stay there).
\<close>

lemma map_page_leaves:
  assumes wf: "pt_wf ops owned root s" and inv: "inv s"
  obtains s' where "vmm_map_page ops root v pa flags s = Some s'" "pt_wf ops owned root s'" "inv s'"
    "(\<forall>Q j. table_path 3 Q \<and> length Q = 3 \<and> j < 512 \<longrightarrow> leaf ops s' root Q j =
        (if Q = upper_path v \<and> j = pt_index 12 v then (pa AND PTE_ADDR_MASK) OR flags OR PTE_PRESENT
         else leaf ops s root Q j)) \<or>
     page_alloc ops s' = Some (0, s') \<and>
     (\<forall>Q j. table_path 3 Q \<and> length Q = 3 \<and> j < 512 \<longrightarrow> leaf ops s' root Q j = leaf ops s root Q j)"
proof -
  have p: "table_path 2 []" "table_path 2 [pt_index 39 v]" "table_path 2 [pt_index 39 v, pt_index 30 v]"
    by (simp_all add: table_path_def pt_index_less)
  have r: "table_at ops s root [] = Some root" by simp
  obtain r1 s1 where 1: "get_next_level ops root (pt_index 39 v) True s = Some (r1, s1)"
    "pt_wf ops owned root s1" "inv s1"
    "\<And>Q j. table_path 3 Q \<Longrightarrow> length Q = 3 \<Longrightarrow> j < 512 \<Longrightarrow> leaf ops s1 root Q j = leaf ops s root Q j"
    "r1 = None \<Longrightarrow> page_alloc ops s1 = Some (0, s1)"
    "\<And>u. r1 = Some u \<Longrightarrow> table_at ops s1 root [pt_index 39 v] = Some u"
    by (rule next_level [OF wf inv p(1) r pt_index_less [of 39 v]]) simp
  show ?thesis
  proof (cases r1)
    case None
    then show ?thesis using that [of s1] 1 by (simp add: vmm_map_page_def)
  next
    case (Some pdp)
    obtain r2 s2 where 2: "get_next_level ops pdp (pt_index 30 v) True s1 = Some (r2, s2)"
      "pt_wf ops owned root s2" "inv s2"
      "\<And>Q j. table_path 3 Q \<Longrightarrow> length Q = 3 \<Longrightarrow> j < 512 \<Longrightarrow> leaf ops s2 root Q j = leaf ops s1 root Q j"
      "r2 = None \<Longrightarrow> page_alloc ops s2 = Some (0, s2)"
      "\<And>u. r2 = Some u \<Longrightarrow> table_at ops s2 root [pt_index 39 v, pt_index 30 v] = Some u"
      by (rule next_level [OF 1(2,3) p(2) 1(6) [OF Some] pt_index_less [of 30 v]]) simp
    show ?thesis
    proof (cases r2)
      case None
      then show ?thesis using that [of s2] 1 2 Some by (simp add: vmm_map_page_def)
    next
      case (Some pd)
      obtain r3 s3 where 3: "get_next_level ops pd (pt_index 21 v) True s2 = Some (r3, s3)"
        "pt_wf ops owned root s3" "inv s3"
        "\<And>Q j. table_path 3 Q \<Longrightarrow> length Q = 3 \<Longrightarrow> j < 512 \<Longrightarrow> leaf ops s3 root Q j = leaf ops s2 root Q j"
        "r3 = None \<Longrightarrow> page_alloc ops s3 = Some (0, s3)"
        "\<And>u. r3 = Some u \<Longrightarrow> table_at ops s3 root (upper_path v) = Some u"
        by (rule next_level [OF 2(2,3) p(3) 2(6) [OF Some] pt_index_less [of 21 v]])
          (simp add: upper_path_def)
      show ?thesis
      proof (cases r3)
        case None
        then show ?thesis using that [of s3] 1 2 3 Some \<open>r1 = Some pdp\<close> by (simp add: vmm_map_page_def)
      next
        case (Some pt)
        let ?s = "word_write ops (pt div 8 + pt_index 12 v) ((pa AND PTE_ADDR_MASK) OR flags OR PTE_PRESENT) s3"
        have m: "vmm_map_page ops root v pa flags s = Some ?s"
          using 1(1) 2(1) 3(1) Some \<open>r1 = Some pdp\<close> \<open>r2 = Some pd\<close> by (simp add: vmm_map_page_def)
        note w = leaf_write [OF 3(2) upper_path_table _ 3(6) [OF Some] pt_index_less]
        show ?thesis
          by (rule that [OF m w(1)])
            (use w(2) 1(4) 2(4) 3(3,4) in \<open>auto simp: write_inv upper_path_def\<close>)
      qed
    qed
  qed
qed

lemma unmap_page_leaves:
  assumes wf: "pt_wf ops owned root s" and inv: "inv s"
  obtains s' where "vmm_unmap_page ops root v s = Some s'" "pt_wf ops owned root s'" "inv s'"
    "\<And>Q j. table_path 3 Q \<Longrightarrow> length Q = 3 \<Longrightarrow> j < 512 \<Longrightarrow> leaf ops s' root Q j =
        (if Q = upper_path v \<and> j = pt_index 12 v then 0 else leaf ops s root Q j)"
proof (cases "table_at ops s root (upper_path v)")
  case None
  then have "vmm_unmap_page ops root v s = Some s"
    by (auto simp: vmm_unmap_page_def get_next_level_def upper_path_def Let_def split: if_splits)
  then show ?thesis using that wf inv None by (fastforce simp: leaf_def)
next
  case (Some t)
  then have m: "vmm_unmap_page ops root v s = Some (word_write ops (t div 8 + pt_index 12 v) 0 s)"
    by (auto simp: vmm_unmap_page_def get_next_level_def upper_path_def Let_def split: if_splits)
  note w = leaf_write [OF wf upper_path_table _ Some pt_index_less]
  show ?thesis
    by (rule that [OF m w(1)]) (use w(2) inv in \<open>auto simp: write_inv upper_path_def\<close>)
qed

end

section \<open>Address translation on the kernel's memory\<close>

text \<open>The four indices of an address are its bits 12 to 47.\<close>

definition page_bits :: "u64 \<Rightarrow> u64" where
  "page_bits v = v AND 0x0000fffffffff000"

lemma pt_index_take_bit: "pt_index k v = unat (take_bit 9 (drop_bit k v))"
proof -
  have "(0x1ff :: u64) = mask 9" by (simp add: mask_eq_exp_minus_1)
  then show ?thesis by (simp add: pt_index_def take_bit_eq_mask)
qed

lemma pt_index_bits:
  "pt_index k v = pt_index k w \<longleftrightarrow> (\<forall>n < 9. bit v (k + n) = bit w (k + n))"
proof -
  have "pt_index k v = pt_index k w \<longleftrightarrow> take_bit 9 (drop_bit k v) = take_bit 9 (drop_bit k w)"
    by (simp only: pt_index_take_bit word_unat_eq_iff)
  also have "\<dots> \<longleftrightarrow> (\<forall>n < 9. bit v (k + n) = bit w (k + n))"
    unfolding word_eq_bits bit_take_bit_iff bit_drop_bit_eq comp_apply by auto
  finally show ?thesis .
qed

lemma same_indices:
  "page_bits v = page_bits w \<longleftrightarrow> upper_path v = upper_path w \<and> pt_index 12 v = pt_index 12 w"
proof -
  have m: "(0x0000fffffffff000 :: u64) = push_bit 12 (mask 36)"
    by (simp add: mask_eq_exp_minus_1 push_bit_eq_mult)
  have "bit (page_bits u) n \<longleftrightarrow> 12 \<le> n \<and> n < 48 \<and> bit u n" for u n
    unfolding page_bits_def m bit_and_iff bit_push_bit_iff bit_mask_iff by auto
  then have pb: "page_bits v = page_bits w \<longleftrightarrow> (\<forall>n. 12 \<le> n \<and> n < 48 \<longrightarrow> bit v n = bit w n)"
    unfolding word_eq_bits by auto
  have split: "12 \<le> n \<and> n < 48 \<longleftrightarrow> (\<exists>k\<in>{12, 21, 30, 39}. \<exists>m < 9. n = k + m)" for n :: nat
  proof
    assume n: "12 \<le> n \<and> n < 48"
    consider "n < 21" | "21 \<le> n" "n < 30" | "30 \<le> n" "n < 39" | "39 \<le> n" by linarith
    then show "\<exists>k\<in>{12, 21, 30, 39}. \<exists>m < 9. n = k + m"
    proof cases
      case 1
      with n show ?thesis by (auto intro!: bexI [of _ 12] exI [of _ "n - 12"])
    next
      case 2
      with n show ?thesis by (intro bexI [of _ 21] exI [of _ "n - 21"]) auto
    next
      case 3
      with n show ?thesis by (intro bexI [of _ 30] exI [of _ "n - 30"]) auto
    next
      case 4
      with n show ?thesis by (intro bexI [of _ 39] exI [of _ "n - 39"]) auto
    qed
  qed auto
  show ?thesis unfolding pb split upper_path_def list.inject pt_index_bits by auto
qed

lemma entry_present:
  assumes "flags AND PTE_ADDR_MASK = 0"
  shows "((pa AND PTE_ADDR_MASK) OR flags OR PTE_PRESENT) AND PTE_PRESENT \<noteq> 0"
    and "((pa AND PTE_ADDR_MASK) OR flags OR PTE_PRESENT) AND PTE_ADDR_MASK = pa AND PTE_ADDR_MASK"
proof -
  have "bit (((pa AND PTE_ADDR_MASK) OR flags OR PTE_PRESENT) AND PTE_PRESENT) 0"
    by (simp add: PTE_PRESENT_def bit_and_iff bit_or_iff)
  then show "((pa AND PTE_ADDR_MASK) OR flags OR PTE_PRESENT) AND PTE_PRESENT \<noteq> 0" by auto
  have "PTE_PRESENT AND PTE_ADDR_MASK = 0" by (simp add: PTE_PRESENT_def PTE_ADDR_MASK_def)
  then show "((pa AND PTE_ADDR_MASK) OR flags OR PTE_PRESENT) AND PTE_ADDR_MASK = pa AND PTE_ADDR_MASK"
    using assms by (simp add: bit.conj_disj_distrib2 and.assoc)
qed

lemma translation_leaf:
  "vmm_get_phys kernel_pages root w pm = Some
     (let e = leaf kernel_pages pm root (upper_path w) (pt_index 12 w)
      in if e AND PTE_PRESENT = 0 then 0 else (e AND PTE_ADDR_MASK) + (w AND 0xfff))"
  by (rule get_phys_leaf)

lemma upper_path_length: "length (upper_path v) = 3"
  by (simp add: upper_path_def)

text \<open>
  C2: with well-formed tables and flags outside the address bits, \<open>vmm\_map\_page\<close> never faults
  and keeps the tables well-formed. Either the page is mapped: the translation of every address of
  the page is the physical page plus the offset, and the translation of every address of every
  other page is what it was. Or the allocator has no page left, and no translation has changed.
\<close>

theorem vmm_map_page_translates:
  assumes "pmm_inv pm" "pt_wf kernel_pages (\<lambda>pm. used (bitmap pm)) root pm"
    and "flags AND PTE_ADDR_MASK = 0"
  shows "\<exists>pm'. vmm_map_page kernel_pages root v pa flags pm = Some pm' \<and> pmm_inv pm' \<and>
    pt_wf kernel_pages (\<lambda>pm. used (bitmap pm)) root pm' \<and>
    ((\<forall>w. vmm_get_phys kernel_pages root w pm' =
        (if page_bits w = page_bits v then Some ((pa AND PTE_ADDR_MASK) + (w AND 0xfff))
         else vmm_get_phys kernel_pages root w pm)) \<or>
     pmm_alloc_page pm' = Some (0, pm') \<and>
     (\<forall>w. vmm_get_phys kernel_pages root w pm' = vmm_get_phys kernel_pages root w pm))"
proof -
  obtain pm' where m: "vmm_map_page kernel_pages root v pa flags pm = Some pm'"
    "pt_wf kernel_pages (\<lambda>pm. used (bitmap pm)) root pm'" "pmm_inv pm'"
    "(\<forall>Q j. table_path 3 Q \<and> length Q = 3 \<and> j < 512 \<longrightarrow> leaf kernel_pages pm' root Q j =
        (if Q = upper_path v \<and> j = pt_index 12 v then (pa AND PTE_ADDR_MASK) OR flags OR PTE_PRESENT
         else leaf kernel_pages pm root Q j)) \<or>
     page_alloc kernel_pages pm' = Some (0, pm') \<and>
     (\<forall>Q j. table_path 3 Q \<and> length Q = 3 \<and> j < 512 \<longrightarrow>
        leaf kernel_pages pm' root Q j = leaf kernel_pages pm root Q j)"
    by (rule pages.map_page_leaves [OF assms(2,1)])
  note at = upper_path_table upper_path_length pt_index_less
  from m(4) show ?thesis
  proof
    assume l: "\<forall>Q j. table_path 3 Q \<and> length Q = 3 \<and> j < 512 \<longrightarrow> leaf kernel_pages pm' root Q j =
        (if Q = upper_path v \<and> j = pt_index 12 v then (pa AND PTE_ADDR_MASK) OR flags OR PTE_PRESENT
         else leaf kernel_pages pm root Q j)"
    have "vmm_get_phys kernel_pages root w pm' =
        (if page_bits w = page_bits v then Some ((pa AND PTE_ADDR_MASK) + (w AND 0xfff))
         else vmm_get_phys kernel_pages root w pm)" for w
      using l [rule_format, of "upper_path w" "pt_index 12 w"] at same_indices [of w v] entry_present [OF assms(3)]
      by (auto simp: translation_leaf)
    with m show ?thesis by blast
  next
    assume l: "page_alloc kernel_pages pm' = Some (0, pm') \<and>
     (\<forall>Q j. table_path 3 Q \<and> length Q = 3 \<and> j < 512 \<longrightarrow>
        leaf kernel_pages pm' root Q j = leaf kernel_pages pm root Q j)"
    then have "vmm_get_phys kernel_pages root w pm' = vmm_get_phys kernel_pages root w pm" for w
      using at by (simp add: translation_leaf)
    moreover have "pmm_alloc_page pm' = Some (0, pm')" using l by (simp add: kernel_pages_def)
    ultimately show ?thesis using m by blast
  qed
qed

text \<open>An empty top table in a page of its own is well-formed.\<close>

lemma empty_top_wf:
  assumes "used (bitmap pm) r" "\<forall>i < 512. phys pm (512 * r + i) = 0"
  shows "pt_wf kernel_pages (\<lambda>pm. used (bitmap pm)) (4096 * r) pm"
proof -
  have at: "Q = [] \<and> t = 4096 * r" if "table_path 3 Q" "table_at kernel_pages pm (4096 * r) Q = Some t" for Q t
    using that assms(2) by (cases Q) (auto simp: kernel_pages_def table_path_def Let_def)
  show ?thesis unfolding pt_wf_def
  proof (intro conjI allI impI; elim conjE)
    fix Q t assume "table_path 3 Q" "table_at kernel_pages pm (4096 * r) Q = Some t"
    from at [OF this] assms(1) show "4096 dvd t" "used (bitmap pm) (t div 4096)" by simp_all
  qed (metis at)
qed

theorem vmm_map_page_translates_witness:
  "\<exists>pm'. vmm_map_page kernel_pages 4096 0x1234 0x7000 2
      \<lparr>bitmap = [0x3], highest_page = 8, phys = \<lambda>_. 0\<rparr> = Some pm' \<and>
    vmm_get_phys kernel_pages 4096 0x1678 pm' = Some 0x7678"
proof -
  let ?pm = "\<lparr>bitmap = [0x3], highest_page = 8, phys = \<lambda>_. 0 :: u64\<rparr>"
  have inv: "pmm_inv ?pm" by (simp add: inv_simps used_def)
  have wf: "pt_wf kernel_pages (\<lambda>pm. used (bitmap pm)) 4096 ?pm"
    using empty_top_wf [of ?pm 1] by (simp add: used_def)
  have more: "map_option (\<lambda>pm. map_option fst (pmm_alloc_page pm))
      (vmm_map_page kernel_pages 4096 0x1234 0x7000 2 ?pm) = Some (Some 0x5000)"
    by (simp add: vmm_map_page_def get_next_level_def pt_index_def kernel_pages_def pmm_alloc_page_def
        pmm_alloc_pages_def alloc_scan.simps bitmap_test_def bitmap_set_def zero_pages_def
        PTE_PRESENT_def PTE_WRITABLE_def PTE_USER_def PTE_ADDR_MASK_def)
  have "(2 :: u64) AND PTE_ADDR_MASK = 0" by (simp add: PTE_ADDR_MASK_def)
  moreover have "page_bits 0x1678 = page_bits 0x1234" by (simp add: page_bits_def)
  moreover have "(0x7000 AND PTE_ADDR_MASK) + (0x1678 AND 0xfff) = (0x7678 :: u64)"
    by (simp add: PTE_ADDR_MASK_def)
  ultimately show ?thesis
    using vmm_map_page_translates [OF inv wf, of 2 "0x1234" "0x7000"] more by fastforce
qed

text \<open>
  C33: \<open>vmm\_unmap\_page\<close> needs no memory: afterwards every address of the page translates to 0 (not
  mapped), and every address of every other page as before.
\<close>

theorem vmm_unmap_page_translates:
  assumes "pmm_inv pm" "pt_wf kernel_pages (\<lambda>pm. used (bitmap pm)) root pm"
  shows "\<exists>pm'. vmm_unmap_page kernel_pages root v pm = Some pm' \<and> pmm_inv pm' \<and>
    pt_wf kernel_pages (\<lambda>pm. used (bitmap pm)) root pm' \<and>
    (\<forall>w. vmm_get_phys kernel_pages root w pm' =
        (if page_bits w = page_bits v then Some 0 else vmm_get_phys kernel_pages root w pm))"
proof -
  obtain pm' where m: "vmm_unmap_page kernel_pages root v pm = Some pm'"
    "pt_wf kernel_pages (\<lambda>pm. used (bitmap pm)) root pm'" "pmm_inv pm'"
    "\<And>Q j. table_path 3 Q \<Longrightarrow> length Q = 3 \<Longrightarrow> j < 512 \<Longrightarrow> leaf kernel_pages pm' root Q j =
        (if Q = upper_path v \<and> j = pt_index 12 v then 0 else leaf kernel_pages pm root Q j)"
    by (rule pages.unmap_page_leaves [OF assms(2,1), of v]) blast
  have "vmm_get_phys kernel_pages root w pm' =
      (if page_bits w = page_bits v then Some 0 else vmm_get_phys kernel_pages root w pm)" for w
    using m(4) [OF upper_path_table upper_path_length pt_index_less, of w 12 w] same_indices [of w v]
    by (auto simp: translation_leaf)
  with m show ?thesis by blast
qed

theorem vmm_unmap_page_translates_witness:
  "\<exists>pm'. vmm_unmap_page kernel_pages 4096 0x1234
      \<lparr>bitmap = [0x3], highest_page = 8, phys = \<lambda>_. 0\<rparr> = Some pm' \<and>
    vmm_get_phys kernel_pages 4096 0x1678 pm' = Some 0"
proof -
  let ?pm = "\<lparr>bitmap = [0x3], highest_page = 8, phys = \<lambda>_. 0 :: u64\<rparr>"
  have inv: "pmm_inv ?pm" by (simp add: inv_simps used_def)
  have wf: "pt_wf kernel_pages (\<lambda>pm. used (bitmap pm)) 4096 ?pm"
    using empty_top_wf [of ?pm 1] by (simp add: used_def)
  have "page_bits 0x1678 = page_bits 0x1234" by (simp add: page_bits_def)
  then show ?thesis
    using vmm_unmap_page_translates [OF inv wf, of "0x1234"] by auto
qed

end
