(* ===== verification/Heap.thy ===== *)
theory Heap
  imports Pmm
begin

text \<open>
  The kernel heap of \<open>heap.c\<close>: a list of blocks linked by address inside one region taken from
  the page allocator. Headers and payload bytes are two maps over the same 64-bit addresses: a
  header is read where one was written, and clients write payload only. \<open>None\<close> is a read of an
  address that holds no header or a walk that does not end. The abstract view is the list of
  (payload size, free) pairs in address order; the operations are shown to refine first-fit
  allocation and release with merging on that list.
\<close>

section \<open>State\<close>

record block =
  b_size :: u64
  b_free :: bool
  b_next :: u64
  b_prev :: u64

record heap =
  blocks :: "u64 \<rightharpoonup> block"
  heap_head :: u64
  total_size :: u64
  used_size :: u64
  payload :: "u64 \<Rightarrow> u8"

definition HEAP_MAX :: nat where "HEAP_MAX = 768 * 1024 * 1024"
definition HEAP_MIN :: nat where "HEAP_MIN = 16 * 1024 * 1024"
definition ALIGNMENT :: u64 where "ALIGNMENT = 16"
definition HDR_SIZE :: u64 where "HDR_SIZE = (32 + ALIGNMENT - 1) AND NOT (ALIGNMENT - 1)"

lemma hdr_size [simp]: "HDR_SIZE = 32"
  by (simp add: HDR_SIZE_def ALIGNMENT_def)

section \<open>Operations\<close>

text \<open>
  \<open>heap\_init\<close> asks for 768 MiB and halves the request until the page allocator can serve it; the
  halving stops below 16 MiB.
\<close>

function heap_claim :: "nat \<Rightarrow> pmm \<Rightarrow> (nat \<times> nat \<times> pmm) option" where
  "heap_claim want pm =
     (if want \<ge> HEAP_MIN then
        pmm_alloc_pages (want div 4096) pm \<bind> (\<lambda>(ph, pm1).
          if ph \<noteq> 0 then Some (ph, want, pm1) else heap_claim (want div 2) pm1)
      else Some (0, want, pm))"
  by pat_completeness auto
termination by (relation "measure fst") (auto simp: HEAP_MIN_def)

declare heap_claim.simps [simp del]

definition heap_init :: "u64 \<Rightarrow> pmm \<Rightarrow> heap \<Rightarrow> (heap \<times> pmm) option" where
  "heap_init hhdm pm h =
     heap_claim HEAP_MAX pm \<bind> (\<lambda>(ph, want, pm1).
       if ph = 0 then Some (h, pm1)
       else let b = of_nat ph + hhdm in
         Some (h\<lparr>blocks := (blocks h)(b \<mapsto> \<lparr>b_size = of_nat want - HDR_SIZE, b_free = True,
                   b_next = 0, b_prev = 0\<rparr>),
                 heap_head := b, total_size := of_nat want, used_size := 0\<rparr>, pm1))"

partial_function (option) malloc_find :: "(u64 \<rightharpoonup> block) \<Rightarrow> u64 \<Rightarrow> u64 \<Rightarrow> u64 option option" where
  "malloc_find hp sz b =
     (if b = 0 then Some None
      else hp b \<bind> (\<lambda>blk.
        if \<not> b_free blk \<or> b_size blk < sz then malloc_find hp sz (b_next blk)
        else Some (Some b)))"

definition set_prev :: "u64 \<Rightarrow> u64 \<Rightarrow> (u64 \<rightharpoonup> block) \<Rightarrow> (u64 \<rightharpoonup> block) option" where
  "set_prev n p hp = (if n = 0 then Some hp else hp n \<bind> (\<lambda>blk. Some (hp(n \<mapsto> blk\<lparr>b_prev := p\<rparr>))))"

definition split_block :: "u64 \<Rightarrow> u64 \<Rightarrow> (u64 \<rightharpoonup> block) \<Rightarrow> (u64 \<rightharpoonup> block) option" where
  "split_block b sz hp = hp b \<bind> (\<lambda>blk.
     if b_size blk \<ge> sz + HDR_SIZE + ALIGNMENT then
       let split = b + HDR_SIZE + sz
       in set_prev (b_next blk) split
            (hp(split \<mapsto> \<lparr>b_size = b_size blk - sz - HDR_SIZE, b_free = True,
               b_next = b_next blk, b_prev = b\<rparr>)) \<bind> (\<lambda>hp.
          Some (hp(b \<mapsto> blk\<lparr>b_next := split, b_size := sz\<rparr>)))
     else Some hp)"

definition round_size :: "u64 \<Rightarrow> u64" where
  "round_size sz = (sz + ALIGNMENT - 1) AND NOT (ALIGNMENT - 1)"

definition malloc :: "u64 \<Rightarrow> heap \<Rightarrow> (u64 \<times> heap) option" where
  "malloc sz0 h =
     (if sz0 = 0 \<or> heap_head h = 0 then Some (0, h)
      else let sz = round_size sz0
        in malloc_find (blocks h) sz (heap_head h) \<bind> (\<lambda>r. case r of
             None \<Rightarrow> Some (0, h)
           | Some b \<Rightarrow>
               split_block b sz (blocks h) \<bind> (\<lambda>hp.
               hp b \<bind> (\<lambda>blk.
               Some (b + HDR_SIZE,
                 h\<lparr>blocks := hp(b \<mapsto> blk\<lparr>b_free := False\<rparr>),
                   used_size := used_size h + (b_size blk + HDR_SIZE)\<rparr>)))))"

definition coalesce_with_next :: "u64 \<Rightarrow> (u64 \<rightharpoonup> block) \<Rightarrow> (u64 \<rightharpoonup> block) option" where
  "coalesce_with_next b hp = hp b \<bind> (\<lambda>blk.
     if b_next blk = 0 then Some hp
     else hp (b_next blk) \<bind> (\<lambda>n.
       if b_free n \<and> b_free blk then
         set_prev (b_next n) b
           (hp(b \<mapsto> blk\<lparr>b_size := b_size blk + (HDR_SIZE + b_size n), b_next := b_next n\<rparr>))
       else Some hp))"

definition free_block :: "u64 \<Rightarrow> heap \<Rightarrow> heap option" where
  "free_block ptr h =
     (if ptr = 0 then Some h
      else let b = ptr - HDR_SIZE
        in blocks h b \<bind> (\<lambda>blk.
          if b_free blk then Some h
          else coalesce_with_next b ((blocks h)(b \<mapsto> blk\<lparr>b_free := True\<rparr>)) \<bind> (\<lambda>hp.
            hp b \<bind> (\<lambda>blk'.
            (if b_prev blk' = 0 then Some hp
             else hp (b_prev blk') \<bind> (\<lambda>pb.
               if b_free pb then coalesce_with_next (b_prev blk') hp else Some hp)) \<bind> (\<lambda>hp.
            Some (h\<lparr>blocks := hp, used_size := used_size h - (b_size blk + HDR_SIZE)\<rparr>))))))"

definition fill_bytes :: "u64 \<Rightarrow> u8 \<Rightarrow> u64 \<Rightarrow> (u64 \<Rightarrow> u8) \<Rightarrow> u64 \<Rightarrow> u8" where
  "fill_bytes p x n m = (\<lambda>a. if a - p < n then x else m a)"

definition copy_bytes :: "u64 \<Rightarrow> u64 \<Rightarrow> u64 \<Rightarrow> (u64 \<Rightarrow> u8) \<Rightarrow> u64 \<Rightarrow> u8" where
  "copy_bytes d s n m = (\<lambda>a. if a - d < n then m (s + (a - d)) else m a)"

definition calloc :: "u64 \<Rightarrow> u64 \<Rightarrow> heap \<Rightarrow> (u64 \<times> heap) option" where
  "calloc num sz h =
     (if num \<noteq> 0 \<and> sz > (-1) div num then Some (0, h)
      else let total = num * sz
        in malloc total h \<bind> (\<lambda>(p, h1).
          if p \<noteq> 0 then Some (p, h1\<lparr>payload := fill_bytes p 0 total (payload h1)\<rparr>)
          else Some (p, h1)))"

definition realloc :: "u64 \<Rightarrow> u64 \<Rightarrow> heap \<Rightarrow> (u64 \<times> heap) option" where
  "realloc ptr sz h =
     (if ptr = 0 then malloc sz h
      else if sz = 0 then free_block ptr h \<bind> (\<lambda>h1. Some (0, h1))
      else let b = ptr - HDR_SIZE
        in blocks h b \<bind> (\<lambda>blk.
          if b_size blk \<ge> sz then Some (ptr, h)
          else malloc sz h \<bind> (\<lambda>(np, h1).
            if np \<noteq> 0 then
              blocks h1 b \<bind> (\<lambda>blk1.
              free_block ptr (h1\<lparr>payload := copy_bytes np ptr (b_size blk1) (payload h1)\<rparr>) \<bind> (\<lambda>h2.
              Some (np, h2)))
            else Some (np, h1))))"

section \<open>The list of blocks\<close>

type_synonym seg = "nat \<times> bool"

fun seg_total :: "seg list \<Rightarrow> nat" where
  "seg_total [] = 0"
| "seg_total ((n, f) # xs) = 32 + n + seg_total xs"

fun seg_used :: "seg list \<Rightarrow> nat" where
  "seg_used [] = 0"
| "seg_used ((n, f) # xs) = (if f then 0 else n + 32) + seg_used xs"

fun no_adjacent_free :: "seg list \<Rightarrow> bool" where
  "no_adjacent_free ((n, f) # (m, g) # xs) \<longleftrightarrow> \<not> (f \<and> g) \<and> no_adjacent_free ((m, g) # xs)"
| "no_adjacent_free _ \<longleftrightarrow> True"

text \<open>
  \<open>linked hp p a xs nx\<close>: from address \<open>a\<close> on, one header after another, are the blocks of \<open>xs\<close>; the
  first one's \<open>prev\<close> is \<open>p\<close>, the last one's \<open>next\<close> is \<open>nx\<close>, all others point to their neighbours.
\<close>

fun linked :: "(u64 \<rightharpoonup> block) \<Rightarrow> u64 \<Rightarrow> nat \<Rightarrow> seg list \<Rightarrow> u64 \<Rightarrow> bool" where
  "linked hp p a [] nx \<longleftrightarrow> True"
| "linked hp p a ((n, f) # xs) nx \<longleftrightarrow> 16 dvd n \<and>
     hp (of_nat a) = Some \<lparr>b_size = of_nat n, b_free = f,
       b_next = (if xs = [] then nx else of_nat (a + 32 + n)), b_prev = p\<rparr> \<and>
     linked hp (of_nat a) (a + 32 + n) xs nx"

fun last_addr :: "u64 \<Rightarrow> nat \<Rightarrow> seg list \<Rightarrow> u64" where
  "last_addr p a [] = p"
| "last_addr p a ((n, f) # xs) = last_addr (of_nat a) (a + 32 + n) xs"

definition heap_inv :: "nat \<Rightarrow> seg list \<Rightarrow> heap \<Rightarrow> bool" where
  [inv_simps]: "heap_inv base xs h \<longleftrightarrow> 0 < base \<and> 16 dvd base \<and> base + seg_total xs < 2 ^ 64 \<and> xs \<noteq> [] \<and>
     heap_head h = of_nat base \<and> linked (blocks h) 0 base xs 0 \<and> no_adjacent_free xs \<and>
     total_size h = of_nat (seg_total xs) \<and> used_size h = of_nat (seg_used xs)"

text \<open>First-fit allocation and merging release on the list.\<close>

fun seg_alloc :: "nat \<Rightarrow> seg list \<Rightarrow> (nat \<times> seg list) option" where
  "seg_alloc k [] = None"
| "seg_alloc k ((n, f) # xs) =
     (if f \<and> k \<le> n
      then Some (0, if k + 48 \<le> n then (k, False) # (n - k - 32, True) # xs else (n, False) # xs)
      else map_option (\<lambda>(off, ys). (32 + n + off, (n, f) # ys)) (seg_alloc k xs))"

definition merge_right :: "nat \<Rightarrow> seg list \<Rightarrow> seg list" where
  "merge_right n ys = (case ys of (m, True) # ys' \<Rightarrow> (n + 32 + m, True) # ys' | _ \<Rightarrow> (n, True) # ys)"

definition merge_left :: "seg list \<Rightarrow> seg list \<Rightarrow> seg list" where
  "merge_left xs ys =
     (if xs \<noteq> [] \<and> snd (last xs)
      then butlast xs @ (fst (last xs) + 32 + fst (hd ys), True) # tl ys else xs @ ys)"

definition seg_release :: "seg list \<Rightarrow> nat \<Rightarrow> seg list \<Rightarrow> seg list" where
  "seg_release xs n ys = merge_left xs (merge_right n ys)"

section \<open>Reading and updating the list\<close>

lemma seg_total_append [simp]: "seg_total (xs @ ys) = seg_total xs + seg_total ys"
  by (induction xs rule: seg_total.induct) auto

lemma seg_used_append [simp]: "seg_used (xs @ ys) = seg_used xs + seg_used ys"
  by (induction xs rule: seg_used.induct) auto

lemma seg_used_total: "seg_used xs \<le> seg_total xs"
  by (induction xs rule: seg_used.induct) auto

lemma linked_append:
  "linked hp p a (xs @ ys) nx \<longleftrightarrow>
   linked hp p a xs (if ys = [] then nx else of_nat (a + seg_total xs)) \<and>
   linked hp (last_addr p a xs) (a + seg_total xs) ys nx"
  by (induction hp p a xs nx rule: linked.induct) (auto simp: add.assoc)

lemma linked_dvd: "linked hp p a xs nx \<Longrightarrow> 16 dvd a \<Longrightarrow> 16 dvd a + seg_total xs"
  by (induction hp p a xs nx rule: linked.induct) (auto simp: add.assoc [symmetric])

lemma linked_frame:
  assumes "\<And>b. a \<le> b \<Longrightarrow> b < a + seg_total xs \<Longrightarrow> hp' (of_nat b) = hp (of_nat b)"
  shows "linked hp' p a xs nx = linked hp p a xs nx"
  using assms by (induction hp p a xs nx rule: linked.induct) auto

lemma addr_neq: "a < 2 ^ 64 \<Longrightarrow> b < 2 ^ 64 \<Longrightarrow> (of_nat a :: u64) = of_nat b \<longleftrightarrow> a = b"
  by (auto dest: arg_cong [where f = unat] simp: unat_of_nat_small)

lemma linked_upd:
  assumes "a + seg_total xs \<le> 2 ^ 64" "b < 2 ^ 64" "b < a \<or> a + seg_total xs \<le> b"
  shows "linked (hp(of_nat b := v)) p a xs nx = linked hp p a xs nx"
  using assms by (intro linked_frame) (auto simp: addr_neq)

lemma linked_prev:
  assumes "linked hp p a ((n, f) # xs) nx" "a + seg_total ((n, f) # xs) \<le> 2 ^ 64" "a < 2 ^ 64"
    and "hp (of_nat a) = Some blk"
  shows "linked (hp(of_nat a \<mapsto> blk\<lparr>b_prev := q\<rparr>)) q a ((n, f) # xs) nx"
  using assms by (auto simp: linked_upd)

text \<open>The search of \<open>malloc\<close> is the search on the list.\<close>

definition fits :: "nat \<Rightarrow> seg \<Rightarrow> bool" where
  "fits k s \<longleftrightarrow> snd s \<and> k \<le> fst s"

lemma malloc_find_linked:
  assumes "linked hp p a xs 0" "0 < a" "a + seg_total xs < 2 ^ 64"
  shows "malloc_find hp sz (if xs = [] then 0 else of_nat a) =
    Some (case dropWhile (\<lambda>s. \<not> fits (unat sz) s) xs of
        [] \<Rightarrow> None
      | _ # _ \<Rightarrow> Some (of_nat (a + seg_total (takeWhile (\<lambda>s. \<not> fits (unat sz) s) xs))))"
  using assms
proof (induction xs arbitrary: p a)
  case Nil
  then show ?case by (simp add: malloc_find.simps)
next
  case (Cons s xs)
  obtain n f where s: "s = (n, f)" by force
  have a0: "(of_nat a :: u64) \<noteq> 0" using Cons.prems addr_neq [of a 0] by simp
  have n: "unat (of_nat n :: u64) = n" using Cons.prems s by (intro unat_of_nat_small) simp
  have IH: "malloc_find hp sz (if xs = [] then 0 else of_nat (a + 32 + n)) =
    Some (case dropWhile (\<lambda>s. \<not> fits (unat sz) s) xs of
        [] \<Rightarrow> None
      | _ # _ \<Rightarrow> Some (of_nat (a + 32 + n + seg_total (takeWhile (\<lambda>s. \<not> fits (unat sz) s) xs))))"
    using Cons.prems s by (intro Cons.IH [of "of_nat a"]) auto
  have step: "malloc_find hp sz (of_nat a) = (if \<not> fits (unat sz) s
      then malloc_find hp sz (if xs = [] then 0 else of_nat (a + 32 + n)) else Some (Some (of_nat a)))"
    using Cons.prems s a0 by (subst malloc_find.simps) (auto simp: fits_def word_less_unat n)
  show ?case
  proof (cases "fits (unat sz) s")
    case False
    then show ?thesis
      unfolding if_not_P [OF list.distinct(2)] step using IH s
      by (simp add: add.assoc del: dropWhile_eq_Nil_conv split: list.splits)
  qed (simp add: step)
qed

text \<open>Changing the back pointer of the first block of the rest.\<close>

lemma set_prev_linked:
  assumes "linked hp q c ys 0" "0 < c" "c + seg_total ys < 2 ^ 64"
  obtains hp' where "set_prev (if ys = [] then 0 else of_nat c) q' hp = Some hp'"
    "linked hp' q' c ys 0" "\<And>a. a < 2 ^ 64 \<Longrightarrow> a \<noteq> c \<Longrightarrow> hp' (of_nat a) = hp (of_nat a)"
proof (cases ys)
  case Nil
  then show ?thesis by (intro that [of hp]) (auto simp: set_prev_def)
next
  case (Cons s zs)
  obtain n f where s: "s = (n, f)" by force
  have c0: "(of_nat c :: u64) \<noteq> 0" using assms addr_neq [of c 0] by simp
  from assms(1) Cons s obtain blk where blk: "hp (of_nat c) = Some blk" by auto
  have l: "linked hp q c ((n, f) # zs) 0" using assms(1) Cons s by simp
  show ?thesis
  proof (rule that [of "hp(of_nat c \<mapsto> blk\<lparr>b_prev := q'\<rparr>)"])
    show "linked (hp(of_nat c \<mapsto> blk\<lparr>b_prev := q'\<rparr>)) q' c ys 0"
      using linked_prev [OF l _ _ blk, of q'] assms Cons s by (simp del: linked.simps)
    show "a < 2 ^ 64 \<Longrightarrow> a \<noteq> c \<Longrightarrow> (hp(of_nat c \<mapsto> blk\<lparr>b_prev := q'\<rparr>)) (of_nat a) = hp (of_nat a)" for a
      using assms addr_neq [of a c] by auto
  qed (use Cons c0 blk in \<open>simp add: set_prev_def\<close>)
qed

text \<open>
  Replacing what follows a prefix: the prefix is kept when the header at its end is still there
  and no header inside it has changed.
\<close>

lemma linked_replace:
  assumes "linked hp p a (xs @ ys) nx" "ys \<noteq> []" "zs \<noteq> []"
    and "\<And>b. a \<le> b \<Longrightarrow> b < a + seg_total xs \<Longrightarrow> hp' (of_nat b) = hp (of_nat b)"
    and "linked hp' (last_addr p a xs) (a + seg_total xs) zs nx"
  shows "linked hp' p a (xs @ zs) nx"
  using assms linked_frame [of a xs hp' hp] by (simp add: linked_append)

text \<open>Cutting a free block.\<close>

definition cut :: "nat \<Rightarrow> nat \<Rightarrow> bool \<Rightarrow> seg list \<Rightarrow> seg list" where
  "cut k n f ys = (if k + 48 \<le> n then (k, f) # (n - k - 32, True) # ys else (n, f) # ys)"

lemma split_block_linked:
  assumes l: "linked hp q b ((n, True) # ys) 0" and b: "16 \<le> b" "b + seg_total ((n, True) # ys) < 2 ^ 64"
    and k: "16 dvd k" "k \<le> n"
  obtains hp' where "split_block (of_nat b) (of_nat k) hp = Some hp'" "linked hp' q b (cut k n True ys) 0"
    "\<And>a. a < b \<Longrightarrow> hp' (of_nat a) = hp (of_nat a)"
proof -
  define blk where "blk = \<lparr>b_size = of_nat n, b_free = True,
      b_next = (if ys = [] then 0 else of_nat (b + 32 + n)), b_prev = q\<rparr>"
  have hb: "hp (of_nat b) = Some blk" and n16: "16 dvd n"
    and rest: "linked hp (of_nat b) (b + 32 + n) ys 0" using l by (auto simp: blk_def)
  have cond: "b_size blk \<ge> of_nat k + HDR_SIZE + ALIGNMENT \<longleftrightarrow> k + 48 \<le> n"
  proof -
    have "of_nat k + HDR_SIZE + ALIGNMENT = (of_nat (k + 48) :: u64)" by (simp add: ALIGNMENT_def)
    moreover have "unat (of_nat (k + 48) :: u64) = k + 48" "unat (of_nat n :: u64) = n"
      by (rule unat_of_nat_small; use b k in simp)+
    ultimately show ?thesis by (simp add: blk_def word_le_unat del: of_nat_add)
  qed
  show ?thesis
  proof (cases "k + 48 \<le> n")
    case False
    then show ?thesis using hb cond l by (intro that [of hp]) (auto simp: split_block_def cut_def)
  next
    case True
    define sp where "sp = b + 32 + k"
    define nb where "nb = \<lparr>b_size = of_nat (n - k - 32), b_free = True, b_next = b_next blk, b_prev = of_nat b\<rparr>"
    have "linked (hp(of_nat sp \<mapsto> nb)) (of_nat b) (b + 32 + n) ys 0"
      using rest linked_upd [of "b + 32 + n" ys sp] True b by (simp add: sp_def)
    then obtain hp2 where hp2: "set_prev (if ys = [] then 0 else of_nat (b + 32 + n)) (of_nat sp) (hp(of_nat sp \<mapsto> nb)) = Some hp2"
      "linked hp2 (of_nat sp) (b + 32 + n) ys 0"
      "\<And>a. a < 2 ^ 64 \<Longrightarrow> a \<noteq> b + 32 + n \<Longrightarrow> hp2 (of_nat a) = (hp(of_nat sp \<mapsto> nb)) (of_nat a)"
      by (rule set_prev_linked) (use b in auto)
    let ?hp = "hp2(of_nat b \<mapsto> blk\<lparr>b_next := of_nat sp, b_size := of_nat k\<rparr>)"
    have sz: "of_nat n - of_nat k - HDR_SIZE = (of_nat (n - k - 32) :: u64)" using True by (simp add: of_nat_diff)
    have run: "split_block (of_nat b) (of_nat k) hp = Some ?hp"
      using hb cond True hp2(1) sz
      by (simp add: split_block_def nb_def blk_def sp_def algebra_simps split: if_splits)
    have spb: "(of_nat sp :: u64) \<noteq> of_nat b" using b True addr_neq [of sp b] by (simp add: sp_def)
    have "hp2 (of_nat sp) = Some nb" using hp2(3) [of sp] b True by (simp add: sp_def)
    moreover have "linked ?hp (of_nat sp) (b + 32 + n) ys 0"
      using hp2(2) linked_upd [of "b + 32 + n" ys b] b by simp
    moreover have nx: "sp + 32 + (n - k - 32) = b + 32 + n" using True by (simp add: sp_def)
    moreover have "16 dvd n - k - 32" using n16 k(1) True by (simp add: dvd_diff_nat)
    ultimately have new: "linked ?hp (of_nat b) sp ((n - k - 32, True) # ys) 0"
      using spb by (simp only: linked.simps nx) (simp add: nb_def blk_def)
    have "linked ?hp q b ((k, True) # (n - k - 32, True) # ys) 0"
      unfolding linked.simps(2) [of _ _ b] sp_def [symmetric] using k(1) new
      by (simp add: blk_def del: linked.simps)
    then have "linked ?hp q b (cut k n True ys) 0" using True by (simp only: cut_def if_True)
    moreover have "?hp (of_nat a) = hp (of_nat a)" if "a < b" for a
      using that b True addr_neq [of a b] addr_neq [of a sp] hp2(3) [of a] by (simp add: sp_def)
    ultimately show ?thesis using that run by blast
  qed
qed

lemma set_free_linked:
  assumes "linked hp q b ((n, f) # ys) 0" "b + seg_total ((n, f) # ys) < 2 ^ 64" "hp (of_nat b) = Some blk"
  shows "linked (hp(of_nat b \<mapsto> blk\<lparr>b_free := g\<rparr>)) q b ((n, g) # ys) 0"
  using assms by (auto simp: linked_upd)

text \<open>Merging a free block with a free block behind it.\<close>

definition join :: "nat \<Rightarrow> bool \<Rightarrow> seg list \<Rightarrow> seg list" where
  "join n f ys = (if f then merge_right n ys else (n, f) # ys)"

lemma coalesce_linked:
  assumes l: "linked hp q b ((n, f) # ys) 0" and b: "0 < b" "b + seg_total ((n, f) # ys) < 2 ^ 64"
  obtains hp' where "coalesce_with_next (of_nat b) hp = Some hp'" "linked hp' q b (join n f ys) 0"
    "\<And>a. a < b \<Longrightarrow> hp' (of_nat a) = hp (of_nat a)"
proof (cases "\<exists>m zs. f \<and> ys = (m, True) # zs")
  case False
  then have j: "join n f ys = (n, f) # ys"
    by (auto simp: join_def merge_right_def split: list.splits bool.splits)
  have "coalesce_with_next (of_nat b) hp = Some hp"
  proof (cases ys)
    case Nil
    then show ?thesis using l by (simp add: coalesce_with_next_def)
  next
    case (Cons s zs)
    moreover obtain m g where "s = (m, g)" by force
    moreover have "(of_nat (b + 32 + n) :: u64) \<noteq> 0" using b addr_neq [of "b + 32 + n" 0] by simp
    ultimately show ?thesis using l False by (auto simp: coalesce_with_next_def simp del: of_nat_add)
  qed
  then show ?thesis using that l j by simp
next
  case True
  then obtain m zs where f: "f" and ys: "ys = (m, True) # zs" by blast
  define c where "c = b + 32 + n"
  define d where "d = c + 32 + m"
  define blk where "blk = \<lparr>b_size = of_nat n, b_free = True, b_next = of_nat c, b_prev = q\<rparr>"
  define nb where "nb = \<lparr>b_size = of_nat m, b_free = True,
      b_next = (if zs = [] then 0 else of_nat d), b_prev = of_nat b\<rparr>"
  have h: "hp (of_nat b) = Some blk" "hp (of_nat c) = Some nb" "16 dvd n" "16 dvd m"
    and rest: "linked hp (of_nat c) d zs 0"
    using l f ys by (auto simp: blk_def nb_def c_def d_def simp del: of_nat_add)
  have c0: "(of_nat c :: u64) \<noteq> 0" using b addr_neq [of c 0] by (simp add: c_def)
  define nblk where "nblk = blk\<lparr>b_size := of_nat (n + 32 + m), b_next := b_next nb\<rparr>"
  have "linked (hp(of_nat b \<mapsto> nblk)) (of_nat c) d zs 0"
    using rest linked_upd [of d zs b] b ys by (simp add: c_def d_def)
  then obtain hp2 where hp2: "set_prev (if zs = [] then 0 else of_nat d) (of_nat b) (hp(of_nat b \<mapsto> nblk)) = Some hp2"
    "linked hp2 (of_nat b) d zs 0"
    "\<And>a. a < 2 ^ 64 \<Longrightarrow> a \<noteq> d \<Longrightarrow> hp2 (of_nat a) = (hp(of_nat b \<mapsto> nblk)) (of_nat a)"
    by (rule set_prev_linked) (use b ys in \<open>auto simp: c_def d_def\<close>)
  have "coalesce_with_next (of_nat b) hp = Some hp2"
    using h c0 hp2(1) by (simp add: coalesce_with_next_def blk_def nb_def nblk_def add.assoc)
  moreover have "join n f ys = (n + 32 + m, True) # zs" using f ys by (simp add: join_def merge_right_def)
  moreover have "linked hp2 q b ((n + 32 + m, True) # zs) 0"
  proof -
    have "hp2 (of_nat b) = Some nblk" using hp2(3) [of b] b by (simp add: c_def d_def)
    moreover have "b + 32 + (n + 32 + m) = d" by (simp add: c_def d_def)
    ultimately show ?thesis using hp2(2) h(3,4) by (simp only: linked.simps) (simp add: nblk_def blk_def nb_def)
  qed
  moreover have "hp2 (of_nat a) = hp (of_nat a)" if "a < b" for a
    using that b hp2(3) [of a] addr_neq [of a b] by (simp add: c_def d_def)
  ultimately show ?thesis using that by metis
qed

section \<open>Allocation\<close>

lemma round_down_16: "unat ((w :: u64) AND NOT 15) = 16 * (unat w div 16)"
proof -
  have m: "(15 :: u64) = mask 4" by (simp add: mask_eq_exp_minus_1)
  have "w AND NOT 15 = push_bit 4 (drop_bit 4 w)"
    by (rule bit_word_eqI) (auto simp: m bit_and_iff bit_not_iff bit_mask_iff bit_push_bit_iff bit_drop_bit_eq)
  also have "\<dots> = of_nat (16 * (unat w div 16))"
    by (simp add: push_bit_eq_mult drop_bit_eq_div word_arith_nat_div)
  finally show ?thesis using unat_less_2p [of w] by (simp only:) (rule unat_of_nat_small, simp)
qed

lemma round_size_eq: "unat (round_size sz) = 16 * (unat (sz + 15) div 16)"
proof -
  have "round_size sz = (sz + 15) AND NOT 15" by (simp add: round_size_def ALIGNMENT_def add.commute)
  then show ?thesis by (simp only: round_down_16)
qed

lemma round_size_aligned: "16 dvd unat (round_size sz)"
  by (simp add: round_size_eq)

lemma round_size_bounds:
  assumes "unat sz \<le> 2 ^ 64 - 16"
  shows "unat sz \<le> unat (round_size sz)" "unat (round_size sz) < unat sz + 16"
proof -
  have "unat (sz + 15) = unat sz + 15" using assms unat_plus_small [of sz 15] by simp
  then have "unat (round_size sz) = 16 * ((unat sz + 15) div 16)" by (simp only: round_size_eq)
  then show "unat sz \<le> unat (round_size sz)" "unat (round_size sz) < unat sz + 16" by linarith+
qed

lemma no_adjacent_append:
  "no_adjacent_free (xs @ ys) \<longleftrightarrow> no_adjacent_free xs \<and> no_adjacent_free ys \<and>
     (xs \<noteq> [] \<and> ys \<noteq> [] \<longrightarrow> \<not> (snd (last xs) \<and> snd (hd ys)))"
  by (induction xs rule: no_adjacent_free.induct; cases ys) auto

lemma no_adjacent_Cons:
  "no_adjacent_free (x # ys) \<longleftrightarrow> no_adjacent_free ys \<and> (ys \<noteq> [] \<longrightarrow> \<not> (snd x \<and> snd (hd ys)))"
  by (cases x; cases ys) auto

lemma seg_alloc_dropWhile:
  "seg_alloc k xs = (case dropWhile (\<lambda>s. \<not> fits k s) xs of [] \<Rightarrow> None
    | (n, _) # ys \<Rightarrow> Some (seg_total (takeWhile (\<lambda>s. \<not> fits k s) xs),
        takeWhile (\<lambda>s. \<not> fits k s) xs @ cut k n False ys))"
  by (induction xs) (auto simp: fits_def cut_def simp del: dropWhile_eq_Nil_conv split: list.splits)

lemma heap_invD:
  assumes "heap_inv base (xs @ s # ys) h"
  shows "linked (blocks h) (last_addr 0 base xs) (base + seg_total xs) (s # ys) 0"
    "16 \<le> base + seg_total xs" "16 dvd base + seg_total xs"
    "base + seg_total xs + seg_total (s # ys) < 2 ^ 64"
proof -
  have "linked (blocks h) 0 base xs (of_nat (base + seg_total xs))" "16 dvd base" "0 < base"
    using assms by (simp_all add: inv_simps linked_append)
  with linked_dvd show d: "16 dvd base + seg_total xs" by blast
  with \<open>0 < base\<close> show "16 \<le> base + seg_total xs" by (simp add: dvd_imp_le)
qed (use assms in \<open>auto simp: inv_simps linked_append\<close>)

text \<open>Putting a new list of the same length behind an unchanged prefix restores the invariant.\<close>

lemma heap_inv_replace:
  assumes inv: "heap_inv base (xs @ ys) h" and ne: "ys \<noteq> []" "zs \<noteq> []"
    and l: "linked hp (last_addr 0 base xs) (base + seg_total xs) zs 0"
    and fr: "\<And>a. base \<le> a \<Longrightarrow> a < base + seg_total xs \<Longrightarrow> hp (of_nat a) = blocks h (of_nat a)"
    and tot: "seg_total zs = seg_total ys" and adj: "no_adjacent_free (xs @ zs)"
    and u: "u = of_nat (seg_used (xs @ zs))"
  shows "heap_inv base (xs @ zs) (h\<lparr>blocks := hp, used_size := u\<rparr>)"
  using assms linked_replace [of "blocks h" 0 base xs ys 0 zs hp] by (simp add: inv_simps)

lemma cut_adjacent:
  "no_adjacent_free (xs @ (n, True) # ys) \<Longrightarrow> no_adjacent_free (xs @ cut k n False ys)"
  by (auto simp: no_adjacent_append no_adjacent_Cons cut_def)

lemma cut_total: "k \<le> n \<Longrightarrow> seg_total (cut k n f ys) = 32 + n + seg_total ys"
  by (auto simp: cut_def)

lemma malloc_refines_lemma:
  assumes inv: "heap_inv base xs h" and sz: "sz \<noteq> 0"
  shows "case seg_alloc (unat (round_size sz)) xs of
      None \<Rightarrow> malloc sz h = Some (0, h)
    | Some (off, ys) \<Rightarrow> \<exists>h'. malloc sz h = Some (of_nat (base + off + 32), h') \<and>
        heap_inv base ys h' \<and> payload h' = payload h"
proof -
  define k where "k = unat (round_size sz)"
  have kw: "round_size sz = of_nat k" by (simp add: k_def)
  have k16: "16 dvd k" by (simp add: k_def round_size_aligned)
  have b: "0 < base" "base + seg_total xs < 2 ^ 64" "xs \<noteq> []" "heap_head h = of_nat base"
    "linked (blocks h) 0 base xs 0" using inv by (simp_all add: inv_simps)
  have h0: "(of_nat base :: u64) \<noteq> 0" using b addr_neq [of base 0] by simp
  note find = malloc_find_linked [OF b(5,1,2), of "round_size sz", folded k_def]
  show ?thesis
  proof (cases "dropWhile (\<lambda>s. \<not> fits k s) xs")
    case Nil
    then show ?thesis using find b h0 sz
      by (simp add: malloc_def seg_alloc_dropWhile Let_def k_def [symmetric] del: dropWhile_eq_Nil_conv)
  next
    case (Cons s ys)
    define pre where "pre = takeWhile (\<lambda>s. \<not> fits k s) xs"
    have xs: "xs = pre @ s # ys" using takeWhile_dropWhile_id [of "\<lambda>s. \<not> fits k s" xs] Cons by (simp add: pre_def)
    have "fits k s" using hd_dropWhile [of "\<lambda>s. \<not> fits k s" xs] Cons by fastforce
    then obtain n where s: "s = (n, True)" and kn: "k \<le> n" by (cases s) (auto simp: fits_def)
    define c where "c = base + seg_total pre"
    note D = heap_invD [OF inv [unfolded xs s], folded c_def]
    obtain hp where hp: "split_block (of_nat c) (of_nat k) (blocks h) = Some hp"
      "linked hp (last_addr 0 base pre) c (cut k n True ys) 0"
      "\<And>a. a < c \<Longrightarrow> hp (of_nat a) = blocks h (of_nat a)"
      using split_block_linked [OF D(1,2,4) k16 kn] by blast
    obtain m zs where m: "cut k n True ys = (m, True) # zs" "cut k n False ys = (m, False) # zs"
      by (cases "k + 48 \<le> n") (simp_all add: cut_def)
    from hp(2) m obtain blk where blk: "hp (of_nat c) = Some blk" "b_size blk = of_nat m" by auto
    have uzs: "seg_used zs = seg_used ys" using m by (cases "k + 48 \<le> n") (auto simp: cut_def)
    have tot: "seg_total ((m, True) # zs) = seg_total ((n, True) # ys)"
      using cut_total [OF kn, of True ys] m by simp
    let ?hp = "hp(of_nat c \<mapsto> blk\<lparr>b_free := False\<rparr>)"
    have "linked ?hp (last_addr 0 base pre) c ((m, False) # zs) 0"
      by (rule set_free_linked [of _ _ _ _ True]) (use hp(2) m tot D(4) blk in simp_all)
    moreover have "?hp (of_nat a) = blocks h (of_nat a)" if "a < c" for a
      using that hp(3) addr_neq [of a c] D(4) by simp
    ultimately have "heap_inv base (pre @ (m, False) # zs)
        (h\<lparr>blocks := ?hp, used_size := used_size h + (of_nat m + 32)\<rparr>)"
      using inv xs s m tot uzs cut_adjacent [of pre n ys k] b
      by (intro heap_inv_replace [of _ _ "(n, True) # ys"]) (auto simp: inv_simps c_def algebra_simps)
    moreover have "malloc sz h = Some (of_nat (c + 32), h\<lparr>blocks := ?hp, used_size := used_size h + (of_nat m + 32)\<rparr>)"
      using find b h0 sz Cons hp(1) blk
      by (simp add: malloc_def Let_def kw pre_def [symmetric] c_def [symmetric] add.commute)
    ultimately show ?thesis using Cons m s
      by (auto simp: seg_alloc_dropWhile k_def [symmetric] pre_def [symmetric] c_def intro!: exI)
  qed
qed

section \<open>Release\<close>

lemma merge_right_Cons: obtains m zs where "merge_right n ys = (m, True) # zs"
  "32 + m + seg_total zs = 32 + n + seg_total ys" "seg_used zs = seg_used ys"
proof (cases "\<exists>m zs. ys = (m, True) # zs")
  case True
  then show ?thesis using that by (auto simp: merge_right_def)
next
  case False
  then have "merge_right n ys = (n, True) # ys" by (auto simp: merge_right_def split: list.splits bool.splits)
  then show ?thesis using that by simp
qed

lemma merge_right_adjacent: "no_adjacent_free ys \<Longrightarrow> no_adjacent_free (merge_right n ys)"
  by (auto simp: merge_right_def no_adjacent_Cons split: list.splits bool.splits prod.splits)

lemma free_refines_lemma:
  assumes inv: "heap_inv base (xs @ (n, False) # ys) h"
  shows "\<exists>h'. free_block (of_nat (base + seg_total xs + 32)) h = Some h' \<and>
    heap_inv base (seg_release xs n ys) h' \<and> payload h' = payload h"
proof -
  define b where "b = base + seg_total xs"
  note D = heap_invD [OF inv, folded b_def]
  have bb: "0 < b" "b + seg_total ((n, True) # ys) < 2 ^ 64" using D(2,4) by simp_all
  obtain blk where blk: "blocks h (of_nat b) = Some blk" "b_size blk = of_nat n" "\<not> b_free blk"
    using D(1) by auto
  define hp0 where "hp0 = (blocks h)(of_nat b \<mapsto> blk\<lparr>b_free := True\<rparr>)"
  have "linked hp0 (last_addr 0 base xs) b ((n, True) # ys) 0"
    unfolding hp0_def by (rule set_free_linked [OF D(1,4) blk(1)])
  from coalesce_linked [OF this bb] obtain hp1 where hp1:
    "coalesce_with_next (of_nat b) hp0 = Some hp1"
    "linked hp1 (last_addr 0 base xs) b (merge_right n ys) 0"
    "\<And>a. a < b \<Longrightarrow> hp1 (of_nat a) = hp0 (of_nat a)"
    unfolding join_def by auto
  obtain m zs where m: "merge_right n ys = (m, True) # zs" "32 + m + seg_total zs = 32 + n + seg_total ys"
    "seg_used zs = seg_used ys" by (rule merge_right_Cons)
  obtain blk1 where blk1: "hp1 (of_nat b) = Some blk1" "b_prev blk1 = last_addr 0 base xs"
    using hp1(2) m(1) by auto
  have below: "hp1 (of_nat a) = blocks h (of_nat a)" if "a < b" for a
    using that hp1(3) [OF that] addr_neq [of a b] bb by (simp add: hp0_def)
  have adj: "no_adjacent_free xs" "no_adjacent_free (merge_right n ys)"
    using inv merge_right_adjacent [of ys n] by (auto simp: inv_simps no_adjacent_append no_adjacent_Cons)
  define u where "u = used_size h - (of_nat n + 32)"
  have u: "u = of_nat (seg_used xs + seg_used ys)"
    using inv by (simp add: inv_simps u_def)
  have p0: "(of_nat (b + 32) :: u64) \<noteq> 0" using addr_neq [of "b + 32" 0] bb by simp
  have run: "free_block (of_nat (b + 32)) h =
      (if b_prev blk1 = 0 then Some hp1
       else hp1 (b_prev blk1) \<bind> (\<lambda>pb.
         if b_free pb then coalesce_with_next (b_prev blk1) hp1 else Some hp1)) \<bind> (\<lambda>hp.
      Some (h\<lparr>blocks := hp, used_size := u\<rparr>))"
    using p0 blk hp1(1) blk1(1)
    by (simp add: free_block_def Let_def hp0_def u_def)
  have plain: "heap_inv base (xs @ merge_right n ys) (h\<lparr>blocks := hp1, used_size := u\<rparr>)"
    if "xs \<noteq> [] \<longrightarrow> \<not> snd (last xs)"
    by (rule heap_inv_replace [OF inv]) (use that hp1(2) m below u adj in \<open>auto simp: b_def no_adjacent_append\<close>)
  have keep: ?thesis if "xs = [] \<or> \<not> snd (last xs)"
    and "(if b_prev blk1 = 0 then Some hp1
       else hp1 (b_prev blk1) \<bind> (\<lambda>pb.
         if b_free pb then coalesce_with_next (b_prev blk1) hp1 else Some hp1)) = Some hp1"
    using plain run that by (auto simp: b_def seg_release_def merge_left_def)
  show ?thesis
  proof (cases xs rule: rev_cases)
    case Nil
    then show ?thesis using keep blk1 by simp
  next
    case (snoc xs' s)
    obtain l g where s: "s = (l, g)" by force
    define c where "c = base + seg_total xs'"
    have xs: "xs = xs' @ (l, g) # []" using snoc s by simp
    have inv': "heap_inv base (xs' @ (l, g) # (n, False) # ys) h" using inv xs by simp
    note C = heap_invD [OF inv', folded c_def]
    have cb: "b = c + 32 + l" using xs by (simp add: b_def c_def)
    have pv: "b_prev blk1 = of_nat c"
    proof -
      have "last_addr p a (xs' @ [(l, g)]) = of_nat (a + seg_total xs')" for p a
        by (induction p a xs' rule: last_addr.induct) (auto simp: add.assoc)
      then show ?thesis using blk1 xs by (simp add: c_def)
    qed
    have c0: "(of_nat c :: u64) \<noteq> 0" using addr_neq [of c 0] C(2) bb cb by simp
    obtain pb where pb: "blocks h (of_nat c) = Some pb" "b_free pb = g" using C(1) by auto
    have pb1: "hp1 (of_nat c) = Some pb" using below [of c] pb cb by simp
    show ?thesis
    proof (cases g)
      case False
      then show ?thesis using keep pv c0 pb pb1 xs by simp
    next
      case True
      have "linked hp1 (last_addr 0 base xs') c ((l, True) # merge_right n ys) 0"
      proof -
        have "linked (blocks h) (last_addr 0 base xs') c [(l, True)] (of_nat b)"
          using C(1) True cb by simp
        then have "linked hp1 (last_addr 0 base xs') c [(l, True)] (of_nat b)"
          using linked_frame [of c "[(l, True)]" hp1 "blocks h"] below cb by simp
        moreover have "last_addr 0 base xs = of_nat c" using blk1 pv by simp
        ultimately show ?thesis using hp1(2) m(1) cb by simp
      qed
      moreover have "c + seg_total ((l, True) # merge_right n ys) < 2 ^ 64" using m bb cb by simp
      moreover have "0 < c" using C(2) by simp
      ultimately obtain hp2 where hp2: "coalesce_with_next (of_nat c) hp1 = Some hp2"
        "linked hp2 (last_addr 0 base xs') c (merge_right l (merge_right n ys)) 0"
        "\<And>a. a < c \<Longrightarrow> hp2 (of_nat a) = hp1 (of_nat a)"
        using coalesce_linked [of hp1 "last_addr 0 base xs'" c l True "merge_right n ys"]
        unfolding join_def by auto
      have mr: "merge_right l (merge_right n ys) = (l + 32 + m, True) # zs" using m by (simp add: merge_right_def)
      have "heap_inv base (xs' @ (l + 32 + m, True) # zs) (h\<lparr>blocks := hp2, used_size := u\<rparr>)"
      proof (rule heap_inv_replace [OF inv'])
        show "no_adjacent_free (xs' @ (l + 32 + m, True) # zs)"
          using adj m(1) xs True by (auto simp: no_adjacent_append no_adjacent_Cons)
      qed (use hp2 mr m below u cb xs True in \<open>auto simp: c_def\<close>)
      moreover have "seg_release xs n ys = xs' @ (l + 32 + m, True) # zs"
        using xs True m by (simp add: seg_release_def merge_left_def)
      moreover have "free_block (of_nat (b + 32)) h = Some (h\<lparr>blocks := hp2, used_size := u\<rparr>)"
        using run pv c0 pb pb1 True hp2(1) by simp
      ultimately show ?thesis unfolding b_def by auto
    qed
  qed
qed

section \<open>Live allocations\<close>

text \<open>
  What clients see: the set of payload addresses and sizes of the blocks in use.
\<close>

fun live :: "nat \<Rightarrow> seg list \<Rightarrow> (nat \<times> nat) set" where
  "live a [] = {}"
| "live a ((n, f) # xs) = (if f then {} else {(a + 32, n)}) \<union> live (a + 32 + n) xs"

lemma live_append: "live a (xs @ ys) = live a xs \<union> live (a + seg_total xs) ys"
  by (induction a xs rule: live.induct) (auto simp: add.assoc)

lemma live_iff:
  "(p, n) \<in> live a xs \<longleftrightarrow> (\<exists>us vs. xs = us @ (n, False) # vs \<and> p = a + seg_total us + 32)"
proof
  show "(p, n) \<in> live a xs \<Longrightarrow> \<exists>us vs. xs = us @ (n, False) # vs \<and> p = a + seg_total us + 32"
  proof (induction a xs rule: live.induct)
    case (2 a m f xs)
    show ?case
    proof (cases "(p, n) \<in> live (a + 32 + m) xs")
      case True
      with 2 obtain us vs where "xs = us @ (n, False) # vs" "p = a + 32 + m + seg_total us + 32" by blast
      then have "(m, f) # xs = ((m, f) # us) @ (n, False) # vs" "p = a + seg_total ((m, f) # us) + 32" by auto
      then show ?thesis by blast
    next
      case False
      with 2 have "(m, f) # xs = [] @ (n, False) # xs" "p = a + seg_total [] + 32" by (auto split: if_splits)
      then show ?thesis by blast
    qed
  qed simp
qed (auto simp: live_append)

lemma live_bounds: "(p, n) \<in> live a xs \<Longrightarrow> a + 32 \<le> p \<and> p + n \<le> a + seg_total xs"
  by (auto simp: live_iff)

lemma live_disjoint:
  "(p, n) \<in> live a xs \<Longrightarrow> (q, m) \<in> live a xs \<Longrightarrow> (p, n) \<noteq> (q, m) \<Longrightarrow> p + n + 32 \<le> q \<or> q + m + 32 \<le> p"
proof (induction a xs rule: live.induct)
  case (2 a l f xs)
  then show ?case
    using live_bounds [of p n "a + 32 + l" xs] live_bounds [of q m "a + 32 + l" xs]
    by (auto split: if_splits)
qed simp

lemma live_cut:
  "k \<le> n \<Longrightarrow> \<exists>m\<ge>k. live a (cut k n False ys) = insert (a + 32, m) (live (a + 32 + n) ys)"
proof (cases "k + 48 \<le> n")
  case True
  then have e: "a + 32 + k + 32 + (n - k - 32) = a + 32 + n" by simp
  have "live a (cut k n False ys) = {(a + 32, k)} \<union> live (a + 32 + k + 32 + (n - k - 32)) ys"
    using True by (simp only: cut_def if_True live.simps if_False Un_empty_left)
  then show ?thesis unfolding e by auto
qed (auto simp: cut_def)

lemma live_merge_right: "live a (merge_right n ys) = live (a + 32 + n) ys"
  by (auto simp: merge_right_def add.assoc split: list.splits bool.splits)

lemma live_merge_left:
  "snd (hd zs) \<Longrightarrow> zs \<noteq> [] \<Longrightarrow> live a (merge_left xs zs) = live a xs \<union> live (a + seg_total xs) zs"
proof (cases xs rule: rev_cases)
  case (snoc ys s)
  assume z: "snd (hd zs)" "zs \<noteq> []"
  then obtain m us where "zs = (m, True) # us" by (cases zs) auto
  with snoc show ?thesis by (cases s) (auto simp: merge_left_def live_append algebra_simps)
qed (simp add: merge_left_def)

lemma live_release:
  "live a (seg_release xs n ys) = live a xs \<union> live (a + seg_total xs + 32 + n) ys"
proof -
  obtain m zs where m: "merge_right n ys = (m, True) # zs" by (rule merge_right_Cons)
  then show ?thesis using live_merge_left [of "merge_right n ys" a xs] live_merge_right [of "a + seg_total xs" n ys]
    by (simp add: seg_release_def)
qed

lemma malloc_live_lemma:
  assumes inv: "heap_inv base xs h" and sz: "sz \<noteq> 0" "unat sz \<le> 2 ^ 64 - 16"
  obtains (full) "malloc sz h = Some (0, h)" "\<forall>s\<in>set xs. \<not> fits (unat (round_size sz)) s"
  | (got) p m h' xs' where "malloc sz h = Some (of_nat p, h')" "heap_inv base xs' h'" "payload h' = payload h"
      "16 dvd p" "unat sz \<le> m" "live base xs' = insert (p, m) (live base xs)" "(p, m) \<notin> live base xs"
proof (cases "dropWhile (\<lambda>s. \<not> fits (unat (round_size sz)) s) xs")
  case Nil
  then have "seg_alloc (unat (round_size sz)) xs = None" by (simp only: seg_alloc_dropWhile list.case)
  moreover have "\<forall>s\<in>set xs. \<not> fits (unat (round_size sz)) s" using Nil by simp
  ultimately show ?thesis using full malloc_refines_lemma [OF inv sz(1)] by simp
next
  case (Cons s ys)
  define k where "k = unat (round_size sz)"
  define pre where "pre = takeWhile (\<lambda>s. \<not> fits k s) xs"
  have xs: "xs = pre @ s # ys" using takeWhile_dropWhile_id [of "\<lambda>s. \<not> fits k s" xs] Cons by (simp add: pre_def k_def)
  have "fits k s" using hd_dropWhile [of "\<lambda>s. \<not> fits k s" xs] Cons k_def by fastforce
  then obtain n where s: "s = (n, True)" and kn: "k \<le> n" by (cases s) (auto simp: fits_def)
  obtain h' where h': "malloc sz h = Some (of_nat (base + seg_total pre + 32), h')"
    "heap_inv base (pre @ cut k n False ys) h'" "payload h' = payload h"
    using malloc_refines_lemma [OF inv sz(1)] Cons s by (auto simp: seg_alloc_dropWhile k_def pre_def)
  obtain m where m: "k \<le> m" "live (base + seg_total pre) (cut k n False ys) =
      insert (base + seg_total pre + 32, m) (live (base + seg_total pre + 32 + n) ys)"
    using live_cut [OF kn, of "base + seg_total pre" ys] by blast
  show ?thesis
  proof (rule got [OF h'])
    show "16 dvd base + seg_total pre + 32" using heap_invD(3) [OF inv [unfolded xs]] by simp
    show "unat sz \<le> m" using round_size_bounds(1) [OF sz(2)] m(1) by (simp add: k_def)
    show "live base (pre @ cut k n False ys) = insert (base + seg_total pre + 32, m) (live base xs)"
      using m(2) xs s by (simp add: live_append)
    show "(base + seg_total pre + 32, m) \<notin> live base xs"
      using live_bounds [of "base + seg_total pre + 32" m base pre]
        live_bounds [of "base + seg_total pre + 32" m "base + seg_total pre + 32 + n" ys] xs s
      by (auto simp: live_append)
  qed
qed

lemma free_live_lemma:
  assumes inv: "heap_inv base xs h" and p: "(p, n) \<in> live base xs"
  obtains h' xs' where "free_block (of_nat p) h = Some h'" "heap_inv base xs' h'" "payload h' = payload h"
    "live base xs' = live base xs - {(p, n)}"
proof -
  obtain us vs where xs: "xs = us @ (n, False) # vs" "p = base + seg_total us + 32"
    using p by (auto simp: live_iff)
  from free_refines_lemma [OF inv [unfolded xs]] obtain h' where
    "free_block (of_nat p) h = Some h'" "heap_inv base (seg_release us n vs) h'" "payload h' = payload h"
    using xs(2) by (auto simp del: of_nat_add)
  moreover have "live base (seg_release us n vs) = live base xs - {(p, n)}"
    using live_bounds [of p n base us] live_bounds [of p n "base + seg_total us + 32 + n" vs] xs
    by (auto simp: live_release live_append)
  ultimately show ?thesis using that by blast
qed

section \<open>Properties\<close>

text \<open>A heap with a used block of 16 bytes and a free one of 128, for the witnesses.\<close>

definition sample_heap :: heap where
  "sample_heap = \<lparr>blocks = [4096 \<mapsto> \<lparr>b_size = 16, b_free = False, b_next = 4144, b_prev = 0\<rparr>,
      4144 \<mapsto> \<lparr>b_size = 128, b_free = True, b_next = 0, b_prev = 4096\<rparr>],
     heap_head = 4096, total_size = 208, used_size = 48, payload = (\<lambda>a. if a = 4128 then 7 else 0)\<rparr>"

lemma sample_inv: "heap_inv 4096 [(16, False), (128, True)] sample_heap"
  by (simp add: inv_simps sample_heap_def)

text \<open>
  C3: \<open>malloc\<close> refines first-fit allocation on the list of blocks: with no free block large enough
  it returns NULL and changes nothing; otherwise it cuts the first one that fits, the payload is
  aligned to 16 bytes and starts right behind the header, and the invariant is kept.
\<close>

theorem malloc_refines:
  assumes "heap_inv base xs h" "sz \<noteq> 0"
  shows "case seg_alloc (unat (round_size sz)) xs of
      None \<Rightarrow> malloc sz h = Some (0, h)
    | Some (off, ys) \<Rightarrow> \<exists>h'. malloc sz h = Some (of_nat (base + off + 32), h') \<and>
        heap_inv base ys h' \<and> payload h' = payload h"
  by (rule malloc_refines_lemma [OF assms])

theorem malloc_refines_witness:
  "\<exists>h'. malloc 20 sample_heap = Some (4176, h') \<and>
    heap_inv 4096 [(16, False), (32, False), (64, True)] h'"
proof -
  have "unat (round_size 20) = 32" by (simp add: round_size_eq)
  then show ?thesis using malloc_refines [OF sample_inv, of 20] by auto
qed

text \<open>
  C4: \<open>malloc\<close> as its clients see it, for every size that does not wrap when it is rounded: it
  returns NULL, changing nothing, only when no free block is large enough; or it returns an
  aligned region of at least the size asked for that overlaps no region in use.
\<close>

theorem malloc_live:
  assumes "heap_inv base xs h" "sz \<noteq> 0" "unat sz \<le> 2 ^ 64 - 16"
  shows "(malloc sz h = Some (0, h) \<and> (\<nexists>n. (n, True) \<in> set xs \<and> unat sz + 15 \<le> n)) \<or>
    (\<exists>p m h' xs'. malloc sz h = Some (of_nat p, h') \<and> heap_inv base xs' h' \<and> 16 dvd p \<and> unat sz \<le> m \<and>
      base + 32 \<le> p \<and> p + m \<le> base + seg_total xs' \<and>
      live base xs' = insert (p, m) (live base xs) \<and>
      (\<nexists>q l. (q, l) \<in> live base xs \<and> p < q + l + 32 \<and> q < p + m + 32))"
  using assms
proof (cases rule: malloc_live_lemma)
  case full
  moreover have "unat (round_size sz) \<le> unat sz + 15" using round_size_bounds(2) [OF assms(3)] by simp
  ultimately show ?thesis by (fastforce simp: fits_def)
next
  case (got p m h' xs')
  have "\<nexists>q l. (q, l) \<in> live base xs \<and> p < q + l + 32 \<and> q < p + m + 32"
    using live_disjoint [of p m base xs'] got(6,7) by (metis insertCI leD)
  moreover have "base + 32 \<le> p" "p + m \<le> base + seg_total xs'"
    using live_bounds [of p m base xs'] got(6) by auto
  ultimately show ?thesis using got by blast
qed

theorem malloc_live_witness:
  "\<exists>p m h' xs'. malloc 20 sample_heap = Some (of_nat p, h') \<and> heap_inv 4096 xs' h' \<and>
    live 4096 xs' = insert (p, m) {(4128, 16)} \<and> 20 \<le> m"
  using malloc_live [OF sample_inv, of 20] by fastforce

text \<open>
  C5: \<open>free\<close> of a block in use removes exactly that region from the regions in use, merges the
  block with free neighbours (so no two free blocks are adjacent) and keeps the accounting right;
  a block that is already free is recognised and nothing changes.
\<close>

theorem free_releases:
  assumes "heap_inv base (us @ (n, f) # vs) h"
  shows "\<exists>h' xs'. free_block (of_nat (base + seg_total us + 32)) h = Some h' \<and> heap_inv base xs' h' \<and>
    payload h' = payload h \<and>
    live base xs' = live base (us @ (n, f) # vs) - {(base + seg_total us + 32, n)} \<and>
    (if f then h' = h else xs' = seg_release us n vs)"
proof (cases f)
  case True
  have p0: "(of_nat (base + seg_total us + 32) :: u64) \<noteq> 0"
    using addr_neq [of "base + seg_total us + 32" 0] heap_invD(4) [OF assms] by simp
  have "(of_nat (base + seg_total us + 32) :: u64) - HDR_SIZE = of_nat (base + seg_total us)" by simp
  then have "free_block (of_nat (base + seg_total us + 32)) h = Some h"
    using p0 heap_invD(1) [OF assms] True by (simp add: free_block_def Let_def)
  moreover have "(base + seg_total us + 32, n) \<notin> live base (us @ (n, f) # vs)"
    using True live_bounds [of "base + seg_total us + 32" n base us]
      live_bounds [of "base + seg_total us + 32" n "base + seg_total us + 32 + n" vs]
    by (auto simp: live_append)
  ultimately show ?thesis using True assms by auto
next
  case False
  let ?p = "base + seg_total us + 32"
  from free_refines_lemma [of base us n vs h] assms False obtain h' where
    "free_block (of_nat ?p) h = Some h'" "heap_inv base (seg_release us n vs) h'" "payload h' = payload h"
    by auto
  moreover have "live base (seg_release us n vs) = live base (us @ (n, f) # vs) - {(?p, n)}"
    using live_bounds [of ?p n base us] live_bounds [of ?p n "base + seg_total us + 32 + n" vs] False
    by (auto simp: live_release live_append)
  ultimately show ?thesis using False by auto
qed

theorem free_releases_witness:
  "\<exists>h'. free_block 4128 sample_heap = Some h' \<and> heap_inv 4096 [(176, True)] h' \<and> used_size h' = 0"
  using free_releases [of 4096 "[]" 16 False "[(128, True)]" sample_heap] sample_inv
  by (auto simp: seg_release_def merge_right_def merge_left_def inv_simps)

text \<open>
  A region that \<open>malloc\<close> returned and that is freed at once leaves the heap's list of blocks and
  its accounting as they were: the cut is merged again.
\<close>

theorem malloc_free_roundtrip:
  assumes "heap_inv base xs h" "sz \<noteq> 0" "malloc sz h = Some (p, h1)" "p \<noteq> 0"
  shows "\<exists>h2. free_block p h1 = Some h2 \<and> heap_inv base xs h2 \<and> used_size h2 = used_size h"
proof -
  define k where "k = unat (round_size sz)"
  note R = malloc_refines_lemma [OF assms(1,2), folded k_def]
  from R assms(3,4) obtain off ys where "seg_alloc k xs = Some (off, ys)" by (auto split: option.splits)
  then obtain s vs where dw: "dropWhile (\<lambda>s. \<not> fits k s) xs = s # vs"
    by (cases "dropWhile (\<lambda>s. \<not> fits k s) xs") (simp_all add: seg_alloc_dropWhile del: dropWhile_eq_Nil_conv)
  define us where "us = takeWhile (\<lambda>s. \<not> fits k s) xs"
  have xs: "xs = us @ s # vs" using takeWhile_dropWhile_id [of "\<lambda>s. \<not> fits k s" xs] dw by (simp add: us_def)
  have "fits k s" using hd_dropWhile [of "\<lambda>s. \<not> fits k s" xs] dw by fastforce
  then obtain n where s: "s = (n, True)" and kn: "k \<le> n" by (cases s) (auto simp: fits_def)
  have h1: "p = of_nat (base + seg_total us + 32)" "heap_inv base (us @ cut k n False vs) h1"
    using R assms(3) dw s by (auto simp: seg_alloc_dropWhile us_def)
  obtain m ws where m: "cut k n False vs = (m, False) # ws" "merge_right m ws = (n, True) # vs"
  proof (cases "k + 48 \<le> n")
    case True
    then show ?thesis by (intro that [of k]) (auto simp: cut_def merge_right_def)
  next
    case False
    have "vs \<noteq> [] \<longrightarrow> \<not> snd (hd vs)"
      using assms(1) xs s by (auto simp: inv_simps no_adjacent_append no_adjacent_Cons)
    with False show ?thesis
      by (intro that [of n]) (auto simp: cut_def merge_right_def split: list.splits bool.splits)
  qed
  have "us \<noteq> [] \<longrightarrow> \<not> snd (last us)"
    using assms(1) xs s by (auto simp: inv_simps no_adjacent_append)
  then have "seg_release us m ws = xs" using m xs s by (auto simp: seg_release_def merge_left_def)
  moreover note free_refines_lemma [of base us m ws h1]
  ultimately show ?thesis using h1 m(1) assms(1) by (auto simp: inv_simps simp del: of_nat_add)
qed

theorem malloc_free_roundtrip_witness:
  "\<exists>p h1 h2. malloc 20 sample_heap = Some (p, h1) \<and> free_block p h1 = Some h2 \<and>
    heap_inv 4096 [(16, False), (128, True)] h2 \<and> used_size h2 = 48"
proof -
  have "unat (round_size 20) = 32" by (simp add: round_size_eq)
  then obtain h1 where "malloc 20 sample_heap = Some (4176, h1)"
    using malloc_refines_lemma [OF sample_inv, of 20] by auto
  with malloc_free_roundtrip [OF sample_inv _ this] show ?thesis by (auto simp: sample_heap_def)
qed

section \<open>Contents of payloads\<close>

lemma in_region:
  assumes "a < 2 ^ 64" "p + n \<le> 2 ^ 64" "0 < n" "n < 2 ^ 64"
  shows "(of_nat a - of_nat p :: u64) < of_nat n \<longleftrightarrow> p \<le> a \<and> a < p + n"
proof (cases "p \<le> a")
  case True
  then have "(of_nat a - of_nat p :: u64) = of_nat (a - p)" by (simp add: of_nat_diff)
  moreover have "unat (of_nat (a - p) :: u64) = a - p" "unat (of_nat n :: u64) = n"
    by (rule unat_of_nat_small; use assms in simp)+
  ultimately show ?thesis using True by (auto simp: word_less_unat)
next
  case False
  then have e: "(of_nat a - of_nat p :: u64) = of_nat (a + (2 ^ 64 - p))"
    using assms by (simp add: of_nat_diff)
  have "unat (of_nat a - of_nat p :: u64) = a + (2 ^ 64 - p)"
    unfolding e by (rule unat_of_nat_small) (use assms False in simp)
  moreover have "unat (of_nat n :: u64) = n" by (rule unat_of_nat_small) (use assms in simp)
  ultimately show ?thesis using assms False by (simp add: word_less_unat)
qed

lemma fill_bytes_at:
  assumes "a < 2 ^ 64" "p + unat n \<le> 2 ^ 64"
  shows "fill_bytes (of_nat p) x n m (of_nat a) = (if p \<le> a \<and> a < p + unat n then x else m (of_nat a))"
proof (cases "n = 0")
  case False
  then have "(of_nat a - of_nat p < n) \<longleftrightarrow> p \<le> a \<and> a < p + unat n"
    using in_region [of a p "unat n"] assms unat_less_2p [of n] by (simp add: unat_gt_0)
  then show ?thesis by (simp add: fill_bytes_def)
qed (auto simp: fill_bytes_def)

lemma copy_bytes_at:
  assumes "a < 2 ^ 64" "d + unat n \<le> 2 ^ 64"
  shows "copy_bytes (of_nat d) (of_nat s) n m (of_nat a) =
    (if d \<le> a \<and> a < d + unat n then m (of_nat (s + (a - d))) else m (of_nat a))"
proof (cases "n = 0")
  case False
  then have "(of_nat a - of_nat d < n) \<longleftrightarrow> d \<le> a \<and> a < d + unat n"
    using in_region [of a d "unat n"] assms unat_less_2p [of n] by (simp add: unat_gt_0)
  moreover have "d \<le> a \<Longrightarrow> (of_nat (s + (a - d)) :: u64) = of_nat s + (of_nat a - of_nat d)"
    by (simp add: of_nat_diff)
  ultimately show ?thesis by (cases "d \<le> a \<and> a < d + unat n") (simp_all only: copy_bytes_def if_True if_False)
qed (auto simp: copy_bytes_def)

lemma heap_inv_payload: "heap_inv base xs (h\<lparr>payload := m\<rparr>) \<longleftrightarrow> heap_inv base xs h"
  by (simp add: inv_simps)

lemma live_header:
  assumes "heap_inv base xs h" "(p, n) \<in> live base xs"
  obtains blk where "blocks h (of_nat p - HDR_SIZE) = Some blk" "b_size blk = of_nat n" "\<not> b_free blk"
    "0 < p" "p + n < 2 ^ 64"
proof -
  obtain us vs where xs: "xs = us @ (n, False) # vs" "p = base + seg_total us + 32"
    using assms(2) by (auto simp: live_iff)
  note D = heap_invD [OF assms(1) [unfolded xs(1)]]
  have "(of_nat p :: u64) - HDR_SIZE = of_nat (base + seg_total us)" using xs by simp
  with D(1) that D(4) xs show ?thesis by auto
qed

lemma realloc_lemma:
  assumes inv: "heap_inv base xs h" and p: "(p, n) \<in> live base xs"
    and sz: "sz \<noteq> 0" "unat sz \<le> 2 ^ 64 - 16"
  shows "(unat sz \<le> n \<and> realloc (of_nat p) sz h = Some (of_nat p, h)) \<or>
    (n < unat sz \<and> realloc (of_nat p) sz h = Some (0, h)) \<or>
    (n < unat sz \<and> (\<exists>q m h' xs'. realloc (of_nat p) sz h = Some (of_nat q, h') \<and> heap_inv base xs' h' \<and>
       unat sz \<le> m \<and> live base xs' = insert (q, m) (live base xs - {(p, n)}) \<and> (q, m) \<notin> live base xs \<and>
       (\<forall>i<n. payload h' (of_nat (q + i)) = payload h (of_nat (p + i))) \<and>
       (\<forall>r l. (r, l) \<in> live base xs \<and> (r, l) \<noteq> (p, n) \<longrightarrow>
          (\<forall>i<l. payload h' (of_nat (r + i)) = payload h (of_nat (r + i))))))"
proof -
  obtain blk where blk: "blocks h (of_nat p - HDR_SIZE) = Some blk" "b_size blk = of_nat n" "0 < p" "p + n < 2 ^ 64"
    using live_header [OF inv p] by blast
  have p0: "(of_nat p :: u64) \<noteq> 0" using addr_neq [of p 0] blk by simp
  have un: "unat (of_nat n :: u64) = n" by (rule unat_of_nat_small) (use blk in simp)
  have cmp: "b_size blk \<ge> sz \<longleftrightarrow> unat sz \<le> n" using blk un by (simp add: word_le_unat)
  show ?thesis
  proof (cases "unat sz \<le> n")
    case True
    then show ?thesis using blk p0 sz cmp by (simp add: realloc_def Let_def)
  next
    case False
    show ?thesis
      using inv sz
    proof (cases rule: malloc_live_lemma)
      case full
      then show ?thesis using False blk p0 sz cmp by (simp add: realloc_def Let_def)
    next
      case (got q m h1 xs1)
      have p1: "(p, n) \<in> live base xs1" and q1: "(q, m) \<in> live base xs1" using got p by auto
      obtain blk1 where blk1: "blocks h1 (of_nat p - HDR_SIZE) = Some blk1" "b_size blk1 = of_nat n"
        using live_header [OF got(2) p1] by blast
      have qb: "0 < q" "q + m < 2 ^ 64" using live_header [OF got(2) q1] by blast+
      have q0: "(of_nat q :: u64) \<noteq> 0" using addr_neq [of q 0] qb by simp
      define h2 where "h2 = h1\<lparr>payload := copy_bytes (of_nat q) (of_nat p) (of_nat n) (payload h1)\<rparr>"
      have inv2: "heap_inv base xs1 h2" using got by (simp add: h2_def heap_inv_payload)
      obtain h3 xs3 where h3: "free_block (of_nat p) h2 = Some h3" "heap_inv base xs3 h3" "payload h3 = payload h2"
        "live base xs3 = live base xs1 - {(p, n)}" by (rule free_live_lemma [OF inv2 p1])
      have run: "realloc (of_nat p) sz h = Some (of_nat q, h3)"
        using False blk p0 sz cmp got(1) q0 blk1 h3(1) by (simp add: realloc_def Let_def h2_def)
      have nm: "n \<le> m" "q + n < 2 ^ 64" using False got(5) qb by auto
      have pay: "payload h3 (of_nat a) = (if q \<le> a \<and> a < q + n then payload h (of_nat (p + (a - q)))
          else payload h (of_nat a))" if "a < 2 ^ 64" for a
        using copy_bytes_at [of a q "of_nat n" p "payload h"] that nm un h3(3) got(3) by (simp add: h2_def)
      have new: "\<forall>i<n. payload h3 (of_nat (q + i)) = payload h (of_nat (p + i))"
        using pay nm by (auto simp del: of_nat_add)
      have old: "payload h3 (of_nat (r + i)) = payload h (of_nat (r + i))"
        if r: "(r, l) \<in> live base xs" and i: "i < l" for r l i
      proof -
        have dj: "q + m + 32 \<le> r \<or> r + l + 32 \<le> q"
          using live_disjoint [OF q1, of r l] r got(6,7) by auto
        moreover have "r + l < 2 ^ 64" using live_header [OF inv r] by blast
        moreover from dj i nm have "\<not> (q \<le> r + i \<and> r + i < q + n)" by linarith
        moreover have "r + i < 2 ^ 64" using calculation(2) i by simp
        ultimately show ?thesis using pay [of "r + i"] by (simp only: if_False)
      qed
      have "live base xs3 = insert (q, m) (live base xs - {(p, n)})" using h3(4) got(6,7) p by auto
      with run h3(2) got(5,7) new old False show ?thesis by (metis not_le)
    qed
  qed
qed

lemma sample_malloc: "\<exists>h1. malloc 20 sample_heap = Some (4176, h1)"
proof -
  have "unat (round_size 20) = 32" by (simp add: round_size_eq)
  then show ?thesis using malloc_refines_lemma [OF sample_inv, of 20] by auto
qed

text \<open>
  C37: \<open>realloc\<close> of a region in use to a new size (again one that does not wrap) gives back the same
  region when it is large enough, or NULL with the region untouched when there is no room, or a
  fresh region that holds the bytes of the old one, which is released; no other region in use
  changes a byte.
\<close>

theorem realloc_keeps_contents:
  assumes inv: "heap_inv base xs h" and p: "(p, n) \<in> live base xs"
    and sz: "sz \<noteq> 0" "unat sz \<le> 2 ^ 64 - 16"
  shows "(unat sz \<le> n \<and> realloc (of_nat p) sz h = Some (of_nat p, h)) \<or>
    (n < unat sz \<and> realloc (of_nat p) sz h = Some (0, h)) \<or>
    (n < unat sz \<and> (\<exists>q m h' xs'. realloc (of_nat p) sz h = Some (of_nat q, h') \<and> heap_inv base xs' h' \<and>
       unat sz \<le> m \<and> live base xs' = insert (q, m) (live base xs - {(p, n)}) \<and> (q, m) \<notin> live base xs \<and>
       (\<forall>i<n. payload h' (of_nat (q + i)) = payload h (of_nat (p + i))) \<and>
       (\<forall>r l. (r, l) \<in> live base xs \<and> (r, l) \<noteq> (p, n) \<longrightarrow>
          (\<forall>i<l. payload h' (of_nat (r + i)) = payload h (of_nat (r + i))))))"
  by (rule realloc_lemma [OF assms])

theorem realloc_keeps_contents_witness:
  "\<exists>h'. realloc 4128 20 sample_heap = Some (4176, h') \<and> payload h' 4176 = 7"
proof -
  obtain h1 where "malloc 20 sample_heap = Some (4176, h1)" using sample_malloc by blast
  then have np: "r = 4176" if "realloc 4128 20 sample_heap = Some (r, h')" for r h'
    using that by (auto simp: realloc_def sample_heap_def bind_Some_iff)
  have l: "(4128, 16) \<in> live 4096 [(16, False), (128, True)]" by simp
  have s20: "(20 :: u64) \<noteq> 0" "unat (20 :: u64) \<le> 2 ^ 64 - 16" by simp_all
  show ?thesis using realloc_keeps_contents [OF sample_inv l s20]
  proof (elim disjE exE conjE)
    fix q m h' xs'
    assume r: "realloc (of_nat 4128) 20 sample_heap = Some (of_nat q, h')"
      and c: "\<forall>i<16. payload h' (of_nat (q + i)) = payload sample_heap (of_nat (4128 + i))"
    have "payload h' (of_nat q) = payload sample_heap (of_nat 4128)" using c [rule_format, of 0] by simp
    then show ?thesis using r np [of "of_nat q" h'] by (simp add: sample_heap_def)
  qed (use np in auto)
qed

text \<open>
  \<open>calloc\<close> returns NULL without touching the heap when the product of its arguments does not
  fit in 64 bits; otherwise (for products that \<open>malloc\<close> does not wrap) the region it returns has at
  least that many bytes, all of them zero, and no byte of another region in use changes.
\<close>

theorem calloc_zeroed:
  assumes inv: "heap_inv base xs h" and sz: "num \<noteq> 0" "sz \<noteq> 0"
    and fit: "unat num * unat sz \<le> 2 ^ 64 - 16 \<or> 2 ^ 64 \<le> unat num * unat sz"
  shows "calloc num sz h = Some (0, h) \<or>
    (unat num * unat sz < 2 ^ 64 \<and> (\<exists>p m h' xs'. calloc num sz h = Some (of_nat p, h') \<and> heap_inv base xs' h' \<and>
       unat num * unat sz \<le> m \<and> live base xs' = insert (p, m) (live base xs) \<and> (p, m) \<notin> live base xs \<and>
       (\<forall>i<unat num * unat sz. payload h' (of_nat (p + i)) = 0) \<and>
       (\<forall>r l. (r, l) \<in> live base xs \<longrightarrow>
          (\<forall>i<l. payload h' (of_nat (r + i)) = payload h (of_nat (r + i))))))"
proof -
  have over: "sz > (-1) div num \<longleftrightarrow> 2 ^ 64 \<le> unat num * unat sz"
  proof -
    have "unat ((-1 :: u64) div num) = (2 ^ 64 - 1) div unat num" by (simp add: unat_div unsigned_minus_1_eq_mask mask_eq_exp_minus_1)
    moreover have "(2 ^ 64 - 1) div unat num < unat sz \<longleftrightarrow> (2 ^ 64 - 1 :: nat) < unat sz * unat num"
      using sz by (intro div_less_iff_less_mult) (simp add: unat_gt_0)
    ultimately show ?thesis by (auto simp: word_less_unat mult.commute)
  qed
  show ?thesis
  proof (cases "2 ^ 64 \<le> unat num * unat sz")
    case True
    then show ?thesis using over sz by (simp add: calloc_def)
  next
    case False
    define t where "t = num * sz"
    have t: "unat t = unat num * unat sz" using False by (simp add: t_def unat_word_ariths)
    have t0: "t \<noteq> 0" "unat t \<le> 2 ^ 64 - 16"
      using t sz fit False by (auto simp: unat_eq_0 simp flip: unat_eq_0)
    show ?thesis
      using inv t0
    proof (cases rule: malloc_live_lemma)
      case full
      then show ?thesis using over False by (simp add: calloc_def Let_def t_def)
    next
      case (got p m h1 xs1)
      have p1: "(p, m) \<in> live base xs1" using got by simp
      have pb: "0 < p" "p + m < 2 ^ 64" using live_header [OF got(2) p1] by blast+
      have p0: "(of_nat p :: u64) \<noteq> 0" using addr_neq [of p 0] pb by simp
      define h2 where "h2 = h1\<lparr>payload := fill_bytes (of_nat p) 0 t (payload h1)\<rparr>"
      have run: "calloc num sz h = Some (of_nat p, h2)"
        using over False got(1) p0 by (simp add: calloc_def Let_def h2_def t_def)
      have pay: "payload h2 (of_nat a) = (if p \<le> a \<and> a < p + unat t then 0 else payload h (of_nat a))"
        if "a < 2 ^ 64" for a
        using fill_bytes_at [of a p t 0 "payload h"] that pb got(3,5) by (simp add: h2_def)
      have new: "\<forall>i<unat t. payload h2 (of_nat (p + i)) = 0"
        using pay pb got(5) by (auto simp del: of_nat_add)
      have old: "payload h2 (of_nat (r + i)) = payload h (of_nat (r + i))"
        if r: "(r, l) \<in> live base xs" and i: "i < l" for r l i
      proof -
        have dj: "p + m + 32 \<le> r \<or> r + l + 32 \<le> p"
          using live_disjoint [OF p1, of r l] r got(6,7) by auto
        moreover have "r + l < 2 ^ 64" using live_header [OF inv r] by blast
        moreover from dj i got(5) have "\<not> (p \<le> r + i \<and> r + i < p + unat t)" by linarith
        moreover have "r + i < 2 ^ 64" using calculation(2) i by simp
        ultimately show ?thesis using pay [of "r + i"] by (simp only: if_False)
      qed
      have "heap_inv base xs1 h2" using got(2) by (simp add: h2_def heap_inv_payload)
      with run got(5,6,7) new old False t show ?thesis by (metis not_le)
    qed
  qed
qed

theorem calloc_zeroed_witness:
  "calloc 3 5 sample_heap = Some (0, sample_heap) \<or>
   (\<exists>p h'. calloc 3 5 sample_heap = Some (of_nat p, h') \<and> payload h' (of_nat (p + 14)) = 0 \<and>
      payload h' 4128 = 7)"
proof -
  have l: "(4128, 16) \<in> live 4096 [(16, False), (128, True)]" by simp
  have s35: "(3 :: u64) \<noteq> 0" "(5 :: u64) \<noteq> 0"
    "unat (3 :: u64) * unat (5 :: u64) \<le> 2 ^ 64 - 16 \<or> 2 ^ 64 \<le> unat (3 :: u64) * unat (5 :: u64)" by simp_all
  show ?thesis using calloc_zeroed [OF sample_inv s35]
  proof (elim disjE exE conjE)
    fix p m h' xs'
    assume r: "calloc 3 5 sample_heap = Some (of_nat p, h')"
      and z: "\<forall>i<unat (3 :: u64) * unat (5 :: u64). payload h' (of_nat (p + i)) = 0"
      and k: "\<forall>r l. (r, l) \<in> live 4096 [(16, False), (128, True)] \<longrightarrow>
          (\<forall>i<l. payload h' (of_nat (r + i)) = payload sample_heap (of_nat (r + i)))"
    have "payload h' (of_nat (p + 14)) = 0" using z [rule_format, of 14] by simp
    moreover have "payload h' (of_nat 4128) = payload sample_heap (of_nat 4128)"
      using k [rule_format, OF l, of 0] by simp
    ultimately show ?thesis using r by (auto simp: sample_heap_def)
  qed auto
qed

section \<open>Initialisation\<close>

lemma heap_claim_spec:
  assumes "pmm_inv pm"
  shows "\<exists>ph w pm1. heap_claim (3 * 2 ^ (23 + j)) pm = Some (ph, w, pm1) \<and>
    (if ph = 0 then pm1 = pm \<and> \<not> (\<exists>t. 1 \<le> t \<and> t + 6144 \<le> highest_page pm \<and> free_run (bitmap pm) t 6144)
     else (\<exists>i\<le>j. w = 3 * 2 ^ (23 + i)) \<and> first_fit_outcome (w div 4096) pm ph pm1)"
proof (induction j)
  case 0
  obtain a pm1 where a: "pmm_alloc_pages 6144 pm = Some (a, pm1)" "first_fit_outcome 6144 pm a pm1"
    using pmm_alloc_pages_first_fit_lemma [OF assms, of 6144] by auto
  have stop: "heap_claim 12582912 pm = Some (0, 12582912, pm)"
    by (subst heap_claim.simps) (simp add: HEAP_MIN_def)
  have "heap_claim 25165824 pm = (if a \<noteq> 0 then Some (a, 25165824, pm1) else heap_claim 12582912 pm1)"
    using a(1) by (subst heap_claim.simps) (simp add: HEAP_MIN_def)
  with a(2) stop show ?case by (auto simp: first_fit_outcome_def)
next
  case (Suc j)
  let ?w = "3 * 2 ^ (23 + Suc j) :: nat"
  have w: "?w = 50331648 * 2 ^ j" by (simp add: power_add)
  have ge: "HEAP_MIN \<le> ?w" unfolding w HEAP_MIN_def using one_le_power [of "2 :: nat" j] by linarith
  then have "0 < ?w div 4096" by (simp add: HEAP_MIN_def)
  then obtain a pm1 where a: "pmm_alloc_pages (?w div 4096) pm = Some (a, pm1)"
    "first_fit_outcome (?w div 4096) pm a pm1"
    using pmm_alloc_pages_first_fit_lemma [OF assms] by blast
  show ?case
  proof (cases "a = 0")
    case True
    then have "pm1 = pm" using a by (simp add: first_fit_outcome_def)
    moreover have "?w div 2 = 3 * 2 ^ (23 + j)" unfolding w by (simp add: power_add)
    ultimately have "heap_claim ?w pm = heap_claim (3 * 2 ^ (23 + j)) pm"
      using True a ge by (subst heap_claim.simps) simp
    with Suc show ?thesis by (metis le_Suc_eq)
  next
    case False
    then have "heap_claim ?w pm = Some (a, ?w, pm1)" using a ge by (subst heap_claim.simps) simp
    then show ?thesis using False a by auto
  qed
qed

text \<open>
  \<open>heap\_init\<close> with a working page allocator and an HHDM offset that leaves room for
  all of physical memory: either there is no run of 24 MiB of free pages (the smallest size that the
  halving of 768 MiB tries) and nothing changes, or the heap is one free block that fills a region
  of 24 to 768 MiB, whose pages were free and are now the only newly used ones.
\<close>

theorem heap_init_sound:
  assumes "pmm_inv pm" "16 dvd unat hhdm" "unat hhdm + 4096 * highest_page pm < 2 ^ 64"
  shows "(heap_init hhdm pm h = Some (h, pm) \<and>
      \<not> (\<exists>t. 1 \<le> t \<and> t + 6144 \<le> highest_page pm \<and> free_run (bitmap pm) t 6144)) \<or>
    (\<exists>h' pm' p n. heap_init hhdm pm h = Some (h', pm') \<and> 6144 \<le> n \<and> n \<le> 196608 \<and>
      1 \<le> p \<and> p + n \<le> highest_page pm \<and> heap_inv (unat hhdm + 4096 * p) [(4096 * n - 32, True)] h' \<and> pmm_inv pm' \<and>
      free_run (bitmap pm) p n \<and>
      (\<forall>c. used (bitmap pm') c \<longleftrightarrow> p \<le> c \<and> c < p + n \<or> used (bitmap pm) c))"
proof -
  have hm: "HEAP_MAX = 3 * 2 ^ (23 + 5)" by (simp add: HEAP_MAX_def)
  obtain ph w pm1 where c: "heap_claim HEAP_MAX pm = Some (ph, w, pm1)"
    "if ph = 0 then pm1 = pm \<and> \<not> (\<exists>t. 1 \<le> t \<and> t + 6144 \<le> highest_page pm \<and> free_run (bitmap pm) t 6144)
     else (\<exists>i\<le>5. w = 3 * 2 ^ (23 + i)) \<and> first_fit_outcome (w div 4096) pm ph pm1"
    using heap_claim_spec [OF assms(1), of 5] unfolding hm by blast
  show ?thesis
  proof (cases "ph = 0")
    case True
    then show ?thesis using c by (simp add: heap_init_def)
  next
    case False
    with c(2) obtain i where i: "i \<le> 5" "w = 3 * 2 ^ (23 + i)" and f: "first_fit_outcome (w div 4096) pm ph pm1"
      by auto
    define n :: nat where "n = 6144 * 2 ^ i"
    have n: "w = 4096 * n" "6144 \<le> n" "n \<le> 196608"
      using i power_increasing [of i 5 "2 :: nat"] by (simp_all add: n_def power_add)
    from f False n obtain p where p: "ph = p * 4096" "1 \<le> p" "p + n \<le> highest_page pm"
      "free_run (bitmap pm) p n" "pmm_inv pm1"
      "\<forall>c. used (bitmap pm1) c \<longleftrightarrow> p \<le> c \<and> c < p + n \<or> used (bitmap pm) c"
      by (auto simp: first_fit_outcome_def)
    define b where "b = unat hhdm + 4096 * p"
    have b: "(of_nat ph + hhdm :: u64) = of_nat b" using p(1) by (simp add: b_def mult.commute)
    have sz: "(of_nat w - HDR_SIZE :: u64) = of_nat (4096 * n - 32)" using n by (simp add: of_nat_diff)
    define h' where "h' = h\<lparr>blocks := (blocks h)(of_nat b \<mapsto> \<lparr>b_size = of_nat (4096 * n - 32), b_free = True,
        b_next = 0, b_prev = 0\<rparr>), heap_head := of_nat b, total_size := of_nat w, used_size := 0\<rparr>"
    have "heap_init hhdm pm h = Some (h', pm1)"
      using c(1) False b sz by (simp add: heap_init_def Let_def h'_def)
    moreover have "heap_inv b [(4096 * n - 32, True)] h'"
    proof -
      have "b + 4096 * n < 2 ^ 64" using assms(3) p(3) unfolding b_def by simp
      moreover have "16 dvd 4096 * n - 32" by (rule dvd_diff_nat) simp_all
      ultimately show ?thesis using assms(2) p(2) n by (simp add: inv_simps h'_def b_def)
    qed
    ultimately show ?thesis using n p unfolding b_def by blast
  qed
qed

text \<open>Two bytes of bitmap, all free but page 0: there is no room for a heap.\<close>

theorem heap_init_sound_witness:
  "heap_init 0xffff800000000000 \<lparr>bitmap = [1, 0], highest_page = 16, phys = \<lambda>_. 0\<rparr> sample_heap =
    Some (sample_heap, \<lparr>bitmap = [1, 0], highest_page = 16, phys = \<lambda>_. 0\<rparr>)"
proof -
  let ?pm = "\<lparr>bitmap = [1, 0], highest_page = 16, phys = \<lambda>_. 0 :: u64\<rparr>"
  have inv: "pmm_inv ?pm" by (simp add: inv_simps used_def)
  have hh: "16 dvd unat (0xffff800000000000 :: u64)" "unat (0xffff800000000000 :: u64) + 4096 * highest_page ?pm < 2 ^ 64"
    by (simp_all add: dvd_eq_mod_eq_0)
  show ?thesis using heap_init_sound [OF inv hh, of sample_heap] by auto
qed

text \<open>
  The wrap-around behind the size conditions above: a request within 15 bytes of the top of the
  address space is rounded to 0, so \<open>malloc\<close> succeeds with a block that has no payload at all.
\<close>

lemma malloc_wraps:
  assumes "heap_inv base ((n, True) # xs) h" "48 \<le> n"
  shows "\<exists>h'. malloc (-1) h = Some (of_nat (base + 32), h') \<and>
    heap_inv base ((0, False) # (n - 32, True) # xs) h'"
proof -
  have "unat (round_size (-1)) = 0" by (simp add: round_size_def ALIGNMENT_def)
  then show ?thesis using malloc_refines_lemma [OF assms(1), of "-1"] assms(2) by auto
qed

section \<open>The heap as an allocator for its clients\<close>

text \<open>The base address and the list of blocks are determined by the heap.\<close>

lemma linked_unique:
  "linked hp p a xs 0 \<Longrightarrow> linked hp p a ys 0 \<Longrightarrow> a + seg_total xs < 2 ^ 64 \<Longrightarrow> a + seg_total ys < 2 ^ 64 \<Longrightarrow>
   xs \<noteq> [] \<Longrightarrow> ys \<noteq> [] \<Longrightarrow> xs = ys"
proof (induction xs arbitrary: p a ys)
  case (Cons x xs)
  obtain n f where x: "x = (n, f)" by force
  obtain m g zs where y: "ys = (m, g) # zs" using Cons.prems(6) by (cases ys) auto
  have nm: "(of_nat n :: u64) = of_nat m" "f = g"
    and nx: "(if xs = [] then 0 else of_nat (a + 32 + n) :: u64) = (if zs = [] then 0 else of_nat (a + 32 + m))"
    and l: "linked hp (of_nat a) (a + 32 + n) xs 0" "linked hp (of_nat a) (a + 32 + m) zs 0"
    using Cons.prems x y by auto
  have "n = m" using nm(1) addr_neq [of n m] Cons.prems(3,4) x y by simp
  moreover have "xs = [] \<longleftrightarrow> zs = []"
    using nx addr_neq [of "a + 32 + n" 0] addr_neq [of "a + 32 + m" 0] Cons.prems(3,4) x y
    by (auto split: if_splits simp del: of_nat_add)
  moreover have "xs \<noteq> [] \<Longrightarrow> zs \<noteq> [] \<Longrightarrow> xs = zs"
    using Cons.IH [OF l(1)] l(2) calculation(1) Cons.prems(3,4) x y by simp
  ultimately show ?case using x y nm(2) by auto
qed simp

lemma heap_inv_unique:
  assumes "heap_inv base xs h" "heap_inv base' ys h"
  shows "base' = base \<and> ys = xs"
proof -
  have "base' = base" using assms addr_neq [of base base'] by (simp add: inv_simps)
  then show ?thesis using assms linked_unique [of "blocks h" 0 base xs ys] by (simp add: inv_simps)
qed

definition heap_ok :: "heap \<Rightarrow> bool" where
  "heap_ok h \<longleftrightarrow> (\<exists>base xs. heap_inv base xs h)"

definition heap_regions :: "heap \<Rightarrow> (u64 \<times> nat) set" where
  "heap_regions h = {(of_nat p, n) | p n base xs. heap_inv base xs h \<and> (p, n) \<in> live base xs}"

lemma heap_regions_eq:
  assumes inv: "heap_inv base xs h"
  shows "heap_regions h = (\<lambda>(p, n). (of_nat p, n)) ` live base xs"
proof -
  have "(q, n) \<in> heap_regions h \<longleftrightarrow> (\<exists>p. q = of_nat p \<and> (p, n) \<in> live base xs)" for q n
    using inv heap_inv_unique [OF inv] unfolding heap_regions_def by blast
  then show ?thesis by (auto simp: image_iff Bex_def)
qed

definition kernel_heap :: "heap heap_ops" where
  "kernel_heap = \<lparr>heap_malloc = malloc, heap_free = free_block\<rparr>"

definition heap_arena :: "heap \<Rightarrow> u64 set" where
  "heap_arena h = {p. heap_head h \<le> p \<and> p \<le> heap_head h + total_size h}"

lemma malloc_arena_lemma: "malloc sz h = Some (p, h') \<Longrightarrow> heap_arena h' = heap_arena h"
  unfolding malloc_def Let_def
  by (auto simp: heap_arena_def bind_Some_iff split: if_splits option.splits)

lemma free_arena_lemma: "free_block p h = Some h' \<Longrightarrow> heap_arena h' = heap_arena h"
  unfolding free_block_def Let_def
  by (auto simp: heap_arena_def bind_Some_iff split: if_splits)

lemma region_in_arena:
  assumes "heap_inv base xs h" "(p, n) \<in> live base xs"
  shows "of_nat p \<in> heap_arena h"
proof -
  have h: "heap_head h = of_nat base" "total_size h = of_nat (seg_total xs)" "base + seg_total xs < 2 ^ 64"
    using assms(1) by (auto simp: heap_inv_def)
  have b: "base + 32 \<le> p" "p + n \<le> base + seg_total xs" using live_bounds [OF assms(2)] by auto
  have "unat (heap_head h + total_size h) = base + seg_total xs"
    using unat_of_nat_small [of "base + seg_total xs", where 'a = 64] h by simp
  moreover have "unat (heap_head h) = base" using h unat_of_nat_small [of base, where 'a = 64] by simp
  moreover have "unat (of_nat p :: u64) = p" using b h(3) by (intro unat_of_nat_small) simp
  ultimately show ?thesis using b by (simp add: heap_arena_def word_le_unat)
qed

interpretation kheap: heap_allocator kernel_heap heap_regions heap_ok heap_arena
proof
  fix h h' and sz p :: u64 and n m :: nat
  show "heap_malloc kernel_heap sz h = Some (p, h') \<Longrightarrow> heap_arena h' = heap_arena h"
    by (simp add: kernel_heap_def malloc_arena_lemma)
  show "heap_free kernel_heap p h = Some h' \<Longrightarrow> heap_arena h' = heap_arena h"
    by (simp add: kernel_heap_def free_arena_lemma)
  assume ok: "heap_ok h"
  then obtain base xs where inv: "heap_inv base xs h" by (auto simp: heap_ok_def)
  note R = heap_regions_eq [OF inv]
  have lb: "q < 2 ^ 64" "0 < q" "q + l < 2 ^ 64" if "(q, l) \<in> live base xs" for q l
    using live_header [OF inv that] by fastforce+
  have reg: "(of_nat q, l) \<in> heap_regions h \<longleftrightarrow> (q, l) \<in> live base xs" if "q < 2 ^ 64" for q l
    using lb(1) that by (auto simp: R addr_neq)
  show "(0, n) \<notin> heap_regions h" using reg [of 0 n] lb(2) [of 0 n] by auto
  {
    assume pn: "(p, n) \<in> heap_regions h"
    then obtain q where q: "p = of_nat q" "(q, n) \<in> live base xs" by (auto simp: R)
    show "p \<in> heap_arena h" using region_in_arena [OF inv q(2)] q(1) by simp
    show "(p, m) \<in> heap_regions h \<Longrightarrow> m = n"
      using reg [OF lb(1) [OF q(2)]] live_disjoint [OF q(2), of q m] q by force
    obtain h1 xs' where h1: "free_block (of_nat q) h = Some h1" "heap_inv base xs' h1"
      "live base xs' = live base xs - {(q, n)}" by (rule free_live_lemma [OF inv q(2)])
    have "heap_regions h1 = heap_regions h - {(p, n)}"
      using heap_regions_eq [OF h1(2)] h1(3) R q lb(1) by (auto simp: addr_neq)
    then show "\<exists>h'. heap_free kernel_heap p h = Some h' \<and> heap_ok h' \<and>
        heap_regions h' = heap_regions h - {(p, n)}"
      using h1 q by (auto simp: kernel_heap_def heap_ok_def)
  }
  assume sz: "sz \<noteq> 0" "unat sz \<le> 2 ^ 64 - 16"
  note M = malloc_live_lemma [OF inv sz]
  show "heap_malloc kernel_heap sz h \<noteq> None" by (rule M) (auto simp: kernel_heap_def)
  have nz: "(of_nat q :: u64) \<noteq> 0 \<and> q + l < 2 ^ 64" if "heap_inv base ys k" "(q, l) \<in> live base ys" for q l ys k
    using live_header [OF that] addr_neq [of q 0] by fastforce
  {
    assume m: "heap_malloc kernel_heap sz h = Some (0, h')"
    show "h' = h"
    proof (cases rule: M)
      case (2 q l h1 ys)
      then show ?thesis using m nz [OF 2(2), of q l] by (auto simp: kernel_heap_def)
    qed (use m in \<open>simp add: kernel_heap_def\<close>)
  }
  {
    assume m: "heap_malloc kernel_heap sz h = Some (p, h')" and "p \<noteq> 0"
    then show "heap_ok h' \<and> 16 dvd unat p \<and> (\<exists>m. unat sz \<le> m \<and> unat p + m < 2 ^ 64 \<and>
        heap_regions h' = insert (p, m) (heap_regions h) \<and> (\<forall>n. (p, n) \<notin> heap_regions h))"
    proof (cases rule: M)
      case (2 q l h1 ys)
      note got = this
      have l: "(q, l) \<in> live base ys" using got by simp
      have q: "p = of_nat q" "h' = h1" "q + l < 2 ^ 64" "unat p = q"
        using got(1) m nz [OF got(2) l] by (auto simp: kernel_heap_def unat_of_nat_small)
      have "(q, n) \<notin> live base xs" for n
      proof
        assume "(q, n) \<in> live base xs"
        with got(6) live_disjoint [OF l, of q n] show False using got(7) by auto
      qed
      then have "\<forall>n. (p, n) \<notin> heap_regions h" using reg [of q] q by simp
      moreover have "heap_regions h' = insert (p, l) (heap_regions h)"
        using heap_regions_eq [OF got(2)] R got(6) q by auto
      ultimately show ?thesis using got(2,4,5) q by (auto simp: heap_ok_def)
    qed (use m in \<open>simp add: kernel_heap_def\<close>)
  }
qed

interpretation cheap: c_heap kernel_heap heap_regions heap_ok heap_arena
  by unfold_locales (simp_all add: kernel_heap_def malloc_def free_block_def)

end
