(* ===== verification/Sched.thy ===== *)
theory Sched
  imports Strings Heap
begin

text \<open>
  The round-robin scheduler of \<open>sched.c\<close>. Threads live in a store addressed by their pointers and
  form a ring through \<open>t\_next\<close>; freed threads leave the store, so that a use after free is
  \<open>None\<close>. Every operation runs with interrupts off and is one atomic function. The FPU registers
  (saved and restored by fxsave and fxrstor) and the stack words written by \<open>thread\_create\<close> are
  part of the state; the clock is the argument \<open>now\<close>, the interrupted stack pointer the argument
  \<open>rsp\<close>. Thread ids are mathematical integers: the model does not reach the 2 147 483 648th thread.
\<close>

section \<open>State\<close>

datatype thread_state = T_READY | T_RUNNING | T_SLEEPING | T_ZOMBIE

record thread =
  fxsave :: "u8 list"
  t_rsp :: u64
  t_id :: int
  t_name :: "u8 list"
  t_state :: thread_state
  wake_tick :: u64
  stack_base :: u64
  t_next :: u64

type_synonym threads = "u64 \<rightharpoonup> thread"

record 'h sched =
  threads :: threads
  current :: u64
  ring :: u64
  active :: bool
  next_id :: int
  slice_start :: u64
  fpu :: "u8 list"
  stack_words :: "u64 \<Rightarrow> u64"
  sheap :: 'h

definition STACK_SIZE :: u64 where "STACK_SIZE = 64 * 1024"
definition QUANTUM_TICKS :: u64 where "QUANTUM_TICKS = 5"
definition GDT_KERNEL_CS :: u64 where "GDT_KERNEL_CS = 0x28"
definition GDT_KERNEL_SS :: u64 where "GDT_KERNEL_SS = 0x30"
definition THREAD_SIZE :: u64 where "THREAD_SIZE = 576"

definition fxarea_init :: "u8 list" where
  "fxarea_init = (replicate 512 0)[0 := 0x7F, 1 := 0x03, 24 := 0x80, 25 := 0x1F]"

definition sched_init :: "'h sched \<Rightarrow> 'h sched" where
  "sched_init s = s\<lparr>ring := 0, current := 0, active := False\<rparr>"

section \<open>Creating threads\<close>

definition ring_insert :: "u64 \<Rightarrow> thread \<Rightarrow> 'h sched \<Rightarrow> 'h sched option" where
  "ring_insert t th s =
     (if ring s = 0 then Some (s\<lparr>threads := (threads s)(t \<mapsto> th\<lparr>t_next := t\<rparr>), ring := t\<rparr>)
      else threads s (ring s) \<bind> (\<lambda>rt.
        Some (s\<lparr>threads := (threads s)(t \<mapsto> th\<lparr>t_next := t_next rt\<rparr>, ring s \<mapsto> rt\<lparr>t_next := t\<rparr>)\<rparr>)))"

definition push_word :: "u64 \<Rightarrow> u64 \<times> (u64 \<Rightarrow> u64) \<Rightarrow> u64 \<times> (u64 \<Rightarrow> u64)" where
  "push_word x sm = (fst sm - 8, (snd sm)(fst sm - 8 := x))"

text \<open>The words pushed on a new stack, first to last.\<close>

definition initial_frame :: "u64 \<Rightarrow> u64 \<Rightarrow> u64 \<Rightarrow> u64 \<Rightarrow> u64 list" where
  "initial_frame tp trampoline fn arg =
     [GDT_KERNEL_SS, tp - 8, 0x202, GDT_KERNEL_CS, trampoline, 0, 0, 0, 0, 0, fn, arg]
     @ replicate 8 0"

definition thread_create ::
  "'h heap_ops \<Rightarrow> u64 \<Rightarrow> u8 list \<Rightarrow> u64 \<Rightarrow> u64 \<Rightarrow> 'h sched \<Rightarrow> (int \<times> 'h sched) option" where
  "thread_create ops trampoline name fn arg s =
     heap_malloc ops THREAD_SIZE (sheap s) \<bind> (\<lambda>(t, h1).
     if t = 0 then Some (-1, s\<lparr>sheap := h1\<rparr>)
     else heap_malloc ops STACK_SIZE h1 \<bind> (\<lambda>(stack, h2).
       if stack = 0 then heap_free ops t h2 \<bind> (\<lambda>h3. Some (-1, s\<lparr>sheap := h3\<rparr>))
       else c_strlcpy (replicate 24 0) name 24 \<bind> (\<lambda>(nm, _).
         let tid = next_id s + 1;
             tp = (stack + STACK_SIZE) AND NOT 0xF;
             (sp, mem) = fold push_word (initial_frame tp trampoline fn arg) (tp, stack_words s);
             th = \<lparr>fxsave = fxarea_init, t_rsp = sp, t_id = tid, t_name = nm, t_state = T_READY,
                   wake_tick = 0, stack_base = stack, t_next = 0\<rparr>
         in ring_insert t th (s\<lparr>sheap := h2, next_id := tid, stack_words := mem\<rparr>) \<bind> (\<lambda>s'.
            Some (tid, s')))))"

definition sched_start :: "'h heap_ops \<Rightarrow> u64 \<Rightarrow> 'h sched \<Rightarrow> 'h sched option" where
  "sched_start ops now s =
     heap_malloc ops THREAD_SIZE (sheap s) \<bind> (\<lambda>(idle, h1).
     if idle = 0 then None
     else c_strcpy (replicate 24 0) [105, 100, 108, 101, 0] \<bind> (\<lambda>nm.
       ring_insert idle \<lparr>fxsave = fxarea_init, t_rsp = 0, t_id = 0, t_name = nm, t_state = T_RUNNING,
           wake_tick = 0, stack_base = 0, t_next = 0\<rparr> (s\<lparr>sheap := h1\<rparr>) \<bind> (\<lambda>s'.
       Some (s'\<lparr>current := idle, slice_start := now, active := True\<rparr>))))"

section \<open>Preemption\<close>

definition wake_thread :: "u64 \<Rightarrow> thread \<Rightarrow> thread" where
  "wake_thread now th =
     (if t_state th = T_SLEEPING \<and> now \<ge> wake_tick th then th\<lparr>t_state := T_READY\<rparr> else th)"

partial_function (option) wake_loop :: "u64 \<Rightarrow> u64 \<Rightarrow> u64 \<Rightarrow> threads \<Rightarrow> threads option" where
  "wake_loop cur now t ts =
     ts t \<bind> (\<lambda>th.
     let ts' = ts(t \<mapsto> wake_thread now th)
     in if t_next th = cur then Some ts' else wake_loop cur now (t_next th) ts')"

partial_function (option) reap_loop ::
  "'h heap_ops \<Rightarrow> u64 \<Rightarrow> u64 \<Rightarrow> u64 \<Rightarrow> threads \<Rightarrow> 'h \<Rightarrow> (threads \<times> 'h) option" where
  "reap_loop ops cur rg p ts h =
     ts p \<bind> (\<lambda>pt.
     ts (t_next pt) \<bind> (\<lambda>nt.
     if t_state nt = T_ZOMBIE \<and> t_next pt \<noteq> cur \<and> t_next pt \<noteq> rg then
       let ts' = (ts(p \<mapsto> pt\<lparr>t_next := t_next nt\<rparr>))(t_next pt := None)
       in heap_free ops (stack_base nt) h \<bind> (\<lambda>h1.
          heap_free ops (t_next pt) h1 \<bind> (\<lambda>h2.
          if p \<noteq> rg then reap_loop ops cur rg p ts' h2 else Some (ts', h2)))
     else if t_next pt \<noteq> rg then reap_loop ops cur rg (t_next pt) ts h
     else Some (ts, h)))"

definition reap_zombies :: "'h heap_ops \<Rightarrow> 'h sched \<Rightarrow> 'h sched option" where
  "reap_zombies ops s =
     (if ring s = 0 then Some s
      else reap_loop ops (current s) (ring s) (ring s) (threads s) (sheap s) \<bind> (\<lambda>(ts, h).
        Some (s\<lparr>threads := ts, sheap := h\<rparr>)))"

definition runnable :: "thread \<Rightarrow> bool" where
  "runnable th \<longleftrightarrow> t_state th = T_READY \<or> t_state th = T_RUNNING"

partial_function (option) pick_loop ::
  "(thread \<Rightarrow> bool) \<Rightarrow> u64 \<Rightarrow> u64 \<Rightarrow> threads \<Rightarrow> u64 option option" where
  "pick_loop ok cur t ts =
     ts t \<bind> (\<lambda>th.
     if ok th then Some (Some t)
     else if t = cur then Some None
     else pick_loop ok cur (t_next th) ts)"

text \<open>The result is the stack pointer to resume and the new state.\<close>

definition sched_preempt ::
  "'h heap_ops \<Rightarrow> u64 \<Rightarrow> u64 \<Rightarrow> 'h sched \<Rightarrow> (u64 \<times> 'h sched) option" where
  "sched_preempt ops now rsp s0 =
     (if \<not> active s0 \<or> current s0 = 0 then Some (rsp, s0)
      else wake_loop (current s0) now (current s0) (threads s0) \<bind> (\<lambda>ts.
        reap_zombies ops (s0\<lparr>threads := ts\<rparr>) \<bind> (\<lambda>s.
        let cur = current s
        in threads s cur \<bind> (\<lambda>ct.
        pick_loop (\<lambda>th. runnable th \<and> t_id th \<noteq> 0) cur (t_next ct) (threads s) \<bind> (\<lambda>n1.
        (case n1 of
           Some n \<Rightarrow> Some (Some n)
         | None \<Rightarrow> pick_loop runnable cur (t_next ct) (threads s)) \<bind> (\<lambda>n2.
        (case n2 of
           None \<Rightarrow> Some (rsp, s)
         | Some n \<Rightarrow>
             if n = cur then Some (rsp, s)
             else
               let ct' = ct\<lparr>t_rsp := rsp, fxsave := fpu s,
                     t_state := (if t_state ct = T_RUNNING then T_READY else t_state ct)\<rparr>;
                   ts' = (threads s)(cur \<mapsto> ct')
               in ts' n \<bind> (\<lambda>nt.
                  Some (t_rsp nt,
                    s\<lparr>threads := ts'(n \<mapsto> nt\<lparr>t_state := T_RUNNING\<rparr>), current := n,
                      fpu := fxsave nt, slice_start := now\<rparr>)))))))))"

definition sched_tick :: "'h heap_ops \<Rightarrow> u64 \<Rightarrow> u64 \<Rightarrow> 'h sched \<Rightarrow> (u64 \<times> 'h sched) option" where
  "sched_tick ops now rsp s =
     (if \<not> active s then Some (rsp, s)
      else if now - slice_start s < QUANTUM_TICKS \<and> current s \<noteq> 0
      then threads s (current s) \<bind> (\<lambda>ct.
        if t_state ct = T_RUNNING then Some (rsp, s) else sched_preempt ops now rsp s)
      else sched_preempt ops now rsp s)"

section \<open>What a running thread calls\<close>

text \<open>
  The software interrupt 0x30 enters \<open>sched\_preempt\<close> with the stack pointer it has pushed its frame
  at.
\<close>

definition sched_yield :: "'h heap_ops \<Rightarrow> u64 \<Rightarrow> u64 \<Rightarrow> 'h sched \<Rightarrow> (u64 \<times> 'h sched) option" where
  "sched_yield ops now rsp s = (if \<not> active s then Some (rsp, s) else sched_preempt ops now rsp s)"

definition set_current :: "(thread \<Rightarrow> thread) \<Rightarrow> 'h sched \<Rightarrow> 'h sched option" where
  "set_current f s = threads s (current s) \<bind> (\<lambda>ct. Some (s\<lparr>threads := (threads s)(current s \<mapsto> f ct)\<rparr>))"

definition thread_exit :: "'h heap_ops \<Rightarrow> u64 \<Rightarrow> u64 \<Rightarrow> 'h sched \<Rightarrow> (u64 \<times> 'h sched) option" where
  "thread_exit ops now rsp s =
     set_current (\<lambda>ct. ct\<lparr>t_state := T_ZOMBIE\<rparr>) s \<bind> sched_preempt ops now rsp"

text \<open>Before the scheduler is active, \<open>sleep\_ms\<close> waits without touching it.\<close>

definition thread_sleep_ms ::
  "'h heap_ops \<Rightarrow> u64 \<Rightarrow> u64 \<Rightarrow> u64 \<Rightarrow> 'h sched \<Rightarrow> (u64 \<times> 'h sched) option" where
  "thread_sleep_ms ops ms now rsp s =
     (if \<not> active s then Some (rsp, s)
      else set_current (\<lambda>ct. ct\<lparr>t_state := T_SLEEPING, wake_tick := now + ms\<rparr>) s \<bind>
        sched_preempt ops now rsp)"

partial_function (option) count_loop :: "u64 \<Rightarrow> u64 \<Rightarrow> threads \<Rightarrow> nat \<Rightarrow> nat option" where
  "count_loop rg t ts n =
     ts t \<bind> (\<lambda>th.
     if t_next th \<noteq> rg then count_loop rg (t_next th) ts (Suc n) else Some (Suc n))"

definition sched_thread_count :: "'h sched \<Rightarrow> nat option" where
  "sched_thread_count s = (if ring s = 0 then Some 0 else count_loop (ring s) (ring s) (threads s) 0)"

text \<open>The rows of \<open>sched\_dump\<close>, in the order they are printed.\<close>

partial_function (option) dump_loop ::
  "u64 \<Rightarrow> u64 \<Rightarrow> threads \<Rightarrow> (int \<times> u8 list \<times> thread_state) list \<Rightarrow> (int \<times> u8 list \<times> thread_state) list option" where
  "dump_loop start t ts acc =
     ts t \<bind> (\<lambda>th.
     let acc' = acc @ [(t_id th, t_name th, t_state th)]
     in if t_next th \<noteq> start then dump_loop start (t_next th) ts acc' else Some acc')"

definition sched_dump :: "'h sched \<Rightarrow> (int \<times> u8 list \<times> thread_state) list option" where
  "sched_dump s =
     (let t = (if current s \<noteq> 0 then current s else ring s)
      in if t = 0 then Some [] else dump_loop t t (threads s) [])"

section \<open>The ring\<close>

text \<open>\<open>path ts a xs b\<close>: following \<open>t\_next\<close> from \<open>a\<close> visits the threads \<open>xs\<close> and then points to \<open>b\<close>.\<close>

fun path :: "threads \<Rightarrow> u64 \<Rightarrow> u64 list \<Rightarrow> u64 \<Rightarrow> bool" where
  "path ts a [] b \<longleftrightarrow> a = b"
| "path ts a (x # xs) b \<longleftrightarrow> a = x \<and> (case ts x of None \<Rightarrow> False | Some th \<Rightarrow> path ts (t_next th) xs b)"

lemma path_append: "path ts a (xs @ ys) b \<longleftrightarrow> (\<exists>c. path ts a xs c \<and> path ts c ys b)"
  by (induction xs arbitrary: a) (auto split: option.splits)

lemma path_cong:
  assumes "\<And>x. x \<in> set xs \<Longrightarrow> map_option t_next (ts' x) = map_option t_next (ts x)"
  shows "path ts' a xs b = path ts a xs b"
  using assms
proof (induction xs arbitrary: a)
  case (Cons x xs)
  have "map_option t_next (ts' x) = map_option t_next (ts x)" using Cons.prems by simp
  moreover have "path ts' c xs b = path ts c xs b" for c using Cons by simp
  ultimately show ?case by (cases "ts' x"; cases "ts x") simp_all
qed simp

lemma path_dom: "path ts a xs b \<Longrightarrow> x \<in> set xs \<Longrightarrow> \<exists>th. ts x = Some th"
  by (induction xs arbitrary: a) (auto split: option.splits)

lemma path_rotate: "path ts a (us @ vs) a \<Longrightarrow> vs \<noteq> [] \<Longrightarrow> path ts (hd vs) (vs @ us) (hd vs)"
  by (cases vs) (auto simp: path_append split: option.splits)

abbreviation state_of :: "threads \<Rightarrow> u64 \<Rightarrow> thread_state" where
  "state_of ts x \<equiv> t_state (the (ts x))"

abbreviation id_of :: "threads \<Rightarrow> u64 \<Rightarrow> int" where
  "id_of ts x \<equiv> t_id (the (ts x))"

text \<open>A thread without its link, for stating what an operation leaves alone.\<close>

definition view :: "threads \<Rightarrow> u64 \<Rightarrow> thread option" where
  "view ts x = map_option (\<lambda>th. th\<lparr>t_next := 0\<rparr>) (ts x)"

lemma view_fields:
  assumes "view ts x = view ts' x"
  shows "(ts x = None) = (ts' x = None)" "ts x \<noteq> None \<Longrightarrow> state_of ts x = state_of ts' x"
    "ts x \<noteq> None \<Longrightarrow> id_of ts x = id_of ts' x"
    "ts x \<noteq> None \<Longrightarrow> stack_base (the (ts x)) = stack_base (the (ts' x))"
    "ts x \<noteq> None \<Longrightarrow> t_rsp (the (ts x)) = t_rsp (the (ts' x))"
    "ts x \<noteq> None \<Longrightarrow> fxsave (the (ts x)) = fxsave (the (ts' x))"
  using assms unfolding view_def
  by (cases "ts x"; cases "ts' x"; auto dest: arg_cong [where f = t_state] arg_cong [where f = t_id]
      arg_cong [where f = stack_base] arg_cong [where f = t_rsp] arg_cong [where f = fxsave])+

lemma view_SomeE:
  assumes "view ts x = Some (th\<lparr>t_next := 0\<rparr>)"
  obtains tt where "ts x = Some tt" "stack_base tt = stack_base th" "t_id tt = t_id th"
    "t_state tt = t_state th" "t_rsp tt = t_rsp th" "fxsave tt = fxsave th" "t_name tt = t_name th"
proof -
  obtain tt where tt: "ts x = Some tt" "tt\<lparr>t_next := 0\<rparr> = th\<lparr>t_next := 0\<rparr>"
    using assms by (cases "ts x") (simp_all add: view_def)
  have "stack_base (tt\<lparr>t_next := 0\<rparr>) = stack_base (th\<lparr>t_next := 0\<rparr>)"
    "t_id (tt\<lparr>t_next := 0\<rparr>) = t_id (th\<lparr>t_next := 0\<rparr>)"
    "t_state (tt\<lparr>t_next := 0\<rparr>) = t_state (th\<lparr>t_next := 0\<rparr>)"
    "t_rsp (tt\<lparr>t_next := 0\<rparr>) = t_rsp (th\<lparr>t_next := 0\<rparr>)"
    "fxsave (tt\<lparr>t_next := 0\<rparr>) = fxsave (th\<lparr>t_next := 0\<rparr>)"
    "t_name (tt\<lparr>t_next := 0\<rparr>) = t_name (th\<lparr>t_next := 0\<rparr>)"
    by (simp_all only: tt(2))
  then show ?thesis using that tt(1) by simp
qed

section \<open>The loops\<close>

definition wake_all :: "u64 \<Rightarrow> u64 set \<Rightarrow> threads \<Rightarrow> threads" where
  "wake_all now X ts = (\<lambda>x. if x \<in> X then map_option (wake_thread now) (ts x) else ts x)"

lemma wake_thread_next [simp]: "t_next (wake_thread now th) = t_next th"
  by (simp add: wake_thread_def)

lemma wake_all_next: "map_option t_next (wake_all now X ts x) = map_option t_next (ts x)"
  by (cases "ts x") (auto simp: wake_all_def)

lemma wake_loop_all:
  assumes "path ts a xs cur" "xs \<noteq> []" "distinct xs" "cur \<notin> set (tl xs)"
  shows "wake_loop cur now a ts = Some (wake_all now (set xs) ts)"
  using assms
proof (induction xs arbitrary: a ts)
  case (Cons x xs)
  then obtain th where th: "a = x" "ts x = Some th" "path ts (t_next th) xs cur"
    by (auto split: option.splits)
  let ?ts = "ts(x \<mapsto> wake_thread now th)"
  show ?case
  proof (cases xs)
    case Nil
    with th have "t_next th = cur" by simp
    with th Nil show ?thesis
      by (subst wake_loop.simps) (auto simp: wake_all_def Let_def)
  next
    case (Cons y ys)
    with th Cons.prems have nc: "t_next th \<noteq> cur" by (auto split: option.splits)
    have "path ?ts (t_next th) xs cur" using th path_cong [of xs ?ts ts] by simp
    moreover have "xs \<noteq> []" "distinct xs" "cur \<notin> set (tl xs)" using Cons.prems Cons by auto
    ultimately have "wake_loop cur now (t_next th) ?ts = Some (wake_all now (set xs) ?ts)"
      using Cons.IH by blast
    moreover have "wake_all now (set xs) ?ts = wake_all now (set (x # xs)) ts"
      using th Cons.prems by (auto simp: wake_all_def fun_eq_iff)
    ultimately show ?thesis using th nc by (subst wake_loop.simps) (simp add: Let_def del: fun_upd_apply)
  qed
qed simp

lemma pick_loop_find:
  assumes "path ts a (xs @ [cur]) b" "cur \<notin> set xs"
  shows "pick_loop ok cur a ts = Some (find (\<lambda>x. ok (the (ts x))) (xs @ [cur]))"
  using assms
proof (induction xs arbitrary: a)
  case Nil
  then show ?case by (subst pick_loop.simps) (auto split: option.splits)
next
  case (Cons x xs)
  then show ?case by (subst pick_loop.simps) (auto split: option.splits)
qed

lemma count_loop_length:
  assumes "path ts a xs rg" "xs \<noteq> []" "rg \<notin> set (tl xs)"
  shows "count_loop rg a ts n = Some (n + length xs)"
  using assms
proof (induction xs arbitrary: a n)
  case (Cons x xs)
  then obtain th where th: "a = x" "ts x = Some th" "path ts (t_next th) xs rg"
    by (auto split: option.splits)
  show ?case
  proof (cases xs)
    case (Cons y ys)
    with th Cons.prems have "t_next th \<noteq> rg" "rg \<notin> set (tl xs)" by (auto split: option.splits)
    then show ?thesis using th Cons.IH [of "t_next th" "Suc n"] Cons by (subst count_loop.simps) simp
  qed (use th in \<open>subst count_loop.simps, simp\<close>)
qed simp

lemma dump_loop_map:
  assumes "path ts a xs start" "xs \<noteq> []" "start \<notin> set (tl xs)"
  shows "dump_loop start a ts acc =
    Some (acc @ map (\<lambda>x. (t_id (the (ts x)), t_name (the (ts x)), t_state (the (ts x)))) xs)"
  using assms
proof (induction xs arbitrary: a acc)
  case (Cons x xs)
  then obtain th where th: "a = x" "ts x = Some th" "path ts (t_next th) xs start"
    by (auto split: option.splits)
  show ?case
  proof (cases xs)
    case (Cons y ys)
    with th Cons.prems have "t_next th \<noteq> start" "start \<notin> set (tl xs)" by (auto split: option.splits)
    then show ?thesis using th Cons.IH [of "t_next th"] Cons by (subst dump_loop.simps) (simp add: Let_def)
  qed (use th in \<open>subst dump_loop.simps, simp\<close>)
qed simp

section \<open>Reaping\<close>

text \<open>The regions a thread owns, in the order they are freed.\<close>

definition blocks_of :: "threads \<Rightarrow> u64 \<Rightarrow> u64 list" where
  "blocks_of ts x = (let b = stack_base (the (ts x)) in if b = 0 then [x] else [b, x])"

lemma blocks_of_view: "view ts x = view ts' x \<Longrightarrow> ts x \<noteq> None \<Longrightarrow> blocks_of ts x = blocks_of ts' x"
  by (simp add: blocks_of_def view_fields(4))

definition dead :: "threads \<Rightarrow> u64 \<Rightarrow> u64 \<Rightarrow> bool" where
  "dead ts cur x \<longleftrightarrow> t_state (the (ts x)) = T_ZOMBIE \<and> x \<noteq> cur"

text \<open>
  What one call of \<open>reap\_zombies\<close> leaves of a ring: the loop ends as soon as it is back at the
  first thread, which it also is after it has removed the thread right behind the first.
\<close>

definition reap_list :: "threads \<Rightarrow> u64 \<Rightarrow> u64 list \<Rightarrow> u64 list" where
  "reap_list ts cur xs =
     (case xs of r # y # zs \<Rightarrow> if dead ts cur y then r # zs else r # y # filter (\<lambda>x. \<not> dead ts cur x) zs
      | _ \<Rightarrow> xs)"

lemma reap_list_subset: "set (reap_list ts cur xs) \<subseteq> set xs"
  by (auto simp: reap_list_def split: list.splits)

context heap_allocator
begin

text \<open>Removing the thread behind \<open>p\<close>.\<close>

lemma free_thread:
  assumes "inv h" "distinct (blocks_of ts n)" "set (blocks_of ts n) \<subseteq> fst ` regions h"
    and "stack_base (the (ts n)) \<noteq> 0"
  obtains h1 h2 where "heap_free ops (stack_base (the (ts n))) h = Some h1" "heap_free ops n h1 = Some h2"
    "inv h2" "regions h2 = {r \<in> regions h. fst r \<notin> set (blocks_of ts n)}"
proof -
  have b: "blocks_of ts n = [stack_base (the (ts n)), n]" using assms(4) by (simp add: blocks_of_def Let_def)
  with free_list_regions [OF assms(1-3)] obtain h2 where
    h2: "free_list [stack_base (the (ts n)), n] h = Some h2" "inv h2"
    "regions h2 = {r \<in> regions h. fst r \<notin> set (blocks_of ts n)}" by auto
  from h2(1) obtain h1 where "heap_free ops (stack_base (the (ts n))) h = Some h1" "heap_free ops n h1 = Some h2"
    by (auto simp: bind_Some_iff)
  with h2 show ?thesis using that by blast
qed

lemma unlink_path:
  assumes "path ts p (p # n # zs) rg" "distinct (p # n # zs)" "ts p = Some pt" "ts n = Some nt"
  shows "path ((ts(p \<mapsto> pt\<lparr>t_next := t_next nt\<rparr>))(n := None)) p (p # zs) rg"
proof -
  let ?ts = "(ts(p \<mapsto> pt\<lparr>t_next := t_next nt\<rparr>))(n := None)"
  have "path ts (t_next nt) zs rg" using assms by (auto split: option.splits)
  moreover have "path ?ts (t_next nt) zs rg = path ts (t_next nt) zs rg"
    by (rule path_cong) (use assms(2) in auto)
  ultimately show ?thesis using assms by auto
qed

lemma reap_loop_tail:
  assumes "path ts p (p # zs) rg" "distinct (rg # p # zs)" "ts rg \<noteq> None"
    and "inv h" "distinct (concat (map (blocks_of ts) zs))" "set (concat (map (blocks_of ts) zs)) \<subseteq> fst ` regions h"
    and "\<forall>x\<in>set zs. state_of ts x = T_ZOMBIE \<longrightarrow> stack_base (the (ts x)) \<noteq> 0"
  shows "\<exists>ts' h'. reap_loop ops cur rg p ts h = Some (ts', h') \<and> inv h' \<and>
    path ts' p (p # filter (\<lambda>x. \<not> dead ts cur x) zs) rg \<and>
    (\<forall>x. if x \<in> set zs \<and> dead ts cur x then ts' x = None else view ts' x = view ts x) \<and>
    (\<forall>x. x \<notin> set (p # zs) \<longrightarrow> ts' x = ts x) \<and>
    regions h' = {r \<in> regions h. \<forall>x\<in>set zs. dead ts cur x \<longrightarrow> fst r \<notin> set (blocks_of ts x)}"
  using assms
proof (induction zs arbitrary: p ts h)
  case Nil
  then obtain pt where "ts p = Some pt" "t_next pt = rg" by (auto split: option.splits)
  moreover obtain rt where "ts rg = Some rt" using Nil by auto
  ultimately have "reap_loop ops cur rg p ts h = Some (ts, h)" by (subst reap_loop.simps) simp
  with Nil show ?case by auto
next
  case (Cons n zs)
  then obtain pt nt where pt: "ts p = Some pt" "t_next pt = n" and nt: "ts n = Some nt"
    and rest: "path ts n (n # zs) rg" by (auto split: option.splits)
  have nr: "n \<noteq> rg" "p \<noteq> rg" "p \<noteq> n" using Cons.prems by auto
  show ?case
  proof (cases "dead ts cur n")
    case True
    let ?ts = "(ts(p \<mapsto> pt\<lparr>t_next := t_next nt\<rparr>))(n := None)"
    have sb: "stack_base nt \<noteq> 0" using True Cons.prems(7) nt by (auto simp: dead_def)
    obtain h1 h2 where h: "heap_free ops (stack_base nt) h = Some h1" "heap_free ops n h1 = Some h2"
      "inv h2" "regions h2 = {r \<in> regions h. fst r \<notin> set (blocks_of ts n)}"
      using free_thread [of h ts n] Cons.prems sb nt by auto
    have v: "view ?ts x = view ts x" if "x \<noteq> n" for x using that pt by (simp add: view_def)
    have same: "?ts x = ts x" if "x \<in> set zs" for x using that Cons.prems by auto
    then have bs: "map (blocks_of ?ts) zs = map (blocks_of ts) zs" by (simp add: blocks_of_def)
    have dd: "dead ?ts cur x = dead ts cur x" if "x \<in> set zs" for x using same [OF that] by (simp add: dead_def)
    have disj: "set (blocks_of ts n) \<inter> set (concat (map (blocks_of ts) zs)) = {}" using Cons.prems by auto
    have "\<exists>ts' h'. reap_loop ops cur rg p ?ts h2 = Some (ts', h') \<and> inv h' \<and>
      path ts' p (p # filter (\<lambda>x. \<not> dead ?ts cur x) zs) rg \<and>
      (\<forall>x. if x \<in> set zs \<and> dead ?ts cur x then ts' x = None else view ts' x = view ?ts x) \<and>
      (\<forall>x. x \<notin> set (p # zs) \<longrightarrow> ts' x = ?ts x) \<and>
      regions h' = {r \<in> regions h2. \<forall>x\<in>set zs. dead ?ts cur x \<longrightarrow> fst r \<notin> set (blocks_of ?ts x)}"
    proof (rule Cons.IH)
      show "path ?ts p (p # zs) rg" using unlink_path [of ts p n zs rg pt nt] Cons.prems pt nt by simp
      show "set (concat (map (blocks_of ?ts) zs)) \<subseteq> fst ` regions h2"
      proof
        fix q assume "q \<in> set (concat (map (blocks_of ?ts) zs))"
        then have q: "q \<in> set (concat (map (blocks_of ts) zs))" unfolding bs .
        have "set (concat (map (blocks_of ts) zs)) \<subseteq> fst ` regions h" using Cons.prems(6) by simp
        with q have "q \<in> fst ` regions h" by blast
        then obtain m where "(q, m) \<in> regions h" by (metis imageE prod.collapse)
        moreover have "q \<notin> set (blocks_of ts n)" using disj q by blast
        ultimately have "(q, m) \<in> regions h2" by (simp add: h(4))
        then show "q \<in> fst ` regions h2" by (metis fst_conv imageI)
      qed
      show "distinct (rg # p # zs)" "?ts rg \<noteq> None" using Cons.prems(2,3) by auto
      show "distinct (concat (map (blocks_of ?ts) zs))" unfolding bs using Cons.prems(5) by simp
      show "\<forall>x\<in>set zs. state_of ?ts x = T_ZOMBIE \<longrightarrow> stack_base (the (?ts x)) \<noteq> 0"
        using same Cons.prems(7) by (simp del: fun_upd_apply)
    qed (rule h(3))
    then obtain ts' h' where R: "reap_loop ops cur rg p ?ts h2 = Some (ts', h')" "inv h'"
      "path ts' p (p # filter (\<lambda>x. \<not> dead ?ts cur x) zs) rg"
      "\<forall>x. if x \<in> set zs \<and> dead ?ts cur x then ts' x = None else view ts' x = view ?ts x"
      "\<forall>x. x \<notin> set (p # zs) \<longrightarrow> ts' x = ?ts x"
      "regions h' = {r \<in> regions h2. \<forall>x\<in>set zs. dead ?ts cur x \<longrightarrow> fst r \<notin> set (blocks_of ?ts x)}"
      by blast
    have "reap_loop ops cur rg p ts h = Some (ts', h')"
      using R(1) pt nt True nr h(1,2) by (subst reap_loop.simps) (simp add: dead_def Let_def)
    moreover have "filter (\<lambda>x. \<not> dead ?ts cur x) zs = filter (\<lambda>x. \<not> dead ts cur x) (n # zs)"
      using dd True by (simp cong: filter_cong)
    moreover have "if x \<in> set (n # zs) \<and> dead ts cur x then ts' x = None else view ts' x = view ts x" for x
      using R(4,5) [rule_format, of x] True dd v [of x] Cons.prems(2) by (cases "x = n") auto
    moreover have "x \<notin> set (p # n # zs) \<longrightarrow> ts' x = ts x" for x using R(5) by auto
    moreover have "regions h' = {r \<in> regions h. \<forall>x\<in>set (n # zs). dead ts cur x \<longrightarrow> fst r \<notin> set (blocks_of ts x)}"
      using R(6) h(4) True dd same by (auto simp: blocks_of_def)
    ultimately show ?thesis using R(2,3) by auto
  next
    case False
    have f: "distinct (rg # n # zs)" "distinct (concat (map (blocks_of ts) zs))"
      "set (concat (map (blocks_of ts) zs)) \<subseteq> fst ` regions h"
      "\<forall>x\<in>set zs. state_of ts x = T_ZOMBIE \<longrightarrow> stack_base (the (ts x)) \<noteq> 0"
      using Cons.prems by auto
    obtain ts' h' where R: "reap_loop ops cur rg n ts h = Some (ts', h')" "inv h'"
      "path ts' n (n # filter (\<lambda>x. \<not> dead ts cur x) zs) rg"
      "\<forall>x. if x \<in> set zs \<and> dead ts cur x then ts' x = None else view ts' x = view ts x"
      "\<forall>x. x \<notin> set (n # zs) \<longrightarrow> ts' x = ts x"
      "regions h' = {r \<in> regions h. \<forall>x\<in>set zs. dead ts cur x \<longrightarrow> fst r \<notin> set (blocks_of ts x)}"
      using Cons.IH [OF rest f(1) Cons.prems(3,4) f(2-4)] by blast
    have "reap_loop ops cur rg p ts h = Some (ts', h')"
      using R(1) pt nt False nr by (subst reap_loop.simps) (auto simp: dead_def Let_def)
    moreover have "ts' p = ts p" using R(5) nr Cons.prems(2) by auto
    ultimately show ?thesis using R False pt by auto
  qed
qed

end

section \<open>The invariant\<close>

text \<open>
  \<open>xs\<close> is the ring from \<open>ring\<close> on. One thread, the idle thread with id 0, can always run; no thread
  but the current one is in state \<open>T\_RUNNING\<close>; every thread and its stack are regions in use, no
  region belongs to two threads.
\<close>

definition sched_inv :: "('h \<Rightarrow> bool) \<Rightarrow> ('h \<Rightarrow> (u64 \<times> nat) set) \<Rightarrow> u64 list \<Rightarrow> 'h sched \<Rightarrow> bool" where
  "sched_inv hinv regions xs s \<longleftrightarrow>
     active s \<and> distinct xs \<and> current s \<in> set xs \<and> 0 \<notin> set xs \<and>
     path (threads s) (ring s) xs (ring s) \<and>
     hinv (sheap s) \<and> distinct (concat (map (blocks_of (threads s)) xs)) \<and>
     set (concat (map (blocks_of (threads s)) xs)) \<subseteq> fst ` regions (sheap s) \<and>
     distinct (map (id_of (threads s)) xs) \<and> 0 \<in> id_of (threads s) ` set xs \<and>
     (\<forall>x\<in>set xs. 0 \<le> id_of (threads s) x \<and> id_of (threads s) x \<le> next_id s \<and>
        (id_of (threads s) x = 0 \<longrightarrow> runnable (the (threads s x))) \<and>
        (id_of (threads s) x \<noteq> 0 \<longrightarrow> stack_base (the (threads s x)) \<noteq> 0) \<and>
        (state_of (threads s) x = T_RUNNING \<longrightarrow> x = current s))"

lemma sched_invD:
  assumes "sched_inv hinv regions xs s"
  shows "active s" "distinct xs" "current s \<in> set xs" "0 \<notin> set xs" "path (threads s) (ring s) xs (ring s)"
    "hinv (sheap s)" "distinct (concat (map (blocks_of (threads s)) xs))"
    "set (concat (map (blocks_of (threads s)) xs)) \<subseteq> fst ` regions (sheap s)"
    "distinct (map (id_of (threads s)) xs)" "0 \<in> id_of (threads s) ` set xs" "xs \<noteq> []"
  using assms by (auto simp: sched_inv_def)

lemma sched_inv_thread:
  assumes "sched_inv hinv regions xs s" "x \<in> set xs"
  shows "0 \<le> id_of (threads s) x" "id_of (threads s) x \<le> next_id s"
    "id_of (threads s) x = 0 \<Longrightarrow> runnable (the (threads s x))"
    "id_of (threads s) x \<noteq> 0 \<Longrightarrow> stack_base (the (threads s x)) \<noteq> 0"
    "state_of (threads s) x = T_RUNNING \<Longrightarrow> x = current s"
    "\<exists>th. threads s x = Some th"
  using assms path_dom [of "threads s" "ring s" xs "ring s" x] by (auto simp: sched_inv_def)

lemma zombie_stack:
  assumes "sched_inv hinv regions xs s" "x \<in> set xs" "state_of (threads s) x = T_ZOMBIE"
  shows "stack_base (the (threads s x)) \<noteq> 0"
proof (cases "id_of (threads s) x = 0")
  case True
  with sched_inv_thread(3) [OF assms(1,2)] assms(3) show ?thesis by (simp add: runnable_def)
qed (rule sched_inv_thread(4) [OF assms(1,2)])

lemma concat_disjoint:
  "distinct (concat (map f xs)) \<Longrightarrow> x \<in> set xs \<Longrightarrow> y \<in> set xs \<Longrightarrow> x \<noteq> y \<Longrightarrow> set (f x) \<inter> set (f y) = {}"
  by (induction xs) auto

lemma concat_filter_distinct:
  "distinct (concat (map f xs)) \<Longrightarrow> distinct (concat (map f (filter P xs)))"
  by (induction xs) auto

text \<open>Waking sleepers keeps the invariant.\<close>

lemma wake_all_fields:
  assumes "ts x \<noteq> None"
  shows "id_of (wake_all now X ts) x = id_of ts x" "stack_base (the (wake_all now X ts x)) = stack_base (the (ts x))"
    "runnable (the (ts x)) \<Longrightarrow> runnable (the (wake_all now X ts x))"
    "state_of (wake_all now X ts) x = T_RUNNING \<longleftrightarrow> state_of ts x = T_RUNNING"
    "state_of (wake_all now X ts) x = T_ZOMBIE \<longleftrightarrow> state_of ts x = T_ZOMBIE"
    "blocks_of (wake_all now X ts) x = blocks_of ts x"
    "t_rsp (the (wake_all now X ts x)) = t_rsp (the (ts x))" "fxsave (the (wake_all now X ts x)) = fxsave (the (ts x))"
  using assms by (auto simp: wake_all_def wake_thread_def runnable_def blocks_of_def split: if_splits)

lemma wake_inv:
  assumes "sched_inv hinv regions xs s"
  shows "sched_inv hinv regions xs (s\<lparr>threads := wake_all now (set xs) (threads s)\<rparr>)"
proof -
  let ?ts = "wake_all now (set xs) (threads s)"
  have some: "threads s x \<noteq> None" if "x \<in> set xs" for x using sched_inv_thread(6) [OF assms that] by auto
  note W = wake_all_fields [where ts = "threads s", OF some]
  have m: "map (blocks_of ?ts) xs = map (blocks_of (threads s)) xs"
    "map (id_of ?ts) xs = map (id_of (threads s)) xs" using W by (simp_all cong: map_cong)
  have i: "id_of ?ts ` set xs = id_of (threads s) ` set xs" using W by (simp cong: image_cong)
  have p: "path ?ts (ring s) xs (ring s) = path (threads s) (ring s) xs (ring s)"
    by (rule path_cong) (rule wake_all_next)
  show ?thesis
    using sched_invD [OF assms] sched_inv_thread [OF assms] W by (simp add: sched_inv_def m i p)
qed

lemma filter_other: "x \<notin> set xs \<Longrightarrow> filter (\<lambda>y. y \<noteq> x) xs = xs"
  by (induction xs) auto

text \<open>The threads one call reaps.\<close>

definition reaped :: "threads \<Rightarrow> u64 \<Rightarrow> u64 list \<Rightarrow> u64 set" where
  "reaped ts cur xs = set xs - set (reap_list ts cur xs)"

lemma reap_list_filter:
  assumes "distinct xs"
  shows "reap_list ts cur xs = filter (\<lambda>x. x \<notin> reaped ts cur xs) xs"
    and "x \<in> reaped ts cur xs \<Longrightarrow> x \<in> set xs \<and> dead ts cur x \<and> x \<noteq> hd xs"
proof -
  have "reap_list ts cur xs = filter (\<lambda>x. x \<notin> reaped ts cur xs) xs \<and>
    (x \<in> reaped ts cur xs \<longrightarrow> x \<in> set xs \<and> dead ts cur x \<and> x \<noteq> hd xs)"
  proof (cases "\<exists>r y zs. xs = r # y # zs")
    case True
    then obtain r y zs where xs: "xs = r # y # zs" by blast
    show ?thesis
    proof (cases "dead ts cur y")
      case True
      then have "reap_list ts cur xs = r # zs" by (simp add: reap_list_def xs)
      moreover from this have "reaped ts cur xs = {y}" using assms by (auto simp: reaped_def xs)
      ultimately show ?thesis using assms True xs by (auto simp: filter_other)
    next
      case False
      then have "reap_list ts cur xs = r # y # filter (\<lambda>x. \<not> dead ts cur x) zs" by (simp add: reap_list_def xs)
      moreover from this have "reaped ts cur xs = {x \<in> set zs. dead ts cur x}" using assms by (auto simp: reaped_def xs)
      ultimately show ?thesis using assms xs by (auto intro!: filter_cong)
    qed
  next
    case False
    then have "reap_list ts cur xs = xs" by (auto simp: reap_list_def split: list.splits)
    then show ?thesis by (simp add: reaped_def)
  qed
  then show "reap_list ts cur xs = filter (\<lambda>x. x \<notin> reaped ts cur xs) xs"
    "x \<in> reaped ts cur xs \<Longrightarrow> x \<in> set xs \<and> dead ts cur x \<and> x \<noteq> hd xs" by blast+
qed

text \<open>A smaller ring over unchanged threads, some of whose regions have been given back.\<close>

lemma sched_inv_filter:
  assumes inv: "sched_inv hinv regions xs s" and ys: "ys = filter P xs"
    and keep: "current s \<in> set ys" "\<And>x. x \<in> set xs \<Longrightarrow> id_of (threads s) x = 0 \<Longrightarrow> P x"
    and p: "path ts (ring s) ys (ring s)" and v: "\<And>x. x \<in> set ys \<Longrightarrow> view ts x = view (threads s) x"
    and h: "hinv h" "regions h = {r \<in> regions (sheap s). \<forall>x\<in>set xs. \<not> P x \<longrightarrow> fst r \<notin> set (blocks_of (threads s) x)}"
  shows "sched_inv hinv regions ys (s\<lparr>threads := ts, sheap := h\<rparr>)"
proof -
  note I = sched_invD [OF inv] and T = sched_inv_thread [OF inv]
  have sub: "x \<in> set xs" if "x \<in> set ys" for x using that ys by auto
  have ne: "threads s x \<noteq> None" if "x \<in> set ys" for x using T(6) [OF sub [OF that]] by auto
  have ne': "ts x \<noteq> None" if "x \<in> set ys" for x using ne [OF that] view_fields(1) [OF v [OF that]] by simp
  note V = view_fields(2-4) [OF v, OF _ ne']
  have b: "map (blocks_of ts) ys = map (blocks_of (threads s)) ys"
    by (rule map_cong [OF refl]) (rule blocks_of_view [OF v ne'])
  have i: "map (id_of ts) ys = map (id_of (threads s)) ys"
    by (rule map_cong [OF refl]) (rule V(2))
  have "set (concat (map (blocks_of ts) ys)) \<subseteq> fst ` regions h"
  proof
    fix q assume "q \<in> set (concat (map (blocks_of ts) ys))"
    then obtain x where x: "x \<in> set ys" "q \<in> set (blocks_of (threads s) x)" unfolding b by auto
    then have "q \<in> set (concat (map (blocks_of (threads s)) xs))" using sub by auto
    with I(8) have "q \<in> fst ` regions (sheap s)" by blast
    then obtain m where "(q, m) \<in> regions (sheap s)" by (metis imageE prod.collapse)
    moreover have "q \<notin> set (blocks_of (threads s) y)" if "y \<in> set xs" "\<not> P y" for y
      using concat_disjoint [OF I(7) sub [OF x(1)] that(1)] x that ys by auto
    ultimately have "(q, m) \<in> regions h" by (simp add: h(2))
    then show "q \<in> fst ` regions h" by (metis fst_conv imageI)
  qed
  moreover have "distinct (concat (map (blocks_of ts) ys))"
    unfolding b unfolding ys by (rule concat_filter_distinct [OF I(7)])
  moreover have "distinct (map (id_of ts) ys)" unfolding i unfolding ys by (rule distinct_map_filter [OF I(9)])
  moreover have "0 \<in> id_of ts ` set ys"
  proof -
    obtain x where x: "x \<in> set xs" "id_of (threads s) x = 0" using I(10) by auto
    with keep(2) have "x \<in> set ys" by (simp add: ys)
    with x(2) V(2) [OF this this] show ?thesis by (metis imageI)
  qed
  moreover have "0 \<le> id_of ts x \<and> id_of ts x \<le> next_id s \<and> (id_of ts x = 0 \<longrightarrow> runnable (the (ts x))) \<and>
      (id_of ts x \<noteq> 0 \<longrightarrow> stack_base (the (ts x)) \<noteq> 0) \<and> (state_of ts x = T_RUNNING \<longrightarrow> x = current s)"
    if "x \<in> set ys" for x
    using T(1-5) [OF sub [OF that]] V [OF that that] by (simp add: runnable_def)
  ultimately show ?thesis using I(1,2,4) keep(1) p h(1) ys by (simp add: sched_inv_def)
qed

context heap_allocator
begin

lemma reap_zombies_inv:
  assumes sinv: "sched_inv inv regions xs s"
  obtains ts h where "reap_zombies ops s = Some (s\<lparr>threads := ts, sheap := h\<rparr>)"
    "sched_inv inv regions (reap_list (threads s) (current s) xs) (s\<lparr>threads := ts, sheap := h\<rparr>)"
    "\<forall>x\<in>set (reap_list (threads s) (current s) xs). view ts x = view (threads s) x"
    "regions h = {r \<in> regions (sheap s). \<forall>x\<in>reaped (threads s) (current s) xs. fst r \<notin> set (blocks_of (threads s) x)}"
proof -
  let ?cur = "current s" and ?ts = "threads s" and ?h = "sheap s" and ?rg = "ring s"
  let ?ys = "reap_list ?ts ?cur xs"
  note I = sched_invD [OF sinv] and T = sched_inv_thread [OF sinv]
  note RF = reap_list_filter [OF I(2), where ts = ?ts and cur = ?cur]
  have dz: "state_of ?ts x = T_ZOMBIE" "x \<noteq> ?cur" "id_of ?ts x \<noteq> 0" if "x \<in> reaped ?ts ?cur xs" for x
    using RF(2) [OF that] T(3) [of x] by (auto simp: dead_def runnable_def)
  note main = that
  have goal: thesis if r: "reap_loop ops ?cur ?rg ?rg ?ts ?h = Some (ts, h)" and i: "inv h"
    and p: "path ts ?rg ?ys ?rg" and v: "\<forall>x\<in>set ?ys. view ts x = view ?ts x"
    and g: "regions h = {r \<in> regions ?h. \<forall>x\<in>reaped ?ts ?cur xs. fst r \<notin> set (blocks_of ?ts x)}" for ts h
  proof (rule main)
    have "?rg \<noteq> 0" using I(4,5,11) by (cases xs) auto
    then show "reap_zombies ops s = Some (s\<lparr>threads := ts, sheap := h\<rparr>)" using r by (simp add: reap_zombies_def)
    have "set xs \<inter> {x. x \<in> reaped ?ts ?cur xs} = reaped ?ts ?cur xs" using RF(2) by blast
    then have g': "regions h = {r \<in> regions ?h. \<forall>x\<in>set xs. \<not> x \<notin> reaped ?ts ?cur xs \<longrightarrow> fst r \<notin> set (blocks_of ?ts x)}"
      unfolding g by blast
    show "sched_inv inv regions ?ys (s\<lparr>threads := ts, sheap := h\<rparr>)"
      by (rule sched_inv_filter [OF sinv RF(1) _ _ p _ i g']) (use I(3) dz v RF(1) in auto)
  qed (use v g in auto)
  show thesis
  proof (cases xs)
    case Nil
    then show ?thesis using I(11) by simp
  next
    case (Cons r ws)
    then obtain rt where rt: "r = ?rg" "?ts ?rg = Some rt" "path ?ts (t_next rt) ws ?rg"
      using I(5) by (auto split: option.splits)
    show ?thesis
    proof (cases ws)
      case Nil
      have "reap_loop ops ?cur ?rg ?rg ?ts ?h = Some (?ts, ?h)"
        using rt Nil by (subst reap_loop.simps) auto
      moreover have ys: "?ys = xs" by (simp add: reap_list_def Cons Nil)
      moreover have "reaped ?ts ?cur xs = {}" unfolding reaped_def ys by simp
      ultimately show ?thesis using goal [of ?ts ?h] I(5,6) by simp
    next
      case (Cons y zs)
      note xs = \<open>xs = r # ws\<close> Cons
      then obtain yt where yt: "t_next rt = y" "?ts y = Some yt" "path ?ts y (y # zs) ?rg"
        using rt by (auto split: option.splits)
      have yr: "y \<noteq> ?rg" using I(2) xs rt by auto
      show ?thesis
      proof (cases "dead ?ts ?cur y")
        case True
        let ?ts' = "(?ts(?rg \<mapsto> rt\<lparr>t_next := t_next yt\<rparr>))(y := None)"
        have ys: "?ys = r # zs" using True xs by (simp add: reap_list_def)
        have rp: "reaped ?ts ?cur xs = {y}" unfolding reaped_def ys using I(2) xs by auto
        have yz: "state_of ?ts y = T_ZOMBIE" using True by (simp add: dead_def)
        have yx: "y \<in> set xs" using xs by simp
        have db: "distinct (blocks_of ?ts y)" "set (blocks_of ?ts y) \<subseteq> fst ` regions ?h"
          using I(7,8) xs by auto
        obtain h1 h2 where h: "heap_free ops (stack_base (the (?ts y))) ?h = Some h1" "heap_free ops y h1 = Some h2"
          "inv h2" "regions h2 = {r \<in> regions ?h. fst r \<notin> set (blocks_of ?ts y)}"
          by (rule free_thread [OF I(6) db zombie_stack [OF sinv yx yz]])
        have "reap_loop ops ?cur ?rg ?rg ?ts ?h = Some (?ts', h2)"
          using rt yt yr True h(1,2) by (subst reap_loop.simps) (simp add: dead_def Let_def)
        moreover have "path ?ts' ?rg (?rg # zs) ?rg"
          by (rule unlink_path [OF _ _ rt(2) yt(2)]) (use I(2,5) xs rt in auto)
        moreover have "\<forall>x\<in>set ?ys. view ?ts' x = view ?ts x"
          using ys xs I(2) rt by (auto simp: view_def)
        ultimately show ?thesis using goal [of ?ts' h2] h(3,4) rp ys rt by simp
      next
        case False
        have f: "distinct (?rg # y # zs)" "distinct (concat (map (blocks_of ?ts) zs))"
          "set (concat (map (blocks_of ?ts) zs)) \<subseteq> fst ` regions ?h"
          using I(2,7,8) xs rt by auto
        have z: "\<forall>x\<in>set zs. state_of ?ts x = T_ZOMBIE \<longrightarrow> stack_base (the (?ts x)) \<noteq> 0"
          using zombie_stack [OF sinv] xs by auto
        have rne: "?ts ?rg \<noteq> None" using rt(2) by simp
        obtain ts' h' where R: "reap_loop ops ?cur ?rg y ?ts ?h = Some (ts', h')" "inv h'"
          "path ts' y (y # filter (\<lambda>x. \<not> dead ?ts ?cur x) zs) ?rg"
          "\<forall>x. if x \<in> set zs \<and> dead ?ts ?cur x then ts' x = None else view ts' x = view ?ts x"
          "\<forall>x. x \<notin> set (y # zs) \<longrightarrow> ts' x = ?ts x"
          "regions h' = {r \<in> regions ?h. \<forall>x\<in>set zs. dead ?ts ?cur x \<longrightarrow> fst r \<notin> set (blocks_of ?ts x)}"
          using reap_loop_tail [OF yt(3) f(1) rne I(6) f(2,3) z, of ?cur] by blast
        have ys: "?ys = r # y # filter (\<lambda>x. \<not> dead ?ts ?cur x) zs" using False xs by (simp add: reap_list_def)
        have rp: "reaped ?ts ?cur xs = {x \<in> set zs. dead ?ts ?cur x}" unfolding reaped_def ys using I(2) xs by auto
        have "reap_loop ops ?cur ?rg ?rg ?ts ?h = Some (ts', h')"
          using rt yt yr False R(1) by (subst reap_loop.simps) (auto simp: dead_def Let_def)
        moreover have "ts' ?rg = Some rt" using R(5) rt f(1) by auto
        then have "path ts' ?rg ?ys ?rg" using R(3) yt(1) rt(1) unfolding ys by simp
        moreover have "\<forall>x\<in>set ?ys. view ts' x = view ?ts x"
          using R(4) ys f(1) rt(1) False by auto
        moreover have "regions h' = {r \<in> regions ?h. \<forall>x\<in>reaped ?ts ?cur xs. fst r \<notin> set (blocks_of ?ts x)}"
          unfolding rp using R(6) by auto
        ultimately show ?thesis using goal [of ts' h'] R(2) by blast
      qed
    qed
  qed
qed

end

section \<open>The choice of the next thread\<close>

text \<open>The threads in the order they are asked: from the one behind the current one round to it.\<close>

definition order :: "u64 \<Rightarrow> u64 list \<Rightarrow> u64 list" where
  "order cur xs = tl (dropWhile (\<lambda>x. x \<noteq> cur) xs) @ takeWhile (\<lambda>x. x \<noteq> cur) xs @ [cur]"

definition choose_next :: "threads \<Rightarrow> u64 list \<Rightarrow> u64" where
  "choose_next ts ord =
     (case find (\<lambda>x. runnable (the (ts x)) \<and> id_of ts x \<noteq> 0) ord of
        Some n \<Rightarrow> n
      | None \<Rightarrow> the (find (\<lambda>x. runnable (the (ts x))) ord))"

lemma order_split:
  assumes "cur \<in> set xs" "distinct xs"
  obtains us vs where "xs = us @ cur # vs" "order cur xs = vs @ us @ [cur]"
proof -
  obtain us vs where x: "xs = us @ cur # vs" "cur \<notin> set us" "takeWhile (\<lambda>x. x \<noteq> cur) xs = us"
    by (rule split_at_first [OF assms(1)])
  moreover have "\<forall>x\<in>set us. x \<noteq> cur" using x(2) by blast
  then have "dropWhile (\<lambda>x. x \<noteq> cur) xs = cur # vs" unfolding x(1) by (subst dropWhile_append2) auto
  ultimately show ?thesis using that by (simp add: order_def)
qed

lemma order_set: "cur \<in> set xs \<Longrightarrow> distinct xs \<Longrightarrow> set (order cur xs) = set xs"
  by (rule order_split) auto

lemma order_path:
  assumes "path ts a xs a" "cur \<in> set xs" "distinct xs" "ts cur = Some ct"
  shows "\<exists>us. order cur xs = us @ [cur] \<and> cur \<notin> set us \<and> path ts (t_next ct) (us @ [cur]) (t_next ct)"
proof -
  obtain us vs where x: "xs = us @ cur # vs" "order cur xs = vs @ us @ [cur]"
    by (rule order_split [OF assms(2,3)])
  have "path ts cur ((cur # vs) @ us) cur" using path_rotate [of ts a us "cur # vs"] assms(1) x by simp
  then have "path ts (t_next ct) (vs @ us) cur" using assms(4) by simp
  then have "path ts (t_next ct) ((vs @ us) @ [cur]) (t_next ct)"
    using assms(4) unfolding path_append by auto
  then show ?thesis using x assms(3) by (intro exI [of _ "vs @ us"]) auto
qed

text \<open>Changing states, contexts and the current thread, but no link, id or stack.\<close>

lemma sched_inv_update:
  assumes inv: "sched_inv hinv regions xs s" and c: "c \<in> set xs"
    and ts: "\<And>x. x \<in> set xs \<Longrightarrow> map_option t_next (ts x) = map_option t_next (threads s x)"
    "\<And>x. x \<in> set xs \<Longrightarrow> id_of ts x = id_of (threads s) x"
    "\<And>x. x \<in> set xs \<Longrightarrow> stack_base (the (ts x)) = stack_base (the (threads s x))"
    and st: "\<And>x. x \<in> set xs \<Longrightarrow> id_of (threads s) x = 0 \<Longrightarrow> runnable (the (ts x))"
    "\<And>x. x \<in> set xs \<Longrightarrow> state_of ts x = T_RUNNING \<Longrightarrow> x = c"
  shows "sched_inv hinv regions xs (s\<lparr>threads := ts, current := c, fpu := f, slice_start := sl\<rparr>)"
proof -
  have m: "map (blocks_of ts) xs = map (blocks_of (threads s)) xs"
    "map (id_of ts) xs = map (id_of (threads s)) xs" using ts by (simp_all add: blocks_of_def cong: map_cong)
  have i: "id_of ts ` set xs = id_of (threads s) ` set xs" using ts by (simp cong: image_cong)
  have p: "path ts (ring s) xs (ring s) = path (threads s) (ring s) xs (ring s)"
    by (rule path_cong) (rule ts(1))
  have "distinct (concat (map (blocks_of ts) xs))" "set (concat (map (blocks_of ts) xs)) \<subseteq> fst ` regions (sheap s)"
    "distinct (map (id_of ts) xs)" "0 \<in> id_of ts ` set xs" "path ts (ring s) xs (ring s)"
    unfolding m i p by (rule sched_invD [OF inv])+
  moreover have "0 \<le> id_of ts x \<and> id_of ts x \<le> next_id s \<and> (id_of ts x = 0 \<longrightarrow> runnable (the (ts x))) \<and>
      (id_of ts x \<noteq> 0 \<longrightarrow> stack_base (the (ts x)) \<noteq> 0) \<and> (state_of ts x = T_RUNNING \<longrightarrow> x = c)"
    if x: "x \<in> set xs" for x
    using sched_inv_thread [OF inv x] ts(2,3) [OF x] st [OF x] by simp
  ultimately show ?thesis
    using sched_invD(1,2,4,6) [OF inv] c by (simp add: sched_inv_def)
qed

text \<open>What \<open>sched\_preempt\<close> does to the contexts.\<close>

definition preempt_outcome :: "u64 \<Rightarrow> u64 \<Rightarrow> u64 list \<Rightarrow> 'h sched \<Rightarrow> u64 \<Rightarrow> 'h sched \<Rightarrow> bool" where
  "preempt_outcome now rsp xs s r s' \<longleftrightarrow>
     (let ts = wake_all now (set xs) (threads s); cur = current s; ys = reap_list ts cur xs;
          n = choose_next ts (order cur ys)
      in current s' = n \<and> n \<in> set ys \<and> runnable (the (ts n)) \<and>
         r = (if n = cur then rsp else t_rsp (the (threads s n))) \<and>
         fpu s' = (if n = cur then fpu s else fxsave (the (threads s n))) \<and>
         (\<forall>x\<in>set ys.
            t_rsp (the (threads s' x)) = (if x = cur \<and> n \<noteq> cur then rsp else t_rsp (the (threads s x))) \<and>
            fxsave (the (threads s' x)) = (if x = cur \<and> n \<noteq> cur then fpu s else fxsave (the (threads s x))) \<and>
            id_of (threads s') x = id_of (threads s) x \<and>
            state_of (threads s') x =
              (if n = cur then state_of ts x
               else if x = n then T_RUNNING
               else if x = cur \<and> state_of ts x = T_RUNNING then T_READY
               else state_of ts x)))"

lemma find_SomeD: "find P xs = Some x \<Longrightarrow> x \<in> set xs \<and> P x"
  by (auto simp: find_Some_iff)

lemma choose_find:
  assumes "x \<in> set ord" "runnable (the (ts x))"
  shows "(case find (\<lambda>x. runnable (the (ts x)) \<and> id_of ts x \<noteq> 0) ord of Some n \<Rightarrow> Some n
      | None \<Rightarrow> find (\<lambda>x. runnable (the (ts x))) ord) = Some (choose_next ts ord)"
    and "choose_next ts ord \<in> set ord" "runnable (the (ts (choose_next ts ord)))"
proof -
  have "find (\<lambda>x. runnable (the (ts x))) ord \<noteq> None" using assms by (auto simp: find_None_iff)
  then obtain m where m: "find (\<lambda>x. runnable (the (ts x))) ord = Some m" by blast
  then show "(case find (\<lambda>x. runnable (the (ts x)) \<and> id_of ts x \<noteq> 0) ord of Some n \<Rightarrow> Some n
      | None \<Rightarrow> find (\<lambda>x. runnable (the (ts x))) ord) = Some (choose_next ts ord)"
    by (auto simp: choose_next_def split: option.splits)
  show "choose_next ts ord \<in> set ord" "runnable (the (ts (choose_next ts ord)))"
    using m find_SomeD by (fastforce simp: choose_next_def split: option.splits)+
qed

lemma find_cong: "(\<And>x. x \<in> set xs \<Longrightarrow> P x = Q x) \<Longrightarrow> find P xs = find Q xs"
  by (induction xs) auto

lemma choose_cong:
  assumes "\<And>x. x \<in> set ord \<Longrightarrow> runnable (the (ts x)) = runnable (the (ts' x)) \<and> id_of ts x = id_of ts' x"
  shows "choose_next ts ord = choose_next ts' ord"
proof -
  have "find (\<lambda>x. runnable (the (ts x)) \<and> id_of ts x \<noteq> 0) ord =
      find (\<lambda>x. runnable (the (ts' x)) \<and> id_of ts' x \<noteq> 0) ord"
    "find (\<lambda>x. runnable (the (ts x))) ord = find (\<lambda>x. runnable (the (ts' x))) ord"
    by (rule find_cong; use assms in simp)+
  then show ?thesis by (simp add: choose_next_def split: option.split)
qed

context heap_allocator
begin

lemma preempt_lemma:
  assumes sinv: "sched_inv inv regions xs s"
  obtains r s' where "sched_preempt ops now rsp s = Some (r, s')" "preempt_outcome now rsp xs s r s'"
    "sched_inv inv regions (reap_list (wake_all now (set xs) (threads s)) (current s) xs) s'"
    "regions (sheap s') = {q \<in> regions (sheap s). \<forall>x\<in>reaped (wake_all now (set xs) (threads s)) (current s) xs.
       fst q \<notin> set (blocks_of (threads s) x)}"
proof -
  define tw where "tw = wake_all now (set xs) (threads s)"
  define cur where "cur = current s"
  define ys where "ys = reap_list tw cur xs"
  note I = sched_invD [OF sinv] and T = sched_inv_thread [OF sinv]
  have some: "threads s x \<noteq> None" if "x \<in> set xs" for x using T(6) [OF that] by auto
  note W = wake_all_fields [where ts = "threads s", OF some]
  have wake: "wake_loop cur now cur (threads s) = Some tw"
  proof -
    obtain us vs where x: "xs = us @ cur # vs" "order cur xs = vs @ us @ [cur]"
      using order_split [OF I(3,2)] cur_def by metis
    have "path (threads s) cur ((cur # vs) @ us) cur"
      using path_rotate [of "threads s" "ring s" us "cur # vs"] I(5) x by simp
    then have "wake_loop cur now cur (threads s) = Some (wake_all now (set ((cur # vs) @ us)) (threads s))"
      by (rule wake_loop_all) (use I(2) x in auto)
    moreover have "set ((cur # vs) @ us) = set xs" using x by auto
    ultimately show ?thesis unfolding tw_def by simp
  qed
  have winv: "sched_inv inv regions xs (s\<lparr>threads := tw\<rparr>)" unfolding tw_def by (rule wake_inv [OF sinv])
  obtain ts h where R: "reap_zombies ops (s\<lparr>threads := tw\<rparr>) = Some (s\<lparr>threads := ts, sheap := h\<rparr>)"
    "sched_inv inv regions ys (s\<lparr>threads := ts, sheap := h\<rparr>)" "\<forall>x\<in>set ys. view ts x = view tw x"
    "regions h = {q \<in> regions (sheap s). \<forall>x\<in>reaped tw cur xs. fst q \<notin> set (blocks_of tw x)}"
    by (rule reap_zombies_inv [OF winv]) (simp_all add: ys_def cur_def)
  define s1 where "s1 = s\<lparr>threads := ts, sheap := h\<rparr>"
  have inv1: "sched_inv inv regions ys s1" using R(2) by (simp add: s1_def)
  note I1 = sched_invD [OF inv1] and T1 = sched_inv_thread [OF inv1]
  have c1: "current s1 = cur" "threads s1 = ts" by (simp_all add: s1_def cur_def)
  have sub: "x \<in> set xs" if "x \<in> set ys" for x using that reap_list_subset [of tw cur xs] by (auto simp: ys_def)
  have ne: "tw x \<noteq> None" "ts x \<noteq> None" if "x \<in> set ys" for x
  proof -
    show "tw x \<noteq> None" using some [OF sub [OF that]] by (auto simp: tw_def wake_all_def)
    then show "ts x \<noteq> None" using view_fields(1) R(3) that by metis
  qed
  have V: "state_of ts x = state_of tw x" "id_of ts x = id_of (threads s) x" "t_rsp (the (ts x)) = t_rsp (the (threads s x))"
    "fxsave (the (ts x)) = fxsave (the (threads s x))" "stack_base (the (ts x)) = stack_base (the (threads s x))"
    if "x \<in> set ys" for x
    using view_fields [OF R(3) [rule_format, OF that]] ne [OF that] W [OF sub [OF that], of now "set xs", folded tw_def]
    by simp_all
  have rb: "blocks_of tw x = blocks_of (threads s) x" if "x \<in> reaped tw cur xs" for x
    using W(6) [of x now "set xs", folded tw_def] that by (simp add: reaped_def)
  obtain ct where ct: "ts cur = Some ct" using T1(6) [OF I1(3)] c1 by auto
  obtain us where us: "order cur ys = us @ [cur]" "cur \<notin> set us" "path ts (t_next ct) (us @ [cur]) (t_next ct)"
    using order_path [OF I1(5) I1(3) I1(2)] c1 ct by auto
  define n where "n = choose_next tw (order cur ys)"
  have cy: "cur \<in> set ys" using I1(3) c1 by simp
  have os: "set (order cur ys) = set ys" using order_set [OF cy I1(2)] .
  have n: "n = choose_next ts (order cur ys)"
    unfolding n_def by (rule choose_cong) (use V os W sub in \<open>simp add: runnable_def tw_def\<close>)
  obtain z where z: "z \<in> set ys" "id_of ts z = 0" using I1(10) c1 by auto
  have zr: "runnable (the (ts z))" using T1(3) [OF z(1)] z(2) c1 by simp
  note C = choose_find [where ts = ts and ord = "order cur ys" and x = z, unfolded os, OF z(1) zr, folded n]
  have pick: "pick_loop ok cur (t_next ct) ts = Some (find (\<lambda>x. ok (the (ts x))) (order cur ys))" for ok
    unfolding us(1) by (rule pick_loop_find [OF us(3,2)])
  obtain n1 where n1: "find (\<lambda>x. runnable (the (ts x)) \<and> id_of ts x \<noteq> 0) (order cur ys) = n1" by blast
  have nn: "(case n1 of None \<Rightarrow> Some (find (\<lambda>x. runnable (the (ts x))) (order cur ys))
      | Some n \<Rightarrow> Some (Some n)) = Some (Some n)"
    using C(1) n1 by (cases n1) auto
  have cz: "cur \<noteq> 0" using I(3,4) cur_def by metis
  have act: "active s" by (rule I(1))
  have run: "sched_preempt ops now rsp s =
      (if n = cur then Some (rsp, s1)
       else let ct' = ct\<lparr>t_rsp := rsp, fxsave := fpu s,
                     t_state := (if t_state ct = T_RUNNING then T_READY else t_state ct)\<rparr>;
                ts' = ts(cur \<mapsto> ct')
            in ts' n \<bind> (\<lambda>nt. Some (t_rsp nt,
                 s1\<lparr>threads := ts'(n \<mapsto> nt\<lparr>t_state := T_RUNNING\<rparr>), current := n,
                    fpu := fxsave nt, slice_start := now\<rparr>)))"
    using act cz wake R(1) ct pick n1 nn
    by (cases n1) (simp_all add: sched_preempt_def cur_def [symmetric] s1_def Let_def del: fun_upd_apply)
  have no: "n \<in> set ys" "runnable (the (ts n))" using C(2,3) os by simp_all
  then have nr: "runnable (the (tw n))" using V [OF no(1)] by (simp add: runnable_def)
  have regs: "regions h = {q \<in> regions (sheap s). \<forall>x\<in>reaped tw cur xs. fst q \<notin> set (blocks_of (threads s) x)}"
    unfolding R(4) using rb by auto
  note main = that
  show thesis
  proof (cases "n = cur")
    case True
    have "sched_preempt ops now rsp s = Some (rsp, s1)" using run True by simp
    moreover have "preempt_outcome now rsp xs s rsp s1"
      using True no V nr n_def c1
      by (simp add: preempt_outcome_def Let_def tw_def [symmetric] cur_def [symmetric] ys_def [symmetric] s1_def)
    moreover have "sheap s1 = h" by (simp add: s1_def)
    ultimately show ?thesis using main inv1 regs unfolding tw_def ys_def cur_def by blast
  next
    case False
    obtain nt where nt: "ts n = Some nt" using ne [OF no(1)] by auto
    define ct' where "ct' = ct\<lparr>t_rsp := rsp, fxsave := fpu s,
      t_state := (if t_state ct = T_RUNNING then T_READY else t_state ct)\<rparr>"
    define ts2 where "ts2 = ts(cur \<mapsto> ct', n \<mapsto> nt\<lparr>t_state := T_RUNNING\<rparr>)"
    define s2 where "s2 = s1\<lparr>threads := ts2, current := n, fpu := fxsave nt, slice_start := now\<rparr>"
    have r2: "sched_preempt ops now rsp s = Some (t_rsp nt, s2)"
      using run False nt by (simp add: Let_def ts2_def s2_def ct'_def)
    have i2: "sched_inv inv regions ys s2"
      unfolding s2_def
    proof (rule sched_inv_update [OF inv1 no(1)], unfold c1)
      fix x assume x: "x \<in> set ys"
      show "map_option t_next (ts2 x) = map_option t_next (ts x)" "id_of ts2 x = id_of ts x"
        "stack_base (the (ts2 x)) = stack_base (the (ts x))"
        using ct nt by (auto simp: ts2_def ct'_def)
      show "id_of ts x = 0 \<Longrightarrow> runnable (the (ts2 x))"
        using T1(3) [OF x] c1 ct nt by (auto simp: ts2_def ct'_def runnable_def)
      show "state_of ts2 x = T_RUNNING \<Longrightarrow> x = n"
        using T1(5) [OF x] c1 ct nt by (auto simp: ts2_def ct'_def split: if_splits)
    qed
    have o2: "preempt_outcome now rsp xs s (t_rsp nt) s2"
      unfolding preempt_outcome_def Let_def tw_def [symmetric] cur_def [symmetric] ys_def [symmetric] n_def [symmetric]
    proof (intro conjI ballI)
      fix x assume x: "x \<in> set ys"
      show "t_rsp (the (threads s2 x)) = (if x = cur \<and> n \<noteq> cur then rsp else t_rsp (the (threads s x)))"
        "fxsave (the (threads s2 x)) = (if x = cur \<and> n \<noteq> cur then fpu s else fxsave (the (threads s x)))"
        "id_of (threads s2) x = id_of (threads s) x"
        "state_of (threads s2) x = (if n = cur then state_of tw x else if x = n then T_RUNNING
           else if x = cur \<and> state_of tw x = T_RUNNING then T_READY else state_of tw x)"
        using V [OF x] ct nt False by (auto simp: s2_def ts2_def ct'_def)
    qed (use no nr V [OF no(1)] nt False in \<open>auto simp: s2_def\<close>)
    have "sheap s2 = h" by (simp add: s2_def s1_def)
    then show ?thesis using main r2 i2 o2 regs unfolding tw_def ys_def cur_def by blast
  qed
qed

end

section \<open>Creation and start\<close>

text \<open>The part of the invariant that already holds before the scheduler is started.\<close>

definition ring_inv :: "('h \<Rightarrow> bool) \<Rightarrow> ('h \<Rightarrow> (u64 \<times> nat) set) \<Rightarrow> u64 list \<Rightarrow> 'h sched \<Rightarrow> bool" where
  "ring_inv hinv regions xs s \<longleftrightarrow>
     distinct xs \<and> 0 \<notin> set xs \<and>
     (if xs = [] then ring s = 0 else path (threads s) (ring s) xs (ring s)) \<and>
     hinv (sheap s) \<and> distinct (concat (map (blocks_of (threads s)) xs)) \<and>
     set (concat (map (blocks_of (threads s)) xs)) \<subseteq> fst ` regions (sheap s) \<and>
     distinct (map (id_of (threads s)) xs) \<and> 0 \<le> next_id s \<and>
     (\<forall>x\<in>set xs. 0 \<le> id_of (threads s) x \<and> id_of (threads s) x \<le> next_id s \<and>
        (id_of (threads s) x \<noteq> 0 \<longrightarrow> stack_base (the (threads s x)) \<noteq> 0))"

lemma ring_invD:
  assumes "ring_inv hinv regions xs s"
  shows "distinct xs" "0 \<notin> set xs" "xs = [] \<Longrightarrow> ring s = 0"
    "xs \<noteq> [] \<Longrightarrow> path (threads s) (ring s) xs (ring s)"
    "hinv (sheap s)" "distinct (concat (map (blocks_of (threads s)) xs))"
    "set (concat (map (blocks_of (threads s)) xs)) \<subseteq> fst ` regions (sheap s)"
    "distinct (map (id_of (threads s)) xs)" "0 \<le> next_id s"
    "x \<in> set xs \<Longrightarrow> 0 \<le> id_of (threads s) x \<and> id_of (threads s) x \<le> next_id s \<and>
        (id_of (threads s) x \<noteq> 0 \<longrightarrow> stack_base (the (threads s x)) \<noteq> 0)"
  using assms unfolding ring_inv_def by (simp_all split: if_splits del: set_concat)

lemma sched_inv_ringD:
  assumes "sched_inv hinv regions xs s"
  shows "ring_inv hinv regions xs s"
proof -
  have "0 \<le> next_id s" using sched_inv_thread(1,2) [OF assms sched_invD(3) [OF assms]] by simp
  then show ?thesis
    using sched_invD [OF assms] sched_inv_thread(1,2,4) [OF assms]
    unfolding ring_inv_def by (simp del: set_concat)
qed

lemma sched_invI:
  assumes "ring_inv hinv regions xs s" "active s" "current s \<in> set xs" "0 \<in> id_of (threads s) ` set xs"
    "\<And>x. x \<in> set xs \<Longrightarrow> id_of (threads s) x = 0 \<Longrightarrow> runnable (the (threads s x))"
    "\<And>x. x \<in> set xs \<Longrightarrow> state_of (threads s) x = T_RUNNING \<Longrightarrow> x = current s"
  shows "sched_inv hinv regions xs s"
proof -
  have "xs \<noteq> []" using assms(3) by auto
  then show ?thesis
    using ring_invD(1,2,5-8) [OF assms(1)] ring_invD(4,10) [OF assms(1)] assms(2-6)
    unfolding sched_inv_def by (simp del: set_concat)
qed

definition insert_second :: "'a \<Rightarrow> 'a list \<Rightarrow> 'a list" where
  "insert_second t xs = (case xs of [] \<Rightarrow> [t] | r # ws \<Rightarrow> r # t # ws)"

lemma insert_second_set [simp]: "set (insert_second t xs) = insert t (set xs)"
  by (auto simp: insert_second_def split: list.splits)

lemma insert_second_distinct: "distinct (insert_second t xs) \<longleftrightarrow> t \<notin> set xs \<and> distinct xs"
  by (auto simp: insert_second_def split: list.splits)

lemma insert_second_map: "map f (insert_second t xs) = insert_second (f t) (map f xs)"
  by (simp add: insert_second_def split: list.splits)

lemma insert_second_concat:
  "distinct (concat (insert_second b bs)) \<longleftrightarrow> distinct b \<and> distinct (concat bs) \<and> set b \<inter> set (concat bs) = {}"
  by (auto simp: insert_second_def split: list.splits)

text \<open>
  \<open>ring\_insert\<close> puts the thread behind the first; all other threads stay as they are but for a link.
\<close>

lemma ring_insert_inv:
  assumes ri: "ring_inv hinv regions xs s" and t: "t \<noteq> 0" "t \<notin> set xs"
    and b: "distinct (if stack_base th = 0 then [t] else [stack_base th, t])"
      "set (if stack_base th = 0 then [t] else [stack_base th, t]) \<subseteq> fst ` regions (sheap s)"
      "set (if stack_base th = 0 then [t] else [stack_base th, t]) \<inter> set (concat (map (blocks_of (threads s)) xs)) = {}"
    and i: "t_id th \<notin> id_of (threads s) ` set xs" "0 \<le> t_id th" "t_id th \<le> next_id s"
      "t_id th \<noteq> 0 \<Longrightarrow> stack_base th \<noteq> 0"
  obtains s' where "ring_insert t th s = Some s'" "ring_inv hinv regions (insert_second t xs) s'"
    "view (threads s') t = Some (th\<lparr>t_next := 0\<rparr>)"
    "\<And>x. x \<noteq> t \<Longrightarrow> view (threads s') x = view (threads s) x"
    "\<exists>ts rg. s' = s\<lparr>threads := ts, ring := rg\<rparr>" "xs \<noteq> [] \<Longrightarrow> ring s' = ring s"
proof -
  let ?new = "insert_second t xs"
  obtain s' ts rg where s': "ring_insert t th s = Some s'" "s' = s\<lparr>threads := ts, ring := rg\<rparr>"
    and vt: "view ts t = Some (th\<lparr>t_next := 0\<rparr>)" and v: "\<And>x. x \<noteq> t \<Longrightarrow> view ts x = view (threads s) x"
    and p: "path ts rg ?new rg" and rr: "xs \<noteq> [] \<Longrightarrow> rg = ring s"
  proof (cases xs)
    case Nil
    then have "ring s = 0" using ring_invD(3) [OF ri] by simp
    then have "ring_insert t th s = Some (s\<lparr>threads := (threads s)(t \<mapsto> th\<lparr>t_next := t\<rparr>), ring := t\<rparr>)"
      by (simp add: ring_insert_def)
    then show thesis by (rule that [OF _ refl]) (auto simp: view_def Nil insert_second_def)
  next
    case (Cons r ws)
    have pr: "path (threads s) (ring s) (r # ws) (ring s)"
      by (rule ring_invD(4) [OF ri, unfolded Cons]) simp
    then obtain rt where rt: "r = ring s" "threads s (ring s) = Some rt" "path (threads s) (t_next rt) ws (ring s)"
      by (auto split: option.splits)
    have r0: "ring s \<noteq> 0" using ring_invD(2) [OF ri] Cons rt(1) by auto
    have tr: "t \<noteq> ring s" using t Cons rt by auto
    let ?ts = "(threads s)(t \<mapsto> th\<lparr>t_next := t_next rt\<rparr>, ring s \<mapsto> rt\<lparr>t_next := t\<rparr>)"
    have ws: "path ?ts (t_next rt) ws (ring s) = path (threads s) (t_next rt) ws (ring s)"
      by (rule path_cong) (use t Cons ring_invD(1) [OF ri] rt in auto)
    have "ring_insert t th s = Some (s\<lparr>threads := ?ts, ring := ring s\<rparr>)"
      using r0 rt by (simp add: ring_insert_def)
    then show thesis
      by (rule that [OF _ refl]) (use rt tr ws Cons in \<open>auto simp: view_def insert_second_def\<close>)
  qed
  have T: "threads s x \<noteq> None" if "x \<in> set xs" for x
    using ring_invD(4) [OF ri] that path_dom [of "threads s" "ring s" xs "ring s" x] by fastforce
  have xt: "x \<noteq> t" if "x \<in> set xs" for x using that t by auto
  have ne: "ts x \<noteq> None" if "x \<in> set xs" for x using T [OF that] view_fields(1) [OF v [OF xt [OF that]]] by simp
  have f: "id_of ts x = id_of (threads s) x" "stack_base (the (ts x)) = stack_base (the (threads s x))"
    if "x \<in> set xs" for x
    using view_fields(3,4) [OF v [OF xt [OF that]] ne [OF that]] by simp_all
  obtain tt where tt: "ts t = Some tt" "stack_base tt = stack_base th" "t_id tt = t_id th"
    by (rule view_SomeE [OF vt])
  have bt: "blocks_of ts t = (if stack_base th = 0 then [t] else [stack_base th, t])"
    using tt by (simp add: blocks_of_def)
  have m: "map (blocks_of ts) xs = map (blocks_of (threads s)) xs" "map (id_of ts) xs = map (id_of (threads s)) xs"
    using f by (simp_all add: blocks_of_def cong: map_cong)
  have d: "distinct (concat (map (blocks_of ts) ?new))"
    unfolding insert_second_map insert_second_concat m bt using ring_invD(6) [OF ri] b(1,3) by blast
  have "set (concat (map (blocks_of ts) ?new)) = set (blocks_of ts t) \<union> set (concat (map (blocks_of ts) xs))" by simp
  then have su: "set (concat (map (blocks_of ts) ?new)) \<subseteq> fst ` regions (sheap s)"
    unfolding m bt using b(2) ring_invD(7) [OF ri] by blast
  have di: "distinct (map (id_of ts) ?new)"
    unfolding insert_second_map insert_second_distinct m using ring_invD(8) [OF ri] i(1) tt by simp
  have th: "0 \<le> id_of ts x \<and> id_of ts x \<le> next_id s \<and> (id_of ts x \<noteq> 0 \<longrightarrow> stack_base (the (ts x)) \<noteq> 0)"
    if "x \<in> set ?new" for x
    using that ring_invD(10) [OF ri, of x] f [of x] tt i by (cases "x = t") auto
  have "?new \<noteq> []" by (simp add: insert_second_def split: list.splits)
  then have "ring_inv hinv regions ?new s'"
    unfolding ring_inv_def s'(2) using t p d su di th insert_second_distinct [of t xs] ring_invD(1,2,5,9) [OF ri]
    by (simp del: set_concat)
  then show thesis using that s' vt v rr by auto
qed

text \<open>Pushing words: the last one pushed is at the final stack pointer.\<close>

lemma push_fold:
  assumes "8 * length ws < 2 ^ 64"
  shows "fst (fold push_word ws (tp, m)) = tp - of_nat (8 * length ws)"
    and "i < length ws \<Longrightarrow> snd (fold push_word ws (tp, m)) (tp - of_nat (8 * Suc i)) = ws ! i"
proof -
  have "fst (fold push_word ws (tp, m)) = tp - of_nat (8 * length ws) \<and>
    (\<forall>i<length ws. snd (fold push_word ws (tp, m)) (tp - of_nat (8 * Suc i)) = ws ! i)"
    using assms
  proof (induction ws rule: rev_induct)
    case (snoc w ws)
    obtain sp m' where f: "fold push_word ws (tp, m) = (sp, m')" by force
    with snoc have sp: "sp = tp - of_nat (8 * length ws)"
      and IH: "\<forall>i<length ws. m' (tp - of_nat (8 * Suc i)) = ws ! i" by auto
    have e: "sp - 8 = tp - of_nat (8 * Suc (length ws))" by (simp add: sp algebra_simps)
    have "tp - of_nat (8 * Suc i) \<noteq> tp - of_nat (8 * Suc (length ws))" if "i < length ws" for i
      using addr_neq [of "8 * Suc i" "8 * Suc (length ws)"] that snoc.prems by (simp del: of_nat_mult of_nat_Suc)
    moreover have "fold push_word (ws @ [w]) (tp, m) = (sp - 8, m'(sp - 8 := w))"
      using f by (simp add: push_word_def [of w])
    ultimately show ?case using e IH by (simp add: nth_append less_Suc_eq del: of_nat_mult of_nat_Suc mult_Suc_right)
  qed simp
  then show "fst (fold push_word ws (tp, m)) = tp - of_nat (8 * length ws)"
    and "i < length ws \<Longrightarrow> snd (fold push_word ws (tp, m)) (tp - of_nat (8 * Suc i)) = ws ! i" by auto
qed

text \<open>
  The words an interrupt return pops from stack pointer \<open>sp\<close>: fifteen registers, r15 first and rax
  last, then RIP, CS, RFLAGS, RSP and SS.
\<close>

definition popped_frame :: "(u64 \<Rightarrow> u64) \<Rightarrow> u64 \<Rightarrow> u64 list" where
  "popped_frame mem sp = map (\<lambda>i. mem (sp + of_nat (8 * i))) [0..<20]"

lemma popped_initial:
  assumes "fold push_word (initial_frame tp tr fn arg) (tp, m) = (sp, m')"
  shows "sp = tp - 160" "popped_frame m' sp = rev (initial_frame tp tr fn arg)"
proof -
  let ?ws = "initial_frame tp tr fn arg"
  have n: "length ?ws = 20" by (simp add: initial_frame_def)
  note P = push_fold [where ws = ?ws and tp = tp and m = m, unfolded assms n]
  show sp: "sp = tp - 160" using P(1) by simp
  show "popped_frame m' sp = rev ?ws"
  proof (rule nth_equalityI)
    fix i assume "i < length (popped_frame m' sp)"
    then have i: "i < 20" by (simp add: popped_frame_def)
    have "sp + of_nat (8 * i) = tp - of_nat (8 * Suc (19 - i))"
      using i unfolding sp by (simp add: of_nat_diff algebra_simps)
    then show "popped_frame m' sp ! i = rev ?ws ! i"
      using P(2) [of "19 - i"] i n by (simp add: popped_frame_def rev_nth del: of_nat_mult of_nat_Suc)
  qed (simp add: popped_frame_def n)
qed

lemma stack_top:
  assumes "16 dvd unat st" "unat st + 65536 < 2 ^ 64"
  shows "unat ((st + STACK_SIZE) AND NOT 0xF) = unat st + 65536" "(st + STACK_SIZE) AND NOT 0xF = st + STACK_SIZE"
proof -
  have u: "unat (st + STACK_SIZE) = unat st + 65536"
    using unat_plus_small [of st STACK_SIZE] assms(2) by (simp add: STACK_SIZE_def)
  have d: "16 dvd unat st + 65536" using assms(1) by simp
  have e: "unat ((st + STACK_SIZE) AND NOT 15) = 16 * ((unat st + 65536) div 16)" by (simp only: round_down_16 u)
  also have "\<dots> = unat st + 65536" using d by (rule dvd_mult_div_cancel)
  finally show s: "unat ((st + STACK_SIZE) AND NOT 0xF) = unat st + 65536" .
  then show "(st + STACK_SIZE) AND NOT 0xF = st + STACK_SIZE" using u by (simp only: word_unat_eq_iff)
qed

definition created :: "u64 \<Rightarrow> u64 \<Rightarrow> u64 \<Rightarrow> u8 list \<Rightarrow> 'h sched \<Rightarrow> u64 \<Rightarrow> 'h sched \<Rightarrow> bool" where
  "created tr fn arg nm s t s' \<longleftrightarrow>
     next_id s' = next_id s + 1 \<and> active s' = active s \<and> current s' = current s \<and>
     slice_start s' = slice_start s \<and> fpu s' = fpu s \<and>
     (\<forall>x. x \<noteq> t \<longrightarrow> view (threads s') x = view (threads s) x) \<and>
     (\<exists>th. threads s' t = Some th \<and> t_id th = next_id s + 1 \<and> t_state th = T_READY \<and> fxsave th = fxarea_init \<and>
        takeWhile (\<lambda>c. c \<noteq> 0) (t_name th) = take 23 nm \<and>
        unat (t_rsp th) = unat (stack_base th) + 65536 - 160 \<and>
        popped_frame (stack_words s') (t_rsp th) =
          rev (initial_frame (stack_base th + STACK_SIZE) tr fn arg))"

context heap_allocator
begin

lemma ring_regions:
  assumes "ring_inv inv regions xs s" "x \<in> set xs" "q \<in> set (blocks_of (threads s) x)"
  shows "\<exists>m. (q, m) \<in> regions (sheap s)"
proof -
  have "q \<in> set (concat (map (blocks_of (threads s)) xs))" using assms(2,3) by auto
  then have "q \<in> fst ` regions (sheap s)" using ring_invD(7) [OF assms(1)] by blast
  then show ?thesis by (metis imageE prod.collapse)
qed

lemma ring_inv_heap:
  assumes "ring_inv inv regions xs s" "inv h" "regions (sheap s) \<subseteq> regions h" "next_id s \<le> i"
  shows "ring_inv inv regions xs (s\<lparr>sheap := h, next_id := i, stack_words := m\<rparr>)"
proof -
  have "fst ` regions (sheap s) \<subseteq> fst ` regions h" using assms(3) by blast
  then have "set (concat (map (blocks_of (threads s)) xs)) \<subseteq> fst ` regions h"
    using ring_invD(7) [OF assms(1)] by blast
  then show ?thesis using ring_invD [OF assms(1)] assms(2,4) unfolding ring_inv_def
    by (fastforce simp del: set_concat)
qed

lemma thread_create_lemma:
  assumes ri: "ring_inv inv regions xs s" and nm: "0 \<notin> set nm"
  shows "(\<exists>h. thread_create ops tr (nm @ 0 # rest) fn arg s = Some (-1, s\<lparr>sheap := h\<rparr>) \<and> inv h \<and>
      regions h = regions (sheap s)) \<or>
    (\<exists>t s'. thread_create ops tr (nm @ 0 # rest) fn arg s = Some (next_id s + 1, s') \<and>
      ring_inv inv regions (insert_second t xs) s' \<and> t \<notin> set xs \<and> created tr fn arg nm s t s')"
proof -
  let ?h = "sheap s"
  have i0: "inv ?h" by (rule ring_invD(5) [OF ri])
  have sz: "THREAD_SIZE \<noteq> 0" "unat THREAD_SIZE \<le> 2 ^ 64 - 16" "STACK_SIZE \<noteq> 0" "unat STACK_SIZE \<le> 2 ^ 64 - 16"
    by (simp_all add: THREAD_SIZE_def STACK_SIZE_def)
  obtain t h1 where m1: "heap_malloc ops THREAD_SIZE ?h = Some (t, h1)"
    using malloc_total [OF i0 sz(1,2)] by auto
  show ?thesis
  proof (cases "t = 0")
    case True
    then have "h1 = ?h" using malloc_null [OF i0 sz(1,2)] m1 by blast
    then show ?thesis using m1 True i0 by (intro disjI1 exI [of _ "sheap s"]) (simp add: thread_create_def)
  next
    case False
    obtain m where r1: "inv h1" "regions h1 = insert (t, m) (regions ?h)" "\<forall>n. (t, n) \<notin> regions ?h"
      using malloc_region [OF i0 sz(1,2) m1 False] by blast
    obtain st h2 where m2: "heap_malloc ops STACK_SIZE h1 = Some (st, h2)"
      using malloc_total [OF r1(1) sz(3,4)] by auto
    show ?thesis
    proof (cases "st = 0")
      case True
      then have h2: "h2 = h1" using malloc_null [OF r1(1) sz(3,4)] m2 by blast
      obtain h3 where h3: "heap_free ops t h1 = Some h3" "inv h3" "regions h3 = regions h1 - {(t, m)}"
        using free_region [OF r1(1), of t m] r1(2) by blast
      have "regions h3 = regions ?h" using h3(3) r1(2,3) by auto
      then show ?thesis using m1 m2 False True h2 h3
        by (intro disjI1 exI [of _ h3]) (simp add: thread_create_def)
    next
      case st0: False
      obtain m' where r2: "inv h2" "16 dvd unat st" "unat STACK_SIZE \<le> m'" "unat st + m' < 2 ^ 64"
        "regions h2 = insert (st, m') (regions h1)" "\<forall>n. (st, n) \<notin> regions h1"
        using malloc_region [OF r1(1) sz(3,4) m2 st0] by blast
      have stt: "st \<noteq> t" using r2(6) r1(2) by blast
      define tp where "tp = (st + STACK_SIZE) AND NOT 0xF"
      have "unat st + 65536 < 2 ^ 64" using r2(3,4) by (simp add: STACK_SIZE_def)
      note top = stack_top [OF r2(2) this, folded tp_def]
      obtain sp mem where fr: "fold push_word (initial_frame tp tr fn arg) (tp, stack_words s) = (sp, mem)" by force
      note F = popped_initial [OF fr]
      define nmb where "nmb = take 23 nm @ 0 # drop (Suc (min (length nm) 23)) (replicate 24 (0 :: u8))"
      have cp: "c_strlcpy (replicate 24 0) (nm @ 0 # rest) 24 = Some (nmb, length nm)"
        using strlcpy_correct [OF nm, of 24 "replicate 24 0" rest] by (simp add: nmb_def)
      define th where "th = \<lparr>fxsave = fxarea_init, t_rsp = sp, t_id = next_id s + 1, t_name = nmb,
        t_state = T_READY, wake_tick = 0, stack_base = st, t_next = 0\<rparr>"
      define s1 where "s1 = s\<lparr>sheap := h2, next_id := next_id s + 1, stack_words := mem\<rparr>"
      have run: "thread_create ops tr (nm @ 0 # rest) fn arg s = ring_insert t th s1 \<bind> (\<lambda>s'. Some (next_id s + 1, s'))"
        using m1 m2 False st0 cp fr [unfolded tp_def] by (simp add: thread_create_def Let_def th_def s1_def)
      have ri1: "ring_inv inv regions xs s1"
        unfolding s1_def by (rule ring_inv_heap [OF ri r2(1)]) (use r1(2) r2(5) in auto)
      have nr: "q \<notin> set (concat (map (blocks_of (threads s)) xs))" if "\<forall>n. (q, n) \<notin> regions ?h" for q
        using ring_regions [OF ri] that by auto
      have tn: "t \<notin> set xs"
      proof
        assume "t \<in> set xs"
        moreover have "t \<in> set (blocks_of (threads s) t)" by (simp add: blocks_of_def Let_def)
        ultimately show False using ring_regions [OF ri] r1(3) by blast
      qed
      have sn: "\<forall>n. (st, n) \<notin> regions ?h" using r2(6) r1(2) by blast
      have idn: "t_id th \<notin> id_of (threads s1) ` set xs"
        using ring_invD(10) [OF ri] by (fastforce simp: th_def s1_def)
      obtain s' where R: "ring_insert t th s1 = Some s'" "ring_inv inv regions (insert_second t xs) s'"
        "view (threads s') t = Some (th\<lparr>t_next := 0\<rparr>)"
        "\<And>x. x \<noteq> t \<Longrightarrow> view (threads s') x = view (threads s1) x"
        "\<exists>ts rg. s' = s1\<lparr>threads := ts, ring := rg\<rparr>"
      proof (rule ring_insert_inv [OF ri1 False tn, of th])
        show "distinct (if stack_base th = 0 then [t] else [stack_base th, t])"
          using stt by (simp add: th_def)
        show "set (if stack_base th = 0 then [t] else [stack_base th, t]) \<subseteq> fst ` regions (sheap s1)"
          using st0 r1(2) r2(5) by (force simp: th_def s1_def)
        show "set (if stack_base th = 0 then [t] else [stack_base th, t]) \<inter>
            set (concat (map (blocks_of (threads s1)) xs)) = {}"
          using st0 nr [OF sn] nr [OF r1(3)] by (auto simp: th_def s1_def simp del: set_concat)
        show "0 \<le> t_id th" "t_id th \<le> next_id s1" using ring_invD(9) [OF ri] by (simp_all add: th_def s1_def)
        show "t_id th \<noteq> 0 \<Longrightarrow> stack_base th \<noteq> 0" using st0 by (simp add: th_def)
      qed (use idn in auto)
      have nmz: "takeWhile (\<lambda>c. c \<noteq> 0) nmb = take 23 nm"
        unfolding nmb_def by (rule takeWhile_neq_append) (use nm in \<open>auto dest: in_set_takeD\<close>)
      have usp: "unat sp = unat st + 65536 - 160"
      proof -
        have "(160 :: u64) \<le> tp" using top(1) by (simp add: word_le_unat)
        then show ?thesis using F(1) top(1) by (simp add: unat_minus_small)
      qed
      obtain tt where tt: "threads s' t = Some tt" "stack_base tt = stack_base th" "t_id tt = t_id th"
        "t_state tt = t_state th" "t_rsp tt = t_rsp th" "fxsave tt = fxsave th" "t_name tt = t_name th"
        by (rule view_SomeE [OF R(3)])
      have "created tr fn arg nm s t s'"
        using R(4,5) tt F(2) usp nmz top(2) by (auto simp: created_def s1_def th_def)
      then show ?thesis using run R(1,2) tn by auto
    qed
  qed
qed

text \<open>
  Before the start every thread of the ring was created and none has run; \<open>sched\_start\<close> adds the
  idle thread. A heap without room for it makes the code write through NULL, which is \<open>None\<close>.
\<close>

lemma sched_start_lemma:
  assumes ri: "ring_inv inv regions xs s"
    and fresh: "\<And>x. x \<in> set xs \<Longrightarrow> id_of (threads s) x \<noteq> 0 \<and> state_of (threads s) x = T_READY"
    and some: "sched_start ops now s = Some s'"
  shows "\<exists>t. t \<notin> set xs \<and> current s' = t \<and> sched_inv inv regions (insert_second t xs) s' \<and>
    (\<forall>x\<in>set xs. view (threads s') x = view (threads s) x)"
proof -
  let ?h = "sheap s"
  have i0: "inv ?h" by (rule ring_invD(5) [OF ri])
  have sz: "THREAD_SIZE \<noteq> 0" "unat THREAD_SIZE \<le> 2 ^ 64 - 16" by (simp_all add: THREAD_SIZE_def)
  obtain t h1 where m1: "heap_malloc ops THREAD_SIZE ?h = Some (t, h1)"
    using malloc_total [OF i0 sz] by auto
  with some have t0: "t \<noteq> 0" by (auto simp: sched_start_def)
  obtain m where r1: "inv h1" "regions h1 = insert (t, m) (regions ?h)" "\<forall>n. (t, n) \<notin> regions ?h"
    using malloc_region [OF i0 sz m1 t0] by blast
  obtain nm where nm: "c_strcpy (replicate 24 0) [105, 100, 108, 101, 0] = Some nm"
    using some m1 t0 by (cases "c_strcpy (replicate 24 0) [105, 100, 108, 101, 0]") (auto simp: sched_start_def)
  define th where "th = \<lparr>fxsave = fxarea_init, t_rsp = 0, t_id = 0, t_name = nm, t_state = T_RUNNING,
           wake_tick = 0, stack_base = 0, t_next = 0\<rparr>"
  define s1 where "s1 = s\<lparr>sheap := h1, next_id := next_id s, stack_words := stack_words s\<rparr>"
  have s1: "s1 = s\<lparr>sheap := h1\<rparr>" by (simp add: s1_def)
  have ri1: "ring_inv inv regions xs s1"
    unfolding s1_def by (rule ring_inv_heap [OF ri r1(1)]) (use r1(2) in auto)
  have tc: "t \<notin> set (concat (map (blocks_of (threads s)) xs))"
    using ring_regions [OF ri] r1(3) by auto
  have tn: "t \<notin> set xs"
  proof
    assume "t \<in> set xs"
    moreover have "t \<in> set (blocks_of (threads s) t)" by (simp add: blocks_of_def Let_def)
    ultimately show False using ring_regions [OF ri] r1(3) by blast
  qed
  obtain s2 where R: "ring_insert t th s1 = Some s2" "ring_inv inv regions (insert_second t xs) s2"
    "view (threads s2) t = Some (th\<lparr>t_next := 0\<rparr>)"
    "\<And>x. x \<noteq> t \<Longrightarrow> view (threads s2) x = view (threads s1) x"
  proof (rule ring_insert_inv [OF ri1 t0 tn, of th])
    show "set (if stack_base th = 0 then [t] else [stack_base th, t]) \<subseteq> fst ` regions (sheap s1)"
      using r1(2) by (force simp: th_def s1_def)
    show "set (if stack_base th = 0 then [t] else [stack_base th, t]) \<inter>
        set (concat (map (blocks_of (threads s1)) xs)) = {}"
      using tc by (simp add: th_def s1_def del: set_concat)
    show "t_id th \<notin> id_of (threads s1) ` set xs" using fresh by (force simp: th_def s1_def)
    show "t_id th \<le> next_id s1" using ring_invD(9) [OF ri1] by (simp add: th_def)
  qed (auto simp: th_def)
  have s': "s' = s2\<lparr>current := t, slice_start := now, active := True\<rparr>"
    using some m1 t0 nm R(1) by (simp add: sched_start_def th_def s1)
  obtain tt where tt: "threads s2 t = Some tt" "t_id tt = 0" "t_state tt = T_RUNNING"
    by (rule view_SomeE [OF R(3)]) (simp add: th_def)
  have old: "id_of (threads s2) x \<noteq> 0 \<and> state_of (threads s2) x = T_READY \<and> x \<noteq> t" if "x \<in> set xs" for x
  proof -
    have xt: "x \<noteq> t" using that tn by auto
    have "xs \<noteq> []" using that by auto
    then have "threads s x \<noteq> None" using path_dom [OF ring_invD(4) [OF ri] that] by auto
    moreover have "view (threads s) x = view (threads s2) x" using R(4) [OF xt] by (simp add: s1_def)
    ultimately show ?thesis using fresh [OF that] view_fields(2,3) xt by metis
  qed
  have "sched_inv inv regions (insert_second t xs) s'"
  proof (rule sched_invI)
    show "ring_inv inv regions (insert_second t xs) s'" using R(2) unfolding s' ring_inv_def by simp
    show "0 \<in> id_of (threads s') ` set (insert_second t xs)" using tt s' by simp
    fix x assume "x \<in> set (insert_second t xs)"
    then have x: "x = t \<or> x \<in> set xs" by simp
    then show "id_of (threads s') x = 0 \<Longrightarrow> runnable (the (threads s' x))"
      and "state_of (threads s') x = T_RUNNING \<Longrightarrow> x = current s'"
      using old [of x] tt by (auto simp: s' runnable_def)
  qed (simp_all add: s')
  moreover have "view (threads s') x = view (threads s) x" if "x \<in> set xs" for x
    using R(4) [of x] tn that by (auto simp: s' s1_def)
  ultimately show ?thesis using tn by (auto simp: s')
qed

end

section \<open>Runs of the scheduler\<close>

text \<open>
  What can happen once the scheduler is active: a timer interrupt, a yield, or a call of the
  running thread. The idle thread only halts, so it never exits, sleeps or creates a thread.
\<close>

inductive sched_step :: "'h heap_ops \<Rightarrow> 'h sched \<Rightarrow> 'h sched \<Rightarrow> bool" for ops where
  step_tick: "sched_tick ops now rsp s = Some (r, s') \<Longrightarrow> sched_step ops s s'"
| step_yield: "sched_yield ops now rsp s = Some (r, s') \<Longrightarrow> sched_step ops s s'"
| step_sleep: "id_of (threads s) (current s) \<noteq> 0 \<Longrightarrow> thread_sleep_ms ops ms now rsp s = Some (r, s') \<Longrightarrow>
    sched_step ops s s'"
| step_exit: "id_of (threads s) (current s) \<noteq> 0 \<Longrightarrow> thread_exit ops now rsp s = Some (r, s') \<Longrightarrow>
    sched_step ops s s'"
| step_create: "id_of (threads s) (current s) \<noteq> 0 \<Longrightarrow> 0 \<in> set name \<Longrightarrow>
    thread_create ops tr name fn arg s = Some (tid, s') \<Longrightarrow> sched_step ops s s'"

text \<open>The steps that reach \<open>sched\_preempt\<close>, after which another thread may run.\<close>

inductive switch_step :: "'h heap_ops \<Rightarrow> 'h sched \<Rightarrow> 'h sched \<Rightarrow> bool" for ops where
  switch_preempt: "sched_preempt ops now rsp s = Some (r, s') \<Longrightarrow> switch_step ops s s'"
| switch_sleep: "id_of (threads s) (current s) \<noteq> 0 \<Longrightarrow> thread_sleep_ms ops ms now rsp s = Some (r, s') \<Longrightarrow>
    switch_step ops s s'"
| switch_exit: "id_of (threads s) (current s) \<noteq> 0 \<Longrightarrow> thread_exit ops now rsp s = Some (r, s') \<Longrightarrow>
    switch_step ops s s'"

inductive_cases sched_stepE: "sched_step ops s s'"
inductive_cases switch_stepE: "switch_step ops s s'"

text \<open>How many threads are asked before \<open>t\<close>.\<close>

definition turns_before :: "u64 \<Rightarrow> u64 list \<Rightarrow> u64 \<Rightarrow> nat" where
  "turns_before cur xs t = length (takeWhile (\<lambda>x. x \<noteq> t) (order cur xs))"

text \<open>Marking the current thread as sleeping or ended.\<close>

lemma set_current_inv:
  assumes sinv: "sched_inv hinv regions xs s" and c: "id_of (threads s) (current s) \<noteq> 0"
    and f: "\<And>th. t_next (f th) = t_next th" "\<And>th. t_id (f th) = t_id th" "\<And>th. stack_base (f th) = stack_base th"
  obtains s' where "set_current f s = Some s'" "sched_inv hinv regions xs s'" "current s' = current s"
    "\<And>x. x \<noteq> current s \<Longrightarrow> threads s' x = threads s x" "id_of (threads s') (current s) = id_of (threads s) (current s)"
    "active s' = active s"
proof -
  have ci: "current s \<in> set xs" by (rule sched_invD(3) [OF sinv])
  obtain ct where ct: "threads s (current s) = Some ct" using sched_inv_thread(6) [OF sinv ci] by auto
  let ?ts = "(threads s)(current s \<mapsto> f ct)"
  let ?s = "s\<lparr>threads := ?ts, current := current s, fpu := fpu s, slice_start := slice_start s\<rparr>"
  have "sched_inv hinv regions xs ?s"
  proof (rule sched_inv_update [OF sinv ci])
    fix x assume x: "x \<in> set xs"
    show "map_option t_next (?ts x) = map_option t_next (threads s x)" "id_of ?ts x = id_of (threads s) x"
      "stack_base (the (?ts x)) = stack_base (the (threads s x))" using ct f by auto
    show "id_of (threads s) x = 0 \<Longrightarrow> runnable (the (?ts x))" using sched_inv_thread(3) [OF sinv x] c by auto
    show "state_of ?ts x = T_RUNNING \<Longrightarrow> x = current s"
      using sched_inv_thread(5) [OF sinv x] by (auto split: if_splits)
  qed
  moreover have "set_current f s = Some ?s" using ct by (simp add: set_current_def)
  ultimately show ?thesis using ct f(2) by (intro that [of ?s]) auto
qed

text \<open>The order seen from another thread, and in a smaller ring.\<close>

lemma order_eq: "distinct (us @ cur # vs) \<Longrightarrow> order cur (us @ cur # vs) = vs @ us @ [cur]"
proof -
  assume "distinct (us @ cur # vs)"
  then have "\<forall>x\<in>set us. x \<noteq> cur" by auto
  then show ?thesis by (simp add: order_def)
qed

lemma order_rotate:
  assumes "distinct ys" "cur \<in> set ys" "order cur ys = A @ n # B"
  shows "order n ys = B @ A @ [n]"
proof -
  obtain us vs where y: "ys = us @ cur # vs" "order cur ys = vs @ us @ [cur]"
    by (rule order_split [OF assms(2,1)])
  from y(2) assms(3) have e: "vs @ (us @ [cur]) = A @ (n # B)" by simp
  then obtain zs where z: "vs = A @ zs \<and> zs @ us @ [cur] = n # B \<or> vs @ zs = A \<and> us @ [cur] = zs @ n # B"
    unfolding append_eq_append_conv2 by auto
  show ?thesis
  proof (cases "\<exists>v. vs = A @ n # v")
    case True
    then obtain v where v: "vs = A @ n # v" by blast
    then have "B = v @ us @ [cur]" using e by simp
    then show ?thesis using order_eq [of "us @ cur # A" n v] assms(1) y(1) v by simp
  next
    case False
    with z obtain zs where z: "A = vs @ zs" "us @ [cur] = zs @ n # B" by (cases zs) auto
    show ?thesis
    proof (cases B rule: rev_cases)
      case Nil
      then show ?thesis using z order_eq [of us cur vs] assms(1) y by auto
    next
      case (snoc B' b)
      then have "us = zs @ n # B'" "b = cur" using z(2) by auto
      then show ?thesis using order_eq [of zs n "B' @ cur # vs"] assms(1) y(1) z(1) snoc by simp
    qed
  qed
qed

lemma order_filter:
  assumes "cur \<in> set xs" "distinct xs" "P cur"
  shows "order cur (filter P xs) = filter P (order cur xs)"
proof -
  obtain us vs where x: "xs = us @ cur # vs" "order cur xs = vs @ us @ [cur]"
    by (rule order_split [OF assms(1,2)])
  have "distinct (filter P us @ cur # filter P vs)" using assms(2) x(1) by auto
  then show ?thesis using x assms(3) order_eq [of "filter P us" cur "filter P vs"] by simp
qed

lemma takeWhile_filter_length:
  "P t \<Longrightarrow> length (takeWhile (\<lambda>x. x \<noteq> t) (filter P xs)) \<le> length (takeWhile (\<lambda>x. x \<noteq> t) xs)"
  by (induction xs) auto

lemma choose_split:
  assumes "t \<in> set ord" "runnable (the (ts t))" "id_of ts t \<noteq> 0"
  obtains A B where "ord = A @ choose_next ts ord # B" "t \<notin> set A" "id_of ts (choose_next ts ord) \<noteq> 0"
proof -
  let ?P = "\<lambda>x. runnable (the (ts x)) \<and> id_of ts x \<noteq> 0"
  have "find ?P ord \<noteq> None" using assms by (auto simp: find_None_iff)
  then obtain n where n: "find ?P ord = Some n" by blast
  then obtain i where i: "i < length ord" "?P (ord ! i)" "n = ord ! i" "\<forall>j<i. \<not> ?P (ord ! j)"
    by (auto simp: find_Some_iff)
  have "t \<notin> set (take i ord)"
    using i(1,4) assms(2,3) by (auto simp: in_set_conv_nth)
  moreover have "ord = take i ord @ n # drop (Suc i) ord" using i(1,3) by (simp add: id_take_nth_drop)
  moreover have "choose_next ts ord = n" using n by (simp add: choose_next_def)
  ultimately show ?thesis using that i(2,3) by simp
qed

lemma turns_decrease:
  assumes "distinct ys" "cur \<in> set ys" "order cur ys = A @ n # B" "t \<notin> set A" "t \<in> set ys" "t \<noteq> n"
  shows "turns_before n ys t < turns_before cur ys t" "n \<noteq> cur"
proof -
  have tB: "t \<in> set B" using assms order_set [OF assms(2,1)] by auto
  have A: "takeWhile (\<lambda>x. x \<noteq> t) A = A" using assms(4) by (auto simp: takeWhile_eq_all_conv)
  have "turns_before cur ys t = length A + Suc (length (takeWhile (\<lambda>x. x \<noteq> t) B))"
    using assms(3,4,6) A by (simp add: turns_before_def takeWhile_append)
  moreover have "turns_before n ys t = length (takeWhile (\<lambda>x. x \<noteq> t) B)"
    unfolding turns_before_def order_rotate [OF assms(1-3)] using tB by (simp add: takeWhile_append1)
  ultimately show "turns_before n ys t < turns_before cur ys t" by simp
  obtain us vs where y: "ys = us @ cur # vs" "order cur ys = vs @ us @ [cur]"
    by (rule order_split [OF assms(2,1)])
  show "n \<noteq> cur"
  proof
    assume "n = cur"
    then have e: "A @ cur # B = (vs @ us) @ [cur]" "cur \<notin> set (vs @ us)" using assms(3,1) y by auto
    have "B = []"
    proof (cases B rule: rev_cases)
      case (snoc B' b)
      then have "A @ cur # B' = vs @ us" using e(1) by simp
      then have "cur \<in> set (vs @ us)" by (metis in_set_conv_decomp)
      with e(2) show ?thesis by simp
    qed
    then show False using tB by simp
  qed
qed

context heap_allocator
begin

lemma preempt_fair:
  assumes sinv: "sched_inv inv regions xs s"
    and t: "t \<in> set xs" "t \<noteq> current s" "state_of (threads s) t = T_READY" "id_of (threads s) t \<noteq> 0"
    and p: "sched_preempt ops now rsp s = Some (r, s')"
  obtains ys where "sched_inv inv regions ys s'" "t \<in> set ys" "id_of (threads s') t \<noteq> 0"
    "current s' = t \<or> state_of (threads s') t = T_READY \<and> t \<noteq> current s' \<and>
       turns_before (current s') ys t < turns_before (current s) xs t"
proof -
  define tw where "tw = wake_all now (set xs) (threads s)"
  define cur where "cur = current s"
  define ys where "ys = reap_list tw cur xs"
  note I = sched_invD [OF sinv]
  have out: "preempt_outcome now rsp xs s r s'" and inv': "sched_inv inv regions ys s'"
    by (rule preempt_lemma [OF sinv, of now rsp]; use p in \<open>simp add: tw_def cur_def ys_def\<close>)+
  obtain tt where tt: "threads s t = Some tt" using sched_inv_thread(6) [OF sinv t(1)] by auto
  have tw: "state_of tw t = T_READY" "id_of tw t \<noteq> 0"
    using tt t by (simp_all add: tw_def wake_all_def wake_thread_def)
  note RF = reap_list_filter [OF I(2), where ts = tw and cur = cur, folded ys_def]
  have nr: "t \<notin> reaped tw cur xs" using RF(2) [of t] tw by (auto simp: dead_def)
  have nc: "cur \<notin> reaped tw cur xs" using RF(2) [of cur] by (auto simp: dead_def)
  have ty: "t \<in> set ys" using nr t(1) by (simp add: RF(1))
  have cx: "cur \<in> set xs" using I(3) by (simp add: cur_def)
  have cy: "cur \<in> set ys" using nc cx by (simp add: RF(1))
  have dy: "distinct ys" using I(2) by (simp add: RF(1))
  define n where "n = choose_next tw (order cur ys)"
  obtain A B where AB: "order cur ys = A @ n # B" "t \<notin> set A"
    using choose_split [of t "order cur ys" tw] ty tw order_set [OF cy dy] unfolding n_def
    by (metis runnable_def)
  have le: "turns_before cur ys t \<le> turns_before cur xs t"
    unfolding turns_before_def RF(1) order_filter [OF cx I(2), of "\<lambda>x. x \<notin> reaped tw cur xs", OF nc]
    by (rule takeWhile_filter_length) (rule nr)
  note O = out [unfolded preempt_outcome_def Let_def, folded tw_def, folded cur_def, folded ys_def, folded n_def]
  have cs: "current s' = n" using O by blast
  have it: "id_of (threads s') t \<noteq> 0" using O ty t(4) by metis
  show thesis
  proof (cases "t = n")
    case True
    then show ?thesis using that inv' ty it cs by blast
  next
    case False
    note T = turns_decrease [OF dy cy AB ty False]
    have "state_of (threads s') t = T_READY"
    proof -
      have "state_of (threads s') t = (if n = cur then state_of tw t else if t = n then T_RUNNING
          else if t = cur \<and> state_of tw t = T_RUNNING then T_READY else state_of tw t)"
        using O ty by blast
      then show ?thesis using False tw T(2) by simp
    qed
    then show ?thesis using that inv' ty it cs False T(1) le by (metis cur_def less_le_trans)
  qed
qed

lemma switch_preempts:
  assumes sinv: "sched_inv inv regions xs s" and st: "switch_step ops s s'"
  obtains now rsp r s1 where "sched_preempt ops now rsp s1 = Some (r, s')" "sched_inv inv regions xs s1"
    "current s1 = current s" "\<And>x. x \<noteq> current s \<Longrightarrow> threads s1 x = threads s x"
  using st
proof (cases rule: switch_step.cases)
  case (switch_preempt now rsp r)
  then show ?thesis using that sinv by blast
next
  case (switch_sleep ms now rsp r)
  obtain s1 where s1: "set_current (\<lambda>ct. ct\<lparr>t_state := T_SLEEPING, wake_tick := now + ms\<rparr>) s = Some s1"
    "sched_inv inv regions xs s1" "current s1 = current s" "\<And>x. x \<noteq> current s \<Longrightarrow> threads s1 x = threads s x"
    by (rule set_current_inv [OF sinv switch_sleep(1), of "\<lambda>ct. ct\<lparr>t_state := T_SLEEPING, wake_tick := now + ms\<rparr>"]) auto
  then show ?thesis using that switch_sleep(2) sched_invD(1) [OF sinv] by (auto simp: thread_sleep_ms_def)
next
  case (switch_exit now rsp r)
  obtain s1 where s1: "set_current (\<lambda>ct. ct\<lparr>t_state := T_ZOMBIE\<rparr>) s = Some s1"
    "sched_inv inv regions xs s1" "current s1 = current s" "\<And>x. x \<noteq> current s \<Longrightarrow> threads s1 x = threads s x"
    by (rule set_current_inv [OF sinv switch_exit(1), of "\<lambda>ct. ct\<lparr>t_state := T_ZOMBIE\<rparr>"]) auto
  then show ?thesis using that switch_exit(2) by (auto simp: thread_exit_def)
qed

text \<open>A ready thread runs after at most as many switches as there are threads asked before it, plus one.\<close>

lemma ready_runs_lemma:
  assumes "sched_inv inv regions xs (S 0)" "\<And>i. switch_step ops (S i) (S (Suc i))"
    and "t \<in> set xs" "t \<noteq> current (S 0)" "state_of (threads (S 0)) t = T_READY" "id_of (threads (S 0)) t \<noteq> 0"
  shows "\<exists>k. 0 < k \<and> k \<le> turns_before (current (S 0)) xs t + 1 \<and> current (S k) = t"
  using assms
proof (induction "turns_before (current (S 0)) xs t" arbitrary: S xs rule: less_induct)
  case less
  obtain now rsp r s1 where s1: "sched_preempt ops now rsp s1 = Some (r, S 1)" "sched_inv inv regions xs s1"
    "current s1 = current (S 0)" "\<And>x. x \<noteq> current (S 0) \<Longrightarrow> threads s1 x = threads (S 0) x"
    using switch_preempts [OF less.prems(1) less.prems(2) [of 0]] by (metis One_nat_def)
  have "t \<noteq> current s1" "state_of (threads s1) t = T_READY" "id_of (threads s1) t \<noteq> 0"
    using s1(3,4) less.prems(4-6) by simp_all
  from preempt_fair [OF s1(2) less.prems(3) this s1(1)]
  obtain ys where ys: "sched_inv inv regions ys (S 1)" "t \<in> set ys" "id_of (threads (S 1)) t \<noteq> 0"
    "current (S 1) = t \<or> state_of (threads (S 1)) t = T_READY \<and> t \<noteq> current (S 1) \<and>
       turns_before (current (S 1)) ys t < turns_before (current (S 0)) xs t" using s1(3) by metis
  show ?case
  proof (cases "current (S 1) = t")
    case True
    then show ?thesis by (intro exI [of _ 1]) simp
  next
    case False
    with ys(4) have d: "state_of (threads (S 1)) t = T_READY" "t \<noteq> current (S 1)"
       "turns_before (current (S 1)) ys t < turns_before (current (S 0)) xs t" by auto
    have "\<exists>k. 0 < k \<and> k \<le> turns_before (current (S (Suc 0))) ys t + 1 \<and> current (S (Suc k)) = t"
      using less.hyps [of "\<lambda>i. S (Suc i)" ys] d ys(1-3) less.prems(2) by simp
    then obtain k where "0 < k" "k \<le> turns_before (current (S 1)) ys t + 1" "current (S (Suc k)) = t" by auto
    with d(3) show ?thesis by (intro exI [of _ "Suc k"]) simp
  qed
qed

lemma preempt_some:
  assumes "sched_inv inv regions xs s" "sched_preempt ops now rsp s = Some (r, s')"
  shows "\<exists>ys. sched_inv inv regions ys s'"
  by (rule preempt_lemma [OF assms(1), of now rsp]) (use assms(2) in auto)

lemma tick_cases:
  assumes "sched_inv inv regions xs s"
  shows "sched_tick ops now rsp s = Some (rsp, s) \<or> sched_tick ops now rsp s = sched_preempt ops now rsp s"
proof -
  obtain ct where "threads s (current s) = Some ct"
    using sched_inv_thread(6) [OF assms sched_invD(3) [OF assms]] by auto
  then show ?thesis by (simp add: sched_tick_def)
qed

lemma created_inv:
  assumes sinv: "sched_inv inv regions xs s" and ri: "ring_inv inv regions (insert_second t xs) s'"
    and t: "t \<notin> set xs" and c: "created tr fn arg nm s t s'"
  shows "sched_inv inv regions (insert_second t xs) s'"
proof -
  obtain th where th: "threads s' t = Some th" "t_id th = next_id s + 1" "t_state th = T_READY"
    using c by (auto simp: created_def)
  have cs: "current s' = current s" "active s' = active s"
    and v: "\<And>x. x \<noteq> t \<Longrightarrow> view (threads s') x = view (threads s) x" using c by (auto simp: created_def)
  have old: "state_of (threads s') x = state_of (threads s) x \<and> id_of (threads s') x = id_of (threads s) x"
    if "x \<in> set xs" for x
  proof -
    have "x \<noteq> t" using that t by auto
    note v [OF this]
    moreover have "threads s x \<noteq> None" using sched_inv_thread(6) [OF sinv that] by auto
    ultimately show ?thesis using view_fields(2,3) by metis
  qed
  have n0: "0 \<le> next_id s" using sched_inv_thread(1,2) [OF sinv sched_invD(3) [OF sinv]] by simp
  show ?thesis
  proof (rule sched_invI [OF ri])
    show "active s'" "current s' \<in> set (insert_second t xs)" using sched_invD(1,3) [OF sinv] cs by simp_all
    obtain z where "z \<in> set xs" "id_of (threads s) z = 0" using sched_invD(10) [OF sinv] by auto
    then show "0 \<in> id_of (threads s') ` set (insert_second t xs)" using old by force
    fix x assume "x \<in> set (insert_second t xs)"
    then have x: "x = t \<or> x \<in> set xs" by simp
    show "id_of (threads s') x = 0 \<Longrightarrow> runnable (the (threads s' x))"
      using x th n0 old [of x] sched_inv_thread(3) [OF sinv, of x] by (auto simp: runnable_def)
    show "state_of (threads s') x = T_RUNNING \<Longrightarrow> x = current s'"
      using x th old [of x] sched_inv_thread(5) [OF sinv, of x] cs by auto
  qed
qed

lemma step_inv:
  assumes sinv: "sched_inv inv regions xs s" and st: "sched_step ops s s'"
  shows "\<exists>ys. sched_inv inv regions ys s'"
  using st
proof (cases rule: sched_step.cases)
  case (step_tick now rsp r)
  from tick_cases [OF sinv, of now rsp] show ?thesis
  proof
    assume "sched_tick ops now rsp s = sched_preempt ops now rsp s"
    then show ?thesis using preempt_some [OF sinv] step_tick by metis
  qed (use step_tick sinv in auto)
next
  case (step_yield now rsp r)
  then show ?thesis using preempt_some [OF sinv] sinv by (auto simp: sched_yield_def split: if_splits)
next
  case (step_sleep ms now rsp r)
  then have "switch_step ops s s'" by (rule switch_sleep)
  then show ?thesis by (rule switch_preempts [OF sinv]) (rule preempt_some)
next
  case (step_exit now rsp r)
  then have "switch_step ops s s'" by (rule switch_exit)
  then show ?thesis by (rule switch_preempts [OF sinv]) (rule preempt_some)
next
  case (step_create name tr fn arg tid)
  obtain nm rest where nm: "name = nm @ 0 # rest" "0 \<notin> set nm"
    using step_create(2) split_list_first by metis
  from thread_create_lemma [OF sched_inv_ringD [OF sinv] nm(2), of tr rest fn arg] step_create(3) nm(1)
  consider h where "s' = s\<lparr>sheap := h\<rparr>" "inv h" "regions h = regions (sheap s)"
    | t where "ring_inv inv regions (insert_second t xs) s'" "t \<notin> set xs" "created tr fn arg nm s t s'"
    by auto
  then show ?thesis
  proof cases
    case 1
    then have "sched_inv inv regions xs s'" using sinv by (simp add: sched_inv_def)
    then show ?thesis by blast
  next
    case 2
    then show ?thesis using created_inv [OF sinv] by blast
  qed
qed

lemma run_inv:
  assumes "(sched_step ops)\<^sup>*\<^sup>* s s'" "sched_inv inv regions xs s"
  shows "\<exists>ys. sched_inv inv regions ys s'"
  using assms
proof (induction rule: rtranclp_induct)
  case (step t u)
  then show ?case using step_inv by blast
qed blast

text \<open>No operation faults: every pointer the scheduler follows is a thread.\<close>

lemma never_faults:
  assumes sinv: "sched_inv inv regions xs s"
  shows "sched_preempt ops now rsp s \<noteq> None" "sched_tick ops now rsp s \<noteq> None"
    "id_of (threads s) (current s) \<noteq> 0 \<Longrightarrow> thread_exit ops now rsp s \<noteq> None"
    "id_of (threads s) (current s) \<noteq> 0 \<Longrightarrow> thread_sleep_ms ops ms now rsp s \<noteq> None"
    "sched_yield ops now rsp s \<noteq> None"
    "0 \<in> set name \<Longrightarrow> thread_create ops tr name fn arg s \<noteq> None"
    "sched_thread_count s = Some (length xs)" "\<exists>rows. sched_dump s = Some rows \<and> length rows = length xs"
proof -
  show p: "sched_preempt ops now rsp s \<noteq> None" by (rule preempt_lemma [OF sinv, of now rsp]) simp
  show "sched_tick ops now rsp s \<noteq> None" using tick_cases [OF sinv, of now rsp] p by auto
  have q: "set_current f s \<bind> sched_preempt ops now rsp \<noteq> None"
    if "id_of (threads s) (current s) \<noteq> 0" "\<And>th. t_next (f th) = t_next th" "\<And>th. t_id (f th) = t_id th"
      "\<And>th. stack_base (f th) = stack_base th" for f
  proof (rule set_current_inv [OF sinv that(1), of f])
    fix s1 assume s1: "set_current f s = Some s1" "sched_inv inv regions xs s1"
    have "sched_preempt ops now rsp s1 \<noteq> None" by (rule preempt_lemma [OF s1(2), of now rsp]) simp
    then show ?thesis using s1(1) by simp
  qed (use that(2-4) in auto)
  show "id_of (threads s) (current s) \<noteq> 0 \<Longrightarrow> thread_exit ops now rsp s \<noteq> None"
    unfolding thread_exit_def by (rule q) auto
  show "id_of (threads s) (current s) \<noteq> 0 \<Longrightarrow> thread_sleep_ms ops ms now rsp s \<noteq> None"
    using sched_invD(1) [OF sinv] q [of "\<lambda>ct. ct\<lparr>t_state := T_SLEEPING, wake_tick := now + ms\<rparr>"]
    unfolding thread_sleep_ms_def by simp
  show "sched_yield ops now rsp s \<noteq> None" using p by (simp add: sched_yield_def)
  show "thread_create ops tr name fn arg s \<noteq> None" if "0 \<in> set name"
  proof -
    obtain nm rest where nm: "name = nm @ 0 # rest" "0 \<notin> set nm" using \<open>0 \<in> set name\<close> split_list_first by metis
    from thread_create_lemma [OF sched_inv_ringD [OF sinv] nm(2), of tr rest fn arg] nm(1) show ?thesis by auto
  qed
  obtain ct where ct: "threads s (current s) = Some ct" using sched_inv_thread(6) [OF sinv sched_invD(3) [OF sinv]] by auto
  obtain us where us: "order (current s) xs = us @ [current s]" "current s \<notin> set us"
    "path (threads s) (t_next ct) (us @ [current s]) (t_next ct)"
    using order_path [OF sched_invD(5,3,2) [OF sinv] ct] by blast
  have "path (threads s) (current s) (current s # us) (current s)" using us(3) ct unfolding path_append by auto
  moreover have "length (order (current s) xs) = length xs"
    by (rule order_split [OF sched_invD(3,2) [OF sinv]]) simp
  moreover have "current s \<noteq> 0" using sched_invD(3,4) [OF sinv] by metis
  ultimately show "\<exists>rows. sched_dump s = Some rows \<and> length rows = length xs"
    using dump_loop_map [of "threads s" "current s" "current s # us" "current s" "[]"] us(1,2)
    by (simp add: sched_dump_def Let_def)
  obtain r ws where x: "xs = r # ws" "r = ring s"
    using sched_invD(5,11) [OF sinv] by (cases xs) auto
  have "ring s \<noteq> 0" using x sched_invD(4) [OF sinv] by auto
  moreover have "count_loop (ring s) (ring s) (threads s) 0 = Some (0 + length xs)"
    by (rule count_loop_length) (use x sched_invD(2,5) [OF sinv] in auto)
  ultimately show "sched_thread_count s = Some (length xs)" by (simp add: sched_thread_count_def)
qed

text \<open>The idle thread is chosen only when no other thread can run.\<close>

lemma idle_last_lemma:
  assumes sinv: "sched_inv inv regions xs s" and p: "sched_preempt ops now rsp s = Some (r, s')"
    and idle: "id_of (threads s') (current s') = 0"
    and x: "x \<in> set xs" "id_of (threads s) x \<noteq> 0"
  shows "\<not> runnable (the (wake_all now (set xs) (threads s) x))"
proof
  assume rx: "runnable (the (wake_all now (set xs) (threads s) x))"
  define tw where "tw = wake_all now (set xs) (threads s)"
  define cur where "cur = current s"
  define ys where "ys = reap_list tw cur xs"
  note I = sched_invD [OF sinv]
  have out: "preempt_outcome now rsp xs s r s'" and inv': "sched_inv inv regions ys s'"
    by (rule preempt_lemma [OF sinv, of now rsp]; use p in \<open>simp add: tw_def cur_def ys_def\<close>)+
  note RF = reap_list_filter [OF I(2), where ts = tw and cur = cur, folded ys_def]
  have ne: "threads s z \<noteq> None" if "z \<in> set xs" for z using sched_inv_thread(6) [OF sinv that] by auto
  have xy: "x \<in> set ys" using RF(2) [of x] rx x(1) by (auto simp: RF(1) dead_def runnable_def tw_def)
  have cy: "cur \<in> set ys" using RF(2) [of cur] I(3) by (auto simp: RF(1) dead_def cur_def)
  have dy: "distinct ys" using I(2) by (simp add: RF(1))
  have wid: "id_of tw z = id_of (threads s) z" if "z \<in> set xs" for z
    using wake_all_fields(1) [where ts = "threads s", OF ne [OF that]] by (simp add: tw_def)
  obtain A B where "id_of tw (choose_next tw (order cur ys)) \<noteq> 0"
    using choose_split [of x "order cur ys" tw] xy rx x wid order_set [OF cy dy] by (metis tw_def)
  moreover note O = out [unfolded preempt_outcome_def Let_def, folded tw_def, folded cur_def, folded ys_def]
  moreover have "set ys \<subseteq> set xs" unfolding ys_def by (rule reap_list_subset)
  ultimately show False using idle wid by (metis subsetD)
qed

end

section \<open>Properties on the kernel's heap\<close>

text \<open>
  For the witnesses: the idle thread runs, the shell thread (id 1) is ready, and the heap holds
  their structures, the shell's stack and a free block.
\<close>

definition boot_heap :: heap where
  "boot_heap = \<lparr>blocks = [4096 \<mapsto> \<lparr>b_size = 576, b_free = False, b_next = 4704, b_prev = 0\<rparr>,
      4704 \<mapsto> \<lparr>b_size = 576, b_free = False, b_next = 5312, b_prev = 4096\<rparr>,
      5312 \<mapsto> \<lparr>b_size = 65536, b_free = False, b_next = 70880, b_prev = 4704\<rparr>,
      70880 \<mapsto> \<lparr>b_size = 131072, b_free = True, b_next = 0, b_prev = 5312\<rparr>],
     heap_head = 4096, total_size = 197888, used_size = 66784, payload = \<lambda>_. 0\<rparr>"

definition boot_segs :: "seg list" where
  "boot_segs = [(576, False), (576, False), (65536, False), (131072, True)]"

definition boot_sched :: "heap sched" where
  "boot_sched = \<lparr>threads =
      [4736 \<mapsto> \<lparr>fxsave = [1], t_rsp = 70000, t_id = 1, t_name = [], t_state = T_READY, wake_tick = 0,
          stack_base = 5344, t_next = 4128\<rparr>,
       4128 \<mapsto> \<lparr>fxsave = [], t_rsp = 0, t_id = 0, t_name = [], t_state = T_RUNNING, wake_tick = 0,
          stack_base = 0, t_next = 4736\<rparr>],
     current = 4128, ring = 4736, active = True, next_id = 1, slice_start = 0, fpu = [2],
     stack_words = \<lambda>_. 0, sheap = boot_heap\<rparr>"

lemma boot_heap_inv: "heap_inv 4096 boot_segs boot_heap"
  by (simp add: inv_simps boot_heap_def boot_segs_def)

lemma boot_sched_inv: "sched_inv heap_ok heap_regions [4736, 4128] boot_sched"
proof -
  have "heap_ok boot_heap" using boot_heap_inv by (auto simp: heap_ok_def)
  moreover have "{4128, 4736, 5344} \<subseteq> fst ` heap_regions boot_heap"
    unfolding heap_regions_eq [OF boot_heap_inv] by (simp add: boot_segs_def)
  ultimately show ?thesis
    by (simp add: sched_inv_def boot_sched_def blocks_of_def runnable_def)
qed

text \<open>
  C8: \<open>sched\_preempt\<close> in any state that satisfies the invariant: it never faults; sleepers whose time
  has come are woken; of the threads after the current one in ring order the first that can run
  and is not idle is taken, the idle thread only if there is none; the interrupted context and the
  FPU registers are saved in the old thread and the new thread's are restored (nothing is saved
  or restored when the current thread goes on); ended threads leave the ring, and exactly their
  structures and stacks go back to the heap; the invariant is kept.
\<close>

theorem preempt_switches_context:
  assumes "sched_inv heap_ok heap_regions xs s"
  shows "\<exists>r s'. sched_preempt kernel_heap now rsp s = Some (r, s') \<and> preempt_outcome now rsp xs s r s' \<and>
    sched_inv heap_ok heap_regions (reap_list (wake_all now (set xs) (threads s)) (current s) xs) s' \<and>
    heap_regions (sheap s') = {q \<in> heap_regions (sheap s).
      \<forall>x\<in>reaped (wake_all now (set xs) (threads s)) (current s) xs. fst q \<notin> set (blocks_of (threads s) x)}"
  by (rule kheap.preempt_lemma [OF assms, of now rsp]) blast

theorem preempt_switches_context_witness:
  "\<exists>s'. sched_preempt kernel_heap 9 80000 boot_sched = Some (70000, s') \<and> current s' = 4736 \<and>
    fpu s' = [1] \<and> t_rsp (the (threads s' 4128)) = 80000"
proof -
  have o: "order 4128 [4736, 4128] = [4736, 4128 :: u64]" by (simp add: order_def)
  show ?thesis
    using preempt_switches_context [OF boot_sched_inv, of 9 80000]
    by (auto simp: preempt_outcome_def Let_def reap_list_def dead_def wake_all_def wake_thread_def
        boot_sched_def o choose_next_def runnable_def)
qed

text \<open>
  C12: no starvation. In every run of context switches (interrupts that preempt, calls that sleep or
  exit), a thread that is ready gets the processor after at most as many switches as there are
  threads between the current one and it in ring order, plus one.
\<close>

theorem ready_thread_runs:
  assumes "sched_inv heap_ok heap_regions xs (S 0)" "\<And>i. switch_step kernel_heap (S i) (S (Suc i))"
    and "t \<in> set xs" "t \<noteq> current (S 0)" "state_of (threads (S 0)) t = T_READY" "id_of (threads (S 0)) t \<noteq> 0"
  shows "\<exists>k. 0 < k \<and> k \<le> turns_before (current (S 0)) xs t + 1 \<and> current (S k) = t"
  by (rule kheap.ready_runs_lemma [OF assms])

primrec boot_run :: "nat \<Rightarrow> heap sched" where
  "boot_run 0 = boot_sched"
| "boot_run (Suc i) = snd (the (sched_preempt kernel_heap 9 80000 (boot_run i)))"

lemma boot_run_inv: "\<exists>xs. sched_inv heap_ok heap_regions xs (boot_run i)"
proof (induction i)
  case 0
  then show ?case using boot_sched_inv by auto
next
  case (Suc i)
  then obtain xs where inv: "sched_inv heap_ok heap_regions xs (boot_run i)" by blast
  show ?case by (rule kheap.preempt_lemma [OF inv, of 9 80000]) auto
qed

lemma boot_run_step: "switch_step kernel_heap (boot_run i) (boot_run (Suc i))"
proof -
  obtain xs where inv: "sched_inv heap_ok heap_regions xs (boot_run i)" using boot_run_inv by blast
  obtain r s' where "sched_preempt kernel_heap 9 80000 (boot_run i) = Some (r, s')"
    by (rule kheap.preempt_lemma [OF inv, of 9 80000])
  then show ?thesis using switch_preempt [of kernel_heap 9 80000 "boot_run i" r s'] by simp
qed

theorem ready_thread_runs_witness: "\<exists>k. 0 < k \<and> k \<le> 1 \<and> current (boot_run k) = 4736"
proof -
  have "turns_before 4128 [4736, 4128] 4736 = 0" by (simp add: turns_before_def order_def)
  then show ?thesis
    using ready_thread_runs [of "[4736, 4128]" boot_run 4736] boot_sched_inv boot_run_step
    by (simp add: boot_sched_def)
qed

text \<open>
  C15: in every state that the scheduler can reach from one that satisfies the invariant, by timer
  interrupts, yields, sleeps, exits and thread creations in any order, the invariant holds and every
  operation returns: the timer tick, a switch and a yield always, sleeping and ending for every thread
  but the idle thread (which calls neither), a creation with any NUL-terminated name; the ring is
  counted right and listed completely.
\<close>

theorem sched_runs_safely:
  assumes "sched_inv heap_ok heap_regions xs s" "(sched_step kernel_heap)\<^sup>*\<^sup>* s s'"
  shows "\<exists>ys. sched_inv heap_ok heap_regions ys s' \<and>
    (\<forall>now rsp. sched_preempt kernel_heap now rsp s' \<noteq> None \<and> sched_tick kernel_heap now rsp s' \<noteq> None \<and>
      sched_yield kernel_heap now rsp s' \<noteq> None) \<and>
    (id_of (threads s') (current s') \<noteq> 0 \<longrightarrow>
      (\<forall>ms now rsp. thread_sleep_ms kernel_heap ms now rsp s' \<noteq> None \<and> thread_exit kernel_heap now rsp s' \<noteq> None)) \<and>
    (\<forall>tr name fn arg. 0 \<in> set name \<longrightarrow> thread_create kernel_heap tr name fn arg s' \<noteq> None) \<and>
    sched_thread_count s' = Some (length ys) \<and>
    (\<exists>rows. sched_dump s' = Some rows \<and> length rows = length ys)"
proof -
  obtain ys where "sched_inv heap_ok heap_regions ys s'" using kheap.run_inv [OF assms(2,1)] by blast
  from this kheap.never_faults [OF this] show ?thesis by blast
qed

theorem sched_runs_safely_witness:
  "(\<exists>ys. sched_inv heap_ok heap_regions ys (boot_run 1) \<and> sched_thread_count (boot_run 1) = Some (length ys)) \<and>
   (\<exists>r s'. thread_create kernel_heap 0 [97, 0] 0 0 (boot_run 1) = Some (r, s'))"
proof -
  obtain xs where inv: "sched_inv heap_ok heap_regions xs boot_sched" using boot_sched_inv by blast
  obtain r s' where p: "sched_preempt kernel_heap 9 80000 boot_sched = Some (r, s')"
    by (rule kheap.preempt_lemma [OF inv, of 9 80000])
  then have "sched_step kernel_heap boot_sched (boot_run 1)"
    by (intro step_yield [of kernel_heap 9 80000 _ r]) (simp add: sched_yield_def boot_sched_def)
  then have "(sched_step kernel_heap)\<^sup>*\<^sup>* boot_sched (boot_run 1)" by blast
  from sched_runs_safely [OF boot_sched_inv this] show ?thesis by (metis (no_types, lifting) list.set_intros(1,2) not_None_eq surj_pair)
qed

text \<open>
  \<open>thread\_create\<close> with a NUL-terminated name: when the heap has no room it returns -1 and all
  regions in use are as before. Otherwise the new thread stands behind the first of the ring with
  the next id, its name cut to 23 bytes and a stack of its own, and an interrupt return from its
  saved stack pointer pops a context that enters the trampoline with the function and its argument
  in RDI and RSI, interrupts on, and a stack aligned as after a call; the ring is well-formed and
  every other thread is as before.
\<close>

theorem thread_create_frame:
  assumes "ring_inv heap_ok heap_regions xs s" "0 \<notin> set nm"
  shows "(\<exists>h. thread_create kernel_heap tr (nm @ 0 # rest) fn arg s = Some (-1, s\<lparr>sheap := h\<rparr>) \<and>
      heap_ok h \<and> heap_regions h = heap_regions (sheap s)) \<or>
    (\<exists>t s'. thread_create kernel_heap tr (nm @ 0 # rest) fn arg s = Some (next_id s + 1, s') \<and>
      ring_inv heap_ok heap_regions (insert_second t xs) s' \<and> t \<notin> set xs \<and> created tr fn arg nm s t s')"
  by (rule kheap.thread_create_lemma [OF assms])

lemma boot_malloc:
  "\<exists>h1 h2 h3. malloc THREAD_SIZE boot_heap = Some (70912, h1) \<and> malloc STACK_SIZE h1 = Some (71520, h2) \<and>
    malloc THREAD_SIZE h2 = Some (137088, h3)"
proof -
  have r: "unat (round_size THREAD_SIZE) = 576" "unat (round_size STACK_SIZE) = 65536"
    by (simp_all add: round_size_eq THREAD_SIZE_def STACK_SIZE_def)
  have z: "THREAD_SIZE \<noteq> 0" "STACK_SIZE \<noteq> 0" by (simp_all add: THREAD_SIZE_def STACK_SIZE_def)
  obtain h1 where h1: "malloc THREAD_SIZE boot_heap = Some (70912, h1)"
    "heap_inv 4096 [(576, False), (576, False), (65536, False), (576, False), (130464, True)] h1"
    using malloc_refines_lemma [OF boot_heap_inv z(1)] r(1) by (auto simp: boot_segs_def)
  obtain h2 where h2: "malloc STACK_SIZE h1 = Some (71520, h2)"
    "heap_inv 4096 [(576, False), (576, False), (65536, False), (576, False), (65536, False), (64896, True)] h2"
    using malloc_refines_lemma [OF h1(2) z(2)] r(2) by auto
  obtain h3 where "malloc THREAD_SIZE h2 = Some (137088, h3)"
    using malloc_refines_lemma [OF h2(2) z(1)] r(1) by auto
  with h1 h2 show ?thesis by blast
qed

theorem thread_create_frame_witness:
  "\<exists>t s'. thread_create kernel_heap 0x100 [104, 105, 0] 0x200 7 boot_sched = Some (2, s') \<and>
    ring_inv heap_ok heap_regions [4736, t, 4128] s' \<and> id_of (threads s') t = 2"
proof -
  have "ring_inv heap_ok heap_regions [4736, 4128] boot_sched" by (rule sched_inv_ringD [OF boot_sched_inv])
  note F = thread_create_frame [OF this, of "[104, 105]" "0x100" "[]" "0x200" 7]
  obtain h1 h2 h3 where m: "malloc THREAD_SIZE boot_heap = Some (70912, h1)" "malloc STACK_SIZE h1 = Some (71520, h2)"
    "malloc THREAD_SIZE h2 = Some (137088, h3)" using boot_malloc by blast
  have "thread_create kernel_heap 0x100 [104, 105, 0] 0x200 7 boot_sched \<noteq> Some (-1, s')" for s'
    using m by (auto simp: thread_create_def kernel_heap_def boot_sched_def bind_Some_iff Let_def split: prod.splits)
  with F obtain t s' where "thread_create kernel_heap 0x100 [104, 105, 0] 0x200 7 boot_sched = Some (next_id boot_sched + 1, s')"
    "ring_inv heap_ok heap_regions (insert_second t [4736, 4128]) s'"
    "created 0x100 0x200 7 [104, 105] boot_sched t s'" by auto
  moreover have "next_id boot_sched = 1" by (simp add: boot_sched_def)
  ultimately show ?thesis
    by (intro exI [of _ t] exI [of _ s']) (auto simp: insert_second_def created_def)
qed

text \<open>
  The idle thread gets the processor only when no other thread of the ring can run at that time.
\<close>

theorem idle_runs_last:
  assumes "sched_inv heap_ok heap_regions xs s" "sched_preempt kernel_heap now rsp s = Some (r, s')"
    and "id_of (threads s') (current s') = 0" "x \<in> set xs" "id_of (threads s) x \<noteq> 0"
  shows "\<not> runnable (the (wake_all now (set xs) (threads s) x))"
  by (rule kheap.idle_last_lemma [OF assms])

text \<open>The shell sleeps until tick 100.\<close>

definition asleep_sched :: "heap sched" where
  "asleep_sched = boot_sched\<lparr>threads := (threads boot_sched)(4736 \<mapsto>
     (the (threads boot_sched 4736))\<lparr>t_state := T_SLEEPING, wake_tick := 100\<rparr>)\<rparr>"

theorem idle_runs_last_witness:
  "\<exists>r s'. sched_preempt kernel_heap 9 80000 asleep_sched = Some (r, s') \<and> current s' = 4128 \<and>
    \<not> runnable (the (wake_all 9 {4736, 4128} (threads asleep_sched) 4736))"
proof -
  have "sched_inv heap_ok heap_regions [4736, 4128] asleep_sched"
    using boot_sched_inv by (simp add: sched_inv_def asleep_sched_def boot_sched_def blocks_of_def runnable_def)
  note inv = this
  have o: "order 4128 [4736, 4128] = [4736, 4128 :: u64]" by (simp add: order_def)
  obtain r s' where p: "sched_preempt kernel_heap 9 80000 asleep_sched = Some (r, s')"
    and out: "preempt_outcome 9 80000 [4736, 4128] asleep_sched r s'"
    by (rule kheap.preempt_lemma [OF inv, of 9 80000])
  have "current s' = 4128 \<and> id_of (threads s') 4128 = 0"
    using out by (simp add: preempt_outcome_def Let_def reap_list_def dead_def wake_all_def wake_thread_def
        asleep_sched_def boot_sched_def o choose_next_def runnable_def)
  moreover have "id_of (threads asleep_sched) 4736 \<noteq> 0" by (simp add: asleep_sched_def boot_sched_def)
  ultimately show ?thesis using idle_runs_last [OF inv p, of 4736] p by auto
qed

text \<open>
  The boot sequence of \<open>main.c\<close>, \<open>sched\_init\<close>, one \<open>thread\_create\<close> that succeeds and
  \<open>sched\_start\<close> with room for the idle thread, establishes the invariant: the ring is the created
  thread, ready to run, and the idle thread, which is the current one.
\<close>

theorem boot_establishes_invariant:
  assumes "heap_ok (sheap s0)" "next_id s0 = 0" "0 \<notin> set nm"
    and "thread_create kernel_heap tr (nm @ 0 # rest) fn arg (sched_init s0) = Some (1, s1)"
    and "sched_start kernel_heap now s1 = Some s2"
  shows "\<exists>t idle. sched_inv heap_ok heap_regions [t, idle] s2 \<and> current s2 = idle \<and>
    id_of (threads s2) t = 1 \<and> state_of (threads s2) t = T_READY"
proof -
  have "ring_inv heap_ok heap_regions [] (sched_init s0)"
    using assms(1,2) by (simp add: ring_inv_def sched_init_def)
  from kheap.thread_create_lemma [OF this assms(3), of tr rest fn arg] assms(2,4)
  obtain t where t: "ring_inv heap_ok heap_regions [t] s1" "created tr fn arg nm (sched_init s0) t s1"
    by (auto simp: insert_second_def)
  then have th: "threads s1 t \<noteq> None" "id_of (threads s1) t = 1" "state_of (threads s1) t = T_READY"
    using assms(2) by (auto simp: created_def sched_init_def)
  obtain i where i: "i \<notin> set [t]" "current s2 = i" "sched_inv heap_ok heap_regions (insert_second i [t]) s2"
    "\<forall>x\<in>set [t]. view (threads s2) x = view (threads s1) x"
    using kheap.sched_start_lemma [OF t(1) _ assms(5)] th by auto
  have v: "view (threads s1) t = view (threads s2) t" using i(4) by simp
  have "sched_inv heap_ok heap_regions [t, i] s2" using i(3) by (simp add: insert_second_def)
  with i(2) th view_fields(2,3) [OF v th(1)] show ?thesis by auto
qed

lemma idle_name: "\<exists>nm. c_strcpy (replicate 24 0) [105, 100, 108, 101, 0] = Some nm"
proof -
  have "(replicate 24 0 :: u8 list) = 0 # 0 # 0 # 0 # 0 # replicate 19 0" by (simp add: numeral_eq_Suc)
  then show ?thesis by simp
qed

theorem boot_establishes_invariant_witness:
  "\<exists>s1 s2 t idle. thread_create kernel_heap 0x100 [104, 105, 0] 0x200 7
      (sched_init (boot_sched\<lparr>next_id := 0\<rparr>)) = Some (1, s1) \<and>
    sched_start kernel_heap 5 s1 = Some s2 \<and> sched_inv heap_ok heap_regions [t, idle] s2"
proof -
  let ?s0 = "boot_sched\<lparr>next_id := 0\<rparr>"
  have ok: "heap_ok (sheap ?s0)" "next_id ?s0 = 0"
    using boot_heap_inv by (auto simp: heap_ok_def boot_sched_def)
  then have ri: "ring_inv heap_ok heap_regions [] (sched_init ?s0)"
    by (simp add: ring_inv_def sched_init_def)
  obtain h1 h2 h3 where m: "malloc THREAD_SIZE boot_heap = Some (70912, h1)" "malloc STACK_SIZE h1 = Some (71520, h2)"
    "malloc THREAD_SIZE h2 = Some (137088, h3)" using boot_malloc by blast
  have "thread_create kernel_heap 0x100 [104, 105, 0] 0x200 7 (sched_init ?s0) \<noteq> Some (-1, s')" for s'
    using m by (auto simp: thread_create_def kernel_heap_def boot_sched_def sched_init_def bind_Some_iff Let_def
        split: prod.splits)
  with kheap.thread_create_lemma [OF ri, of "[104, 105]" "0x100" "[]" "0x200" 7] ok(2) obtain t s1 where
    c: "thread_create kernel_heap 0x100 [104, 105, 0] 0x200 7 (sched_init ?s0) = Some (1, s1)"
    and r1: "ring_inv heap_ok heap_regions (insert_second t []) s1" by (auto simp: sched_init_def)
  have "sheap s1 = h2"
    using c m
    by (cases "fold push_word (initial_frame (71520 + STACK_SIZE AND - 16) 0x100 0x200 7) (71520 + STACK_SIZE AND - 16, \<lambda>_. 0)")
      (auto simp: thread_create_def kernel_heap_def boot_sched_def sched_init_def bind_Some_iff Let_def ring_insert_def)
  moreover obtain rt where "threads s1 (ring s1) = Some rt"
    using ring_invD(4) [OF r1] by (auto simp: insert_second_def split: option.splits)
  ultimately obtain s2 where s2: "sched_start kernel_heap 5 s1 = Some s2"
    using m(3) idle_name by (cases "ring s1 = 0") (auto simp: sched_start_def kernel_heap_def ring_insert_def)
  obtain t i where "sched_inv heap_ok heap_regions [t, i] s2"
    using boot_establishes_invariant [OF ok, of "[104, 105]" "0x100" "[]" "0x200" 7 s1 5 s2] c s2 by auto
  with c s2 show ?thesis by blast
qed

end
