(* ===== verification/Vfs.thy ===== *)
theory Vfs
  imports Heap
begin

text \<open>
  The file system of \<open>vfs.c\<close>: nodes in a store addressed by their pointers, the children of a
  directory linked through \<open>v\_next\<close>, file data in heap objects. A C string is the list of its bytes
  before the NUL, and a pointer into it the rest of that list. \<open>None\<close> is an access to a missing node
  or outside an object, or a loop that does not end. Fresh heap memory holds arbitrary bytes, the
  parameter \<open>junk\<close>.
\<close>

section \<open>State\<close>

record vnode =
  v_name :: "u8 list"
  v_is_dir :: bool
  v_readonly :: bool
  v_data :: u64
  v_size :: u64
  v_cap :: u64
  v_parent :: u64
  v_children :: u64
  v_next :: u64

type_synonym vnodes = "u64 \<rightharpoonup> vnode"

record 'h vfs =
  nodes :: vnodes
  objects :: "u64 \<rightharpoonup> u8 list"
  vheap :: 'h

definition VFS_NAME_MAX :: nat where "VFS_NAME_MAX = 64"
definition VNODE_SIZE :: u64 where "VNODE_SIZE = 120"

abbreviation SLASH :: u8 where "SLASH \<equiv> 47"
abbreviation DOT :: u8 where "DOT \<equiv> 46"

definition vfs_init :: "u64 \<Rightarrow> 'h vfs \<Rightarrow> 'h vfs" where
  "vfs_init root s = s\<lparr>nodes := (nodes s)(root \<mapsto>
     \<lparr>v_name = [SLASH], v_is_dir = True, v_readonly = False, v_data = 0, v_size = 0, v_cap = 0,
      v_parent = 0, v_children = 0, v_next = 0\<rparr>)\<rparr>"

section \<open>Names and paths\<close>

text \<open>
  The list of a directory is searched for a child of the name given by its first \<open>len\<close> bytes; the
  two tests on length and bytes together are equality of the names.
\<close>

partial_function (option) find_child :: "vnodes \<Rightarrow> u64 \<Rightarrow> u8 list \<Rightarrow> u64 option" where
  "find_child ns c name =
     (if c = 0 then Some 0
      else ns c \<bind> (\<lambda>n. if v_name n = name then Some c else find_child ns (v_next n) name))"

definition dir_find :: "vnodes \<Rightarrow> u64 \<Rightarrow> u8 list \<Rightarrow> u64 option" where
  "dir_find ns dir name = ns dir \<bind> (\<lambda>d. find_child ns (v_children d) name)"

definition skip_slashes :: "u8 list \<Rightarrow> u8 list" where
  "skip_slashes p = dropWhile (\<lambda>c. c = SLASH) p"

definition component :: "u8 list \<Rightarrow> u8 list" where
  "component p = takeWhile (\<lambda>c. c \<noteq> SLASH) p"

definition after_component :: "u8 list \<Rightarrow> u8 list" where
  "after_component p = skip_slashes (dropWhile (\<lambda>c. c \<noteq> SLASH) p)"

lemma after_component_shorter: "after_component p \<noteq> [] \<Longrightarrow> length (after_component p) < length p"
proof -
  assume a: "after_component p \<noteq> []"
  have l: "length (dropWhile P xs) \<le> length xs" for P and xs :: "u8 list" by (rule length_dropWhile_le)
  obtain c q where p: "p = c # q" using a by (cases p) (auto simp: after_component_def skip_slashes_def)
  show ?thesis
  proof (cases "c = SLASH")
    case True
    then show ?thesis using p l [of "\<lambda>c. c = SLASH" q] by (simp add: after_component_def skip_slashes_def)
  next
    case False
    then have "length (after_component p) \<le> length (dropWhile (\<lambda>c. c \<noteq> SLASH) q)"
      using p l [of "\<lambda>c. c = SLASH" "dropWhile (\<lambda>c. c \<noteq> SLASH) q"]
      by (simp add: after_component_def skip_slashes_def)
    also have "\<dots> \<le> length q" by (rule l)
    finally show ?thesis using p by simp
  qed
qed

lemma after_component_less: "p \<noteq> [] \<Longrightarrow> length (after_component p) < length p"
  using after_component_shorter [of p] by (cases "after_component p") auto

text \<open>One step from a directory to the node a component names; 0 is NULL.\<close>

definition step_to :: "vnodes \<Rightarrow> u64 \<Rightarrow> u8 list \<Rightarrow> u64 option" where
  "step_to ns cur cn =
     (if cn = [DOT] then Some cur
      else if cn = [DOT, DOT] then
        ns cur \<bind> (\<lambda>n. Some (if v_parent n \<noteq> 0 then v_parent n else cur))
      else dir_find ns cur cn)"

text \<open>The result is the node (0 for NULL) and the value left in \<open>leaf\<close>, when it is set.\<close>

function walk_loop :: "vnodes \<Rightarrow> bool \<Rightarrow> u64 \<Rightarrow> u8 list \<Rightarrow> (u64 \<times> u8 list option) option" where
  "walk_loop ns stop_at_last cur p =
     (let cn = component p; rest = after_component p; is_last = (rest = [])
      in if is_last \<and> stop_at_last then Some (cur, Some p)
         else step_to ns cur cn \<bind> (\<lambda>nxt.
           if nxt = 0 then Some (0, None)
           else if is_last then Some (nxt, None)
           else ns nxt \<bind> (\<lambda>n.
             if \<not> v_is_dir n then Some (0, None)
             else walk_loop ns stop_at_last nxt rest)))"
  by pat_completeness auto
termination
  by (relation "measure (\<lambda>(ns, st, cur, p). length p)") (auto simp: after_component_shorter)

declare walk_loop.simps [simp del]

definition start_dir :: "u64 \<Rightarrow> u64 \<Rightarrow> u8 list \<Rightarrow> u64" where
  "start_dir root cwd path =
     (if path \<noteq> [] \<and> hd path = SLASH then root else if cwd \<noteq> 0 then cwd else root)"

definition walk :: "u64 \<Rightarrow> vnodes \<Rightarrow> u8 list \<Rightarrow> u64 \<Rightarrow> bool \<Rightarrow> (u64 \<times> u8 list option) option" where
  "walk root ns path cwd stop_at_last =
     (let cur = start_dir root cwd path; p = skip_slashes path
      in if p = [] then Some (if stop_at_last then 0 else cur, None)
         else walk_loop ns stop_at_last cur p)"

definition vfs_resolve :: "u64 \<Rightarrow> vnodes \<Rightarrow> u8 list \<Rightarrow> u64 \<Rightarrow> u64 option" where
  "vfs_resolve root ns path cwd = map_option fst (walk root ns path cwd False)"

definition vfs_resolve_parent :: "u64 \<Rightarrow> vnodes \<Rightarrow> u8 list \<Rightarrow> u64 \<Rightarrow> (u64 \<times> u8 list option) option" where
  "vfs_resolve_parent root ns path cwd = walk root ns path cwd True"

section \<open>Creating nodes\<close>

definition vfs_create :: "'h heap_ops \<Rightarrow> u64 \<Rightarrow> u8 list \<Rightarrow> bool \<Rightarrow> 'h vfs \<Rightarrow> (u64 \<times> 'h vfs) option" where
  "vfs_create ops dir name is_dir s =
     (if dir = 0 then Some (0, s)
      else nodes s dir \<bind> (\<lambda>d.
        if \<not> v_is_dir d then Some (0, s)
        else if name = [] \<or> length name \<ge> VFS_NAME_MAX then Some (0, s)
        else dir_find (nodes s) dir name \<bind> (\<lambda>c.
          if c \<noteq> 0 then Some (0, s)
          else heap_malloc ops VNODE_SIZE (vheap s) \<bind> (\<lambda>(n, h).
            if n = 0 then Some (0, s\<lparr>vheap := h\<rparr>)
            else Some (n, s\<lparr>vheap := h, nodes := (nodes s)
              (n \<mapsto> \<lparr>v_name = name, v_is_dir = is_dir, v_readonly = False, v_data = 0, v_size = 0,
                    v_cap = 0, v_parent = dir, v_children = 0, v_next = v_children d\<rparr>,
               dir \<mapsto> d\<lparr>v_children := n\<rparr>)\<rparr>)))))"

function mkdirs_loop :: "'h heap_ops \<Rightarrow> u64 \<Rightarrow> u8 list \<Rightarrow> 'h vfs \<Rightarrow> (u64 \<times> 'h vfs) option" where
  "mkdirs_loop ops cur p s =
     (if p = [] then Some (cur, s)
      else let cn = component p; rest = after_component p
        in if cn = [DOT] then mkdirs_loop ops cur rest s
           else if cn = [DOT, DOT] then
             nodes s cur \<bind> (\<lambda>n.
               mkdirs_loop ops (if v_parent n \<noteq> 0 then v_parent n else cur) rest s)
           else dir_find (nodes s) cur cn \<bind> (\<lambda>nxt.
             (if nxt \<noteq> 0 then Some (nxt, s)
              else if length cn \<ge> VFS_NAME_MAX then Some (0, s)
              else vfs_create ops cur cn True s) \<bind> (\<lambda>(nxt, s).
             if nxt = 0 then Some (0, s)
             else nodes s nxt \<bind> (\<lambda>n.
               if \<not> v_is_dir n then Some (0, s) else mkdirs_loop ops nxt rest s))))"
  by pat_completeness auto
termination
  by (relation "measure (\<lambda>(ops, cur, p, s). length p)") (auto simp: after_component_less)

declare mkdirs_loop.simps [simp del]

definition vfs_mkdirs :: "'h heap_ops \<Rightarrow> u64 \<Rightarrow> u8 list \<Rightarrow> u64 \<Rightarrow> 'h vfs \<Rightarrow> (u64 \<times> 'h vfs) option" where
  "vfs_mkdirs ops root path cwd s = mkdirs_loop ops (start_dir root cwd path) (skip_slashes path) s"

section \<open>File data\<close>

partial_function (option) grow_cap :: "u64 \<Rightarrow> u64 \<Rightarrow> u64 option" where
  "grow_cap newcap end_pos = (if newcap < end_pos then grow_cap (newcap * 2) end_pos else Some newcap)"

definition put_bytes :: "u64 \<Rightarrow> u64 \<Rightarrow> u8 list \<Rightarrow> 'h vfs \<Rightarrow> 'h vfs option" where
  "put_bytes p off bs s =
     objects s p \<bind> (\<lambda>ob. blit ob (unat off) bs \<bind> (\<lambda>ob'. Some (s\<lparr>objects := (objects s)(p \<mapsto> ob')\<rparr>)))"

text \<open>
  Making room: a new object of \<open>newcap\<close> bytes takes the bytes of the file so far. The result is
  \<open>False\<close> when the heap has no room.
\<close>

definition ensure_cap :: "'h heap_ops \<Rightarrow> (nat \<Rightarrow> u8) \<Rightarrow> u64 \<Rightarrow> u64 \<Rightarrow> 'h vfs \<Rightarrow> (bool \<times> 'h vfs) option" where
  "ensure_cap ops junk f end_pos s =
     nodes s f \<bind> (\<lambda>n.
     if end_pos > v_cap n then
       grow_cap (if v_cap n \<noteq> 0 then v_cap n else 64) end_pos \<bind> (\<lambda>newcap.
       heap_malloc ops newcap (vheap s) \<bind> (\<lambda>(nd, h).
       if nd = 0 then Some (False, s\<lparr>vheap := h\<rparr>)
       else
         let s1 = s\<lparr>vheap := h, objects := (objects s)(nd \<mapsto> map junk [0..<unat newcap])\<rparr>
         in (if v_data n \<noteq> 0 then
               objects s1 (v_data n) \<bind> (\<lambda>old.
               slice_at old 0 (unat (v_size n)) \<bind> (\<lambda>bs.
               put_bytes nd 0 bs s1 \<bind> (\<lambda>s2.
               heap_free ops (v_data n) (vheap s2) \<bind> (\<lambda>h2.
               Some (s2\<lparr>vheap := h2, objects := (objects s2)(v_data n := None)\<rparr>)))))
             else Some s1) \<bind> (\<lambda>s3.
             Some (True, s3\<lparr>nodes := (nodes s3)(f \<mapsto> n\<lparr>v_data := nd, v_cap := newcap\<rparr>)\<rparr>))))
     else Some (True, s))"

text \<open>The result is the C return value: -1, or the length as an \<open>int\<close>.\<close>

definition vfs_write ::
  "'h heap_ops \<Rightarrow> (nat \<Rightarrow> u8) \<Rightarrow> u64 \<Rightarrow> u8 list \<Rightarrow> u64 \<Rightarrow> u64 \<Rightarrow> 'h vfs \<Rightarrow> (u32 \<times> 'h vfs) option" where
  "vfs_write ops junk f buf off len s =
     (if f = 0 then Some (-1, s)
      else nodes s f \<bind> (\<lambda>n.
      if v_is_dir n \<or> v_readonly n then Some (-1, s)
      else
        let end_pos = off + len
        in ensure_cap ops junk f end_pos s \<bind> (\<lambda>(ok, s).
           if \<not> ok then Some (-1, s)
           else nodes s f \<bind> (\<lambda>n.
             (if off > v_size n
              then put_bytes (v_data n) (v_size n) (replicate (unat (off - v_size n)) 0) s
              else Some s) \<bind> (\<lambda>s.
             slice_at buf 0 (unat len) \<bind> (\<lambda>bs.
             (if bs = [] then Some s else put_bytes (v_data n) off bs s) \<bind> (\<lambda>s.
             Some (ucast len,
               if end_pos > v_size n then s\<lparr>nodes := (nodes s)(f \<mapsto> n\<lparr>v_size := end_pos\<rparr>)\<rparr>
               else s))))))))"

definition vfs_truncate ::
  "'h heap_ops \<Rightarrow> (nat \<Rightarrow> u8) \<Rightarrow> u64 \<Rightarrow> u64 \<Rightarrow> 'h vfs \<Rightarrow> (u32 \<times> 'h vfs) option" where
  "vfs_truncate ops junk f sz s =
     (if f = 0 then Some (-1, s)
      else nodes s f \<bind> (\<lambda>n.
      if v_is_dir n \<or> v_readonly n then Some (-1, s)
      else if sz \<le> v_size n then Some (0, s\<lparr>nodes := (nodes s)(f \<mapsto> n\<lparr>v_size := sz\<rparr>)\<rparr>)
      else vfs_write ops junk f [0] (sz - 1) 1 s \<bind> (\<lambda>(r, s).
        Some (if sint r < 0 then -1 else 0, s))))"

section \<open>Removing nodes\<close>

text \<open>
  The link that points to \<open>node\<close> is either the directory's or a sibling's: the loop walks the list
  with the previous sibling (0 for the directory's own link).
\<close>

partial_function (option) find_link :: "vnodes \<Rightarrow> u64 \<Rightarrow> u64 \<Rightarrow> u64 \<Rightarrow> u64 option option" where
  "find_link ns node prev c =
     (if c = 0 then Some None
      else if c = node then Some (Some prev)
      else ns c \<bind> (\<lambda>n. find_link ns node c (v_next n)))"

definition vfs_unlink :: "'h heap_ops \<Rightarrow> u64 \<Rightarrow> u64 \<Rightarrow> 'h vfs \<Rightarrow> (u32 \<times> 'h vfs) option" where
  "vfs_unlink ops root node s =
     (if node = 0 \<or> node = root then Some (-1, s)
      else nodes s node \<bind> (\<lambda>n.
      if v_is_dir n \<and> v_children n \<noteq> 0 then Some (-1, s)
      else nodes s (v_parent n) \<bind> (\<lambda>par.
        find_link (nodes s) node 0 (v_children par) \<bind> (\<lambda>link.
        case link of
          None \<Rightarrow> Some (-1, s)
        | Some prev \<Rightarrow>
            (if prev = 0 then Some ((nodes s)(v_parent n \<mapsto> par\<lparr>v_children := v_next n\<rparr>))
             else nodes s prev \<bind> (\<lambda>pn. Some ((nodes s)(prev \<mapsto> pn\<lparr>v_next := v_next n\<rparr>)))) \<bind> (\<lambda>ns.
            (if \<not> v_readonly n \<and> v_data n \<noteq> 0
             then heap_free ops (v_data n) (vheap s) \<bind> (\<lambda>h. Some (h, (objects s)(v_data n := None)))
             else Some (vheap s, objects s)) \<bind> (\<lambda>(h, obs).
            heap_free ops node h \<bind> (\<lambda>h.
            Some (0, s\<lparr>nodes := ns(node := None), objects := obs, vheap := h\<rparr>))))))))"

section \<open>Printing a path\<close>

partial_function (option) ancestors :: "vnodes \<Rightarrow> u64 \<Rightarrow> nat \<Rightarrow> u64 list \<Rightarrow> u64 list option" where
  "ancestors ns n depth stack =
     ns n \<bind> (\<lambda>nd.
     if v_parent nd \<noteq> 0 \<and> depth < 32 then ancestors ns (v_parent nd) (Suc depth) (n # stack)
     else Some stack)"

text \<open>
  Appending to a buffer of \<open>size\<close> bytes: only the bytes before the NUL are kept, so that the list
  \<open>out\<close> is \<open>buf[0..pos)\<close>.
\<close>

definition put_char :: "nat \<Rightarrow> u8 \<Rightarrow> u8 list \<Rightarrow> u8 list" where
  "put_char bsize c out = (if length out + 1 < bsize then out @ [c] else out)"

definition vfs_node_path :: "vnodes \<Rightarrow> u64 \<Rightarrow> nat \<Rightarrow> u8 list option" where
  "vfs_node_path ns node bsize =
     ns node \<bind> (\<lambda>nd.
     if v_parent nd = 0 then Some (take (bsize - 1) [SLASH])
     else ancestors ns node 0 [] \<bind> (\<lambda>stack.
       Some (fold (\<lambda>x out. fold (put_char bsize) (SLASH # v_name (the (ns x))) out) stack [])))"

section \<open>Reading and writing a file\<close>

text \<open>
  A writable file either has no data object, or one of \<open>v\_cap\<close> bytes that is a region in use; its
  contents are the first \<open>v\_size\<close> bytes.
\<close>

definition file_ok :: "('h \<Rightarrow> (u64 \<times> nat) set) \<Rightarrow> 'h vfs \<Rightarrow> u64 \<Rightarrow> bool" where
  "file_ok regions s f \<longleftrightarrow> f \<noteq> 0 \<and> (\<exists>n. nodes s f = Some n \<and> \<not> v_is_dir n \<and> \<not> v_readonly n \<and>
     (if v_data n = 0 then v_size n = 0 \<and> v_cap n = 0
      else v_size n \<le> v_cap n \<and> v_cap n \<noteq> 0 \<and> (\<exists>m. (v_data n, m) \<in> regions (vheap s)) \<and>
        (\<exists>ob. objects s (v_data n) = Some ob \<and> length ob = unat (v_cap n))))"

definition contents :: "'h vfs \<Rightarrow> u64 \<Rightarrow> u8 list" where
  "contents s f = (let n = the (nodes s f)
     in if v_data n = 0 then [] else take (unat (v_size n)) (the (objects s (v_data n))))"

definition splice :: "u8 list \<Rightarrow> nat \<Rightarrow> u8 list \<Rightarrow> u8 list" where
  "splice old off bs = take off (old @ replicate (off - length old) 0) @ bs @ drop (off + length bs) old"

lemma grow_cap_ends:
  assumes "newcap \<noteq> 0" "unat end_pos \<le> 2 ^ 62"
  shows "\<exists>c. grow_cap newcap end_pos = Some c \<and> end_pos \<le> c \<and> newcap \<le> c \<and>
    (c = newcap \<or> unat c < 2 ^ 63)"
  using assms
proof (induction "unat end_pos - unat newcap" arbitrary: newcap rule: less_induct)
  case less
  show ?case
  proof (cases "newcap < end_pos")
    case False
    then show ?thesis by (subst grow_cap.simps) (auto simp: not_less)
  next
    case True
    have lt: "unat newcap < unat end_pos" using True by (simp add: word_less_unat)
    have p: "0 < unat newcap" using less.prems(1) by (simp add: unat_gt_0)
    have d: "unat (newcap * 2) = 2 * unat newcap"
      using lt less.prems(2) by (simp add: unat_word_ariths)
    have nz: "newcap * 2 \<noteq> 0" using d p by (metis mult_eq_0_iff neq0_conv unat_eq_0 zero_neq_numeral)
    have g: "grow_cap newcap end_pos = grow_cap (newcap * 2) end_pos"
      using True by (subst grow_cap.simps) simp
    show ?thesis
    proof (cases "newcap * 2 < end_pos")
      case True
      have "unat end_pos - unat (newcap * 2) < unat end_pos - unat newcap" using d p lt by simp
      from less.hyps [OF this nz less.prems(2)] obtain c where c: "grow_cap (newcap * 2) end_pos = Some c"
        "end_pos \<le> c" "newcap * 2 \<le> c" "c = newcap * 2 \<or> unat c < 2 ^ 63" by blast
      then show ?thesis using g d lt less.prems(2) by (auto simp: word_le_unat)
    next
      case False
      then have "grow_cap (newcap * 2) end_pos = Some (newcap * 2)" by (subst grow_cap.simps) simp
      then show ?thesis using g False d lt less.prems(2) by (auto simp: word_le_unat not_less)
    qed
  qed
qed

context heap_allocator
begin

lemma ensure_cap_spec:
  assumes inv: "inv (vheap s)" and ok: "file_ok regions s f" and e: "unat end_pos \<le> 2 ^ 62"
    and big: "unat (v_cap (the (nodes s f))) < 2 ^ 63"
  shows "\<exists>b s'. ensure_cap ops junk f end_pos s = Some (b, s') \<and> inv (vheap s') \<and> file_ok regions s' f \<and>
    (\<not> b \<longrightarrow> s' = s \<and> v_cap (the (nodes s f)) < end_pos) \<and> contents s' f = contents s f \<and> v_size (the (nodes s' f)) = v_size (the (nodes s f)) \<and>
    (b \<longrightarrow> end_pos \<le> v_cap (the (nodes s' f))) \<and> unat (v_cap (the (nodes s' f))) < 2 ^ 63 \<and>
    (\<forall>g. g \<noteq> f \<longrightarrow> nodes s' g = nodes s g) \<and> (\<exists>d c. nodes s' f = Some ((the (nodes s f))\<lparr>v_data := d, v_cap := c\<rparr>)) \<and>
    arena (vheap s') = arena (vheap s) \<and>
    (\<forall>q m. (q, m) \<in> regions (vheap s) \<and> q \<noteq> v_data (the (nodes s f)) \<longrightarrow>
       objects s' q = objects s q \<and> (q, m) \<in> regions (vheap s') \<and> q \<noteq> v_data (the (nodes s' f)))"
proof -
  obtain n where n: "nodes s f = Some n" using ok by (auto simp: file_ok_def)
  show ?thesis
  proof (cases "end_pos > v_cap n")
    case False
    then have r: "ensure_cap ops junk f end_pos s = Some (True, s)" using n by (simp add: ensure_cap_def)
    have "Some n = Some (n\<lparr>v_data := v_data n, v_cap := v_cap n\<rparr>)" by simp
    then have "\<exists>d c. Some n = Some (n\<lparr>v_data := d, v_cap := c\<rparr>)" by blast
    then show ?thesis by (intro exI [of _ True] exI [of _ s]) (use r inv ok n False big in simp)
  next
    case True
    let ?c0 = "if v_cap n \<noteq> 0 then v_cap n else 64"
    have z: "?c0 \<noteq> 0" by simp
    obtain c where c: "grow_cap ?c0 end_pos = Some c" "end_pos \<le> c" "?c0 \<le> c" "c = ?c0 \<or> unat c < 2 ^ 63"
      using grow_cap_ends [OF z e] by blast
    have c63: "unat c < 2 ^ 63" using c(4) big n by (auto split: if_splits)
    have c0: "c \<noteq> 0" "unat c \<le> 2 ^ 64 - 16" using c(2) True c63 by (auto simp: word_less_unat word_le_unat)
    obtain nd h where m: "heap_malloc ops c (vheap s) = Some (nd, h)"
      using malloc_total [OF inv c0] by auto
    show ?thesis
    proof (cases "nd = 0")
      case True
      then have "h = vheap s" using malloc_null [OF inv c0] m by blast
      then have "ensure_cap ops junk f end_pos s = Some (False, s)"
        using \<open>end_pos > v_cap n\<close> n c(1) m True by (simp add: ensure_cap_def)
      moreover have "Some n = Some (n\<lparr>v_data := v_data n, v_cap := v_cap n\<rparr>)" by simp
      then have "\<exists>d c. Some n = Some (n\<lparr>v_data := d, v_cap := c\<rparr>)" by blast
      ultimately show ?thesis using inv ok big n \<open>end_pos > v_cap n\<close>
        by (intro exI [of _ False] exI [of _ s]) simp
    next
      case nz: False
      obtain l where h: "inv h" "regions h = insert (nd, l) (regions (vheap s))" "\<forall>n. (nd, n) \<notin> regions (vheap s)"
        using malloc_region [OF inv c0 m nz] by blast
      define ob where "ob = map junk [0..<unat c]"
      define s1 where "s1 = s\<lparr>vheap := h, objects := (objects s)(nd \<mapsto> ob)\<rparr>"
      let ?n' = "n\<lparr>v_data := nd, v_cap := c\<rparr>"
      show ?thesis
      proof (cases "v_data n = 0")
        case True
        let ?s = "s1\<lparr>nodes := (nodes s1)(f \<mapsto> ?n')\<rparr>"
        have r: "ensure_cap ops junk f end_pos s = Some (True, ?s)"
          using \<open>end_pos > v_cap n\<close> n c(1) m nz True by (simp add: ensure_cap_def s1_def ob_def)
        have v0: "v_size n = 0" using ok n True by (simp add: file_ok_def)
        have f: "file_ok regions ?s f" using ok n nz h(2) c0 v0 by (auto simp: file_ok_def s1_def ob_def)
        have "\<forall>q m. (q, m) \<in> regions (vheap s) \<and> q \<noteq> v_data n \<longrightarrow>
            objects ?s q = objects s q \<and> (q, m) \<in> regions (vheap ?s) \<and> q \<noteq> nd"
          using h(2,3) by (auto simp: s1_def)
        moreover have "inv (vheap ?s)" "arena (vheap ?s) = arena (vheap s)" "contents ?s f = contents s f"
          "nodes ?s f = Some ?n'" "\<forall>g. g \<noteq> f \<longrightarrow> nodes ?s g = nodes s g"
          using h(1) malloc_arena [OF m] True n v0 by (simp_all add: s1_def contents_def Let_def)
        moreover have "\<exists>d c. Some ?n' = Some (n\<lparr>v_data := d, v_cap := c\<rparr>)" by blast
        moreover have "end_pos \<le> v_cap (the (nodes ?s f))" "unat (v_cap (the (nodes ?s f))) < 2 ^ 63"
          "v_size (the (nodes ?s f)) = v_size n" "v_data (the (nodes ?s f)) = nd"
          using c(2) c63 n by (simp_all add: s1_def)
        ultimately have "\<exists>s'. ensure_cap ops junk f end_pos s = Some (True, s') \<and> inv (vheap s') \<and>
            file_ok regions s' f \<and> contents s' f = contents s f \<and> v_size (the (nodes s' f)) = v_size n \<and>
            end_pos \<le> v_cap (the (nodes s' f)) \<and> unat (v_cap (the (nodes s' f))) < 2 ^ 63 \<and>
            (\<forall>g. g \<noteq> f \<longrightarrow> nodes s' g = nodes s g) \<and> (\<exists>d c. nodes s' f = Some (n\<lparr>v_data := d, v_cap := c\<rparr>)) \<and>
            arena (vheap s') = arena (vheap s) \<and>
            (\<forall>q m. (q, m) \<in> regions (vheap s) \<and> q \<noteq> v_data n \<longrightarrow>
              objects s' q = objects s q \<and> (q, m) \<in> regions (vheap s') \<and> q \<noteq> v_data (the (nodes s' f)))"
          using r f by (intro exI [of _ ?s]) metis
        then show ?thesis unfolding n option.sel by blast
      next
        case False
        obtain old k where o: "objects s (v_data n) = Some old" "length old = unat (v_cap n)" "v_size n \<le> v_cap n"
          "(v_data n, k) \<in> regions (vheap s)"
          using ok n False by (auto simp: file_ok_def)
        have dn: "v_data n \<noteq> nd" using h(3) o(4) by blast
        have le: "unat (v_size n) \<le> length old" "unat (v_size n) \<le> length ob" "unat (v_cap n) \<le> unat c"
          using o(2,3) c(3) by (auto simp: word_le_unat ob_def split: if_splits)
        define bs where "bs = take (unat (v_size n)) old"
        have bs: "slice_at old 0 (unat (v_size n)) = Some bs" "length bs = unat (v_size n)"
          using le by (simp_all add: slice_at_def bs_def)
        define ob' where "ob' = bs @ drop (length bs) ob"
        have bl: "blit ob 0 bs = Some ob'" using le bs by (simp add: blit_def ob'_def)
        define s2 where "s2 = s1\<lparr>objects := (objects s1)(nd \<mapsto> ob')\<rparr>"
        have p2: "put_bytes nd 0 bs s1 = Some s2" using bl by (simp add: put_bytes_def s1_def s2_def)
        have "(v_data n, k) \<in> regions h" using o(4) h(2) by simp
        from free_region [OF h(1) this] obtain h2 where h2: "heap_free ops (v_data n) h = Some h2" "inv h2"
          "regions h2 = regions h - {(v_data n, k)}" by blast
        let ?s = "s2\<lparr>vheap := h2, objects := (objects s2)(v_data n := None), nodes := (nodes s)(f \<mapsto> ?n')\<rparr>"
        have r: "ensure_cap ops junk f end_pos s = Some (True, ?s)"
          using \<open>end_pos > v_cap n\<close> n c(1) m nz False o(1) dn bs(1) p2 h2(1)
          by (simp add: ensure_cap_def s1_def [symmetric] ob_def [symmetric]) (simp add: s1_def s2_def)
        have lob: "length ob' = unat c" using le bs by (simp add: ob'_def ob_def)
        have "v_size n \<le> c" using o(3) le(3) by (simp add: word_le_unat)
        then have f: "file_ok regions ?s f" using ok n nz h(2) h2(3) c0 dn lob
          by (auto simp: file_ok_def s2_def)
        have t: "take (unat (v_size n)) ob' = bs" using bs by (simp add: ob'_def)
        have "\<forall>q m. (q, m) \<in> regions (vheap s) \<and> q \<noteq> v_data n \<longrightarrow>
            objects ?s q = objects s q \<and> (q, m) \<in> regions (vheap ?s) \<and> q \<noteq> nd"
          using h(2,3) h2(3) by (auto simp: s2_def s1_def)
        moreover have "inv (vheap ?s)" "arena (vheap ?s) = arena (vheap s)" "contents ?s f = contents s f"
          "nodes ?s f = Some ?n'" "\<forall>g. g \<noteq> f \<longrightarrow> nodes ?s g = nodes s g"
          using h2(2) free_arena [OF h2(1)] malloc_arena [OF m] n False nz dn o(1) t
          by (simp_all add: contents_def bs_def Let_def s2_def s1_def)
        moreover have "\<exists>d c. Some ?n' = Some (n\<lparr>v_data := d, v_cap := c\<rparr>)" by blast
        moreover have "end_pos \<le> v_cap (the (nodes ?s f))" "unat (v_cap (the (nodes ?s f))) < 2 ^ 63"
          "v_size (the (nodes ?s f)) = v_size n" "v_data (the (nodes ?s f)) = nd"
          using c(2) c63 n by (simp_all add: s2_def)
        ultimately have "\<exists>s'. ensure_cap ops junk f end_pos s = Some (True, s') \<and> inv (vheap s') \<and>
            file_ok regions s' f \<and> contents s' f = contents s f \<and> v_size (the (nodes s' f)) = v_size n \<and>
            end_pos \<le> v_cap (the (nodes s' f)) \<and> unat (v_cap (the (nodes s' f))) < 2 ^ 63 \<and>
            (\<forall>g. g \<noteq> f \<longrightarrow> nodes s' g = nodes s g) \<and> (\<exists>d c. nodes s' f = Some (n\<lparr>v_data := d, v_cap := c\<rparr>)) \<and>
            arena (vheap s') = arena (vheap s) \<and>
            (\<forall>q m. (q, m) \<in> regions (vheap s) \<and> q \<noteq> v_data n \<longrightarrow>
              objects s' q = objects s q \<and> (q, m) \<in> regions (vheap s') \<and> q \<noteq> v_data (the (nodes s' f)))"
          using r f by (intro exI [of _ ?s]) metis
        then show ?thesis unfolding n option.sel by blast
      qed
    qed
  qed
qed

text \<open>Writing inside the capacity, the zeroes before an offset behind the end included.\<close>

lemma splice_take:
  assumes k: "k = max n (off + length bs)" "k \<le> length ob" "n \<le> length ob"
    and ob1: "ob1 = (if n < off then take n ob @ replicate (off - n) 0 @ drop off ob else ob)"
  shows "take k (take off ob1 @ bs @ drop (off + length bs) ob1) = splice (take n ob) off bs"
proof (cases "n < off")
  case True
  then have "take off ob1 = take n ob @ replicate (off - n) 0" using k by (simp add: ob1)
  moreover have "k = off + length bs" using True k by simp
  ultimately show ?thesis using True k(3) by (simp add: splice_def)
next
  case False
  then have "take off ob1 = take off (take n ob)" using ob1 by (simp add: min_def)
  moreover have "take (k - (off + length bs)) (drop (off + length bs) ob) = drop (off + length bs) (take n ob)"
    using k by (simp add: drop_take max_def)
  moreover have "length (take off (take n ob)) = off" using False k by simp
  moreover have "k - off - length bs = k - (off + length bs)" by simp
  moreover have "take (k - off) bs = bs" using k by simp
  moreover have "off - min (length ob) n = 0" using False k by simp
  ultimately show ?thesis using False k ob1 by (simp add: splice_def)
qed

lemma vfs_write_lemma:
  assumes inv: "inv (vheap s)" and ok: "file_ok regions s f"
    and sz: "unat off + unat len \<le> 2 ^ 62" "unat (v_cap (the (nodes s f))) < 2 ^ 63"
    and buf: "unat len \<le> length buf"
  shows "(vfs_write ops junk f buf off len s = Some (-1, s) \<and> v_cap (the (nodes s f)) < off + len) \<or>
    (\<exists>s'. vfs_write ops junk f buf off len s = Some (ucast len, s') \<and> inv (vheap s') \<and> file_ok regions s' f \<and>
      contents s' f = splice (contents s f) (unat off) (take (unat len) buf) \<and>
      unat (v_cap (the (nodes s' f))) < 2 ^ 63 \<and>
      (\<forall>g. g \<noteq> f \<longrightarrow> nodes s' g = nodes s g) \<and>
      (\<exists>d c z. nodes s' f = Some ((the (nodes s f))\<lparr>v_data := d, v_size := z, v_cap := c\<rparr>)) \<and>
      arena (vheap s') = arena (vheap s) \<and>
      (\<forall>q m. (q, m) \<in> regions (vheap s) \<and> q \<noteq> v_data (the (nodes s f)) \<longrightarrow>
        objects s' q = objects s q \<and> (q, m) \<in> regions (vheap s') \<and> q \<noteq> v_data (the (nodes s' f))))"
proof -
  define e where "e = off + len"
  have ue: "unat e = unat off + unat len" using sz(1) by (simp add: e_def unat_word_ariths)
  obtain n0 where n0: "nodes s f = Some n0" "\<not> v_is_dir n0" "\<not> v_readonly n0" "f \<noteq> 0"
    using ok by (auto simp: file_ok_def)
  have e62: "unat e \<le> 2 ^ 62" using ue sz(1) by simp
  obtain b s1 d c where c: "ensure_cap ops junk f e s = Some (b, s1)" "inv (vheap s1)" "file_ok regions s1 f"
    "\<not> b \<longrightarrow> s1 = s \<and> v_cap (the (nodes s f)) < e" "contents s1 f = contents s f" "v_size (the (nodes s1 f)) = v_size (the (nodes s f))"
    "b \<longrightarrow> e \<le> v_cap (the (nodes s1 f))" "unat (v_cap (the (nodes s1 f))) < 2 ^ 63"
    "\<forall>g. g \<noteq> f \<longrightarrow> nodes s1 g = nodes s g"
    "\<forall>q m. (q, m) \<in> regions (vheap s) \<and> q \<noteq> v_data (the (nodes s f)) \<longrightarrow>
       objects s1 q = objects s q \<and> (q, m) \<in> regions (vheap s1) \<and> q \<noteq> v_data (the (nodes s1 f))"
    "nodes s1 f = Some ((the (nodes s f))\<lparr>v_data := d, v_cap := c\<rparr>)" "arena (vheap s1) = arena (vheap s)"
    using ensure_cap_spec [OF inv ok e62 sz(2), of junk] by blast
  show ?thesis
  proof (cases b)
    case False
    then show ?thesis using c(1,4) n0 by (simp add: vfs_write_def Let_def e_def)
  next
    case True
    obtain n where n: "nodes s1 f = Some n" "\<not> v_is_dir n" "\<not> v_readonly n" using c(3) by (auto simp: file_ok_def)
    have sl: "slice_at buf 0 (unat len) = Some (take (unat len) buf)" using buf by (simp add: slice_at_def)
    define bs where "bs = take (unat len) buf"
    have lb: "length bs = unat len" using buf by (simp add: bs_def)
    have run: "vfs_write ops junk f buf off len s =
        (if off > v_size n then put_bytes (v_data n) (v_size n) (replicate (unat (off - v_size n)) 0) s1
         else Some s1) \<bind> (\<lambda>s. (if bs = [] then Some s else put_bytes (v_data n) off bs s) \<bind> (\<lambda>s.
        Some (ucast len, if e > v_size n then s\<lparr>nodes := (nodes s)(f \<mapsto> n\<lparr>v_size := e\<rparr>)\<rparr> else s)))"
      unfolding vfs_write_def Let_def e_def [symmetric] using n0 c(1) True n sl by (simp add: bs_def)
    have ec: "unat e \<le> unat (v_cap n)" using c(7) True n by (simp add: word_le_unat)
    show ?thesis
    proof (cases "v_data n = 0")
      case z: True
      then have v: "v_size n = 0" "v_cap n = 0" using c(3) n by (auto simp: file_ok_def)
      then have l0: "len = 0" "off = 0" "e = 0" using ec ue by (simp_all add: unat_eq_0 e_def)
      have "bs = []" using lb l0 by simp
      then have "vfs_write ops junk f buf off len s = Some (ucast len, s1)" using run v l0 by simp
      moreover have "contents s1 f = []" using z n by (simp add: contents_def Let_def)
      moreover have "n0\<lparr>v_data := d, v_cap := c\<rparr> = n0\<lparr>v_data := d, v_size := v_size n0, v_cap := c\<rparr>" by simp
      then have "\<exists>d' c' z. n0\<lparr>v_data := d, v_cap := c\<rparr> = n0\<lparr>v_data := d', v_size := z, v_cap := c'\<rparr>" by blast
      ultimately show ?thesis using c l0 \<open>bs = []\<close> n0(1)
        unfolding n0(1) option.sel
        by (intro disjI2 exI [of _ s1] conjI) (simp_all add: splice_def, blast?)
    next
      case nz: False
      obtain ob where ob: "objects s1 (v_data n) = Some ob" "length ob = unat (v_cap n)" "v_size n \<le> v_cap n"
        using c(3) n nz by (auto simp: file_ok_def)
      define old where "old = take (unat (v_size n)) ob"
      have sl: "unat (v_size n) \<le> length ob" using ob by (simp add: word_le_unat)
      have lo: "length old = unat (v_size n)" using sl by (simp add: old_def)
      have old: "contents s f = old" using c(5) n nz ob(1) by (simp add: contents_def old_def Let_def)
      define ob1 where "ob1 = (if length old < unat off
          then take (length old) ob @ replicate (unat off - length old) 0 @ drop (unat off) ob else ob)"
      have lob1: "length ob1 = length ob" using ec ue ob(2) lo sl by (auto simp: ob1_def)
      have p1: "(if off > v_size n then put_bytes (v_data n) (v_size n) (replicate (unat (off - v_size n)) 0) s1
         else Some s1) = Some (s1\<lparr>objects := (objects s1)(v_data n \<mapsto> ob1)\<rparr>)"
      proof (cases "off > v_size n")
        case True
        then have "v_size n \<le> off" by simp
        from unat_minus_small [OF this] have "unat (off - v_size n) = unat off - length old" using lo by simp
        moreover have "length old < unat off" using True lo by (simp add: word_less_unat)
        ultimately show ?thesis using True ob ec ue lo by (simp add: put_bytes_def blit_def ob1_def)
      next
        case False
        then have "\<not> length old < unat off" using lo by (simp add: word_less_unat)
        then show ?thesis using False ob by (simp add: ob1_def fun_upd_idem)
      qed
      define ob2 where "ob2 = take (unat off) ob1 @ bs @ drop (unat off + length bs) ob1"
      have lob2: "length ob2 = length ob" using ec ue ob(2) lb lob1 by (simp add: ob2_def)
      have p2: "(if bs = [] then Some s2 else put_bytes (v_data n) off bs s2) =
          Some (s2\<lparr>objects := (objects s2)(v_data n \<mapsto> ob2)\<rparr>)"
        if "s2 = s1\<lparr>objects := (objects s1)(v_data n \<mapsto> ob1)\<rparr>" for s2
        using that ec ue ob(2) lb lob1 by (auto simp: put_bytes_def blit_def ob2_def)
      let ?sz = "if e > v_size n then e else v_size n"
      define s3 where "s3 = s1\<lparr>objects := (objects s1)(v_data n \<mapsto> ob2), nodes := (nodes s1)(f \<mapsto> n\<lparr>v_size := ?sz\<rparr>)\<rparr>"
      have "(nodes s1)(f \<mapsto> n) = nodes s1" using n by auto
      then have res: "vfs_write ops junk f buf off len s = Some (ucast len, s3)"
        unfolding run p1 using p2 [OF refl] by (simp add: s3_def)
      have usz: "unat ?sz = max (length old) (unat off + length bs)" using ue lb lo by (auto simp: word_less_unat)
      have "take (unat ?sz) ob2 = splice old (unat off) bs"
        unfolding ob2_def old_def
        by (rule splice_take [OF usz [unfolded lo]]) (use usz ec ue ob sl lo lb in \<open>auto simp: ob1_def max_def\<close>)
      then have ct: "contents s3 f = splice old (unat off) bs" using nz by (simp add: contents_def s3_def Let_def)
      have "?sz \<le> v_cap n" using ec ob(3) by (auto simp: word_le_unat)
      then have fok: "file_ok regions s3 f" using c(3) n nz lob2 ob(2)
        by (auto simp: file_ok_def s3_def)
      have "n = n0\<lparr>v_data := d, v_cap := c\<rparr>" using n c(11) n0(1) by simp
      then have "n\<lparr>v_size := ?sz\<rparr> = n0\<lparr>v_data := d, v_size := ?sz, v_cap := c\<rparr>" by (cases n0) simp
      then have "\<exists>d' c' z. nodes s3 f = Some (n0\<lparr>v_data := d', v_size := z, v_cap := c'\<rparr>)"
        unfolding s3_def by auto
      moreover have fr: "\<forall>q m. (q, m) \<in> regions (vheap s) \<and> q \<noteq> v_data n0 \<longrightarrow>
          objects s3 q = objects s q \<and> (q, m) \<in> regions (vheap s3) \<and> q \<noteq> v_data (the (nodes s3 f))"
      proof (intro allI impI)
        fix q m assume "(q, m) \<in> regions (vheap s) \<and> q \<noteq> v_data n0"
        then have "objects s1 q = objects s q \<and> (q, m) \<in> regions (vheap s1) \<and> q \<noteq> v_data n"
          using c(10) unfolding n(1) n0(1) option.sel by blast
        then show "objects s3 q = objects s q \<and> (q, m) \<in> regions (vheap s3) \<and> q \<noteq> v_data (the (nodes s3 f))"
          by (simp add: s3_def)
      qed
      moreover have "inv (vheap s3)" "unat (v_cap (the (nodes s3 f))) < 2 ^ 63"
        "\<forall>g. g \<noteq> f \<longrightarrow> nodes s3 g = nodes s g" "arena (vheap s3) = arena (vheap s)"
        using c(2,8,9,12) n by (simp_all add: s3_def)
      ultimately show ?thesis using res fok ct unfolding n0(1) option.sel old bs_def by blast
    qed
  qed
qed

text \<open>Setting the length cuts the contents or fills them up with zeroes.\<close>

lemma vfs_truncate_lemma:
  assumes inv: "inv (vheap s)" and ok: "file_ok regions s f"
    and sz: "unat sz < 2 ^ 62" "unat (v_cap (the (nodes s f))) < 2 ^ 63"
  shows "(vfs_truncate ops junk f sz s = Some (-1, s) \<and> v_cap (the (nodes s f)) < sz) \<or>
    (\<exists>s'. vfs_truncate ops junk f sz s = Some (0, s') \<and> inv (vheap s') \<and> file_ok regions s' f \<and>
      contents s' f = take (unat sz) (contents s f @ replicate (unat sz - length (contents s f)) 0) \<and>
      (\<forall>g. g \<noteq> f \<longrightarrow> nodes s' g = nodes s g))"
proof -
  obtain n where n: "nodes s f = Some n" "\<not> v_is_dir n" "\<not> v_readonly n" "f \<noteq> 0"
    using ok by (auto simp: file_ok_def)
  have lc: "length (contents s f) = unat (v_size n)" using ok n
    by (auto simp: file_ok_def contents_def word_le_unat)
  show ?thesis
  proof (cases "sz \<le> v_size n")
    case True
    let ?s = "s\<lparr>nodes := (nodes s)(f \<mapsto> n\<lparr>v_size := sz\<rparr>)\<rparr>"
    have r: "vfs_truncate ops junk f sz s = Some (0, ?s)" using True n by (simp add: vfs_truncate_def)
    have f: "file_ok regions ?s f" using ok n True by (auto simp: file_ok_def)
    have "contents ?s f = take (unat sz) (contents s f)"
      using True n by (simp add: contents_def Let_def word_le_unat min_def)
    then show ?thesis using r f inv True lc by (auto simp: word_le_unat)
  next
    case False
    then have g: "v_size n < sz" by simp
    then have u: "unat (sz - 1) = unat sz - 1" using unat_minus_small [of 1 sz]
      by (simp add: word_less_unat word_le_unat)
    have p: "0 < unat sz" using g by (simp add: word_less_unat)
    have t: "vfs_truncate ops junk f sz s = vfs_write ops junk f [0] (sz - 1) 1 s \<bind> (\<lambda>(r, s).
        Some (if sint r < 0 then -1 else 0, s))" using False n by (simp add: vfs_truncate_def)
    have c: "splice (contents s f) (unat (sz - 1)) [0] =
        contents s f @ replicate (unat sz - length (contents s f)) 0"
    proof -
      have "length (contents s f) < unat sz" using g lc by (simp add: word_less_unat)
      then have "unat sz - length (contents s f) = Suc (unat sz - 1 - length (contents s f))" by simp
      then show ?thesis using \<open>length (contents s f) < unat sz\<close> u
        by (simp add: splice_def replicate_append_same)
    qed
    have l: "length (contents s f @ replicate (unat sz - length (contents s f)) 0) = unat sz"
      using g lc by (simp add: word_less_unat)
    have m: "unat (sz - 1) + unat (1 :: u64) \<le> 2 ^ 62" "unat (1 :: u64) \<le> length [0 :: u8]" using u sz p by auto
    from vfs_write_lemma [OF inv ok m(1) sz(2) m(2), of junk] show ?thesis
    proof (elim disjE exE conjE)
      assume "vfs_write ops junk f [0] (sz - 1) 1 s = Some (- 1, s)" "v_cap (the (nodes s f)) < sz - 1 + 1"
      then show ?thesis by (simp add: t)
    next
      fix s'
      assume "vfs_write ops junk f [0] (sz - 1) 1 s = Some (ucast (1 :: u64), s')" "inv (vheap s')"
        "file_ok regions s' f" "contents s' f = splice (contents s f) (unat (sz - 1)) (take (unat (1 :: u64)) [0])"
        "\<forall>g. g \<noteq> f \<longrightarrow> nodes s' g = nodes s g"
      then show ?thesis using c l by (simp add: t)
    qed
  qed
qed

end

section \<open>Properties\<close>

text \<open>A file of two bytes in a data object of sixteen.\<close>

definition sample_vfs :: "heap vfs" where
  "sample_vfs = \<lparr>nodes = [64 \<mapsto> \<lparr>v_name = [102], v_is_dir = False, v_readonly = False, v_data = 4128, v_size = 2,
      v_cap = 16, v_parent = 32, v_children = 0, v_next = 0\<rparr>],
    objects = [4128 \<mapsto> [65, 66] @ replicate 14 7], vheap = sample_heap\<rparr>"

lemma sample_regions: "heap_ok sample_heap" "heap_regions sample_heap = {(4128, 16)}"
  using sample_inv heap_regions_eq [OF sample_inv] by (auto simp: heap_ok_def)

lemma sample_file: "file_ok heap_regions sample_vfs 64"
  by (simp add: file_ok_def sample_vfs_def sample_regions)

text \<open>
  C13: writing to a file replaces exactly the bytes from the offset on, fills a gap behind the old end
  with zeroes (never with what the memory held before), keeps every other file's bytes, and fails
  with -1 and an unchanged file system only when the data has to grow.
\<close>

theorem vfs_write_contents:
  assumes "heap_ok (vheap s)" "file_ok heap_regions s f"
    and "unat off + unat len \<le> 2 ^ 62" "unat (v_cap (the (nodes s f))) < 2 ^ 63" "unat len \<le> length buf"
  shows "(vfs_write kernel_heap junk f buf off len s = Some (-1, s) \<and> v_cap (the (nodes s f)) < off + len) \<or>
    (\<exists>s'. vfs_write kernel_heap junk f buf off len s = Some (ucast len, s') \<and>
      heap_ok (vheap s') \<and> file_ok heap_regions s' f \<and>
      contents s' f = splice (contents s f) (unat off) (take (unat len) buf) \<and>
      (\<forall>g. g \<noteq> f \<and> file_ok heap_regions s g \<and> v_data (the (nodes s g)) \<noteq> v_data (the (nodes s f)) \<longrightarrow>
        contents s' g = contents s g))"
proof -
  have "contents s' g = contents s g"
    if "\<forall>g. g \<noteq> f \<longrightarrow> nodes s' g = nodes s g"
      "\<forall>q m. (q, m) \<in> heap_regions (vheap s) \<and> q \<noteq> v_data (the (nodes s f)) \<longrightarrow> objects s' q = objects s q"
      "g \<noteq> f" "file_ok heap_regions s g" "v_data (the (nodes s g)) \<noteq> v_data (the (nodes s f))" for s' :: "heap vfs" and g
    using that by (auto simp: contents_def file_ok_def Let_def split: if_splits)
  then show ?thesis using kheap.vfs_write_lemma [OF assms, of junk] by blast
qed

theorem vfs_write_contents_witness:
  "\<exists>s'. vfs_write kernel_heap (\<lambda>_. 99) 64 [1, 2, 3] 4 3 sample_vfs = Some (3, s') \<and>
     contents s' 64 = [65, 66, 0, 0, 1, 2, 3]"
proof -
  have s: "vheap sample_vfs = sample_heap" "v_cap (the (nodes sample_vfs 64)) = 16"
    "contents sample_vfs 64 = [65, 66]"
    by (simp_all add: sample_vfs_def contents_def)
  have "heap_ok (vheap sample_vfs)" using s sample_regions by simp
  moreover have "replicate 2 (0 :: u8) = [0, 0]" by (simp add: numeral_2_eq_2)
  ultimately show ?thesis using vfs_write_contents [OF _ sample_file, of 4 3 "[1, 2, 3]" "\<lambda>_. 99"]
    by (auto simp: s splice_def)
qed

text \<open>
  Setting a file's length cuts its contents there or fills them up with zeroes, and leaves every
  other node as it was; it fails only when the data has to grow.
\<close>

theorem vfs_truncate_contents:
  assumes "heap_ok (vheap s)" "file_ok heap_regions s f"
    and "unat sz < 2 ^ 62" "unat (v_cap (the (nodes s f))) < 2 ^ 63"
  shows "(vfs_truncate kernel_heap junk f sz s = Some (-1, s) \<and> v_cap (the (nodes s f)) < sz) \<or>
    (\<exists>s'. vfs_truncate kernel_heap junk f sz s = Some (0, s') \<and> heap_ok (vheap s') \<and> file_ok heap_regions s' f \<and>
      contents s' f = take (unat sz) (contents s f @ replicate (unat sz - length (contents s f)) 0) \<and>
      (\<forall>g. g \<noteq> f \<longrightarrow> nodes s' g = nodes s g))"
  by (rule kheap.vfs_truncate_lemma [OF assms])

theorem vfs_truncate_contents_witness:
  "\<exists>s'. vfs_truncate kernel_heap (\<lambda>_. 99) 64 5 sample_vfs = Some (0, s') \<and> contents s' 64 = [65, 66, 0, 0, 0]"
proof -
  have s: "vheap sample_vfs = sample_heap" "v_cap (the (nodes sample_vfs 64)) = 16"
    "contents sample_vfs 64 = [65, 66]"
    by (simp_all add: sample_vfs_def contents_def)
  have "heap_ok (vheap sample_vfs)" using s sample_regions by simp
  moreover have "replicate 3 (0 :: u8) = [0, 0, 0]" by (simp add: numeral_3_eq_3)
  ultimately show ?thesis using vfs_truncate_contents [OF _ sample_file, of 5 "\<lambda>_. 99"]
    by (auto simp: s)
qed

end
