(* ===== verification/VfsTree.thy ===== *)
theory VfsTree
  imports Vfs
begin

text \<open>
  The tree that the nodes of the file system form. The invariant ties the sibling links of every
  directory to a list of children with distinct names, and every node and every data object to a
  heap region of its own; creating, making a path of directories, writing and unlinking keep it.
  Directories are read as finite maps from names to nodes: the lemmas say which entry an operation
  changes and that it leaves all others.
\<close>

section \<open>Sibling lists\<close>

fun siblings :: "vnodes \<Rightarrow> u64 \<Rightarrow> u64 list \<Rightarrow> u64 \<Rightarrow> bool" where
  "siblings ns c [] e \<longleftrightarrow> c = e"
| "siblings ns c (x # xs) e \<longleftrightarrow> c = x \<and> x \<noteq> 0 \<and> (\<exists>n. ns x = Some n \<and> siblings ns (v_next n) xs e)"

definition name_of :: "vnodes \<Rightarrow> u64 \<Rightarrow> u8 list" where
  "name_of ns x = v_name (the (ns x))"

fun pick :: "vnodes \<Rightarrow> u8 list \<Rightarrow> u64 list \<Rightarrow> u64" where
  "pick ns name [] = 0"
| "pick ns name (x # xs) = (if name_of ns x = name then x else pick ns name xs)"

lemma siblings_append:
  "siblings ns c (xs @ ys) e \<longleftrightarrow> (\<exists>m. siblings ns c xs m \<and> siblings ns m ys e)"
  by (induction xs arbitrary: c) auto

lemma siblings_frame:
  assumes "siblings ns c xs e"
    and "\<And>x n. x \<in> set xs \<Longrightarrow> ns x = Some n \<Longrightarrow> \<exists>n'. ns' x = Some n' \<and> v_next n' = v_next n"
  shows "siblings ns' c xs e"
  using assms by (induction xs arbitrary: c) (simp, force)

lemma siblings_dom: "siblings ns c xs e \<Longrightarrow> x \<in> set xs \<Longrightarrow> x \<noteq> 0 \<and> (\<exists>n. ns x = Some n)"
  by (induction xs arbitrary: c) auto

lemma find_child_siblings: "siblings ns c xs 0 \<Longrightarrow> find_child ns c name = Some (pick ns name xs)"
proof (induction xs arbitrary: c)
  case Nil
  then show ?case by (subst find_child.simps) simp
next
  case (Cons x xs)
  then obtain n where n: "c = x" "x \<noteq> 0" "ns x = Some n" "siblings ns (v_next n) xs 0" by auto
  then show ?case using Cons.IH [OF n(4)] by (subst find_child.simps) (simp add: name_of_def)
qed

lemma pick_cong: "(\<And>x. x \<in> set xs \<Longrightarrow> name_of ns' x = name_of ns x) \<Longrightarrow> pick ns' name xs = pick ns name xs"
  by (induction xs) auto

lemma pick_zero: "0 \<notin> set xs \<Longrightarrow> pick ns name xs = 0 \<longleftrightarrow> name \<notin> set (map (name_of ns) xs)"
  by (induction xs) auto

lemma pick_in: "pick ns name xs \<noteq> 0 \<Longrightarrow> pick ns name xs \<in> set xs \<and> name_of ns (pick ns name xs) = name"
  by (induction xs) (auto split: if_splits)

lemma pick_name: "distinct (map (name_of ns) xs) \<Longrightarrow> x \<in> set xs \<Longrightarrow> pick ns (name_of ns x) xs = x"
  by (induction xs) (auto simp: rev_image_eqI)

lemma find_link_siblings:
  assumes "siblings ns c (xs @ node # ys) 0" "node \<notin> set xs"
  shows "find_link ns node prev c = Some (Some (last (prev # xs)))"
  using assms
proof (induction xs arbitrary: c prev)
  case Nil
  then show ?case by (subst find_link.simps) auto
next
  case (Cons x xs)
  then obtain n where n: "c = x" "x \<noteq> 0" "ns x = Some n" "siblings ns (v_next n) (xs @ node # ys) 0" by auto
  have "x \<noteq> node" using Cons.prems(2) by auto
  then show ?case using Cons.IH [OF n(4), of x] Cons.prems(2) n by (subst find_link.simps) simp
qed

section \<open>The invariant\<close>

definition tree_ok :: "u64 \<Rightarrow> (u64 \<Rightarrow> u64 list) \<Rightarrow> vnodes \<Rightarrow> bool" where
  "tree_ok root kids ns \<longleftrightarrow>
     ns 0 = None \<and> (\<exists>r. ns root = Some r \<and> v_parent r = 0 \<and> v_is_dir r) \<and>
     (\<forall>d n. ns d = Some n \<longrightarrow> siblings ns (v_children n) (kids d) 0 \<and>
        distinct (map (name_of ns) (kids d)) \<and> (kids d \<noteq> [] \<longrightarrow> v_is_dir n) \<and>
        (\<forall>x\<in>set (kids d). x \<noteq> root \<and> v_parent (the (ns x)) = d)) \<and>
     (\<forall>x n. ns x = Some n \<and> x \<noteq> root \<longrightarrow> v_name n \<noteq> [] \<and> length (v_name n) < VFS_NAME_MAX \<and>
        (\<exists>p. ns (v_parent n) = Some p \<and> v_is_dir p) \<and> x \<in> set (kids (v_parent n)))"

definition vfs_inv ::
  "('h \<Rightarrow> bool) \<Rightarrow> ('h \<Rightarrow> (u64 \<times> nat) set) \<Rightarrow> ('h \<Rightarrow> u64 set) \<Rightarrow> u64 \<Rightarrow> (u64 \<Rightarrow> u64 list) \<Rightarrow> 'h vfs \<Rightarrow> bool" where
  "vfs_inv hinv regions arena root kids s \<longleftrightarrow>
     hinv (vheap s) \<and> tree_ok root kids (nodes s) \<and> root \<notin> arena (vheap s) \<and>
     (\<forall>x n. nodes s x = Some n \<and> x \<noteq> root \<longrightarrow> (\<exists>m. (x, m) \<in> regions (vheap s))) \<and>
     (\<forall>x n. nodes s x = Some n \<and> v_is_dir n \<longrightarrow> v_data n = 0 \<and> \<not> v_readonly n) \<and>
     (\<forall>x n. nodes s x = Some n \<and> \<not> v_is_dir n \<and> \<not> v_readonly n \<longrightarrow> file_ok regions s x) \<and>
     (\<forall>x n. nodes s x = Some n \<and> \<not> v_readonly n \<and> v_data n \<noteq> 0 \<longrightarrow> nodes s (v_data n) = None) \<and>
     (\<forall>x y n m. nodes s x = Some n \<and> nodes s y = Some m \<and> x \<noteq> y \<and> \<not> v_readonly n \<and> \<not> v_readonly m \<and>
        v_data n \<noteq> 0 \<longrightarrow> v_data n \<noteq> v_data m)"

lemma tree_dir:
  assumes "tree_ok root kids ns" "ns d = Some n"
  shows "siblings ns (v_children n) (kids d) 0 \<and> distinct (map (name_of ns) (kids d)) \<and>
    (kids d \<noteq> [] \<longrightarrow> v_is_dir n) \<and> (\<forall>x\<in>set (kids d). x \<noteq> root \<and> v_parent (the (ns x)) = d)"
  using assms(2) assms(1) [unfolded tree_ok_def, THEN conjunct2, THEN conjunct2, THEN conjunct1] by blast

lemmas tree_dirD = tree_dir [THEN conjunct1] tree_dir [THEN conjunct2, THEN conjunct1]
  tree_dir [THEN conjunct2, THEN conjunct2, THEN conjunct1, rule_format]
  tree_dir [THEN conjunct2, THEN conjunct2, THEN conjunct2, rule_format]

lemma tree_node:
  assumes "tree_ok root kids ns" "ns x = Some n" "x \<noteq> root"
  shows "v_name n \<noteq> [] \<and> length (v_name n) < VFS_NAME_MAX \<and>
    (\<exists>p. ns (v_parent n) = Some p \<and> v_is_dir p) \<and> x \<in> set (kids (v_parent n))"
  using assms(2,3) assms(1) [unfolded tree_ok_def, THEN conjunct2, THEN conjunct2, THEN conjunct2] by blast

lemmas tree_nodeD = tree_node [THEN conjunct1] tree_node [THEN conjunct2, THEN conjunct1]
  tree_node [THEN conjunct2, THEN conjunct2, THEN conjunct1]
  tree_node [THEN conjunct2, THEN conjunct2, THEN conjunct2]

lemma tree_rootD:
  assumes "tree_ok root kids ns"
  shows "ns 0 = None" "\<exists>r. ns root = Some r \<and> v_parent r = 0 \<and> v_is_dir r"
  using assms by (simp_all add: tree_ok_def)

lemma dir_find_pick:
  assumes "tree_ok root kids ns" "ns d = Some n"
  shows "dir_find ns d name = Some (pick ns name (kids d))"
  using find_child_siblings [OF tree_dirD(1) [OF assms]] assms(2) by (simp add: dir_find_def)

lemma kids_nonzero: "tree_ok root kids ns \<Longrightarrow> ns d = Some n \<Longrightarrow> 0 \<notin> set (kids d)"
  using siblings_dom [OF tree_dirD(1)] by blast

lemma kid_node:
  assumes t: "tree_ok root kids ns" and d: "ns d = Some n" and x: "x \<in> set (kids d)"
  shows "x \<noteq> root \<and> (\<exists>m. ns x = Some m \<and> v_parent m = d)"
  using siblings_dom [OF tree_dirD(1) [OF t d] x] tree_dirD(4) [OF t d x] by auto

lemma kids_distinct: "tree_ok root kids ns \<Longrightarrow> ns d = Some n \<Longrightarrow> distinct (kids d)"
  using tree_dirD(2) by (metis distinct_map)

text \<open>A later state keeps every node, its place and every entry.\<close>

definition extends :: "vnodes \<Rightarrow> vnodes \<Rightarrow> bool" where
  "extends ns ns' \<longleftrightarrow> (\<forall>d n. ns d = Some n \<longrightarrow>
     (\<exists>n'. ns' d = Some n' \<and> v_is_dir n' = v_is_dir n \<and> v_parent n' = v_parent n) \<and>
     (\<forall>name x. dir_find ns d name = Some x \<and> x \<noteq> 0 \<longrightarrow> dir_find ns' d name = Some x))"

lemma extends_node: "extends ns ns' \<Longrightarrow> ns d = Some n \<Longrightarrow>
    \<exists>n'. ns' d = Some n' \<and> v_is_dir n' = v_is_dir n \<and> v_parent n' = v_parent n"
  unfolding extends_def by blast

lemma extends_refl: "extends ns ns"
  by (simp add: extends_def)

lemma extends_trans: "extends a b \<Longrightarrow> extends b c \<Longrightarrow> extends a c"
  unfolding extends_def
proof (intro allI impI, goal_cases)
  case (1 d n)
  then obtain n' where n': "b d = Some n'" "v_is_dir n' = v_is_dir n" "v_parent n' = v_parent n" by blast
  from 1(2) n'(1) obtain n'' where "c d = Some n''" "v_is_dir n'' = v_is_dir n'" "v_parent n'' = v_parent n'"
    by blast
  moreover have "dir_find c d name = Some x" if "dir_find a d name = Some x \<and> x \<noteq> 0" for name x
    using that 1 n'(1) by blast
  ultimately show ?case using n' by auto
qed

section \<open>Creating\<close>

lemma tree_insert:
  assumes t: "tree_ok root kids ns" and d: "ns dir = Some d" "v_is_dir d" and n: "ns n = None" "n \<noteq> 0"
    and name: "name \<noteq> []" "length name < VFS_NAME_MAX" "dir_find ns dir name = Some 0"
    and ns': "ns' = ns(n \<mapsto> nd, dir \<mapsto> d\<lparr>v_children := n\<rparr>)"
    and nd: "v_name nd = name" "v_parent nd = dir" "v_next nd = v_children d" "v_children nd = 0"
  shows "tree_ok root (kids(n := [], dir := n # kids dir)) ns'" (is "tree_ok root ?kids ns'")
proof -
  have ne: "dir \<noteq> n" using d n by auto
  have new: "ns' n = Some nd" "ns' dir = Some (d\<lparr>v_children := n\<rparr>)"
    "x \<noteq> n \<Longrightarrow> x \<noteq> dir \<Longrightarrow> ns' x = ns x" for x using ne by (auto simp: ns')
  have old: "\<exists>n'. ns' x = Some n' \<and> v_next n' = v_next m \<and> v_name n' = v_name m \<and> v_parent n' = v_parent m \<and>
      v_is_dir n' = v_is_dir m" if "ns x = Some m" for x m
  proof -
    have "x \<noteq> n" using n that by auto
    then show ?thesis using that new(2) new(3) [of x] d by (cases "x = dir") auto
  qed
  have notin: "n \<notin> set (kids e)" if "ns e = Some m" for e m
    using siblings_dom [OF tree_dirD(1) [OF t that], of n] n(1) by auto
  have kid: "\<exists>k. ns x = Some k" if "ns e = Some m" "x \<in> set (kids e)" for e m x
    using siblings_dom [OF tree_dirD(1) [OF t that(1)] that(2)] by blast
  have nm: "name_of ns' x = name_of ns x" if "ns x = Some m" for x m
    using old [OF that] that by (auto simp: name_of_def)
  have nms: "map (name_of ns') (kids e) = map (name_of ns) (kids e)" if "ns e = Some m" for e m
  proof (rule map_cong [OF refl])
    fix x assume "x \<in> set (kids e)"
    from kid [OF that this] nm show "name_of ns' x = name_of ns x" by blast
  qed
  have sib: "siblings ns' c (kids e) 0" if "siblings ns c (kids e) 0" for c e
    by (rule siblings_frame [OF that]) (use old in blast)
  have fresh: "name \<notin> set (map (name_of ns) (kids dir))"
    using name(3) dir_find_pick [OF t d(1)] pick_zero [OF kids_nonzero [OF t d(1)]] by simp
  have "siblings ns' (v_children m') (?kids e) 0 \<and> distinct (map (name_of ns') (?kids e)) \<and>
      (?kids e \<noteq> [] \<longrightarrow> v_is_dir m') \<and> (\<forall>x\<in>set (?kids e). x \<noteq> root \<and> v_parent (the (ns' x)) = e)"
    if e: "ns' e = Some m'" for e m'
  proof -
    consider "e = n" | "e = dir" "e \<noteq> n" | "e \<noteq> n" "e \<noteq> dir" by blast
    then show ?thesis
    proof cases
      case 1
      then show ?thesis using e new nd(4) ne by simp
    next
      case 2
      have "n \<noteq> root" using tree_rootD(2) [OF t] n(1) by auto
      moreover have "v_parent (the (ns' x)) = dir" if "x \<in> set (kids dir)" for x
        using tree_dirD(4) [OF t d(1) that] kid [OF d(1) that] old by force
      moreover have "name_of ns' n = name" using new nd by (simp add: name_of_def)
      moreover have "set (map (name_of ns') (kids dir)) = set (map (name_of ns) (kids dir))"
        using nms [OF d(1)] by simp
      ultimately show ?thesis
        using 2 e new nd n(2) sib [OF tree_dirD(1) [OF t d(1)]] fresh tree_dirD(2,4) [OF t d(1)] d(2)
        unfolding nms [OF d(1), symmetric] by auto
    next
      case 3
      then have e': "ns e = Some m'" using e new by simp
      have "v_parent (the (ns' x)) = e" if "x \<in> set (kids e)" for x
        using tree_dirD(4) [OF t e' that] kid [OF e' that] old by force
      then show ?thesis using 3 sib [OF tree_dirD(1) [OF t e']] tree_dirD(2,3,4) [OF t e']
        unfolding nms [OF e', symmetric] by simp
    qed
  qed
  moreover have "v_name m' \<noteq> [] \<and> length (v_name m') < VFS_NAME_MAX \<and>
      (\<exists>p. ns' (v_parent m') = Some p \<and> v_is_dir p) \<and> x \<in> set (?kids (v_parent m'))"
    if x: "ns' x = Some m'" "x \<noteq> root" for x m'
  proof (cases "x = n")
    case True
    then show ?thesis using x new nd name d ne by simp
  next
    case False
    obtain m where m: "ns x = Some m" "v_name m' = v_name m" "v_parent m' = v_parent m"
      using False x(1) new d(1) by (cases "x = dir") auto
    note T = tree_nodeD [OF t m(1) x(2)]
    obtain p where p: "ns (v_parent m) = Some p" "v_is_dir p" using T(3) by blast
    then have "v_parent m \<noteq> n" using n(1) by auto
    then show ?thesis using T m old [OF p(1)] p(2) by auto
  qed
  moreover have "ns' 0 = None" using tree_rootD(1) [OF t] n(2) d(1) by (auto simp: ns')
  moreover have "\<exists>r. ns' root = Some r \<and> v_parent r = 0 \<and> v_is_dir r"
    using tree_rootD(2) [OF t] old by fastforce
  ultimately show ?thesis unfolding tree_ok_def by blast
qed

lemma insert_lookup:
  assumes t: "tree_ok root kids ns" and d: "ns dir = Some d" "v_is_dir d" and n: "ns n = None" "n \<noteq> 0"
    and name: "name \<noteq> []" "length name < VFS_NAME_MAX" "dir_find ns dir name = Some 0"
    and ns': "ns' = ns(n \<mapsto> nd, dir \<mapsto> d\<lparr>v_children := n\<rparr>)"
    and nd: "v_name nd = name" "v_parent nd = dir" "v_next nd = v_children d" "v_children nd = 0"
  shows "dir_find ns' dir name = Some n"
    "ns e = Some m \<Longrightarrow> (e, k) \<noteq> (dir, name) \<Longrightarrow> dir_find ns' e k = dir_find ns e k"
    "extends ns ns'"
proof -
  note t' = tree_insert [OF assms]
  have ne: "dir \<noteq> n" using d n by auto
  have nm: "name_of ns' x = name_of ns x" if "ns e = Some m" "x \<in> set (kids e)" for x e m
  proof -
    from siblings_dom [OF tree_dirD(1) [OF t that(1)] that(2)] obtain k where "ns x = Some k" by blast
    then show ?thesis using d(1) n(1) by (auto simp: ns' name_of_def)
  qed
  have new: "ns' dir = Some (d\<lparr>v_children := n\<rparr>)" by (simp add: ns')
  have nn: "name_of ns' n = name" using ne nd by (simp add: ns' name_of_def)
  show 1: "dir_find ns' dir name = Some n" using dir_find_pick [OF t' new] nn by simp
  show 2: "dir_find ns' e k = dir_find ns e k" if e: "ns e = Some m" and k: "(e, k) \<noteq> (dir, name)" for e m k
  proof -
    have "e \<noteq> n" using e n(1) by auto
    then obtain m' where "ns' e = Some m'" using e by (cases "e = dir") (auto simp: ns')
    from dir_find_pick [OF t' this] dir_find_pick [OF t e] pick_cong [of "kids e" ns' ns k, OF nm [OF e]]
    show ?thesis using nn k e n(1) by (cases "e = dir") auto
  qed
  show "extends ns ns'" unfolding extends_def
  proof (intro allI impI conjI)
    fix e m assume e: "ns e = Some m"
    show "\<exists>n'. ns' e = Some n' \<and> v_is_dir n' = v_is_dir m \<and> v_parent n' = v_parent m"
      using e d n(1) by (auto simp: ns')
    fix k x assume "dir_find ns e k = Some x \<and> x \<noteq> 0"
    then show "dir_find ns' e k = Some x" using 2 [OF e, of k] name(3) by (cases "(e, k) = (dir, name)") auto
  qed
qed

context heap_allocator
begin

lemma vfs_invD:
  assumes "vfs_inv inv regions arena root kids s"
  shows "inv (vheap s)" "tree_ok root kids (nodes s)" "root \<notin> arena (vheap s)"
    "nodes s x = Some n \<Longrightarrow> x \<noteq> root \<Longrightarrow> \<exists>m. (x, m) \<in> regions (vheap s)"
    "nodes s x = Some n \<Longrightarrow> v_is_dir n \<Longrightarrow> v_data n = 0 \<and> \<not> v_readonly n"
    "nodes s x = Some n \<Longrightarrow> \<not> v_is_dir n \<Longrightarrow> \<not> v_readonly n \<Longrightarrow> file_ok regions s x"
    "nodes s x = Some n \<Longrightarrow> \<not> v_readonly n \<Longrightarrow> v_data n \<noteq> 0 \<Longrightarrow> nodes s (v_data n) = None"
    "nodes s x = Some n \<Longrightarrow> nodes s y = Some m \<Longrightarrow> x \<noteq> y \<Longrightarrow> \<not> v_readonly n \<Longrightarrow> \<not> v_readonly m \<Longrightarrow>
      v_data n \<noteq> 0 \<Longrightarrow> v_data n \<noteq> v_data m"
  using assms by (simp_all add: vfs_inv_def)

lemma file_ok_frame:
  assumes f: "file_ok regions s x" and x: "nodes s x = Some n" "nodes s' x = Some n"
    and d: "v_data n \<noteq> 0 \<Longrightarrow> objects s' (v_data n) = objects s (v_data n)"
    and r: "\<And>m. v_data n \<noteq> 0 \<Longrightarrow> (v_data n, m) \<in> regions (vheap s) \<Longrightarrow> \<exists>k. (v_data n, k) \<in> regions (vheap s')"
  shows "file_ok regions s' x"
proof (cases "v_data n = 0")
  case True
  then show ?thesis using f x by (simp add: file_ok_def)
next
  case False
  then obtain m where m: "(v_data n, m) \<in> regions (vheap s)" using f x(1) by (auto simp: file_ok_def)
  show ?thesis using f x d [OF False] r [OF False m] False by (simp add: file_ok_def)
qed

text \<open>A region that was not in use is neither a node nor the data of one.\<close>

lemma fresh_region:
  assumes I: "vfs_inv inv regions arena root kids s" and p: "\<forall>n. (p, n) \<notin> regions (vheap s)" "p \<in> arena (vheap s)"
  shows "nodes s p = None"
    "nodes s x = Some n \<Longrightarrow> \<not> v_readonly n \<Longrightarrow> p \<noteq> 0 \<Longrightarrow> v_data n \<noteq> p"
proof -
  show "nodes s p = None" using p vfs_invD(3) [OF I] vfs_invD(4) [OF I, of p] by fastforce
  assume x: "nodes s x = Some n" "\<not> v_readonly n" "p \<noteq> 0"
  show "v_data n \<noteq> p"
    using x p(1) vfs_invD(5,6) [OF I x(1)] by (cases "v_is_dir n") (auto simp: file_ok_def)
qed

lemma vfs_create_lemma:
  assumes I: "vfs_inv inv regions arena root kids s" and d: "nodes s dir = Some d" "v_is_dir d"
    and name: "name \<noteq> []" "length name < VFS_NAME_MAX" "dir_find (nodes s) dir name = Some 0"
  obtains "vfs_create ops dir name is_dir s = Some (0, s)" "heap_malloc ops VNODE_SIZE (vheap s) = Some (0, vheap s)"
  | n s' where "vfs_create ops dir name is_dir s = Some (n, s')" "n \<noteq> 0" "nodes s n = None"
      "vfs_inv inv regions arena root (kids(n := [], dir := n # kids dir)) s'"
      "dir_find (nodes s') dir name = Some n" "extends (nodes s) (nodes s')"
      "\<And>e m k. nodes s e = Some m \<Longrightarrow> (e, k) \<noteq> (dir, name) \<Longrightarrow> dir_find (nodes s') e k = dir_find (nodes s) e k"
      "\<exists>nd. nodes s' n = Some nd \<and> v_name nd = name \<and> v_parent nd = dir \<and> v_is_dir nd = is_dir \<and>
         \<not> v_readonly nd \<and> v_data nd = 0 \<and> v_size nd = 0"
      "objects s' = objects s"
proof -
  have d0: "dir \<noteq> 0" using d tree_rootD(1) [OF vfs_invD(2) [OF I]] by auto
  have sz: "VNODE_SIZE \<noteq> 0" "unat VNODE_SIZE \<le> 2 ^ 64 - 16" by (simp_all add: VNODE_SIZE_def)
  from malloc_total [OF vfs_invD(1) [OF I] sz]
  obtain n h where m: "heap_malloc ops VNODE_SIZE (vheap s) = Some (n, h)" by auto
  show thesis
  proof (cases "n = 0")
    case True
    then have "h = vheap s" using malloc_null [OF vfs_invD(1) [OF I] sz] m by blast
    then show thesis using that(1) True d d0 name m by (simp add: vfs_create_def)
  next
    case False
    from malloc_region [OF vfs_invD(1) [OF I] sz m False] obtain l where
      h: "inv h" "regions h = insert (n, l) (regions (vheap s))" "\<forall>k. (n, k) \<notin> regions (vheap s)" by blast
    have ar: "arena h = arena (vheap s)" by (rule malloc_arena [OF m])
    have "n \<in> arena (vheap s)" using region_arena [OF h(1), of n l] h(2) ar by simp
    note fresh = fresh_region [OF I h(3) this]
    define nd where "nd = \<lparr>v_name = name, v_is_dir = is_dir, v_readonly = False, v_data = 0, v_size = 0,
      v_cap = 0, v_parent = dir, v_children = 0, v_next = v_children d\<rparr>"
    define ns' where "ns' = (nodes s)(n \<mapsto> nd, dir \<mapsto> d\<lparr>v_children := n\<rparr>)"
    define s' where "s' = s\<lparr>vheap := h, nodes := ns'\<rparr>"
    have r: "vfs_create ops dir name is_dir s = Some (n, s')"
      using False d d0 name m by (simp add: vfs_create_def s'_def ns'_def nd_def)
    have ndf: "v_name nd = name" "v_parent nd = dir" "v_next nd = v_children d" "v_children nd = 0"
      by (simp_all add: nd_def)
    note T = tree_insert [OF vfs_invD(2) [OF I] d fresh(1) False name ns'_def ndf]
    note L = insert_lookup [OF vfs_invD(2) [OF I] d fresh(1) False name ns'_def ndf]
    have ne: "dir \<noteq> n" using d fresh(1) by auto
    have old: "x = n \<and> m = nd \<or> (\<exists>k. nodes s x = Some k \<and> x \<noteq> n \<and> m = k\<lparr>v_children := v_children m\<rparr>)"
      if "ns' x = Some m" for x m
      using that fresh(1) d by (auto simp: ns'_def split: if_splits)
    have fs: "file_ok regions s' x" if f: "ns' x = Some m" "\<not> v_is_dir m" "\<not> v_readonly m" for x m
    proof -
      from old [OF f(1)] show ?thesis
      proof (elim disjE exE conjE)
        assume "x = n" "m = nd"
        then show ?thesis using f False by (simp add: file_ok_def s'_def nd_def)
      next
        fix k assume k: "nodes s x = Some k" "m = k\<lparr>v_children := v_children m\<rparr>"
        have "v_is_dir m = v_is_dir k" "v_readonly m = v_readonly k" by (subst k(2), simp)+
        then have fk: "file_ok regions s x" using f k vfs_invD(6) [OF I k(1)] by simp
        have "x \<noteq> n" "x \<noteq> dir" using fresh(1) k(1) d f \<open>v_is_dir m = v_is_dir k\<close> by auto
        then have "nodes s' x = Some k" using k(1) by (simp add: s'_def ns'_def)
        from file_ok_frame [OF fk k(1) this] h(2) show ?thesis by (auto simp: s'_def)
      qed
    qed
    have same: "v_data m = (if x = n then 0 else v_data (the (nodes s x)))"
      "v_readonly m = (if x = n then False else v_readonly (the (nodes s x)))"
      "v_is_dir m = (if x = n then is_dir else v_is_dir (the (nodes s x)))" "x \<noteq> n \<Longrightarrow> \<exists>k. nodes s x = Some k"
      if "ns' x = Some m" for x m
      using that d ne by (auto simp: ns'_def nd_def split: if_splits)
    have "vfs_inv inv regions arena root (kids(n := [], dir := n # kids dir)) s'"
      unfolding vfs_inv_def
    proof (intro conjI allI impI; (elim conjE)?)
      fix x m assume x: "nodes s' x = Some m"
      then have x': "ns' x = Some m" by (simp add: s'_def)
      {
        assume "x \<noteq> root"
        then show "\<exists>k. (x, k) \<in> regions (vheap s')"
          using same(4) [OF x'] vfs_invD(4) [OF I] h(2) by (cases "x = n") (auto simp: s'_def)
      }
      {
        assume dm: "v_is_dir m"
        have "v_data m = 0 \<and> \<not> v_readonly m"
        proof (cases "x = n")
          case False
          with same(4) [OF x'] obtain k where k: "nodes s x = Some k" by blast
          then show ?thesis using vfs_invD(5) [OF I k] same(1,2,3) [OF x'] False dm by simp
        qed (use same(1,2) [OF x'] in simp)
        then show "v_data m = 0" "\<not> v_readonly m" by blast+
      }
      {
        assume f: "\<not> v_is_dir m" "\<not> v_readonly m"
        show "file_ok regions s' x" by (rule fs [OF x' f])
      }
      {
        assume f: "\<not> v_readonly m" "v_data m \<noteq> 0"
        then have xn: "x \<noteq> n" using same(1) [OF x'] by auto
        then obtain k where k: "nodes s x = Some k" using same(4) [OF x'] by blast
        have m: "v_data m = v_data k" "v_readonly m = v_readonly k" using same(1,2) [OF x'] k xn by auto
        then have "nodes s (v_data m) = None" "v_data m \<noteq> n"
          using vfs_invD(7) [OF I k] fresh(2) [OF k] f False by simp_all
        then show "nodes s' (v_data m) = None" using d by (auto simp: s'_def ns'_def)
      }
      fix y m2 assume y: "nodes s' y = Some m2" "x \<noteq> y" "\<not> v_readonly m" "\<not> v_readonly m2" "v_data m \<noteq> 0"
      then have y': "ns' y = Some m2" by (simp add: s'_def)
      have xn: "x \<noteq> n" using same(1) [OF x'] y(5) by auto
      then obtain k where k: "nodes s x = Some k" using same(4) [OF x'] by blast
      show "v_data m \<noteq> v_data m2"
      proof (cases "y = n")
        case True
        then show ?thesis using same(1) [OF y'] y(5) by simp
      next
        case False
        then obtain k2 where k2: "nodes s y = Some k2" using same(4) [OF y'] by blast
        show ?thesis using vfs_invD(8) [OF I k k2 y(2)] same(1,2) [OF x'] same(1,2) [OF y'] k k2 xn False y
          by simp
      qed
    qed (use T h(1) ar vfs_invD(3) [OF I] in \<open>simp_all add: s'_def\<close>)
    then show thesis
      using that(2) [OF r False fresh(1)] L ne by (simp add: s'_def ns'_def nd_def)
  qed
qed

end

section \<open>Making a path of directories\<close>

lemma step_to_extends:
  assumes "extends ns ns'" "ns cur = Some n" "step_to ns cur cn = Some x" "x \<noteq> 0"
  shows "step_to ns' cur cn = Some x"
  using assms by (fastforce simp: step_to_def extends_def)

lemma tree_parent:
  assumes "tree_ok root kids ns" "ns x = Some n" "v_parent n \<noteq> 0"
  shows "\<exists>p. ns (v_parent n) = Some p \<and> v_is_dir p"
  using assms tree_nodeD(3) [OF assms(1,2)] tree_rootD(2) [OF assms(1)] by (cases "x = root") auto

lemma dir_find_node:
  assumes t: "tree_ok root kids ns" and d: "ns d = Some n" and x: "dir_find ns d name = Some x" "x \<noteq> 0"
  shows "\<exists>m. ns x = Some m"
proof -
  have "x = pick ns name (kids d)" using dir_find_pick [OF t d] x(1) by simp
  then have "x \<in> set (kids d)" using pick_in x(2) by metis
  then show ?thesis using kid_node [OF t d] by blast
qed

lemma component_append:
  "p \<noteq> [] \<Longrightarrow> walk_loop ns False cur p = (step_to ns cur (component p) \<bind> (\<lambda>nxt.
     if nxt = 0 then Some (0, None)
     else if after_component p = [] then Some (nxt, None)
     else ns nxt \<bind> (\<lambda>n. if \<not> v_is_dir n then Some (0, None)
       else walk_loop ns False nxt (after_component p))))"
  by (subst walk_loop.simps) (simp add: Let_def)

text \<open>
  A path that stops before its end: a component names a file, or a directory would have to be made
  for a name that is too long.
\<close>

function path_blocked :: "vnodes \<Rightarrow> u64 \<Rightarrow> u8 list \<Rightarrow> bool" where
  "path_blocked ns cur p =
     (if p = [] then False
      else case step_to ns cur (component p) of
        None \<Rightarrow> False
      | Some x \<Rightarrow>
          if x = 0 then VFS_NAME_MAX \<le> length (component p)
          else (case ns x of None \<Rightarrow> False
             | Some n \<Rightarrow> \<not> v_is_dir n \<or> path_blocked ns x (after_component p)))"
  by pat_completeness auto
termination
  by (relation "measure (\<lambda>(ns, cur, p). length p)") (auto simp: after_component_less)

declare path_blocked.simps [simp del]

text \<open>Nodes that are in the second tree only are directories.\<close>

definition only_dirs :: "vnodes \<Rightarrow> vnodes \<Rightarrow> bool" where
  "only_dirs ns ns' \<longleftrightarrow> (\<forall>x m. ns x = None \<and> ns' x = Some m \<longrightarrow> v_is_dir m)"

lemma only_dirs_refl [simp]: "only_dirs ns ns"
  by (auto simp: only_dirs_def)

lemma only_dirs_trans: "only_dirs a b \<Longrightarrow> only_dirs b c \<Longrightarrow> extends b c \<Longrightarrow> only_dirs a c"
  unfolding only_dirs_def
proof (intro allI impI, elim conjE)
  fix x m
  assume ab: "\<forall>x m. a x = None \<and> b x = Some m \<longrightarrow> v_is_dir m" and bc: "\<forall>x m. b x = None \<and> c x = Some m \<longrightarrow> v_is_dir m"
    and e: "extends b c" and x: "a x = None" "c x = Some m"
  show "v_is_dir m"
  proof (cases "b x")
    case None
    then show ?thesis using bc x(2) by blast
  next
    case (Some k)
    then show ?thesis using ab x extends_node [OF e Some] by auto
  qed
qed

lemma create_only_dirs:
  "vfs_create ops dir name True s = Some (n, s') \<Longrightarrow> only_dirs (nodes s) (nodes s')"
  by (auto simp: vfs_create_def only_dirs_def bind_Some_iff split: if_splits prod.splits)

lemma after_component_clean: "after_component p \<noteq> [] \<Longrightarrow> hd (after_component p) \<noteq> SLASH"
  unfolding after_component_def skip_slashes_def by (metis (mono_tags, lifting) hd_dropWhile)

lemma skip_slashes_clean: "skip_slashes p \<noteq> [] \<Longrightarrow> hd (skip_slashes p) \<noteq> SLASH"
  unfolding skip_slashes_def by (metis (mono_tags, lifting) hd_dropWhile)

lemma component_nonempty: "p \<noteq> [] \<Longrightarrow> hd p \<noteq> SLASH \<Longrightarrow> component p \<noteq> []"
  by (cases p) (auto simp: component_def)

context heap_allocator
begin

lemma mkdirs_lemma:
  assumes "vfs_inv inv regions arena root kids s" "nodes s cur = Some n" "v_is_dir n" "p \<noteq> [] \<Longrightarrow> hd p \<noteq> SLASH"
  shows "\<exists>d s' kids'. mkdirs_loop ops cur p s = Some (d, s') \<and> vfs_inv inv regions arena root kids' s' \<and>
    extends (nodes s) (nodes s') \<and> objects s' = objects s \<and>
    (d \<noteq> 0 \<longrightarrow> (\<exists>m. nodes s' d = Some m \<and> v_is_dir m) \<and>
      (if p = [] then d = cur else walk_loop (nodes s') False cur p = Some (d, None))) \<and>
    only_dirs (nodes s) (nodes s') \<and>
    (d = 0 \<longrightarrow> heap_malloc ops VNODE_SIZE (vheap s') = Some (0, vheap s') \<or> path_blocked (nodes s') cur p)"
  using assms
proof (induction "length p" arbitrary: p cur n s kids rule: less_induct)
  case less
  note I = less.prems(1) and n = less.prems(2) and dn = less.prems(3)
  note t = vfs_invD(2) [OF I]
  show ?case
  proof (cases "p = []")
    case True
    have "mkdirs_loop ops cur p s = Some (cur, s)" using True by (subst mkdirs_loop.simps) simp
    moreover have "cur \<noteq> 0" using n tree_rootD(1) [OF t] by auto
    ultimately show ?thesis using I n dn True extends_refl
      by (intro exI [of _ cur] exI [of _ s] exI [of _ kids]) simp
  next
    case False
    let ?cn = "component p" and ?rest = "after_component p"
    have go: "\<exists>d s' kids'. mkdirs_loop ops cur p s = Some (d, s') \<and> vfs_inv inv regions arena root kids' s' \<and>
        extends (nodes s) (nodes s') \<and> objects s' = objects s \<and>
        (d \<noteq> 0 \<longrightarrow> (\<exists>m. nodes s' d = Some m \<and> v_is_dir m) \<and>
          (if p = [] then d = cur else walk_loop (nodes s') False cur p = Some (d, None))) \<and>
    only_dirs (nodes s) (nodes s') \<and>
    (d = 0 \<longrightarrow> heap_malloc ops VNODE_SIZE (vheap s') = Some (0, vheap s') \<or> path_blocked (nodes s') cur p)"
      if run: "mkdirs_loop ops cur p s = mkdirs_loop ops nxt ?rest s1"
        and I1: "vfs_inv inv regions arena root kids1 s1" and x: "nodes s1 nxt = Some m1" "v_is_dir m1"
        and st: "step_to (nodes s1) cur ?cn = Some nxt" and ex: "extends (nodes s) (nodes s1)"
        and ob: "objects s1 = objects s" and od: "only_dirs (nodes s) (nodes s1)" for nxt s1 kids1 m1
    proof -
      from less.hyps [OF after_component_less [OF False] I1 x after_component_clean] obtain d s' kids' where
        r: "mkdirs_loop ops nxt ?rest s1 = Some (d, s')" "vfs_inv inv regions arena root kids' s'"
        "extends (nodes s1) (nodes s')" "objects s' = objects s1"
        "d \<noteq> 0 \<longrightarrow> (\<exists>m. nodes s' d = Some m \<and> v_is_dir m) \<and>
          (if ?rest = [] then d = nxt else walk_loop (nodes s') False nxt ?rest = Some (d, None))"
        "only_dirs (nodes s1) (nodes s')"
        "d = 0 \<longrightarrow> heap_malloc ops VNODE_SIZE (vheap s') = Some (0, vheap s') \<or> path_blocked (nodes s') nxt ?rest" by blast
      have nz: "nxt \<noteq> 0" using x(1) tree_rootD(1) [OF vfs_invD(2) [OF I1]] by auto
      obtain c1 where c1: "nodes s1 cur = Some c1" using extends_node [OF ex n] by blast
      have st': "step_to (nodes s') cur ?cn = Some nxt" by (rule step_to_extends [OF r(3) c1 st nz])
      obtain m2 where m2: "nodes s' nxt = Some m2" "v_is_dir m2" using extends_node [OF r(3) x(1)] x(2) by auto
      have "walk_loop (nodes s') False cur p = Some (d, None)" if "d \<noteq> 0"
        unfolding component_append [OF False] using st' nz m2 r(5) that by (auto split: if_splits)
      moreover have "path_blocked (nodes s') cur p" if "path_blocked (nodes s') nxt ?rest"
        using that st' nz m2 False by (subst path_blocked.simps) simp
      ultimately show ?thesis using run r(1,2,4,5,7) extends_trans [OF ex r(3)] only_dirs_trans [OF od r(6,3)] False ob
        by auto
    qed
    have unf: "mkdirs_loop ops cur p s =
        (if ?cn = [DOT] then mkdirs_loop ops cur ?rest s
         else if ?cn = [DOT, DOT] then
           nodes s cur \<bind> (\<lambda>n. mkdirs_loop ops (if v_parent n \<noteq> 0 then v_parent n else cur) ?rest s)
         else dir_find (nodes s) cur ?cn \<bind> (\<lambda>nxt.
           (if nxt \<noteq> 0 then Some (nxt, s)
            else if length ?cn \<ge> VFS_NAME_MAX then Some (0, s)
            else vfs_create ops cur ?cn True s) \<bind> (\<lambda>(nxt, s).
           if nxt = 0 then Some (0, s)
           else nodes s nxt \<bind> (\<lambda>n.
             if \<not> v_is_dir n then Some (0, s) else mkdirs_loop ops nxt ?rest s))))"
      using False by (subst mkdirs_loop.simps) (simp only: Let_def if_False)
    have fail: "\<exists>d s' kids'. mkdirs_loop ops cur p s = Some (d, s') \<and> vfs_inv inv regions arena root kids' s' \<and>
        extends (nodes s) (nodes s') \<and> objects s' = objects s \<and>
        (d \<noteq> 0 \<longrightarrow> (\<exists>m. nodes s' d = Some m \<and> v_is_dir m) \<and>
          (if p = [] then d = cur else walk_loop (nodes s') False cur p = Some (d, None))) \<and>
    only_dirs (nodes s) (nodes s') \<and>
    (d = 0 \<longrightarrow> heap_malloc ops VNODE_SIZE (vheap s') = Some (0, vheap s') \<or> path_blocked (nodes s') cur p)"
      if "mkdirs_loop ops cur p s = Some (0, s)"
        "heap_malloc ops VNODE_SIZE (vheap s) = Some (0, vheap s) \<or> path_blocked (nodes s) cur p"
      using that I extends_refl by (intro exI [of _ 0] exI [of _ s] exI [of _ kids]) simp
    have same: "only_dirs (nodes s) (nodes s)" by (rule only_dirs_refl)
    consider "?cn = [DOT]" | "?cn = [DOT, DOT]" | "?cn \<noteq> [DOT]" "?cn \<noteq> [DOT, DOT]" by blast
    then show ?thesis
    proof cases
      case 1
      show ?thesis by (rule go [OF _ I n dn _ extends_refl refl same]) (use 1 unf in \<open>simp_all add: step_to_def\<close>)
    next
      case 2
      let ?up = "if v_parent n \<noteq> 0 then v_parent n else cur"
      obtain m where m: "nodes s ?up = Some m" "v_is_dir m" using tree_parent [OF t n] n dn
        by (cases "v_parent n = 0") auto
      show ?thesis by (rule go [OF _ I m _ extends_refl refl same]) (use 2 unf n in \<open>simp_all add: step_to_def\<close>)
    next
      case 3
      have stp: "step_to ns cur ?cn = dir_find ns cur ?cn" for ns using 3 by (simp add: step_to_def)
      obtain x where x: "dir_find (nodes s) cur ?cn = Some x" using dir_find_pick [OF t n] by blast
      show ?thesis
      proof (cases "x = 0")
        case False
        obtain m where m: "nodes s x = Some m" using dir_find_node [OF t n x False] by blast
        show ?thesis
        proof (cases "v_is_dir m")
          case True
          show ?thesis by (rule go [OF _ I m True _ extends_refl refl same]) (use 3 unf x False m True in \<open>simp_all add: stp\<close>)
        next
          case nd: False
          have "path_blocked (nodes s) cur p" using \<open>p \<noteq> []\<close> x False m nd by (subst path_blocked.simps) (simp add: stp)
          then show ?thesis by (intro fail) (use 3 unf x False m nd in simp_all)
        qed
      next
        case True
        have cd: "\<not> (cur = 0 \<or> \<not> v_is_dir n)" using dn n tree_rootD(1) [OF t] by auto
        show ?thesis
        proof (cases "length ?cn \<ge> VFS_NAME_MAX")
          case bad: True
          have "path_blocked (nodes s) cur p" using \<open>p \<noteq> []\<close> x True bad by (subst path_blocked.simps) (simp add: stp)
          then show ?thesis by (intro fail) (use 3 unf x True bad n cd in \<open>auto simp: vfs_create_def\<close>)
        next
          case ok: False
          then have nm: "?cn \<noteq> []" "length ?cn < VFS_NAME_MAX"
            using component_nonempty [OF \<open>p \<noteq> []\<close> less.prems(4) [OF \<open>p \<noteq> []\<close>]] by auto
          show ?thesis
          proof (rule vfs_create_lemma [OF I n dn nm x [unfolded True], of True])
            assume "vfs_create ops cur ?cn True s = Some (0, s)" "heap_malloc ops VNODE_SIZE (vheap s) = Some (0, vheap s)"
            then show ?thesis by (intro fail) (use 3 unf x True ok in simp_all)
          next
            fix y s1
            assume c: "vfs_create ops cur ?cn True s = Some (y, s1)" "y \<noteq> 0"
              "vfs_inv inv regions arena root (kids(y := [], cur := y # kids cur)) s1"
              "dir_find (nodes s1) cur ?cn = Some y" "extends (nodes s) (nodes s1)" "objects s1 = objects s"
              "\<exists>nd. nodes s1 y = Some nd \<and> v_name nd = ?cn \<and> v_parent nd = cur \<and> v_is_dir nd = True \<and>
                \<not> v_readonly nd \<and> v_data nd = 0 \<and> v_size nd = 0"
            then obtain nd where nd: "nodes s1 y = Some nd" "v_is_dir nd" by blast
            show ?thesis by (rule go [OF _ c(3) nd _ c(5,6) create_only_dirs [OF c(1)]]) (use 3 unf x True ok c nd in \<open>simp_all add: stp\<close>)
          qed
        qed
      qed
    qed
  qed
qed

lemma vfs_mkdirs_lemma:
  assumes I: "vfs_inv inv regions arena root kids s" and c: "cwd \<noteq> 0 \<Longrightarrow> \<exists>n. nodes s cwd = Some n \<and> v_is_dir n"
  shows "\<exists>d s' kids'. vfs_mkdirs ops root path cwd s = Some (d, s') \<and> vfs_inv inv regions arena root kids' s' \<and>
    extends (nodes s) (nodes s') \<and> objects s' = objects s \<and>
    (d \<noteq> 0 \<longrightarrow> (\<exists>m. nodes s' d = Some m \<and> v_is_dir m) \<and> vfs_resolve root (nodes s') path cwd = Some d) \<and>
    only_dirs (nodes s) (nodes s') \<and>
    (d = 0 \<longrightarrow> heap_malloc ops VNODE_SIZE (vheap s') = Some (0, vheap s') \<or>
      path_blocked (nodes s') (start_dir root cwd path) (skip_slashes path))"
proof -
  have "start_dir root cwd path = root \<or> start_dir root cwd path = cwd \<and> cwd \<noteq> 0" by (simp add: start_dir_def)
  then obtain n where n: "nodes s (start_dir root cwd path) = Some n" "v_is_dir n"
    using c tree_rootD(2) [OF vfs_invD(2) [OF I]] by metis
  from mkdirs_lemma [OF I n skip_slashes_clean] show ?thesis
    by (fastforce simp: vfs_mkdirs_def vfs_resolve_def walk_def Let_def split: if_splits)
qed

end

section \<open>Removing\<close>

text \<open>The node map after the link to \<open>node\<close> is taken out; \<open>xs\<close> are the siblings before it.\<close>

definition cut_link :: "vnodes \<Rightarrow> u64 \<Rightarrow> u64 \<Rightarrow> u64 list \<Rightarrow> u64 \<Rightarrow> vnodes" where
  "cut_link ns node par xs nxt =
     (if xs = [] then ns(par \<mapsto> (the (ns par))\<lparr>v_children := nxt\<rparr>)
      else ns(last xs \<mapsto> (the (ns (last xs)))\<lparr>v_next := nxt\<rparr>))(node := None)"

lemma cut_link_node:
  assumes "ns x = Some m" "x \<noteq> node"
  shows "\<exists>m'. cut_link ns node par xs nxt x = Some m' \<and> v_name m' = v_name m \<and> v_parent m' = v_parent m \<and>
    v_is_dir m' = v_is_dir m \<and> v_readonly m' = v_readonly m \<and> v_data m' = v_data m \<and>
    v_size m' = v_size m \<and> v_cap m' = v_cap m \<and>
    (xs = [] \<or> x \<noteq> last xs \<longrightarrow> v_next m' = v_next m) \<and> (xs \<noteq> [] \<or> x \<noteq> par \<longrightarrow> v_children m' = v_children m)"
  using assms by (cases "xs = []"; cases "x = last xs"; cases "x = par") (simp_all add: cut_link_def)

lemma cut_link_dom:
  assumes "ns par = Some p" "\<And>x. x \<in> set xs \<Longrightarrow> \<exists>m. ns x = Some m" "cut_link ns node par xs nxt x = Some m"
  shows "x \<noteq> node \<and> (\<exists>k. ns x = Some k)"
proof (cases "xs = []")
  case True
  then show ?thesis using assms(1,3) by (auto simp: cut_link_def split: if_splits)
next
  case False
  then obtain k where "ns (last xs) = Some k" using assms(2) last_in_set by blast
  then show ?thesis using assms(3) False by (auto simp: cut_link_def split: if_splits)
qed

lemma siblings_cut:
  assumes s: "siblings ns c (xs @ node # ys) 0" "ns node = Some n" and d: "distinct (xs @ node # ys)"
    and c: "c' = (if xs = [] then v_next n else c)"
  shows "siblings (cut_link ns node par xs (v_next n)) c' (xs @ ys) 0" (is "siblings ?ns c' _ 0")
proof -
  have ys: "siblings ns (v_next n) ys 0" and xs: "siblings ns c xs node"
    using s by (auto simp: siblings_append)
  have keep: "siblings ?ns a zs e" if "siblings ns a zs e" "node \<notin> set zs" "xs \<noteq> [] \<Longrightarrow> last xs \<notin> set zs" for a zs e
  proof (rule siblings_frame [OF that(1)])
    fix x m assume x: "x \<in> set zs" "ns x = Some m"
    then have "x \<noteq> node" "xs = [] \<or> x \<noteq> last xs" using that(2,3) by auto
    then show "\<exists>n'. ?ns x = Some n' \<and> v_next n' = v_next m"
      using cut_link_node [where ns = ns and node = node and par = par and xs = xs and nxt = "v_next n", OF x(2)]
      by blast
  qed
  have ys': "siblings ?ns (v_next n) ys 0"
  proof (rule keep [OF ys])
    show "node \<notin> set ys" using d by simp
    show "last xs \<notin> set ys" if "xs \<noteq> []" using d last_in_set [OF that] by (auto dest: IntI)
  qed
  show ?thesis
  proof (cases xs rule: rev_cases)
    case Nil
    then show ?thesis using ys' c by simp
  next
    case (snoc zs l)
    then obtain k where l: "siblings ns c zs l" "l \<noteq> 0" "ns l = Some k" "v_next k = node"
      using xs by (auto simp: siblings_append)
    have "siblings ?ns c zs l" by (rule keep [OF l(1)]) (use d snoc in auto)
    moreover have "?ns l = Some (k\<lparr>v_next := v_next n\<rparr>)" using snoc l(3) d by (auto simp: cut_link_def)
    ultimately show ?thesis using snoc ys' l(2) c by (auto simp: siblings_append)
  qed
qed

lemma tree_delete:
  assumes t: "tree_ok root kids ns" and n: "ns node = Some n" "node \<noteq> root" "kids node = []"
    and k: "kids (v_parent n) = xs @ node # ys"
  defines "ns' \<equiv> cut_link ns node (v_parent n) xs (v_next n)"
  shows "tree_ok root (kids(v_parent n := xs @ ys)) ns'"
    "dir_find ns' (v_parent n) (v_name n) = Some 0"
    "ns e = Some m \<Longrightarrow> e \<noteq> node \<Longrightarrow> (e, name) \<noteq> (v_parent n, v_name n) \<Longrightarrow> dir_find ns' e name = dir_find ns e name"
proof -
  let ?par = "v_parent n" let ?kids = "kids(v_parent n := xs @ ys)"
  obtain p where p: "ns ?par = Some p" "v_is_dir p" using tree_nodeD(3) [OF t n(1,2)] by blast
  note sp = tree_dirD(1) [OF t p(1), unfolded k]
  have dist: "distinct (xs @ node # ys)" using kids_distinct [OF t p(1)] k by simp
  have kid: "x \<noteq> root \<and> (\<exists>m. ns x = Some m \<and> v_parent m = e)" if "ns e = Some m" "x \<in> set (kids e)" for e m x
    by (rule kid_node [OF t that])
  have pn: "?par \<noteq> node" using k n(3) by auto
  have dom: "x \<noteq> node \<and> (\<exists>k. ns x = Some k)" if "ns' x = Some m" for x m
    by (rule cut_link_dom [OF p(1) _ that [unfolded ns'_def]]) (use kid [OF p(1)] k in auto)
  have N: "\<exists>m'. ns' x = Some m' \<and> v_name m' = v_name m \<and> v_parent m' = v_parent m \<and> v_is_dir m' = v_is_dir m \<and>
      (xs = [] \<or> x \<noteq> last xs \<longrightarrow> v_next m' = v_next m) \<and> (xs \<noteq> [] \<or> x \<noteq> ?par \<longrightarrow> v_children m' = v_children m)"
    if "ns x = Some m" "x \<noteq> node" for x m
    using cut_link_node [where ns = ns and node = node and par = ?par and xs = xs and nxt = "v_next n", OF that]
    unfolding ns'_def by blast
  have other: "x \<notin> set (kids e)" if "ns e = Some m" "e \<noteq> ?par" "x \<in> set (xs @ node # ys)" for e m x
    using kid [OF that(1)] kid [OF p(1), of x] that(2,3) k by force
  have nok: "node \<notin> set (?kids e)" if "ns e = Some m" for e m
    using other [OF that] dist by (cases "e = ?par") auto
  have sub: "set (?kids e) \<subseteq> set (kids e)" for e using k by auto
  have nm: "map (name_of ns') (?kids e) = map (name_of ns) (?kids e)" if e: "ns e = Some m" for e m
  proof (rule map_cong [OF refl])
    fix x assume x: "x \<in> set (?kids e)"
    then obtain j where "ns x = Some j" using kid [OF e] sub by blast
    moreover have "x \<noteq> node" using nok [OF e] x by auto
    ultimately show "name_of ns' x = name_of ns x" using N by (force simp: name_of_def)
  qed
  have dd: "distinct (map (name_of ns) (?kids e))" if e: "ns e = Some m" for e m
    using tree_dirD(2) [OF t e] tree_dirD(2) [OF t p(1)] k by (cases "e = ?par") auto
  have par': "\<exists>p'. ns' ?par = Some p' \<and> v_is_dir p' \<and> v_children p' = (if xs = [] then v_next n else v_children p)"
    using N [OF p(1) pn] p pn by (cases "xs = []") (auto simp: ns'_def cut_link_def)
  have sib: "siblings ns' (v_children m') (?kids e) 0" if e: "ns' e = Some m'" for e m'
  proof (cases "e = ?par")
    case True
    with par' e have "v_children m' = (if xs = [] then v_next n else v_children p)" by auto
    from siblings_cut [OF sp n(1) dist this] True show ?thesis by (simp add: ns'_def)
  next
    case False
    from dom [OF e] obtain m where m: "ns e = Some m" "e \<noteq> node" by blast
    have c: "v_children m' = v_children m" using N [OF m] False e by auto
    have "siblings ns' (v_children m) (kids e) 0"
    proof (rule siblings_frame [OF tree_dirD(1) [OF t m(1)]])
      fix x j assume x: "x \<in> set (kids e)" "ns x = Some j"
      then have "x \<notin> set (xs @ node # ys)" using other [OF m(1) False] by blast
      then have "x \<noteq> node" "xs = [] \<or> x \<noteq> last xs" using last_in_set [of xs] by auto
      then show "\<exists>n'. ns' x = Some n' \<and> v_next n' = v_next j" using N [OF x(2)] by blast
    qed
    then show ?thesis using c False by simp
  qed
  show tree: "tree_ok root ?kids ns'" unfolding tree_ok_def
  proof (intro conjI allI impI)
    obtain r where r: "ns root = Some r" "v_parent r = 0" "v_is_dir r" using tree_rootD(2) [OF t] by blast
    show "\<exists>r. ns' root = Some r \<and> v_parent r = 0 \<and> v_is_dir r" using N [OF r(1)] n(2) r by auto
    show "ns' 0 = None"
    proof (rule ccontr)
      assume "ns' 0 \<noteq> None"
      then show False using dom [of 0] tree_rootD(1) [OF t] by auto
    qed
    fix e m'
    have old: "\<exists>m. ns e = Some m \<and> e \<noteq> node \<and> v_is_dir m' = v_is_dir m \<and> v_name m' = v_name m \<and>
        v_parent m' = v_parent m" if e: "ns' e = Some m'"
    proof -
      from dom [OF e] obtain m where m: "ns e = Some m" "e \<noteq> node" by blast
      then show ?thesis using N [OF m] e by auto
    qed
    {
    assume er: "ns' e = Some m' \<and> e \<noteq> root"
    then obtain m where m: "ns e = Some m" "e \<noteq> node" and d': "v_is_dir m' = v_is_dir m"
      "v_name m' = v_name m" "v_parent m' = v_parent m" using old by blast
    note T = tree_node [OF t m(1) er [THEN conjunct2]]
    then obtain q where q: "ns (v_parent m) = Some q" "v_is_dir q" by blast
    have vn: "v_parent m \<noteq> node" using T n(3) by auto
    show "v_name m' \<noteq> []" "length (v_name m') < VFS_NAME_MAX" using T d' by auto
    show "\<exists>p. ns' (v_parent m') = Some p \<and> v_is_dir p" using N [OF q(1) vn] q d' by auto
    show "e \<in> set (?kids (v_parent m'))" using T d' m(2) k by auto
    }
    assume e: "ns' e = Some m'"
    then obtain m where m: "ns e = Some m" "e \<noteq> node" and d': "v_is_dir m' = v_is_dir m"
      "v_name m' = v_name m" "v_parent m' = v_parent m" using old by blast
    show "siblings ns' (v_children m') (?kids e) 0" by (rule sib [OF e])
    show "distinct (map (name_of ns') (?kids e))" unfolding nm [OF m(1)] by (rule dd [OF m(1)])
    show "v_is_dir m'" if "?kids e \<noteq> []"
      using that p(2) m(1) p(1) d' tree_dirD(3) [OF t m(1)] by (auto split: if_splits)
    show "\<forall>x\<in>set (?kids e). x \<noteq> root \<and> v_parent (the (ns' x)) = e"
    proof
      fix x assume x: "x \<in> set (?kids e)"
      then obtain j where "x \<noteq> root" "ns x = Some j" "v_parent j = e" using kid [OF m(1)] sub by blast
      moreover have "x \<noteq> node" using nok [OF m(1)] x by auto
      ultimately show "x \<noteq> root \<and> v_parent (the (ns' x)) = e" using N by force
    qed
  qed
  show "dir_find ns' ?par (v_name n) = Some 0"
  proof -
    from par' obtain p' where p': "ns' ?par = Some p'" by blast
    have "v_name n \<notin> set (map (name_of ns') (?kids ?par))"
      using tree_dirD(2) [OF t p(1)] k n(1) unfolding nm [OF p(1)] by (auto simp: name_of_def)
    then show ?thesis using dir_find_pick [OF tree p'] pick_zero [OF kids_nonzero [OF tree p']] by auto
  qed
  show "dir_find ns' e name = dir_find ns e name"
    if e: "ns e = Some m" "e \<noteq> node" and ne: "(e, name) \<noteq> (?par, v_name n)" for e m name
  proof -
    obtain m' where m': "ns' e = Some m'" using N [OF e] by blast
    have "pick ns' name (?kids e) = pick ns name (?kids e)"
      by (rule pick_cong) (use nm [OF e(1)] in \<open>auto simp: map_eq_conv\<close>)
    moreover have "pick ns name (xs @ ys) = pick ns name (xs @ node # ys)" if "v_name n \<noteq> name" for name
      using that n(1) by (induction xs) (auto simp: name_of_def)
    ultimately show ?thesis using dir_find_pick [OF tree m'] dir_find_pick [OF t e(1)] ne k
      by (cases "e = ?par") auto
  qed
qed

context heap_allocator
begin

lemma vfs_unlink_lemma:
  assumes I: "vfs_inv inv regions arena root kids s" and n: "nodes s node = Some n" "node \<noteq> root"
    and e: "v_children n = 0"
  shows "\<exists>s' kids'. vfs_unlink ops root node s = Some (0, s') \<and> vfs_inv inv regions arena root kids' s' \<and>
    nodes s' node = None \<and> dir_find (nodes s') (v_parent n) (v_name n) = Some 0 \<and>
    (\<forall>d m name. nodes s d = Some m \<and> d \<noteq> node \<and> (d, name) \<noteq> (v_parent n, v_name n) \<longrightarrow>
      dir_find (nodes s') d name = dir_find (nodes s) d name) \<and>
    (\<forall>f m. nodes s f = Some m \<and> \<not> v_is_dir m \<and> \<not> v_readonly m \<and> f \<noteq> node \<longrightarrow> contents s' f = contents s f) \<and>
    (\<exists>l. (node, l) \<in> regions (vheap s)) \<and>
    regions (vheap s') = {r \<in> regions (vheap s). fst r \<noteq> node \<and> (\<not> v_readonly n \<and> v_data n \<noteq> 0 \<longrightarrow> fst r \<noteq> v_data n)}"
proof -
  note t = vfs_invD(2) [OF I]
  let ?par = "v_parent n"
  obtain p where p: "nodes s ?par = Some p" using tree_nodeD(3) [OF t n] by blast
  have kn: "kids node = []" using tree_dirD(1) [OF t n(1)] e by (cases "kids node") auto
  obtain xs ys where k: "kids ?par = xs @ node # ys" using tree_nodeD(4) [OF t n] by (meson split_list)
  have dist: "distinct (xs @ node # ys)" using kids_distinct [OF t p] k by simp
  have n0: "node \<noteq> 0" using n(1) tree_rootD(1) [OF t] by auto
  have pn: "?par \<noteq> node" using k kn by auto
  have fl: "find_link (nodes s) node 0 (v_children p) = Some (Some (last (0 # xs)))"
    by (rule find_link_siblings) (use tree_dirD(1) [OF t p] k dist in auto)
  have xn: "x \<noteq> 0 \<and> (\<exists>m. nodes s x = Some m)" if "x \<in> set xs" for x
    using siblings_dom [OF tree_dirD(1) [OF t p], of x] that k by auto
  define ns' where "ns' = cut_link (nodes s) node ?par xs (v_next n)"
  note D = tree_delete [OF t n kn k, folded ns'_def]
  obtain prev where prev: "prev = last (0 # xs)" by blast
  have link: "(if prev = 0 then Some ((nodes s)(?par \<mapsto> p\<lparr>v_children := v_next n\<rparr>))
      else nodes s prev \<bind> (\<lambda>pn. Some ((nodes s)(prev \<mapsto> pn\<lparr>v_next := v_next n\<rparr>)))) = Some ns1 \<Longrightarrow>
      ns1(node := None) = ns'" for ns1
    using p xn [OF last_in_set] unfolding prev by (auto simp: ns'_def cut_link_def)
  obtain ns1 where ns1: "(if prev = 0 then Some ((nodes s)(?par \<mapsto> p\<lparr>v_children := v_next n\<rparr>))
      else nodes s prev \<bind> (\<lambda>pn. Some ((nodes s)(prev \<mapsto> pn\<lparr>v_next := v_next n\<rparr>)))) = Some ns1"
    using xn [OF last_in_set] unfolding prev by (cases "xs = []") auto
  note ns1' = link [OF ns1]
  let ?data = "\<not> v_readonly n \<and> v_data n \<noteq> 0"
  have dreg: "\<exists>l. (v_data n, l) \<in> regions (vheap s)" if ?data
    using that vfs_invD(5,6) [OF I n(1)] n(1) by (cases "v_is_dir n") (auto simp: file_ok_def)
  obtain h1 ob1 where h1: "(if ?data then heap_free ops (v_data n) (vheap s) \<bind> (\<lambda>h. Some (h, (objects s)(v_data n := None)))
      else Some (vheap s, objects s)) = Some (h1, ob1)" "inv h1" "arena h1 = arena (vheap s)"
    "regions h1 = {r \<in> regions (vheap s). ?data \<longrightarrow> fst r \<noteq> v_data n}"
    "ob1 = (if ?data then (objects s)(v_data n := None) else objects s)"
  proof (cases ?data)
    case True
    then obtain l where l: "(v_data n, l) \<in> regions (vheap s)" using dreg by blast
    from free_region [OF vfs_invD(1) [OF I] l] obtain h where h: "heap_free ops (v_data n) (vheap s) = Some h"
      "inv h" "regions h = regions (vheap s) - {(v_data n, l)}" by blast
    have rr: "regions h = {r \<in> regions (vheap s). fst r \<noteq> v_data n}"
      unfolding h(3)
    proof (intro set_eqI iffI)
      fix r assume "r \<in> {r \<in> regions (vheap s). fst r \<noteq> v_data n}"
      then show "r \<in> regions (vheap s) - {(v_data n, l)}" by auto
    next
      fix r assume "r \<in> regions (vheap s) - {(v_data n, l)}"
      then show "r \<in> {r \<in> regions (vheap s). fst r \<noteq> v_data n}"
        using region_unique [OF vfs_invD(1) [OF I] l, of "snd r"] by (cases r) auto
    qed
    show thesis
      by (rule that [of h "(objects s)(v_data n := None)"]) (use True h rr free_arena [OF h(1)] in simp_all)
  next
    case False
    then show thesis using that [of "vheap s" "objects s"] vfs_invD(1) [OF I] by auto
  qed
  obtain l where l: "(node, l) \<in> regions (vheap s)" using vfs_invD(4) [OF I n] by blast
  have dn: "v_data n \<noteq> node" if ?data using that vfs_invD(7) [OF I n(1)] n(1) by auto
  have l1: "(node, l) \<in> regions h1" using l dn h1(4) by auto
  from free_region [OF h1(2) l1] obtain h2 where h2: "heap_free ops node h1 = Some h2" "inv h2"
    "regions h2 = regions h1 - {(node, l)}" by blast
  have rr2: "regions h2 = {r \<in> regions (vheap s). fst r \<noteq> node \<and> (?data \<longrightarrow> fst r \<noteq> v_data n)}"
  proof -
    have "regions h2 = {r \<in> regions h1. fst r \<noteq> node}" unfolding h2(3)
    proof (intro set_eqI iffI)
      fix r assume "r \<in> regions h1 - {(node, l)}"
      then show "r \<in> {r \<in> regions h1. fst r \<noteq> node}"
        using region_unique [OF h1(2) l1, of "snd r"] by (cases r) auto
    qed auto
    then show ?thesis unfolding h1(4) by blast
  qed
  have r2: "(q, j) \<in> regions h2" if "(q, j) \<in> regions (vheap s)" "q \<noteq> node" "?data \<Longrightarrow> q \<noteq> v_data n" for q j
    using that h2(3) h1(4) by auto
  define s' where "s' = s\<lparr>nodes := ns', objects := ob1, vheap := h2\<rparr>"
  have run: "vfs_unlink ops root node s = Some (0, s')"
    unfolding vfs_unlink_def using n n0 p e fl [folded prev] h1(1) h2(1) ns1 ns1' by (simp add: s'_def)
  have old: "x \<noteq> node \<and> (\<exists>k. nodes s x = Some k \<and> v_parent m = v_parent k \<and> v_is_dir m = v_is_dir k \<and>
      v_readonly m = v_readonly k \<and> v_data m = v_data k \<and> v_size m = v_size k \<and> v_cap m = v_cap k)"
    if x: "ns' x = Some m" for x m
  proof -
    from cut_link_dom [where ns = "nodes s" and par = ?par and xs = xs and node = node and nxt = "v_next n" and x = x,
        OF p] xn x obtain k where k: "x \<noteq> node" "nodes s x = Some k"
      by (auto simp: ns'_def)
    from cut_link_node [where ns = "nodes s" and node = node and par = ?par and xs = xs and nxt = "v_next n", OF k(2,1)] x k
    show ?thesis by (auto simp: ns'_def)
  qed
  have new: "\<exists>m'. ns' x = Some m' \<and> v_data m' = v_data m \<and> v_size m' = v_size m" if "nodes s x = Some m" "x \<noteq> node" for x m
    using cut_link_node [where ns = "nodes s" and node = node and par = ?par and xs = xs and nxt = "v_next n", OF that]
    by (auto simp: ns'_def)
  have keep: "v_data k \<noteq> node \<and> (?data \<longrightarrow> v_data k \<noteq> v_data n)"
    if "nodes s x = Some k" "x \<noteq> node" "\<not> v_readonly k" "v_data k \<noteq> 0" for x k
    using vfs_invD(7) [OF I that(1,3,4)] vfs_invD(8) [OF I that(1) n(1) that(2,3) _ that(4)] n(1) by auto
  have fok: "file_ok regions s' x" if x: "ns' x = Some m" "\<not> v_is_dir m" "\<not> v_readonly m" for x m
  proof -
    from old [OF x(1)] obtain k where k: "x \<noteq> node" "nodes s x = Some k" "v_is_dir m = v_is_dir k"
      "v_readonly m = v_readonly k" "v_data m = v_data k" "v_size m = v_size k" "v_cap m = v_cap k" by blast
    have f: "file_ok regions s x" using vfs_invD(6) [OF I k(2)] k(3,4) x by simp
    show ?thesis
    proof (cases "v_data k = 0")
      case True
      then show ?thesis using f k x by (simp add: file_ok_def s'_def)
    next
      case False
      have kp: "v_data k \<noteq> node \<and> (?data \<longrightarrow> v_data k \<noteq> v_data n)" using keep [OF k(2,1)] k(4) x False by simp
      obtain j where j: "(v_data k, j) \<in> regions (vheap s)" using f k(2) False by (auto simp: file_ok_def)
      have "(v_data k, j) \<in> regions h2" by (rule r2 [OF j]) (use kp in auto)
      moreover have "ob1 (v_data k) = objects s (v_data k)" using kp h1(5) by auto
      ultimately show ?thesis using f k x False by (auto simp: file_ok_def s'_def)
    qed
  qed
  have I': "vfs_inv inv regions arena root (kids(?par := xs @ ys)) s'" unfolding vfs_inv_def
  proof (intro conjI allI impI; (elim conjE)?)
    fix x m assume "nodes s' x = Some m"
    then have x: "ns' x = Some m" by (simp add: s'_def)
    from old [OF x] obtain k where k: "x \<noteq> node" "nodes s x = Some k" "v_is_dir m = v_is_dir k"
      "v_readonly m = v_readonly k" "v_data m = v_data k" by blast
    {
      assume "x \<noteq> root"
      then obtain j where j: "(x, j) \<in> regions (vheap s)" using vfs_invD(4) [OF I k(2)] by blast
      have "x \<noteq> v_data n" if ?data using that vfs_invD(7) [OF I n(1)] k(2) by auto
      then show "\<exists>j. (x, j) \<in> regions (vheap s')" using r2 [OF j k(1)] by (auto simp: s'_def)
    }
    {
      assume "v_is_dir m"
      then show "v_data m = 0" "\<not> v_readonly m" using vfs_invD(5) [OF I k(2)] k(3,4,5) by simp_all
    }
    {
      assume f: "\<not> v_is_dir m" "\<not> v_readonly m"
      show "file_ok regions s' x" by (rule fok [OF x f])
    }
    {
      assume f: "\<not> v_readonly m" "v_data m \<noteq> 0"
      then have "nodes s (v_data m) = None" using vfs_invD(7) [OF I k(2)] k(4,5) by simp
      then show "nodes s' (v_data m) = None" using old [of "v_data m"] by (cases "ns' (v_data m)") (auto simp: s'_def)
    }
    fix y m2 assume y: "nodes s' y = Some m2" "x \<noteq> y" "\<not> v_readonly m" "\<not> v_readonly m2" "v_data m \<noteq> 0"
    then have "ns' y = Some m2" by (simp add: s'_def)
    from old [OF this] obtain k2 where k2: "nodes s y = Some k2" "v_readonly m2 = v_readonly k2" "v_data m2 = v_data k2"
      by blast
    show "v_data m \<noteq> v_data m2" using vfs_invD(8) [OF I k(2) k2(1) y(2)] k(4,5) k2 y by simp
  qed (use D(1) h2(2) h1(3) free_arena [OF h2(1)] vfs_invD(3) [OF I] in \<open>simp_all add: s'_def\<close>)
  have "contents s' f = contents s f"
    if f: "nodes s f = Some m" "\<not> v_is_dir m" "\<not> v_readonly m" "f \<noteq> node" for f m
  proof -
    obtain m' where m': "ns' f = Some m'" "v_data m' = v_data m" "v_size m' = v_size m" using new [OF f(1,4)] by blast
    have "v_data m \<noteq> 0 \<longrightarrow> ob1 (v_data m) = objects s (v_data m)" using keep [OF f(1,4,3)] h1(5) by auto
    then show ?thesis using f m' by (simp add: contents_def s'_def Let_def)
  qed
  moreover have "nodes s' = ns'" "ns' node = None" by (simp_all add: s'_def ns'_def cut_link_def)
  moreover have "regions (vheap s') = regions h2" by (simp add: s'_def)
  ultimately show ?thesis using run I' D(2,3) l rr2 by (intro exI [of _ s'] exI [of _ "kids(?par := xs @ ys)"]) auto
qed

end

section \<open>Paths\<close>

text \<open>The chain of nodes from a directory down, each the child of the one before.\<close>

fun lineage :: "vnodes \<Rightarrow> u64 \<Rightarrow> u64 list \<Rightarrow> bool" where
  "lineage ns d [] \<longleftrightarrow> True"
| "lineage ns d (x # xs) \<longleftrightarrow> d \<noteq> 0 \<and> (\<exists>n. ns x = Some n \<and> v_parent n = d) \<and> lineage ns x xs"

lemma lineage_append: "lineage ns d (xs @ ys) \<longleftrightarrow> lineage ns d xs \<and> lineage ns (last (d # xs)) ys"
  by (induction xs arbitrary: d) auto

definition clean_name :: "u8 list \<Rightarrow> bool" where
  "clean_name nm \<longleftrightarrow> nm \<noteq> [] \<and> SLASH \<notin> set nm \<and> nm \<noteq> [DOT] \<and> nm \<noteq> [DOT, DOT]"

definition path_bytes :: "vnodes \<Rightarrow> u64 list \<Rightarrow> u8 list" where
  "path_bytes ns xs = concat (map (\<lambda>x. SLASH # name_of ns x) xs)"

lemma ancestors_lineage:
  assumes "lineage ns root xs" "depth + length xs \<le> 32" "ns root = Some r" "v_parent r = 0"
  shows "ancestors ns (last (root # xs)) depth stack = Some (xs @ stack)"
  using assms
proof (induction xs arbitrary: depth stack rule: rev_induct)
  case Nil
  then show ?case by (subst ancestors.simps) simp
next
  case (snoc x xs)
  then obtain n where "ns x = Some n" "v_parent n = last (root # xs)" "last (root # xs) \<noteq> 0"
    by (auto simp: lineage_append)
  then show ?case using snoc by (subst ancestors.simps) (simp add: lineage_append)
qed

lemma put_chars_length: "length out \<le> length (fold (put_char b) cs out)"
proof (induction cs arbitrary: out)
  case (Cons c cs)
  show ?case using Cons.IH [of "put_char b c out"] by (auto simp: put_char_def split: if_splits)
qed simp

lemma put_chars: "length (fold (put_char b) cs out) + 1 < b \<Longrightarrow> fold (put_char b) cs out = out @ cs"
proof (induction cs arbitrary: out)
  case (Cons c cs)
  show ?case
  proof (cases "length out + 1 < b")
    case True
    then show ?thesis using Cons.IH [of "out @ [c]"] Cons.prems by (simp add: put_char_def [of b c out])
  next
    case False
    then show ?thesis using put_chars_length [of out b cs] Cons.prems by (simp add: put_char_def [of b c out])
  qed
qed simp

lemma node_path_bytes:
  assumes l: "lineage ns root xs" "length xs \<le> 32" "xs \<noteq> []" and r: "ns root = Some r" "v_parent r = 0"
  shows "vfs_node_path ns (last xs) b = Some (fold (put_char b) (path_bytes ns xs) [])"
proof -
  obtain n where n: "ns (last xs) = Some n" "v_parent n \<noteq> 0"
    using l(1,3) by (cases xs rule: rev_cases) (auto simp: lineage_append)
  have e: "fold (\<lambda>x out. fold (put_char b) (SLASH # v_name (the (ns x))) out) ys out =
      fold (put_char b) (path_bytes ns ys) out" for ys out
    by (induction ys arbitrary: out) (simp_all add: path_bytes_def name_of_def)
  show ?thesis unfolding vfs_node_path_def e using n ancestors_lineage [OF l(1) _ r, of 0 "[]"] l(2,3) by simp
qed

lemma skip_path: "xs \<noteq> [] \<Longrightarrow> clean_name (name_of ns (hd xs)) \<Longrightarrow>
    skip_slashes (path_bytes ns xs) = name_of ns (hd xs) @ path_bytes ns (tl xs)"
  by (cases xs; cases "name_of ns (hd xs)") (auto simp: path_bytes_def skip_slashes_def clean_name_def)

lemma component_path:
  assumes "clean_name nm"
  shows "component (nm @ path_bytes ns xs) = nm" "after_component (nm @ path_bytes ns xs) = skip_slashes (path_bytes ns xs)"
proof -
  have a: "\<And>x. x \<in> set nm \<Longrightarrow> x \<noteq> SLASH" using assms by (auto simp: clean_name_def)
  have t: "takeWhile (\<lambda>c. c \<noteq> SLASH) (path_bytes ns xs) = []" "dropWhile (\<lambda>c. c \<noteq> SLASH) (path_bytes ns xs) = path_bytes ns xs"
    by (cases xs; simp add: path_bytes_def)+
  show "component (nm @ path_bytes ns xs) = nm"
    "after_component (nm @ path_bytes ns xs) = skip_slashes (path_bytes ns xs)"
    using a t by (simp_all add: component_def after_component_def takeWhile_append2 dropWhile_append2)
qed

lemma walk_lineage:
  assumes t: "tree_ok root kids ns" and l: "lineage ns d (x # xs)"
    and c: "\<forall>y\<in>set (x # xs). y \<noteq> root \<and> clean_name (name_of ns y)"
  shows "walk_loop ns False d (name_of ns x @ path_bytes ns xs) = Some (last (x # xs), None)"
  using l c
proof (induction xs arbitrary: d x)
  case Nil
  then obtain n where n: "ns x = Some n" "v_parent n = d" "x \<noteq> root" "clean_name (name_of ns x)" by auto
  obtain p where p: "ns d = Some p" using tree_nodeD(3) [OF t n(1,3)] n(2) by blast
  have x: "x \<in> set (kids d)" "x \<noteq> 0" using tree_nodeD(4) [OF t n(1,3)] n tree_rootD(1) [OF t] by auto
  have "dir_find ns d (name_of ns x) = Some x"
    using dir_find_pick [OF t p] pick_name [OF tree_dirD(2) [OF t p] x(1)] by simp
  then show ?case using n(4) x(2) component_path [OF n(4), of ns "[]"] component_append [of "name_of ns x" ns d]
    by (simp add: path_bytes_def clean_name_def step_to_def skip_slashes_def)
next
  case (Cons y ys)
  then obtain n where n: "ns x = Some n" "v_parent n = d" "x \<noteq> root" "clean_name (name_of ns x)" by auto
  obtain p where p: "ns d = Some p" using tree_nodeD(3) [OF t n(1,3)] n(2) by blast
  have x: "x \<in> set (kids d)" "x \<noteq> 0" using tree_nodeD(4) [OF t n(1,3)] n tree_rootD(1) [OF t] by auto
  have df: "dir_find ns d (name_of ns x) = Some x"
    using dir_find_pick [OF t p] pick_name [OF tree_dirD(2) [OF t p] x(1)] by simp
  have "v_is_dir n" using Cons.prems tree_nodeD(3) [OF t, of y] n(1) by auto
  moreover have IH: "walk_loop ns False x (name_of ns y @ path_bytes ns ys) = Some (last (y # ys), None)"
    by (rule Cons.IH) (use Cons.prems in auto)
  moreover have "name_of ns y @ path_bytes ns ys \<noteq> []" using Cons.prems by (simp add: clean_name_def)
  ultimately show ?case
    using n x(2) df component_path [OF n(4), of ns "y # ys"] skip_path [of "y # ys" ns] Cons.prems
      component_append [of "name_of ns x @ path_bytes ns (y # ys)" ns d]
    by (simp add: clean_name_def step_to_def)
qed

lemma node_path_lemma:
  assumes t: "tree_ok root kids ns" and l: "lineage ns root xs" "length xs \<le> 32"
    and c: "\<forall>y\<in>set xs. y \<noteq> root \<and> clean_name (name_of ns y)"
  shows "\<exists>path. vfs_node_path ns (last (root # xs)) b = Some path \<and>
    (length path + 1 < b \<longrightarrow> vfs_resolve root ns path cwd = Some (last (root # xs)))"
proof -
  obtain r where r: "ns root = Some r" "v_parent r = 0" using tree_rootD(2) [OF t] by blast
  show ?thesis
  proof (cases xs)
    case Nil
    then show ?thesis using r
      by (auto simp: vfs_node_path_def vfs_resolve_def walk_def start_dir_def skip_slashes_def Let_def take_Cons'
          split: if_splits)
  next
    case (Cons x ys)
    let ?path = "fold (put_char b) (path_bytes ns xs) []"
    have p: "vfs_node_path ns (last xs) b = Some ?path" by (rule node_path_bytes [OF l _ r]) (simp add: Cons)
    have "vfs_resolve root ns ?path cwd = Some (last xs)" if "length ?path + 1 < b"
    proof -
      have e: "?path = path_bytes ns xs" using put_chars [OF that] by simp
      have h: "path_bytes ns xs \<noteq> []" "hd (path_bytes ns xs) = SLASH" using Cons by (simp_all add: path_bytes_def)
      have cx: "clean_name (name_of ns x)" using c Cons by simp
      have s: "skip_slashes (path_bytes ns xs) = name_of ns x @ path_bytes ns ys" using skip_path [of xs ns] Cons cx by simp
      have ne: "name_of ns x @ path_bytes ns ys \<noteq> []" using cx by (simp add: clean_name_def)
      show ?thesis unfolding e
        using walk_lineage [OF t, of root x ys] l(1) c h Cons
        unfolding vfs_resolve_def walk_def start_dir_def Let_def s if_not_P [OF ne] by simp
    qed
    then show ?thesis using p Cons by auto
  qed
qed

section \<open>Writing keeps the invariant\<close>

lemma tree_same:
  assumes t: "tree_ok root kids ns" and f: "ns f = Some n"
    and m: "v_name m = v_name n" "v_parent m = v_parent n" "v_is_dir m = v_is_dir n" "v_children m = v_children n"
      "v_next m = v_next n"
  shows "tree_ok root kids (ns(f \<mapsto> m))"
proof -
  let ?ns = "ns(f \<mapsto> m)"
  have nm: "name_of ?ns x = name_of ns x" "v_parent (the (?ns x)) = v_parent (the (ns x))" for x
    using f m by (auto simp: name_of_def)
  have sib: "siblings ?ns c xs 0" if "siblings ns c xs 0" for c xs
    by (rule siblings_frame [OF that]) (use f m in auto)
  have old: "\<exists>k. ns x = Some k \<and> v_name j = v_name k \<and> v_parent j = v_parent k \<and> v_is_dir j = v_is_dir k \<and>
      v_children j = v_children k" if "?ns x = Some j" for x j
    using that f m by (cases "x = f") auto
  have new: "\<exists>j. ?ns x = Some j \<and> v_is_dir j = v_is_dir k \<and> v_parent j = v_parent k" if "ns x = Some k" for x k
    using that f m by (cases "x = f") auto
  show ?thesis unfolding tree_ok_def
  proof (intro conjI allI impI; (elim conjE)?)
    show "?ns 0 = None" using tree_rootD(1) [OF t] f by (cases "f = 0") auto
    show "\<exists>r. ?ns root = Some r \<and> v_parent r = 0 \<and> v_is_dir r" using tree_rootD(2) [OF t] new by metis
    fix d j assume j: "?ns d = Some j"
    from old [OF j] obtain k where k: "ns d = Some k" "v_name j = v_name k" "v_parent j = v_parent k"
      "v_is_dir j = v_is_dir k" "v_children j = v_children k" by blast
    show "siblings ?ns (v_children j) (kids d) 0" using sib [OF tree_dirD(1) [OF t k(1)]] k(5) by simp
    show "distinct (map (name_of ?ns) (kids d))" using tree_dirD(2) [OF t k(1)] nm(1) by (simp cong: map_cong)
    show "kids d \<noteq> [] \<Longrightarrow> v_is_dir j" using tree_dirD(3) [OF t k(1)] k(4) by simp
    show "\<forall>x\<in>set (kids d). x \<noteq> root \<and> v_parent (the (?ns x)) = d" using tree_dirD(4) [OF t k(1)] nm(2) by simp
    assume r: "d \<noteq> root"
    note T = tree_node [OF t k(1) r]
    show "v_name j \<noteq> []" "length (v_name j) < VFS_NAME_MAX" "d \<in> set (kids (v_parent j))" using T k by simp_all
    show "\<exists>p. ?ns (v_parent j) = Some p \<and> v_is_dir p" using T k(3) new by metis
  qed
qed

context heap_allocator
begin

lemma vfs_write_inv:
  assumes I: "vfs_inv inv regions arena root kids s" and f: "nodes s f = Some n" "\<not> v_is_dir n" "\<not> v_readonly n"
    and sz: "unat off + unat len \<le> 2 ^ 62" "unat (v_cap n) < 2 ^ 63" "unat len \<le> length buf"
    and r: "vfs_write ops junk f buf off len s = Some (r, s')"
  shows "vfs_inv inv regions arena root kids s'"
proof -
  have fo: "file_ok regions s f" by (rule vfs_invD(6) [OF I f])
  have cap: "unat (v_cap (the (nodes s f))) < 2 ^ 63" using sz(2) f(1) by simp
  from vfs_write_lemma [OF vfs_invD(1) [OF I] fo sz(1) cap sz(3), of junk] show ?thesis
  proof (elim disjE exE conjE)
    assume "vfs_write ops junk f buf off len s = Some (- 1, s)"
    then show ?thesis using r I by simp
  next
    fix s1 d c z
    assume w: "vfs_write ops junk f buf off len s = Some (ucast len, s1)" "inv (vheap s1)" "file_ok regions s1 f"
      "\<forall>g. g \<noteq> f \<longrightarrow> nodes s1 g = nodes s g" "nodes s1 f = Some ((the (nodes s f))\<lparr>v_data := d, v_size := z, v_cap := c\<rparr>)"
      "arena (vheap s1) = arena (vheap s)"
      and fr: "\<forall>q m. (q, m) \<in> regions (vheap s) \<and> q \<noteq> v_data (the (nodes s f)) \<longrightarrow>
        objects s1 q = objects s q \<and> (q, m) \<in> regions (vheap s1) \<and> q \<noteq> v_data (the (nodes s1 f))"
    define m where "m = n\<lparr>v_data := d, v_size := z, v_cap := c\<rparr>"
    have s1: "s1 = s'" using w(1) r by simp
    have ns: "nodes s' = (nodes s)(f \<mapsto> m)" using w(4,5) f(1) s1 by (auto simp: m_def)
    have mf: "v_name m = v_name n" "v_parent m = v_parent n" "v_is_dir m = v_is_dir n" "v_children m = v_children n"
      "v_next m = v_next n" "v_readonly m = v_readonly n" "v_data m = d" by (simp_all add: m_def)
    have fr': "objects s' q = objects s q \<and> (q, j) \<in> regions (vheap s') \<and> q \<noteq> d"
      if "(q, j) \<in> regions (vheap s)" "q \<noteq> v_data n" for q j
      using fr that f(1) ns mf(7) unfolding s1 by (metis fun_upd_same option.sel)
    have reg: "\<exists>j. (v_data k, j) \<in> regions (vheap s)" if "nodes s x = Some k" "\<not> v_readonly k" "v_data k \<noteq> 0" for x k
      using that vfs_invD(5,6) [OF I that(1)] by (cases "v_is_dir k") (auto simp: file_ok_def)
    have nd: "v_data n \<noteq> x" if "nodes s x = Some k" "v_data n \<noteq> 0" for x k
      using vfs_invD(7) [OF I f(1,3)] that by auto
    have t0: "nodes s 0 = None" by (rule tree_rootD(1) [OF vfs_invD(2) [OF I]])
    have nd': "v_data n \<noteq> x" if "nodes s x = Some k" for x k
      using nd [OF that] that t0 by (cases "v_data n = 0") auto
    have oth: "v_data k \<noteq> d \<and> (\<exists>j. (v_data k, j) \<in> regions (vheap s')) \<and> objects s' (v_data k) = objects s (v_data k)"
      if k: "nodes s x = Some k" "x \<noteq> f" "\<not> v_readonly k" "v_data k \<noteq> 0" for x k
    proof -
      obtain j where j: "(v_data k, j) \<in> regions (vheap s)" using reg [OF k(1,3,4)] by blast
      have "v_data k \<noteq> v_data n" by (rule vfs_invD(8) [OF I k(1) f(1) k(2,3) f(3) k(4)])
      from fr' [OF j this] show ?thesis by blast
    qed
    show ?thesis unfolding vfs_inv_def
    proof (intro conjI allI impI; (elim conjE)?)
      show "inv (vheap s')" "root \<notin> arena (vheap s')" using w(2,6) s1 vfs_invD(3) [OF I] by simp_all
      show "tree_ok root kids (nodes s')" unfolding ns by (rule tree_same [OF vfs_invD(2) [OF I] f(1) mf(1-5)])
      fix x m' assume x: "nodes s' x = Some m'"
      obtain k where k: "nodes s x = Some k" "v_is_dir m' = v_is_dir k" "v_readonly m' = v_readonly k"
        "x \<noteq> f \<Longrightarrow> m' = k" using x f(1) mf unfolding ns by (cases "x = f") auto
      {
        assume "x \<noteq> root"
        then obtain j where "(x, j) \<in> regions (vheap s)" using vfs_invD(4) [OF I k(1)] by blast
        from fr' [OF this] nd' [OF k(1)] show "\<exists>j. (x, j) \<in> regions (vheap s')" by metis
      }
      {
        assume g: "v_is_dir m'"
        then have "m' = k" using k(1,2,4) f by (cases "x = f") auto
        then show "v_data m' = 0" "\<not> v_readonly m'" using vfs_invD(5) [OF I k(1)] g by auto
      }
      {
        assume g: "\<not> v_is_dir m'" "\<not> v_readonly m'"
        show "file_ok regions s' x"
        proof (cases "x = f")
          case True
          then show ?thesis using w(3) s1 by simp
        next
          case False
          then have "nodes s' x = Some k" using k(1) ns by simp
          moreover have "file_ok regions s x" using vfs_invD(6) [OF I k(1)] g k by simp
          ultimately show ?thesis using file_ok_frame [OF _ k(1)] oth [OF k(1) False] g k(3) by blast
        qed
      }
      have dfree: "nodes s d = None" if dz: "d \<noteq> 0"
      proof (rule ccontr)
        assume "nodes s d \<noteq> None"
        then obtain k where k: "nodes s d = Some k" by auto
        obtain j where j: "(d, j) \<in> regions (vheap s')" using w(3) dz s1 ns mf by (auto simp: file_ok_def)
        show False
        proof (cases "d = root")
          case True
          then show False using region_arena [OF w(2), of d j] j s1 w(6) vfs_invD(3) [OF I] by simp
        next
          case False
          then obtain l where "(d, l) \<in> regions (vheap s)" using vfs_invD(4) [OF I k] by blast
          from fr' [OF this] nd' [OF k] show False by blast
        qed
      qed
      {
        assume g: "\<not> v_readonly m'" "v_data m' \<noteq> 0"
        have "nodes s (v_data m') = None"
        proof (cases "x = f")
          case True
          then show ?thesis using x ns mf(7) dfree g by simp
        next
          case False
          then show ?thesis using vfs_invD(7) [OF I k(1)] k g by simp
        qed
        then show "nodes s' (v_data m') = None" using ns f(1) by auto
      }
      fix y m2 assume y: "nodes s' y = Some m2" "x \<noteq> y" "\<not> v_readonly m'" "\<not> v_readonly m2" "v_data m' \<noteq> 0"
      consider "x = f" | "y = f" | "x \<noteq> f" "y \<noteq> f" by blast
      then show "v_data m' \<noteq> v_data m2"
      proof cases
        case 1
        then have "nodes s y = Some m2" "v_data m' = d" using y(1,2) ns x mf(7) by auto
        then show ?thesis using oth [of y m2] 1 y by (cases "v_data m2 = 0") auto
      next
        case 2
        then have "nodes s x = Some m'" "v_data m2 = d" using y(1,2) ns x mf(7) by auto
        then show ?thesis using oth [of x m'] 2 y by auto
      next
        case 3
        then have "nodes s x = Some m'" "nodes s y = Some m2" using x y ns by auto
        then show ?thesis using vfs_invD(8) [OF I] y by blast
      qed
    qed
  qed
qed

end


section \<open>Properties\<close>

text \<open>The invariant on the kernel heap.\<close>

abbreviation fs_inv :: "u64 \<Rightarrow> (u64 \<Rightarrow> u64 list) \<Rightarrow> heap vfs \<Rightarrow> bool" where
  "fs_inv \<equiv> vfs_inv heap_ok heap_regions heap_arena"

text \<open>The root directory with one empty file \<open>f\<close>.\<close>

definition sample_tree :: "heap vfs" where
  "sample_tree = \<lparr>nodes = [32 \<mapsto> \<lparr>v_name = [SLASH], v_is_dir = True, v_readonly = False, v_data = 0, v_size = 0,
        v_cap = 0, v_parent = 0, v_children = 4128, v_next = 0\<rparr>,
      4128 \<mapsto> \<lparr>v_name = [102], v_is_dir = False, v_readonly = False, v_data = 0, v_size = 0, v_cap = 0,
        v_parent = 32, v_children = 0, v_next = 0\<rparr>],
    objects = Map.empty, vheap = sample_heap\<rparr>"

lemma sample_tree_ok: "tree_ok 32 ((\<lambda>_. [])(32 := [4128])) (nodes sample_tree)"
  by (simp add: tree_ok_def sample_tree_def name_of_def VFS_NAME_MAX_def)

lemma sample_fs: "fs_inv 32 ((\<lambda>_. [])(32 := [4128])) sample_tree"
proof -
  have a: "32 \<notin> heap_arena sample_heap" by (simp add: heap_arena_def sample_heap_def)
  show ?thesis unfolding vfs_inv_def using sample_tree_ok sample_regions a
    by (auto simp: sample_tree_def file_ok_def split: if_splits)
qed

text \<open>
  C16: creating an entry in a directory adds exactly that entry: the new name is found, every other
  lookup answers as before, the invariant of the tree is kept, and it fails only when the heap is full.
\<close>

theorem vfs_create_adds:
  assumes "fs_inv root kids s" "nodes s dir = Some d" "v_is_dir d"
    and "name \<noteq> []" "length name < VFS_NAME_MAX" "dir_find (nodes s) dir name = Some 0"
  shows "(vfs_create kernel_heap dir name is_dir s = Some (0, s) \<and>
      heap_malloc kernel_heap VNODE_SIZE (vheap s) = Some (0, vheap s)) \<or>
    (\<exists>n s' kids'. vfs_create kernel_heap dir name is_dir s = Some (n, s') \<and> n \<noteq> 0 \<and> nodes s n = None \<and>
      fs_inv root kids' s' \<and> dir_find (nodes s') dir name = Some n \<and> objects s' = objects s \<and>
      (\<forall>e m k. nodes s e = Some m \<and> (e, k) \<noteq> (dir, name) \<longrightarrow>
        dir_find (nodes s') e k = dir_find (nodes s) e k))"
  by (rule kheap.vfs_create_lemma [OF assms, of is_dir]) blast+

theorem vfs_create_adds_witness:
  "\<exists>n s'. vfs_create kernel_heap 32 [103] True sample_tree = Some (n, s') \<and> dir_find (nodes s') 32 [103] = Some n \<and>
     dir_find (nodes s') 32 [102] = Some 4128"
proof -
  have d: "nodes sample_tree 32 = Some (the (nodes sample_tree 32))" "v_is_dir (the (nodes sample_tree 32))"
    "length [103 :: u8] < VFS_NAME_MAX" by (simp_all add: sample_tree_def VFS_NAME_MAX_def)
  note f = dir_find_pick [OF sample_tree_ok d(1)]
  have f0: "dir_find (nodes sample_tree) 32 [103] = Some 0" "dir_find (nodes sample_tree) 32 [102] = Some 4128"
    unfolding f by (simp_all add: sample_tree_def name_of_def)
  have "unat (round_size VNODE_SIZE) = 128" by (simp add: round_size_eq VNODE_SIZE_def)
  then have "heap_malloc kernel_heap VNODE_SIZE (vheap sample_tree) \<noteq> Some (0, vheap sample_tree)"
    using malloc_refines_lemma [OF sample_inv, of VNODE_SIZE]
    by (auto simp: kernel_heap_def sample_tree_def VNODE_SIZE_def)
  then show ?thesis
    using vfs_create_adds [OF sample_fs d(1,2) _ d(3) f0(1), of True] d(1) f0(2) by fastforce
qed

text \<open>
  C17: \<open>vfs\_mkdirs\<close> returns a directory that the same path then resolves to, or NULL, and NULL only when the
  heap has no room for a node or when the path is blocked in the resulting tree: one of its components
  names a file, or a missing directory has a name of 64 bytes or more. Every new node is a directory, every
  earlier node, entry and data object is kept, and so is the invariant of the tree.
\<close>

theorem vfs_mkdirs_resolves:
  assumes "fs_inv root kids s" "cwd \<noteq> 0 \<Longrightarrow> \<exists>n. nodes s cwd = Some n \<and> v_is_dir n"
  shows "\<exists>d s' kids'. vfs_mkdirs kernel_heap root path cwd s = Some (d, s') \<and> fs_inv root kids' s' \<and>
    extends (nodes s) (nodes s') \<and> objects s' = objects s \<and>
    (d \<noteq> 0 \<longrightarrow> (\<exists>m. nodes s' d = Some m \<and> v_is_dir m) \<and> vfs_resolve root (nodes s') path cwd = Some d) \<and>
    only_dirs (nodes s) (nodes s') \<and>
    (d = 0 \<longrightarrow> heap_malloc kernel_heap VNODE_SIZE (vheap s') = Some (0, vheap s') \<or>
      path_blocked (nodes s') (start_dir root cwd path) (skip_slashes path))"
  by (rule kheap.vfs_mkdirs_lemma [OF assms])

text \<open>A new directory \<open>/g\<close>, then \<open>/f/g\<close>, where \<open>f\<close> is a file.\<close>

theorem vfs_mkdirs_resolves_witness:
  "(\<exists>d s'. vfs_mkdirs kernel_heap 32 [SLASH, 103] 0 sample_tree = Some (d, s') \<and> d \<noteq> 0 \<and>
     vfs_resolve 32 (nodes s') [SLASH, 103] 0 = Some d) \<and>
   (\<exists>s'. vfs_mkdirs kernel_heap 32 [SLASH, 102, SLASH, 103] 0 sample_tree = Some (0, s') \<and>
     nodes s' 4128 \<noteq> None)"
proof -
  note R = vfs_mkdirs_resolves [OF sample_fs, of 0]
  obtain n where n: "nodes sample_tree 32 = Some n" "v_is_dir n" by (simp add: sample_tree_def)
  have f0: "dir_find (nodes sample_tree) 32 [103] = Some 0" "dir_find (nodes sample_tree) 32 [102] = Some 4128"
    unfolding dir_find_pick [OF sample_tree_ok n(1)] by (simp_all add: sample_tree_def name_of_def)
  have u: "unat (round_size VNODE_SIZE) = 128" by (simp add: round_size_eq VNODE_SIZE_def)
  obtain y h where m: "heap_malloc kernel_heap VNODE_SIZE (vheap sample_tree) = Some (y, h)" "y \<noteq> 0"
    using malloc_refines_lemma [OF sample_inv, of VNODE_SIZE] u
    by (auto simp: kernel_heap_def sample_tree_def VNODE_SIZE_def)
  have c: "component [103] = [103]" "after_component [103] = []" "component [102, SLASH, 103] = [102]"
    "after_component [102, SLASH, 103] = [103]"
    by (simp_all add: component_def after_component_def skip_slashes_def)
  have "\<exists>s'. vfs_create kernel_heap 32 [103] True sample_tree = Some (y, s') \<and> (\<exists>k. nodes s' y = Some k \<and> v_is_dir k)"
    using n f0(1) m by (auto simp: vfs_create_def VFS_NAME_MAX_def)
  then obtain s' where s': "vfs_mkdirs kernel_heap 32 [SLASH, 103] 0 sample_tree = Some (y, s')"
    using f0(1) m(2)
    by (auto simp: vfs_mkdirs_def start_dir_def skip_slashes_def mkdirs_loop.simps c Let_def VFS_NAME_MAX_def)
  have r1: "\<exists>d s'. vfs_mkdirs kernel_heap 32 [SLASH, 103] 0 sample_tree = Some (d, s') \<and> d \<noteq> 0 \<and>
      vfs_resolve 32 (nodes s') [SLASH, 103] 0 = Some d" using R [of "[SLASH, 103]"] s' m(2) by auto
  have f: "nodes sample_tree 4128 \<noteq> None" "\<not> v_is_dir (the (nodes sample_tree 4128))" by (simp_all add: sample_tree_def)
  then have "vfs_mkdirs kernel_heap 32 [SLASH, 102, SLASH, 103] 0 sample_tree = Some (0, sample_tree)"
    using f0(2)
    by (auto simp: vfs_mkdirs_def start_dir_def skip_slashes_def mkdirs_loop.simps [of _ _ "_ # _"] c Let_def)
  then show ?thesis using r1 f(1) by blast
qed

text \<open>
  C18: unlinking a file or an empty directory takes out exactly its entry: the name is no longer
  found, every other lookup and the contents of every other file stay, and the invariant of the tree is
  kept. The regions of the heap in use afterwards are those in use before except the node's own and,
  for a writable file with data, that of its data; so both are freed and nothing else is.
\<close>

theorem vfs_unlink_removes:
  assumes "fs_inv root kids s" "nodes s node = Some n" "node \<noteq> root" "v_children n = 0"
  shows "\<exists>s' kids'. vfs_unlink kernel_heap root node s = Some (0, s') \<and> fs_inv root kids' s' \<and>
    nodes s' node = None \<and> dir_find (nodes s') (v_parent n) (v_name n) = Some 0 \<and>
    (\<forall>d m name. nodes s d = Some m \<and> d \<noteq> node \<and> (d, name) \<noteq> (v_parent n, v_name n) \<longrightarrow>
      dir_find (nodes s') d name = dir_find (nodes s) d name) \<and>
    (\<forall>f m. nodes s f = Some m \<and> \<not> v_is_dir m \<and> \<not> v_readonly m \<and> f \<noteq> node \<longrightarrow> contents s' f = contents s f) \<and>
    (\<exists>l. (node, l) \<in> heap_regions (vheap s)) \<and>
    heap_regions (vheap s') = {r \<in> heap_regions (vheap s). fst r \<noteq> node \<and>
      (\<not> v_readonly n \<and> v_data n \<noteq> 0 \<longrightarrow> fst r \<noteq> v_data n)}"
  by (rule kheap.vfs_unlink_lemma [OF assms])

theorem vfs_unlink_removes_witness:
  "\<exists>s'. vfs_unlink kernel_heap 32 4128 sample_tree = Some (0, s') \<and> dir_find (nodes s') 32 [102] = Some 0 \<and>
     4128 \<in> fst ` heap_regions (vheap sample_tree) \<and> 4128 \<notin> fst ` heap_regions (vheap s')"
proof -
  let ?n = "the (nodes sample_tree 4128)"
  have n: "nodes sample_tree 4128 = Some ?n" "v_children ?n = 0" "v_parent ?n = 32" "v_name ?n = [102]"
    by (simp_all add: sample_tree_def)
  obtain s' l where "vfs_unlink kernel_heap 32 4128 sample_tree = Some (0, s')" "dir_find (nodes s') 32 [102] = Some 0"
    "(4128, l) \<in> heap_regions (vheap sample_tree)" "\<forall>r\<in>heap_regions (vheap s'). fst r \<noteq> 4128"
    using vfs_unlink_removes [OF sample_fs n(1) _ n(2)] n(3,4) by auto
  then show ?thesis by force
qed

text \<open>
  The path that \<open>vfs\_node\_path\<close> prints for a node at most 32 levels deep leads back to it, from any
  working directory, unless the buffer was too small for it.
\<close>

theorem vfs_node_path_resolves:
  assumes "tree_ok root kids ns" "lineage ns root xs" "length xs \<le> 32"
    and "\<forall>y\<in>set xs. y \<noteq> root \<and> clean_name (name_of ns y)"
  shows "\<exists>path. vfs_node_path ns (last (root # xs)) bsize = Some path \<and>
    (length path + 1 < bsize \<longrightarrow> vfs_resolve root ns path cwd = Some (last (root # xs)))"
  by (rule node_path_lemma [OF assms])

theorem vfs_node_path_resolves_witness:
  "\<exists>path. vfs_node_path (nodes sample_tree) 4128 64 = Some path \<and>
     (64 \<le> length path + 1 \<or> vfs_resolve 32 (nodes sample_tree) path 0 = Some 4128)"
proof -
  have "lineage (nodes sample_tree) 32 [4128]" "\<forall>y\<in>set [4128]. y \<noteq> 32 \<and> clean_name (name_of (nodes sample_tree) y)"
    by (simp_all add: sample_tree_def name_of_def clean_name_def)
  from vfs_node_path_resolves [OF sample_tree_ok this(1) _ this(2), of 64 0] show ?thesis by auto
qed

end
