(* ===== verification/Initrd.thy ===== *)
theory Initrd
  imports VfsTree
begin

text \<open>
  The loader of \<open>initrd.c\<close>: the modules the boot loader left in memory, the unpacking of the ustar
  archive into the file system and the registration of model files. A module is its path, its bytes
  and its address; \<open>None\<close> is a read outside the archive. The lines printed to the log are left out.
\<close>

section \<open>Modules\<close>

record modul =
  mod_path :: "u8 list"
  mod_address :: u64
  mod_bytes :: "u8 list"

text \<open>The first module whose path ends with a name; the boot loader may have given no list at all.\<close>

definition module_find :: "modul list option \<Rightarrow> u8 list \<Rightarrow> modul option" where
  "module_find mods name =
     (case mods of
        None \<Rightarrow> None
      | Some ms \<Rightarrow> find (\<lambda>m. length (mod_path m) \<ge> length name \<and>
          drop (length (mod_path m) - length name) (mod_path m) = name) ms)"

section \<open>The archive\<close>

fun octal_loop :: "u64 \<Rightarrow> u8 list \<Rightarrow> u64" where
  "octal_loop v (c # s) = (if c \<ge> 48 \<and> c \<le> 55 then octal_loop (v * 8 + ucast (c - 48)) s else v)"
| "octal_loop v [] = v"

definition octal_to_int :: "u8 list \<Rightarrow> u64" where
  "octal_to_int s = octal_loop 0 s"

text \<open>A path is cut at its last slash, when it has one.\<close>

definition strrchr_slash :: "u8 list \<Rightarrow> (u8 list \<times> u8 list) option" where
  "strrchr_slash p =
     (if SLASH \<in> set p then
        let l = length (takeWhile (\<lambda>c. c \<noteq> SLASH) (rev p))
        in Some (take (length p - Suc l) p, drop (length p - l) p)
      else None)"

text \<open>The name of a header: up to 100 bytes, without a leading \<open>./\<close>.\<close>

definition tar_name :: "u8 list \<Rightarrow> u8 list" where
  "tar_name hdr =
     (let name = takeWhile (\<lambda>c. c \<noteq> 0) (take 100 hdr)
      in if take 2 name = [DOT, SLASH] then drop 2 name else name)"

text \<open>A file entry: its directory is created first, then the file, then its data is copied.\<close>

definition load_file :: "'h heap_ops \<Rightarrow> (nat \<Rightarrow> u8) \<Rightarrow> u64 \<Rightarrow> u8 list \<Rightarrow> u64 \<Rightarrow> u8 list \<Rightarrow> 'h vfs \<Rightarrow> (nat \<times> 'h vfs) option" where
  "load_file ops junk root clean fsize data s =
     (case strrchr_slash clean of
        Some (d, leaf) \<Rightarrow> vfs_mkdirs ops root d root s \<bind> (\<lambda>(dir, s). Some (dir, leaf, s))
      | None \<Rightarrow> Some (root, clean, s)) \<bind> (\<lambda>(dir, leaf, s).
     if dir \<noteq> 0 \<and> leaf \<noteq> [] then
       vfs_create ops dir leaf False s \<bind> (\<lambda>(f, s).
       (if f \<noteq> 0 \<and> fsize > 0
        then vfs_write ops junk f data 0 fsize s \<bind> (\<lambda>(_, s). Some s)
        else Some s) \<bind> (\<lambda>s. Some (1, s)))
     else Some (0, s))"

definition load_entry :: "'h heap_ops \<Rightarrow> (nat \<Rightarrow> u8) \<Rightarrow> u64 \<Rightarrow> u8 list \<Rightarrow> u8 list \<Rightarrow> 'h vfs \<Rightarrow> (nat \<times> 'h vfs) option" where
  "load_entry ops junk root hdr data s =
     (let clean = tar_name hdr; fsize = octal_to_int (take 12 (drop 124 hdr)); type = hdr ! 156
      in if clean = [] then Some (0, s)
         else if type = 53 then vfs_mkdirs ops root clean root s \<bind> (\<lambda>(_, s). Some (0, s))
         else if type = 48 \<or> type = 0 then load_file ops junk root clean fsize data s
         else Some (0, s))"

definition entry_size :: "u8 list \<Rightarrow> u64" where
  "entry_size hdr = 512 + ((octal_to_int (take 12 (drop 124 hdr)) + 511) AND NOT 511)"

lemma octal_loop_bound: "unat v < 8 ^ k \<Longrightarrow> k + length s \<le> 20 \<Longrightarrow> unat (octal_loop v s) < 8 ^ (k + length s)"
proof (induction v s arbitrary: k rule: octal_loop.induct)
  case (1 v c s)
  show ?case
  proof (cases "c \<ge> 48 \<and> c \<le> 55")
    case True
    have "unat (c - 48) = unat c - 48" "unat c \<le> 55" "48 \<le> unat c"
      using True by (simp_all add: unat_minus_small word_le_nat_alt)
    then have d: "unat (ucast (c - 48) :: u64) < 8" by (simp add: unat_ucast_up)
    have p: "(8 :: nat) ^ Suc k \<le> 8 ^ 20" using "1.prems"(2) by (intro power_increasing) simp_all
    have v: "unat v * 8 + 8 \<le> 8 ^ Suc k" using "1.prems"(1) by simp
    have m: "unat (v * 8) = unat v * 8" using v p by (simp add: unat_word_ariths)
    have "unat (v * 8 + ucast (c - 48)) = unat v * 8 + unat (ucast (c - 48) :: u64)"
      using m d v p by (subst unat_plus_small) simp_all
    then have "unat (v * 8 + ucast (c - 48)) < 8 ^ Suc k" using d v by linarith
    from "1.IH" [OF True this] "1.prems"(2) True show ?thesis by simp
  next
    case False
    have "(8 :: nat) ^ k \<le> 8 ^ (k + length (c # s))" by (intro power_increasing) simp_all
    with False "1.prems"(1) show ?thesis by (simp only: octal_loop.simps if_False)
  qed
qed simp

lemma octal_bound: "length s \<le> 12 \<Longrightarrow> unat (octal_to_int s) < 2 ^ 36"
proof -
  assume l: "length s \<le> 12"
  have "unat (octal_to_int s) < 8 ^ (0 + length s)"
    unfolding octal_to_int_def by (rule octal_loop_bound) (use l in simp_all)
  also have "\<dots> \<le> 8 ^ 12" using l by (intro power_increasing) simp_all
  finally show ?thesis by simp
qed

lemma round_up_512:
  assumes "unat (x :: u64) < 2 ^ 36"
  shows "unat (512 + ((x + 511) AND NOT 511)) = 512 + 512 * ((unat x + 511) div 512)"
proof -
  have m: "(511 :: u64) = mask 9" by (simp add: mask_eq_exp_minus_1)
  have a: "unat (x + 511) = unat x + 511" using assms by (subst unat_plus_small) simp_all
  have "(x + 511) AND NOT 511 = push_bit 9 (drop_bit 9 (x + 511))"
    unfolding m by (rule bit_word_eqI) (auto simp: bit_simps)
  also have "\<dots> = (x + 511) div 512 * 512" by (simp add: push_bit_eq_mult drop_bit_eq_div)
  finally have "unat ((x + 511) AND NOT 511) = (unat (x + 511) div 512 * 512) mod 2 ^ 64"
    by (simp add: unat_word_ariths unat_div)
  then have "unat ((x + 511) AND NOT 511) = 512 * ((unat x + 511) div 512)"
    using assms unfolding a by simp
  then show ?thesis using assms by (subst unat_plus_small) simp_all
qed

lemma entry_size_nat:
  "unat (entry_size hdr) = 512 + 512 * ((unat (octal_to_int (take 12 (drop 124 hdr))) + 511) div 512)"
  unfolding entry_size_def by (rule round_up_512) (rule octal_bound, simp)

text \<open>The walk over the archive from offset \<open>off\<close> on; the first result counts the files.\<close>

function load_tar_loop :: "'h heap_ops \<Rightarrow> (nat \<Rightarrow> u8) \<Rightarrow> u64 \<Rightarrow> u8 list \<Rightarrow> nat \<Rightarrow> nat \<Rightarrow> 'h vfs \<Rightarrow> (nat \<times> 'h vfs) option" where
  "load_tar_loop ops junk root base off files s =
     (if off + 512 \<le> length base then
        let hdr = take 512 (drop off base)
        in if hdr ! 0 = 0 then Some (files, s)
           else load_entry ops junk root hdr (drop (off + 512) base) s \<bind> (\<lambda>(k, s).
             load_tar_loop ops junk root base (off + unat (entry_size hdr)) (files + k) s)
      else Some (files, s))"
  by pat_completeness auto
termination
  by (relation "measure (\<lambda>(ops, junk, root, base, off, files, s). length base - off)")
    (auto simp: entry_size_nat)

declare load_tar_loop.simps [simp del]

definition load_tar :: "'h heap_ops \<Rightarrow> (nat \<Rightarrow> u8) \<Rightarrow> u64 \<Rightarrow> u8 list \<Rightarrow> 'h vfs \<Rightarrow> (nat \<times> 'h vfs) option" where
  "load_tar ops junk root base s = load_tar_loop ops junk root base 0 0 s"

section \<open>Start-up\<close>

definition models_dir :: "u8 list" where
  "models_dir = [47, 109, 111, 100, 101, 108, 115]"

definition register_module_file :: "'h heap_ops \<Rightarrow> u64 \<Rightarrow> u8 list \<Rightarrow> modul \<Rightarrow> 'h vfs \<Rightarrow> 'h vfs option" where
  "register_module_file ops root name m s =
     vfs_mkdirs ops root models_dir root s \<bind> (\<lambda>(dir, s).
     if dir = 0 then Some s
     else vfs_create ops dir name False s \<bind> (\<lambda>(f, s).
       if f = 0 then Some s
       else nodes s f \<bind> (\<lambda>n.
         Some (s\<lparr>nodes := (nodes s)(f \<mapsto> n\<lparr>v_readonly := True, v_data := mod_address m,
           v_size := of_nat (length (mod_bytes m)), v_cap := 0\<rparr>)\<rparr>))))"

text \<open>The names \<open>initrd.tar\<close> and those of the model files.\<close>

definition initrd_name :: "u8 list" where
  "initrd_name = [105, 110, 105, 116, 114, 100, 46, 116, 97, 114]"

definition model_names :: "u8 list list" where
  "model_names =
     [[115, 116, 111, 114, 105, 101, 115, 49, 53, 77, 46, 98, 105, 110],
      [115, 116, 111, 114, 105, 101, 115, 50, 54, 48, 75, 46, 98, 105, 110],
      [116, 111, 107, 101, 110, 105, 122, 101, 114, 46, 98, 105, 110],
      [116, 111, 107, 53, 49, 50, 46, 98, 105, 110],
      [113, 119, 101, 110, 51, 46, 98, 105, 110],
      [113, 119, 101, 110, 51, 46, 116, 111, 107, 101, 110, 105, 122, 101, 114]]"

definition initrd_init :: "'h heap_ops \<Rightarrow> (nat \<Rightarrow> u8) \<Rightarrow> u64 \<Rightarrow> modul list option \<Rightarrow> 'h vfs \<Rightarrow> 'h vfs option" where
  "initrd_init ops junk root mods s =
     (let s = vfs_init root s
      in (case module_find mods initrd_name of
            Some tar \<Rightarrow> map_option snd (load_tar ops junk root (mod_bytes tar) s)
          | None \<Rightarrow> Some s) \<bind>
         foldM (\<lambda>name s. case module_find mods name of
             Some m \<Rightarrow> register_module_file ops root name m s
           | None \<Rightarrow> Some s) model_names)"

section \<open>Loading keeps the tree in order\<close>

text \<open>
  An archive whose entries lie inside it: the data of every file entry the walk meets ends before
  the end of the archive.
\<close>

function tar_ok :: "u8 list \<Rightarrow> nat \<Rightarrow> bool" where
  "tar_ok base off \<longleftrightarrow>
     (off + 512 \<le> length base \<and> base ! off \<noteq> 0 \<longrightarrow>
        off + 512 + unat (octal_to_int (take 12 (drop (off + 124) base))) \<le> length base \<and>
        tar_ok base (off + unat (entry_size (take 512 (drop off base)))))"
  by pat_completeness auto
termination
  by (relation "measure (\<lambda>(base, off). length base - off)") (auto simp: entry_size_nat)

declare tar_ok.simps [simp del]
context heap_allocator begin

text \<open>Creating a file anywhere: the answer is NULL or a new, empty, writable file.\<close>

lemma create_file_inv:
  assumes I: "vfs_inv inv regions arena root kids s" and d: "nodes s dir = Some d" "v_is_dir d"
  shows "\<exists>f s' kids'. vfs_create ops dir name False s = Some (f, s') \<and> vfs_inv inv regions arena root kids' s' \<and>
    (f \<noteq> 0 \<longrightarrow> f \<noteq> root \<and> (\<exists>n. nodes s' f = Some n \<and> \<not> v_is_dir n \<and> \<not> v_readonly n \<and> v_data n = 0))"
proof (cases "name = [] \<or> length name \<ge> VFS_NAME_MAX")
  case True
  with I d show ?thesis by (auto simp: vfs_create_def)
next
  case False
  obtain c where c: "dir_find (nodes s) dir name = Some c"
    using dir_find_pick [OF vfs_invD(2) [OF I] d(1)] by blast
  show ?thesis
  proof (cases "c = 0")
    case True
    with c have c0: "dir_find (nodes s) dir name = Some 0" by simp
    have len: "name \<noteq> []" "length name < VFS_NAME_MAX" using False by auto
    show ?thesis
    proof (rule vfs_create_lemma [OF I d len c0, of False])
      assume "vfs_create ops dir name False s = Some (0, s)"
      then show ?thesis using I by auto
    next
      fix n s'
      assume a: "vfs_create ops dir name False s = Some (n, s')" "nodes s n = None"
        "vfs_inv inv regions arena root (kids(n := [], dir := n # kids dir)) s'"
        "\<exists>nd. nodes s' n = Some nd \<and> v_name nd = name \<and> v_parent nd = dir \<and> v_is_dir nd = False \<and>
         \<not> v_readonly nd \<and> v_data nd = 0 \<and> v_size nd = 0"
      have "n \<noteq> root" using a(2) tree_rootD(2) [OF vfs_invD(2) [OF I]] by auto
      with a show ?thesis by blast
    qed
  next
    case c: False
    with \<open>dir_find (nodes s) dir name = Some c\<close> False I d show ?thesis by (auto simp: vfs_create_def)
  qed
qed

lemma root_dir: "vfs_inv inv regions arena root kids s \<Longrightarrow> root \<noteq> 0 \<and> (\<exists>n. nodes s root = Some n \<and> v_is_dir n)"
  using tree_rootD [OF vfs_invD(2)] by (metis option.distinct(1))

lemma mkdirs_inv:
  assumes I: "vfs_inv inv regions arena root kids s"
  shows "\<exists>d s' kids'. vfs_mkdirs ops root path root s = Some (d, s') \<and> vfs_inv inv regions arena root kids' s' \<and>
    (d \<noteq> 0 \<longrightarrow> (\<exists>m. nodes s' d = Some m \<and> v_is_dir m))"
  using vfs_mkdirs_lemma [OF I, of root path] root_dir [OF I] by blast

lemma load_file_inv:
  assumes I: "vfs_inv inv regions arena root kids s" and sz: "unat fsize < 2 ^ 36" "unat fsize \<le> length data"
  shows "\<exists>k s' kids'. load_file ops junk root clean fsize data s = Some (k, s') \<and> vfs_inv inv regions arena root kids' s'"
proof -
  obtain dir leaf s1 kids1 where d: "(case strrchr_slash clean of
        Some (d, leaf) \<Rightarrow> vfs_mkdirs ops root d root s \<bind> (\<lambda>(dir, s). Some (dir, leaf, s))
      | None \<Rightarrow> Some (root, clean, s)) = Some (dir, leaf, s1)"
    "vfs_inv inv regions arena root kids1 s1" "dir \<noteq> 0 \<Longrightarrow> \<exists>m. nodes s1 dir = Some m \<and> v_is_dir m"
  proof (cases "strrchr_slash clean")
    case None
    show thesis by (rule that [of root clean s kids]) (use None I root_dir [OF I] in auto)
  next
    case (Some p)
    obtain q leaf where p: "p = (q, leaf)" by fastforce
    obtain dd s' kids' where "vfs_mkdirs ops root q root s = Some (dd, s')" "vfs_inv inv regions arena root kids' s'"
      "dd \<noteq> 0 \<longrightarrow> (\<exists>m. nodes s' dd = Some m \<and> v_is_dir m)" using mkdirs_inv [OF I] by blast
    with that [of dd leaf s' kids'] Some p show thesis by simp
  qed
  have eq: "load_file ops junk root clean fsize data s = (if dir \<noteq> 0 \<and> leaf \<noteq> [] then
       vfs_create ops dir leaf False s1 \<bind> (\<lambda>(f, s).
       (if f \<noteq> 0 \<and> fsize > 0 then vfs_write ops junk f data 0 fsize s \<bind> (\<lambda>(_, s). Some s) else Some s) \<bind>
         (\<lambda>s. Some (1, s)))
     else Some (0, s1))"
    by (simp add: load_file_def d(1))
  show ?thesis
  proof (cases "dir \<noteq> 0 \<and> leaf \<noteq> []")
    case False
    then show ?thesis using d(2) unfolding eq by auto
  next
    case True
    then obtain m where m: "nodes s1 dir = Some m" "v_is_dir m" using d(3) by blast
    obtain f s2 kids2 where f: "vfs_create ops dir leaf False s1 = Some (f, s2)" "vfs_inv inv regions arena root kids2 s2"
      "f \<noteq> 0 \<longrightarrow> f \<noteq> root \<and> (\<exists>n. nodes s2 f = Some n \<and> \<not> v_is_dir n \<and> \<not> v_readonly n \<and> v_data n = 0)"
      using create_file_inv [OF d(2) m, of leaf] by blast
    show ?thesis
    proof (cases "f \<noteq> 0 \<and> fsize > 0")
      case False
      with True f(1,2) show ?thesis unfolding eq by auto
    next
      case w: True
      then obtain n where n: "nodes s2 f = Some n" "\<not> v_is_dir n" "\<not> v_readonly n" "v_data n = 0" using f(3) by blast
      have ok: "file_ok regions s2 f" by (rule vfs_invD(6) [OF f(2) n(1-3)])
      then have cap: "v_cap n = 0" using n by (simp add: file_ok_def)
      have b: "unat (0 :: u64) + unat fsize \<le> 2 ^ 62" using sz(1) by simp
      have c: "unat (v_cap (the (nodes s2 f))) < 2 ^ 63" "unat (v_cap n) < 2 ^ 63" using n(1) cap by simp_all
      obtain r s3 where r: "vfs_write ops junk f data 0 fsize s2 = Some (r, s3)"
        using vfs_write_lemma [OF vfs_invD(1) [OF f(2)] ok b c(1) sz(2), of junk] by blast
      have "vfs_inv inv regions arena root kids2 s3"
        by (rule vfs_write_inv [OF f(2) n(1-3) b c(2) sz(2) r])
      with True f(1) w r show ?thesis unfolding eq by auto
    qed
  qed
qed

lemma load_entry_inv:
  assumes I: "vfs_inv inv regions arena root kids s"
    and sz: "unat (octal_to_int (take 12 (drop 124 hdr))) \<le> length data"
  shows "\<exists>k s' kids'. load_entry ops junk root hdr data s = Some (k, s') \<and> vfs_inv inv regions arena root kids' s'"
proof -
  have b: "unat (octal_to_int (take 12 (drop 124 hdr))) < 2 ^ 36" by (rule octal_bound) simp
  obtain d s1 kids1 where mk: "vfs_mkdirs ops root (tar_name hdr) root s = Some (d, s1)" "vfs_inv inv regions arena root kids1 s1"
    using mkdirs_inv [OF I] by blast
  obtain k s2 kids2 where lf: "load_file ops junk root (tar_name hdr) (octal_to_int (take 12 (drop 124 hdr))) data s = Some (k, s2)"
    "vfs_inv inv regions arena root kids2 s2" using load_file_inv [OF I b sz] by blast
  from I mk lf show ?thesis by (auto simp: load_entry_def Let_def)
qed

lemma load_tar_inv:
  assumes "vfs_inv inv regions arena root kids s" "tar_ok base off"
  shows "\<exists>k s' kids'. load_tar_loop ops junk root base off files s = Some (k, s') \<and> vfs_inv inv regions arena root kids' s'"
  using assms
proof (induction "length base - off" arbitrary: off files s kids rule: less_induct)
  case less
  let ?hdr = "take 512 (drop off base)"
  show ?case
  proof (cases "off + 512 \<le> length base \<and> base ! off \<noteq> 0")
    case False
    then have "load_tar_loop ops junk root base off files s = Some (files, s)"
      by (subst load_tar_loop.simps) (auto simp: Let_def)
    with less.prems(1) show ?thesis by blast
  next
    case True
    have ok: "off + 512 + unat (octal_to_int (take 12 (drop (off + 124) base))) \<le> length base"
      "tar_ok base (off + unat (entry_size ?hdr))"
      using less.prems(2) True by (subst (asm) tar_ok.simps, simp)+
    have fld: "take 12 (drop 124 ?hdr) = take 12 (drop (off + 124) base)"
      by (simp add: drop_take add.commute)
    have "unat (octal_to_int (take 12 (drop 124 ?hdr))) \<le> length (drop (off + 512) base)"
      using ok(1) unfolding fld by simp
    from load_entry_inv [OF less.prems(1) this, of junk] obtain k s1 kids1 where
      e: "load_entry ops junk root ?hdr (drop (off + 512) base) s = Some (k, s1)" "vfs_inv inv regions arena root kids1 s1"
      by blast
    have less': "length base - (off + unat (entry_size ?hdr)) < length base - off"
      using True unfolding entry_size_nat by linarith
    from less.hyps [OF less' e(2) ok(2), of "files + k"] obtain k' s2 kids2 where
      r: "load_tar_loop ops junk root base (off + unat (entry_size ?hdr)) (files + k) s1 = Some (k', s2)"
      "vfs_inv inv regions arena root kids2 s2" by blast
    have "?hdr ! 0 \<noteq> 0" using True by simp
    with True e(1) r(1) have "load_tar_loop ops junk root base off files s = Some (k', s2)"
      by (subst load_tar_loop.simps) (simp add: Let_def)
    with r(2) show ?thesis by blast
  qed
qed

lemma make_readonly_inv:
  assumes I: "vfs_inv inv regions arena root kids s" and f: "nodes s f = Some n" "\<not> v_is_dir n" "f \<noteq> root"
  shows "vfs_inv inv regions arena root kids
    (s\<lparr>nodes := (nodes s)(f \<mapsto> n\<lparr>v_readonly := True, v_data := a, v_size := z, v_cap := c\<rparr>)\<rparr>)"
proof -
  let ?m = "n\<lparr>v_readonly := True, v_data := a, v_size := z, v_cap := c\<rparr>"
  let ?s = "s\<lparr>nodes := (nodes s)(f \<mapsto> ?m)\<rparr>"
  have t: "tree_ok root kids ((nodes s)(f \<mapsto> ?m))"
    by (rule tree_same [OF vfs_invD(2) [OF I] f(1)]) simp_all
  have old: "nodes s x = Some k" "x \<noteq> f" if "nodes ?s x = Some k" "\<not> v_readonly k" for x k
    using that by (auto split: if_splits)
  show ?thesis unfolding vfs_inv_def
  proof (intro conjI allI impI; (elim conjE)?)
    show "inv (vheap ?s)" "root \<notin> arena (vheap ?s)" using vfs_invD(1,3) [OF I] by simp_all
    show "tree_ok root kids (nodes ?s)" using t by simp
  next
    fix x k assume "nodes ?s x = Some k" "x \<noteq> root"
    then show "\<exists>m. (x, m) \<in> regions (vheap ?s)"
      using vfs_invD(4) [OF I, of x] f(1) by (cases "x = f") auto
  next
    fix x k assume k: "nodes ?s x = Some k" "v_is_dir k"
    then have "x \<noteq> f" using f(2) by auto
    with k(1) have "nodes s x = Some k" by simp
    from vfs_invD(5) [OF I this k(2)] show "v_data k = 0" "\<not> v_readonly k" by blast+
  next
    fix x k assume k: "nodes ?s x = Some k" "\<not> v_is_dir k" "\<not> v_readonly k"
    have "file_ok regions s x" by (rule vfs_invD(6) [OF I old(1) [OF k(1,3)] k(2,3)])
    then show "file_ok regions ?s x"
      by (rule file_ok_frame [OF _ old(1) [OF k(1,3)] k(1)]) auto
  next
    fix x k assume k: "nodes ?s x = Some k" "\<not> v_readonly k" "v_data k \<noteq> 0"
    have "nodes s (v_data k) = None" by (rule vfs_invD(7) [OF I old(1) [OF k(1,2)] k(2,3)])
    then show "nodes ?s (v_data k) = None" using f(1) by auto
  next
    fix x y k m assume k: "nodes ?s x = Some k" "nodes ?s y = Some m" "x \<noteq> y" "\<not> v_readonly k" "\<not> v_readonly m"
      "v_data k \<noteq> 0"
    show "v_data k \<noteq> v_data m"
      by (rule vfs_invD(8) [OF I old(1) [OF k(1,4)] old(1) [OF k(2,5)] k(3-6)])
  qed
qed

lemma register_inv:
  assumes I: "vfs_inv inv regions arena root kids s"
  shows "\<exists>s' kids'. register_module_file ops root name m s = Some s' \<and> vfs_inv inv regions arena root kids' s'"
proof -
  obtain d s1 kids1 where d: "vfs_mkdirs ops root models_dir root s = Some (d, s1)" "vfs_inv inv regions arena root kids1 s1"
    "d \<noteq> 0 \<longrightarrow> (\<exists>m. nodes s1 d = Some m \<and> v_is_dir m)" using mkdirs_inv [OF I] by blast
  show ?thesis
  proof (cases "d = 0")
    case True
    with d show ?thesis by (auto simp: register_module_file_def)
  next
    case False
    then obtain dn where dn: "nodes s1 d = Some dn" "v_is_dir dn" using d(3) by blast
    obtain f s2 kids2 where f: "vfs_create ops d name False s1 = Some (f, s2)" "vfs_inv inv regions arena root kids2 s2"
      "f \<noteq> 0 \<longrightarrow> f \<noteq> root \<and> (\<exists>n. nodes s2 f = Some n \<and> \<not> v_is_dir n \<and> \<not> v_readonly n \<and> v_data n = 0)"
      using create_file_inv [OF d(2) dn, of name] by blast
    show ?thesis
    proof (cases "f = 0")
      case True
      with False d(1) f show ?thesis by (auto simp: register_module_file_def)
    next
      case f0: False
      then obtain n where n: "nodes s2 f = Some n" "\<not> v_is_dir n" "f \<noteq> root" using f(3) by blast
      from make_readonly_inv [OF f(2) n] False f0 d(1) f(1) n(1) show ?thesis
        by (auto simp: register_module_file_def)
    qed
  qed
qed

lemma initrd_inv:
  assumes s: "inv (vheap s)" "nodes s = Map.empty" "root \<noteq> 0" "root \<notin> arena (vheap s)"
    and tar: "\<And>tar. module_find mods initrd_name = Some tar \<Longrightarrow> tar_ok (mod_bytes tar) 0"
  shows "\<exists>s' kids. initrd_init ops junk root mods s = Some s' \<and> vfs_inv inv regions arena root kids s'"
proof -
  define s0 where "s0 = vfs_init root s"
  have I0: "vfs_inv inv regions arena root (\<lambda>_. []) s0"
    unfolding vfs_inv_def tree_ok_def s0_def vfs_init_def using s by (auto split: if_splits)
  obtain s1 kids1 where s1: "(case module_find mods initrd_name of
            Some tar \<Rightarrow> map_option snd (load_tar ops junk root (mod_bytes tar) s0) | None \<Rightarrow> Some s0) = Some s1"
    "vfs_inv inv regions arena root kids1 s1"
  proof (cases "module_find mods initrd_name")
    case None
    with that [of s0] I0 show thesis by simp
  next
    case (Some t)
    obtain k s' kids' where "load_tar_loop ops junk root (mod_bytes t) 0 0 s0 = Some (k, s')"
      "vfs_inv inv regions arena root kids' s'" using load_tar_inv [OF I0 tar [OF Some]] by blast
    with that [of s' kids'] Some show thesis by (simp add: load_tar_def)
  qed
  have "\<exists>s'. foldM (\<lambda>name s. case module_find mods name of
             Some m \<Rightarrow> register_module_file ops root name m s
           | None \<Rightarrow> Some s) model_names s1 = Some s' \<and> (\<exists>kids. vfs_inv inv regions arena root kids s')"
  proof (rule foldM_invariant [where P = "\<lambda>_ s. \<exists>kids. vfs_inv inv regions arena root kids s"])
    show "\<exists>kids. vfs_inv inv regions arena root kids s1" using s1(2) by blast
  next
    fix ys y zs t assume "\<exists>kids. vfs_inv inv regions arena root kids t"
    then obtain kids where I: "vfs_inv inv regions arena root kids t" by blast
    show "\<exists>t'. (case module_find mods y of Some m \<Rightarrow> register_module_file ops root y m t | None \<Rightarrow> Some t) = Some t' \<and>
        (\<exists>kids. vfs_inv inv regions arena root kids t')"
      using register_inv [OF I] I by (cases "module_find mods y") auto
  qed
  then show ?thesis using s1(1) by (auto simp: initrd_init_def s0_def [symmetric])
qed

end

text \<open>
  C40: start-up builds a sound file system. From a fresh heap, whatever modules there are, unpacking
  the archive and registering the models ends with a file system that satisfies the tree
  invariant, provided every entry of the archive ends inside it; entries with bad names, name clashes,
  missing directories or a full heap are skipped.
\<close>

theorem initrd_init_sound:
  assumes "heap_ok (vheap s)" "nodes s = Map.empty" "root \<noteq> 0" "root \<notin> heap_arena (vheap s)"
    and "\<And>tar. module_find mods initrd_name = Some tar \<Longrightarrow> tar_ok (mod_bytes tar) 0"
  shows "\<exists>s' kids. initrd_init kernel_heap junk root mods s = Some s' \<and> fs_inv root kids s'"
  by (rule kheap.initrd_inv [OF assms])

definition sample_archive :: "u8 list" where
  "sample_archive = 102 # replicate 511 0"

lemma sample_archive_ok: "tar_ok sample_archive 0"
proof -
  have len: "length sample_archive = 512" by (simp add: sample_archive_def)
  have "take 12 (drop 124 sample_archive) = replicate 12 0" by (simp add: sample_archive_def drop_Cons')
  also have "replicate 12 (0 :: u8) = 0 # replicate 11 0" using replicate_Suc [of 11 "0 :: u8"] by simp
  finally have z: "octal_to_int (take 12 (drop 124 sample_archive)) = 0" by (simp add: octal_to_int_def)
  have "unat (entry_size (take 512 (drop 0 sample_archive))) = 512"
    using z len by (simp add: entry_size_nat)
  moreover have "tar_ok sample_archive 512" by (subst tar_ok.simps) (simp add: len)
  ultimately show ?thesis using z len by (subst tar_ok.simps) simp
qed

theorem initrd_init_sound_witness:
  "\<exists>s' kids. initrd_init kernel_heap (\<lambda>_. 0) 32 (Some [\<lparr>mod_path = initrd_name, mod_address = 4096, mod_bytes = sample_archive\<rparr>])
     (sample_tree\<lparr>nodes := Map.empty\<rparr>) = Some s' \<and> fs_inv 32 kids s'"
proof (rule initrd_init_sound)
  show "heap_ok (vheap (sample_tree\<lparr>nodes := Map.empty\<rparr>))" "32 \<notin> heap_arena (vheap (sample_tree\<lparr>nodes := Map.empty\<rparr>))"
    using kheap.vfs_invD(1,3) [OF sample_fs] by simp_all
  fix tar assume "module_find (Some [\<lparr>mod_path = initrd_name, mod_address = 4096, mod_bytes = sample_archive\<rparr>]) initrd_name = Some tar"
  then have "mod_bytes tar = sample_archive" by (auto simp: module_find_def find_Some_iff split: if_splits)
  then show "tar_ok (mod_bytes tar) 0" using sample_archive_ok by simp
qed simp_all

end
