(* ===== verification/Keyboard.thy ===== *)
theory Keyboard
  imports Interfaces
begin

text \<open>
  The keyboard driver of \<open>keyboard.c\<close>: the interrupt handler turns the bytes of scan code set 2 into
  events, which wait in a ring of 128 slots until a thread polls them. The handler runs with
  interrupts off and is the only producer, so that each operation is one step. Bytes come as the
  argument of the handler, in place of the port read.
\<close>

section \<open>Keys and events\<close>

datatype key = Letter nat | ENTER | SPACE | ESCAPE | BACKSPACE | NONE

text \<open>\<open>Letter n\<close> stands for the n-th of the 26 enumerators \<open>A\<close> to \<open>Z\<close>.\<close>

abbreviation KA :: key where "KA \<equiv> Letter 0"
abbreviation KD :: key where "KD \<equiv> Letter 3"
abbreviation KS :: key where "KS \<equiv> Letter 18"
abbreviation KW :: key where "KW \<equiv> Letter 22"

datatype key_code = KEY_NONE | KEY_CHAR | KEY_UP | KEY_DOWN | KEY_LEFT | KEY_RIGHT | KEY_HOME | KEY_END
  | KEY_PGUP | KEY_PGDN | KEY_DELETE | KEY_ESCAPE | KEY_TAB | KEY_F1 | KEY_F2 | KEY_F3 | KEY_F4

record key_event =
  code :: key_code
  ch :: u8
  ctrl :: bool
  alt :: bool

record kbd =
  event_queue :: "key_event list"
  eq_read :: u32
  eq_write :: u32
  shift_down :: bool
  ctrl_down :: bool
  alt_down :: bool
  caps_on :: bool
  seen_release :: bool
  seen_extended :: bool

definition EVENT_QUEUE_SIZE :: u32 where "EVENT_QUEUE_SIZE = 128"

definition no_event :: key_event where
  "no_event = \<lparr>code = KEY_NONE, ch = 0, ctrl = False, alt = False\<rparr>"

definition kbd_start :: kbd where
  "kbd_start = \<lparr>event_queue = replicate 128 no_event, eq_read = 0, eq_write = 0, shift_down = False,
     ctrl_down = False, alt_down = False, caps_on = False, seen_release = False, seen_extended = False\<rparr>"

section \<open>Scan codes\<close>

definition sc2_table :: "(u8 \<times> u8) list" where
  "sc2_table =
   [(0x0D, 9), (0x0E, 96), (0x15, 113), (0x16, 49), (0x1A, 122), (0x1B, 115), (0x1C, 97),
    (0x1D, 119), (0x1E, 50), (0x21, 99), (0x22, 120), (0x23, 100), (0x24, 101), (0x25, 52),
    (0x26, 51), (0x29, 32), (0x2A, 118), (0x2B, 102), (0x2C, 116), (0x2D, 114), (0x2E, 53),
    (0x31, 110), (0x32, 98), (0x33, 104), (0x34, 103), (0x35, 121), (0x36, 54), (0x3A, 109),
    (0x3B, 106), (0x3C, 117), (0x3D, 55), (0x3E, 56), (0x41, 44), (0x42, 107), (0x43, 105),
    (0x44, 111), (0x45, 48), (0x46, 57), (0x49, 46), (0x4A, 47), (0x4B, 108), (0x4C, 59),
    (0x4D, 112), (0x4E, 45), (0x52, 39), (0x54, 91), (0x55, 61), (0x5A, 10), (0x5B, 93),
    (0x5D, 92), (0x66, 8)]"

definition sc2_shift_table :: "(u8 \<times> u8) list" where
  "sc2_shift_table =
   [(0x0D, 9), (0x0E, 126), (0x15, 81), (0x16, 33), (0x1A, 90), (0x1B, 83), (0x1C, 65), (0x1D, 87),
    (0x1E, 64), (0x21, 67), (0x22, 88), (0x23, 68), (0x24, 69), (0x25, 36), (0x26, 35), (0x29, 32),
    (0x2A, 86), (0x2B, 70), (0x2C, 84), (0x2D, 82), (0x2E, 37), (0x31, 78), (0x32, 66), (0x33, 72),
    (0x34, 71), (0x35, 89), (0x36, 94), (0x3A, 77), (0x3B, 74), (0x3C, 85), (0x3D, 38), (0x3E, 42),
    (0x41, 60), (0x42, 75), (0x43, 73), (0x44, 79), (0x45, 41), (0x46, 40), (0x49, 62), (0x4A, 63),
    (0x4B, 76), (0x4C, 58), (0x4D, 80), (0x4E, 95), (0x52, 34), (0x54, 123), (0x55, 43),
    (0x5A, 10), (0x5B, 125), (0x5D, 124), (0x66, 8)]"

definition sc2_ascii :: "u8 \<Rightarrow> u8" where
  "sc2_ascii sc = (case map_of sc2_table sc of Some c \<Rightarrow> c | None \<Rightarrow> 0)"

definition sc2_ascii_shift :: "u8 \<Rightarrow> u8" where
  "sc2_ascii_shift sc = (case map_of sc2_shift_table sc of Some c \<Rightarrow> c | None \<Rightarrow> 0)"

definition extended_keycode :: "u8 \<Rightarrow> key_code" where
  "extended_keycode sc =
     (if sc = 0x75 then KEY_UP
      else if sc = 0x72 then KEY_DOWN
      else if sc = 0x6B then KEY_LEFT
      else if sc = 0x74 then KEY_RIGHT
      else if sc = 0x6C then KEY_HOME
      else if sc = 0x69 then KEY_END
      else if sc = 0x7D then KEY_PGUP
      else if sc = 0x7A then KEY_PGDN
      else if sc = 0x71 then KEY_DELETE
      else KEY_NONE)"

section \<open>The event ring\<close>

definition push_event :: "key_event \<Rightarrow> kbd \<Rightarrow> kbd" where
  "push_event ev s =
     (let nxt = (eq_write s + 1) mod EVENT_QUEUE_SIZE
      in if nxt = eq_read s then s
         else s\<lparr>event_queue := (event_queue s)[unat (eq_write s) := ev], eq_write := nxt\<rparr>)"

definition kbd_poll_event :: "kbd \<Rightarrow> (key_event \<times> kbd) option" where
  "kbd_poll_event s =
     (if eq_read s = eq_write s then None
      else Some (event_queue s ! unat (eq_read s), s\<lparr>eq_read := (eq_read s + 1) mod EVENT_QUEUE_SIZE\<rparr>))"

definition kbd_flush :: "kbd \<Rightarrow> kbd" where
  "kbd_flush s = s\<lparr>eq_read := eq_write s\<rparr>"

section \<open>The interrupt handler\<close>

definition is_modifier :: "bool \<Rightarrow> u8 \<Rightarrow> bool" where
  "is_modifier ext sc \<longleftrightarrow> \<not> ext \<and> (sc = 0x12 \<or> sc = 0x59) \<or> sc = 0x14 \<or> sc = 0x11 \<or> \<not> ext \<and> sc = 0x58"

definition track_modifier :: "bool \<Rightarrow> bool \<Rightarrow> u8 \<Rightarrow> kbd \<Rightarrow> kbd" where
  "track_modifier ext release sc s =
     (if \<not> ext \<and> (sc = 0x12 \<or> sc = 0x59) then s\<lparr>shift_down := \<not> release\<rparr>
      else if sc = 0x14 then s\<lparr>ctrl_down := \<not> release\<rparr>
      else if sc = 0x11 then s\<lparr>alt_down := \<not> release\<rparr>
      else if \<not> release then s\<lparr>caps_on := \<not> caps_on s\<rparr>
      else s)"

definition function_key :: "u8 \<Rightarrow> key_code option" where
  "function_key sc =
     (if sc = 0x76 then Some KEY_ESCAPE
      else if sc = 0x05 then Some KEY_F1
      else if sc = 0x06 then Some KEY_F2
      else if sc = 0x04 then Some KEY_F3
      else if sc = 0x0C then Some KEY_F4
      else None)"

definition apply_caps :: "kbd \<Rightarrow> u8 \<Rightarrow> u8" where
  "apply_caps s c =
     (if caps_on s \<and> \<not> shift_down s \<and> c \<ge> 97 \<and> c \<le> 122 then c - 97 + 65
      else if caps_on s \<and> shift_down s \<and> c \<ge> 65 \<and> c \<le> 90 then c - 65 + 97
      else c)"

definition key_pressed :: "bool \<Rightarrow> u8 \<Rightarrow> kbd \<Rightarrow> kbd" where
  "key_pressed ext sc s =
     (let ev = \<lparr>code = KEY_NONE, ch = 0, ctrl = ctrl_down s, alt = alt_down s\<rparr>
      in if ext then
           (let ev = ev\<lparr>code := extended_keycode sc\<rparr>
            in if code ev = KEY_NONE then s else push_event ev s)
         else case function_key sc of
             Some k \<Rightarrow> push_event (ev\<lparr>code := k\<rparr>) s
           | None \<Rightarrow>
               if sc \<ge> 0x80 then s
               else
                 let c = (if shift_down s then sc2_ascii_shift sc else sc2_ascii sc)
                 in if c = 0 then s
                    else push_event (ev\<lparr>code := KEY_CHAR, ch := apply_caps s c\<rparr>) s)"

definition keyboard_handler :: "u8 \<Rightarrow> kbd \<Rightarrow> kbd" where
  "keyboard_handler sc s =
     (if sc = 0xE0 then s\<lparr>seen_extended := True\<rparr>
      else if sc = 0xF0 then s\<lparr>seen_release := True\<rparr>
      else
        let ext = seen_extended s; release = seen_release s;
            s = s\<lparr>seen_extended := False, seen_release := False\<rparr>
        in if is_modifier ext sc then track_modifier ext release sc s
           else if release then s
           else key_pressed ext sc s)"

section \<open>Waiting for input\<close>

text \<open>
  A waiting thread yields or halts between two looks at the ring; \<open>irqs\<close> are the bytes that arrive
  in each of these pauses. \<open>None\<close> is a wait that has not ended when the list does.
\<close>

fun kbd_wait_event :: "u8 list list \<Rightarrow> kbd \<Rightarrow> (key_event \<times> u8 list list \<times> kbd) option" where
  "kbd_wait_event [] s = map_option (\<lambda>(ev, s). (ev, [], s)) (kbd_poll_event s)"
| "kbd_wait_event (bs # irqs) s =
     (case kbd_poll_event s of
        Some (ev, s) \<Rightarrow> Some (ev, bs # irqs, s)
      | None \<Rightarrow> kbd_wait_event irqs (fold keyboard_handler bs s))"

text \<open>\<open>fuel\<close> bounds the number of events that are not characters and are skipped.\<close>

primrec kbd_getchar :: "nat \<Rightarrow> u8 list list \<Rightarrow> kbd \<Rightarrow> (u8 \<times> u8 list list \<times> kbd) option" where
  "kbd_getchar 0 irqs s = None"
| "kbd_getchar (Suc fuel) irqs s =
     (case kbd_wait_event irqs s of
        None \<Rightarrow> None
      | Some (ev, irqs, s) \<Rightarrow>
          if code ev = KEY_CHAR then Some (ch ev, irqs, s) else kbd_getchar fuel irqs s)"

section \<open>Keys for the games\<close>

definition event_key :: "key_event \<Rightarrow> key" where
  "event_key ev =
     (if code ev = KEY_ESCAPE then ESCAPE
      else if code ev \<noteq> KEY_CHAR then NONE
      else
        let c = (if ch ev \<ge> 65 \<and> ch ev \<le> 90 then ch ev - 65 + 97 else ch ev)
        in if c \<ge> 97 \<and> c \<le> 122 then Letter (unat (c - 97))
           else if c = 10 then ENTER
           else if c = 32 then SPACE
           else if c = 8 then BACKSPACE
           else NONE)"

definition keyboard_get_key :: "kbd \<Rightarrow> key \<times> kbd" where
  "keyboard_get_key s =
     (case kbd_poll_event s of None \<Rightarrow> (NONE, s) | Some (ev, s) \<Rightarrow> (event_key ev, s))"

definition keyboard_key_to_char :: "key \<Rightarrow> u8" where
  "keyboard_key_to_char k =
     (case k of Letter n \<Rightarrow> 97 + of_nat n | SPACE \<Rightarrow> 32 | BACKSPACE \<Rightarrow> 8 | _ \<Rightarrow> 0)"

section \<open>The ring as a bounded queue\<close>

definition pending_count :: "kbd \<Rightarrow> nat" where
  "pending_count s = (unat (eq_write s) + 128 - unat (eq_read s)) mod 128"

definition pending :: "kbd \<Rightarrow> key_event list" where
  "pending s = map (\<lambda>i. event_queue s ! ((unat (eq_read s) + i) mod 128)) [0..<pending_count s]"

definition kbd_inv :: "kbd \<Rightarrow> bool" where
  [inv_simps]: "kbd_inv s \<longleftrightarrow> length (event_queue s) = 128 \<and> unat (eq_read s) < 128 \<and> unat (eq_write s) < 128"

lemma next_slot: "unat (i :: u32) < 128 \<Longrightarrow> unat ((i + 1) mod EVENT_QUEUE_SIZE) = (unat i + 1) mod 128"
  by (simp add: EVENT_QUEUE_SIZE_def unat_mod unat_word_ariths)

lemma count_after_push:
  "r < (128 :: nat) \<Longrightarrow> w < 128 \<Longrightarrow> (w + 1) mod 128 \<noteq> r \<Longrightarrow>
   ((w + 1) mod 128 + 128 - r) mod 128 = Suc ((w + 128 - r) mod 128)"
  by (auto simp: mod_if)

lemma count_full:
  "r < (128 :: nat) \<Longrightarrow> w < 128 \<Longrightarrow> (w + 1) mod 128 = r \<longleftrightarrow> (w + 128 - r) mod 128 = 127"
  by (auto simp: mod_if)

lemma count_after_poll:
  "r < (128 :: nat) \<Longrightarrow> w < 128 \<Longrightarrow> r \<noteq> w \<Longrightarrow>
   Suc ((w + 128 - (r + 1) mod 128) mod 128) = (w + 128 - r) mod 128"
  by (auto simp: mod_if)

lemma push_event_lemma:
  assumes "kbd_inv s"
  shows "kbd_inv (push_event ev s) \<and>
    pending (push_event ev s) = (if length (pending s) < 127 then pending s @ [ev] else pending s)"
proof -
  let ?r = "unat (eq_read s)" and ?w = "unat (eq_write s)"
  have b: "length (event_queue s) = 128" "?r < 128" "?w < 128" using assms by (simp_all add: kbd_inv_def)
  let ?n = "(?w + 128 - ?r) mod 128"
  have eq: "(eq_write s + 1) mod EVENT_QUEUE_SIZE = eq_read s \<longleftrightarrow> (?w + 1) mod 128 = ?r"
    using next_slot [OF b(3)] by (metis word_unat_eq_iff)
  have len: "length (pending s) = ?n" by (simp add: pending_def pending_count_def)
  have n: "?n < 128" by simp
  show ?thesis
  proof (cases "(?w + 1) mod 128 = ?r")
    case True
    then have "\<not> ?n < 127" using count_full [OF b(2,3)] by simp
    then show ?thesis using True eq assms len by (simp add: push_event_def)
  next
    case False
    let ?s = "s\<lparr>event_queue := (event_queue s)[?w := ev], eq_write := (eq_write s + 1) mod EVENT_QUEUE_SIZE\<rparr>"
    have p: "push_event ev s = ?s" using False eq by (simp add: push_event_def Let_def)
    have lt: "?n < 127" using False count_full [OF b(2,3)] n by linarith
    have cnt: "pending_count ?s = Suc ?n"
      using count_after_push [OF b(2,3) False] by (simp add: pending_count_def next_slot [OF b(3)])
    have slot: "(?r + i) mod 128 = ?w \<longleftrightarrow> i = ?n" if "i \<le> ?n" for i
      using that b(2,3) lt by (auto simp: mod_if split: if_splits)
    have "pending ?s = map (\<lambda>i. (event_queue s)[?w := ev] ! ((?r + i) mod 128)) [0..<?n] @ [ev]"
      using slot [of ?n] b(1,3) cnt by (simp add: pending_def)
    moreover have "map (\<lambda>i. (event_queue s)[?w := ev] ! ((?r + i) mod 128)) [0..<?n] =
        map (\<lambda>i. event_queue s ! ((?r + i) mod 128)) [0..<?n]"
    proof (intro map_cong refl)
      fix i assume "i \<in> set [0..<?n]"
      then have "(?r + i) mod 128 \<noteq> ?w" using slot [of i] by simp
      then show "(event_queue s)[?w := ev] ! ((?r + i) mod 128) = event_queue s ! ((?r + i) mod 128)"
        by (metis nth_list_update_neq)
    qed
    ultimately have "pending ?s = pending s @ [ev]" by (simp add: pending_def pending_count_def)
    then show ?thesis using p lt len b by (simp add: kbd_inv_def next_slot)
  qed
qed

lemma poll_event_lemma:
  assumes "kbd_inv s"
  shows "kbd_poll_event s = None \<longleftrightarrow> pending s = []"
    "kbd_poll_event s = Some (ev, s') \<Longrightarrow> kbd_inv s' \<and> pending s = ev # pending s'"
proof -
  let ?r = "unat (eq_read s)" and ?w = "unat (eq_write s)"
  have b: "?r < 128" "?w < 128" using assms by (simp_all add: kbd_inv_def)
  have e: "eq_read s = eq_write s \<longleftrightarrow> ?r = ?w" by (simp add: word_unat_eq_iff)
  have "pending s = [] \<longleftrightarrow> ?r = ?w"
    using b by (auto simp: pending_def pending_count_def mod_if)
  then show "kbd_poll_event s = None \<longleftrightarrow> pending s = []" using e by (simp add: kbd_poll_event_def)
  assume p: "kbd_poll_event s = Some (ev, s')"
  then have ne: "?r \<noteq> ?w" and s': "s' = s\<lparr>eq_read := (eq_read s + 1) mod EVENT_QUEUE_SIZE\<rparr>"
    and ev: "ev = event_queue s ! ?r" using e by (auto simp: kbd_poll_event_def split: if_splits)
  let ?n = "pending_count s'"
  have cnt: "pending_count s = Suc ?n"
    using count_after_poll [OF b ne] by (simp add: s' pending_count_def next_slot [OF b(1)])
  have r': "unat (eq_read s') = (?r + 1) mod 128" by (simp add: s' next_slot [OF b(1)])
  have "pending s = ev # map (\<lambda>i. event_queue s ! ((?r + Suc i) mod 128)) [0..<?n]"
    using b(1) by (simp add: pending_def cnt ev map_upt_Suc del: upt_Suc)
  also have "map (\<lambda>i. event_queue s ! ((?r + Suc i) mod 128)) [0..<?n] = pending s'"
    unfolding pending_def r' by (simp add: s' mod_add_left_eq)
  finally show "kbd_inv s' \<and> pending s = ev # pending s'"
    using assms r' by (simp add: kbd_inv_def s')
qed

interpretation events: bounded_queue push_event kbd_poll_event pending kbd_inv 127
proof
  fix s s' :: kbd and ev
  assume i: "kbd_inv s"
  show "kbd_inv (push_event ev s)" using push_event_lemma [OF i] by blast
  show "pending (push_event ev s) = (if length (pending s) < 127 then pending s @ [ev] else pending s)"
    using push_event_lemma [OF i] by blast
  show "kbd_poll_event s = None \<longleftrightarrow> pending s = []" by (rule poll_event_lemma(1) [OF i])
  show "kbd_poll_event s = Some (ev, s') \<Longrightarrow> kbd_inv s' \<and> pending s = ev # pending s'"
    by (rule poll_event_lemma(2) [OF i])
  have "(unat (eq_write s) + 128 - unat (eq_read s)) mod 128 < 128" by simp
  then show "length (pending s) \<le> 127" by (simp add: pending_def pending_count_def)
qed


section \<open>Runs\<close>

lemma pending_cong:
  "event_queue s' = event_queue s \<Longrightarrow> eq_read s' = eq_read s \<Longrightarrow> eq_write s' = eq_write s \<Longrightarrow>
   pending s' = pending s \<and> kbd_inv s' = kbd_inv s"
  by (simp add: pending_def pending_count_def kbd_inv_def)

text \<open>Interrupts and polls in any order; the result lists the events that were delivered.\<close>

datatype kbd_op = Irq u8 | Poll

fun kbd_run :: "kbd_op list \<Rightarrow> kbd \<Rightarrow> key_event list \<times> kbd" where
  "kbd_run [] s = ([], s)"
| "kbd_run (Irq b # os) s = kbd_run os (keyboard_handler b s)"
| "kbd_run (Poll # os) s =
     (case kbd_poll_event s of
        None \<Rightarrow> kbd_run os s
      | Some (ev, s) \<Rightarrow> (case kbd_run os s of (evs, s) \<Rightarrow> (ev # evs, s)))"

section \<open>What the keyboard types\<close>

text \<open>
  The specification reads the bytes without the ring: a prefix byte is remembered for the next byte,
  modifier keys are held or toggled, and any other key that goes down is one event. A letter is
  upper case exactly when one of shift and caps lock is on. The queue is a list of at most 127 events.
\<close>

record decoder =
  d_shift :: bool
  d_ctrl :: bool
  d_alt :: bool
  d_caps :: bool
  d_release :: bool
  d_extended :: bool

definition extended_keys :: "(u8 \<times> key_code) list" where
  "extended_keys = [(0x75, KEY_UP), (0x72, KEY_DOWN), (0x6B, KEY_LEFT), (0x74, KEY_RIGHT), (0x6C, KEY_HOME),
     (0x69, KEY_END), (0x7D, KEY_PGUP), (0x7A, KEY_PGDN), (0x71, KEY_DELETE)]"

definition plain_keys :: "(u8 \<times> key_code) list" where
  "plain_keys = [(0x76, KEY_ESCAPE), (0x05, KEY_F1), (0x06, KEY_F2), (0x04, KEY_F3), (0x0C, KEY_F4)]"

definition to_upper :: "u8 \<Rightarrow> u8" where
  "to_upper c = (if 97 \<le> c \<and> c \<le> 122 then c - 32 else c)"

definition to_lower :: "u8 \<Rightarrow> u8" where
  "to_lower c = (if 65 \<le> c \<and> c \<le> 90 then c + 32 else c)"

definition shown_char :: "bool \<Rightarrow> bool \<Rightarrow> u8 \<Rightarrow> u8" where
  "shown_char shift caps sc =
     (let c = (if shift then sc2_ascii_shift sc else sc2_ascii sc)
      in if shift \<noteq> caps then to_upper c else to_lower c)"

definition typed_key :: "decoder \<Rightarrow> u8 \<Rightarrow> (key_code \<times> u8) option" where
  "typed_key d sc =
     (if d_extended d then map_option (\<lambda>k. (k, 0)) (map_of extended_keys sc)
      else case map_of plain_keys sc of
          Some k \<Rightarrow> Some (k, 0)
        | None \<Rightarrow> (let c = shown_char (d_shift d) (d_caps d) sc in if c = 0 then None else Some (KEY_CHAR, c)))"

definition hold_modifier :: "u8 \<Rightarrow> decoder \<Rightarrow> decoder option" where
  "hold_modifier sc d =
     (if sc \<in> {0x12, 0x59} \<and> \<not> d_extended d then Some (d\<lparr>d_shift := \<not> d_release d\<rparr>)
      else if sc = 0x14 then Some (d\<lparr>d_ctrl := \<not> d_release d\<rparr>)
      else if sc = 0x11 then Some (d\<lparr>d_alt := \<not> d_release d\<rparr>)
      else if sc = 0x58 \<and> \<not> d_extended d then Some (d\<lparr>d_caps := (d_caps d \<noteq> (\<not> d_release d))\<rparr>)
      else None)"

definition decode_byte :: "u8 \<Rightarrow> decoder \<Rightarrow> key_event option \<times> decoder" where
  "decode_byte sc d =
     (if sc = 0xE0 then (None, d\<lparr>d_extended := True\<rparr>)
      else if sc = 0xF0 then (None, d\<lparr>d_release := True\<rparr>)
      else
        (case hold_modifier sc d of
           Some d' \<Rightarrow> (None, d'\<lparr>d_extended := False, d_release := False\<rparr>)
         | None \<Rightarrow>
             ((if d_release d then None
               else map_option (\<lambda>(k, c). \<lparr>code = k, ch = c, ctrl = d_ctrl d, alt = d_alt d\<rparr>) (typed_key d sc)),
              d\<lparr>d_extended := False, d_release := False\<rparr>)))"

fun typing_spec :: "kbd_op list \<Rightarrow> decoder \<Rightarrow> key_event list \<Rightarrow> key_event list \<times> key_event list \<times> decoder" where
  "typing_spec [] d q = ([], q, d)"
| "typing_spec (Irq b # os) d q =
     (case decode_byte b d of
        (None, d') \<Rightarrow> typing_spec os d' q
      | (Some ev, d') \<Rightarrow> typing_spec os d' (if length q < 127 then q @ [ev] else q))"
| "typing_spec (Poll # os) d [] = typing_spec os d []"
| "typing_spec (Poll # os) d (ev # q) = (case typing_spec os d q of (evs, r) \<Rightarrow> (ev # evs, r))"

definition decoder_of :: "kbd \<Rightarrow> decoder" where
  "decoder_of s = \<lparr>d_shift = shift_down s, d_ctrl = ctrl_down s, d_alt = alt_down s, d_caps = caps_on s,
     d_release = seen_release s, d_extended = seen_extended s\<rparr>"

lemma map_of_all: "list_all (\<lambda>y. P (fst y) (snd y)) t \<Longrightarrow> map_of t k = Some v \<Longrightarrow> P k v"
  by (drule map_of_SomeD) (force simp: list_all_iff)

lemma table_letters:
  "sc2_ascii sc < 65 \<or> 90 < sc2_ascii sc" "sc2_ascii_shift sc < 97 \<or> 122 < sc2_ascii_shift sc"
proof -
  have "list_all (\<lambda>y. snd y < 65 \<or> 90 < snd y) sc2_table" by (simp add: sc2_table_def)
  from map_of_all [of "\<lambda>a c. c < 65 \<or> 90 < c", OF this]
  show "sc2_ascii sc < 65 \<or> 90 < sc2_ascii sc" by (simp add: sc2_ascii_def split: option.splits)
  have "list_all (\<lambda>y. snd y < 97 \<or> 122 < snd y) sc2_shift_table" by (simp add: sc2_shift_table_def)
  from map_of_all [of "\<lambda>a c. c < 97 \<or> 122 < c", OF this]
  show "sc2_ascii_shift sc < 97 \<or> 122 < sc2_ascii_shift sc" by (simp add: sc2_ascii_shift_def split: option.splits)
qed

lemma table_plain:
  assumes "0x80 \<le> sc"
  shows "sc2_ascii sc = 0" "sc2_ascii_shift sc = 0"
proof -
  have "list_all (\<lambda>y. fst y < 0x80) sc2_table" by (simp add: sc2_table_def)
  then have "map_of sc2_table sc = Some c \<Longrightarrow> sc < 0x80" for c using map_of_all [of "\<lambda>(a :: u8) (c :: u8). a < 0x80"] by blast
  then show "sc2_ascii sc = 0" using assms by (cases "map_of sc2_table sc") (auto simp: sc2_ascii_def)
  have "list_all (\<lambda>y. fst y < 0x80) sc2_shift_table" by (simp add: sc2_shift_table_def)
  then have "map_of sc2_shift_table sc = Some c \<Longrightarrow> sc < 0x80" for c using map_of_all [of "\<lambda>(a :: u8) (c :: u8). a < 0x80"] by blast
  then show "sc2_ascii_shift sc = 0" using assms by (cases "map_of sc2_shift_table sc") (auto simp: sc2_ascii_shift_def)
qed

lemma case_nonzero: "to_upper c = 0 \<longleftrightarrow> c = 0" "to_lower c = 0 \<longleftrightarrow> c = 0"
proof -
  have "97 \<le> c \<Longrightarrow> c \<noteq> 32" "65 \<le> c \<Longrightarrow> c \<le> 90 \<Longrightarrow> c \<noteq> - 32"
    by (auto simp: word_le_nat_alt)
  then show "to_upper c = 0 \<longleftrightarrow> c = 0" "to_lower c = 0 \<longleftrightarrow> c = 0"
    by (auto simp: to_upper_def to_lower_def eq_neg_iff_add_eq_0)
qed

lemma caps_shown:
  "apply_caps s (if shift_down s then sc2_ascii_shift sc else sc2_ascii sc) = shown_char (shift_down s) (caps_on s) sc"
proof -
  note t = table_letters [of sc, folded not_le]
  have u: "to_upper (sc2_ascii_shift sc) = sc2_ascii_shift sc" and l: "to_lower (sc2_ascii sc) = sc2_ascii sc"
    using t by (auto simp: to_upper_def to_lower_def)
  show ?thesis
    by (cases "shift_down s"; cases "caps_on s")
      (simp_all only: apply_caps_def shown_char_def Let_def u l if_True if_False simp_thms, simp_all add: to_upper_def to_lower_def)
qed

lemma key_pressed_spec:
  "key_pressed (seen_extended s) sc (s\<lparr>seen_extended := False, seen_release := False\<rparr>) =
   (case typed_key (decoder_of s) sc of
      None \<Rightarrow> s\<lparr>seen_extended := False, seen_release := False\<rparr>
    | Some (k, c) \<Rightarrow> push_event \<lparr>code = k, ch = c, ctrl = ctrl_down s, alt = alt_down s\<rparr>
        (s\<lparr>seen_extended := False, seen_release := False\<rparr>))"
proof (cases "seen_extended s")
  case True
  have e: "extended_keycode sc = (case map_of extended_keys sc of None \<Rightarrow> KEY_NONE | Some k \<Rightarrow> k)"
    by (simp add: extended_keycode_def extended_keys_def)
  have "list_all (\<lambda>y. snd y \<noteq> KEY_NONE) extended_keys" by (simp add: extended_keys_def)
  then have "map_of extended_keys sc \<noteq> Some KEY_NONE" using map_of_all [of "\<lambda>(a :: u8) c. c \<noteq> KEY_NONE" extended_keys sc KEY_NONE] by auto
  moreover have "typed_key (decoder_of s) sc = map_option (\<lambda>k. (k, 0)) (map_of extended_keys sc)"
    using True by (simp add: typed_key_def decoder_of_def)
  ultimately show ?thesis
    using True by (cases "map_of extended_keys sc") (simp_all add: key_pressed_def e)
next
  case False
  let ?s = "s\<lparr>seen_extended := False, seen_release := False\<rparr>"
  let ?c = "if shift_down s then sc2_ascii_shift sc else sc2_ascii sc"
  have f: "function_key sc = map_of plain_keys sc" by (simp add: function_key_def plain_keys_def)
  have c: "apply_caps ?s ?c = shown_char (shift_down s) (caps_on s) sc" using caps_shown [of ?s sc] by simp
  have z: "shown_char (shift_down s) (caps_on s) sc = 0 \<longleftrightarrow> ?c = 0" by (simp add: shown_char_def case_nonzero Let_def)
  show ?thesis
  proof (cases "map_of plain_keys sc")
    case None
    have t: "typed_key (decoder_of s) sc = (if ?c = 0 then None else Some (KEY_CHAR, apply_caps ?s ?c))"
      using False None z unfolding c by (simp add: typed_key_def decoder_of_def Let_def)
    have p: "key_pressed False sc ?s = (if sc \<ge> 0x80 then ?s else if ?c = 0 then ?s
        else push_event \<lparr>code = KEY_CHAR, ch = apply_caps ?s ?c, ctrl = ctrl_down s, alt = alt_down s\<rparr> ?s)"
      using None by (simp add: key_pressed_def f Let_def)
    show ?thesis
      using False table_plain [of sc] unfolding t by (cases "sc \<ge> 0x80") (simp_all add: p)
  next
    case (Some k)
    then show ?thesis using False by (simp add: key_pressed_def typed_key_def decoder_of_def f Let_def)
  qed
qed

lemma push_keeps_decoder: "decoder_of (push_event ev s) = decoder_of s"
  by (simp add: push_event_def decoder_of_def Let_def)

lemma handler_decodes:
  assumes "kbd_inv s" "decode_byte b (decoder_of s) = (ev, d)"
  shows "kbd_inv (keyboard_handler b s) \<and> decoder_of (keyboard_handler b s) = d \<and>
    pending (keyboard_handler b s) =
      (case ev of None \<Rightarrow> pending s | Some e \<Rightarrow> if length (pending s) < 127 then pending s @ [e] else pending s)"
proof -
  let ?s = "s\<lparr>seen_extended := False, seen_release := False\<rparr>"
  have frame: "event_queue t = event_queue s \<Longrightarrow> eq_read t = eq_read s \<Longrightarrow> eq_write t = eq_write s \<Longrightarrow>
      kbd_inv t \<and> pending t = pending s" for t
    using pending_cong [of t s] assms(1) by simp
  consider (prefix) "b = 0xE0 \<or> b = 0xF0"
    | (modifier) "b \<noteq> 0xE0" "b \<noteq> 0xF0" "is_modifier (seen_extended s) b"
    | (key) "b \<noteq> 0xE0" "b \<noteq> 0xF0" "\<not> is_modifier (seen_extended s) b" by blast
  then show ?thesis
  proof cases
    case prefix
    then show ?thesis
    proof
      assume "b = 0xE0"
      then show ?thesis using assms(2) frame [of "s\<lparr>seen_extended := True\<rparr>"]
        by (auto simp: keyboard_handler_def decode_byte_def decoder_of_def)
    next
      assume "b = 0xF0"
      then show ?thesis using assms(2) frame [of "s\<lparr>seen_release := True\<rparr>"]
        by (auto simp: keyboard_handler_def decode_byte_def decoder_of_def)
    qed
  next
    case modifier
    then have k: "keyboard_handler b s = track_modifier (seen_extended s) (seen_release s) b ?s"
      by (simp add: keyboard_handler_def Let_def)
    have "hold_modifier b (decoder_of s) \<noteq> None"
      using modifier(3) by (auto simp: hold_modifier_def is_modifier_def decoder_of_def)
    then have e: "ev = None" and "decoder_of (keyboard_handler b s) = d"
      using assms(2) modifier(1,2) unfolding k
      by (auto simp: decode_byte_def hold_modifier_def track_modifier_def decoder_of_def split: if_splits)
    moreover have "kbd_inv (keyboard_handler b s) \<and> pending (keyboard_handler b s) = pending s"
      unfolding k by (rule frame) (simp_all add: track_modifier_def)
    ultimately show ?thesis by simp
  next
    case key
    have h: "hold_modifier b (decoder_of s) = None"
      using key(3) by (auto simp: hold_modifier_def is_modifier_def decoder_of_def)
    have i: "kbd_inv ?s" "pending ?s = pending s" using frame [of ?s] by simp_all
    have k: "keyboard_handler b s = (if seen_release s then ?s else key_pressed (seen_extended s) b ?s)"
      using key by (simp add: keyboard_handler_def Let_def)
    have d: "d = decoder_of ?s" using assms(2) key(1,2) h by (auto simp: decode_byte_def decoder_of_def)
    have e: "ev = (if seen_release s then None else
        map_option (\<lambda>(k, c). \<lparr>code = k, ch = c, ctrl = ctrl_down s, alt = alt_down s\<rparr>) (typed_key (decoder_of s) b))"
      using assms(2) key(1,2) h by (auto simp: decode_byte_def decoder_of_def)
    show ?thesis
      using push_event_lemma [OF i(1)] i
      unfolding k d e key_pressed_spec by (auto simp: push_keeps_decoder split: option.splits)
  qed
qed

lemma handler_prefix:
  assumes "kbd_inv s"
  shows "\<exists>evs. pending (keyboard_handler b s) = pending s @ evs \<and> kbd_inv (keyboard_handler b s)"
proof -
  obtain ev d where "decode_byte b (decoder_of s) = (ev, d)" by (cases "decode_byte b (decoder_of s)")
  from handler_decodes [OF assms this] show ?thesis by (cases ev) auto
qed

lemma kbd_run_spec:
  "kbd_inv s \<Longrightarrow> kbd_run os s = (evs, s') \<Longrightarrow>
   kbd_inv s' \<and> typing_spec os (decoder_of s) (pending s) = (evs, pending s', decoder_of s')"
proof (induction os s arbitrary: evs s' rule: kbd_run.induct)
  case (2 b os s)
  obtain ev d where d: "decode_byte b (decoder_of s) = (ev, d)" by (cases "decode_byte b (decoder_of s)")
  from handler_decodes [OF 2(2) d] 2(1) [of evs s'] 2(3) d show ?case by (cases ev) auto
next
  case (3 os s)
  show ?case
  proof (cases "kbd_poll_event s")
    case None
    then have "pending s = []" using poll_event_lemma(1) [OF 3(3)] by blast
    then show ?thesis using 3 None by simp
  next
    case (Some a)
    obtain ev s1 where a: "a = (ev, s1)" by (cases a)
    obtain evs1 where e: "kbd_run os s1 = (evs1, s')" "evs = ev # evs1"
      using 3(4) Some a by (auto split: prod.splits)
    have p: "kbd_inv s1" "pending s = ev # pending s1" using poll_event_lemma(2) [OF 3(3)] Some a by auto
    have "decoder_of s1 = decoder_of s" using Some a by (auto simp: kbd_poll_event_def decoder_of_def split: if_splits)
    then show ?thesis using 3(2) [OF Some a [symmetric] p(1) e(1)] p(2) e(2) by simp
  qed
qed simp

section \<open>Typing\<close>

definition keystroke :: "u8 \<Rightarrow> u8 list" where
  "keystroke sc = [sc, 0xF0, sc]"

definition idle :: "kbd \<Rightarrow> bool" where
  "idle s \<longleftrightarrow> \<not> shift_down s \<and> \<not> ctrl_down s \<and> \<not> alt_down s \<and> \<not> caps_on s \<and> \<not> seen_release s \<and> \<not> seen_extended s"

lemma sc2_ascii_codes:
  "sc2_ascii sc \<noteq> 0 \<Longrightarrow> sc \<in> fst ` set sc2_table"
  by (auto simp: sc2_ascii_def dest: map_of_SomeD split: option.splits intro: rev_image_eqI)

lemma printable_code:
  assumes "sc2_ascii sc \<noteq> 0"
  shows "sc < 0x80 \<and> sc \<noteq> 0xE0 \<and> sc \<noteq> 0xF0 \<and> \<not> is_modifier False sc \<and> function_key sc = None"
proof -
  have "list_all (\<lambda>y. fst y < 0x80 \<and> fst y \<noteq> 0xE0 \<and> fst y \<noteq> 0xF0 \<and> \<not> is_modifier False (fst y) \<and>
      function_key (fst y) = None) sc2_table"
    unfolding sc2_table_def by (simp add: is_modifier_def function_key_def)
  moreover obtain y where "y \<in> set sc2_table" "sc = fst y" using sc2_ascii_codes [OF assms] by auto
  ultimately show ?thesis by (simp add: list_all_iff)
qed

lemma keystroke_pushes:
  assumes "idle s" "sc2_ascii sc \<noteq> 0"
  shows "fold keyboard_handler (keystroke sc) s =
    push_event \<lparr>code = KEY_CHAR, ch = sc2_ascii sc, ctrl = False, alt = False\<rparr> s"
proof -
  note p = printable_code [OF assms(2)]
  let ?ev = "\<lparr>code = KEY_CHAR, ch = sc2_ascii sc, ctrl = False, alt = False\<rparr>"
  have s0: "s\<lparr>seen_extended := False, seen_release := False\<rparr> = s" using assms(1) by (cases s) (simp add: idle_def)
  have np: "\<not> 0x80 \<le> sc" using p by (metis not_le)
  have 1: "keyboard_handler sc s = push_event ?ev s"
    using p np assms by (simp add: keyboard_handler_def s0 idle_def key_pressed_def Let_def apply_caps_def)
  have fields: "seen_release (push_event ?ev s) = False" "seen_extended (push_event ?ev s) = False"
    using assms(1) by (simp_all add: push_event_def idle_def Let_def)
  have 2: "keyboard_handler 0xF0 t = t\<lparr>seen_release := True\<rparr>" for t by (simp add: keyboard_handler_def)
  have 3: "keyboard_handler sc (t\<lparr>seen_release := True\<rparr>) = t" if "seen_release t = False" "seen_extended t = False" for t
    using p that by (cases t) (simp add: keyboard_handler_def)
  show ?thesis using 1 2 3 [OF fields] by (simp add: keystroke_def)
qed

lemma idle_push: "idle (push_event ev s) = idle s"
  by (simp add: idle_def push_event_def Let_def)

lemma typed_events:
  "idle s \<Longrightarrow> \<forall>sc\<in>set scs. sc2_ascii sc \<noteq> 0 \<Longrightarrow> fold keyboard_handler (concat (map keystroke scs)) s =
    fold push_event (map (\<lambda>sc. \<lparr>code = KEY_CHAR, ch = sc2_ascii sc, ctrl = False, alt = False\<rparr>) scs) s"
  by (induction scs arbitrary: s) (simp_all add: keystroke_pushes idle_push)

section \<open>Properties\<close>

text \<open>
  C27: for any interleaving of keyboard interrupts and polls, the events delivered, the events still
  in the ring and the modifiers held are those of the specification: each byte is decoded with the
  prefixes and modifiers of the bytes before it, the event it makes joins the end of the queue unless
  127 events wait, and a poll takes the oldest one.
\<close>

theorem kbd_events_in_order:
  assumes "kbd_inv s" "kbd_run os s = (evs, s')"
  shows "typing_spec os (decoder_of s) (pending s) = (evs, pending s', decoder_of s') \<and>
    kbd_inv s' \<and> length (pending s') \<le> 127"
  using kbd_run_spec [OF assms] events.contents_cap by blast

theorem kbd_events_in_order_witness:
  "\<exists>s'. kbd_run [Irq 0x1C, Irq 0x12, Irq 0x1C, Poll, Irq 0xE0, Irq 0x75, Irq 0xF0, Irq 0x1C, Poll] kbd_start =
      ([\<lparr>code = KEY_CHAR, ch = 97, ctrl = False, alt = False\<rparr>, \<lparr>code = KEY_CHAR, ch = 65, ctrl = False, alt = False\<rparr>], s') \<and>
    pending s' = [\<lparr>code = KEY_UP, ch = 0, ctrl = False, alt = False\<rparr>] \<and> d_shift (decoder_of s')"
proof -
  let ?os = "[Irq 0x1C, Irq 0x12, Irq 0x1C, Poll, Irq 0xE0, Irq 0x75, Irq 0xF0, Irq 0x1C, Poll]"
  obtain evs s' where r: "kbd_run ?os kbd_start = (evs, s')" by (cases "kbd_run ?os kbd_start")
  have "kbd_inv kbd_start" "pending kbd_start = []" by (simp_all add: kbd_inv_def kbd_start_def pending_def pending_count_def)
  moreover have t: "sc2_ascii 0x1C = 97" "sc2_ascii_shift 0x1C = 65"
    by (simp_all add: sc2_ascii_def sc2_table_def sc2_ascii_shift_def sc2_shift_table_def)
  ultimately have "typing_spec ?os (decoder_of kbd_start) [] = (evs, pending s', decoder_of s')"
    using kbd_events_in_order [OF _ r] by simp
  then have "evs = [\<lparr>code = KEY_CHAR, ch = 97, ctrl = False, alt = False\<rparr>, \<lparr>code = KEY_CHAR, ch = 65, ctrl = False, alt = False\<rparr>] \<and>
      pending s' = [\<lparr>code = KEY_UP, ch = 0, ctrl = False, alt = False\<rparr>] \<and> d_shift (decoder_of s')"
    by (simp add: decoder_of_def kbd_start_def decode_byte_def hold_modifier_def typed_key_def plain_keys_def
        extended_keys_def shown_char_def to_upper_def to_lower_def t)
  then show ?thesis using r by blast
qed

text \<open>
  Pressing and releasing printable keys one after the other, with no modifier held, queues exactly
  the characters of these keys in order, as long as the ring has room for them.
\<close>

theorem kbd_typed_text:
  assumes "kbd_inv s" "idle s" "\<forall>sc\<in>set scs. sc2_ascii sc \<noteq> 0" "length (pending s) + length scs \<le> 127"
  shows "pending (fold keyboard_handler (concat (map keystroke scs)) s) =
    pending s @ map (\<lambda>sc. \<lparr>code = KEY_CHAR, ch = sc2_ascii sc, ctrl = False, alt = False\<rparr>) scs"
  unfolding typed_events [OF assms(2,3)] using events.push_all_contents [OF assms(1)] assms(4) by simp

theorem kbd_typed_text_witness:
  "map ch (pending (fold keyboard_handler (concat (map keystroke [0x33, 0x43])) kbd_start)) = [104, 105]"
proof -
  have "kbd_inv kbd_start" "idle kbd_start" "pending kbd_start = []"
    by (simp_all add: kbd_inv_def kbd_start_def idle_def pending_def pending_count_def)
  moreover have "sc2_ascii 0x33 = 104" "sc2_ascii 0x43 = 105" by (simp_all add: sc2_ascii_def sc2_table_def)
  ultimately show ?thesis using kbd_typed_text [of kbd_start "[0x33, 0x43]"] by simp
qed

end
