(* ===== verification/Framebuffer.thy ===== *)
theory Framebuffer
  imports Prelude
begin

text \<open>
  The frame buffer of \<open>framebuffer.c\<close>: the front buffer is video memory, read as 32-bit pixels, the
  back buffer an allocated block of as many pixels as the screen has. \<open>None\<close> is an access outside a
  buffer or outside the font file, or one that is not aligned to a pixel. The boot loader's answer
  (address, size and pitch) and the font file are given.
\<close>

section \<open>State\<close>

record framebuffer =
  fb_width :: u64
  fb_height :: u64
  fb_pitch :: u64
  fb_bpp :: u16
  vram :: "u32 list"
  backbuffer :: "u32 list option"
  use_double :: bool
  back_width :: u64
  back_height :: u64

record font =
  f_headersize :: u32
  f_numglyph :: u32
  f_bytesperglyph :: u32
  f_height :: u32
  f_width :: u32
  f_bytes :: "u8 list"

text \<open>\<open>alloc\<close> is what \<open>malloc\<close> answers for a number of bytes: NULL or a block of that many pixels.\<close>

definition framebuffer_set_double_buffer :: "(u64 \<Rightarrow> u32 list option) \<Rightarrow> bool \<Rightarrow> framebuffer \<Rightarrow> framebuffer" where
  "framebuffer_set_double_buffer alloc enabled s =
     (let s = s\<lparr>use_double := enabled\<rparr>
      in if enabled \<and> backbuffer s = None then
           s\<lparr>back_width := fb_width s, back_height := fb_height s,
             backbuffer := alloc (fb_width s * fb_height s * 4)\<rparr>
         else if \<not> enabled \<and> backbuffer s \<noteq> None then s\<lparr>backbuffer := None\<rparr>
         else s)"

section \<open>Pixels and rectangles\<close>

definition pitch_pixels :: "framebuffer \<Rightarrow> u64" where
  "pitch_pixels s = fb_pitch s div ucast (fb_bpp s div 8)"

definition put_front :: "u64 \<Rightarrow> u32 \<Rightarrow> framebuffer \<Rightarrow> framebuffer option" where
  "put_front i c s =
     (if unat i < length (vram s) then Some (s\<lparr>vram := (vram s)[unat i := c]\<rparr>) else None)"

definition put_back :: "u64 \<Rightarrow> u32 \<Rightarrow> framebuffer \<Rightarrow> framebuffer option" where
  "put_back i c s = backbuffer s \<bind> (\<lambda>b.
     if unat i < length b then Some (s\<lparr>backbuffer := Some (b[unat i := c])\<rparr>) else None)"

definition framebuffer_draw_pixel :: "u64 \<Rightarrow> u64 \<Rightarrow> u32 \<Rightarrow> framebuffer \<Rightarrow> framebuffer option" where
  "framebuffer_draw_pixel x y c s =
     (if x \<ge> fb_width s \<or> y \<ge> fb_height s then Some s
      else if use_double s \<and> backbuffer s \<noteq> None \<and> x < back_width s \<and> y < back_height s
      then put_back (y * back_width s + x) c s
      else put_front (y * pitch_pixels s + x) c s)"

definition framebuffer_clear :: "u32 \<Rightarrow> framebuffer \<Rightarrow> framebuffer option" where
  "framebuffer_clear c s =
     foldM (\<lambda>y. foldM (\<lambda>x. framebuffer_draw_pixel (of_nat x) (of_nat y) c) [0..<unat (fb_width s)])
       [0..<unat (fb_height s)] s"

text \<open>The loops compare with \<open>ul\_x + width\<close>, which may wrap: then they do not run at all.\<close>

definition framebuffer_draw_rect :: "u64 \<Rightarrow> u64 \<Rightarrow> u64 \<Rightarrow> u64 \<Rightarrow> u32 \<Rightarrow> framebuffer \<Rightarrow> framebuffer option" where
  "framebuffer_draw_rect ul_x ul_y width height c =
     foldM (\<lambda>x. foldM (\<lambda>y. framebuffer_draw_pixel (of_nat x) (of_nat y) c) [unat ul_y..<unat (ul_y + height)])
       [unat ul_x..<unat (ul_x + width)]"

definition framebuffer_swap :: "framebuffer \<Rightarrow> framebuffer option" where
  "framebuffer_swap s =
     (case backbuffer s of
        None \<Rightarrow> Some s
      | Some b \<Rightarrow>
          foldM (\<lambda>y. foldM (\<lambda>x s.
              if y * unat (back_width s) + x < length b
              then put_front (of_nat y * pitch_pixels s + of_nat x) (b ! (y * unat (back_width s) + x)) s
              else None)
            [0..<min (unat (fb_width s)) (unat (back_width s))])
            [0..<min (unat (fb_height s)) (unat (back_height s))] s)"

section \<open>Scrolling\<close>

text \<open>
  \<open>memmove\<close> within the front buffer, in pixels: the pitch is a number of whole pixels, and the source
  and the target lie inside the buffer.
\<close>

definition move_front :: "nat \<Rightarrow> nat \<Rightarrow> framebuffer \<Rightarrow> framebuffer option" where
  "move_front src n s =
     slice_at (vram s) src n \<bind> (\<lambda>ps. blit (vram s) 0 ps \<bind> (\<lambda>fr. Some (s\<lparr>vram := fr\<rparr>)))"

definition framebuffer_scroll_up :: "u64 \<Rightarrow> u32 \<Rightarrow> framebuffer \<Rightarrow> framebuffer option" where
  "framebuffer_scroll_up pixels c s =
     (if pixels = 0 \<or> pixels > fb_height s then Some s
      else if fb_pitch s mod 4 \<noteq> 0 then None
      else
        let line = unat (fb_pitch s div 4); h = unat (fb_height s); w = unat (fb_width s)
        in move_front (unat pixels * line) ((h - unat pixels) * line) s \<bind>
           foldM (\<lambda>y. foldM (\<lambda>x. put_front (of_nat (y * line + x)) c) [0..<w]) [h - unat pixels..<h])"

section \<open>Characters\<close>

definition read_u32 :: "u8 list \<Rightarrow> nat \<Rightarrow> u32 option" where
  "read_u32 bs i = (if i + 4 \<le> length bs
     then Some (ucast (bs ! i) OR push_bit 8 (ucast (bs ! (i + 1))) OR push_bit 16 (ucast (bs ! (i + 2)))
       OR push_bit 24 (ucast (bs ! (i + 3)))) else None)"

text \<open>A 32-bit store at a byte offset into the front buffer; offsets are C ints.\<close>

definition put_at :: "u32 \<Rightarrow> u32 \<Rightarrow> framebuffer \<Rightarrow> framebuffer option" where
  "put_at off c s =
     (if 0 \<le> sint off \<and> unat off mod 4 = 0 then put_front (of_nat (unat off div 4)) c s else None)"

primrec glyph_row :: "nat \<Rightarrow> u32 \<Rightarrow> u32 \<Rightarrow> u32 \<Rightarrow> u32 \<Rightarrow> u32 \<Rightarrow> framebuffer \<Rightarrow> framebuffer option" where
  "glyph_row 0 bits msk line fg bg s = Some s"
| "glyph_row (Suc n) bits msk line fg bg s =
     put_at line (if bits AND msk \<noteq> 0 then fg else bg) s \<bind> glyph_row n bits (drop_bit 1 msk) (line + 4) fg bg"

primrec glyph_rows :: "nat \<Rightarrow> font \<Rightarrow> nat \<Rightarrow> u32 \<Rightarrow> u32 \<Rightarrow> u32 \<Rightarrow> framebuffer \<Rightarrow> framebuffer option" where
  "glyph_rows 0 f glyph offs fg bg s = Some s"
| "glyph_rows (Suc n) f glyph offs fg bg s =
     read_u32 (f_bytes f) glyph \<bind> (\<lambda>bits.
     glyph_row (unat (f_width f)) bits (push_bit (unat (f_width f) - 1) 1) offs fg bg s \<bind>
     glyph_rows n f (glyph + unat ((f_width f + 7) div 8)) (offs + ucast (fb_pitch s)) fg bg)"

text \<open>The unicode table is never set, so the character itself selects the glyph.\<close>

definition framebuffer_put_char :: "font \<Rightarrow> u16 \<Rightarrow> u32 \<Rightarrow> u32 \<Rightarrow> u32 \<Rightarrow> u32 \<Rightarrow> framebuffer \<Rightarrow> framebuffer option" where
  "framebuffer_put_char f c cx cy fg bg s =
     (let scanline = ucast (fb_pitch s) :: u32;
          gi = (if c > 0 \<and> ucast c < f_numglyph f then ucast c else 0) :: u32;
          glyph = unat (f_headersize f) + unat (gi * f_bytesperglyph f);
          offs = ucast ((ucast (cy * f_height f * scanline) :: u64) + ucast (cx * f_width f) * 4) :: u32
      in glyph_rows (unat (f_height f)) f glyph offs fg bg s)"

primrec framebuffer_put_string :: "font \<Rightarrow> u8 list \<Rightarrow> u32 \<Rightarrow> u32 \<Rightarrow> u32 \<Rightarrow> u32 \<Rightarrow> framebuffer \<Rightarrow> framebuffer option" where
  "framebuffer_put_string f [] cx cy fg bg s = Some s"
| "framebuffer_put_string f (c # cs) cx cy fg bg s =
     framebuffer_put_char f (scast c) cx cy fg bg s \<bind> framebuffer_put_string f cs (cx + 1) cy fg bg"

section \<open>What is on the screen\<close>

definition line_pixels :: "framebuffer \<Rightarrow> nat" where
  "line_pixels s = unat (fb_pitch s) div 4"

text \<open>The buffers have the sizes the boot loader reports, and their bytes can be addressed by C ints.\<close>

definition fb_ok :: "framebuffer \<Rightarrow> bool" where
  [inv_simps]: "fb_ok s \<longleftrightarrow> fb_bpp s = 32 \<and> fb_pitch s mod 4 = 0 \<and> unat (fb_width s) \<le> line_pixels s \<and>
     unat (fb_pitch s) * unat (fb_height s) < 2 ^ 31 \<and>
     length (vram s) = line_pixels s * unat (fb_height s) \<and>
     (\<forall>b. backbuffer s = Some b \<longrightarrow> length b = unat (back_width s) * unat (back_height s) \<and>
        unat (back_width s) * unat (back_height s) < 2 ^ 31)"

definition drawn_back :: "framebuffer \<Rightarrow> nat \<Rightarrow> nat \<Rightarrow> bool" where
  "drawn_back s x y \<longleftrightarrow> use_double s \<and> backbuffer s \<noteq> None \<and> x < unat (back_width s) \<and> y < unat (back_height s)"

text \<open>The pixel that drawing at a position changes: the back buffer's when double buffering covers it.\<close>

definition pixel :: "framebuffer \<Rightarrow> nat \<Rightarrow> nat \<Rightarrow> u32" where
  "pixel s x y = (if drawn_back s x y then the (backbuffer s) ! (y * unat (back_width s) + x)
     else vram s ! (y * line_pixels s + x))"

definition same_screen :: "framebuffer \<Rightarrow> framebuffer \<Rightarrow> bool" where
  "same_screen s t \<longleftrightarrow> fb_width t = fb_width s \<and> fb_height t = fb_height s \<and> fb_pitch t = fb_pitch s \<and>
     fb_bpp t = fb_bpp s \<and> use_double t = use_double s \<and> back_width t = back_width s \<and>
     back_height t = back_height s \<and> length (vram t) = length (vram s) \<and>
     map_option length (backbuffer t) = map_option length (backbuffer s)"

lemma same_screen_refl [simp]: "same_screen s s"
  by (simp add: same_screen_def)

lemma same_screen_trans: "same_screen r s \<Longrightarrow> same_screen s t \<Longrightarrow> same_screen r t"
  by (simp add: same_screen_def)

lemma same_screen_ok: "same_screen s t \<Longrightarrow> fb_ok s \<Longrightarrow> fb_ok t"
  by (cases "backbuffer s"; cases "backbuffer t") (auto simp: same_screen_def fb_ok_def line_pixels_def)

lemma pitch_pixels_nat: "fb_ok s \<Longrightarrow> unat (pitch_pixels s) = line_pixels s"
  by (simp add: fb_ok_def pitch_pixels_def line_pixels_def unat_div)

lemma grid_less: "(x :: nat) < w \<Longrightarrow> w \<le> l \<Longrightarrow> y < h \<Longrightarrow> y * l + x < l * h"
proof -
  assume a: "x < w" "w \<le> l" "y < h"
  then have "y * l + x < Suc y * l" by simp
  also have "\<dots> \<le> h * l" using a(3) by (intro mult_le_mono) simp_all
  finally show ?thesis by (simp add: mult.commute)
qed

lemma grid_inj: "(x :: nat) < l \<Longrightarrow> u < l \<Longrightarrow> y * l + x = v * l + u \<longleftrightarrow> y = v \<and> x = u"
proof
  assume a: "x < l" "u < l" and e: "y * l + x = v * l + u"
  then have "(y * l + x) div l = (v * l + u) div l" "(y * l + x) mod l = (v * l + u) mod l" by simp_all
  then show "y = v \<and> x = u" using a by simp
qed simp

lemma line_height: assumes "fb_ok s" shows "line_pixels s * unat (fb_height s) < 2 ^ 31"
proof -
  have "line_pixels s * unat (fb_height s) \<le> unat (fb_pitch s) * unat (fb_height s)"
    by (intro mult_le_mono1) (simp add: line_pixels_def)
  also have "\<dots> < 2 ^ 31" using assms by (simp add: fb_ok_def)
  finally show ?thesis .
qed

lemma small_index: "y * l + x < (2 :: nat) ^ 31 \<Longrightarrow> unat (v :: u64) = y \<Longrightarrow> unat p = l \<Longrightarrow> unat u = x \<Longrightarrow>
    unat (v * p + u) = y * l + x"
  by (auto simp: unat_word_ariths)

lemma draw_pixel_spec:
  assumes ok: "fb_ok s"
  shows "\<exists>t. framebuffer_draw_pixel x y c s = Some t \<and> same_screen s t \<and>
    (\<forall>u v. u < unat (fb_width s) \<and> v < unat (fb_height s) \<longrightarrow>
      pixel t u v = (if u = unat x \<and> v = unat y then c else pixel s u v))"
proof (cases "x \<ge> fb_width s \<or> y \<ge> fb_height s")
  case True
  then show ?thesis by (auto simp: framebuffer_draw_pixel_def word_le_unat)
next
  case False
  then have xy: "unat x < unat (fb_width s)" "unat y < unat (fb_height s)" by (simp_all add: word_less_unat not_le)
  have lw: "unat (fb_width s) \<le> line_pixels s" using ok by (simp add: fb_ok_def)
  show ?thesis
  proof (cases "drawn_back s (unat x) (unat y)")
    case True
    then obtain b where b: "use_double s" "backbuffer s = Some b" "x < back_width s" "y < back_height s"
      by (auto simp: drawn_back_def word_less_unat)
    let ?bw = "unat (back_width s)"
    have len: "length b = ?bw * unat (back_height s)" "length b < 2 ^ 31" using ok b(2) by (auto simp: fb_ok_def)
    have i: "unat y * ?bw + unat x < length b"
      using grid_less [of "unat x" ?bw ?bw "unat y"] b(3,4) len by (simp add: word_less_unat)
    have ui: "unat (y * back_width s + x) = unat y * ?bw + unat x"
      by (rule small_index) (use i len in simp_all)
    define t where "t = s\<lparr>backbuffer := Some (b[unat y * ?bw + unat x := c])\<rparr>"
    have "framebuffer_draw_pixel x y c s = Some t"
      using False b i ui by (simp add: framebuffer_draw_pixel_def put_back_def t_def)
    moreover have "same_screen s t" using b(2) by (simp add: same_screen_def t_def)
    moreover have "pixel t u v = (if u = unat x \<and> v = unat y then c else pixel s u v)" for u v
    proof (cases "drawn_back s u v")
      case True
      then have "drawn_back t u v" "u < ?bw" by (simp_all add: drawn_back_def t_def)
      then show ?thesis using True i b grid_inj [of "unat x" ?bw u "unat y" v]
        by (auto simp: pixel_def t_def nth_list_update word_less_unat)
    next
      case nb: False
      then have "\<not> drawn_back t u v" using b(2) by (simp add: drawn_back_def t_def)
      then show ?thesis using nb \<open>drawn_back s (unat x) (unat y)\<close> by (auto simp: pixel_def t_def line_pixels_def)
    qed
    ultimately show ?thesis by blast
  next
    case nb: False
    have i: "unat y * line_pixels s + unat x < length (vram s)"
      using grid_less [OF xy(1) lw xy(2)] ok by (simp add: fb_ok_def)
    have "length (vram s) < 2 ^ 31" using line_height [OF ok] ok by (simp add: fb_ok_def)
    then have ui: "unat (y * pitch_pixels s + x) = unat y * line_pixels s + unat x"
      by (intro small_index) (use i pitch_pixels_nat [OF ok] in simp_all)
    define t where "t = s\<lparr>vram := (vram s)[unat y * line_pixels s + unat x := c]\<rparr>"
    have "\<not> (use_double s \<and> backbuffer s \<noteq> None \<and> x < back_width s \<and> y < back_height s)"
      using nb by (simp add: drawn_back_def word_less_unat)
    then have "framebuffer_draw_pixel x y c s = Some t"
      using False i ui by (auto simp: framebuffer_draw_pixel_def put_front_def t_def)
    moreover have "same_screen s t" by (simp add: same_screen_def t_def)
    moreover have "pixel t u v = (if u = unat x \<and> v = unat y then c else pixel s u v)" if "u < unat (fb_width s)" for u v
    proof (cases "drawn_back s u v")
      case True
      then have "drawn_back t u v" by (simp add: drawn_back_def t_def)
      then show ?thesis using True nb by (auto simp: pixel_def t_def)
    next
      case False
      then have "\<not> drawn_back t u v" by (simp add: drawn_back_def t_def)
      then show ?thesis using False i xy(1) that lw grid_inj [of "unat x" "line_pixels s" u "unat y" v]
        by (auto simp: pixel_def t_def nth_list_update line_pixels_def)
    qed
    ultimately show ?thesis by blast
  qed
qed

text \<open>Drawing a list of pixels, column by column.\<close>

lemma draw_column_spec:
  assumes ok: "fb_ok s" and ys: "\<forall>y\<in>set ys. y < 2 ^ 64" and x: "x < 2 ^ 64"
  shows "\<exists>t. foldM (\<lambda>y. framebuffer_draw_pixel (of_nat x) (of_nat y) c) ys s = Some t \<and> same_screen s t \<and>
    (\<forall>u v. u < unat (fb_width s) \<and> v < unat (fb_height s) \<longrightarrow>
      pixel t u v = (if u = x \<and> v \<in> set ys then c else pixel s u v))"
proof (rule foldM_invariant [where P = "\<lambda>ys t. same_screen s t \<and> (\<forall>u v. u < unat (fb_width s) \<and> v < unat (fb_height s) \<longrightarrow>
      pixel t u v = (if u = x \<and> v \<in> set ys then c else pixel s u v))"])
  fix as y bs t
  assume e: "ys = as @ y # bs" and t: "same_screen s t \<and> (\<forall>u v. u < unat (fb_width s) \<and> v < unat (fb_height s) \<longrightarrow>
      pixel t u v = (if u = x \<and> v \<in> set as then c else pixel s u v))"
  have y: "y < 2 ^ 64" using ys e by simp
  have n: "unat (of_nat x :: u64) = x" "unat (of_nat y :: u64) = y" using x y by (simp_all add: unat_of_nat_small)
  from draw_pixel_spec [OF same_screen_ok [OF t [THEN conjunct1] ok], of "of_nat x" "of_nat y" c] obtain t' where
    t': "framebuffer_draw_pixel (of_nat x) (of_nat y) c t = Some t'" "same_screen t t'"
    "\<forall>u v. u < unat (fb_width t) \<and> v < unat (fb_height t) \<longrightarrow>
      pixel t' u v = (if u = x \<and> v = y then c else pixel t u v)" unfolding n by blast
  have "fb_width t = fb_width s" "fb_height t = fb_height s" using t by (simp_all add: same_screen_def)
  then show "\<exists>t'. framebuffer_draw_pixel (of_nat x) (of_nat y) c t = Some t' \<and> same_screen s t' \<and>
      (\<forall>u v. u < unat (fb_width s) \<and> v < unat (fb_height s) \<longrightarrow>
        pixel t' u v = (if u = x \<and> v \<in> set (as @ [y]) then c else pixel s u v))"
    using t t' same_screen_trans [of s t t'] by auto
qed simp

lemma draw_columns_spec:
  assumes ok: "fb_ok s" and ys: "\<forall>y\<in>set ys. y < 2 ^ 64" and xs: "\<forall>x\<in>set xs. x < 2 ^ 64"
  shows "\<exists>t. foldM (\<lambda>x. foldM (\<lambda>y. framebuffer_draw_pixel (of_nat x) (of_nat y) c) ys) xs s = Some t \<and> same_screen s t \<and>
    (\<forall>u v. u < unat (fb_width s) \<and> v < unat (fb_height s) \<longrightarrow>
      pixel t u v = (if u \<in> set xs \<and> v \<in> set ys then c else pixel s u v))"
proof (rule foldM_invariant [where P = "\<lambda>xs t. same_screen s t \<and> (\<forall>u v. u < unat (fb_width s) \<and> v < unat (fb_height s) \<longrightarrow>
      pixel t u v = (if u \<in> set xs \<and> v \<in> set ys then c else pixel s u v))"])
  fix as x bs t
  assume e: "xs = as @ x # bs" and t: "same_screen s t \<and> (\<forall>u v. u < unat (fb_width s) \<and> v < unat (fb_height s) \<longrightarrow>
      pixel t u v = (if u \<in> set as \<and> v \<in> set ys then c else pixel s u v))"
  have x: "x < 2 ^ 64" using xs e by simp
  from draw_column_spec [OF same_screen_ok [OF t [THEN conjunct1] ok] ys x, of c] obtain t' where
    t': "foldM (\<lambda>y. framebuffer_draw_pixel (of_nat x) (of_nat y) c) ys t = Some t'" "same_screen t t'"
    "\<forall>u v. u < unat (fb_width t) \<and> v < unat (fb_height t) \<longrightarrow>
      pixel t' u v = (if u = x \<and> v \<in> set ys then c else pixel t u v)" by blast
  have "fb_width t = fb_width s" "fb_height t = fb_height s" using t by (simp_all add: same_screen_def)
  then show "\<exists>t'. foldM (\<lambda>y. framebuffer_draw_pixel (of_nat x) (of_nat y) c) ys t = Some t' \<and> same_screen s t' \<and>
      (\<forall>u v. u < unat (fb_width s) \<and> v < unat (fb_height s) \<longrightarrow>
        pixel t' u v = (if u \<in> set (as @ [x]) \<and> v \<in> set ys then c else pixel s u v))"
    using t t' same_screen_trans [of s t t'] by auto
qed simp

lemma draw_rect_lemma:
  assumes ok: "fb_ok s"
  shows "\<exists>t. framebuffer_draw_rect ul_x ul_y width height c s = Some t \<and> same_screen s t \<and>
    (\<forall>u v. u < unat (fb_width s) \<and> v < unat (fb_height s) \<longrightarrow>
      pixel t u v = (if unat ul_x \<le> u \<and> u < unat (ul_x + width) \<and> unat ul_y \<le> v \<and> v < unat (ul_y + height)
        then c else pixel s u v))"
proof -
  have b: "k < unat (w :: u64) \<Longrightarrow> k < 2 ^ 64" for k w using unat_less_2p [of w] by simp
  have "\<forall>y\<in>set [unat ul_y..<unat (ul_y + height)]. y < 2 ^ 64"
    "\<forall>x\<in>set [unat ul_x..<unat (ul_x + width)]. x < 2 ^ 64" using b by auto
  from draw_columns_spec [OF ok this, of c] show ?thesis unfolding framebuffer_draw_rect_def by simp
qed

lemma clear_lemma:
  assumes ok: "fb_ok s"
  shows "\<exists>t. framebuffer_clear c s = Some t \<and> same_screen s t"
proof -
  have step: "\<exists>t'. foldM (\<lambda>x. framebuffer_draw_pixel (of_nat x) (of_nat y) c) xs t = Some t' \<and> same_screen s t'"
    if "same_screen s t" for y xs t
    by (rule foldM_invariant [where P = "\<lambda>_ t. same_screen s t", OF that])
      (use draw_pixel_spec same_screen_ok [OF _ ok] same_screen_trans in blast)
  show ?thesis unfolding framebuffer_clear_def
    by (rule foldM_invariant [where P = "\<lambda>_ t. same_screen s t"]) (use step in auto)
qed

section \<open>Scrolling\<close>

lemma put_front_spec:
  "unat i < length (vram s) \<Longrightarrow> put_front i c s = Some (s\<lparr>vram := (vram s)[unat i := c]\<rparr>)"
  by (simp add: put_front_def)

lemma fill_line:
  assumes "\<forall>x\<in>set xs. base + x < length (vram s)" "length (vram s) < 2 ^ 64"
  shows "foldM (\<lambda>x. put_front (of_nat (base + x)) c) xs s =
    Some (s\<lparr>vram := map (\<lambda>i. if i \<in> (\<lambda>x. base + x) ` set xs then c else vram s ! i) [0..<length (vram s)]\<rparr>)"
  using assms
proof (induction xs arbitrary: s)
  case Nil
  then show ?case by (simp add: map_nth)
next
  case (Cons x xs)
  have u: "unat (of_nat (base + x) :: u64) = base + x" using Cons.prems by (intro unat_of_nat_small) auto
  have "put_front (of_nat (base + x)) c s = Some (s\<lparr>vram := (vram s)[base + x := c]\<rparr>)"
    using put_front_spec [of "of_nat (base + x)" s c] u Cons.prems(1) by simp
  then show ?case using Cons.prems Cons.IH [of "s\<lparr>vram := (vram s)[base + x := c]\<rparr>"]
    by (auto intro!: map_cong simp: nth_list_update)
qed

text \<open>Filling the lines of a set; the positions are those of the pixels in the first columns.\<close>

lemma fill_lines:
  assumes "\<forall>y\<in>set ys. y < h" "w \<le> l" "length (vram s) = l * h" "length (vram s) < 2 ^ 64"
  shows "\<exists>fr. foldM (\<lambda>y. foldM (\<lambda>x. put_front (of_nat (y * l + x)) c) [0..<w]) ys s = Some (s\<lparr>vram := fr\<rparr>) \<and>
    length fr = length (vram s) \<and>
    (\<forall>u v. u < w \<and> v < h \<longrightarrow> fr ! (v * l + u) = (if v \<in> set ys then c else vram s ! (v * l + u)))"
  using assms
proof (induction ys arbitrary: s)
  case Nil
  then show ?case by (intro exI [of _ "vram s"]) simp
next
  case (Cons y ys)
  have y: "y < h" using Cons.prems(1) by simp
  have "\<forall>x\<in>set [0..<w]. y * l + x < length (vram s)" using Cons.prems(2,3) y grid_less by auto
  note f = fill_line [OF this Cons.prems(4), of c]
  let ?fr = "map (\<lambda>i. if i \<in> (\<lambda>x. y * l + x) ` set [0..<w] then c else vram s ! i) [0..<length (vram s)]"
  have at: "?fr ! (v * l + u) = (if v = y then c else vram s ! (v * l + u))" if "u < w" "v < h" for u v
  proof -
    have "v * l + u < length (vram s)" using grid_less [of u w l v h] that Cons.prems(2,3) by simp
    moreover have "(v * l + u \<in> (\<lambda>x. y * l + x) ` set [0..<w]) = (v = y)"
    proof
      assume "v * l + u \<in> (\<lambda>x. y * l + x) ` set [0..<w]"
      then obtain x where "x < w" "v * l + u = y * l + x" unfolding image_iff by (elim bexE) simp
      then show "v = y" using grid_inj [of u l x v y] that Cons.prems(2) by simp
    qed (use that in auto)
    ultimately show ?thesis by simp
  qed
  from Cons.IH [of "s\<lparr>vram := ?fr\<rparr>"] Cons.prems obtain fr where fr:
    "foldM (\<lambda>y. foldM (\<lambda>x. put_front (of_nat (y * l + x)) c) [0..<w]) ys (s\<lparr>vram := ?fr\<rparr>) = Some (s\<lparr>vram := fr\<rparr>)"
    "length fr = length (vram s)"
    "\<forall>u v. u < w \<and> v < h \<longrightarrow> fr ! (v * l + u) = (if v \<in> set ys then c else ?fr ! (v * l + u))" by auto
  show ?case using f fr at by (intro exI [of _ fr]) simp
qed

lemma scroll_up_lemma:
  assumes ok: "fb_ok s" and p: "0 < unat pixels" "unat pixels \<le> unat (fb_height s)"
  shows "\<exists>fr. framebuffer_scroll_up pixels c s = Some (s\<lparr>vram := fr\<rparr>) \<and> length fr = length (vram s) \<and>
    (\<forall>u v. u < unat (fb_width s) \<and> v < unat (fb_height s) \<longrightarrow> fr ! (v * line_pixels s + u) =
      (if v + unat pixels < unat (fb_height s) then vram s ! ((v + unat pixels) * line_pixels s + u) else c))"
proof -
  let ?h = "unat (fb_height s)" and ?w = "unat (fb_width s)" and ?k = "unat pixels" and ?l = "line_pixels s"
  have l: "unat (fb_pitch s div 4) = ?l" by (simp add: line_pixels_def unat_div)
  have len: "length (vram s) = ?l * ?h" "length (vram s) < 2 ^ 64" "?w \<le> ?l" "fb_pitch s mod 4 = 0"
    using ok line_height [OF ok] by (simp_all add: fb_ok_def)
  let ?src = "?k * ?l" and ?n = "(?h - ?k) * ?l"
  define ps where "ps = take ?n (drop ?src (vram s))"
  have sn: "?src + ?n = ?l * ?h" using p(2) by (simp add: algebra_simps flip: add_mult_distrib)
  have sl: "slice_at (vram s) ?src ?n = Some ps" using sn len(1) by (simp add: slice_at_def ps_def)
  have lp: "length ps = ?n" using sn len(1) by (simp add: ps_def)
  have n: "?n \<le> ?l * ?h" using sn by linarith
  define v1 where "v1 = ps @ drop ?n (vram s)"
  have bl: "blit (vram s) 0 ps = Some v1" using lp n len(1) by (simp add: blit_def v1_def)
  have l1: "length v1 = ?l * ?h" using lp n len(1) by (simp add: v1_def)
  from fill_lines [of "[?h - ?k..<?h]" ?h ?w ?l "s\<lparr>vram := v1\<rparr>" c] len l1 obtain fr where fr:
    "foldM (\<lambda>y. foldM (\<lambda>x. put_front (of_nat (y * ?l + x)) c) [0..<?w]) [?h - ?k..<?h] (s\<lparr>vram := v1\<rparr>) = Some (s\<lparr>vram := fr\<rparr>)"
    "length fr = ?l * ?h"
    "\<forall>u v. u < ?w \<and> v < ?h \<longrightarrow> fr ! (v * ?l + u) = (if v \<in> set [?h - ?k..<?h] then c else v1 ! (v * ?l + u))"
    by auto
  have run: "framebuffer_scroll_up pixels c s = Some (s\<lparr>vram := fr\<rparr>)"
  proof -
    have g: "\<not> (pixels = 0 \<or> pixels > fb_height s)" "\<not> fb_pitch s mod 4 \<noteq> 0"
      using p len(4) by (auto simp: word_less_unat)
    show ?thesis unfolding framebuffer_scroll_up_def Let_def l move_front_def if_not_P [OF g(1)] if_not_P [OF g(2)]
      using sl bl fr(1) by simp
  qed
  have "v1 ! (v * ?l + u) = vram s ! ((v + ?k) * ?l + u)" if "u < ?w" "v + ?k < ?h" for u v
  proof -
    have i: "v * ?l + u < ?n" using grid_less [of u ?w ?l v "?h - ?k"] that len(3) by (simp add: mult.commute)
    then have "v1 ! (v * ?l + u) = ps ! (v * ?l + u)" using lp by (simp add: v1_def nth_append)
    also have "\<dots> = vram s ! (?src + (v * ?l + u))" using i sn len(1)
      unfolding ps_def nth_take [OF i] by (intro nth_drop) (use p(2) in simp)
    finally show ?thesis by (simp add: algebra_simps)
  qed
  then show ?thesis using run fr(2,3) len(1) p(2) by (intro exI [of _ fr]) auto
qed

section \<open>Characters\<close>

text \<open>A font whose glyphs all lie in the file; at most 31 pixels wide, so that the C int mask stays positive.\<close>

definition font_ok :: "font \<Rightarrow> bool" where
  [inv_simps]: "font_ok f \<longleftrightarrow> 0 < unat (f_width f) \<and> unat (f_width f) \<le> 31 \<and> 0 < unat (f_height f) \<and>
     0 < f_numglyph f \<and>
     unat (f_numglyph f) * unat (f_bytesperglyph f) < 2 ^ 32 \<and>
     unat (f_height f) * ((unat (f_width f) + 7) div 8) \<le> unat (f_bytesperglyph f) \<and>
     unat (f_headersize f) + unat (f_numglyph f) * unat (f_bytesperglyph f) + 3 \<le> length (f_bytes f)"

lemma put_at_spec:
  assumes "4 * i < 2 ^ 31" "i < length (vram s)"
  shows "put_at (of_nat (4 * i)) c s = Some (s\<lparr>vram := (vram s)[i := c]\<rparr>)"
proof -
  have u: "unat (of_nat (4 * i) :: u32) = 4 * i" using assms(1) by (intro unat_of_nat_small) simp
  have "uint (of_nat (4 * i) :: u32) = int (4 * i)" using u by (metis uint_nat)
  then have "sint (of_nat (4 * i) :: u32) = int (4 * i)"
    unfolding sint_uint using assms(1) by (simp add: signed_take_bit_int_eq_self)
  then have z: "0 \<le> sint (of_nat (4 * i) :: u32)" by simp
  have "unat (of_nat i :: u64) = i" using assms(1) by (intro unat_of_nat_small) simp
  then show ?thesis using u z assms(2) unfolding put_at_def put_front_def by simp
qed

lemma glyph_row_spec:
  assumes "4 * (i + n) < 2 ^ 31" "i + n \<le> length (vram s)"
  shows "\<exists>ps. glyph_row n bits msk (of_nat (4 * i)) fg bg s =
      Some (s\<lparr>vram := take i (vram s) @ ps @ drop (i + n) (vram s)\<rparr>) \<and> length ps = n"
  using assms
proof (induction n arbitrary: i msk s)
  case (Suc n)
  let ?c = "if bits AND msk \<noteq> 0 then fg else bg"
  let ?s = "s\<lparr>vram := (vram s)[i := ?c]\<rparr>"
  have p: "put_at (of_nat (4 * i)) ?c s = Some ?s" by (rule put_at_spec) (use Suc.prems in auto)
  have o: "(of_nat (4 * i) + 4 :: u32) = of_nat (4 * Suc i)" by simp
  from Suc.IH [of "Suc i" ?s "drop_bit 1 msk"] Suc.prems obtain ps where ps:
    "glyph_row n bits (drop_bit 1 msk) (of_nat (4 * Suc i)) fg bg ?s =
      Some (?s\<lparr>vram := take (Suc i) (vram ?s) @ ps @ drop (Suc i + n) (vram ?s)\<rparr>)" "length ps = n" by auto
  have v: "take (Suc i) ((vram s)[i := ?c]) @ ps @ drop (Suc i + n) ((vram s)[i := ?c]) =
      take i (vram s) @ (?c # ps) @ drop (i + Suc n) (vram s)"
    using Suc.prems(2) by (simp add: take_Suc_conv_app_nth)
  show ?case
  proof (intro exI conjI)
    show "glyph_row (Suc n) bits msk (of_nat (4 * i)) fg bg s =
        Some (s\<lparr>vram := take i (vram s) @ (?c # ps) @ drop (i + Suc n) (vram s)\<rparr>)"
      unfolding glyph_row.simps p bind.bind_lunit o ps(1) using v by simp
    show "length (?c # ps) = Suc n" using ps(2) by simp
  qed
qed simp

lemma glyph_rows_spec:
  assumes l: "fb_pitch s = of_nat (4 * l)" "4 * l * h < 2 ^ 31" "length (vram s) = l * h"
    and y: "y + n \<le> h" and x: "x + unat (f_width f) \<le> l"
    and g: "g + n * unat ((f_width f + 7) div 8) + 3 \<le> length (f_bytes f)" "0 < unat ((f_width f + 7) div 8)"
  shows "\<exists>fr. glyph_rows n f g (of_nat (4 * (y * l + x))) fg bg s = Some (s\<lparr>vram := fr\<rparr>) \<and>
    length fr = length (vram s) \<and>
    (\<forall>u v. u < l \<and> v < h \<and> (u < x \<or> x + unat (f_width f) \<le> u \<or> v < y \<or> y + n \<le> v) \<longrightarrow>
      fr ! (v * l + u) = vram s ! (v * l + u))"
  using assms
proof (induction n arbitrary: y g s)
  case 0
  then show ?case by (intro exI [of _ "vram s"]) simp
next
  case (Suc n)
  let ?w = "unat (f_width f)" and ?b = "unat ((f_width f + 7) div 8)" and ?i = "y * l + x"
  have "g + 4 \<le> length (f_bytes f)" using Suc.prems(6,7) by simp
  then obtain bits where bits: "read_u32 (f_bytes f) g = Some bits" by (simp add: read_u32_def)
  have "?i + ?w \<le> y * l + l" using Suc.prems(5) by simp
  also have "\<dots> = Suc y * l" by simp
  also have "\<dots> \<le> h * l" using Suc.prems(4) by (intro mult_le_mono1) simp
  finally have i: "?i + ?w \<le> l * h" by (simp add: mult.commute)
  have "4 * (?i + ?w) \<le> 4 * (l * h)" by (rule mult_le_mono2 [OF i])
  moreover have "4 * (l * h) < 2 ^ 31" using Suc.prems(2) by (simp only: mult.assoc)
  ultimately have i4: "4 * (?i + ?w) < 2 ^ 31" by (rule le_less_trans)
  from glyph_row_spec [OF i4, of s bits "push_bit (?w - 1) 1" fg bg] i Suc.prems(3) obtain ps where ps:
    "glyph_row ?w bits (push_bit (?w - 1) 1) (of_nat (4 * ?i)) fg bg s =
      Some (s\<lparr>vram := take ?i (vram s) @ ps @ drop (?i + ?w) (vram s)\<rparr>)" "length ps = ?w" by auto
  let ?v = "take ?i (vram s) @ ps @ drop (?i + ?w) (vram s)"
  have lv: "length ?v = length (vram s)" using ps(2) i Suc.prems(3) by simp
  have keep: "?v ! (v * l + u) = vram s ! (v * l + u)"
    if "u < l" "v < h" "u < x \<or> x + ?w \<le> u \<or> v \<noteq> y" for u v
  proof -
    have "v * l + u < ?i \<or> ?i + ?w \<le> v * l + u"
    proof (cases v y rule: linorder_cases)
      case less
      then have "Suc v * l \<le> y * l" by (intro mult_le_mono1) simp
      then show ?thesis using that(1) by simp
    next
      case equal
      then show ?thesis using that(3) by auto
    next
      case greater
      then have "Suc y * l \<le> v * l" by (intro mult_le_mono1) simp
      then show ?thesis using Suc.prems(5) by simp
    qed
    moreover have "v * l + u < length (vram s)" using grid_less [of u l l v h] that(1,2) Suc.prems(3) by simp
    ultimately show ?thesis using ps(2) i Suc.prems(3) by (auto simp: nth_append)
  qed
  have o: "(of_nat (4 * ?i) + ucast (fb_pitch s) :: u32) = of_nat (4 * (Suc y * l + x))"
    unfolding Suc.prems(1) by (subst ucast_of_nat_down) (simp_all add: algebra_simps)
  from Suc.IH [of "s\<lparr>vram := ?v\<rparr>" "Suc y" "g + ?b"] Suc.prems lv obtain fr where fr:
    "glyph_rows n f (g + ?b) (of_nat (4 * (Suc y * l + x))) fg bg (s\<lparr>vram := ?v\<rparr>) = Some (s\<lparr>vram := fr\<rparr>)"
    "length fr = length (vram s)"
    "\<forall>u v. u < l \<and> v < h \<and> (u < x \<or> x + ?w \<le> u \<or> v < Suc y \<or> Suc y + n \<le> v) \<longrightarrow>
      fr ! (v * l + u) = ?v ! (v * l + u)" by auto
  have "glyph_rows (Suc n) f g (of_nat (4 * ?i)) fg bg s = Some (s\<lparr>vram := fr\<rparr>)"
    unfolding glyph_rows.simps bits bind.bind_lunit ps(1) o using fr(1) by simp
  moreover have "fr ! (v * l + u) = vram s ! (v * l + u)"
    if "u < l" "v < h" "u < x \<or> x + ?w \<le> u \<or> v < y \<or> y + Suc n \<le> v" for u v
  proof -
    have "fr ! (v * l + u) = ?v ! (v * l + u)" using fr(3) that by auto
    moreover have "u < x \<or> x + ?w \<le> u \<or> v \<noteq> y" using that(3) by auto
    ultimately show ?thesis using keep that(1,2) by simp
  qed
  ultimately show ?case using fr(2) by (intro exI [of _ fr]) auto
qed

text \<open>A character whose cell is on the screen is drawn without a fault and changes only its cell.\<close>

lemma put_char_lemma:
  assumes ok: "fb_ok s" and f: "font_ok f"
    and x: "(unat cx + 1) * unat (f_width f) \<le> unat (fb_width s)"
    and y: "(unat cy + 1) * unat (f_height f) \<le> unat (fb_height s)"
  shows "\<exists>fr. framebuffer_put_char f c cx cy fg bg s = Some (s\<lparr>vram := fr\<rparr>) \<and> length fr = length (vram s) \<and>
    (\<forall>u v. u < unat (fb_width s) \<and> v < unat (fb_height s) \<and>
       \<not> (u div unat (f_width f) = unat cx \<and> v div unat (f_height f) = unat cy) \<longrightarrow>
      fr ! (v * line_pixels s + u) = vram s ! (v * line_pixels s + u))"
proof -
  let ?w = "unat (f_width f)" and ?fh = "unat (f_height f)" and ?l = "line_pixels s" and ?h = "unat (fb_height s)"
  have F: "0 < ?w" "?w \<le> 31" "0 < ?fh" using f by (simp_all add: font_ok_def)
  have "unat (fb_pitch s mod 4) = 0" using ok unfolding fb_ok_def by simp
  then have pm: "unat (fb_pitch s) mod 4 = 0" by (simp add: unat_mod)
  then have pl: "unat (fb_pitch s) = 4 * ?l" by (auto simp: line_pixels_def)
  have P: "fb_pitch s = of_nat (4 * ?l)" using pl [symmetric] by simp
  have L: "4 * ?l * ?h < 2 ^ 31" "length (vram s) = ?l * ?h" "unat (fb_width s) \<le> ?l"
    using ok pl by (simp_all add: fb_ok_def)
  have h1: "1 \<le> ?h" using y F(3) by (cases ?h) auto
  have "4 * ?l * 1 \<le> 4 * ?l * ?h" by (rule mult_le_mono2 [OF h1])
  then have lb: "4 * ?l < 2 ^ 31" using L(1) by linarith
  have xw: "unat cx * ?w + ?w \<le> ?l" using x L(3) by simp
  have yh: "unat cy * ?fh + ?fh \<le> ?h" using y by simp
  have bpl: "unat ((f_width f + 7) div 8) = (?w + 7) div 8"
    using F(2) by (simp add: unat_div unat_word_ariths)
  define gi where "gi = (if c > 0 \<and> ucast c < f_numglyph f then ucast c else 0 :: u32)"
  have gi: "unat gi < unat (f_numglyph f)" using f by (auto simp: gi_def font_ok_def word_less_unat)
  have gm: "unat gi * unat (f_bytesperglyph f) + unat (f_bytesperglyph f) \<le> unat (f_numglyph f) * unat (f_bytesperglyph f)"
    using gi mult_le_mono1 [of "Suc (unat gi)" "unat (f_numglyph f)" "unat (f_bytesperglyph f)"] by simp
  have gu: "unat (gi * f_bytesperglyph f) = unat gi * unat (f_bytesperglyph f)"
    using gm f by (intro unat_mult_lem [THEN iffD1]) (simp add: font_ok_def)
  define g where "g = unat (f_headersize f) + unat (gi * f_bytesperglyph f)"
  have gb: "g + ?fh * unat ((f_width f + 7) div 8) + 3 \<le> length (f_bytes f)"
    using gm gu f unfolding bpl g_def by (simp add: font_ok_def)
  let ?i = "unat cy * ?fh * ?l + unat cx * ?w"
  have il: "?i < ?l * ?h"
    using grid_less [of "unat cx * ?w" ?l ?l "unat cy * ?fh" ?h] xw yh F by simp
  have offs: "ucast ((ucast (cy * f_height f * (ucast (fb_pitch s) :: u32)) :: u64) + ucast (cx * f_width f) * 4) =
      (of_nat (4 * ?i) :: u32)"
  proof -
    have a: "cy * f_height f * (ucast (fb_pitch s) :: u32) = of_nat (4 * (unat cy * ?fh * ?l))"
      unfolding P by (subst ucast_of_nat_down) (simp_all add: algebra_simps)
    have b: "4 * (unat cy * ?fh * ?l) < 2 ^ 32" "unat cx * ?w < 2 ^ 32"
    proof -
      have "4 * (unat cy * ?fh * ?l) \<le> 4 * (?l * ?h)" using il by linarith
      also have "\<dots> < 2 ^ 31" using L(1) by (simp only: mult.assoc)
      finally show "4 * (unat cy * ?fh * ?l) < 2 ^ 32" by simp
      show "unat cx * ?w < 2 ^ 32" using xw lb by simp
    qed
    have c: "cx * f_width f = of_nat (unat cx * ?w)" by simp
    have ua: "(ucast (of_nat (4 * (unat cy * ?fh * ?l)) :: u32) :: u64) = of_nat (4 * (unat cy * ?fh * ?l))"
      and ub: "(ucast (of_nat (unat cx * ?w) :: u32) :: u64) = of_nat (unat cx * ?w)"
      using b by (simp_all add: ucast_of_nat_small del: of_nat_mult)
    have "(of_nat (4 * (unat cy * ?fh * ?l)) + of_nat (unat cx * ?w) * 4 :: u64) = of_nat (4 * ?i)"
      by (simp add: algebra_simps)
    then show ?thesis unfolding a c ua ub by (simp only: ucast_of_nat_down [where 'a = 64 and 'b = 32, simplified])
  qed
  have run: "framebuffer_put_char f c cx cy fg bg s = glyph_rows ?fh f g (of_nat (4 * ?i)) fg bg s"
    unfolding framebuffer_put_char_def Let_def offs g_def gi_def ..
  have "0 < unat ((f_width f + 7) div 8)" unfolding bpl using F(1) by simp
  from glyph_rows_spec [OF P L(1,2) yh xw gb this, of fg bg] obtain fr where fr:
    "glyph_rows ?fh f g (of_nat (4 * ?i)) fg bg s = Some (s\<lparr>vram := fr\<rparr>)" "length fr = length (vram s)"
    "\<forall>u v. u < ?l \<and> v < ?h \<and> (u < unat cx * ?w \<or> unat cx * ?w + ?w \<le> u \<or> v < unat cy * ?fh \<or>
      unat cy * ?fh + ?fh \<le> v) \<longrightarrow> fr ! (v * ?l + u) = vram s ! (v * ?l + u)" by auto
  have cell: "u < k * n \<or> k * n + n \<le> u" if "u div n \<noteq> k" "0 < n" for u k n :: nat
  proof (rule ccontr)
    assume "\<not> (u < k * n \<or> k * n + n \<le> u)"
    then have "u div n = k" using that(2) by (intro div_nat_eqI) (simp_all add: mult.commute)
    then show False using that(1) by simp
  qed
  show ?thesis
  proof (intro exI conjI allI impI)
    show "framebuffer_put_char f c cx cy fg bg s = Some (s\<lparr>vram := fr\<rparr>)" using run fr(1) by simp
    show "length fr = length (vram s)" by (rule fr(2))
    fix u v
    assume a: "u < unat (fb_width s) \<and> v < ?h \<and> \<not> (u div ?w = unat cx \<and> v div ?fh = unat cy)"
    then have "u < unat cx * ?w \<or> unat cx * ?w + ?w \<le> u \<or> v < unat cy * ?fh \<or> unat cy * ?fh + ?fh \<le> v"
      using cell [of u ?w "unat cx"] cell [of v ?fh "unat cy"] F(1,3) by blast
    then show "fr ! (v * ?l + u) = vram s ! (v * ?l + u)" using fr(3) a L(3) by simp
  qed
qed

section \<open>Properties\<close>

text \<open>A screen of six by four pixels with two unused pixels per line.\<close>

definition sample_fb :: framebuffer where
  "sample_fb = \<lparr>fb_width = 6, fb_height = 4, fb_pitch = 32, fb_bpp = 32, vram = replicate 32 0,
     backbuffer = None, use_double = False, back_width = 0, back_height = 0\<rparr>"

lemma sample_fb_ok: "fb_ok sample_fb"
  by (simp add: fb_ok_def sample_fb_def line_pixels_def)

text \<open>
  Drawing a rectangle colours exactly the pixels of the screen that lie in it, in the buffer that is
  being drawn to, clips what lies outside and never writes outside a buffer; a rectangle whose right
  or lower edge wraps around is not drawn at all.
\<close>

theorem draw_rect_pixels:
  assumes "fb_ok s"
  shows "\<exists>t. framebuffer_draw_rect ul_x ul_y width height c s = Some t \<and> same_screen s t \<and>
    (\<forall>u v. u < unat (fb_width s) \<and> v < unat (fb_height s) \<longrightarrow>
      pixel t u v = (if unat ul_x \<le> u \<and> u < unat (ul_x + width) \<and> unat ul_y \<le> v \<and> v < unat (ul_y + height)
        then c else pixel s u v))"
  by (rule draw_rect_lemma [OF assms])

theorem draw_rect_pixels_witness:
  "\<exists>t. framebuffer_draw_rect 4 1 5 2 7 sample_fb = Some t \<and> pixel t 5 2 = 7 \<and> pixel t 3 2 = pixel sample_fb 3 2"
proof -
  obtain t where t: "framebuffer_draw_rect 4 1 5 2 7 sample_fb = Some t"
    "\<forall>u v. u < 6 \<and> v < 4 \<longrightarrow> pixel t u v = (if 4 \<le> u \<and> u < 9 \<and> 1 \<le> v \<and> v < 3 then 7 else pixel sample_fb u v)"
    using draw_rect_pixels [OF sample_fb_ok, of 4 1 5 2 7] by (auto simp: sample_fb_def)
  then show ?thesis by auto
qed

text \<open>
  Scrolling moves every line of the screen up by the given number of pixel lines and fills the lines
  that are exposed at the bottom with the colour; it stays inside video memory.
\<close>

theorem scroll_up_moves:
  assumes "fb_ok s" "0 < unat pixels" "unat pixels \<le> unat (fb_height s)"
  shows "\<exists>fr. framebuffer_scroll_up pixels c s = Some (s\<lparr>vram := fr\<rparr>) \<and> length fr = length (vram s) \<and>
    (\<forall>u v. u < unat (fb_width s) \<and> v < unat (fb_height s) \<longrightarrow> fr ! (v * line_pixels s + u) =
      (if v + unat pixels < unat (fb_height s) then vram s ! ((v + unat pixels) * line_pixels s + u) else c))"
  by (rule scroll_up_lemma [OF assms])

theorem scroll_up_moves_witness:
  "\<exists>fr. framebuffer_scroll_up 1 7 sample_fb = Some (sample_fb\<lparr>vram := fr\<rparr>) \<and> fr ! 29 = 7"
proof -
  obtain fr where fr: "framebuffer_scroll_up 1 7 sample_fb = Some (sample_fb\<lparr>vram := fr\<rparr>)"
    "\<forall>u v. u < 6 \<and> v < 4 \<longrightarrow> fr ! (v * 8 + u) =
      (if v + 1 < 4 then vram sample_fb ! ((v + 1) * 8 + u) else 7)"
    using scroll_up_moves [OF sample_fb_ok, of 1 7] by (auto simp: sample_fb_def line_pixels_def)
  have "fr ! (3 * 8 + 5) = 7" using fr(2) [rule_format, of 5 3] by simp
  then show ?thesis using fr(1) by auto
qed

end
