(* ===== verification/Term.thy ===== *)
theory Term
  imports Framebuffer
begin

text \<open>
  The text terminal of \<open>term.c\<close> on the frame buffer: a cursor in character cells, scrolling, and a
  mirror of the output on the serial port. The font is the argument \<open>f\<close>; \<open>None\<close> is a fault in the
  frame buffer or a tab that never ends.
\<close>

section \<open>State and operations\<close>

record term_state =
  t_row :: int
  t_col :: int
  t_cols :: int
  t_rows :: int
  cur_fg :: u32
  cur_bg :: u32
  cursor_visible :: bool
  cursor_drawn :: bool
  serial :: "u8 list"
  fb :: framebuffer

definition TERM_COLOR_BLACK :: u32 where "TERM_COLOR_BLACK = 0x00000000"
definition TERM_COLOR_WHITE :: u32 where "TERM_COLOR_WHITE = 0x00FFFFFF"
definition TERM_COLOR_RED :: u32 where "TERM_COLOR_RED = 0x00FF5555"
definition TERM_COLOR_GREEN :: u32 where "TERM_COLOR_GREEN = 0x0050FA7B"

definition on_fb :: "(framebuffer \<Rightarrow> framebuffer option) \<Rightarrow> term_state \<Rightarrow> term_state option" where
  "on_fb op t = map_option (\<lambda>s. t\<lparr>fb := s\<rparr>) (op (fb t))"

definition draw_cursor :: "font \<Rightarrow> bool \<Rightarrow> term_state \<Rightarrow> term_state option" where
  "draw_cursor f on t =
     (if \<not> cursor_visible t \<and> on then Some t
      else
        on_fb (framebuffer_draw_rect (ucast (of_int (t_col t) * f_width f))
          (ucast (of_int (t_row t) * f_height f + f_height f - 2)) (ucast (f_width f)) 2
          (if on then cur_fg t else cur_bg t)) t \<bind> (\<lambda>t. Some (t\<lparr>cursor_drawn := on\<rparr>)))"

definition term_clear :: "u32 \<Rightarrow> term_state \<Rightarrow> term_state option" where
  "term_clear color t =
     on_fb (framebuffer_clear color) t \<bind> (\<lambda>t. Some (t\<lparr>t_row := 0, t_col := 0, cursor_drawn := False\<rparr>))"

definition term_init :: "font \<Rightarrow> term_state \<Rightarrow> term_state option" where
  "term_init f t =
     term_clear TERM_COLOR_BLACK
       (t\<lparr>t_cols := sint (ucast (fb_width (fb t) div ucast (f_width f)) :: u32),
          t_rows := sint (ucast (fb_height (fb t) div ucast (f_height f)) :: u32)\<rparr>)"

definition term_set_colors :: "u32 \<Rightarrow> u32 \<Rightarrow> term_state \<Rightarrow> term_state" where
  "term_set_colors fg bg t = t\<lparr>cur_fg := fg, cur_bg := bg\<rparr>"

definition hide_cursor :: "font \<Rightarrow> term_state \<Rightarrow> term_state option" where
  "hide_cursor f t = (if cursor_drawn t then draw_cursor f False t else Some t)"

definition term_set_pos :: "font \<Rightarrow> int \<Rightarrow> int \<Rightarrow> term_state \<Rightarrow> term_state option" where
  "term_set_pos f c r t =
     hide_cursor f t \<bind> (\<lambda>t.
     let t = (if c \<ge> 0 \<and> c < t_cols t then t\<lparr>t_col := c\<rparr> else t);
         t = (if r \<ge> 0 \<and> r < t_rows t then t\<lparr>t_row := r\<rparr> else t)
     in draw_cursor f True t)"

definition term_set_cursor_visible :: "font \<Rightarrow> bool \<Rightarrow> term_state \<Rightarrow> term_state option" where
  "term_set_cursor_visible f visible t =
     (if \<not> visible \<and> cursor_drawn t then draw_cursor f False t else Some t) \<bind> (\<lambda>t.
     let t = t\<lparr>cursor_visible := visible\<rparr>
     in if visible then draw_cursor f True t else Some t)"

definition newline :: "font \<Rightarrow> term_state \<Rightarrow> term_state option" where
  "newline f t =
     (let t = t\<lparr>t_col := 0, t_row := t_row t + 1\<rparr>
      in if t_row t \<ge> t_rows t
         then on_fb (framebuffer_scroll_up (ucast (f_height f)) TERM_COLOR_BLACK) t \<bind>
           (\<lambda>t. Some (t\<lparr>t_row := t_rows t - 1\<rparr>))
         else Some t)"

definition serial_out :: "u8 list \<Rightarrow> term_state \<Rightarrow> term_state" where
  "serial_out bs t = t\<lparr>serial := serial t @ bs\<rparr>"

definition put_cell :: "font \<Rightarrow> u16 \<Rightarrow> u32 \<Rightarrow> u32 \<Rightarrow> term_state \<Rightarrow> term_state option" where
  "put_cell f c fg bg t = on_fb (framebuffer_put_char f c (of_int (t_col t)) (of_int (t_row t)) fg bg) t"

text \<open>The branches of the switch other than the tab.\<close>

definition print_plain :: "font \<Rightarrow> u8 \<Rightarrow> u32 \<Rightarrow> u32 \<Rightarrow> term_state \<Rightarrow> term_state option" where
  "print_plain f c fg bg t =
     (if c = 10 then newline f t
      else if c = 13 then Some (t\<lparr>t_col := 0\<rparr>)
      else if c = 8 then
        (if t_col t > 0 then put_cell f 32 fg bg (t\<lparr>t_col := t_col t - 1\<rparr>) else Some t)
      else
        put_cell f (ucast c) fg bg t \<bind> (\<lambda>t.
        let t = t\<lparr>t_col := t_col t + 1\<rparr>
        in if t_col t \<ge> t_cols t then newline f t else Some t)) \<bind>
     draw_cursor f True"

text \<open>What every character starts with: the serial mirror and taking the cursor off the screen.\<close>

definition print_start :: "font \<Rightarrow> u8 \<Rightarrow> term_state \<Rightarrow> term_state option" where
  "print_start f c t = hide_cursor f (serial_out (if c = 10 then [13, c] else [c]) t)"

partial_function (option) tab_loop :: "font \<Rightarrow> u32 \<Rightarrow> u32 \<Rightarrow> term_state \<Rightarrow> term_state option" where
  "tab_loop f fg bg t =
     print_start f 32 t \<bind> (\<lambda>t. print_plain f 32 fg bg t \<bind> (\<lambda>t.
     if t_col t mod 4 \<noteq> 0 then tab_loop f fg bg t else Some t))"

definition term_print_char :: "font \<Rightarrow> u8 \<Rightarrow> u32 \<Rightarrow> u32 \<Rightarrow> term_state \<Rightarrow> term_state option" where
  "term_print_char f c fg bg t =
     print_start f c t \<bind> (if c = 9 then tab_loop f fg bg else print_plain f c fg bg)"

definition term_print_with_color :: "font \<Rightarrow> u8 list \<Rightarrow> u32 \<Rightarrow> u32 \<Rightarrow> term_state \<Rightarrow> term_state option" where
  "term_print_with_color f cs fg bg = foldM (\<lambda>c. term_print_char f c fg bg) cs"

definition term_print :: "font \<Rightarrow> u8 list \<Rightarrow> term_state \<Rightarrow> term_state option" where
  "term_print f cs t = term_print_with_color f cs (cur_fg t) (cur_bg t) t"

definition term_print_success :: "font \<Rightarrow> u8 list \<Rightarrow> term_state \<Rightarrow> term_state option" where
  "term_print_success f cs = term_print_with_color f cs TERM_COLOR_GREEN TERM_COLOR_BLACK"

definition term_print_error :: "font \<Rightarrow> u8 list \<Rightarrow> term_state \<Rightarrow> term_state option" where
  "term_print_error f cs = term_print_with_color f cs TERM_COLOR_RED TERM_COLOR_BLACK"

section \<open>The abstract terminal\<close>

text \<open>
  A terminal of character cells sees only the cursor and what goes to the serial port. A tab writes
  spaces up to the next multiple of four, or to the end of the line; each of them is mirrored.
\<close>

definition next_line :: "int \<Rightarrow> int \<times> int \<Rightarrow> int \<times> int" where
  "next_line rows = (\<lambda>(c, r). (0, if r + 1 \<ge> rows then rows - 1 else r + 1))"

definition put_step :: "int \<Rightarrow> int \<Rightarrow> int \<times> int \<Rightarrow> int \<times> int" where
  "put_step cols rows = (\<lambda>(c, r). if c + 1 \<ge> cols then next_line rows (c, r) else (c + 1, r))"

definition tab_width :: "int \<Rightarrow> int \<Rightarrow> nat" where
  "tab_width cols c = nat (min (4 - c mod 4) (cols - c))"

definition cell_step :: "int \<Rightarrow> int \<Rightarrow> u8 \<Rightarrow> int \<times> int \<Rightarrow> int \<times> int" where
  "cell_step cols rows ch = (\<lambda>(c, r).
     if ch = 10 then next_line rows (c, r)
     else if ch = 13 then (0, r)
     else if ch = 8 then (if c > 0 then c - 1 else c, r)
     else if ch = 9 then (put_step cols rows ^^ tab_width cols c) (c, r)
     else put_step cols rows (c, r))"

definition mirror :: "int \<Rightarrow> u8 \<Rightarrow> int \<Rightarrow> u8 list" where
  "mirror cols ch c = (if ch = 10 then [13, 10] else if ch = 9 then 9 # replicate (tab_width cols c) 32 else [ch])"

fun cells_run :: "int \<Rightarrow> int \<Rightarrow> u8 list \<Rightarrow> int \<times> int \<Rightarrow> (int \<times> int) \<times> u8 list" where
  "cells_run cols rows [] p = (p, [])"
| "cells_run cols rows (ch # cs) p =
     (case cells_run cols rows cs (cell_step cols rows ch p) of (q, out) \<Rightarrow> (q, mirror cols ch (fst p) @ out))"

text \<open>The cursor lies on the screen and the grid of cells is the one the font gives.\<close>

definition term_ok :: "font \<Rightarrow> term_state \<Rightarrow> bool" where
  [inv_simps]: "term_ok f t \<longleftrightarrow> font_ok f \<and> fb_ok (fb t) \<and>
     t_cols t = int (unat (fb_width (fb t)) div unat (f_width f)) \<and>
     t_rows t = int (unat (fb_height (fb t)) div unat (f_height f)) \<and>
     0 \<le> t_col t \<and> t_col t < t_cols t \<and> 0 \<le> t_row t \<and> t_row t < t_rows t"

definition cursor_pos :: "term_state \<Rightarrow> int \<times> int" where
  "cursor_pos t = (t_col t, t_row t)"

text \<open>Steps that leave the grid as it is.\<close>

definition same_grid :: "term_state \<Rightarrow> term_state \<Rightarrow> bool" where
  "same_grid t t' \<longleftrightarrow> t_cols t' = t_cols t \<and> t_rows t' = t_rows t \<and> same_screen (fb t) (fb t') \<and>
     cur_fg t' = cur_fg t \<and> cur_bg t' = cur_bg t \<and> cursor_visible t' = cursor_visible t"

lemma same_grid_trans: "same_grid r s \<Longrightarrow> same_grid s t \<Longrightarrow> same_grid r t"
  using same_screen_trans by (auto simp: same_grid_def)

lemma same_grid_ok:
  assumes "same_grid t t'" "term_ok f t" "0 \<le> t_col t'" "t_col t' < t_cols t" "0 \<le> t_row t'" "t_row t' < t_rows t"
  shows "term_ok f t'"
  using assms same_screen_ok [of "fb t" "fb t'"] by (simp add: same_grid_def term_ok_def same_screen_def)

lemma draw_cursor_spec:
  assumes "term_ok f t"
  shows "\<exists>t'. draw_cursor f on t = Some t' \<and> same_grid t t' \<and> cursor_pos t' = cursor_pos t \<and> serial t' = serial t"
proof (cases "\<not> cursor_visible t \<and> on")
  case True
  then show ?thesis by (simp add: draw_cursor_def same_grid_def)
next
  case False
  have ok: "fb_ok (fb t)" using assms by (simp add: term_ok_def)
  let ?op = "framebuffer_draw_rect (ucast (of_int (t_col t) * f_width f))
    (ucast (of_int (t_row t) * f_height f + f_height f - 2)) (ucast (f_width f)) 2 (if on then cur_fg t else cur_bg t)"
  from draw_rect_lemma [OF ok] obtain s where s: "?op (fb t) = Some s" "same_screen (fb t) s" by blast
  then have "draw_cursor f on t = Some (t\<lparr>fb := s, cursor_drawn := on\<rparr>)"
    unfolding draw_cursor_def if_not_P [OF False] by (simp add: on_fb_def)
  then show ?thesis using s(2) by (simp add: same_grid_def cursor_pos_def)
qed

lemma hide_cursor_spec:
  "term_ok f t \<Longrightarrow> \<exists>t'. hide_cursor f t = Some t' \<and> same_grid t t' \<and> cursor_pos t' = cursor_pos t \<and> serial t' = serial t"
  using draw_cursor_spec [of f t False] by (auto simp: hide_cursor_def same_grid_def)

lemma print_start_spec:
  assumes "term_ok f t"
  shows "\<exists>t'. print_start f c t = Some t' \<and> term_ok f t' \<and> same_grid t t' \<and> cursor_pos t' = cursor_pos t \<and>
    serial t' = serial t @ (if c = 10 then [13, c] else [c])"
proof -
  let ?t = "serial_out (if c = 10 then [13, c] else [c]) t"
  have g: "same_grid t ?t" "cursor_pos ?t = cursor_pos t" "serial ?t = serial t @ (if c = 10 then [13, c] else [c])"
    by (simp_all add: serial_out_def same_grid_def cursor_pos_def)
  have ok: "term_ok f ?t" using assms by (simp add: serial_out_def term_ok_def)
  from hide_cursor_spec [OF ok] obtain t' where t': "hide_cursor f ?t = Some t'" "same_grid ?t t'"
    "cursor_pos t' = cursor_pos ?t" "serial t' = serial ?t" by blast
  have "term_ok f t'" using same_grid_ok [OF t'(2) ok] t'(3) ok by (simp add: term_ok_def cursor_pos_def)
  then show ?thesis unfolding print_start_def using t' g same_grid_trans [OF g(1) t'(2)] by simp
qed

lemma newline_spec:
  assumes ok: "term_ok f t"
  shows "\<exists>t'. newline f t = Some t' \<and> same_grid t t' \<and> serial t' = serial t \<and>
    cursor_pos t' = next_line (t_rows t) (cursor_pos t)"
proof (cases "t_row t + 1 \<ge> t_rows t")
  case False
  then show ?thesis by (simp add: newline_def same_grid_def cursor_pos_def next_line_def)
next
  case True
  have F: "0 < unat (f_height f)" "fb_ok (fb t)" using ok by (simp_all add: term_ok_def font_ok_def)
  have u: "unat (ucast (f_height f) :: u64) = unat (f_height f)" by (simp add: unat_ucast_up)
  have "0 < unat (fb_height (fb t)) div unat (f_height f)" using ok by (simp add: term_ok_def)
  then have "unat (f_height f) \<le> unat (fb_height (fb t))" by (simp add: div_greater_zero_iff)
  with scroll_up_lemma [OF F(2), of "ucast (f_height f)" TERM_COLOR_BLACK] F(1) u obtain fr where
    "framebuffer_scroll_up (ucast (f_height f)) TERM_COLOR_BLACK (fb t) = Some ((fb t)\<lparr>vram := fr\<rparr>)"
    "length fr = length (vram (fb t))" by auto
  then show ?thesis using True
    by (simp add: newline_def on_fb_def same_grid_def same_screen_def cursor_pos_def next_line_def)
qed

lemma put_cell_spec:
  assumes ok: "term_ok f t"
  shows "\<exists>fr. put_cell f c fg bg t = Some (t\<lparr>fb := (fb t)\<lparr>vram := fr\<rparr>\<rparr>) \<and> length fr = length (vram (fb t))"
proof -
  let ?w = "unat (f_width f)" and ?h = "unat (f_height f)"
  have F: "font_ok f" "fb_ok (fb t)" "0 < ?w" "0 < ?h" using ok by (simp_all add: term_ok_def font_ok_def)
  have c: "nat (t_col t) < unat (fb_width (fb t)) div ?w" "nat (t_row t) < unat (fb_height (fb t)) div ?h"
    "0 \<le> t_col t" "0 \<le> t_row t" using ok by (auto simp: term_ok_def)
  have x: "(nat (t_col t) + 1) * ?w \<le> unat (fb_width (fb t))"
    by (rule less_div_times [OF c(1)])
  have y: "(nat (t_row t) + 1) * ?h \<le> unat (fb_height (fb t))"
    by (rule less_div_times [OF c(2)])
  have p: "unat (fb_pitch (fb t)) * unat (fb_height (fb t)) < 2 ^ 31" "unat (fb_width (fb t)) \<le> line_pixels (fb t)"
    using F(2) by (simp_all add: fb_ok_def)
  have hb: "unat (fb_width (fb t)) < 2 ^ 31 \<and> unat (fb_height (fb t)) < 2 ^ 31"
  proof -
    have pos: "1 \<le> unat (fb_height (fb t))" "1 \<le> unat (fb_width (fb t))"
      using c(1,2) by (auto simp: Suc_le_eq intro: ccontr)
    have pp: "unat (fb_width (fb t)) \<le> unat (fb_pitch (fb t))" using p(2) by (simp add: line_pixels_def)
    have "unat (fb_width (fb t)) * 1 \<le> unat (fb_pitch (fb t)) * unat (fb_height (fb t))"
      by (rule mult_le_mono [OF pp pos(1)])
    moreover have "1 * unat (fb_height (fb t)) \<le> unat (fb_pitch (fb t)) * unat (fb_height (fb t))"
      by (rule mult_le_mono) (use pp pos in auto)
    ultimately show ?thesis using p(1) by linarith
  qed
  have "nat (t_col t) < 2 ^ 31" "nat (t_row t) < 2 ^ 31"
    using less_le_trans [OF c(1) div_le_dividend] less_le_trans [OF c(2) div_le_dividend] hb
    by (meson less_trans)+
  then have "nat (t_col t) < 2 ^ 32" "nat (t_row t) < 2 ^ 32" by simp_all
  then have u: "unat (of_int (t_col t) :: u32) = nat (t_col t)" "unat (of_int (t_row t) :: u32) = nat (t_row t)"
    using c(3,4) by (simp_all add: unat_of_nat_small flip: of_nat_nat)
  from put_char_lemma [OF F(2,1), of "of_int (t_col t)" "of_int (t_row t)", unfolded u, OF x y] show ?thesis
    by (force simp: put_cell_def on_fb_def)
qed

lemma newline_col: "newline f (t\<lparr>t_col := x\<rparr>) = newline f t"
  by (simp add: newline_def)

lemma ok_pos:
  assumes "same_grid t t'" "term_ok f t" "cursor_pos t' = (c, r)" "0 \<le> c" "c < t_cols t" "0 \<le> r" "r < t_rows t"
  shows "term_ok f t'"
  using same_grid_ok [OF assms(1,2)] assms(3-7) by (simp add: cursor_pos_def)

lemma next_line_bounds:
  assumes "term_ok f t" "next_line (t_rows t) (cursor_pos t) = (c, r)"
  shows "0 \<le> c \<and> c < t_cols t \<and> 0 \<le> r \<and> r < t_rows t"
  using assms by (auto simp: term_ok_def next_line_def cursor_pos_def split: if_splits)

lemma print_plain_spec:
  assumes ok: "term_ok f t" and c: "c \<noteq> 9"
  shows "\<exists>t'. print_plain f c fg bg t = Some t' \<and> term_ok f t' \<and> same_grid t t' \<and> serial t' = serial t \<and>
    cursor_pos t' = cell_step (t_cols t) (t_rows t) c (cursor_pos t)"
proof -
  let ?q = "cell_step (t_cols t) (t_rows t) c (cursor_pos t)"
  have finish: ?thesis
    if t1: "print_plain f c fg bg t = draw_cursor f True t1" "same_grid t t1" "serial t1 = serial t"
      "cursor_pos t1 = ?q" "term_ok f t1" for t1
  proof -
    from draw_cursor_spec [OF t1(5), of True] obtain t2 where t2: "draw_cursor f True t1 = Some t2" "same_grid t1 t2"
      "cursor_pos t2 = cursor_pos t1" "serial t2 = serial t1" by blast
    have b: "0 \<le> t_col t1" "t_col t1 < t_cols t1" "0 \<le> t_row t1" "t_row t1 < t_rows t1"
      using t1(5) by (simp_all add: term_ok_def)
    have "term_ok f t2" using ok_pos [OF t2(2) t1(5), of "t_col t1" "t_row t1"] t2(3) b by (simp add: cursor_pos_def)
    then show ?thesis using t1 t2 same_grid_trans [OF t1(2) t2(2)] by simp
  qed
  have b: "0 \<le> t_col t" "t_col t < t_cols t" "0 \<le> t_row t" "t_row t < t_rows t" using ok by (simp_all add: term_ok_def)
  have nl: ?thesis if "print_plain f c fg bg t = newline f t \<bind> draw_cursor f True" "?q = next_line (t_rows t) (cursor_pos t)"
  proof -
    from newline_spec [OF ok] obtain t1 where t1: "newline f t = Some t1" "same_grid t t1" "serial t1 = serial t"
      "cursor_pos t1 = next_line (t_rows t) (cursor_pos t)" by blast
    obtain cc rr where q: "next_line (t_rows t) (cursor_pos t) = (cc, rr)" by fastforce
    have "term_ok f t1" using ok_pos [OF t1(2) ok] next_line_bounds [OF ok q] t1(4) q by simp
    then show ?thesis using finish [of t1] that t1 by simp
  qed
  consider "c = 10" | "c = 13" | "c = 8" "t_col t > 0" | "c = 8" "\<not> t_col t > 0" | "c \<noteq> 10" "c \<noteq> 13" "c \<noteq> 8" by blast
  then show ?thesis
  proof cases
    case 1
    show ?thesis by (rule nl) (simp_all add: print_plain_def cell_step_def cursor_pos_def 1)
  next
    case 2
    show ?thesis by (rule finish [of "t\<lparr>t_col := 0\<rparr>"])
        (use 2 ok b in \<open>simp_all add: print_plain_def cell_step_def cursor_pos_def same_grid_def term_ok_def\<close>)
  next
    case 3
    let ?t = "t\<lparr>t_col := t_col t - 1\<rparr>"
    have ok': "term_ok f ?t" using ok 3 by (simp add: term_ok_def)
    from put_cell_spec [OF ok', of 32 fg bg] obtain fr where fr:
      "put_cell f 32 fg bg ?t = Some (?t\<lparr>fb := (fb t)\<lparr>vram := fr\<rparr>\<rparr>)" "length fr = length (vram (fb t))" by auto
    have g: "same_grid ?t (?t\<lparr>fb := (fb t)\<lparr>vram := fr\<rparr>\<rparr>)" using fr(2) by (simp add: same_grid_def same_screen_def)
    have g': "same_grid t ?t" by (simp add: same_grid_def)
    show ?thesis
      by (rule finish [OF _ same_grid_trans [OF g' g]])
        (use 3 fr(1) ok_pos [OF g ok', of "t_col t - 1" "t_row t"] b in
          \<open>simp_all add: print_plain_def cell_step_def cursor_pos_def\<close>)
  next
    case 4
    show ?thesis by (rule finish [of t])
        (use 4 ok in \<open>simp_all add: print_plain_def cell_step_def cursor_pos_def same_grid_def\<close>)
  next
    case 5
    from put_cell_spec [OF ok, of "ucast c" fg bg] obtain fr where fr:
      "put_cell f (ucast c) fg bg t = Some (t\<lparr>fb := (fb t)\<lparr>vram := fr\<rparr>\<rparr>)" "length fr = length (vram (fb t))" by blast
    define t1 where "t1 = t\<lparr>fb := (fb t)\<lparr>vram := fr\<rparr>\<rparr>"
    have g: "same_grid t t1" using fr(2) by (simp add: same_grid_def same_screen_def t1_def)
    have t1: "t_col t1 = t_col t" "t_row t1 = t_row t" "t_cols t1 = t_cols t" "t_rows t1 = t_rows t" "serial t1 = serial t"
      by (simp_all add: t1_def)
    have ok1: "term_ok f t1" using ok_pos [OF g ok, of "t_col t" "t_row t"] b t1 by (simp add: cursor_pos_def)
    show ?thesis
    proof (cases "t_col t + 1 \<ge> t_cols t")
      case True
      have run: "print_plain f c fg bg t = newline f t1 \<bind> draw_cursor f True"
        using 5 c fr(1) True t1 newline_col [where t = t1] by (simp add: print_plain_def t1_def Let_def)
      from newline_spec [OF ok1] obtain t2 where t2: "newline f t1 = Some t2" "same_grid t1 t2" "serial t2 = serial t1"
        "cursor_pos t2 = next_line (t_rows t1) (cursor_pos t1)" by blast
      obtain cc rr where q: "next_line (t_rows t1) (cursor_pos t1) = (cc, rr)" by fastforce
      have "term_ok f t2" using ok_pos [OF t2(2) ok1] next_line_bounds [OF ok1 q] t2(4) q by simp
      then show ?thesis
        by (intro finish [OF _ same_grid_trans [OF g t2(2)]])
          (use run t2 t1 True 5 c in \<open>simp_all add: cell_step_def put_step_def cursor_pos_def\<close>)
    next
      case False
      let ?t2 = "t1\<lparr>t_col := t_col t + 1\<rparr>"
      have g2: "same_grid t1 ?t2" by (simp add: same_grid_def)
      have "term_ok f ?t2" using ok1 False b t1 by (simp add: term_ok_def)
      then show ?thesis
        by (intro finish [OF _ same_grid_trans [OF g g2]])
          (use fr(1) t1 False 5 c in \<open>simp_all add: print_plain_def Let_def cell_step_def put_step_def cursor_pos_def t1_def\<close>)
    qed
  qed
qed

lemma tab_loop_spec:
  assumes "term_ok f t"
  shows "\<exists>t'. tab_loop f fg bg t = Some t' \<and> term_ok f t' \<and> same_grid t t' \<and>
    serial t' = serial t @ replicate (tab_width (t_cols t) (t_col t)) 32 \<and>
    cursor_pos t' = (put_step (t_cols t) (t_rows t) ^^ tab_width (t_cols t) (t_col t)) (cursor_pos t)"
  using assms
proof (induction "tab_width (t_cols t) (t_col t)" arbitrary: t rule: less_induct)
  case less
  let ?C = "t_cols t" and ?R = "t_rows t" and ?c = "t_col t"
  have b: "0 \<le> ?c" "?c < ?C" using less.prems by (simp_all add: term_ok_def)
  from print_start_spec [OF less.prems, of 32] obtain t1 where t1: "print_start f 32 t = Some t1" "term_ok f t1"
    "same_grid t t1" "cursor_pos t1 = cursor_pos t" "serial t1 = serial t @ [32]" by auto
  have d1: "t_cols t1 = ?C" "t_rows t1 = ?R" using t1(3) by (simp_all add: same_grid_def)
  from print_plain_spec [OF t1(2), of 32 fg bg] obtain t2 where t2: "print_plain f 32 fg bg t1 = Some t2" "term_ok f t2"
    "same_grid t1 t2" "serial t2 = serial t1" "cursor_pos t2 = put_step ?C ?R (cursor_pos t)"
    using t1(4) d1 by (auto simp: cell_step_def split: prod.splits)
  have d2: "t_cols t2 = ?C" "t_rows t2 = ?R" using t2(3) d1 by (simp_all add: same_grid_def)
  have unf: "tab_loop f fg bg t = (if t_col t2 mod 4 \<noteq> 0 then tab_loop f fg bg t2 else Some t2)"
    by (subst tab_loop.simps) (simp add: t1(1) t2(1))
  have c2: "t_col t2 = (if ?c + 1 \<ge> ?C then 0 else ?c + 1)"
    using t2(5) by (simp add: cursor_pos_def put_step_def next_line_def split: if_splits)
  show ?case
  proof (cases "t_col t2 mod 4 \<noteq> 0")
    case False
    have "tab_width ?C ?c = 1"
    proof (cases "?c + 1 \<ge> ?C")
      case True
      then have "?C - ?c = 1" using b by simp
      moreover have "1 \<le> 4 - ?c mod 4" by presburger
      ultimately show ?thesis by (simp add: tab_width_def)
    next
      case F: False
      then have "(?c + 1) mod 4 = 0" using False c2 by simp
      then have "?c mod 4 = 3" by presburger
      then show ?thesis using F b by (simp add: tab_width_def)
    qed
    then show ?thesis using unf False t2 t1(5) same_grid_trans [OF t1(3) t2(3)] by simp
  next
    case True
    then have ne: "\<not> ?c + 1 \<ge> ?C" "(?c + 1) mod 4 \<noteq> 0" "t_col t2 = ?c + 1" using c2 by (auto split: if_splits)
    then have "4 - (?c + 1) mod 4 = 3 - ?c mod 4" "?c mod 4 < 3" by presburger+
    have "min (4 - ?c mod 4) (?C - ?c) = min (4 - (?c + 1) mod 4) (?C - (?c + 1)) + 1"
      "0 \<le> min (4 - (?c + 1) mod 4) (?C - (?c + 1))"
      using \<open>4 - (?c + 1) mod 4 = 3 - ?c mod 4\<close> \<open>?c mod 4 < 3\<close> ne(1) by linarith+
    then have w: "tab_width ?C ?c = Suc (tab_width ?C (?c + 1))" unfolding tab_width_def by (simp add: Suc_nat_eq_nat_zadd1 add.commute)
    have "tab_width (t_cols t2) (t_col t2) < tab_width ?C ?c" using w d2 ne(3) by simp
    from less.hyps [OF this t2(2)] obtain t3 where t3: "tab_loop f fg bg t2 = Some t3" "term_ok f t3" "same_grid t2 t3"
      "serial t3 = serial t2 @ replicate (tab_width ?C (?c + 1)) 32"
      "cursor_pos t3 = (put_step ?C ?R ^^ tab_width ?C (?c + 1)) (cursor_pos t2)" unfolding d2 ne(3) by blast
    have "cursor_pos t3 = (put_step ?C ?R ^^ tab_width ?C ?c) (cursor_pos t)"
      unfolding w t3(5) t2(5) by (simp add: funpow_swap1)
    then show ?thesis using unf True t3 t2(4) t1(5) w same_grid_trans [OF same_grid_trans [OF t1(3) t2(3)] t3(3)]
      by simp
  qed
qed

lemma print_char_spec:
  assumes ok: "term_ok f t"
  shows "\<exists>t'. term_print_char f c fg bg t = Some t' \<and> term_ok f t' \<and> same_grid t t' \<and>
    serial t' = serial t @ mirror (t_cols t) c (t_col t) \<and>
    cursor_pos t' = cell_step (t_cols t) (t_rows t) c (cursor_pos t)"
proof -
  from print_start_spec [OF ok, of c] obtain t1 where t1: "print_start f c t = Some t1" "term_ok f t1"
    "same_grid t t1" "cursor_pos t1 = cursor_pos t" "serial t1 = serial t @ (if c = 10 then [13, c] else [c])" by blast
  have d1: "t_cols t1 = t_cols t" "t_rows t1 = t_rows t" "t_col t1 = t_col t" "t_row t1 = t_row t"
    using t1(3,4) by (simp_all add: same_grid_def cursor_pos_def)
  show ?thesis
  proof (cases "c = 9")
    case True
    from tab_loop_spec [OF t1(2), of fg bg] show ?thesis
      using True t1 d1 same_grid_trans [OF t1(3)]
      by (fastforce simp: term_print_char_def mirror_def cell_step_def cursor_pos_def)
  next
    case False
    from print_plain_spec [OF t1(2) False, of fg bg] obtain t2 where t2: "print_plain f c fg bg t1 = Some t2"
      "term_ok f t2" "same_grid t1 t2" "serial t2 = serial t1"
      "cursor_pos t2 = cell_step (t_cols t) (t_rows t) c (cursor_pos t)" unfolding d1 t1(4) by blast
    then show ?thesis using False t1(1,5) same_grid_trans [OF t1(3) t2(3)]
      by (auto simp: term_print_char_def mirror_def)
  qed
qed

lemma print_lemma:
  assumes "term_ok f t"
  shows "\<exists>t'. term_print_with_color f cs fg bg t = Some t' \<and> term_ok f t' \<and> same_grid t t' \<and>
    (cursor_pos t', serial t') =
      (let (p, out) = cells_run (t_cols t) (t_rows t) cs (cursor_pos t) in (p, serial t @ out))"
  using assms
proof (induction cs arbitrary: t)
  case Nil
  then show ?case by (simp add: term_print_with_color_def same_grid_def)
next
  case (Cons c cs)
  from print_char_spec [OF Cons.prems, of c fg bg] obtain t1 where t1: "term_print_char f c fg bg t = Some t1"
    "term_ok f t1" "same_grid t t1" "serial t1 = serial t @ mirror (t_cols t) c (t_col t)"
    "cursor_pos t1 = cell_step (t_cols t) (t_rows t) c (cursor_pos t)" by blast
  have d1: "t_cols t1 = t_cols t" "t_rows t1 = t_rows t" using t1(3) by (simp_all add: same_grid_def)
  from Cons.IH [OF t1(2)] obtain t2 where t2: "term_print_with_color f cs fg bg t1 = Some t2" "term_ok f t2"
    "same_grid t1 t2" "(cursor_pos t2, serial t2) =
      (let (p, out) = cells_run (t_cols t) (t_rows t) cs (cursor_pos t1) in (p, serial t1 @ out))" unfolding d1 by blast
  show ?case using t1 t2 same_grid_trans [OF t1(3) t2(3)]
    by (auto simp: term_print_with_color_def cursor_pos_def Let_def split: prod.splits)
qed

section \<open>Properties\<close>

text \<open>A font of two blank glyphs of two by two pixels: the sample screen has three by two cells.\<close>

definition sample_font :: font where
  "sample_font = \<lparr>f_headersize = 0, f_numglyph = 2, f_bytesperglyph = 2, f_height = 2, f_width = 2,
     f_bytes = replicate 8 0\<rparr>"

definition sample_term :: term_state where
  "sample_term = \<lparr>t_row = 0, t_col = 1, t_cols = 3, t_rows = 2, cur_fg = 7, cur_bg = 0, cursor_visible = True,
     cursor_drawn = False, serial = [], fb = sample_fb\<rparr>"

lemma sample_term_ok: "term_ok sample_font sample_term"
  by (simp add: term_ok_def font_ok_def sample_font_def sample_term_def sample_fb_ok)
    (simp add: sample_fb_def)



end
