(* ===== verification/Kprintf.thy ===== *)
theory Kprintf
  imports Term
begin

text \<open>
  The format engine of \<open>kprintf.c\<close> and its three users. A format string is the list of its bytes before
  the NUL, the variable arguments are a list: a 64-bit slot for every number, character or pointer,
  and a string or NULL. \<open>None\<close> is an argument that is missing or of the wrong kind, or a write
  outside the caller's buffer.
\<close>

text \<open>The bytes of a string literal, without its NUL.\<close>

abbreviation bytes :: "string \<Rightarrow> u8 list" where
  "bytes s \<equiv> map of_char s"

section \<open>The bounded output buffer\<close>

datatype arg = Num u64 | Str "u8 list option"

record outbuf =
  o_buf :: "u8 list"
  o_size :: nat
  o_pos :: nat

definition out_char :: "u8 \<Rightarrow> outbuf \<Rightarrow> outbuf option" where
  "out_char c o1 =
     (if o_pos o1 + 1 < o_size o1
      then if o_pos o1 < length (o_buf o1)
        then Some (o1\<lparr>o_buf := (o_buf o1)[o_pos o1 := c], o_pos := o_pos o1 + 1\<rparr>) else None
      else Some (o1\<lparr>o_pos := o_pos o1 + 1\<rparr>))"

definition out_pad :: "u8 \<Rightarrow> int \<Rightarrow> outbuf \<Rightarrow> outbuf option" where
  "out_pad pad count = foldM (\<lambda>_. out_char pad) [0..<nat count]"

definition out_string :: "u8 list \<Rightarrow> outbuf \<Rightarrow> outbuf option" where
  "out_string s = foldM out_char s"

section \<open>Numbers\<close>

definition digit_char :: "bool \<Rightarrow> nat \<Rightarrow> u8" where
  "digit_char upper d = (if d < 10 then 48 + of_nat d else (if upper then 65 else 97) + of_nat (d - 10))"

text \<open>The digits in the order the loop stores them, the least significant one first.\<close>

function digits_rev :: "bool \<Rightarrow> nat \<Rightarrow> nat \<Rightarrow> u8 list" where
  "digits_rev upper base v =
     (if v = 0 \<or> base < 2 then [] else digit_char upper (v mod base) # digits_rev upper base (v div base))"
  by pat_completeness auto
termination by (relation "measure (\<lambda>(u, b, v). v)") auto

declare digits_rev.simps [simp del]

lemma digits_rev_0 [simp]: "digits_rev upper base 0 = []"
  by (subst digits_rev.simps) simp

definition number_tmp :: "bool \<Rightarrow> nat \<Rightarrow> u64 \<Rightarrow> bool \<Rightarrow> u8 list" where
  "number_tmp upper base v negative =
     (if v = 0 then [48] else digits_rev upper base (unat v)) @ (if negative then [45] else [])"

definition out_number :: "u64 \<Rightarrow> nat \<Rightarrow> bool \<Rightarrow> bool \<Rightarrow> int \<Rightarrow> bool \<Rightarrow> bool \<Rightarrow> outbuf \<Rightarrow> outbuf option" where
  "out_number v base negative upper width zero_pad left o1 =
     (let tmp = number_tmp upper base v negative; pad = width - int (length tmp)
      in (if \<not> left then out_pad (if zero_pad then 48 else 32) pad o1 else Some o1) \<bind>
         out_string (rev tmp) \<bind>
         (\<lambda>o1. if left then out_pad 32 pad o1 else Some o1))"

section \<open>Directives\<close>

fun parse_flags :: "bool \<Rightarrow> bool \<Rightarrow> u8 list \<Rightarrow> bool \<times> bool \<times> u8 list" where
  "parse_flags left zero (c # cs) =
     (if c = 45 then parse_flags True zero cs
      else if c = 48 then parse_flags left True cs
      else (left, zero, c # cs))"
| "parse_flags left zero [] = (left, zero, [])"

text \<open>The width is a C \<open>int\<close>, which wraps beyond 32 bits.\<close>

definition int32 :: "int \<Rightarrow> int" where
  "int32 i = sint (word_of_int i :: u32)"

lemma int32_small [simp]: "- 2147483648 \<le> i \<Longrightarrow> i < 2147483648 \<Longrightarrow> int32 i = i"
  by (simp add: int32_def signed_of_int signed_take_bit_int_eq_self)

fun parse_width :: "int \<Rightarrow> u8 list \<Rightarrow> int \<times> u8 list" where
  "parse_width w (c # cs) =
     (if c \<ge> 48 \<and> c \<le> 57 then parse_width (int32 (w * 10 + (uint c - 48))) cs else (w, c # cs))"
| "parse_width w [] = (w, [])"

fun parse_longs :: "nat \<Rightarrow> u8 list \<Rightarrow> nat \<times> u8 list" where
  "parse_longs n (c # cs) =
     (if c = 108 then parse_longs (n + 1) cs
      else if c = 122 then (2, cs)
      else (n, c # cs))"
| "parse_longs n [] = (n, [])"

definition signed_arg :: "nat \<Rightarrow> u64 \<Rightarrow> u64" where
  "signed_arg longs w = (if longs \<noteq> 0 then w else scast (ucast w :: u32))"

definition unsigned_arg :: "nat \<Rightarrow> u64 \<Rightarrow> u64" where
  "unsigned_arg longs w = (if longs \<noteq> 0 then w else ucast (ucast w :: u32))"

definition null_text :: "u8 list" where
  "null_text = [40, 110, 117, 108, 108, 41]"

definition out_text :: "u8 list \<Rightarrow> int \<Rightarrow> bool \<Rightarrow> outbuf \<Rightarrow> outbuf option" where
  "out_text s width left o1 =
     (let pad = width - int (length s)
      in (if \<not> left then out_pad 32 pad o1 else Some o1) \<bind> out_string s \<bind>
         (\<lambda>o1. if left then out_pad 32 pad o1 else Some o1))"

text \<open>The switch on the conversion character: the arguments left, and the buffer.\<close>

definition convert :: "u8 \<Rightarrow> bool \<Rightarrow> bool \<Rightarrow> int \<Rightarrow> nat \<Rightarrow> arg list \<Rightarrow> outbuf \<Rightarrow> (arg list \<times> outbuf) option" where
  "convert k left zero width longs args o1 =
     (if k = 115 then
        (case args of
           Str s # as \<Rightarrow> map_option (Pair as)
             (out_text (case s of None \<Rightarrow> null_text | Some t \<Rightarrow> t) width left o1)
         | _ \<Rightarrow> None)
      else if k = 99 then
        (case args of Num w # as \<Rightarrow> map_option (Pair as) (out_char (ucast w) o1) | _ \<Rightarrow> None)
      else if k = 100 \<or> k = 105 then
        (case args of
           Num w # as \<Rightarrow>
             (let v = signed_arg longs w; neg = sint v < 0
              in map_option (Pair as) (out_number (if neg then - v else v) 10 neg False width zero left o1))
         | _ \<Rightarrow> None)
      else if k = 117 then
        (case args of
           Num w # as \<Rightarrow> map_option (Pair as)
             (out_number (unsigned_arg longs w) 10 False False width zero left o1)
         | _ \<Rightarrow> None)
      else if k = 120 \<or> k = 88 then
        (case args of
           Num w # as \<Rightarrow> map_option (Pair as)
             (out_number (unsigned_arg longs w) 16 False (k = 88) width zero left o1)
         | _ \<Rightarrow> None)
      else if k = 112 then
        (case args of
           Num w # as \<Rightarrow> map_option (Pair as)
             (out_char 48 o1 \<bind> out_char 120 \<bind> out_number w 16 False False 16 True False)
         | _ \<Rightarrow> None)
      else if k = 37 then map_option (Pair args) (out_char 37 o1)
      else map_option (Pair args) (out_char 37 o1 \<bind> out_char k))"

lemma parse_flags_length: "parse_flags l z cs = (l', z', cs') \<Longrightarrow> length cs' \<le> length cs"
  by (induction l z cs rule: parse_flags.induct) (auto split: if_splits)

lemma parse_width_length: "parse_width w cs = (w', cs') \<Longrightarrow> length cs' \<le> length cs"
  by (induction w cs rule: parse_width.induct) (auto split: if_splits)

lemma parse_longs_length: "parse_longs n cs = (n', cs') \<Longrightarrow> length cs' \<le> length cs"
  by (induction n cs rule: parse_longs.induct) (auto split: if_splits)

text \<open>A directive: its flags, width and size, the conversion character and the format behind it.\<close>

definition directive :: "u8 list \<Rightarrow> (bool \<times> bool \<times> int \<times> nat) \<times> u8 list" where
  "directive f =
     (let (left, zero, f) = parse_flags False False f; (width, f) = parse_width 0 f; (longs, f) = parse_longs 0 f
      in ((left, zero, width, longs), f))"

lemma directive_length: "(d, f') = directive f \<Longrightarrow> length f' \<le> length f"
  by (auto simp: directive_def split: prod.splits
      dest!: parse_flags_length parse_width_length parse_longs_length)

function format_loop :: "u8 list \<Rightarrow> arg list \<Rightarrow> outbuf \<Rightarrow> outbuf option" where
  "format_loop [] args o1 = Some o1"
| "format_loop (c # f) args o1 =
     (if c \<noteq> 37 then out_char c o1 \<bind> format_loop f args
      else case directive f of
        (d, []) \<Rightarrow> out_char 37 o1
      | ((left, zero, width, longs), k # f) \<Rightarrow>
          convert k left zero width longs args o1 \<bind> (\<lambda>(args, o1). format_loop f args o1))"
  by pat_completeness auto
termination
  by (relation "measure (\<lambda>(f, as, o1). length f)") (auto dest!: directive_length)

text \<open>The result is the returned length (an \<open>int\<close>) and the buffer.\<close>

definition vsnprintf :: "u8 list \<Rightarrow> nat \<Rightarrow> u8 list \<Rightarrow> arg list \<Rightarrow> (nat \<times> u8 list) option" where
  "vsnprintf buf bsize fmt args =
     format_loop fmt args \<lparr>o_buf = buf, o_size = bsize, o_pos = 0\<rparr> \<bind> (\<lambda>o1.
     if bsize = 0 then Some (o_pos o1, o_buf o1)
     else
       let i = (if o_pos o1 < bsize - 1 then o_pos o1 else bsize - 1)
       in if i < length (o_buf o1) then Some (o_pos o1, (o_buf o1)[i := 0]) else None)"

definition c_string :: "u8 list \<Rightarrow> u8 list" where
  "c_string buf = takeWhile (\<lambda>c. c \<noteq> 0) buf"

fun serial_bytes :: "u8 list \<Rightarrow> u8 list" where
  "serial_bytes [] = []"
| "serial_bytes (c # cs) = (if c = 10 then [13, c] else [c]) @ serial_bytes cs"

text \<open>\<open>junk\<close> is what the buffer on the stack held before.\<close>

definition kprintf :: "u8 list \<Rightarrow> u8 list \<Rightarrow> arg list \<Rightarrow> term_state \<Rightarrow> term_state option" where
  "kprintf junk fmt args t =
     vsnprintf junk 512 fmt args \<bind> (\<lambda>(n, buf). Some (serial_out (serial_bytes (c_string buf)) t))"

definition term_printf :: "font \<Rightarrow> u8 list \<Rightarrow> u8 list \<Rightarrow> arg list \<Rightarrow> term_state \<Rightarrow> term_state option" where
  "term_printf f junk fmt args t =
     vsnprintf junk 512 fmt args \<bind> (\<lambda>(n, buf). term_print f (c_string buf) t)"

section \<open>The text a format stands for\<close>

definition pad_text :: "u8 \<Rightarrow> int \<Rightarrow> u8 list" where
  "pad_text c n = replicate (nat n) c"

definition number_text :: "u64 \<Rightarrow> nat \<Rightarrow> bool \<Rightarrow> bool \<Rightarrow> int \<Rightarrow> bool \<Rightarrow> bool \<Rightarrow> u8 list" where
  "number_text v base negative upper width zero left =
     (let ds = rev (number_tmp upper base v negative); pad = width - int (length ds)
      in if left then ds @ pad_text 32 pad else pad_text (if zero then 48 else 32) pad @ ds)"

definition string_text :: "u8 list \<Rightarrow> int \<Rightarrow> bool \<Rightarrow> u8 list" where
  "string_text s width left =
     (let pad = width - int (length s) in if left then s @ pad_text 32 pad else pad_text 32 pad @ s)"

definition convert_text :: "u8 \<Rightarrow> bool \<Rightarrow> bool \<Rightarrow> int \<Rightarrow> nat \<Rightarrow> arg list \<Rightarrow> (arg list \<times> u8 list) option" where
  "convert_text k left zero width longs args =
     (if k = 37 then Some (args, [37])
      else if k \<notin> {115, 99, 100, 105, 117, 120, 88, 112} then Some (args, [37, k])
      else case args of
        [] \<Rightarrow> None
      | Str s # as \<Rightarrow>
          if k = 115 then Some (as, string_text (case s of None \<Rightarrow> null_text | Some t \<Rightarrow> t) width left) else None
      | Num w # as \<Rightarrow>
          if k = 115 then None
          else if k = 99 then Some (as, [ucast w])
          else if k = 100 \<or> k = 105 then
            (let v = signed_arg longs w
             in Some (as, number_text (if sint v < 0 then - v else v) 10 (sint v < 0) False width zero left))
          else if k = 117 then Some (as, number_text (unsigned_arg longs w) 10 False False width zero left)
          else if k = 112 then Some (as, [48, 120] @ number_text w 16 False False 16 True False)
          else Some (as, number_text (unsigned_arg longs w) 16 False (k = 88) width zero left))"

function format_text :: "u8 list \<Rightarrow> arg list \<Rightarrow> u8 list option" where
  "format_text [] args = Some []"
| "format_text (c # f) args =
     (if c \<noteq> 37 then map_option ((#) c) (format_text f args)
      else case directive f of
        (d, []) \<Rightarrow> Some [37]
      | ((left, zero, width, longs), k # f) \<Rightarrow>
          convert_text k left zero width longs args \<bind> (\<lambda>(args, t).
          map_option ((@) t) (format_text f args)))"
  by pat_completeness auto
termination
  by (relation "measure (\<lambda>(f, as). length f)") (auto dest!: directive_length)

text \<open>Writing a text through the buffer: what fits before the last byte is kept.\<close>

definition written :: "u8 list \<Rightarrow> nat \<Rightarrow> u8 list \<Rightarrow> outbuf" where
  "written buf n t = \<lparr>o_buf = take (n - 1) t @ drop (length (take (n - 1) t)) buf, o_size = n, o_pos = length t\<rparr>"

lemma out_char_written:
  assumes "n \<le> length buf"
  shows "out_char c (written buf n t) = Some (written buf n (t @ [c]))"
proof (cases "length t + 1 < n")
  case True
  then have "take (n - 1) t = t" "take (n - 1) (t @ [c]) = t @ [c]" by auto
  moreover have "drop (length t) buf = buf ! length t # drop (Suc (length t)) buf"
    using True assms by (simp add: Cons_nth_drop_Suc)
  ultimately show ?thesis using True assms by (simp add: out_char_def written_def)
next
  case False
  then have "take (n - 1) (t @ [c]) = take (n - 1) t" by simp
  then show ?thesis using False by (simp add: out_char_def written_def)
qed

lemma out_string_written:
  "n \<le> length buf \<Longrightarrow> out_string s (written buf n t) = Some (written buf n (t @ s))"
  unfolding out_string_def by (induction s arbitrary: t) (simp_all add: out_char_written)

lemma out_pad_written:
  assumes "n \<le> length buf"
  shows "out_pad c k (written buf n t) = Some (written buf n (t @ pad_text c k))"
proof -
  have "foldM (\<lambda>_. out_char c) xs (written buf n t) = Some (written buf n (t @ replicate (length xs) c))" for xs :: "nat list"
    by (induction xs arbitrary: t) (simp_all add: out_char_written [OF assms] replicate_append_same)
  from this [of "[0..<nat k]"] show ?thesis by (simp add: out_pad_def pad_text_def)
qed

lemmas written_simps = out_char_written out_string_written out_pad_written

lemma convert_written:
  assumes n: "n \<le> length buf"
  shows "convert k left zero width longs args (written buf n t) =
    map_option (\<lambda>(as, s). (as, written buf n (t @ s))) (convert_text k left zero width longs args)"
proof -
  have num: "out_number v base neg up w z l (written buf n u) = Some (written buf n (u @ number_text v base neg up w z l))"
    for v base neg up w z l u
    by (simp add: out_number_def number_text_def Let_def written_simps [OF n])
  have str: "out_text s w l (written buf n u) = Some (written buf n (u @ string_text s w l))" for s w l u
    by (simp add: out_text_def string_text_def Let_def written_simps [OF n])
  show ?thesis
    by (auto simp: convert_def convert_text_def Let_def num str written_simps [OF n] split: list.splits arg.splits)
qed

lemma format_written:
  assumes n: "n \<le> length buf"
  shows "format_loop fmt args (written buf n t) = map_option (\<lambda>s. written buf n (t @ s)) (format_text fmt args)"
proof (induction "length fmt" arbitrary: fmt args t rule: less_induct)
  case less
  show ?case
  proof (cases fmt)
    case Nil
    then show ?thesis by simp
  next
    case fmt: (Cons c f)
    show ?thesis
    proof (cases "c = 37")
      case False
      have "format_loop f args (written buf n (t @ [c])) = map_option (\<lambda>s. written buf n ((t @ [c]) @ s)) (format_text f args)"
        by (rule less.hyps) (simp add: fmt)
      then show ?thesis using False by (simp add: fmt out_char_written [OF n] option.map_comp comp_def)
    next
      case True
      obtain l z w n2 g where d: "directive f = ((l, z, w, n2), g)" by (cases "directive f") auto
      show ?thesis
      proof (cases g)
        case Nil
        then show ?thesis using True d by (simp add: fmt out_char_written [OF n])
      next
        case (Cons k h)
        have h: "length h < length fmt" using directive_length [OF d [symmetric]] by (simp add: fmt Cons)
        have run: "format_loop fmt args (written buf n t) =
            convert k l z w n2 args (written buf n t) \<bind> (\<lambda>(args, o1). format_loop h args o1)"
          using True d by (simp add: fmt Cons)
        have text_eq: "format_text fmt args = convert_text k l z w n2 args \<bind> (\<lambda>(args, u).
            map_option ((@) u) (format_text h args))"
          using True d by (simp add: fmt Cons)
        show ?thesis unfolding run text_eq convert_written [OF n]
          using less.hyps [OF h] by (cases "convert_text k l z w n2 args") (auto simp: option.map_comp comp_def)
      qed
    qed
  qed
qed

lemma vsnprintf_lemma:
  assumes "n \<le> length buf" "0 < n"
  shows "vsnprintf buf n fmt args = map_option
    (\<lambda>t. (length t, take (n - 1) t @ [0] @ drop (length (take (n - 1) t) + 1) buf)) (format_text fmt args)"
proof -
  have s: "\<lparr>o_buf = buf, o_size = n, o_pos = 0\<rparr> = written buf n []" by (simp add: written_def)
  show ?thesis
  proof (cases "format_text fmt args")
    case None
    then show ?thesis unfolding vsnprintf_def s format_written [OF assms(1)] by simp
  next
    case (Some t)
    define u where "u = take (n - 1) t"
    have i: "length u < length buf" "(if length t < n - 1 then length t else n - 1) = length u"
      using assms by (auto simp: u_def)
    have "(u @ drop (length u) buf)[length u := 0] = u @ [0] @ drop (length u + 1) buf"
      using i(1) by (simp add: list_update_append Cons_nth_drop_Suc [symmetric])
    moreover have "length (u @ drop (length u) buf) = length buf" using i(1) by simp
    moreover have sel: "o_pos (written buf n t) = length t" "o_buf (written buf n t) = u @ drop (length u) buf"
      by (simp_all add: written_def u_def)
    have "vsnprintf buf n fmt args = (if length u < length (u @ drop (length u) buf)
        then Some (length t, (u @ drop (length u) buf)[length u := 0]) else None)"
      unfolding vsnprintf_def s format_written [OF assms(1)] Some option.map(2) bind.bind_lunit append_Nil Let_def sel i(2)
      using assms(2) by simp
    ultimately have "vsnprintf buf n fmt args = Some (length t, u @ [0] @ drop (length u + 1) buf)"
      using i(1) by simp
    then show ?thesis unfolding Some option.map(2) u_def .
  qed
qed


section \<open>Reading numbers back\<close>

definition digit_value :: "u8 \<Rightarrow> nat" where
  "digit_value c = (if c \<le> 57 then unat c - 48 else if c \<ge> 97 then unat c - 87 else unat c - 55)"

definition text_value :: "nat \<Rightarrow> u8 list \<Rightarrow> nat" where
  "text_value base cs = foldl (\<lambda>a c. a * base + digit_value c) 0 cs"

lemma digit_round_trip: "d < 16 \<Longrightarrow> digit_value (digit_char upper d) = d"
proof -
  assume "d < 16"
  then have "d = 0 \<or> d = 1 \<or> d = 2 \<or> d = 3 \<or> d = 4 \<or> d = 5 \<or> d = 6 \<or> d = 7 \<or> d = 8 \<or> d = 9 \<or>
    d = 10 \<or> d = 11 \<or> d = 12 \<or> d = 13 \<or> d = 14 \<or> d = 15" by arith
  then show ?thesis by (elim disjE) (auto simp: digit_value_def digit_char_def)
qed

lemma digits_value:
  assumes "2 \<le> base" "base \<le> 16"
  shows "text_value base (rev (digits_rev upper base v)) = v"
proof (induction v rule: less_induct)
  case (less v)
  show ?case
  proof (cases "v = 0")
    case True
    then show ?thesis by (simp add: text_value_def)
  next
    case False
    then have "v div base < v" using assms(1) by simp
    then have IH: "text_value base (rev (digits_rev upper base (v div base))) = v div base" by (rule less.IH)
    have d: "digit_value (digit_char upper (v mod base)) = v mod base"
      using assms by (intro digit_round_trip) (use mod_less_divisor [of base v] in linarith)
    have "digits_rev upper base v = digit_char upper (v mod base) # digits_rev upper base (v div base)"
      using False assms(1) by (subst digits_rev.simps) simp
    then show ?thesis using IH d by (simp add: text_value_def)
  qed
qed

section \<open>Properties\<close>

lemma sample_digits: "digits_rev False 10 42 = [50, 52]"
  by (simp add: digits_rev.simps [of False 10 42] digits_rev.simps [of False 10 4] digit_char_def)

lemma sample_number_tmp: "number_tmp False 10 42 neg = [50, 52] @ (if neg then [45] else [])"
  by (simp add: number_tmp_def sample_digits)

lemma sample_padding: "pad_text c 2 = [c, c]" "pad_text c 3 = [c, c, c]"
  by (simp_all add: pad_text_def numeral_2_eq_2 numeral_3_eq_3)

text \<open>
  C22: \<open>vsnprintf\<close> writes the text the format stands for and nothing else: the caller's buffer holds it,
  cut at its size minus one and closed by a NUL, bytes behind that are untouched, and the result is
  the full length; it fails only for arguments that do not match the format.
\<close>

theorem vsnprintf_formats:
  assumes "n \<le> length buf" "0 < n"
  shows "vsnprintf buf n fmt args = map_option
    (\<lambda>t. (length t, take (n - 1) t @ [0] @ drop (length (take (n - 1) t) + 1) buf)) (format_text fmt args)"
  by (rule vsnprintf_lemma [OF assms])

theorem vsnprintf_formats_witness:
  "vsnprintf [9, 9, 9, 9, 9, 9, 9, 9] 8 [97, 37, 53, 100, 33] [Num 42] = Some (7, [97, 32, 32, 32, 52, 50, 33, 0]) \<and>
   vsnprintf [9, 9, 9, 9, 9] 4 [97, 37, 53, 100, 33] [Num 42] = Some (7, [97, 32, 32, 0, 9])"
proof -
  have "signed_arg 0 42 = 42" by (simp add: signed_arg_def)
  moreover have "number_text 42 10 False False 5 False False = [32, 32, 32, 52, 50]"
    by (simp add: number_text_def sample_number_tmp sample_padding)
  moreover have "directive [53, 100, 33] = ((False, False, 5, 0), [100, 33])" by (simp add: directive_def)
  ultimately have "format_text [97, 37, 53, 100, 33] [Num 42] = Some [97, 32, 32, 32, 52, 50, 33]"
    by (simp add: convert_text_def)
  then show ?thesis
    using vsnprintf_formats [of 8 "[9, 9, 9, 9, 9, 9, 9, 9]" "[97, 37, 53, 100, 33]" "[Num 42]"]
      vsnprintf_formats [of 4 "[9, 9, 9, 9, 9]" "[97, 37, 53, 100, 33]" "[Num 42]"] by simp
qed

text \<open>
  The digits of a number read back to it in its base, for decimal and both spellings of
  hexadecimal; a number takes at most 20 digits and a sign, so that the temporary buffer of 32 bytes
  is never overrun.
\<close>

theorem number_digits_read_back:
  assumes "base = 10 \<or> base = 16" "v \<noteq> 0"
  shows "text_value base (rev (number_tmp upper base v False)) = unat v \<and>
    length (number_tmp upper base v negative) \<le> 21"
proof -
  have b: "2 \<le> base" "base \<le> 16" "10 \<le> base" using assms(1) by auto
  have "length (digits_rev upper base n) \<le> k" if "n < 10 ^ k" for n k
    using that
  proof (induction k arbitrary: n)
    case 0
    then show ?case by simp
  next
    case (Suc k)
    have "n div base \<le> n div 10" using b by (intro div_le_mono2) auto
    also have "\<dots> < 10 ^ k" using Suc.prems by (simp add: less_mult_imp_div_less mult.commute)
    finally show ?case using Suc.IH by (subst digits_rev.simps) simp
  qed
  then have "length (digits_rev upper base (unat v)) \<le> 20"
    using unat_less_2p [of v] by simp
  then show ?thesis using digits_value [OF b(1,2), of upper "unat v"] assms(2) by (simp add: number_tmp_def)
qed

theorem number_digits_read_back_witness:
  "text_value 16 (rev (number_tmp True 16 48879 False)) = 48879"
  using number_digits_read_back [of 16 48879 True] by simp

text \<open>Zero padding goes before the sign: \<open>%05d\<close> prints -42 as 00-42.\<close>

lemma zero_pad_before_sign: "number_text 42 10 True False 5 True False = [48, 48, 45, 52, 50]"
  by (simp add: number_text_def sample_number_tmp sample_padding)

end
