(* ===== verification/Pong.thy ===== *)
theory Pong
  imports Keyboard Framebuffer Strings
begin

text \<open>
  The game of \<open>pong.c\<close> on top of the keyboard and the frame buffer. Positions are C ints that stay
  small, so they are integers. The main loop runs against a list of polls: the clock reading of one
  turn and the scan codes that arrived before it.
\<close>

section \<open>State and rules\<close>

record pong =
  player_y :: int
  ai_y :: int
  ball_x :: int
  ball_y :: int
  ball_dx :: int
  ball_dy :: int
  screen_width :: int
  screen_height :: int
  player_score :: int
  ai_score :: int
  kill_sig :: bool

definition pong_start :: pong where
  "pong_start = \<lparr>player_y = 0, ai_y = 0, ball_x = 0, ball_y = 0, ball_dx = 10, ball_dy = 8,
     screen_width = 0, screen_height = 0, player_score = 0, ai_score = 0, kill_sig = False\<rparr>"

definition pong_reset_ball :: "pong \<Rightarrow> pong" where
  "pong_reset_ball s = s\<lparr>ball_x := screen_width s div 2 - 4, ball_y := screen_height s div 2 - 4,
     ball_dx := (if ball_dx s > 0 then - 10 else 10), ball_dy := 8\<rparr>"

definition pong_reset :: "pong \<Rightarrow> pong" where
  "pong_reset s = (pong_reset_ball (s\<lparr>player_y := screen_height s div 2 - 30, ai_y := screen_height s div 2 - 30,
     player_score := 0, ai_score := 0\<rparr>))\<lparr>kill_sig := False\<rparr>"

definition move_paddles :: "key \<Rightarrow> pong \<Rightarrow> pong" where
  "move_paddles k s =
     (let s = (if k = KW then s\<lparr>player_y := player_y s - 15\<rparr>
               else if k = KS then s\<lparr>player_y := player_y s + 15\<rparr> else s);
          s = (if ball_y s < ai_y s + 30 then s\<lparr>ai_y := ai_y s - 10\<rparr> else s\<lparr>ai_y := ai_y s + 10\<rparr>);
          s = (if player_y s < 0 then s\<lparr>player_y := 0\<rparr> else s);
          s = (if player_y s > screen_height s - 60 then s\<lparr>player_y := screen_height s - 60\<rparr> else s);
          s = (if ai_y s < 0 then s\<lparr>ai_y := 0\<rparr> else s)
      in if ai_y s > screen_height s - 60 then s\<lparr>ai_y := screen_height s - 60\<rparr> else s)"

definition move_ball :: "pong \<Rightarrow> pong" where
  "move_ball s =
     (let s = s\<lparr>ball_x := ball_x s + ball_dx s, ball_y := ball_y s + ball_dy s\<rparr>
      in if ball_y s \<le> 0 \<or> ball_y s \<ge> screen_height s - 8 then s\<lparr>ball_dy := - ball_dy s\<rparr> else s)"

definition hit_paddles :: "pong \<Rightarrow> pong" where
  "hit_paddles s =
     (let s = (if ball_x s \<le> 10 \<and> ball_y s + 8 \<ge> player_y s \<and> ball_y s \<le> player_y s + 60
               then s\<lparr>ball_dx := - ball_dx s, ball_x := 10\<rparr> else s)
      in if ball_x s \<ge> screen_width s - 18 \<and> ball_y s + 8 \<ge> ai_y s \<and> ball_y s \<le> ai_y s + 60
         then s\<lparr>ball_dx := - ball_dx s, ball_x := screen_width s - 18\<rparr> else s)"

definition score :: "pong \<Rightarrow> pong" where
  "score s =
     (if ball_x s < 0 then pong_reset_ball (s\<lparr>ai_score := ai_score s + 1\<rparr>)
      else if ball_x s > screen_width s then pong_reset_ball (s\<lparr>player_score := player_score s + 1\<rparr>)
      else s)"

definition pong_update :: "kbd \<Rightarrow> pong \<Rightarrow> pong \<times> kbd" where
  "pong_update k s =
     (case keyboard_get_key k of (key, k) \<Rightarrow>
        if key = ESCAPE then (s\<lparr>kill_sig := True\<rparr>, k)
        else (score (hit_paddles (move_ball (move_paddles key s))), k))"

section \<open>Drawing\<close>

text \<open>Coordinates are passed as 64-bit unsigned numbers.\<close>

definition draw_score :: "font \<Rightarrow> int \<Rightarrow> int \<Rightarrow> u8 list \<Rightarrow> framebuffer \<Rightarrow> (framebuffer \<times> u8 list) option" where
  "draw_score f n x buf fb =
     to_string (of_int n) buf \<bind> (\<lambda>buf.
     framebuffer_put_string f (takeWhile (\<lambda>c. c \<noteq> 0) buf) (of_int x div f_width f) 2 0xFFFFFF 0 fb \<bind>
       (\<lambda>fb. Some (fb, buf)))"

definition pong_render :: "font \<Rightarrow> u8 list \<Rightarrow> pong \<Rightarrow> framebuffer \<Rightarrow> framebuffer option" where
  "pong_render f score_buf s fb =
     framebuffer_clear 0 fb \<bind>
     framebuffer_draw_rect 0 (of_int (player_y s)) 10 60 0xFFFFFF \<bind>
     framebuffer_draw_rect (of_int (screen_width s - 10)) (of_int (ai_y s)) 10 60 0xFFFFFF \<bind>
     framebuffer_draw_rect (of_int (ball_x s)) (of_int (ball_y s)) 8 8 0xFFFFFF \<bind>
     draw_score f (player_score s) (screen_width s div 4) score_buf \<bind> (\<lambda>(fb, buf).
     draw_score f (ai_score s) (3 * screen_width s div 4) buf fb \<bind> (\<lambda>(fb, buf).
     framebuffer_swap fb))"

section \<open>The main loop\<close>

text \<open>The first result tells whether the game has ended.\<close>

primrec pong_loop :: "font \<Rightarrow> u8 list \<Rightarrow> (u64 \<times> u8 list) list \<Rightarrow> u64 \<Rightarrow> pong \<Rightarrow> kbd \<Rightarrow> framebuffer \<Rightarrow>
    (bool \<times> pong \<times> kbd \<times> framebuffer) option" where
  "pong_loop f buf [] start s k fb = Some (False, s, k, fb)"
| "pong_loop f buf (p # ps) start s k fb =
     (case p of (now, scs) \<Rightarrow>
        if kill_sig s then Some (True, s, k, framebuffer_set_double_buffer (\<lambda>_. None) False fb)
        else
          let k = fold keyboard_handler scs k
          in if now - start \<ge> 40 then
               (case pong_update k s of (s, k) \<Rightarrow>
                  pong_render f buf s fb \<bind> pong_loop f buf ps now s k)
             else pong_loop f buf ps start s k fb)"

definition pong_init :: "(u64 \<Rightarrow> u32 list option) \<Rightarrow> font \<Rightarrow> u8 list \<Rightarrow> u64 \<Rightarrow> (u64 \<times> u8 list) list \<Rightarrow> pong \<Rightarrow> kbd \<Rightarrow>
    framebuffer \<Rightarrow> (bool \<times> pong \<times> kbd \<times> framebuffer) option" where
  "pong_init alloc f buf now polls s k fb =
     (let s = pong_reset (s\<lparr>screen_width := sint (ucast (fb_width fb) :: u32),
                            screen_height := sint (ucast (fb_height fb) :: u32)\<rparr>)
      in framebuffer_clear 0 (framebuffer_set_double_buffer alloc True fb) \<bind> pong_loop f buf polls now s k)"

section \<open>Everything stays on the screen\<close>

text \<open>
  The paddles are inside the screen, the ball's left edge is inside it and at least one line of the ball,
  and the ball is never stuck: below the upper edge it moves down, at the lower edge it moves up.
\<close>

definition pong_inv :: "pong \<Rightarrow> bool" where
  [inv_simps]: "pong_inv s \<longleftrightarrow> 60 \<le> screen_height s \<and> 40 \<le> screen_width s \<and>
     0 \<le> player_y s \<and> player_y s \<le> screen_height s - 60 \<and> 0 \<le> ai_y s \<and> ai_y s \<le> screen_height s - 60 \<and>
     0 \<le> ball_x s \<and> ball_x s \<le> screen_width s \<and> - 8 < ball_y s \<and> ball_y s < screen_height s \<and>
     (ball_dx s = 10 \<or> ball_dx s = - 10) \<and>
     (ball_dy s = 8 \<and> ball_y s < screen_height s - 8 \<or> ball_dy s = - 8 \<and> 0 < ball_y s)"

definition paddles_ok :: "pong \<Rightarrow> bool" where
  "paddles_ok s \<longleftrightarrow> 0 \<le> player_y s \<and> player_y s \<le> screen_height s - 60 \<and> 0 \<le> ai_y s \<and> ai_y s \<le> screen_height s - 60"

lemma move_paddles_ok:
  assumes "60 \<le> screen_height s"
  shows "paddles_ok (move_paddles k s)"
    and "ball_x (move_paddles k s) = ball_x s" "ball_y (move_paddles k s) = ball_y s"
    and "ball_dx (move_paddles k s) = ball_dx s" "ball_dy (move_paddles k s) = ball_dy s"
    and "screen_width (move_paddles k s) = screen_width s" "screen_height (move_paddles k s) = screen_height s"
    and "player_score (move_paddles k s) = player_score s" "ai_score (move_paddles k s) = ai_score s"
  using assms by (simp_all add: move_paddles_def paddles_ok_def Let_def)

text \<open>Between the moves of one step the ball may be a little outside at the sides.\<close>

definition in_play :: "pong \<Rightarrow> bool" where
  "in_play s \<longleftrightarrow> 60 \<le> screen_height s \<and> 40 \<le> screen_width s \<and> paddles_ok s \<and>
     - 10 \<le> ball_x s \<and> ball_x s \<le> screen_width s + 10 \<and> - 8 < ball_y s \<and> ball_y s < screen_height s \<and>
     (ball_dx s = 10 \<or> ball_dx s = - 10) \<and>
     (ball_dy s = 8 \<and> ball_y s < screen_height s - 8 \<or> ball_dy s = - 8 \<and> 0 < ball_y s)"

lemma move_ball_in_play: "pong_inv s \<Longrightarrow> in_play (move_ball (move_paddles k s))"
  using move_paddles_ok [of s k]
  by (auto simp: pong_inv_def in_play_def move_ball_def paddles_ok_def Let_def)

lemma hit_paddles_in_play: "in_play s \<Longrightarrow> in_play (hit_paddles s)"
  by (auto simp: in_play_def hit_paddles_def paddles_ok_def Let_def)

lemma score_inv: "in_play s \<Longrightarrow> pong_inv (score s)"
  by (auto simp: in_play_def pong_inv_def score_def pong_reset_ball_def paddles_ok_def)

lemma scores_kept:
  "player_score (move_ball s) = player_score s" "ai_score (move_ball s) = ai_score s"
  "player_score (hit_paddles s) = player_score s" "ai_score (hit_paddles s) = ai_score s"
  "screen_width (move_ball s) = screen_width s" "screen_height (move_ball s) = screen_height s"
  "screen_width (hit_paddles s) = screen_width s" "screen_height (hit_paddles s) = screen_height s"
  by (simp_all add: move_ball_def hit_paddles_def Let_def)

text \<open>
  One step of the game keeps the paddles and the ball on the screen and the ball moving. On a
  screen of at least 40 by 60 pixels and for every key, the invariant is kept, and the sum of the
  scores is the same or one more; it is one more only when the ball was played out at a side and is
  back in the middle.
\<close>

theorem pong_stays_on_screen:
  assumes "pong_inv s" "pong_update k s = (t, k')"
  shows "pong_inv t \<and>
    (player_score t + ai_score t = player_score s + ai_score s \<or>
     player_score t + ai_score t = player_score s + ai_score s + 1 \<and>
     ball_x t = screen_width s div 2 - 4 \<and> ball_y t = screen_height s div 2 - 4)"
proof -
  obtain key k1 where k: "keyboard_get_key k = (key, k1)" by fastforce
  have h: "60 \<le> screen_height s" using assms(1) by (simp add: pong_inv_def)
  show ?thesis
  proof (cases "key = ESCAPE")
    case True
    with assms k show ?thesis by (auto simp: pong_update_def pong_inv_def)
  next
    case False
    let ?m = "hit_paddles (move_ball (move_paddles key s))"
    have t: "t = score ?m" using assms(2) k False by (simp add: pong_update_def)
    have "pong_inv t" unfolding t
      by (intro score_inv hit_paddles_in_play move_ball_in_play assms(1))
    then show ?thesis
      unfolding t by (simp add: score_def pong_reset_ball_def scores_kept move_paddles_ok [OF h])
  qed
qed

theorem pong_stays_on_screen_witness:
  "pong_inv (fst (pong_update kbd_start (pong_reset (pong_start\<lparr>screen_width := 640, screen_height := 480\<rparr>))))"
proof -
  let ?s = "pong_reset (pong_start\<lparr>screen_width := 640, screen_height := 480\<rparr>)"
  have "pong_inv ?s" by (simp add: pong_reset_def pong_reset_ball_def pong_start_def pong_inv_def)
  then show ?thesis using pong_stays_on_screen [of ?s kbd_start] by (cases "pong_update kbd_start ?s") simp
qed

end
