(* ===== verification/Snake.thy ===== *)
theory Snake
  imports Keyboard Framebuffer
begin

text \<open>
  The game of \<open>snake.c\<close>. The body is an array of pairs of bytes; \<open>None\<close> is an access outside of it.
  The main loop runs against a list of polls: the clock reading of one turn, the scan codes that
  arrived before it and the answer of \<open>realloc\<close>, should this turn ask for more room.
\<close>

section \<open>State\<close>

datatype direction = UP | DOWN | LEFT | RIGHT

text \<open>The empty list stands for the array before the first game, a null pointer.\<close>

record snake =
  body :: "(u8 \<times> u8) list"
  snake_capacity :: u64
  direction :: direction
  snake_size :: u64
  apple_x :: u64
  apple_y :: u64
  just_ate_apple :: bool
  kill_sig :: bool
  rng_seed :: u32
  tail_x :: u64
  tail_y :: u64

definition snake_start :: snake where
  "snake_start = \<lparr>body = [], snake_capacity = 100, direction = DOWN, snake_size = 1, apple_x = 5, apple_y = 5,
     just_ate_apple = False, kill_sig = False, rng_seed = 12345, tail_x = 0, tail_y = 0\<rparr>"

definition get_random :: "snake \<Rightarrow> u32 \<times> snake" where
  "get_random s = (let r = rng_seed s * 1664525 + 1013904223 in (r, s\<lparr>rng_seed := r\<rparr>))"

text \<open>The number of grid cells in a direction: a byte, and at least one.\<close>

definition grid_cells :: "u64 \<Rightarrow> u8" where
  "grid_cells pixels = (let m = ucast (pixels div 20) in if m = 0 then 1 else m)"

definition place_apple :: "framebuffer \<Rightarrow> snake \<Rightarrow> snake" where
  "place_apple fb s =
     (let (r, s) = get_random s; s = s\<lparr>apple_x := ucast (r mod ucast (grid_cells (fb_width fb)))\<rparr>;
          (r, s) = get_random s
      in s\<lparr>apple_y := ucast (r mod ucast (grid_cells (fb_height fb)))\<rparr>)"

definition snake_reset :: "framebuffer \<Rightarrow> snake \<Rightarrow> snake option" where
  "snake_reset fb s =
     (if body s = [] then None
      else Some (place_apple fb (s\<lparr>direction := DOWN, snake_size := 1, kill_sig := False, just_ate_apple := False,
        body := (body s)[0 := (5, 5)]\<rparr>)))"

section \<open>One step\<close>

text \<open>
  Room for another segment: \<open>extra\<close> is the answer of \<open>realloc\<close>, the entries the new block has behind
  the old contents, or \<open>None\<close> for a null pointer.
\<close>

definition grow :: "(u8 \<times> u8) list option \<Rightarrow> snake \<Rightarrow> snake option" where
  "grow extra s =
     (let s = (if snake_size s \<ge> snake_capacity s then
                 case extra of
                   Some es \<Rightarrow> s\<lparr>snake_capacity := snake_capacity s * 2, body := body s @ es\<rparr>
                 | None \<Rightarrow> s
               else s)
      in if snake_size s < snake_capacity s then
           if unat (snake_size s) < length (body s) then
             Some (s\<lparr>snake_size := snake_size s + 1,
               body := (body s)[unat (snake_size s) := (ucast (tail_x s), ucast (tail_y s))]\<rparr>)
           else None
         else Some s)"

text \<open>The loop that moves every segment to the place of the one before it, from index \<open>i\<close> down.\<close>

primrec shift_body :: "nat \<Rightarrow> (u8 \<times> u8) list \<Rightarrow> (u8 \<times> u8) list option" where
  "shift_body 0 b = Some b"
| "shift_body (Suc i) b = (if Suc i < length b then shift_body i (b[Suc i := b ! i]) else None)"

definition turn :: "key \<Rightarrow> direction \<Rightarrow> direction" where
  "turn k d =
     (if k = KA \<and> d \<noteq> RIGHT then LEFT
      else if k = KD \<and> d \<noteq> LEFT then RIGHT
      else if k = KW \<and> d \<noteq> DOWN then UP
      else if k = KS \<and> d \<noteq> UP then DOWN
      else d)"

definition move_head :: "direction \<Rightarrow> u8 \<Rightarrow> u8 \<Rightarrow> u8 \<times> u8 \<Rightarrow> u8 \<times> u8" where
  "move_head d max_x max_y p =
     (let (x, y) = p;
          x = (if d = LEFT then x - 1 else if d = RIGHT then x + 1 else x);
          y = (if d = UP then y - 1 else if d = DOWN then y + 1 else y)
      in (if x \<ge> max_x then if d = LEFT then max_x - 1 else 0 else x,
          if y \<ge> max_y then if d = UP then max_y - 1 else 0 else y))"

text \<open>The index of the shifting loop is a byte.\<close>

definition snake_update :: "framebuffer \<Rightarrow> (u8 \<times> u8) list option \<Rightarrow> kbd \<Rightarrow> snake \<Rightarrow> (snake \<times> kbd) option" where
  "snake_update fb extra k s =
     (let max_x = grid_cells (fb_width fb); max_y = grid_cells (fb_height fb); last = unat (snake_size s - 1)
      in if last \<ge> length (body s) then None
         else
           let tail = body s ! last
           in (if just_ate_apple s then map_option (\<lambda>s. s\<lparr>just_ate_apple := False\<rparr>) (grow extra s) else Some s) \<bind> (\<lambda>s.
              shift_body (unat (ucast (snake_size s - 1) :: u8)) (body s) \<bind> (\<lambda>b.
              case keyboard_get_key k of (key, k) \<Rightarrow>
                if key = ESCAPE then Some (s\<lparr>body := b, kill_sig := True\<rparr>, k)
                else
                  let d = turn key (direction s); b = b[0 := move_head d max_x max_y (b ! 0)];
                      s = s\<lparr>body := b, direction := d\<rparr>
                  in if unat (snake_size s) \<le> length b then
                       if list_ex (\<lambda>i. b ! i = b ! 0) [1..<unat (snake_size s)]
                       then map_option (\<lambda>s. (s, k)) (snake_reset fb s)
                       else if ucast (fst (b ! 0)) = apple_x s \<and> ucast (snd (b ! 0)) = apple_y s
                       then Some ((place_apple fb s)\<lparr>just_ate_apple := True, tail_x := ucast (fst tail),
                              tail_y := ucast (snd tail)\<rparr>, k)
                       else Some (s, k)
                     else None)))"

section \<open>Drawing and the main loop\<close>

definition snake_render :: "snake \<Rightarrow> framebuffer \<Rightarrow> framebuffer option" where
  "snake_render s fb =
     framebuffer_clear 0 fb \<bind>
     foldM (\<lambda>i fb. if i < length (body s) then
         framebuffer_draw_rect (ucast (fst (body s ! i)) * 20 + 2) (ucast (snd (body s ! i)) * 20 + 2) 16 16 0xFFFFFF fb
       else None) [0..<unat (snake_size s)] \<bind>
     framebuffer_draw_rect (apple_x s * 20 + 5) (apple_y s * 20 + 5) 10 10 0xFF0000 \<bind>
     framebuffer_swap"

primrec snake_loop :: "(u64 \<times> u8 list \<times> (u8 \<times> u8) list option) list \<Rightarrow> u64 \<Rightarrow> snake \<Rightarrow> kbd \<Rightarrow> framebuffer \<Rightarrow>
    (bool \<times> snake \<times> kbd \<times> framebuffer) option" where
  "snake_loop [] start s k fb = Some (False, s, k, fb)"
| "snake_loop (p # ps) start s k fb =
     (case p of (now, scs, extra) \<Rightarrow>
        if kill_sig s then Some (True, s, k, framebuffer_set_double_buffer (\<lambda>_. None) False fb)
        else
          let k = fold keyboard_handler scs k
          in if now - start \<ge> 110 then
               snake_update fb extra k s \<bind> (\<lambda>(s, k). snake_render s fb \<bind> snake_loop ps now s k)
             else snake_loop ps start s k fb)"

text \<open>\<open>block\<close> is what \<open>malloc\<close> answers when the array has not been allocated yet.\<close>

definition snake_init :: "(u8 \<times> u8) list option \<Rightarrow> (u64 \<Rightarrow> u32 list option) \<Rightarrow> u64 \<Rightarrow>
    (u64 \<times> u8 list \<times> (u8 \<times> u8) list option) list \<Rightarrow> snake \<Rightarrow> kbd \<Rightarrow> framebuffer \<Rightarrow>
    (bool \<times> snake \<times> kbd \<times> framebuffer) option" where
  "snake_init block alloc now polls s k fb =
     (let s = (if body s = [] then s\<lparr>snake_capacity := 100, body := (case block of Some b \<Rightarrow> b | None \<Rightarrow> [])\<rparr> else s)
      in if body s = [] then Some (True, s, k, fb)
         else
           let s = s\<lparr>rng_seed := (if ucast now = (0 :: u32) then 12345 else ucast now)\<rparr>
           in snake_reset fb s \<bind> (\<lambda>s.
              framebuffer_clear 0 (framebuffer_set_double_buffer alloc True fb) \<bind> snake_loop polls now s k))"

section \<open>The snake stays on the grid\<close>

definition on_grid :: "framebuffer \<Rightarrow> u8 \<times> u8 \<Rightarrow> bool" where
  "on_grid fb p \<longleftrightarrow> fst p < grid_cells (fb_width fb) \<and> snd p < grid_cells (fb_height fb)"

definition snake_inv :: "framebuffer \<Rightarrow> snake \<Rightarrow> bool" where
  [inv_simps]: "snake_inv fb s \<longleftrightarrow> length (body s) = unat (snake_capacity s) \<and> 1 \<le> unat (snake_size s) \<and>
     unat (snake_size s) \<le> length (body s) \<and> (\<forall>i<unat (snake_size s). on_grid fb (body s ! i)) \<and>
     (just_ate_apple s \<longrightarrow> on_grid fb (ucast (tail_x s), ucast (tail_y s)))"

lemma grid_cells_pos: "0 < grid_cells p"
  by (simp add: grid_cells_def Let_def word_neq_0_conv)

lemma move_head_grid: "on_grid fb (move_head d (grid_cells (fb_width fb)) (grid_cells (fb_height fb)) p)"
proof -
  have "m - 1 < m" if "0 < m" for m :: u8
    using that by (metis word_less_1 word_le_less_eq measure_unat word_not_simps(1) less_irrefl word_less_sub1
        word_neq_0_conv unsigned_less word_less_nat_alt diff_less)
  then show ?thesis using grid_cells_pos
    by (auto simp: on_grid_def move_head_def Let_def not_le split: prod.splits)
qed
lemma shift_body_some:
  "j < length b \<Longrightarrow> \<exists>b'. shift_body j b = Some b' \<and> length b' = length b \<and>
    (\<forall>i. b' ! i = (if 1 \<le> i \<and> i \<le> j then b ! (i - 1) else b ! i))"
proof (induction j arbitrary: b)
  case (Suc j)
  let ?a = "b[Suc j := b ! j]"
  obtain b' where b': "shift_body j ?a = Some b'" "length b' = length ?a"
    "\<And>i. b' ! i = (if 1 \<le> i \<and> i \<le> j then ?a ! (i - 1) else ?a ! i)"
    using Suc.IH [of ?a] Suc.prems by auto
  have "b' ! i = (if 1 \<le> i \<and> i \<le> Suc j then b ! (i - 1) else b ! i)" for i
  proof -
    consider "1 \<le> i" "i \<le> j" | "i = Suc j" | "i = 0" | "Suc j < i" by linarith
    then show ?thesis using b'(3) [of i] Suc.prems by cases auto
  qed
  with b' Suc.prems show ?case by auto
qed simp

lemma byte_index: "unat (ucast (n :: u64) :: u8) = unat n mod 256"
  by (simp add: unsigned_ucast_eq take_bit_eq_mod)

text \<open>Growing adds one segment at the remembered tail, or none when there is no room.\<close>

lemma grow_inv:
  assumes inv: "snake_inv fb s" and tail: "on_grid fb (ucast (tail_x s), ucast (tail_y s))"
    and room: "2 * unat (snake_capacity s) < 2 ^ 64"
    and extra: "\<forall>es. extra = Some es \<longrightarrow> length es = unat (snake_capacity s)"
  shows "\<exists>t. grow extra s = Some t \<and> snake_inv fb t \<and> direction t = direction s \<and>
    (snake_size t = snake_size s \<or> unat (snake_size t) = unat (snake_size s) + 1) \<and>
    (\<forall>i<unat (snake_size s). body t ! i = body s ! i)"
proof -
  define t where "t = (if snake_size s \<ge> snake_capacity s then case extra of
      Some es \<Rightarrow> s\<lparr>snake_capacity := snake_capacity s * 2, body := body s @ es\<rparr> | None \<Rightarrow> s else s)"
  have dbl: "unat (snake_capacity s * 2) = 2 * unat (snake_capacity s)"
    using room by (simp add: unat_word_ariths)
  have t: "snake_inv fb t" "direction t = direction s" "snake_size t = snake_size s"
    "tail_x t = tail_x s" "tail_y t = tail_y s" "\<forall>i<unat (snake_size s). body t ! i = body s ! i"
    using inv extra dbl by (auto simp: t_def snake_inv_def nth_append split: option.splits)
  have g: "grow extra s = (if snake_size t < snake_capacity t then
      if unat (snake_size t) < length (body t) then Some (t\<lparr>snake_size := snake_size t + 1,
        body := (body t)[unat (snake_size t) := (ucast (tail_x t), ucast (tail_y t))]\<rparr>) else None else Some t)"
    by (simp add: grow_def t_def Let_def)
  show ?thesis
  proof (cases "snake_size t < snake_capacity t")
    case True
    then have lt: "unat (snake_size t) < length (body t)" using t(1) by (simp add: snake_inv_def word_less_nat_alt)
    have suc: "unat (snake_size t + 1) = unat (snake_size t) + 1"
      using True unat_less_2p [of "snake_capacity t"] by (subst unat_plus_small) (simp_all add: word_less_nat_alt)
    let ?u = "t\<lparr>snake_size := snake_size t + 1,
        body := (body t)[unat (snake_size t) := (ucast (tail_x t), ucast (tail_y t))]\<rparr>"
    have "grow extra s = Some ?u" using True lt by (simp add: g)
    moreover have "snake_inv fb ?u"
      using t(1) lt suc tail by (auto simp: snake_inv_def t(4,5) nth_list_update less_Suc_eq)
    ultimately show ?thesis using t suc lt by auto
  next
    case False
    with t show ?thesis by (simp add: g)
  qed
qed

lemma place_apple_kept [simp]:
  "body (place_apple fb s) = body s" "snake_capacity (place_apple fb s) = snake_capacity s"
  "snake_size (place_apple fb s) = snake_size s" "just_ate_apple (place_apple fb s) = just_ate_apple s"
  by (simp_all add: place_apple_def get_random_def Let_def)

text \<open>
  One step of the game on a grid of at least six cells each way. For every key and whether or
  not the array could be enlarged, the step stays inside the array and leaves every segment on the
  grid. Unless the game ended or started over, the snake is as long as before or one longer, and
  each segment behind the head up to the index the loop starts from, which is the last index modulo
  256, is where the segment before it was.
\<close>

theorem snake_update_follows:
  assumes inv: "snake_inv fb s" and centre: "on_grid fb (5, 5)"
    and room: "2 * unat (snake_capacity s) < 2 ^ 64"
    and extra: "\<forall>es. extra = Some es \<longrightarrow> length es = unat (snake_capacity s)"
  shows "\<exists>t k'. snake_update fb extra k s = Some (t, k') \<and> snake_inv fb t \<and>
    (kill_sig t \<or> snake_size t = 1 \<or>
     (snake_size t = snake_size s \<or> unat (snake_size t) = unat (snake_size s) + 1) \<and>
     (\<forall>i. 1 \<le> i \<and> i \<le> (unat (snake_size t) - 1) mod 256 \<longrightarrow> body t ! i = body s ! (i - 1)))"
proof -
  have pos: "1 \<le> unat (snake_size s)" "unat (snake_size s) \<le> length (body s)"
    using inv by (simp_all add: snake_inv_def)
  have minus: "unat (x - 1) = unat x - 1" if "1 \<le> unat x" for x :: u64
    using that by (subst unat_minus_small) (simp_all add: word_le_nat_alt)
  define tl where "tl = body s ! unat (snake_size s - 1)"
  have tl: "on_grid fb tl" "\<not> unat (snake_size s - 1) \<ge> length (body s)"
    using inv pos minus [OF pos(1)] by (auto simp: tl_def snake_inv_def)
  obtain s1 where s1: "(if just_ate_apple s then map_option (\<lambda>s. s\<lparr>just_ate_apple := False\<rparr>) (grow extra s) else Some s) = Some s1"
    "snake_inv fb s1" "\<not> just_ate_apple s1" "snake_size s1 = snake_size s \<or> unat (snake_size s1) = unat (snake_size s) + 1"
    "\<forall>i<unat (snake_size s). body s1 ! i = body s ! i"
  proof (cases "just_ate_apple s")
    case True
    then have "on_grid fb (ucast (tail_x s), ucast (tail_y s))" using inv by (simp add: snake_inv_def)
    from grow_inv [OF inv this room extra] obtain u where u: "grow extra s = Some u" "snake_inv fb u"
      "snake_size u = snake_size s \<or> unat (snake_size u) = unat (snake_size s) + 1"
      "\<forall>i<unat (snake_size s). body u ! i = body s ! i" by blast
    show thesis by (rule that [of "u\<lparr>just_ate_apple := False\<rparr>"]) (use u True in \<open>simp_all add: snake_inv_def\<close>)
  next
    case False
    show thesis by (rule that [of s]) (use inv False in simp_all)
  qed
  define n where "n = unat (snake_size s1)"
  have n: "1 \<le> n" "n \<le> length (body s1)" "\<And>i. i < n \<Longrightarrow> on_grid fb (body s1 ! i)"
    using s1(2) by (simp_all add: snake_inv_def n_def)
  define j where "j = unat (ucast (snake_size s1 - 1) :: u8)"
  have j: "j = (n - 1) mod 256" using minus n(1) by (simp add: j_def byte_index n_def)
  then have "j \<le> n - 1" by simp
  then have "j < length (body s1)" using n by linarith
  then obtain b where b: "shift_body j (body s1) = Some b" "length b = length (body s1)"
    "\<And>i. b ! i = (if 1 \<le> i \<and> i \<le> j then body s1 ! (i - 1) else body s1 ! i)"
    using shift_body_some by blast
  have bg: "on_grid fb (b ! i)" if "i < n" for i
    using b(3) [of i] n(3) [of i] n(3) [of "i - 1"] that by auto
  obtain key k1 where k: "keyboard_get_key k = (key, k1)" by fastforce
  define d where "d = turn key (direction s1)"
  define h where "h = move_head d (grid_cells (fb_width fb)) (grid_cells (fb_height fb)) (b ! 0)"
  define c where "c = b[0 := h]"
  define s2 where "s2 = s1\<lparr>body := c, direction := d\<rparr>"
  have c: "length c = length b" "c ! 0 = h" "\<And>i. 1 \<le> i \<Longrightarrow> c ! i = b ! i" "\<And>i. i < n \<Longrightarrow> on_grid fb (c ! i)"
  proof -
    have b0: "0 < length b" using b(2) n by linarith
    have hg: "on_grid fb h" unfolding h_def by (rule move_head_grid)
    show "length c = length b" "c ! 0 = h" using b0 by (simp_all add: c_def)
    show "c ! i = b ! i" if "1 \<le> i" for i using that by (simp add: c_def)
    show "on_grid fb (c ! i)" if "i < n" for i
      using bg [OF that] hg b0 by (cases "i = 0") (simp_all add: c_def)
  qed
  have upd: "snake_update fb extra k s =
     (if key = ESCAPE then Some (s1\<lparr>body := b, kill_sig := True\<rparr>, k1)
      else if list_ex (\<lambda>i. c ! i = c ! 0) [1..<n] then map_option (\<lambda>s. (s, k1)) (snake_reset fb s2)
      else if ucast (fst (c ! 0)) = apple_x s2 \<and> ucast (snd (c ! 0)) = apple_y s2
      then Some ((place_apple fb s2)\<lparr>just_ate_apple := True, tail_x := ucast (fst tl), tail_y := ucast (snd tl)\<rparr>, k1)
      else Some (s2, k1))"
    using tl(2) s1(1) b(1) k n c(1) b(2)
    by (simp add: snake_update_def Let_def j_def [symmetric] tl_def s2_def c_def h_def d_def n_def)
  have inv2: "snake_inv fb s2" "snake_inv fb (s1\<lparr>body := b, kill_sig := True\<rparr>)"
    using s1(2,3) c b(2) bg by (simp_all add: snake_inv_def s2_def n_def)
  have seg: "body s2 ! i = body s ! (i - 1)" if "1 \<le> i" "i \<le> (n - 1) mod 256" for i
  proof -
    have "i \<le> n - 1" using that(2) by (meson mod_less_eq_dividend order_trans)
    then have "i - 1 < unat (snake_size s)" using s1(4) that(1) n_def by auto
    then show ?thesis using c(3) [OF that(1)] b(3) [of i] that j s1(5) by (simp add: s2_def)
  qed
  show ?thesis
  proof (cases "key = ESCAPE")
    case True
    with upd inv2 show ?thesis by simp
  next
    case esc: False
    show ?thesis
    proof (cases "list_ex (\<lambda>i. c ! i = c ! 0) [1..<n]")
      case True
      have ne: "body s2 \<noteq> []" using inv2(1) by (auto simp: snake_inv_def)
      then have "snake_reset fb s2 = Some (place_apple fb (s2\<lparr>direction := DOWN, snake_size := 1, kill_sig := False,
          just_ate_apple := False, body := (body s2)[0 := (5, 5)]\<rparr>))" by (simp add: snake_reset_def)
      moreover have "snake_inv fb (place_apple fb (s2\<lparr>direction := DOWN, snake_size := 1, kill_sig := False,
          just_ate_apple := False, body := (body s2)[0 := (5, 5)]\<rparr>))"
        using inv2(1) centre ne by (simp add: snake_inv_def Suc_le_eq)
      ultimately show ?thesis using esc True upd by simp
    next
      case False
      let ?a = "(place_apple fb s2)\<lparr>just_ate_apple := True, tail_x := ucast (fst tl), tail_y := ucast (snd tl)\<rparr>"
      have "ucast (ucast x :: u64) = x" for x :: u8 by (rule bit_word_eqI) (simp add: bit_simps)
      then have "snake_inv fb ?a" using inv2(1) tl(1) by (simp add: snake_inv_def on_grid_def)
      moreover have "snake_size s2 = snake_size s1" by (simp add: s2_def)
      ultimately show ?thesis using esc False upd inv2(1) seg s1(4) by (auto simp: n_def)
    qed
  qed
qed

definition small_screen :: framebuffer where
  "small_screen = \<lparr>fb_width = 640, fb_height = 480, fb_pitch = 2560, fb_bpp = 32, vram = [], backbuffer = None,
     use_double = False, back_width = 0, back_height = 0\<rparr>"

theorem snake_update_follows_witness:
  "\<exists>t k'. snake_update small_screen None kbd_start
     (snake_start\<lparr>body := [(5, 5), (5, 4), (0, 0)], snake_capacity := 3, snake_size := 2\<rparr>) = Some (t, k') \<and> snake_inv small_screen t"
proof -
  let ?s = "snake_start\<lparr>body := [(5, 5), (5, 4), (0, 0)], snake_capacity := 3, snake_size := 2\<rparr>"
  have g: "grid_cells 640 = 32" "grid_cells 480 = 24" by (simp_all add: grid_cells_def)
  have "snake_inv small_screen ?s"
    by (auto simp: snake_inv_def snake_start_def on_grid_def small_screen_def g less_2_cases_iff)
  moreover have "on_grid small_screen (5, 5)" by (simp add: on_grid_def small_screen_def g)
  ultimately show ?thesis using snake_update_follows [of small_screen ?s None kbd_start] by auto
qed

end
