(* ===== verification/LlmCommon.thy ===== *)
theory LlmCommon
  imports Strings Interfaces "HOL-Library.Multiset"
begin

text \<open>
  The helpers of \<open>llm\_common.c\<close>: heap sort and binary search on the vocabulary, the sampler and the
  filter for terminal output. Arrays are lists and indices natural numbers; \<open>None\<close> is an access
  outside an array. The floating-point operations of the hardware and of \<open>llm\_math.c\<close> are an
  argument, a record of functions on an arbitrary type of floats.
\<close>

section \<open>Vocabulary\<close>

record token_index =
  tok_str :: "u8 list"
  tok_id :: int

definition compare_strings :: "u8 list \<Rightarrow> u8 list \<Rightarrow> int" where
  "compare_strings a b = the (c_strcmp (a @ [0]) (b @ [0]))"

definition compare_tokens :: "token_index \<Rightarrow> token_index \<Rightarrow> int" where
  "compare_tokens a b = compare_strings (tok_str a) (tok_str b)"

text \<open>The inner loop of the heap sort: an element sinks in the first \<open>n\<close> elements.\<close>

function sift :: "('a \<Rightarrow> 'a \<Rightarrow> int) \<Rightarrow> nat \<Rightarrow> nat \<Rightarrow> 'a list \<Rightarrow> 'a list" where
  "sift cmp n root arr =
     (let child = 2 * root + 1
      in if child \<ge> n then arr
         else
           let child = (if child + 1 < n \<and> cmp (arr ! child) (arr ! (child + 1)) < 0 then child + 1 else child)
           in if cmp (arr ! root) (arr ! child) \<ge> 0 then arr
              else sift cmp n child (arr[root := arr ! child, child := arr ! root]))"
  by pat_completeness auto
termination
  by (relation "measure (\<lambda>(cmp, n, root, arr). n - root)") (auto split: if_splits)

declare sift.simps [simp del]

definition swap_first :: "nat \<Rightarrow> 'a list \<Rightarrow> 'a list" where
  "swap_first e arr = arr[0 := arr ! e, e := arr ! 0]"

definition heap_sort :: "('a \<Rightarrow> 'a \<Rightarrow> int) \<Rightarrow> nat \<Rightarrow> 'a list \<Rightarrow> 'a list" where
  "heap_sort cmp n arr =
     fold (\<lambda>e arr. sift cmp e 0 (swap_first e arr)) (rev [1..<n])
       (fold (\<lambda>start. sift cmp n start) (rev [0..<n div 2]) arr)"

definition tok_sort :: "token_index list \<Rightarrow> nat \<Rightarrow> token_index list option" where
  "tok_sort arr n = (if n \<le> length arr then Some (heap_sort compare_tokens n arr) else None)"

text \<open>Binary search between two C ints: a sum that does not fit an int is a fault.\<close>

function lookup_loop :: "u8 list \<Rightarrow> token_index list \<Rightarrow> int \<Rightarrow> int \<Rightarrow> int option" where
  "lookup_loop str voc lo hi =
     (if lo \<le> hi then
        let mid = (lo + hi) div 2
        in if lo + hi \<ge> 2 ^ 31 \<or> mid < 0 \<or> mid \<ge> int (length voc) then None
           else
             let c = compare_strings str (tok_str (voc ! nat mid))
             in if c = 0 then Some (tok_id (voc ! nat mid))
                else if c < 0 then lookup_loop str voc lo (mid - 1)
                else lookup_loop str voc (mid + 1) hi
      else Some (-1))"
  by pat_completeness auto
termination
  by (relation "measure (\<lambda>(str, voc, lo, hi). nat (hi - lo + 1))") auto

declare lookup_loop.simps [simp del]

definition tok_lookup :: "u8 list \<Rightarrow> token_index list \<Rightarrow> int \<Rightarrow> int option" where
  "tok_lookup str voc vocab_size = lookup_loop str voc 0 (vocab_size - 1)"

section \<open>Random numbers\<close>

definition random_u32 :: "u64 \<Rightarrow> u32 \<times> u64" where
  "random_u32 st =
     (let st = st XOR drop_bit 12 st; st = st XOR push_bit 25 st; st = st XOR drop_bit 27 st
      in (ucast (drop_bit 32 (st * 0x2545F4914F6CDD1D)), st))"

section \<open>Sampling\<close>

record 'f floats =
  f_add :: "'f \<Rightarrow> 'f \<Rightarrow> 'f"
  f_sub :: "'f \<Rightarrow> 'f \<Rightarrow> 'f"
  f_mul :: "'f \<Rightarrow> 'f \<Rightarrow> 'f"
  f_div :: "'f \<Rightarrow> 'f \<Rightarrow> 'f"
  f_less :: "'f \<Rightarrow> 'f \<Rightarrow> bool"
  f_eq :: "'f \<Rightarrow> 'f \<Rightarrow> bool"
  f_exp :: "'f \<Rightarrow> 'f"
  f_of_int :: "int \<Rightarrow> 'f"

text \<open>\<open>a \<le> b\<close> on IEEE floats is less or equal, which is not the negation of greater.\<close>

definition f_leq :: "'f floats \<Rightarrow> 'f \<Rightarrow> 'f \<Rightarrow> bool" where
  "f_leq F a b \<longleftrightarrow> f_less F a b \<or> f_eq F a b"

definition random_f32 :: "'f floats \<Rightarrow> u64 \<Rightarrow> 'f \<times> u64" where
  "random_f32 F st = (case random_u32 st of (r, st) \<Rightarrow>
     (f_div F (f_of_int F (uint (drop_bit 8 r))) (f_of_int F 16777216), st))"

definition llm_softmax :: "'f floats \<Rightarrow> 'f list \<Rightarrow> 'f list option" where
  "llm_softmax F x =
     (if x = [] then None
      else
        let max_val = fold (\<lambda>v m. if f_less F m v then v else m) (tl x) (hd x);
            x = map (\<lambda>v. f_exp F (f_sub F v max_val)) x;
            sum = fold (\<lambda>v s. f_add F s v) x (f_of_int F 0)
        in Some (map (\<lambda>v. f_div F v sum) x))"

primrec argmax_loop :: "'f floats \<Rightarrow> 'f list \<Rightarrow> nat list \<Rightarrow> nat \<times> 'f \<Rightarrow> nat \<times> 'f" where
  "argmax_loop F p [] best = best"
| "argmax_loop F p (i # is) best =
     argmax_loop F p is (if f_less F (snd best) (p ! i) then (i, p ! i) else best)"

definition sample_argmax :: "'f floats \<Rightarrow> 'f list \<Rightarrow> nat option" where
  "sample_argmax F p = (if p = [] then None else Some (fst (argmax_loop F p [1..<length p] (0, hd p))))"

fun cdf_search :: "'f floats \<Rightarrow> 'f \<Rightarrow> 'f \<Rightarrow> 'f list \<Rightarrow> nat \<Rightarrow> nat option" where
  "cdf_search F r cdf [] i = None"
| "cdf_search F r cdf (v # vs) i =
     (let cdf = f_add F cdf v in if f_less F r cdf then Some i else cdf_search F r cdf vs (i + 1))"

definition sample_mult :: "'f floats \<Rightarrow> 'f list \<Rightarrow> 'f \<Rightarrow> int" where
  "sample_mult F p coin =
     (case cdf_search F coin (f_of_int F 0) p 0 of Some i \<Rightarrow> int i | None \<Rightarrow> int (length p) - 1)"

record 'f prob_index =
  prob :: 'f
  pindex :: nat

text \<open>Moving larger elements up until the key fits: \<open>j\<close> is one more than the C index.\<close>

primrec shift_larger :: "'f floats \<Rightarrow> 'f prob_index \<Rightarrow> nat \<Rightarrow> 'f prob_index list \<Rightarrow> nat \<times> 'f prob_index list" where
  "shift_larger F key 0 arr = (0, arr)"
| "shift_larger F key (Suc j) arr =
     (if f_less F (prob (arr ! j)) (prob key) then shift_larger F key j (arr[Suc j := arr ! j]) else (Suc j, arr))"

definition sort_probindex :: "'f floats \<Rightarrow> 'f prob_index list \<Rightarrow> 'f prob_index list" where
  "sort_probindex F arr =
     fold (\<lambda>i arr. case shift_larger F (arr ! i) i arr of (j, arr') \<Rightarrow> arr'[j := arr ! i]) [1..<length arr] arr"

primrec nucleus :: "'f floats \<Rightarrow> 'f \<Rightarrow> 'f prob_index list \<Rightarrow> nat \<Rightarrow> 'f \<Rightarrow> 'f \<times> nat option" where
  "nucleus F topp [] i c = (c, None)"
| "nucleus F topp (x # xs) i c =
     (let c = f_add F c (prob x) in if f_less F topp c then (c, Some i) else nucleus F topp xs (i + 1) c)"

definition sample_topp :: "'f floats \<Rightarrow> 'f list \<Rightarrow> 'f \<Rightarrow> 'f \<Rightarrow> nat option" where
  "sample_topp F p topp coin =
     (let cutoff = f_div F (f_sub F (f_of_int F 1) topp) (f_of_int F (int (length p) - 1));
          cand = map (\<lambda>i. \<lparr>prob = p ! i, pindex = i\<rparr>) [i\<leftarrow>[0..<length p]. f_leq F cutoff (p ! i)];
          arr = sort_probindex F cand;
          (cumulative, cut) = nucleus F topp arr 0 (f_of_int F 0);
          n = (case cut of Some i \<Rightarrow> i + 1 | None \<Rightarrow> length arr);
          r = f_mul F coin cumulative
      in case cdf_search F r (f_of_int F 0) (map prob (take n arr)) 0 of
           Some i \<Rightarrow> Some (pindex (arr ! i))
         | None \<Rightarrow> if n = 0 then None else Some (pindex (arr ! (n - 1))))"

record 'f sampler =
  temperature :: 'f
  topp :: 'f
  rng_state :: u64

text \<open>
  The logits have one entry per token of the vocabulary. The result holds the sampled id, the
  sampler with its new random state and the logits, which the code overwrites in place.
\<close>

definition llm_sample :: "'f floats \<Rightarrow> 'f sampler \<Rightarrow> 'f list \<Rightarrow> (int \<times> 'f sampler \<times> 'f list) option" where
  "llm_sample F s logits =
     (if f_eq F (temperature s) (f_of_int F 0)
      then map_option (\<lambda>i. (int i, s, logits)) (sample_argmax F logits)
      else
        llm_softmax F (map (\<lambda>v. f_div F v (temperature s)) logits) \<bind> (\<lambda>p.
        case random_f32 F (rng_state s) of (coin, st) \<Rightarrow>
          let s = s\<lparr>rng_state := st\<rparr>
          in if f_leq F (topp s) (f_of_int F 0) \<or> f_leq F (f_of_int F 1) (topp s)
             then Some (sample_mult F p coin, s, p)
             else map_option (\<lambda>i. (int i, s, p)) (sample_topp F p (topp s) coin)))"

section \<open>Terminal output\<close>

text \<open>The bytes a code point is mapped to.\<close>

definition ascii_for :: "u32 \<Rightarrow> u8 list" where
  "ascii_for cp =
     (if cp = 0x2018 \<or> cp = 0x2019 then [39]
      else if cp = 0x201C \<or> cp = 0x201D then [34]
      else if cp = 0x2013 \<or> cp = 0x2014 then [45]
      else if cp = 0x2026 then [46, 46, 46]
      else [])"

text \<open>The byte at an offset of a C string given as the bytes before its NUL.\<close>

definition byte_at :: "u8 list \<Rightarrow> nat \<Rightarrow> u8" where
  "byte_at p i = (if i < length p then p ! i else 0)"

definition is_cont :: "u8 \<Rightarrow> bool" where
  "is_cont b \<longleftrightarrow> b AND 0xC0 = 0x80"

text \<open>One turn of the loop: the bytes to drop from the input and the output they stand for.\<close>

definition sanitize_step :: "u8 list \<Rightarrow> nat \<times> u8 list" where
  "sanitize_step p =
     (let c = byte_at p 0
      in if c = 10 \<or> c = 9 \<or> (c \<ge> 32 \<and> c < 127) then (1, [c])
         else if c AND 0xE0 = 0xC0 \<and> is_cont (byte_at p 1) then
           (2, ascii_for (push_bit 6 (ucast (c AND 0x1F)) OR ucast (byte_at p 1 AND 0x3F)))
         else if c AND 0xF0 = 0xE0 \<and> is_cont (byte_at p 1) \<and> is_cont (byte_at p 2) then
           (3, ascii_for (push_bit 12 (ucast (c AND 0x0F)) OR push_bit 6 (ucast (byte_at p 1 AND 0x3F))
             OR ucast (byte_at p 2 AND 0x3F)))
         else (1, []))"

lemma sanitize_step_pos: "0 < fst (sanitize_step p)"
  by (simp add: sanitize_step_def Let_def)

lemma sanitize_step_take: "(k, bs) = sanitize_step p \<Longrightarrow> 0 < k"
  by (metis sanitize_step_pos fst_conv)

function sanitize_loop :: "u8 list \<Rightarrow> u8 list \<Rightarrow> u8 list" where
  "sanitize_loop p out =
     (if p = [] \<or> length out \<ge> 76 then out
      else case sanitize_step p of (k, bs) \<Rightarrow> sanitize_loop (drop k p) (out @ bs))"
  by pat_completeness auto
termination
  by (relation "measure (\<lambda>(p, out). length p)") (auto dest: sanitize_step_take)

declare sanitize_loop.simps [simp del]

text \<open>The text handed to the callback, when there is one.\<close>

definition emit_sanitized :: "u8 list \<Rightarrow> u8 list option" where
  "emit_sanitized piece =
     (let out = sanitize_loop piece [] in if out = [] then None else Some out)"
section \<open>Sorting\<close>

text \<open>Swapping two entries keeps the multiset of a prefix that holds both.\<close>

lemma swap_take_mset:
  assumes "i < m" "j < m" "m \<le> length xs"
  shows "mset (take m (xs[i := xs ! j, j := xs ! i])) = mset (take m xs)"
proof -
  have "mset ((take m xs)[j := take m xs ! i, i := take m xs ! j]) = mset (take m xs)"
    by (rule mset_swap) (use assms in auto)
  with assms show ?thesis by (cases "i = j") (simp_all add: take_update_swap list_update_swap)
qed

lemma sift_frame:
  "n \<le> length arr \<Longrightarrow> length (sift cmp n r arr) = length arr \<and>
   drop n (sift cmp n r arr) = drop n arr \<and> mset (take n (sift cmp n r arr)) = mset (take n arr)"
proof (induction cmp n r arr rule: sift.induct)
  case (1 cmp n r arr)
  define c where "c = (if 2 * r + 1 + 1 < n \<and> cmp (arr ! (2 * r + 1)) (arr ! (2 * r + 1 + 1)) < 0
    then 2 * r + 1 + 1 else 2 * r + 1)"
  show ?case
  proof (cases "2 * r + 1 \<ge> n \<or> cmp (arr ! r) (arr ! c) \<ge> 0")
    case True
    then show ?thesis by (subst (1 2 3) sift.simps) (auto simp: Let_def c_def)
  next
    case False
    then have c: "c < n" "r < n" by (auto simp: c_def)
    let ?a = "arr[r := arr ! c, c := arr ! r]"
    have "sift cmp n r arr = sift cmp n c ?a"
      using False by (subst sift.simps) (auto simp: Let_def c_def)
    moreover have "length (sift cmp n c ?a) = length ?a \<and>
       drop n (sift cmp n c ?a) = drop n ?a \<and> mset (take n (sift cmp n c ?a)) = mset (take n ?a)"
      using "1.IH" [OF refl _ c_def] False "1.prems" by auto
    moreover have "mset (take n ?a) = mset (take n arr)" by (rule swap_take_mset [OF c(2,1) "1.prems"])
    ultimately show ?thesis using c by simp
  qed
qed

context comparison begin

text \<open>
  The heap order on the first \<open>n\<close> elements, for the parents from \<open>lo\<close> on: no element is greater
  than its parent. \<open>heap\_except\<close> leaves out the children of \<open>r\<close>, which have to fit below the
  parent of \<open>r\<close> instead.
\<close>

definition heap_from :: "nat \<Rightarrow> nat \<Rightarrow> 'a list \<Rightarrow> bool" where
  "heap_from lo n arr \<longleftrightarrow>
     (\<forall>c. 1 \<le> c \<and> c < n \<and> lo \<le> (c - 1) div 2 \<longrightarrow> le (arr ! c) (arr ! ((c - 1) div 2)))"

definition heap_except :: "nat \<Rightarrow> nat \<Rightarrow> nat \<Rightarrow> 'a list \<Rightarrow> bool" where
  "heap_except r lo n arr \<longleftrightarrow>
     (\<forall>c. 1 \<le> c \<and> c < n \<and> lo \<le> (c - 1) div 2 \<and> (c - 1) div 2 \<noteq> r \<longrightarrow>
       le (arr ! c) (arr ! ((c - 1) div 2))) \<and>
     (\<forall>c. 1 \<le> c \<and> c < n \<and> (c - 1) div 2 = r \<and> 1 \<le> r \<and> lo \<le> (r - 1) div 2 \<longrightarrow>
       le (arr ! c) (arr ! ((r - 1) div 2)))"

lemma children: "1 \<le> c \<Longrightarrow> (c - 1) div 2 = r \<longleftrightarrow> c = 2 * r + 1 \<or> c = 2 * r + 2" for c r :: nat
  by presburger

lemma heap_exceptD:
  "heap_except r lo n arr \<Longrightarrow> 1 \<le> c \<Longrightarrow> c < n \<Longrightarrow> lo \<le> (c - 1) div 2 \<Longrightarrow> (c - 1) div 2 \<noteq> r \<Longrightarrow>
   le (arr ! c) (arr ! ((c - 1) div 2))"
  "heap_except r lo n arr \<Longrightarrow> 1 \<le> c \<Longrightarrow> c < n \<Longrightarrow> (c - 1) div 2 = r \<Longrightarrow> 1 \<le> r \<Longrightarrow>
   lo \<le> (r - 1) div 2 \<Longrightarrow> le (arr ! c) (arr ! ((r - 1) div 2))"
  unfolding heap_except_def by blast+

text \<open>One turn: after the swap the only parent out of order is the larger child.\<close>

lemma heap_except_swap:
  assumes h: "heap_except r lo n arr" and r: "lo \<le> r" "r < n" "n \<le> length arr"
    and k: "k = 2 * r + 1 \<or> k = 2 * r + 2" "k < n"
    and up: "le (arr ! r) (arr ! k)"
    and max: "\<And>c. c < n \<Longrightarrow> c = 2 * r + 1 \<or> c = 2 * r + 2 \<Longrightarrow> le (arr ! c) (arr ! k)"
  shows "heap_except k lo n (arr[r := arr ! k, k := arr ! r])"
proof -
  let ?a = "arr[r := arr ! k, k := arr ! r]"
  have rk: "r < k" using k by auto
  have at: "?a ! i = (if i = k then arr ! r else if i = r then arr ! k else arr ! i)" if "i < n" for i
    using that r k by (auto simp: nth_list_update)
  have pk: "(k - 1) div 2 = r" using k by auto
  have 1: "le (?a ! c) (?a ! ((c - 1) div 2))"
    if c: "1 \<le> c" "c < n" "lo \<le> (c - 1) div 2" "(c - 1) div 2 \<noteq> k" for c
  proof -
    let ?p = "(c - 1) div 2"
    have p: "?p < n" "?p < c" using c by auto
    consider "c = k" | "c \<noteq> k" "?p = r" | "c = r" | "c \<noteq> k" "c \<noteq> r" "?p \<noteq> r" by blast
    then show ?thesis
    proof cases
      case 1
      then show ?thesis using at [OF k(2)] at [OF r(2)] pk rk up by simp
    next
      case 2
      then have "c = 2 * r + 1 \<or> c = 2 * r + 2" using children [OF c(1), of r] by simp
      with 2 show ?thesis using max [OF c(2)] at [OF c(2)] at [of r] r rk c p by simp
    next
      case 3
      have "le (arr ! k) (arr ! ((r - 1) div 2))"
        by (rule heap_exceptD(2) [OF h]) (use k pk c 3 in auto)
      moreover have "?a ! r = arr ! k" using at [OF r(2)] rk by presburger
      moreover have "?a ! ((r - 1) div 2) = arr ! ((r - 1) div 2)"
        using at [OF p(1)] p(2) rk unfolding 3 by (metis less_irrefl less_trans)
      ultimately show ?thesis unfolding 3 by presburger
    next
      case 4
      have "?a ! c = arr ! c" using at [OF c(2)] 4 by presburger
      moreover have "?a ! ?p = arr ! ?p" using at [OF p(1)] 4(3) c(4) by presburger
      ultimately show ?thesis using heap_exceptD(1) [OF h c(1,2,3) 4(3)] by presburger
    qed
  qed
  have 2: "le (?a ! c) (?a ! ((k - 1) div 2))" if c: "1 \<le> c" "c < n" "(c - 1) div 2 = k" for c
  proof -
    have "le (arr ! c) (arr ! ((c - 1) div 2))"
      by (rule heap_exceptD(1) [OF h c(1,2)]) (use c rk r in auto)
    moreover have "c \<noteq> k" "c \<noteq> r" using c rk by auto
    ultimately show ?thesis using at [OF c(2)] at [of r] pk c r rk by simp
  qed
  show ?thesis unfolding heap_except_def using 1 2 by blast
qed

lemma le_swap: "0 < cmp y x \<Longrightarrow> cmp x y \<le> 0" "0 \<le> cmp y x \<Longrightarrow> cmp x y \<le> 0"
  using cmp_swap [of x y] cmp_swap [of y x] by auto

lemma sift_heap:
  "n \<le> length arr \<Longrightarrow> lo \<le> r \<Longrightarrow> heap_except r lo n arr \<Longrightarrow> heap_from lo n (sift cmp n r arr)"
proof (induction "n - r" arbitrary: r arr rule: less_induct)
  case less
  define c where "c = (if 2 * r + 1 + 1 < n \<and> cmp (arr ! (2 * r + 1)) (arr ! (2 * r + 1 + 1)) < 0
    then 2 * r + 1 + 1 else 2 * r + 1)"
  have max: "le (arr ! k) (arr ! c)" if "k < n" "k = 2 * r + 1 \<or> k = 2 * r + 2" for k
    using that le_refl le_swap by (auto simp: c_def le_def not_less)
  show ?case
  proof (cases "2 * r + 1 \<ge> n \<or> cmp (arr ! r) (arr ! c) \<ge> 0")
    case True
    then have "sift cmp n r arr = arr" by (subst sift.simps) (auto simp: Let_def c_def)
    moreover have "le (arr ! k) (arr ! ((k - 1) div 2))" if k: "1 \<le> k" "k < n" "lo \<le> (k - 1) div 2" for k
    proof (cases "(k - 1) div 2 = r")
      case p: True
      then have k2: "k = 2 * r + 1 \<or> k = 2 * r + 2" using children [OF k(1), of r] by simp
      with True k have "le (arr ! c) (arr ! r)"
        using cmp_swap [of "arr ! r" "arr ! c"] by (auto simp: le_def not_less)
      with max [OF k(2) k2] show ?thesis using p le_trans by blast
    qed (use heap_exceptD(1) [OF less.prems(3) k] in simp)
    ultimately show ?thesis by (auto simp: heap_from_def)
  next
    case False
    then have c: "c < n" "r < n" "c = 2 * r + 1 \<or> c = 2 * r + 2" by (auto simp: c_def)
    let ?a = "arr[r := arr ! c, c := arr ! r]"
    have eq: "sift cmp n r arr = sift cmp n c ?a"
      using False by (subst sift.simps) (auto simp: Let_def c_def)
    have "heap_except c lo n ?a"
      by (rule heap_except_swap [OF less.prems(3,2) c(2) less.prems(1) c(3,1) _ max])
        (use False in \<open>auto simp: le_def\<close>)
    with less.hyps [of c ?a] less.prems c eq show ?thesis by auto
  qed
qed

end
context comparison begin

lemma heap_max: "heap_from 0 n arr \<Longrightarrow> i < n \<Longrightarrow> le (arr ! i) (arr ! 0)"
proof (induction i rule: less_induct)
  case (less i)
  show ?case
  proof (cases "i = 0")
    case False
    then have "le (arr ! i) (arr ! ((i - 1) div 2))" using less.prems by (simp add: heap_from_def)
    moreover have "le (arr ! ((i - 1) div 2)) (arr ! 0)" using less False by simp
    ultimately show ?thesis using le_trans by blast
  qed (simp add: le_refl)
qed

lemma build_heap:
  assumes "n \<le> length arr" "k \<le> n div 2" "heap_from k n arr"
  shows "let b = fold (\<lambda>start. sift cmp n start) (rev [0..<k]) arr
    in length b = length arr \<and> mset (take n b) = mset (take n arr) \<and> drop n b = drop n arr \<and> heap_from 0 n b"
  using assms
proof (induction k arbitrary: arr)
  case (Suc k)
  have "heap_except k k n arr"
    using Suc.prems(3) by (auto simp: heap_except_def heap_from_def)
  then have "heap_from k n (sift cmp n k arr)" by (rule sift_heap [OF Suc.prems(1) order_refl])
  with Suc.IH [of "sift cmp n k arr"] sift_frame [OF Suc.prems(1), of "cmp" k] Suc.prems
  show ?case by (simp add: Let_def)
qed simp

text \<open>The second loop: the elements from \<open>e\<close> on are in their final place.\<close>

definition sorted_from :: "nat \<Rightarrow> nat \<Rightarrow> 'a list \<Rightarrow> bool" where
  "sorted_from e n arr \<longleftrightarrow> (\<forall>i j. i < j \<and> j < n \<and> e \<le> j \<longrightarrow> le (arr ! i) (arr ! j))"

lemma nth_of_take_mset:
  assumes "mset (take n xs) = mset (take n ys)" "i < n" "n \<le> length xs" "length xs = length ys"
  shows "\<exists>j<n. xs ! i = ys ! j"
proof -
  have "take n xs ! i \<in> set (take n xs)" by (rule nth_mem) (use assms in simp)
  also have "set (take n xs) = set (take n ys)" using assms(1) by (metis set_mset_mset)
  finally obtain j where "j < length (take n ys)" "take n ys ! j = take n xs ! i" by (metis in_set_conv_nth)
  then show ?thesis using assms by (intro exI [of _ j]) simp
qed

lemma nth_of_drop: "drop n xs = drop n ys \<Longrightarrow> n \<le> i \<Longrightarrow> i < length xs \<Longrightarrow> length xs = length ys \<Longrightarrow> xs ! i = ys ! i"
  using nth_drop [of n xs "i - n"] nth_drop [of n ys "i - n"] by simp

lemma extract_step:
  assumes n: "n \<le> length arr" and e: "0 < e" "e < n"
    and hp: "heap_from 0 (Suc e) arr" and so: "sorted_from (Suc e) n arr"
  shows "let b = sift cmp e 0 (swap_first e arr) in length b = length arr \<and>
    mset (take n b) = mset (take n arr) \<and> drop n b = drop n arr \<and> heap_from 0 e b \<and> sorted_from e n b"
proof -
  define s where "s = swap_first e arr"
  define b where "b = sift cmp e 0 s"
  have len: "e < length arr" "0 < length arr" using e n by auto
  have s: "length s = length arr" "\<And>i. s ! i = (if i = e then arr ! 0 else if i = 0 then arr ! e else arr ! i)"
    using len e(1) by (simp_all add: s_def swap_first_def)
  have frame: "length b = length s" "drop e b = drop e s" "mset (take e b) = mset (take e s)"
    using sift_frame [of e s "cmp" 0] e n s by (auto simp: b_def)
  have "heap_except 0 0 e s"
    using hp e n by (auto simp: heap_except_def heap_from_def s)
  then have hb: "heap_from 0 e b" unfolding b_def by (intro sift_heap) (use e n s in auto)
  have low: "\<exists>j\<le>e. b ! i = arr ! j" if i: "i < e" for i
  proof -
    from nth_of_take_mset [OF frame(3) i] frame(1) s(1) e n obtain j where "j < e" "b ! i = s ! j" by auto
    then show ?thesis using s(2) [of j] e by (metis less_imp_le order_refl)
  qed
  have high: "b ! i = s ! i" if "e \<le> i" "i < length s" for i
    using nth_of_drop [OF frame(2) that(1)] that(2) frame(1) by simp
  have "le (b ! i) (b ! j)" if j: "i < j" "j < n" "e \<le> j" for i j
  proof (cases "j = e")
    case True
    with low [of i] j obtain k where k: "k \<le> e" "b ! i = arr ! k" by blast
    have "b ! j = arr ! 0" using high [of j] True e n s j by auto
    with heap_max [OF hp, of k] k show ?thesis by simp
  next
    case False
    then have bj: "b ! j = arr ! j" using high [of j] s(2) [of j] j n s(1) e by auto
    have "\<exists>k<j. b ! i = arr ! k"
    proof (cases "i < e")
      case True
      with low [OF True] j False show ?thesis by (metis le_neq_implies_less le_less_trans)
    next
      case ie: False
      then have "b ! i = s ! i" using high [of i] j n s(1) by simp
      with s(2) [of i] ie e j show ?thesis by (metis gr0I le_less_trans less_le_trans not_le zero_le)
    qed
    then obtain k where "k < j" "b ! i = arr ! k" by blast
    then show ?thesis using so j False bj by (simp add: sorted_from_def)
  qed
  then have so': "sorted_from e n b" by (auto simp: sorted_from_def)
  have "mset (take n s) = mset (take n arr)"
    unfolding s_def swap_first_def by (rule swap_take_mset) (use e n in auto)
  moreover have "mset (take n b) = mset (take n s)"
  proof -
    have "take n b = take e b @ take (n - e) (drop e b)" "take n s = take e s @ take (n - e) (drop e s)"
      using e by (metis add_diff_inverse_nat not_less_iff_gr_or_eq take_add)+
    then show ?thesis by (simp add: frame)
  qed
  moreover have "drop n b = drop n s" using frame(2) e by (metis drop_drop le_add_diff_inverse2 less_imp_le)
  moreover have "drop n s = drop n arr" using e by (simp add: s_def swap_first_def)
  ultimately show ?thesis using hb so' frame(1) s(1) by (simp add: Let_def b_def s_def)
qed

lemma extract_all:
  assumes "n \<le> length arr" "e < n" "heap_from 0 (Suc e) arr" "sorted_from (Suc e) n arr"
  shows "let b = fold (\<lambda>e arr. sift cmp e 0 (swap_first e arr)) (rev [1..<Suc e]) arr
    in length b = length arr \<and> mset (take n b) = mset (take n arr) \<and> drop n b = drop n arr \<and> sorted_from 1 n b"
  using assms
proof (induction e arbitrary: arr)
  case (Suc e)
  let ?b = "sift cmp (Suc e) 0 (swap_first (Suc e) arr)"
  have "length ?b = length arr \<and> mset (take n ?b) = mset (take n arr) \<and> drop n ?b = drop n arr \<and>
      heap_from 0 (Suc e) ?b \<and> sorted_from (Suc e) n ?b"
    using extract_step [OF Suc.prems(1) _ Suc.prems(2-4)] by (simp add: Let_def)
  with Suc.IH [of ?b] Suc.prems show ?case by (simp add: Let_def)
qed (simp add: sorted_from_def)

lemma heap_sort_correct:
  assumes "n \<le> length arr"
  shows "length (heap_sort cmp n arr) = length arr \<and>
    mset (take n (heap_sort cmp n arr)) = mset (take n arr) \<and>
    drop n (heap_sort cmp n arr) = drop n arr \<and>
    (\<forall>i j. i < j \<and> j < n \<longrightarrow> le (heap_sort cmp n arr ! i) (heap_sort cmp n arr ! j))"
proof (cases "n = 0")
  case False
  define b where "b = fold (\<lambda>start. sift cmp n start) (rev [0..<n div 2]) arr"
  have "heap_from (n div 2) n arr" by (auto simp: heap_from_def)
  from build_heap [OF assms order_refl this] have b: "length b = length arr"
    "mset (take n b) = mset (take n arr)" "drop n b = drop n arr" "heap_from 0 n b"
    by (auto simp: b_def Let_def)
  have "sorted_from n n b" by (auto simp: sorted_from_def)
  with extract_all [of n b "n - 1"] False assms b show ?thesis
    by (auto simp: heap_sort_def b_def [symmetric] Let_def sorted_from_def)
qed (simp add: heap_sort_def)

end
section \<open>The comparison of the code\<close>

lemma compare_strings_simps:
  "compare_strings [] [] = 0"
  "compare_strings [] (y # b) = - uint y"
  "compare_strings (x # a) [] = uint x"
  "compare_strings (x # a) (y # b) =
     (if x \<noteq> 0 \<and> x = y then compare_strings a b else uint x - uint y)"
  by (simp_all add: compare_strings_def)

lemma compare_strings_swap: "compare_strings b a = - compare_strings a b"
  by (induction a b rule: list_induct2') (simp_all add: compare_strings_simps)

text \<open>Equality is decided on the bytes before the first NUL.\<close>

lemma compare_strings_eq:
  "0 \<notin> set a \<Longrightarrow> 0 \<notin> set b \<Longrightarrow> compare_strings a b = 0 \<longleftrightarrow> a = b"
  by (induction a b rule: list_induct2') (auto simp: compare_strings_simps uint_0_iff dest: word_uint_eqI)

lemma compare_strings_trans:
  "compare_strings a b \<le> 0 \<Longrightarrow> compare_strings b c \<le> 0 \<Longrightarrow> compare_strings a c \<le> 0"
proof (induction a arbitrary: b c)
  case Nil
  show ?case by (cases c) (simp_all add: compare_strings_simps)
next
  case (Cons x a)
  show ?case
  proof (cases b)
    case Nil
    then have "x = 0" using Cons.prems(1) uint_ge_0 [of x] by (simp add: compare_strings_simps uint_0_iff)
    then show ?thesis by (cases c) (auto simp: compare_strings_simps)
  next
    case b: (Cons y b')
    show ?thesis
    proof (cases c)
      case Nil
      then have "y = 0"
        using Cons.prems(2) b uint_ge_0 [of y] by (simp add: compare_strings_simps uint_0_iff)
      then have "uint x \<le> 0" using Cons.prems(1) b by (auto simp: compare_strings_simps split: if_splits)
      then show ?thesis using Nil by (simp add: compare_strings_simps)
    next
      case c: (Cons z c')
      show ?thesis
      proof (cases "x \<noteq> 0 \<and> x = y \<and> y = z")
        case True
        then show ?thesis using Cons.prems Cons.IH [of b' c'] b c by (auto simp: compare_strings_simps)
      next
        case False
        have "uint x \<le> uint y" "uint y \<le> uint z"
          using Cons.prems b c by (auto simp: compare_strings_simps split: if_splits)
        moreover have "x = z \<Longrightarrow> x = 0"
          using False \<open>uint x \<le> uint y\<close> \<open>uint y \<le> uint z\<close> by (auto dest: word_uint_eqI)
        ultimately show ?thesis using b c by (auto simp: compare_strings_simps)
      qed
    qed
  qed
qed

interpretation strings: comparison compare_strings
proof
  show "compare_strings x y < 0 \<longleftrightarrow> 0 < compare_strings y x" for x y
    using compare_strings_swap [of x y] by simp
qed (rule compare_strings_trans)

interpretation tokens: comparison compare_tokens
  by unfold_locales
    (auto simp: compare_tokens_def strings.cmp_swap intro: compare_strings_trans)

section \<open>Searching the sorted vocabulary\<close>

lemma lookup_loop_correct:
  assumes "n \<le> 2 ^ 30" "n \<le> length voc" "0 \<le> lo" "lo \<le> int n" "- 1 \<le> hi" "hi < int n"
    and "\<And>i j. i < j \<Longrightarrow> j < n \<Longrightarrow> tokens.le (voc ! i) (voc ! j)"
    and "\<And>i. int i < lo \<Longrightarrow> compare_strings str (tok_str (voc ! i)) > 0"
    and "\<And>i. hi < int i \<Longrightarrow> i < n \<Longrightarrow> compare_strings str (tok_str (voc ! i)) < 0"
  shows "\<exists>r. lookup_loop str voc lo hi = Some r \<and>
    ((\<exists>i<n. compare_strings str (tok_str (voc ! i)) = 0 \<and> r = tok_id (voc ! i)) \<or>
     (r = - 1 \<and> (\<forall>i<n. compare_strings str (tok_str (voc ! i)) \<noteq> 0)))"
  using assms(3-6,8,9)
proof (induction "nat (hi - lo + 1)" arbitrary: lo hi rule: less_induct)
  case less
  let ?c = "\<lambda>i. compare_strings str (tok_str (voc ! i))"
  show ?case
  proof (cases "lo \<le> hi")
    case False
    then have "lookup_loop str voc lo hi = Some (- 1)" by (subst lookup_loop.simps) simp
    moreover have "?c i \<noteq> 0" if "i < n" for i
      using less.prems(5) [of i] less.prems(6) [of i] that False by (cases "int i < lo") auto
    ultimately show ?thesis by auto
  next
    case True
    define m where "m = nat ((lo + hi) div 2)"
    have m: "(lo + hi) div 2 = int m" "lo \<le> int m" "int m \<le> hi" using True less.prems by (auto simp: m_def)
    then have mn: "m < n" "m < length voc" "lo + hi < 2 ^ 31" using less.prems assms(1,2) by auto
    have eq: "lookup_loop str voc lo hi = (if ?c m = 0 then Some (tok_id (voc ! m))
        else if ?c m < 0 then lookup_loop str voc lo (int m - 1) else lookup_loop str voc (int m + 1) hi)"
      using True m mn by (subst lookup_loop.simps) (simp add: Let_def)
    have trans: "tokens.le (voc ! i) (voc ! j)" if "i \<le> j" "j < n" for i j
      using assms(7) [of i j] that tokens.le_refl by (cases "i = j") auto
    show ?thesis
    proof (cases "?c m" "0 :: int" rule: linorder_cases)
      case equal
      with eq mn show ?thesis by auto
    next
      case below: less
      have "?c i < 0" if "int m - 1 < int i" "i < n" for i
      proof -
        have "compare_strings (tok_str (voc ! m)) (tok_str (voc ! i)) \<le> 0"
          using trans [of m i] that by (simp add: tokens.le_def compare_tokens_def)
        moreover have "\<not> compare_strings (tok_str (voc ! m)) str \<le> 0"
          using below compare_strings_swap [of "tok_str (voc ! m)" str] by simp
        ultimately have "\<not> compare_strings (tok_str (voc ! i)) str \<le> 0"
          using compare_strings_trans by blast
        then show ?thesis using compare_strings_swap [of "tok_str (voc ! i)" str] by simp
      qed
      moreover have "lookup_loop str voc lo hi = lookup_loop str voc lo (int m - 1)" using eq below by simp
      ultimately show ?thesis using less.hyps [of "int m - 1" lo] less.prems m mn by simp
    next
      case above: greater
      have "?c i > 0" if "int i < int m + 1" for i
      proof -
        have "compare_strings (tok_str (voc ! i)) (tok_str (voc ! m)) \<le> 0"
          using trans [of i m] that mn by (simp add: tokens.le_def compare_tokens_def)
        moreover have "\<not> compare_strings str (tok_str (voc ! m)) \<le> 0" using above by simp
        ultimately have "\<not> compare_strings str (tok_str (voc ! i)) \<le> 0"
          using compare_strings_trans by blast
        then show ?thesis by simp
      qed
      moreover have "lookup_loop str voc lo hi = lookup_loop str voc (int m + 1) hi" using eq above by simp
      ultimately show ?thesis using less.hyps [of hi "int m + 1"] less.prems m mn by simp
    qed
  qed
qed

lemma tok_lookup_found:
  assumes "tok_sort arr n = Some voc" "n \<le> 2 ^ 30" "0 \<notin> set str"
    and "\<forall>t\<in>set (take n arr). 0 \<notin> set (tok_str t)"
  shows "\<exists>r. tok_lookup str voc (int n) = Some r \<and>
    ((\<exists>t\<in>set (take n arr). tok_str t = str \<and> r = tok_id t) \<or>
     (r = - 1 \<and> (\<forall>t\<in>set (take n arr). tok_str t \<noteq> str)))"
proof -
  have n: "n \<le> length arr" and voc: "voc = heap_sort compare_tokens n arr"
    using assms(1) by (auto simp: tok_sort_def split: if_splits)
  note sorted = tokens.heap_sort_correct [OF n, folded voc]
  have set: "set (take n voc) = set (take n arr)" using sorted by (metis set_mset_mset)
  have len: "n \<le> length voc" using sorted n by simp
  have mem: "voc ! i \<in> set (take n arr)" if "i < n" for i
    using nth_mem [of i "take n voc"] that len by (simp add: set)
  have eq: "compare_strings str (tok_str t) = 0 \<longleftrightarrow> tok_str t = str" if "t \<in> set (take n arr)" for t
    using compare_strings_eq [of str "tok_str t"] assms(3,4) that by auto
  have "\<exists>r. lookup_loop str voc 0 (int n - 1) = Some r \<and>
    ((\<exists>i<n. compare_strings str (tok_str (voc ! i)) = 0 \<and> r = tok_id (voc ! i)) \<or>
     (r = - 1 \<and> (\<forall>i<n. compare_strings str (tok_str (voc ! i)) \<noteq> 0)))"
    by (rule lookup_loop_correct [OF assms(2) len]) (use sorted in auto)
  then obtain r where r: "lookup_loop str voc 0 (int n - 1) = Some r"
    "(\<exists>i<n. compare_strings str (tok_str (voc ! i)) = 0 \<and> r = tok_id (voc ! i)) \<or>
     (r = - 1 \<and> (\<forall>i<n. compare_strings str (tok_str (voc ! i)) \<noteq> 0))" by blast
  from r(2) show ?thesis
  proof (elim disjE exE conjE)
    fix i assume i: "i < n" "compare_strings str (tok_str (voc ! i)) = 0" "r = tok_id (voc ! i)"
    then have "tok_str (voc ! i) = str" using eq [OF mem [OF i(1)]] by simp
    then show ?thesis using r(1) mem [OF i(1)] i(3) by (auto simp: tok_lookup_def)
  next
    assume a: "r = - 1" "\<forall>i<n. compare_strings str (tok_str (voc ! i)) \<noteq> 0"
    have "tok_str t \<noteq> str" if t: "t \<in> set (take n arr)" for t
    proof -
      from t obtain i where "i < n" "voc ! i = t" using len by (auto simp: set [symmetric] in_set_conv_nth)
      then show ?thesis using a(2) eq [OF t] by auto
    qed
    then show ?thesis using r(1) a(1) by (auto simp: tok_lookup_def)
  qed
qed

text \<open>
  The vocabulary search after the sort. Once \<open>tok\_sort\<close> has sorted the first \<open>n\<close> entries,
  \<open>tok\_lookup\<close> stays inside the array and returns the id of an entry with exactly the string
  asked for, or -1, and -1 only when no entry has that string.
\<close>

theorem tok_lookup_after_sort:
  assumes "tok_sort arr n = Some voc" "n \<le> 2 ^ 30" "0 \<notin> set str"
    and "\<forall>t\<in>set (take n arr). 0 \<notin> set (tok_str t)"
  shows "\<exists>r. tok_lookup str voc (int n) = Some r \<and>
    ((\<exists>t\<in>set (take n arr). tok_str t = str \<and> r = tok_id t) \<or>
     (r = - 1 \<and> (\<forall>t\<in>set (take n arr). tok_str t \<noteq> str)))"
  by (rule tok_lookup_found [OF assms])

theorem tok_lookup_after_sort_witness:
  "\<exists>r voc. tok_sort [\<lparr>tok_str = [99], tok_id = 7\<rparr>, \<lparr>tok_str = [97], tok_id = 8\<rparr>,
      \<lparr>tok_str = [98, 97], tok_id = 9\<rparr>] 3 = Some voc \<and> tok_lookup [98, 97] voc 3 = Some r \<and> r = 9"
  using tok_lookup_after_sort [of "[\<lparr>tok_str = [99], tok_id = 7\<rparr>, \<lparr>tok_str = [97], tok_id = 8\<rparr>,
      \<lparr>tok_str = [98, 97], tok_id = 9\<rparr>]" 3 "heap_sort compare_tokens 3 [\<lparr>tok_str = [99], tok_id = 7\<rparr>,
      \<lparr>tok_str = [97], tok_id = 8\<rparr>, \<lparr>tok_str = [98, 97], tok_id = 9\<rparr>]" "[98, 97]"]
  by (auto simp: tok_sort_def)

section \<open>Sampling\<close>

lemma argmax_loop_bound:
  "\<forall>i\<in>set is. i < n \<Longrightarrow> fst best < n \<Longrightarrow> fst (argmax_loop F p is best) < n"
  by (induction "is" arbitrary: best) auto

lemma cdf_search_bound: "cdf_search F r c vs i = Some j \<Longrightarrow> i \<le> j \<and> j < i + length vs"
  by (induction F r c vs i rule: cdf_search.induct) (auto simp: Let_def split: if_splits)

lemma nucleus_bound: "nucleus F t xs i c = (d, Some j) \<Longrightarrow> i \<le> j \<and> j < i + length xs"
  by (induction xs arbitrary: i c) (fastforce simp: Let_def split: if_splits)+

lemma shift_larger_mset:
  "j < length arr \<Longrightarrow> shift_larger F key j arr = (j', arr') \<Longrightarrow>
   length arr' = length arr \<and> j' \<le> j \<and> mset (arr'[j' := key]) = mset (arr[j := key])"
proof (induction j arbitrary: arr)
  case (Suc j)
  show ?case
  proof (cases "f_less F (prob (arr ! j)) (prob key)")
    case True
    let ?a = "arr[Suc j := arr ! j]"
    have "length arr' = length ?a \<and> j' \<le> j \<and> mset (arr'[j' := key]) = mset (?a[j := key])"
      by (rule Suc.IH) (use Suc.prems True in auto)
    moreover have "mset (?a[j := key]) = mset (arr[Suc j := key])"
      using mset_swap [of j "arr[Suc j := key]" "Suc j"] Suc.prems(1) by simp
    ultimately show ?thesis by simp
  qed (use Suc.prems in auto)
qed auto

lemma sort_probindex_mset: "mset (sort_probindex F arr) = mset arr"
proof -
  have "mset (fold (\<lambda>i arr. case shift_larger F (arr ! i) i arr of (j, arr') \<Rightarrow> arr'[j := arr ! i]) is a) = mset arr"
    if "\<forall>i\<in>set is. i < length arr" "mset a = mset arr" for "is" a
    using that
  proof (induction "is" arbitrary: a)
    case (Cons i "is")
    obtain j a' where s: "shift_larger F (a ! i) i a = (j, a')" by fastforce
    have "i < length a" using Cons.prems by (metis list.set_intros(1) size_mset)
    from shift_larger_mset [OF this s] have "mset (a'[j := a ! i]) = mset a" by simp
    with Cons s show ?case by simp
  qed simp
  then show ?thesis by (simp add: sort_probindex_def)
qed

lemma sort_probindex_set: "set (sort_probindex F arr) = set arr"
  by (metis set_mset_mset sort_probindex_mset)

lemma sample_topp_bound:
  assumes "sample_topp F p tp coin = Some i"
  shows "i < length p"
proof -
  define cutoff where "cutoff = f_div F (f_sub F (f_of_int F 1) tp) (f_of_int F (int (length p) - 1))"
  define arr where "arr = sort_probindex F
    (map (\<lambda>i. \<lparr>prob = p ! i, pindex = i\<rparr>) [i\<leftarrow>[0..<length p]. f_leq F cutoff (p ! i)])"
  have arr: "pindex (arr ! k) < length p" if "k < length arr" for k
  proof -
    have "set arr = set (map (\<lambda>i. \<lparr>prob = p ! i, pindex = i\<rparr>) [i\<leftarrow>[0..<length p]. f_leq F cutoff (p ! i)])"
      unfolding arr_def by (rule sort_probindex_set)
    then show ?thesis using nth_mem [OF that] by auto
  qed
  obtain c cut where nu: "nucleus F tp arr 0 (f_of_int F 0) = (c, cut)" by fastforce
  define n where "n = (case cut of Some i \<Rightarrow> i + 1 | None \<Rightarrow> length arr)"
  have n: "n \<le> length arr" using nucleus_bound [of F tp arr 0 "f_of_int F 0" c] nu
    by (cases cut) (auto simp: n_def Suc_le_eq)
  have topp: "sample_topp F p tp coin = (case nucleus F tp arr 0 (f_of_int F 0) of (c, cut) \<Rightarrow>
      let n = (case cut of Some i \<Rightarrow> i + 1 | None \<Rightarrow> length arr)
      in case cdf_search F (f_mul F coin c) (f_of_int F 0) (map prob (take n arr)) 0 of
           Some i \<Rightarrow> Some (pindex (arr ! i))
         | None \<Rightarrow> if n = 0 then None else Some (pindex (arr ! (n - 1))))"
    unfolding sample_topp_def Let_def cutoff_def arr_def ..
  from assms have "(case cdf_search F (f_mul F coin c) (f_of_int F 0) (map prob (take n arr)) 0 of
           Some i \<Rightarrow> Some (pindex (arr ! i))
         | None \<Rightarrow> if n = 0 then None else Some (pindex (arr ! (n - 1)))) = Some i"
    unfolding topp nu prod.case n_def [symmetric] Let_def .
  then show ?thesis
    using arr n cdf_search_bound [of F "f_mul F coin c" "f_of_int F 0" "map prob (take n arr)" 0]
    by (fastforce split: option.splits if_splits)
qed

lemma sample_topp_None:
  assumes "sample_topp F p tp coin = None"
  shows "\<forall>v\<in>set p. \<not> f_leq F (f_div F (f_sub F (f_of_int F 1) tp) (f_of_int F (int (length p) - 1))) v"
proof -
  define cutoff where "cutoff = f_div F (f_sub F (f_of_int F 1) tp) (f_of_int F (int (length p) - 1))"
  define cand where "cand = map (\<lambda>i. \<lparr>prob = p ! i, pindex = i\<rparr>) [i\<leftarrow>[0..<length p]. f_leq F cutoff (p ! i)]"
  have "cand = []"
  proof (rule ccontr)
    assume "cand \<noteq> []"
    then have ne: "sort_probindex F cand \<noteq> []" using sort_probindex_mset [of F cand] by auto
    then show False
      using assms by (auto simp: sample_topp_def Let_def cutoff_def [symmetric] cand_def [symmetric]
          split: prod.splits option.splits if_splits)
  qed
  then show ?thesis unfolding cutoff_def [symmetric] cand_def
    by (auto simp: filter_empty_conv in_set_conv_nth)
qed

lemma llm_softmax_length: "llm_softmax F x = Some p \<Longrightarrow> length p = length x"
  by (auto simp: llm_softmax_def Let_def split: if_splits)

text \<open>Greedy sampling and sampling without top-p cannot go wrong.\<close>

lemma llm_sample_simple:
  assumes "logits \<noteq> []"
    and "f_eq F (temperature s) (f_of_int F 0) \<or> f_leq F (topp s) (f_of_int F 0) \<or> f_leq F (f_of_int F 1) (topp s)"
  shows "\<exists>i s' out. llm_sample F s logits = Some (i, s', out) \<and> 0 \<le> i \<and> i < int (length logits) \<and>
    length out = length logits \<and> temperature s' = temperature s \<and> topp s' = topp s"
proof (cases "f_eq F (temperature s) (f_of_int F 0)")
  case True
  have "fst (argmax_loop F logits [1..<length logits] (0, hd logits)) < length logits"
    by (rule argmax_loop_bound) (use assms in auto)
  with True assms show ?thesis by (simp add: llm_sample_def sample_argmax_def)
next
  case False
  obtain p where p: "llm_softmax F (map (\<lambda>v. f_div F v (temperature s)) logits) = Some p"
    using assms by (auto simp: llm_softmax_def Let_def)
  have lp: "length p = length logits" using llm_softmax_length [OF p] by simp
  obtain coin st where r: "random_f32 F (rng_state s) = (coin, st)" by fastforce
  have "0 \<le> sample_mult F p c \<and> sample_mult F p c < int (length logits)" for c
    using cdf_search_bound [of F c "f_of_int F 0" p 0] lp assms(1)
    by (auto simp: sample_mult_def Suc_le_eq split: option.splits)
  with False assms(2) p r lp show ?thesis by (simp add: llm_sample_def Let_def)
qed

text \<open>
  The sampler stays inside the vocabulary. With at least one logit, \<open>llm\_sample\<close> returns an
  id of the vocabulary, whatever the floats compute, with one exception: top-p sampling when not
  one probability is at least the cutoff, as with NaN logits, where the code reads before the
  start of the candidate array.
\<close>

theorem llm_sample_in_vocabulary:
  assumes "logits \<noteq> []"
  shows "(\<exists>i s' out. llm_sample F s logits = Some (i, s', out) \<and> 0 \<le> i \<and> i < int (length logits) \<and>
      length out = length logits \<and> temperature s' = temperature s \<and> topp s' = topp s) \<or>
    (\<exists>p. llm_softmax F (map (\<lambda>v. f_div F v (temperature s)) logits) = Some p \<and>
      f_leq F (topp s) (f_of_int F 0) = False \<and>
      (\<forall>v\<in>set p. f_leq F (f_div F (f_sub F (f_of_int F 1) (topp s)) (f_of_int F (int (length p) - 1))) v = False))"
proof (cases "f_eq F (temperature s) (f_of_int F 0) \<or> f_leq F (topp s) (f_of_int F 0) \<or> f_leq F (f_of_int F 1) (topp s)")
  case True
  from llm_sample_simple [OF assms this] show ?thesis by blast
next
  case False
  obtain p where p: "llm_softmax F (map (\<lambda>v. f_div F v (temperature s)) logits) = Some p"
    using assms by (auto simp: llm_softmax_def Let_def)
  have lp: "length p = length logits" using llm_softmax_length [OF p] by simp
  obtain coin st where r: "random_f32 F (rng_state s) = (coin, st)" by fastforce
  show ?thesis
  proof (cases "sample_topp F p (topp s) coin")
    case None
    with p False sample_topp_None [OF this] show ?thesis by blast
  next
    case (Some i)
    with sample_topp_bound [OF Some] False p r lp show ?thesis by (simp add: llm_sample_def Let_def)
  qed
qed

text \<open>Integers divided by 1000 as floats.\<close>

definition milli_floats :: "int floats" where
  "milli_floats = \<lparr>f_add = (+), f_sub = (-), f_mul = (\<lambda>a b. a * b div 1000), f_div = (\<lambda>a b. a * 1000 div b),
     f_less = (<), f_eq = (=), f_exp = (\<lambda>x. max 1 (1000 + x)), f_of_int = (\<lambda>i. i * 1000)\<rparr>"

theorem llm_sample_in_vocabulary_witness:
  "\<exists>i s' out. llm_sample milli_floats \<lparr>temperature = 0, topp = 900, rng_state = 1\<rparr> [100, 700, 200] = Some (i, s', out) \<and>
     0 \<le> i \<and> i < 3"
  using llm_sample_in_vocabulary [of "[100, 700, 200]" milli_floats "\<lparr>temperature = 0, topp = 900, rng_state = 1\<rparr>"]
  by (auto simp: llm_sample_def milli_floats_def sample_argmax_def)

section \<open>Terminal output\<close>

definition plain_byte :: "u8 \<Rightarrow> bool" where
  "plain_byte c \<longleftrightarrow> c = 10 \<or> c = 9 \<or> (c \<ge> 32 \<and> c < 127)"

lemma ascii_for_plain: "(\<forall>c\<in>set (ascii_for cp). plain_byte c) \<and> length (ascii_for cp) \<le> 3"
  by (simp add: ascii_for_def plain_byte_def)

lemma sanitize_step_plain:
  "sanitize_step p = (k, bs) \<Longrightarrow> (\<forall>c\<in>set bs. plain_byte c) \<and> length bs \<le> 3"
  using ascii_for_plain by (auto simp: sanitize_step_def Let_def plain_byte_def split: if_splits)

lemma sanitize_loop_plain:
  "\<forall>c\<in>set out. plain_byte c \<Longrightarrow> length out \<le> 78 \<Longrightarrow>
   (\<forall>c\<in>set (sanitize_loop p out). plain_byte c) \<and> length (sanitize_loop p out) \<le> 78"
proof (induction p out rule: sanitize_loop.induct)
  case (1 p out)
  obtain k bs where s: "sanitize_step p = (k, bs)" by fastforce
  show ?case
  proof (cases "p = [] \<or> length out \<ge> 76")
    case False
    then have "sanitize_loop p out = sanitize_loop (drop k p) (out @ bs)"
      by (subst sanitize_loop.simps) (simp add: s)
    with "1.IH" [OF False s [symmetric]] sanitize_step_plain [OF s] "1.prems" False
    show ?thesis by auto
  next
    case True
    then have "sanitize_loop p out = out" by (subst sanitize_loop.simps) simp
    with "1.prems" show ?thesis by simp
  qed
qed

lemma sanitize_loop_id:
  "\<forall>c\<in>set p. plain_byte c \<Longrightarrow> length out \<le> 76 \<Longrightarrow> sanitize_loop p out = take 76 (out @ p)"
proof (induction p arbitrary: out)
  case (Cons c p)
  have "sanitize_step (c # p) = (1, [c])" using Cons.prems
    by (simp add: sanitize_step_def byte_at_def plain_byte_def)
  then show ?case using Cons.IH [of "out @ [c]"] Cons.prems by (subst sanitize_loop.simps) auto
qed (subst sanitize_loop.simps, simp)

text \<open>
  What the sanitizer sends to the terminal is never empty, at most 78 bytes (so it fits the
  80-byte buffer with its NUL) and made of line feeds, tabs and printable ASCII only; text that
  is already of this kind is passed on unchanged up to 76 bytes and cut after them.
\<close>

theorem emit_sanitized_output:
  "(case emit_sanitized piece of
      Some out \<Rightarrow> out \<noteq> [] \<and> length out \<le> 78 \<and> list_all plain_byte out
    | None \<Rightarrow> True) \<and>
   (list_all plain_byte msg \<and> msg \<noteq> [] \<longrightarrow> emit_sanitized msg = Some (take 76 msg))"
  using sanitize_loop_plain [of "[]" piece] sanitize_loop_id [of msg "[]"]
  by (auto simp: emit_sanitized_def Let_def list_all_iff)

theorem emit_sanitized_output_witness:
  "emit_sanitized [72, 105, 10] = Some [72, 105, 10] \<and>
   emit_sanitized (replicate 100 65) = Some (replicate 76 65)"
proof -
  have "list_all plain_byte (replicate 100 65)" by (simp add: list_all_iff plain_byte_def)
  then show ?thesis
    using emit_sanitized_output [of "[]" "[72, 105, 10]"] emit_sanitized_output [of "[]" "replicate 100 65"]
    by (simp add: plain_byte_def)
qed

end
