(* ===== verification/Net.thy ===== *)
theory Net
  imports Kprintf
begin

text \<open>
  The network stack of \<open>net.c\<close>. Packets are lists of bytes; \<open>None\<close> is an access outside a buffer.
  IPv4 addresses are 32-bit words whose bytes in memory are the bytes on the wire. The frames given
  to the network card are collected in \<open>sent\<close>. A loop that waits for an answer is run against a
  list of turns, one for each sleep of the loop: the ticks that pass and the frames the receive
  thread handles meanwhile; after the last turn nothing happens any more until the deadline.
\<close>

section \<open>Words in memory and on the wire\<close>

definition htons16 :: "u16 \<Rightarrow> u16" where
  "htons16 v = drop_bit 8 v OR push_bit 8 v"

definition htonl32 :: "u32 \<Rightarrow> u32" where
  "htonl32 v = push_bit 24 (v AND 0xFF) OR push_bit 8 (v AND 0xFF00) OR (drop_bit 8 v AND 0xFF00) OR drop_bit 24 v"

definition le16 :: "u16 \<Rightarrow> u8 list" where
  "le16 v = [ucast v, ucast (drop_bit 8 v)]"

definition le32 :: "u32 \<Rightarrow> u8 list" where
  "le32 v = [ucast v, ucast (drop_bit 8 v), ucast (drop_bit 16 v), ucast (drop_bit 24 v)]"

definition read_u16 :: "u8 list \<Rightarrow> nat \<Rightarrow> u16 option" where
  "read_u16 bs i = (if i + 2 \<le> length bs then Some (ucast (bs ! i) OR push_bit 8 (ucast (bs ! (i + 1)))) else None)"

text \<open>Two bytes in network order, as the code puts them together.\<close>

definition be16 :: "u8 \<Rightarrow> u8 \<Rightarrow> nat" where
  "be16 a b = 256 * unat a + unat b"

section \<open>Checksum\<close>

fun sum16 :: "u8 list \<Rightarrow> u32 \<Rightarrow> u32" where
  "sum16 [] acc = acc"
| "sum16 [a] acc = acc + push_bit 8 (ucast a)"
| "sum16 (a # b # p) acc = sum16 p (acc + (push_bit 8 (ucast a) OR ucast b))"

lemma fold16_less: "drop_bit 16 s \<noteq> 0 \<Longrightarrow> unat ((s AND 0xFFFF) + drop_bit 16 (s :: u32)) < unat s"
proof -
  assume nz: "drop_bit 16 s \<noteq> 0"
  have l: "unat (s AND 0xFFFF) = unat s mod 65536"
  proof -
    have "s AND 0xFFFF = take_bit 16 s" by (simp add: take_bit_eq_mask mask_eq_exp_minus_1)
    then show ?thesis by (simp add: take_bit_eq_mod unat_mod)
  qed
  have h: "unat (drop_bit 16 s) = unat s div 65536" by (simp add: drop_bit_eq_div unat_div)
  have "unat s div 65536 \<noteq> 0" using nz h by (metis unat_eq_0)
  moreover have s: "unat s = 65536 * (unat s div 65536) + unat s mod 65536" by simp
  ultimately have lt: "unat s mod 65536 + unat s div 65536 < unat s" by linarith
  have "unat ((s AND 0xFFFF) + drop_bit 16 s) = unat s mod 65536 + unat s div 65536"
    using lt l h unat_less_2p [of s] by (subst unat_plus_small) auto
  with lt show ?thesis by simp
qed

function fold16 :: "u32 \<Rightarrow> u32" where
  "fold16 acc = (if drop_bit 16 acc = 0 then acc else fold16 ((acc AND 0xFFFF) + drop_bit 16 acc))"
  by pat_completeness auto
termination
  by (relation "measure unat") (simp_all add: fold16_less del: unat_plus_simple)

declare fold16.simps [simp del]

definition checksum16 :: "u8 list \<Rightarrow> u32 \<Rightarrow> u16" where
  "checksum16 p start = htons16 (ucast (NOT (fold16 (sum16 p start)) AND 0xFFFF))"

section \<open>State\<close>

record arp_entry =
  arp_ip :: u32
  arp_mac :: "u8 list"
  arp_valid :: bool

record net =
  nic_up :: bool
  configured :: bool
  our_mac :: "u8 list"
  our_ip :: u32
  our_mask :: u32
  our_gw :: u32
  our_dns :: u32
  arp_cache :: "arp_entry list"
  ip_id :: u16
  icmp_waiting :: bool
  icmp_id :: u16
  icmp_seq :: u16
  icmp_got :: bool
  udp_port :: u16
  udp_data :: "u8 list"
  udp_len :: nat
  udp_src :: u32
  eport :: u16
  ticks :: u64
  sent :: "u8 list list"

definition net_boot :: net where
  "net_boot = \<lparr>nic_up = False, configured = False, our_mac = replicate 6 0, our_ip = 0, our_mask = 0,
     our_gw = 0, our_dns = 0, arp_cache = replicate 8 \<lparr>arp_ip = 0, arp_mac = replicate 6 0, arp_valid = False\<rparr>,
     ip_id = 1, icmp_waiting = False, icmp_id = 0, icmp_seq = 0, icmp_got = False, udp_port = 0,
     udp_data = replicate 1024 0, udp_len = 0, udp_src = 0, eport = 49152, ticks = 0, sent = []\<rparr>"

definition FRAME_MAX :: nat where
  "FRAME_MAX = 1600"

definition bcast_mac :: "u8 list" where
  "bcast_mac = replicate 6 0xFF"

section \<open>ARP cache\<close>

definition arp_cache_put :: "u32 \<Rightarrow> u8 list \<Rightarrow> arp_entry list \<Rightarrow> arp_entry list" where
  "arp_cache_put ip mac cache =
     (case find (\<lambda>i. arp_valid (cache ! i) \<and> arp_ip (cache ! i) = ip) [0..<length cache] of
        Some i \<Rightarrow> cache[i := (cache ! i)\<lparr>arp_mac := mac\<rparr>]
      | None \<Rightarrow>
          case find (\<lambda>i. \<not> arp_valid (cache ! i)) [0..<length cache] of
            Some i \<Rightarrow> cache[i := \<lparr>arp_ip = ip, arp_mac = mac, arp_valid = True\<rparr>]
          | None \<Rightarrow> cache[0 := (cache ! 0)\<lparr>arp_ip := ip, arp_mac := mac\<rparr>])"

definition arp_cache_get :: "u32 \<Rightarrow> arp_entry list \<Rightarrow> u8 list option" where
  "arp_cache_get ip cache = map_option arp_mac (find (\<lambda>e. arp_valid e \<and> arp_ip e = ip) cache)"

section \<open>Sending\<close>

definition eth_send :: "u8 list \<Rightarrow> u16 \<Rightarrow> u8 list \<Rightarrow> net \<Rightarrow> net option" where
  "eth_send dst_mac ethertype payload s =
     (if 14 + length payload \<le> FRAME_MAX then
        Some (s\<lparr>sent := sent s @
          [dst_mac @ our_mac s @ le16 (htons16 ethertype) @ payload @ replicate (60 - (14 + length payload)) 0]\<rparr>)
      else None)"

text \<open>The ARP packet for an operation: 1 is a request, 2 a reply.\<close>

definition arp_packet :: "u16 \<Rightarrow> u8 list \<Rightarrow> u32 \<Rightarrow> net \<Rightarrow> u8 list" where
  "arp_packet op tha tpa s = le16 (htons16 1) @ le16 (htons16 0x0800) @ [6, 4] @ le16 (htons16 op) @
     our_mac s @ le32 (our_ip s) @ tha @ le32 tpa"

definition arp_request :: "u32 \<Rightarrow> net \<Rightarrow> net option" where
  "arp_request ip s = eth_send bcast_mac 0x0806 (arp_packet 1 (replicate 6 0) ip s) s"

text \<open>
  The loops \<open>while (timer\_get\_ticks() < deadline)\<close>: \<open>check\<close> is the body, which may find the answer,
  \<open>step\<close> what a turn does while the loop sleeps. The turns that are left over are returned.
\<close>

primrec wait_until :: "('t \<Rightarrow> net \<Rightarrow> net option) \<Rightarrow> (net \<Rightarrow> ('r option \<times> net) option) \<Rightarrow> u64 \<Rightarrow> 't list \<Rightarrow>
    net \<Rightarrow> ('r option \<times> net \<times> 't list) option" where
  "wait_until step check deadline [] s =
     (if ticks s < deadline then
        check s \<bind> (\<lambda>(r, s). case r of
          Some v \<Rightarrow> Some (Some v, s, [])
        | None \<Rightarrow> Some (None, s\<lparr>ticks := deadline\<rparr>, []))
      else Some (None, s, []))"
| "wait_until step check deadline (t # ts) s =
     (if ticks s < deadline then
        check s \<bind> (\<lambda>(r, s). case r of
          Some v \<Rightarrow> Some (Some v, s, t # ts)
        | None \<Rightarrow> step t s \<bind> wait_until step check deadline ts)
      else Some (None, s, t # ts))"

definition next_hop :: "u32 \<Rightarrow> net \<Rightarrow> u32" where
  "next_hop dst_ip s =
     (if our_mask s \<noteq> 0 \<and> dst_ip AND our_mask s \<noteq> our_ip s AND our_mask s then our_gw s else dst_ip)"

definition resolve_mac :: "('t \<Rightarrow> net \<Rightarrow> net option) \<Rightarrow> 't list \<Rightarrow> u32 \<Rightarrow> u32 \<Rightarrow> net \<Rightarrow>
    (u8 list option \<times> net \<times> 't list) option" where
  "resolve_mac step turns dst_ip timeout_ms s =
     (let hop = next_hop dst_ip s
      in if hop = 0xFFFFFFFF \<or> hop = 0 then Some (Some bcast_mac, s, turns)
         else case arp_cache_get hop (arp_cache s) of
           Some mac \<Rightarrow> Some (Some mac, s, turns)
         | None \<Rightarrow>
             let deadline = ticks s + ucast timeout_ms
             in arp_request hop s \<bind>
                wait_until step (\<lambda>s. Some (arp_cache_get hop (arp_cache s), s)) deadline turns)"

definition ip_header :: "u16 \<Rightarrow> u16 \<Rightarrow> u8 \<Rightarrow> u16 \<Rightarrow> u32 \<Rightarrow> u32 \<Rightarrow> u8 list" where
  "ip_header tlen ident proto csum src dst =
     [0x45, 0] @ le16 (htons16 tlen) @ le16 (htons16 ident) @ le16 (htons16 0x4000) @ [64, proto] @
     le16 csum @ le32 src @ le32 dst"

definition ip_send :: "('t \<Rightarrow> net \<Rightarrow> net option) \<Rightarrow> 't list \<Rightarrow> u32 \<Rightarrow> u8 \<Rightarrow> u8 list \<Rightarrow> net \<Rightarrow>
    (net \<times> 't list) option" where
  "ip_send step turns dst proto payload s =
     resolve_mac step turns dst 1000 s \<bind> (\<lambda>(mac, s, turns). case mac of
       None \<Rightarrow> Some (s, turns)
     | Some mac \<Rightarrow>
         if 20 + length payload \<le> FRAME_MAX then
           let tlen = of_nat (20 + length payload);
               csum = checksum16 (ip_header tlen (ip_id s) proto 0 (our_ip s) dst) 0;
               hdr = ip_header tlen (ip_id s) proto csum (our_ip s) dst
           in eth_send mac 0x0800 (hdr @ payload) (s\<lparr>ip_id := ip_id s + 1\<rparr>) \<bind> (\<lambda>s. Some (s, turns))
         else None)"

definition udp_send :: "('t \<Rightarrow> net \<Rightarrow> net option) \<Rightarrow> 't list \<Rightarrow> u32 \<Rightarrow> u16 \<Rightarrow> u16 \<Rightarrow> u8 list \<Rightarrow> net \<Rightarrow>
    (net \<times> 't list) option" where
  "udp_send step turns dst_ip sport dport payload s =
     (if 8 + length payload \<le> FRAME_MAX then
        ip_send step turns dst_ip 17
          (le16 (htons16 sport) @ le16 (htons16 dport) @ le16 (htons16 (of_nat (8 + length payload))) @ [0, 0] @ payload) s
      else None)"

section \<open>Receiving\<close>

definition handle_arp :: "u8 list \<Rightarrow> net \<Rightarrow> net option" where
  "handle_arp payload s =
     (if length payload < 28 then Some s
      else
        read_u16 payload 6 \<bind> (\<lambda>op. slice_at payload 8 6 \<bind> (\<lambda>sha. read_u32 payload 14 \<bind> (\<lambda>spa.
        read_u32 payload 24 \<bind> (\<lambda>tpa.
          let s = s\<lparr>arp_cache := arp_cache_put spa sha (arp_cache s)\<rparr>
          in if htons16 op = 1 \<and> our_ip s \<noteq> 0 \<and> tpa = our_ip s
             then eth_send sha 0x0806 (arp_packet 2 sha spa s) s
             else Some s)))))"

text \<open>
  The receive thread is the only one that fills the ARP cache, so while it waits itself nothing
  changes: its turns are empty.
\<close>

definition rx_ip_send :: "u32 \<Rightarrow> u8 \<Rightarrow> u8 list \<Rightarrow> net \<Rightarrow> net option" where
  "rx_ip_send dst proto payload s = map_option fst (ip_send (\<lambda>(_ :: unit) s. Some s) [] dst proto payload s)"

text \<open>The payload starts the list \<open>p\<close>; \<open>len\<close> is a C int and may be negative.\<close>

definition handle_icmp :: "u32 \<Rightarrow> u8 list \<Rightarrow> int \<Rightarrow> net \<Rightarrow> net option" where
  "handle_icmp src p len s =
     (if len < 8 then Some s
      else slice_at p 0 (nat len) \<bind> (\<lambda>pkt.
        if pkt ! 0 = 8 then
          if nat len \<le> FRAME_MAX then
            let pkt = pkt[0 := 0, 2 := 0, 3 := 0]; csum = le16 (checksum16 pkt 0)
            in rx_ip_send src 1 (pkt[2 := csum ! 0, 3 := csum ! 1]) s
          else None
        else
          read_u16 p 4 \<bind> (\<lambda>ident. read_u16 p 6 \<bind> (\<lambda>seq.
          if pkt ! 0 = 0 \<and> icmp_waiting s \<and> ident = icmp_id s \<and> seq = icmp_seq s
          then Some (s\<lparr>icmp_got := True\<rparr>) else Some s))))"

definition handle_udp :: "u32 \<Rightarrow> u8 list \<Rightarrow> int \<Rightarrow> net \<Rightarrow> net option" where
  "handle_udp src p len s =
     (if len < 8 then Some s
      else
        read_u16 p 2 \<bind> (\<lambda>dport. read_u16 p 4 \<bind> (\<lambda>ulen.
        if udp_port s \<noteq> 0 \<and> htons16 dport = udp_port s \<and> udp_len s = 0 then
          let dlen = int (unat (htons16 ulen)) - 8
          in if 0 < dlen \<and> dlen \<le> 1024 \<and> dlen \<le> len - 8 then
               slice_at p 8 (nat dlen) \<bind> (\<lambda>d. blit (udp_data s) 0 d \<bind> (\<lambda>buf.
               Some (s\<lparr>udp_data := buf, udp_src := src, udp_len := nat dlen\<rparr>)))
             else Some s
        else Some s)))"

definition handle_frame :: "u8 list \<Rightarrow> net \<Rightarrow> net option" where
  "handle_frame frame s =
     (if length frame < 14 then Some s
      else
        read_u16 frame 12 \<bind> (\<lambda>ethertype.
        let type = htons16 ethertype; payload = drop 14 frame; plen = length payload
        in if type = 0x0806 then handle_arp payload s
           else if type \<noteq> 0x0800 \<or> plen < 20 then Some s
           else
             read_u16 payload 2 \<bind> (\<lambda>tlen. read_u32 payload 12 \<bind> (\<lambda>src. read_u32 payload 16 \<bind> (\<lambda>dst.
             let ihl = unat (payload ! 0 AND 0xF) * 4;
                 dlen = int (unat (htons16 tlen)) - int ihl;
                 dlen = (if dlen < 0 \<or> dlen > int plen - int ihl then int plen - int ihl else dlen)
             in if our_ip s \<noteq> 0 \<and> dst \<noteq> our_ip s \<and> dst \<noteq> 0xFFFFFFFF then Some s
                else if payload ! 9 = 1 then handle_icmp src (drop ihl payload) dlen s
                else if payload ! 9 = 17 then handle_udp src (drop ihl payload) dlen s
                else Some s)))))"

text \<open>A turn of a waiting loop: ticks pass and the receive thread handles some frames.\<close>

type_synonym turn = "u64 \<times> u8 list list"

definition net_rx_thread :: "turn \<Rightarrow> net \<Rightarrow> net option" where
  "net_rx_thread t s = foldM handle_frame (snd t) (s\<lparr>ticks := ticks s + fst t\<rparr>)"
section \<open>DHCP client\<close>

text \<open>A message of type \<open>msg\<close>: the fixed part of 240 bytes, then the options.\<close>

definition dhcp_build :: "u8 \<Rightarrow> u32 \<Rightarrow> u32 \<Rightarrow> u32 \<Rightarrow> net \<Rightarrow> u8 list" where
  "dhcp_build msg xid req_ip server_ip s =
     [1, 1, 6, 0] @ le32 xid @ [0, 0] @ le16 (htons16 0x8000) @ replicate 16 0 @
     our_mac s @ replicate 10 0 @ replicate 64 0 @ replicate 128 0 @ le32 (htonl32 0x63825363) @
     [53, 1, msg] @ (if req_ip \<noteq> 0 then [50, 4] @ le32 req_ip else []) @
     (if server_ip \<noteq> 0 then [54, 4] @ le32 server_ip else []) @ [55, 3, 1, 3, 6, 255]"

text \<open>
  The walk over the options that three functions share: \<open>f\<close> gets the code and the length of an
  option, the offset of its value and the result so far. The options are the first \<open>olen\<close> bytes of \<open>opts\<close>.
\<close>

function dhcp_scan :: "(u8 \<Rightarrow> u8 \<Rightarrow> nat \<Rightarrow> 'a \<Rightarrow> 'a option) \<Rightarrow> u8 list \<Rightarrow> nat \<Rightarrow> nat \<Rightarrow> 'a \<Rightarrow> 'a option" where
  "dhcp_scan f opts olen i acc =
     (if i + 1 < olen then
        if i + 1 < length opts then
          if opts ! i = 255 then Some acc
          else if opts ! i = 0 then dhcp_scan f opts olen (i + 1) acc
          else f (opts ! i) (opts ! (i + 1)) (i + 2) acc \<bind>
               dhcp_scan f opts olen (i + 2 + unat (opts ! (i + 1)))
        else None
      else Some acc)"
  by pat_completeness auto
termination
  by (relation "measure (\<lambda>(f, opts, olen, i, acc). olen - i)") auto

declare dhcp_scan.simps [simp del]

definition scan_type :: "u8 list \<Rightarrow> u8 \<Rightarrow> u8 \<Rightarrow> nat \<Rightarrow> u8 \<Rightarrow> u8 option" where
  "scan_type opts code len j t =
     (if code = 53 then if j < length opts then Some (opts ! j) else None else Some t)"

text \<open>
  The body of the waiting loop: an answer is the datagram's first 240 bytes, the options copied to
  the caller's array and their number. A datagram that is not the answer is dropped.
\<close>

definition dhcp_check :: "u32 \<Rightarrow> u8 \<Rightarrow> u8 list \<Rightarrow> net \<Rightarrow> ((u8 list \<times> u8 list \<times> nat) option \<times> net) option" where
  "dhcp_check xid want opts s =
     (if udp_len s > 0 then
        (if udp_len s \<ge> 240 then
           read_u32 (udp_data s) 4 \<bind> (\<lambda>x.
           if udp_data s ! 0 = 2 \<and> x = xid then
             let o1 = drop 240 (udp_data s); olen = udp_len s - 240
             in dhcp_scan (scan_type o1) o1 olen 0 0 \<bind> (\<lambda>t.
                if t = want then
                  let olen = min olen 312
                  in slice_at o1 0 olen \<bind> (\<lambda>bs. blit opts 0 bs \<bind> (\<lambda>opts'.
                     Some (Some (take 240 (udp_data s), opts', olen))))
                else Some None)
           else Some None)
         else Some None) \<bind> (\<lambda>r. Some (r, s\<lparr>udp_len := 0\<rparr>))
      else Some (None, s))"

definition dhcp_wait :: "turn list \<Rightarrow> u32 \<Rightarrow> u8 \<Rightarrow> u8 list \<Rightarrow> u32 \<Rightarrow> net \<Rightarrow>
    ((u8 list \<times> u8 list \<times> nat) option \<times> net \<times> turn list) option" where
  "dhcp_wait turns xid want opts timeout_ms s =
     wait_until net_rx_thread (dhcp_check xid want opts) (ticks s + ucast timeout_ms) turns s"

definition scan_config :: "u8 list \<Rightarrow> u8 \<Rightarrow> u8 \<Rightarrow> nat \<Rightarrow> net \<Rightarrow> net option" where
  "scan_config opts code len j s =
     (if code = 1 \<and> len \<ge> 4 then map_option (\<lambda>v. s\<lparr>our_mask := v\<rparr>) (read_u32 opts j)
      else if code = 3 \<and> len \<ge> 4 then map_option (\<lambda>v. s\<lparr>our_gw := v\<rparr>) (read_u32 opts j)
      else if code = 6 \<and> len \<ge> 4 then map_option (\<lambda>v. s\<lparr>our_dns := v\<rparr>) (read_u32 opts j)
      else Some s)"

definition dhcp_parse_opts :: "u8 list \<Rightarrow> nat \<Rightarrow> net \<Rightarrow> net option" where
  "dhcp_parse_opts opts olen s = dhcp_scan (scan_config opts) opts olen 0 s"

definition scan_server :: "u8 list \<Rightarrow> u8 \<Rightarrow> u8 \<Rightarrow> nat \<Rightarrow> u32 \<Rightarrow> u32 option" where
  "scan_server opts code len j server = (if code = 54 then read_u32 opts j else Some server)"

text \<open>\<open>opts\<close> is the uninitialised array of 312 bytes on the stack.\<close>

definition net_dhcp :: "turn list \<Rightarrow> u8 list \<Rightarrow> u32 \<Rightarrow> net \<Rightarrow> (bool \<times> net \<times> turn list) option" where
  "net_dhcp turns opts timeout_ms s =
     (if \<not> nic_up s then Some (False, s, turns)
      else if configured s then Some (True, s, turns)
      else
        let xid = ucast (ticks s) XOR 0xC0C0A0A0; s = s\<lparr>udp_len := 0, udp_port := 68\<rparr>
        in udp_send net_rx_thread turns 0xFFFFFFFF 68 67 (dhcp_build 1 xid 0 0 s) s \<bind> (\<lambda>(s, turns).
           dhcp_wait turns xid 2 opts timeout_ms s \<bind> (\<lambda>(r, s, turns). case r of
             None \<Rightarrow> Some (False, s\<lparr>udp_port := 0\<rparr>, turns)
           | Some (reply, opts, olen) \<Rightarrow>
               read_u32 reply 16 \<bind> (\<lambda>offered. dhcp_scan (scan_server opts) opts olen 0 0 \<bind> (\<lambda>server.
               udp_send net_rx_thread turns 0xFFFFFFFF 68 67 (dhcp_build 3 xid offered server s) s \<bind> (\<lambda>(s, turns).
               dhcp_wait turns xid 5 opts timeout_ms s \<bind> (\<lambda>(r, s, turns). case r of
                 None \<Rightarrow> Some (False, s\<lparr>udp_port := 0\<rparr>, turns)
               | Some (reply, opts, olen) \<Rightarrow>
                   read_u32 reply 16 \<bind> (\<lambda>ip.
                   dhcp_parse_opts opts olen (s\<lparr>our_ip := ip\<rparr>) \<bind> (\<lambda>s.
                   Some (True, s\<lparr>udp_port := 0, configured := True\<rparr>, turns))))))))))"

section \<open>Ping\<close>

definition ping_packet :: "u16 \<Rightarrow> u8 list" where
  "ping_packet seq =
     (let pkt = [8, 0, 0, 0] @ le16 (htons16 0xC0C0) @ le16 (htons16 seq) @ map (\<lambda>i. 97 + of_nat (i mod 23)) [0..<32];
          csum = le16 (checksum16 pkt 0)
      in pkt[2 := csum ! 0, 3 := csum ! 1])"

definition ping_check :: "net \<Rightarrow> (unit option \<times> net) option" where
  "ping_check s = Some (if icmp_got s then (Some (), s\<lparr>icmp_waiting := False\<rparr>) else (None, s))"

definition net_ping :: "turn list \<Rightarrow> u32 \<Rightarrow> u16 \<Rightarrow> u32 \<Rightarrow> net \<Rightarrow> (int \<times> net \<times> turn list) option" where
  "net_ping turns ip seq timeout_ms s =
     (if \<not> configured s then Some (- 1, s, turns)
      else
        let s = s\<lparr>icmp_id := htons16 0xC0C0, icmp_seq := htons16 seq, icmp_got := False, icmp_waiting := True\<rparr>;
            t0 = ticks s; deadline = t0 + ucast timeout_ms
        in ip_send net_rx_thread turns ip 1 (ping_packet seq) s \<bind> (\<lambda>(s, turns).
           wait_until net_rx_thread ping_check deadline turns s \<bind> (\<lambda>(r, s, turns). Some (case r of
             Some _ \<Rightarrow> (sint (ucast (ticks s - t0) :: u32), s, turns)
           | None \<Rightarrow> (- 1, s\<lparr>icmp_waiting := False\<rparr>, turns)))))"

section \<open>Addresses as text\<close>

definition ip_format :: "u8 list" where
  "ip_format = [37, 100, 46, 37, 100, 46, 37, 100, 46, 37, 100]"

definition ip_to_str :: "u32 \<Rightarrow> u8 list \<Rightarrow> u8 list option" where
  "ip_to_str ip buf = map_option snd (vsnprintf buf 16 ip_format (map (\<lambda>b. Num (ucast b)) (le32 ip)))"

definition is_digit :: "u8 \<Rightarrow> bool" where
  "is_digit c \<longleftrightarrow> 48 \<le> c \<and> c \<le> 57"

text \<open>The digits of one part of an address; a value above 255 ends the parse at once.\<close>

fun parse_octet :: "nat \<Rightarrow> u8 list \<Rightarrow> (nat \<times> u8 list) option" where
  "parse_octet v (c # p) =
     (if is_digit c then
        let v = v * 10 + unat (c - 48) in if v > 255 then None else parse_octet v p
      else Some (v, c # p))"
| "parse_octet v [] = Some (v, [])"

text \<open>The parts from number \<open>4 - n\<close> on; the text is given without its NUL.\<close>

fun parse_octets :: "nat \<Rightarrow> u8 list \<Rightarrow> (nat list \<times> u8 list) option" where
  "parse_octets 0 p = Some ([], p)"
| "parse_octets (Suc n) p =
     (if p = [] \<or> \<not> is_digit (hd p) then None
      else parse_octet 0 p \<bind> (\<lambda>(v, p).
        if n = 0 then Some ([v], p)
        else case p of
          c # p \<Rightarrow> if c = 46 then parse_octets n p \<bind> (\<lambda>(vs, p). Some (v # vs, p)) else None
        | [] \<Rightarrow> None))"

definition str_to_ip :: "u8 list \<Rightarrow> u32 option" where
  "str_to_ip p = parse_octets 4 p \<bind> (\<lambda>(vs, p).
     if p = [] then read_u32 (map of_nat vs) 0 else None)"

section \<open>DNS resolver\<close>

function dns_labels :: "u8 list \<Rightarrow> nat \<Rightarrow> u8 list option" where
  "dns_labels p pos =
     (if p = [] then Some []
      else
        let l = takeWhile (\<lambda>c. c \<noteq> 46) p; len = length l
        in if len = 0 \<or> len > 63 \<or> pos + len + 1 > 500 then None
           else map_option (\<lambda>r. of_nat len # l @ r) (dns_labels (drop (len + 1) p) (pos + 1 + len)))"
  by pat_completeness auto
termination
  by (relation "measure (\<lambda>(p, pos). length p)") auto

declare dns_labels.simps [simp del]

definition dns_query :: "u16 \<Rightarrow> u8 list \<Rightarrow> u8 list" where
  "dns_query qid labels =
     [ucast (drop_bit 8 qid), ucast (qid AND 0xFF), 1, 0, 0, 1, 0, 0, 0, 0, 0, 0] @ labels @ [0, 0, 1, 0, 1]"

text \<open>Skipping a name, label by label, within the first \<open>rlen\<close> bytes.\<close>

function dns_skip :: "u8 list \<Rightarrow> nat \<Rightarrow> nat \<Rightarrow> nat option" where
  "dns_skip r rlen i =
     (if i < rlen then
        if i < length r then if r ! i \<noteq> 0 then dns_skip r rlen (i + unat (r ! i) + 1) else Some i else None
      else Some i)"
  by pat_completeness auto
termination
  by (relation "measure (\<lambda>(r, rlen, i). rlen - i)") auto

declare dns_skip.simps [simp del]

text \<open>The walk over the answer records; the outer option is a fault, the inner one the address.\<close>

primrec dns_answers :: "nat \<Rightarrow> u8 list \<Rightarrow> nat \<Rightarrow> nat \<Rightarrow> u32 option option" where
  "dns_answers 0 r rlen i = Some None"
| "dns_answers (Suc n) r rlen i =
     (if i + 12 \<le> rlen then
        (if i < length r then
           if r ! i AND 0xC0 = 0xC0 then Some (i + 2) else map_option Suc (dns_skip r rlen i)
         else None) \<bind> (\<lambda>i.
        if i + 10 > rlen then Some None
        else if i + 10 \<le> length r then
          let type = be16 (r ! i) (r ! (i + 1)); rdlen = be16 (r ! (i + 8)) (r ! (i + 9)); i = i + 10
          in if type = 1 \<and> rdlen = 4 \<and> i + 4 \<le> rlen then map_option Some (read_u32 r i)
             else dns_answers n r rlen (i + rdlen)
        else None)
      else Some None)"

definition dns_parse :: "u16 \<Rightarrow> u8 list \<Rightarrow> nat \<Rightarrow> u32 option option" where
  "dns_parse qid r rlen =
     (if rlen > 12 \<and> r ! 0 = ucast (drop_bit 8 qid) \<and> r ! 1 = ucast (qid AND 0xFF) then
        dns_skip r rlen 12 \<bind> (\<lambda>i. dns_answers (be16 (r ! 6) (r ! 7)) r rlen (i + 5))
      else Some None)"

definition dns_check :: "u16 \<Rightarrow> net \<Rightarrow> (u32 option \<times> net) option" where
  "dns_check qid s =
     (if udp_len s > 0 then
        dns_parse qid (udp_data s) (udp_len s) \<bind> (\<lambda>r. Some (case r of
          Some ip \<Rightarrow> (Some ip, s\<lparr>udp_port := 0, udp_len := 0\<rparr>)
        | None \<Rightarrow> (None, s\<lparr>udp_len := 0\<rparr>)))
      else Some (None, s))"

definition net_resolve :: "turn list \<Rightarrow> u8 list \<Rightarrow> u32 \<Rightarrow> net \<Rightarrow> (u32 option \<times> net \<times> turn list) option" where
  "net_resolve turns name timeout_ms s =
     (case str_to_ip name of
        Some ip \<Rightarrow> Some (Some ip, s, turns)
      | None \<Rightarrow>
          if \<not> configured s \<or> our_dns s = 0 then Some (None, s, turns)
          else
            let qid = ucast (ticks s)
            in case dns_labels name 12 of
                 None \<Rightarrow> Some (None, s, turns)
               | Some labels \<Rightarrow>
                   let sport = eport s; next = (if sport + 1 < 49152 then 49152 else sport + 1);
                       s = s\<lparr>eport := next, udp_len := 0, udp_port := sport\<rparr>
                   in udp_send net_rx_thread turns (our_dns s) sport 53 (dns_query qid labels) s \<bind> (\<lambda>(s, turns).
                      wait_until net_rx_thread (dns_check qid) (ticks s + ucast timeout_ms) turns s \<bind>
                        (\<lambda>(r, s, turns). Some (case r of
                          Some ip \<Rightarrow> (Some ip, s, turns)
                        | None \<Rightarrow> (None, s\<lparr>udp_port := 0\<rparr>, turns)))))"

text \<open>\<open>mac\<close> is what the probe of the network card answers.\<close>

definition net_init :: "u8 list option \<Rightarrow> net \<Rightarrow> net" where
  "net_init mac s = (case mac of None \<Rightarrow> s | Some m \<Rightarrow> s\<lparr>our_mac := m, nic_up := True\<rparr>)"

section \<open>Reading what was written\<close>

lemma words_length [simp]: "length (le16 v) = 2" "length (le32 w) = 4"
  by (simp_all add: le16_def le32_def)

lemma read_le32: "read_u32 (le32 ip) 0 = Some ip"
proof -
  have "ucast (ucast ip :: u8) OR push_bit 8 (ucast (ucast (drop_bit 8 ip) :: u8)) OR
      push_bit 16 (ucast (ucast (drop_bit 16 ip) :: u8)) OR push_bit 24 (ucast (ucast (drop_bit 24 ip) :: u8)) = ip"
    (is "?w = ip")
  proof (rule bit_word_eqI)
    fix n assume "n < LENGTH(32)"
    then consider "n < 8" | "8 \<le> n" "n < 16" | "16 \<le> n" "n < 24" | "24 \<le> n" "n < 32" by fastforce
    then show "bit ?w n = bit ip n" by cases (auto simp: bit_simps)
  qed
  then show ?thesis by (simp add: read_u32_def le32_def)
qed

lemma read_le16: "read_u16 (le16 v) 0 = Some v"
proof -
  have "ucast (ucast v :: u8) OR push_bit 8 (ucast (ucast (drop_bit 8 v) :: u8)) = v" (is "?w = v")
  proof (rule bit_word_eqI)
    fix n assume "n < LENGTH(16)"
    then consider "n < 8" | "8 \<le> n" "n < 16" by fastforce
    then show "bit ?w n = bit v n" by cases (auto simp: bit_simps)
  qed
  then show ?thesis by (simp add: read_u16_def le16_def)
qed

lemma read_u16_append: "length xs = n \<Longrightarrow> read_u16 (xs @ le16 v @ ys) n = Some v"
  using read_le16 [of v] by (auto simp: read_u16_def le16_def nth_append)

lemma read_u32_append: "length xs = n \<Longrightarrow> read_u32 (xs @ le32 v @ ys) n = Some v"
  using read_le32 [of v] by (auto simp: read_u32_def le32_def nth_append)

lemma htons16_htons16 [simp]: "htons16 (htons16 v) = v"
proof (rule bit_word_eqI)
  fix n assume "n < LENGTH(16)"
  then consider "n < 8" | "8 \<le> n" "n < 16" by fastforce
  then show "bit (htons16 (htons16 v)) n = bit v n" by cases (auto simp: htons16_def bit_simps)
qed

end
