(* ===== verification/NetChecksum.thy ===== *)
theory NetChecksum
  imports Net
begin

text \<open>
  The Internet checksum of \<open>net.c\<close>: the word arithmetic of \<open>checksum16\<close> is one's complement addition,
  so a packet with its checksum in place sums to 0xFFFF.
\<close>

section \<open>The checksum\<close>

fun bsum :: "u8 list \<Rightarrow> nat" where
  "bsum [] = 0"
| "bsum [a] = 256 * unat a"
| "bsum (a # b # p) = be16 a b + bsum p"

lemma bsum_le: "bsum p \<le> 65535 * length p"
proof (induction p rule: bsum.induct)
  case (2 a)
  then show ?case using unat_less_2p [of a] by simp
next
  case (3 a b p)
  then show ?case using unat_less_2p [of a] unat_less_2p [of b] by (simp add: be16_def)
qed simp

lemma bsum_append: "even (length xs) \<Longrightarrow> bsum (xs @ ys) = bsum xs + bsum ys"
  by (induction xs rule: bsum.induct) simp_all

lemma unat_shifted_byte: "unat (push_bit 8 (ucast (a :: u8)) :: u32) = 256 * unat a"
  using unat_less_2p [of a] by (simp add: push_bit_eq_mult unat_word_ariths unat_ucast_up)

lemma unat_be_word: "unat (push_bit 8 (ucast (a :: u8)) OR ucast (b :: u8) :: u32) = be16 a b"
proof -
  have "push_bit 8 (ucast a) AND ucast b = (0 :: u32)"
    by (rule bit_word_eqI) (auto simp: bit_simps dest: bit_imp_le_length)
  then have "push_bit 8 (ucast a) OR ucast b = (push_bit 8 (ucast a) + ucast b :: u32)"
    by (simp add: disjunctive_add_eq_or)
  then show ?thesis using unat_less_2p [of a] unat_less_2p [of b]
    by (simp only:, subst unat_plus_small) (simp_all add: unat_shifted_byte unat_ucast_up be16_def)
qed

lemma unat_sum16: "unat acc + bsum p < 2 ^ 32 \<Longrightarrow> unat (sum16 p acc) = unat acc + bsum p"
proof (induction p acc rule: sum16.induct)
  case (2 a acc)
  then show ?case by (simp, subst unat_plus_small) (simp_all add: unat_shifted_byte)
next
  case (3 a b p acc)
  have "unat (acc + (push_bit 8 (ucast a) OR ucast b)) = unat acc + be16 a b"
    using "3.prems" by (subst unat_plus_small) (simp_all add: unat_be_word)
  with "3.IH" "3.prems" show ?case by simp
qed simp

lemma fold16_spec:
  "unat (fold16 s) < 65536 \<and> unat (fold16 s) mod 65535 = unat s mod 65535 \<and> (fold16 s = 0 \<longleftrightarrow> s = 0)"
proof (induction s rule: fold16.induct)
  case (1 s)
  let ?t = "(s AND 0xFFFF) + drop_bit 16 s"
  have h: "unat (drop_bit 16 s) = unat s div 65536" by (simp add: drop_bit_eq_div unat_div)
  have "s AND 0xFFFF = take_bit 16 s" by (simp add: take_bit_eq_mask mask_eq_exp_minus_1)
  then have l: "unat (s AND 0xFFFF) = unat s mod 65536" by (simp add: take_bit_eq_mod unat_mod)
  show ?case
  proof (cases "drop_bit 16 s = 0")
    case True
    then have "unat s < 65536" using h by (metis div_eq_0_iff unat_0 zero_neq_numeral)
    with True show ?thesis by (simp add: fold16.simps [of s])
  next
    case False
    have t: "unat ?t = unat s mod 65536 + unat s div 65536"
      using l h unat_less_2p [of s] by (subst unat_plus_small) auto
    have s: "unat s = 65536 * (unat s div 65536) + unat s mod 65536" by simp
    have "unat s mod 65535 = unat ?t mod 65535"
    proof -
      have "unat s = unat ?t + 65535 * (unat s div 65536)" using s t by linarith
      then show ?thesis by (metis mod_mult_self2)
    qed
    moreover have "unat s div 65536 \<noteq> 0" using False h by (metis unat_eq_0)
    then have "?t \<noteq> 0" "s \<noteq> 0" using t by (metis add_is_0 unat_0, auto)
    moreover have "fold16 s = fold16 ?t" using False by (subst fold16.simps) simp
    ultimately show ?thesis using 1 [OF False] by simp
  qed
qed

lemma le16_htons16: "\<exists>hi lo. le16 (htons16 v) = [hi, lo] \<and> be16 hi lo = unat v"
proof -
  have v: "le16 (htons16 v) = [ucast (drop_bit 8 v), ucast v]"
    unfolding le16_def htons16_def list.inject by (auto simp: word_eq_bits bit_simps)
  have "unat (ucast (drop_bit 8 v) :: u8) = unat v div 256"
    using unat_less_2p [of v] by (simp add: unsigned_ucast_eq drop_bit_eq_div unat_div take_bit_eq_mod)
  moreover have "unat (ucast v :: u8) = unat v mod 256"
    by (simp add: unsigned_ucast_eq take_bit_eq_mod)
  ultimately have "be16 (ucast (drop_bit 8 v)) (ucast v) = unat v" by (simp add: be16_def)
  with v show ?thesis by blast
qed

lemma checksum_bytes: "\<exists>hi lo. le16 (checksum16 p acc) = [hi, lo] \<and> be16 hi lo = 65535 - unat (fold16 (sum16 p acc))"
proof -
  define f where "f = fold16 (sum16 p acc)"
  define g where "g = (ucast f :: u16)"
  have "unat f < 65536" using fold16_spec by (simp add: f_def)
  then have g: "unat g = unat f" by (simp add: g_def unsigned_ucast_eq take_bit_eq_mod)
  have m: "(0xFFFF :: u32) = mask 16" by (simp add: mask_eq_exp_minus_1)
  have "ucast (NOT f AND 0xFFFF) = NOT g"
    unfolding g_def m by (rule bit_word_eqI) (simp add: bit_simps)
  also have "NOT g = - 1 - g" by (simp add: not_eq_complement)
  finally have "unat (ucast (NOT f AND 0xFFFF) :: u16) = 65535 - unat g"
    by (simp add: unat_minus_small unsigned_minus_1_eq_mask mask_eq_exp_minus_1)
  with g le16_htons16 [of "ucast (NOT f AND 0xFFFF)"] show ?thesis
    by (simp add: checksum16_def f_def)
qed

lemma only_multiple:
  assumes "n < 65536" "n mod 65535 = 0" "n \<noteq> (0 :: nat)"
  shows "n = 65535"
proof -
  obtain k where k: "n = 65535 * k" using assms(2) by (auto simp: mod_eq_0_iff_dvd)
  with assms have "k < 2" "k \<noteq> 0" by auto
  then have "k = 1" by linarith
  with k show ?thesis by simp
qed

text \<open>
  The checksum the code puts into a header verifies. A packet whose checksum field, at an even
  offset, holds \<open>checksum16\<close> of the packet with zeros in that field has the one's complement sum
  0xFFFF, for packets of even and odd length up to 64 KiB.
\<close>

theorem checksum_verifies:
  assumes "even (length xs)" "length xs + length ys < 65534"
  shows "fold16 (sum16 (xs @ le16 (checksum16 (xs @ [0, 0] @ ys) 0) @ ys) 0) = 0xFFFF"
proof -
  let ?S = "bsum xs + bsum ys"
  let ?f = "fold16 (sum16 (xs @ [0, 0] @ ys) 0)"
  have S: "bsum (xs @ [0, 0] @ ys) = ?S" using assms(1) by (simp add: bsum_append be16_def)
  have b: "bsum (xs @ a # b # ys) < 2 ^ 32" for a b
    using bsum_le [of "xs @ a # b # ys"] assms(2) by simp
  have s0: "unat (sum16 (xs @ [0, 0] @ ys) 0) = ?S"
    using unat_sum16 [of 0 "xs @ [0, 0] @ ys"] b [of 0 0] S by simp
  obtain hi lo where c: "le16 (checksum16 (xs @ [0, 0] @ ys) 0) = [hi, lo]" "be16 hi lo = 65535 - unat ?f"
    using checksum_bytes by blast
  have "bsum (xs @ hi # lo # ys) = ?S + (65535 - unat ?f)"
    using assms(1) by (simp add: bsum_append c)
  then have s1: "unat (sum16 (xs @ hi # lo # ys) 0) = ?S + (65535 - unat ?f)"
    using unat_sum16 [of 0 "xs @ hi # lo # ys"] b [of hi lo] by simp
  note spec = fold16_spec [of "sum16 (xs @ [0, 0] @ ys) 0"]
  have f: "unat ?f < 65536" "unat ?f mod 65535 = ?S mod 65535" using spec unfolding s0 by blast+
  have f0: "unat ?f = 0" if "?S = 0"
  proof -
    have "sum16 (xs @ [0, 0] @ ys) 0 = 0" using s0 that by (simp only: unat_eq_0)
    with spec have "?f = 0" by blast
    then show ?thesis by (simp only: unat_0)
  qed
  have "(?S + (65535 - unat ?f)) mod 65535 = (unat ?f + (65535 - unat ?f)) mod 65535"
    by (rule mod_add_cong) (simp_all only: f(2))
  also have "\<dots> = 0" using f(1) by simp
  finally have mod: "(?S + (65535 - unat ?f)) mod 65535 = 0" .
  have nz: "?S + (65535 - unat ?f) \<noteq> 0" using f0 by linarith
  let ?g = "fold16 (sum16 (xs @ hi # lo # ys) 0)"
  note spec' = fold16_spec [of "sum16 (xs @ hi # lo # ys) 0"]
  have "unat ?g < 65536" "unat ?g mod 65535 = 0" using spec' mod unfolding s1 by simp_all
  moreover have "unat ?g \<noteq> 0" using spec' nz s1 by (metis unat_eq_0)
  ultimately have "unat ?g = 65535" by (rule only_multiple)
  then have "unat ?g = unat (0xFFFF :: u32)" by simp
  then have "?g = 0xFFFF" by (simp only: word_unat_eq_iff)
  with c show ?thesis by simp
qed

theorem checksum_verifies_witness:
  "fold16 (sum16 ([8, 0] @ le16 (checksum16 ([8, 0] @ [0, 0] @ [1, 2, 3]) 0) @ [1, 2, 3]) 0) = 0xFFFF"
  by (rule checksum_verifies) simp_all

end
