(* ===== verification/NetReceive.thy ===== *)
theory NetReceive
  imports Net
begin

text \<open>
  The receive path of \<open>net.c\<close> on arbitrary frames: what the handlers keep of the state and that they
  never leave a buffer.
\<close>

section \<open>Well-formed states\<close>

definition net_ok :: "net \<Rightarrow> bool" where
  [inv_simps]: "net_ok s \<longleftrightarrow> length (our_mac s) = 6 \<and> length (arp_cache s) = 8 \<and>
     (\<forall>e\<in>set (arp_cache s). length (arp_mac e) = 6) \<and> length (udp_data s) = 1024 \<and> udp_len s \<le> 1024"

definition net_config :: "net \<Rightarrow> bool \<times> bool \<times> u8 list \<times> u32 \<times> u32 \<times> u32 \<times> u32" where
  "net_config s = (nic_up s, configured s, our_mac s, our_ip s, our_mask s, our_gw s, our_dns s)"

text \<open>What handling one frame may do: send at most one frame of a legal size.\<close>

definition rx_step :: "net \<Rightarrow> net \<Rightarrow> bool" where
  "rx_step s t \<longleftrightarrow> net_ok t \<and> net_config t = net_config s \<and>
     (\<exists>fs. sent t = sent s @ fs \<and> length fs \<le> 1 \<and> list_all (\<lambda>f. 60 \<le> length f \<and> length f \<le> FRAME_MAX) fs)"

lemma rx_stepI0: "net_ok t \<Longrightarrow> net_config t = net_config s \<Longrightarrow> sent t = sent s \<Longrightarrow> rx_step s t"
  by (auto simp: rx_step_def)

lemma net_boot_ok: "net_ok net_boot"
  by (simp add: net_ok_def net_boot_def)

section \<open>ARP\<close>

lemma arp_cache_put_ok:
  assumes "length cache = 8" "\<forall>e\<in>set cache. length (arp_mac e) = 6" "length mac = 6"
  shows "length (arp_cache_put ip mac cache) = 8 \<and> (\<forall>e\<in>set (arp_cache_put ip mac cache). length (arp_mac e) = 6)"
  using assms by (auto simp: arp_cache_put_def split: option.splits dest!: set_update_subset_insert [THEN subsetD])

lemma arp_cache_get_ok:
  "arp_cache_get ip cache = Some mac \<Longrightarrow> \<forall>e\<in>set cache. length (arp_mac e) = 6 \<Longrightarrow> length mac = 6"
  by (auto simp: arp_cache_get_def find_Some_iff)

text \<open>A peer that has just been entered is found, and with its new address.\<close>

lemma arp_cache_get_put:
  assumes "cache \<noteq> []"
  shows "arp_cache_get ip (arp_cache_put ip mac cache) = Some mac"
proof (cases "find (\<lambda>i. arp_valid (cache ! i) \<and> arp_ip (cache ! i) = ip) [0..<length cache]")
  case (Some i)
  then have i: "i < length cache" "arp_valid (cache ! i)" "arp_ip (cache ! i) = ip"
    "\<forall>j<i. \<not> (arp_valid (cache ! j) \<and> arp_ip (cache ! j) = ip)"
    by (auto simp: find_Some_iff)
  have "find (\<lambda>e. arp_valid e \<and> arp_ip e = ip) (cache[i := (cache ! i)\<lparr>arp_mac := mac\<rparr>]) =
      Some ((cache ! i)\<lparr>arp_mac := mac\<rparr>)"
    unfolding find_Some_iff by (rule exI [of _ i]) (use i in auto)
  then show ?thesis by (simp add: arp_cache_get_def arp_cache_put_def Some)
next
  case None
  then have no: "\<And>j. j < length cache \<Longrightarrow> \<not> (arp_valid (cache ! j) \<and> arp_ip (cache ! j) = ip)"
    by (auto simp: find_None_iff)
  show ?thesis
  proof (cases "find (\<lambda>i. \<not> arp_valid (cache ! i)) [0..<length cache]")
    case (Some i)
    then have i: "i < length cache" by (auto simp: find_Some_iff)
    have "find (\<lambda>e. arp_valid e \<and> arp_ip e = ip) (cache[i := \<lparr>arp_ip = ip, arp_mac = mac, arp_valid = True\<rparr>]) =
        Some \<lparr>arp_ip = ip, arp_mac = mac, arp_valid = True\<rparr>"
      unfolding find_Some_iff by (rule exI [of _ i]) (use i no in auto)
    then show ?thesis by (simp add: arp_cache_get_def arp_cache_put_def None Some)
  next
    case full: None
    then have v: "arp_valid (cache ! 0)" using assms(1) by (auto simp: find_None_iff)
    have "find (\<lambda>e. arp_valid e \<and> arp_ip e = ip) (cache[0 := (cache ! 0)\<lparr>arp_ip := ip, arp_mac := mac\<rparr>]) =
        Some ((cache ! 0)\<lparr>arp_ip := ip, arp_mac := mac\<rparr>)"
      unfolding find_Some_iff by (rule exI [of _ 0]) (use assms(1) v in auto)
    then show ?thesis by (simp add: arp_cache_get_def arp_cache_put_def None full)
  qed
qed

section \<open>Sending from the receive thread\<close>

lemma eth_send_ok:
  assumes "net_ok s" "length mac = 6" "14 + length payload \<le> FRAME_MAX"
  shows "\<exists>t. eth_send mac ty payload s = Some t \<and> rx_step s t"
  using assms by (auto simp: eth_send_def rx_step_def net_ok_def net_config_def FRAME_MAX_def)

lemma rx_step_sent_eq:
  "rx_step s t \<Longrightarrow> net_config s = net_config r \<Longrightarrow> sent s = sent r \<Longrightarrow> rx_step r t"
  by (simp add: rx_step_def)

lemma rx_step_ticks: "rx_step s t \<Longrightarrow> rx_step s (t\<lparr>ticks := x\<rparr>)"
  by (auto simp: rx_step_def net_ok_def net_config_def)

lemma resolve_mac_rx:
  assumes "net_ok s"
  shows "(\<exists>mac. resolve_mac step ([] :: unit list) dst n s = Some (Some mac, s, []) \<and> length mac = 6) \<or>
    (\<exists>t. resolve_mac step ([] :: unit list) dst n s = Some (None, t, []) \<and> rx_step s t)"
proof -
  let ?hop = "next_hop dst s"
  show ?thesis
  proof (cases "?hop = 0xFFFFFFFF \<or> ?hop = 0")
    case True
    then show ?thesis by (auto simp: resolve_mac_def Let_def bcast_mac_def)
  next
    case hop: False
    show ?thesis
    proof (cases "arp_cache_get ?hop (arp_cache s)")
      case (Some mac)
      with arp_cache_get_ok [OF Some] assms hop show ?thesis
        by (auto simp: resolve_mac_def Let_def net_ok_def)
    next
      case None
      have "length (arp_packet 1 (replicate 6 0) ?hop s) = 28"
        using assms by (simp add: arp_packet_def net_ok_def)
      then obtain t where t: "arp_request ?hop s = Some t" "rx_step s t"
        using eth_send_ok [where mac = bcast_mac and payload = "arp_packet 1 (replicate 6 0) ?hop s" and ty = "0x0806", OF assms]
        by (auto simp: arp_request_def bcast_mac_def FRAME_MAX_def)
      have cache: "arp_cache t = arp_cache s"
        using t(1) by (auto simp: arp_request_def eth_send_def split: if_splits)
      have "resolve_mac step ([] :: unit list) dst n s =
          Some (None, if ticks t < ticks s + ucast n then t\<lparr>ticks := ticks s + ucast n\<rparr> else t, [])"
        using hop None t(1) by (simp add: resolve_mac_def Let_def cache)
      with t(2) rx_step_ticks [OF t(2)] show ?thesis by auto
    qed
  qed
qed

lemma rx_ip_send_ok:
  assumes "net_ok s" "34 + length payload \<le> FRAME_MAX"
  shows "\<exists>t. rx_ip_send dst proto payload s = Some t \<and> rx_step s t"
  using resolve_mac_rx [OF assms(1), of "\<lambda>_ s. Some s" dst 1000]
proof (elim disjE exE conjE)
  fix mac assume m: "resolve_mac (\<lambda>_ s. Some s) ([] :: unit list) dst 1000 s = Some (Some mac, s, [])" "length mac = 6"
  define s1 where "s1 = s\<lparr>ip_id := ip_id s + 1\<rparr>"
  have ok: "net_ok s1" using assms(1) by (simp add: s1_def net_ok_def)
  define hdr where "hdr = ip_header (of_nat (20 + length payload)) (ip_id s) proto
    (checksum16 (ip_header (of_nat (20 + length payload)) (ip_id s) proto 0 (our_ip s) dst) 0) (our_ip s) dst"
  have "length (hdr @ payload) = 20 + length payload" by (simp add: hdr_def ip_header_def)
  then obtain t where t: "eth_send mac 0x0800 (hdr @ payload) s1 = Some t" "rx_step s1 t"
    using eth_send_ok [where payload = "hdr @ payload" and ty = "0x0800", OF ok m(2)] assms(2) by auto
  have "rx_ip_send dst proto payload s = Some t"
    using m(1) assms(2) t(1) by (simp add: rx_ip_send_def ip_send_def Let_def hdr_def s1_def)
  moreover have "rx_step s t" by (rule rx_step_sent_eq [OF t(2)]) (simp_all add: s1_def net_config_def)
  ultimately show ?thesis by blast
next
  fix t assume "resolve_mac (\<lambda>_ s. Some s) ([] :: unit list) dst 1000 s = Some (None, t, [])" "rx_step s t"
  then show ?thesis by (auto simp: rx_ip_send_def ip_send_def)
qed

section \<open>The handlers\<close>

lemma read_u16_some: "i + 2 \<le> length bs \<Longrightarrow> \<exists>v. read_u16 bs i = Some v"
  by (simp add: read_u16_def)

lemma read_u32_some: "i + 4 \<le> length bs \<Longrightarrow> \<exists>v. read_u32 bs i = Some v"
  by (simp add: read_u32_def)

lemma slice_at_some: "off + n \<le> length bs \<Longrightarrow> \<exists>v. slice_at bs off n = Some v \<and> length v = n"
  by (simp add: slice_at_def)

lemma handle_arp_ok:
  assumes "net_ok s"
  shows "\<exists>t. handle_arp p s = Some t \<and> rx_step s t"
proof (cases "length p < 28")
  case False
  then have len: "28 \<le> length p" by simp
  from len obtain op sha spa tpa where r: "read_u16 p 6 = Some op" "slice_at p 8 6 = Some sha" "length sha = 6"
    "read_u32 p 14 = Some spa" "read_u32 p 24 = Some tpa"
    using read_u16_some [of 6 p] slice_at_some [of 8 6 p] read_u32_some [of 14 p] read_u32_some [of 24 p] by fastforce
  define s1 where "s1 = s\<lparr>arp_cache := arp_cache_put spa sha (arp_cache s)\<rparr>"
  have ok: "net_ok s1"
    using arp_cache_put_ok [of "arp_cache s" sha spa] assms r(3) by (simp add: s1_def net_ok_def)
  have s1: "net_config s1 = net_config s" "sent s1 = sent s" by (simp_all add: s1_def net_config_def)
  have eq: "handle_arp p s = (if htons16 op = 1 \<and> our_ip s1 \<noteq> 0 \<and> tpa = our_ip s1
      then eth_send sha 0x0806 (arp_packet 2 sha spa s1) s1 else Some s1)"
    using False r by (simp add: handle_arp_def Let_def s1_def)
  have "length (arp_packet 2 sha spa s1) = 28" using ok r(3) by (simp add: arp_packet_def net_ok_def)
  then obtain t where t: "eth_send sha 0x0806 (arp_packet 2 sha spa s1) s1 = Some t" "rx_step s1 t"
    using eth_send_ok [where payload = "arp_packet 2 sha spa s1" and ty = "0x0806", OF ok r(3)] by (auto simp: FRAME_MAX_def)
  show ?thesis
    using t(1) rx_step_sent_eq [OF t(2) s1] rx_stepI0 [OF ok s1] unfolding eq by simp
qed (use assms in \<open>auto simp: handle_arp_def intro: rx_stepI0\<close>)

lemma handle_icmp_ok:
  assumes "net_ok s" "len \<le> int (length p)" "len \<le> 1566"
  shows "\<exists>t. handle_icmp src p len s = Some t \<and> rx_step s t"
proof (cases "len < 8")
  case False
  then have len: "8 \<le> length p" "nat len \<le> length p" using assms(2) by auto
  from len obtain pkt ident seq where r: "slice_at p 0 (nat len) = Some pkt" "length pkt = nat len"
    "read_u16 p 4 = Some ident" "read_u16 p 6 = Some seq"
    using slice_at_some [of 0 "nat len" p] read_u16_some [of 4 p] read_u16_some [of 6 p] by fastforce
  show ?thesis
  proof (cases "pkt ! 0 = 8")
    case True
    have small: "34 + nat len \<le> FRAME_MAX" using assms(3) by (simp add: FRAME_MAX_def)
    define out where "out = (let pkt = pkt[0 := 0, 2 := 0, 3 := 0]; csum = le16 (checksum16 pkt 0)
      in pkt[2 := csum ! 0, 3 := csum ! 1])"
    have "length out = nat len" by (simp add: out_def Let_def r(2))
    then obtain t where "rx_ip_send src 1 out s = Some t" "rx_step s t"
      using rx_ip_send_ok [OF assms(1), of out src 1] small by auto
    with True False r small show ?thesis by (simp add: handle_icmp_def Let_def out_def)
  next
    case not8: False
    have "rx_step s s" "rx_step s (s\<lparr>icmp_got := True\<rparr>)"
      using assms(1) by (auto intro!: rx_stepI0 simp: net_ok_def net_config_def)
    with False r not8 show ?thesis by (simp add: handle_icmp_def)
  qed
qed (use assms in \<open>auto simp: handle_icmp_def intro: rx_stepI0\<close>)

lemma handle_udp_ok:
  assumes "net_ok s" "len \<le> int (length p)"
  shows "\<exists>t. handle_udp src p len s = Some t \<and> rx_step s t"
proof (cases "len < 8")
  case False
  then have len: "8 \<le> length p" using assms(2) by auto
  from len obtain dport ulen where r: "read_u16 p 2 = Some dport" "read_u16 p 4 = Some ulen"
    using read_u16_some [of 2 p] read_u16_some [of 4 p] by fastforce
  have same: "rx_step s s" using assms(1) by (auto intro: rx_stepI0)
  define dlen where "dlen = int (unat (htons16 ulen)) - 8"
  show ?thesis
  proof (cases "udp_port s \<noteq> 0 \<and> htons16 dport = udp_port s \<and> udp_len s = 0 \<and> 0 < dlen \<and> dlen \<le> 1024 \<and> dlen \<le> len - 8")
    case True
    then have "8 + nat dlen \<le> length p" using assms(2) by linarith
    then obtain d where d: "slice_at p 8 (nat dlen) = Some d" "length d = nat dlen"
      using slice_at_some by blast
    have "length d \<le> length (udp_data s)" using True d(2) assms(1) by (auto simp: net_ok_def)
    then obtain buf where buf: "blit (udp_data s) 0 d = Some buf" by (simp add: blit_def)
    have "rx_step s (s\<lparr>udp_data := buf, udp_src := src, udp_len := nat dlen\<rparr>)"
      using assms(1) blit_length [OF buf] True
      by (intro rx_stepI0) (auto simp: net_ok_def net_config_def)
    moreover have "handle_udp src p len s = Some (s\<lparr>udp_data := buf, udp_src := src, udp_len := nat dlen\<rparr>)"
      using False r True d buf unfolding dlen_def by (simp add: handle_udp_def Let_def)
    ultimately show ?thesis by blast
  next
    case False2: False
    have "handle_udp src p len s = Some s"
      using False r False2 by (auto simp: handle_udp_def Let_def dlen_def)
    with same show ?thesis by blast
  qed
qed (use assms in \<open>auto simp: handle_udp_def intro: rx_stepI0\<close>)

lemma handle_frame_lemma:
  assumes "net_ok s" "length frame \<le> 1580"
  shows "\<exists>t. handle_frame frame s = Some t \<and> rx_step s t"
proof -
  have same: "rx_step s s" using assms(1) by (auto intro: rx_stepI0)
  show ?thesis
  proof (cases "length frame < 14")
    case True
    with same show ?thesis by (simp add: handle_frame_def)
  next
    case len: False
    then obtain et where et: "read_u16 frame 12 = Some et" using read_u16_some [of 12 frame] by auto
    let ?p = "drop 14 frame"
    show ?thesis
    proof (cases "htons16 et = 0x0806 \<or> htons16 et \<noteq> 0x0800 \<or> length ?p < 20")
      case True
      with handle_arp_ok [OF assms(1), of ?p] same len et show ?thesis
        by (auto simp: handle_frame_def Let_def)
    next
      case False
      then obtain tl src dst where r: "read_u16 ?p 2 = Some tl" "read_u32 ?p 12 = Some src" "read_u32 ?p 16 = Some dst"
        using read_u16_some [of 2 ?p] read_u32_some [of 12 ?p] read_u32_some [of 16 ?p] by fastforce
      define ihl where "ihl = unat (?p ! 0 AND 0xF) * 4"
      define dlen where "dlen = (let d = int (unat (htons16 tl)) - int ihl
        in if d < 0 \<or> d > int (length ?p) - int ihl then int (length ?p) - int ihl else d)"
      have dl: "dlen \<le> int (length ?p) - int ihl" by (auto simp: dlen_def Let_def)
      then have d1: "dlen \<le> int (length (drop ihl ?p)) \<or> dlen < 8" by auto
      have d2: "dlen \<le> 1566" using dl assms(2) by auto
      have eq: "handle_frame frame s =
          (if our_ip s \<noteq> 0 \<and> dst \<noteq> our_ip s \<and> dst \<noteq> 0xFFFFFFFF then Some s
           else if ?p ! 9 = 1 then handle_icmp src (drop ihl ?p) dlen s
           else if ?p ! 9 = 17 then handle_udp src (drop ihl ?p) dlen s else Some s)"
        using False len et r by (simp add: handle_frame_def Let_def ihl_def dlen_def)
      have "\<exists>t. handle_icmp src (drop ihl ?p) dlen s = Some t \<and> rx_step s t"
        using d1
      proof
        assume "dlen < 8"
        with same show ?thesis by (simp add: handle_icmp_def)
      qed (rule handle_icmp_ok [OF assms(1) _ d2])
      moreover have "\<exists>t. handle_udp src (drop ihl ?p) dlen s = Some t \<and> rx_step s t"
        using d1
      proof
        assume "dlen < 8"
        with same show ?thesis by (simp add: handle_udp_def)
      qed (rule handle_udp_ok [OF assms(1)])
      ultimately show ?thesis using same unfolding eq by simp
    qed
  qed
qed

text \<open>
  C10: no frame can make the receive path leave a buffer. For every frame of up to 1580 bytes (the
  card is set up to drop anything over 1522), whatever its header fields claim, handling it runs
  to the end with every read inside the frame and every write inside its target, keeps the state
  well-formed and the configuration unchanged, and sends at most one frame, of legal size.
\<close>

theorem handle_frame_safe:
  assumes "net_ok s" "length frame \<le> 1580"
  shows "\<exists>t. handle_frame frame s = Some t \<and> rx_step s t"
  by (rule handle_frame_lemma [OF assms])

theorem handle_frame_safe_witness:
  "\<exists>t. handle_frame (replicate 12 0xFF @ [8, 0, 0x4F, 0, 0xFF, 0xFF] @ replicate 40 1) net_boot = Some t \<and>
     net_config t = net_config net_boot"
  using handle_frame_safe [OF net_boot_ok, of "replicate 12 0xFF @ [8, 0, 0x4F, 0, 0xFF, 0xFF] @ replicate 40 1"]
  by (auto simp: rx_step_def)
section \<open>Echo requests\<close>

text \<open>
  An echo request for us as it comes from the wire: the fields nobody looks at are arbitrary. The
  reply carries the same identifier, sequence number and data.
\<close>

definition echo_request :: "u8 list \<Rightarrow> u8 \<Rightarrow> u8 list \<Rightarrow> u8 \<Rightarrow> u8 list \<Rightarrow> u32 \<Rightarrow> u32 \<Rightarrow> u8 \<Rightarrow> u8 list \<Rightarrow> u8 list \<Rightarrow> u8 list" where
  "echo_request macs tos idfrag ttl cs src dst code icmpcs rest =
     macs @ le16 (htons16 0x0800) @
     ([0x45, tos] @ le16 (htons16 (of_nat (24 + length rest))) @ idfrag @ [ttl, 1] @ cs @ le32 src @ le32 dst) @
     [8, code] @ icmpcs @ rest"

definition echo_reply :: "u8 list \<Rightarrow> u8 list \<Rightarrow> u16 \<Rightarrow> u32 \<Rightarrow> u32 \<Rightarrow> u8 \<Rightarrow> u8 list \<Rightarrow> u8 list" where
  "echo_reply mac from ident src dst code rest =
     (let n = of_nat (24 + length rest);
          hdr = ip_header n ident 1 (checksum16 (ip_header n ident 1 0 src dst) 0) src dst;
          icmp = [0, code] @ le16 (checksum16 ([0, code, 0, 0] @ rest) 0) @ rest
      in mac @ from @ le16 (htons16 0x0800) @ hdr @ icmp @ replicate (60 - (38 + length rest)) 0)"

lemma slice_whole: "n = length p \<Longrightarrow> slice_at p 0 n = Some p"
  by (simp add: slice_at_def)

lemma rx_ip_send_cached:
  assumes "next_hop dst s \<noteq> 0" "next_hop dst s \<noteq> 0xFFFFFFFF"
    and "arp_cache_get (next_hop dst s) (arp_cache s) = Some mac" "34 + length payload \<le> FRAME_MAX"
  shows "rx_ip_send dst proto payload s = Some (s\<lparr>ip_id := ip_id s + 1, sent := sent s @
    [mac @ our_mac s @ le16 (htons16 0x0800) @ ip_header (of_nat (20 + length payload)) (ip_id s) proto
       (checksum16 (ip_header (of_nat (20 + length payload)) (ip_id s) proto 0 (our_ip s) dst) 0) (our_ip s) dst @
     payload @ replicate (60 - (34 + length payload)) 0]\<rparr>)"
proof -
  have "resolve_mac (\<lambda>(_ :: unit) s. Some s) [] dst 1000 s = Some (Some mac, s, [])"
    using assms by (simp add: resolve_mac_def Let_def)
  moreover have len: "length (ip_header a b c d e f) = 20" for a b c d e f by (simp add: ip_header_def)
  ultimately show ?thesis
    using assms(4) by (simp add: rx_ip_send_def ip_send_def Let_def eth_send_def len)
qed

lemma handle_icmp_echo:
  assumes "length icmpcs = 2" "4 \<le> length rest" "38 + length rest \<le> FRAME_MAX"
  shows "handle_icmp src ([8, code] @ icmpcs @ rest) (int (4 + length rest)) s =
    rx_ip_send src 1 ([0, code] @ le16 (checksum16 ([0, code, 0, 0] @ rest) 0) @ rest) s"
proof -
  obtain a b where cs: "icmpcs = [a, b]" using assms(1) by (auto simp: length_Suc_conv numeral_2_eq_2)
  obtain c d where c: "le16 (checksum16 ([0, code, 0, 0] @ rest) 0) = [c, d]" by (simp add: le16_def)
  have "nat (int (4 + length rest)) = length ([8, code] @ icmpcs @ rest)" by (simp add: cs)
  note sl = slice_whole [OF this]
  have upd: "([8, code] @ icmpcs @ rest)[0 := 0, 2 := 0, 3 := 0] = [0, code, 0, 0] @ rest"
    by (simp add: cs numeral_2_eq_2 numeral_3_eq_3)
  have upd2: "([0, code, 0, 0] @ rest)[2 := c, 3 := d] = [0, code] @ [c, d] @ rest"
    by (simp add: numeral_2_eq_2 numeral_3_eq_3)
  have "nat (int (4 + length rest)) \<le> FRAME_MAX" "\<not> int (4 + length rest) < 8" using assms by auto
  moreover have "([8, code] @ icmpcs @ rest) ! 0 = 8" "[c, d] ! 1 = d" by simp_all
  ultimately show ?thesis
    by (simp only: handle_icmp_def sl Option.bind.bind_lunit Let_def upd c nth_Cons_0 upd2 if_False if_True simp_thms)
qed

text \<open>
  C38: pings are answered. An echo request addressed to us, from a sender whose next hop is in the
  ARP cache, makes \<open>handle\_frame\<close> send exactly one frame: the echo reply to the sender, with the
  request's code, identifier, sequence number and data and with fresh checksums in the IP and the ICMP
  header. Nothing else of the state changes but the IP identification counter.
\<close>

theorem echo_request_answered:
  assumes "length macs = 12" "length idfrag = 4" "length cs = 2" "length icmpcs = 2"
    and "4 \<le> length rest" "38 + length rest \<le> 1580" "our_ip s \<noteq> 0"
    and "next_hop src s \<noteq> 0" "next_hop src s \<noteq> 0xFFFFFFFF"
    and "arp_cache_get (next_hop src s) (arp_cache s) = Some mac"
  shows "handle_frame (echo_request macs tos idfrag ttl cs src (our_ip s) code icmpcs rest) s =
    Some (s\<lparr>ip_id := ip_id s + 1,
      sent := sent s @ [echo_reply mac (our_mac s) (ip_id s) (our_ip s) src code rest]\<rparr>)"
proof -
  define n where "n = length rest"
  define tl where "tl = le16 (htons16 (of_nat (24 + n)))"
  define hdr where "hdr = [0x45, tos] @ tl @ idfrag @ [ttl, 1] @ cs @ le32 src @ le32 (our_ip s)"
  define icmp where "icmp = [8, code] @ icmpcs @ rest"
  define frame where "frame = macs @ le16 (htons16 0x0800) @ hdr @ icmp"
  have frame: "echo_request macs tos idfrag ttl cs src (our_ip s) code icmpcs rest = frame"
    by (simp add: echo_request_def frame_def hdr_def tl_def icmp_def n_def)
  have tl2: "length tl = 2" by (simp add: tl_def)
  have lens: "length hdr = 20" "length icmp = 4 + n" using assms tl2 by (simp_all add: hdr_def icmp_def n_def)
  have flen: "\<not> length frame < 14" by (simp add: frame_def lens assms(1))
  have et: "read_u16 frame 12 = Some (htons16 0x0800)"
    unfolding frame_def by (rule read_u16_append) (rule assms(1))
  have pay: "drop 14 frame = hdr @ icmp" by (simp add: frame_def assms(1))
  have r2: "read_u16 (hdr @ icmp) 2 = Some (htons16 (of_nat (24 + n)))"
    using read_u16_append [of "[0x45, tos]" 2] by (simp add: hdr_def tl_def)
  have r12: "read_u32 (hdr @ icmp) 12 = Some src"
    using read_u32_append [of "[0x45, tos] @ tl @ idfrag @ [ttl, 1] @ cs" 12 src "le32 (our_ip s) @ icmp"] assms tl2
    by (simp add: hdr_def)
  have r16: "read_u32 (hdr @ icmp) 16 = Some (our_ip s)"
    using read_u32_append [of "[0x45, tos] @ tl @ idfrag @ [ttl, 1] @ cs @ le32 src" 16 "our_ip s" icmp] assms tl2
    by (simp add: hdr_def)
  have proto: "(hdr @ icmp) ! 9 = 1" using tl2 assms(2) by (simp add: hdr_def nth_append)
  have ihl: "unat ((hdr @ icmp) ! 0 AND 0xF) * 4 = 20" by (simp add: hdr_def)
  have d20: "drop 20 (hdr @ icmp) = icmp" using lens by simp
  have small: "24 + n < 2 ^ LENGTH(16)" using assms(6) by (simp add: n_def)
  then have "unat (of_nat (24 + n) :: u16) = 24 + n" by (rule unat_of_nat_small)
  then have "int (unat (of_nat (24 + n) :: u16)) = int (24 + n)" by (rule arg_cong)
  then have tot: "uint (of_nat (24 + n) :: u16) = int (24 + n)" by (simp del: of_nat_add)
  have minus: "int (24 + n) - 20 = int (4 + n)" by simp
  have "handle_frame frame s = handle_icmp src icmp (int (4 + n)) s"
    unfolding handle_frame_def
    using flen et lens assms(7) by (simp add: Let_def pay r2 r12 r16 proto ihl d20 tot minus del: of_nat_add)
  also have "\<dots> = rx_ip_send src 1 ([0, code] @ le16 (checksum16 ([0, code, 0, 0] @ rest) 0) @ rest) s"
    unfolding icmp_def n_def by (rule handle_icmp_echo) (use assms in \<open>simp_all add: FRAME_MAX_def\<close>)
  also have "\<dots> = Some (s\<lparr>ip_id := ip_id s + 1,
      sent := sent s @ [echo_reply mac (our_mac s) (ip_id s) (our_ip s) src code rest]\<rparr>)"
    by (subst rx_ip_send_cached [OF assms(8-10)])
      (use assms in \<open>simp_all add: FRAME_MAX_def echo_reply_def Let_def ac_simps\<close>)
  finally show ?thesis unfolding frame .
qed

definition pinged_net :: net where
  "pinged_net = net_boot\<lparr>configured := True, our_ip := 0x0F02000A, our_mask := 0x00FFFFFF, our_gw := 0x0202000A,
     arp_cache := arp_cache_put 0x0202000A [2, 2, 2, 2, 2, 2] (replicate 8 \<lparr>arp_ip = 0, arp_mac = replicate 6 0, arp_valid = False\<rparr>)\<rparr>"

theorem echo_request_answered_witness:
  "handle_frame (echo_request (replicate 12 1) 0 [0, 1, 0, 0] 64 [0, 0] 0x08080808 (our_ip pinged_net) 0 [0, 0] [1, 2, 3, 4, 97]) pinged_net =
     Some (pinged_net\<lparr>ip_id := ip_id pinged_net + 1, sent := sent pinged_net @
       [echo_reply [2, 2, 2, 2, 2, 2] (our_mac pinged_net) (ip_id pinged_net) (our_ip pinged_net) 0x08080808 0 [1, 2, 3, 4, 97]]\<rparr>)"
proof (rule echo_request_answered)
  have hop: "next_hop 0x08080808 pinged_net = 0x0202000A" by (simp add: next_hop_def pinged_net_def)
  then show "next_hop 0x08080808 pinged_net \<noteq> 0" "next_hop 0x08080808 pinged_net \<noteq> 0xFFFFFFFF" by simp_all
  show "arp_cache_get (next_hop 0x08080808 pinged_net) (arp_cache pinged_net) = Some [2, 2, 2, 2, 2, 2]"
    unfolding hop by (simp add: pinged_net_def) (rule arp_cache_get_put, simp)
qed (simp_all add: pinged_net_def)

section \<open>DNS answers\<close>

lemma dns_skip_some: "rlen \<le> length r \<Longrightarrow> \<exists>j. dns_skip r rlen i = Some j \<and> i \<le> j"
proof (induction "rlen - i" arbitrary: i rule: less_induct)
  case less
  show ?case
  proof (cases "i < rlen \<and> r ! i \<noteq> 0")
    case True
    then have "rlen - (i + unat (r ! i) + 1) < rlen - i" by linarith
    from less.hyps [OF this less.prems] obtain j where
      "dns_skip r rlen (i + unat (r ! i) + 1) = Some j" "i + unat (r ! i) + 1 \<le> j" by blast
    with True less.prems show ?thesis by (subst dns_skip.simps) auto
  next
    case False
    then have "dns_skip r rlen i = Some i" using less.prems by (subst dns_skip.simps) auto
    then show ?thesis by simp
  qed
qed

lemma dns_answers_some: "rlen \<le> length r \<Longrightarrow> \<exists>x. dns_answers n r rlen i = Some x"
proof (induction n arbitrary: i)
  case (Suc n)
  show ?case
  proof (cases "i + 12 \<le> rlen")
    case True
    then have i: "i < length r" using Suc.prems by simp
    obtain j where j: "dns_skip r rlen i = Some j" using dns_skip_some [OF Suc.prems] by blast
    have go: "\<exists>x. (if k + 10 > rlen then Some None
        else if k + 10 \<le> length r then
          let type = be16 (r ! k) (r ! (k + 1)); rdlen = be16 (r ! (k + 8)) (r ! (k + 9)); i = k + 10
          in if type = 1 \<and> rdlen = 4 \<and> i + 4 \<le> rlen then map_option Some (read_u32 r i)
             else dns_answers n r rlen (i + rdlen)
        else None) = Some x" for k
      using Suc.IH [OF Suc.prems] Suc.prems by (auto simp: Let_def read_u32_def)
    show ?thesis
      using True i j go [of "i + 2"] go [of "Suc j"] by (auto simp: Let_def)
  qed simp
qed simp

text \<open>
  Parsing a DNS answer always ends and never leaves the datagram's buffer, whatever the bytes of
  the datagram are: label lengths, record counts and record lengths are all taken from it.
\<close>

theorem dns_parse_total:
  assumes "rlen \<le> length r"
  shows "\<exists>answer. dns_parse qid r rlen = Some answer"
proof -
  obtain i where "dns_skip r rlen 12 = Some i" using dns_skip_some [OF assms] by blast
  with dns_answers_some [OF assms] show ?thesis by (simp add: dns_parse_def)
qed

theorem dns_parse_total_witness:
  "\<exists>answer. dns_parse 7 (replicate 64 0xFF) 64 = Some answer"
  by (rule dns_parse_total) simp

end
