(* ===== verification/NetAddress.thy ===== *)
theory NetAddress
  imports Net
begin

text \<open>
  Addresses as text: what \<open>ip\_to\_str\<close> prints through the format engine, \<open>str\_to\_ip\<close> reads back.
\<close>

section \<open>Digits of an octet\<close>

definition octet :: "nat \<Rightarrow> u8 list" where
  "octet n = (if n < 10 then [48 + of_nat n]
     else if n < 100 then [48 + of_nat (n div 10), 48 + of_nat (n mod 10)]
     else [48 + of_nat (n div 100), 48 + of_nat (n div 10 mod 10), 48 + of_nat (n mod 10)])"

lemma digits_octet:
  assumes "0 < n" "n < 256"
  shows "rev (digits_rev False 10 n) = octet n"
proof -
  have step: "digits_rev False 10 m = digit_char False (m mod 10) # digits_rev False 10 (m div 10)" if "0 < m" for m
    using that by (subst digits_rev.simps) simp
  have digit: "digit_char False m = 48 + of_nat m" if "m < 10" for m using that by (simp add: digit_char_def)
  consider "n < 10" | "10 \<le> n" "n < 100" | "100 \<le> n" by linarith
  then show ?thesis
  proof cases
    case 1
    with assms show ?thesis by (simp add: step [of n] digit octet_def)
  next
    case 2
    then have "0 < n div 10" "n div 10 < 10" "n div 10 div 10 = 0" by auto
    with 2 assms show ?thesis by (simp add: step [of n] step [of "n div 10"] digit octet_def)
  next
    case 3
    then have "0 < n div 10" "0 < n div 100" "n div 100 < 10" "n div 100 div 10 = 0"
      "n div 10 div 10 = n div 100"
      using assms by (auto simp: div_mult2_eq [symmetric])
    with 3 assms show ?thesis
      by (simp add: step [of n] step [of "n div 10"] step [of "n div 100"] digit octet_def)
  qed
qed

lemma number_octet: "number_text (of_nat n) 10 False False 0 False False = octet n" if "n < 256"
proof (cases "n = 0")
  case True
  then show ?thesis by (simp add: number_text_def number_tmp_def pad_text_def octet_def)
next
  case False
  have u: "unat (of_nat n :: u64) = n" using that by (simp add: unat_of_nat_small)
  then have "(of_nat n :: u64) \<noteq> 0" using False by (metis unat_0)
  with u digits_octet [of n] False that show ?thesis
    by (simp add: number_text_def number_tmp_def pad_text_def)
qed

section \<open>Printing\<close>

lemma directive_d: "directive (100 # f) = ((False, False, 0, 0), 100 # f)"
  by (simp add: directive_def)

lemma sint_small: "n < 2 ^ 31 \<Longrightarrow> sint (of_nat n :: u32) = int n" "n < 2 ^ 63 \<Longrightarrow> sint (of_nat n :: u64) = int n"
  by (simp_all add: signed_of_nat signed_take_bit_int_eq_self)

lemma convert_d: "n < 256 \<Longrightarrow> convert_text 100 False False 0 0 (Num (of_nat n) # as) = Some (as, octet n)"
proof -
  assume n: "n < 256"
  have "scast (of_nat n :: u32) = (of_nat n :: u64)"
    using n by (simp add: signed_of_nat signed_take_bit_int_eq_self)
  then have s: "signed_arg 0 (of_nat n) = of_nat n" by (simp add: signed_arg_def ucast_of_nat_down)
  have "\<not> sint (of_nat n :: u64) < 0" using sint_small(2) [of n] n by simp
  then show ?thesis using n by (simp add: convert_text_def s number_octet Let_def)
qed

lemma convert_octet: "convert_text 100 False False 0 0 (Num (ucast (b :: u8)) # as) = Some (as, octet (unat b))"
  using convert_d [of "unat b" as] unat_less_2p [of b] by simp

lemma format_ip:
  "format_text ip_format [Num (ucast a), Num (ucast b), Num (ucast c), Num (ucast d)] =
     Some (octet (unat a) @ 46 # octet (unat b) @ 46 # octet (unat c) @ 46 # octet (unat d))"
  for a b c d :: u8
  unfolding ip_format_def by (simp add: directive_d convert_octet)

lemma octet_length: "n < 256 \<Longrightarrow> length (octet n) \<le> 3"
  by (simp add: octet_def)

lemma ip_to_str_text:
  assumes "16 \<le> length buf"
  shows "\<exists>a b c d. le32 ip = [a, b, c, d] \<and>
    ip_to_str ip buf = Some ((octet (unat a) @ 46 # octet (unat b) @ 46 # octet (unat c) @ 46 # octet (unat d)) @
      [0] @ drop (length (octet (unat a) @ 46 # octet (unat b) @ 46 # octet (unat c) @ 46 # octet (unat d)) + 1) buf)"
proof -
  obtain a b c d where w: "le32 ip = [a, b, c, d]" by (simp add: le32_def)
  have l: "length (octet (unat x)) \<le> 3" for x :: u8
    using octet_length [of "unat x"] unat_less_2p [of x] by simp
  define t where "t = octet (unat a) @ 46 # octet (unat b) @ 46 # octet (unat c) @ 46 # octet (unat d)"
  have "length t \<le> 15" using l [of a] l [of b] l [of c] l [of d] by (simp add: t_def)
  then have "vsnprintf buf 16 ip_format [Num (ucast a), Num (ucast b), Num (ucast c), Num (ucast d)] =
      Some (length t, t @ [0] @ drop (length t + 1) buf)"
    using vsnprintf_lemma [of 16 buf ip_format] assms by (simp add: format_ip t_def [symmetric])
  then have "ip_to_str ip buf = Some (t @ [0] @ drop (length t + 1) buf)"
    by (simp add: ip_to_str_def w)
  with w show ?thesis unfolding t_def by blast
qed

section \<open>Reading back\<close>

lemma unat_digit: "d < 10 \<Longrightarrow> unat (48 + of_nat d - 48 :: u8) = d"
  by (simp add: unat_of_nat_small)

lemma is_digit_digit: "d < 10 \<Longrightarrow> is_digit (48 + of_nat d)"
proof -
  assume d: "d < 10"
  have "unat (48 + of_nat d :: u8) = 48 + d"
    using d by (subst unat_plus_small) (simp_all add: unat_of_nat_small)
  then show ?thesis using d by (simp add: is_digit_def word_le_nat_alt)
qed

lemma parse_digit:
  "d < 10 \<Longrightarrow> parse_octet v ((48 + of_nat d) # p) = (if v * 10 + d > 255 then None else parse_octet (v * 10 + d) p)"
  by (simp add: is_digit_digit unat_of_nat_small)

lemma parse_octet_octet:
  assumes "n < 256" "p = [] \<or> \<not> is_digit (hd p)"
  shows "parse_octet 0 (octet n @ p) = Some (n, p)"
proof -
  have stop: "parse_octet v p = Some (v, p)" for v using assms(2) by (cases p) simp_all
  note d = parse_digit stop
  have 1: "parse_octet 0 ((48 + of_nat x) # p) = Some (x, p)" if "x < 10" for x
    using that by (simp add: d del: parse_octet.simps)
  have 2: "parse_octet 0 ((48 + of_nat x) # (48 + of_nat y) # p) = Some (10 * x + y, p)"
    if "x < 10" "y < 10" for x y
    using that by (simp add: d del: parse_octet.simps)
  have 3: "parse_octet 0 ((48 + of_nat x) # (48 + of_nat y) # (48 + of_nat z) # p) = Some ((x * 10 + y) * 10 + z, p)"
    if "x < 10" "y < 10" "z < 10" "(x * 10 + y) * 10 + z < 256" for x y z
  proof -
    have "x * 10 + y < 256" using that(4) by simp
    then show ?thesis using that by (simp add: d del: parse_octet.simps distrib_right)
  qed
  have n: "(n div 100 * 10 + n div 10 mod 10) * 10 + n mod 10 = n" "10 * (n div 10) + n mod 10 = n"
  proof -
    have "n div 100 = n div 10 div 10" by (simp flip: div_mult2_eq)
    then show "(n div 100 * 10 + n div 10 mod 10) * 10 + n mod 10 = n" by (simp only: div_mult_mod_eq)
    show "10 * (n div 10) + n mod 10 = n" by (rule mult_div_mod_eq)
  qed
  consider "n < 10" | "\<not> n < 10" "n < 100" | "\<not> n < 10" "\<not> n < 100" by blast
  then show ?thesis
  proof cases
    case 1
    then show ?thesis using \<open>\<And>x. x < 10 \<Longrightarrow> parse_octet 0 ((48 + of_nat x) # p) = Some (x, p)\<close> [OF 1]
      by (simp only: octet_def if_True append_Cons append_Nil)
  next
    case c: 2
    then have "n div 10 < 10" "n mod 10 < 10" by auto
    from 2 [OF this] n(2) c show ?thesis by (simp only: octet_def if_True if_False append_Cons append_Nil)
  next
    case c: 3
    have "n div 100 < 10" "n div 10 mod 10 < 10" "n mod 10 < 10" using assms(1) by auto
    from 3 [OF this] n(1) c assms(1) show ?thesis by (simp only: octet_def if_True if_False append_Cons append_Nil)
  qed
qed

lemma octet_hd: "n < 256 \<Longrightarrow> octet n \<noteq> [] \<and> is_digit (hd (octet n))"
  by (auto simp: octet_def is_digit_digit)

lemma parse_octets_ip:
  assumes "a < 256" "b < 256" "c < 256" "d < 256"
  shows "parse_octets 4 (octet a @ 46 # octet b @ 46 # octet c @ 46 # octet d) = Some ([a, b, c, d], [])"
proof -
  have dot: "\<not> is_digit 46" by (simp add: is_digit_def)
  have step: "parse_octets (Suc n) (octet x @ q) = (if n = 0 then Some ([x], q) else case q of
          c # p \<Rightarrow> if c = 46 then parse_octets n p \<bind> (\<lambda>(vs, p). Some (x # vs, p)) else None
        | [] \<Rightarrow> None)" if "x < 256" "q = [] \<or> \<not> is_digit (hd q)" for n x q
    using octet_hd [OF that(1)] by (simp add: parse_octet_octet [OF that] hd_append)
  have four: "4 = Suc (Suc (Suc (Suc 0)))" by simp
  have "parse_octets (Suc 0) (octet d) = Some ([d], [])" using step [OF assms(4), of "[]" 0] by (simp del: parse_octets.simps)
  moreover have "parse_octets (Suc (Suc n)) (octet x @ 46 # q) = parse_octets (Suc n) q \<bind> (\<lambda>(vs, p). Some (x # vs, p))"
    if "x < 256" for n x q
    using step [OF that, of "46 # q" "Suc n"] dot by (simp del: parse_octets.simps)
  ultimately show ?thesis unfolding four using assms by (simp del: parse_octets.simps)
qed

lemma octet_plain: "n < 256 \<Longrightarrow> 0 \<notin> set (octet n)"
proof -
  have "48 + of_nat d \<noteq> (0 :: u8)" if "d < 10" for d
    using is_digit_digit [OF that] by (auto simp: is_digit_def)
  moreover assume "n < 256"
  ultimately show ?thesis by (auto simp: octet_def)
qed

text \<open>
  Addresses survive printing and parsing. For every address and every buffer of at least 16
  bytes, \<open>ip\_to\_str\<close> succeeds inside the buffer, and \<open>str\_to\_ip\<close> reads the string it leaves there
  back to the same address.
\<close>

theorem str_to_ip_of_ip_to_str:
  assumes "16 \<le> length buf"
  shows "\<exists>out. ip_to_str ip buf = Some out \<and> length out = length buf \<and> str_to_ip (c_string out) = Some ip"
proof -
  obtain a b c d where w: "le32 ip = [a, b, c, d]" and o: "ip_to_str ip buf =
      Some ((octet (unat a) @ 46 # octet (unat b) @ 46 # octet (unat c) @ 46 # octet (unat d)) @
      [0] @ drop (length (octet (unat a) @ 46 # octet (unat b) @ 46 # octet (unat c) @ 46 # octet (unat d)) + 1) buf)"
    using ip_to_str_text [OF assms] by blast
  define t where "t = octet (unat a) @ 46 # octet (unat b) @ 46 # octet (unat c) @ 46 # octet (unat d)"
  have l: "unat x < 256" for x :: u8 using unat_less_2p [of x] by simp
  have "length (octet (unat x)) \<le> 3" for x :: u8 using octet_length [OF l] .
  from this [of a] this [of b] this [of c] this [of d] have len: "length t \<le> 15" by (simp add: t_def)
  have "0 \<notin> set t" using octet_plain [OF l] by (simp add: t_def)
  then have "c_string (t @ [0] @ drop (length t + 1) buf) = t"
    by (simp add: c_string_def takeWhile_neq_append)
  moreover have "str_to_ip t = Some ip"
    using parse_octets_ip [OF l l l l, of a b c d] read_le32 [of ip] by (simp add: str_to_ip_def t_def w)
  ultimately show ?thesis using o len assms unfolding t_def [symmetric] by simp
qed

theorem str_to_ip_of_ip_to_str_witness:
  "\<exists>out. ip_to_str 0x0102A8C0 (replicate 16 9) = Some out \<and> str_to_ip (c_string out) = Some 0x0102A8C0"
  using str_to_ip_of_ip_to_str [of "replicate 16 9" "0x0102A8C0"] by auto

end
