(* ===== verification/Shell.thy ===== *)
theory Shell
  imports Kprintf VfsTree Keyboard
begin

text \<open>
  The interactive shell of \<open>shell.c\<close> on the file system, the terminal and the keyboard: splitting a
  line into words, the commands on files and on the shell's own state, the line editor and its
  history. Commands that belong to other parts (games, network, language models, threads, power) are
  one function of the environment. \<open>None\<close> is a fault: a pointer to a freed node or an access outside
  a buffer.
\<close>

section \<open>State\<close>

text \<open>
  The line holds the bytes before the cursor; the history is the list of its lines, oldest first.
\<close>

record shell =
  history :: "u8 list list"
  cwd :: u64
  line :: "u8 list"
  hist_pos :: int
  files :: "heap vfs"
  screen :: term_state

text \<open>
  What stays fixed: the font, the root node, the bytes found on the stack and in fresh heap memory,
  the clock, and the commands that are not modelled here.
\<close>

record env =
  e_font :: font
  e_root :: u64
  e_stack :: "u8 list"
  e_junk :: "nat \<Rightarrow> u8"
  e_now :: u64
  e_other :: "u8 list list \<Rightarrow> shell \<Rightarrow> shell option"

definition HISTORY_MAX :: nat where "HISTORY_MAX = 16"
definition LINE_MAX :: nat where "LINE_MAX = 256"
definition ARGV_MAX :: nat where "ARGV_MAX = 16"

definition TERM_COLOR_CYAN :: u32 where "TERM_COLOR_CYAN = 0x008BE9FD"
definition TERM_COLOR_MAGENTA :: u32 where "TERM_COLOR_MAGENTA = 0x00FF79C6"
definition TERM_COLOR_GRAY :: u32 where "TERM_COLOR_GRAY = 0x00888888"

section \<open>Output\<close>

definition on_screen :: "(term_state \<Rightarrow> term_state option) \<Rightarrow> shell \<Rightarrow> shell option" where
  "on_screen op sh = map_option (\<lambda>t. sh\<lparr>screen := t\<rparr>) (op (screen sh))"

definition print :: "env \<Rightarrow> u8 list \<Rightarrow> shell \<Rightarrow> shell option" where
  "print e cs = on_screen (term_print (e_font e) cs)"

definition print_color :: "env \<Rightarrow> u8 list \<Rightarrow> u32 \<Rightarrow> shell \<Rightarrow> shell option" where
  "print_color e cs fg = on_screen (term_print_with_color (e_font e) cs fg TERM_COLOR_BLACK)"

definition print_char :: "env \<Rightarrow> u8 \<Rightarrow> shell \<Rightarrow> shell option" where
  "print_char e c = on_screen (\<lambda>t. term_print_char (e_font e) c (cur_fg t) (cur_bg t) t)"

definition print_fmt :: "env \<Rightarrow> u8 list \<Rightarrow> arg list \<Rightarrow> shell \<Rightarrow> shell option" where
  "print_fmt e fmt args = on_screen (term_printf (e_font e) (e_stack e) fmt args)"

definition clear :: "shell \<Rightarrow> shell option" where
  "clear = on_screen (term_clear TERM_COLOR_BLACK)"

definition prompt :: "env \<Rightarrow> shell \<Rightarrow> shell option" where
  "prompt e sh =
     vfs_node_path (nodes (files sh)) (if cwd sh \<noteq> 0 then cwd sh else e_root e) 128 \<bind> (\<lambda>path.
     print_color e (bytes ''choco'') TERM_COLOR_MAGENTA sh \<bind>
     print_color e (bytes '' '') TERM_COLOR_WHITE \<bind>
     print_color e path TERM_COLOR_CYAN \<bind>
     print_color e (bytes '' > '') TERM_COLOR_WHITE)"

section \<open>Commands\<close>

text \<open>Each command gets the words of the line, the command's own name first.\<close>

definition cmd_clear :: "env \<Rightarrow> u8 list list \<Rightarrow> shell \<Rightarrow> shell option" where
  "cmd_clear e argv = clear"

primrec echo_loop :: "env \<Rightarrow> u8 list list \<Rightarrow> shell \<Rightarrow> shell option" where
  "echo_loop e [] sh = Some sh"
| "echo_loop e (a # as) sh =
     print e a sh \<bind> (\<lambda>sh. if as \<noteq> [] then print e [32] sh else Some sh) \<bind> echo_loop e as"

definition cmd_echo :: "env \<Rightarrow> u8 list list \<Rightarrow> shell \<Rightarrow> shell option" where
  "cmd_echo e argv sh = echo_loop e (tl argv) sh \<bind> print e [10]"

definition cmd_uptime :: "env \<Rightarrow> u8 list list \<Rightarrow> shell \<Rightarrow> shell option" where
  "cmd_uptime e argv =
     (let ms = e_now e
      in print_fmt e (bytes ''up %lu:%02lu:%02lu (%lu ms)'' @ [10])
           [Num (ms div 3600000), Num (ms div 60000 mod 60), Num (ms div 1000 mod 60), Num ms])"

definition cmd_fetch :: "env \<Rightarrow> u8 list list \<Rightarrow> shell \<Rightarrow> shell option" where
  "cmd_fetch e argv sh =
     (let brown = 0x8b4513; key_color = 0xe80c5c; up = e_now e div 1000; h = vheap (files sh)
      in vsnprintf (take 64 (e_stack e)) 64 (bytes ''%lum %lus'' @ [10]) [Num (up div 60), Num (up mod 60)] \<bind> (\<lambda>(_, upbuf).
         vsnprintf (take 64 (e_stack e)) 64 (bytes ''%lu/%lu MiB heap'' @ [10])
           [Num (used_size h div (1024 * 1024)), Num (total_size h div (1024 * 1024))] \<bind> (\<lambda>(_, membuf).
         print e [10] sh \<bind>
         print_color e (bytes ''    /'' @ [92] @ bytes ''_/'' @ [92] @ bytes ''       '') brown \<bind>
         print_color e (bytes ''OS: '') key_color \<bind>
         print e (bytes ''Choco OS x86_64'' @ [10]) \<bind>
         print_color e (bytes ''   ( o.o )      '') brown \<bind>
         print_color e (bytes ''Kernel: '') key_color \<bind>
         print e (bytes ''Choco Kernel (threads + ramfs + llm)'' @ [10]) \<bind>
         print_color e (bytes ''    > ^ <       '') brown \<bind>
         print_color e (bytes ''Uptime: '') key_color \<bind>
         print e (c_string upbuf) \<bind>
         print_color e (bytes ''                '') brown \<bind>
         print_color e (bytes ''Memory: '') key_color \<bind>
         print e (c_string membuf) \<bind>
         print e [10])))"

definition cmd_free :: "env \<Rightarrow> u8 list list \<Rightarrow> shell \<Rightarrow> shell option" where
  "cmd_free e argv sh =
     print_fmt e (bytes ''heap: %lu KiB used / %lu KiB total'' @ [10])
       [Num (used_size (vheap (files sh)) div 1024), Num (total_size (vheap (files sh)) div 1024)] sh"

definition ls_row :: "env \<Rightarrow> vnode \<Rightarrow> shell \<Rightarrow> shell option" where
  "ls_row e n sh =
     (if v_is_dir n then print_color e (v_name n) TERM_COLOR_CYAN sh else print e (v_name n) sh) \<bind>
     (\<lambda>sh. if \<not> v_is_dir n then print_fmt e (bytes ''  (%lu)'') [Num (v_size n)] sh else Some sh) \<bind>
     print e [10]"

partial_function (option) ls_loop :: "env \<Rightarrow> u64 \<Rightarrow> shell \<Rightarrow> shell option" where
  "ls_loop e c sh =
     (if c = 0 then Some sh
      else nodes (files sh) c \<bind> (\<lambda>n. ls_row e n sh \<bind> ls_loop e (v_next n)))"

definition cmd_ls :: "env \<Rightarrow> u8 list list \<Rightarrow> shell \<Rightarrow> shell option" where
  "cmd_ls e argv sh =
     (if length argv > 1 then vfs_resolve (e_root e) (nodes (files sh)) (argv ! 1) (cwd sh) else Some (cwd sh)) \<bind> (\<lambda>dir.
     if length argv > 1 \<and> dir = 0 then print_fmt e (bytes ''ls: %s: not found'' @ [10]) [Str (Some (argv ! 1))] sh
     else nodes (files sh) dir \<bind> (\<lambda>d.
       if \<not> v_is_dir d then print_fmt e (bytes ''%s'' @ [10]) [Str (Some (v_name d))] sh
       else ls_loop e (v_children d) sh))"

text \<open>One byte of a file on the screen: what is not printable is a gray dot.\<close>

definition cat_byte :: "env \<Rightarrow> u8 \<Rightarrow> shell \<Rightarrow> shell option" where
  "cat_byte e c =
     (if c = 9 \<or> c = 10 \<or> (c \<ge> 32 \<and> c < 127) then print_char e c
      else on_screen (\<lambda>t. term_print_char (e_font e) 46 TERM_COLOR_GRAY (cur_bg t) t))"

text \<open>The bytes of a file as a reader finds them: the first \<open>v\_size\<close> of its data object.\<close>

definition file_data :: "heap vfs \<Rightarrow> vnode \<Rightarrow> u8 list option" where
  "file_data s n =
     (if v_size n = 0 then Some [] else objects s (v_data n) \<bind> (\<lambda>ob. slice_at ob 0 (unat (v_size n))))"

definition cmd_cat :: "env \<Rightarrow> u8 list list \<Rightarrow> shell \<Rightarrow> shell option" where
  "cmd_cat e argv sh =
     (if length argv < 2 then print e (bytes ''usage: cat <file>'' @ [10]) sh
      else vfs_resolve (e_root e) (nodes (files sh)) (argv ! 1) (cwd sh) \<bind> (\<lambda>f.
        if f = 0 then print_fmt e (bytes ''cat: %s: not found'' @ [10]) [Str (Some (argv ! 1))] sh
        else nodes (files sh) f \<bind> (\<lambda>n.
          if v_is_dir n then print_fmt e (bytes ''cat: %s: not found'' @ [10]) [Str (Some (argv ! 1))] sh
          else file_data (files sh) n \<bind> (\<lambda>bs.
            foldM (cat_byte e) bs sh \<bind> (\<lambda>sh.
            if bs \<noteq> [] \<and> last bs \<noteq> 10 then print e [10] sh else Some sh)))))"

definition on_files :: "(heap vfs \<Rightarrow> ('r \<times> heap vfs) option) \<Rightarrow> shell \<Rightarrow> ('r \<times> shell) option" where
  "on_files op sh = map_option (\<lambda>(r, s). (r, sh\<lparr>files := s\<rparr>)) (op (files sh))"

text \<open>Writing the words one after the other, with a space between two of them.\<close>

primrec write_words :: "env \<Rightarrow> u64 \<Rightarrow> bool \<Rightarrow> u8 list list \<Rightarrow> u64 \<Rightarrow> shell \<Rightarrow> (u64 \<times> shell) option" where
  "write_words e f first [] off sh = Some (off, sh)"
| "write_words e f first (w # ws) off sh =
     (if first then Some (off, sh)
      else map_option (\<lambda>(_, sh). (off + 1, sh)) (on_files (vfs_write kernel_heap (e_junk e) f [32] off 1) sh)) \<bind>
     (\<lambda>(off, sh).
       on_files (vfs_write kernel_heap (e_junk e) f w off (of_nat (length w))) sh \<bind> (\<lambda>(_, sh).
       write_words e f False ws (off + of_nat (length w)) sh))"

definition cmd_write :: "env \<Rightarrow> u8 list list \<Rightarrow> shell \<Rightarrow> shell option" where
  "cmd_write e argv sh =
     (if length argv < 3 then print e (bytes ''usage: write <file> <text...>'' @ [10]) sh
      else vfs_resolve_parent (e_root e) (nodes (files sh)) (argv ! 1) (cwd sh) \<bind> (\<lambda>(dir, leaf). case leaf of
        None \<Rightarrow> print_fmt e (bytes ''write: bad path %s'' @ [10]) [Str (Some (argv ! 1))] sh
      | Some lf \<Rightarrow>
          if dir = 0 then print_fmt e (bytes ''write: bad path %s'' @ [10]) [Str (Some (argv ! 1))] sh
          else
            let name = takeWhile (\<lambda>c. c \<noteq> SLASH) (take (VFS_NAME_MAX - 1) lf)
            in vfs_resolve (e_root e) (nodes (files sh)) (argv ! 1) (cwd sh) \<bind> (\<lambda>f.
               (if f = 0 then on_files (vfs_create kernel_heap dir name False) sh else Some (f, sh)) \<bind> (\<lambda>(f, sh).
               (if f = 0 then Some True
                else map_option (\<lambda>n. v_is_dir n \<or> v_readonly n) (nodes (files sh) f)) \<bind> (\<lambda>bad.
               if bad then print_fmt e (bytes ''write: cannot write %s'' @ [10]) [Str (Some (argv ! 1))] sh
               else
                 on_files (vfs_truncate kernel_heap (e_junk e) f 0) sh \<bind> (\<lambda>(_, sh).
                 write_words e f True (drop 2 argv) 0 sh \<bind> (\<lambda>(off, sh).
                 on_files (vfs_write kernel_heap (e_junk e) f [10] off 1) sh \<bind> (\<lambda>(_, sh).
                 Some sh))))))))"

definition cmd_mkdir :: "env \<Rightarrow> u8 list list \<Rightarrow> shell \<Rightarrow> shell option" where
  "cmd_mkdir e argv sh =
     (if length argv < 2 then print e (bytes ''usage: mkdir <dir>'' @ [10]) sh
      else on_files (vfs_mkdirs kernel_heap (e_root e) (argv ! 1) (cwd sh)) sh \<bind> (\<lambda>(d, sh).
        if d = 0 then print_fmt e (bytes ''mkdir: cannot create %s'' @ [10]) [Str (Some (argv ! 1))] sh else Some sh))"

definition cmd_rm :: "env \<Rightarrow> u8 list list \<Rightarrow> shell \<Rightarrow> shell option" where
  "cmd_rm e argv sh =
     (if length argv < 2 then print e (bytes ''usage: rm <path>'' @ [10]) sh
      else vfs_resolve (e_root e) (nodes (files sh)) (argv ! 1) (cwd sh) \<bind> (\<lambda>n.
        if n = 0 then print_fmt e (bytes ''rm: %s: not found'' @ [10]) [Str (Some (argv ! 1))] sh
        else on_files (vfs_unlink kernel_heap (e_root e) n) sh \<bind> (\<lambda>(r, sh).
          if sint r < 0 then print_fmt e (bytes ''rm: cannot remove %s'' @ [10]) [Str (Some (argv ! 1))] sh else Some sh)))"

definition cmd_cd :: "env \<Rightarrow> u8 list list \<Rightarrow> shell \<Rightarrow> shell option" where
  "cmd_cd e argv sh =
     (if length argv < 2 then Some (sh\<lparr>cwd := e_root e\<rparr>)
      else vfs_resolve (e_root e) (nodes (files sh)) (argv ! 1) (cwd sh) \<bind> (\<lambda>n.
        if n = 0 then print_fmt e (bytes ''cd: %s: not a directory'' @ [10]) [Str (Some (argv ! 1))] sh
        else nodes (files sh) n \<bind> (\<lambda>nd.
          if \<not> v_is_dir nd then print_fmt e (bytes ''cd: %s: not a directory'' @ [10]) [Str (Some (argv ! 1))] sh
          else Some (sh\<lparr>cwd := n\<rparr>))))"

definition cmd_pwd :: "env \<Rightarrow> u8 list list \<Rightarrow> shell \<Rightarrow> shell option" where
  "cmd_pwd e argv sh =
     vfs_node_path (nodes (files sh)) (cwd sh) 128 \<bind> (\<lambda>path.
     print_fmt e (bytes ''%s'' @ [10]) [Str (Some path)] sh)"

primrec history_loop :: "env \<Rightarrow> u64 \<Rightarrow> u8 list list \<Rightarrow> shell \<Rightarrow> shell option" where
  "history_loop e i [] sh = Some sh"
| "history_loop e i (h # hs) sh =
     print_fmt e (bytes ''  %d  %s'' @ [10]) [Num (i + 1), Str (Some h)] sh \<bind> history_loop e (i + 1) hs"

definition cmd_history :: "env \<Rightarrow> u8 list list \<Rightarrow> shell \<Rightarrow> shell option" where
  "cmd_history e argv sh = history_loop e 0 (history sh) sh"

text \<open>The table of commands: name and help text.\<close>

definition command_table :: "(u8 list \<times> u8 list) list" where
  "command_table =
     [(bytes ''help'', bytes ''list commands''), (bytes ''fetch'', bytes ''system info''),
      (bytes ''clear'', bytes ''clear the screen''), (bytes ''echo'', bytes ''print arguments''),
      (bytes ''uptime'', bytes ''time since boot''), (bytes ''free'', bytes ''heap usage''),
      (bytes ''ls'', bytes ''list directory''), (bytes ''cat'', bytes ''print file contents''),
      (bytes ''write'', bytes ''write text to a file''), (bytes ''mkdir'', bytes ''create directory''),
      (bytes ''rm'', bytes ''remove file or empty dir''), (bytes ''cd'', bytes ''change directory''),
      (bytes ''pwd'', bytes ''print working directory''), (bytes ''ps'', bytes ''list threads''),
      (bytes ''ifconfig'', bytes ''network status (runs DHCP)''), (bytes ''ping'', bytes ''ICMP echo a host''),
      (bytes ''nslookup'', bytes ''resolve a hostname''), (bytes ''date'', bytes ''read the real-time clock''),
      (bytes ''history'', bytes ''show command history''), (bytes ''sleep'', bytes ''sleep N milliseconds''),
      (bytes ''llm'', bytes ''generate text with the in-kernel LLM''),
      (bytes ''chat'', bytes ''ChocoCord: chat with the LLM bots''), (bytes ''snake'', bytes ''play snake''),
      (bytes ''pong'', bytes ''play pong''), (bytes ''memmap'', bytes ''physical memory map''),
      (bytes ''testmalloc'', bytes ''heap self-test''), (bytes ''reboot'', bytes ''reboot the machine''),
      (bytes ''shutdown'', bytes ''power off'')]"

definition help_row :: "env \<Rightarrow> u8 list \<times> u8 list \<Rightarrow> shell \<Rightarrow> shell option" where
  "help_row e row sh =
     vsnprintf (take 80 (e_stack e)) 80 (bytes ''  %-12s %s'' @ [10]) [Str (Some (fst row)), Str (Some (snd row))] \<bind>
     (\<lambda>(n, buf). print e (c_string buf) sh)"

definition cmd_help :: "env \<Rightarrow> u8 list list \<Rightarrow> shell \<Rightarrow> shell option" where
  "cmd_help e argv = foldM (help_row e) command_table"

section \<open>Running a line\<close>

definition blank :: "u8 \<Rightarrow> bool" where
  "blank c \<longleftrightarrow> c = 32 \<or> c = 9"

text \<open>At most \<open>n\<close> words; what follows the last one is ignored.\<close>

primrec split_args :: "nat \<Rightarrow> u8 list \<Rightarrow> u8 list list" where
  "split_args 0 p = []"
| "split_args (Suc n) p =
     (let p = dropWhile blank p
      in if p = [] then []
         else takeWhile (\<lambda>c. \<not> blank c) p # split_args n (drop 1 (dropWhile (\<lambda>c. \<not> blank c) p)))"

text \<open>The entry of the table with the first word's name is called.\<close>

definition call_command :: "env \<Rightarrow> u8 list list \<Rightarrow> shell \<Rightarrow> shell option" where
  "call_command e argv =
     (let name = hd argv
      in if name = bytes ''help'' then cmd_help e argv
         else if name = bytes ''fetch'' then cmd_fetch e argv
         else if name = bytes ''clear'' then cmd_clear e argv
         else if name = bytes ''echo'' then cmd_echo e argv
         else if name = bytes ''uptime'' then cmd_uptime e argv
         else if name = bytes ''free'' then cmd_free e argv
         else if name = bytes ''ls'' then cmd_ls e argv
         else if name = bytes ''cat'' then cmd_cat e argv
         else if name = bytes ''write'' then cmd_write e argv
         else if name = bytes ''mkdir'' then cmd_mkdir e argv
         else if name = bytes ''rm'' then cmd_rm e argv
         else if name = bytes ''cd'' then cmd_cd e argv
         else if name = bytes ''pwd'' then cmd_pwd e argv
         else if name = bytes ''history'' then cmd_history e argv
         else e_other e argv)"

definition process_command :: "env \<Rightarrow> u8 list \<Rightarrow> shell \<Rightarrow> shell option" where
  "process_command e l sh =
     (let argv = split_args ARGV_MAX l
      in if argv = [] then Some sh
         else if hd argv \<in> set (map fst command_table) then call_command e argv sh
         else print_fmt e (bytes ''%s: command not found (try '' @ [39] @ bytes ''help'' @ [39, 41, 10])
           [Str (Some (hd argv))] sh)"

section \<open>The line editor\<close>

text \<open>Taking the old line off the screen and writing the new one.\<close>

definition redraw_line :: "env \<Rightarrow> u8 list \<Rightarrow> nat \<Rightarrow> shell \<Rightarrow> shell option" where
  "redraw_line e buf old_len sh =
     foldM (\<lambda>_. print e [8]) [0..<old_len] sh \<bind> print e buf \<bind>
     foldM (\<lambda>_. print e [32]) [length buf..<old_len] \<bind>
     foldM (\<lambda>_. print e [8]) [length buf..<old_len]"

definition recall :: "env \<Rightarrow> bool \<Rightarrow> shell \<Rightarrow> shell option" where
  "recall e up sh =
     (if history sh = [] then Some sh
      else
        let n = int (length (history sh));
            pos = (if up \<and> hist_pos sh + 1 < n then hist_pos sh + 1
                   else if \<not> up \<and> hist_pos sh \<ge> 0 then hist_pos sh - 1 else hist_pos sh)
        in (if pos < 0 then Some []
            else if pos < n then Some (history sh ! nat (n - 1 - pos)) else None) \<bind> (\<lambda>buf.
           redraw_line e buf (length (line sh)) (sh\<lparr>hist_pos := pos, line := buf\<rparr>)))"

definition remember :: "u8 list \<Rightarrow> u8 list list \<Rightarrow> u8 list list" where
  "remember l h =
     (if h = [] \<or> last h \<noteq> l then (if length h = HISTORY_MAX then tl h else h) @ [l] else h)"

definition enter :: "env \<Rightarrow> shell \<Rightarrow> shell option" where
  "enter e sh =
     print e [10] sh \<bind> (\<lambda>sh.
     if line sh \<noteq> [] then process_command e (line sh) (sh\<lparr>history := remember (line sh) (history sh)\<rparr>)
     else Some sh) \<bind> (\<lambda>sh. prompt e (sh\<lparr>line := [], hist_pos := - 1\<rparr>))"

text \<open>One turn of the loop.\<close>

definition shell_key :: "env \<Rightarrow> key_event \<Rightarrow> shell \<Rightarrow> shell option" where
  "shell_key e ev sh =
     (if code ev = KEY_UP then recall e True sh
      else if code ev = KEY_DOWN then recall e False sh
      else if code ev \<noteq> KEY_CHAR then Some sh
      else if ctrl ev \<and> (ch ev = 108 \<or> ch ev = 76) then clear sh \<bind> prompt e \<bind> (\<lambda>sh. print e (line sh) sh)
      else if ctrl ev \<and> (ch ev = 99 \<or> ch ev = 67) then
        print e [94, 67, 10] sh \<bind> (\<lambda>sh. prompt e (sh\<lparr>line := [], hist_pos := - 1\<rparr>))
      else if ctrl ev then Some sh
      else if ch ev = 10 then enter e sh
      else if ch ev = 8 then
        (if line sh \<noteq> [] then print_char e 8 (sh\<lparr>line := butlast (line sh)\<rparr>) else Some sh)
      else if length (line sh) < LINE_MAX - 1 \<and> ch ev \<ge> 32 \<and> ch ev < 127
      then print_char e (ch ev) (sh\<lparr>line := line sh @ [ch ev]\<rparr>)
      else Some sh)"

definition banner :: "u8 list" where
  "banner = [10] @ bytes ''   ###  #   #  ###   ###  ###     ###   ###'' @ [10] @
     bytes ''  #     #   # #   # #    #   #   #   # #'' @ [10] @
     bytes ''  #     ##### #   # #    #   #   #   #  ###'' @ [10] @
     bytes ''  #     #   # #   # #    #   #   #   #     #'' @ [10] @
     bytes ''   ###  #   #  ###   ###  ###     ###   ###'' @ [10]"

definition print_motd :: "env \<Rightarrow> shell \<Rightarrow> shell option" where
  "print_motd e sh =
     vfs_resolve (e_root e) (nodes (files sh)) (bytes ''/etc/motd'') 0 \<bind> (\<lambda>m.
     if m = 0 then Some sh
     else nodes (files sh) m \<bind> (\<lambda>n.
       if v_is_dir n then Some sh
       else file_data (files sh) n \<bind> (\<lambda>bs. print_color e bs TERM_COLOR_WHITE sh \<bind> print e [10])))"

text \<open>The shell runs for ever; here it runs until the given key events are used up.\<close>

definition shell_init :: "env \<Rightarrow> key_event list \<Rightarrow> shell \<Rightarrow> shell option" where
  "shell_init e evs sh =
     clear (sh\<lparr>cwd := e_root e, line := [], hist_pos := - 1\<rparr>) \<bind>
     print_color e banner 0xC08552 \<bind>
     print_color e (bytes ''        threads * ramfs * in-kernel llm'' @ [10, 10]) TERM_COLOR_GRAY \<bind>
     print_motd e \<bind> prompt e \<bind> foldM (shell_key e) evs"

section \<open>What the output operations do\<close>

text \<open>
  An operation that only draws: it changes the screen alone, leaves it well formed and sends
  \<open>out\<close> to the serial port.
\<close>

definition writes :: "env \<Rightarrow> u8 list \<Rightarrow> shell \<Rightarrow> shell option \<Rightarrow> bool" where
  "writes e out sh m \<longleftrightarrow>
     (\<exists>t. m = Some (sh\<lparr>screen := t\<rparr>) \<and> term_ok (e_font e) t \<and> serial t = serial (screen sh) @ out)"

definition screen_ok :: "env \<Rightarrow> shell \<Rightarrow> bool" where
  [inv_simps]: "screen_ok e sh \<longleftrightarrow> term_ok (e_font e) (screen sh)"

lemma writes_bind:
  assumes "writes e out sh m"
    and "\<And>t. term_ok (e_font e) t \<Longrightarrow> serial t = serial (screen sh) @ out \<Longrightarrow>
      writes e out' (sh\<lparr>screen := t\<rparr>) (k (sh\<lparr>screen := t\<rparr>))"
  shows "writes e (out @ out') sh (m \<bind> k)"
proof -
  from assms(1) obtain t where t: "m = Some (sh\<lparr>screen := t\<rparr>)" "term_ok (e_font e) t"
    "serial t = serial (screen sh) @ out" by (auto simp: writes_def)
  from assms(2) [OF t(2,3)] show ?thesis using t by (auto simp: writes_def)
qed

lemma writes_skip: "screen_ok e sh \<Longrightarrow> writes e [] sh (Some sh)"
  by (auto simp: writes_def screen_ok_def intro: exI [of _ "screen sh"])

lemma writes_screen:
  "writes e out sh m \<Longrightarrow> \<exists>t. m = Some (sh\<lparr>screen := t\<rparr>) \<and> term_ok (e_font e) t \<and> serial t = serial (screen sh) @ out"
  by (simp add: writes_def)

lemma on_screen_writes:
  assumes "op (screen sh) = Some t" "term_ok (e_font e) t" "serial t = serial (screen sh) @ out"
  shows "writes e out sh (on_screen op sh)"
  unfolding writes_def on_screen_def using assms by (intro exI [of _ t]) simp

lemma cells_run_plain: "9 \<notin> set cs \<Longrightarrow> snd (cells_run cols rows cs p) = serial_bytes cs"
proof (induction cs arbitrary: p)
  case (Cons c cs)
  have "snd (cells_run cols rows (c # cs) p) =
    mirror cols c (fst p) @ snd (cells_run cols rows cs (cell_step cols rows c p))"
    by (simp add: case_prod_beta)
  also have "\<dots> = mirror cols c (fst p) @ serial_bytes cs" using Cons by simp
  finally show ?case using Cons.prems by (simp add: mirror_def)
qed simp

lemma print_on_screen:
  assumes "term_ok f t0"
  shows "\<exists>t out. term_print_with_color f cs fg bg t0 = Some t \<and> term_ok f t \<and> serial t = serial t0 @ out \<and>
    (9 \<notin> set cs \<longrightarrow> out = serial_bytes cs)"
proof -
  let ?r = "cells_run (t_cols t0) (t_rows t0) cs (cursor_pos t0)"
  from print_lemma [OF assms, of cs fg bg] obtain t where
    t: "term_print_with_color f cs fg bg t0 = Some t" "term_ok f t"
    "(cursor_pos t, serial t) = (let (p, out) = ?r in (p, serial t0 @ out))" by blast
  have "serial t = serial t0 @ snd ?r" using t(3) by (simp add: case_prod_beta)
  then show ?thesis using t(1,2) cells_run_plain by blast
qed

lemma print_color_writes:
  assumes "screen_ok e sh"
  shows "\<exists>out. writes e out sh (print_color e cs fg sh) \<and> (9 \<notin> set cs \<longrightarrow> out = serial_bytes cs)"
  using print_on_screen [OF assms [unfolded screen_ok_def], of cs fg TERM_COLOR_BLACK] on_screen_writes
  unfolding print_color_def by blast

lemma print_writes:
  assumes "screen_ok e sh"
  shows "\<exists>out. writes e out sh (print e cs sh) \<and> (9 \<notin> set cs \<longrightarrow> out = serial_bytes cs)"
proof -
  from print_on_screen [OF assms [unfolded screen_ok_def], of cs "cur_fg (screen sh)" "cur_bg (screen sh)"]
  obtain t out where t: "term_print (e_font e) cs (screen sh) = Some t" "term_ok (e_font e) t"
    "serial t = serial (screen sh) @ out" "9 \<notin> set cs \<longrightarrow> out = serial_bytes cs" unfolding term_print_def by blast
  have "writes e out sh (print e cs sh)" unfolding print_def
    by (rule on_screen_writes, rule t(1), rule t(2), rule t(3))
  then show ?thesis using t(4) by blast
qed

lemma print_plain_writes: "screen_ok e sh \<Longrightarrow> 9 \<notin> set cs \<Longrightarrow> writes e (serial_bytes cs) sh (print e cs sh)"
  using print_writes by blast

lemma print_char_writes:
  assumes "screen_ok e sh" "c \<noteq> 9"
  shows "writes e (serial_bytes [c]) sh (print_char e c sh)"
proof -
  from print_char_spec [OF assms(1) [unfolded screen_ok_def], of c "cur_fg (screen sh)" "cur_bg (screen sh)"]
  obtain t where "term_print_char (e_font e) c (cur_fg (screen sh)) (cur_bg (screen sh)) (screen sh) = Some t"
    "term_ok (e_font e) t" "serial t = serial (screen sh) @ mirror (t_cols (screen sh)) c (t_col (screen sh))" by blast
  then show ?thesis unfolding print_char_def using assms(2)
    by (intro on_screen_writes [where t = t]) (simp_all add: mirror_def)
qed

lemma clear_writes:
  assumes "screen_ok e sh"
  shows "writes e [] sh (clear sh)"
proof -
  let ?t = "screen sh"
  have ok: "fb_ok (fb ?t)" "font_ok (e_font e)" "0 < t_cols ?t" "0 < t_rows ?t"
    using assms by (auto simp: screen_ok_def term_ok_def)
  from clear_lemma [OF ok(1), of TERM_COLOR_BLACK] obtain s where
    s: "framebuffer_clear TERM_COLOR_BLACK (fb ?t) = Some s" "same_screen (fb ?t) s" by blast
  have "term_ok (e_font e) (?t\<lparr>fb := s, t_row := 0, t_col := 0, cursor_drawn := False\<rparr>)"
    using assms s(2) same_screen_ok [OF s(2)] ok by (simp add: screen_ok_def term_ok_def same_screen_def)
  then show ?thesis unfolding clear_def
    by (rule on_screen_writes [rotated]) (simp_all add: s(1) term_clear_def on_fb_def)
qed

lemma foldM_writes:
  assumes "\<And>x sh. screen_ok e sh \<Longrightarrow> \<exists>out. writes e out sh (op x sh)" "screen_ok e sh"
  shows "\<exists>out. writes e out sh (foldM op xs sh)"
  using assms(2)
proof (induction xs arbitrary: sh)
  case Nil
  then show ?case using writes_skip by auto
next
  case (Cons x xs)
  from assms(1) [OF Cons.prems] obtain out t where t: "op x sh = Some (sh\<lparr>screen := t\<rparr>)"
    "term_ok (e_font e) t" "serial t = serial (screen sh) @ out" unfolding writes_def by blast
  have "screen_ok e (sh\<lparr>screen := t\<rparr>)" using t(2) by (simp add: screen_ok_def)
  from Cons.IH [OF this] show ?case using t by (force simp: writes_def)
qed

lemma foldM_writes_same:
  assumes "screen_ok e sh" "9 \<notin> set cs"
  shows "\<exists>out. writes e out sh (foldM (\<lambda>_. print e cs) xs sh)"
  by (rule foldM_writes [OF _ assms(1)]) (rule exI, rule print_plain_writes [OF _ assms(2)])

lemma writes_then:
  assumes "\<exists>out. writes e out sh m"
    and "\<And>t. screen_ok e (sh\<lparr>screen := t\<rparr>) \<Longrightarrow> \<exists>out'. writes e out' (sh\<lparr>screen := t\<rparr>) (k (sh\<lparr>screen := t\<rparr>))"
  shows "\<exists>out'. writes e out' sh (m \<bind> k)"
proof -
  from assms(1) obtain out t where t: "m = Some (sh\<lparr>screen := t\<rparr>)" "term_ok (e_font e) t"
    "serial t = serial (screen sh) @ out" unfolding writes_def by blast
  have "screen_ok e (sh\<lparr>screen := t\<rparr>)" using t(2) by (simp add: screen_ok_def)
  from assms(2) [OF this] obtain out' where "writes e out' (sh\<lparr>screen := t\<rparr>) (k (sh\<lparr>screen := t\<rparr>))" by blast
  then have "writes e (out @ out') sh (m \<bind> k)" using t by (simp add: writes_def)
  then show ?thesis by blast
qed

lemma writes_next:
  assumes "\<exists>out. writes e out sh m" "\<And>sh'. screen_ok e sh' \<Longrightarrow> \<exists>out'. writes e out' sh' (k sh')"
  shows "\<exists>out'. writes e out' sh (m \<bind> k)"
  by (rule writes_then [OF assms(1)]) (rule assms(2))

lemma redraw_line_writes:
  assumes "screen_ok e sh"
  shows "\<exists>out. writes e out sh (redraw_line e buf n sh)"
proof -
  have one: "\<exists>out. writes e out sh (foldM (\<lambda>_. print e [c]) xs sh)" if "screen_ok e sh" "c \<noteq> 9" for sh c xs
    by (rule foldM_writes_same [OF that(1)]) (use that(2) in simp)
  have p: "\<exists>out. writes e out sh (print e buf sh)" if "screen_ok e sh" for sh
    using print_writes [OF that] by blast
  show ?thesis unfolding redraw_line_def
    by (intro writes_next one p assms) auto
qed

text \<open>The prompt can be drawn when the working directory is a node of the tree.\<close>

lemma ancestors_total:
  assumes "tree_ok root kids ns" "ns n = Some nd"
  shows "\<exists>st. ancestors ns n d stack = Some st"
  using assms(2)
proof (induction "32 - d" arbitrary: d n nd stack)
  case 0
  then show ?case by (subst ancestors.simps) simp
next
  case (Suc k)
  show ?case
  proof (cases "v_parent nd \<noteq> 0")
    case True
    from tree_parent [OF assms(1) Suc.prems] True obtain p where p: "ns (v_parent nd) = Some p" by blast
    have "k = 32 - Suc d" using Suc.hyps(2) by simp
    from Suc.hyps(1) [OF this p] show ?thesis using Suc.prems True by (subst ancestors.simps) simp
  qed (use Suc.prems in \<open>subst ancestors.simps, simp\<close>)
qed

lemma node_path_total:
  assumes "tree_ok root kids ns" "ns n = Some nd"
  shows "\<exists>path. vfs_node_path ns n b = Some path"
  using ancestors_total [OF assms, of 0 "[]"] assms(2) by (auto simp: vfs_node_path_def)

definition cwd_ok :: "env \<Rightarrow> shell \<Rightarrow> bool" where
  [inv_simps]: "cwd_ok e sh \<longleftrightarrow>
     (\<exists>kids. tree_ok (e_root e) kids (nodes (files sh))) \<and> (cwd sh = 0 \<or> nodes (files sh) (cwd sh) \<noteq> None)"

lemma prompt_writes:
  assumes "screen_ok e sh" "cwd_ok e sh"
  shows "\<exists>out. writes e out sh (prompt e sh)"
proof -
  let ?d = "if cwd sh \<noteq> 0 then cwd sh else e_root e"
  from assms(2) obtain kids where t: "tree_ok (e_root e) kids (nodes (files sh))" by (auto simp: cwd_ok_def)
  have "nodes (files sh) ?d \<noteq> None"
    using assms(2) tree_rootD(2) [OF t] by (auto simp: cwd_ok_def)
  then obtain nd where "nodes (files sh) ?d = Some nd" by blast
  from node_path_total [OF t this] obtain path where
    p: "vfs_node_path (nodes (files sh)) ?d 128 = Some path" by blast
  have c: "\<exists>out. writes e out sh (print_color e cs fg sh)" if "screen_ok e sh" for sh cs fg
    using print_color_writes [OF that] by blast
  show ?thesis unfolding prompt_def p bind.bind_lunit by (intro writes_next c assms(1))
qed

section \<open>The line editor as a transition on texts\<close>

text \<open>
  What the user edits: the line, the history and the place in it. \<open>edit_key\<close> is what a key does to
  them, \<open>submit\<close> what Enter does to the history.
\<close>

type_synonym editor = "u8 list \<times> u8 list list \<times> int"

definition recalled :: "u8 list list \<Rightarrow> int \<Rightarrow> u8 list" where
  "recalled h p = (if p < 0 then [] else rev h ! nat p)"

definition printable :: "u8 \<Rightarrow> bool" where
  "printable c \<longleftrightarrow> 32 \<le> c \<and> c < 127"

definition is_enter :: "key_event \<Rightarrow> bool" where
  "is_enter ev \<longleftrightarrow> code ev = KEY_CHAR \<and> \<not> ctrl ev \<and> ch ev = 10"

definition edit_key :: "key_event \<Rightarrow> editor \<Rightarrow> editor" where
  "edit_key ev = (\<lambda>(l, h, p).
     case code ev of
       KEY_UP \<Rightarrow> if h = [] then (l, h, p) else (let q = min (p + 1) (int (length h) - 1) in (recalled h q, h, q))
     | KEY_DOWN \<Rightarrow> if h = [] then (l, h, p) else (let q = max (p - 1) (- 1) in (recalled h q, h, q))
     | KEY_CHAR \<Rightarrow>
         if ctrl ev then (if ch ev = 99 \<or> ch ev = 67 then ([], h, - 1) else (l, h, p))
         else if ch ev = 8 then (butlast l, h, p)
         else if printable (ch ev) \<and> length l < 255 then (l @ [ch ev], h, p)
         else (l, h, p)
     | _ \<Rightarrow> (l, h, p))"

definition text_ok :: "u8 list \<Rightarrow> bool" where
  "text_ok l \<longleftrightarrow> length l < LINE_MAX \<and> (\<forall>c\<in>set l. printable c)"

definition editor_ok :: "editor \<Rightarrow> bool" where
  "editor_ok = (\<lambda>(l, h, p). text_ok l \<and> length h \<le> HISTORY_MAX \<and> (\<forall>x\<in>set h. x \<noteq> [] \<and> text_ok x) \<and>
     - 1 \<le> p \<and> p < int (length h))"

definition editor_of :: "shell \<Rightarrow> editor" where
  "editor_of sh = (line sh, history sh, hist_pos sh)"

definition put_editor :: "editor \<Rightarrow> shell \<Rightarrow> shell" where
  "put_editor = (\<lambda>(l, h, p) sh. sh\<lparr>line := l, history := h, hist_pos := p\<rparr>)"

definition shell_ok :: "env \<Rightarrow> shell \<Rightarrow> bool" where
  [inv_simps]: "shell_ok e sh \<longleftrightarrow> screen_ok e sh \<and> cwd_ok e sh \<and> editor_ok (editor_of sh)"

lemma recalled_ok: "editor_ok (l, h, p) \<Longrightarrow> q < int (length h) \<Longrightarrow> text_ok (recalled h q)"
proof (cases "q < 0")
  case False
  assume a: "editor_ok (l, h, p)" "q < int (length h)"
  then have "rev h ! nat q \<in> set h" using False by (metis length_rev nat_less_iff not_less nth_mem set_rev)
  then show ?thesis using a(1) False by (simp add: recalled_def editor_ok_def)
qed (simp add: recalled_def text_ok_def LINE_MAX_def)

lemma recalled_nth:
  assumes "0 \<le> q" "q < int (length h)"
  shows "recalled h q = h ! nat (int (length h) - 1 - q)"
proof -
  have k: "nat q < length h" "nat (int (length h) - 1 - q) = length h - Suc (nat q)" using assms by linarith+
  then show ?thesis using assms by (simp add: recalled_def rev_nth)
qed

lemma edit_key_ok:
  assumes ok: "editor_ok ed" and e: "\<not> is_enter ev"
  shows "editor_ok (edit_key ev ed)"
proof -
  obtain l h p where ed: "ed = (l, h, p)" by (cases ed)
  note ok = ok [unfolded ed]
  have parts: "text_ok l" "length h \<le> HISTORY_MAX" "\<forall>x\<in>set h. x \<noteq> [] \<and> text_ok x" "- 1 \<le> p" "p < int (length h)"
    using ok by (simp_all add: editor_ok_def)
  have rec: "editor_ok (recalled h q, h, q)" if "- 1 \<le> q" "q < int (length h)" for q
    using recalled_ok [OF ok that(2)] parts that by (simp add: editor_ok_def)
  have app: "editor_ok (l @ [c], h, p)" if "printable c" "length l < 255" for c
    using parts that by (simp add: editor_ok_def text_ok_def LINE_MAX_def)
  have cut: "editor_ok (butlast l, h, p)" "editor_ok ([], h, - 1)"
    using parts by (auto simp: editor_ok_def text_ok_def LINE_MAX_def dest: in_set_butlastD)
  have "h \<noteq> [] \<Longrightarrow> 0 < length h" by simp
  then show ?thesis unfolding ed edit_key_def
    using ok cut parts(4,5) by (cases "code ev") (auto simp: Let_def intro!: rec app)
qed

lemma put_editor_of: "put_editor (editor_of sh) sh = sh"
  by (simp add: put_editor_def editor_of_def)

lemma editor_of_screen: "editor_of (sh\<lparr>screen := t\<rparr>) = editor_of sh"
  by (simp add: editor_of_def)

lemma recall_edits:
  assumes ok: "shell_ok e sh"
  shows "\<exists>t. recall e up sh = Some (put_editor (edit_key (no_event\<lparr>code := if up then KEY_UP else KEY_DOWN\<rparr>)
      (editor_of sh)) (sh\<lparr>screen := t\<rparr>)) \<and> term_ok (e_font e) t"
proof (cases "history sh = []")
  case True
  then show ?thesis using ok
    by (intro exI [of _ "screen sh"]) (auto simp: recall_def edit_key_def editor_of_def put_editor_def shell_ok_def screen_ok_def)
next
  case False
  let ?n = "int (length (history sh))"
  define q where "q = (if up then min (hist_pos sh + 1) (?n - 1) else max (hist_pos sh - 1) (- 1))"
  have p: "- 1 \<le> hist_pos sh" "hist_pos sh < ?n" using ok by (simp_all add: shell_ok_def editor_ok_def editor_of_def)
  have pos: "(if up \<and> hist_pos sh + 1 < ?n then hist_pos sh + 1
      else if \<not> up \<and> hist_pos sh \<ge> 0 then hist_pos sh - 1 else hist_pos sh) = q"
    using p by (auto simp: q_def)
  have q: "- 1 \<le> q" "q < ?n" using p False by (auto simp: q_def)
  have buf: "(if q < 0 then Some [] else if q < ?n then Some (history sh ! nat (?n - 1 - q)) else None) =
      Some (recalled (history sh) q)"
    using q recalled_nth [of q "history sh"] by (auto simp: recalled_def)
  let ?sh = "sh\<lparr>hist_pos := q, line := recalled (history sh) q\<rparr>"
  have run: "recall e up sh = redraw_line e (recalled (history sh) q) (length (line sh)) ?sh"
    unfolding recall_def Let_def pos if_not_P [OF False] buf by simp
  have "screen_ok e ?sh" using ok by (simp add: shell_ok_def screen_ok_def)
  from redraw_line_writes [OF this] obtain out where
    "writes e out ?sh (redraw_line e (recalled (history sh) q) (length (line sh)) ?sh)" by blast
  then obtain t where t: "recall e up sh = Some (?sh\<lparr>screen := t\<rparr>)" "term_ok (e_font e) t"
    unfolding run writes_def by blast
  have "edit_key (no_event\<lparr>code := if up then KEY_UP else KEY_DOWN\<rparr>) (editor_of sh) =
      (recalled (history sh) q, history sh, q)"
    using False by (simp add: edit_key_def editor_of_def q_def Let_def)
  then show ?thesis using t by (intro exI [of _ t]) (simp add: put_editor_def)
qed

text \<open>Every key but Enter: the shell does to its state what \<open>edit_key\<close> says, and only that.\<close>

lemma shell_key_edits:
  assumes ok: "shell_ok e sh" and ev: "\<not> is_enter ev"
  shows "\<exists>t. shell_key e ev sh = Some (put_editor (edit_key ev (editor_of sh)) (sh\<lparr>screen := t\<rparr>)) \<and>
    term_ok (e_font e) t"
proof -
  have scr: "screen_ok e sh" and cwd: "cwd_ok e sh" using ok by (simp_all add: shell_ok_def)
  have still: ?thesis if "shell_key e ev sh = Some sh" "edit_key ev (editor_of sh) = editor_of sh"
    using that scr by (intro exI [of _ "screen sh"]) (simp add: put_editor_of screen_ok_def)
  have draw: ?thesis if "\<exists>out. writes e out sh' (shell_key e ev sh)"
    "\<And>t. sh'\<lparr>screen := t\<rparr> = put_editor (edit_key ev (editor_of sh)) (sh\<lparr>screen := t\<rparr>)" for sh'
    using that unfolding writes_def by metis
  have arrow: ?thesis if "code ev = (if up then KEY_UP else KEY_DOWN)" for up
  proof -
    have "edit_key ev = edit_key (no_event\<lparr>code := if up then KEY_UP else KEY_DOWN\<rparr>)"
      using that by (auto simp: edit_key_def)
    moreover have "shell_key e ev sh = recall e up sh" using that by (auto simp: shell_key_def)
    ultimately show ?thesis using recall_edits [OF ok, of up] by simp
  qed
  consider "code ev = KEY_UP" | "code ev = KEY_DOWN" | "code ev \<notin> {KEY_UP, KEY_DOWN, KEY_CHAR}"
    | "code ev = KEY_CHAR" by blast
  then show ?thesis
  proof cases
    case 1
    then show ?thesis using arrow [of True] by simp
  next
    case 2
    then show ?thesis using arrow [of False] by simp
  next
    case 3
    then show ?thesis
      by (intro still) (auto simp: shell_key_def edit_key_def split: key_code.splits prod.splits)
  next
    case c: 4
    have e10: "ctrl ev \<or> ch ev \<noteq> 10" using ev c by (auto simp: is_enter_def)
    note key = shell_key_def edit_key_def c editor_of_def put_editor_def
    consider "ctrl ev" "ch ev = 108 \<or> ch ev = 76" | "ctrl ev" "ch ev = 99 \<or> ch ev = 67"
      | "ctrl ev" "ch ev \<notin> {108, 76, 99, 67}" | "\<not> ctrl ev" "ch ev = 8" "line sh = []"
      | "\<not> ctrl ev" "ch ev = 8" "line sh \<noteq> []"
      | "\<not> ctrl ev" "printable (ch ev)" "length (line sh) < 255"
      | "\<not> ctrl ev" "ch ev \<noteq> 8" "\<not> (printable (ch ev) \<and> length (line sh) < 255)" by blast
    then show ?thesis
    proof cases
      case 1
      let ?k = "clear sh \<bind> prompt e \<bind> (\<lambda>sh. print e (line sh) sh)"
      have "\<exists>out. writes e out sh (clear sh)" using clear_writes [OF scr] by blast
      then have "\<exists>out. writes e out sh (clear sh \<bind> prompt e)"
        by (rule writes_then) (rule prompt_writes, assumption, use cwd in \<open>simp add: cwd_ok_def\<close>)
      then have "\<exists>out. writes e out sh ?k"
        by (rule writes_then) (use print_writes in blast)
      moreover have "shell_key e ev sh = ?k" using 1 by (auto simp: key)
      ultimately show ?thesis by (intro draw [of sh]) (use 1 in \<open>auto simp: key\<close>)
    next
      case 2
      let ?k = "\<lambda>sh. prompt e (sh\<lparr>line := [], hist_pos := - 1\<rparr>)"
      have "writes e (serial_bytes [94, 67, 10]) sh (print e [94, 67, 10] sh)"
        by (rule print_plain_writes [OF scr]) simp
      then obtain t where t: "print e [94, 67, 10] sh = Some (sh\<lparr>screen := t\<rparr>)" "term_ok (e_font e) t"
        unfolding writes_def by blast
      let ?sh = "sh\<lparr>screen := t, line := [], hist_pos := - 1\<rparr>"
      have "\<exists>out. writes e out ?sh (prompt e ?sh)"
        using t(2) cwd by (intro prompt_writes) (simp_all add: screen_ok_def cwd_ok_def)
      moreover have "shell_key e ev sh = prompt e ?sh" using 2 t(1) by (auto simp: key)
      ultimately show ?thesis by (intro draw [of ?sh]) (use 2 in \<open>auto simp: key\<close>)
    next
      case 3
      then show ?thesis by (intro still) (auto simp: key)
    next
      case 4
      then show ?thesis by (intro still) (auto simp: key)
    next
      case 5
      let ?sh = "sh\<lparr>line := butlast (line sh)\<rparr>"
      have s: "screen_ok e ?sh" using scr by (simp add: screen_ok_def)
      have "writes e (serial_bytes [8]) ?sh (print_char e 8 ?sh)" by (rule print_char_writes [OF s]) simp
      moreover have "shell_key e ev sh = print_char e 8 ?sh" using 5 by (simp add: key)
      ultimately show ?thesis by (intro draw [of ?sh]) (use 5 in \<open>auto simp: key\<close>)
    next
      case 6
      let ?sh = "sh\<lparr>line := line sh @ [ch ev]\<rparr>"
      have s: "screen_ok e ?sh" using scr by (simp add: screen_ok_def)
      have ne: "ch ev \<noteq> 9" "ch ev \<noteq> 8" "ch ev \<noteq> 10" using 6(2) by (auto simp: printable_def)
      have "writes e (serial_bytes [ch ev]) ?sh (print_char e (ch ev) ?sh)" by (rule print_char_writes [OF s ne(1)])
      moreover have "shell_key e ev sh = print_char e (ch ev) ?sh"
        using 6 ne by (simp add: key printable_def LINE_MAX_def)
      ultimately show ?thesis by (intro draw [of ?sh]) (use 6 ne in \<open>auto simp: key\<close>)
    next
      case 7
      then show ?thesis using e10 by (intro still) (auto simp: key printable_def LINE_MAX_def)
    qed
  qed
qed

lemma shell_ok_after:
  assumes "cwd_ok e sh" "term_ok (e_font e) t" "editor_ok ed"
  shows "shell_ok e (put_editor ed (sh\<lparr>screen := t\<rparr>))"
  using assms by (cases ed) (simp add: shell_ok_def screen_ok_def cwd_ok_def put_editor_def editor_of_def)

lemma keys_edit:
  assumes "shell_ok e sh" "\<forall>ev\<in>set evs. \<not> is_enter ev"
  shows "\<exists>t. foldM (shell_key e) evs sh = Some (put_editor (fold edit_key evs (editor_of sh)) (sh\<lparr>screen := t\<rparr>)) \<and>
    term_ok (e_font e) t \<and> editor_ok (fold edit_key evs (editor_of sh))"
  using assms
proof (induction evs arbitrary: sh)
  case Nil
  then show ?case
    by (intro exI [of _ "screen sh"]) (simp add: put_editor_of shell_ok_def screen_ok_def)
next
  case (Cons ev evs)
  have ne: "\<not> is_enter ev" using Cons.prems(2) by simp
  let ?ed = "edit_key ev (editor_of sh)"
  from shell_key_edits [OF Cons.prems(1) ne] obtain t where
    t: "shell_key e ev sh = Some (put_editor ?ed (sh\<lparr>screen := t\<rparr>))" "term_ok (e_font e) t" by blast
  have edok: "editor_ok ?ed" using edit_key_ok [OF _ ne] Cons.prems(1) by (simp add: shell_ok_def)
  have c: "cwd_ok e sh" using Cons.prems(1) by (simp add: shell_ok_def)
  let ?sh = "put_editor ?ed (sh\<lparr>screen := t\<rparr>)"
  have e1: "editor_of ?sh = ?ed" by (cases ?ed) (simp add: put_editor_def editor_of_def)
  have e2: "put_editor x (?sh\<lparr>screen := u\<rparr>) = put_editor x (sh\<lparr>screen := u\<rparr>)" for x u
    by (cases x; cases ?ed) (simp add: put_editor_def)
  have "\<exists>u. foldM (shell_key e) evs ?sh = Some (put_editor (fold edit_key evs (editor_of ?sh)) (?sh\<lparr>screen := u\<rparr>)) \<and>
    term_ok (e_font e) u \<and> editor_ok (fold edit_key evs (editor_of ?sh))"
    by (rule Cons.IH [OF shell_ok_after [OF c t(2) edok]]) (use Cons.prems(2) in simp)
  then show ?case using t(1) unfolding e1 e2 by simp
qed

lemma remember_ok:
  assumes "editor_ok (l, h, p)" "l \<noteq> []"
  shows "editor_ok ([], remember l h, - 1)"
proof -
  have h: "text_ok l" "length h \<le> HISTORY_MAX" "\<forall>x\<in>set h. x \<noteq> [] \<and> text_ok x"
    using assms by (simp_all add: editor_ok_def)
  have "length (remember l h) \<le> HISTORY_MAX" "set (remember l h) \<subseteq> insert l (set h)"
    using h(2) by (auto simp: remember_def HISTORY_MAX_def dest: list.set_sel(2) [rotated])
  then show ?thesis using h assms(2) by (auto simp: editor_ok_def text_ok_def LINE_MAX_def)
qed

lemma enter_lemma:
  assumes "shell_ok e sh" "is_enter ev"
  shows "\<exists>t. term_ok (e_font e) t \<and> serial t = serial (screen sh) @ [13, 10] \<and> shell_key e ev sh =
    (if line sh = [] then Some (sh\<lparr>screen := t\<rparr>)
     else process_command e (line sh) (sh\<lparr>screen := t, history := remember (line sh) (history sh)\<rparr>)) \<bind>
    (\<lambda>s. prompt e (s\<lparr>line := [], hist_pos := - 1\<rparr>))"
proof -
  have s: "screen_ok e sh" using assms(1) by (simp add: shell_ok_def)
  have "writes e (serial_bytes [10]) sh (print e [10] sh)" by (rule print_plain_writes [OF s]) simp
  then obtain t where t: "print e [10] sh = Some (sh\<lparr>screen := t\<rparr>)" "term_ok (e_font e) t"
    "serial t = serial (screen sh) @ [13, 10]" unfolding writes_def by auto
  have "shell_key e ev sh = enter e sh" using assms(2) by (simp add: shell_key_def is_enter_def)
  also have "\<dots> = (if line sh = [] then Some (sh\<lparr>screen := t\<rparr>)
     else process_command e (line sh) (sh\<lparr>screen := t, history := remember (line sh) (history sh)\<rparr>)) \<bind>
    (\<lambda>s. prompt e (s\<lparr>line := [], hist_pos := - 1\<rparr>))"
    by (simp add: enter_def t(1))
  finally show ?thesis using t(2,3) by blast
qed

lemma edited_line_lemma:
  assumes "shell_ok e sh" "\<forall>ev\<in>set evs. \<not> is_enter ev" "is_enter ev"
  shows "\<exists>l h p t. fold edit_key evs (editor_of sh) = (l, h, p) \<and> editor_ok (l, h, p) \<and> term_ok (e_font e) t \<and>
    (l \<noteq> [] \<longrightarrow> editor_ok ([], remember l h, - 1)) \<and>
    foldM (shell_key e) (evs @ [ev]) sh =
      (if l = [] then Some (put_editor (l, h, p) (sh\<lparr>screen := t\<rparr>))
       else process_command e l (put_editor (l, remember l h, p) (sh\<lparr>screen := t\<rparr>))) \<bind>
      (\<lambda>s. prompt e (s\<lparr>line := [], hist_pos := - 1\<rparr>))"
proof -
  obtain l h p where ed: "fold edit_key evs (editor_of sh) = (l, h, p)" by (metis prod_cases3)
  from keys_edit [OF assms(1,2)] obtain t where
    t: "foldM (shell_key e) evs sh = Some (put_editor (l, h, p) (sh\<lparr>screen := t\<rparr>))" "term_ok (e_font e) t"
    "editor_ok (l, h, p)" unfolding ed by blast
  let ?sh = "put_editor (l, h, p) (sh\<lparr>screen := t\<rparr>)"
  have "cwd_ok e sh" using assms(1) by (simp add: shell_ok_def)
  from enter_lemma [OF shell_ok_after [OF this t(2,3)] assms(3)] obtain u where
    u: "term_ok (e_font e) u" "shell_key e ev ?sh =
    (if line ?sh = [] then Some (?sh\<lparr>screen := u\<rparr>)
     else process_command e (line ?sh) (?sh\<lparr>screen := u, history := remember (line ?sh) (history ?sh)\<rparr>)) \<bind>
    (\<lambda>s. prompt e (s\<lparr>line := [], hist_pos := - 1\<rparr>))" by blast
  have "foldM (shell_key e) (evs @ [ev]) sh = shell_key e ev ?sh"
    by (cases "shell_key e ev ?sh") (simp_all add: foldM_append t(1))
  also have "\<dots> = (if l = [] then Some (put_editor (l, h, p) (sh\<lparr>screen := u\<rparr>))
       else process_command e l (put_editor (l, remember l h, p) (sh\<lparr>screen := u\<rparr>))) \<bind>
      (\<lambda>s. prompt e (s\<lparr>line := [], hist_pos := - 1\<rparr>))"
    unfolding u(2) by (cases sh) (simp add: put_editor_def)
  finally show ?thesis using ed t(3) u(1) remember_ok [OF t(3)] by blast
qed

section \<open>Splitting a line\<close>

definition word_ok :: "u8 list \<Rightarrow> bool" where
  "word_ok w \<longleftrightarrow> w \<noteq> [] \<and> (\<forall>c\<in>set w. \<not> blank c)"

text \<open>Words with a space before each, and with a space between two of them.\<close>

definition after_spaces :: "u8 list list \<Rightarrow> u8 list" where
  "after_spaces ws = concat (map ((#) 32) ws)"

fun spaced :: "u8 list list \<Rightarrow> u8 list" where
  "spaced [] = []"
| "spaced [w] = w"
| "spaced (w # ws) = w @ 32 # spaced ws"

lemma drop_no_blank: "word_ok w \<Longrightarrow> dropWhile blank (w @ r) = w @ r"
  by (cases w) (auto simp: word_ok_def)

lemma cut_at_blank:
  assumes "word_ok w" "r = [] \<or> blank (hd r)"
  shows "takeWhile (\<lambda>c. \<not> blank c) (w @ r) = w" "dropWhile (\<lambda>c. \<not> blank c) (w @ r) = r"
proof -
  have "\<forall>c\<in>set w. \<not> blank c" using assms(1) by (simp add: word_ok_def)
  moreover have "takeWhile (\<lambda>c. \<not> blank c) r = []" "dropWhile (\<lambda>c. \<not> blank c) r = r"
    using assms(2) by (cases r; simp)+
  ultimately show "takeWhile (\<lambda>c. \<not> blank c) (w @ r) = w" "dropWhile (\<lambda>c. \<not> blank c) (w @ r) = r"
    by (simp_all add: takeWhile_append2 dropWhile_append2)
qed

lemma split_args_words:
  assumes "word_ok w" "\<forall>v\<in>set ws. word_ok v"
  shows "split_args n (w @ after_spaces ws) = take n (w # ws)"
  using assms
proof (induction n arbitrary: w ws)
  case (Suc n)
  have r: "after_spaces ws = [] \<or> blank (hd (after_spaces ws))"
    by (cases ws) (simp_all add: after_spaces_def blank_def)
  have ne: "w @ after_spaces ws \<noteq> []" using Suc.prems(1) by (simp add: word_ok_def)
  have "split_args (Suc n) (w @ after_spaces ws) = w # split_args n (drop 1 (after_spaces ws))"
    unfolding split_args.simps(2) drop_no_blank [OF Suc.prems(1)] Let_def if_not_P [OF ne]
      cut_at_blank [OF Suc.prems(1) r] ..
  also have "split_args n (drop 1 (after_spaces ws)) = take n ws"
  proof (cases ws)
    case Nil
    then show ?thesis by (cases n) (simp_all add: after_spaces_def)
  next
    case (Cons v vs)
    then show ?thesis using Suc.IH [of v vs] Suc.prems(2) by (simp add: after_spaces_def)
  qed
  finally show ?case by simp
qed simp

section \<open>A command typed on the keyboard\<close>

definition char_key :: "u8 \<Rightarrow> key_event" where
  "char_key c = no_event\<lparr>code := KEY_CHAR, ch := c\<rparr>"

lemma typed_text_lemma:
  assumes "shell_ok e sh" "\<forall>c\<in>set cs. printable c" "length (line sh) + length cs < LINE_MAX"
  shows "\<exists>t. foldM (shell_key e) (map char_key cs) sh = Some (sh\<lparr>screen := t, line := line sh @ cs\<rparr>) \<and>
    term_ok (e_font e) t \<and> serial t = serial (screen sh) @ cs"
  using assms
proof (induction cs arbitrary: sh)
  case Nil
  then show ?case by (intro exI [of _ "screen sh"]) (simp add: shell_ok_def screen_ok_def)
next
  case (Cons c cs)
  have c: "printable c" "c \<noteq> 8" "c \<noteq> 9" "c \<noteq> 10" using Cons.prems(2) by (auto simp: printable_def)
  let ?sh = "sh\<lparr>line := line sh @ [c]\<rparr>"
  have "shell_key e (char_key c) sh = print_char e c ?sh"
    using c Cons.prems(3) by (simp add: shell_key_def char_key_def no_event_def printable_def LINE_MAX_def)
  moreover have "writes e (serial_bytes [c]) ?sh (print_char e c ?sh)"
    using Cons.prems(1) by (intro print_char_writes [OF _ c(3)]) (simp add: shell_ok_def screen_ok_def)
  ultimately obtain t where t: "shell_key e (char_key c) sh = Some (?sh\<lparr>screen := t\<rparr>)" "term_ok (e_font e) t"
    "serial t = serial (screen sh) @ [c]" using c(4) unfolding writes_def by auto
  let ?sh2 = "?sh\<lparr>screen := t\<rparr>"
  have ok: "shell_ok e ?sh2"
    using Cons.prems t(2) by (simp add: shell_ok_def screen_ok_def cwd_ok_def editor_ok_def editor_of_def text_ok_def)
  have "\<exists>u. foldM (shell_key e) (map char_key cs) ?sh2 = Some (?sh2\<lparr>screen := u, line := line ?sh2 @ cs\<rparr>) \<and>
    term_ok (e_font e) u \<and> serial u = serial (screen ?sh2) @ cs"
    by (rule Cons.IH [OF ok]) (use Cons.prems(2,3) in simp_all)
  then obtain u where u: "foldM (shell_key e) (map char_key cs) ?sh2 = Some (?sh2\<lparr>screen := u, line := line ?sh2 @ cs\<rparr>)"
    "term_ok (e_font e) u" "serial u = serial t @ cs" by auto
  have "?sh2\<lparr>screen := u, line := line ?sh2 @ cs\<rparr> = sh\<lparr>screen := u, line := line sh @ c # cs\<rparr>" by (cases sh) simp
  then show ?case using t u by auto
qed

lemma serial_bytes_plain: "10 \<notin> set cs \<Longrightarrow> serial_bytes cs = cs"
  by (induction cs) auto

lemma echo_loop_writes:
  assumes "screen_ok e sh" "\<forall>w\<in>set ws. \<forall>c\<in>set w. printable c"
  shows "writes e (spaced ws) sh (echo_loop e ws sh)"
  using assms
proof (induction ws arbitrary: sh)
  case Nil
  then show ?case by (simp add: writes_skip)
next
  case (Cons w ws)
  have nt: "9 \<notin> set w" "10 \<notin> set w" using Cons.prems(2) by (auto simp: printable_def)
  have w: "writes e w sh (print e w sh)"
    using print_plain_writes [OF Cons.prems(1) nt(1)] serial_bytes_plain [OF nt(2)] by simp
  have rest: "writes e (spaced ws) (sh\<lparr>screen := t\<rparr>) (echo_loop e ws (sh\<lparr>screen := t\<rparr>))"
    if "term_ok (e_font e) t" for t
    using Cons.IH [of "sh\<lparr>screen := t\<rparr>"] Cons.prems(2) that by (simp add: screen_ok_def)
  show ?case
  proof (cases ws)
    case Nil
    then show ?thesis using w by (cases "print e w sh") (simp_all add: bind_assoc)
  next
    case (Cons v vs)
    have sp: "writes e [32] (sh\<lparr>screen := t\<rparr>) (print e [32] (sh\<lparr>screen := t\<rparr>))" if "term_ok (e_font e) t" for t
      using print_plain_writes [of e "sh\<lparr>screen := t\<rparr>" "[32]"] that by (simp add: screen_ok_def)
    have "writes e (w @ [32]) sh (print e w sh \<bind> print e [32])"
      by (rule writes_bind [OF w]) (rule sp)
    then have "writes e ((w @ [32]) @ spaced ws) sh (print e w sh \<bind> print e [32] \<bind> echo_loop e ws)"
      by (rule writes_bind) (rule rest)
    then show ?thesis using Cons by simp
  qed
qed

lemma typed_echo_lemma:
  defines "l ws \<equiv> bytes ''echo'' @ after_spaces ws"
  assumes ok: "shell_ok e sh" and empty: "line sh = []" and ws: "\<forall>w\<in>set ws. word_ok w \<and> (\<forall>c\<in>set w. printable c)"
    and n: "length ws < ARGV_MAX" "length (l ws) < LINE_MAX"
  shows "\<exists>t. foldM (shell_key e) (map char_key (l ws @ [10])) sh =
      prompt e (sh\<lparr>screen := t, line := [], history := remember (l ws) (history sh), hist_pos := - 1\<rparr>) \<and>
    term_ok (e_font e) t \<and> serial t = serial (screen sh) @ l ws @ [13, 10] @ spaced ws @ [13, 10]"
proof -
  let ?l = "l ws"
  have pr: "\<forall>c\<in>set ?l. printable c" using ws by (auto simp: l_def after_spaces_def printable_def)
  from typed_text_lemma [OF ok pr] n(2) obtain t where
    t: "foldM (shell_key e) (map char_key ?l) sh = Some (sh\<lparr>screen := t, line := ?l\<rparr>)"
    "term_ok (e_font e) t" "serial t = serial (screen sh) @ ?l" using empty by auto
  let ?sh = "sh\<lparr>screen := t, line := ?l\<rparr>"
  have ok1: "shell_ok e ?sh"
    using ok t(2) pr n(2) by (simp add: shell_ok_def screen_ok_def cwd_ok_def editor_ok_def editor_of_def text_ok_def)
  have en: "is_enter (char_key 10)" by (simp add: is_enter_def char_key_def no_event_def)
  have ne: "?l \<noteq> []" by (simp add: l_def)
  from enter_lemma [OF ok1 en] obtain u where
    u: "term_ok (e_font e) u" "serial u = serial t @ [13, 10]" "shell_key e (char_key 10) ?sh =
      process_command e ?l (?sh\<lparr>screen := u, history := remember ?l (history sh)\<rparr>) \<bind>
      (\<lambda>s. prompt e (s\<lparr>line := [], hist_pos := - 1\<rparr>))" using ne by auto
  let ?sh2 = "?sh\<lparr>screen := u, history := remember ?l (history sh)\<rparr>"
  have "word_ok (bytes ''echo'')" by (simp add: word_ok_def blank_def)
  from split_args_words [OF this, of ws ARGV_MAX] ws n(1) have argv: "split_args ARGV_MAX ?l = bytes ''echo'' # ws"
    by (simp add: l_def)
  have "process_command e ?l ?sh2 = cmd_echo e (bytes ''echo'' # ws) ?sh2"
    unfolding process_command_def argv Let_def by (simp add: command_table_def call_command_def)
  also have "\<dots> = echo_loop e ws ?sh2 \<bind> print e [10]" by (simp add: cmd_echo_def)
  finally have run: "process_command e ?l ?sh2 = echo_loop e ws ?sh2 \<bind> print e [10]" .
  have s2: "screen_ok e ?sh2" using u(1) by (simp add: screen_ok_def)
  have "\<forall>w\<in>set ws. \<forall>c\<in>set w. printable c" using ws by blast
  from echo_loop_writes [OF s2 this] have "writes e (spaced ws) ?sh2 (echo_loop e ws ?sh2)" .
  then have "writes e (spaced ws @ [13, 10]) ?sh2 (echo_loop e ws ?sh2 \<bind> print e [10])"
    by (rule writes_bind) (use print_plain_writes [of e _ "[10]"] in \<open>simp add: screen_ok_def\<close>)
  then obtain v where v: "process_command e ?l ?sh2 = Some (?sh2\<lparr>screen := v\<rparr>)" "term_ok (e_font e) v"
    "serial v = serial u @ spaced ws @ [13, 10]" unfolding run writes_def by auto
  have "foldM (shell_key e) (map char_key (?l @ [10])) sh = shell_key e (char_key 10) ?sh"
    by (cases "shell_key e (char_key 10) ?sh") (simp_all add: foldM_append t(1))
  also have "\<dots> = prompt e (?sh2\<lparr>screen := v, line := [], hist_pos := - 1\<rparr>)" unfolding u(3) v(1) by simp
  also have "?sh2\<lparr>screen := v, line := [], hist_pos := - 1\<rparr> =
      sh\<lparr>screen := v, line := [], history := remember ?l (history sh), hist_pos := - 1\<rparr>" by (cases sh) simp
  finally show ?thesis using v(2,3) u(2) t(3) by auto
qed

section \<open>Messages with a name in them\<close>

lemma format_plain: "37 \<notin> set ds \<Longrightarrow> format_text ds args = Some ds"
  by (induction ds) auto

lemma format_string:
  assumes "37 \<notin> set cs" "37 \<notin> set ds"
  shows "format_text (cs @ [37, 115] @ ds) [Str (Some s)] = Some (cs @ s @ ds)"
  using assms
proof (induction cs)
  case Nil
  have "directive (115 # ds) = ((False, False, 0, 0), 115 # ds)" by (simp add: directive_def)
  then show ?case using Nil by (simp add: convert_text_def string_text_def pad_text_def format_plain)
qed auto

lemma c_string_text: "0 \<notin> set s \<Longrightarrow> c_string (s @ 0 # r) = s"
  unfolding c_string_def by (rule takeWhile_neq_append)

lemma print_fmt_writes:
  assumes "screen_ok e sh" "512 \<le> length (e_stack e)" "37 \<notin> set cs" "37 \<notin> set ds"
    and "0 \<notin> set (cs @ s @ ds)" "9 \<notin> set (cs @ s @ ds)" "length (cs @ s @ ds) < 512"
  shows "writes e (serial_bytes (cs @ s @ ds)) sh (print_fmt e (cs @ [37, 115] @ ds) [Str (Some s)] sh)"
proof -
  let ?t = "cs @ s @ ds"
  have tk: "take (512 - 1) ?t = ?t" by (rule take_all) (use assms(7) in linarith)
  have "vsnprintf (e_stack e) 512 (cs @ [37, 115] @ ds) [Str (Some s)] =
      Some (length ?t, ?t @ 0 # drop (length ?t + 1) (e_stack e))"
    unfolding vsnprintf_lemma [OF assms(2) zero_less_numeral] format_string [OF assms(3,4)] option.map(2) tk
    by simp
  then have "print_fmt e (cs @ [37, 115] @ ds) [Str (Some s)] = print e ?t"
    unfolding print_fmt_def print_def term_printf_def using c_string_text [OF assms(5)] by simp
  then show ?thesis using print_plain_writes [OF assms(1,6)] by simp
qed

text \<open>The commands' messages end in a newline and name a printable argument.\<close>

lemma message_writes:
  assumes "screen_ok e sh" "512 \<le> length (e_stack e)" "\<forall>c\<in>set (cs @ s @ ds). printable c" "length (cs @ s @ ds) < 511"
    and "37 \<notin> set cs" "37 \<notin> set ds"
  shows "writes e (cs @ s @ ds @ [13, 10]) sh (print_fmt e (cs @ [37, 115] @ ds @ [10]) [Str (Some s)] sh)"
proof -
  have np: "c \<notin> set (cs @ s @ ds)" if "c < 32" for c
  proof
    assume "c \<in> set (cs @ s @ ds)"
    with assms(3) have "32 \<le> c" unfolding printable_def by blast
    with that show False by simp
  qed
  have sb: "serial_bytes (xs @ [10]) = xs @ [13, 10]" if "10 \<notin> set xs" for xs
    using that by (induction xs) auto
  have "writes e (serial_bytes (cs @ s @ ds @ [10])) sh (print_fmt e (cs @ [37, 115] @ ds @ [10]) [Str (Some s)] sh)"
    by (rule print_fmt_writes [OF assms(1,2,5)]) (use assms(4,6) np [of 0] np [of 9] in auto)
  moreover have "serial_bytes (cs @ s @ ds @ [10]) = cs @ s @ ds @ [13, 10]"
    using sb [of "cs @ s @ ds"] np [of 10] by simp
  ultimately show ?thesis by simp
qed

lemma rm_lemma:
  assumes s: "screen_ok e sh" and j: "512 \<le> length (e_stack e)" and fs: "fs_inv (e_root e) kids (files sh)"
    and p: "text_ok p" and n: "vfs_resolve (e_root e) (nodes (files sh)) p (cwd sh) = Some n"
  shows "if n = 0 then writes e (bytes ''rm: '' @ p @ bytes '': not found'' @ [13, 10]) sh (cmd_rm e [r, p] sh)
    else \<forall>nd. nodes (files sh) n = Some nd \<longrightarrow>
      (if n = e_root e \<or> v_is_dir nd \<and> v_children nd \<noteq> 0
       then writes e (bytes ''rm: cannot remove '' @ p @ [13, 10]) sh (cmd_rm e [r, p] sh)
       else \<exists>s' kids'. cmd_rm e [r, p] sh = Some (sh\<lparr>files := s'\<rparr>) \<and> fs_inv (e_root e) kids' s' \<and> nodes s' n = None \<and>
         dir_find (nodes s') (v_parent nd) (v_name nd) = Some 0)"
proof -
  have pr: "\<forall>c\<in>set p. printable c" "length p < 256" using p by (simp_all add: text_ok_def LINE_MAX_def)
  have not_found: "writes e (bytes ''rm: '' @ p @ bytes '': not found'' @ [13, 10]) sh
      (print_fmt e (bytes ''rm: %s: not found'' @ [10]) [Str (Some p)] sh)"
    using message_writes [OF s j, of "bytes ''rm: ''" p "bytes '': not found''"] pr by (auto simp: printable_def)
  have refused: "writes e (bytes ''rm: cannot remove '' @ p @ [13, 10]) sh
      (print_fmt e (bytes ''rm: cannot remove %s'' @ [10]) [Str (Some p)] sh)"
    using message_writes [OF s j, of "bytes ''rm: cannot remove ''" p "[]"] pr by (auto simp: printable_def)
  have arg: "[r, p] ! 1 = p" by simp
  have run: "cmd_rm e [r, p] sh = on_files (vfs_unlink kernel_heap (e_root e) n) sh \<bind> (\<lambda>(r, sh).
      if sint r < 0 then print_fmt e (bytes ''rm: cannot remove %s'' @ [10]) [Str (Some p)] sh else Some sh)" if "n \<noteq> 0"
    using that by (simp add: cmd_rm_def arg n cong: if_cong)
  have tree: "tree_ok (e_root e) kids (nodes (files sh))" using fs by (simp add: vfs_inv_def)
  have m1: "sint (- 1 :: u32) < 0" by simp
  have case_node: "if n = e_root e \<or> v_is_dir nd \<and> v_children nd \<noteq> 0
       then writes e (bytes ''rm: cannot remove '' @ p @ [13, 10]) sh (cmd_rm e [r, p] sh)
       else \<exists>s' kids'. cmd_rm e [r, p] sh = Some (sh\<lparr>files := s'\<rparr>) \<and> fs_inv (e_root e) kids' s' \<and> nodes s' n = None \<and>
         dir_find (nodes s') (v_parent nd) (v_name nd) = Some 0"
    if n0: "n \<noteq> 0" and nd: "nodes (files sh) n = Some nd" for nd
  proof (cases "n = e_root e \<or> v_is_dir nd \<and> v_children nd \<noteq> 0")
    case True
    then have "vfs_unlink kernel_heap (e_root e) n (files sh) = Some (- 1, files sh)"
      using nd by (auto simp: vfs_unlink_def)
    then have "cmd_rm e [r, p] sh = print_fmt e (bytes ''rm: cannot remove %s'' @ [10]) [Str (Some p)] sh"
      unfolding run [OF n0] by (simp add: on_files_def)
    then show ?thesis using True refused by simp
  next
    case False
    have "v_children nd = 0"
      using False tree_dirD(1,3) [OF tree nd] by (cases "kids n") auto
    from kheap.vfs_unlink_lemma [OF fs nd _ this] False obtain s' kids' where
      u: "vfs_unlink kernel_heap (e_root e) n (files sh) = Some (0, s')" "fs_inv (e_root e) kids' s'"
      "nodes s' n = None" "dir_find (nodes s') (v_parent nd) (v_name nd) = Some 0" by blast
    have "cmd_rm e [r, p] sh = Some (sh\<lparr>files := s'\<rparr>)"
      unfolding run [OF n0] by (simp add: on_files_def u(1))
    then show ?thesis using False u by auto
  qed
  show ?thesis
  proof (cases "n = 0")
    case True
    then have "cmd_rm e [r, p] sh = print_fmt e (bytes ''rm: %s: not found'' @ [10]) [Str (Some p)] sh"
      using n by (simp add: cmd_rm_def)
    then show ?thesis using True not_found by simp
  next
    case False
    show ?thesis unfolding if_not_P [OF False] using case_node [OF False] by blast
  qed
qed

text \<open>
  Removing the working directory leaves \<open>cwd\<close> pointing to the freed node: the next prompt reads it.
\<close>

lemma rm_of_cwd_dangles:
  assumes "fs_inv (e_root e) kids (files sh)" "cwd sh \<noteq> 0" "cwd sh \<noteq> e_root e"
    "nodes (files sh) (cwd sh) = Some nd" "v_is_dir nd" "v_children nd = 0"
  shows "(cmd_rm e [bytes ''rm'', [DOT]] sh \<bind> prompt e) = None"
proof -
  have "component [DOT] = [DOT]" "after_component [DOT] = []" by (simp_all add: component_def after_component_def skip_slashes_def)
  then have "vfs_resolve (e_root e) (nodes (files sh)) [DOT] (cwd sh) = Some (cwd sh)"
    using assms(2,4) by (simp add: vfs_resolve_def walk_def start_dir_def skip_slashes_def walk_loop.simps step_to_def)
  moreover obtain s' where "vfs_unlink kernel_heap (e_root e) (cwd sh) (files sh) = Some (0, s')" "nodes s' (cwd sh) = None"
    using kheap.vfs_unlink_lemma [OF assms(1,4,3,6)] by blast
  ultimately show ?thesis
    using assms(2) by (simp add: cmd_rm_def on_files_def prompt_def vfs_node_path_def)
qed

section \<open>Properties\<close>

text \<open>The shell on the sample file system, with its root as working directory.\<close>

definition sample_env :: env where
  "sample_env = \<lparr>e_font = sample_font, e_root = 32, e_stack = replicate 512 0, e_junk = (\<lambda>_. 0), e_now = 0,
     e_other = (\<lambda>argv sh. Some sh)\<rparr>"

definition sample_shell :: shell where
  "sample_shell = \<lparr>history = [], cwd = 32, line = [], hist_pos = - 1, files = sample_tree, screen = sample_term\<rparr>"

lemma sample_shell_ok: "shell_ok sample_env sample_shell"
proof -
  have "cwd_ok sample_env sample_shell"
    using sample_tree_ok by (auto simp: cwd_ok_def sample_env_def sample_shell_def sample_tree_def)
  then show ?thesis using sample_term_ok
    by (simp add: shell_ok_def screen_ok_def editor_ok_def editor_of_def text_ok_def LINE_MAX_def HISTORY_MAX_def)
      (simp add: sample_env_def sample_shell_def)
qed

text \<open>
  C25: whatever is typed before Enter (characters, erasing, recalling older lines, control keys), the shell
  keeps the line that the editor specification says, hands exactly that line to the command, records it
  in the history unless it is empty or repeats the last one, and prompts with an empty line; the line
  never exceeds its buffer, the history never its 16 entries, and no key faults.
\<close>

theorem enter_runs_edited_line:
  assumes "shell_ok e sh" "\<forall>ev\<in>set evs. \<not> is_enter ev" "is_enter ev"
  shows "\<exists>l h p t. fold edit_key evs (editor_of sh) = (l, h, p) \<and> editor_ok (l, h, p) \<and> term_ok (e_font e) t \<and>
    (l \<noteq> [] \<longrightarrow> editor_ok ([], remember l h, - 1)) \<and>
    foldM (shell_key e) (evs @ [ev]) sh =
      (if l = [] then Some (put_editor (l, h, p) (sh\<lparr>screen := t\<rparr>))
       else process_command e l (put_editor (l, remember l h, p) (sh\<lparr>screen := t\<rparr>))) \<bind>
      (\<lambda>s. prompt e (s\<lparr>line := [], hist_pos := - 1\<rparr>))"
  by (rule edited_line_lemma [OF assms])

theorem enter_runs_edited_line_witness:
  "\<exists>t. foldM (shell_key sample_env) (map char_key [108, 120, 8, 115] @ [char_key 10]) sample_shell =
     process_command sample_env (bytes ''ls'')
       (put_editor (bytes ''ls'', [bytes ''ls''], - 1) (sample_shell\<lparr>screen := t\<rparr>)) \<bind>
     (\<lambda>s. prompt sample_env (s\<lparr>line := [], hist_pos := - 1\<rparr>))"
proof -
  have "\<forall>ev\<in>set (map char_key [108, 120, 8, 115]). \<not> is_enter ev" "is_enter (char_key 10)"
    by (simp_all add: is_enter_def char_key_def no_event_def)
  note run = enter_runs_edited_line [OF sample_shell_ok this]
  have "fold edit_key (map char_key [108, 120, 8, 115]) (editor_of sample_shell) = ([108, 115], [], - 1)"
    by (simp add: edit_key_def char_key_def no_event_def printable_def editor_of_def sample_shell_def)
  then have "\<exists>t. foldM (shell_key sample_env) (map char_key [108, 120, 8, 115] @ [char_key 10]) sample_shell =
     process_command sample_env [108, 115] (put_editor ([108, 115], remember [108, 115] [], - 1) (sample_shell\<lparr>screen := t\<rparr>)) \<bind>
     (\<lambda>s. prompt sample_env (s\<lparr>line := [], hist_pos := - 1\<rparr>))"
    using run by force
  then show ?thesis by (simp add: remember_def HISTORY_MAX_def)
qed

text \<open>
  C29: from the keyboard to the screen: typing \<open>echo\<close> and up to 15 words of printable characters, then Enter,
  sends exactly the typed line and the words with single spaces between them to the terminal, and the
  shell is back at the prompt with the line in its history.
\<close>

theorem typed_echo_prints_words:
  assumes "shell_ok e sh" "line sh = []" "\<forall>w\<in>set ws. word_ok w \<and> (\<forall>c\<in>set w. printable c)"
    and "length ws < ARGV_MAX" "length (bytes ''echo'' @ after_spaces ws) < LINE_MAX"
  shows "\<exists>t. foldM (shell_key e) (map char_key ((bytes ''echo'' @ after_spaces ws) @ [10])) sh =
      prompt e (sh\<lparr>screen := t, line := [], history := remember (bytes ''echo'' @ after_spaces ws) (history sh),
        hist_pos := - 1\<rparr>) \<and>
    term_ok (e_font e) t \<and>
    serial t = serial (screen sh) @ (bytes ''echo'' @ after_spaces ws) @ [13, 10] @ spaced ws @ [13, 10]"
  by (rule typed_echo_lemma [OF assms])

theorem typed_echo_prints_words_witness:
  "\<exists>t. foldM (shell_key sample_env) (map char_key (bytes ''echo a b'' @ [10])) sample_shell =
      prompt sample_env (sample_shell\<lparr>screen := t, history := [bytes ''echo a b'']\<rparr>) \<and>
     serial t = bytes ''echo a b'' @ [13, 10] @ bytes ''a b'' @ [13, 10]"
proof -
  have h: "line sample_shell = []" "history sample_shell = []" "serial (screen sample_shell) = []"
    by (simp_all add: sample_shell_def sample_term_def)
  have l: "bytes ''echo'' @ after_spaces [[97], [98]] = bytes ''echo a b''" by (simp add: after_spaces_def)
  have "sample_shell\<lparr>screen := t, line := [], history := x, hist_pos := - 1\<rparr> =
      sample_shell\<lparr>screen := t, history := x\<rparr>" for t x by (simp add: sample_shell_def)
  moreover have "remember (bytes ''echo a b'') [] = [bytes ''echo a b'']" by (simp add: remember_def HISTORY_MAX_def)
  moreover have "spaced [[97], [98]] = bytes ''a b''" by simp
  moreover have "\<forall>w\<in>set [[97], [98]]. word_ok w \<and> (\<forall>c\<in>set w. printable c)" "length [[97 :: u8], [98]] < ARGV_MAX"
    "length (bytes ''echo a b'') < LINE_MAX"
    by (simp_all add: word_ok_def blank_def printable_def ARGV_MAX_def LINE_MAX_def)
  ultimately show ?thesis
    using typed_echo_prints_words [OF sample_shell_ok h(1), of "[[97], [98]]", unfolded l h append_Nil] by metis
qed

text \<open>
  C28: \<open>rm\<close> on every path: a path that leads nowhere, the root and a directory that is not empty are refused,
  with exactly the message for the case, and the file system stays as it is; anything else is removed, its
  name is no longer found and the invariant of the tree is kept, with nothing printed.
\<close>

theorem rm_removes_or_refuses:
  assumes "screen_ok e sh" "512 \<le> length (e_stack e)" "fs_inv (e_root e) kids (files sh)" "text_ok p"
    and "vfs_resolve (e_root e) (nodes (files sh)) p (cwd sh) = Some n"
  shows "if n = 0 then writes e (bytes ''rm: '' @ p @ bytes '': not found'' @ [13, 10]) sh (cmd_rm e [r, p] sh)
    else \<forall>nd. nodes (files sh) n = Some nd \<longrightarrow>
      (if n = e_root e \<or> v_is_dir nd \<and> v_children nd \<noteq> 0
       then writes e (bytes ''rm: cannot remove '' @ p @ [13, 10]) sh (cmd_rm e [r, p] sh)
       else \<exists>s' kids'. cmd_rm e [r, p] sh = Some (sh\<lparr>files := s'\<rparr>) \<and> fs_inv (e_root e) kids' s' \<and> nodes s' n = None \<and>
         dir_find (nodes s') (v_parent nd) (v_name nd) = Some 0)"
  by (rule rm_lemma [OF assms])

theorem rm_removes_or_refuses_witness:
  "writes sample_env (bytes ''rm: cannot remove /'' @ [13, 10]) sample_shell (cmd_rm sample_env [bytes ''rm'', [SLASH]] sample_shell) \<and>
   writes sample_env (bytes ''rm: g: not found'' @ [13, 10]) sample_shell (cmd_rm sample_env [bytes ''rm'', [103]] sample_shell) \<and>
   (\<exists>s'. cmd_rm sample_env [bytes ''rm'', [102]] sample_shell = Some (sample_shell\<lparr>files := s'\<rparr>) \<and> nodes s' 4128 = None)"
proof -
  have sh: "screen_ok sample_env sample_shell" using sample_shell_ok by (simp add: shell_ok_def)
  have st: "512 \<le> length (e_stack sample_env)" by (simp add: sample_env_def)
  have e: "e_root sample_env = 32" "files sample_shell = sample_tree" "cwd sample_shell = 32"
    by (simp_all add: sample_env_def sample_shell_def)
  have fs: "fs_inv (e_root sample_env) ((\<lambda>_. [])(32 := [4128])) (files sample_shell)" using sample_fs e by simp
  have p: "text_ok [c]" if "printable c" for c using that by (simp add: text_ok_def LINE_MAX_def)
  have ok: "text_ok [SLASH]" "text_ok [103]" "text_ok [102]" by (intro p; simp add: printable_def)+
  have d: "nodes sample_tree 32 = Some (the (nodes sample_tree 32))" by (simp add: sample_tree_def)
  have find: "dir_find (nodes sample_tree) 32 nm = Some (if nm = [102] then 4128 else 0)" for nm
    unfolding dir_find_pick [OF sample_tree_ok d] by (simp add: sample_tree_def name_of_def)
  have c: "component [c] = [c]" "after_component [c] = []" "skip_slashes [c] = [c]" if "c \<noteq> SLASH" for c
    using that by (simp_all add: component_def after_component_def skip_slashes_def VFS_NAME_MAX_def)
  have one: "vfs_resolve 32 (nodes sample_tree) [c] 32 = Some (if c = 102 then 4128 else 0)"
    if "c \<noteq> SLASH" "c \<noteq> DOT" for c
  proof -
    have "walk_loop (nodes sample_tree) False 32 [c] = Some (if c = 102 then 4128 else 0, None)"
      using that find [of "[c]"] by (subst walk_loop.simps) (simp add: c step_to_def)
    then show ?thesis using that c(3) by (simp add: vfs_resolve_def walk_def start_dir_def)
  qed
  then have r: "vfs_resolve 32 (nodes sample_tree) [103] 32 = Some 0"
    "vfs_resolve 32 (nodes sample_tree) [102] 32 = Some 4128"
    "vfs_resolve 32 (nodes sample_tree) [SLASH] 32 = Some 32"
    by (simp_all add: one) (simp add: vfs_resolve_def walk_def start_dir_def skip_slashes_def)
  note rm = rm_removes_or_refuses [OF sh st fs]
  have 1: "writes sample_env (bytes ''rm: '' @ [103] @ bytes '': not found'' @ [13, 10]) sample_shell
      (cmd_rm sample_env [bytes ''rm'', [103]] sample_shell)" using rm [OF ok(2), unfolded e, OF r(1)] by simp
  have 2: "writes sample_env (bytes ''rm: cannot remove '' @ [SLASH] @ [13, 10]) sample_shell
      (cmd_rm sample_env [bytes ''rm'', [SLASH]] sample_shell)"
    using rm [OF ok(1), unfolded e, OF r(3)] exI [of "\<lambda>n. nodes sample_tree 32 = Some n", OF d] by simp
  have 3: "\<exists>s'. cmd_rm sample_env [bytes ''rm'', [102]] sample_shell = Some (sample_shell\<lparr>files := s'\<rparr>) \<and> nodes s' 4128 = None"
    using rm [OF ok(3), unfolded e, OF r(2)] by (auto simp: sample_tree_def)
  show ?thesis using 1 2 3 by simp
qed

end
