(* ===== verification/Tensor.thy ===== *)
theory Tensor
  imports LlmCommon
begin

text \<open>
  The vector operations of the two inference engines (\<open>llm.c\<close>, \<open>qwen.c\<close>): arrays of floats are lists,
  \<open>None\<close> is an access outside an array. The float operations and the functions of \<open>llm\_math.c\<close> are the
  argument \<open>M\<close>; sums are formed in the order of the code, as float addition is not associative.
\<close>

section \<open>Float operations\<close>

record 'f fmath =
  fl :: "'f floats"
  f_neg :: "'f \<Rightarrow> 'f"
  f_abs :: "'f \<Rightarrow> 'f"
  f_sqrt :: "'f \<Rightarrow> 'f"
  f_sin :: "'f \<Rightarrow> 'f"
  f_cos :: "'f \<Rightarrow> 'f"
  f_pow :: "'f \<Rightarrow> 'f \<Rightarrow> 'f"
  f_to_int :: "'f \<Rightarrow> int"
  f_bits :: "u32 \<Rightarrow> 'f"

abbreviation fadd :: "'f fmath \<Rightarrow> 'f \<Rightarrow> 'f \<Rightarrow> 'f" where "fadd M \<equiv> f_add (fl M)"
abbreviation fsub :: "'f fmath \<Rightarrow> 'f \<Rightarrow> 'f \<Rightarrow> 'f" where "fsub M \<equiv> f_sub (fl M)"
abbreviation fmul :: "'f fmath \<Rightarrow> 'f \<Rightarrow> 'f \<Rightarrow> 'f" where "fmul M \<equiv> f_mul (fl M)"
abbreviation fdiv :: "'f fmath \<Rightarrow> 'f \<Rightarrow> 'f \<Rightarrow> 'f" where "fdiv M \<equiv> f_div (fl M)"
abbreviation fint :: "'f fmath \<Rightarrow> int \<Rightarrow> 'f" where "fint M \<equiv> f_of_int (fl M)"

primrec mapM :: "('a \<Rightarrow> 'b option) \<Rightarrow> 'a list \<Rightarrow> 'b list option" where
  "mapM f [] = Some []"
| "mapM f (x # xs) = f x \<bind> (\<lambda>y. map_option ((#) y) (mapM f xs))"

lemma mapM_total: "(\<And>x. x \<in> set xs \<Longrightarrow> \<exists>y. f x = Some y) \<Longrightarrow> \<exists>ys. mapM f xs = Some ys"
proof (induction xs)
  case (Cons x xs)
  then obtain y ys where "f x = Some y" "mapM f xs = Some ys" by (metis list.set_intros)
  then show ?case by simp
qed simp

lemma mapM_length: "mapM f xs = Some ys \<Longrightarrow> length ys = length xs"
  by (induction xs arbitrary: ys) (auto simp: bind_Some_iff)

lemma mapM_nth: "mapM f xs = Some ys \<Longrightarrow> i < length xs \<Longrightarrow> f (xs ! i) = Some (ys ! i)"
proof (induction xs arbitrary: ys i)
  case (Cons x xs)
  then show ?case by (cases i) (auto simp: bind_Some_iff)
qed simp

section \<open>Vectors\<close>

definition sum_squares :: "'f fmath \<Rightarrow> 'f list \<Rightarrow> 'f" where
  "sum_squares M x = fold (\<lambda>v ss. fadd M ss (fmul M v v)) x (fint M 0)"

text \<open>The normalisation with a weight per element; \<open>eps\<close> is the small constant of the engine.\<close>

definition rmsnorm :: "'f fmath \<Rightarrow> 'f \<Rightarrow> 'f list \<Rightarrow> 'f list \<Rightarrow> nat \<Rightarrow> 'f list option" where
  "rmsnorm M eps x weight n =
     (if n \<le> length x \<and> n \<le> length weight then
        let ss = fdiv M (fint M 1) (f_sqrt M (fadd M (fdiv M (sum_squares M (take n x)) (fint M (int n))) eps))
        in Some (map2 (\<lambda>w v. fmul M w (fmul M ss v)) (take n weight) (take n x))
      else None)"

text \<open>A dot product with four accumulators, then the rest one by one.\<close>

fun dot4 :: "'f fmath \<Rightarrow> 'f \<times> 'f \<times> 'f \<times> 'f \<Rightarrow> 'f list \<Rightarrow> 'f list \<Rightarrow> 'f" where
  "dot4 M (a0, a1, a2, a3) (r0 # r1 # r2 # r3 # rs) (x0 # x1 # x2 # x3 # xs) =
     dot4 M (fadd M a0 (fmul M r0 x0), fadd M a1 (fmul M r1 x1), fadd M a2 (fmul M r2 x2), fadd M a3 (fmul M r3 x3)) rs xs"
| "dot4 M (a0, a1, a2, a3) rs xs =
     fold (\<lambda>(r, x) s. fadd M s (fmul M r x)) (zip rs xs) (fadd M (fadd M a0 a1) (fadd M a2 a3))"

definition dot :: "'f fmath \<Rightarrow> 'f list \<Rightarrow> 'f list \<Rightarrow> 'f" where
  "dot M row x = (let z = fint M 0 in dot4 M (z, z, z, z) row x)"

text \<open>The product of the matrix of \<open>d\<close> rows and \<open>n\<close> columns at \<open>off\<close> of the weights with \<open>x\<close>.\<close>

definition matmul :: "'f fmath \<Rightarrow> 'f list \<Rightarrow> 'f list \<Rightarrow> nat \<Rightarrow> nat \<Rightarrow> nat \<Rightarrow> 'f list option" where
  "matmul M x w off n d =
     slice_at x 0 n \<bind> (\<lambda>x. mapM (\<lambda>i. map_option (\<lambda>row. dot M row x) (slice_at w (off + i * n) n)) [0..<d])"

definition vec_add :: "'f fmath \<Rightarrow> 'f list \<Rightarrow> 'f list \<Rightarrow> nat \<Rightarrow> 'f list option" where
  "vec_add M x y n =
     (if n \<le> length x \<and> n \<le> length y then Some (map2 (fadd M) (take n x) (take n y) @ drop n x) else None)"

text \<open>The gate of the feed-forward layer.\<close>

definition silu_gate :: "'f fmath \<Rightarrow> 'f \<Rightarrow> 'f \<Rightarrow> 'f" where
  "silu_gate M v g =
     fmul M (fmul M v (fdiv M (fint M 1) (fadd M (fint M 1) (f_exp (fl M) (f_neg M v))))) g"

definition silu :: "'f fmath \<Rightarrow> 'f list \<Rightarrow> 'f list \<Rightarrow> nat \<Rightarrow> 'f list option" where
  "silu M hb hb2 n =
     (if n \<le> length hb \<and> n \<le> length hb2 then Some (map2 (silu_gate M) (take n hb) (take n hb2) @ drop n hb) else None)"

text \<open>Rotating the pair of elements at \<open>i\<close> and \<open>j\<close>.\<close>

definition rotate_pair :: "'f fmath \<Rightarrow> 'f \<Rightarrow> 'f \<Rightarrow> nat \<Rightarrow> nat \<Rightarrow> 'f list \<Rightarrow> 'f list option" where
  "rotate_pair M fcr fci i j v =
     (if i < length v \<and> j < length v then
        Some (v[i := fsub M (fmul M (v ! i) fcr) (fmul M (v ! j) fci), j := fadd M (fmul M (v ! i) fci) (fmul M (v ! j) fcr)])
      else None)"

section \<open>Attention\<close>

text \<open>
  One head: the scores of the query \<open>q\<close> against the keys of the positions up to \<open>pos\<close>, which lie
  \<open>stride\<close> apart from \<open>off\<close> on in the cache, then the weighted sum of the values. The head has \<open>hs\<close>
  elements.
\<close>

definition attn_score :: "'f fmath \<Rightarrow> 'f list \<Rightarrow> 'f list \<Rightarrow> nat \<Rightarrow> 'f" where
  "attn_score M q k hs =
     fdiv M (fold (\<lambda>(a, b) s. fadd M s (fmul M a b)) (zip q k) (fint M 0)) (f_sqrt M (fint M (int hs)))"

definition attn_scores :: "'f fmath \<Rightarrow> 'f list \<Rightarrow> 'f list \<Rightarrow> nat \<Rightarrow> nat \<Rightarrow> nat \<Rightarrow> nat \<Rightarrow> 'f list option" where
  "attn_scores M q cache off stride hs pos =
     mapM (\<lambda>tp. map_option (\<lambda>k. attn_score M q k hs) (slice_at cache (off + tp * stride) hs)) [0..<pos + 1]"

definition attn_values :: "'f fmath \<Rightarrow> 'f list \<Rightarrow> 'f list \<Rightarrow> nat \<Rightarrow> nat \<Rightarrow> nat \<Rightarrow> nat \<Rightarrow> 'f list option" where
  "attn_values M att cache off stride hs pos =
     foldM (\<lambda>tp out. slice_at cache (off + tp * stride) hs \<bind> (\<lambda>v.
       if tp < length att then Some (map2 (\<lambda>o1 x. fadd M o1 (fmul M (att ! tp) x)) out v) else None))
       [0..<pos + 1] (replicate hs (fint M 0))"

text \<open>
  One head of the query, for a cache whose rows of \<open>kv\<close> elements hold a head of \<open>hs\<close> elements for every \<open>g\<close>
  heads of the query and for \<open>n\<close> positions; the head writes its scores to \<open>att\<close> and its result to \<open>xb\<close>.
\<close>

definition head_step :: "'f fmath \<Rightarrow> nat \<Rightarrow> nat \<Rightarrow> nat \<Rightarrow> nat \<Rightarrow> nat \<Rightarrow> nat \<Rightarrow> 'f list \<Rightarrow> 'f list \<Rightarrow> 'f list \<Rightarrow> nat \<Rightarrow>
    'f list \<times> 'f list \<Rightarrow> ('f list \<times> 'f list) option" where
  "head_step M hs kv g n pos loff q kc vc h = (\<lambda>(att, xb).
     let off = loff + h div g * hs
     in slice_at q (h * hs) hs \<bind> (\<lambda>qh.
        attn_scores M qh kc off kv hs pos \<bind> (\<lambda>sc.
        blit att (h * n) sc \<bind> (\<lambda>att.
        slice_at att (h * n) (pos + 1) \<bind> llm_softmax (fl M) \<bind> (\<lambda>p.
        blit att (h * n) p \<bind> (\<lambda>att.
        attn_values M p vc off kv hs pos \<bind> (\<lambda>out.
        blit xb (h * hs) out \<bind> (\<lambda>xb. Some (att, xb)))))))))"

section \<open>Sizes\<close>

lemma slice_at_total: "off + n \<le> length s \<Longrightarrow> \<exists>xs. slice_at s off n = Some xs \<and> length xs = n"
  by (simp add: slice_at_def)

lemma blit_total: "off + length xs \<le> length buf \<Longrightarrow> \<exists>buf'. blit buf off xs = Some buf' \<and> length buf' = length buf"
  by (simp add: blit_def)

lemma rmsnorm_total:
  "n \<le> length x \<Longrightarrow> n \<le> length w \<Longrightarrow> \<exists>y. rmsnorm M eps x w n = Some y \<and> length y = n"
  by (simp add: rmsnorm_def Let_def)

lemma matmul_total:
  assumes "n \<le> length x" "off + d * n \<le> length w"
  shows "\<exists>y. matmul M x w off n d = Some y \<and> length y = d"
proof -
  have s: "slice_at x 0 n = Some (take n x)" using assms(1) by (simp add: slice_at_def)
  have row: "\<exists>r. slice_at w (off + i * n) n = Some r" if "i < d" for i
  proof -
    have "(i + 1) * n \<le> d * n" using that by (intro mult_le_mono1) simp
    then have "off + i * n + n \<le> length w" using assms(2) by simp
    then show ?thesis by (simp add: slice_at_def)
  qed
  have "\<exists>y. mapM (\<lambda>i. map_option (\<lambda>row. dot M row (take n x)) (slice_at w (off + i * n) n)) [0..<d] = Some y"
    by (rule mapM_total) (use row in force)
  then obtain y where
    y: "mapM (\<lambda>i. map_option (\<lambda>row. dot M row (take n x)) (slice_at w (off + i * n) n)) [0..<d] = Some y" by blast
  then show ?thesis using mapM_length [OF y] by (simp add: matmul_def s)
qed

lemma vec_add_total: "n = length x \<Longrightarrow> n \<le> length y \<Longrightarrow> \<exists>z. vec_add M x y n = Some z \<and> length z = length x"
  by (simp add: vec_add_def)

lemma silu_total: "n = length x \<Longrightarrow> n \<le> length y \<Longrightarrow> \<exists>z. silu M x y n = Some z \<and> length z = length x"
  by (simp add: silu_def)

lemma rotate_pair_total:
  "i < length v \<Longrightarrow> j < length v \<Longrightarrow> \<exists>w. rotate_pair M c s i j v = Some w \<and> length w = length v \<and>
    (\<forall>k. k \<noteq> i \<and> k \<noteq> j \<longrightarrow> w ! k = v ! k)"
  by (simp add: rotate_pair_def)

lemma attn_scores_total:
  assumes "off + pos * stride + hs \<le> length cache"
  shows "\<exists>y. attn_scores M q cache off stride hs pos = Some y \<and> length y = pos + 1"
proof -
  have key: "\<exists>k. slice_at cache (off + tp * stride) hs = Some k" if "tp \<le> pos" for tp
  proof -
    have "tp * stride \<le> pos * stride" using that by (rule mult_le_mono1)
    then have "off + tp * stride + hs \<le> length cache" using assms by linarith
    then show ?thesis by (simp add: slice_at_def)
  qed
  have "\<exists>y. mapM (\<lambda>tp. map_option (\<lambda>k. attn_score M q k hs) (slice_at cache (off + tp * stride) hs)) [0..<pos + 1] = Some y"
    by (rule mapM_total) (use key in \<open>force simp: less_Suc_eq_le\<close>)
  then obtain y where
    y: "mapM (\<lambda>tp. map_option (\<lambda>k. attn_score M q k hs) (slice_at cache (off + tp * stride) hs)) [0..<pos + 1] = Some y"
    by blast
  then show ?thesis using mapM_length [OF y] unfolding attn_scores_def by simp
qed

lemma attn_values_total:
  assumes "off + pos * stride + hs \<le> length cache" "pos < length att"
  shows "\<exists>y. attn_values M att cache off stride hs pos = Some y \<and> length y = hs"
  unfolding attn_values_def
proof (rule foldM_invariant [where P = "\<lambda>_ out. length out = hs"])
  fix ys tp zs and out :: "'a list"
  assume "[0..<pos + 1] = ys @ tp # zs" and out: "length out = hs"
  then have "tp \<in> set [0..<pos + 1]" by (metis in_set_conv_decomp)
  then have tp: "tp \<le> pos" by auto
  then have "tp * stride \<le> pos * stride" by (rule mult_le_mono1)
  then have "off + tp * stride + hs \<le> length cache" using assms(1) by linarith
  then obtain v where "slice_at cache (off + tp * stride) hs = Some v" "length v = hs"
    using slice_at_total by blast
  then show "\<exists>t'. (slice_at cache (off + tp * stride) hs \<bind> (\<lambda>v.
       if tp < length att then Some (map2 (\<lambda>o1 x. fadd M o1 (fmul M (att ! tp) x)) out v) else None)) = Some t' \<and> length t' = hs"
    using tp assms(2) out by simp
qed simp

section \<open>Rows of a cache\<close>

text \<open>
  A cache has a row of \<open>k\<close> elements for every layer and each of the \<open>n\<close> positions; a step at \<open>pos\<close> may
  change only the rows of that position.
\<close>

definition other_rows :: "nat \<Rightarrow> nat \<Rightarrow> nat \<Rightarrow> 'f list \<Rightarrow> 'f list \<Rightarrow> bool" where
  "other_rows k n pos kc kc' \<longleftrightarrow> length kc' = length kc \<and> (\<forall>j < length kc. j div k mod n \<noteq> pos \<longrightarrow> kc' ! j = kc ! j)"

lemma other_rows_refl: "other_rows k n pos kc kc"
  by (simp add: other_rows_def)

lemma other_rows_trans: "other_rows k n pos a b \<Longrightarrow> other_rows k n pos b d \<Longrightarrow> other_rows k n pos a d"
  by (simp add: other_rows_def)

lemma row_fits:
  assumes "l < L" "pos < (n :: nat)"
  shows "l * n * k + pos * k + k \<le> L * n * k"
proof -
  have "l * n + pos + 1 \<le> L * n" using assms less_div_times [of l L] mult_le_mono1 [of "l + 1" L n] by simp
  then have "(l * n + pos + 1) * k \<le> L * n * k" by (rule mult_le_mono1)
  then show ?thesis by (simp add: algebra_simps)
qed

lemma row_index: "i < (k :: nat) \<Longrightarrow> pos < n \<Longrightarrow> (l * n * k + pos * k + i) div k mod n = pos"
proof -
  assume "i < k" "pos < n"
  have "l * n * k + pos * k + i = (l * n + pos) * k + i" by (simp add: algebra_simps)
  then show ?thesis using \<open>i < k\<close> \<open>pos < n\<close> by simp
qed

lemma row_blit_part:
  assumes "l < L" "pos < n" "length kc = L * n * k" "o1 + length xs \<le> k"
  shows "\<exists>kc'. blit kc (l * n * k + pos * k + o1) xs = Some kc' \<and> other_rows k n pos kc kc'"
proof -
  let ?o = "l * n * k + pos * k + o1"
  have "?o + length xs \<le> length kc" using row_fits [OF assms(1,2), of k] assms(3,4) by linarith
  from blit_total [OF this] obtain kc' where b: "blit kc ?o xs = Some kc'" "length kc' = length kc" by blast
  have "kc' ! j = kc ! j" if j: "j < length kc" "j div k mod n \<noteq> pos" for j
  proof -
    have "\<not> (?o \<le> j \<and> j < ?o + length xs)"
    proof
      assume a: "?o \<le> j \<and> j < ?o + length xs"
      then have "j = l * n * k + pos * k + (j - (l * n * k + pos * k))" "j - (l * n * k + pos * k) < k" using assms(4) by auto
      then show False using row_index [of "j - (l * n * k + pos * k)" k pos n l] assms(2) j(2) by metis
    qed
    then show ?thesis unfolding blit_nth [OF b(1) j(1)] by (rule if_not_P)
  qed
  then show ?thesis using b by (auto simp: other_rows_def)
qed

lemma row_blit:
  assumes "l < L" "pos < n" "length kc = L * n * k" "length xs = k"
  shows "\<exists>kc'. blit kc (l * n * k + pos * k) xs = Some kc' \<and> other_rows k n pos kc kc'"
  using row_blit_part [OF assms(1-3), of 0 xs] assms(4) by simp

lemma softmax_total: "x \<noteq> [] \<Longrightarrow> \<exists>p. llm_softmax F x = Some p \<and> length p = length x"
  by (simp add: llm_softmax_def Let_def)

lemma heads_ok:
  fixes M :: "'f fmath"
  assumes l: "l < L" "pos < n" and g: "0 < g" "nh = g * nkv" "kv = nkv * hs"
    and kc: "length kc = L * n * kv" "length vc = L * n * kv"
    and a: "length att = nh * n" "nh * hs \<le> length q" "nh * hs \<le> length xb"
  shows "\<exists>att' xb'. foldM (head_step M hs kv g n pos (l * n * kv) q kc vc) [0..<nh] (att, xb) = Some (att', xb') \<and>
    length att' = length att \<and> length xb' = length xb"
proof -
  let ?L = "l * n * kv"
  let ?P = "\<lambda>(_ :: nat list) (a :: 'f list, b :: 'f list). length a = length att \<and> length b = length xb"
  have step: "\<exists>t'. head_step M hs kv g n pos ?L q kc vc h t = Some t' \<and> ?P zs t'" if h: "h < nh" and t: "?P ys t" for h t ys zs
  proof -
    obtain a1 b1 where ab: "t = (a1, b1)" "length a1 = length att" "length b1 = length xb" using t by (cases t) auto
    have hq: "h * hs + hs \<le> nh * hs" using mult_le_mono1 [of "h + 1" nh hs] h by simp
    have "h div g < nkv" using h g by (simp add: div_less_iff_less_mult mult.commute)
    then have hk: "h div g * hs + hs \<le> kv"
      using mult_le_mono1 [of "h div g + 1" nkv hs] g(3) by simp
    have off: "?L + h div g * hs + pos * kv + hs \<le> L * n * kv"
      using row_fits [OF l, of kv] hk by linarith
    have at: "h * n + (pos + 1) \<le> length att"
      using mult_le_mono1 [of "h + 1" nh n] h l(2) a(1) by simp
    have "h * hs + hs \<le> length q" using hq a(2) by simp
    from slice_at_total [OF this] obtain qh where qh: "slice_at q (h * hs) hs = Some qh" by blast
    have "?L + h div g * hs + pos * kv + hs \<le> length kc" using off kc(1) by simp
    from attn_scores_total [OF this, of M qh] obtain sc where
      sc: "attn_scores M qh kc (?L + h div g * hs) kv hs pos = Some sc" "length sc = pos + 1" by blast
    have "h * n + length sc \<le> length a1" using at sc(2) ab(2) by simp
    from blit_total [OF this] obtain a2 where a2: "blit a1 (h * n) sc = Some a2" "length a2 = length a1" by blast
    have sl: "slice_at a2 (h * n) (pos + 1) = Some sc" using slice_blit_same [OF a2(1)] sc(2) by simp
    have "sc \<noteq> []" using sc(2) by auto
    from softmax_total [OF this, of "fl M"] obtain pr where pr: "llm_softmax (fl M) sc = Some pr" "length pr = pos + 1" using sc(2) by auto
    have "h * n + length pr \<le> length a2" using at pr(2) ab(2) a2(2) by simp
    from blit_total [OF this] obtain a3 where a3: "blit a2 (h * n) pr = Some a3" "length a3 = length a2" by blast
    have "?L + h div g * hs + pos * kv + hs \<le> length vc" "pos < length pr" using off kc(2) pr(2) by simp_all
    from attn_values_total [OF this, of M] obtain out where
      out: "attn_values M pr vc (?L + h div g * hs) kv hs pos = Some out" "length out = hs" by blast
    have "h * hs + length out \<le> length b1" using hq out(2) ab(3) a(3) by simp
    from blit_total [OF this] obtain b2 where b2: "blit b1 (h * hs) out = Some b2" "length b2 = length b1" by blast
    have "head_step M hs kv g n pos ?L q kc vc h t = Some (a3, b2)"
      unfolding head_step_def ab(1) prod.case Let_def qh sc(1) a2(1) sl pr(1) a3(1) out(1) b2(1) bind.bind_lunit ..
    then show ?thesis using a2(2) a3(2) b2(2) ab by simp
  qed
  have "\<exists>t'. foldM (head_step M hs kv g n pos ?L q kc vc) [0..<nh] (att, xb) = Some t' \<and> ?P [0..<nh] t'"
  proof (rule foldM_invariant)
    fix ys h zs t assume "[0..<nh] = ys @ h # zs" and t: "?P ys t"
    then have "h \<in> set [0..<nh]" by (metis in_set_conv_decomp)
    then show "\<exists>t'. head_step M hs kv g n pos ?L q kc vc h t = Some t' \<and> ?P (ys @ [h]) t'" using step [OF _ t] by simp
  qed simp
  then show ?thesis by auto
qed

section \<open>The matrix product in exact arithmetic\<close>

lemma fold_add_sum: "fold (\<lambda>(r, x) s. s + r * x) ps a = a + (\<Sum>(r, x)\<leftarrow>ps. r * x)" for a :: "'f :: comm_ring_1"
  by (induction ps arbitrary: a) (auto simp: algebra_simps)

lemma dot4_sum:
  fixes M :: "('f :: comm_ring_1) fmath"
  assumes "f_add (fl M) = (+)" "f_mul (fl M) = (*)" "length row = length x"
  shows "dot4 M acc row x = (case acc of (a0, a1, a2, a3) \<Rightarrow> a0 + a1 + a2 + a3) + (\<Sum>(r, x)\<leftarrow>zip row x. r * x)"
  using assms
proof (induction M acc row x rule: dot4.induct)
  case (1 M a0 a1 a2 a3 r0 r1 r2 r3 rs x0 x1 x2 x3 xs)
  then show ?case by (simp add: algebra_simps)
qed (simp_all add: fold_add_sum [unfolded case_prod_unfold] case_prod_unfold)

text \<open>
  The unrolled matrix product is the mathematical one. With the four running sums, the remainder loop
  and the order of additions of the code, over exact arithmetic (any commutative ring) row \<open>i\<close> of the
  result is the sum over \<open>j\<close> of \<open>w[off + i n + j] x[j]\<close>, for every \<open>n\<close>, divisible by four or not, and no
  access leaves the arrays.
\<close>

theorem matmul_exact:
  fixes M :: "('f :: comm_ring_1) fmath"
  assumes exact: "f_add (fl M) = (+)" "f_mul (fl M) = (*)" "f_of_int (fl M) 0 = 0"
    and len: "n \<le> length x" "off + d * n \<le> length w"
  shows "matmul M x w off n d = Some (map (\<lambda>i. \<Sum>j<n. w ! (off + i * n + j) * x ! j) [0..<d])"
proof -
  from matmul_total [OF len, of M] obtain y where y: "matmul M x w off n d = Some y" "length y = d" by blast
  have s: "slice_at x 0 n = Some (take n x)" using len(1) by (simp add: slice_at_def)
  from y(1) have m: "mapM (\<lambda>i. map_option (\<lambda>row. dot M row (take n x)) (slice_at w (off + i * n) n)) [0..<d] = Some y"
    by (simp add: matmul_def s)
  have "y ! i = (\<Sum>j<n. w ! (off + i * n + j) * x ! j)" if i: "i < d" for i
  proof -
    from mapM_nth [OF m, of i] i obtain row where row: "slice_at w (off + i * n) n = Some row" "y ! i = dot M row (take n x)"
      by auto
    have l: "length row = n" using slice_length [OF row(1)] .
    have "dot M row (take n x) = (\<Sum>(r, v)\<leftarrow>zip row (take n x). r * v)"
      using dot4_sum [OF exact(1,2), of row "take n x"] l len(1) by (simp add: dot_def Let_def exact)
    also have "\<dots> = (\<Sum>j<n. row ! j * x ! j)"
      using l len(1) by (simp add: sum_list_sum_nth atLeast0LessThan)
    also have "\<dots> = (\<Sum>j<n. w ! (off + i * n + j) * x ! j)"
      by (rule sum.cong) (simp_all add: slice_nth [OF row(1)])
    finally show ?thesis using row(2) by simp
  qed
  then have "y = map (\<lambda>i. \<Sum>j<n. w ! (off + i * n + j) * x ! j) [0..<d]"
    using y(2) by (intro nth_equalityI) simp_all
  then show ?thesis using y(1) by simp
qed

text \<open>Integers as exact floats.\<close>

definition int_math :: "int fmath" where
  "int_math = \<lparr>fl = \<lparr>f_add = (+), f_sub = (-), f_mul = (*), f_div = (div), f_less = (<), f_eq = (=), f_exp = (\<lambda>x. x), f_of_int = (\<lambda>i. i)\<rparr>,
     f_neg = uminus, f_abs = abs, f_sqrt = (\<lambda>x. x), f_sin = (\<lambda>x. 0), f_cos = (\<lambda>x. 1), f_pow = (\<lambda>x y. 1), f_to_int = (\<lambda>x. x),
     f_bits = sint\<rparr>"

theorem matmul_exact_witness:
  "matmul int_math [1, 2, 3, 4, 5] [9, 1, 1, 1, 1, 1, 0, 2, 0, 2, 0] 1 5 2 = Some [15, 12]"
  using matmul_exact [of int_math 5 "[1, 2, 3, 4, 5]" 1 2 "[9, 1, 1, 1, 1, 1, 0, 2, 0, 2, 0]"]
  by (simp add: int_math_def lessThan_nat_numeral lessThan_Suc eval_nat_numeral)

end
