(* ===== verification/Bpe.thy ===== *)
theory Bpe
  imports LlmCommon Kprintf
begin

text \<open>
  Byte-pair merging as \<open>llm.c\<close> and \<open>qwen.c\<close> do it on their token arrays, with the part of the tokenizer
  that both have. A piece of the vocabulary is a C string, the bytes before its NUL; \<open>n\<close> is the size of
  the buffer for the text of a pair, 0 when it could not be allocated. \<open>None\<close> is an access outside an
  array.
\<close>

section \<open>The tokenizer\<close>

record 'f tokenizer =
  vocab :: "u8 list list"
  vocab_scores :: "'f list"
  sorted_vocab :: "token_index list"
  vocab_size :: int
  max_token_length :: u32

definition piece :: "('f, 'z) tokenizer_scheme \<Rightarrow> int \<Rightarrow> u8 list option" where
  "piece t i = (if 0 \<le> i \<and> i < int (length (vocab t)) then Some (vocab t ! nat i) else None)"

definition piece_score :: "('f, 'z) tokenizer_scheme \<Rightarrow> int \<Rightarrow> 'f option" where
  "piece_score t i = (if 0 \<le> i \<and> i < int (length (vocab_scores t)) then Some (vocab_scores t ! nat i) else None)"

definition lookup :: "('f, 'z) tokenizer_scheme \<Rightarrow> u8 list \<Rightarrow> int option" where
  "lookup t s = tok_lookup s (sorted_vocab t) (vocab_size t)"

text \<open>The size of the buffer for a pair, an unsigned int.\<close>

definition buffer_size :: "('f, 'z) tokenizer_scheme \<Rightarrow> u32" where
  "buffer_size t = max_token_length t * 2 + 3"

text \<open>What \<open>snprintf\<close> with the format \<open>%s%s\<close> leaves in the buffer.\<close>

definition pair_text :: "('f, 'z) tokenizer_scheme \<Rightarrow> u8 list \<Rightarrow> u8 list \<Rightarrow> u8 list" where
  "pair_text t a b = take (unat (buffer_size t) - 1) (a @ b)"

section \<open>Merging\<close>

text \<open>One turn of the search for the best pair; the state is the best score, its token and its place.\<close>

definition pair_step :: "'f floats \<Rightarrow> ('f, 'z) tokenizer_scheme \<Rightarrow> nat \<Rightarrow> int list \<Rightarrow> nat \<Rightarrow>
    'f \<times> int \<times> int \<Rightarrow> ('f \<times> int \<times> int) option" where
  "pair_step F t n toks i = (\<lambda>(best, best_id, best_idx).
     piece t (toks ! i) \<bind> (\<lambda>a. piece t (toks ! (i + 1)) \<bind> (\<lambda>b.
     if n < unat (buffer_size t) then None
     else lookup t (pair_text t a b) \<bind> (\<lambda>tk.
       if tk = - 1 then Some (best, best_id, best_idx)
       else piece_score t tk \<bind> (\<lambda>s.
         Some (if f_less F best s then (s, tk, int i) else (best, best_id, best_idx)))))))"

definition lowest :: "'f floats \<Rightarrow> 'f" where
  "lowest F = f_of_int F (- 10000000000)"

definition best_pair :: "'f floats \<Rightarrow> ('f, 'z) tokenizer_scheme \<Rightarrow> nat \<Rightarrow> int list \<Rightarrow> ('f \<times> int \<times> int) option" where
  "best_pair F t n toks = foldM (pair_step F t n toks) [0..<length toks - 1] (lowest F, - 1, - 1)"

text \<open>The token at \<open>i\<close> replaced, the one after it taken out.\<close>

definition merge_at :: "nat \<Rightarrow> int \<Rightarrow> int list \<Rightarrow> int list" where
  "merge_at i tk toks = take i toks @ tk # drop (i + 2) toks"

lemma pair_step_idx:
  "pair_step F t n toks i (s, d, x) = Some (s', d', x') \<Longrightarrow> x' = x \<or> x' = int i"
  by (auto simp: pair_step_def bind_Some_iff split: if_splits)

lemma best_pair_idx:
  assumes "best_pair F t n toks = Some (s, d, x)"
  shows "x = - 1 \<or> 0 \<le> x \<and> x < int (length toks) - 1"
proof -
  have "x = x0 \<or> 0 \<le> x \<and> x < int m" if "foldM (pair_step F t n toks) [0..<m] (s0, d0, x0) = Some (s, d, x)" for m s0 d0 x0
    using that
  proof (induction m arbitrary: s d x)
    case (Suc m)
    from Suc.prems obtain s1 d1 x1 where r: "foldM (pair_step F t n toks) [0..<m] (s0, d0, x0) = Some (s1, d1, x1)"
      "pair_step F t n toks m (s1, d1, x1) = Some (s, d, x)"
      by (auto simp: foldM_append bind_Some_iff)
    show ?case using Suc.IH [OF r(1)] pair_step_idx [OF r(2)] by auto
  qed simp
  from this [OF assms [unfolded best_pair_def]] show ?thesis by auto
qed

function merge_loop :: "'f floats \<Rightarrow> ('f, 'z) tokenizer_scheme \<Rightarrow> nat \<Rightarrow> int list \<Rightarrow> int list option" where
  "merge_loop F t n toks =
     (case best_pair F t n toks of
        None \<Rightarrow> None
      | Some (s, tk, idx) \<Rightarrow> if idx = - 1 then Some toks else merge_loop F t n (merge_at (nat idx) tk toks))"
  by pat_completeness auto
termination
  by (relation "measure (\<lambda>(F, t, n, toks). length toks)") (auto simp: merge_at_def dest!: best_pair_idx)

declare merge_loop.simps [simp del]

text \<open>Appending to the caller's array of \<open>cap\<close> tokens.\<close>

definition put_token :: "nat \<Rightarrow> int \<Rightarrow> int list \<Rightarrow> int list option" where
  "put_token cap tk toks = (if length toks < cap then Some (toks @ [tk]) else None)"

section \<open>A well-formed tokenizer\<close>

definition entries :: "u8 list list \<Rightarrow> token_index list" where
  "entries voc = map (\<lambda>i. \<lparr>tok_str = voc ! i, tok_id = int i\<rparr>) [0..<length voc]"

definition tok_ok :: "('f, 'z) tokenizer_scheme \<Rightarrow> bool" where
  [inv_simps]: "tok_ok t \<longleftrightarrow>
     vocab_size t = int (length (vocab t)) \<and> length (vocab t) \<le> 2 ^ 30 \<and>
     length (vocab_scores t) = length (vocab t) \<and>
     (\<forall>s\<in>set (vocab t). 0 \<notin> set s \<and> length s \<le> unat (max_token_length t)) \<and>
     unat (max_token_length t) < 2 ^ 31 - 1 \<and>
     tok_sort (entries (vocab t)) (length (vocab t)) = Some (sorted_vocab t)"

lemma buffer_size_nat:
  assumes "tok_ok t"
  shows "unat (buffer_size t) = unat (max_token_length t) * 2 + 3"
proof -
  have b: "unat (max_token_length t) * 2 + 3 < 2 ^ 32" using assms by (simp add: tok_ok_def)
  have "buffer_size t = of_nat (unat (max_token_length t) * 2 + 3)" by (simp add: buffer_size_def)
  then show ?thesis using unat_of_nat_small [of "unat (max_token_length t) * 2 + 3", where 'a = 32] b by simp
qed

lemma piece_ok: "tok_ok t \<Longrightarrow> piece t i = Some s \<Longrightarrow> 0 \<notin> set s \<and> length s \<le> unat (max_token_length t)"
  by (auto simp: tok_ok_def piece_def split: if_splits)

lemma piece_vocab: "(\<exists>i. piece t i = Some s) \<longleftrightarrow> s \<in> set (vocab t)"
proof
  assume "s \<in> set (vocab t)"
  then obtain k where "k < length (vocab t)" "vocab t ! k = s" by (auto simp: in_set_conv_nth)
  then have "piece t (int k) = Some s" by (simp add: piece_def)
  then show "\<exists>i. piece t i = Some s" by blast
qed (auto simp: piece_def split: if_splits)

lemma score_ok: "tok_ok t \<Longrightarrow> piece t i = Some s \<Longrightarrow> \<exists>c. piece_score t i = Some c"
  by (auto simp: tok_ok_def piece_def piece_score_def split: if_splits)

lemma lookup_ok:
  assumes "tok_ok t" "0 \<notin> set s"
  shows "\<exists>r. lookup t s = Some r \<and> (r = - 1 \<and> s \<notin> set (vocab t) \<or> r \<noteq> - 1 \<and> piece t r = Some s)"
proof -
  let ?n = "length (vocab t)"
  have t: "tok_sort (entries (vocab t)) ?n = Some (sorted_vocab t)" "?n \<le> 2 ^ 30" "vocab_size t = int ?n"
    "\<forall>s\<in>set (vocab t). 0 \<notin> set s" using assms(1) by (auto simp: tok_ok_def)
  have e: "take ?n (entries (vocab t)) = entries (vocab t)" by (simp add: entries_def)
  have z: "\<forall>x\<in>set (entries (vocab t)). 0 \<notin> set (tok_str x)" using t(4) by (auto simp: entries_def)
  have p: "x \<in> set (entries (vocab t)) \<Longrightarrow> piece t (tok_id x) = Some (tok_str x) \<and> tok_id x \<noteq> - 1" for x
    by (auto simp: entries_def piece_def)
  have "s \<notin> set (vocab t)" if "\<forall>x\<in>set (entries (vocab t)). tok_str x \<noteq> s"
  proof
    assume "s \<in> set (vocab t)"
    then obtain k where "k < ?n" "vocab t ! k = s" by (auto simp: in_set_conv_nth)
    then have "\<lparr>tok_str = s, tok_id = int k\<rparr> \<in> set (entries (vocab t))" by (auto simp: entries_def)
    with that show False by force
  qed
  then show ?thesis
    using tok_lookup_found [OF t(1,2) assms(2), unfolded e, OF z] p unfolding lookup_def t(3) by metis
qed

text \<open>The text of a pair is what \<open>snprintf\<close> writes, and nothing of it is cut.\<close>

lemma pair_text_snprintf:
  assumes "n \<le> length buf" "0 < n" "0 \<notin> set a" "0 \<notin> set b"
  shows "map_option (\<lambda>(r, buf). c_string buf) (vsnprintf buf n [37, 115, 37, 115] [Str (Some a), Str (Some b)]) =
    Some (take (n - 1) (a @ b))"
proof -
  have d: "directive [115, 37, 115] = ((False, False, 0, 0), [115, 37, 115])"
    "directive [115] = ((False, False, 0, 0), [115])" by (simp_all add: directive_def)
  have f: "format_text [37, 115, 37, 115] [Str (Some a), Str (Some b)] = Some (a @ b)"
    by (simp add: d convert_text_def string_text_def pad_text_def)
  have "0 \<notin> set (take (n - 1) (a @ b))" using assms(3,4) set_take_subset [of "n - 1" "a @ b"] by auto
  then show ?thesis
    unfolding vsnprintf_lemma [OF assms(1,2)] f using takeWhile_neq_append [of 0 "take (n - 1) (a @ b)"]
    by (simp add: c_string_def del: take_append)
qed

lemma pair_text_whole:
  assumes "tok_ok t" "piece t i = Some a" "piece t j = Some b"
  shows "pair_text t a b = a @ b"
proof -
  have "length (a @ b) \<le> unat (buffer_size t) - 1"
    using piece_ok [OF assms(1,2)] piece_ok [OF assms(1,3)] unfolding buffer_size_nat [OF assms(1)] by simp
  then show ?thesis unfolding pair_text_def by (rule take_all)
qed

section \<open>What merging does\<close>

text \<open>The text a list of tokens stands for: their pieces one after the other.\<close>

definition spelled :: "('f, 'z) tokenizer_scheme \<Rightarrow> int list \<Rightarrow> u8 list" where
  "spelled t toks = concat (map (\<lambda>i. the (piece t i)) toks)"

definition in_vocab :: "('f, 'z) tokenizer_scheme \<Rightarrow> int list \<Rightarrow> bool" where
  "in_vocab t toks \<longleftrightarrow> (\<forall>i\<in>set toks. piece t i \<noteq> None)"

lemma spelled_append [simp]: "spelled t (xs @ ys) = spelled t xs @ spelled t ys"
  by (simp add: spelled_def)

lemma spelled_Cons: "spelled t (x # xs) = the (piece t x) @ spelled t xs"
  by (simp add: spelled_def)

text \<open>A neighbouring pair that the search passes over: no token has its text, or its score is not above the lowest.\<close>

definition no_merge :: "'f floats \<Rightarrow> ('f, 'z) tokenizer_scheme \<Rightarrow> int list \<Rightarrow> nat \<Rightarrow> bool" where
  "no_merge F t toks i \<longleftrightarrow>
     (\<forall>r s. piece t r = Some (the (piece t (toks ! i)) @ the (piece t (toks ! (i + 1)))) \<and>
        lookup t (the (piece t r)) = Some r \<and> piece_score t r = Some s \<longrightarrow> \<not> f_less F (lowest F) s)"

lemma pair_step_ok:
  assumes ok: "tok_ok t" and v: "in_vocab t toks" and i: "i + 1 < length toks" and n: "unat (buffer_size t) \<le> n"
  shows "\<exists>b' d' x'. pair_step F t n toks i (b, d, x) = Some (b', d', x') \<and>
    ((b', d', x') = (b, d, x) \<and>
       (\<forall>r s. piece t r = Some (the (piece t (toks ! i)) @ the (piece t (toks ! (i + 1)))) \<and>
          lookup t (the (piece t r)) = Some r \<and> piece_score t r = Some s \<longrightarrow> \<not> f_less F b s) \<or>
     x' = int i \<and> piece t d' = Some (the (piece t (toks ! i)) @ the (piece t (toks ! (i + 1)))))"
proof -
  have "toks ! i \<in> set toks" "toks ! (i + 1) \<in> set toks" using i by auto
  then obtain a c where a: "piece t (toks ! i) = Some a" and c: "piece t (toks ! (i + 1)) = Some c"
    using v unfolding in_vocab_def by blast
  have "0 \<notin> set (a @ c)" using piece_ok [OF ok a] piece_ok [OF ok c] by simp
  from lookup_ok [OF ok this] obtain r where r: "lookup t (a @ c) = Some r"
    "r = - 1 \<and> a @ c \<notin> set (vocab t) \<or> r \<noteq> - 1 \<and> piece t r = Some (a @ c)" by blast
  have nn: "\<not> n < unat (buffer_size t)" using n by simp
  note step = pair_step_def prod.case a c bind.bind_lunit if_not_P [OF nn] pair_text_whole [OF ok a c] r(1)
  show ?thesis
  proof (cases "r = - 1")
    case True
    then have "piece t r' \<noteq> Some (a @ c)" for r' using r(2) piece_vocab [of t "a @ c"] by auto
    then show ?thesis unfolding step using True by simp
  next
    case False
    then have pr: "piece t r = Some (a @ c)" using r(2) by blast
    from score_ok [OF ok pr] obtain s where s: "piece_score t r = Some s" by blast
    show ?thesis unfolding step using False pr s r(1) by auto
  qed
qed

lemma best_pair_ok:
  assumes ok: "tok_ok t" and v: "in_vocab t toks" and n: "unat (buffer_size t) \<le> n"
  shows "\<exists>s d x. best_pair F t n toks = Some (s, d, x) \<and>
    (x = - 1 \<and> (\<forall>i < length toks - 1. no_merge F t toks i) \<or>
     0 \<le> x \<and> nat x + 1 < length toks \<and> piece t d = Some (the (piece t (toks ! nat x)) @ the (piece t (toks ! (nat x + 1)))))"
proof -
  have "\<exists>s d x. foldM (pair_step F t n toks) [0..<m] (lowest F, - 1, - 1) = Some (s, d, x) \<and>
    (x = - 1 \<and> s = lowest F \<and> (\<forall>i < m. no_merge F t toks i) \<or>
     0 \<le> x \<and> nat x + 1 < length toks \<and> piece t d = Some (the (piece t (toks ! nat x)) @ the (piece t (toks ! (nat x + 1)))))"
    if "m \<le> length toks - 1" for m
    using that
  proof (induction m)
    case (Suc m)
    have len: "m \<le> length toks - 1" "m + 1 < length toks" using Suc.prems by auto
    from Suc.IH [OF len(1)] obtain s d x where
      r: "foldM (pair_step F t n toks) [0..<m] (lowest F, - 1, - 1) = Some (s, d, x)" and
      c: "x = - 1 \<and> s = lowest F \<and> (\<forall>i < m. no_merge F t toks i) \<or> 0 \<le> x \<and> nat x + 1 < length toks \<and>
        piece t d = Some (the (piece t (toks ! nat x)) @ the (piece t (toks ! (nat x + 1))))" by blast
    have run: "foldM (pair_step F t n toks) [0..<Suc m] (lowest F, - 1, - 1) = pair_step F t n toks m (s, d, x)"
      by (cases "pair_step F t n toks m (s, d, x)") (simp_all add: foldM_append r)
    from pair_step_ok [OF ok v len(2) n, of F s d x] obtain s' d' x' where
      st: "pair_step F t n toks m (s, d, x) = Some (s', d', x')" and
      cs: "(s', d', x') = (s, d, x) \<and>
       (\<forall>r u. piece t r = Some (the (piece t (toks ! m)) @ the (piece t (toks ! (m + 1)))) \<and>
          lookup t (the (piece t r)) = Some r \<and> piece_score t r = Some u \<longrightarrow> \<not> f_less F s u) \<or>
       x' = int m \<and> piece t d' = Some (the (piece t (toks ! m)) @ the (piece t (toks ! (m + 1))))" by blast
    from cs show ?case
    proof
      assume keep: "(s', d', x') = (s, d, x) \<and>
       (\<forall>r u. piece t r = Some (the (piece t (toks ! m)) @ the (piece t (toks ! (m + 1)))) \<and>
          lookup t (the (piece t r)) = Some r \<and> piece_score t r = Some u \<longrightarrow> \<not> f_less F s u)"
      then have "s = lowest F \<Longrightarrow> no_merge F t toks m" unfolding no_merge_def by blast
      then show ?thesis unfolding run st using keep c by (auto simp: less_Suc_eq)
    next
      assume "x' = int m \<and> piece t d' = Some (the (piece t (toks ! m)) @ the (piece t (toks ! (m + 1))))"
      then show ?thesis unfolding run st using len(2) by auto
    qed
  qed simp
  from this [of "length toks - 1"] show ?thesis unfolding best_pair_def by blast
qed

lemma merge_at_spelled:
  assumes "i + 1 < length toks" "piece t d = Some (the (piece t (toks ! i)) @ the (piece t (toks ! (i + 1))))" "in_vocab t toks"
  shows "spelled t (merge_at i d toks) = spelled t toks \<and> in_vocab t (merge_at i d toks) \<and>
    length (merge_at i d toks) < length toks"
proof -
  have "toks = take i toks @ toks ! i # toks ! (i + 1) # drop (i + 2) toks"
    using assms(1) by (metis Cons_nth_drop_Suc Suc_eq_plus1 Suc_lessD add_2_eq_Suc' append_take_drop_id)
  then have "spelled t toks = spelled t (take i toks @ toks ! i # toks ! (i + 1) # drop (i + 2) toks)" by simp
  also have "\<dots> = spelled t (merge_at i d toks)" using assms(2) by (simp add: merge_at_def spelled_Cons)
  finally show ?thesis using assms
    by (auto simp: merge_at_def in_vocab_def dest: in_set_takeD in_set_dropD)
qed

text \<open>
  Merging ends, stays in the vocabulary, never makes the list longer, keeps the text it spells, and
  leaves no pair that could still be merged.
\<close>

lemma merge_loop_ok:
  assumes "tok_ok t" "in_vocab t toks" "unat (buffer_size t) \<le> n"
  shows "\<exists>out. merge_loop F t n toks = Some out \<and> in_vocab t out \<and> spelled t out = spelled t toks \<and>
    length out \<le> length toks \<and> (\<forall>i < length out - 1. no_merge F t out i)"
  using assms(2)
proof (induction "length toks" arbitrary: toks rule: less_induct)
  case less
  from best_pair_ok [OF assms(1) less.prems assms(3), of F] obtain s d x where
    b: "best_pair F t n toks = Some (s, d, x)" and
    c: "x = - 1 \<and> (\<forall>i < length toks - 1. no_merge F t toks i) \<or> 0 \<le> x \<and> nat x + 1 < length toks \<and>
      piece t d = Some (the (piece t (toks ! nat x)) @ the (piece t (toks ! (nat x + 1))))" by blast
  from c show ?case
  proof
    assume "x = - 1 \<and> (\<forall>i < length toks - 1. no_merge F t toks i)"
    then show ?thesis using less.prems by (subst merge_loop.simps) (simp add: b)
  next
    assume m: "0 \<le> x \<and> nat x + 1 < length toks \<and>
      piece t d = Some (the (piece t (toks ! nat x)) @ the (piece t (toks ! (nat x + 1))))"
    let ?toks = "merge_at (nat x) d toks"
    have k: "spelled t ?toks = spelled t toks" "in_vocab t ?toks" "length ?toks < length toks"
      using merge_at_spelled [of "nat x" toks t d] m less.prems by blast+
    have "merge_loop F t n toks = merge_loop F t n ?toks" using m by (subst merge_loop.simps) (simp add: b)
    moreover from less.hyps [OF k(3,2)] obtain out where "merge_loop F t n ?toks = Some out \<and> in_vocab t out \<and>
      spelled t out = spelled t ?toks \<and> length out \<le> length ?toks \<and> (\<forall>i < length out - 1. no_merge F t out i)" by blast
    ultimately show ?thesis using k by auto
  qed
qed

end
