(* ===== verification/LlamaTok.thy ===== *)
theory LlamaTok
  imports Bpe Heap
begin

text \<open>
  The tokenizer of the llama engine (\<open>llm.c\<close>): reading it from a file, text to tokens and tokens to
  text. Allocation goes through the interface of the heap; float values are made from the 32 bits
  of the file by \<open>bits\<close>. An inner \<open>None\<close> is the error result of the C function, an outer one a fault.
\<close>

section \<open>Reading the file\<close>

definition read_u32_le :: "u8 list \<Rightarrow> u32" where
  "read_u32_le bs = ucast (bs ! 0) OR push_bit 8 (ucast (bs ! 1)) OR push_bit 16 (ucast (bs ! 2)) OR push_bit 24 (ucast (bs ! 3))"

definition c_str :: "u8 list \<Rightarrow> u8 list" where
  "c_str bs = takeWhile (\<lambda>c. c \<noteq> 0) bs"

text \<open>
  \<open>k\<close> entries of the vocabulary: a score, a length and that many bytes. Each piece gets memory of its
  own; on an error what was allocated so far is kept, as in the code.
\<close>

primrec entries_loop :: "'h heap_ops \<Rightarrow> (u32 \<Rightarrow> 'f) \<Rightarrow> nat \<Rightarrow> u8 list \<Rightarrow> u8 list list \<times> 'f list \<Rightarrow> 'h \<Rightarrow>
    ((u8 list list \<times> 'f list) option \<times> 'h) option" where
  "entries_loop ops bits 0 p acc h = Some (Some acc, h)"
| "entries_loop ops bits (Suc k) p acc h =
     (if length p < 8 then Some (None, h)
      else
        let len = sint (read_u32_le (drop 4 p))
        in if len < 0 \<or> nat len > length p - 8 then Some (None, h)
           else heap_malloc ops (of_int (len + 1)) h \<bind> (\<lambda>(q, h).
             if q = 0 then Some (None, h)
             else entries_loop ops bits k (drop (8 + nat len) p)
               (fst acc @ [c_str (take (nat len) (drop 8 p))], snd acc @ [bits (read_u32_le p)]) h))"

text \<open>\<open>build\_tokenizer\<close>: allocations in the order of the code; 8, 4 and 16 are the sizes of their elements.\<close>

definition build_tokenizer :: "'h heap_ops \<Rightarrow> (u32 \<Rightarrow> 'f) \<Rightarrow> u8 list \<Rightarrow> int \<Rightarrow> 'h \<Rightarrow> ('f tokenizer option \<times> 'h) option" where
  "build_tokenizer ops bits data n h =
     heap_malloc ops (of_int n * 8) h \<bind> (\<lambda>(v, h).
     heap_malloc ops (of_int n * 4) h \<bind> (\<lambda>(sc, h).
     if v = 0 \<or> sc = 0 then Some (None, h)
     else if length data < 4 then Some (None, h)
     else entries_loop ops bits (nat n) (drop 4 data) ([], []) h \<bind> (\<lambda>(r, h). case r of
       None \<Rightarrow> Some (None, h)
     | Some (voc, scores) \<Rightarrow>
         heap_malloc ops (of_int n * 16) h \<bind> (\<lambda>(so, h).
         if so = 0 then Some (None, h)
         else tok_sort (entries voc) (nat n) \<bind> (\<lambda>sorted.
           Some (Some \<lparr>vocab = voc, vocab_scores = scores, sorted_vocab = sorted, vocab_size = n,
             max_token_length = read_u32_le data\<rparr>, h))))))"

section \<open>Tokens to text\<close>

text \<open>The value of a hexadecimal digit as the code computes it, for a signed char.\<close>

definition hex_digit :: "u8 \<Rightarrow> int" where
  "hex_digit c = (if sint c \<ge> 65 then sint c - 65 + 10 else sint c - 48)"

text \<open>The single-byte strings: the NUL byte is the empty one.\<close>

definition byte_piece :: "int \<Rightarrow> u8 list option" where
  "byte_piece b = (if 0 \<le> b \<and> b < 256 then Some (if b = 0 then [] else [of_int b]) else None)"

definition decode :: "('f, 'z) tokenizer_scheme \<Rightarrow> int \<Rightarrow> int \<Rightarrow> u8 list option" where
  "decode t prev token =
     piece t token \<bind> (\<lambda>s.
     let p = (if prev = 1 \<and> byte_at s 0 = 32 then tl s else s)
     in if byte_at p 0 = 60 \<and> byte_at p 1 = 48 \<and> byte_at p 2 = 120 then
          if length p < 5 then None
          else if byte_at p 5 = 62 then byte_piece (hex_digit (byte_at p 3) * 16 + hex_digit (byte_at p 4))
          else Some p
        else Some p)"

section \<open>Text to tokens\<close>

text \<open>
  The bytes of the text are collected into code points in a buffer of \<open>n\<close> bytes; a code point that is not
  in the vocabulary becomes one token per byte. \<open>cap\<close> is the size of the caller's token array.
\<close>

fun encode_loop :: "('f, 'z) tokenizer_scheme \<Rightarrow> nat \<Rightarrow> nat \<Rightarrow> u8 list \<Rightarrow> u8 list \<Rightarrow> int list \<Rightarrow> int list option" where
  "encode_loop t n cap [] str toks = Some toks"
| "encode_loop t n cap (c # cs) str toks =
     (let str = (if \<not> is_cont c then [] else str) @ [c]
      in if length str \<ge> n then None
         else if is_cont (byte_at cs 0) \<and> length str < 4 then encode_loop t n cap cs str toks
         else lookup t str \<bind> (\<lambda>tk.
           (if tk \<noteq> - 1 then put_token cap tk toks
            else foldM (\<lambda>b. put_token cap (uint b + 3)) str toks) \<bind>
           encode_loop t n cap cs []))"

definition encode :: "'h heap_ops \<Rightarrow> 'f floats \<Rightarrow> ('f, 'z) tokenizer_scheme \<Rightarrow> u8 list \<Rightarrow> bool \<Rightarrow> bool \<Rightarrow> nat \<Rightarrow> 'h \<Rightarrow>
    (int list \<times> 'h) option" where
  "encode ops F t text bos eos cap h =
     heap_malloc ops (ucast (buffer_size t)) h \<bind> (\<lambda>(buf, h).
     let n = (if buf = 0 then 0 else unat (buffer_size t))
     in (if bos then put_token cap 1 [] else Some []) \<bind> (\<lambda>toks.
        (if text \<noteq> [] then lookup t [32] \<bind> (\<lambda>tk. if tk \<noteq> - 1 then put_token cap tk toks else Some toks)
         else Some toks) \<bind> (\<lambda>toks.
        encode_loop t n cap text [] toks \<bind> (\<lambda>toks.
        merge_loop F t n toks \<bind> (\<lambda>toks.
        (if eos then put_token cap 2 toks else Some toks) \<bind> (\<lambda>toks.
        heap_free ops buf h \<bind> (\<lambda>h. Some (toks, h))))))))"

section \<open>A built tokenizer is well formed\<close>

lemma c_str_text: "0 \<notin> set (c_str bs)" "length (c_str bs) \<le> length bs"
  by (auto simp: c_str_def dest: set_takeWhileD) (simp add: length_takeWhile_le)

lemma entries_loop_ok:
  assumes "entries_loop ops bits k p (voc, sc) h = Some (Some (voc', sc'), h')" "length sc = length voc" "\<forall>s\<in>set voc. 0 \<notin> set s"
  shows "length voc' = length voc + k \<and> length sc' = length voc' \<and> (\<forall>s\<in>set voc'. 0 \<notin> set s)"
  using assms
proof (induction k arbitrary: p voc sc h)
  case (Suc k)
  let ?len = "sint (read_u32_le (drop 4 p))"
  let ?s = "c_str (take (nat ?len) (drop 8 p))"
  from Suc.prems(1) obtain q h1 where
    "entries_loop ops bits k (drop (8 + nat ?len) p) (voc @ [?s], sc @ [bits (read_u32_le p)]) h1 = Some (Some (voc', sc'), h')"
    by (auto simp: Let_def bind_Some_iff split: if_splits prod.splits)
  from Suc.IH [OF this] show ?case using Suc.prems(2,3) c_str_text(1) by auto
qed auto

lemma entries_length [simp]: "length (entries voc) = length voc"
  by (simp add: entries_def)

lemma build_tokenizer_length:
  assumes "build_tokenizer ops bits data n h = Some (Some t, h')"
  shows "length (vocab t) = nat n"
proof -
  from assms obtain voc sc sorted h1 h2 where
    e: "entries_loop ops bits (nat n) (drop 4 data) ([], []) h1 = Some (Some (voc, sc), h2)" and
    t: "t = \<lparr>vocab = voc, vocab_scores = sc, sorted_vocab = sorted, vocab_size = n, max_token_length = read_u32_le data\<rparr>"
    by (auto simp: build_tokenizer_def bind_Some_iff split: if_splits prod.splits option.splits)
  then show ?thesis using entries_loop_ok [OF e] by simp
qed

text \<open>What remains to be known of the file: its longest piece is as long as it says.\<close>

lemma build_tokenizer_ok:
  assumes "build_tokenizer ops bits data n h = Some (Some t, h')" "0 \<le> n" "n \<le> 2 ^ 30"
    and "\<forall>s\<in>set (vocab t). length s \<le> unat (max_token_length t)" "unat (max_token_length t) < 2 ^ 31 - 1"
  shows "tok_ok t"
proof -
  from assms(1) obtain voc sc sorted h1 h2 where
    e: "entries_loop ops bits (nat n) (drop 4 data) ([], []) h1 = Some (Some (voc, sc), h2)" and
    s: "tok_sort (entries voc) (nat n) = Some sorted" and
    t: "t = \<lparr>vocab = voc, vocab_scores = sc, sorted_vocab = sorted, vocab_size = n, max_token_length = read_u32_le data\<rparr>"
    by (auto simp: build_tokenizer_def bind_Some_iff split: if_splits prod.splits option.splits)
  have "length voc = nat n" "length sc = length voc" "\<forall>s\<in>set voc. 0 \<notin> set s"
    using entries_loop_ok [OF e] by auto
  then show ?thesis using s assms(2-5) unfolding t tok_ok_def by auto
qed

section \<open>Encoding\<close>

text \<open>The code points the text is cut into, and what the tokens of one of them spell.\<close>

fun groups :: "u8 list \<Rightarrow> u8 list \<Rightarrow> u8 list list" where
  "groups str [] = []"
| "groups str (c # cs) =
     (let str = str @ [c] in if is_cont (byte_at cs 0) \<and> length str < 4 then groups str cs else str # groups [] cs)"

definition spell_group :: "('f, 'z) tokenizer_scheme \<Rightarrow> u8 list \<Rightarrow> u8 list" where
  "spell_group t g = (if g \<in> set (vocab t) then g else concat (map (\<lambda>b. the (piece t (uint b + 3))) g))"

lemma not_cont_0: "\<not> is_cont 0"
  by (simp add: is_cont_def)

lemma groups_text: "str = [] \<or> is_cont (byte_at cs 0) \<Longrightarrow> concat (groups str cs) = str @ cs"
proof (induction str cs rule: groups.induct)
  case (1 str)
  then show ?case using not_cont_0 by (auto simp: byte_at_def)
qed (auto simp: Let_def)

lemma put_bytes_ok:
  fixes str :: "u8 list"
  assumes "tok_ok t" "259 \<le> length (vocab t)" "in_vocab t toks" "length toks + length str \<le> cap"
  shows "\<exists>out. foldM (\<lambda>b. put_token cap (uint b + 3)) str toks = Some out \<and> in_vocab t out \<and>
    spelled t out = spelled t toks @ concat (map (\<lambda>b. the (piece t (uint b + 3))) str) \<and> length out = length toks + length str"
  using assms(3,4)
proof (induction str arbitrary: toks)
  case Nil
  then show ?case by simp
next
  case (Cons b str)
  have "uint b < 2 ^ LENGTH(8)" by (rule uint_lt2p)
  then have "piece t (uint b + 3) \<noteq> None" using assms(2) by (simp add: piece_def)
  then have v: "in_vocab t (toks @ [uint b + 3])" using Cons.prems(1) by (simp add: in_vocab_def)
  have p: "put_token cap (uint b + 3) toks = Some (toks @ [uint b + 3])" using Cons.prems(2) by (simp add: put_token_def)
  from Cons.IH [OF v] Cons.prems(2) obtain out where
    "foldM (\<lambda>b. put_token cap (uint b + 3)) str (toks @ [uint b + 3]) = Some out" "in_vocab t out"
    "spelled t out = spelled t (toks @ [uint b + 3]) @ concat (map (\<lambda>b. the (piece t (uint b + 3))) str)"
    "length out = length (toks @ [uint b + 3]) + length str" by auto
  then show ?case using p by (simp add: spelled_Cons) (simp add: spelled_def)
qed

lemma put_group_ok:
  assumes ok: "tok_ok t" "259 \<le> length (vocab t)" and v: "in_vocab t toks" and l: "length toks + length g \<le> cap"
    and g: "0 \<notin> set g" "g \<noteq> []"
  shows "\<exists>out. (lookup t g \<bind> (\<lambda>tk. if tk \<noteq> - 1 then put_token cap tk toks
      else foldM (\<lambda>b. put_token cap (uint b + 3)) g toks)) = Some out \<and> in_vocab t out \<and>
    spelled t out = spelled t toks @ spell_group t g \<and> length out \<le> length toks + length g"
proof -
  from lookup_ok [OF ok(1) g(1)] obtain r where r: "lookup t g = Some r"
    "r = - 1 \<and> g \<notin> set (vocab t) \<or> r \<noteq> - 1 \<and> piece t r = Some g" by blast
  from r(2) show ?thesis
  proof
    assume a: "r = - 1 \<and> g \<notin> set (vocab t)"
    from put_bytes_ok [OF ok v l] show ?thesis using r(1) a by (auto simp: spell_group_def)
  next
    assume a: "r \<noteq> - 1 \<and> piece t r = Some g"
    then have "g \<in> set (vocab t)" using piece_vocab by blast
    moreover have "1 \<le> length g" using g(2) by (simp add: Suc_le_eq)
    moreover from this have "length toks < cap" using l by simp
    ultimately show ?thesis using r(1) a v
      by (auto simp: put_token_def in_vocab_def spell_group_def spelled_def)
  qed
qed

lemma encode_loop_ok:
  assumes ok: "tok_ok t" "259 \<le> length (vocab t)" and n: "5 \<le> n"
  shows "in_vocab t toks \<Longrightarrow> 0 \<notin> set (str @ cs) \<Longrightarrow> length str < 4 \<Longrightarrow> str = [] \<or> is_cont (byte_at cs 0) \<Longrightarrow>
    length toks + length str + length cs \<le> cap \<Longrightarrow>
    \<exists>out. encode_loop t n cap cs str toks = Some out \<and> in_vocab t out \<and>
      spelled t out = spelled t toks @ concat (map (spell_group t) (groups str cs)) \<and>
      length out \<le> length toks + length str + length cs"
proof (induction cs arbitrary: str toks)
  case Nil
  then show ?case using not_cont_0 by (auto simp: byte_at_def)
next
  case (Cons c cs)
  let ?g = "str @ [c]"
  have st: "(if \<not> is_cont c then [] else str) @ [c] = ?g" using Cons.prems(4) by (auto simp: byte_at_def)
  have nn: "\<not> length ?g \<ge> n" using Cons.prems(3) n by simp
  note step = encode_loop.simps(2) st Let_def if_not_P [OF nn] groups.simps(2)
  show ?case
  proof (cases "is_cont (byte_at cs 0) \<and> length ?g < 4")
    case True
    have "length toks + length ?g + length cs \<le> cap" "0 \<notin> set (?g @ cs)" using Cons.prems(2,5) by auto
    from Cons.IH [OF Cons.prems(1) this(2) _ _ this(1)] True show ?thesis unfolding step if_P [OF True] by auto
  next
    case False
    have g: "0 \<notin> set ?g" "?g \<noteq> []" "length toks + length ?g \<le> cap" using Cons.prems(2,5) by auto
    from put_group_ok [OF ok Cons.prems(1) g(3,1,2)] obtain mid where
      m: "(lookup t ?g \<bind> (\<lambda>tk. if tk \<noteq> - 1 then put_token cap tk toks
        else foldM (\<lambda>b. put_token cap (uint b + 3)) ?g toks)) = Some mid" "in_vocab t mid"
      "spelled t mid = spelled t toks @ spell_group t ?g" "length mid \<le> length toks + length ?g" by blast
    have "length mid + length [] + length cs \<le> cap" "0 \<notin> set ([] @ cs)" using m(4) Cons.prems(2,5) by auto
    from Cons.IH [OF m(2) this(2) _ _ this(1)] obtain out where
      o: "encode_loop t n cap cs [] mid = Some out" "in_vocab t out"
      "spelled t out = spelled t mid @ concat (map (spell_group t) (groups [] cs))" "length out \<le> length mid + length cs"
      by auto
    from m(1) obtain tk where tk: "lookup t ?g = Some tk" "(if tk \<noteq> - 1 then put_token cap tk toks
        else foldM (\<lambda>b. put_token cap (uint b + 3)) ?g toks) = Some mid" by (auto simp: bind_Some_iff)
    have "encode_loop t n cap (c # cs) str toks = encode_loop t n cap cs [] mid"
      unfolding step if_not_P [OF False] tk(1) bind.bind_lunit tk(2) ..
    then show ?thesis unfolding groups.simps(2) Let_def if_not_P [OF False] using o m(3,4) by auto
  qed
qed

text \<open>The text that \<open>encode\<close> starts from, before any merge.\<close>

definition start_text :: "('f, 'z) tokenizer_scheme \<Rightarrow> bool \<Rightarrow> u8 list \<Rightarrow> u8 list" where
  "start_text t bos text = (if bos then the (piece t 1) else []) @ (if text \<noteq> [] \<and> [32] \<in> set (vocab t) then [32] else []) @
     concat (map (spell_group t) (groups [] text))"

lemma start_text_plain:
  assumes "\<forall>g\<in>set (groups [] text). g \<in> set (vocab t)" "[32] \<in> set (vocab t)" "text \<noteq> []"
  shows "start_text t False text = 32 # text"
proof -
  have "map (spell_group t) (groups [] text) = groups [] text"
    by (rule map_idI) (use assms(1) in \<open>simp add: spell_group_def\<close>)
  then show ?thesis using assms(2,3) groups_text [of "[]" "text"] by (simp add: start_text_def)
qed

context c_heap begin

lemma encode_lemma:
  assumes ok: "tok_ok t" "259 \<le> length (vocab t)" "1 \<le> unat (max_token_length t)"
    and tx: "0 \<notin> set text" "length text + 3 \<le> cap" and h: "temp R ps h"
    and mem: "\<And>h'. heap_malloc ops (ucast (buffer_size t)) h \<noteq> Some (0, h')"
  shows "\<exists>toks out h'. encode ops F t text bos eos cap h = Some (out, h') \<and> temp R ps h' \<and>
    out = toks @ (if eos then [2] else []) \<and> in_vocab t out \<and> spelled t toks = start_text t bos text \<and>
    length toks \<le> length text + 2 \<and> (\<forall>i < length toks - 1. no_merge F t toks i)"
proof -
  have bs: "unat (buffer_size t) = unat (max_token_length t) * 2 + 3" by (rule buffer_size_nat [OF ok(1)])
  have "unat (ucast (buffer_size t) :: u64) = unat (buffer_size t)" by (simp add: unat_ucast_up)
  moreover have "unat (buffer_size t) < 2 ^ 32" using unat_less_2p [of "buffer_size t"] by simp
  ultimately have "unat (ucast (buffer_size t) :: u64) \<le> 2 ^ 64 - 16" by simp
  from malloc_temp [OF h this] obtain buf h1 where
    m: "heap_malloc ops (ucast (buffer_size t)) h = Some (buf, h1)" "temp R (buf # ps) h1" by blast
  then have buf: "buf \<noteq> 0" using mem by auto
  let ?n = "unat (buffer_size t)"
  have p: "piece t 1 \<noteq> None" "piece t 2 \<noteq> None" using ok(2) by (simp_all add: piece_def)
  define t0 where "t0 = (if bos then [1 :: int] else [])"
  have b: "(if bos then put_token cap 1 [] else Some []) = Some t0" "in_vocab t t0" "length t0 \<le> 1"
    "spelled t t0 = (if bos then the (piece t 1) else [])"
    using tx(2) p by (simp_all add: t0_def put_token_def in_vocab_def spelled_def)
  have "\<exists>t1. (if text \<noteq> [] then lookup t [32] \<bind> (\<lambda>tk. if tk \<noteq> - 1 then put_token cap tk t0 else Some t0) else Some t0) = Some t1 \<and>
    in_vocab t t1 \<and> length t1 \<le> 2 \<and> spelled t t1 = spelled t t0 @ (if text \<noteq> [] \<and> [32] \<in> set (vocab t) then [32] else [])"
  proof -
    have "0 \<notin> set [32 :: u8]" by simp
    from lookup_ok [OF ok(1) this] obtain r where r: "lookup t [32] = Some r"
      "r = - 1 \<and> [32] \<notin> set (vocab t) \<or> r \<noteq> - 1 \<and> piece t r = Some [32]" by blast
    have "[32] \<in> set (vocab t)" if "piece t r = Some [32]" using that piece_vocab by blast
    then show ?thesis using r b tx(2) by (auto simp: put_token_def in_vocab_def spelled_Cons spelled_def)
  qed
  then obtain t1 where t1: "(if text \<noteq> [] then lookup t [32] \<bind> (\<lambda>tk. if tk \<noteq> - 1 then put_token cap tk t0 else Some t0) else Some t0) = Some t1"
    "in_vocab t t1" "length t1 \<le> 2" "spelled t t1 = spelled t t0 @ (if text \<noteq> [] \<and> [32] \<in> set (vocab t) then [32] else [])" by blast
  have n5: "5 \<le> ?n" using bs ok(3) by simp
  have "\<exists>t2. encode_loop t ?n cap text [] t1 = Some t2 \<and> in_vocab t t2 \<and>
      spelled t t2 = spelled t t1 @ concat (map (spell_group t) (groups [] text)) \<and>
      length t2 \<le> length t1 + length [] + length text"
    using encode_loop_ok [OF ok(1,2) n5 t1(2), of "[]" "text" cap] tx t1(3) by simp
  then obtain t2 where t2: "encode_loop t ?n cap text [] t1 = Some t2" "in_vocab t t2"
    "spelled t t2 = spelled t t1 @ concat (map (spell_group t) (groups [] text))" "length t2 \<le> length text + 2"
    using t1(3) by auto
  from merge_loop_ok [OF ok(1) t2(2) order_refl, of F] obtain t3 where t3: "merge_loop F t ?n t2 = Some t3" "in_vocab t t3"
    "spelled t t3 = spelled t t2" "length t3 \<le> length t2" "\<forall>i < length t3 - 1. no_merge F t t3 i" by blast
  have e: "(if eos then put_token cap 2 t3 else Some t3) = Some (t3 @ (if eos then [2] else []))"
    using t3(4) t2(4) tx(2) by (simp add: put_token_def)
  from free_temp [OF m(2), of buf] obtain h2 where f: "heap_free ops buf h1 = Some h2" "temp R (removeAll buf (buf # ps)) h2" by auto
  have "buf \<notin> set ps" using m(2) buf by (auto simp: temp_def)
  then have "temp R ps h2" using f(2) by simp
  moreover have "encode ops F t text bos eos cap h = Some (t3 @ (if eos then [2] else []), h2)"
    unfolding encode_def m(1) bind.bind_lunit prod.case Let_def b(1) t1(1) if_not_P [OF buf] t2(1) t3(1) e f(1) ..
  moreover have "spelled t t3 = start_text t bos text"
    unfolding t3(3) t2(3) t1(4) b(4) start_text_def by simp
  moreover have "in_vocab t (t3 @ (if eos then [2] else []))" using t3(2) p by (cases eos) (simp_all add: in_vocab_def)
  ultimately show ?thesis using t3(4,5) t2(4) by - (rule exI [of _ t3], auto)
qed

end

section \<open>Decoding\<close>

text \<open>A raw byte of the vocabulary, \<open><0xHH>\<close>, is shown as that byte.\<close>

definition byte_name :: "u8 \<Rightarrow> u8 list" where
  "byte_name b = [60, 48, 120, digit_char True (unat b div 16), digit_char True (unat b mod 16), 62]"

lemma hex_digit_char:
  assumes "d < 16"
  shows "hex_digit (digit_char True d) = int d"
proof -
  have "d = 0 \<or> d = 1 \<or> d = 2 \<or> d = 3 \<or> d = 4 \<or> d = 5 \<or> d = 6 \<or> d = 7 \<or> d = 8 \<or> d = 9 \<or>
    d = 10 \<or> d = 11 \<or> d = 12 \<or> d = 13 \<or> d = 14 \<or> d = 15" using assms by arith
  then show ?thesis by (elim disjE) (simp_all add: digit_char_def hex_digit_def)
qed

lemma decode_byte:
  assumes "piece t tk = Some (byte_name b)"
  shows "decode t prev tk = Some (if b = 0 then [] else [b])"
proof -
  have u: "unat b < 256" using unat_less_2p [of b] by simp
  then have "hex_digit (digit_char True (unat b div 16)) * 16 + hex_digit (digit_char True (unat b mod 16)) = int (unat b div 16 * 16 + unat b mod 16)"
    by (simp only: hex_digit_char)
  also have "\<dots> = uint b" by simp
  finally have v: "hex_digit (digit_char True (unat b div 16)) * 16 + hex_digit (digit_char True (unat b mod 16)) = uint b" .
  have "uint b < 2 ^ LENGTH(8)" by (rule uint_lt2p)
  then show ?thesis using v uint_0_iff [of b] by (simp add: decode_def assms byte_name_def byte_at_def byte_piece_def Let_def)
qed

section \<open>Properties\<close>

text \<open>259 entries for the special tokens and the bytes, a space, two letters and their pair.\<close>

definition sample_vocab :: "u8 list list" where
  "sample_vocab = replicate 259 [60] @ [[32], [97], [98], [97, 98]]"

definition sample_tokenizer :: "int tokenizer" where
  "sample_tokenizer = \<lparr>vocab = sample_vocab, vocab_scores = replicate 263 0,
     sorted_vocab = heap_sort compare_tokens 263 (entries sample_vocab), vocab_size = 263, max_token_length = 2\<rparr>"

lemma sample_tokenizer_ok: "tok_ok sample_tokenizer"
  by (auto simp: tok_ok_def sample_tokenizer_def sample_vocab_def tok_sort_def)

text \<open>
  C23: encoding loses nothing: for every text the tokens all lie in the vocabulary and fit the caller's array of
  three more entries than the text has bytes, their pieces one after the other are the text (with the begin
  token, the leading space and, for code points outside the vocabulary, the tokens of their bytes), no two
  neighbours could still be merged, and the buffer is freed again; so the loop of merges ends.
\<close>

theorem encode_spells_text:
  assumes "tok_ok t" "259 \<le> length (vocab t)" "1 \<le> unat (max_token_length t)"
    and "0 \<notin> set text" "length text + 3 \<le> cap" "heap_ok h"
    and "\<And>h'. heap_malloc kernel_heap (ucast (buffer_size t)) h \<noteq> Some (0, h')"
  shows "\<exists>toks out h'. encode kernel_heap F t text bos eos cap h = Some (out, h') \<and>
    heap_ok h' \<and> heap_regions h' = heap_regions h \<and>
    out = toks @ (if eos then [2] else []) \<and> in_vocab t out \<and> spelled t toks = start_text t bos text \<and>
    length toks \<le> length text + 2 \<and> (\<forall>i < length toks - 1. no_merge F t toks i)"
  using cheap.encode_lemma [OF assms(1-5) cheap.temp_start [OF assms(6)] assms(7), of F bos eos] cheap.temp_end
  by fastforce

theorem encode_spells_text_witness:
  "\<exists>out h'. encode kernel_heap milli_floats sample_tokenizer [97, 98] True False 5 sample_heap = Some (out, h') \<and>
     spelled sample_tokenizer out = [60, 32, 97, 98]"
proof -
  have "unat (round_size 7) = 16" by (simp add: round_size_eq)
  then have m: "heap_malloc kernel_heap (ucast (buffer_size sample_tokenizer)) sample_heap \<noteq> Some (0, h')" for h'
    using malloc_refines_lemma [OF sample_inv, of 7]
    by (auto simp: kernel_heap_def buffer_size_def sample_tokenizer_def)
  have h: "heap_ok sample_heap" using sample_inv by (auto simp: heap_ok_def)
  have v: "[32] \<in> set (vocab sample_tokenizer)" "[97] \<in> set (vocab sample_tokenizer)" "[98] \<in> set (vocab sample_tokenizer)"
    "the (piece sample_tokenizer 1) = [60]" "259 \<le> length (vocab sample_tokenizer)" "unat (max_token_length sample_tokenizer) = 2"
    by (simp_all add: sample_tokenizer_def sample_vocab_def piece_def nth_append)
  then have "start_text sample_tokenizer True [97, 98] = [60, 32, 97, 98]"
    by (simp add: start_text_def spell_group_def byte_at_def is_cont_def)
  then show ?thesis
    using encode_spells_text [OF sample_tokenizer_ok v(5), of "[97, 98]" 5 sample_heap milli_floats True False] m h v(6) by auto
qed

end
