(* ===== verification/Quantized.thy ===== *)
theory Quantized
  imports Tensor LlamaTok
begin

text \<open>
  Eight-bit quantised vectors and matrices (\<open>qwen.c\<close>). The model file is a list of bytes; a tensor is two
  offsets into it, of its values and of the scales, one float for every \<open>gs\<close> values. A quantised value is
  a byte read as a signed number. The conversion of a float to \<open>int8\_t\<close> is the hardware's conversion to int
  and the low eight bits of it, as the compiler emits it. \<open>None\<close> is an access outside an array or the file.
\<close>

section \<open>Reading the file\<close>

record quantized_tensor =
  qt_q :: nat
  qt_s :: nat

definition float_at :: "'f fmath \<Rightarrow> u8 list \<Rightarrow> nat \<Rightarrow> 'f option" where
  "float_at M data off = map_option (\<lambda>bs. f_bits M (read_u32_le bs)) (slice_at data off 4)"

definition floats_at :: "'f fmath \<Rightarrow> u8 list \<Rightarrow> nat \<Rightarrow> nat \<Rightarrow> 'f list option" where
  "floats_at M data off n = mapM (\<lambda>i. float_at M data (off + 4 * i)) [0..<n]"

text \<open>Value and scale of element \<open>i\<close>, and the row that starts at an element.\<close>

definition dequantize :: "'f fmath \<Rightarrow> nat \<Rightarrow> u8 list \<Rightarrow> quantized_tensor \<Rightarrow> nat \<Rightarrow> 'f option" where
  "dequantize M gs data t i =
     (if qt_q t + i < length data then
        map_option (\<lambda>s. fmul M (fint M (sint (data ! (qt_q t + i)))) s) (float_at M data (qt_s t + 4 * (i div gs)))
      else None)"

definition dequantize_row :: "'f fmath \<Rightarrow> nat \<Rightarrow> u8 list \<Rightarrow> quantized_tensor \<Rightarrow> nat \<Rightarrow> nat \<Rightarrow> 'f list option" where
  "dequantize_row M gs data t off n = mapM (\<lambda>i. dequantize M gs data t (off + i)) [0..<n]"

section \<open>Quantising\<close>

definition quantize_value :: "'f fmath \<Rightarrow> 'f \<Rightarrow> 'f \<Rightarrow> u8" where
  "quantize_value M scale x =
     (let v = fdiv M x scale; half = fdiv M (fint M 1) (fint M 2)
      in of_int (f_to_int M (if f_less (fl M) v (fint M 0) then fsub M v half else fadd M v half)))"

definition quantize_group :: "'f fmath \<Rightarrow> 'f list \<Rightarrow> u8 list \<times> 'f" where
  "quantize_group M x =
     (let wmax = fold (\<lambda>v m. let a = f_abs M v in if f_less (fl M) m a then a else m) x (fint M 0);
          scale = fdiv M wmax (fint M 127)
      in (if f_eq (fl M) scale (fint M 0) then replicate (length x) 0 else map (quantize_value M scale) x, scale))"

definition quantize :: "'f fmath \<Rightarrow> nat \<Rightarrow> 'f list \<Rightarrow> nat \<Rightarrow> (u8 list \<times> 'f list) option" where
  "quantize M gs x n =
     map_option (\<lambda>r. (concat (map fst r), map snd r))
       (mapM (\<lambda>g. map_option (quantize_group M) (slice_at x (g * gs) gs)) [0..<n div gs])"

section \<open>The product with a matrix\<close>

text \<open>Four sums of products in 32-bit integers, four elements at a time; they wrap for very long groups.\<close>

fun idot4 :: "u32 \<times> u32 \<times> u32 \<times> u32 \<Rightarrow> u8 list \<Rightarrow> u8 list \<Rightarrow> u32" where
  "idot4 (i0, i1, i2, i3) (x0 # x1 # x2 # x3 # xs) (w0 # w1 # w2 # w3 # ws) =
     idot4 (i0 + scast x0 * scast w0, i1 + scast x1 * scast w1, i2 + scast x2 * scast w2, i3 + scast x3 * scast w3) xs ws"
| "idot4 (i0, i1, i2, i3) xs ws = (i0 + i1) + (i2 + i3)"

definition idot :: "u8 list \<Rightarrow> u8 list \<Rightarrow> int" where
  "idot xs ws = sint (idot4 (0, 0, 0, 0) xs ws)"

text \<open>One group of a row: the loop reads whole fours, past the group when \<open>gs\<close> is not a multiple of four.\<close>

definition group_step :: "'f fmath \<Rightarrow> nat \<Rightarrow> u8 list \<Rightarrow> 'f list \<Rightarrow> u8 list \<Rightarrow> quantized_tensor \<Rightarrow> nat \<Rightarrow> nat \<Rightarrow> 'f \<Rightarrow> 'f option" where
  "group_step M gs xq xs data w i g val =
     (let m = 4 * ((gs + 3) div 4)
      in slice_at xq (g * gs) m \<bind> (\<lambda>xr.
         slice_at data (qt_q w + i + g * gs) m \<bind> (\<lambda>wr.
         float_at M data (qt_s w + 4 * ((i + g * gs) div gs)) \<bind> (\<lambda>s.
         if g < length xs then Some (fadd M val (fmul M (fmul M (fint M (idot xr wr)) s) (xs ! g))) else None))))"

definition qmatmul :: "'f fmath \<Rightarrow> nat \<Rightarrow> u8 list \<Rightarrow> 'f list \<Rightarrow> u8 list \<Rightarrow> quantized_tensor \<Rightarrow> nat \<Rightarrow> nat \<Rightarrow> 'f list option" where
  "qmatmul M gs xq xs data w n d =
     mapM (\<lambda>i. foldM (group_step M gs xq xs data w (i * n)) [0..<n div gs] (fint M 0)) [0..<d]"

section \<open>Every access is in bounds\<close>

lemma float_at_total: "off + 4 \<le> length data \<Longrightarrow> \<exists>v. float_at M data off = Some v"
  by (simp add: float_at_def slice_at_def)

lemma floats_at_total:
  assumes "off + 4 * n \<le> length data"
  shows "\<exists>v. floats_at M data off n = Some v \<and> length v = n"
proof -
  have "\<exists>v. mapM (\<lambda>i. float_at M data (off + 4 * i)) [0..<n] = Some v"
    by (rule mapM_total, rule float_at_total) (use assms in auto)
  then obtain v where v: "mapM (\<lambda>i. float_at M data (off + 4 * i)) [0..<n] = Some v" by blast
  show ?thesis using v mapM_length [OF v] by (simp add: floats_at_def)
qed

text \<open>A tensor of \<open>m\<close> values lies inside a file of \<open>N\<close> bytes with its scales.\<close>

definition tensor_in :: "nat \<Rightarrow> nat \<Rightarrow> quantized_tensor \<Rightarrow> nat \<Rightarrow> bool" where
  "tensor_in gs m t N \<longleftrightarrow> qt_q t + m \<le> N \<and> qt_s t + 4 * (m div gs) \<le> N"

lemma group_in: "0 < gs \<Longrightarrow> i + gs \<le> (m :: nat) \<Longrightarrow> i div gs + 1 \<le> m div gs"
  using div_le_mono [of "i + gs" m gs] div_add_self2 [of gs i] by simp

lemma dequantize_row_total:
  assumes t: "tensor_in gs m t (length data)" and gs: "0 < gs" "gs dvd m" and n: "off + n \<le> m"
  shows "\<exists>v. dequantize_row M gs data t off n = Some v \<and> length v = n"
proof -
  have "\<exists>v. dequantize M gs data t (off + i) = Some v" if i: "i \<in> set [0..<n]" for i
  proof -
    obtain k where k: "m = gs * k" using gs(2) by blast
    have "off + i < k * gs" using i n k by (simp add: mult.commute)
    then have "(off + i) div gs < m div gs" using k gs(1) by (simp add: less_mult_imp_div_less)
    then have "qt_s t + 4 * ((off + i) div gs) + 4 \<le> length data" using t by (simp add: tensor_in_def)
    from float_at_total [OF this] obtain s where s: "float_at M data (qt_s t + 4 * ((off + i) div gs)) = Some s" ..
    have "qt_q t + (off + i) < length data" using i n t by (simp add: tensor_in_def)
    then show ?thesis unfolding dequantize_def s by simp
  qed
  then have "\<exists>v. mapM (\<lambda>i. dequantize M gs data t (off + i)) [0..<n] = Some v" by (rule mapM_total)
  then obtain v where v: "mapM (\<lambda>i. dequantize M gs data t (off + i)) [0..<n] = Some v" by blast
  show ?thesis using v mapM_length [OF v] by (simp add: dequantize_row_def)
qed

lemma group_fits: "g < n div gs \<Longrightarrow> g * gs + gs \<le> (n :: nat)"
proof -
  assume "g < n div gs"
  then have "(g + 1) * gs \<le> n div gs * gs" by (intro mult_le_mono1) simp
  also have "\<dots> \<le> n" by simp
  finally show ?thesis by simp
qed

lemma quantize_total:
  assumes "n \<le> length x"
  shows "\<exists>q s. quantize M gs x n = Some (q, s) \<and> length q = n div gs * gs \<and> length s = n div gs"
proof -
  let ?f = "\<lambda>g. map_option (quantize_group M) (slice_at x (g * gs) gs)"
  have f: "\<exists>v. ?f g = Some v \<and> length (fst v) = gs" if "g \<in> set [0..<n div gs]" for g
  proof -
    have "g * gs + gs \<le> n" using group_fits that by simp
    then have "g * gs + gs \<le> length x" using assms by simp
    from slice_at_total [OF this] obtain y where "slice_at x (g * gs) gs = Some y" "length y = gs" by blast
    then show ?thesis by (simp add: quantize_group_def Let_def)
  qed
  have "\<exists>r. mapM ?f [0..<n div gs] = Some r" by (rule mapM_total) (use f in blast)
  then obtain r where r: "mapM ?f [0..<n div gs] = Some r" by blast
  have lr: "length r = n div gs" using mapM_length [OF r] by simp
  have "length (fst v) = gs" if v: "v \<in> set r" for v
  proof -
    obtain i where "i < n div gs" "v = r ! i" using v lr by (auto simp: in_set_conv_nth)
    then show ?thesis using mapM_nth [OF r, of i] f [of i] by auto
  qed
  then have "length (concat (map fst r)) = length r * gs" by (induction r) auto
  then show ?thesis using r lr by (simp add: quantize_def)
qed

lemma group_step_total:
  assumes gs: "0 < gs" "4 dvd gs" and g: "g < n div gs" "n \<le> length xq" "n div gs \<le> length xs"
    and w: "tensor_in gs m w (length data)" "i + n \<le> m"
  shows "\<exists>v. group_step M gs xq xs data w i g val = Some v"
proof -
  have m: "4 * ((gs + 3) div 4) = gs" using gs(2) by (auto elim!: dvdE)
  have fit: "g * gs + gs \<le> n" by (rule group_fits [OF g(1)])
  have in1: "g * gs + gs \<le> length xq" using fit g(2) by linarith
  have "qt_q w + m \<le> length data" using w(1) by (simp add: tensor_in_def)
  then have in2: "qt_q w + i + g * gs + gs \<le> length data" using fit w(2) by linarith
  from slice_at_total [OF in1] slice_at_total [OF in2] obtain xr wr where
    s: "slice_at xq (g * gs) gs = Some xr" "slice_at data (qt_q w + i + g * gs) gs = Some wr" by blast
  have "(i + g * gs) div gs + 1 \<le> m div gs" by (rule group_in [OF gs(1)]) (use fit w(2) in simp)
  then have "qt_s w + 4 * ((i + g * gs) div gs) + 4 \<le> length data" using w(1) by (simp add: tensor_in_def)
  from float_at_total [OF this] obtain v where v: "float_at M data (qt_s w + 4 * ((i + g * gs) div gs)) = Some v" ..
  have "g < length xs" using g by simp
  then show ?thesis unfolding group_step_def m Let_def s v by simp
qed

lemma qmatmul_total:
  assumes gs: "0 < gs" "4 dvd gs" and x: "n \<le> length xq" "n div gs \<le> length xs" and w: "tensor_in gs (d * n) w (length data)"
  shows "\<exists>y. qmatmul M gs xq xs data w n d = Some y \<and> length y = d"
proof -
  let ?f = "\<lambda>i. foldM (group_step M gs xq xs data w (i * n)) [0..<n div gs] (fint M 0)"
  have "\<exists>v. ?f i = Some v" if i: "i \<in> set [0..<d]" for i
  proof -
    have "(i + 1) * n \<le> d * n" using i by (intro mult_le_mono1) simp
    then have inr: "i * n + n \<le> d * n" by simp
    have "\<exists>v. ?f i = Some v \<and> True"
    proof (rule foldM_invariant [where P = "\<lambda>_ _. True"])
      fix ys g zs and t :: 'a assume "[0..<n div gs] = ys @ g # zs"
      then have "g \<in> set [0..<n div gs]" by (metis in_set_conv_decomp)
      then have "g < n div gs" by simp
      from group_step_total [OF gs this x w inr] show "\<exists>t'. group_step M gs xq xs data w (i * n) g t = Some t' \<and> True" by simp
    qed simp
    then show ?thesis by simp
  qed
  then have "\<exists>y. mapM ?f [0..<d] = Some y" by (rule mapM_total)
  then obtain y where y: "mapM ?f [0..<d] = Some y" by blast
  show ?thesis using y mapM_length [OF y] by (simp add: qmatmul_def)
qed

section \<open>What is computed\<close>

lemma idot4_sum:
  "length xs = length ws \<Longrightarrow> 4 dvd length xs \<Longrightarrow>
   idot4 (i0, i1, i2, i3) xs ws = i0 + i1 + i2 + i3 + of_int (\<Sum>k<length xs. sint (xs ! k) * sint (ws ! k))"
proof (induction "(i0, i1, i2, i3)" xs ws arbitrary: i0 i1 i2 i3 rule: idot4.induct)
  case (1 i0 i1 i2 i3 x0 x1 x2 x3 xs w0 w1 w2 w3 ws)
  have l: "length xs = length ws" using 1(2) by simp
  have "4 dvd length xs" using 1(3) by (simp only: list.size) presburger
  note l = l this
  let ?f = "\<lambda>k. sint (xs ! k) * sint (ws ! k)"
  have sum: "(\<Sum>k<length (x0 # x1 # x2 # x3 # xs). sint ((x0 # x1 # x2 # x3 # xs) ! k) * sint ((w0 # w1 # w2 # w3 # ws) ! k)) =
      sint x0 * sint w0 + (sint x1 * sint w1 + (sint x2 * sint w2 + (sint x3 * sint w3 + (\<Sum>k<length xs. ?f k))))"
    by (simp add: sum.lessThan_Suc_shift del: sum.lessThan_Suc)
  show ?case unfolding idot4.simps 1(1) [OF l] sum of_int_add of_int_mult of_int_sint by (simp only: ac_simps)
qed (auto dest: dvd_imp_le)

lemma byte_product: "\<bar>sint (x :: u8) * sint (w :: u8)\<bar> \<le> 16384"
proof -
  have "\<bar>sint x\<bar> \<le> 128" "\<bar>sint w\<bar> \<le> 128" using sint_range_size [of x] sint_range_size [of w] by (auto simp: word_size)
  then have "\<bar>sint x\<bar> * \<bar>sint w\<bar> \<le> 128 * 128" by (intro mult_mono) auto
  then show ?thesis by (simp add: abs_mult)
qed

lemma idot_bound: "\<bar>\<Sum>k<n. sint (xs ! k) * sint (ws ! k)\<bar> \<le> 16384 * int n" for xs ws :: "u8 list"
proof -
  have "\<bar>\<Sum>k<n. sint (xs ! k) * sint (ws ! k)\<bar> \<le> (\<Sum>k<n. \<bar>sint (xs ! k) * sint (ws ! k)\<bar>)" by (rule sum_abs)
  also have "\<dots> \<le> (\<Sum>k<n. 16384)" by (rule sum_mono) (rule byte_product)
  finally show ?thesis by simp
qed

text \<open>Groups below \<open>2 ^ 17\<close> elements cannot overflow the accumulators.\<close>

lemma idot_sum:
  assumes "length xs = length ws" "4 dvd length xs" "length xs < 2 ^ 17"
  shows "idot xs ws = (\<Sum>k<length xs. sint (xs ! k) * sint (ws ! k))"
proof -
  let ?s = "\<Sum>k<length xs. sint (xs ! k) * sint (ws ! k)"
  have "16384 * int (length xs) < 2 ^ 31" using assms(3) by simp
  then have "- (2 ^ 31) \<le> ?s" "?s < 2 ^ 31" using idot_bound [of xs ws "length xs"] by (auto simp only: abs_le_iff)
  then have "sint (of_int ?s :: u32) = ?s" by (simp add: signed_of_int signed_take_bit_int_eq_self del: of_int_sum)
  then show ?thesis by (simp only: idot_def idot4_sum [OF assms(1,2)] add_0)
qed

text \<open>The value an element of a quantised vector stands for.\<close>

definition quantized_value :: "'f fmath \<Rightarrow> nat \<Rightarrow> u8 list \<Rightarrow> 'f list \<Rightarrow> nat \<Rightarrow> 'f" where
  "quantized_value M gs xq xs j = fmul M (fint M (sint (xq ! j))) (xs ! (j div gs))"

lemma group_step_exact:
  fixes M :: "('f :: comm_ring_1) fmath"
  assumes exact: "f_add (fl M) = (+)" "f_mul (fl M) = (*)" "f_of_int (fl M) = of_int"
    and gs: "0 < gs" "4 dvd gs" "gs < 2 ^ 17" and g: "g < n div gs" "n \<le> length xq" "n div gs \<le> length xs"
    and w: "tensor_in gs m w (length data)" "i + n \<le> m" "gs dvd i"
  shows "group_step M gs xq xs data w i g val =
    Some (val + (\<Sum>k<gs. the (dequantize M gs data w (i + g * gs + k)) * quantized_value M gs xq xs (g * gs + k)))"
proof -
  have m: "4 * ((gs + 3) div 4) = gs" using gs(2) by (auto elim!: dvdE)
  have fit: "g * gs + gs \<le> n" by (rule group_fits [OF g(1)])
  have in1: "g * gs + gs \<le> length xq" using fit g(2) by linarith
  have wq: "qt_q w + m \<le> length data" using w(1) by (simp add: tensor_in_def)
  then have in2: "qt_q w + i + g * gs + gs \<le> length data" using fit w(2) by linarith
  from slice_at_total [OF in1] slice_at_total [OF in2] obtain xr wr where
    s: "slice_at xq (g * gs) gs = Some xr" "slice_at data (qt_q w + i + g * gs) gs = Some wr" "length xr = gs" "length wr = gs" by blast
  have "(i + g * gs) div gs + 1 \<le> m div gs" by (rule group_in [OF gs(1)]) (use fit w(2) in simp)
  then have "qt_s w + 4 * ((i + g * gs) div gs) + 4 \<le> length data" using w(1) by (simp add: tensor_in_def)
  from float_at_total [OF this] obtain v where v: "float_at M data (qt_s w + 4 * ((i + g * gs) div gs)) = Some v" ..
  obtain r where r: "i = gs * r" using w(3) by blast
  have dq: "the (dequantize M gs data w (i + g * gs + k)) = of_int (sint (wr ! k)) * v" if k: "k < gs" for k
  proof -
    have "i + g * gs + k = (r + g) * gs + k" "i + g * gs = (r + g) * gs" unfolding r by (simp_all add: algebra_simps)
    then have d: "(i + g * gs + k) div gs = (i + g * gs) div gs" using k by simp
    have "qt_q w + (i + g * gs + k) < length data" using wq w(2) fit k by linarith
    moreover have "data ! (qt_q w + (i + g * gs + k)) = wr ! k" using slice_nth [OF s(2) k] by (simp only: add.assoc)
    ultimately show ?thesis unfolding dequantize_def d v by (simp add: exact)
  qed
  have qv: "quantized_value M gs xq xs (g * gs + k) = of_int (sint (xr ! k)) * xs ! g" if k: "k < gs" for k
    using slice_nth [OF s(1) k] k by (simp add: quantized_value_def exact)
  have "of_int (idot xr wr) * v * xs ! g = (\<Sum>k<gs. (of_int (sint (wr ! k)) * v) * (of_int (sint (xr ! k)) * xs ! g))"
    using idot_sum [of xr wr] s(3,4) gs(2,3) by (simp add: sum_distrib_left sum_distrib_right ac_simps)
  also have "\<dots> = (\<Sum>k<gs. the (dequantize M gs data w (i + g * gs + k)) * quantized_value M gs xq xs (g * gs + k))"
    by (rule sum.cong) (simp_all add: dq qv)
  finally show ?thesis using g(1,3) unfolding group_step_def m Let_def s(1,2) v by (simp add: exact)
qed

lemma sum_split: "(\<Sum>j<a + n. f j) = (\<Sum>j<a. f j) + (\<Sum>k<n. (f (a + k) :: 'f :: comm_monoid_add))" for a n :: nat
  by (induction n) (simp_all add: add.assoc)

text \<open>A row: the groups one after the other.\<close>

lemma row_exact:
  fixes M :: "('f :: comm_ring_1) fmath"
  assumes exact: "f_add (fl M) = (+)" "f_mul (fl M) = (*)" "f_of_int (fl M) = of_int"
    and gs: "0 < gs" "4 dvd gs" "gs < 2 ^ 17" and g: "G \<le> n div gs" "n \<le> length xq" "n div gs \<le> length xs"
    and w: "tensor_in gs m w (length data)" "i + n \<le> m" "gs dvd i"
  shows "foldM (group_step M gs xq xs data w i) [0..<G] 0 =
    Some (\<Sum>j<G * gs. the (dequantize M gs data w (i + j)) * quantized_value M gs xq xs j)"
  using g(1)
proof (induction G)
  case (Suc G)
  let ?t = "\<lambda>j. the (dequantize M gs data w (i + j)) * quantized_value M gs xq xs j"
  have G: "G < n div gs" using Suc.prems by simp
  have "group_step M gs xq xs data w i G (\<Sum>j<G * gs. ?t j) = Some ((\<Sum>j<G * gs. ?t j) + (\<Sum>k<gs. ?t (G * gs + k)))"
    using group_step_exact [OF exact gs G g(2,3) w] by (simp only: add.assoc)
  also have "(\<Sum>j<G * gs. ?t j) + (\<Sum>k<gs. ?t (G * gs + k)) = (\<Sum>j<Suc G * gs. ?t j)"
    using sum_split [of ?t "G * gs" gs] by (simp only: mult_Suc add.commute)
  finally show ?case using Suc.IH G by (simp add: foldM_append)
qed simp

text \<open>
  C34: the eight-bit matrix product loses nothing but the quantisation. For a group size that is a multiple of
  four, below 131072 and divides the row length, the integer product in four 32-bit accumulators, which do not
  overflow for such groups, and the scaling group by group
  is, over exact arithmetic, the mathematical product of the matrix and the vector that the quantised
  values and their scales stand for; no access leaves the vector, the file or the scales.
\<close>

theorem qmatmul_exact:
  fixes M :: "('f :: comm_ring_1) fmath"
  assumes "f_add (fl M) = (+)" "f_mul (fl M) = (*)" "f_of_int (fl M) = of_int"
    and "0 < gs" "4 dvd gs" "gs < 2 ^ 17" "gs dvd n" "n \<le> length xq" "n div gs \<le> length xs" "tensor_in gs (d * n) w (length data)"
  shows "qmatmul M gs xq xs data w n d =
    Some (map (\<lambda>i. \<Sum>j<n. the (dequantize M gs data w (i * n + j)) * quantized_value M gs xq xs j) [0..<d])"
proof -
  from qmatmul_total [OF assms(4,5,8-10), of M] obtain y where y: "qmatmul M gs xq xs data w n d = Some y" "length y = d" by blast
  have "y ! i = (\<Sum>j<n. the (dequantize M gs data w (i * n + j)) * quantized_value M gs xq xs j)" if i: "i < d" for i
  proof -
    have "(i + 1) * n \<le> d * n" using i by (intro mult_le_mono1) simp
    then have fit: "i * n + n \<le> d * n" by simp
    have "Some (y ! i) = foldM (group_step M gs xq xs data w (i * n)) [0..<n div gs] (fint M 0)"
      using mapM_nth [OF y(1) [unfolded qmatmul_def], of i] i by simp
    then show ?thesis using row_exact [OF assms(1-6) order_refl assms(8-10) fit] assms(3,7) by simp
  qed
  then show ?thesis using y by (auto intro: nth_equalityI)
qed

definition sample_tensor :: "u8 list" where
  "sample_tensor = [5, 6, 7, 8, 1, 1, 1, 1, 2, 0, 0, 0, 3, 0, 0, 0]"

theorem qmatmul_exact_witness:
  "qmatmul int_math 4 [1, 2, 3, 255] [10] sample_tensor \<lparr>qt_q = 0, qt_s = 8\<rparr> 4 2 = Some [600, 150]"
proof -
  let ?w = "\<lparr>qt_q = 0, qt_s = 8\<rparr>"
  have four: "(\<Sum>j<4. f j) = f 0 + f 1 + f 2 + f 3" for f :: "nat \<Rightarrow> int" by (simp add: eval_nat_numeral)
  have s: "float_at int_math sample_tensor 8 = Some 2" "float_at int_math sample_tensor 12 = Some 3"
    by (simp_all add: float_at_def slice_at_def sample_tensor_def read_u32_le_def int_math_def)
  have o: "f_add (fl int_math) = (+)" "fmul int_math = (*)" "f_of_int (fl int_math) = (\<lambda>i. i)" by (simp_all add: int_math_def)
  have n: "length sample_tensor = 16" "map ((!) sample_tensor) [0, 1, 2, 3, 4, 5, 6, 7] = [5, 6, 7, 8, 1, 1, 1, 1]"
    "sample_tensor ! Suc (Suc 0) = 7"
    by (simp_all add: sample_tensor_def)
  have w: "map (\<lambda>j. the (dequantize int_math 4 sample_tensor ?w j)) [0, 1, 2, 3, 4, 5, 6, 7] = [10, 12, 14, 16, 3, 3, 3, 3]"
    "the (dequantize int_math 4 sample_tensor ?w (Suc (Suc 0))) = 14"
    using n by (simp_all add: dequantize_def s o)
  have x: "map (quantized_value int_math 4 [1, 2, 3, 255] [10]) [0, 1, 2, 3] = [10, 20, 30, - 10]"
    by (simp add: quantized_value_def o)
  have t: "tensor_in 4 (2 * 4) ?w (length sample_tensor)" by (simp add: tensor_in_def sample_tensor_def)
  show ?thesis
    using qmatmul_exact [of int_math 4 4 "[1, 2, 3, 255]" "[10]" 2 ?w sample_tensor] t w x
    by (simp add: four upt_rec o fun_eq_iff)
qed

end
