(* ===== verification/Llama.thy ===== *)
theory Llama
  imports Tensor LlamaTok
begin

text \<open>
  The transformer of \<open>llm.c\<close>: the layout of the weights in the model file, the buffers of a run and the
  forward pass of one token. Weights are read in place: the file's floats are one list and a weight
  pointer is an index into it. Sizes are natural numbers; the code keeps them in C ints and does not
  check them, and its products are taken not to overflow.
\<close>

section \<open>Model\<close>

record config =
  c_dim :: nat
  c_hidden_dim :: nat
  c_n_layers :: nat
  c_n_heads :: nat
  c_n_kv_heads :: nat
  c_vocab_size :: nat
  c_seq_len :: nat

definition head_size :: "config \<Rightarrow> nat" where
  "head_size c = c_dim c div c_n_heads c"

definition kv_dim :: "config \<Rightarrow> nat" where
  "kv_dim c = c_dim c * c_n_kv_heads c div c_n_heads c"

definition kv_mul :: "config \<Rightarrow> nat" where
  "kv_mul c = c_n_heads c div c_n_kv_heads c"

record weights =
  w_tok :: nat
  w_rms_att :: nat
  w_wq :: nat
  w_wk :: nat
  w_wv :: nat
  w_wo :: nat
  w_rms_ffn :: nat
  w_w1 :: nat
  w_w2 :: nat
  w_w3 :: nat
  w_rms_final :: nat
  w_cls :: nat

definition memory_map_weights :: "config \<Rightarrow> bool \<Rightarrow> weights" where
  "memory_map_weights c shared =
     (let n = c_n_layers c; d = c_dim c; hs = head_size c;
          rms_att = c_vocab_size c * d;
          wq = rms_att + n * d;
          wk = wq + n * d * (c_n_heads c * hs);
          wv = wk + n * d * (c_n_kv_heads c * hs);
          wo = wv + n * d * (c_n_kv_heads c * hs);
          rms_ffn = wo + n * (c_n_heads c * hs) * d;
          w1 = rms_ffn + n * d;
          w2 = w1 + n * d * c_hidden_dim c;
          w3 = w2 + n * c_hidden_dim c * d;
          rms_final = w3 + n * d * c_hidden_dim c;
          last = rms_final + d + c_seq_len c * hs div 2 + c_seq_len c * hs div 2
      in \<lparr>w_tok = 0, w_rms_att = rms_att, w_wq = wq, w_wk = wk, w_wv = wv, w_wo = wo, w_rms_ffn = rms_ffn, w_w1 = w1,
          w_w2 = w2, w_w3 = w3, w_rms_final = rms_final, w_cls = (if shared then 0 else last)\<rparr>)"

record 'f run_state =
  rs_x :: "'f list"
  rs_xb :: "'f list"
  rs_xb2 :: "'f list"
  rs_hb :: "'f list"
  rs_hb2 :: "'f list"
  rs_q :: "'f list"
  rs_att :: "'f list"
  rs_logits :: "'f list"
  key_cache :: "'f list"
  value_cache :: "'f list"

text \<open>\<open>calloc\<close> of \<open>n\<close> elements of a size, through the interface of the heap; the result is the pointer.\<close>

definition calloc_ptr :: "'h heap_ops \<Rightarrow> nat \<times> u64 \<Rightarrow> 'h \<Rightarrow> (u64 \<times> 'h) option" where
  "calloc_ptr ops = (\<lambda>(n, sz) h.
     let num = of_nat n :: u64 in if num \<noteq> 0 \<and> sz > (- 1) div num then Some (0, h) else heap_malloc ops (num * sz) h)"

primrec callocs :: "'h heap_ops \<Rightarrow> (nat \<times> u64) list \<Rightarrow> 'h \<Rightarrow> (u64 list \<times> 'h) option" where
  "callocs ops [] h = Some ([], h)"
| "callocs ops (n # ns) h =
     calloc_ptr ops n h \<bind> (\<lambda>(p, h). callocs ops ns h \<bind> (\<lambda>(ps, h). Some (p # ps, h)))"

definition zeros :: "'f fmath \<Rightarrow> nat \<Rightarrow> 'f list" where
  "zeros M n = replicate (unat (of_nat n :: u64)) (fint M 0)"

definition alloc_run_state :: "'h heap_ops \<Rightarrow> 'f fmath \<Rightarrow> config \<Rightarrow> 'h \<Rightarrow> ('f run_state option \<times> 'h) option" where
  "alloc_run_state ops M c h =
     (let d = c_dim c; hd = c_hidden_dim c; a = c_n_heads c * c_seq_len c; kv = c_n_layers c * c_seq_len c * kv_dim c
      in callocs ops (map (\<lambda>n. (n, 4)) [d, d, d, hd, hd, d, a, c_vocab_size c, kv, kv]) h \<bind> (\<lambda>(ps, h).
         if 0 \<in> set ps then Some (None, h)
         else Some (Some \<lparr>rs_x = zeros M d, rs_xb = zeros M d, rs_xb2 = zeros M d, rs_hb = zeros M hd, rs_hb2 = zeros M hd,
           rs_q = zeros M d, rs_att = zeros M a, rs_logits = zeros M (c_vocab_size c), key_cache = zeros M kv,
           value_cache = zeros M kv\<rparr>, h)))"

section \<open>Forward pass\<close>

definition llama_eps :: "'f fmath \<Rightarrow> 'f" where
  "llama_eps M = fdiv M (fint M 1) (fint M 100000)"

text \<open>Rotating one pair of the query and, while there are any, of the key at \<open>koff\<close> of the cache.\<close>

definition rope_step :: "'f fmath \<Rightarrow> config \<Rightarrow> nat \<Rightarrow> nat \<Rightarrow> nat \<Rightarrow> 'f list \<times> 'f list \<Rightarrow> ('f list \<times> 'f list) option" where
  "rope_step M c pos koff i = (\<lambda>(q, kc).
     let freq = fdiv M (fint M 1) (f_pow M (fint M 10000)
           (fdiv M (fint M (int (i mod head_size c))) (fint M (int (head_size c)))));
         v = fmul M (fint M (int pos)) freq; fcr = f_cos M v; fci = f_sin M v
     in rotate_pair M fcr fci i (i + 1) q \<bind> (\<lambda>q.
        if i < kv_dim c then rotate_pair M fcr fci (koff + i) (koff + i + 1) kc \<bind> (\<lambda>kc. Some (q, kc))
        else Some (q, kc)))"

definition attention :: "'f fmath \<Rightarrow> config \<Rightarrow> weights \<Rightarrow> 'f list \<Rightarrow> nat \<Rightarrow> nat \<Rightarrow> 'f run_state \<Rightarrow> 'f run_state option" where
  "attention M c w data pos l s =
     (let d = c_dim c; kv = kv_dim c; loff = l * c_seq_len c * kv; koff = loff + pos * kv
      in rmsnorm M (llama_eps M) (rs_x s) (drop (w_rms_att w + l * d) data) d \<bind> blit (rs_xb s) 0 \<bind> (\<lambda>xb.
         matmul M xb data (w_wq w + l * d * d) d d \<bind> blit (rs_q s) 0 \<bind> (\<lambda>q.
         matmul M xb data (w_wk w + l * d * kv) d kv \<bind> blit (key_cache s) koff \<bind> (\<lambda>kc.
         matmul M xb data (w_wv w + l * d * kv) d kv \<bind> blit (value_cache s) koff \<bind> (\<lambda>vc.
         foldM (rope_step M c pos koff) (map ((*) 2) [0..<(d + 1) div 2]) (q, kc) \<bind> (\<lambda>(q, kc).
         foldM (head_step M (head_size c) kv (kv_mul c) (c_seq_len c) pos loff q kc vc) [0..<c_n_heads c] (rs_att s, xb) \<bind> (\<lambda>(att, xb).
         matmul M xb data (w_wo w + l * d * d) d d \<bind> blit (rs_xb2 s) 0 \<bind> (\<lambda>xb2.
         vec_add M (rs_x s) xb2 d \<bind> (\<lambda>x.
         Some (s\<lparr>rs_x := x, rs_xb := xb, rs_xb2 := xb2, rs_q := q, rs_att := att, key_cache := kc,
           value_cache := vc\<rparr>))))))))))"

definition feed_forward :: "'f fmath \<Rightarrow> config \<Rightarrow> weights \<Rightarrow> 'f list \<Rightarrow> nat \<Rightarrow> 'f run_state \<Rightarrow> 'f run_state option" where
  "feed_forward M c w data l s =
     (let d = c_dim c; hd = c_hidden_dim c
      in rmsnorm M (llama_eps M) (rs_x s) (drop (w_rms_ffn w + l * d) data) d \<bind> blit (rs_xb s) 0 \<bind> (\<lambda>xb.
         matmul M xb data (w_w1 w + l * d * hd) d hd \<bind> blit (rs_hb s) 0 \<bind> (\<lambda>hb.
         matmul M xb data (w_w3 w + l * d * hd) d hd \<bind> blit (rs_hb2 s) 0 \<bind> (\<lambda>hb2.
         silu M hb hb2 hd \<bind> (\<lambda>hb.
         matmul M hb data (w_w2 w + l * d * hd) hd d \<bind> blit xb 0 \<bind> (\<lambda>xb.
         vec_add M (rs_x s) xb d \<bind> (\<lambda>x.
         Some (s\<lparr>rs_x := x, rs_xb := xb, rs_hb := hb, rs_hb2 := hb2\<rparr>))))))))"

definition forward :: "'f fmath \<Rightarrow> config \<Rightarrow> weights \<Rightarrow> 'f list \<Rightarrow> int \<Rightarrow> nat \<Rightarrow> 'f run_state \<Rightarrow> 'f run_state option" where
  "forward M c w data token pos s =
     (let d = c_dim c
      in (if token < 0 then None else slice_at data (w_tok w + nat token * d) d) \<bind> blit (rs_x s) 0 \<bind> (\<lambda>x.
         foldM (\<lambda>l s. attention M c w data pos l s \<bind> feed_forward M c w data l) [0..<c_n_layers c] (s\<lparr>rs_x := x\<rparr>) \<bind> (\<lambda>s.
         rmsnorm M (llama_eps M) (rs_x s) (drop (w_rms_final w) data) d \<bind> blit (rs_x s) 0 \<bind> (\<lambda>x.
         matmul M x data (w_cls w) d (c_vocab_size c) \<bind> blit (rs_logits s) 0 \<bind> (\<lambda>logits.
         Some (s\<lparr>rs_x := x, rs_logits := logits\<rparr>))))))"

section \<open>Safety of the forward pass\<close>

definition config_ok :: "config \<Rightarrow> bool" where
  [inv_simps]: "config_ok c \<longleftrightarrow> 0 < c_dim c \<and> 0 < c_n_heads c \<and> 0 < c_n_kv_heads c \<and> c_n_heads c dvd c_dim c \<and>
     c_n_kv_heads c dvd c_n_heads c \<and> even (head_size c)"

definition shape :: "config \<Rightarrow> 'f run_state \<Rightarrow> bool" where
  [inv_simps]: "shape c s \<longleftrightarrow> length (rs_x s) = c_dim c \<and> length (rs_xb s) = c_dim c \<and> length (rs_xb2 s) = c_dim c \<and>
     length (rs_hb s) = c_hidden_dim c \<and> length (rs_hb2 s) = c_hidden_dim c \<and> length (rs_q s) = c_dim c \<and>
     length (rs_att s) = c_n_heads c * c_seq_len c \<and> length (rs_logits s) = c_vocab_size c \<and>
     length (key_cache s) = c_n_layers c * c_seq_len c * kv_dim c \<and>
     length (value_cache s) = c_n_layers c * c_seq_len c * kv_dim c"

lemma dims:
  assumes "config_ok c"
  shows "c_dim c = c_n_heads c * head_size c" "kv_dim c = c_n_kv_heads c * head_size c"
    "c_n_heads c = kv_mul c * c_n_kv_heads c" "0 < kv_mul c" "0 < head_size c" "even (c_dim c)" "even (kv_dim c)" "0 < kv_dim c"
proof -
  show d: "c_dim c = c_n_heads c * head_size c" using assms by (simp add: config_ok_def head_size_def)
  have "kv_dim c = c_n_heads c * head_size c * c_n_kv_heads c div c_n_heads c" by (simp add: kv_dim_def d [symmetric])
  also have "\<dots> = c_n_kv_heads c * head_size c"
    using assms by (simp add: config_ok_def mult.assoc mult.commute [of "head_size c"])
  finally show k: "kv_dim c = c_n_kv_heads c * head_size c" .
  show m: "c_n_heads c = kv_mul c * c_n_kv_heads c" using assms by (simp add: config_ok_def kv_mul_def)
  show "0 < kv_mul c" using assms m by (metis config_ok_def mult_0 neq0_conv)
  show h: "0 < head_size c" using assms d by (metis config_ok_def mult_0_right neq0_conv)
  have e: "even (head_size c)" using assms by (simp add: config_ok_def)
  show "even (c_dim c)" unfolding d using e by simp
  show "even (kv_dim c)" unfolding k using e by simp
  show "0 < kv_dim c" unfolding k using h assms by (simp add: config_ok_def)
qed

lemma rope_ok:
  fixes M :: "'f fmath"
  assumes c: "config_ok c" and l: "l < c_n_layers c" and p: "pos < c_seq_len c" and q: "length q = c_dim c"
    and kc: "length kc = c_n_layers c * c_seq_len c * kv_dim c"
  shows "\<exists>q' kc'. foldM (rope_step M c pos (l * c_seq_len c * kv_dim c + pos * kv_dim c))
      (map ((*) 2) [0..<(c_dim c + 1) div 2]) (q, kc) = Some (q', kc') \<and> length q' = c_dim c \<and> other_rows (kv_dim c) (c_seq_len c) pos kc kc'"
proof -
  let ?o = "l * c_seq_len c * kv_dim c + pos * kv_dim c"
  let ?P = "\<lambda>(_ :: nat list) (a :: 'f list, b :: 'f list). length a = c_dim c \<and> other_rows (kv_dim c) (c_seq_len c) pos kc b"
  have fit: "?o + kv_dim c \<le> length kc" using row_fits [OF l p] kc by simp
  have step: "\<exists>t'. rope_step M c pos ?o i t = Some t' \<and> ?P zs t'" if i: "i \<in> set (map ((*) 2) [0..<(c_dim c + 1) div 2])"
    and t: "?P ys t" for i t ys zs
  proof -
    obtain a b where ab: "t = (a, b)" "length a = c_dim c" "other_rows (kv_dim c) (c_seq_len c) pos kc b" using t by (cases t) auto
    have lb: "length b = length kc" using ab(3) by (simp add: other_rows_def)
    have i2: "even i" "i + 1 < c_dim c" using i dims(6) [OF c] by auto
    let ?f = "fdiv M (fint M 1) (f_pow M (fint M 10000)
           (fdiv M (fint M (int (i mod head_size c))) (fint M (int (head_size c)))))"
    let ?v = "fmul M (fint M (int pos)) ?f"
    from rotate_pair_total [of i a "i + 1" M "f_cos M ?v" "f_sin M ?v"] i2 ab(2) obtain a' where
      a': "rotate_pair M (f_cos M ?v) (f_sin M ?v) i (i + 1) a = Some a'" "length a' = c_dim c" by auto
    show ?thesis
    proof (cases "i < kv_dim c")
      case False
      then show ?thesis using a' ab by (simp add: rope_step_def Let_def)
    next
      case True
      then have i3: "i + 1 < kv_dim c" using i2(1) dims(7) [OF c] by presburger
      have in1: "?o + i < length b" "?o + i + 1 < length b" using True i3 fit lb by linarith+
      from rotate_pair_total [OF in1, of M "f_cos M ?v" "f_sin M ?v"] obtain b' where
        b': "rotate_pair M (f_cos M ?v) (f_sin M ?v) (?o + i) (?o + i + 1) b = Some b'" "length b' = length b"
        "\<forall>k. k \<noteq> ?o + i \<and> k \<noteq> ?o + i + 1 \<longrightarrow> b' ! k = b ! k" by blast
      have r: "(?o + i) div kv_dim c mod c_seq_len c = pos" "(?o + i + 1) div kv_dim c mod c_seq_len c = pos"
        using row_index [OF True p, of l] row_index [OF i3 p, of l] by (simp_all only: add.assoc)
      have "b' ! k = b ! k" if k: "k div kv_dim c mod c_seq_len c \<noteq> pos" for k
      proof -
        have "k \<noteq> ?o + i" using k r(1) by blast
        moreover have "k \<noteq> ?o + i + 1" using k r(2) by blast
        ultimately show ?thesis using b'(3) by blast
      qed
      then have "other_rows (kv_dim c) (c_seq_len c) pos b b'" using b'(2) by (simp add: other_rows_def)
      with other_rows_trans [OF ab(3)] have "other_rows (kv_dim c) (c_seq_len c) pos kc b'" by blast
      moreover have "rope_step M c pos ?o i t = Some (a', b')"
        unfolding rope_step_def ab(1) prod.case Let_def a'(1) bind.bind_lunit if_P [OF True] b'(1) ..
      ultimately show ?thesis using a'(2) by simp
    qed
  qed
  have "\<exists>t'. foldM (rope_step M c pos ?o) (map ((*) 2) [0..<(c_dim c + 1) div 2]) (q, kc) = Some t' \<and>
      ?P (map ((*) 2) [0..<(c_dim c + 1) div 2]) t'"
  proof (rule foldM_invariant)
    show "?P [] (q, kc)" using q other_rows_refl by simp
    fix ys i zs t assume "map ((*) 2) [0..<(c_dim c + 1) div 2] = ys @ i # zs" and t: "?P ys t"
    then have "i \<in> set (map ((*) 2) [0..<(c_dim c + 1) div 2])" by (metis in_set_conv_decomp)
    from step [OF this t] show "\<exists>t'. rope_step M c pos ?o i t = Some t' \<and> ?P (ys @ [i]) t'" .
  qed
  then show ?thesis by auto
qed

text \<open>Every weight matrix lies inside the floats of the file.\<close>

definition weights_ok :: "config \<Rightarrow> weights \<Rightarrow> nat \<Rightarrow> bool" where
  "weights_ok c w N \<longleftrightarrow>
     (let L = c_n_layers c; d = c_dim c; hd = c_hidden_dim c; kv = kv_dim c
      in w_tok w + c_vocab_size c * d \<le> N \<and> w_rms_att w + L * d \<le> N \<and> w_wq w + L * (d * d) \<le> N \<and>
         w_wk w + L * (d * kv) \<le> N \<and> w_wv w + L * (d * kv) \<le> N \<and> w_wo w + L * (d * d) \<le> N \<and>
         w_rms_ffn w + L * d \<le> N \<and> w_w1 w + L * (d * hd) \<le> N \<and> w_w2 w + L * (d * hd) \<le> N \<and>
         w_w3 w + L * (d * hd) \<le> N \<and> w_rms_final w + d \<le> N \<and> w_cls w + c_vocab_size c * d \<le> N)"

lemma layer_fits: "l < L \<Longrightarrow> off + L * m \<le> N \<Longrightarrow> off + l * m + m \<le> (N :: nat)"
  using mult_le_mono1 [of "l + 1" L m] by simp

lemma blit_whole: "length xs = length buf \<Longrightarrow> blit buf 0 xs = Some xs"
  by (simp add: blit_def)

lemma attention_ok:
  assumes c: "config_ok c" and w: "weights_ok c w (length data)" and l: "l < c_n_layers c" and p: "pos < c_seq_len c"
    and s: "shape c s"
  shows "\<exists>s'. attention M c w data pos l s = Some s' \<and> shape c s' \<and>
    other_rows (kv_dim c) (c_seq_len c) pos (key_cache s) (key_cache s') \<and> other_rows (kv_dim c) (c_seq_len c) pos (value_cache s) (value_cache s')"
proof -
  let ?d = "c_dim c" and ?kv = "kv_dim c" and ?o = "l * c_seq_len c * kv_dim c"
  have W: "w_rms_att w + c_n_layers c * ?d \<le> length data" "w_wq w + c_n_layers c * (?d * ?d) \<le> length data"
    "w_wk w + c_n_layers c * (?d * ?kv) \<le> length data" "w_wv w + c_n_layers c * (?d * ?kv) \<le> length data"
    "w_wo w + c_n_layers c * (?d * ?d) \<le> length data" using w by (simp_all add: weights_ok_def Let_def)
  have S: "length (rs_x s) = ?d" "length (rs_xb s) = ?d" "length (rs_xb2 s) = ?d" "length (rs_q s) = ?d"
    "length (rs_att s) = c_n_heads c * c_seq_len c" "length (key_cache s) = c_n_layers c * c_seq_len c * ?kv"
    "length (value_cache s) = c_n_layers c * c_seq_len c * ?kv" using s by (simp_all add: shape_def)
  have "?d \<le> length (drop (w_rms_att w + l * ?d) data)" using layer_fits [OF l W(1)] by simp
  from rmsnorm_total [OF eq_refl [OF S(1) [symmetric]] this] obtain xb where
    xb: "rmsnorm M (llama_eps M) (rs_x s) (drop (w_rms_att w + l * ?d) data) ?d = Some xb" "length xb = ?d" by blast
  have "blit (rs_xb s) 0 xb = Some xb" by (rule blit_whole) (simp add: xb(2) S(2))
  note xb = xb this
  have "w_wq w + l * ?d * ?d + ?d * ?d \<le> length data" using layer_fits [OF l W(2)] by (simp add: mult.assoc)
  from matmul_total [OF eq_refl [OF xb(2) [symmetric]] this, of M] obtain q where
    q: "matmul M xb data (w_wq w + l * ?d * ?d) ?d ?d = Some q" "length q = ?d" by blast
  have "blit (rs_q s) 0 q = Some q" by (rule blit_whole) (simp add: q(2) S(4))
  note q = q this
  have "w_wk w + l * ?d * ?kv + ?kv * ?d \<le> length data" using layer_fits [OF l W(3)] by (simp add: mult.assoc mult.commute [of ?kv])
  from matmul_total [OF eq_refl [OF xb(2) [symmetric]] this, of M] obtain k where
    k: "matmul M xb data (w_wk w + l * ?d * ?kv) ?d ?kv = Some k" "length k = ?kv" by blast
  from row_blit [OF l p S(6) k(2)] obtain kc where kc: "blit (key_cache s) (?o + pos * ?kv) k = Some kc"
    "other_rows (kv_dim c) (c_seq_len c) pos (key_cache s) kc" by blast
  have "w_wv w + l * ?d * ?kv + ?kv * ?d \<le> length data" using layer_fits [OF l W(4)] by (simp add: mult.assoc mult.commute [of ?kv])
  from matmul_total [OF eq_refl [OF xb(2) [symmetric]] this, of M] obtain v where
    v: "matmul M xb data (w_wv w + l * ?d * ?kv) ?d ?kv = Some v" "length v = ?kv" by blast
  from row_blit [OF l p S(7) v(2)] obtain vc where vc: "blit (value_cache s) (?o + pos * ?kv) v = Some vc"
    "other_rows (kv_dim c) (c_seq_len c) pos (value_cache s) vc" by blast
  have kl: "length kc = c_n_layers c * c_seq_len c * ?kv" using kc(2) S(6) by (simp add: other_rows_def)
  from rope_ok [OF c l p q(2) kl, of M] obtain q1 kc1 where
    r: "foldM (rope_step M c pos (?o + pos * ?kv)) (map ((*) 2) [0..<(?d + 1) div 2]) (q, kc) = Some (q1, kc1)"
      "length q1 = ?d" "other_rows (kv_dim c) (c_seq_len c) pos kc kc1" by blast
  have kl1: "length kc1 = c_n_layers c * c_seq_len c * ?kv" using r(3) kl by (simp add: other_rows_def)
  have vl: "length vc = c_n_layers c * c_seq_len c * ?kv" using vc(2) S(7) by (simp add: other_rows_def)
  have ql: "c_n_heads c * head_size c \<le> length q1" "c_n_heads c * head_size c \<le> length xb" using r(2) xb(2) dims(1) [OF c] by simp_all
  from heads_ok [OF l p dims(4) [OF c] dims(3) [OF c] dims(2) [OF c] kl1 vl S(5) ql, of M] obtain att xb1 where
    h: "foldM (head_step M (head_size c) ?kv (kv_mul c) (c_seq_len c) pos ?o q1 kc1 vc) [0..<c_n_heads c] (rs_att s, xb) = Some (att, xb1)"
      "length att = length (rs_att s)" "length xb1 = ?d" using xb(2) by auto
  have "w_wo w + l * ?d * ?d + ?d * ?d \<le> length data" using layer_fits [OF l W(5)] by (simp add: mult.assoc)
  from matmul_total [OF eq_refl [OF h(3) [symmetric]] this, of M] obtain xb2 where
    xb2: "matmul M xb1 data (w_wo w + l * ?d * ?d) ?d ?d = Some xb2" "length xb2 = ?d" by blast
  have "blit (rs_xb2 s) 0 xb2 = Some xb2" by (rule blit_whole) (simp add: xb2(2) S(3))
  note xb2 = xb2 this
  from vec_add_total [OF S(1) [symmetric] eq_refl [OF xb2(2) [symmetric]], of M] obtain x where
    x: "vec_add M (rs_x s) xb2 ?d = Some x" "length x = ?d" using S(1) by auto
  let ?s = "s\<lparr>rs_x := x, rs_xb := xb1, rs_xb2 := xb2, rs_q := q1, rs_att := att, key_cache := kc1, value_cache := vc\<rparr>"
  have "attention M c w data pos l s = Some ?s"
    unfolding attention_def Let_def xb(1,3) q(1,3) k(1) kc(1) v(1) vc(1) r(1) h(1) xb2(1,3) x(1) bind.bind_lunit prod.case ..
  moreover have "shape c ?s" using s x(2) h xb2(2) r(2) kl1 vl S(5) by (simp add: shape_def)
  ultimately show ?thesis using other_rows_trans [OF kc(2) r(3)] vc(2) by simp
qed

lemma feed_forward_ok:
  assumes w: "weights_ok c w (length data)" and l: "l < c_n_layers c" and s: "shape c s"
  shows "\<exists>s'. feed_forward M c w data l s = Some s' \<and> shape c s' \<and> key_cache s' = key_cache s \<and> value_cache s' = value_cache s"
proof -
  let ?d = "c_dim c" and ?hd = "c_hidden_dim c"
  have W: "w_rms_ffn w + c_n_layers c * ?d \<le> length data" "w_w1 w + c_n_layers c * (?d * ?hd) \<le> length data"
    "w_w3 w + c_n_layers c * (?d * ?hd) \<le> length data" "w_w2 w + c_n_layers c * (?d * ?hd) \<le> length data"
    using w by (simp_all add: weights_ok_def Let_def)
  have S: "length (rs_x s) = ?d" "length (rs_xb s) = ?d" "length (rs_hb s) = ?hd" "length (rs_hb2 s) = ?hd"
    using s by (simp_all add: shape_def)
  have "?d \<le> length (drop (w_rms_ffn w + l * ?d) data)" using layer_fits [OF l W(1)] by simp
  from rmsnorm_total [OF eq_refl [OF S(1) [symmetric]] this] obtain xb where
    xb: "rmsnorm M (llama_eps M) (rs_x s) (drop (w_rms_ffn w + l * ?d) data) ?d = Some xb" "length xb = ?d" by blast
  have "blit (rs_xb s) 0 xb = Some xb" by (rule blit_whole) (simp add: xb(2) S(2))
  note xb = xb this
  have "w_w1 w + l * ?d * ?hd + ?hd * ?d \<le> length data" using layer_fits [OF l W(2)] by (simp add: mult.assoc mult.commute [of ?hd])
  from matmul_total [OF eq_refl [OF xb(2) [symmetric]] this, of M] obtain hb where
    hb: "matmul M xb data (w_w1 w + l * ?d * ?hd) ?d ?hd = Some hb" "length hb = ?hd" by blast
  have "blit (rs_hb s) 0 hb = Some hb" by (rule blit_whole) (simp add: hb(2) S(3))
  note hb = hb this
  have "w_w3 w + l * ?d * ?hd + ?hd * ?d \<le> length data" using layer_fits [OF l W(3)] by (simp add: mult.assoc mult.commute [of ?hd])
  from matmul_total [OF eq_refl [OF xb(2) [symmetric]] this, of M] obtain hb2 where
    hb2: "matmul M xb data (w_w3 w + l * ?d * ?hd) ?d ?hd = Some hb2" "length hb2 = ?hd" by blast
  have "blit (rs_hb2 s) 0 hb2 = Some hb2" by (rule blit_whole) (simp add: hb2(2) S(4))
  note hb2 = hb2 this
  from silu_total [OF hb(2) [symmetric] eq_refl [OF hb2(2) [symmetric]], of M] obtain g where
    g: "silu M hb hb2 ?hd = Some g" "length g = ?hd" using hb(2) by auto
  have "w_w2 w + l * ?d * ?hd + ?d * ?hd \<le> length data" using layer_fits [OF l W(4)] by (simp add: mult.assoc)
  from matmul_total [OF eq_refl [OF g(2) [symmetric]] this, of M] obtain xb1 where
    xb1: "matmul M g data (w_w2 w + l * ?d * ?hd) ?hd ?d = Some xb1" "length xb1 = ?d" by blast
  have "blit xb 0 xb1 = Some xb1" by (rule blit_whole) (simp add: xb1(2) xb(2))
  note xb1 = xb1 this
  from vec_add_total [OF S(1) [symmetric] eq_refl [OF xb1(2) [symmetric]], of M] obtain x where
    x: "vec_add M (rs_x s) xb1 ?d = Some x" "length x = ?d" using S(1) by auto
  have "feed_forward M c w data l s = Some (s\<lparr>rs_x := x, rs_xb := xb1, rs_hb := g, rs_hb2 := hb2\<rparr>)"
    unfolding feed_forward_def Let_def xb(1,3) hb(1,3) hb2(1,3) g(1) xb1(1,3) x(1) bind.bind_lunit ..
  then show ?thesis using s x(2) xb1(2) g(2) hb2(2) by (simp add: shape_def)
qed

lemma forward_lemma:
  fixes M :: "'f fmath"
  assumes c: "config_ok c" and w: "weights_ok c w (length data)" and p: "pos < c_seq_len c" and s: "shape c s"
    and tk: "0 \<le> token" "token < int (c_vocab_size c)"
  shows "\<exists>s'. forward M c w data token pos s = Some s' \<and> shape c s' \<and>
    other_rows (kv_dim c) (c_seq_len c) pos (key_cache s) (key_cache s') \<and> other_rows (kv_dim c) (c_seq_len c) pos (value_cache s) (value_cache s')"
proof -
  let ?d = "c_dim c"
  have W: "w_tok w + c_vocab_size c * ?d \<le> length data" "w_rms_final w + ?d \<le> length data"
    "w_cls w + c_vocab_size c * ?d \<le> length data" using w by (simp_all add: weights_ok_def Let_def)
  have S: "length (rs_x s) = ?d" "length (rs_logits s) = c_vocab_size c" using s by (simp_all add: shape_def)
  have "nat token < c_vocab_size c" using tk by linarith
  from slice_at_total [OF layer_fits [OF this W(1)]] obtain e where
    e: "slice_at data (w_tok w + nat token * ?d) ?d = Some e" "length e = ?d" by blast
  have b: "blit (rs_x s) 0 e = Some e" by (rule blit_whole) (simp add: e(2) S(1))
  let ?P = "\<lambda>(_ :: nat list) (s' :: 'f run_state). shape c s' \<and> other_rows (kv_dim c) (c_seq_len c) pos (key_cache s) (key_cache s') \<and>
    other_rows (kv_dim c) (c_seq_len c) pos (value_cache s) (value_cache s')"
  have "\<exists>s'. foldM (\<lambda>l s. attention M c w data pos l s \<bind> feed_forward M c w data l) [0..<c_n_layers c] (s\<lparr>rs_x := e\<rparr>) = Some s' \<and>
      ?P [0..<c_n_layers c] s'"
  proof (rule foldM_invariant)
    show "?P [] (s\<lparr>rs_x := e\<rparr>)" using s e(2) by (simp add: shape_def other_rows_refl)
    fix ys l zs t assume "[0..<c_n_layers c] = ys @ l # zs" and t: "?P ys t"
    then have "l \<in> set [0..<c_n_layers c]" by (metis in_set_conv_decomp)
    then have l: "l < c_n_layers c" by simp
    from t have t1: "shape c t" "other_rows (kv_dim c) (c_seq_len c) pos (key_cache s) (key_cache t)" "other_rows (kv_dim c) (c_seq_len c) pos (value_cache s) (value_cache t)"
      by simp_all
    from attention_ok [OF c w l p t1(1), of M] obtain t2 where t2: "attention M c w data pos l t = Some t2" "shape c t2"
      "other_rows (kv_dim c) (c_seq_len c) pos (key_cache t) (key_cache t2)" "other_rows (kv_dim c) (c_seq_len c) pos (value_cache t) (value_cache t2)" by blast
    from feed_forward_ok [OF w l t2(2), of M] obtain t3 where t3: "feed_forward M c w data l t2 = Some t3" "shape c t3"
      "key_cache t3 = key_cache t2" "value_cache t3 = value_cache t2" by blast
    show "\<exists>t'. (attention M c w data pos l t \<bind> feed_forward M c w data l) = Some t' \<and> ?P (ys @ [l]) t'"
      using t2 t3 other_rows_trans [OF t1(2) t2(3)] other_rows_trans [OF t1(3) t2(4)] by simp
  qed
  then obtain s1 where s1: "foldM (\<lambda>l s. attention M c w data pos l s \<bind> feed_forward M c w data l) [0..<c_n_layers c] (s\<lparr>rs_x := e\<rparr>) = Some s1"
    "shape c s1" "other_rows (kv_dim c) (c_seq_len c) pos (key_cache s) (key_cache s1)" "other_rows (kv_dim c) (c_seq_len c) pos (value_cache s) (value_cache s1)" by blast
  have S1: "length (rs_x s1) = ?d" "length (rs_logits s1) = c_vocab_size c" using s1(2) by (simp_all add: shape_def)
  have "?d \<le> length (drop (w_rms_final w) data)" using W(2) by simp
  from rmsnorm_total [OF eq_refl [OF S1(1) [symmetric]] this] obtain x where
    x: "rmsnorm M (llama_eps M) (rs_x s1) (drop (w_rms_final w) data) ?d = Some x" "length x = ?d" by blast
  have "blit (rs_x s1) 0 x = Some x" by (rule blit_whole) (simp add: x(2) S1(1))
  note x = x this
  from matmul_total [OF eq_refl [OF x(2) [symmetric]] W(3), of M] obtain lg where
    lg: "matmul M x data (w_cls w) ?d (c_vocab_size c) = Some lg" "length lg = c_vocab_size c" by blast
  have "blit (rs_logits s1) 0 lg = Some lg" by (rule blit_whole) (simp add: lg(2) S1(2))
  note lg = lg this
  have nn: "\<not> token < 0" using tk by simp
  have "forward M c w data token pos s = Some (s1\<lparr>rs_x := x, rs_logits := lg\<rparr>)"
    unfolding forward_def Let_def if_not_P [OF nn] e(1) b s1(1) x(1,3) lg(1,3) bind.bind_lunit ..
  then show ?thesis using s1 x(2) lg(2) by (simp add: shape_def)
qed

text \<open>The floats a model file needs after its header, for the layout the code gives them.\<close>

definition model_floats :: "config \<Rightarrow> bool \<Rightarrow> nat" where
  "model_floats c shared =
     w_rms_final (memory_map_weights c shared) + c_dim c +
     (if shared then 0 else 2 * (c_seq_len c * head_size c div 2) + c_vocab_size c * c_dim c)"

lemma memory_map_weights_ok:
  assumes c: "config_ok c" and n: "model_floats c shared \<le> N"
  shows "weights_ok c (memory_map_weights c shared) N"
proof -
  let ?L = "c_n_layers c" and ?d = "c_dim c" and ?hd = "c_hidden_dim c" and ?kv = "kv_dim c"
  have k: "c_n_heads c * head_size c = ?d" "c_n_kv_heads c * head_size c = ?kv" using dims(1,2) [OF c] by simp_all
  define f where "f = c_seq_len c * head_size c div 2"
  have m: "memory_map_weights c shared =
    (let rms_att = c_vocab_size c * ?d; wq = rms_att + ?L * ?d; wk = wq + ?L * (?d * ?d); wv = wk + ?L * (?d * ?kv);
       wo = wv + ?L * (?d * ?kv); rms_ffn = wo + ?L * (?d * ?d); w1 = rms_ffn + ?L * ?d; w2 = w1 + ?L * (?d * ?hd);
       w3 = w2 + ?L * (?d * ?hd); rms_final = w3 + ?L * (?d * ?hd)
     in \<lparr>w_tok = 0, w_rms_att = rms_att, w_wq = wq, w_wk = wk, w_wv = wv, w_wo = wo, w_rms_ffn = rms_ffn, w_w1 = w1,
          w_w2 = w2, w_w3 = w3, w_rms_final = rms_final, w_cls = (if shared then 0 else rms_final + ?d + f + f)\<rparr>)"
    unfolding memory_map_weights_def Let_def k f_def [symmetric]
    by (simp add: mult.assoc mult.commute [of ?hd ?d])
  define A B C D E where p: "A = c_vocab_size c * ?d" "B = ?L * ?d" "C = ?L * (?d * ?d)" "D = ?L * (?d * ?kv)" "E = ?L * (?d * ?hd)"
  show ?thesis using n unfolding model_floats_def f_def [symmetric] m weights_ok_def Let_def p [symmetric]
    by (cases shared) simp_all
qed

section \<open>Properties\<close>

text \<open>
  C19: the forward pass of the transformer is safe and touches one row of the caches. For a model file that
  holds the floats its header asks for, every position of the context and every token of the vocabulary,
  \<open>forward\<close> with the weights where \<open>memory\_map\_weights\<close> puts them returns with no access outside
  a weight, an activation or a cache; every buffer of the run keeps its size, and in both caches only the rows of
  this position, one per layer, change, so that earlier positions stay what they were.
\<close>

theorem forward_safe:
  fixes M :: "'f fmath"
  assumes "config_ok c" "model_floats c shared \<le> length data" "shape c s" "pos < c_seq_len c"
    and "0 \<le> token" "token < int (c_vocab_size c)"
  shows "\<exists>s'. forward M c (memory_map_weights c shared) data token pos s = Some s' \<and> shape c s' \<and>
    other_rows (kv_dim c) (c_seq_len c) pos (key_cache s) (key_cache s') \<and> other_rows (kv_dim c) (c_seq_len c) pos (value_cache s) (value_cache s')"
  by (rule forward_lemma [OF assms(1) memory_map_weights_ok [OF assms(1,2)] assms(4,3,5,6)])

text \<open>A model of one layer of two dimensions on the sample vocabulary, all its weights zero.\<close>

definition milli_math :: "int fmath" where
  "milli_math = \<lparr>fl = milli_floats, f_neg = uminus, f_abs = abs, f_sqrt = (\<lambda>x. x), f_sin = (\<lambda>x. 0), f_cos = (\<lambda>x. 1000),
     f_pow = (\<lambda>x y. 1000), f_to_int = (\<lambda>x. x div 1000), f_bits = (\<lambda>w. sint w)\<rparr>"

definition sample_config :: config where
  "sample_config = \<lparr>c_dim = 2, c_hidden_dim = 1, c_n_layers = 1, c_n_heads = 1, c_n_kv_heads = 1, c_vocab_size = 263, c_seq_len = 4\<rparr>"

definition sample_state :: "int run_state" where
  "sample_state = \<lparr>rs_x = [0, 0], rs_xb = [0, 0], rs_xb2 = [0, 0], rs_hb = [0], rs_hb2 = [0], rs_q = [0, 0],
     rs_att = [0, 0, 0, 0], rs_logits = replicate 263 0, key_cache = replicate 8 0, value_cache = replicate 8 0\<rparr>"

lemma sample_model:
  "config_ok sample_config" "model_floats sample_config True \<le> 600" "shape sample_config sample_state"
proof -
  have d: "kv_dim sample_config = 2" "head_size sample_config = 2" by (simp_all add: kv_dim_def head_size_def sample_config_def)
  show "config_ok sample_config" by (simp add: config_ok_def d) (simp add: sample_config_def)
  show "model_floats sample_config True \<le> 600"
    by (simp add: model_floats_def memory_map_weights_def Let_def d) (simp add: sample_config_def)
  show "shape sample_config sample_state" by (simp add: shape_def d) (simp add: sample_config_def sample_state_def)
qed

theorem forward_safe_witness:
  "\<exists>s. forward milli_math sample_config (memory_map_weights sample_config True) (replicate 600 500) 97 2 sample_state = Some s \<and>
     length (key_cache s) = 8 \<and> (\<forall>j < 4. key_cache s ! j = 0)"
proof -
  have n: "c_seq_len sample_config = 4" "c_vocab_size sample_config = 263" "kv_dim sample_config = 2"
    "key_cache sample_state = replicate 8 0" by (simp_all add: sample_config_def kv_dim_def sample_state_def)
  obtain s where s: "forward milli_math sample_config (memory_map_weights sample_config True) (replicate 600 500) 97 2 sample_state = Some s"
    "other_rows (kv_dim sample_config) (c_seq_len sample_config) 2 (replicate 8 0) (key_cache s)"
    using forward_safe [OF sample_model(1) _ sample_model(3), of True "replicate 600 500" 2 97 milli_math] sample_model(2) by (auto simp: n)
  then have "length (key_cache s) = 8" "\<forall>j < 8. j div 2 mod 4 \<noteq> 2 \<longrightarrow> key_cache s ! j = replicate 8 0 ! j"
    by (simp_all add: other_rows_def n)
  moreover from this have "key_cache s ! j = 0" if "j < 4" for j
  proof -
    have "j div 2 < 2" using that by simp
    then have "j div 2 mod 4 \<noteq> 2" by simp
    then show ?thesis using that calculation by simp
  qed
  ultimately show ?thesis using s(1) by blast
qed

end
