(* ===== verification/Qwen.thy ===== *)
theory Qwen
  imports Quantized Llama
begin

text \<open>
  The transformer of \<open>qwen.c\<close>: configuration, weights and buffers of the engine with eight-bit weights, and
  its forward pass. The model file \<open>data\<close> is a list of bytes, pointers into it are offsets. Sizes are natural
  numbers; the products the code forms of its ints are taken not to overflow. \<open>None\<close> is an access outside
  an array or the file. The calls of \<open>sched\_yield\<close> are left out.
\<close>

section \<open>Model\<close>

record qwen_config =
  q_dim :: nat
  q_hidden_dim :: nat
  q_n_layers :: nat
  q_n_heads :: nat
  q_n_kv_heads :: nat
  q_vocab_size :: nat
  q_seq_len :: nat
  q_head_dim :: nat
  q_shared :: bool
  q_group_size :: nat

definition all_heads_dim :: "qwen_config \<Rightarrow> nat" where
  "all_heads_dim c = q_n_heads c * q_head_dim c"

definition qkv_dim :: "qwen_config \<Rightarrow> nat" where
  "qkv_dim c = q_n_kv_heads c * q_head_dim c"

definition xb_dim :: "qwen_config \<Rightarrow> nat" where
  "xb_dim c = (if all_heads_dim c > q_dim c then all_heads_dim c else q_dim c)"

record qwen_weights =
  q_tokens :: quantized_tensor
  qw_rms_att :: nat
  qw_rms_ffn :: nat
  qw_rms_final :: nat
  qw_q_norm :: nat
  qw_k_norm :: nat
  qw_wq :: "quantized_tensor list"
  qw_wk :: "quantized_tensor list"
  qw_wv :: "quantized_tensor list"
  qw_wo :: "quantized_tensor list"
  qw_w1 :: "quantized_tensor list"
  qw_w2 :: "quantized_tensor list"
  qw_w3 :: "quantized_tensor list"
  qw_cls :: quantized_tensor

record 'f qwen_state =
  qs_x :: "'f list"
  qs_xb :: "'f list"
  qs_hb :: "'f list"
  qs_hb2 :: "'f list"
  qs_xq :: "u8 list"
  qs_xq_s :: "'f list"
  qs_hq :: "u8 list"
  qs_hq_s :: "'f list"
  qs_q :: "'f list"
  qs_att :: "'f list"
  qs_logits :: "'f list"
  qs_key_cache :: "'f list"
  qs_value_cache :: "'f list"
  rope_freq :: "'f list"

section \<open>Buffers\<close>

definition rope_table :: "'f fmath \<Rightarrow> nat \<Rightarrow> 'f list" where
  "rope_table M half = map (\<lambda>j. f_pow M (fint M 1000000) (fdiv M (f_neg M (fint M (int j))) (fint M (int half)))) [0..<half]"

definition qwen_alloc_run_state :: "'h heap_ops \<Rightarrow> 'f fmath \<Rightarrow> qwen_config \<Rightarrow> 'h \<Rightarrow> ('f qwen_state option \<times> 'h) option" where
  "qwen_alloc_run_state ops M c h =
     (let d = q_dim c; hd = q_hidden_dim c; xb = xb_dim c; gs = q_group_size c; a = q_n_heads c * q_seq_len c;
          kv = q_n_layers c * q_seq_len c * qkv_dim c
      in callocs ops [(d, 4), (xb, 4), (hd, 4), (hd, 4), (xb, 1), (xb div gs, 4), (hd, 1), (hd div gs, 4), (all_heads_dim c, 4),
           (a, 4), (q_vocab_size c, 4), (kv, 4), (kv, 4), (q_head_dim c div 2, 4)] h \<bind> (\<lambda>(ps, h).
         if 0 \<in> set ps then Some (None, h)
         else Some (Some \<lparr>qs_x = zeros M d, qs_xb = zeros M xb, qs_hb = zeros M hd, qs_hb2 = zeros M hd, qs_xq = replicate xb 0,
           qs_xq_s = zeros M (xb div gs), qs_hq = replicate hd 0, qs_hq_s = zeros M (hd div gs), qs_q = zeros M (all_heads_dim c),
           qs_att = zeros M a, qs_logits = zeros M (q_vocab_size c), qs_key_cache = zeros M kv, qs_value_cache = zeros M kv,
           rope_freq = rope_table M (q_head_dim c div 2)\<rparr>, h)))"

section \<open>Forward pass\<close>

definition qwen_eps :: "'f fmath \<Rightarrow> 'f" where
  "qwen_eps M = fdiv M (fint M 1) (fint M 1000000)"

text \<open>Normalising and rotating one head of \<open>n\<close> elements at \<open>off\<close> of \<open>v\<close>: element \<open>j\<close> is paired with \<open>j + half\<close>.\<close>

definition half_rotate :: "'f fmath \<Rightarrow> nat \<Rightarrow> 'f list \<Rightarrow> nat \<Rightarrow> nat \<Rightarrow> nat \<Rightarrow> 'f list \<Rightarrow> 'f list option" where
  "half_rotate M pos freqs half off j v =
     (if j < length freqs then
        let val = fmul M (fint M (int pos)) (freqs ! j)
        in rotate_pair M (f_cos M val) (f_sin M val) (off + j) (off + j + half) v
      else None)"

definition norm_rope :: "'f fmath \<Rightarrow> nat \<Rightarrow> 'f list \<Rightarrow> nat \<Rightarrow> 'f list \<Rightarrow> nat \<Rightarrow> 'f list \<Rightarrow> 'f list option" where
  "norm_rope M pos freqs n wt off v =
     (let half = n div 2
      in slice_at v off n \<bind> (\<lambda>x. rmsnorm M (qwen_eps M) x wt n) \<bind> blit v off \<bind>
         foldM (half_rotate M pos freqs half off) [0..<half])"

text \<open>The quantised copy of the first \<open>n\<close> elements of a vector, in the buffers for values and scales.\<close>

definition quantize_into :: "'f fmath \<Rightarrow> nat \<Rightarrow> 'f list \<Rightarrow> nat \<Rightarrow> u8 list \<Rightarrow> 'f list \<Rightarrow> (u8 list \<times> 'f list) option" where
  "quantize_into M gs x n q s =
     quantize M gs x n \<bind> (\<lambda>(q', s'). blit q 0 q' \<bind> (\<lambda>q. blit s 0 s' \<bind> (\<lambda>s. Some (q, s))))"

text \<open>The tensor of a layer, if there is one.\<close>

definition layer :: "'a list \<Rightarrow> nat \<Rightarrow> 'a option" where
  "layer ts l = (if l < length ts then Some (ts ! l) else None)"

text \<open>The product of a quantised vector with the matrix of a layer, stored in a buffer.\<close>

definition layer_mul :: "'f fmath \<Rightarrow> nat \<Rightarrow> u8 list \<Rightarrow> 'f list \<Rightarrow> u8 list \<Rightarrow> quantized_tensor list \<Rightarrow> nat \<Rightarrow> nat \<Rightarrow> nat \<Rightarrow>
    'f list \<Rightarrow> nat \<Rightarrow> 'f list option" where
  "layer_mul M gs xq xs data ts l n d buf off = layer ts l \<bind> (\<lambda>w. qmatmul M gs xq xs data w n d) \<bind> blit buf off"

definition norm_into :: "'f fmath \<Rightarrow> 'f list \<Rightarrow> u8 list \<Rightarrow> nat \<Rightarrow> nat \<Rightarrow> 'f list \<Rightarrow> 'f list option" where
  "norm_into M x data off n buf = floats_at M data off n \<bind> (\<lambda>wt. rmsnorm M (qwen_eps M) x wt n) \<bind> blit buf 0"

definition qwen_attention :: "'f fmath \<Rightarrow> qwen_config \<Rightarrow> qwen_weights \<Rightarrow> u8 list \<Rightarrow> nat \<Rightarrow> nat \<Rightarrow> 'f qwen_state \<Rightarrow>
    'f qwen_state option" where
  "qwen_attention M c w data pos l s =
     (let d = q_dim c; hd = q_head_dim c; kv = qkv_dim c; gs = q_group_size c; n = q_seq_len c; all = all_heads_dim c;
          loff = l * n * kv; koff = loff + pos * kv
      in norm_into M (qs_x s) data (qw_rms_att w + 4 * (l * d)) d (qs_xb s) \<bind> (\<lambda>xb.
         quantize_into M gs xb d (qs_xq s) (qs_xq_s s) \<bind> (\<lambda>(xq, xs).
         layer_mul M gs xq xs data (qw_wq w) l d all (qs_q s) 0 \<bind> (\<lambda>q.
         layer_mul M gs xq xs data (qw_wk w) l d kv (qs_key_cache s) koff \<bind> (\<lambda>kc.
         layer_mul M gs xq xs data (qw_wv w) l d kv (qs_value_cache s) koff \<bind> (\<lambda>vc.
         foldM (\<lambda>h q. floats_at M data (qw_q_norm w + 4 * (l * hd)) hd \<bind>
           (\<lambda>wt. norm_rope M pos (rope_freq s) hd wt (h * hd) q)) [0..<q_n_heads c] q \<bind> (\<lambda>q.
         foldM (\<lambda>h kc. floats_at M data (qw_k_norm w + 4 * (l * hd)) hd \<bind>
           (\<lambda>wt. norm_rope M pos (rope_freq s) hd wt (koff + h * hd) kc)) [0..<q_n_kv_heads c] kc \<bind> (\<lambda>kc.
         foldM (head_step M hd kv (q_n_heads c div q_n_kv_heads c) n pos loff q kc vc) [0..<q_n_heads c] (qs_att s, xb) \<bind> (\<lambda>(att, xb).
         quantize_into M gs xb all xq xs \<bind> (\<lambda>(xq, xs).
         layer_mul M gs xq xs data (qw_wo w) l all d xb 0 \<bind> (\<lambda>xb.
         vec_add M (qs_x s) xb d \<bind> (\<lambda>x.
         Some (s\<lparr>qs_x := x, qs_xb := xb, qs_xq := xq, qs_xq_s := xs, qs_q := q, qs_att := att, qs_key_cache := kc,
           qs_value_cache := vc\<rparr>)))))))))))))"

definition qwen_feed_forward :: "'f fmath \<Rightarrow> qwen_config \<Rightarrow> qwen_weights \<Rightarrow> u8 list \<Rightarrow> nat \<Rightarrow> 'f qwen_state \<Rightarrow> 'f qwen_state option" where
  "qwen_feed_forward M c w data l s =
     (let d = q_dim c; hd = q_hidden_dim c; gs = q_group_size c
      in norm_into M (qs_x s) data (qw_rms_ffn w + 4 * (l * d)) d (qs_xb s) \<bind> (\<lambda>xb.
         quantize_into M gs xb d (qs_xq s) (qs_xq_s s) \<bind> (\<lambda>(xq, xs).
         layer_mul M gs xq xs data (qw_w1 w) l d hd (qs_hb s) 0 \<bind> (\<lambda>hb.
         layer_mul M gs xq xs data (qw_w3 w) l d hd (qs_hb2 s) 0 \<bind> (\<lambda>hb2.
         silu M hb hb2 hd \<bind> (\<lambda>hb.
         quantize_into M gs hb hd (qs_hq s) (qs_hq_s s) \<bind> (\<lambda>(hq, hs).
         layer_mul M gs hq hs data (qw_w2 w) l hd d xb 0 \<bind> (\<lambda>xb.
         vec_add M (qs_x s) xb d \<bind> (\<lambda>x.
         Some (s\<lparr>qs_x := x, qs_xb := xb, qs_hb := hb, qs_hb2 := hb2, qs_xq := xq, qs_xq_s := xs, qs_hq := hq,
           qs_hq_s := hs\<rparr>))))))))))"

definition qwen_forward :: "'f fmath \<Rightarrow> qwen_config \<Rightarrow> qwen_weights \<Rightarrow> u8 list \<Rightarrow> int \<Rightarrow> nat \<Rightarrow> 'f qwen_state \<Rightarrow> 'f qwen_state option" where
  "qwen_forward M c w data token pos s =
     (let d = q_dim c; gs = q_group_size c
      in (if token < 0 then None else dequantize_row M gs data (q_tokens w) (nat token * d) d) \<bind> blit (qs_x s) 0 \<bind> (\<lambda>x.
         foldM (\<lambda>l s. qwen_attention M c w data pos l s \<bind> qwen_feed_forward M c w data l) [0..<q_n_layers c] (s\<lparr>qs_x := x\<rparr>) \<bind> (\<lambda>s.
         norm_into M (qs_x s) data (qw_rms_final w) d (qs_x s) \<bind> (\<lambda>x.
         quantize_into M gs x d (qs_xq s) (qs_xq_s s) \<bind> (\<lambda>(xq, xs).
         qmatmul M gs xq xs data (qw_cls w) d (q_vocab_size c) \<bind> blit (qs_logits s) 0 \<bind> (\<lambda>logits.
         Some (s\<lparr>qs_x := x, qs_xq := xq, qs_xq_s := xs, qs_logits := logits\<rparr>)))))))"

section \<open>Every step stays in its arrays\<close>

lemma norm_into_total:
  assumes "n \<le> length x" "off + 4 * n \<le> length data" "n \<le> length buf"
  shows "\<exists>b. norm_into M x data off n buf = Some b \<and> length b = length buf"
proof -
  from floats_at_total [OF assms(2), of M] obtain wt where w: "floats_at M data off n = Some wt" "length wt = n" by blast
  from rmsnorm_total [OF assms(1), of wt M "qwen_eps M"] w(2) obtain y where
    y: "rmsnorm M (qwen_eps M) x wt n = Some y" "length y = n" by auto
  have "0 + length y \<le> length buf" using y(2) assms(3) by simp
  from blit_total [OF this] show ?thesis by (simp add: norm_into_def w(1) y(1))
qed

lemma quantize_into_total:
  assumes "n \<le> length x" "n \<le> length q" "n div gs \<le> length s"
  shows "\<exists>q' s'. quantize_into M gs x n q s = Some (q', s') \<and> length q' = length q \<and> length s' = length s"
proof -
  from quantize_total [OF assms(1), of M gs] obtain a b where
    a: "quantize M gs x n = Some (a, b)" "length a = n div gs * gs" "length b = n div gs" by blast
  have "n div gs * gs \<le> n" by simp
  then have "0 + length a \<le> length q" using a(2) assms(2) by linarith
  moreover have "0 + length b \<le> length s" using a(3) assms(3) by simp
  ultimately have "0 + length a \<le> length q" "0 + length b \<le> length s" .
  from blit_total [OF this(1)] blit_total [OF this(2)] obtain q' s' where
    "blit q 0 a = Some q'" "length q' = length q" "blit s 0 b = Some s'" "length s' = length s" by blast
  then show ?thesis by (simp add: quantize_into_def a(1))
qed

lemma layer_mul_total:
  assumes "0 < gs" "4 dvd gs" "n \<le> length xq" "n div gs \<le> length xs" "l < length ts"
    "list_all (\<lambda>t. tensor_in gs (d * n) t (length data)) ts"
  shows "\<exists>y. length y = d \<and> layer_mul M gs xq xs data ts l n d buf off = blit buf off y"
proof -
  have "tensor_in gs (d * n) (ts ! l) (length data)" using assms(5,6) by (simp add: list_all_length)
  from qmatmul_total [OF assms(1-4) this, of M] obtain y where
    "qmatmul M gs xq xs data (ts ! l) n d = Some y" "length y = d" by blast
  then show ?thesis using assms(5) by (auto simp: layer_mul_def layer_def)
qed

lemma layer_mul_into:
  assumes "0 < gs" "4 dvd gs" "n \<le> length xq" "n div gs \<le> length xs" "l < length ts"
    "list_all (\<lambda>t. tensor_in gs (d * n) t (length data)) ts" "d \<le> length buf"
  shows "\<exists>b. layer_mul M gs xq xs data ts l n d buf 0 = Some b \<and> length b = length buf"
proof -
  from layer_mul_total [OF assms(1-6), of M buf 0] obtain y where
    y: "length y = d" "layer_mul M gs xq xs data ts l n d buf 0 = blit buf 0 y" by blast
  have "0 + length y \<le> length buf" using y(1) assms(7) by simp
  from blit_total [OF this] show ?thesis using y(2) by simp
qed

text \<open>What a head's normalisation leaves alone.\<close>

definition outside_same :: "nat \<Rightarrow> nat \<Rightarrow> 'f list \<Rightarrow> 'f list \<Rightarrow> bool" where
  "outside_same off n v v' \<longleftrightarrow> length v' = length v \<and> (\<forall>k < length v. k < off \<or> off + n \<le> k \<longrightarrow> v' ! k = v ! k)"

lemma outside_refl: "outside_same off n v v"
  by (simp add: outside_same_def)

lemma outside_trans: "outside_same off n a b \<Longrightarrow> outside_same off n b c \<Longrightarrow> outside_same off n a c"
  by (simp add: outside_same_def)

lemma outside_wider: "outside_same off' n' a b \<Longrightarrow> off \<le> off' \<Longrightarrow> off' + n' \<le> off + n \<Longrightarrow> outside_same off n a b"
  by (auto simp: outside_same_def)

lemma outside_row:
  assumes "outside_same (l * n * k + pos * k) k kc kc'" "pos < n"
  shows "other_rows k n pos kc kc'"
proof -
  let ?o = "l * n * k + pos * k"
  have "j < ?o \<or> ?o + k \<le> j" if j: "j div k mod n \<noteq> pos" for j
  proof (rule ccontr)
    assume "\<not> (j < ?o \<or> ?o + k \<le> j)"
    then have "j = ?o + (j - ?o)" "j - ?o < k" by auto
    then show False using row_index [of "j - ?o" k pos n l] assms(2) j by metis
  qed
  then show ?thesis using assms(1) unfolding other_rows_def outside_same_def by blast
qed

lemma norm_rope_total:
  assumes "off + n \<le> length v" "n \<le> length wt" "n div 2 \<le> length freqs"
  shows "\<exists>v'. norm_rope M pos freqs n wt off v = Some v' \<and> outside_same off n v v'"
proof -
  let ?h = "n div 2"
  have hh: "?h + ?h \<le> n" by simp
  from slice_at_total [OF assms(1)] obtain x where x: "slice_at v off n = Some x" "length x = n" by blast
  from rmsnorm_total [OF eq_refl [OF x(2) [symmetric]] assms(2)] obtain y where
    y: "rmsnorm M (qwen_eps M) x wt n = Some y" "length y = n" by blast
  have "off + length y \<le> length v" using y(2) assms(1) by simp
  from blit_total [OF this] obtain v1 where v1: "blit v off y = Some v1" "length v1 = length v" by blast
  have o1: "outside_same off n v v1" using blit_nth [OF v1(1)] v1(2) y(2) by (auto simp: outside_same_def)
  have "\<exists>v'. foldM (half_rotate M pos freqs ?h off) [0..<?h] v1 = Some v' \<and> outside_same off n v v'"
  proof (rule foldM_invariant)
    fix ys j zs t assume "[0..<?h] = ys @ j # zs" and t: "outside_same off n v t"
    then have "j \<in> set [0..<?h]" by (metis in_set_conv_decomp)
    then have j: "j < ?h" by simp
    have lt: "length t = length v" using t by (simp add: outside_same_def)
    have "off + j + ?h < off + n" using j hh by linarith
    then have in2: "off + j < length t" "off + j + ?h < length t" using lt assms(1) by linarith+
    let ?v = "fmul M (fint M (int pos)) (freqs ! j)"
    from rotate_pair_total [OF in2, of M "f_cos M ?v" "f_sin M ?v"] obtain t' where
      t': "rotate_pair M (f_cos M ?v) (f_sin M ?v) (off + j) (off + j + ?h) t = Some t'" "length t' = length t"
      "\<forall>k. k \<noteq> off + j \<and> k \<noteq> off + j + ?h \<longrightarrow> t' ! k = t ! k" by blast
    have "k \<noteq> off + j \<and> k \<noteq> off + j + ?h" if "k < off \<or> off + n \<le> k" for k using that \<open>off + j + ?h < off + n\<close> by linarith
    then have "outside_same off n t t'" using t' by (simp add: outside_same_def)
    with outside_trans [OF t] have "outside_same off n v t'" by blast
    moreover have "half_rotate M pos freqs ?h off j t = Some t'"
      using j assms(3) t'(1) by (simp add: half_rotate_def Let_def)
    ultimately show "\<exists>t'. half_rotate M pos freqs ?h off j t = Some t' \<and> outside_same off n v t'" by blast
  qed (rule o1)
  then show ?thesis unfolding norm_rope_def Let_def x(1) bind.bind_lunit y(1) v1(1) .
qed

text \<open>All heads of a vector, one after the other from \<open>base\<close> on.\<close>

lemma norm_heads_total:
  assumes "base + nh * n \<le> length v" "woff + 4 * n \<le> length data" "n div 2 \<le> length freqs"
  shows "\<exists>v'. foldM (\<lambda>h v. floats_at M data woff n \<bind> (\<lambda>wt. norm_rope M pos freqs n wt (base + h * n) v)) [0..<nh] v = Some v' \<and>
    outside_same base (nh * n) v v'"
proof (rule foldM_invariant)
  fix ys h zs t assume "[0..<nh] = ys @ h # zs" and t: "outside_same base (nh * n) v t"
  then have "h \<in> set [0..<nh]" by (metis in_set_conv_decomp)
  then have "(h + 1) * n \<le> nh * n" by (intro mult_le_mono1) simp
  then have h: "base + h * n + n \<le> base + nh * n" by simp
  have lt: "length t = length v" using t by (simp add: outside_same_def)
  from floats_at_total [OF assms(2), of M] obtain wt where w: "floats_at M data woff n = Some wt" "length wt = n" by blast
  have "base + h * n + n \<le> length t" using h lt assms(1) by linarith
  from norm_rope_total [OF this eq_refl [OF w(2) [symmetric]] assms(3), of M pos] obtain t' where
    t': "norm_rope M pos freqs n wt (base + h * n) t = Some t'" "outside_same (base + h * n) n t t'" by blast
  have "outside_same base (nh * n) t t'" by (rule outside_wider [OF t'(2) _ h]) simp
  with outside_trans [OF t] t'(1) w(1)
  show "\<exists>t'. (floats_at M data woff n \<bind> (\<lambda>wt. norm_rope M pos freqs n wt (base + h * n) t)) = Some t' \<and> outside_same base (nh * n) v t'"
    by auto
qed (rule outside_refl)

section \<open>Safety of the forward pass\<close>

definition qwen_ok :: "qwen_config \<Rightarrow> bool" where
  "qwen_ok c \<longleftrightarrow> 0 < q_n_heads c \<and> 0 < q_n_kv_heads c \<and> q_n_kv_heads c dvd q_n_heads c \<and>
     0 < q_group_size c \<and> 4 dvd q_group_size c \<and> q_group_size c dvd q_dim c"

definition qwen_shape :: "qwen_config \<Rightarrow> 'f qwen_state \<Rightarrow> bool" where
  "qwen_shape c s \<longleftrightarrow> length (qs_x s) = q_dim c \<and> length (qs_xb s) = xb_dim c \<and>
     length (qs_hb s) = q_hidden_dim c \<and> length (qs_hb2 s) = q_hidden_dim c \<and>
     length (qs_xq s) = xb_dim c \<and> length (qs_xq_s s) = xb_dim c div q_group_size c \<and>
     length (qs_hq s) = q_hidden_dim c \<and> length (qs_hq_s s) = q_hidden_dim c div q_group_size c \<and>
     length (qs_q s) = all_heads_dim c \<and> length (qs_att s) = q_n_heads c * q_seq_len c \<and>
     length (qs_logits s) = q_vocab_size c \<and>
     length (qs_key_cache s) = q_n_layers c * q_seq_len c * qkv_dim c \<and>
     length (qs_value_cache s) = q_n_layers c * q_seq_len c * qkv_dim c \<and>
     length (rope_freq s) = q_head_dim c div 2"

text \<open>Every tensor and every vector of weights lies inside the file of \<open>N\<close> bytes.\<close>

definition tensors_in :: "nat \<Rightarrow> nat \<Rightarrow> nat \<Rightarrow> quantized_tensor list \<Rightarrow> nat \<Rightarrow> bool" where
  "tensors_in L gs m ts N \<longleftrightarrow> length ts = L \<and> list_all (\<lambda>t. tensor_in gs m t N) ts"

definition qwen_weights_ok :: "qwen_config \<Rightarrow> qwen_weights \<Rightarrow> nat \<Rightarrow> bool" where
  "qwen_weights_ok c w N \<longleftrightarrow>
     (let L = q_n_layers c; d = q_dim c; h = q_hidden_dim c; gs = q_group_size c; a = all_heads_dim c; kv = qkv_dim c
      in tensor_in gs (q_vocab_size c * d) (q_tokens w) N \<and> tensor_in gs (q_vocab_size c * d) (qw_cls w) N \<and>
         qw_rms_att w + 4 * (L * d) \<le> N \<and> qw_rms_ffn w + 4 * (L * d) \<le> N \<and> qw_rms_final w + 4 * d \<le> N \<and>
         qw_q_norm w + 4 * (L * q_head_dim c) \<le> N \<and> qw_k_norm w + 4 * (L * q_head_dim c) \<le> N \<and>
         tensors_in L gs (a * d) (qw_wq w) N \<and> tensors_in L gs (kv * d) (qw_wk w) N \<and> tensors_in L gs (kv * d) (qw_wv w) N \<and>
         tensors_in L gs (d * a) (qw_wo w) N \<and> tensors_in L gs (h * d) (qw_w1 w) N \<and> tensors_in L gs (d * h) (qw_w2 w) N \<and>
         tensors_in L gs (h * d) (qw_w3 w) N)"

lemma layer_vector: "l < L \<Longrightarrow> off + 4 * (L * m) \<le> N \<Longrightarrow> off + 4 * (l * m) + 4 * m \<le> (N :: nat)"
  using mult_le_mono1 [of "l + 1" L m] by simp

lemma qwen_dims: "q_dim c \<le> xb_dim c" "all_heads_dim c \<le> xb_dim c"
  by (simp_all add: xb_dim_def)

lemma qwen_attention_ok:
  fixes M :: "'f fmath"
  assumes c: "qwen_ok c" and w: "qwen_weights_ok c w (length data)" and l: "l < q_n_layers c" and p: "pos < q_seq_len c"
    and s: "qwen_shape c s"
  shows "\<exists>s'. qwen_attention M c w data pos l s = Some s' \<and> qwen_shape c s' \<and>
    other_rows (qkv_dim c) (q_seq_len c) pos (qs_key_cache s) (qs_key_cache s') \<and>
    other_rows (qkv_dim c) (q_seq_len c) pos (qs_value_cache s) (qs_value_cache s')"
proof -
  let ?d = "q_dim c" and ?kv = "qkv_dim c" and ?a = "all_heads_dim c" and ?gs = "q_group_size c" and ?n = "q_seq_len c"
    and ?hd = "q_head_dim c"
  let ?loff = "l * ?n * ?kv" and ?koff = "l * ?n * ?kv + pos * ?kv"
  have gs: "0 < ?gs" "4 dvd ?gs" using c by (simp_all add: qwen_ok_def)
  have W: "qw_rms_att w + 4 * (q_n_layers c * ?d) \<le> length data" "tensors_in (q_n_layers c) ?gs (?a * ?d) (qw_wq w) (length data)"
    "tensors_in (q_n_layers c) ?gs (?kv * ?d) (qw_wk w) (length data)" "tensors_in (q_n_layers c) ?gs (?kv * ?d) (qw_wv w) (length data)"
    "qw_q_norm w + 4 * (q_n_layers c * ?hd) \<le> length data" "qw_k_norm w + 4 * (q_n_layers c * ?hd) \<le> length data"
    "tensors_in (q_n_layers c) ?gs (?d * ?a) (qw_wo w) (length data)"
    using w by (simp_all add: qwen_weights_ok_def Let_def)
  have T: "l < length (qw_wq w)" "l < length (qw_wk w)" "l < length (qw_wv w)" "l < length (qw_wo w)"
    using W l by (simp_all add: tensors_in_def)
  have S: "length (qs_x s) = ?d" "length (qs_xb s) = xb_dim c" "length (qs_xq s) = xb_dim c" "length (qs_xq_s s) = xb_dim c div ?gs"
    "length (qs_q s) = ?a" "length (qs_att s) = q_n_heads c * ?n" "length (qs_key_cache s) = q_n_layers c * ?n * ?kv"
    "length (qs_value_cache s) = q_n_layers c * ?n * ?kv" "?hd div 2 \<le> length (rope_freq s)" using s by (simp_all add: qwen_shape_def)
  have dx: "?d \<le> length (qs_xb s)" "?d \<le> length (qs_xq s)" "?d div ?gs \<le> length (qs_xq_s s)"
    using qwen_dims [of c] S by (simp_all add: div_le_mono)
  from norm_into_total [OF eq_refl [OF S(1) [symmetric]] layer_vector [OF l W(1)] dx(1)] obtain xb where
    xb: "norm_into M (qs_x s) data (qw_rms_att w + 4 * (l * ?d)) ?d (qs_xb s) = Some xb" "length xb = xb_dim c" unfolding S(2) by blast
  have "?d \<le> length xb" using xb(2) qwen_dims by simp
  from quantize_into_total [OF this dx(2,3), of M] obtain xq xs where
    x: "quantize_into M ?gs xb ?d (qs_xq s) (qs_xq_s s) = Some (xq, xs)" "length xq = xb_dim c" "length xs = xb_dim c div ?gs"
    unfolding S(3,4) by blast
  have dq: "?d \<le> length xq" "?d div ?gs \<le> length xs" using x(2,3) qwen_dims [of c] by (simp_all add: div_le_mono)
  from layer_mul_into [OF gs dq T(1) W(2) [unfolded tensors_in_def, THEN conjunct2] eq_refl [OF S(5) [symmetric]], of M] obtain q where
    q: "layer_mul M ?gs xq xs data (qw_wq w) l ?d ?a (qs_q s) 0 = Some q" "length q = ?a" unfolding S(5) by blast
  from layer_mul_total [OF gs dq T(2) W(3) [unfolded tensors_in_def, THEN conjunct2], of M "qs_key_cache s" ?koff] obtain yk where
    yk: "length yk = ?kv" "layer_mul M ?gs xq xs data (qw_wk w) l ?d ?kv (qs_key_cache s) ?koff = blit (qs_key_cache s) ?koff yk" by blast
  from row_blit [OF l p S(7) yk(1)] obtain kc where kc: "blit (qs_key_cache s) ?koff yk = Some kc"
    "other_rows ?kv ?n pos (qs_key_cache s) kc" by blast
  note kc = kc yk(2) [unfolded kc(1)]
  from layer_mul_total [OF gs dq T(3) W(4) [unfolded tensors_in_def, THEN conjunct2], of M "qs_value_cache s" ?koff] obtain yv where
    yv: "length yv = ?kv" "layer_mul M ?gs xq xs data (qw_wv w) l ?d ?kv (qs_value_cache s) ?koff = blit (qs_value_cache s) ?koff yv" by blast
  from row_blit [OF l p S(8) yv(1)] obtain vc where vc: "blit (qs_value_cache s) ?koff yv = Some vc"
    "other_rows ?kv ?n pos (qs_value_cache s) vc" by blast
  note vc = vc yv(2) [unfolded vc(1)]
  have "0 + q_n_heads c * ?hd \<le> length q" using q(2) by (simp add: all_heads_dim_def)
  from norm_heads_total [OF this layer_vector [OF l W(5)] S(9), of M pos] obtain q1 where
    q1: "foldM (\<lambda>h q. floats_at M data (qw_q_norm w + 4 * (l * ?hd)) ?hd \<bind>
      (\<lambda>wt. norm_rope M pos (rope_freq s) ?hd wt (h * ?hd) q)) [0..<q_n_heads c] q = Some q1" "length q1 = ?a"
    using q(2) by (auto simp: outside_same_def)
  have kl: "length kc = q_n_layers c * ?n * ?kv" "length vc = q_n_layers c * ?n * ?kv"
    using kc(2) vc(2) S(7,8) by (simp_all add: other_rows_def)
  have kvd: "?kv = q_n_kv_heads c * ?hd" by (simp add: qkv_dim_def)
  have "?koff + q_n_kv_heads c * ?hd \<le> length kc" using row_fits [OF l p, of ?kv] kl(1) unfolding kvd [symmetric] by simp
  from norm_heads_total [OF this layer_vector [OF l W(6)] S(9), of M pos] obtain kc1 where
    kc1: "foldM (\<lambda>h kc. floats_at M data (qw_k_norm w + 4 * (l * ?hd)) ?hd \<bind>
      (\<lambda>wt. norm_rope M pos (rope_freq s) ?hd wt (?koff + h * ?hd) kc)) [0..<q_n_kv_heads c] kc = Some kc1"
    "outside_same ?koff ?kv kc kc1" unfolding kvd [symmetric] by blast
  have k1: "other_rows ?kv ?n pos kc kc1" by (rule outside_row [OF kc1(2) p])
  have kl1: "length kc1 = q_n_layers c * ?n * ?kv" using k1 kl(1) by (simp add: other_rows_def)
  have g: "q_n_heads c = q_n_heads c div q_n_kv_heads c * q_n_kv_heads c" "0 < q_n_heads c div q_n_kv_heads c"
    using c by (auto simp: qwen_ok_def dvd_imp_le div_greater_zero_iff)
  have hl: "q_n_heads c * ?hd \<le> length q1" "q_n_heads c * ?hd \<le> length xb"
    using q1(2) xb(2) qwen_dims(2) [of c] by (simp_all add: all_heads_dim_def)
  from heads_ok [OF l p g(2,1) kvd kl1 kl(2) S(6) hl, of M] obtain att xb1 where
    h: "foldM (head_step M ?hd ?kv (q_n_heads c div q_n_kv_heads c) ?n pos ?loff q1 kc1 vc) [0..<q_n_heads c] (qs_att s, xb) = Some (att, xb1)"
      "length att = length (qs_att s)" "length xb1 = xb_dim c" using xb(2) by auto
  have al: "?a \<le> length xb1" "?a \<le> length xq" "?a div ?gs \<le> length xs" using h(3) x(2,3) qwen_dims [of c] by (simp_all add: div_le_mono)
  from quantize_into_total [OF al, of M] obtain xq1 xs1 where
    x1: "quantize_into M ?gs xb1 ?a xq xs = Some (xq1, xs1)" "length xq1 = xb_dim c" "length xs1 = xb_dim c div ?gs" unfolding x(2,3) by blast
  have al1: "?a \<le> length xq1" "?a div ?gs \<le> length xs1" using x1(2,3) qwen_dims [of c] by (simp_all add: div_le_mono)
  have "?d \<le> length xb1" using h(3) qwen_dims by simp
  from layer_mul_into [OF gs al1 T(4) W(7) [unfolded tensors_in_def, THEN conjunct2] this, of M] obtain xb2 where
    xb2: "layer_mul M ?gs xq1 xs1 data (qw_wo w) l ?a ?d xb1 0 = Some xb2" "length xb2 = xb_dim c" unfolding h(3) by blast
  have "?d \<le> length xb2" using xb2(2) qwen_dims by simp
  from vec_add_total [OF S(1) [symmetric] this, of M] obtain y where
    y: "vec_add M (qs_x s) xb2 ?d = Some y" "length y = ?d" using S(1) by auto
  let ?s = "s\<lparr>qs_x := y, qs_xb := xb2, qs_xq := xq1, qs_xq_s := xs1, qs_q := q1, qs_att := att, qs_key_cache := kc1, qs_value_cache := vc\<rparr>"
  have "qwen_attention M c w data pos l s = Some ?s"
    unfolding qwen_attention_def Let_def xb(1) x(1) q(1) kc(3) vc(3) q1(1) kc1(1) h(1) x1(1) xb2(1) y(1) bind.bind_lunit prod.case ..
  moreover have "qwen_shape c ?s" using s y(2) xb2(2) x1 q1(2) h(2) kl1 kl(2) S(6) by (simp add: qwen_shape_def)
  ultimately show ?thesis using other_rows_trans [OF kc(2) k1] vc(2) by simp
qed

lemma qwen_feed_forward_ok:
  fixes M :: "'f fmath"
  assumes c: "qwen_ok c" and w: "qwen_weights_ok c w (length data)" and l: "l < q_n_layers c" and s: "qwen_shape c s"
  shows "\<exists>s'. qwen_feed_forward M c w data l s = Some s' \<and> qwen_shape c s' \<and>
    qs_key_cache s' = qs_key_cache s \<and> qs_value_cache s' = qs_value_cache s"
proof -
  let ?d = "q_dim c" and ?hd = "q_hidden_dim c" and ?gs = "q_group_size c"
  have gs: "0 < ?gs" "4 dvd ?gs" using c by (simp_all add: qwen_ok_def)
  have W: "qw_rms_ffn w + 4 * (q_n_layers c * ?d) \<le> length data" "tensors_in (q_n_layers c) ?gs (?hd * ?d) (qw_w1 w) (length data)"
    "tensors_in (q_n_layers c) ?gs (?hd * ?d) (qw_w3 w) (length data)" "tensors_in (q_n_layers c) ?gs (?d * ?hd) (qw_w2 w) (length data)"
    using w by (simp_all add: qwen_weights_ok_def Let_def)
  have T: "l < length (qw_w1 w)" "l < length (qw_w3 w)" "l < length (qw_w2 w)" using W l by (simp_all add: tensors_in_def)
  have S: "length (qs_x s) = ?d" "length (qs_xb s) = xb_dim c" "length (qs_xq s) = xb_dim c" "length (qs_xq_s s) = xb_dim c div ?gs"
    "length (qs_hb s) = ?hd" "length (qs_hb2 s) = ?hd" "length (qs_hq s) = ?hd" "length (qs_hq_s s) = ?hd div ?gs"
    using s by (simp_all add: qwen_shape_def)
  have dx: "?d \<le> length (qs_xb s)" "?d \<le> length (qs_xq s)" "?d div ?gs \<le> length (qs_xq_s s)"
    using qwen_dims [of c] S by (simp_all add: div_le_mono)
  from norm_into_total [OF eq_refl [OF S(1) [symmetric]] layer_vector [OF l W(1)] dx(1)] obtain xb where
    xb: "norm_into M (qs_x s) data (qw_rms_ffn w + 4 * (l * ?d)) ?d (qs_xb s) = Some xb" "length xb = xb_dim c" unfolding S(2) by blast
  have "?d \<le> length xb" using xb(2) qwen_dims by simp
  from quantize_into_total [OF this dx(2,3), of M] obtain xq xs where
    x: "quantize_into M ?gs xb ?d (qs_xq s) (qs_xq_s s) = Some (xq, xs)" "length xq = xb_dim c" "length xs = xb_dim c div ?gs"
    unfolding S(3,4) by blast
  have dq: "?d \<le> length xq" "?d div ?gs \<le> length xs" using x(2,3) qwen_dims [of c] by (simp_all add: div_le_mono)
  from layer_mul_into [OF gs dq T(1) W(2) [unfolded tensors_in_def, THEN conjunct2] eq_refl [OF S(5) [symmetric]], of M] obtain hb where
    hb: "layer_mul M ?gs xq xs data (qw_w1 w) l ?d ?hd (qs_hb s) 0 = Some hb" "length hb = ?hd" unfolding S(5) by blast
  from layer_mul_into [OF gs dq T(2) W(3) [unfolded tensors_in_def, THEN conjunct2] eq_refl [OF S(6) [symmetric]], of M] obtain hb2 where
    hb2: "layer_mul M ?gs xq xs data (qw_w3 w) l ?d ?hd (qs_hb2 s) 0 = Some hb2" "length hb2 = ?hd" unfolding S(6) by blast
  from silu_total [OF hb(2) [symmetric] eq_refl [OF hb2(2) [symmetric]], of M] obtain g where
    g: "silu M hb hb2 ?hd = Some g" "length g = ?hd" using hb(2) by auto
  from quantize_into_total [OF eq_refl [OF g(2) [symmetric]] eq_refl [OF S(7) [symmetric]] eq_refl [OF S(8) [symmetric]], of M] obtain hq hs where
    h: "quantize_into M ?gs g ?hd (qs_hq s) (qs_hq_s s) = Some (hq, hs)" "length hq = ?hd" "length hs = ?hd div ?gs" unfolding S(7,8) by blast
  have "?d \<le> length xb" using xb(2) qwen_dims by simp
  from layer_mul_into [OF gs eq_refl [OF h(2) [symmetric]] eq_refl [OF h(3) [symmetric]] T(3) W(4) [unfolded tensors_in_def, THEN conjunct2] this, of M]
  obtain xb2 where xb2: "layer_mul M ?gs hq hs data (qw_w2 w) l ?hd ?d xb 0 = Some xb2" "length xb2 = xb_dim c" unfolding xb(2) by blast
  have "?d \<le> length xb2" using xb2(2) qwen_dims by simp
  from vec_add_total [OF S(1) [symmetric] this, of M] obtain y where
    y: "vec_add M (qs_x s) xb2 ?d = Some y" "length y = ?d" using S(1) by auto
  have "qwen_feed_forward M c w data l s = Some (s\<lparr>qs_x := y, qs_xb := xb2, qs_hb := g, qs_hb2 := hb2, qs_xq := xq, qs_xq_s := xs,
      qs_hq := hq, qs_hq_s := hs\<rparr>)"
    unfolding qwen_feed_forward_def Let_def xb(1) x(1) hb(1) hb2(1) g(1) h(1) xb2(1) y(1) bind.bind_lunit prod.case ..
  then show ?thesis using s y(2) xb2(2) x(2,3) g(2) hb2(2) h(2,3) by (simp add: qwen_shape_def)
qed

lemma qwen_forward_lemma:
  fixes M :: "'f fmath"
  assumes c: "qwen_ok c" and w: "qwen_weights_ok c w (length data)" and p: "pos < q_seq_len c" and s: "qwen_shape c s"
    and tk: "0 \<le> token" "token < int (q_vocab_size c)"
  shows "\<exists>s'. qwen_forward M c w data token pos s = Some s' \<and> qwen_shape c s' \<and>
    other_rows (qkv_dim c) (q_seq_len c) pos (qs_key_cache s) (qs_key_cache s') \<and>
    other_rows (qkv_dim c) (q_seq_len c) pos (qs_value_cache s) (qs_value_cache s')"
proof -
  let ?d = "q_dim c" and ?gs = "q_group_size c"
  let ?R = "other_rows (qkv_dim c) (q_seq_len c) pos"
  let ?body = "\<lambda>l s. qwen_attention M c w data pos l s \<bind> qwen_feed_forward M c w data l"
  have gs: "0 < ?gs" "4 dvd ?gs" "?gs dvd q_vocab_size c * ?d" using c by (simp_all add: qwen_ok_def)
  have W: "tensor_in ?gs (q_vocab_size c * ?d) (q_tokens w) (length data)" "tensor_in ?gs (q_vocab_size c * ?d) (qw_cls w) (length data)"
    "qw_rms_final w + 4 * ?d \<le> length data" using w by (simp_all add: qwen_weights_ok_def Let_def)
  have "(nat token + 1) * ?d \<le> q_vocab_size c * ?d" using tk by (intro mult_le_mono1) linarith
  then have "nat token * ?d + ?d \<le> q_vocab_size c * ?d" by simp
  from dequantize_row_total [OF W(1) gs(1,3) this, of M] obtain e where
    e: "dequantize_row M ?gs data (q_tokens w) (nat token * ?d) ?d = Some e" "length e = ?d" by blast
  have b: "blit (qs_x s) 0 e = Some e" by (rule blit_whole) (use s e(2) in \<open>simp add: qwen_shape_def\<close>)
  let ?P = "\<lambda>(_ :: nat list) (s' :: 'f qwen_state). qwen_shape c s' \<and> ?R (qs_key_cache s) (qs_key_cache s') \<and>
    ?R (qs_value_cache s) (qs_value_cache s')"
  have "\<exists>s'. foldM ?body [0..<q_n_layers c] (s\<lparr>qs_x := e\<rparr>) = Some s' \<and> ?P [0..<q_n_layers c] s'"
  proof (rule foldM_invariant)
    show "?P [] (s\<lparr>qs_x := e\<rparr>)" using s e(2) by (simp add: qwen_shape_def other_rows_refl)
    fix ys l zs t assume "[0..<q_n_layers c] = ys @ l # zs" and t: "?P ys t"
    then have "l \<in> set [0..<q_n_layers c]" by (metis in_set_conv_decomp)
    then have l: "l < q_n_layers c" by simp
    from t have t1: "qwen_shape c t" "?R (qs_key_cache s) (qs_key_cache t)" "?R (qs_value_cache s) (qs_value_cache t)" by simp_all
    from qwen_attention_ok [OF c w l p t1(1), of M] obtain t2 where t2: "qwen_attention M c w data pos l t = Some t2" "qwen_shape c t2"
      "?R (qs_key_cache t) (qs_key_cache t2)" "?R (qs_value_cache t) (qs_value_cache t2)" by blast
    from qwen_feed_forward_ok [OF c w l t2(2), of M] obtain t3 where t3: "qwen_feed_forward M c w data l t2 = Some t3" "qwen_shape c t3"
      "qs_key_cache t3 = qs_key_cache t2" "qs_value_cache t3 = qs_value_cache t2" by blast
    show "\<exists>t'. ?body l t = Some t' \<and> ?P (ys @ [l]) t'"
      using t2 t3 other_rows_trans [OF t1(2) t2(3)] other_rows_trans [OF t1(3) t2(4)] by simp
  qed
  then obtain s1 where s1: "foldM ?body [0..<q_n_layers c] (s\<lparr>qs_x := e\<rparr>) = Some s1" "qwen_shape c s1"
    "?R (qs_key_cache s) (qs_key_cache s1)" "?R (qs_value_cache s) (qs_value_cache s1)" by blast
  have S1: "length (qs_x s1) = ?d" "length (qs_logits s1) = q_vocab_size c" "length (qs_xq s1) = xb_dim c"
    "length (qs_xq_s s1) = xb_dim c div ?gs" using s1(2) by (simp_all add: qwen_shape_def)
  from norm_into_total [OF eq_refl [OF S1(1) [symmetric]] W(3) eq_refl [OF S1(1) [symmetric]], of M] obtain x where
    x: "norm_into M (qs_x s1) data (qw_rms_final w) ?d (qs_x s1) = Some x" "length x = ?d" unfolding S1(1) by blast
  have "?d \<le> length (qs_xq s1)" "?d div ?gs \<le> length (qs_xq_s s1)" using qwen_dims [of c] S1 by (simp_all add: div_le_mono)
  from quantize_into_total [OF eq_refl [OF x(2) [symmetric]] this, of M] obtain xq xs where
    q: "quantize_into M ?gs x ?d (qs_xq s1) (qs_xq_s s1) = Some (xq, xs)" "length xq = xb_dim c" "length xs = xb_dim c div ?gs"
    unfolding S1(3,4) by blast
  have "?d \<le> length xq" "?d div ?gs \<le> length xs" using q(2,3) qwen_dims [of c] by (simp_all add: div_le_mono)
  from qmatmul_total [OF gs(1,2) this W(2), of M] obtain lg where
    lg: "qmatmul M ?gs xq xs data (qw_cls w) ?d (q_vocab_size c) = Some lg" "length lg = q_vocab_size c" by blast
  have "blit (qs_logits s1) 0 lg = Some lg" by (rule blit_whole) (simp add: lg(2) S1(2))
  note lg = lg this
  have nn: "\<not> token < 0" using tk by simp
  have "qwen_forward M c w data token pos s = Some (s1\<lparr>qs_x := x, qs_xq := xq, qs_xq_s := xs, qs_logits := lg\<rparr>)"
    unfolding qwen_forward_def Let_def if_not_P [OF nn] e(1) b s1(1) x(1) q(1) lg(1,3) bind.bind_lunit prod.case ..
  then show ?thesis using s1 x(2) q(2,3) lg(2) by (simp add: qwen_shape_def)
qed

end
