(* ===== verification/LlamaRun.thy ===== *)
theory LlamaRun
  imports Llama Initrd
begin

text \<open>
  Loading a llama model and generating with it (\<open>llm.c\<close>): the two slots of the registry, the prompt and
  the loop over positions. The result of a run has the pieces of text that were handed to the callback.
  A file whose sizes are not positive, or whose vocabulary size has no negation, is outside the model (a
  fault), as is a read outside a module. The log line and the calls of \<open>sched\_yield\<close> are left out.
\<close>

section \<open>Registry\<close>

record 'f model_slot =
  slot_name :: "u8 list"
  slot_config :: config
  slot_weights :: weights
  slot_data :: "'f list"
  slot_state :: "'f run_state"
  slot_tok :: "'f tokenizer"
  slot_describe :: "u8 list"

abbreviation chars :: "string \<Rightarrow> u8 list" where
  "chars s \<equiv> map of_char s"

definition tokenizer_for :: "u8 list \<Rightarrow> u8 list" where
  "tokenizer_for model = (if model = chars ''stories260K'' then chars ''tok512.bin'' else chars ''tokenizer.bin'')"

text \<open>The header of the file: seven ints; the sign of the vocabulary size says whether the classifier is shared.\<close>

definition header_int :: "u8 list \<Rightarrow> nat \<Rightarrow> int" where
  "header_int bs i = sint (read_u32_le (drop (4 * i) bs))"

definition read_config :: "u8 list \<Rightarrow> (config \<times> bool) option" where
  "read_config bs =
     (if length bs < 28 then None
      else
        let v = header_int bs; n = \<lambda>i. nat (v i)
        in if (\<exists>i\<in>{0, 1, 2, 3, 4, 6}. v i \<le> 0) \<or> v 5 = - (2 ^ 31) then None
           else Some (\<lparr>c_dim = n 0, c_hidden_dim = n 1, c_n_layers = n 2, c_n_heads = n 3, c_n_kv_heads = n 4,
             c_vocab_size = nat \<bar>v 5\<bar>, c_seq_len = n 6\<rparr>, v 5 > 0))"

fun read_floats :: "(u32 \<Rightarrow> 'f) \<Rightarrow> u8 list \<Rightarrow> 'f list" where
  "read_floats bits (a # b # c # d # bs) = bits (read_u32_le [a, b, c, d]) # read_floats bits bs"
| "read_floats bits bs = []"

definition describe_format :: "u8 list" where
  "describe_format = chars ''dim=%d hidden=%d layers=%d heads=%d kv_heads=%d vocab=%d ctx=%d''"

definition describe_config :: "config \<Rightarrow> u8 list option" where
  "describe_config c =
     map_option (\<lambda>(n, buf). c_string buf) (vsnprintf (replicate 128 0) 128 describe_format
       (map (\<lambda>n. Num (of_nat n)) [c_dim c, c_hidden_dim c, c_n_layers c, c_n_heads c, c_n_kv_heads c, c_vocab_size c, c_seq_len c]))"

definition find_slot :: "u8 list \<Rightarrow> 'f model_slot option list \<Rightarrow> nat option" where
  "find_slot model slots = find (\<lambda>i. case slots ! i of Some s \<Rightarrow> slot_name s = model | None \<Rightarrow> False) [0..<length slots]"

definition free_slot :: "'f model_slot option list \<Rightarrow> nat option" where
  "free_slot slots = find (\<lambda>i. slots ! i = None) [0..<length slots]"

text \<open>The index of the model's slot, or an inner \<open>None\<close> for NULL.\<close>

definition load_model :: "'h heap_ops \<Rightarrow> 'f fmath \<Rightarrow> modul list option \<Rightarrow> u8 list \<Rightarrow> 'f model_slot option list \<Rightarrow> 'h \<Rightarrow>
    (nat option \<times> 'f model_slot option list \<times> 'h) option" where
  "load_model ops M mods model slots h =
     (case find_slot model slots of
        Some i \<Rightarrow> Some (Some i, slots, h)
      | None \<Rightarrow>
     (case free_slot slots of
        None \<Rightarrow> Some (None, slots, h)
      | Some i \<Rightarrow>
     (case module_find mods (take 63 (model @ chars ''.bin'')) of
        None \<Rightarrow> Some (None, slots, h)
      | Some md \<Rightarrow>
     (case module_find mods (tokenizer_for model) of
        None \<Rightarrow> Some (None, slots, h)
      | Some tk \<Rightarrow>
          read_config (mod_bytes md) \<bind> (\<lambda>(c, shared).
          alloc_run_state ops M c h \<bind> (\<lambda>(st, h). case st of
            None \<Rightarrow> Some (None, slots, h)
          | Some st \<Rightarrow>
              build_tokenizer ops (f_bits M) (mod_bytes tk) (int (c_vocab_size c)) h \<bind> (\<lambda>(t, h). case t of
                None \<Rightarrow> Some (None, slots, h)
              | Some t \<Rightarrow>
                  describe_config c \<bind> (\<lambda>d.
                  Some (Some i, slots[i := Some \<lparr>slot_name = take 31 model, slot_config = c,
                    slot_weights = memory_map_weights c shared, slot_data = read_floats (f_bits M) (drop 28 (mod_bytes md)),
                    slot_state = st, slot_tok = t, slot_describe = d\<rparr>], h)))))))))"

section \<open>Generation\<close>

text \<open>
  One run of the loop body from a position on: the number of sampled tokens, the sampler, the buffers and
  the text so far go along. The token before the first sampled one comes from the prompt.
\<close>

function gen_loop :: "'f fmath \<Rightarrow> 'f model_slot \<Rightarrow> int list \<Rightarrow> nat \<Rightarrow> bool \<Rightarrow> nat \<Rightarrow> int \<Rightarrow> nat \<Rightarrow> 'f sampler \<Rightarrow> 'f run_state \<Rightarrow>
    u8 list list \<Rightarrow> (nat \<times> 'f run_state \<times> u8 list list) option" where
  "gen_loop M sl toks steps echo pos token generated smp st out =
     (if pos \<ge> steps then Some (generated, st, out)
      else
        forward M (slot_config sl) (slot_weights sl) (slot_data sl) token pos st \<bind> (\<lambda>st.
        (if pos < length toks - 1 then Some (toks ! (pos + 1), generated, smp, st, False)
         else llm_sample (fl M) smp (rs_logits st) \<bind> (\<lambda>(i, smp, lg).
           Some (i, generated + 1, smp, st\<lparr>rs_logits := lg\<rparr>, True))) \<bind> (\<lambda>(nxt, generated, smp, st, sampled).
        if nxt = 1 \<or> nxt = 2 then Some (generated, st, out)
        else
          (if sampled \<or> echo then
             decode (slot_tok sl) token nxt \<bind> (\<lambda>p.
             Some (if p = [] then out else case emit_sanitized p of None \<Rightarrow> out | Some o1 \<Rightarrow> out @ [o1]))
           else Some out) \<bind> (\<lambda>out.
          gen_loop M sl toks steps echo (pos + 1) nxt generated smp st out))))"
  by pat_completeness auto
termination
  by (relation "measure (\<lambda>(M, sl, toks, steps, echo, pos, r). steps - pos)") auto

declare gen_loop.simps [simp del]

definition LLM_ERR_NO_MODEL :: int where "LLM_ERR_NO_MODEL = - 1"
definition LLM_ERR_OOM :: int where "LLM_ERR_OOM = - 3"
definition LLM_ERR_BUSY :: int where "LLM_ERR_BUSY = - 4"

definition make_sampler :: "'f fmath \<Rightarrow> int \<Rightarrow> int \<Rightarrow> u64 \<Rightarrow> 'f sampler" where
  "make_sampler M temp_centi topp_centi seed =
     \<lparr>temperature = fdiv M (fint M temp_centi) (fint M 100), topp = fdiv M (fint M topp_centi) (fint M 100),
      rng_state = (if seed \<noteq> 0 then seed else 42)\<rparr>"

text \<open>The run on a loaded model: return value, the slot afterwards, the emitted pieces.\<close>

definition llama_run :: "'h heap_ops \<Rightarrow> 'f fmath \<Rightarrow> 'f model_slot \<Rightarrow> u8 list \<Rightarrow> int \<Rightarrow> int \<Rightarrow> int \<Rightarrow> u64 \<Rightarrow> bool \<Rightarrow> 'h \<Rightarrow>
    (int \<times> 'f model_slot \<times> u8 list list \<times> 'h) option" where
  "llama_run ops M sl prompt max_tokens temp_centi topp_centi seed echo h =
     (let c = slot_config sl
      in heap_malloc ops (of_nat (c_vocab_size c) * 8) h \<bind> (\<lambda>(pi, h).
         if pi = 0 then Some (LLM_ERR_OOM, sl, [], h)
         else
           let steps = (if max_tokens > 0 \<and> max_tokens < int (c_seq_len c) then nat max_tokens else c_seq_len c)
           in heap_malloc ops ((of_nat (length prompt) + 3) * 4) h \<bind> (\<lambda>(pt, h).
              if pt = 0 then heap_free ops pi h \<bind> (\<lambda>h. Some (LLM_ERR_OOM, sl, [], h))
              else
                encode ops (fl M) (slot_tok sl) prompt True False (length prompt + 3) h \<bind> (\<lambda>(toks, h).
                let toks = (if toks = [] then [1] else toks)
                in gen_loop M sl toks steps echo 0 (hd toks) 0 (make_sampler M temp_centi topp_centi seed) (slot_state sl) [] \<bind>
                   (\<lambda>(generated, st, out).
                   heap_free ops pt h \<bind> (\<lambda>h. heap_free ops pi h \<bind> (\<lambda>h.
                   Some (int generated, sl\<lparr>slot_state := st\<rparr>, out, h))))))))"

definition llama_generate :: "'h heap_ops \<Rightarrow> 'f fmath \<Rightarrow> modul list option \<Rightarrow> u8 list \<Rightarrow> u8 list \<Rightarrow> int \<Rightarrow> int \<Rightarrow> int \<Rightarrow> u64 \<Rightarrow>
    bool \<Rightarrow> 'f model_slot option list \<Rightarrow> 'h \<Rightarrow> (int \<times> u8 list list \<times> 'f model_slot option list \<times> 'h) option" where
  "llama_generate ops M mods model prompt max_tokens temp_centi topp_centi seed echo slots h =
     load_model ops M mods model slots h \<bind> (\<lambda>(i, slots, h). case i of
       None \<Rightarrow> Some (LLM_ERR_NO_MODEL, [], slots, h)
     | Some i \<Rightarrow>
         (case slots ! i of None \<Rightarrow> None | Some sl \<Rightarrow>
           llama_run ops M sl prompt max_tokens temp_centi topp_centi seed echo h \<bind> (\<lambda>(n, sl, out, h).
           Some (n, out, slots[i := Some sl], h))))"

section \<open>A run is safe\<close>

text \<open>Text that \<open>decode\<close> reads without leaving it: no cut-off \<open><0x\<close> and no byte value above 255.\<close>

definition text_piece :: "u8 list \<Rightarrow> bool" where
  "text_piece p \<longleftrightarrow> (byte_at p 0 = 60 \<and> byte_at p 1 = 48 \<and> byte_at p 2 = 120 \<longrightarrow>
     5 \<le> length p \<and> (byte_at p 5 = 62 \<longrightarrow> byte_piece (hex_digit (byte_at p 3) * 16 + hex_digit (byte_at p 4)) \<noteq> None))"

definition vocab_text :: "('f, 'z) tokenizer_scheme \<Rightarrow> bool" where
  "vocab_text t \<longleftrightarrow> (\<forall>s\<in>set (vocab t). text_piece s \<and> (byte_at s 0 = 32 \<longrightarrow> text_piece (tl s)))"

lemma decode_total:
  assumes "vocab_text t" "piece t token \<noteq> None"
  shows "\<exists>p. decode t prev token = Some p"
proof -
  from assms(2) obtain s where s: "piece t token = Some s" by auto
  then have "s \<in> set (vocab t)" using piece_vocab by blast
  then have "text_piece s \<and> (byte_at s 0 = 32 \<longrightarrow> text_piece (tl s))" using assms(1) by (simp add: vocab_text_def)
  then have "text_piece (if prev = 1 \<and> byte_at s 0 = 32 then tl s else s)" by simp
  then show ?thesis unfolding decode_def s bind.bind_lunit Let_def text_piece_def
    by (simp only: split: if_split) auto
qed

definition slot_ok :: "'f model_slot \<Rightarrow> bool" where
  "slot_ok sl \<longleftrightarrow> config_ok (slot_config sl) \<and> weights_ok (slot_config sl) (slot_weights sl) (length (slot_data sl)) \<and>
     shape (slot_config sl) (slot_state sl) \<and> tok_ok (slot_tok sl) \<and> 1 \<le> unat (max_token_length (slot_tok sl)) \<and>
     259 \<le> length (vocab (slot_tok sl)) \<and> length (vocab (slot_tok sl)) = c_vocab_size (slot_config sl) \<and> vocab_text (slot_tok sl)"

definition simple_sampling :: "'f floats \<Rightarrow> 'f sampler \<Rightarrow> bool" where
  "simple_sampling F s \<longleftrightarrow> f_eq F (temperature s) (f_of_int F 0) \<or> f_leq F (topp s) (f_of_int F 0) \<or> f_leq F (f_of_int F 1) (topp s)"

definition plain_piece :: "u8 list \<Rightarrow> bool" where
  "plain_piece p \<longleftrightarrow> p \<noteq> [] \<and> length p \<le> 78 \<and> list_all plain_byte p"

lemma emit_plain: "emit_sanitized p = Some q \<Longrightarrow> plain_piece q"
  using sanitize_loop_plain [of "[]" p] by (auto simp: emit_sanitized_def plain_piece_def Let_def list_all_iff split: if_splits)

lemma emit_list: "list_all plain_piece out \<Longrightarrow>
    list_all plain_piece (if p = [] then out else case emit_sanitized p of None \<Rightarrow> out | Some o1 \<Rightarrow> out @ [o1])"
  using emit_plain by (auto split: option.splits)

lemma piece_range: "piece t i \<noteq> None \<longleftrightarrow> 0 \<le> i \<and> i < int (length (vocab t))"
  by (simp add: piece_def)

text \<open>The token after a position: from the prompt or sampled.\<close>

lemma next_token_ok:
  fixes M :: "'f fmath" and generated :: nat
  assumes sl: "slot_ok sl" "in_vocab (slot_tok sl) toks" and st: "shape (slot_config sl) st"
    and smp: "simple_sampling (fl M) smp"
  shows "\<exists>nxt g smp' st' b. (if pos < length toks - 1 then Some (toks ! (pos + 1), generated, smp, st, False)
      else llm_sample (fl M) smp (rs_logits st) \<bind> (\<lambda>(i, smp, lg). Some (i, generated + 1, smp, st\<lparr>rs_logits := lg\<rparr>, True))) =
      Some (nxt, g, smp', st', b) \<and> piece (slot_tok sl) nxt \<noteq> None \<and> generated \<le> g \<and> g \<le> generated + 1 \<and>
      simple_sampling (fl M) smp' \<and> shape (slot_config sl) st'"
proof (cases "pos < length toks - 1")
  case True
  then have "toks ! (pos + 1) \<in> set toks" by simp
  then show ?thesis using True assms by (auto simp: in_vocab_def)
next
  case False
  have l: "length (rs_logits st) = length (vocab (slot_tok sl))" "259 \<le> length (vocab (slot_tok sl))"
    using sl st by (simp_all add: slot_ok_def shape_def)
  then have "rs_logits st \<noteq> []" by auto
  from llm_sample_simple [OF this smp [unfolded simple_sampling_def]] obtain i s' out where
    s: "llm_sample (fl M) smp (rs_logits st) = Some (i, s', out)" "0 \<le> i" "i < int (length (rs_logits st))"
    "length out = length (rs_logits st)" "temperature s' = temperature smp" "topp s' = topp smp" by blast
  have "simple_sampling (fl M) s'" using smp s(5,6) by (simp add: simple_sampling_def)
  moreover have "shape (slot_config sl) (st\<lparr>rs_logits := out\<rparr>)" using st s(4) by (simp add: shape_def)
  moreover have "piece (slot_tok sl) i \<noteq> None" unfolding piece_range using s l by simp
  ultimately show ?thesis using s(1) False by auto
qed

lemma gen_loop_ok:
  fixes M :: "'f fmath"
  assumes sl: "slot_ok sl" "in_vocab (slot_tok sl) toks" and n: "steps \<le> c_seq_len (slot_config sl)"
  shows "shape (slot_config sl) st \<Longrightarrow> simple_sampling (fl M) smp \<Longrightarrow> piece (slot_tok sl) token \<noteq> None \<Longrightarrow>
    list_all plain_piece out \<Longrightarrow>
    \<exists>g st' out'. gen_loop M sl toks steps echo pos token generated smp st out = Some (g, st', out') \<and>
      shape (slot_config sl) st' \<and> list_all plain_piece out' \<and> g \<le> generated + (steps - pos)"
proof (induction "steps - pos" arbitrary: pos token generated smp st out)
  case 0
  then show ?case by (subst gen_loop.simps) simp
next
  case (Suc k)
  let ?c = "slot_config sl"
  have pos: "\<not> pos \<ge> steps" "pos < c_seq_len ?c" "k = steps - (pos + 1)" using Suc.hyps(2) n by auto
  have S: "config_ok ?c" "weights_ok ?c (slot_weights sl) (length (slot_data sl))" "vocab_text (slot_tok sl)"
    "length (vocab (slot_tok sl)) = c_vocab_size ?c" using sl(1) by (simp_all add: slot_ok_def)
  have tk: "0 \<le> token" "token < int (c_vocab_size ?c)" using Suc.prems(3) S(4) by (simp_all only: piece_range)
  from forward_lemma [OF S(1,2) pos(2) Suc.prems(1) tk, of M] obtain st1 where
    f: "forward M ?c (slot_weights sl) (slot_data sl) token pos st = Some st1" "shape ?c st1" by blast
  from next_token_ok [OF sl f(2) Suc.prems(2), of pos generated] obtain nxt g smp1 st2 b where
    s: "(if pos < length toks - 1 then Some (toks ! (pos + 1), generated, smp, st1, False)
      else llm_sample (fl M) smp (rs_logits st1) \<bind> (\<lambda>(i, smp, lg). Some (i, generated + 1, smp, st1\<lparr>rs_logits := lg\<rparr>, True))) =
      Some (nxt, g, smp1, st2, b)" "piece (slot_tok sl) nxt \<noteq> None" "g \<le> generated + 1"
      "simple_sampling (fl M) smp1" "shape ?c st2" by blast
  note step = gen_loop.simps [of M sl toks steps echo pos] if_not_P [OF pos(1)] f(1) bind.bind_lunit s(1) prod.case
  show ?case
  proof (cases "nxt = 1 \<or> nxt = 2")
    case True
    then have "gen_loop M sl toks steps echo pos token generated smp st out = Some (g, st2, out)"
      unfolding step by simp
    then show ?thesis using s(3,5) Suc.prems(4) Suc.hyps(2) by auto
  next
    case False
    from decode_total [OF S(3) s(2), of token] obtain p where p: "decode (slot_tok sl) token nxt = Some p" by blast
    define out1 where "out1 = (if b \<or> echo then (if p = [] then out else case emit_sanitized p of None \<Rightarrow> out | Some o1 \<Rightarrow> out @ [o1]) else out)"
    have o: "list_all plain_piece out1" using emit_list [OF Suc.prems(4), of p] Suc.prems(4) by (simp add: out1_def)
    have eq: "gen_loop M sl toks steps echo pos token generated smp st out = gen_loop M sl toks steps echo (pos + 1) nxt g smp1 st2 out1"
      unfolding step if_not_P [OF False] p out1_def by simp
    from Suc.hyps(1) [OF pos(3) s(5,4,2) o, of g] obtain g' st' out' where
      "gen_loop M sl toks steps echo (pos + 1) nxt g smp1 st2 out1 = Some (g', st', out')" "shape ?c st'"
      "list_all plain_piece out'" "g' \<le> g + (steps - (pos + 1))" by blast
    then show ?thesis unfolding eq using s(3) pos(1) by auto
  qed
qed

text \<open>The heap after the two buffers that the code checks, if it obtains them.\<close>

definition run_buffers :: "'h heap_ops \<Rightarrow> 'f model_slot \<Rightarrow> u8 list \<Rightarrow> 'h \<Rightarrow> 'h option" where
  "run_buffers ops sl prompt h =
     heap_malloc ops (of_nat (c_vocab_size (slot_config sl)) * 8) h \<bind> (\<lambda>(p, h). if p = 0 then None
     else heap_malloc ops ((of_nat (length prompt) + 3) * 4) h \<bind> (\<lambda>(q, h). if q = 0 then None else Some h))"

text \<open>The buffer for pairs, the third allocation of a run, is obtained as well: the code does not check it.\<close>

definition pair_buffer_fits :: "'h heap_ops \<Rightarrow> 'f model_slot \<Rightarrow> u8 list \<Rightarrow> 'h \<Rightarrow> bool" where
  "pair_buffer_fits ops sl prompt h \<longleftrightarrow>
     (case run_buffers ops sl prompt h of None \<Rightarrow> True
      | Some h \<Rightarrow> (case heap_malloc ops (ucast (buffer_size (slot_tok sl))) h of None \<Rightarrow> True | Some (r, h) \<Rightarrow> r \<noteq> 0))"

definition run_steps :: "config \<Rightarrow> int \<Rightarrow> nat" where
  "run_steps c max_tokens = (if max_tokens > 0 \<and> max_tokens < int (c_seq_len c) then nat max_tokens else c_seq_len c)"

context c_heap begin

lemma llama_run_lemma:
  fixes M :: "'f fmath"
  assumes sl: "slot_ok sl" and pr: "0 \<notin> set prompt" "length prompt < 2 ^ 60" and v: "c_vocab_size (slot_config sl) < 2 ^ 31"
    and smp: "simple_sampling (fl M) (make_sampler M tc pc seed)" and h: "inv h" and fits: "pair_buffer_fits ops sl prompt h"
  shows "\<exists>n sl' out h'. llama_run ops M sl prompt max_tokens tc pc seed echo h = Some (n, sl', out, h') \<and>
    inv h' \<and> regions h' = regions h \<and> slot_ok sl' \<and> list_all plain_piece out \<and>
    (if run_buffers ops sl prompt h = None then n = LLM_ERR_OOM \<and> out = []
     else 0 \<le> n \<and> n \<le> int (run_steps (slot_config sl) max_tokens))"
proof -
  let ?c = "slot_config sl" and ?R = "regions h"
  let ?s1 = "of_nat (c_vocab_size ?c) * 8 :: u64" and ?s2 = "(of_nat (length prompt) + 3) * 4 :: u64"
  have T: "tok_ok (slot_tok sl)" "259 \<le> length (vocab (slot_tok sl))" "1 \<le> unat (max_token_length (slot_tok sl))"
    "shape ?c (slot_state sl)" using sl by (simp_all add: slot_ok_def)
  have "unat (of_nat (c_vocab_size ?c * 8) :: u64) = c_vocab_size ?c * 8" by (rule unat_of_nat_small) (use v in simp)
  then have "unat ?s1 = c_vocab_size ?c * 8" by simp
  then have z1: "unat ?s1 \<le> 2 ^ 64 - 16" using v by simp
  from malloc_temp [OF temp_start [OF h] z1] obtain pi h1 where
    m1: "heap_malloc ops ?s1 h = Some (pi, h1)" "temp ?R [pi] h1" by blast
  have "unat (of_nat ((length prompt + 3) * 4) :: u64) = (length prompt + 3) * 4" by (rule unat_of_nat_small) (use pr(2) in simp)
  then have "unat ?s2 = (length prompt + 3) * 4" by simp
  then have z2: "unat ?s2 \<le> 2 ^ 64 - 16" using pr(2) by simp
  note start = llama_run_def Let_def m1(1) bind.bind_lunit prod.case run_steps_def [symmetric]
  show ?thesis
  proof (cases "pi = 0")
    case True
    have "llama_run ops M sl prompt max_tokens tc pc seed echo h = Some (LLM_ERR_OOM, sl, [], h1)" unfolding start using True by simp
    moreover have "run_buffers ops sl prompt h = None" unfolding run_buffers_def m1(1) using True by simp
    ultimately show ?thesis using temp_end [OF m1(2)] True sl by simp
  next
    case pi: False
    from malloc_temp [OF m1(2) z2] obtain pt h2 where
      m2: "heap_malloc ops ?s2 h1 = Some (pt, h2)" "temp ?R [pt, pi] h2" by blast
    note start = start if_not_P [OF pi] m2(1)
    show ?thesis
    proof (cases "pt = 0")
      case True
      from free_temp [OF m2(2), of pi] obtain h3 where
        f: "heap_free ops pi h2 = Some h3" "temp ?R (removeAll pi [pt, pi]) h3" by auto
      have "llama_run ops M sl prompt max_tokens tc pc seed echo h = Some (LLM_ERR_OOM, sl, [], h3)"
        unfolding start using True f(1) by simp
      moreover have "run_buffers ops sl prompt h = None"
        unfolding run_buffers_def m1(1) bind.bind_lunit prod.case m2(1) using True by simp
      ultimately show ?thesis using temp_end [OF f(2)] True sl by simp
    next
      case pt: False
      have rb: "run_buffers ops sl prompt h = Some h2"
        unfolding run_buffers_def m1(1) bind.bind_lunit prod.case if_not_P [OF pi] m2(1) if_not_P [OF pt] ..
      have "heap_malloc ops (ucast (buffer_size (slot_tok sl))) h2 \<noteq> Some (0, h')" for h'
        using fits unfolding pair_buffer_fits_def rb by auto
      from encode_lemma [OF T(1-3) pr(1) order_refl m2(2) this, of "fl M" True False] obtain toks h3 where
        e: "encode ops (fl M) (slot_tok sl) prompt True False (length prompt + 3) h2 = Some (toks, h3)"
        "temp ?R [pt, pi] h3" "in_vocab (slot_tok sl) toks" by auto
      define tk where "tk = (if toks = [] then [1] else toks)"
      have tk: "in_vocab (slot_tok sl) tk" "piece (slot_tok sl) (hd tk) \<noteq> None"
        using e(3) T(2) by (simp_all add: tk_def in_vocab_def piece_def [of _ 1])
      have rs: "run_steps ?c max_tokens \<le> c_seq_len ?c" unfolding run_steps_def by (simp split: if_split) linarith
      from gen_loop_ok [OF sl tk(1) rs T(4) smp tk(2), of "[]" echo 0 0] obtain g st out where
        g: "gen_loop M sl tk (run_steps ?c max_tokens) echo 0 (hd tk) 0 (make_sampler M tc pc seed) (slot_state sl) [] = Some (g, st, out)"
        "shape ?c st" "list_all plain_piece out" "g \<le> run_steps ?c max_tokens" by auto
      from free_temp [OF e(2), of pt] obtain h4 where f1: "heap_free ops pt h3 = Some h4" "temp ?R (removeAll pt [pt, pi]) h4" by auto
      have np: "pt \<noteq> pi" using m2(2) pi pt by (auto simp: temp_def)
      then have t4: "temp ?R [pi] h4" using f1(2) by simp
      from free_temp [OF t4, of pi] obtain h5 where f2: "heap_free ops pi h4 = Some h5" "temp ?R [] h5" by auto
      have "llama_run ops M sl prompt max_tokens tc pc seed echo h = Some (int g, sl\<lparr>slot_state := st\<rparr>, out, h5)"
        unfolding start if_not_P [OF pt] e(1) tk_def [symmetric] g(1) f1(1) f2(1) ..
      moreover have "slot_ok (sl\<lparr>slot_state := st\<rparr>)" using sl g(2) by (simp add: slot_ok_def)
      ultimately show ?thesis using temp_end [OF f2(2)] g(3,4) rb by simp
    qed
  qed
qed

end

section \<open>A loaded model is ready to run\<close>

definition small_sizes :: "config \<Rightarrow> bool" where
  "small_sizes c \<longleftrightarrow> c_dim c < 2 ^ 31 \<and> c_hidden_dim c < 2 ^ 31 \<and> c_vocab_size c \<le> 2 ^ 30 \<and>
     c_n_heads c * c_seq_len c < 2 ^ 31 \<and> c_n_layers c * c_seq_len c * kv_dim c < 2 ^ 31"

lemma zeros_length: "n < 2 ^ 31 \<Longrightarrow> length (zeros M n) = n"
  using unat_of_nat_small [of n, where 'a = 64] by (simp add: zeros_def)

lemma alloc_run_state_shape:
  assumes "alloc_run_state ops M c h = Some (Some s, h')" "small_sizes c"
  shows "shape c s"
proof -
  let ?kv = "c_n_layers c * c_seq_len c * kv_dim c" and ?a = "c_n_heads c * c_seq_len c"
  have s: "s = \<lparr>rs_x = zeros M (c_dim c), rs_xb = zeros M (c_dim c), rs_xb2 = zeros M (c_dim c),
      rs_hb = zeros M (c_hidden_dim c), rs_hb2 = zeros M (c_hidden_dim c), rs_q = zeros M (c_dim c), rs_att = zeros M ?a,
      rs_logits = zeros M (c_vocab_size c), key_cache = zeros M ?kv, value_cache = zeros M ?kv\<rparr>"
    using assms(1) by (auto simp: alloc_run_state_def Let_def bind_Some_iff split: if_splits prod.splits)
  have z: "c_dim c < 2 ^ 31" "c_hidden_dim c < 2 ^ 31" "c_vocab_size c < 2 ^ 31" "?a < 2 ^ 31" "?kv < 2 ^ 31"
    using assms(2) by (simp_all add: small_sizes_def)
  show ?thesis unfolding s shape_def by (simp only: run_state.simps zeros_length [OF z(1)] zeros_length [OF z(2)]
    zeros_length [OF z(3)] zeros_length [OF z(4)] zeros_length [OF z(5)])
qed

text \<open>
  A model that was loaded afresh from a file with enough floats for its header, and with a vocabulary
  file that tells its longest piece, holds at least the 259 entries of the bytes and has no cut-off
  \<open><0x\<close> piece, is in the slot that \<open>load\_model\<close> returns and satisfies \<open>slot\_ok\<close>.
\<close>

lemma load_model_ok:
  assumes load: "load_model ops M mods model slots h = Some (Some i, slots', h')" and new: "find_slot model slots = None"
    and md: "module_find mods (take 63 (model @ chars ''.bin'')) = Some md" "read_config (mod_bytes md) = Some (c, shared)"
      "config_ok c" "small_sizes c" "259 \<le> c_vocab_size c" "model_floats c shared \<le> length (read_floats (f_bits M) (drop 28 (mod_bytes md)))"
    and tok: "\<And>t h1 h2 tk. module_find mods (tokenizer_for model) = Some tk \<Longrightarrow>
      build_tokenizer ops (f_bits M) (mod_bytes tk) (int (c_vocab_size c)) h1 = Some (Some t, h2) \<Longrightarrow>
      (\<forall>s\<in>set (vocab t). length s \<le> unat (max_token_length t)) \<and> 1 \<le> unat (max_token_length t) \<and>
      unat (max_token_length t) < 2 ^ 31 - 1 \<and> vocab_text t"
  shows "free_slot slots = Some i \<and> (\<exists>sl. slots' = slots[i := Some sl] \<and> slot_name sl = take 31 model \<and> slot_config sl = c \<and> slot_ok sl)"
proof -
  from load obtain tk st t h1 h2 h3 d where
    f: "free_slot slots = Some i" "module_find mods (tokenizer_for model) = Some tk" and
    a: "alloc_run_state ops M c h1 = Some (Some st, h2)" and
    b: "build_tokenizer ops (f_bits M) (mod_bytes tk) (int (c_vocab_size c)) h2 = Some (Some t, h3)" and
    s: "slots' = slots[i := Some \<lparr>slot_name = take 31 model, slot_config = c, slot_weights = memory_map_weights c shared,
      slot_data = read_floats (f_bits M) (drop 28 (mod_bytes md)), slot_state = st, slot_tok = t, slot_describe = d\<rparr>]"
    unfolding load_model_def new md(1) option.case
    by (auto simp: md(2) bind_Some_iff split: option.splits prod.splits)
  have T: "\<forall>s\<in>set (vocab t). length s \<le> unat (max_token_length t)" "1 \<le> unat (max_token_length t)"
    "unat (max_token_length t) < 2 ^ 31 - 1" "vocab_text t" using tok [OF f(2) b] by simp_all
  have n: "int (c_vocab_size c) \<le> 2 ^ 30" using md(4) by (simp add: small_sizes_def)
  have ok: "tok_ok t" by (rule build_tokenizer_ok [OF b _ n T(1,3)]) simp
  have "length (vocab t) = c_vocab_size c" using build_tokenizer_length [OF b] by simp
  then show ?thesis using f(1) s ok T md(3,5) alloc_run_state_shape [OF a md(4)] memory_map_weights_ok [OF md(3,6)]
    by - (rule conjI, simp, rule exI, rule conjI [OF s], simp add: slot_ok_def)
qed

section \<open>Properties\<close>


definition sample_slot :: "int model_slot" where
  "sample_slot = \<lparr>slot_name = chars ''m'', slot_config = sample_config, slot_weights = memory_map_weights sample_config True,
     slot_data = replicate 600 0, slot_state = sample_state, slot_tok = sample_tokenizer, slot_describe = []\<rparr>"

lemma sample_slot_ok: "slot_ok sample_slot"
proof -
  have w: "weights_ok sample_config (memory_map_weights sample_config True) 600"
    by (rule memory_map_weights_ok [OF sample_model(1)]) (simp add: sample_model)
  have v: "vocab_text sample_tokenizer"
    by (auto simp: vocab_text_def sample_tokenizer_def sample_vocab_def text_piece_def byte_at_def)
  have t: "1 \<le> unat (max_token_length sample_tokenizer)" "length (vocab sample_tokenizer) = 263" "c_vocab_size sample_config = 263"
    by (simp_all add: sample_tokenizer_def sample_vocab_def sample_config_def)
  show ?thesis using w sample_model v t sample_tokenizer_ok by (simp add: slot_ok_def sample_slot_def)
qed

definition empty_heap :: heap where
  "empty_heap = \<lparr>blocks = [4096 \<mapsto> \<lparr>b_size = 8192, b_free = True, b_next = 0, b_prev = 0\<rparr>], heap_head = 4096,
     total_size = 8224, used_size = 0, payload = (\<lambda>_. 0)\<rparr>"

lemma empty_heap_inv: "heap_inv 4096 [(8192, True)] empty_heap"
  by (simp add: inv_simps empty_heap_def)

lemma sample_buffers:
  "\<exists>h2. run_buffers kernel_heap sample_slot [97, 98] empty_heap = Some h2 \<and>
     heap_inv 4096 [(2112, False), (32, False), (5984, True)] h2"
proof -
  have r: "unat (round_size 2104) = 2112" "unat (round_size 20) = 32" by (simp_all add: round_size_eq)
  from malloc_refines_lemma [OF empty_heap_inv, of 2104] r(1) obtain h1 where
    m1: "malloc 2104 empty_heap = Some (4128, h1)" "heap_inv 4096 [(2112, False), (6048, True)] h1" by auto
  from malloc_refines_lemma [OF m1(2), of 20] r(2) obtain h2 where
    m2: "malloc 20 h1 = Some (6272, h2)" "heap_inv 4096 [(2112, False), (32, False), (5984, True)] h2" by auto
  show ?thesis using m1(1) m2 by (simp add: run_buffers_def kernel_heap_def sample_slot_def sample_config_def)
qed


end
