(* ===== verification/QwenRun.thy ===== *)
theory QwenRun
  imports Qwen LlamaRun
begin

text \<open>
  The rest of \<open>qwen.c\<close> and the entry points of \<open>llm.c\<close>: the tokenizer, which has whole special tokens like
  \<open><|im\_start|>\<close> and otherwise starts from single bytes, loading the model, one answer to a prompt, and the
  choice between the two engines. Log lines and \<open>sched\_yield\<close> are left out. A configuration that is not
  positive is outside the model (a fault), as is a read outside a module.
\<close>

section \<open>Tokenizer\<close>

record 'f qwen_tokenizer = "'f tokenizer" +
  bos_token_id :: u32
  eos_token_id :: u32

text \<open>The pieces are copied into an arena of \<open>cap\<close> bytes, of which \<open>a\<close> are in use.\<close>

primrec qwen_entries :: "(u32 \<Rightarrow> 'f) \<Rightarrow> nat \<Rightarrow> nat \<Rightarrow> u8 list \<Rightarrow> nat \<Rightarrow> u8 list list \<times> 'f list \<Rightarrow>
    (u8 list list \<times> 'f list) option option" where
  "qwen_entries bits cap 0 p a acc = Some (Some acc)"
| "qwen_entries bits cap (Suc k) p a acc =
     (if length p < 8 then Some None
      else
        let len = unat (read_u32_le (drop 4 p))
        in if len > length p - 8 then Some None
           else if a + len + 1 > cap then None
           else qwen_entries bits cap k (drop (8 + len) p) (a + len + 1)
             (fst acc @ [c_str (take len (drop 8 p))], snd acc @ [bits (read_u32_le p)]))"

definition qwen_build_tokenizer :: "'h heap_ops \<Rightarrow> (u32 \<Rightarrow> 'f) \<Rightarrow> u8 list \<Rightarrow> nat \<Rightarrow> 'h \<Rightarrow> ('f qwen_tokenizer option \<times> 'h) option" where
  "qwen_build_tokenizer ops bits data n h =
     (if length data < 12 then Some (None, h)
      else
        heap_malloc ops (of_nat n * 8) h \<bind> (\<lambda>(v, h).
        heap_malloc ops (of_nat n * 4) h \<bind> (\<lambda>(sc, h).
        heap_malloc ops (of_nat (length data)) h \<bind> (\<lambda>(ar, h).
        if v = 0 \<or> sc = 0 \<or> ar = 0 then Some (None, h)
        else qwen_entries bits (length data) n (drop 12 data) 0 ([], []) \<bind> (\<lambda>r. case r of
          None \<Rightarrow> Some (None, h)
        | Some (voc, scores) \<Rightarrow>
            heap_malloc ops (of_nat n * 16) h \<bind> (\<lambda>(so, h).
            if so = 0 then Some (None, h)
            else tok_sort (entries voc) n \<bind> (\<lambda>sorted.
              Some (Some \<lparr>vocab = voc, vocab_scores = scores, sorted_vocab = sorted, vocab_size = int n,
                max_token_length = read_u32_le data, bos_token_id = read_u32_le (drop 4 data),
                eos_token_id = read_u32_le (drop 8 data)\<rparr>, h))))))))"

section \<open>Text to tokens\<close>

text \<open>The offset of the \<open>>\<close> that may end a special token at the start of the text.\<close>

definition special_end :: "u8 list \<Rightarrow> nat option" where
  "special_end c = (if byte_at c 0 = 60 then find (\<lambda>k. c ! k = 62) [1..<min 64 (length c)] else None)"

text \<open>The token at the start of a text and the bytes it takes besides the first; \<open>n\<close> is the size of the buffer.\<close>

definition qwen_token :: "('f, 'z) tokenizer_scheme \<Rightarrow> nat \<Rightarrow> u8 list \<Rightarrow> (int \<times> nat) option" where
  "qwen_token t n c =
     (case special_end c of
        None \<Rightarrow> Some (- 1, 0)
      | Some k \<Rightarrow> if k + 2 > n then None else lookup t (take (k + 1) c) \<bind> (\<lambda>tk. Some (tk, if tk = - 1 then 0 else k))) \<bind>
     (\<lambda>(tk, skip).
        if tk = - 1 then if n < 2 then None else lookup t [hd c] \<bind> (\<lambda>tk. Some (tk, 0))
        else Some (tk, skip))"

function qwen_encode_loop :: "('f, 'z) tokenizer_scheme \<Rightarrow> nat \<Rightarrow> nat \<Rightarrow> u8 list \<Rightarrow> int list \<Rightarrow> int list option" where
  "qwen_encode_loop t n cap c toks =
     (if c = [] then Some toks
      else qwen_token t n c \<bind> (\<lambda>(tk, skip).
        (if tk \<noteq> - 1 then put_token cap tk toks else Some toks) \<bind> qwen_encode_loop t n cap (drop (skip + 1) c)))"
  by pat_completeness auto
termination
  by (relation "measure (\<lambda>(t, n, cap, c, toks). length c)") auto

declare qwen_encode_loop.simps [simp del]

definition qwen_encode :: "'h heap_ops \<Rightarrow> 'f floats \<Rightarrow> ('f, 'z) tokenizer_scheme \<Rightarrow> u8 list \<Rightarrow> nat \<Rightarrow> 'h \<Rightarrow> (int list \<times> 'h) option" where
  "qwen_encode ops F t text cap h =
     (let sz = ucast (max_token_length t) * 2 + 3 :: u64
      in heap_malloc ops sz h \<bind> (\<lambda>(buf, h).
         if buf = 0 then Some ([], h)
         else
           qwen_encode_loop t (unat sz) cap text [] \<bind> (\<lambda>toks.
           merge_loop F t (unat sz) toks \<bind> (\<lambda>toks.
           heap_free ops buf h \<bind> (\<lambda>h. Some (toks, h))))))"

section \<open>Loading\<close>

definition QWEN_MAGIC :: u32 where "QWEN_MAGIC = 0x616A6331"
definition QWEN_CTX_MAX :: int where "QWEN_CTX_MAX = 1024"

definition read_qwen_config :: "u8 list \<Rightarrow> qwen_config option" where
  "read_qwen_config bs =
     (if length bs < 48 then None
      else
        let v = (\<lambda>i. sint (read_u32_le (drop (8 + 4 * i) bs))); n = (\<lambda>i. nat (v i))
        in if \<exists>i\<in>{0, 1, 2, 3, 4, 5, 6, 7, 9}. v i \<le> 0 then None
           else Some \<lparr>q_dim = n 0, q_hidden_dim = n 1, q_n_layers = n 2, q_n_heads = n 3, q_n_kv_heads = n 4, q_vocab_size = n 5,
             q_seq_len = nat (if v 6 > QWEN_CTX_MAX then QWEN_CTX_MAX else v 6), q_head_dim = n 7, q_shared = (v 8 \<noteq> 0),
             q_group_size = n 9\<rparr>)"

text \<open>\<open>n\<close> tensors of \<open>m\<close> values each from an offset on, and the offset behind them.\<close>

definition tensor_bytes :: "nat \<Rightarrow> nat \<Rightarrow> nat" where
  "tensor_bytes gs m = m + m div gs * 4"

definition map_tensors :: "'h heap_ops \<Rightarrow> nat \<Rightarrow> nat \<Rightarrow> nat \<Rightarrow> nat \<Rightarrow> 'h \<Rightarrow> (quantized_tensor list option \<times> nat \<times> 'h) option" where
  "map_tensors ops gs n p m h =
     heap_malloc ops (of_nat n * 16) h \<bind> (\<lambda>(r, h).
       if r = 0 then Some (None, p, h)
       else Some (Some (map (\<lambda>i. \<lparr>qt_q = p + i * tensor_bytes gs m, qt_s = p + i * tensor_bytes gs m + m\<rparr>) [0..<n]),
         p + n * tensor_bytes gs m, h))"

text \<open>The calls for the matrices one after the other, each from where the one before ended.\<close>

primrec map_all_tensors :: "'h heap_ops \<Rightarrow> nat \<Rightarrow> nat \<Rightarrow> nat \<Rightarrow> nat list \<Rightarrow> 'h \<Rightarrow>
    (quantized_tensor list option list \<times> nat \<times> 'h) option" where
  "map_all_tensors ops gs n p [] h = Some ([], p, h)"
| "map_all_tensors ops gs n p (m # ms) h =
     map_tensors ops gs n p m h \<bind> (\<lambda>(ts, p, h). map_all_tensors ops gs n p ms h \<bind> (\<lambda>(r, p, h). Some (ts # r, p, h)))"

definition qwen_map_weights :: "'h heap_ops \<Rightarrow> qwen_config \<Rightarrow> 'h \<Rightarrow> (qwen_weights option \<times> 'h) option" where
  "qwen_map_weights ops c h =
     (let L = q_n_layers c; d = q_dim c; hd = q_hidden_dim c; gs = q_group_size c; a = all_heads_dim c; kv = qkv_dim c; V = q_vocab_size c;
          rms_ffn = 256 + 4 * (L * d); rms_final = rms_ffn + 4 * (L * d); q_norm = rms_final + 4 * d;
          k_norm = q_norm + 4 * (L * q_head_dim c); tok = k_norm + 4 * (L * q_head_dim c);
          tokens = \<lparr>qt_q = tok, qt_s = tok + V * d\<rparr>
      in map_all_tensors ops gs L (tok + tensor_bytes gs (V * d)) [d * a, d * kv, d * kv, a * d, d * hd, hd * d, d * hd] h \<bind>
         (\<lambda>(ts, p, h).
           if None \<in> set ts then Some (None, h)
           else
             let w = (\<lambda>i. the (ts ! i))
             in Some (Some \<lparr>q_tokens = tokens, qw_rms_att = 256, qw_rms_ffn = rms_ffn, qw_rms_final = rms_final,
               qw_q_norm = q_norm, qw_k_norm = k_norm, qw_wq = w 0, qw_wk = w 1, qw_wv = w 2, qw_wo = w 3, qw_w1 = w 4,
               qw_w2 = w 5, qw_w3 = w 6,
               qw_cls = (if q_shared c then tokens else \<lparr>qt_q = p, qt_s = p + d * V\<rparr>)\<rparr>, h)))"

definition qwen_format :: "u8 list" where
  "qwen_format = chars ''dim=%d hidden=%d layers=%d heads=%d kv_heads=%d head_dim=%d vocab=%d ctx=%d q8_0(gs=%d)''"

definition qwen_description :: "qwen_config \<Rightarrow> u8 list option" where
  "qwen_description c =
     map_option (\<lambda>(n, buf). c_string buf) (vsnprintf (replicate 160 0) 160 qwen_format
       (map (\<lambda>n. Num (of_nat n)) [q_dim c, q_hidden_dim c, q_n_layers c, q_n_heads c, q_n_kv_heads c, q_head_dim c,
         q_vocab_size c, q_seq_len c, q_group_size c]))"

record 'f qwen_model =
  qm_config :: qwen_config
  qm_weights :: qwen_weights
  qm_data :: "u8 list"
  qm_state :: "'f qwen_state"
  qm_tok :: "'f qwen_tokenizer"
  qm_describe :: "u8 list"

text \<open>The loaded model, or an inner \<open>None\<close> when it cannot be loaded.\<close>

definition load_qwen :: "'h heap_ops \<Rightarrow> 'f fmath \<Rightarrow> modul list option \<Rightarrow> 'f qwen_model option \<Rightarrow> 'h \<Rightarrow>
    ('f qwen_model option \<times> 'h) option" where
  "load_qwen ops M mods qw h =
     (case qw of Some m \<Rightarrow> Some (Some m, h)
      | None \<Rightarrow>
     (case (module_find mods (chars ''qwen3.bin''), module_find mods (chars ''qwen3.tokenizer'')) of
        (Some md, Some tk) \<Rightarrow>
          let base = mod_bytes md
          in if length base < 8 then None
             else if read_u32_le base \<noteq> QWEN_MAGIC \<or> read_u32_le (drop 4 base) \<noteq> 1 then Some (None, h)
             else read_qwen_config base \<bind> (\<lambda>c.
               qwen_map_weights ops c h \<bind> (\<lambda>(w, h). case w of None \<Rightarrow> Some (None, h) | Some w \<Rightarrow>
               qwen_alloc_run_state ops M c h \<bind> (\<lambda>(st, h). case st of None \<Rightarrow> Some (None, h) | Some st \<Rightarrow>
               qwen_build_tokenizer ops (f_bits M) (mod_bytes tk) (q_vocab_size c) h \<bind> (\<lambda>(t, h). case t of
                 None \<Rightarrow> Some (None, h)
               | Some t \<Rightarrow> qwen_description c \<bind> (\<lambda>d.
                   Some (Some \<lparr>qm_config = c, qm_weights = w, qm_data = base, qm_state = st, qm_tok = t, qm_describe = d\<rparr>, h))))))
      | _ \<Rightarrow> Some (None, h)))"

section \<open>Answering\<close>

definition TMPL_PRE :: "u8 list" where
  "TMPL_PRE = chars ''<|im_start|>user'' @ [10]"

definition TMPL_POST :: "u8 list" where
  "TMPL_POST = chars ''<|im_end|>'' @ [10] @ chars ''<|im_start|>assistant'' @ [10] @ chars ''<think>'' @ [10, 10] @
     chars ''</think>'' @ [10, 10]"

function qwen_loop :: "'f fmath \<Rightarrow> 'f qwen_model \<Rightarrow> int list \<Rightarrow> nat \<Rightarrow> nat \<Rightarrow> int \<Rightarrow> nat \<Rightarrow> 'f sampler \<Rightarrow> 'f qwen_state \<Rightarrow>
    u8 list list \<Rightarrow> (nat \<times> 'f qwen_state \<times> u8 list list) option" where
  "qwen_loop M m toks steps pos token generated smp st out =
     (if pos \<ge> steps then Some (generated, st, out)
      else
        qwen_forward M (qm_config m) (qm_weights m) (qm_data m) token pos st \<bind> (\<lambda>st.
        if pos < length toks - 1 then qwen_loop M m toks steps (pos + 1) (toks ! (pos + 1)) generated smp st out
        else llm_sample (fl M) smp (qs_logits st) \<bind> (\<lambda>(nxt, smp, lg).
          let st = st\<lparr>qs_logits := lg\<rparr>
          in if nxt = sint (eos_token_id (qm_tok m)) \<or> nxt = sint (bos_token_id (qm_tok m)) then Some (generated, st, out)
             else piece (qm_tok m) nxt \<bind> (\<lambda>p.
               let out = (if p \<noteq> [] \<and> \<not> (byte_at p 0 = 60 \<and> byte_at p 1 = 124)
                   then case emit_sanitized p of None \<Rightarrow> out | Some o1 \<Rightarrow> out @ [o1] else out)
               in qwen_loop M m toks steps (pos + 1) nxt (generated + 1) smp st out))))"
  by pat_completeness auto
termination
  by (relation "measure (\<lambda>(M, m, toks, steps, pos, r). steps - pos)") auto

declare qwen_loop.simps [simp del]

text \<open>An answer of the loaded model: the return value, the model afterwards, the emitted pieces.\<close>

definition qwen_answer :: "'h heap_ops \<Rightarrow> 'f fmath \<Rightarrow> 'f qwen_model \<Rightarrow> u8 list \<Rightarrow> int \<Rightarrow> int \<Rightarrow> int \<Rightarrow> u64 \<Rightarrow> 'h \<Rightarrow>
    (int \<times> 'f qwen_model \<times> u8 list list \<times> 'h) option" where
  "qwen_answer ops M m prompt max_tokens temp_centi topp_centi seed h =
     (let c = qm_config m; rlen = length TMPL_PRE + 1 + length prompt + length TMPL_POST + 1
      in heap_malloc ops (of_nat rlen) h \<bind> (\<lambda>(rd, h).
         heap_malloc ops ((of_nat rlen + 4) * 4) h \<bind> (\<lambda>(pt, h).
         heap_malloc ops (of_nat (q_vocab_size c) * 8) h \<bind> (\<lambda>(pi, h).
         if rd = 0 \<or> pt = 0 \<or> pi = 0 then foldM (heap_free ops) [rd, pt, pi] h \<bind> (\<lambda>h. Some (LLM_ERR_OOM, m, [], h))
         else
           let rendered = take (rlen - 1) (TMPL_PRE @ prompt @ TMPL_POST)
           in qwen_encode ops (fl M) (qm_tok m) rendered (rlen + 4) h \<bind> (\<lambda>(toks, h).
              if toks = [] then foldM (heap_free ops) [rd, pt, pi] h \<bind> (\<lambda>h. Some (LLM_ERR_NO_MODEL, m, [], h))
              else
                let steps = (if max_tokens > 0 \<and> int (length toks) + max_tokens < int (q_seq_len c)
                    then length toks + nat max_tokens else q_seq_len c)
                in qwen_loop M m toks steps 0 (hd toks) 0 (make_sampler M temp_centi topp_centi seed) (qm_state m) [] \<bind>
                   (\<lambda>(generated, st, out).
                   foldM (heap_free ops) [rd, pt, pi] h \<bind> (\<lambda>h. Some (int generated, m\<lparr>qm_state := st\<rparr>, out, h))))))))"

definition qwen_run :: "'h heap_ops \<Rightarrow> 'f fmath \<Rightarrow> modul list option \<Rightarrow> u8 list \<Rightarrow> int \<Rightarrow> int \<Rightarrow> int \<Rightarrow> u64 \<Rightarrow>
    'f qwen_model option \<Rightarrow> 'h \<Rightarrow> (int \<times> u8 list list \<times> 'f qwen_model option \<times> 'h) option" where
  "qwen_run ops M mods prompt max_tokens temp_centi topp_centi seed qw h =
     load_qwen ops M mods qw h \<bind> (\<lambda>(qw, h). case qw of
       None \<Rightarrow> Some (LLM_ERR_NO_MODEL, [], None, h)
     | Some m \<Rightarrow> qwen_answer ops M m prompt max_tokens temp_centi topp_centi seed h \<bind> (\<lambda>(n, m, out, h).
         Some (n, out, Some m, h)))"

section \<open>Both engines\<close>

definition is_qwen :: "u8 list \<Rightarrow> bool" where
  "is_qwen model \<longleftrightarrow> model = chars ''qwen3''"

record 'f llm_state =
  llm_busy :: bool
  llm_slots :: "'f model_slot option list"
  llm_qwen :: "'f qwen_model option"

definition llm_generate :: "'h heap_ops \<Rightarrow> 'f fmath \<Rightarrow> modul list option \<Rightarrow> u8 list \<Rightarrow> u8 list \<Rightarrow> int \<Rightarrow> int \<Rightarrow> int \<Rightarrow> u64 \<Rightarrow>
    bool \<Rightarrow> 'f llm_state \<Rightarrow> 'h \<Rightarrow> (int \<times> u8 list list \<times> 'f llm_state \<times> 'h) option" where
  "llm_generate ops M mods model prompt max_tokens temp_centi topp_centi seed echo s h =
     (if llm_busy s then Some (LLM_ERR_BUSY, [], s, h)
      else if is_qwen model then
        qwen_run ops M mods prompt max_tokens temp_centi topp_centi seed (llm_qwen s) h \<bind> (\<lambda>(n, out, qw, h).
        Some (n, out, s\<lparr>llm_busy := False, llm_qwen := qw\<rparr>, h))
      else
        llama_generate ops M mods model prompt max_tokens temp_centi topp_centi seed echo (llm_slots s) h \<bind> (\<lambda>(n, out, sl, h).
        Some (n, out, s\<lparr>llm_busy := False, llm_slots := sl\<rparr>, h)))"

definition llm_describe :: "'h heap_ops \<Rightarrow> 'f fmath \<Rightarrow> modul list option \<Rightarrow> u8 list \<Rightarrow> 'f llm_state \<Rightarrow> 'h \<Rightarrow>
    (u8 list option \<times> 'f llm_state \<times> 'h) option" where
  "llm_describe ops M mods model s h =
     (if is_qwen model then
        load_qwen ops M mods (llm_qwen s) h \<bind> (\<lambda>(qw, h). Some (map_option qm_describe qw, s\<lparr>llm_qwen := qw\<rparr>, h))
      else
        load_model ops M mods model (llm_slots s) h \<bind> (\<lambda>(i, sl, h).
        Some (case i of None \<Rightarrow> None | Some i \<Rightarrow> map_option slot_describe (sl ! i), s\<lparr>llm_slots := sl\<rparr>, h)))"

section \<open>Encoding is safe and loses nothing\<close>

lemma find_upt: "find P [a..<b] = Some k \<Longrightarrow> a \<le> k \<and> k < b \<and> P k"
  by (auto simp: find_Some_iff)

lemma special_end_in: "special_end c = Some k \<Longrightarrow> 1 \<le> k \<and> k < 64 \<and> k < length c"
  by (auto simp: special_end_def dest!: find_upt split: if_splits)

lemma qwen_token_ok:
  assumes ok: "tok_ok t" and c: "0 \<notin> set c" "c \<noteq> []" and n: "65 \<le> n"
  shows "\<exists>tk skip. qwen_token t n c = Some (tk, skip) \<and>
    (tk = - 1 \<and> skip = 0 \<and> [hd c] \<notin> set (vocab t) \<or> piece t tk = Some (take (skip + 1) c) \<and> tk \<noteq> - 1 \<and> skip + 1 \<le> length c)"
proof -
  have "0 \<notin> set [hd c]" using c by (cases c) auto
  from lookup_ok [OF ok this] obtain r where r: "lookup t [hd c] = Some r"
    "r = - 1 \<and> [hd c] \<notin> set (vocab t) \<or> r \<noteq> - 1 \<and> piece t r = Some [hd c]" by blast
  have h: "take 1 c = [hd c]" using c(2) by (cases c) auto
  have byte: "\<exists>tk skip. lookup t [hd c] \<bind> (\<lambda>tk. Some (tk, 0)) = Some (tk, skip) \<and>
    (tk = - 1 \<and> skip = 0 \<and> [hd c] \<notin> set (vocab t) \<or> piece t tk = Some (take (skip + 1) c) \<and> tk \<noteq> - 1 \<and> skip + 1 \<le> length c)"
    using r h c(2) by (auto simp: Suc_le_eq)
  have n2: "\<not> n < 2" using n by simp
  show ?thesis
  proof (cases "special_end c")
    case None
    then show ?thesis using byte n2 by (simp add: qwen_token_def)
  next
    case (Some k)
    note k = special_end_in [OF Some]
    then have nk: "\<not> k + 2 > n" using n by simp
    have "0 \<notin> set (take (k + 1) c)" using c(1) by (meson in_set_takeD)
    from lookup_ok [OF ok this] obtain q where q: "lookup t (take (k + 1) c) = Some q"
      "q = - 1 \<and> take (k + 1) c \<notin> set (vocab t) \<or> q \<noteq> - 1 \<and> piece t q = Some (take (k + 1) c)" by blast
    show ?thesis
    proof (cases "q = - 1")
      case True
      then show ?thesis using byte n2 nk q(1) by (simp add: qwen_token_def Some)
    next
      case False
      then show ?thesis using q k nk by (simp add: qwen_token_def Some Suc_le_eq)
    qed
  qed
qed

lemma qwen_encode_loop_ok:
  assumes ok: "tok_ok t" and n: "65 \<le> n"
  shows "in_vocab t toks \<Longrightarrow> 0 \<notin> set c \<Longrightarrow> length toks + length c \<le> cap \<Longrightarrow>
    \<exists>out. qwen_encode_loop t n cap c toks = Some out \<and> in_vocab t out \<and> length out \<le> length toks + length c \<and>
      ((\<forall>b\<in>set c. [b] \<in> set (vocab t)) \<longrightarrow> spelled t out = spelled t toks @ c)"
proof (induction "length c" arbitrary: c toks rule: less_induct)
  case less
  show ?case
  proof (cases "c = []")
    case True
    then show ?thesis using less.prems by (subst qwen_encode_loop.simps) simp
  next
    case False
    from qwen_token_ok [OF ok less.prems(2) False n] obtain tk skip where
      q: "qwen_token t n c = Some (tk, skip)" "tk = - 1 \<and> skip = 0 \<and> [hd c] \<notin> set (vocab t) \<or>
        piece t tk = Some (take (skip + 1) c) \<and> tk \<noteq> - 1 \<and> skip + 1 \<le> length c" by blast
    let ?r = "drop (skip + 1) c"
    define toks1 where "toks1 = (if tk \<noteq> - 1 then toks @ [tk] else toks)"
    have put: "(if tk \<noteq> - 1 then put_token cap tk toks else Some toks) = Some toks1"
      using less.prems(3) False by (cases c) (auto simp: toks1_def put_token_def)
    have eq: "qwen_encode_loop t n cap c toks = qwen_encode_loop t n cap ?r toks1"
      using False by (subst qwen_encode_loop.simps) (simp add: q(1) put del: drop_Suc)
    have r: "length ?r < length c" using False by simp
    have v: "in_vocab t toks1" using less.prems(1) q(2) by (auto simp: toks1_def in_vocab_def)
    have z: "0 \<notin> set ?r" using less.prems(2) by (meson in_set_dropD)
    have l: "length toks1 + length ?r \<le> length toks + length c" using r by (simp add: toks1_def)
    from less.hyps [OF r v z le_trans [OF l less.prems(3)]] obtain out where
      o: "qwen_encode_loop t n cap ?r toks1 = Some out" "in_vocab t out" "length out \<le> length toks1 + length ?r"
      "(\<forall>b\<in>set ?r. [b] \<in> set (vocab t)) \<longrightarrow> spelled t out = spelled t toks1 @ ?r" by blast
    have "spelled t out = spelled t toks @ c" if a: "\<forall>b\<in>set c. [b] \<in> set (vocab t)"
    proof -
      have "[hd c] \<in> set (vocab t)" using a False by simp
      then have p: "piece t tk = Some (take (skip + 1) c)" "tk \<noteq> - 1" using q(2) by auto
      have "\<forall>b\<in>set ?r. [b] \<in> set (vocab t)" using a by (meson in_set_dropD)
      then have "spelled t out = spelled t toks1 @ ?r" using o(4) by blast
      also have "spelled t toks1 = spelled t toks @ take (skip + 1) c" using p by (simp add: toks1_def spelled_def)
      finally show ?thesis by simp
    qed
    then show ?thesis unfolding eq using o(1-3) l by auto
  qed
qed

lemma qwen_buffer: "unat (ucast m * 2 + 3 :: u64) = unat (m :: u32) * 2 + 3"
proof -
  have "unat m < 2 ^ 32" using unat_less_2p [of m] by simp
  then have "unat (of_nat (unat m * 2 + 3) :: u64) = unat m * 2 + 3" by (intro unat_of_nat_small) simp
  then show ?thesis by (simp add: of_nat_unat)
qed

context c_heap begin

lemma qwen_encode_lemma:
  assumes ok: "tok_ok t" "31 \<le> unat (max_token_length t)" and tx: "0 \<notin> set text" "length text \<le> cap" and h: "temp R ps h"
  shows "\<exists>out h'. qwen_encode ops F t text cap h = Some (out, h') \<and> temp R ps h' \<and> in_vocab t out \<and> length out \<le> length text \<and>
    (out = [] \<and> heap_malloc ops (ucast (max_token_length t) * 2 + 3) h = Some (0, h') \<or>
     (\<forall>i < length out - 1. no_merge F t out i) \<and>
      ((\<forall>b\<in>set text. [b] \<in> set (vocab t)) \<longrightarrow> spelled t out = text))"
proof -
  let ?sz = "ucast (max_token_length t) * 2 + 3 :: u64"
  have sz: "unat ?sz = unat (max_token_length t) * 2 + 3" by (rule qwen_buffer)
  have "unat (max_token_length t) < 2 ^ 32" using unat_less_2p [of "max_token_length t"] by simp
  then have "unat ?sz \<le> 2 ^ 64 - 16" unfolding sz by simp
  from malloc_temp [OF h this] obtain buf h1 where m: "heap_malloc ops ?sz h = Some (buf, h1)" "temp R (buf # ps) h1" by blast
  show ?thesis
  proof (cases "buf = 0")
    case True
    then have "temp R ps h1" using m(2) by (simp add: temp_def)
    then show ?thesis using m(1) True by (simp add: qwen_encode_def in_vocab_def)
  next
    case buf: False
    have n: "65 \<le> unat ?sz" using sz ok(2) by simp
    have "in_vocab t []" by (simp add: in_vocab_def)
    from qwen_encode_loop_ok [OF ok(1) n this tx(1), of cap] tx(2) obtain t1 where
      t1: "qwen_encode_loop t (unat ?sz) cap text [] = Some t1" "in_vocab t t1" "length t1 \<le> length text"
      "(\<forall>b\<in>set text. [b] \<in> set (vocab t)) \<longrightarrow> spelled t t1 = text" by (auto simp: spelled_def)
    have "unat (buffer_size t) \<le> unat ?sz" using buffer_size_nat [OF ok(1)] sz by simp
    from merge_loop_ok [OF ok(1) t1(2) this, of F] obtain t2 where
      t2: "merge_loop F t (unat ?sz) t1 = Some t2" "in_vocab t t2" "spelled t t2 = spelled t t1" "length t2 \<le> length t1"
        "\<forall>i < length t2 - 1. no_merge F t t2 i" by blast
    from free_temp [OF m(2), of buf] obtain h2 where f: "heap_free ops buf h1 = Some h2" "temp R (removeAll buf (buf # ps)) h2" by auto
    have "buf \<notin> set ps" using m(2) buf by (auto simp: temp_def)
    then have "temp R ps h2" using f(2) by simp
    moreover have "qwen_encode ops F t text cap h = Some (t2, h2)"
      unfolding qwen_encode_def Let_def m(1) bind.bind_lunit prod.case if_not_P [OF buf] t1(1) t2(1) f(1) ..
    ultimately show ?thesis using t1(3,4) t2 by auto
  qed
qed

end

section \<open>An answer is safe\<close>

definition qwen_model_ok :: "'f qwen_model \<Rightarrow> bool" where
  "qwen_model_ok m \<longleftrightarrow> qwen_ok (qm_config m) \<and> qwen_weights_ok (qm_config m) (qm_weights m) (length (qm_data m)) \<and>
     qwen_shape (qm_config m) (qm_state m) \<and> tok_ok (qm_tok m) \<and> 31 \<le> unat (max_token_length (qm_tok m)) \<and>
     0 < q_vocab_size (qm_config m) \<and> length (vocab (qm_tok m)) = q_vocab_size (qm_config m)"

lemma qwen_emit_list: "list_all plain_piece out \<Longrightarrow>
    list_all plain_piece (if b then case emit_sanitized p of None \<Rightarrow> out | Some o1 \<Rightarrow> out @ [o1] else out)"
  using emit_plain by (auto split: option.splits)

lemma qwen_loop_ok:
  fixes M :: "'f fmath"
  assumes m: "qwen_model_ok m" "in_vocab (qm_tok m) toks" and n: "steps \<le> q_seq_len (qm_config m)"
  shows "qwen_shape (qm_config m) st \<Longrightarrow> simple_sampling (fl M) smp \<Longrightarrow> piece (qm_tok m) token \<noteq> None \<Longrightarrow>
    list_all plain_piece out \<Longrightarrow>
    \<exists>g st' out'. qwen_loop M m toks steps pos token generated smp st out = Some (g, st', out') \<and>
      qwen_shape (qm_config m) st' \<and> list_all plain_piece out' \<and>
      g \<le> generated + (steps - max pos (length toks - 1))"
proof (induction "steps - pos" arbitrary: pos token generated smp st out)
  case 0
  then show ?case by (subst qwen_loop.simps) simp
next
  case (Suc k)
  let ?c = "qm_config m"
  have pos: "\<not> pos \<ge> steps" "pos < q_seq_len ?c" "k = steps - (pos + 1)" using Suc.hyps(2) n by auto
  have S: "qwen_ok ?c" "qwen_weights_ok ?c (qm_weights m) (length (qm_data m))" "0 < q_vocab_size ?c"
    "length (vocab (qm_tok m)) = q_vocab_size ?c" using m(1) by (simp_all add: qwen_model_ok_def)
  have tk: "0 \<le> token" "token < int (q_vocab_size ?c)" using Suc.prems(3) S(4) by (simp_all only: piece_range)
  from qwen_forward_lemma [OF S(1,2) pos(2) Suc.prems(1) tk, of M] obtain st1 where
    f: "qwen_forward M ?c (qm_weights m) (qm_data m) token pos st = Some st1" "qwen_shape ?c st1" by blast
  note step = qwen_loop.simps [of M m toks steps pos] if_not_P [OF pos(1)] f(1) bind.bind_lunit
  show ?case
  proof (cases "pos < length toks - 1")
    case True
    then have "toks ! (pos + 1) \<in> set toks" by simp
    then have p: "piece (qm_tok m) (toks ! (pos + 1)) \<noteq> None" using m(2) by (auto simp: in_vocab_def)
    have "max (pos + 1) (length toks - 1) = max pos (length toks - 1)" using True by simp
    with Suc.hyps(1) [OF pos(3) f(2) Suc.prems(2) p Suc.prems(4), of generated] show ?thesis
      unfolding step if_P [OF True] by simp
  next
    case False
    have "rs \<noteq> []" if "length rs = q_vocab_size ?c" for rs :: "'f list" using that S(3) by auto
    moreover have l: "length (qs_logits st1) = q_vocab_size ?c" using f(2) by (simp add: qwen_shape_def)
    ultimately have "qs_logits st1 \<noteq> []" by blast
    from llm_sample_simple [OF this Suc.prems(2) [unfolded simple_sampling_def]] obtain i s' lg where
      s: "llm_sample (fl M) smp (qs_logits st1) = Some (i, s', lg)" "0 \<le> i" "i < int (length (qs_logits st1))"
      "length lg = length (qs_logits st1)" "temperature s' = temperature smp" "topp s' = topp smp" by blast
    have st2: "qwen_shape ?c (st1\<lparr>qs_logits := lg\<rparr>)" using f(2) s(4) by (simp add: qwen_shape_def)
    have smp: "simple_sampling (fl M) s'" using Suc.prems(2) s(5,6) by (simp add: simple_sampling_def)
    have pi: "piece (qm_tok m) i \<noteq> None" unfolding piece_range using s(2,3) l S(4) by simp
    then obtain p where p: "piece (qm_tok m) i = Some p" by blast
    show ?thesis
    proof (cases "i = sint (eos_token_id (qm_tok m)) \<or> i = sint (bos_token_id (qm_tok m))")
      case True
      then have "qwen_loop M m toks steps pos token generated smp st out = Some (generated, st1\<lparr>qs_logits := lg\<rparr>, out)"
        unfolding step if_not_P [OF False] s(1) prod.case Let_def by simp
      then show ?thesis using st2 Suc.prems(4) by simp
    next
      case go: False
      define out1 where "out1 = (if p \<noteq> [] \<and> \<not> (byte_at p 0 = 60 \<and> byte_at p 1 = 124)
                   then case emit_sanitized p of None \<Rightarrow> out | Some o1 \<Rightarrow> out @ [o1] else out)"
      have o: "list_all plain_piece out1" unfolding out1_def by (rule qwen_emit_list [OF Suc.prems(4)])
      have eq: "qwen_loop M m toks steps pos token generated smp st out =
          qwen_loop M m toks steps (pos + 1) i (generated + 1) s' (st1\<lparr>qs_logits := lg\<rparr>) out1"
        unfolding step if_not_P [OF False] s(1) prod.case Let_def if_not_P [OF go] p bind.bind_lunit out1_def ..
      from Suc.hyps(1) [OF pos(3) st2 smp pi o, of "generated + 1"] obtain g st' out' where
        r: "qwen_loop M m toks steps (pos + 1) i (generated + 1) s' (st1\<lparr>qs_logits := lg\<rparr>) out1 = Some (g, st', out')"
        "qwen_shape ?c st'" "list_all plain_piece out'" "g \<le> generated + 1 + (steps - max (pos + 1) (length toks - 1))" by blast
      have "max (pos + 1) (length toks - 1) = pos + 1" "max pos (length toks - 1) = pos" using False by simp_all
      then have "g \<le> generated + (steps - max pos (length toks - 1))" using r(4) pos(1) by simp
      then show ?thesis unfolding eq using r(1-3) by blast
    qed
  qed
qed

text \<open>The heap after the three buffers of an answer, if it obtains them.\<close>

definition qwen_buffers :: "'h heap_ops \<Rightarrow> 'f qwen_model \<Rightarrow> u8 list \<Rightarrow> 'h \<Rightarrow> 'h option" where
  "qwen_buffers ops m prompt h =
     (let rlen = length TMPL_PRE + 1 + length prompt + length TMPL_POST + 1
      in heap_malloc ops (of_nat rlen) h \<bind> (\<lambda>(rd, h).
         heap_malloc ops ((of_nat rlen + 4) * 4) h \<bind> (\<lambda>(pt, h).
         heap_malloc ops (of_nat (q_vocab_size (qm_config m)) * 8) h \<bind> (\<lambda>(pi, h).
         if rd = 0 \<or> pt = 0 \<or> pi = 0 then None else Some h))))"

text \<open>Why an answer to a prompt may have no token at all: no memory for pairs, or a byte that has no token.\<close>

definition no_tokens :: "'h heap_ops \<Rightarrow> 'f qwen_model \<Rightarrow> u8 list \<Rightarrow> 'h \<Rightarrow> bool" where
  "no_tokens ops m prompt h \<longleftrightarrow>
     map_option fst (heap_malloc ops (ucast (max_token_length (qm_tok m)) * 2 + 3) h) = Some 0 \<or>
     (\<exists>b\<in>set (TMPL_PRE @ prompt @ TMPL_POST). [b] \<notin> set (vocab (qm_tok m)))"

context c_heap begin

lemma free_temps:
  "temp R ps h \<Longrightarrow> set qs - {0} \<subseteq> set ps \<Longrightarrow> distinct (removeAll 0 qs) \<Longrightarrow>
   \<exists>h' ps'. foldM (heap_free ops) qs h = Some h' \<and> temp R ps' h' \<and> set ps' \<subseteq> set ps - (set qs - {0})"
proof (induction qs arbitrary: ps h)
  case Nil
  then show ?case by auto
next
  case (Cons q qs)
  show ?case
  proof (cases "q = 0")
    case True
    then have "heap_free ops q h = Some h" by (simp add: free_null)
    then show ?thesis using Cons.IH [OF Cons.prems(1)] Cons.prems True by simp
  next
    case False
    then have "q \<in> set ps" using Cons.prems(2) by auto
    from free_temp [OF Cons.prems(1) this] obtain h1 where h1: "heap_free ops q h = Some h1" "temp R (removeAll q ps) h1" by blast
    have "set qs - {0} \<subseteq> set (removeAll q ps)" "distinct (removeAll 0 qs)" using Cons.prems(2,3) False by auto
    from Cons.IH [OF h1(2) this] obtain h2 ps' where "foldM (heap_free ops) qs h1 = Some h2" "temp R ps' h2"
      "set ps' \<subseteq> set (removeAll q ps) - (set qs - {0})" by blast
    then show ?thesis using h1(1) by auto
  qed
qed

lemma free_three:
  assumes "temp R [c, b, a] h"
  shows "\<exists>h'. foldM (heap_free ops) [a, b, c] h = Some h' \<and> inv h' \<and> regions h' = R"
proof -
  have "distinct (removeAll 0 [c, b, a])" using assms by (simp only: temp_def)
  then have "distinct (removeAll 0 [a, b, c])" by (auto split: if_splits)
  from free_temps [OF assms _ this] obtain h' ps' where
    "foldM (heap_free ops) [a, b, c] h = Some h'" "temp R ps' h'" "set ps' \<subseteq> set [c, b, a] - (set [a, b, c] - {0})" by auto
  then show ?thesis using temp_end [of R ps' h'] by auto
qed

lemma qwen_answer_lemma:
  fixes M :: "'f fmath"
  assumes m: "qwen_model_ok m" and pr: "0 \<notin> set prompt" "length prompt < 2 ^ 59" and v: "q_vocab_size (qm_config m) < 2 ^ 31"
    and smp: "simple_sampling (fl M) (make_sampler M tc pc seed)" and h: "inv h"
  shows "\<exists>n m' out h'. qwen_answer ops M m prompt max_tokens tc pc seed h = Some (n, m', out, h') \<and>
    inv h' \<and> regions h' = regions h \<and> qwen_model_ok m' \<and> list_all plain_piece out \<and>
    (case qwen_buffers ops m prompt h of
       None \<Rightarrow> n = LLM_ERR_OOM \<and> out = []
     | Some h3 \<Rightarrow> n = LLM_ERR_NO_MODEL \<and> out = [] \<and> no_tokens ops m prompt h3 \<or>
         0 \<le> n \<and> n \<le> int (q_seq_len (qm_config m)) \<and> (0 < max_tokens \<longrightarrow> n \<le> max_tokens + 1))"
proof -
  let ?c = "qm_config m" and ?R = "regions h"
  have T: "tok_ok (qm_tok m)" "31 \<le> unat (max_token_length (qm_tok m))" "qwen_shape ?c (qm_state m)"
    using m by (simp_all add: qwen_model_ok_def)
  have tl: "length TMPL_PRE = 17" "length TMPL_POST = 52" "0 \<notin> set TMPL_PRE" "0 \<notin> set TMPL_POST" by (simp_all add: TMPL_PRE_def TMPL_POST_def)
  define rlen where "rlen = length TMPL_PRE + 1 + length prompt + length TMPL_POST + 1"
  have rl: "rlen < 2 ^ 60" using pr(2) tl by (simp add: rlen_def)
  let ?s1 = "of_nat rlen :: u64" and ?s2 = "(of_nat rlen + 4) * 4 :: u64" and ?s3 = "of_nat (q_vocab_size ?c) * 8 :: u64"
  have "unat ?s1 = rlen" by (rule unat_of_nat_small) (use rl in simp)
  then have z1: "unat ?s1 \<le> 2 ^ 64 - 16" using rl by simp
  have "unat (of_nat ((rlen + 4) * 4) :: u64) = (rlen + 4) * 4" by (rule unat_of_nat_small) (use rl in simp)
  then have "unat ?s2 = (rlen + 4) * 4" by simp
  then have z2: "unat ?s2 \<le> 2 ^ 64 - 16" using rl by simp
  have "unat (of_nat (q_vocab_size ?c * 8) :: u64) = q_vocab_size ?c * 8" by (rule unat_of_nat_small) (use v in simp)
  then have "unat ?s3 = q_vocab_size ?c * 8" by simp
  then have z3: "unat ?s3 \<le> 2 ^ 64 - 16" using v by simp
  from malloc_temp [OF temp_start [OF h] z1] obtain rd h1 where m1: "heap_malloc ops ?s1 h = Some (rd, h1)" "temp ?R [rd] h1" by blast
  from malloc_temp [OF m1(2) z2] obtain pt h2 where m2: "heap_malloc ops ?s2 h1 = Some (pt, h2)" "temp ?R [pt, rd] h2" by blast
  from malloc_temp [OF m2(2) z3] obtain pi h3 where m3: "heap_malloc ops ?s3 h2 = Some (pi, h3)" "temp ?R [pi, pt, rd] h3" by blast
  note start = qwen_answer_def Let_def rlen_def [symmetric] m1(1) m2(1) m3(1) bind.bind_lunit prod.case
  show ?thesis
  proof (cases "rd = 0 \<or> pt = 0 \<or> pi = 0")
    case True
    from free_three [OF m3(2)] obtain h4 where f: "foldM (heap_free ops) [rd, pt, pi] h3 = Some h4" "inv h4" "regions h4 = ?R" by blast
    have "qwen_answer ops M m prompt max_tokens tc pc seed h = Some (LLM_ERR_OOM, m, [], h4)" unfolding start if_P [OF True] f(1) by simp
    moreover have "qwen_buffers ops m prompt h = None"
      unfolding qwen_buffers_def Let_def rlen_def [symmetric] m1(1) m2(1) m3(1) bind.bind_lunit prod.case if_P [OF True] ..
    ultimately show ?thesis using f m by simp
  next
    case False
    define shown where "shown = take (rlen - 1) (TMPL_PRE @ prompt @ TMPL_POST)"
    have tx: "0 \<notin> set shown" "length shown \<le> rlen + 4"
      using pr(1) tl(3,4) by (auto simp: shown_def dest!: in_set_takeD)
    from qwen_encode_lemma [OF T(1,2) tx m3(2), of "fl M"] obtain toks h4 where
      e: "qwen_encode ops (fl M) (qm_tok m) shown (rlen + 4) h3 = Some (toks, h4)" "temp ?R [pi, pt, rd] h4" "in_vocab (qm_tok m) toks"
      "toks = [] \<and> heap_malloc ops (ucast (max_token_length (qm_tok m)) * 2 + 3) h3 = Some (0, h4) \<or>
       ((\<forall>b\<in>set shown. [b] \<in> set (vocab (qm_tok m))) \<longrightarrow> spelled (qm_tok m) toks = shown)" by blast
    have whole: "shown = TMPL_PRE @ prompt @ TMPL_POST" by (simp add: shown_def rlen_def)
    note start = start if_not_P [OF False] shown_def [symmetric] e(1)
    have bf: "qwen_buffers ops m prompt h = Some h3"
      unfolding qwen_buffers_def Let_def rlen_def [symmetric] m1(1) m2(1) m3(1) bind.bind_lunit prod.case if_not_P [OF False] ..
    from free_three [OF e(2)] obtain h5 where f: "foldM (heap_free ops) [rd, pt, pi] h4 = Some h5" "inv h5" "regions h5 = ?R" by blast
    show ?thesis
    proof (cases "toks = []")
      case True
      have "qwen_answer ops M m prompt max_tokens tc pc seed h = Some (LLM_ERR_NO_MODEL, m, [], h5)" unfolding start if_P [OF True] f(1) by simp
      moreover have "no_tokens ops m prompt h3"
      proof (rule ccontr)
        assume a: "\<not> no_tokens ops m prompt h3"
        then have "spelled (qm_tok m) toks = shown" using e(4) unfolding whole no_tokens_def by auto
        then show False using True tl(1) unfolding whole by (auto simp: spelled_def)
      qed
      ultimately show ?thesis using f m bf by simp
    next
      case ne: False
      define steps where "steps = (if max_tokens > 0 \<and> int (length toks) + max_tokens < int (q_seq_len ?c)
                    then length toks + nat max_tokens else q_seq_len ?c)"
      have st: "steps \<le> q_seq_len ?c" unfolding steps_def by (simp split: if_split) linarith
      have l1: "0 < length toks" using ne by simp
      have lim: "int (steps - (length toks - 1)) \<le> max_tokens + 1" if "0 < max_tokens"
        using that l1 unfolding steps_def by (simp split: if_split) linarith
      have hd: "piece (qm_tok m) (hd toks) \<noteq> None" using e(3) hd_in_set [OF ne] unfolding in_vocab_def by blast
      from qwen_loop_ok [OF m e(3) st T(3) smp hd, of "[]" 0 0] obtain g st' out where
        g: "qwen_loop M m toks steps 0 (hd toks) 0 (make_sampler M tc pc seed) (qm_state m) [] = Some (g, st', out)"
        "qwen_shape ?c st'" "list_all plain_piece out" "g \<le> steps - (length toks - 1)" by auto
      have "qwen_answer ops M m prompt max_tokens tc pc seed h = Some (int g, m\<lparr>qm_state := st'\<rparr>, out, h5)"
        unfolding start if_not_P [OF ne] steps_def [symmetric] g(1) f(1) ..
      moreover have "qwen_model_ok (m\<lparr>qm_state := st'\<rparr>)" using m g(2) by (simp add: qwen_model_ok_def)
      moreover have "g \<le> q_seq_len ?c" using g(4) st by linarith
      moreover have "int g \<le> max_tokens + 1" if "0 < max_tokens" using lim [OF that] g(4) by linarith
      ultimately show ?thesis using f(2,3) g(3) bf by simp
    qed
  qed
qed

end

section \<open>A loaded model is ready to answer\<close>

lemma tensors_in_mono: "tensors_in L gs m ts N \<Longrightarrow> N \<le> N' \<Longrightarrow> tensors_in L gs m ts N'"
  by (auto simp: tensors_in_def tensor_in_def list_all_iff)

lemma map_tensors_ok:
  assumes "map_tensors ops gs n p m h = Some (Some ts, p', h')"
  shows "p' = p + n * tensor_bytes gs m \<and> tensors_in n gs m ts p'"
proof -
  have ts: "ts = map (\<lambda>i. \<lparr>qt_q = p + i * tensor_bytes gs m, qt_s = p + i * tensor_bytes gs m + m\<rparr>) [0..<n]"
    and p': "p' = p + n * tensor_bytes gs m"
    using assms by (auto simp: map_tensors_def bind_Some_iff split: if_splits prod.splits)
  have "tensor_in gs m (ts ! i) p'" if "i < n" for i
  proof -
    have "(i + 1) * tensor_bytes gs m \<le> n * tensor_bytes gs m" using that by (intro mult_le_mono1) simp
    then have "p + i * tensor_bytes gs m + tensor_bytes gs m \<le> p'" by (simp add: p')
    then have "p + i * tensor_bytes gs m + (m + 4 * (m div gs)) \<le> p'" unfolding tensor_bytes_def by (simp add: mult.commute)
    then show ?thesis using that by (simp add: ts tensor_in_def)
  qed
  then show ?thesis using p' by (simp add: tensors_in_def list_all_length ts)
qed

lemma map_all_tensors_ok:
  "map_all_tensors ops gs n p ms h = Some (r, p', h') \<Longrightarrow> None \<notin> set r \<Longrightarrow>
   p' = p + (\<Sum>m\<leftarrow>ms. n * tensor_bytes gs m) \<and> length r = length ms \<and> list_all2 (\<lambda>m ts. tensors_in n gs m (the ts) p') ms r"
proof (induction ms arbitrary: p h r)
  case Nil
  then show ?case by simp
next
  case (Cons m ms)
  from Cons.prems(1) obtain ts p1 h1 r1 where
    t: "map_tensors ops gs n p m h = Some (ts, p1, h1)" and r: "map_all_tensors ops gs n p1 ms h1 = Some (r1, p', h')" "r = ts # r1"
    by (auto simp: bind_Some_iff split: prod.splits)
  then obtain ts' where ts: "ts = Some ts'" using Cons.prems(2) by (cases ts) auto
  from map_tensors_ok [OF t [unfolded ts]] have 1: "p1 = p + n * tensor_bytes gs m" "tensors_in n gs m ts' p1" by blast+
  have "None \<notin> set r1" using Cons.prems(2) r(2) by simp
  from Cons.IH [OF r(1) this] have 2: "p' = p1 + (\<Sum>m\<leftarrow>ms. n * tensor_bytes gs m)" "length r1 = length ms"
    "list_all2 (\<lambda>m ts. tensors_in n gs m (the ts) p') ms r1" by blast+
  then have "tensors_in n gs m ts' p'" using tensors_in_mono [OF 1(2)] 2(1) by simp
  moreover have "p' = p + (\<Sum>m\<leftarrow>m # ms. n * tensor_bytes gs m)" using 1(1) 2(1) by simp
  ultimately show ?case using 2(2,3) unfolding r(2) ts by simp
qed

text \<open>The bytes a model file needs for the layout the code gives it.\<close>

definition qwen_file_bytes :: "qwen_config \<Rightarrow> nat" where
  "qwen_file_bytes c =
     (let L = q_n_layers c; d = q_dim c; hd = q_hidden_dim c; gs = q_group_size c; a = all_heads_dim c; kv = qkv_dim c
      in 256 + 8 * (L * d) + 4 * d + 8 * (L * q_head_dim c) + tensor_bytes gs (q_vocab_size c * d) +
         (\<Sum>m\<leftarrow>[d * a, d * kv, d * kv, a * d, d * hd, hd * d, d * hd]. L * tensor_bytes gs m) +
         (if q_shared c then 0 else tensor_bytes gs (q_vocab_size c * d)))"

lemma qwen_map_weights_ok:
  assumes w: "qwen_map_weights ops c h = Some (Some w, h')" and n: "qwen_file_bytes c \<le> N"
  shows "qwen_weights_ok c w N"
proof -
  let ?L = "q_n_layers c" and ?d = "q_dim c" and ?hd = "q_hidden_dim c" and ?gs = "q_group_size c" and ?a = "all_heads_dim c"
    and ?kv = "qkv_dim c" and ?V = "q_vocab_size c"
  let ?ms = "[?d * ?a, ?d * ?kv, ?d * ?kv, ?a * ?d, ?d * ?hd, ?hd * ?d, ?d * ?hd]"
  define tok where "tok = 256 + 4 * (?L * ?d) + 4 * (?L * ?d) + 4 * ?d + 4 * (?L * q_head_dim c) + 4 * (?L * q_head_dim c)"
  from w obtain r p h1 where
    r: "map_all_tensors ops ?gs ?L (tok + tensor_bytes ?gs (?V * ?d)) ?ms h = Some (r, p, h1)" "None \<notin> set r"
    and we: "w = \<lparr>q_tokens = \<lparr>qt_q = tok, qt_s = tok + ?V * ?d\<rparr>, qw_rms_att = 256, qw_rms_ffn = 256 + 4 * (?L * ?d),
      qw_rms_final = 256 + 4 * (?L * ?d) + 4 * (?L * ?d), qw_q_norm = 256 + 4 * (?L * ?d) + 4 * (?L * ?d) + 4 * ?d,
      qw_k_norm = 256 + 4 * (?L * ?d) + 4 * (?L * ?d) + 4 * ?d + 4 * (?L * q_head_dim c),
      qw_wq = the (r ! 0), qw_wk = the (r ! 1), qw_wv = the (r ! 2), qw_wo = the (r ! 3), qw_w1 = the (r ! 4),
      qw_w2 = the (r ! 5), qw_w3 = the (r ! 6),
      qw_cls = (if q_shared c then \<lparr>qt_q = tok, qt_s = tok + ?V * ?d\<rparr> else \<lparr>qt_q = p, qt_s = p + ?d * ?V\<rparr>)\<rparr>"
    unfolding qwen_map_weights_def Let_def tok_def [symmetric]
    by (auto simp: bind_Some_iff split: if_splits prod.splits)
  from map_all_tensors_ok [OF r] have p: "p = tok + tensor_bytes ?gs (?V * ?d) + (\<Sum>m\<leftarrow>?ms. ?L * tensor_bytes ?gs m)"
    and t: "list_all2 (\<lambda>m ts. tensors_in ?L ?gs m (the ts) p) ?ms r" by blast+
  have tb: "tensor_bytes ?gs m = m + 4 * (m div ?gs)" for m by (simp add: tensor_bytes_def mult.commute)
  have q: "tok = 256 + 8 * (?L * ?d) + 4 * ?d + 8 * (?L * q_head_dim c)" by (simp add: tok_def)
  have fb: "qwen_file_bytes c = p + (if q_shared c then 0 else tensor_bytes ?gs (?V * ?d))"
    unfolding qwen_file_bytes_def Let_def p q by (simp only: add.assoc)
  then have pN: "p \<le> N" using n by simp
  have tp: "tok + tensor_bytes ?gs (?V * ?d) \<le> p" unfolding p by (rule le_add1)
  have "list_all2 (\<lambda>m ts. tensors_in ?L ?gs m (the ts) N) ?ms r"
    by (rule list_all2_mono [OF t]) (rule tensors_in_mono [OF _ pN])
  then have ts: "tensors_in ?L ?gs (?d * ?a) (the (r ! 0)) N" "tensors_in ?L ?gs (?d * ?kv) (the (r ! 1)) N"
    "tensors_in ?L ?gs (?d * ?kv) (the (r ! 2)) N" "tensors_in ?L ?gs (?a * ?d) (the (r ! 3)) N"
    "tensors_in ?L ?gs (?d * ?hd) (the (r ! 4)) N" "tensors_in ?L ?gs (?hd * ?d) (the (r ! 5)) N"
    "tensors_in ?L ?gs (?d * ?hd) (the (r ! 6)) N"
    by (auto simp: list_all2_Cons1 eval_nat_numeral)
  have v: "256 + 4 * (?L * ?d) \<le> N" "256 + 4 * (?L * ?d) + 4 * (?L * ?d) \<le> N" "256 + 4 * (?L * ?d) + 4 * (?L * ?d) + 4 * ?d \<le> N"
    "256 + 4 * (?L * ?d) + 4 * (?L * ?d) + 4 * ?d + 4 * (?L * q_head_dim c) \<le> N" "tok \<le> N"
    using tp pN unfolding q by linarith+
  have e: "tok + ?V * ?d \<le> N" "tok + ?V * ?d + 4 * (?V * ?d div ?gs) \<le> N" using tp pN unfolding tb by linarith+
  have f: "p + ?d * ?V \<le> N" "p + ?d * ?V + 4 * (?V * ?d div ?gs) \<le> N" if "\<not> q_shared c"
    using n fb that unfolding tb by (simp_all add: mult.commute [of ?d ?V])
  show ?thesis unfolding qwen_weights_ok_def Let_def we qwen_weights.simps
    using ts v e f by (auto simp: tensor_in_def mult.commute [of _ ?d] tok_def)
qed

text \<open>The arena is large enough: a piece needs one byte more than its text, its entry in the file eight more.\<close>

lemma qwen_entries_ok:
  "a + length p \<le> cap \<Longrightarrow> length sc = length voc \<Longrightarrow> \<forall>s\<in>set voc. 0 \<notin> set s \<Longrightarrow>
   \<exists>r. qwen_entries bits cap k p a (voc, sc) = Some r \<and>
     (case r of None \<Rightarrow> True | Some (voc', sc') \<Rightarrow>
        length voc' = length voc + k \<and> length sc' = length voc' \<and> (\<forall>s\<in>set voc'. 0 \<notin> set s))"
proof (induction k arbitrary: p a voc sc)
  case 0
  then show ?case by simp
next
  case (Suc k)
  let ?len = "unat (read_u32_le (drop 4 p))"
  let ?s = "c_str (take ?len (drop 8 p))"
  show ?case
  proof (cases "length p < 8 \<or> ?len > length p - 8")
    case True
    then show ?thesis by (auto simp: Let_def)
  next
    case False
    then have fit: "\<not> a + ?len + 1 > cap" "a + ?len + 1 + length (drop (8 + ?len) p) \<le> cap" using Suc.prems(1) by auto
    have "qwen_entries bits cap (Suc k) p a (voc, sc) =
        qwen_entries bits cap k (drop (8 + ?len) p) (a + ?len + 1) (voc @ [?s], sc @ [bits (read_u32_le p)])"
      using False fit(1) by (simp add: Let_def)
    moreover have "length (sc @ [bits (read_u32_le p)]) = length (voc @ [?s])" "\<forall>s\<in>set (voc @ [?s]). 0 \<notin> set s"
      using Suc.prems(2,3) c_str_text(1) by auto
    note Suc.IH [OF fit(2) this]
    ultimately show ?thesis by (simp only: length_append list.size add_Suc_right add_Suc add_0_right add_0)
  qed
qed

lemma qwen_build_tokenizer_ok:
  assumes "qwen_build_tokenizer ops bits data n h = Some (Some t, h')" "n \<le> 2 ^ 30"
    and "\<forall>s\<in>set (vocab t). length s \<le> unat (max_token_length t)" "unat (max_token_length t) < 2 ^ 31 - 1"
  shows "tok_ok t \<and> length (vocab t) = n"
proof -
  from assms(1) obtain voc sc sorted where l: "\<not> length data < 12" and
    e: "qwen_entries bits (length data) n (drop 12 data) 0 ([], []) = Some (Some (voc, sc))" and
    s: "tok_sort (entries voc) n = Some sorted" and
    t: "t = \<lparr>vocab = voc, vocab_scores = sc, sorted_vocab = sorted, vocab_size = int n, max_token_length = read_u32_le data,
      bos_token_id = read_u32_le (drop 4 data), eos_token_id = read_u32_le (drop 8 data)\<rparr>"
    by (auto simp: qwen_build_tokenizer_def bind_Some_iff split: if_splits prod.splits option.splits)
  have "0 + length (drop 12 data) \<le> length data" "length [] = length []" "\<forall>s\<in>set []. 0 \<notin> set s" by simp_all
  from qwen_entries_ok [OF this(1), of "[]" "[]" bits n] have "length voc = n" "length sc = n" "\<forall>s\<in>set voc. 0 \<notin> set s" using e by auto
  then show ?thesis using s assms(2-4) unfolding t tok_ok_def by auto
qed

definition qwen_small :: "qwen_config \<Rightarrow> bool" where
  "qwen_small c \<longleftrightarrow> q_dim c < 2 ^ 31 \<and> xb_dim c < 2 ^ 31 \<and> q_hidden_dim c < 2 ^ 31 \<and> all_heads_dim c < 2 ^ 31 \<and> q_vocab_size c \<le> 2 ^ 30 \<and>
     q_n_heads c * q_seq_len c < 2 ^ 31 \<and> q_n_layers c * q_seq_len c * qkv_dim c < 2 ^ 31"

lemma qwen_alloc_shape:
  assumes "qwen_alloc_run_state ops M c h = Some (Some s, h')" "qwen_small c"
  shows "qwen_shape c s"
proof -
  let ?kv = "q_n_layers c * q_seq_len c * qkv_dim c" and ?a = "q_n_heads c * q_seq_len c" and ?gs = "q_group_size c"
  have s: "s = \<lparr>qs_x = zeros M (q_dim c), qs_xb = zeros M (xb_dim c), qs_hb = zeros M (q_hidden_dim c), qs_hb2 = zeros M (q_hidden_dim c),
      qs_xq = replicate (xb_dim c) 0, qs_xq_s = zeros M (xb_dim c div ?gs), qs_hq = replicate (q_hidden_dim c) 0,
      qs_hq_s = zeros M (q_hidden_dim c div ?gs), qs_q = zeros M (all_heads_dim c), qs_att = zeros M ?a,
      qs_logits = zeros M (q_vocab_size c), qs_key_cache = zeros M ?kv, qs_value_cache = zeros M ?kv,
      rope_freq = rope_table M (q_head_dim c div 2)\<rparr>"
    using assms(1) by (auto simp: qwen_alloc_run_state_def Let_def bind_Some_iff split: if_splits prod.splits)
  have z: "q_dim c < 2 ^ 31" "xb_dim c < 2 ^ 31" "q_hidden_dim c < 2 ^ 31" "all_heads_dim c < 2 ^ 31" "q_vocab_size c < 2 ^ 31"
    "?a < 2 ^ 31" "?kv < 2 ^ 31" using assms(2) by (simp_all add: qwen_small_def)
  have d: "xb_dim c div ?gs < 2 ^ 31" "q_hidden_dim c div ?gs < 2 ^ 31"
    by (rule le_less_trans [OF div_le_dividend z(2)], rule le_less_trans [OF div_le_dividend z(3)])
  show ?thesis unfolding s qwen_shape_def by (simp only: qwen_state.simps z [THEN zeros_length] d [THEN zeros_length]
    length_replicate rope_table_def length_map length_upt diff_zero)
qed

text \<open>
  A model that \<open>load\_qwen\<close> loads from a file with the bytes its header asks for satisfies \<open>qwen\_model\_ok\<close>,
  given a vocabulary file that tells its longest piece (and one long enough for the special tokens).
\<close>

lemma load_qwen_ok:
  assumes load: "load_qwen ops M mods None h = Some (Some m, h')"
    and md: "module_find mods (chars ''qwen3.bin'') = Some md" "read_qwen_config (mod_bytes md) = Some c"
      "qwen_ok c" "qwen_small c" "0 < q_vocab_size c" "qwen_file_bytes c \<le> length (mod_bytes md)"
    and tok: "\<forall>s\<in>set (vocab (qm_tok m)). length s \<le> unat (max_token_length (qm_tok m))"
      "31 \<le> unat (max_token_length (qm_tok m))" "unat (max_token_length (qm_tok m)) < 2 ^ 31 - 1"
  shows "qm_config m = c \<and> qwen_model_ok m"
proof -
  from load obtain tk :: modul and w st t h1 h2 h3 d where
    w: "qwen_map_weights ops c h = Some (Some w, h1)" and s: "qwen_alloc_run_state ops M c h1 = Some (Some st, h2)" and
    t: "qwen_build_tokenizer ops (f_bits M) (mod_bytes tk) (q_vocab_size c) h2 = Some (Some t, h3)" and
    m: "m = \<lparr>qm_config = c, qm_weights = w, qm_data = mod_bytes md, qm_state = st, qm_tok = t, qm_describe = d\<rparr>"
    unfolding load_qwen_def md(1) option.case prod.case Let_def
    by (auto simp: md(2) bind_Some_iff split: option.splits prod.splits if_splits)
  have v: "q_vocab_size c \<le> 2 ^ 30" using md(4) by (simp add: qwen_small_def)
  have "tok_ok t \<and> length (vocab t) = q_vocab_size c"
    by (rule qwen_build_tokenizer_ok [OF t v]) (use tok in \<open>simp_all add: m\<close>)
  then show ?thesis using md(3,5) qwen_map_weights_ok [OF w md(6)] qwen_alloc_shape [OF s md(4)] tok(2)
    by (simp add: m qwen_model_ok_def)
qed

section \<open>Properties\<close>


text \<open>One layer of four dimensions, a vocabulary of the ASCII characters.\<close>

definition sample_pieces :: "u8 list list" where
  "sample_pieces = map (\<lambda>i. [of_nat i]) [1..<128]"

definition sample_qwen :: "int qwen_model" where
  "sample_qwen = \<lparr>qm_config = \<lparr>q_dim = 4, q_hidden_dim = 4, q_n_layers = 1, q_n_heads = 1, q_n_kv_heads = 1,
       q_vocab_size = length sample_pieces, q_seq_len = 80, q_head_dim = 2, q_shared = True, q_group_size = 4\<rparr>,
     qm_weights = \<lparr>q_tokens = \<lparr>qt_q = 0, qt_s = 500\<rparr>, qw_rms_att = 0, qw_rms_ffn = 0, qw_rms_final = 0, qw_q_norm = 0, qw_k_norm = 0,
       qw_wq = [\<lparr>qt_q = 0, qt_s = 500\<rparr>], qw_wk = [\<lparr>qt_q = 0, qt_s = 500\<rparr>], qw_wv = [\<lparr>qt_q = 0, qt_s = 500\<rparr>],
       qw_wo = [\<lparr>qt_q = 0, qt_s = 500\<rparr>], qw_w1 = [\<lparr>qt_q = 0, qt_s = 500\<rparr>], qw_w2 = [\<lparr>qt_q = 0, qt_s = 500\<rparr>],
       qw_w3 = [\<lparr>qt_q = 0, qt_s = 500\<rparr>], qw_cls = \<lparr>qt_q = 0, qt_s = 500\<rparr>\<rparr>,
     qm_data = replicate 2000 1,
     qm_state = \<lparr>qs_x = replicate 4 0, qs_xb = replicate 4 0, qs_hb = replicate 4 0, qs_hb2 = replicate 4 0, qs_xq = replicate 4 0,
       qs_xq_s = [0], qs_hq = replicate 4 0, qs_hq_s = [0], qs_q = [0, 0], qs_att = replicate 80 0,
       qs_logits = replicate (length sample_pieces) 0, qs_key_cache = replicate 160 0, qs_value_cache = replicate 160 0,
       rope_freq = [1000]\<rparr>,
     qm_tok = \<lparr>vocab = sample_pieces, vocab_scores = replicate (length sample_pieces) 0,
       sorted_vocab = heap_sort compare_tokens (length sample_pieces) (entries sample_pieces),
       vocab_size = int (length sample_pieces), max_token_length = 40, bos_token_id = 1000, eos_token_id = 1001\<rparr>,
     qm_describe = []\<rparr>"

lemma sample_pieces: "length sample_pieces = 127" "\<forall>s\<in>set sample_pieces. 0 \<notin> set s \<and> length s \<le> 40"
proof -
  show "length sample_pieces = 127" by (simp add: sample_pieces_def)
  have "(of_nat i :: u8) \<noteq> 0" if "i \<in> {1..<128}" for i
  proof
    assume "(of_nat i :: u8) = 0"
    moreover have "unat (of_nat i :: u8) = i" by (rule unat_of_nat_small) (use that in simp)
    ultimately show False using that by simp
  qed
  then show "\<forall>s\<in>set sample_pieces. 0 \<notin> set s \<and> length s \<le> 40" by (force simp: sample_pieces_def)
qed

lemma ascii_piece: "0 < b \<Longrightarrow> b < 128 \<Longrightarrow> [b] \<in> set sample_pieces"
proof -
  assume "0 < b" "b < (128 :: u8)"
  then have "1 \<le> unat b" "unat b < 128" by (simp_all add: word_less_nat_alt)
  then show ?thesis by (auto simp: sample_pieces_def intro!: image_eqI [of _ _ "unat b"])
qed

lemma sample_qwen_ok: "qwen_model_ok sample_qwen"
proof -
  let ?c = "qm_config sample_qwen"
  have d: "all_heads_dim ?c = 2" "qkv_dim ?c = 2" "xb_dim ?c = 4" by (simp_all add: all_heads_dim_def qkv_dim_def xb_dim_def sample_qwen_def)
  have "qwen_ok ?c" by (simp add: qwen_ok_def sample_qwen_def)
  moreover have "qwen_weights_ok ?c (qm_weights sample_qwen) (length (qm_data sample_qwen))"
    unfolding qwen_weights_ok_def Let_def d
    using sample_pieces(1) by (simp add: sample_qwen_def tensors_in_def tensor_in_def)
  moreover have "qwen_shape ?c (qm_state sample_qwen)" unfolding qwen_shape_def d by (simp add: sample_qwen_def)
  moreover have "tok_ok (qm_tok sample_qwen)"
    using sample_pieces by (simp add: tok_ok_def sample_qwen_def tok_sort_def)
  moreover have "31 \<le> unat (max_token_length (qm_tok sample_qwen))" "0 < q_vocab_size ?c"
    "length (vocab (qm_tok sample_qwen)) = q_vocab_size ?c" using sample_pieces(1) by (simp_all add: sample_qwen_def)
  ultimately show ?thesis by (simp add: qwen_model_ok_def)
qed


end
