(* ===== verification/ChatPanel.thy ===== *)
theory ChatPanel
  imports Kprintf
begin

text \<open>
  The part of \<open>chat.c\<close> that lays text out: drawing in character cells on the frame buffer and the
  word wrap of one message into the buffer of lines. Text is the list of the bytes before its NUL.
  \<open>None\<close> is an access outside a buffer or a loop that does not end.
\<close>

section \<open>Colours and limits\<close>

definition COL_SERVERBAR :: u32 where "COL_SERVERBAR = 0x202225"
definition COL_SIDEBAR :: u32 where "COL_SIDEBAR = 0x2F3136"
definition COL_CHAT :: u32 where "COL_CHAT = 0x36393F"
definition COL_INPUT :: u32 where "COL_INPUT = 0x40444B"
definition COL_TEXT :: u32 where "COL_TEXT = 0xDCDDDE"
definition COL_MUTED :: u32 where "COL_MUTED = 0x72767D"
definition COL_HEADER :: u32 where "COL_HEADER = 0xFFFFFF"
definition COL_BLURPLE :: u32 where "COL_BLURPLE = 0x5865F2"
definition COL_GREEN :: u32 where "COL_GREEN = 0x3BA55D"
definition COL_SELECTED :: u32 where "COL_SELECTED = 0x42464D"
definition COL_DIVIDER :: u32 where "COL_DIVIDER = 0x26282C"

definition MSG_TEXT_MAX :: nat where "MSG_TEXT_MAX = 2048"
definition MSGS_PER_CHANNEL :: nat where "MSGS_PER_CHANNEL = 24"
definition INPUT_MAX :: nat where "INPUT_MAX = 220"
definition NUM_CHANNELS :: nat where "NUM_CHANNELS = 4"
definition MAX_LINES :: nat where "MAX_LINES = 512"

lemmas chat_limits = MSG_TEXT_MAX_def MSGS_PER_CHANNEL_def INPUT_MAX_def NUM_CHANNELS_def MAX_LINES_def

section \<open>The grid\<close>

text \<open>The static layout variables; all are C ints.\<close>

record layout =
  fw :: int
  fh :: int
  cols :: int
  rows :: int
  sidebar_cols :: int
  members_cols :: int
  chat_x :: int
  chat_cols :: int
  header_rows :: int
  input_rows :: int
  chat_top :: int
  chat_rows :: int

text \<open>A font without width or height divides by zero.\<close>

definition chat_layout :: "font \<Rightarrow> framebuffer \<Rightarrow> layout option" where
  "chat_layout f s =
     (let fw = sint (f_width f); fh = sint (f_height f)
      in if fw = 0 \<or> fh = 0 then None
         else
           let cols = sint (ucast (fb_width s div scast (f_width f)) :: u32);
               rows = sint (ucast (fb_height s div scast (f_height f)) :: u32);
               x = 3 + 22
           in Some \<lparr>fw = fw, fh = fh, cols = cols, rows = rows, sidebar_cols = 22, members_cols = 18,
                chat_x = x, chat_cols = cols - x - 18, header_rows = 2, input_rows = 2, chat_top = 2,
                chat_rows = rows - 2 - 2\<rparr>)"

definition fill_cells :: "layout \<Rightarrow> int \<Rightarrow> int \<Rightarrow> int \<Rightarrow> int \<Rightarrow> u32 \<Rightarrow> framebuffer \<Rightarrow> framebuffer option" where
  "fill_cells l cx cy w h c =
     framebuffer_draw_rect (of_int cx * of_int (fw l)) (of_int cy * of_int (fh l))
       (of_int w * of_int (fw l)) (of_int h * of_int (fh l)) c"

primrec put_text :: "font \<Rightarrow> u8 list \<Rightarrow> int \<Rightarrow> int \<Rightarrow> u32 \<Rightarrow> u32 \<Rightarrow> framebuffer \<Rightarrow> framebuffer option" where
  "put_text f [] cx cy fg bg s = Some s"
| "put_text f (c # cs) cx cy fg bg s =
     framebuffer_put_char f (ucast c) (of_int cx) (of_int cy) fg bg s \<bind> put_text f cs (cx + 1) cy fg bg"

text \<open>The loop ends after \<open>n\<close> bytes or at the NUL.\<close>

definition put_text_n :: "font \<Rightarrow> u8 list \<Rightarrow> int \<Rightarrow> int \<Rightarrow> int \<Rightarrow> u32 \<Rightarrow> u32 \<Rightarrow> framebuffer \<Rightarrow> framebuffer option" where
  "put_text_n f s n cx cy fg bg = put_text f (take (nat n) s) cx cy fg bg"

section \<open>Messages and wrapped lines\<close>

record message =
  author :: "u8 list"
  color :: u32
  msg_text :: "u8 list"
  minutes :: u32

record wrap_line =
  wl_text :: "u8 list"
  wl_fg :: u32
  author_line :: bool
  author_color :: u32
  wl_minutes :: u32

text \<open>The line buffer: NULL until it is allocated, then \<open>MAX_LINES\<close> entries, the first \<open>line_count\<close> in use.\<close>

record panel =
  p_lines :: "wrap_line list option"
  line_count :: nat

definition next_line :: "(wrap_line \<Rightarrow> wrap_line) \<Rightarrow> panel \<Rightarrow> panel option" where
  "next_line g p = p_lines p \<bind> (\<lambda>ls.
     if line_count p < length ls
     then Some (p\<lparr>p_lines := Some (ls[line_count p := g (ls ! line_count p)]), line_count := line_count p + 1\<rparr>)
     else None)"

text \<open>Copies at most 199 bytes; \<open>author_color\<close> and \<open>wl_minutes\<close> keep what the entry held.\<close>

definition wrap_push :: "u8 list \<Rightarrow> int \<Rightarrow> u32 \<Rightarrow> panel \<Rightarrow> panel option" where
  "wrap_push s n fg p =
     (if line_count p \<ge> MAX_LINES then Some p
      else
        let n = (if n > 200 - 1 then 200 - 1 else n)
        in if n < 0 then None
           else slice_at s 0 (nat n) \<bind> (\<lambda>t.
             next_line (\<lambda>L. L\<lparr>wl_text := t, wl_fg := fg, author_line := False\<rparr>) p))"

text \<open>From position \<open>bs\<close> back to the last space, or to 0.\<close>

primrec back_up :: "u8 list \<Rightarrow> nat \<Rightarrow> nat" where
  "back_up p 0 = 0"
| "back_up p (Suc bs) = (if p ! Suc bs \<noteq> 32 then back_up p bs else Suc bs)"

definition take_width :: "int \<Rightarrow> u8 list \<Rightarrow> int \<Rightarrow> int" where
  "take_width width p avail =
     (let tk = (if avail < width then avail else width)
      in if tk = width \<and> avail > width then
           let bs = (if tk > 0 then int (back_up p (nat tk)) else tk)
           in if bs > width div 2 then bs else tk
         else tk)"

partial_function (option) wrap_body :: "int \<Rightarrow> u8 list \<Rightarrow> panel \<Rightarrow> panel option" where
  "wrap_body width p st =
     (if p = [] then Some st
      else
        let p = dropWhile (\<lambda>c. c = 32) p
        in if p = [] then Some st
           else
             let avail = length (takeWhile (\<lambda>c. c \<noteq> 10) p);
                 tk = take_width width p (int avail)
             in wrap_push p tk COL_TEXT st \<bind> (\<lambda>st.
                if tk < 0 then None
                else wrap_body width (if nat tk = avail \<and> avail < length p then drop (Suc avail) p else drop (nat tk) p) st))"

definition wrap_message :: "message \<Rightarrow> int \<Rightarrow> panel \<Rightarrow> panel option" where
  "wrap_message m width p =
     (if line_count p \<ge> MAX_LINES then Some p
      else
        next_line (\<lambda>L. L\<lparr>wl_text := take (200 - 1) (author m), author_line := True, author_color := color m,
          wl_minutes := minutes m, wl_fg := COL_TEXT\<rparr>) p \<bind>
        wrap_body width (msg_text m))"
section \<open>Wrapping ends and loses nothing\<close>

definition panel_ok :: "panel \<Rightarrow> bool" where
  [inv_simps]: "panel_ok p \<longleftrightarrow> (\<exists>ls. p_lines p = Some ls \<and> length ls = MAX_LINES) \<and> line_count p \<le> MAX_LINES"

definition lines_used :: "panel \<Rightarrow> wrap_line list" where
  "lines_used p = take (line_count p) (the (p_lines p))"

lemma next_line_ok:
  assumes "panel_ok p" "line_count p < MAX_LINES"
  shows "\<exists>p' L. next_line g p = Some p' \<and> panel_ok p' \<and> line_count p' = Suc (line_count p) \<and> lines_used p' = lines_used p @ [g L]"
proof -
  from assms(1) obtain ls where ls: "p_lines p = Some ls" "length ls = MAX_LINES" by (auto simp: panel_ok_def)
  let ?p = "p\<lparr>p_lines := Some (ls[line_count p := g (ls ! line_count p)]), line_count := line_count p + 1\<rparr>"
  have "next_line g p = Some ?p" using ls assms(2) by (simp add: next_line_def)
  moreover have "panel_ok ?p" using ls assms by (simp add: panel_ok_def)
  moreover have "lines_used ?p = lines_used p @ [g (ls ! line_count p)]"
    using ls assms(2) by (simp add: lines_used_def take_Suc_conv_app_nth)
  ultimately show ?thesis by (intro exI [of _ ?p] exI [of _ "ls ! line_count p"]) simp
qed

lemma lines_used_length: "panel_ok p \<Longrightarrow> length (lines_used p) = line_count p"
  by (auto simp: panel_ok_def lines_used_def)

text \<open>What a pushed line looks like: part of the text, no wider than asked for.\<close>

definition body_line :: "int \<Rightarrow> wrap_line \<Rightarrow> bool" where
  "body_line width L \<longleftrightarrow> \<not> author_line L \<and> length (wl_text L) \<le> 199 \<and> int (length (wl_text L)) \<le> width \<and> wl_fg L = COL_TEXT \<and>
     10 \<notin> set (wl_text L)"

lemma wrap_push_ok:
  assumes p: "panel_ok p" and n: "0 \<le> n" "nat n \<le> length s"
  shows "\<exists>p' ls. wrap_push s n c p = Some p' \<and> panel_ok p' \<and> lines_used p' = lines_used p @ ls \<and>
    (line_count p < MAX_LINES \<and>
     (\<exists>L. ls = [L] \<and> wl_text L = take (min (nat n) 199) s \<and> \<not> author_line L \<and> wl_fg L = c) \<or>
     line_count p = MAX_LINES \<and> p' = p \<and> ls = [])"
proof (cases "line_count p < MAX_LINES")
  case True
  define k where "k = (if n > 200 - 1 then 200 - 1 else n)"
  have k: "0 \<le> k" "nat k \<le> length s" "nat k = min (nat n) 199" using n by (auto simp: k_def)
  from next_line_ok [OF p True, of "\<lambda>L. L\<lparr>wl_text := take (nat k) s, wl_fg := c, author_line := False\<rparr>"]
  obtain p' L where "next_line (\<lambda>L. L\<lparr>wl_text := take (nat k) s, wl_fg := c, author_line := False\<rparr>) p = Some p'"
    "panel_ok p'" "lines_used p' = lines_used p @ [L\<lparr>wl_text := take (nat k) s, wl_fg := c, author_line := False\<rparr>]" by blast
  moreover have "slice_at s 0 (nat k) = Some (take (nat k) s)" using k(2) by (simp add: slice_at_def)
  ultimately have "wrap_push s n c p = Some p' \<and> panel_ok p' \<and>
      lines_used p' = lines_used p @ [L\<lparr>wl_text := take (nat k) s, wl_fg := c, author_line := False\<rparr>]"
    using True k(1) unfolding wrap_push_def Let_def k_def [symmetric] by simp
  then show ?thesis using True k(3) by (intro exI [of _ p']) auto
next
  case False
  then have "line_count p = MAX_LINES" using p by (simp add: panel_ok_def)
  then show ?thesis using p by (intro exI [of _ p]) (simp add: wrap_push_def)
qed

lemma back_up_le: "back_up p n \<le> n"
  by (induction n) auto

lemma take_width_bounds:
  assumes "1 \<le> width" "0 \<le> avail"
  shows "0 \<le> take_width width p avail" "take_width width p avail \<le> width" "take_width width p avail \<le> avail"
    "0 < avail \<Longrightarrow> 0 < take_width width p avail"
proof -
  have "int (back_up p (nat width)) \<le> width" using back_up_le [of p "nat width"] assms(1) by linarith
  moreover have "0 \<le> width div 2" using assms(1) by simp
  ultimately show "0 \<le> take_width width p avail" "take_width width p avail \<le> width" "take_width width p avail \<le> avail"
    "0 < avail \<Longrightarrow> 0 < take_width width p avail"
    using assms by (auto simp: take_width_def Let_def)
qed

definition solid :: "u8 list \<Rightarrow> u8 list" where
  "solid = filter (\<lambda>c. c \<noteq> 32 \<and> c \<noteq> 10)"

lemma solid_append [simp]: "solid (xs @ ys) = solid xs @ solid ys" "solid [] = []"
  by (simp_all add: solid_def)

lemma solid_skip: "solid (dropWhile (\<lambda>c. c = 32) s) = solid s"
  by (induction s) (auto simp: solid_def)

lemma solid_newline: "c = 10 \<Longrightarrow> solid (c # s) = solid s"
  by (simp add: solid_def)

text \<open>One turn of the loop: what is cut off and what is left.\<close>

lemma wrap_turn:
  assumes p: "p \<noteq> []" and w: "1 \<le> width"
  defines "avail \<equiv> length (takeWhile (\<lambda>c. c \<noteq> 10) p)" and "k \<equiv> nat (take_width width p (int (length (takeWhile (\<lambda>c. c \<noteq> 10) p))))"
  defines "r \<equiv> (if k = avail \<and> avail < length p then drop (Suc avail) p else drop k p)"
  shows "length r < length p" "solid p = solid (take k p) @ solid r" "k \<le> avail" "k \<le> length p" "int k \<le> width" "10 \<notin> set (take k p)"
proof -
  note b = take_width_bounds [OF w, of "int avail" p, simplified]
  have k: "int k \<le> width" "k \<le> avail" "0 < avail \<Longrightarrow> 0 < k" using b unfolding k_def avail_def by auto
  have al: "avail \<le> length p" unfolding avail_def by (rule length_takeWhile_le)
  have tk: "takeWhile (\<lambda>c. c \<noteq> 10) p = take avail p" unfolding avail_def by (rule takeWhile_eq_take)
  have "set (take k p) \<subseteq> set (take avail p)" using k(2) by (rule set_take_subset_set_take)
  moreover have "10 \<notin> set (take avail p)" unfolding tk [symmetric] by (auto dest: set_takeWhileD)
  ultimately show "10 \<notin> set (take k p)" by blast
  show "k \<le> avail" "int k \<le> width" "k \<le> length p" using k al by auto
  show "length r < length p"
  proof (cases "avail = 0")
    case True
    then show ?thesis using p k by (simp add: r_def)
  next
    case False
    then show ?thesis using p k by (auto simp: r_def)
  qed
  show "solid p = solid (take k p) @ solid r"
  proof (cases "k = avail \<and> avail < length p")
    case True
    then have nl: "p ! avail = 10" using nth_length_takeWhile [of "\<lambda>c. c \<noteq> 10" p] unfolding avail_def by simp
    have "p = take avail p @ p ! avail # drop (Suc avail) p" using True by (simp add: id_take_nth_drop)
    then have "solid p = solid (take avail p @ p ! avail # drop (Suc avail) p)" by simp
    also have "\<dots> = solid (take k p) @ solid r" using True solid_newline [OF nl] by (simp add: r_def)
    finally show ?thesis .
  next
    case False
    then show ?thesis by (metis append_take_drop_id r_def solid_append(1))
  qed
qed

lemma wrap_body_ok:
  assumes "1 \<le> width" "panel_ok p"
  shows "\<exists>p' ls. wrap_body width s p = Some p' \<and> panel_ok p' \<and> lines_used p' = lines_used p @ ls \<and> list_all (body_line width) ls \<and>
    (width \<le> 199 \<and> line_count p' < MAX_LINES \<longrightarrow> solid (concat (map wl_text ls)) = solid s)"
  using assms(2)
proof (induction "length s" arbitrary: s p rule: less_induct)
  case less
  define q where "q = dropWhile (\<lambda>c. c = 32) s"
  have qs: "solid q = solid s" "length q \<le> length s" unfolding q_def by (rule solid_skip, rule length_dropWhile_le)
  show ?case
  proof (cases "q = []")
    case True
    then have "wrap_body width s p = Some p" by (subst wrap_body.simps) (simp add: q_def Let_def)
    then show ?thesis using less.prems qs(1) True by (intro exI [of _ p] exI [of _ "[]"]) simp
  next
    case False
    then have s: "s \<noteq> []" by (auto simp: q_def)
    define avail where "avail = length (takeWhile (\<lambda>c. c \<noteq> 10) q)"
    define tk where "tk = take_width width q (int avail)"
    define r where "r = (if nat tk = avail \<and> avail < length q then drop (Suc avail) q else drop (nat tk) q)"
    note turn = wrap_turn [OF False assms(1), folded avail_def, folded tk_def, folded r_def]
    have tk0: "0 \<le> tk" unfolding tk_def by (rule take_width_bounds(1) [OF assms(1)]) simp
    from wrap_push_ok [OF less.prems tk0 turn(4), of COL_TEXT] obtain p1 l1 where
      p1: "wrap_push q tk COL_TEXT p = Some p1" "panel_ok p1" "lines_used p1 = lines_used p @ l1" and
      l1: "line_count p < MAX_LINES \<and>
        (\<exists>L. l1 = [L] \<and> wl_text L = take (min (nat tk) 199) q \<and> \<not> author_line L \<and> wl_fg L = COL_TEXT) \<or>
        line_count p = MAX_LINES \<and> p1 = p \<and> l1 = []" by blast
    have run: "wrap_body width s p = wrap_body width r p1"
      using s False p1(1) tk0 by (subst wrap_body.simps) (simp add: Let_def q_def [symmetric] avail_def [symmetric] tk_def [symmetric] r_def)
    have "length r < length s" using turn(1) qs(2) by linarith
    from less.hyps [OF this p1(2)] obtain p' l2 where
      p': "wrap_body width r p1 = Some p'" "panel_ok p'" "lines_used p' = lines_used p1 @ l2" "list_all (body_line width) l2"
        "width \<le> 199 \<and> line_count p' < MAX_LINES \<longrightarrow> solid (concat (map wl_text l2)) = solid r" by blast
    have sub: "set (take (min (nat tk) 199) q) \<subseteq> set (take (nat tk) q)" by (rule set_take_subset_set_take) simp
    have b1: "list_all (body_line width) l1"
      using l1 turn(5,6) sub tk0 by (auto simp: body_line_def)
    have "solid (concat (map wl_text (l1 @ l2))) = solid s" if a: "width \<le> 199 \<and> line_count p' < MAX_LINES"
    proof -
      have "line_count p' = line_count p + length l1 + length l2"
        using lines_used_length [OF p'(2)] lines_used_length [OF less.prems] p'(3) p1(3) by simp
      then have "line_count p \<noteq> MAX_LINES" using a by simp
      moreover have "nat tk \<le> 199" using a turn(5) tk0 by (simp add: nat_le_iff)
      then have "min (nat tk) 199 = nat tk" by simp
      ultimately have "concat (map wl_text l1) = take (nat tk) q" using l1 by auto
      then show ?thesis using p'(5) a turn(2) qs(1) by simp
    qed
    then show ?thesis using run p' p1(3) b1 by (intro exI [of _ p'] exI [of _ "l1 @ l2"]) simp
  qed
qed

lemma wrap_message_ok:
  assumes "1 \<le> width" "panel_ok p"
  shows "\<exists>p' ls. wrap_message m width p = Some p' \<and> panel_ok p' \<and> lines_used p' = lines_used p @ ls \<and>
    (line_count p = MAX_LINES \<and> ls = [] \<or>
     (\<exists>H bs. ls = H # bs \<and> author_line H \<and> wl_text H = take 199 (author m) \<and> author_color H = color m \<and>
       wl_minutes H = minutes m \<and> list_all (body_line width) bs \<and>
       (width \<le> 199 \<and> line_count p' < MAX_LINES \<longrightarrow> solid (concat (map wl_text bs)) = solid (msg_text m))))"
proof (cases "line_count p < MAX_LINES")
  case True
  let ?g = "\<lambda>L :: wrap_line. L\<lparr>wl_text := take (200 - 1) (author m), author_line := True, author_color := color m,
          wl_minutes := minutes m, wl_fg := COL_TEXT\<rparr>"
  from next_line_ok [OF assms(2) True, of ?g] obtain p1 L where
    p1: "next_line ?g p = Some p1" "panel_ok p1" "lines_used p1 = lines_used p @ [?g L]" by blast
  from wrap_body_ok [OF assms(1) p1(2), of "msg_text m"] obtain p' bs where
    p': "wrap_body width (msg_text m) p1 = Some p'" "panel_ok p'" "lines_used p' = lines_used p1 @ bs" "list_all (body_line width) bs"
      "width \<le> 199 \<and> line_count p' < MAX_LINES \<longrightarrow> solid (concat (map wl_text bs)) = solid (msg_text m)" by blast
  have run: "wrap_message m width p = Some p'" using True p1(1) p'(1) by (simp add: wrap_message_def)
  show ?thesis
  proof (intro exI conjI disjI2)
    show "wrap_message m width p = Some p'" by (rule run)
    show "panel_ok p'" by (rule p'(2))
    show "lines_used p' = lines_used p @ ?g L # bs" using p'(3) p1(3) by simp
    show "author_line (?g L)" "wl_text (?g L) = take 199 (author m)" "author_color (?g L) = color m"
      "wl_minutes (?g L) = minutes m" by simp_all
    show "list_all (body_line width) bs" by (rule p'(4))
    show "width \<le> 199 \<and> line_count p' < MAX_LINES \<longrightarrow> solid (concat (map wl_text bs)) = solid (msg_text m)" by (rule p'(5))
  qed simp
next
  case False
  then have "line_count p = MAX_LINES" using assms(2) by (simp add: panel_ok_def)
  then show ?thesis using assms(2) by (intro exI [of _ p]) (simp add: wrap_message_def)
qed

text \<open>
  C36: A message is wrapped in finitely many turns whatever its text, on every panel of 1 to 199 columns: the
  lines before it stay, an author line is added and lines that are no wider than the panel and hold no newline,
  and as long as the buffer of 512 lines is not full their characters are those of the message in order, only
  blanks and newlines may be missing.
\<close>

theorem wrap_keeps_text:
  assumes "1 \<le> width" "width \<le> 199" "panel_ok p" "line_count p < MAX_LINES"
  shows "\<exists>p' H bs. wrap_message m width p = Some p' \<and> panel_ok p' \<and> lines_used p' = lines_used p @ H # bs \<and>
    author_line H \<and> wl_text H = take 199 (author m) \<and>
    (\<forall>L\<in>set bs. \<not> author_line L \<and> int (length (wl_text L)) \<le> width \<and> 10 \<notin> set (wl_text L)) \<and>
    (line_count p' < MAX_LINES \<longrightarrow> solid (concat (map wl_text bs)) = solid (msg_text m))"
proof -
  have nf: "line_count p \<noteq> MAX_LINES" using assms(4) by simp
  from wrap_message_ok [OF assms(1,3), of m] nf obtain p' H bs where
    "wrap_message m width p = Some p'" "panel_ok p'" "lines_used p' = lines_used p @ H # bs" "author_line H"
    "wl_text H = take 199 (author m)" "list_all (body_line width) bs"
    "line_count p' < MAX_LINES \<longrightarrow> solid (concat (map wl_text bs)) = solid (msg_text m)" using assms(2) by blast
  then show ?thesis by (intro exI [of _ p'] exI [of _ H] exI [of _ bs]) (simp add: list_all_iff body_line_def)
qed

text \<open>The sentence ``aa bbb c'' on four columns: three words, none of them broken.\<close>

definition sample_panel :: panel where
  "sample_panel = \<lparr>p_lines = Some (replicate 512 \<lparr>wl_text = [], wl_fg = 0, author_line = False, author_color = 0, wl_minutes = 0\<rparr>),
     line_count = 0\<rparr>"

lemma sample_panel_ok: "panel_ok sample_panel" "line_count sample_panel < MAX_LINES"
  by (simp_all add: panel_ok_def sample_panel_def MAX_LINES_def)

theorem wrap_keeps_text_witness:
  "\<exists>p' H bs. wrap_message \<lparr>author = [109], color = 7, msg_text = [97, 97, 32, 98, 98, 98, 32, 99], minutes = 1\<rparr> 4 sample_panel = Some p' \<and>
    lines_used p' = H # bs \<and> wl_text H = [109] \<and> (\<forall>L\<in>set bs. int (length (wl_text L)) \<le> 4) \<and>
    (line_count p' < MAX_LINES \<longrightarrow> solid (concat (map wl_text bs)) = [97, 97, 98, 98, 98, 99])"
proof -
  have "lines_used sample_panel = []" by (simp add: lines_used_def sample_panel_def)
  moreover have "solid [97, 97, 32, 98, 98, 98, 32, 99] = [97, 97, 98, 98, 98, 99]" by (simp add: solid_def)
  ultimately show ?thesis
    using wrap_keeps_text [of 4 sample_panel "\<lparr>author = [109], color = 7, msg_text = [97, 97, 32, 98, 98, 98, 32, 99], minutes = 1\<rparr>"]
      sample_panel_ok by fastforce
qed

end
