(* ===== verification/Chat.thy ===== *)
theory Chat
  imports ChatPanel Keyboard QwenRun "HOL-Library.Signed_Division"
begin

text \<open>
  The chat program of \<open>chat.c\<close>: four channels, each with a ring of 24 messages and a bot persona, the input
  line, the panels, and the worker thread that generates one reply at a time. The handlers are the code's,
  drawing included; what the worker does while the main loop sleeps is a list of steps. Static text is the list
  of its bytes before the NUL. \<open>None\<close> is a fault or a loop that does not end.
\<close>

section \<open>State\<close>

record channel =
  ch_name :: "u8 list"
  topic :: "u8 list"
  bot :: "u8 list"
  bot_color :: u32
  ch_model :: "u8 list"
  ch_temp :: int
  ch_topp :: int
  ch_tokens :: int
  msgs :: "message list"
  msg_count :: nat
  dirty :: bool
  typing :: bool

text \<open>The job's pointers are a channel number and a slot of its ring.\<close>

record bot_job =
  job_chan :: nat
  job_msg :: nat
  job_prompt :: "u8 list"

text \<open>\<open>worker\<close> is no variable of the code: it tells whether a worker thread exists.\<close>

record chat =
  channels :: "channel list"
  current_chan :: nat
  input :: "u8 list"
  input_len :: nat
  running :: bool
  job :: bot_job
  bot_running :: bool
  worker :: bool

definition no_message :: message where
  "no_message = \<lparr>author = [], color = 0, msg_text = [], minutes = 0\<rparr>"

definition init_channel :: "string \<Rightarrow> string \<Rightarrow> string \<Rightarrow> u32 \<Rightarrow> string \<Rightarrow> int \<Rightarrow> int \<Rightarrow> int \<Rightarrow> channel" where
  "init_channel nm tp bt c mdl tc pc n =
     \<lparr>ch_name = bytes nm, topic = bytes tp, bot = bytes bt, bot_color = c, ch_model = bytes mdl, ch_temp = tc,
      ch_topp = pc, ch_tokens = n, msgs = replicate MSGS_PER_CHANNEL no_message, msg_count = 0, dirty = False,
      typing = False\<rparr>"

definition init_channels :: "channel list" where
  "init_channels =
     [init_channel ''# stories'' ''tell chocobot the start of a story (stories15M)'' ''chocobot'' 0xF1C40F
        ''stories15M'' 80 90 180,
      init_channel ''# speedrun'' ''turbobot answers instantly (stories260K)'' ''turbobot'' 0x2ECC71
        ''stories260K'' 80 90 200,
      init_channel ''# chaos'' ''chaosbot runs hot, temperature 1.4 (stories260K)'' ''chaosbot'' 0xE74C3C
        ''stories260K'' 140 98 200,
      init_channel ''# assistant'' ''ask qwenbot anything - real answers, slowly (Qwen3-0.6B)'' ''qwenbot'' 0x9B59B6
        ''qwen3'' 70 80 200]"

definition chat_start :: chat where
  "chat_start = \<lparr>channels = init_channels, current_chan = 0, input = replicate INPUT_MAX 0, input_len = 0,
     running = False, job = \<lparr>job_chan = 0, job_msg = 0, job_prompt = []\<rparr>, bot_running = False, worker = False\<rparr>"

definition current :: "chat \<Rightarrow> channel" where
  "current s = channels s ! current_chan s"

definition on_channel :: "nat \<Rightarrow> (channel \<Rightarrow> channel) \<Rightarrow> chat \<Rightarrow> chat" where
  "on_channel i g s = s\<lparr>channels := (channels s)[i := g (channels s ! i)]\<rparr>"

section \<open>Messages\<close>

text \<open>The slot is the pointer the code returns; the clock is in milliseconds.\<close>

definition push_message :: "channel \<Rightarrow> u8 list \<Rightarrow> u32 \<Rightarrow> u64 \<Rightarrow> nat \<times> channel" where
  "push_message c who col now =
     (let i = msg_count c mod MSGS_PER_CHANNEL;
          m = (msgs c ! i)\<lparr>author := take (16 - 1) who, color := col, msg_text := [], minutes := ucast (now div 60000)\<rparr>
      in (i, c\<lparr>msgs := (msgs c)[i := m], msg_count := msg_count c + 1\<rparr>))"

text \<open>\<open>strlcpy\<close> into the text of a message.\<close>

definition set_text :: "nat \<Rightarrow> u8 list \<Rightarrow> channel \<Rightarrow> channel" where
  "set_text i t c = c\<lparr>msgs := (msgs c)[i := (msgs c ! i)\<lparr>msg_text := take (MSG_TEXT_MAX - 1) t\<rparr>]\<rparr>"

definition msg_at :: "chat \<Rightarrow> nat \<Rightarrow> nat \<Rightarrow> message" where
  "msg_at s c i = msgs (channels s ! c) ! i"

definition bot_emit :: "u8 list \<Rightarrow> chat \<Rightarrow> chat" where
  "bot_emit pce s =
     (let j = job s; t = msg_text (msg_at s (job_chan j) (job_msg j))
      in if length t + length pce < MSG_TEXT_MAX - 1
         then on_channel (job_chan j) (\<lambda>c. c\<lparr>msgs := (msgs c)[job_msg j := (msgs c ! job_msg j)\<lparr>msg_text := t @ pce\<rparr>],
           dirty := True\<rparr>) s
         else s)"

text \<open>What the worker does after the generation.\<close>

definition bot_finish :: "int \<Rightarrow> chat \<Rightarrow> chat" where
  "bot_finish n s =
     (let i = job_chan (job s); k = job_msg (job s);
          s = (if n < 0 then on_channel i (set_text k
                 (if n = LLM_ERR_BUSY then bytes ''(one story at a time! someone else is generating)''
                  else bytes ''(model unavailable - was the ISO built with models?)'')) s else s);
          s = (if msg_text (msg_at s i k) = [] then on_channel i (set_text k (bytes ''(the model had nothing to say)'')) s else s)
      in (on_channel i (\<lambda>c. c\<lparr>typing := False, dirty := True\<rparr>) s)\<lparr>bot_running := False, worker := False\<rparr>)"

definition bot_worker :: "'h heap_ops \<Rightarrow> 'f fmath \<Rightarrow> modul list option \<Rightarrow> u64 \<Rightarrow> chat \<Rightarrow> 'f llm_state \<Rightarrow> 'h \<Rightarrow>
    (chat \<times> 'f llm_state \<times> 'h) option" where
  "bot_worker ops M mods now s llm h =
     (let c = channels s ! job_chan (job s)
      in llm_generate ops M mods (ch_model c) (job_prompt (job s)) (ch_tokens c) (ch_temp c) (ch_topp c)
           (now XOR 0xC0FFEE5EED) True llm h \<bind> (\<lambda>(n, out, llm, h).
         Some (bot_finish n (fold bot_emit out s), llm, h)))"

text \<open>\<open>created\<close> tells whether \<open>thread\_create\<close> finds memory for the worker; its result is not looked at.\<close>

definition send_message :: "u64 \<Rightarrow> bool \<Rightarrow> chat \<Rightarrow> chat" where
  "send_message now created s =
     (let i = current_chan s; c = current s
      in if input_len s = 0 \<or> typing c then s
         else
           let s = s\<lparr>input := (input s)[input_len s := 0]\<rparr>;
               (u, c) = push_message c (bytes ''you'') COL_BLURPLE now;
               c = set_text u (c_string (input s)) c;
               (b, c) = push_message c (bot c) (bot_color c) now
           in if bot_running s
              then (on_channel i (\<lambda>_. (set_text b (bytes ''(busy writing in another channel, give me a sec)'') c)
                     \<lparr>dirty := True\<rparr>) s)\<lparr>input_len := 0\<rparr>
              else (on_channel i (\<lambda>_. c\<lparr>typing := True, dirty := True\<rparr>) s)
                \<lparr>bot_running := True,
                 job := \<lparr>job_chan = i, job_msg = b, job_prompt = take (INPUT_MAX - 1) (c_string (input s))\<rparr>,
                 input_len := 0, worker := created\<rparr>)"
section \<open>Panels\<close>

text \<open>
  \<open>snprintf\<close> into a buffer on the stack, read as a string: what the buffer held before is behind the NUL.
\<close>

definition stack_text :: "nat \<Rightarrow> u8 list \<Rightarrow> arg list \<Rightarrow> u8 list option" where
  "stack_text n fmt args = vsnprintf (replicate n 0) n fmt args \<bind> (\<lambda>(_, buf). Some (c_string buf))"

definition draw_serverbar :: "font \<Rightarrow> layout \<Rightarrow> framebuffer \<Rightarrow> framebuffer option" where
  "draw_serverbar f l s =
     fill_cells l 0 0 3 (rows l) COL_SERVERBAR s \<bind>
     framebuffer_draw_rect (of_int (fw l sdiv 2)) (of_int (fh l)) (of_int (2 * fw l)) (of_int (2 * fh l)) COL_BLURPLE \<bind>
     put_text f (bytes ''C'') 1 1 0xFFFFFF COL_BLURPLE"

definition draw_channel_name :: "font \<Rightarrow> layout \<Rightarrow> chat \<Rightarrow> nat \<Rightarrow> framebuffer \<Rightarrow> framebuffer option" where
  "draw_channel_name f l s i scr =
     (let bg = (if i = current_chan s then COL_SELECTED else COL_SIDEBAR);
          fg = (if i = current_chan s then 0xFFFFFF else COL_MUTED)
      in fill_cells l 4 (6 + int i * 2) (sidebar_cols l - 2) 1 bg scr \<bind>
         put_text f (ch_name (channels s ! i)) 5 (6 + int i * 2) fg bg)"

definition draw_sidebar :: "font \<Rightarrow> layout \<Rightarrow> chat \<Rightarrow> framebuffer \<Rightarrow> framebuffer option" where
  "draw_sidebar f l s scr =
     fill_cells l 3 0 (sidebar_cols l) (rows l) COL_SIDEBAR scr \<bind>
     put_text f (bytes ''Choco Cord'') 5 1 COL_HEADER COL_SIDEBAR \<bind>
     fill_cells l 3 2 (sidebar_cols l) 1 COL_DIVIDER \<bind>
     put_text f (bytes ''TEXT CHANNELS'') 5 4 COL_MUTED COL_SIDEBAR \<bind>
     foldM (draw_channel_name f l s) [0..<NUM_CHANNELS] \<bind>
     put_text f (bytes ''[tab] switch'') 5 (rows l - 4) COL_MUTED COL_SIDEBAR \<bind>
     put_text f (bytes ''[esc] exit'') 5 (rows l - 3) COL_MUTED COL_SIDEBAR \<bind>
     fill_cells l 3 (rows l - 2) (sidebar_cols l) 2 COL_SERVERBAR \<bind>
     put_text f (bytes ''you'') 5 (rows l - 1) COL_TEXT COL_SERVERBAR \<bind>
     put_text f (bytes ''#0001'') 9 (rows l - 1) COL_MUTED COL_SERVERBAR"

definition draw_header :: "font \<Rightarrow> layout \<Rightarrow> chat \<Rightarrow> framebuffer \<Rightarrow> framebuffer option" where
  "draw_header f l s scr =
     (let c = current s
      in fill_cells l (chat_x l) 0 (cols l - chat_x l) (header_rows l) COL_CHAT scr \<bind>
         put_text f (ch_name c) (chat_x l + 1) 0 COL_HEADER COL_CHAT \<bind>
         put_text f (topic c) (chat_x l + 1 + int (length (ch_name c)) + 2) 0 COL_MUTED COL_CHAT \<bind>
         fill_cells l (chat_x l) 1 (cols l - chat_x l) 1 COL_DIVIDER)"

definition draw_member :: "font \<Rightarrow> layout \<Rightarrow> (u8 list \<times> u32) list \<Rightarrow> nat \<Rightarrow> framebuffer \<Rightarrow> framebuffer option" where
  "draw_member f l people i scr =
     (let x = cols l - members_cols l; y = header_rows l + 3 + int i * 2
      in framebuffer_draw_rect (of_int (x + 2) * of_int (fw l)) (of_int y * of_int (fh l) + of_int (fh l sdiv 4))
           (of_int (fw l sdiv 2)) (of_int (fw l sdiv 2)) COL_GREEN scr \<bind>
         put_text f (fst (people ! i)) (x + 4) y (snd (people ! i)) COL_SIDEBAR)"

definition draw_members :: "font \<Rightarrow> layout \<Rightarrow> chat \<Rightarrow> framebuffer \<Rightarrow> framebuffer option" where
  "draw_members f l s scr =
     (let x = cols l - members_cols l;
          people = (bytes ''you'', COL_BLURPLE) # map (\<lambda>i. (bot (channels s ! i), bot_color (channels s ! i))) [0, 1, 2]
      in fill_cells l x (header_rows l) (members_cols l) (rows l - header_rows l) COL_SIDEBAR scr \<bind>
         put_text f (bytes ''ONLINE - 4'') (x + 2) (header_rows l + 1) COL_MUTED COL_SIDEBAR \<bind>
         foldM (draw_member f l people) [0..<4])"

text \<open>The text of one line and where it ends: an author with the time, or a part of a message.\<close>

definition draw_line :: "font \<Rightarrow> layout \<Rightarrow> int \<Rightarrow> wrap_line \<Rightarrow> int \<Rightarrow> framebuffer \<Rightarrow> (int \<times> framebuffer) option" where
  "draw_line f l width L y scr =
     (let x = chat_x l + 1
      in if author_line L then
           put_text f (wl_text L) x y (author_color L) COL_CHAT scr \<bind> (\<lambda>scr.
           stack_text 16 (bytes '' %02u:%02u'')
             [Num (ucast (wl_minutes L div 60)), Num (ucast (wl_minutes L mod 60))] \<bind> (\<lambda>ts.
           put_text f ts (x + int (length (wl_text L))) y COL_MUTED COL_CHAT scr \<bind> (\<lambda>scr.
           Some (x + int (length (wl_text L)) + int (length ts), scr))))
         else
           let n = (if int (length (wl_text L)) > width then width else int (length (wl_text L)))
           in put_text_n f (wl_text L) n x y (wl_fg L) COL_CHAT scr \<bind> (\<lambda>scr. Some (x + n, scr)))"

text \<open>One row of the chat panel; \<open>shown\<close> are the visible lines.\<close>

definition draw_row :: "font \<Rightarrow> layout \<Rightarrow> int \<Rightarrow> wrap_line list \<Rightarrow> nat \<Rightarrow> framebuffer \<Rightarrow> framebuffer option" where
  "draw_row f l width shown i scr =
     (let y = chat_top l + int i
      in if i \<ge> length shown then fill_cells l (chat_x l) y (chat_cols l) 1 COL_CHAT scr
         else
           fill_cells l (chat_x l) y 1 1 COL_CHAT scr \<bind> draw_line f l width (shown ! i) y \<bind> (\<lambda>(x, scr).
           if x < chat_x l + chat_cols l then fill_cells l x y (chat_x l + chat_cols l - x) 1 COL_CHAT scr else Some scr))"

text \<open>\<open>alloc\<close> is what \<open>malloc\<close> answers for the line buffer: NULL or \<open>MAX_LINES\<close> entries of any contents.\<close>

definition wrap_messages :: "wrap_line list option \<Rightarrow> channel \<Rightarrow> int \<Rightarrow> panel \<Rightarrow> panel option" where
  "wrap_messages alloc c width p =
     (let p = (if p_lines p = None then p\<lparr>p_lines := alloc\<rparr> else p);
          start = (if msg_count c > MSGS_PER_CHANNEL then msg_count c - MSGS_PER_CHANNEL else 0)
      in foldM (\<lambda>i. wrap_message (msgs c ! (i mod MSGS_PER_CHANNEL)) width) [start..<msg_count c] (p\<lparr>line_count := 0\<rparr>))"

record view =
  v_fb :: framebuffer
  v_panel :: panel

definition draw_chat :: "font \<Rightarrow> layout \<Rightarrow> wrap_line list option \<Rightarrow> chat \<Rightarrow> view \<Rightarrow> view option" where
  "draw_chat f l alloc s v =
     (let width = chat_cols l - 2
      in wrap_messages alloc (current s) width (v_panel v) \<bind> (\<lambda>p.
         let visible = (if int (line_count p) < chat_rows l then int (line_count p) else chat_rows l);
             src = int (line_count p) - visible;
             shown = (case p_lines p of None \<Rightarrow> [] | Some ls \<Rightarrow> take (nat visible) (drop (nat src) ls))
         in foldM (draw_row f l width shown) [0..<nat (chat_rows l)] (v_fb v) \<bind> (\<lambda>scr.
            Some \<lparr>v_fb = scr, v_panel = p\<rparr>)))"

definition draw_input_text :: "font \<Rightarrow> layout \<Rightarrow> chat \<Rightarrow> int \<Rightarrow> framebuffer \<Rightarrow> (int \<times> framebuffer) option" where
  "draw_input_text f l s y scr =
     (let x = chat_x l + 2
      in if input_len s = 0 then
           stack_text 64 (bytes ''Message %s'') [Str (Some (ch_name (current s)))] \<bind> (\<lambda>hint.
           put_text f hint x y COL_MUTED COL_INPUT scr \<bind> (\<lambda>scr. Some (x + int (length hint), scr)))
         else
           let shown = (if int (input_len s) < chat_cols l - 5 then int (input_len s) else chat_cols l - 5)
           in put_text_n f (c_string (drop (nat (int (input_len s) - shown)) (input s))) shown x y COL_TEXT COL_INPUT scr \<bind> (\<lambda>scr.
              fill_cells l (x + shown) y 1 1 COL_TEXT scr \<bind> (\<lambda>scr. Some (x + shown + 1, scr))))"

definition draw_typing :: "font \<Rightarrow> layout \<Rightarrow> chat \<Rightarrow> int \<Rightarrow> framebuffer \<Rightarrow> (int \<times> framebuffer) option" where
  "draw_typing f l s y scr =
     (if typing (current s) then
        stack_text 64 (bytes ''%s is typing...'') [Str (Some (bot (current s)))] \<bind> (\<lambda>t.
        fill_cells l (chat_x l) (y + 1) 2 1 COL_CHAT scr \<bind> (\<lambda>scr.
        put_text f t (chat_x l + 2) (y + 1) COL_MUTED COL_CHAT scr \<bind> (\<lambda>scr.
        Some (chat_x l + 2 + int (length t), scr))))
      else Some (chat_x l, scr))"

definition draw_input :: "font \<Rightarrow> layout \<Rightarrow> chat \<Rightarrow> framebuffer \<Rightarrow> framebuffer option" where
  "draw_input f l s scr =
     (let y = rows l - input_rows l; right = chat_x l + chat_cols l
      in fill_cells l (chat_x l) y 1 1 COL_CHAT scr \<bind>
         fill_cells l (right - 1) y 1 1 COL_CHAT \<bind>
         fill_cells l (chat_x l + 1) y 1 1 COL_INPUT \<bind>
         draw_input_text f l s y \<bind> (\<lambda>(x, scr).
         (if x < right - 1 then fill_cells l x y (right - 1 - x) 1 COL_INPUT scr else Some scr) \<bind>
         draw_typing f l s y \<bind> (\<lambda>(x, scr).
         if x < right then fill_cells l x (y + 1) (right - x) 1 COL_CHAT scr else Some scr)))"

definition on_fb :: "(framebuffer \<Rightarrow> framebuffer option) \<Rightarrow> view \<Rightarrow> view option" where
  "on_fb g v = g (v_fb v) \<bind> (\<lambda>scr. Some (v\<lparr>v_fb := scr\<rparr>))"

definition draw_all :: "font \<Rightarrow> layout \<Rightarrow> wrap_line list option \<Rightarrow> chat \<Rightarrow> view \<Rightarrow> view option" where
  "draw_all f l alloc s v =
     on_fb (draw_serverbar f l) v \<bind> on_fb (draw_sidebar f l s) \<bind> on_fb (draw_header f l s) \<bind>
     on_fb (draw_members f l s) \<bind> draw_chat f l alloc s \<bind> on_fb (draw_input f l s)"

section \<open>The main loop\<close>

text \<open>What the outside does in one turn: the clock, the answer to \<open>thread\_create\<close>, and, while the loop
  sleeps, the scan codes that arrive and the steps of the worker.\<close>

datatype worker_op = Emit "u8 list" | Finish int

record chat_turn =
  t_now :: u64
  t_created :: bool
  t_codes :: "u8 list"
  t_worker :: "worker_op list"

text \<open>Without a worker thread nobody calls these.\<close>

definition worker_step :: "worker_op \<Rightarrow> chat \<Rightarrow> chat" where
  "worker_step r s = (if worker s then case r of Emit pce \<Rightarrow> bot_emit pce s | Finish n \<Rightarrow> bot_finish n s else s)"

record session =
  s_chat :: chat
  s_view :: view
  s_redraw :: bool

text \<open>What an event does to the input line, the current channel and the messages.\<close>

definition chat_event :: "font \<Rightarrow> layout \<Rightarrow> wrap_line list option \<Rightarrow> u64 \<Rightarrow> bool \<Rightarrow> key_event \<Rightarrow> session \<Rightarrow> session option" where
  "chat_event f l alloc now created ev z =
     (let s = s_chat z
      in if code ev = KEY_ESCAPE then Some (z\<lparr>s_chat := s\<lparr>running := False\<rparr>\<rparr>)
         else if code ev = KEY_TAB \<or> code ev = KEY_CHAR \<and> ch ev = 9 then
           let s = s\<lparr>current_chan := (current_chan s + 1) mod NUM_CHANNELS\<rparr>
           in draw_all f l alloc s (s_view z) \<bind> (\<lambda>v. Some (z\<lparr>s_chat := s, s_view := v\<rparr>))
         else if code ev \<noteq> KEY_CHAR then Some z
         else if ch ev = 10 then
           let s = send_message now created s
           in draw_chat f l alloc s (s_view z) \<bind> (\<lambda>v. Some (z\<lparr>s_chat := s, s_view := v, s_redraw := True\<rparr>))
         else if ch ev = 8 then
           if input_len s > 0 then Some (z\<lparr>s_chat := s\<lparr>input_len := input_len s - 1\<rparr>, s_redraw := True\<rparr>) else Some z
         else if ch ev \<ge> 32 \<and> ch ev < 127 \<and> input_len s < INPUT_MAX - 1 then
           Some (z\<lparr>s_chat := s\<lparr>input := (input s)[input_len s := ch ev], input_len := input_len s + 1\<rparr>, s_redraw := True\<rparr>)
         else Some z)"

partial_function (option) chat_events :: "font \<Rightarrow> layout \<Rightarrow> wrap_line list option \<Rightarrow> u64 \<Rightarrow> bool \<Rightarrow> kbd \<Rightarrow> session \<Rightarrow> (kbd \<times> session) option" where
  "chat_events f l alloc now created k z =
     (case kbd_poll_event k of
        None \<Rightarrow> Some (k, z)
      | Some (ev, k) \<Rightarrow> chat_event f l alloc now created ev z \<bind> (\<lambda>z.
          if code ev = KEY_ESCAPE then Some (k, z) else chat_events f l alloc now created k z))"

definition chat_redraw :: "font \<Rightarrow> layout \<Rightarrow> wrap_line list option \<Rightarrow> session \<Rightarrow> session option" where
  "chat_redraw f l alloc z =
     (let s = s_chat z
      in (if dirty (current s) then
            let s = on_channel (current_chan s) (\<lambda>c. c\<lparr>dirty := False\<rparr>) s
            in draw_chat f l alloc s (s_view z) \<bind> (\<lambda>v. Some (z\<lparr>s_chat := s, s_view := v, s_redraw := True\<rparr>))
          else Some z) \<bind> (\<lambda>z.
         if s_redraw z then on_fb (draw_input f l (s_chat z)) (s_view z) \<bind> (\<lambda>v. Some (z\<lparr>s_view := v\<rparr>)) else Some z))"

fun chat_loop :: "font \<Rightarrow> layout \<Rightarrow> wrap_line list option \<Rightarrow> chat_turn list \<Rightarrow> kbd \<Rightarrow> session \<Rightarrow> (kbd \<times> session) option" where
  "chat_loop f l alloc [] k z = Some (k, z)"
| "chat_loop f l alloc (t # ts) k z =
     (if \<not> running (s_chat z) then Some (k, z)
      else
        chat_events f l alloc (t_now t) (t_created t) k (z\<lparr>s_redraw := False\<rparr>) \<bind> (\<lambda>(k, z).
        chat_redraw f l alloc z \<bind> (\<lambda>z.
        chat_loop f l alloc ts (fold keyboard_handler (t_codes t) k)
          (z\<lparr>s_chat := fold worker_step (t_worker t) (s_chat z)\<rparr>))))"

definition greeting :: "u8 list" where
  "greeting = bytes ''hey! type the start of a story and i'' @ [39] @ bytes ''ll finish it. '' @
     bytes ''i'' @ [39] @ bytes ''m a 15M-param TinyStories model running inside the kernel, '' @ bytes ''be gentle''"

definition chat_greet :: "u64 \<Rightarrow> chat \<Rightarrow> chat" where
  "chat_greet now s =
     (if msg_count (channels s ! 0) = 0 then
        on_channel 0 (\<lambda>c. let (i, c) = push_message c (bot c) (bot_color c) now in set_text i greeting c) s
      else s)"

definition chat_run :: "font \<Rightarrow> wrap_line list option \<Rightarrow> u64 \<Rightarrow> chat_turn list \<Rightarrow> kbd \<Rightarrow> chat \<Rightarrow> view \<Rightarrow> (kbd \<times> session) option" where
  "chat_run f alloc now turns k s v =
     chat_layout f (v_fb v) \<bind> (\<lambda>l.
     let s = chat_greet now (s\<lparr>input_len := 0, running := True\<rparr>)
     in on_fb (framebuffer_clear COL_CHAT) v \<bind> (\<lambda>v.
        draw_all f l alloc s v \<bind> (\<lambda>v.
        chat_loop f l alloc turns k \<lparr>s_chat = s, s_view = v, s_redraw = False\<rparr>)))"

end

