(* ===== verification/ChatState.thy ===== *)
theory ChatState
  imports Chat
begin

text \<open>
  What the chat program keeps true, whatever the order of key presses, redraws and steps of the worker: the
  input line and the rings stay inside their arrays, and the message the worker writes to is not reused before
  the worker is through. The step relation leaves the drawing out; \<open>chat\_event\_effect\<close> ties it to the handler.
\<close>

section \<open>Steps\<close>

text \<open>The handler without the drawing.\<close>

definition key_effect :: "u64 \<Rightarrow> bool \<Rightarrow> key_event \<Rightarrow> chat \<Rightarrow> chat" where
  "key_effect now created ev s =
     (if code ev = KEY_ESCAPE then s\<lparr>running := False\<rparr>
      else if code ev = KEY_TAB \<or> code ev = KEY_CHAR \<and> ch ev = 9 then
        s\<lparr>current_chan := (current_chan s + 1) mod NUM_CHANNELS\<rparr>
      else if code ev \<noteq> KEY_CHAR then s
      else if ch ev = 10 then send_message now created s
      else if ch ev = 8 then s\<lparr>input_len := input_len s - 1\<rparr>
      else if ch ev \<ge> 32 \<and> ch ev < 127 \<and> input_len s < INPUT_MAX - 1 then
        s\<lparr>input := (input s)[input_len s := ch ev], input_len := input_len s + 1\<rparr>
      else s)"

lemma chat_event_effect:
  assumes "chat_event f l alloc now created ev z = Some z'"
  shows "s_chat z' = key_effect now created ev (s_chat z)"
  using assms by (auto simp: chat_event_def key_effect_def Let_def bind_Some_iff split: if_splits)

definition clean :: "chat \<Rightarrow> chat" where
  "clean s = on_channel (current_chan s) (\<lambda>c. c\<lparr>dirty := False\<rparr>) s"

inductive chat_step :: "chat \<Rightarrow> chat \<Rightarrow> bool" where
  key: "chat_step s (key_effect now created ev s)"
| redraw: "chat_step s (clean s)"
| emits: "worker s \<Longrightarrow> 0 \<notin> set pce \<Longrightarrow> chat_step s (bot_emit pce s)"
| finish: "worker s \<Longrightarrow> chat_step s (bot_finish n s)"

section \<open>The invariant\<close>

definition msg_ok :: "message \<Rightarrow> bool" where
  "msg_ok m \<longleftrightarrow> length (author m) < 16 \<and> length (msg_text m) < MSG_TEXT_MAX \<and> 0 \<notin> set (msg_text m)"

definition chan_ok :: "channel \<Rightarrow> bool" where
  "chan_ok c \<longleftrightarrow> length (msgs c) = MSGS_PER_CHANNEL \<and> list_all msg_ok (msgs c) \<and>
     length (ch_name c) \<le> 11 \<and> length (ch_name c) + length (topic c) \<le> 67 \<and> length (bot c) \<le> 8"

definition input_ok :: "chat \<Rightarrow> bool" where
  "input_ok s \<longleftrightarrow> length (input s) = INPUT_MAX \<and> input_len s < INPUT_MAX \<and> 0 \<notin> set (take (input_len s) (input s))"

text \<open>The running job's message is the last one of its channel, and only that channel is typing.\<close>

definition job_ok :: "chat \<Rightarrow> bool" where
  "job_ok s \<longleftrightarrow> (worker s \<longrightarrow> bot_running s) \<and>
     (\<forall>i < NUM_CHANNELS. typing (channels s ! i) \<longleftrightarrow> bot_running s \<and> i = job_chan (job s)) \<and>
     (bot_running s \<longrightarrow> job_chan (job s) < NUM_CHANNELS \<and> 0 < msg_count (channels s ! job_chan (job s)) \<and>
        job_msg (job s) = (msg_count (channels s ! job_chan (job s)) - 1) mod MSGS_PER_CHANNEL)"

definition chat_inv :: "chat \<Rightarrow> bool" where
  [inv_simps]: "chat_inv s \<longleftrightarrow> length (channels s) = NUM_CHANNELS \<and> current_chan s < NUM_CHANNELS \<and>
     list_all chan_ok (channels s) \<and> input_ok s \<and> job_ok s"

lemma chan_ok_nth: "chat_inv s \<Longrightarrow> i < NUM_CHANNELS \<Longrightarrow> chan_ok (channels s ! i)"
  by (simp add: chat_inv_def list_all_length)

lemma on_channel_simps [simp]:
  "current_chan (on_channel i g s) = current_chan s" "input (on_channel i g s) = input s"
  "input_len (on_channel i g s) = input_len s" "running (on_channel i g s) = running s" "job (on_channel i g s) = job s"
  "bot_running (on_channel i g s) = bot_running s" "worker (on_channel i g s) = worker s"
  "length (channels (on_channel i g s)) = length (channels s)"
  by (simp_all add: on_channel_def)

lemma on_channel_nth: "i < length (channels s) \<Longrightarrow>
    channels (on_channel i g s) ! j = (if j = i then g (channels s ! i) else channels s ! j)"
  by (cases "j < length (channels s)") (auto simp: on_channel_def nth_list_update)

lemma on_channel_all: "list_all P (channels s) \<Longrightarrow> (P (channels s ! i) \<Longrightarrow> P (g (channels s ! i))) \<Longrightarrow>
    list_all P (channels (on_channel i g s))"
  by (cases "i < length (channels s)")
    (auto simp: on_channel_def list_all_iff list_update_beyond dest: set_update_subset_insert [THEN subsetD])

text \<open>Operations on one message of a channel.\<close>

lemma put_msg_ok:
  assumes "chan_ok c" "msg_ok m"
  shows "chan_ok (c\<lparr>msgs := (msgs c)[i := m]\<rparr>)"
  using assms by (auto simp: chan_ok_def list_all_iff dest!: set_update_subset_insert [THEN subsetD])

lemma msg_ok_nth: "chan_ok c \<Longrightarrow> i < MSGS_PER_CHANNEL \<Longrightarrow> msg_ok (msgs c ! i)"
  by (simp add: chan_ok_def list_all_length)

lemma set_text_ok:
  assumes "chan_ok c" "i < MSGS_PER_CHANNEL" "0 \<notin> set t"
  shows "chan_ok (set_text i t c)"
proof -
  have "msg_ok ((msgs c ! i)\<lparr>msg_text := take (MSG_TEXT_MAX - 1) t\<rparr>)"
    using msg_ok_nth [OF assms(1,2)] assms(3) by (auto simp: msg_ok_def MSG_TEXT_MAX_def dest: in_set_takeD)
  then show ?thesis unfolding set_text_def by (rule put_msg_ok [OF assms(1)])
qed

lemma set_text_simps [simp]:
  "msg_count (set_text i t c) = msg_count c" "typing (set_text i t c) = typing c" "bot (set_text i t c) = bot c"
  "bot_color (set_text i t c) = bot_color c" "dirty (set_text i t c) = dirty c"
  by (simp_all add: set_text_def)

lemma chan_ok_flags [simp]: "chan_ok (c\<lparr>typing := b\<rparr>) = chan_ok c" "chan_ok (c\<lparr>dirty := b\<rparr>) = chan_ok c"
  by (simp_all add: chan_ok_def)

lemma push_message_ok:
  assumes "chan_ok c" "push_message c who col now = (i, c')"
  shows "chan_ok c'" "i = msg_count c mod MSGS_PER_CHANNEL" "i < MSGS_PER_CHANNEL" "msg_count c' = Suc (msg_count c)"
    "typing c' = typing c" "bot c' = bot c" "bot_color c' = bot_color c"
proof -
  define m where "m = (msgs c ! (msg_count c mod MSGS_PER_CHANNEL))\<lparr>author := take (16 - 1) who, color := col, msg_text := [],
    minutes := ucast (now div 60000)\<rparr>"
  have e: "i = msg_count c mod MSGS_PER_CHANNEL" "c' = c\<lparr>msgs := (msgs c)[i := m], msg_count := msg_count c + 1\<rparr>"
    using assms(2) by (auto simp: push_message_def Let_def m_def)
  have "msg_ok m" by (simp add: msg_ok_def m_def MSG_TEXT_MAX_def)
  from put_msg_ok [OF assms(1) this, of i] show "chan_ok c'" unfolding e(2) by (simp add: chan_ok_def)
  show "i < MSGS_PER_CHANNEL" unfolding e(1) by (simp add: MSGS_PER_CHANNEL_def)
qed (use assms(2) in \<open>auto simp: push_message_def Let_def\<close>)
section \<open>Every step keeps it\<close>

lemma job_slot: "chat_inv s \<Longrightarrow> bot_running s \<Longrightarrow> job_chan (job s) < NUM_CHANNELS \<and> job_msg (job s) < MSGS_PER_CHANNEL"
  by (simp add: chat_inv_def job_ok_def MSGS_PER_CHANNEL_def)

text \<open>Changing a channel's messages in place, its texts and its dirty flag, keeps everything.\<close>

lemma on_channel_inv:
  assumes s: "chat_inv s" and i: "i < NUM_CHANNELS"
    and g: "chan_ok (g (channels s ! i))" "msg_count (g (channels s ! i)) = msg_count (channels s ! i)"
      "typing (g (channels s ! i)) = typing (channels s ! i)"
  shows "chat_inv (on_channel i g s)"
proof -
  have l: "i < length (channels s)" using s i by (simp add: chat_inv_def)
  have "job_ok (on_channel i g s)"
    using s g(2,3) on_channel_nth [OF l, of g] by (auto simp: chat_inv_def job_ok_def)
  moreover have "list_all chan_ok (channels (on_channel i g s))"
    by (rule on_channel_all) (use s g(1) in \<open>simp_all add: chat_inv_def\<close>)
  ultimately show ?thesis using s by (simp add: chat_inv_def input_ok_def)
qed

lemma clean_inv:
  assumes "chat_inv s"
  shows "chat_inv (clean s)"
  unfolding clean_def
  by (rule on_channel_inv [OF assms]) (use assms chan_ok_nth [OF assms] in \<open>auto simp: chat_inv_def\<close>)

lemma bot_emit_inv:
  assumes s: "chat_inv s" "worker s" and p: "0 \<notin> set pce"
  shows "chat_inv (bot_emit pce s)"
proof -
  have r: "bot_running s" using s by (simp add: chat_inv_def job_ok_def)
  let ?i = "job_chan (job s)" and ?k = "job_msg (job s)"
  let ?c = "channels s ! ?i" and ?t = "msg_text (msg_at s (job_chan (job s)) (job_msg (job s)))"
  have ik: "?i < NUM_CHANNELS" "?k < MSGS_PER_CHANNEL" using job_slot [OF s(1) r] by auto
  have ok: "chan_ok ?c" by (rule chan_ok_nth [OF s(1) ik(1)])
  have m: "msg_ok (msgs ?c ! ?k)" by (rule msg_ok_nth [OF ok ik(2)])
  show ?thesis
  proof (cases "length ?t + length pce < MSG_TEXT_MAX - 1")
    case True
    have "msg_ok ((msgs ?c ! ?k)\<lparr>msg_text := ?t @ pce\<rparr>)"
      using m p True by (auto simp: msg_ok_def msg_at_def)
    from put_msg_ok [OF ok this, of ?k]
    have "chan_ok (?c\<lparr>msgs := (msgs ?c)[?k := (msgs ?c ! ?k)\<lparr>msg_text := ?t @ pce\<rparr>], dirty := True\<rparr>)"
      by (simp add: chan_ok_def)
    then show ?thesis unfolding bot_emit_def Let_def using True
      by (auto intro!: on_channel_inv [OF s(1) ik(1)])
  next
    case False
    then show ?thesis using s(1) by (simp add: bot_emit_def Let_def)
  qed
qed

lemma no_NUL_messages:
  "0 \<notin> set (bytes ''(one story at a time! someone else is generating)'')"
  "0 \<notin> set (bytes ''(model unavailable - was the ISO built with models?)'')"
  "0 \<notin> set (bytes ''(the model had nothing to say)'')"
  "0 \<notin> set (bytes ''(busy writing in another channel, give me a sec)'')"
  "0 \<notin> set greeting"
  by (simp_all add: greeting_def)

lemma set_text_inv:
  assumes s: "chat_inv s" "i < NUM_CHANNELS" "k < MSGS_PER_CHANNEL" and t: "0 \<notin> set t"
  shows "chat_inv (on_channel i (set_text k t) s)"
  by (rule on_channel_inv [OF s(1,2)]) (simp_all add: set_text_ok chan_ok_nth s t)

text \<open>The worker's end frees the bot.\<close>

lemma release_inv:
  assumes s: "chat_inv s" "bot_running s"
  shows "chat_inv ((on_channel (job_chan (job s)) (\<lambda>c. c\<lparr>typing := False, dirty := True\<rparr>) s)\<lparr>bot_running := False, worker := False\<rparr>)"
proof -
  let ?g = "\<lambda>c. c\<lparr>typing := False, dirty := True\<rparr>" and ?i = "job_chan (job s)"
  have i: "?i < NUM_CHANNELS" using job_slot [OF s] by simp
  then have l: "?i < length (channels s)" using s by (simp add: chat_inv_def)
  have "list_all chan_ok (channels (on_channel ?i ?g s))"
    by (rule on_channel_all) (use s in \<open>simp_all add: chat_inv_def\<close>)
  moreover have "\<not> typing (channels (on_channel ?i ?g s) ! j)" if "j < NUM_CHANNELS" for j
    using s that on_channel_nth [OF l, of ?g j] by (auto simp: chat_inv_def job_ok_def)
  ultimately show ?thesis using s by (simp add: chat_inv_def job_ok_def input_ok_def)
qed

lemma bot_finish_inv:
  assumes s: "chat_inv s" "worker s"
  shows "chat_inv (bot_finish n s)"
proof -
  have r: "bot_running s" using s by (simp add: chat_inv_def job_ok_def)
  let ?i = "job_chan (job s)" and ?k = "job_msg (job s)"
  have ik: "?i < NUM_CHANNELS" "?k < MSGS_PER_CHANNEL" using job_slot [OF s(1) r] by auto
  define s1 where "s1 = (if n < 0 then on_channel ?i (set_text ?k
                 (if n = LLM_ERR_BUSY then bytes ''(one story at a time! someone else is generating)''
                  else bytes ''(model unavailable - was the ISO built with models?)'')) s else s)"
  define s2 where "s2 = (if msg_text (msg_at s1 ?i ?k) = [] then
      on_channel ?i (set_text ?k (bytes ''(the model had nothing to say)'')) s1 else s1)"
  have 1: "chat_inv s1" "bot_running s1" "job s1 = job s"
    unfolding s1_def using r by (auto simp: no_NUL_messages intro!: set_text_inv [OF s(1) ik] s(1))
  have 2: "chat_inv s2" "bot_running s2" "job s2 = job s"
    unfolding s2_def using 1 by (auto simp: no_NUL_messages intro!: set_text_inv [OF 1(1) ik])
  have "bot_finish n s = (on_channel ?i (\<lambda>c. c\<lparr>typing := False, dirty := True\<rparr>) s2)\<lparr>bot_running := False, worker := False\<rparr>"
    unfolding bot_finish_def Let_def s2_def s1_def by simp
  then show ?thesis using release_inv [OF 2(1,2)] unfolding 2(3) by simp
qed

text \<open>Sending: the line becomes a message and an empty reply is put behind it.\<close>

definition sent :: "u64 \<Rightarrow> chat \<Rightarrow> nat \<times> channel" where
  "sent now s =
     (let (u, c) = push_message (current s) (bytes ''you'') COL_BLURPLE now
      in push_message (set_text u (c_string ((input s)[input_len s := 0])) c) (bot c) (bot_color c) now)"

lemma send_message_eq:
  "send_message now created s =
     (if input_len s = 0 \<or> typing (current s) then s
      else
        let (b, c) = sent now s; line = c_string ((input s)[input_len s := 0])
        in if bot_running s
           then (on_channel (current_chan s) (\<lambda>_. (set_text b (bytes ''(busy writing in another channel, give me a sec)'') c)
                  \<lparr>dirty := True\<rparr>) (s\<lparr>input := (input s)[input_len s := 0]\<rparr>))\<lparr>input_len := 0\<rparr>
           else (on_channel (current_chan s) (\<lambda>_. c\<lparr>typing := True, dirty := True\<rparr>) (s\<lparr>input := (input s)[input_len s := 0]\<rparr>))
             \<lparr>bot_running := True,
              job := \<lparr>job_chan = current_chan s, job_msg = b, job_prompt = take (INPUT_MAX - 1) line\<rparr>,
              input_len := 0, worker := created\<rparr>)"
  by (simp add: send_message_def sent_def current_def Let_def split: prod.splits)

lemma c_string_take: "0 \<notin> set (take n xs) \<Longrightarrow> n < length xs \<Longrightarrow> c_string (xs[n := 0]) = take n xs"
proof -
  assume a: "0 \<notin> set (take n xs)" "n < length xs"
  have "xs[n := 0] = take n xs @ 0 # drop (Suc n) xs" using a(2) by (rule upd_conv_take_nth_drop)
  then show ?thesis using takeWhile_neq_append [OF a(1)] by (simp add: c_string_def)
qed

lemma c_string_no_NUL: "0 \<notin> set (c_string b)"
  by (auto simp: c_string_def dest: set_takeWhileD)

lemma sent_ok:
  assumes "chan_ok (current s)" "sent now s = (b, c)"
  shows "chan_ok c" "b < MSGS_PER_CHANNEL" "msg_count c = Suc (Suc (msg_count (current s)))"
    "b = (msg_count c - 1) mod MSGS_PER_CHANNEL" "typing c = typing (current s)"
proof -
  obtain u c1 where 1: "push_message (current s) (bytes ''you'') COL_BLURPLE now = (u, c1)" by fastforce
  note p1 = push_message_ok [OF assms(1) 1]
  let ?c2 = "set_text u (c_string ((input s)[input_len s := 0])) c1"
  have ok2: "chan_ok ?c2" by (rule set_text_ok [OF p1(1,3) c_string_no_NUL])
  have 2: "push_message ?c2 (bot c1) (bot_color c1) now = (b, c)"
    using assms(2) unfolding sent_def 1 by simp
  note p2 = push_message_ok [OF ok2 2]
  show "chan_ok c" "b < MSGS_PER_CHANNEL" "msg_count c = Suc (Suc (msg_count (current s)))"
    "b = (msg_count c - 1) mod MSGS_PER_CHANNEL" "typing c = typing (current s)"
    using p1 p2 by simp_all
qed

lemma send_message_inv:
  assumes s: "chat_inv s"
  shows "chat_inv (send_message now created s)"
proof (cases "input_len s = 0 \<or> typing (current s)")
  case True
  then show ?thesis using s by (simp add: send_message_eq)
next
  case False
  let ?i = "current_chan s"
  have i: "?i < NUM_CHANNELS" "?i < length (channels s)" using s by (simp_all add: chat_inv_def)
  have ok: "chan_ok (current s)" unfolding current_def by (rule chan_ok_nth [OF s i(1)])
  obtain b c where bc: "sent now s = (b, c)" by fastforce
  note c = sent_ok [OF ok bc]
  have nt: "\<not> typing (channels s ! ?i)" using False by (simp add: current_def)
  have inp: "input_ok (s\<lparr>input := x, input_len := 0\<rparr>)" if "length x = INPUT_MAX" for x
    using that by (simp add: input_ok_def INPUT_MAX_def)
  have len: "length ((input s)[input_len s := 0]) = INPUT_MAX" using s by (simp add: chat_inv_def input_ok_def)
  show ?thesis
  proof (cases "bot_running s")
    case True
    let ?g = "\<lambda>_. (set_text b (bytes ''(busy writing in another channel, give me a sec)'') c)\<lparr>dirty := True\<rparr>"
    have ne: "?i \<noteq> job_chan (job s)" using True nt s i(1) by (auto simp: chat_inv_def job_ok_def)
    have "chan_ok (?g (channels s ! ?i))" using set_text_ok [OF c(1,2) no_NUL_messages(4)] by simp
    then have all: "list_all chan_ok (channels (on_channel ?i ?g s))"
      by (intro on_channel_all) (use s in \<open>simp_all add: chat_inv_def\<close>)
    have "job_ok (on_channel ?i ?g s)"
      using s ne nt c(5) on_channel_nth [OF i(2), of ?g] by (auto simp: chat_inv_def job_ok_def current_def)
    then show ?thesis using s all len False True bc
      by (simp add: send_message_eq chat_inv_def input_ok_def job_ok_def on_channel_def INPUT_MAX_def)
  next
    case nr: False
    let ?g = "\<lambda>_. c\<lparr>typing := True, dirty := True\<rparr>"
    have all: "list_all chan_ok (channels (on_channel ?i ?g s))"
      by (intro on_channel_all) (use s c(1) in \<open>simp_all add: chat_inv_def\<close>)
    let ?j = "\<lparr>job_chan = ?i, job_msg = b, job_prompt = take (INPUT_MAX - 1) (c_string ((input s)[input_len s := 0]))\<rparr>"
    have "job_ok ((on_channel ?i ?g s)\<lparr>bot_running := True, job := ?j, worker := created\<rparr>)"
      using s nr c(3,4) i on_channel_nth [OF i(2), of ?g] by (auto simp: chat_inv_def job_ok_def)
    then show ?thesis using s all len False nr bc c(3) i(2)
      by (simp add: send_message_eq chat_inv_def input_ok_def job_ok_def on_channel_def INPUT_MAX_def)
  qed
qed

lemma key_effect_inv:
  assumes s: "chat_inv s"
  shows "chat_inv (key_effect now created ev s)"
proof -
  have send: "chat_inv (send_message now created s)" by (rule send_message_inv [OF s])
  have "set (take (input_len s - 1) (input s)) \<subseteq> set (take (input_len s) (input s))"
    by (rule set_take_subset_set_take) simp
  then have shorter: "input_ok (s\<lparr>input_len := input_len s - 1\<rparr>)" using s by (auto simp: chat_inv_def input_ok_def)
  have push: "input_ok (s\<lparr>input := (input s)[input_len s := x], input_len := input_len s + 1\<rparr>)"
    if "input_len s < INPUT_MAX - 1" "32 \<le> x" for x
    using s that by (auto simp: chat_inv_def input_ok_def take_Suc_conv_app_nth)
  show ?thesis using s send shorter push unfolding key_effect_def
    by (auto simp: chat_inv_def job_ok_def NUM_CHANNELS_def input_ok_def)
qed

lemma chat_step_inv: "chat_step s t \<Longrightarrow> chat_inv s \<Longrightarrow> chat_inv t"
  by (induction rule: chat_step.induct) (auto intro: key_effect_inv clean_inv bot_emit_inv bot_finish_inv)
section \<open>The reply\<close>

definition job_text :: "chat \<Rightarrow> u8 list" where
  "job_text s = msg_text (msg_at s (job_chan (job s)) (job_msg (job s)))"

text \<open>What becomes of the text when a piece arrives: it is kept if it fits.\<close>

definition emit_text :: "u8 list \<Rightarrow> u8 list \<Rightarrow> u8 list" where
  "emit_text pce t = (if length t + length pce < MSG_TEXT_MAX - 1 then t @ pce else t)"

text \<open>Steps of the main loop and of the worker in any order; \<open>ps\<close> are the pieces the worker has emitted.\<close>

inductive chat_path :: "chat \<Rightarrow> u8 list list \<Rightarrow> chat \<Rightarrow> bool" where
  path_start: "chat_path s [] s"
| path_key: "chat_path s ps t \<Longrightarrow> chat_path s ps (key_effect now created ev t)"
| path_redraw: "chat_path s ps t \<Longrightarrow> chat_path s ps (clean t)"
| path_emit: "chat_path s ps t \<Longrightarrow> 0 \<notin> set pce \<Longrightarrow> chat_path s (ps @ [pce]) (bot_emit pce t)"

text \<open>The worker's message and its job, as far as the main loop could disturb them.\<close>

definition job_view :: "chat \<Rightarrow> bool \<times> bot_job \<times> u8 list \<times> u8 list" where
  "job_view s = (worker s, job s, job_text s, author (msg_at s (job_chan (job s)) (job_msg (job s))))"

lemma running_worker: "chat_inv s \<Longrightarrow> worker s \<Longrightarrow> bot_running s"
  by (simp add: chat_inv_def job_ok_def)

lemma job_view_cong:
  "worker t = worker s \<Longrightarrow> job t = job s \<Longrightarrow>
   msgs (channels t ! job_chan (job s)) ! job_msg (job s) = msgs (channels s ! job_chan (job s)) ! job_msg (job s) \<Longrightarrow> job_view t = job_view s"
  by (simp add: job_view_def job_text_def msg_at_def)

lemma send_message_view:
  assumes s: "chat_inv s" "worker s"
  shows "job_view (send_message now created s) = job_view s"
proof (cases "input_len s = 0 \<or> typing (current s)")
  case True
  then show ?thesis by (simp add: send_message_eq)
next
  case False
  note r = running_worker [OF s]
  have i: "current_chan s < length (channels s)" using s by (simp add: chat_inv_def)
  have ne: "job_chan (job s) \<noteq> current_chan s" using s(1) r False by (auto simp: chat_inv_def job_ok_def current_def)
  obtain b c where bc: "sent now s = (b, c)" by fastforce
  show ?thesis
    by (rule job_view_cong) (use False r bc ne i in \<open>simp_all add: send_message_eq on_channel_def\<close>)
qed

lemma key_effect_view:
  assumes "chat_inv s" "worker s"
  shows "job_view (key_effect now created ev s) = job_view s"
  using send_message_view [OF assms, of now created]
  by (auto simp: key_effect_def job_view_def job_text_def msg_at_def)

lemma clean_view:
  assumes "chat_inv s"
  shows "job_view (clean s) = job_view s"
proof (rule job_view_cong)
  have "current_chan s < length (channels s)" using assms by (simp add: chat_inv_def)
  then show "msgs (channels (clean s) ! job_chan (job s)) ! job_msg (job s) = msgs (channels s ! job_chan (job s)) ! job_msg (job s)"
    by (simp add: clean_def on_channel_nth)
qed (simp_all add: clean_def)

lemma job_place:
  assumes "chat_inv s" "worker s"
  shows "job_chan (job s) < length (channels s)" "job_msg (job s) < length (msgs (channels s ! job_chan (job s)))"
  using job_slot [OF assms(1) running_worker [OF assms]] chan_ok_nth [OF assms(1)] assms(1)
  by (simp_all add: chat_inv_def chan_ok_def)

lemma bot_emit_view:
  assumes "chat_inv s" "worker s"
  shows "job_view (bot_emit pce s) = (True, job s, emit_text pce (job_text s), author (msg_at s (job_chan (job s)) (job_msg (job s))))"
  using job_place [OF assms] assms(2)
  by (simp add: bot_emit_def Let_def job_view_def job_text_def emit_text_def msg_at_def on_channel_nth)

lemma chat_path_view:
  assumes "chat_path s ps t" "chat_inv s" "worker s"
  shows "chat_inv t \<and> worker t \<and> job t = job s \<and> job_text t = fold emit_text ps (job_text s) \<and>
    author (msg_at t (job_chan (job s)) (job_msg (job s))) = author (msg_at s (job_chan (job s)) (job_msg (job s)))"
  using assms
proof (induction rule: chat_path.induct)
  case (path_key s ps t now created ev)
  then have t: "chat_inv t" "worker t" by simp_all
  show ?case using path_key key_effect_view [OF t, of now created ev] key_effect_inv [OF t(1)] by (auto simp: job_view_def)
next
  case (path_redraw s ps t)
  then have t: "chat_inv t" by simp
  show ?case using path_redraw clean_view [OF t] clean_inv [OF t] by (auto simp: job_view_def)
next
  case (path_emit s ps t pce)
  then have t: "chat_inv t" "worker t" by simp_all
  show ?case using path_emit bot_emit_view [OF t, of pce] bot_emit_inv [OF t path_emit(2)] by (auto simp: job_view_def)
qed simp

definition reply_text :: "int \<Rightarrow> u8 list \<Rightarrow> u8 list" where
  "reply_text n t =
     (if n = LLM_ERR_BUSY then bytes ''(one story at a time! someone else is generating)''
      else if n < 0 then bytes ''(model unavailable - was the ISO built with models?)''
      else if t = [] then bytes ''(the model had nothing to say)'' else t)"

lemma busy_negative: "LLM_ERR_BUSY < 0"
  by (simp add: LLM_ERR_BUSY_def)

lemma set_text_at:
  assumes "i < length (channels s)" "k < length (msgs (channels s ! i))" "length t < MSG_TEXT_MAX"
  shows "msg_text (msg_at (on_channel i (set_text k t) s) i k) = t"
    "length (msgs (channels (on_channel i (set_text k t) s) ! i)) = length (msgs (channels s ! i))"
  using assms by (simp_all add: msg_at_def on_channel_nth set_text_def)

lemma bot_finish_text:
  assumes "chat_inv s" "worker s"
  shows "msg_text (msg_at (bot_finish n s) (job_chan (job s)) (job_msg (job s))) = reply_text n (job_text s)"
    "\<not> bot_running (bot_finish n s)" "\<not> typing (channels (bot_finish n s) ! job_chan (job s))"
proof -
  let ?i = "job_chan (job s)" and ?k = "job_msg (job s)"
  note p = job_place [OF assms]
  define s1 where "s1 = (if n < 0 then on_channel ?i (set_text ?k
                 (if n = LLM_ERR_BUSY then bytes ''(one story at a time! someone else is generating)''
                  else bytes ''(model unavailable - was the ISO built with models?)'')) s else s)"
  define s2 where "s2 = (if msg_text (msg_at s1 ?i ?k) = [] then
      on_channel ?i (set_text ?k (bytes ''(the model had nothing to say)'')) s1 else s1)"
  have e: "bot_finish n s = (on_channel ?i (\<lambda>c. c\<lparr>typing := False, dirty := True\<rparr>) s2)\<lparr>bot_running := False, worker := False\<rparr>"
    unfolding bot_finish_def Let_def s2_def s1_def by simp
  have p1: "?i < length (channels s1)" "?k < length (msgs (channels s1 ! ?i))"
    using p by (simp_all add: s1_def on_channel_nth set_text_def)
  have p2: "?i < length (channels s2)" using p1 by (simp add: s2_def)
  have t1: "msg_text (msg_at s1 ?i ?k) = (if n < 0 then
      if n = LLM_ERR_BUSY then bytes ''(one story at a time! someone else is generating)''
      else bytes ''(model unavailable - was the ISO built with models?)'' else job_text s)"
    using set_text_at(1) [OF p] by (simp add: s1_def job_text_def MSG_TEXT_MAX_def)
  have "msg_text (msg_at s2 ?i ?k) = (if msg_text (msg_at s1 ?i ?k) = [] then bytes ''(the model had nothing to say)''
      else msg_text (msg_at s1 ?i ?k))"
    using set_text_at(1) [OF p1] by (simp add: s2_def MSG_TEXT_MAX_def)
  then have "msg_text (msg_at s2 ?i ?k) = reply_text n (job_text s)"
    unfolding t1 reply_text_def using busy_negative by auto
  then show "msg_text (msg_at (bot_finish n s) ?i ?k) = reply_text n (job_text s)"
    unfolding e using p2 by (simp add: msg_at_def on_channel_nth)
  show "\<not> bot_running (bot_finish n s)" "\<not> typing (channels (bot_finish n s) ! ?i)"
    unfolding e using p2 by (simp_all add: on_channel_nth)
qed
section \<open>The question\<close>

definition char_event :: "u8 \<Rightarrow> key_event" where
  "char_event c = \<lparr>code = KEY_CHAR, ch = c, ctrl = False, alt = False\<rparr>"

definition type_keys :: "u64 \<Rightarrow> u8 list \<Rightarrow> chat \<Rightarrow> chat" where
  "type_keys now cs = fold (\<lambda>c. key_effect now True (char_event c)) cs"

definition printable :: "u8 \<Rightarrow> bool" where
  "printable c \<longleftrightarrow> 32 \<le> c \<and> c < 127"

lemma printable_key: "printable c \<Longrightarrow> c \<noteq> 0 \<and> c \<noteq> 8 \<and> c \<noteq> 9 \<and> c \<noteq> 10"
  by (auto simp: printable_def)

lemma type_text:
  assumes "list_all printable cs" "input_len s + length cs < INPUT_MAX" "length (input s) = INPUT_MAX"
  shows "\<exists>x. type_keys now cs s = s\<lparr>input := x, input_len := input_len s + length cs\<rparr> \<and> length x = INPUT_MAX \<and>
    take (input_len s + length cs) x = take (input_len s) (input s) @ cs"
  using assms
proof (induction cs arbitrary: s)
  case Nil
  then show ?case by (intro exI [of _ "input s"]) (simp add: type_keys_def)
next
  case (Cons c cs)
  let ?s = "s\<lparr>input := (input s)[input_len s := c], input_len := input_len s + 1\<rparr>"
  have c: "printable c" using Cons.prems(1) by simp
  have k: "key_effect now True (char_event c) s = ?s"
    using c printable_key [OF c] Cons.prems(2) by (simp add: key_effect_def char_event_def printable_def)
  from Cons.IH [of ?s] Cons.prems obtain x where x:
    "type_keys now cs ?s = ?s\<lparr>input := x, input_len := input_len ?s + length cs\<rparr>" "length x = INPUT_MAX"
    "take (input_len ?s + length cs) x = take (input_len ?s) (input ?s) @ cs" by auto
  have "take (Suc (input_len s)) ((input s)[input_len s := c]) = take (input_len s) (input s) @ [c]"
    using Cons.prems(2,3) by (simp add: take_Suc_conv_app_nth)
  then show ?case using x k by (intro exI [of _ x]) (simp add: type_keys_def)
qed

lemma sent_messages:
  assumes ok: "chan_ok (current s)" and line: "c_string ((input s)[input_len s := 0]) = cs" "length cs < MSG_TEXT_MAX"
    and e: "sent now s = (b, c)"
  shows "b = Suc (msg_count (current s)) mod MSGS_PER_CHANNEL"
    "author (msgs c ! (msg_count (current s) mod MSGS_PER_CHANNEL)) = bytes ''you''"
    "msg_text (msgs c ! (msg_count (current s) mod MSGS_PER_CHANNEL)) = cs"
    "author (msgs c ! b) = bot (current s)" "msg_text (msgs c ! b) = []"
proof -
  let ?n = "msg_count (current s)"
  obtain u c1 where 1: "push_message (current s) (bytes ''you'') COL_BLURPLE now = (u, c1)" by fastforce
  note p1 = push_message_ok [OF ok 1]
  have 2: "push_message (set_text u cs c1) (bot c1) (bot_color c1) now = (b, c)"
    using e unfolding sent_def 1 line(1) by simp
  have l: "length (msgs c1) = MSGS_PER_CHANNEL" using p1(1) by (simp add: chan_ok_def)
  have b: "b = Suc ?n mod MSGS_PER_CHANNEL" using 2 p1(4) by (auto simp: push_message_def Let_def)
  have "m mod 24 \<noteq> Suc m mod 24" for m :: nat by (simp add: mod_Suc)
  then have ub: "u \<noteq> b" "b < MSGS_PER_CHANNEL" "u < MSGS_PER_CHANNEL"
    unfolding b p1(2) MSGS_PER_CHANNEL_def by simp_all
  have y: "author (msgs c1 ! u) = bytes ''you''"
    using 1 ok ub(3) by (auto simp: push_message_def Let_def chan_ok_def)
  have bl: "length (bot (current s)) \<le> 15" using ok by (simp add: chan_ok_def)
  show "b = Suc ?n mod MSGS_PER_CHANNEL" by (rule b)
  have "msgs c ! u = (msgs c1 ! u)\<lparr>msg_text := take (MSG_TEXT_MAX - 1) cs\<rparr>"
    using 2 ub l by (auto simp: push_message_def Let_def set_text_def)
  then show "author (msgs c ! (?n mod MSGS_PER_CHANNEL)) = bytes ''you''" "msg_text (msgs c ! (?n mod MSGS_PER_CHANNEL)) = cs"
    using y line(2) p1(2) by simp_all
  show "author (msgs c ! b) = bot (current s)" "msg_text (msgs c ! b) = []"
    using 2 ub l bl p1(6) by (auto simp: push_message_def Let_def set_text_def)
qed

lemma ask_lemma:
  fixes now :: u64
  assumes s: "chat_inv s" "\<not> bot_running s" "input_len s = 0"
    and cs: "cs \<noteq> []" "list_all printable cs" "length cs < INPUT_MAX"
  defines "s1 \<equiv> type_keys now (cs @ [10]) s" and "k \<equiv> msg_count (current s) mod MSGS_PER_CHANNEL"
    and "k' \<equiv> Suc (msg_count (current s)) mod MSGS_PER_CHANNEL"
  shows "chat_inv s1" "worker s1" "job s1 = \<lparr>job_chan = current_chan s, job_msg = k', job_prompt = cs\<rparr>"
    "author (msg_at s1 (current_chan s) k) = bytes ''you''" "msg_text (msg_at s1 (current_chan s) k) = cs"
    "author (msg_at s1 (current_chan s) k') = bot (current s)" "job_text s1 = []"
proof -
  have i: "current_chan s < NUM_CHANNELS" "current_chan s < length (channels s)" using s(1) by (simp_all add: chat_inv_def)
  have ok: "chan_ok (current s)" unfolding current_def by (rule chan_ok_nth [OF s(1) i(1)])
  have "length (input s) = INPUT_MAX" using s(1) by (simp add: chat_inv_def input_ok_def)
  from type_text [OF cs(2) _ this, of now] cs(3) s(3) obtain x where
    x: "type_keys now cs s = s\<lparr>input := x, input_len := length cs\<rparr>" "length x = INPUT_MAX" "take (length cs) x = cs" by auto
  let ?t = "s\<lparr>input := x, input_len := length cs\<rparr>"
  have cur: "current ?t = current s" by (simp add: current_def)
  have nz: "0 \<notin> set cs" using cs(2) printable_key by (auto simp: list_all_iff)
  have line: "c_string ((input ?t)[input_len ?t := 0]) = cs"
    using c_string_take [of "length cs" x] x(2,3) nz cs(3) by simp
  have nt: "\<not> typing (current ?t)" using s i(1) by (simp add: current_def chat_inv_def job_ok_def)
  obtain b c where bc: "sent now ?t = (b, c)" by fastforce
  have "length cs < MSG_TEXT_MAX" using cs(3) by (simp add: INPUT_MAX_def MSG_TEXT_MAX_def)
  from sent_messages [of ?t, OF _ line this bc] ok have m:
    "b = k'" "author (msgs c ! k) = bytes ''you''" "msg_text (msgs c ! k) = cs" "author (msgs c ! b) = bot (current s)"
    "msg_text (msgs c ! b) = []" unfolding cur k_def k'_def by simp_all
  have "s1 = key_effect now True (char_event 10) ?t" unfolding s1_def using x(1) by (simp add: type_keys_def)
  also have "\<dots> = send_message now True ?t" by (simp add: key_effect_def char_event_def)
  also have "\<dots> = (on_channel (current_chan ?t) (\<lambda>_. c\<lparr>typing := True, dirty := True\<rparr>) (?t\<lparr>input := x[length cs := 0]\<rparr>))
             \<lparr>bot_running := True,
              job := \<lparr>job_chan = current_chan s, job_msg = b, job_prompt = take (INPUT_MAX - 1) cs\<rparr>,
              input_len := 0, worker := True\<rparr>"
    using cs(1) nt s(2) bc line unfolding send_message_eq by simp
  finally have s1: "s1 = (on_channel (current_chan ?t) (\<lambda>_. c\<lparr>typing := True, dirty := True\<rparr>) (?t\<lparr>input := x[length cs := 0]\<rparr>))
             \<lparr>bot_running := True,
              job := \<lparr>job_chan = current_chan s, job_msg = b, job_prompt = take (INPUT_MAX - 1) cs\<rparr>,
              input_len := 0, worker := True\<rparr>" .
  have inv: "chat_inv (type_keys now ds r)" if "chat_inv r" for ds r
    using that by (induction ds arbitrary: r) (simp_all add: type_keys_def key_effect_inv)
  show "chat_inv s1" unfolding s1_def by (rule inv [OF s(1)])
  have at: "msg_at s1 (current_chan s) j = msgs c ! j" for j using i(2) by (simp add: s1 msg_at_def on_channel_def)
  show "worker s1" by (simp add: s1)
  show job: "job s1 = \<lparr>job_chan = current_chan s, job_msg = k', job_prompt = cs\<rparr>" using cs(3) m(1) by (simp add: s1)
  show "author (msg_at s1 (current_chan s) k) = bytes ''you''" "msg_text (msg_at s1 (current_chan s) k) = cs"
    "author (msg_at s1 (current_chan s) k') = bot (current s)"
    unfolding at using m by simp_all
  show "job_text s1 = []" unfolding job_text_def job using m(1,5) at by simp
qed

text \<open>
  C20: A question typed into an idle chat is answered: the line of printable characters becomes the user's
  message and the worker's prompt, and whatever keys are pressed and redraws happen while the worker emits its
  pieces, the bot's message ends up holding exactly the pieces that fit, in order (or the notice that belongs to
  the result), under the bot's name, and the bot is free again.
\<close>

theorem question_answered:
  assumes "chat_inv s" "\<not> bot_running s" "input_len s = 0" "cs \<noteq> []" "list_all printable cs" "length cs < INPUT_MAX"
    and "chat_path (type_keys now (cs @ [10]) s) ps t"
  shows "job_prompt (job t) = cs \<and> chat_inv (bot_finish n t) \<and> \<not> bot_running (bot_finish n t) \<and>
    msg_text (msg_at (type_keys now (cs @ [10]) s) (current_chan s) (msg_count (current s) mod MSGS_PER_CHANNEL)) = cs \<and>
    msg_text (msg_at (bot_finish n t) (current_chan s) (Suc (msg_count (current s)) mod MSGS_PER_CHANNEL)) =
      reply_text n (fold emit_text ps []) \<and>
    author (msg_at t (current_chan s) (Suc (msg_count (current s)) mod MSGS_PER_CHANNEL)) = bot (current s)"
proof -
  note a = ask_lemma [OF assms(1-6), of now]
  note p = chat_path_view [OF assms(7) a(1,2)]
  have t: "chat_inv t" "worker t" using p by simp_all
  show ?thesis using p a bot_finish_text [OF t, of n] bot_finish_inv [OF t, of n] by simp
qed

lemma init_channel_ok:
  assumes "length nm \<le> 11" "length nm + length tp \<le> 67" "length bt \<le> 8"
  shows "chan_ok (init_channel nm tp bt c mdl tc pc n)"
proof -
  have "msg_ok no_message" by (simp add: msg_ok_def no_message_def MSG_TEXT_MAX_def)
  then show ?thesis using assms by (simp add: init_channel_def chan_ok_def list_all_iff)
qed

lemma init_channels_ok:
  "list_all (\<lambda>c. chan_ok c \<and> \<not> typing c) init_channels" "length init_channels = NUM_CHANNELS"
  by (simp_all add: init_channels_def init_channel_ok NUM_CHANNELS_def) (simp add: init_channel_def)

lemma chat_start_inv: "chat_inv chat_start"
proof -
  have all: "list_all chan_ok init_channels" "\<forall>i < NUM_CHANNELS. \<not> typing (init_channels ! i)"
    using init_channels_ok by (auto simp: list_all_length)
  have "input_ok chat_start" by (simp add: input_ok_def chat_start_def INPUT_MAX_def)
  then show ?thesis using all init_channels_ok(2)
    by (simp add: chat_inv_def job_ok_def chat_start_def NUM_CHANNELS_def)
qed

theorem question_answered_witness:
  "\<exists>t. job_prompt (job t) = [104, 105] \<and> chat_inv (bot_finish 2 t) \<and>
     msg_text (msg_at (bot_finish 2 t) 0 1) = [72, 111]"
proof -
  define s1 where "s1 = type_keys 60000 ([104, 105] @ [10]) chat_start"
  have "chat_path s1 ([] @ [[72]]) (bot_emit [72] s1)" by (intro path_emit path_start) simp
  then have "chat_path s1 ([] @ [[72]]) (key_effect 0 True (char_event 120) (bot_emit [72] s1))" by (rule path_key)
  then have p: "chat_path s1 (([] @ [[72]]) @ [[111]]) (bot_emit [111] (key_effect 0 True (char_event 120) (bot_emit [72] s1)))"
    by (rule path_emit) simp
  have c: "current_chan chat_start = 0" "msg_count (current chat_start) = 0"
    by (simp_all add: chat_start_def current_def init_channels_def init_channel_def)
  have b: "\<not> bot_running chat_start" "input_len chat_start = 0" by (simp_all add: chat_start_def)
  have r: "reply_text 2 (fold emit_text [[72], [111]] []) = [72, 111]"
    by (simp add: reply_text_def emit_text_def MSG_TEXT_MAX_def LLM_ERR_BUSY_def)
  have q: "chat_path (type_keys 60000 ([104, 105] @ [10]) chat_start) [[72], [111]]
      (bot_emit [111] (key_effect 0 True (char_event 120) (bot_emit [72] s1)))" using p by (simp add: s1_def)
  have "printable 104" "printable 105" by (simp_all add: printable_def)
  then show ?thesis
    using question_answered [OF chat_start_inv b, of "[104, 105]" 60000 "[[72], [111]]", OF _ _ _ q, of 2] c r
    by (auto simp: chat_limits)
qed
text \<open>The worker thread as a whole is a run of its steps.\<close>

lemma emits_worker: "worker (fold bot_emit out s) = worker s"
  by (induction out arbitrary: s) (simp_all add: bot_emit_def Let_def)

lemma bot_worker_steps:
  assumes "bot_worker ops M mods now s llm h = Some (t, llm', h')" "worker s"
  shows "\<exists>n out. t = fold worker_step (map Emit out @ [Finish n]) s"
proof -
  have e: "fold worker_step (map Emit out) s = fold bot_emit out s" if "worker s" for out s
    using that emits_worker [of "[x]" for x] by (induction out arbitrary: s) (simp_all add: worker_step_def bot_emit_def Let_def)
  from assms(1) obtain n out where "t = bot_finish n (fold bot_emit out s)"
    by (auto simp: bot_worker_def Let_def bind_Some_iff)
  then have "t = fold worker_step (map Emit out @ [Finish n]) s"
    using e [OF assms(2)] emits_worker [of out s] assms(2) by (simp add: worker_step_def)
  then show ?thesis by blast
qed

end
