(* ===== verification/ChatSafe.thy ===== *)
theory ChatSafe
  imports ChatState
begin

text \<open>
  On a screen of at least 95 by 16 characters the chat program never writes outside the frame buffer, the line
  buffer or its arrays, and every turn of its main loop ends.
\<close>

section \<open>Drawing on a grid that fits\<close>

definition grid_fits :: "font \<Rightarrow> layout \<Rightarrow> framebuffer \<Rightarrow> bool" where
  [inv_simps]: "grid_fits f l s \<longleftrightarrow> fb_ok s \<and> font_ok f \<and> cols l * int (unat (f_width f)) \<le> int (unat (fb_width s)) \<and>
     rows l * int (unat (f_height f)) \<le> int (unat (fb_height s)) \<and> cols l < 2 ^ 31 \<and> rows l < 2 ^ 31 \<and>
     95 \<le> cols l \<and> 16 \<le> rows l \<and> sidebar_cols l = 22 \<and> members_cols l = 18 \<and> chat_x l = 25 \<and>
     chat_cols l = cols l - 43 \<and> header_rows l = 2 \<and> input_rows l = 2 \<and> chat_top l = 2 \<and> chat_rows l = rows l - 4"

text \<open>A drawing that succeeds and leaves a screen of the same size.\<close>

definition paints :: "font \<Rightarrow> layout \<Rightarrow> framebuffer option \<Rightarrow> bool" where
  "paints f l r \<longleftrightarrow> (\<exists>t. r = Some t \<and> grid_fits f l t)"

lemma paintsI: "r = Some t \<Longrightarrow> grid_fits f l t \<Longrightarrow> paints f l r"
  by (simp add: paints_def)

lemma paints_Some [intro]: "grid_fits f l s \<Longrightarrow> paints f l (Some s)"
  by (simp add: paints_def)

lemma paints_bind [intro]: "paints f l r \<Longrightarrow> (\<And>t. grid_fits f l t \<Longrightarrow> paints f l (h t)) \<Longrightarrow> paints f l (r \<bind> h)"
  by (auto simp: paints_def)

lemma grid_fits_same: "grid_fits f l s \<Longrightarrow> same_screen s t \<Longrightarrow> grid_fits f l t"
  using same_screen_ok by (auto simp: grid_fits_def same_screen_def)

lemma paints_rect [intro]: "grid_fits f l s \<Longrightarrow> paints f l (framebuffer_draw_rect x y w h c s)"
  by (metis draw_rect_lemma grid_fits_def grid_fits_same paintsI)

lemma paints_fill [intro]: "grid_fits f l s \<Longrightarrow> paints f l (fill_cells l x y w h c s)"
  unfolding fill_cells_def by (rule paints_rect)

lemma paints_foldM [intro]:
  assumes "grid_fits f l s" "\<And>x t. x \<in> set xs \<Longrightarrow> grid_fits f l t \<Longrightarrow> paints f l (g x t)"
  shows "paints f l (foldM g xs s)"
  using assms by (induction xs arbitrary: s) auto

lemma int_cell: "0 \<le> x \<Longrightarrow> x < n \<Longrightarrow> n < 2 ^ 31 \<Longrightarrow> unat (of_int x :: u32) = nat x"
proof -
  assume a: "0 \<le> x" "x < n" "n < 2 ^ 31"
  then have "(of_int x :: u32) = of_nat (nat x)" by simp
  moreover have "nat x < 2 ^ 32" using a by simp
  ultimately show ?thesis by (simp add: unat_of_nat_small)
qed

lemma paints_char:
  assumes s: "grid_fits f l s" and x: "0 \<le> x" "x < cols l" and y: "0 \<le> y" "y < rows l"
  shows "paints f l (framebuffer_put_char f c (of_int x) (of_int y) fg bg s)"
proof -
  let ?w = "unat (f_width f)" and ?h = "unat (f_height f)"
  have u: "unat (of_int x :: u32) = nat x" "unat (of_int y :: u32) = nat y"
    using int_cell [OF x] int_cell [OF y] s by (simp_all add: grid_fits_def)
  have grid: "(nat z + 1) * k \<le> m" if "0 \<le> z" "z < n" "n * int k \<le> int m" for z n :: int and k m :: nat
  proof -
    have "(z + 1) * int k \<le> n * int k" using that by (intro mult_right_mono) simp_all
    then have "int ((nat z + 1) * k) \<le> int m" using that by (simp add: algebra_simps)
    then show ?thesis by (simp only: of_nat_le_iff)
  qed
  have "(unat (of_int x :: u32) + 1) * ?w \<le> unat (fb_width s)" unfolding u
    by (rule grid [OF x]) (use s in \<open>simp add: grid_fits_def\<close>)
  moreover have "(unat (of_int y :: u32) + 1) * ?h \<le> unat (fb_height s)" unfolding u
    by (rule grid [OF y]) (use s in \<open>simp add: grid_fits_def\<close>)
  moreover have ok: "fb_ok s" "font_ok f" using s by (simp_all add: grid_fits_def)
  ultimately obtain fr where fr: "framebuffer_put_char f c (of_int x) (of_int y) fg bg s = Some (s\<lparr>vram := fr\<rparr>)"
    "length fr = length (vram s)" using put_char_lemma [of s f "of_int x" "of_int y" c fg bg] by blast
  have "same_screen s (s\<lparr>vram := fr\<rparr>)" using fr(2) by (simp add: same_screen_def)
  then show ?thesis using grid_fits_same [OF s] fr(1) by (intro paintsI)
qed

lemma paints_text [intro]:
  "grid_fits f l s \<Longrightarrow> 0 \<le> x \<Longrightarrow> x + int (length cs) \<le> cols l \<Longrightarrow> 0 \<le> y \<Longrightarrow> y < rows l \<Longrightarrow> paints f l (put_text f cs x y fg bg s)"
proof (induction cs arbitrary: x s)
  case (Cons c cs)
  show ?case unfolding put_text.simps
  proof (rule paints_bind)
    show "paints f l (framebuffer_put_char f (ucast c) (of_int x) (of_int y) fg bg s)"
      by (rule paints_char) (use Cons.prems in simp_all)
    show "paints f l (put_text f cs (x + 1) y fg bg t)" if "grid_fits f l t" for t
      by (rule Cons.IH [OF that]) (use Cons.prems in simp_all)
  qed
qed auto

lemma paints_text_n [intro]:
  assumes "grid_fits f l s" "0 \<le> x" "x + n \<le> cols l" "0 \<le> n" "0 \<le> y" "y < rows l"
  shows "paints f l (put_text_n f cs n x y fg bg s)"
  unfolding put_text_n_def by (rule paints_text) (use assms in simp_all)

text \<open>Drawings that also return where the text ends.\<close>

definition paints_to :: "font \<Rightarrow> layout \<Rightarrow> (int \<Rightarrow> bool) \<Rightarrow> (int \<times> framebuffer) option \<Rightarrow> bool" where
  "paints_to f l P r \<longleftrightarrow> (\<exists>x t. r = Some (x, t) \<and> grid_fits f l t \<and> P x)"

lemma paints_to_Some [intro]: "grid_fits f l s \<Longrightarrow> P x \<Longrightarrow> paints_to f l P (Some (x, s))"
  by (simp add: paints_to_def)

lemma paints_to_bind [intro]:
  "paints f l r \<Longrightarrow> (\<And>t. grid_fits f l t \<Longrightarrow> paints_to f l P (h t)) \<Longrightarrow> paints_to f l P (r \<bind> h)"
  by (auto simp: paints_def)

lemma paints_from [intro]:
  "paints_to f l P r \<Longrightarrow> (\<And>x t. P x \<Longrightarrow> grid_fits f l t \<Longrightarrow> paints f l (h x t)) \<Longrightarrow> paints f l (r \<bind> (\<lambda>(x, t). h x t))"
  by (auto simp: paints_to_def)

section \<open>Formatted text\<close>

lemma stack_text_ok:
  assumes "0 < n" "format_text fmt args \<noteq> None"
  shows "\<exists>t. stack_text n fmt args = Some t \<and> length t < n"
proof -
  from assms(2) obtain t where t: "format_text fmt args = Some t" by blast
  let ?b = "take (n - 1) t @ [0] @ drop (length (take (n - 1) t) + 1) (replicate n 0)"
  have "vsnprintf (replicate n 0) n fmt args = Some (length t, ?b)"
    using vsnprintf_lemma [of n "replicate n 0" fmt args] assms(1) t by simp
  then have e: "stack_text n fmt args = Some (c_string ?b)" by (simp add: stack_text_def)
  have "length (takeWhile (\<lambda>c. c \<noteq> 0) (xs @ 0 # ys)) \<le> length xs" for xs ys :: "u8 list"
    by (induction xs) simp_all
  from this [of "take (n - 1) t"] have "length (c_string ?b) \<le> length (take (n - 1) t)" by (simp add: c_string_def)
  also have "\<dots> < n" using assms(1) by simp
  finally show ?thesis using e by simp
qed

lemma chat_formats:
  "format_text (bytes '' %02u:%02u'') [Num a, Num b] \<noteq> None"
  "format_text (bytes ''Message %s'') [Str (Some t)] \<noteq> None"
  "format_text (bytes ''%s is typing...'') [Str (Some t)] \<noteq> None"
  by (simp_all add: directive_def convert_text_def)
section \<open>The panels\<close>

lemmas paints_intros = paints_bind paints_fill paints_rect paints_text paints_text_n paints_foldM

lemma grid_fits_dims:
  assumes "grid_fits f l s"
  shows "95 \<le> cols l" "16 \<le> rows l" "sidebar_cols l = 22" "members_cols l = 18" "chat_x l = 25"
    "chat_cols l = cols l - 43" "header_rows l = 2" "input_rows l = 2" "chat_top l = 2" "chat_rows l = rows l - 4"
  using assms by (simp_all add: grid_fits_def)

lemma draw_serverbar_ok: "grid_fits f l s \<Longrightarrow> paints f l (draw_serverbar f l s)"
  unfolding draw_serverbar_def by (intro paints_intros) (use grid_fits_dims in \<open>simp_all, fastforce+\<close>)

lemma current_ok: "chat_inv s \<Longrightarrow> chan_ok (current s)"
  unfolding current_def by (rule chan_ok_nth) (simp_all add: chat_inv_def)

lemma draw_channel_name_ok:
  assumes "chat_inv s" "i < NUM_CHANNELS" "grid_fits f l r"
  shows "paints f l (draw_channel_name f l s i r)"
proof -
  have "length (ch_name (channels s ! i)) \<le> 11" using chan_ok_nth [OF assms(1,2)] by (simp add: chan_ok_def)
  then show ?thesis unfolding draw_channel_name_def Let_def
    by (intro paints_intros) (use assms(2,3) grid_fits_dims [OF assms(3)] in \<open>simp_all add: NUM_CHANNELS_def\<close>)
qed

lemma draw_sidebar_ok:
  assumes "chat_inv s" "grid_fits f l r"
  shows "paints f l (draw_sidebar f l s r)"
  unfolding draw_sidebar_def
  by (intro paints_intros draw_channel_name_ok [OF assms(1)]) (use assms(2) grid_fits_dims [OF assms(2)] in simp_all)

lemma draw_header_ok:
  assumes "chat_inv s" "grid_fits f l r"
  shows "paints f l (draw_header f l s r)"
proof -
  have "length (ch_name (current s)) + length (topic (current s)) \<le> 67"
    using current_ok [OF assms(1)] by (simp add: chan_ok_def)
  then show ?thesis unfolding draw_header_def Let_def
    by (intro paints_intros) (use assms(2) grid_fits_dims [OF assms(2)] in simp_all)
qed

lemma draw_member_ok:
  assumes "i < length people" "list_all (\<lambda>q. length (fst q) \<le> 8) people" "i < 4" "grid_fits f l r"
  shows "paints f l (draw_member f l people i r)"
proof -
  have "length (fst (people ! i)) \<le> 8" using assms(1,2) by (simp add: list_all_length)
  then show ?thesis unfolding draw_member_def Let_def
    by (intro paints_intros) (use assms(3,4) grid_fits_dims [OF assms(4)] in simp_all)
qed

lemma draw_members_ok:
  assumes "chat_inv s" "grid_fits f l r"
  shows "paints f l (draw_members f l s r)"
proof -
  define people where "people = (bytes ''you'', COL_BLURPLE) # map (\<lambda>i. (bot (channels s ! i), bot_color (channels s ! i))) [0, 1, 2]"
  have "length (bot (channels s ! i)) \<le> 8" if "i < NUM_CHANNELS" for i
    using chan_ok_nth [OF assms(1) that] by (simp add: chan_ok_def)
  then have p: "list_all (\<lambda>q. length (fst q) \<le> 8) people" "length people = 4" by (simp_all add: NUM_CHANNELS_def people_def)
  show ?thesis unfolding draw_members_def Let_def people_def [symmetric]
    by (intro paints_intros draw_member_ok) (use p assms(2) grid_fits_dims [OF assms(2)] in simp_all)
qed

section \<open>The messages\<close>

text \<open>A line the panel has room for.\<close>

definition line_fits :: "int \<Rightarrow> wrap_line \<Rightarrow> bool" where
  "line_fits width L \<longleftrightarrow> (if author_line L then length (wl_text L) < 16 else int (length (wl_text L)) \<le> width)"

lemma draw_line_ok:
  assumes fit: "line_fits (chat_cols l - 2) L" and y: "0 \<le> y" "y < rows l" and r: "grid_fits f l r"
  shows "paints_to f l (\<lambda>_. True) (draw_line f l (chat_cols l - 2) L y r)"
proof (cases "author_line L")
  case True
  have z: "(0 :: nat) < 16" by simp
  from stack_text_ok [OF z chat_formats(1)] obtain ts where ts: "stack_text 16 (bytes '' %02u:%02u'')
      [Num (ucast (wl_minutes L div 60)), Num (ucast (wl_minutes L mod 60))] = Some ts" "length ts < 16" by blast
  have "length (wl_text L) < 16" using True fit by (simp add: line_fits_def)
  then show ?thesis unfolding draw_line_def Let_def if_P [OF True] ts(1) bind.bind_lunit
    by (intro paints_to_bind paints_to_Some paints_text) (use r y grid_fits_dims [OF r] ts(2) in simp_all)
next
  case False
  then have n: "\<not> int (length (wl_text L)) > chat_cols l - 2" using fit by (simp add: line_fits_def)
  show ?thesis unfolding draw_line_def Let_def if_not_P [OF False] if_not_P [OF n]
    by (intro paints_to_bind paints_to_Some paints_text_n) (use r y n grid_fits_dims [OF r] in simp_all)
qed

lemma paints_to_first: "paints f l r \<Longrightarrow> (\<And>t. grid_fits f l t \<Longrightarrow> paints_to f l P (g t)) \<Longrightarrow> paints_to f l P (r \<bind> g)"
  by (auto simp: paints_def)

lemma paints_if: "(b \<Longrightarrow> paints f l r) \<Longrightarrow> (\<not> b \<Longrightarrow> paints f l q) \<Longrightarrow> paints f l (if b then r else q)"
  by simp

lemma draw_row_ok:
  assumes L: "list_all (line_fits (chat_cols l - 2)) shown" and i: "int i < chat_rows l" and r: "grid_fits f l r"
  shows "paints f l (draw_row f l (chat_cols l - 2) shown i r)"
proof (cases "i < length shown")
  case False
  then show ?thesis unfolding draw_row_def Let_def using paints_fill [OF r] by simp
next
  case True
  let ?y = "chat_top l + int i"
  have fit: "line_fits (chat_cols l - 2) (shown ! i)" using L True by (simp add: list_all_length)
  have y: "0 \<le> ?y" "?y < rows l" using i grid_fits_dims [OF r] by simp_all
  have n: "\<not> i \<ge> length shown" using True by simp
  show ?thesis unfolding draw_row_def Let_def if_not_P [OF n]
    by (rule paints_from, rule paints_to_first, rule paints_fill [OF r], rule draw_line_ok [OF fit y], assumption)
      (intro paints_if paints_fill paints_Some)
qed

lemma wrap_messages_ok:
  assumes c: "chan_ok c" and p: "p_lines p = None \<and> length alloc = MAX_LINES \<or> (\<exists>ls. p_lines p = Some ls \<and> length ls = MAX_LINES)"
    and w: "1 \<le> width"
  shows "\<exists>p'. wrap_messages (Some alloc) c width p = Some p' \<and> panel_ok p' \<and> list_all (line_fits width) (lines_used p')"
proof -
  define q where "q = (if p_lines p = None then p\<lparr>p_lines := Some alloc\<rparr> else p)\<lparr>line_count := 0\<rparr>"
  have q: "panel_ok q" "lines_used q = []" using p by (auto simp: panel_ok_def lines_used_def q_def)
  have step: "\<exists>t'. wrap_message (msgs c ! (i mod MSGS_PER_CHANNEL)) width t = Some t' \<and> panel_ok t' \<and> list_all (line_fits width) (lines_used t')"
    if "panel_ok t \<and> list_all (line_fits width) (lines_used t)" for i t
  proof -
    let ?m = "msgs c ! (i mod MSGS_PER_CHANNEL)"
    have "msg_ok ?m" by (rule msg_ok_nth [OF c]) (simp add: MSGS_PER_CHANNEL_def)
    then have a: "length (author ?m) < 16" by (simp add: msg_ok_def)
    from wrap_message_ok [OF w, of t ?m] that obtain t' ls where
      t': "wrap_message ?m width t = Some t'" "panel_ok t'" "lines_used t' = lines_used t @ ls" and
      ls: "line_count t = MAX_LINES \<and> ls = [] \<or> (\<exists>H bs. ls = H # bs \<and> author_line H \<and> wl_text H = take 199 (author ?m) \<and>
        list_all (body_line width) bs)" by blast
    have "list_all (line_fits width) ls"
      using ls a by (auto simp: line_fits_def body_line_def list_all_iff)
    then show ?thesis using t' that by simp
  qed
  have "\<exists>p'. foldM (\<lambda>i. wrap_message (msgs c ! (i mod MSGS_PER_CHANNEL)) width) xs q = Some p' \<and>
      panel_ok p' \<and> list_all (line_fits width) (lines_used p')" for xs
    by (rule foldM_invariant [where P = "\<lambda>_ t. panel_ok t \<and> list_all (line_fits width) (lines_used t)"]) (use q step in auto)
  then show ?thesis unfolding wrap_messages_def Let_def q_def by simp
qed
text \<open>The state of the screen between two drawings.\<close>

definition view_ok :: "font \<Rightarrow> layout \<Rightarrow> view \<Rightarrow> bool" where
  [inv_simps]: "view_ok f l v \<longleftrightarrow> grid_fits f l (v_fb v) \<and>
     (p_lines (v_panel v) = None \<or> (\<exists>ls. p_lines (v_panel v) = Some ls \<and> length ls = MAX_LINES))"

lemma draw_chat_ok:
  assumes s: "chat_inv s" and v: "view_ok f l v" and al: "length al = MAX_LINES"
  shows "\<exists>v'. draw_chat f l (Some al) s v = Some v' \<and> view_ok f l v'"
proof -
  let ?w = "chat_cols l - 2"
  have r: "grid_fits f l (v_fb v)" using v by (simp add: view_ok_def)
  note d = grid_fits_dims [OF r]
  have "1 \<le> ?w" using d by simp
  from wrap_messages_ok [OF current_ok [OF s] _ this, of "v_panel v" al] v al obtain p where
    p: "wrap_messages (Some al) (current s) ?w (v_panel v) = Some p" "panel_ok p" "list_all (line_fits ?w) (lines_used p)"
    by (auto simp: view_ok_def)
  from p(2) obtain ls where ls: "p_lines p = Some ls" "length ls = MAX_LINES" "line_count p \<le> MAX_LINES" by (auto simp: panel_ok_def)
  define vis where "vis = (if int (line_count p) < chat_rows l then int (line_count p) else chat_rows l)"
  define shown where "shown = take (nat vis) (drop (nat (int (line_count p) - vis)) ls)"
  have vis: "0 \<le> vis" "vis \<le> int (line_count p)" using d by (auto simp: vis_def)
  have "nat vis = line_count p - nat (int (line_count p) - vis)" using vis by linarith
  then have "shown = drop (nat (int (line_count p) - vis)) (lines_used p)"
    unfolding shown_def lines_used_def ls(1) option.sel drop_take by simp
  then have sh: "list_all (line_fits ?w) shown" using p(3) by (auto simp: list_all_iff dest: in_set_dropD)
  have "paints f l (foldM (draw_row f l ?w shown) [0..<nat (chat_rows l)] (v_fb v))"
    by (intro paints_foldM [OF r] draw_row_ok [OF sh]) auto
  then obtain b where b: "foldM (draw_row f l ?w shown) [0..<nat (chat_rows l)] (v_fb v) = Some b" "grid_fits f l b"
    by (auto simp: paints_def)
  have "draw_chat f l (Some al) s v = Some \<lparr>v_fb = b, v_panel = p\<rparr>"
    unfolding draw_chat_def Let_def p(1) bind.bind_lunit vis_def [symmetric] ls(1) option.case shown_def [symmetric] b(1) ..
  then show ?thesis using b(2) ls by (intro exI [of _ "\<lparr>v_fb = b, v_panel = p\<rparr>"]) (simp add: view_ok_def)
qed

section \<open>The input line\<close>

lemma draw_input_text_ok:
  assumes s: "chat_inv s" and r: "grid_fits f l r" and y: "0 \<le> y" "y < rows l"
  shows "paints_to f l (\<lambda>_. True) (draw_input_text f l s y r)"
proof (cases "input_len s = 0")
  case True
  have z: "(0 :: nat) < 64" by simp
  from stack_text_ok [OF z chat_formats(2)] obtain t where
    t: "stack_text 64 (bytes ''Message %s'') [Str (Some (ch_name (current s)))] = Some t" "length t < 64" by blast
  show ?thesis unfolding draw_input_text_def Let_def if_P [OF True] t(1) bind.bind_lunit
    by (intro paints_to_bind paints_to_Some paints_text) (use r y t(2) grid_fits_dims [OF r] in simp_all)
next
  case False
  define shown where "shown = (if int (input_len s) < chat_cols l - 5 then int (input_len s) else chat_cols l - 5)"
  have sh: "0 \<le> shown" "shown \<le> chat_cols l - 5" using grid_fits_dims [OF r] by (auto simp: shown_def)
  show ?thesis unfolding draw_input_text_def Let_def if_not_P [OF False] shown_def [symmetric]
    by (intro paints_to_bind paints_to_Some paints_text_n paints_fill) (use r y sh grid_fits_dims [OF r] in simp_all)
qed

lemma draw_typing_ok:
  assumes s: "chat_inv s" and r: "grid_fits f l r" and y: "0 \<le> y" "y + 1 < rows l"
  shows "paints_to f l (\<lambda>_. True) (draw_typing f l s y r)"
proof (cases "typing (current s)")
  case True
  have z: "(0 :: nat) < 64" by simp
  from stack_text_ok [OF z chat_formats(3)] obtain t where
    t: "stack_text 64 (bytes ''%s is typing...'') [Str (Some (bot (current s)))] = Some t" "length t < 64" by blast
  show ?thesis unfolding draw_typing_def if_P [OF True] t(1) bind.bind_lunit
    by (intro paints_to_bind paints_to_Some paints_text paints_fill) (use r y t(2) grid_fits_dims [OF r] in simp_all)
next
  case False
  then show ?thesis unfolding draw_typing_def using r by auto
qed

lemma draw_input_ok:
  assumes s: "chat_inv s" and r: "grid_fits f l r"
  shows "paints f l (draw_input f l s r)"
proof -
  have y: "0 \<le> rows l - input_rows l" "rows l - input_rows l < rows l" "rows l - input_rows l + 1 < rows l"
    using grid_fits_dims [OF r] by simp_all
  let ?y = "rows l - input_rows l" and ?right = "chat_x l + chat_cols l"
  have 1: "paints_to f l (\<lambda>_. True) (fill_cells l (chat_x l) ?y 1 1 COL_CHAT r \<bind>
      fill_cells l (?right - 1) ?y 1 1 COL_CHAT \<bind> fill_cells l (chat_x l + 1) ?y 1 1 COL_INPUT \<bind> draw_input_text f l s ?y)"
    by (intro paints_to_first paints_bind paints_fill r draw_input_text_ok [OF s _ y(1,2)])
  have 2: "paints_to f l (\<lambda>_. True) ((if x < ?right - 1 then fill_cells l x ?y (?right - 1 - x) 1 COL_INPUT t else Some t) \<bind>
      draw_typing f l s ?y)" if "grid_fits f l t" for x t
    by (intro paints_to_first paints_if paints_fill paints_Some that draw_typing_ok [OF s _ y(1,3)])
  have 3: "paints f l (if x < ?right then fill_cells l x (?y + 1) (?right - x) 1 COL_CHAT t else Some t)"
    if "grid_fits f l t" for x t by (intro paints_if paints_fill paints_Some that)
  show ?thesis unfolding draw_input_def Let_def by (rule paints_from [OF 1], rule paints_from [OF 2]) (auto intro: 3)
qed

lemma on_fb_ok:
  assumes "view_ok f l v" "\<And>r. grid_fits f l r \<Longrightarrow> paints f l (g r)"
  shows "\<exists>v'. on_fb g v = Some v' \<and> view_ok f l v'"
proof -
  have "paints f l (g (v_fb v))" using assms by (simp add: view_ok_def)
  then obtain b where "g (v_fb v) = Some b" "grid_fits f l b" by (auto simp: paints_def)
  then show ?thesis using assms(1) by (simp add: on_fb_def view_ok_def)
qed

lemma draw_all_ok:
  assumes s: "chat_inv s" and v: "view_ok f l v" and al: "length al = MAX_LINES"
  shows "\<exists>v'. draw_all f l (Some al) s v = Some v' \<and> view_ok f l v'"
proof -
  have chain: "\<exists>v'. (r \<bind> h) = Some v' \<and> view_ok f l v'"
    if "\<exists>v'. r = Some v' \<and> view_ok f l v'" "\<And>v. view_ok f l v \<Longrightarrow> \<exists>v'. h v = Some v' \<and> view_ok f l v'" for r h
    using that by auto
  show ?thesis unfolding draw_all_def
    by (intro chain on_fb_ok v draw_chat_ok [OF s _ al] draw_serverbar_ok draw_sidebar_ok [OF s] draw_header_ok [OF s]
        draw_members_ok [OF s] draw_input_ok [OF s])
qed

section \<open>The main loop\<close>

definition session_ok :: "font \<Rightarrow> layout \<Rightarrow> session \<Rightarrow> bool" where
  "session_ok f l z \<longleftrightarrow> chat_inv (s_chat z) \<and> view_ok f l (s_view z)"

lemma chat_event_ok:
  assumes z: "session_ok f l z" and al: "length al = MAX_LINES"
  shows "\<exists>z'. chat_event f l (Some al) now created ev z = Some z' \<and> session_ok f l z'"
proof -
  have s: "chat_inv (key_effect now created ev (s_chat z))" using z by (intro key_effect_inv) (simp add: session_ok_def)
  have v: "view_ok f l (s_view z)" using z by (simp add: session_ok_def)
  from draw_all_ok [OF s v al] draw_chat_ok [OF s v al] obtain v1 v2 where
    d: "draw_all f l (Some al) (key_effect now created ev (s_chat z)) (s_view z) = Some v1" "view_ok f l v1"
      "draw_chat f l (Some al) (key_effect now created ev (s_chat z)) (s_view z) = Some v2" "view_ok f l v2" by blast
  have "\<exists>z'. chat_event f l (Some al) now created ev z = Some z' \<and> view_ok f l (s_view z')"
    using d v by (auto simp: chat_event_def key_effect_def Let_def split: if_splits)
  then show ?thesis using chat_event_effect s by (metis session_ok_def)
qed

lemma chat_events_ok:
  assumes "kbd_inv k" "session_ok f l z" and al: "length al = MAX_LINES"
  shows "\<exists>k' z'. chat_events f l (Some al) now created k z = Some (k', z') \<and> kbd_inv k' \<and> session_ok f l z'"
  using assms(1,2)
proof (induction "length (pending k)" arbitrary: k z rule: less_induct)
  case less
  show ?case
  proof (cases "kbd_poll_event k")
    case None
    then show ?thesis using less.prems by (subst chat_events.simps) simp
  next
    case (Some p)
    then obtain ev k1 where p: "kbd_poll_event k = Some (ev, k1)" by (cases p) simp
    note k1 = poll_event_lemma(2) [OF less.prems(1) p]
    from chat_event_ok [OF less.prems(2) al, of now created ev] obtain z1 where
      z1: "chat_event f l (Some al) now created ev z = Some z1" "session_ok f l z1" by blast
    have "length (pending k1) < length (pending k)" using k1 by simp
    from less.hyps [OF this _ z1(2)] k1 show ?thesis
      using z1 p by (subst chat_events.simps) simp
  qed
qed

lemma chat_redraw_ok:
  assumes z: "session_ok f l z" and al: "length al = MAX_LINES"
  shows "\<exists>z'. chat_redraw f l (Some al) z = Some z' \<and> session_ok f l z'"
proof -
  let ?s = "s_chat z"
  have s: "chat_inv ?s" "view_ok f l (s_view z)" using z by (simp_all add: session_ok_def)
  have c: "chat_inv (clean ?s)" by (rule clean_inv [OF s(1)])
  from draw_chat_ok [OF c s(2) al] obtain v where
    v: "draw_chat f l (Some al) (clean ?s) (s_view z) = Some v" "view_ok f l v" by blast
  have inp: "\<exists>z'. (if s_redraw y then on_fb (draw_input f l (s_chat y)) (s_view y) \<bind> (\<lambda>v. Some (y\<lparr>s_view := v\<rparr>)) else Some y) = Some z' \<and>
      session_ok f l z'" if "session_ok f l y" for y
  proof -
    have y: "chat_inv (s_chat y)" "view_ok f l (s_view y)" using that by (simp_all add: session_ok_def)
    have "\<exists>v'. on_fb (draw_input f l (s_chat y)) (s_view y) = Some v' \<and> view_ok f l v'"
      by (rule on_fb_ok [OF y(2) draw_input_ok [OF y(1)]])
    then obtain w where "on_fb (draw_input f l (s_chat y)) (s_view y) = Some w" "view_ok f l w"
      by blast
    then show ?thesis using that by (simp add: session_ok_def)
  qed
  have 1: "session_ok f l (z\<lparr>s_chat := clean ?s, s_view := v, s_redraw := True\<rparr>)" using c v(2) by (simp add: session_ok_def)
  show ?thesis using inp [OF 1] inp [OF z] v(1)
    by (simp add: chat_redraw_def Let_def clean_def)
qed

definition op_ok :: "worker_op \<Rightarrow> bool" where
  "op_ok r = (case r of Emit pce \<Rightarrow> 0 \<notin> set pce | Finish n \<Rightarrow> True)"

lemma worker_steps_inv: "chat_inv s \<Longrightarrow> list_all op_ok rs \<Longrightarrow> chat_inv (fold worker_step rs s)"
proof (induction rs arbitrary: s)
  case (Cons r rs)
  have "chat_inv (worker_step r s)" using Cons.prems bot_emit_inv bot_finish_inv
    by (auto simp: worker_step_def op_ok_def split: worker_op.splits)
  then show ?case using Cons by simp
qed simp

lemma handlers_inv: "kbd_inv k \<Longrightarrow> kbd_inv (fold keyboard_handler codes k)"
  by (induction codes arbitrary: k) (auto dest: handler_prefix)

lemma chat_loop_ok:
  assumes "kbd_inv k" "session_ok f l z" "list_all (\<lambda>t. list_all op_ok (t_worker t)) turns" and al: "length al = MAX_LINES"
  shows "\<exists>k' z'. chat_loop f l (Some al) turns k z = Some (k', z') \<and> kbd_inv k' \<and> session_ok f l z'"
  using assms(1-3)
proof (induction turns arbitrary: k z)
  case (Cons t ts)
  show ?case
  proof (cases "running (s_chat z)")
    case False
    then show ?thesis using Cons.prems by simp
  next
    case True
    have z0: "session_ok f l (z\<lparr>s_redraw := False\<rparr>)" using Cons.prems(2) by (simp add: session_ok_def)
    from chat_events_ok [OF Cons.prems(1) z0 al, of "t_now t" "t_created t"] obtain k1 z1 where
      1: "chat_events f l (Some al) (t_now t) (t_created t) k (z\<lparr>s_redraw := False\<rparr>) = Some (k1, z1)" "kbd_inv k1" "session_ok f l z1"
      by blast
    from chat_redraw_ok [OF 1(3) al] obtain z2 where 2: "chat_redraw f l (Some al) z1 = Some z2" "session_ok f l z2" by blast
    have 3: "session_ok f l (z2\<lparr>s_chat := fold worker_step (t_worker t) (s_chat z2)\<rparr>)"
      using 2(2) worker_steps_inv Cons.prems(3) by (simp add: session_ok_def)
    from Cons.IH [OF handlers_inv [OF 1(2)] 3, of "t_codes t"] Cons.prems(3) show ?thesis
      using True 1(1) 2(1) by simp
  qed
qed simp
section \<open>The whole program\<close>

text \<open>A screen with room for the longest header.\<close>

definition screen_ok :: "font \<Rightarrow> framebuffer \<Rightarrow> bool" where
  "screen_ok f s \<longleftrightarrow> fb_ok s \<and> font_ok f \<and> 95 * unat (f_width f) \<le> unat (fb_width s) \<and>
     16 * unat (f_height f) \<le> unat (fb_height s)"

lemma small_sint: "unat (x :: u32) < 2 ^ 31 \<Longrightarrow> sint x = int (unat x)"
proof -
  assume a: "unat x < 2 ^ 31"
  have u: "uint x = int (unat x)" by (rule uint_nat)
  have "int (unat x) < int (2 ^ 31)" using a by (simp only: of_nat_less_iff)
  then have "uint x < 2 ^ 31" unfolding u by simp
  moreover have "- (2 ^ 31) \<le> uint x" by (rule order_trans [OF _ uint_ge_0]) simp
  ultimately have "signed_take_bit 31 (uint x) = uint x" by (intro signed_take_bit_int_eq_self)
  then show ?thesis unfolding sint_uint u by simp
qed

lemma screen_dims:
  assumes "fb_ok s" "0 < unat (fb_width s)" "0 < unat (fb_height s)"
  shows "unat (fb_width s) < 2 ^ 31" "unat (fb_height s) < 2 ^ 31"
proof -
  let ?p = "unat (fb_pitch s)" and ?h = "unat (fb_height s)"
  have w: "4 * unat (fb_width s) \<le> ?p" using assms(1) by (auto simp: fb_ok_def line_pixels_def)
  have p: "?p * ?h < 2 ^ 31" using assms(1) by (simp add: fb_ok_def)
  have "?p * 1 \<le> ?p * ?h" using assms(3) by (intro mult_le_mono2) simp
  then show "unat (fb_width s) < 2 ^ 31" using w p by linarith
  have "1 * ?h \<le> ?p * ?h" using w assms(2) by (intro mult_le_mono1) simp
  then show "?h < 2 ^ 31" using p by linarith
qed

text \<open>Columns and rows: the division of the size by the font's.\<close>

lemma grid_count:
  assumes "0 < unat (x :: u32)" "unat x < 2 ^ 31" "unat (n :: u64) < 2 ^ 31"
  shows "sint (ucast (n div scast x) :: u32) = int (unat n div unat x)"
proof -
  have "of_nat (unat x) = (scast x :: u64)"
    using small_sint [OF assms(2)] by (metis of_int_of_nat_eq scast_eq)
  moreover have "unat (of_nat (unat x) :: u64) = unat x" using assms(2) by (intro unat_of_nat_small) simp
  ultimately have u: "unat (n div scast x) = unat n div unat x" by (simp add: unat_div)
  have le: "unat n div unat x < 2 ^ 31" using assms(3) div_le_dividend le_less_trans by blast
  have "(ucast (n div scast x) :: u32) = of_nat (unat n div unat x)"
    using u by (metis of_nat_unat)
  moreover have "unat (of_nat (unat n div unat x) :: u32) = unat n div unat x" using le by (intro unat_of_nat_small) simp
  ultimately show ?thesis using small_sint le by metis
qed

lemma chat_layout_ok:
  assumes "screen_ok f s"
  shows "\<exists>l. chat_layout f s = Some l \<and> grid_fits f l s"
proof -
  let ?w = "unat (f_width f)" and ?h = "unat (f_height f)"
  have f: "fb_ok s" "font_ok f" "0 < ?w" "0 < ?h" "?w \<le> 31" using assms by (simp_all add: screen_ok_def font_ok_def)
  have sz: "95 * ?w \<le> unat (fb_width s)" "16 * ?h \<le> unat (fb_height s)" using assms by (simp_all add: screen_ok_def)
  then have d: "unat (fb_width s) < 2 ^ 31" "unat (fb_height s) < 2 ^ 31" using screen_dims [OF f(1)] f by simp_all
  have h31: "?w < 2 ^ 31" "?h < 2 ^ 31" using sz(2) d(2) f(5) by simp_all
  define c where "c = int (unat (fb_width s) div ?w)"
  define r where "r = int (unat (fb_height s) div ?h)"
  have cr: "sint (ucast (fb_width s div scast (f_width f)) :: u32) = c" "sint (ucast (fb_height s div scast (f_height f)) :: u32) = r"
    unfolding c_def r_def using grid_count f(3,4) h31 d by blast+
  have nz: "sint (f_width f) \<noteq> 0" "sint (f_height f) \<noteq> 0" unfolding small_sint [OF h31(1)] small_sint [OF h31(2)] using f(3,4) by linarith+
  define l where "l = \<lparr>fw = sint (f_width f), fh = sint (f_height f), cols = c, rows = r, sidebar_cols = 22, members_cols = 18,
                chat_x = 25, chat_cols = c - 25 - 18, header_rows = 2, input_rows = 2, chat_top = 2,
                chat_rows = r - 2 - 2\<rparr>"
  have e: "chat_layout f s = Some l" using nz cr by (simp add: chat_layout_def Let_def l_def)
  have "95 \<le> unat (fb_width s) div ?w" "16 \<le> unat (fb_height s) div ?h"
    using sz f(3,4) by (simp_all add: less_eq_div_iff_mult_less_eq)
  moreover have "unat (fb_width s) div ?w * ?w \<le> unat (fb_width s)" "unat (fb_height s) div ?h * ?h \<le> unat (fb_height s)" by simp_all
  moreover have "unat (fb_width s) div ?w < 2 ^ 31" "unat (fb_height s) div ?h < 2 ^ 31"
    using d div_le_dividend le_less_trans by blast+
  ultimately have "95 \<le> c" "16 \<le> r" "c * int ?w \<le> int (unat (fb_width s))" "r * int ?h \<le> int (unat (fb_height s))" "c < 2 ^ 31" "r < 2 ^ 31"
    unfolding c_def r_def of_nat_mult [symmetric] of_nat_le_iff by simp_all
  then have "grid_fits f l s" using f(1,2) by (simp add: grid_fits_def l_def)
  then show ?thesis using e by blast
qed

lemma chat_greet_inv:
  assumes "chat_inv s"
  shows "chat_inv (chat_greet now s)"
proof (cases "msg_count (channels s ! 0) = 0")
  case True
  have n: "(0 :: nat) < NUM_CHANNELS" by (simp add: NUM_CHANNELS_def)
  have ok: "chan_ok (channels s ! 0)" by (rule chan_ok_nth [OF assms n])
  obtain i c where p: "push_message (channels s ! 0) (bot (channels s ! 0)) (bot_color (channels s ! 0)) now = (i, c)" by fastforce
  note q = push_message_ok [OF ok p]
  let ?g = "\<lambda>c. let (i, c) = push_message c (bot c) (bot_color c) now in set_text i greeting c"
  have g: "?g (channels s ! 0) = set_text i greeting c" using p by simp
  have c: "chan_ok (?g (channels s ! 0))" unfolding g by (rule set_text_ok [OF q(1,3) no_NUL_messages(5)])
  have all: "list_all chan_ok (channels (on_channel 0 ?g s))"
    by (rule on_channel_all) (use assms c in \<open>simp_all add: chat_inv_def\<close>)
  have l: "0 < length (channels s)" using assms n by (simp add: chat_inv_def)
  have "typing (?g (channels s ! 0)) = typing (channels s ! 0)" unfolding g using q(5) by simp
  then have "job_ok (on_channel 0 ?g s)"
    using assms True on_channel_nth [OF l, of ?g] by (auto simp: chat_inv_def job_ok_def)
  then show ?thesis using True assms all unfolding chat_greet_def by (simp add: chat_inv_def input_ok_def)
next
  case False
  then show ?thesis using assms by (simp add: chat_greet_def)
qed

text \<open>The program may be entered again while a worker of an earlier visit still runs.\<close>

lemma chat_run_lemma:
  assumes sc: "screen_ok f (v_fb v)" and al: "length al = MAX_LINES" and k: "kbd_inv k" and s: "chat_inv s"
    and p: "p_lines (v_panel v) = None \<or> (\<exists>ls. p_lines (v_panel v) = Some ls \<and> length ls = MAX_LINES)"
    and turns: "list_all (\<lambda>t. list_all op_ok (t_worker t)) turns"
  shows "\<exists>k' z. chat_run f (Some al) now turns k s v = Some (k', z) \<and> kbd_inv k' \<and> chat_inv (s_chat z) \<and> fb_ok (v_fb (s_view z))"
proof -
  from chat_layout_ok [OF sc] obtain l where l: "chat_layout f (v_fb v) = Some l" "grid_fits f l (v_fb v)" by blast
  define s1 where "s1 = chat_greet now (s\<lparr>input_len := 0, running := True\<rparr>)"
  have "chat_inv (s\<lparr>input_len := 0, running := True\<rparr>)" using s by (simp add: chat_inv_def input_ok_def job_ok_def INPUT_MAX_def)
  then have s1: "chat_inv s1" unfolding s1_def by (rule chat_greet_inv)
  have v: "view_ok f l v" using l(2) p by (simp add: view_ok_def)
  have "paints f l (framebuffer_clear COL_CHAT r)" if "grid_fits f l r" for r
    using that clear_lemma grid_fits_same by (metis grid_fits_def paintsI)
  then have "\<exists>v1. on_fb (framebuffer_clear COL_CHAT) v = Some v1 \<and> view_ok f l v1" by (rule on_fb_ok [OF v])
  then obtain v1 where v1: "on_fb (framebuffer_clear COL_CHAT) v = Some v1" "view_ok f l v1" by blast
  from draw_all_ok [OF s1 v1(2) al] obtain v2 where v2: "draw_all f l (Some al) s1 v1 = Some v2" "view_ok f l v2" by blast
  have z: "session_ok f l \<lparr>s_chat = s1, s_view = v2, s_redraw = False\<rparr>" using s1 v2(2) by (simp add: session_ok_def)
  from chat_loop_ok [OF k z turns al] obtain k' z' where
    r: "chat_loop f l (Some al) turns k \<lparr>s_chat = s1, s_view = v2, s_redraw = False\<rparr> = Some (k', z')" "kbd_inv k'" "session_ok f l z'" by blast
  have "chat_run f (Some al) now turns k s v = Some (k', z')"
    unfolding chat_run_def l(1) bind.bind_lunit Let_def s1_def [symmetric] v1(1) v2(1) by (rule r(1))
  then show ?thesis using r(2,3) by (auto simp: session_ok_def view_ok_def grid_fits_def)
qed
text \<open>
  C21: The chat program runs safely: on a screen of at least 95 by 16 characters, with memory for its line buffer,
  from every sound state and for any keys, clock, answers of \<open>thread\_create\<close> and steps of the worker, entering it
  and every turn of its loop end without an access outside the frame buffer, the font, the line buffer or an array
  of the state; the input line, the message rings and the running job stay sound.
\<close>

theorem chat_run_safe:
  assumes "screen_ok f (v_fb v)" "length al = MAX_LINES" "kbd_inv k" "chat_inv s"
    and "p_lines (v_panel v) = None \<or> (\<exists>ls. p_lines (v_panel v) = Some ls \<and> length ls = MAX_LINES)"
    and "list_all (\<lambda>t. list_all op_ok (t_worker t)) turns"
  shows "\<exists>k' z. chat_run f (Some al) now turns k s v = Some (k', z) \<and> kbd_inv k' \<and> chat_inv (s_chat z) \<and> fb_ok (v_fb (s_view z))"
  by (rule chat_run_lemma [OF assms])

text \<open>A screen of 190 by 32 pixels with characters of two by two.\<close>

definition chat_screen :: view where
  "chat_screen = \<lparr>v_fb = \<lparr>fb_width = 190, fb_height = 32, fb_pitch = 760, fb_bpp = 32, vram = replicate 6080 0,
     backbuffer = None, use_double = False, back_width = 0, back_height = 0\<rparr>, v_panel = \<lparr>p_lines = None, line_count = 0\<rparr>\<rparr>"

theorem chat_run_safe_witness:
  "\<exists>k z. chat_run sample_font (Some (replicate 512 \<lparr>wl_text = [], wl_fg = 0, author_line = False, author_color = 0, wl_minutes = 0\<rparr>)) 0
      [\<lparr>t_now = 5, t_created = True, t_codes = [0x33], t_worker = [Emit [72], Finish 1]\<rparr>] kbd_start chat_start chat_screen = Some (k, z) \<and>
    chat_inv (s_chat z)"
proof -
  have "screen_ok sample_font (v_fb chat_screen)"
    by (simp add: screen_ok_def fb_ok_def font_ok_def sample_font_def chat_screen_def line_pixels_def)
  moreover have "kbd_inv kbd_start" by (simp add: kbd_inv_def kbd_start_def)
  moreover have "list_all (\<lambda>t. list_all op_ok (t_worker t)) [\<lparr>t_now = 5, t_created = True, t_codes = [0x33], t_worker = [Emit [72], Finish 1]\<rparr>]"
    by (simp add: op_ok_def)
  moreover have "p_lines (v_panel chat_screen) = None" by (simp add: chat_screen_def)
  moreover have "length (replicate 512 \<lparr>wl_text = [], wl_fg = 0, author_line = False, author_color = 0, wl_minutes = 0\<rparr>) = MAX_LINES"
    by (simp add: MAX_LINES_def)
  ultimately show ?thesis using chat_run_safe chat_start_inv by blast
qed

end
