(* ===== verification/Devices.thy ===== *)
theory Devices
  imports Kprintf
begin

text \<open>
  The small device drivers: PCI configuration space (\<open>pci.c\<close>), the CMOS clock (\<open>rtc.c\<close>), the interrupt
  controllers (\<open>pic.c\<close>), the programmable timer (\<open>timer.c\<close>) and the serial port (\<open>serial.c\<close>). The port
  instructions of \<open>io.c\<close> are the parameter: what a read answers and how the devices behind the ports change.
  \<open>None\<close> is a polling loop that does not end.
\<close>

section \<open>Ports\<close>

record 'd ports =
  inb :: "u16 \<Rightarrow> 'd \<Rightarrow> u8 \<times> 'd"
  outb :: "u16 \<Rightarrow> u8 \<Rightarrow> 'd \<Rightarrow> 'd"
  inl :: "u16 \<Rightarrow> 'd \<Rightarrow> u32 \<times> 'd"
  outl :: "u16 \<Rightarrow> u32 \<Rightarrow> 'd \<Rightarrow> 'd"

definition io_wait :: "'d ports \<Rightarrow> 'd \<Rightarrow> 'd" where
  "io_wait P d = outb P 0x80 0 d"

text \<open>Polling: reads the port until the byte satisfies the condition.\<close>

partial_function (option) poll_until :: "'d ports \<Rightarrow> u16 \<Rightarrow> (u8 \<Rightarrow> bool) \<Rightarrow> 'd \<Rightarrow> 'd option" where
  "poll_until P port ok d = (case inb P port d of (v, d) \<Rightarrow> if ok v then Some d else poll_until P port ok d)"

section \<open>PCI configuration space\<close>

definition PCI_CONFIG_ADDR :: u16 where "PCI_CONFIG_ADDR = 0xCF8"
definition PCI_CONFIG_DATA :: u16 where "PCI_CONFIG_DATA = 0xCFC"

record pci_device =
  pci_bus :: u8
  pci_slot :: u8
  pci_func :: u8
  vendor_id :: u16
  device_id :: u16

definition config_address :: "u8 \<Rightarrow> u8 \<Rightarrow> u8 \<Rightarrow> u8 \<Rightarrow> u32" where
  "config_address b s f offset =
     0x80000000 OR push_bit 16 (ucast b) OR push_bit 11 (ucast s) OR push_bit 8 (ucast f) OR ucast (offset AND 0xFC)"

definition pci_read32 :: "'d ports \<Rightarrow> u8 \<Rightarrow> u8 \<Rightarrow> u8 \<Rightarrow> u8 \<Rightarrow> 'd \<Rightarrow> u32 \<times> 'd" where
  "pci_read32 P b s f offset d = inl P PCI_CONFIG_DATA (outl P PCI_CONFIG_ADDR (config_address b s f offset) d)"

definition pci_write32 :: "'d ports \<Rightarrow> u8 \<Rightarrow> u8 \<Rightarrow> u8 \<Rightarrow> u8 \<Rightarrow> u32 \<Rightarrow> 'd \<Rightarrow> 'd" where
  "pci_write32 P b s f offset v d = outl P PCI_CONFIG_DATA v (outl P PCI_CONFIG_ADDR (config_address b s f offset) d)"

text \<open>The three loops of the search; the inner one may leave its slot early.\<close>

fun scan_funcs :: "'d ports \<Rightarrow> u16 \<Rightarrow> u16 \<Rightarrow> nat \<Rightarrow> nat \<Rightarrow> nat list \<Rightarrow> 'd \<Rightarrow> pci_device option \<times> 'd" where
  "scan_funcs P vendor device b s [] d = (None, d)"
| "scan_funcs P vendor device b s (f # fs) d =
     (case pci_read32 P (of_nat b) (of_nat s) (of_nat f) 0 d of (i, d) \<Rightarrow>
        if i AND 0xFFFF = 0xFFFF then if f = 0 then (None, d) else scan_funcs P vendor device b s fs d
        else if i AND 0xFFFF = ucast vendor \<and> drop_bit 16 i = ucast device then
          (Some \<lparr>pci_bus = of_nat b, pci_slot = of_nat s, pci_func = of_nat f, vendor_id = vendor, device_id = device\<rparr>, d)
        else if f = 0 then
          (case pci_read32 P (of_nat b) (of_nat s) 0 0x0C d of (h, d) \<Rightarrow>
             if h AND 0x800000 = 0 then (None, d) else scan_funcs P vendor device b s fs d)
        else scan_funcs P vendor device b s fs d)"

fun scan_slots :: "'d ports \<Rightarrow> u16 \<Rightarrow> u16 \<Rightarrow> nat \<Rightarrow> nat list \<Rightarrow> 'd \<Rightarrow> pci_device option \<times> 'd" where
  "scan_slots P vendor device b [] d = (None, d)"
| "scan_slots P vendor device b (s # ss) d =
     (case scan_funcs P vendor device b s [0..<8] d of
        (Some dev, d) \<Rightarrow> (Some dev, d)
      | (None, d) \<Rightarrow> scan_slots P vendor device b ss d)"

fun scan_buses :: "'d ports \<Rightarrow> u16 \<Rightarrow> u16 \<Rightarrow> nat list \<Rightarrow> 'd \<Rightarrow> pci_device option \<times> 'd" where
  "scan_buses P vendor device [] d = (None, d)"
| "scan_buses P vendor device (b # bs) d =
     (case scan_slots P vendor device b [0..<32] d of
        (Some dev, d) \<Rightarrow> (Some dev, d)
      | (None, d) \<Rightarrow> scan_buses P vendor device bs d)"

definition pci_find :: "'d ports \<Rightarrow> u16 \<Rightarrow> u16 \<Rightarrow> 'd \<Rightarrow> pci_device option \<times> 'd" where
  "pci_find P vendor device d = scan_buses P vendor device [0..<256] d"

definition pci_bar0 :: "'d ports \<Rightarrow> pci_device \<Rightarrow> 'd \<Rightarrow> u64 \<times> 'd" where
  "pci_bar0 P dev d =
     (case pci_read32 P (pci_bus dev) (pci_slot dev) (pci_func dev) 0x10 d of (bar, d) \<Rightarrow>
        if bar AND 1 \<noteq> 0 then (0, d)
        else
          let addr = ucast bar AND NOT 0xF
          in if drop_bit 1 bar AND 3 = 2 then
               case pci_read32 P (pci_bus dev) (pci_slot dev) (pci_func dev) 0x14 d of (high, d) \<Rightarrow>
                 (addr OR push_bit 32 (ucast high), d)
             else (addr, d))"

definition pci_enable_bus_master :: "'d ports \<Rightarrow> pci_device \<Rightarrow> 'd \<Rightarrow> 'd" where
  "pci_enable_bus_master P dev d =
     (case pci_read32 P (pci_bus dev) (pci_slot dev) (pci_func dev) 0x04 d of (cmd, d) \<Rightarrow>
        pci_write32 P (pci_bus dev) (pci_slot dev) (pci_func dev) 0x04 (cmd OR 7) d)"

section \<open>The clock\<close>

record rtc_time =
  t_year :: u16
  t_month :: u8
  t_day :: u8
  t_hour :: u8
  t_minute :: u8
  t_second :: u8

definition cmos_read :: "'d ports \<Rightarrow> u8 \<Rightarrow> 'd \<Rightarrow> u8 \<times> 'd" where
  "cmos_read P reg d = inb P 0x71 (outb P 0x70 reg d)"

definition update_in_progress :: "'d ports \<Rightarrow> 'd \<Rightarrow> u8 \<times> 'd" where
  "update_in_progress P d = (case cmos_read P 0x0A d of (v, d) \<Rightarrow> (v AND 0x80, d))"

partial_function (option) rtc_wait :: "'d ports \<Rightarrow> 'd \<Rightarrow> 'd option" where
  "rtc_wait P d = (case update_in_progress P d of (v, d) \<Rightarrow> if v \<noteq> 0 then rtc_wait P d else Some d)"

text \<open>A byte of two decimal digits; the sum is an \<open>int\<close> cut to a byte.\<close>

definition from_bcd :: "u8 \<Rightarrow> u8" where
  "from_bcd x = (x AND 0x0F) + (x div 16) * 10"

definition rtc_hour :: "u8 \<Rightarrow> u8 \<Rightarrow> u8" where
  "rtc_hour status_b h =
     (let h = (if status_b AND 4 = 0 then ((h AND 0x0F) + ((h AND 0x70) div 16) * 10) OR (h AND 0x80) else h)
      in if status_b AND 2 = 0 \<and> h AND 0x80 \<noteq> 0 then of_nat ((unat (h AND 0x7F) + 12) mod 24) else h)"

definition rtc_read :: "'d ports \<Rightarrow> 'd \<Rightarrow> (rtc_time \<times> 'd) option" where
  "rtc_read P d = rtc_wait P d \<bind> (\<lambda>d.
     case cmos_read P 0x00 d of (second, d) \<Rightarrow> case cmos_read P 0x02 d of (minute, d) \<Rightarrow>
     case cmos_read P 0x04 d of (hour, d) \<Rightarrow> case cmos_read P 0x07 d of (day, d) \<Rightarrow>
     case cmos_read P 0x08 d of (month, d) \<Rightarrow> case cmos_read P 0x09 d of (year, d) \<Rightarrow>
     case cmos_read P 0x32 d of (century, d) \<Rightarrow> case cmos_read P 0x0B d of (status_b, d) \<Rightarrow>
     let bcd = (\<lambda>x. if status_b AND 4 = 0 then from_bcd x else x);
         century = bcd century; year = bcd year
     in Some (\<lparr>t_year = (if century \<noteq> 0 then ucast century * 100 + ucast year else 2000 + ucast year),
           t_month = bcd month, t_day = bcd day, t_hour = rtc_hour status_b hour, t_minute = bcd minute, t_second = bcd second\<rparr>, d))"

section \<open>Interrupt controllers\<close>

definition PIC1_COMMAND :: u16 where "PIC1_COMMAND = 0x20"
definition PIC1_DATA :: u16 where "PIC1_DATA = 0x21"
definition PIC2_COMMAND :: u16 where "PIC2_COMMAND = 0xA0"
definition PIC2_DATA :: u16 where "PIC2_DATA = 0xA1"
definition PIC_EOI :: u8 where "PIC_EOI = 0x20"
definition PIC_SLAVE_IRQ_START :: u8 where "PIC_SLAVE_IRQ_START = 8"
definition PIC_TIMER_IRQ_LINE :: u8 where "PIC_TIMER_IRQ_LINE = 0"
definition PIC_KEYBOARD_IRQ_LINE :: u8 where "PIC_KEYBOARD_IRQ_LINE = 1"

definition pic_out :: "'d ports \<Rightarrow> u16 \<Rightarrow> u8 \<Rightarrow> 'd \<Rightarrow> 'd" where
  "pic_out P port v d = io_wait P (outb P port v d)"

definition pic_remap :: "'d ports \<Rightarrow> u8 \<Rightarrow> u8 \<Rightarrow> 'd \<Rightarrow> 'd" where
  "pic_remap P master_offset slave_offset d =
     (case inb P PIC1_DATA d of (a1, d) \<Rightarrow> case inb P PIC2_DATA d of (a2, d) \<Rightarrow>
      let d = pic_out P PIC1_COMMAND (0x10 OR 0x01) d;
          d = pic_out P PIC2_COMMAND (0x10 OR 0x01) d;
          d = pic_out P PIC1_DATA master_offset d;
          d = pic_out P PIC2_DATA slave_offset d;
          d = pic_out P PIC1_DATA 4 d;
          d = pic_out P PIC2_DATA 2 d;
          d = pic_out P PIC1_DATA 0x01 d;
          d = pic_out P PIC2_DATA 0x01 d;
          d = outb P PIC1_DATA a1 d
      in outb P PIC2_DATA a2 d)"

definition pic_line :: "u8 \<Rightarrow> u16 \<times> u8" where
  "pic_line irq = (if irq < PIC_SLAVE_IRQ_START then (PIC1_DATA, irq) else (PIC2_DATA, irq - PIC_SLAVE_IRQ_START))"

definition pic_mask_irq :: "'d ports \<Rightarrow> u8 \<Rightarrow> 'd \<Rightarrow> 'd" where
  "pic_mask_irq P irq d =
     (case pic_line irq of (port, i) \<Rightarrow> case inb P port d of (v, d) \<Rightarrow> outb P port (v OR push_bit (unat i) 1) d)"

definition pic_unmask_irq :: "'d ports \<Rightarrow> u8 \<Rightarrow> 'd \<Rightarrow> 'd" where
  "pic_unmask_irq P irq d =
     (case pic_line irq of (port, i) \<Rightarrow> case inb P port d of (v, d) \<Rightarrow> outb P port (v AND NOT (push_bit (unat i) 1)) d)"

definition pic_send_eoi :: "'d ports \<Rightarrow> u8 \<Rightarrow> 'd \<Rightarrow> 'd" where
  "pic_send_eoi P irq d =
     (let d = (if irq \<ge> PIC_SLAVE_IRQ_START then outb P PIC2_COMMAND PIC_EOI d else d)
      in outb P PIC1_COMMAND PIC_EOI d)"

text \<open>\<open>junk\<close> is what the buffer of \<open>kprintf\<close> held before.\<close>

definition pic_init :: "'d ports \<Rightarrow> u8 list \<Rightarrow> 'd \<Rightarrow> term_state \<Rightarrow> ('d \<times> term_state) option" where
  "pic_init P junk d t =
     (let d = pic_unmask_irq P PIC_KEYBOARD_IRQ_LINE (pic_unmask_irq P PIC_TIMER_IRQ_LINE (pic_remap P 0x20 0x28 d))
      in kprintf junk (bytes ''PIC initialized'' @ [10]) [] t \<bind> (\<lambda>t. Some (d, t)))"

section \<open>The timer\<close>

definition TIMER_HZ :: nat where "TIMER_HZ = 1000"
definition PIT_BASE_HZ :: nat where "PIT_BASE_HZ = 1193182"

definition timer_init :: "'d ports \<Rightarrow> u8 list \<Rightarrow> 'd \<Rightarrow> term_state \<Rightarrow> ('d \<times> term_state) option" where
  "timer_init P junk d t =
     (let divisor = of_nat (PIT_BASE_HZ div TIMER_HZ) :: u16;
          d = outb P 0x43 0x36 d;
          d = outb P 0x40 (ucast (divisor AND 0xFF)) d;
          d = outb P 0x40 (ucast (drop_bit 8 divisor AND 0xFF)) d
      in kprintf junk (bytes ''timer: PIT at %d Hz'' @ [10]) [Num (of_nat TIMER_HZ)] t \<bind> (\<lambda>t. Some (d, t)))"

definition timer_handler :: "u64 \<Rightarrow> u64" where
  "timer_handler ticks = ticks + 1"

text \<open>The values the tick counter has at the tests of the loop are given; between them the thread yields or halts.\<close>

fun sleep_ms :: "u64 \<Rightarrow> u64 \<Rightarrow> u64 list \<Rightarrow> u64 list option" where
  "sleep_ms start ms [] = None"
| "sleep_ms start ms (now # later) = (if now < start + ms then sleep_ms start ms later else Some later)"

section \<open>The serial port\<close>

definition COM1 :: u16 where "COM1 = 0x3F8"

definition serial_init :: "'d ports \<Rightarrow> 'd \<Rightarrow> 'd" where
  "serial_init P d =
     fold (\<lambda>(port, v). outb P (COM1 + port) v)
       [(1, 0x00), (3, 0x80), (0, 0x01), (1, 0x00), (3, 0x03), (2, 0xC7), (4, 0x0B)] d"

definition transmit_empty :: "u8 \<Rightarrow> bool" where
  "transmit_empty status = (status AND 0x20 \<noteq> 0)"

definition serial_putchar :: "'d ports \<Rightarrow> u8 \<Rightarrow> 'd \<Rightarrow> 'd option" where
  "serial_putchar P c d = poll_until P (COM1 + 5) transmit_empty d \<bind> (\<lambda>d. Some (outb P COM1 c d))"

primrec serial_write :: "'d ports \<Rightarrow> u8 list \<Rightarrow> 'd \<Rightarrow> 'd option" where
  "serial_write P [] d = Some d"
| "serial_write P (c # cs) d =
     (if c = 10 then serial_putchar P 13 d else Some d) \<bind> serial_putchar P c \<bind> serial_write P cs"
section \<open>The clock is decoded\<close>

text \<open>
  A device that shows the same registers from read to read: \<open>S\<close> are the states it may be in.
\<close>

definition cmos_steady :: "'d ports \<Rightarrow> 'd set \<Rightarrow> (u8 \<Rightarrow> u8) \<Rightarrow> bool" where
  "cmos_steady P S regs \<longleftrightarrow> (\<forall>d\<in>S. \<forall>r. fst (cmos_read P r d) = regs r \<and> snd (cmos_read P r d) \<in> S)"

definition to_bcd :: "u8 \<Rightarrow> u8" where
  "to_bcd x = (x div 10) * 16 + x mod 10"

lemma bcd_table: "list_all (\<lambda>k. from_bcd (to_bcd (of_nat k)) = of_nat k) [0..<100]"
  by code_simp

lemma from_to_bcd:
  assumes "unat x \<le> 99"
  shows "from_bcd (to_bcd x) = x"
  using bcd_table assms by (auto simp: list_all_iff dest: bspec [of _ _ "unat x"])

lemma hour_table: "list_all (\<lambda>k. ((to_bcd (of_nat k) AND 0x0F) + ((to_bcd (of_nat k) AND 0x70) div 16) * 10) OR
    (to_bcd (of_nat k) AND 0x80) = of_nat k \<and> of_nat k AND (0x80 :: u8) = 0) [0..<24]"
  by code_simp

text \<open>An hour in 24-hour mode.\<close>

lemma rtc_hour_24:
  assumes "b AND 2 \<noteq> 0" "unat h \<le> 23"
  shows "rtc_hour b (if b AND 4 = 0 then to_bcd h else h) = h"
proof -
  have "((to_bcd h AND 0x0F) + ((to_bcd h AND 0x70) div 16) * 10) OR (to_bcd h AND 0x80) = h"
    using hour_table assms(2) by (auto simp: list_all_iff dest: bspec [of _ _ "unat h"])
  then show ?thesis using assms(1) by (simp add: rtc_hour_def)
qed

text \<open>In 12-hour mode the flag of the afternoon adds twelve: noon comes out as midnight, and midnight as noon.\<close>

lemma noon_and_midnight: "rtc_hour 0 0x92 = 0" "rtc_hour 0 0x12 = 12"
  by code_simp+

lemma cmos_next: "cmos_steady P S regs \<Longrightarrow> d \<in> S \<Longrightarrow> \<exists>d'\<in>S. cmos_read P r d = (regs r, d')"
  by (metis cmos_steady_def prod.collapse)

lemma rtc_read_lemma:
  assumes st: "cmos_steady P S regs" "d \<in> S" "regs 0x0A AND 0x80 = 0" and b: "regs 0x0B AND 2 \<noteq> 0"
    and enc: "enc = (\<lambda>x. if regs 0x0B AND 4 = 0 then to_bcd x else x)"
    and r: "regs 0 = enc (t_second t)" "regs 2 = enc (t_minute t)" "regs 4 = enc (t_hour t)" "regs 7 = enc (t_day t)"
      "regs 8 = enc (t_month t)" "regs 9 = enc yy" "regs 0x32 = enc cc"
    and lim: "unat (t_second t) \<le> 99" "unat (t_minute t) \<le> 99" "unat (t_hour t) \<le> 23" "unat (t_day t) \<le> 99" "unat (t_month t) \<le> 99"
      "unat yy \<le> 99" "unat cc \<le> 99" "cc \<noteq> 0" and y: "t_year t = ucast cc * 100 + ucast yy"
  shows "\<exists>d'\<in>S. rtc_read P d = Some (t, d')"
proof -
  note nx = cmos_next [OF st(1)]
  from nx [OF st(2), of "0x0A"] obtain d0 where 0: "cmos_read P 0x0A d = (regs 0x0A, d0)" "d0 \<in> S" by blast
  have w: "rtc_wait P d = Some d0" by (subst rtc_wait.simps) (simp add: update_in_progress_def 0 st(3))
  from nx [OF 0(2), of 0] obtain d1 where 1: "cmos_read P 0 d0 = (regs 0, d1)" "d1 \<in> S" by blast
  from nx [OF 1(2), of 2] obtain d2 where 2: "cmos_read P 2 d1 = (regs 2, d2)" "d2 \<in> S" by blast
  from nx [OF 2(2), of 4] obtain d3 where 3: "cmos_read P 4 d2 = (regs 4, d3)" "d3 \<in> S" by blast
  from nx [OF 3(2), of 7] obtain d4 where 4: "cmos_read P 7 d3 = (regs 7, d4)" "d4 \<in> S" by blast
  from nx [OF 4(2), of 8] obtain d5 where 5: "cmos_read P 8 d4 = (regs 8, d5)" "d5 \<in> S" by blast
  from nx [OF 5(2), of 9] obtain d6 where 6: "cmos_read P 9 d5 = (regs 9, d6)" "d6 \<in> S" by blast
  from nx [OF 6(2), of "0x32"] obtain d7 where 7: "cmos_read P 0x32 d6 = (regs 0x32, d7)" "d7 \<in> S" by blast
  from nx [OF 7(2), of "0x0B"] obtain d8 where 8: "cmos_read P 0x0B d7 = (regs 0x0B, d8)" "d8 \<in> S" by blast
  have dec: "(if regs 0x0B AND 4 = 0 then from_bcd (enc x) else enc x) = x" if "unat x \<le> 99" for x
    using from_to_bcd [OF that] by (simp add: enc)
  have h: "rtc_hour (regs 0x0B) (enc (t_hour t)) = t_hour t" unfolding enc by (rule rtc_hour_24 [OF b lim(3)])
  have "rtc_read P d = Some (\<lparr>t_year = ucast cc * 100 + ucast yy, t_month = t_month t, t_day = t_day t, t_hour = t_hour t,
      t_minute = t_minute t, t_second = t_second t\<rparr>, d8)"
    unfolding rtc_read_def w bind.bind_lunit 1 2 3 4 5 6 7 8 prod.case Let_def r h
    unfolding dec [OF lim(1)] dec [OF lim(2)] dec [OF lim(4)] dec [OF lim(5)] dec [OF lim(6)] dec [OF lim(7)] using lim(8) by simp
  then show ?thesis using 8(2) y by (intro bexI [of _ d8]) (cases t, simp_all)
qed

section \<open>The search for a device\<close>

text \<open>
  A configuration space that does not change: \<open>cfg\<close> is what a read of a bus, slot, function and register answers.
\<close>

definition pci_steady :: "'d ports \<Rightarrow> 'd set \<Rightarrow> (nat \<Rightarrow> nat \<Rightarrow> nat \<Rightarrow> u8 \<Rightarrow> u32) \<Rightarrow> bool" where
  "pci_steady P S cfg \<longleftrightarrow> (\<forall>d\<in>S. \<forall>b s f r. b < 256 \<and> s < 32 \<and> f < 8 \<longrightarrow>
     fst (pci_read32 P (of_nat b) (of_nat s) (of_nat f) r d) = cfg b s f r \<and>
     snd (pci_read32 P (of_nat b) (of_nat s) (of_nat f) r d) \<in> S)"

text \<open>A function answers when its slot is populated and, for all but the first one, has several functions.\<close>

definition pci_present :: "(nat \<Rightarrow> nat \<Rightarrow> nat \<Rightarrow> u8 \<Rightarrow> u32) \<Rightarrow> nat \<Rightarrow> nat \<Rightarrow> nat \<Rightarrow> bool" where
  "pci_present cfg b s f \<longleftrightarrow> cfg b s f 0 AND 0xFFFF \<noteq> 0xFFFF \<and>
     (f = 0 \<or> cfg b s 0 0 AND 0xFFFF \<noteq> 0xFFFF \<and> cfg b s 0 0x0C AND 0x800000 \<noteq> 0)"

definition pci_matches :: "(nat \<Rightarrow> nat \<Rightarrow> nat \<Rightarrow> u8 \<Rightarrow> u32) \<Rightarrow> u16 \<Rightarrow> u16 \<Rightarrow> nat \<times> nat \<times> nat \<Rightarrow> bool" where
  "pci_matches cfg vendor device = (\<lambda>(b, s, f). pci_present cfg b s f \<and>
     cfg b s f 0 AND 0xFFFF = ucast vendor \<and> drop_bit 16 (cfg b s f 0) = ucast device)"

definition pci_at :: "u16 \<Rightarrow> u16 \<Rightarrow> nat \<times> nat \<times> nat \<Rightarrow> pci_device" where
  "pci_at vendor device = (\<lambda>(b, s, f). \<lparr>pci_bus = of_nat b, pci_slot = of_nat s, pci_func = of_nat f,
     vendor_id = vendor, device_id = device\<rparr>)"

lemma pci_next: "pci_steady P S cfg \<Longrightarrow> d \<in> S \<Longrightarrow> b < 256 \<Longrightarrow> s < 32 \<Longrightarrow> f < 8 \<Longrightarrow>
    \<exists>d'\<in>S. pci_read32 P (of_nat b) (of_nat s) (of_nat f) r d = (cfg b s f r, d')"
proof -
  let ?x = "pci_read32 P (of_nat b) (of_nat s) (of_nat f) r d"
  assume "pci_steady P S cfg" "d \<in> S" "b < 256" "s < 32" "f < 8"
  then have "fst ?x = cfg b s f r" "snd ?x \<in> S" unfolding pci_steady_def by blast+
  then show ?thesis by (intro bexI [of _ "snd ?x"]) (simp_all add: prod_eq_iff)
qed

text \<open>The functions after the first one of a slot that has several.\<close>

lemma scan_rest:
  assumes st: "pci_steady P S cfg" and b: "b < 256" "s < 32"
    and multi: "cfg b s 0 0 AND 0xFFFF \<noteq> 0xFFFF" "cfg b s 0 0x0C AND 0x800000 \<noteq> 0"
  shows "d \<in> S \<Longrightarrow> \<forall>f\<in>set fs. 0 < f \<and> f < 8 \<Longrightarrow> \<exists>d'\<in>S. scan_funcs P vendor device b s fs d =
    (map_option (pci_at vendor device) (find (pci_matches cfg vendor device) (map (\<lambda>f. (b, s, f)) fs)), d')"
proof (induction fs arbitrary: d)
  case (Cons f fs)
  have f: "f < 8" "f \<noteq> 0" using Cons.prems(2) by auto
  from pci_next [OF st Cons.prems(1) b f(1), of 0] obtain d1 where
    1: "pci_read32 P (of_nat b) (of_nat s) (of_nat f) 0 d = (cfg b s f 0, d1)" "d1 \<in> S" by blast
  from Cons.IH [OF 1(2)] Cons.prems(2) obtain d2 where
    2: "scan_funcs P vendor device b s fs d1 =
      (map_option (pci_at vendor device) (find (pci_matches cfg vendor device) (map (\<lambda>f. (b, s, f)) fs)), d2)" "d2 \<in> S" by auto
  show ?case using 1 2 f multi by (auto simp: pci_matches_def pci_present_def pci_at_def)
qed simp

lemma find_append: "find p (xs @ ys) = (case find p xs of Some x \<Rightarrow> Some x | None \<Rightarrow> find p ys)"
  by (induction xs) auto

lemma scan_slot:
  assumes st: "pci_steady P S cfg" and b: "b < 256" "s < 32" and d: "d \<in> S"
  shows "\<exists>d'\<in>S. scan_funcs P vendor device b s [0..<8] d =
    (map_option (pci_at vendor device) (find (pci_matches cfg vendor device) (map (\<lambda>f. (b, s, f)) [0..<8])), d')"
proof -
  have u: "[0..<8] = 0 # [1..<8]" by (simp add: upt_conv_Cons)
  from pci_next [OF st d b, of 0 0] obtain d1 where 1: "pci_read32 P (of_nat b) (of_nat s) (of_nat 0) 0 d = (cfg b s 0 0, d1)" "d1 \<in> S" by auto
  from pci_next [OF st 1(2) b, of 0 "0x0C"] obtain d2 where
    2: "pci_read32 P (of_nat b) (of_nat s) (of_nat 0) 0x0C d1 = (cfg b s 0 0x0C, d2)" "d2 \<in> S" by auto
  show ?thesis
  proof (cases "cfg b s 0 0 AND 0xFFFF = 0xFFFF \<or> cfg b s 0 0x0C AND 0x800000 = 0")
    case True
    then have "find (pci_matches cfg vendor device) (map (\<lambda>f. (b, s, f)) [1..<8]) = None"
      by (auto simp: find_None_iff pci_matches_def pci_present_def)
    then show ?thesis using 1 2 True unfolding u
      by (auto simp: pci_matches_def pci_present_def pci_at_def)
  next
    case False
    then have m: "cfg b s 0 0 AND 0xFFFF \<noteq> 0xFFFF" "cfg b s 0 0x0C AND 0x800000 \<noteq> 0" by simp_all
    have "\<forall>f\<in>set [1..<8]. 0 < f \<and> f < 8" by auto
    from scan_rest [OF st b m 2(2) this, of vendor device] obtain d3 where
      3: "scan_funcs P vendor device b s [1..<8] d2 =
        (map_option (pci_at vendor device) (find (pci_matches cfg vendor device) (map (\<lambda>f. (b, s, f)) [1..<8])), d3)" "d3 \<in> S" by blast
    show ?thesis using 1 2 3 m unfolding u by (auto simp: pci_matches_def pci_present_def pci_at_def)
  qed
qed

lemma scan_slots_find:
  assumes st: "pci_steady P S cfg" and b: "b < 256"
  shows "d \<in> S \<Longrightarrow> \<forall>s\<in>set ss. s < 32 \<Longrightarrow> \<exists>d'\<in>S. scan_slots P vendor device b ss d =
    (map_option (pci_at vendor device) (find (pci_matches cfg vendor device) (concat (map (\<lambda>s. map (\<lambda>f. (b, s, f)) [0..<8]) ss))), d')"
proof (induction ss arbitrary: d)
  case (Cons s ss)
  have s: "s < 32" using Cons.prems(2) by simp
  let ?r = "find (pci_matches cfg vendor device) (map (\<lambda>f. (b, s, f)) [0..<8])"
  from scan_slot [OF st b s Cons.prems(1), of vendor device] obtain d1 where
    1: "scan_funcs P vendor device b s [0..<8] d = (map_option (pci_at vendor device) ?r, d1)" "d1 \<in> S" by blast
  from Cons.IH [OF 1(2)] Cons.prems(2) obtain d2 where 2: "scan_slots P vendor device b ss d1 =
    (map_option (pci_at vendor device) (find (pci_matches cfg vendor device) (concat (map (\<lambda>s. map (\<lambda>f. (b, s, f)) [0..<8]) ss))), d2)" "d2 \<in> S" by auto
  show ?case unfolding scan_slots.simps list.map concat.simps find_append 1(1) using 1(2) 2
    by (cases ?r) (simp_all only: option.map option.case prod.case, blast+)
qed simp

lemma scan_buses_find:
  assumes st: "pci_steady P S cfg"
  shows "d \<in> S \<Longrightarrow> \<forall>b\<in>set bs. b < 256 \<Longrightarrow> \<exists>d'\<in>S. scan_buses P vendor device bs d =
    (map_option (pci_at vendor device) (find (pci_matches cfg vendor device)
      (concat (map (\<lambda>b. concat (map (\<lambda>s. map (\<lambda>f. (b, s, f)) [0..<8]) [0..<32])) bs))), d')"
proof (induction bs arbitrary: d)
  case (Cons b bs)
  have b: "b < 256" using Cons.prems(2) by simp
  let ?r = "find (pci_matches cfg vendor device) (concat (map (\<lambda>s. map (\<lambda>f. (b, s, f)) [0..<8]) [0..<32]))"
  have "\<forall>s\<in>set [0..<32]. s < (32 :: nat)" by simp
  from scan_slots_find [OF st b Cons.prems(1) this, of vendor device] obtain d1 where
    1: "scan_slots P vendor device b [0..<32] d = (map_option (pci_at vendor device) ?r, d1)" "d1 \<in> S" by blast
  from Cons.IH [OF 1(2)] Cons.prems(2) obtain d2 where 2: "scan_buses P vendor device bs d1 =
    (map_option (pci_at vendor device) (find (pci_matches cfg vendor device)
      (concat (map (\<lambda>b. concat (map (\<lambda>s. map (\<lambda>f. (b, s, f)) [0..<8]) [0..<32])) bs))), d2)" "d2 \<in> S" by auto
  show ?case unfolding scan_buses.simps list.map concat.simps find_append 1(1) using 1(2) 2
    by (cases ?r) (simp_all only: option.map option.case prod.case, blast+)
qed simp
section \<open>What goes out on the serial line\<close>

text \<open>
  A port that works: \<open>sent\<close> is what has gone out on the line, and a transmitter that is busy gets closer to being
  idle with every read of the status.
\<close>

definition uart :: "'d ports \<Rightarrow> ('d \<Rightarrow> u8 list) \<Rightarrow> ('d \<Rightarrow> nat) \<Rightarrow> bool" where
  "uart P sent busy \<longleftrightarrow>
     (\<forall>d. sent (snd (inb P (COM1 + 5) d)) = sent d \<and>
        (transmit_empty (fst (inb P (COM1 + 5) d)) \<or> busy (snd (inb P (COM1 + 5) d)) < busy d)) \<and>
     (\<forall>d c. sent (outb P COM1 c d) = sent d @ [c])"

lemma uart_wait:
  assumes "uart P sent busy"
  shows "\<exists>d'. poll_until P (COM1 + 5) transmit_empty d = Some d' \<and> sent d' = sent d"
proof (induction "busy d" arbitrary: d rule: less_induct)
  case less
  obtain v d1 where 1: "inb P (COM1 + 5) d = (v, d1)" by fastforce
  then have s: "sent d1 = sent d" "transmit_empty v \<or> busy d1 < busy d" using assms by (metis uart_def fst_conv snd_conv)+
  show ?case
  proof (cases "transmit_empty v")
    case True
    then show ?thesis using 1 s by (subst poll_until.simps) simp
  next
    case False
    then obtain d' where "poll_until P (COM1 + 5) transmit_empty d1 = Some d'" "sent d' = sent d1" using less s by blast
    then show ?thesis using 1 s False by (subst poll_until.simps) simp
  qed
qed

lemma serial_putchar_sends:
  assumes "uart P sent busy"
  shows "\<exists>d'. serial_putchar P c d = Some d' \<and> sent d' = sent d @ [c]"
  using uart_wait [OF assms, of d] assms by (auto simp: serial_putchar_def uart_def)

text \<open>
  \<open>serial\_write\<close> ends on a port that works, and what goes out is the text with a carriage return before every
  line feed: the bytes the terminal and \<open>kprintf\<close> count as sent.
\<close>

theorem serial_write_sends:
  assumes "uart P sent busy"
  shows "\<exists>d'. serial_write P cs d = Some d' \<and> sent d' = sent d @ serial_bytes cs"
proof (induction cs arbitrary: d)
  case (Cons c cs)
  have cr: "\<exists>d1. (if c = 10 then serial_putchar P 13 d else Some d) = Some d1 \<and> sent d1 = sent d @ (if c = 10 then [13] else [])"
    using serial_putchar_sends [OF assms, of 13 d] by simp
  then obtain d1 where 1: "(if c = 10 then serial_putchar P 13 d else Some d) = Some d1" "sent d1 = sent d @ (if c = 10 then [13] else [])" by blast
  from serial_putchar_sends [OF assms, of c d1] obtain d2 where 2: "serial_putchar P c d1 = Some d2" "sent d2 = sent d1 @ [c]" by blast
  from Cons.IH [of d2] obtain d' where 3: "serial_write P cs d2 = Some d'" "sent d' = sent d2 @ serial_bytes cs" by blast
  show ?case unfolding serial_write.simps 1(1) bind.bind_lunit 2(1) 3(1) using 1(2) 2(2) 3(2) by simp
qed simp

text \<open>A port whose transmitter is busy for three reads after every byte.\<close>

definition sample_uart :: "(nat \<times> u8 list) ports" where
  "sample_uart = \<lparr>inb = (\<lambda>p (n, out). (if n = 0 then 0x20 else 0, (n - 1, out))),
     outb = (\<lambda>p c (n, out). if p = COM1 then (3, out @ [c]) else (n, out)), inl = (\<lambda>p s. (0, s)), outl = (\<lambda>p v s. s)\<rparr>"

theorem serial_write_sends_witness:
  "\<exists>d. serial_write sample_uart [104, 10] (1, []) = Some d \<and> snd d = [104, 13, 10]"
proof -
  have "uart sample_uart snd fst" by (auto simp: uart_def sample_uart_def transmit_empty_def split: if_splits)
  from serial_write_sends [OF this, of "[104, 10]" "(1, [])"] show ?thesis by simp
qed

section \<open>Properties of the clock and of the search\<close>

text \<open>
  On a clock that runs in 24-hour mode and is not being updated, \<open>rtc\_read\<close> ends and returns exactly the time
  the registers stand for, in binary as in decimal coding, with the century from its own register.
\<close>

theorem rtc_read_decodes:
  assumes "cmos_steady P S regs" "d \<in> S" "regs 0x0A AND 0x80 = 0" "regs 0x0B AND 2 \<noteq> 0"
    and "enc = (\<lambda>x. if regs 0x0B AND 4 = 0 then to_bcd x else x)"
    and "regs 0 = enc (t_second t)" "regs 2 = enc (t_minute t)" "regs 4 = enc (t_hour t)" "regs 7 = enc (t_day t)"
      "regs 8 = enc (t_month t)" "regs 9 = enc yy" "regs 0x32 = enc cc"
    and "unat (t_second t) \<le> 99" "unat (t_minute t) \<le> 99" "unat (t_hour t) \<le> 23" "unat (t_day t) \<le> 99" "unat (t_month t) \<le> 99"
      "unat yy \<le> 99" "unat cc \<le> 99" "cc \<noteq> 0" "t_year t = ucast cc * 100 + ucast yy"
  shows "\<exists>d'\<in>S. rtc_read P d = Some (t, d')"
  by (rule rtc_read_lemma [OF assms])

text \<open>A clock that stands at half past nine on 7 August 2026, in decimal coding.\<close>

definition sample_cmos :: "u8 ports" where
  "sample_cmos = \<lparr>inb = (\<lambda>p i. (if i = 4 then 0x09 else if i = 2 then 0x30 else if i = 7 then 0x07 else if i = 8 then 0x08
       else if i = 9 then 0x26 else if i = 0x32 then 0x20 else if i = 0x0B then 2 else 0, i)),
     outb = (\<lambda>p v i. v), inl = (\<lambda>p i. (0, i)), outl = (\<lambda>p v i. i)\<rparr>"

theorem rtc_read_decodes_witness:
  "\<exists>d. rtc_read sample_cmos 0 =
     Some (\<lparr>t_year = 2026, t_month = 8, t_day = 7, t_hour = 9, t_minute = 30, t_second = 0\<rparr>, d)"
proof -
  define regs where "regs = (\<lambda>i :: u8. fst (inb sample_cmos 0x71 i))"
  have "cmos_steady sample_cmos UNIV regs" by (simp add: cmos_steady_def cmos_read_def regs_def sample_cmos_def)
  moreover have "to_bcd 30 = 0x30" "to_bcd 26 = 0x26" "to_bcd 20 = 0x20" "to_bcd 0 = 0" "to_bcd 7 = 7" "to_bcd 8 = 8" "to_bcd 9 = 9" by code_simp+
  ultimately show ?thesis
    using rtc_read_decodes [of sample_cmos UNIV regs 0 _ "\<lparr>t_year = 2026, t_month = 8, t_day = 7, t_hour = 9, t_minute = 30, t_second = 0\<rparr>" 26 20, OF _ _ _ _ refl]
    by (simp add: regs_def sample_cmos_def)
qed

text \<open>
  On a configuration space that does not change, \<open>pci\_find\<close> answers exactly the first matching function of the
  machine in the order of bus, slot and function, where the functions behind the first count only on a populated
  slot that says it has several; its early exits skip no device and invent none.
\<close>

theorem pci_find_first:
  assumes "pci_steady P S cfg" "d \<in> S"
  shows "\<exists>d'\<in>S. pci_find P vendor device d =
    (map_option (pci_at vendor device) (find (pci_matches cfg vendor device)
      (concat (map (\<lambda>b. concat (map (\<lambda>s. map (\<lambda>f. (b, s, f)) [0..<8]) [0..<32])) [0..<256]))), d')"
  unfolding pci_find_def by (rule scan_buses_find [OF assms]) simp

text \<open>A machine with a card in every slot from the fourth on.\<close>

definition sample_pci :: "u32 ports" where
  "sample_pci = \<lparr>inb = (\<lambda>p a. (0, a)), outb = (\<lambda>p v a. a),
     inl = (\<lambda>p a. (if a < 0x80001800 then 0xFFFFFFFF else if a AND 0xFC = 0 then 0x100E8086 else 0, a)),
     outl = (\<lambda>p v a. v)\<rparr>"

definition sample_cfg :: "nat \<Rightarrow> nat \<Rightarrow> nat \<Rightarrow> u8 \<Rightarrow> u32" where
  "sample_cfg b s f r = fst (pci_read32 sample_pci (of_nat b) (of_nat s) (of_nat f) r 0)"

lemma sample_slots:
  "list_all (\<lambda>s. list_all (\<lambda>f. \<not> pci_matches sample_cfg 0x8086 0x100E (0, s, f)) [0..<8]) [0..<3]"
  "pci_matches sample_cfg 0x8086 0x100E (0, 3, 0)"
  by code_simp+

theorem pci_find_first_witness:
  "\<exists>d. pci_find sample_pci 0x8086 0x100E 0 =
     (Some \<lparr>pci_bus = 0, pci_slot = 3, pci_func = 0, vendor_id = 0x8086, device_id = 0x100E\<rparr>, d)"
proof -
  let ?M = "pci_matches sample_cfg 0x8086 0x100E" and ?slot = "\<lambda>b s. map (\<lambda>f. (b, s, f)) [0..<8]"
  have none: "find ?M (?slot 0 s) = None" if "s < 3" for s
    using sample_slots(1) that by (auto simp: find_None_iff list_all_iff)
  have n: "find ?M (?slot 0 0) = None" "find ?M (?slot 0 1) = None" "find ?M (?slot 0 2) = None" by (rule none, simp)+
  have "[0..<8] = 0 # [1..<8 :: nat]" by (simp add: upt_conv_Cons)
  then have hit: "find ?M (?slot 0 3) = Some (0, 3, 0)" using sample_slots(2) by simp
  have u: "[0..<32] = [0, 1, 2] @ 3 # [4..<32 :: nat]" "[0..<256] = 0 # [1..<256 :: nat]" by (simp_all add: upt_conv_Cons)
  have "find ?M (concat (map (\<lambda>b. concat (map (?slot b) [0..<32])) [0..<256])) = Some (0, 3, 0)"
    unfolding u list.map concat.simps append_Cons append_Nil append_assoc find_append n hit option.case ..
  moreover have "pci_steady sample_pci UNIV sample_cfg"
    by (simp add: pci_steady_def pci_read32_def sample_pci_def sample_cfg_def)
  ultimately show ?thesis
    using pci_find_first [of sample_pci UNIV sample_cfg 0 "0x8086" "0x100E"] by (simp add: pci_at_def)
qed

end
