(* ===== verification/E1000.thy ===== *)
theory E1000
  imports Devices Vmm
begin

text \<open>
  The driver of the network card, \<open>e1000.c\<close>, in polled mode. The card's registers are a parameter: what a read
  answers and how the card changes. The descriptor rings and the buffers are memory that the driver and the card
  share; the driver's record holds their contents. \<open>None\<close> is an access outside a buffer, or the use of memory
  that an allocation refused (the code does not test the page allocator's answer).
\<close>

section \<open>State\<close>

record rx_desc =
  rx_addr :: u64
  rx_length :: u16
  rx_checksum :: u16
  rx_status :: u8
  rx_errors :: u8
  rx_special :: u16

record tx_desc =
  tx_addr :: u64
  tx_length :: u16
  tx_cso :: u8
  tx_cmd :: u8
  tx_status :: u8
  tx_css :: u8
  tx_special :: u16

record 'c card_regs =
  rd :: "u32 \<Rightarrow> 'c \<Rightarrow> u32 \<times> 'c"
  wr :: "u32 \<Rightarrow> u32 \<Rightarrow> 'c \<Rightarrow> 'c"

record 'c e1000 =
  card :: 'c
  hhdm :: u64
  rx_ring :: "rx_desc list"
  tx_ring :: "tx_desc list"
  rx_ring_phys :: u64
  tx_ring_phys :: u64
  rx_bufs :: "u8 list list"
  rx_bufs_phys :: "u64 list"
  tx_buf :: "u8 list"
  tx_buf_phys :: u64
  rx_tail :: nat
  tx_tail :: nat
  mac :: "u8 list"
  up :: bool

definition RX_DESC_COUNT :: nat where "RX_DESC_COUNT = 32"
definition TX_DESC_COUNT :: nat where "TX_DESC_COUNT = 16"
definition RX_BUF_SIZE :: nat where "RX_BUF_SIZE = 2048"

definition REG_CTRL :: u32 where "REG_CTRL = 0x0000"
definition REG_EERD :: u32 where "REG_EERD = 0x0014"
definition REG_IMC :: u32 where "REG_IMC = 0x00D8"
definition REG_RCTL :: u32 where "REG_RCTL = 0x0100"
definition REG_TCTL :: u32 where "REG_TCTL = 0x0400"
definition REG_TIPG :: u32 where "REG_TIPG = 0x0410"
definition REG_RDBAL :: u32 where "REG_RDBAL = 0x2800"
definition REG_RDBAH :: u32 where "REG_RDBAH = 0x2804"
definition REG_RDLEN :: u32 where "REG_RDLEN = 0x2808"
definition REG_RDH :: u32 where "REG_RDH = 0x2810"
definition REG_RDT :: u32 where "REG_RDT = 0x2818"
definition REG_TDBAL :: u32 where "REG_TDBAL = 0x3800"
definition REG_TDBAH :: u32 where "REG_TDBAH = 0x3804"
definition REG_TDLEN :: u32 where "REG_TDLEN = 0x3808"
definition REG_TDH :: u32 where "REG_TDH = 0x3810"
definition REG_TDT :: u32 where "REG_TDT = 0x3818"
definition REG_RAL :: u32 where "REG_RAL = 0x5400"
definition REG_RAH :: u32 where "REG_RAH = 0x5404"
definition REG_MTA :: u32 where "REG_MTA = 0x5200"

definition CTRL_RST :: u32 where "CTRL_RST = push_bit 26 1"
definition CTRL_SLU :: u32 where "CTRL_SLU = push_bit 6 1"
definition RCTL_EN :: u32 where "RCTL_EN = push_bit 1 1"
definition RCTL_BAM :: u32 where "RCTL_BAM = push_bit 15 1"
definition RCTL_SECRC :: u32 where "RCTL_SECRC = push_bit 26 1"
definition TCTL_EN :: u32 where "TCTL_EN = push_bit 1 1"
definition TCTL_PSP :: u32 where "TCTL_PSP = push_bit 3 1"

lemmas e1000_sizes = RX_DESC_COUNT_def TX_DESC_COUNT_def RX_BUF_SIZE_def

section \<open>Initialisation\<close>

text \<open>Up to \<open>n\<close> polls of the EEPROM register.\<close>

primrec eeprom_poll :: "'c card_regs \<Rightarrow> nat \<Rightarrow> 'c \<Rightarrow> u16 option \<times> 'c" where
  "eeprom_poll R 0 c = (None, c)"
| "eeprom_poll R (Suc n) c =
     (case rd R REG_EERD c of (v, c) \<Rightarrow>
        if v AND push_bit 4 1 \<noteq> 0 then (Some (ucast (drop_bit 16 v)), c) else eeprom_poll R n c)"

definition eeprom_read :: "'c card_regs \<Rightarrow> u8 \<Rightarrow> 'c \<Rightarrow> u16 option \<times> 'c" where
  "eeprom_read R addr c = eeprom_poll R 100000 (wr R REG_EERD (1 OR push_bit 8 (ucast addr)) c)"

definition eeprom_mac :: "u16 \<Rightarrow> u16 \<Rightarrow> u16 \<Rightarrow> u8 list" where
  "eeprom_mac w0 w1 w2 = concat (map (\<lambda>w. [ucast (w AND 0xFF), ucast (drop_bit 8 w)]) [w0, w1, w2])"

text \<open>The words are read one after the other until one of them fails; then the address registers are read.\<close>

definition read_mac :: "'c card_regs \<Rightarrow> 'c \<Rightarrow> u8 list \<times> 'c" where
  "read_mac R c =
     (let regs = (\<lambda>c. case rd R REG_RAL c of (ral, c) \<Rightarrow> case rd R REG_RAH c of (rah, c) \<Rightarrow>
            ([ucast ral, ucast (drop_bit 8 ral), ucast (drop_bit 16 ral), ucast (drop_bit 24 ral), ucast rah, ucast (drop_bit 8 rah)], c))
      in case eeprom_read R 0 c of
           (None, c) \<Rightarrow> regs c
         | (Some w0, c) \<Rightarrow> (case eeprom_read R 1 c of
             (None, c) \<Rightarrow> regs c
           | (Some w1, c) \<Rightarrow> (case eeprom_read R 2 c of
               (None, c) \<Rightarrow> regs c
             | (Some w2, c) \<Rightarrow> (eeprom_mac w0 w1 w2, c))))"

definition write_mac :: "'c card_regs \<Rightarrow> u8 list \<Rightarrow> 'c \<Rightarrow> 'c" where
  "write_mac R m c =
     (let c = wr R REG_RAL (ucast (m ! 0) OR push_bit 8 (ucast (m ! 1)) OR push_bit 16 (ucast (m ! 2)) OR push_bit 24 (ucast (m ! 3))) c;
          c = wr R REG_RAH (ucast (m ! 4) OR push_bit 8 (ucast (m ! 5)) OR push_bit 31 1) c
      in fold (\<lambda>i. wr R (REG_MTA + of_nat i * 4) 0) [0..<128] c)"

text \<open>A page for the code: its number as an address; the code goes on with address 0 when there is none.\<close>

definition need_pages :: "nat \<Rightarrow> pmm \<Rightarrow> (u64 \<times> pmm) option" where
  "need_pages n pm = pmm_alloc_pages n pm \<bind> (\<lambda>(a, pm). if a = 0 then None else Some (of_nat a, pm))"

primrec alloc_rx_bufs :: "nat \<Rightarrow> pmm \<Rightarrow> (u64 list \<times> pmm) option" where
  "alloc_rx_bufs 0 pm = Some ([], pm)"
| "alloc_rx_bufs (Suc n) pm = need_pages 1 pm \<bind> (\<lambda>(a, pm). alloc_rx_bufs n pm \<bind> (\<lambda>(as, pm). Some (a # as, pm)))"

text \<open>Pages come zeroed from the allocator.\<close>

definition setup_rx :: "'c card_regs \<Rightarrow> 'c e1000 \<Rightarrow> pmm \<Rightarrow> ('c e1000 \<times> pmm) option" where
  "setup_rx R s pm =
     need_pages 1 pm \<bind> (\<lambda>(ring, pm). alloc_rx_bufs RX_DESC_COUNT pm \<bind> (\<lambda>(bufs, pm).
     let c = wr R REG_RDBAL (ucast ring) (card s);
         c = wr R REG_RDBAH (ucast (drop_bit 32 ring)) c;
         c = wr R REG_RDLEN (of_nat (RX_DESC_COUNT * 16)) c;
         c = wr R REG_RDH 0 c;
         c = wr R REG_RDT (of_nat (RX_DESC_COUNT - 1)) c
     in Some (s\<lparr>card := c, rx_ring_phys := ring, rx_bufs_phys := bufs, rx_bufs := replicate RX_DESC_COUNT (replicate 4096 0),
          rx_ring := map (\<lambda>a. \<lparr>rx_addr = a, rx_length = 0, rx_checksum = 0, rx_status = 0, rx_errors = 0, rx_special = 0\<rparr>) bufs,
          rx_tail := 0\<rparr>, pm)))"

definition setup_tx :: "'c card_regs \<Rightarrow> 'c e1000 \<Rightarrow> pmm \<Rightarrow> ('c e1000 \<times> pmm) option" where
  "setup_tx R s pm =
     need_pages 1 pm \<bind> (\<lambda>(ring, pm). need_pages (TX_DESC_COUNT div 2) pm \<bind> (\<lambda>(buf, pm).
     let c = wr R REG_TDBAL (ucast ring) (card s);
         c = wr R REG_TDBAH (ucast (drop_bit 32 ring)) c;
         c = wr R REG_TDLEN (of_nat (TX_DESC_COUNT * 16)) c;
         c = wr R REG_TDH 0 c;
         c = wr R REG_TDT 0 c
     in Some (s\<lparr>card := c, tx_ring_phys := ring, tx_buf_phys := buf, tx_buf := replicate (TX_DESC_COUNT div 2 * 4096) 0,
          tx_ring := replicate TX_DESC_COUNT \<lparr>tx_addr = 0, tx_length = 0, tx_cso = 0, tx_cmd = 0, tx_status = 1, tx_css = 0, tx_special = 0\<rparr>,
          tx_tail := 0\<rparr>, pm)))"

definition PTE_CACHE_DISABLE :: u64 where "PTE_CACHE_DISABLE = push_bit 4 1"

definition map_window :: "u64 \<Rightarrow> nat \<Rightarrow> u64 \<Rightarrow> pmm \<Rightarrow> pmm option" where
  "map_window off pml4 bar0 =
     foldM (\<lambda>i. vmm_map_page kernel_pages pml4 (off + bar0 + of_nat (i * 4096)) (bar0 + of_nat (i * 4096))
       (PTE_PRESENT OR PTE_WRITABLE OR PTE_CACHE_DISABLE)) [0..<0x20000 div 4096]"

text \<open>\<open>junk\<close> is what the buffer of \<open>kprintf\<close> held before, \<open>h\<close> the offset of the direct map.\<close>

definition e1000_init :: "'d ports \<Rightarrow> 'c card_regs \<Rightarrow> u8 list \<Rightarrow> u64 \<Rightarrow> nat \<Rightarrow> 'c e1000 \<Rightarrow> pmm \<Rightarrow> 'd \<Rightarrow> term_state \<Rightarrow>
    (bool \<times> 'c e1000 \<times> pmm \<times> 'd \<times> term_state) option" where
  "e1000_init P R junk h pml4 s pm d t =
     (case pci_find P 0x8086 0x100E d of
        (None, d) \<Rightarrow> kprintf junk (bytes ''e1000: not found on PCI bus'' @ [10]) [] t \<bind> (\<lambda>t. Some (False, s, pm, d, t))
      | (Some dev, d) \<Rightarrow>
          let d = pci_enable_bus_master P dev d
          in case pci_bar0 P dev d of (bar0, d) \<Rightarrow>
             if bar0 = 0 then kprintf junk (bytes ''e1000: unsupported BAR0'' @ [10]) [] t \<bind> (\<lambda>t. Some (False, s, pm, d, t))
             else
               map_window h pml4 bar0 pm \<bind> (\<lambda>pm.
               let c = wr R REG_IMC 0xFFFFFFFF (card s);
                   (v, c) = rd R REG_CTRL c;
                   c = wr R REG_CTRL (v OR CTRL_RST) c;
                   c = wr R REG_IMC 0xFFFFFFFF c;
                   (v, c) = rd R REG_CTRL c;
                   c = wr R REG_CTRL (v OR CTRL_SLU) c;
                   (m, c) = read_mac R c;
                   s = s\<lparr>hhdm := h, mac := m, card := write_mac R m c\<rparr>
               in setup_rx R s pm \<bind> (\<lambda>(s, pm). setup_tx R s pm \<bind> (\<lambda>(s, pm).
               let c = wr R REG_RCTL (RCTL_EN OR RCTL_BAM OR RCTL_SECRC) (card s);
                   c = wr R REG_TCTL (TCTL_EN OR TCTL_PSP OR push_bit 4 0x10 OR push_bit 12 0x40) c;
                   c = wr R REG_TIPG (10 OR push_bit 10 10 OR push_bit 20 10) c
               in kprintf junk (bytes ''e1000: up, MAC %02x:%02x:%02x:%02x:%02x:%02x'' @ [10]) (map (\<lambda>b. Num (ucast b)) m) t \<bind> (\<lambda>t.
                  Some (True, s\<lparr>card := c, up := True\<rparr>, pm, d, t))))))"

section \<open>Sending and receiving\<close>

definition e1000_get_mac :: "'c e1000 \<Rightarrow> u8 list" where
  "e1000_get_mac s = take 6 (mac s)"

text \<open>While the driver spins on a descriptor the card goes on: \<open>spin\<close> is what it does meanwhile.\<close>

definition e1000_send :: "'c card_regs \<Rightarrow> ('c e1000 \<Rightarrow> 'c e1000) \<Rightarrow> u8 list \<Rightarrow> 'c e1000 \<Rightarrow> (int \<times> 'c e1000) option" where
  "e1000_send R spin frame s =
     (if \<not> up s \<or> length frame > 1518 then Some (- 1, s)
      else if tx_tail s < length (tx_ring s) then
        let i = tx_tail s;
            s = (if tx_status (tx_ring s ! i) AND 1 = 0 then spin s else s)
        in if tx_status (tx_ring s ! i) AND 1 = 0 then Some (- 1, s)
           else
             blit (tx_buf s) (i * 2048) frame \<bind> (\<lambda>buf.
             let desc = (tx_ring s ! i)\<lparr>tx_addr := tx_buf_phys s + of_nat i * 2048, tx_length := of_nat (length frame),
                   tx_cmd := push_bit 0 1 OR push_bit 1 1 OR push_bit 3 1, tx_status := 0\<rparr>;
                 nxt = (i + 1) mod TX_DESC_COUNT
             in Some (int (length frame), s\<lparr>tx_buf := buf, tx_ring := (tx_ring s)[i := desc], tx_tail := nxt,
                  card := wr R REG_TDT (of_nat nxt) (card s)\<rparr>))
      else None)"

text \<open>The result is the number of bytes and the bytes written to the caller's buffer of \<open>cap\<close> bytes.\<close>

definition e1000_recv :: "'c card_regs \<Rightarrow> nat \<Rightarrow> 'c e1000 \<Rightarrow> (u8 list \<times> 'c e1000) option" where
  "e1000_recv R cap s =
     (if \<not> up s then Some ([], s)
      else if rx_tail s < length (rx_ring s) then
        let i = rx_tail s; desc = rx_ring s ! i
        in if rx_status desc AND 1 = 0 then Some ([], s)
           else
             let len = (if unat (rx_length desc) > cap then cap else unat (rx_length desc))
             in slice_at (rx_bufs s ! i) 0 len \<bind> (\<lambda>bs.
                Some (bs, s\<lparr>rx_ring := (rx_ring s)[i := desc\<lparr>rx_status := 0\<rparr>], card := wr R REG_RDT (of_nat i) (card s),
                  rx_tail := (i + 1) mod RX_DESC_COUNT\<rparr>))
      else None)"
section \<open>Rings\<close>

text \<open>The \<open>n\<close> slots of a ring of \<open>N\<close> from \<open>s\<close> on.\<close>

definition slots :: "nat \<Rightarrow> nat \<Rightarrow> nat \<Rightarrow> nat list" where
  "slots N s n = map (\<lambda>k. (s + k) mod N) [0..<n]"

lemma slots_0 [simp]: "slots N s 0 = []"
  by (simp add: slots_def)

lemma slots_end: "slots N s (Suc n) = slots N s n @ [(s + n) mod N]"
  by (simp add: slots_def)

lemma slots_start: "slots N s (Suc n) = s mod N # slots N (Suc s mod N) n"
  by (simp add: slots_def map_upt_Suc mod_simps del: upt_Suc)

lemma mod_add_cancel:
  assumes "(s + i) mod N = (s + j) mod N" "i < N" "j < (N :: nat)"
  shows "i = j"
proof -
  have less: "a = b" if "(s + a) mod N = (s + b) mod N" "a \<le> b" "b < N" for a b
  proof -
    have "N dvd (s + b) - (s + a)" using that(1,2) mod_eq_dvd_iff_nat [of "s + a" "s + b" N] by simp
    then have "N dvd b - a" by simp
    then show ?thesis using that(2,3) by (metis dvd_imp_le le_antisym less_imp_diff_less linorder_not_le zero_less_diff)
  qed
  show ?thesis using less [of i j] less [of j i] assms by (cases "i \<le> j") simp_all
qed

lemma slots_fresh:
  assumes "n < N"
  shows "(s + n) mod N \<notin> set (slots N s n)"
proof
  assume "(s + n) mod N \<in> set (slots N s n)"
  then obtain k where "k < n" "(s + n) mod N = (s + k) mod N" by (auto simp: slots_def)
  then show False using mod_add_cancel [of s n N k] assms by simp
qed

lemma slots_first: "0 < N \<Longrightarrow> n < N \<Longrightarrow> s mod N \<notin> set (slots N (Suc s mod N) n)"
proof
  assume a: "0 < N" "n < N" "s mod N \<in> set (slots N (Suc s mod N) n)"
  then obtain k where k: "k < n" "s mod N = (Suc s mod N + k) mod N" by (auto simp: slots_def)
  then have "(s + 0) mod N = (s + Suc k) mod N" by (simp add: mod_simps)
  from mod_add_cancel [OF this] show False using a k(1) by simp
qed

lemma slots_less: "0 < N \<Longrightarrow> i \<in> set (slots N s n) \<Longrightarrow> i < N"
  by (auto simp: slots_def)

section \<open>The card\<close>

text \<open>What the driver relies on of the card: its four ring pointers, as it sees them.\<close>

record 'c card_view =
  v_rdh :: "'c \<Rightarrow> nat"
  v_rdt :: "'c \<Rightarrow> nat"
  v_tdh :: "'c \<Rightarrow> nat"
  v_tdt :: "'c \<Rightarrow> nat"

text \<open>The pointers are registers: writing one sets it, and outside a reset no other write moves it.\<close>

definition ring_card :: "'c card_regs \<Rightarrow> 'c card_view \<Rightarrow> bool" where
  "ring_card R V \<longleftrightarrow> (\<forall>reg v c. reg \<noteq> REG_CTRL \<longrightarrow>
     v_rdh V (wr R reg v c) = (if reg = REG_RDH then unat v else v_rdh V c) \<and>
     v_rdt V (wr R reg v c) = (if reg = REG_RDT then unat v else v_rdt V c) \<and>
     v_tdh V (wr R reg v c) = (if reg = REG_TDH then unat v else v_tdh V c) \<and>
     v_tdt V (wr R reg v c) = (if reg = REG_TDT then unat v else v_tdt V c))"

definition same_pointers :: "'c card_view \<Rightarrow> 'c \<Rightarrow> 'c \<Rightarrow> bool" where
  "same_pointers V c c' \<longleftrightarrow> v_rdh V c' = v_rdh V c \<and> v_rdt V c' = v_rdt V c \<and> v_tdh V c' = v_tdh V c \<and> v_tdt V c' = v_tdt V c"

text \<open>
  A frame arrives: unless head and tail meet, the card writes it to the buffer at the head, fills in the
  descriptor, sets its done bit and moves the head on.
\<close>

definition card_receives :: "'c card_view \<Rightarrow> u8 list \<Rightarrow> 'c e1000 \<Rightarrow> 'c e1000 \<Rightarrow> bool" where
  "card_receives V frame s t \<longleftrightarrow> v_rdh V (card s) \<noteq> v_rdt V (card s) \<and> frame \<noteq> [] \<and> length frame \<le> RX_BUF_SIZE \<and>
     (\<exists>c rest desc. v_rdh V c = Suc (v_rdh V (card s)) mod RX_DESC_COUNT \<and> v_rdt V c = v_rdt V (card s) \<and>
        v_tdh V c = v_tdh V (card s) \<and> v_tdt V c = v_tdt V (card s) \<and>
        rx_length desc = of_nat (length frame) \<and> rx_status desc AND 1 \<noteq> 0 \<and> length (frame @ rest) = 4096 \<and>
        t = s\<lparr>card := c, rx_ring := (rx_ring s)[v_rdh V (card s) := desc], rx_bufs := (rx_bufs s)[v_rdh V (card s) := frame @ rest]\<rparr>)"

text \<open>A frame leaves: unless head and tail meet, the card sends what the descriptor at the head points to.\<close>

definition tx_frame :: "'c e1000 \<Rightarrow> nat \<Rightarrow> u8 list" where
  "tx_frame s i = take (unat (tx_length (tx_ring s ! i))) (drop (unat (tx_addr (tx_ring s ! i) - tx_buf_phys s)) (tx_buf s))"

definition card_sends :: "'c card_view \<Rightarrow> u8 list \<Rightarrow> 'c e1000 \<Rightarrow> 'c e1000 \<Rightarrow> bool" where
  "card_sends V frame s t \<longleftrightarrow> v_tdh V (card s) \<noteq> v_tdt V (card s) \<and> frame = tx_frame s (v_tdh V (card s)) \<and>
     (\<exists>c st. v_tdh V c = Suc (v_tdh V (card s)) mod TX_DESC_COUNT \<and> v_tdt V c = v_tdt V (card s) \<and>
        v_rdh V c = v_rdh V (card s) \<and> v_rdt V c = v_rdt V (card s) \<and> st AND 1 \<noteq> 0 \<and>
        t = s\<lparr>card := c, tx_ring := (tx_ring s)[v_tdh V (card s) := (tx_ring s ! v_tdh V (card s))\<lparr>tx_status := st\<rparr>]\<rparr>)"

section \<open>What the rings hold\<close>

definition rx_frame :: "'c e1000 \<Rightarrow> nat \<Rightarrow> u8 list" where
  "rx_frame s i = take (unat (rx_length (rx_ring s ! i))) (rx_bufs s ! i)"

text \<open>\<open>n\<close> received frames wait between the driver's tail and the card's head.\<close>

definition rx_inv :: "'c card_view \<Rightarrow> 'c e1000 \<Rightarrow> nat \<Rightarrow> bool" where
  [inv_simps]: "rx_inv V s n \<longleftrightarrow> up s \<and> n < RX_DESC_COUNT \<and> length (rx_ring s) = RX_DESC_COUNT \<and>
     length (rx_bufs s) = RX_DESC_COUNT \<and> (\<forall>b\<in>set (rx_bufs s). length b = 4096) \<and> rx_tail s < RX_DESC_COUNT \<and>
     v_rdh V (card s) = (rx_tail s + n) mod RX_DESC_COUNT \<and> v_rdt V (card s) = (rx_tail s + 31) mod RX_DESC_COUNT \<and>
     (\<forall>i < RX_DESC_COUNT. rx_status (rx_ring s ! i) AND 1 \<noteq> 0 \<longleftrightarrow> i \<in> set (slots RX_DESC_COUNT (rx_tail s) n)) \<and>
     (\<forall>i\<in>set (slots RX_DESC_COUNT (rx_tail s) n). rx_frame s i \<noteq> [] \<and> unat (rx_length (rx_ring s ! i)) \<le> RX_BUF_SIZE)"

text \<open>
  \<open>m\<close> frames wait between the card's head and the driver's tail. With sixteen of them head and tail are equal,
  as they are with none.
\<close>

definition tx_inv :: "'c card_view \<Rightarrow> 'c e1000 \<Rightarrow> nat \<Rightarrow> bool" where
  [inv_simps]: "tx_inv V s m \<longleftrightarrow> m \<le> TX_DESC_COUNT \<and> length (tx_ring s) = TX_DESC_COUNT \<and> length (tx_buf s) = TX_DESC_COUNT * 2048 \<and>
     tx_tail s < TX_DESC_COUNT \<and> v_tdt V (card s) = tx_tail s \<and> v_tdh V (card s) < TX_DESC_COUNT \<and>
     tx_tail s = (v_tdh V (card s) + m) mod TX_DESC_COUNT \<and>
     (\<forall>i < TX_DESC_COUNT. tx_status (tx_ring s ! i) AND 1 = 0 \<longleftrightarrow> i \<in> set (slots TX_DESC_COUNT (v_tdh V (card s)) m)) \<and>
     (\<forall>i\<in>set (slots TX_DESC_COUNT (v_tdh V (card s)) m). tx_addr (tx_ring s ! i) = tx_buf_phys s + of_nat i * 2048 \<and>
        unat (tx_length (tx_ring s ! i)) \<le> 1518)"

definition waiting :: "'c e1000 \<Rightarrow> nat \<Rightarrow> u8 list list" where
  "waiting s n = map (rx_frame s) (slots RX_DESC_COUNT (rx_tail s) n)"

definition unsent :: "'c card_view \<Rightarrow> 'c e1000 \<Rightarrow> nat \<Rightarrow> u8 list list" where
  "unsent V s m = map (tx_frame s) (slots TX_DESC_COUNT (v_tdh V (card s)) m)"

lemma take_upd_slot: "i \<notin> set xs \<Longrightarrow> (\<And>j. j \<noteq> i \<Longrightarrow> g j = h j) \<Longrightarrow> map g xs = map h xs"
  by (rule map_cong [OF refl]) metis

lemma arrive_lemma:
  assumes i: "rx_inv V s n" "tx_inv V s m" and c: "card_receives V frame s t"
  shows "rx_inv V t (Suc n) \<and> tx_inv V t m \<and> waiting t (Suc n) = waiting s n @ [frame] \<and> unsent V t m = unsent V s m"
proof -
  let ?i = "v_rdh V (card s)"
  from c obtain c' rest desc where d: "v_rdh V c' = Suc ?i mod RX_DESC_COUNT" "v_rdt V c' = v_rdt V (card s)"
    "v_tdh V c' = v_tdh V (card s)" "v_tdt V c' = v_tdt V (card s)" "rx_length desc = of_nat (length frame)" "rx_status desc AND 1 \<noteq> 0"
    "length (frame @ rest) = 4096" and t: "t = s\<lparr>card := c', rx_ring := (rx_ring s)[?i := desc], rx_bufs := (rx_bufs s)[?i := frame @ rest]\<rparr>"
    and f: "?i \<noteq> v_rdt V (card s)" "frame \<noteq> []" "length frame \<le> RX_BUF_SIZE" by (auto simp: card_receives_def)
  have h: "?i = (rx_tail s + n) mod 32" "?i < 32" "n < 32" using i(1) by (simp_all add: rx_inv_def RX_DESC_COUNT_def)
  have D: "\<forall>j < 32. rx_status (rx_ring s ! j) AND 1 \<noteq> 0 \<longleftrightarrow> j \<in> set (slots 32 (rx_tail s) n)"
    using i(1) by (simp add: rx_inv_def RX_DESC_COUNT_def)
  have n: "n < 31"
  proof (rule ccontr)
    assume "\<not> n < 31"
    then have "n = 31" using h(3) by simp
    then show False using f(1) h(1) i(1) by (simp add: rx_inv_def RX_DESC_COUNT_def)
  qed
  have fr: "?i \<notin> set (slots 32 (rx_tail s) n)" unfolding h(1) by (rule slots_fresh [OF h(3)])
  have len: "unat (rx_length desc) = length frame" using f(3) unfolding d(5) by (simp add: unat_of_nat_small RX_BUF_SIZE_def)
  have L: "length (rx_ring s) = 32" "length (rx_bufs s) = 32" using i(1) by (simp_all add: rx_inv_def RX_DESC_COUNT_def)
  have new: "rx_frame t ?i = frame" using h(2) L len by (simp add: rx_frame_def t)
  have old: "rx_frame t j = rx_frame s j" if "j \<noteq> ?i" for j using that by (simp add: rx_frame_def t)
  have w: "waiting t (Suc n) = waiting s n @ [frame]"
    using take_upd_slot [OF fr, of "rx_frame t" "rx_frame s", OF old] new h(1)
    by (simp add: waiting_def RX_DESC_COUNT_def slots_end t)
  have st: "rx_status (rx_ring t ! j) AND 1 \<noteq> 0 \<longleftrightarrow> j \<in> set (slots 32 (rx_tail s) (Suc n))" if "j < 32" for j
  proof (cases "j = ?i")
    case True
    then show ?thesis using d(6) L h(1,2) by (simp add: t slots_end)
  next
    case False
    then have "j \<noteq> (rx_tail s + n) mod 32" using h(1) by simp
    moreover have "rx_ring t ! j = rx_ring s ! j" using False by (simp add: t)
    ultimately show ?thesis using D that by (simp add: slots_end)
  qed
  have "rx_frame t j \<noteq> [] \<and> unat (rx_length (rx_ring t ! j)) \<le> 2048" if "j \<in> set (slots 32 (rx_tail s) (Suc n))" for j
  proof (cases "j = ?i")
    case True
    then show ?thesis using new f(2,3) len L h(2) by (simp add: t RX_BUF_SIZE_def)
  next
    case False
    then have "j \<in> set (slots 32 (rx_tail s) n)" using that h(1) by (auto simp: slots_end)
    then show ?thesis using i(1) old [OF False] False by (auto simp: t rx_inv_def e1000_sizes)
  qed
  moreover have "\<forall>b\<in>set (rx_bufs t). length b = 4096"
    using i(1) d(7) by (auto simp: t rx_inv_def dest!: set_update_subset_insert [THEN subsetD])
  ultimately have "rx_inv V t (Suc n)"
    using i(1) st n d(1,2) h(1) by (auto simp: rx_inv_def e1000_sizes t mod_simps)
  moreover have "tx_inv V t m" "unsent V t m = unsent V s m"
    using i(2) d(3,4) by (simp_all add: tx_inv_def unsent_def t tx_frame_def)
  ultimately show ?thesis using w by blast
qed

lemma recv_lemma:
  assumes i: "rx_inv V s n" "tx_inv V s m" and R: "ring_card R V" and cap: "0 < cap" and r: "e1000_recv R cap s = Some (bs, t)"
  shows "n = 0 \<and> bs = [] \<and> t = s \<or>
    (\<exists>k. n = Suc k \<and> bs \<noteq> [] \<and> rx_inv V t k \<and> tx_inv V t m \<and> unsent V t m = unsent V s m \<and>
      map (take cap) (waiting s n) = bs # map (take cap) (waiting t k))"
proof (cases n)
  case 0
  then have "\<not> rx_status (rx_ring s ! rx_tail s) AND 1 \<noteq> 0" using i(1) by (simp add: rx_inv_def)
  then show ?thesis using r i(1) 0 by (auto simp: e1000_recv_def rx_inv_def)
next
  case (Suc k)
  let ?i = "rx_tail s"
  have b: "?i < 32" "Suc k < 32" "length (rx_ring s) = 32" "length (rx_bufs s) = 32" "up s" using i(1) Suc by (simp_all add: rx_inv_def RX_DESC_COUNT_def)
  have sl: "slots 32 ?i (Suc k) = ?i # slots 32 (Suc ?i mod 32) k" using b(1) by (simp add: slots_start)
  then have dd: "rx_status (rx_ring s ! ?i) AND 1 \<noteq> 0" using i(1) Suc b(1) by (simp add: rx_inv_def RX_DESC_COUNT_def)
  have fr: "rx_frame s ?i \<noteq> []" "unat (rx_length (rx_ring s ! ?i)) \<le> 2048" using i(1) Suc sl by (simp_all add: rx_inv_def e1000_sizes)
  have bl: "length (rx_bufs s ! ?i) = 4096" using i(1) b by (simp add: rx_inv_def)
  let ?t = "s\<lparr>rx_ring := (rx_ring s)[?i := (rx_ring s ! ?i)\<lparr>rx_status := 0\<rparr>], card := wr R REG_RDT (of_nat ?i) (card s),
                  rx_tail := (?i + 1) mod RX_DESC_COUNT\<rparr>"
  let ?len = "if unat (rx_length (rx_ring s ! ?i)) > cap then cap else unat (rx_length (rx_ring s ! ?i))"
  have sla: "slice_at (rx_bufs s ! ?i) 0 ?len = Some (take cap (rx_frame s ?i))"
    using fr(2) bl by (auto simp: slice_at_def rx_frame_def min_def)
  have e: "bs = take cap (rx_frame s ?i)" "t = ?t"
    using r dd b sla unfolding e1000_recv_def Let_def by (simp_all split: if_splits)
  have o: "unat (of_nat ?i :: u32) = ?i" using b(1) by (simp add: unat_of_nat_small)
  have regs: "v_rdh V (card ?t) = v_rdh V (card s)" "v_rdt V (card ?t) = ?i" "v_tdh V (card ?t) = v_tdh V (card s)" "v_tdt V (card ?t) = v_tdt V (card s)"
    using R o by (simp_all add: ring_card_def REG_RDT_def REG_RDH_def REG_TDH_def REG_TDT_def REG_CTRL_def)
  have nf: "?i \<notin> set (slots 32 (Suc ?i mod 32) k)" using slots_first [of 32 k ?i] b by simp
  have fsame: "rx_frame ?t j = rx_frame s j" for j using b by (cases "j = ?i") (simp_all add: rx_frame_def)
  have st: "rx_status (rx_ring ?t ! j) AND 1 \<noteq> 0 \<longleftrightarrow> j \<in> set (slots 32 (Suc ?i mod 32) k)" if "j < 32" for j
    using i(1) that b nf sl Suc by (cases "j = ?i") (auto simp: rx_inv_def RX_DESC_COUNT_def)
  have "(Suc ?i mod 32 + 31) mod 32 = (?i + 32) mod 32" by (simp add: mod_simps)
  then have rdt: "?i = (Suc ?i mod 32 + 31) mod 32" using b(1) by simp
  have rdh: "(?i + Suc k) mod 32 = (Suc ?i mod 32 + k) mod 32" by (simp add: mod_simps)
  have fk: "\<forall>j\<in>set (slots 32 (Suc ?i mod 32) k). rx_frame s j \<noteq> [] \<and> unat (rx_length (rx_ring ?t ! j)) \<le> 2048"
    using i(1) sl nf Suc by (auto simp: rx_inv_def e1000_sizes nth_list_update)
  have "rx_inv V ?t k"
    using i(1) st b regs(1,2) rdt rdh fk fsame Suc by (simp add: rx_inv_def e1000_sizes)
  moreover have "tx_inv V ?t m" "unsent V ?t m = unsent V s m"
    using i(2) regs(3,4) by (simp_all add: tx_inv_def unsent_def tx_frame_def)
  moreover have "waiting s (Suc k) = rx_frame s ?i # waiting ?t k"
    using sl fsame by (simp add: waiting_def RX_DESC_COUNT_def)
  moreover have "bs \<noteq> []" using e(1) fr(1) cap by simp
  ultimately show ?thesis using Suc e by auto
qed
lemma depart_lemma:
  assumes i: "rx_inv V s n" "tx_inv V s m" and c: "card_sends V frame s t"
  shows "\<exists>k. m = Suc k \<and> rx_inv V t n \<and> tx_inv V t k \<and> waiting t n = waiting s n \<and> unsent V s m = frame # unsent V t k"
proof -
  let ?i = "v_tdh V (card s)"
  from c obtain c' st where d: "v_tdh V c' = Suc ?i mod TX_DESC_COUNT" "v_tdt V c' = v_tdt V (card s)"
    "v_rdh V c' = v_rdh V (card s)" "v_rdt V c' = v_rdt V (card s)" "st AND 1 \<noteq> 0"
    and t: "t = s\<lparr>card := c', tx_ring := (tx_ring s)[?i := (tx_ring s ! ?i)\<lparr>tx_status := st\<rparr>]\<rparr>"
    and f: "?i \<noteq> v_tdt V (card s)" "frame = tx_frame s ?i" by (auto simp: card_sends_def)
  have h: "?i < 16" "m \<le> 16" "length (tx_ring s) = 16" using i(2) by (simp_all add: tx_inv_def TX_DESC_COUNT_def)
  have "m \<noteq> 0"
  proof
    assume "m = 0"
    then have "tx_tail s = ?i" "v_tdt V (card s) = tx_tail s" using i(2) h(1) by (simp_all add: tx_inv_def TX_DESC_COUNT_def)
    then show False using f(1) by simp
  qed
  then obtain k where m: "m = Suc k" by (cases m) auto
  have sl: "slots 16 ?i (Suc k) = ?i # slots 16 (Suc ?i mod 16) k" using h(1) by (simp add: slots_start)
  have nf: "?i \<notin> set (slots 16 (Suc ?i mod 16) k)" using slots_first [of 16 k ?i] h m by simp
  have D: "\<forall>j < 16. tx_status (tx_ring s ! j) AND 1 = 0 \<longleftrightarrow> j \<in> set (slots 16 ?i (Suc k))"
    using i(2) m by (simp add: tx_inv_def TX_DESC_COUNT_def)
  have st: "tx_status (tx_ring t ! j) AND 1 = 0 \<longleftrightarrow> j \<in> set (slots 16 (Suc ?i mod 16) k)" if "j < 16" for j
  proof (cases "j = ?i")
    case True
    then show ?thesis using d(5) h nf by (simp add: t)
  next
    case False
    then show ?thesis using D that sl by (simp add: t)
  qed
  have same: "tx_addr (tx_ring t ! j) = tx_addr (tx_ring s ! j)" "tx_length (tx_ring t ! j) = tx_length (tx_ring s ! j)" for j
    using h by (cases "j = ?i"; simp add: t)+
  have tail: "(?i + Suc k) mod 16 = (Suc ?i mod 16 + k) mod 16" by (simp add: mod_simps)
  have "\<forall>j\<in>set (slots 16 (Suc ?i mod 16) k). tx_addr (tx_ring t ! j) = tx_buf_phys s + of_nat j * 2048 \<and> unat (tx_length (tx_ring t ! j)) \<le> 1518"
    using i(2) m sl unfolding same by (simp add: tx_inv_def TX_DESC_COUNT_def)
  then have "tx_inv V t k"
    using i(2) m st d(1,2) tail h by (simp add: tx_inv_def TX_DESC_COUNT_def t)
  moreover have "rx_inv V t n" "waiting t n = waiting s n"
    using i(1) d(3,4) by (simp_all add: rx_inv_def waiting_def t rx_frame_def)
  moreover have "unsent V s (Suc k) = frame # unsent V t k"
    using sl d(1) same f(2) by (simp add: unsent_def TX_DESC_COUNT_def tx_frame_def t)
  ultimately show ?thesis using m by blast
qed

text \<open>Slots of the bounce buffer do not overlap.\<close>

lemma blit_other_slot:
  assumes "blit buf (i * 2048) frame = Some buf'" "length frame \<le> 1518" "j \<noteq> i" "n \<le> 1518" "j < 16" "i < 16" "length buf = 16 * 2048"
  shows "take n (drop (j * 2048) buf') = take n (drop (j * 2048) buf)"
proof (rule nth_equalityI)
  have l: "length buf' = length buf" by (rule blit_length [OF assms(1)])
  show "length (take n (drop (j * 2048) buf')) = length (take n (drop (j * 2048) buf))" by (simp add: l)
  fix k assume k: "k < length (take n (drop (j * 2048) buf'))"
  then have "k < 2048" "j * 2048 + k < length buf" using assms(4,5,7) by (simp_all add: l)
  moreover have "\<not> (i * 2048 \<le> j * 2048 + k \<and> j * 2048 + k < i * 2048 + length frame)"
  proof -
    have "Suc j \<le> i \<or> Suc i \<le> j" using assms(3) by linarith
    then show ?thesis using assms(2) \<open>k < 2048\<close> by (elim disjE) linarith+
  qed
  ultimately have "buf' ! (j * 2048 + k) = buf ! (j * 2048 + k)" using blit_nth [OF assms(1)] by metis
  then show "take n (drop (j * 2048) buf') ! k = take n (drop (j * 2048) buf) ! k" using k assms(5,7) l by simp
qed

lemma slot_offset: "j < 16 \<Longrightarrow> unat ((p :: u64) + of_nat j * 2048 - p) = j * 2048"
proof -
  assume "j < 16"
  then have "unat (of_nat (j * 2048) :: u64) = j * 2048" by (intro unat_of_nat_small) simp
  then show ?thesis by simp
qed

text \<open>A frame is queued when at most fifteen wait; the caller's length is the frame's.\<close>

lemma send_lemma:
  assumes i: "rx_inv V s n" "tx_inv V s m" and R: "ring_card R V" and m: "m < 16" and r: "e1000_send R (\<lambda>s. s) frame s = Some (k, t)"
  shows "k = - 1 \<and> 1518 < length frame \<and> t = s \<or>
    k = int (length frame) \<and> rx_inv V t n \<and> tx_inv V t (Suc m) \<and> waiting t n = waiting s n \<and> unsent V t (Suc m) = unsent V s m @ [frame]"
proof (cases "length frame \<le> 1518")
  case False
  then show ?thesis using r by (simp add: e1000_send_def)
next
  case True
  let ?i = "tx_tail s" and ?h = "v_tdh V (card s)"
  have h: "?i < 16" "?h < 16" "length (tx_ring s) = 16" "length (tx_buf s) = 16 * 2048" "?i = (?h + m) mod 16" "up s"
    using i by (simp_all add: tx_inv_def rx_inv_def TX_DESC_COUNT_def)
  have fr: "?i \<notin> set (slots 16 ?h m)" unfolding h(5) by (rule slots_fresh) (use m in simp)
  have D: "\<forall>j < 16. tx_status (tx_ring s ! j) AND 1 = 0 \<longleftrightarrow> j \<in> set (slots 16 ?h m)"
    using i(2) by (simp add: tx_inv_def TX_DESC_COUNT_def)
  have free: "tx_status (tx_ring s ! ?i) AND 1 \<noteq> 0" using D fr h(1) by blast
  have "?i * 2048 + length frame \<le> length (tx_buf s)" using True h(1,4) by simp
  then obtain buf where b: "blit (tx_buf s) (?i * 2048) frame = Some buf" by (simp add: blit_def)
  define desc where "desc = (tx_ring s ! ?i)\<lparr>tx_addr := tx_buf_phys s + of_nat ?i * 2048, tx_length := of_nat (length frame),
                   tx_cmd := push_bit 0 1 OR push_bit 1 1 OR push_bit 3 1, tx_status := 0\<rparr>"
  define c' where "c' = wr R REG_TDT (of_nat ((?i + 1) mod TX_DESC_COUNT)) (card s)"
  have g: "\<not> (\<not> up s \<or> length frame > 1518)" "tx_tail s < length (tx_ring s)" using True h by simp_all
  have e: "k = int (length frame)" "t = s\<lparr>tx_buf := buf, tx_ring := (tx_ring s)[?i := desc], tx_tail := (?i + 1) mod TX_DESC_COUNT, card := c'\<rparr>"
    using r unfolding e1000_send_def if_not_P [OF g(1)] if_P [OF g(2)] Let_def if_not_P [OF free] b
    by (simp_all add: free desc_def c'_def)
  have "unat (of_nat ((?i + 1) mod 16) :: u32) = (?i + 1) mod 16" by (intro unat_of_nat_small) (simp add: less_trans [OF mod_less_divisor])
  then have regs: "v_tdh V c' = ?h" "v_tdt V c' = Suc ?i mod 16" "v_rdh V c' = v_rdh V (card s)" "v_rdt V c' = v_rdt V (card s)"
    using R by (simp_all add: c'_def ring_card_def REG_RDT_def REG_RDH_def REG_TDH_def REG_TDT_def REG_CTRL_def TX_DESC_COUNT_def)
  have sl: "slots 16 ?h (Suc m) = slots 16 ?h m @ [?i]" using h(5) by (simp add: slots_end)
  have st: "tx_status (tx_ring t ! j) AND 1 = 0 \<longleftrightarrow> j \<in> set (slots 16 ?h (Suc m))" if "j < 16" for j
  proof (cases "j = ?i")
    case True
    then show ?thesis using h sl by (simp add: e desc_def)
  next
    case False
    then show ?thesis using D that sl by (simp add: e)
  qed
  have P: "\<forall>j\<in>set (slots 16 ?h m). tx_addr (tx_ring s ! j) = tx_buf_phys s + of_nat j * 2048 \<and> unat (tx_length (tx_ring s ! j)) \<le> 1518"
    using i(2) by (simp add: tx_inv_def TX_DESC_COUNT_def)
  have old: "tx_frame t j = tx_frame s j" if j: "j \<in> set (slots 16 ?h m)" for j
  proof -
    have j16: "j < 16" "j \<noteq> ?i" using slots_less [OF _ j] fr j by auto
    have a: "tx_addr (tx_ring s ! j) = tx_buf_phys s + of_nat j * 2048" "unat (tx_length (tx_ring s ! j)) \<le> 1518" using P j by auto
    have "tx_frame t j = take (unat (tx_length (tx_ring s ! j))) (drop (j * 2048) buf)"
      using j16 a(1) slot_offset [OF j16(1)] by (simp add: tx_frame_def e)
    also have "\<dots> = take (unat (tx_length (tx_ring s ! j))) (drop (j * 2048) (tx_buf s))"
      by (rule blit_other_slot [OF b True j16(2) a(2) j16(1) h(1,4)])
    also have "\<dots> = tx_frame s j" using a(1) slot_offset [OF j16(1)] by (simp add: tx_frame_def)
    finally show ?thesis .
  qed
  have len: "unat (of_nat (length frame) :: u16) = length frame" using True by (intro unat_of_nat_small) simp
  have "take (length frame) (drop (?i * 2048) buf) = frame"
    using slice_blit_same [OF b] by (simp add: slice_at_def split: if_splits)
  then have new: "tx_frame t ?i = frame" using h slot_offset [OF h(1)] len by (simp add: tx_frame_def e desc_def)
  have "\<forall>j\<in>set (slots 16 ?h (Suc m)). tx_addr (tx_ring t ! j) = tx_buf_phys s + of_nat j * 2048 \<and> unat (tx_length (tx_ring t ! j)) \<le> 1518"
    using P fr h(1,3) len True unfolding sl by (auto simp: e desc_def nth_list_update)
  moreover have "length buf = length (tx_buf s)" by (rule blit_length [OF b])
  moreover have "Suc ?i mod 16 = (?h + Suc m) mod 16" unfolding h(5) by (simp add: mod_simps)
  ultimately have "tx_inv V t (Suc m)"
    using st regs(1,2) h m by (simp add: tx_inv_def TX_DESC_COUNT_def e)
  moreover have "unsent V t (Suc m) = unsent V s m @ [frame]"
    using old new sl regs(1) by (simp add: unsent_def TX_DESC_COUNT_def e)
  moreover have "rx_inv V t n" "waiting t n = waiting s n"
    using i(1) regs(3,4) by (simp_all add: rx_inv_def waiting_def e rx_frame_def)
  ultimately show ?thesis using e(1) by blast
qed

text \<open>Every frame of a legal size is taken while a descriptor is free.\<close>

lemma send_accepts:
  assumes i: "rx_inv V s n" "tx_inv V s m" and m: "m < 16" and f: "length frame \<le> 1518"
  shows "\<exists>t. e1000_send R (\<lambda>s. s) frame s = Some (int (length frame), t)"
proof -
  let ?i = "tx_tail s" and ?h = "v_tdh V (card s)"
  have h: "?i < 16" "length (tx_ring s) = 16" "length (tx_buf s) = 16 * 2048" "?i = (?h + m) mod 16" "up s"
    using i by (simp_all add: tx_inv_def rx_inv_def TX_DESC_COUNT_def)
  have "?i \<notin> set (slots 16 ?h m)" unfolding h(4) by (rule slots_fresh) (use m in simp)
  then have free: "tx_status (tx_ring s ! ?i) AND 1 \<noteq> 0" using i(2) h(1) by (simp add: tx_inv_def TX_DESC_COUNT_def)
  have "?i * 2048 + length frame \<le> length (tx_buf s)" using f h(1,3) by simp
  then obtain buf where "blit (tx_buf s) (?i * 2048) frame = Some buf" by (simp add: blit_def)
  then show ?thesis using f h(1,2,5) free by (simp add: e1000_send_def Let_def)
qed

text \<open>
  The sixteenth frame stalls the ring: the tail has caught up with the head, so that the card sees an empty
  ring and sends nothing, and the driver sees no free descriptor and gives up.
\<close>

lemma full_ring_stalls:
  assumes i: "rx_inv V s n" "tx_inv V s 16"
  shows "\<not> card_sends V frame s u" "e1000_send R (\<lambda>s. s) frame s = Some (- 1, s)"
proof -
  let ?h = "v_tdh V (card s)"
  have h: "?h < 16" "length (tx_ring s) = 16" "tx_tail s = ?h" "v_tdt V (card s) = tx_tail s" "up s"
    using i by (simp_all add: tx_inv_def rx_inv_def TX_DESC_COUNT_def)
  then show "\<not> card_sends V frame s u" by (simp add: card_sends_def)
  have "?h \<in> set (slots 16 ?h 16)" using h(1) by (auto simp: slots_def intro: image_eqI [of _ _ 0])
  then have "tx_status (tx_ring s ! ?h) AND 1 = 0" using i(2) h(1) by (simp add: tx_inv_def TX_DESC_COUNT_def)
  then show "e1000_send R (\<lambda>s. s) frame s = Some (- 1, s)" using h by (simp add: e1000_send_def Let_def)
qed

section \<open>Driver and card together\<close>

text \<open>
  Any interleaving of the driver's calls and the card's steps: \<open>acc\<close> are the frames the card has accepted from the
  wire, \<open>got\<close> what \<open>e1000\_recv\<close> has returned, \<open>que\<close> the frames \<open>e1000\_send\<close> has taken and \<open>out\<close> those the
  card has put on the wire. A step of the card while \<open>e1000\_send\<close> waits for its descriptor has the effect of
  the same step before the call.
\<close>

inductive e1000_path :: "'c card_regs \<Rightarrow> 'c card_view \<Rightarrow> nat \<Rightarrow> 'c e1000 \<Rightarrow> u8 list list \<Rightarrow> u8 list list \<Rightarrow> u8 list list \<Rightarrow> u8 list list \<Rightarrow>
    'c e1000 \<Rightarrow> bool" for R V cap s where
  path_start: "e1000_path R V cap s [] [] [] [] s"
| path_arrive: "e1000_path R V cap s acc got que out t \<Longrightarrow> card_receives V frame t t' \<Longrightarrow>
    e1000_path R V cap s (acc @ [frame]) got que out t'"
| path_recv: "e1000_path R V cap s acc got que out t \<Longrightarrow> e1000_recv R cap t = Some (bs, t') \<Longrightarrow>
    e1000_path R V cap s acc (if bs = [] then got else got @ [bs]) que out t'"
| path_send: "e1000_path R V cap s acc got que out t \<Longrightarrow> e1000_send R (\<lambda>s. s) frame t = Some (k, t') \<Longrightarrow>
    e1000_path R V cap s acc got (if k < 0 then que else que @ [frame]) out t'"
| path_depart: "e1000_path R V cap s acc got que out t \<Longrightarrow> card_sends V frame t t' \<Longrightarrow>
    e1000_path R V cap s acc got que (out @ [frame]) t'"

lemma rings_fifo_lemma:
  assumes "e1000_path R V cap s acc got que out t" "ring_card R V" "0 < cap" "rx_inv V s 0" "tx_inv V s 0"
  shows "\<exists>n m. rx_inv V t n \<and> tx_inv V t m \<and> map (take cap) acc = got @ map (take cap) (waiting t n) \<and> que = out @ unsent V t m"
  using assms
proof (induction rule: e1000_path.induct)
  case path_start
  then show ?case by (intro exI [of _ 0]) (simp add: waiting_def unsent_def)
next
  case (path_arrive acc got que out t frame t')
  then obtain n m where i: "rx_inv V t n" "tx_inv V t m" and l: "map (take cap) acc = got @ map (take cap) (waiting t n)" "que = out @ unsent V t m" by blast
  note a = arrive_lemma [OF i path_arrive.hyps(2)]
  have "map (take cap) (acc @ [frame]) = got @ map (take cap) (waiting t' (Suc n))" using a l(1) by (metis append_assoc map_append)
  moreover have "que = out @ unsent V t' m" using a l(2) by metis
  ultimately show ?case using a by blast
next
  case (path_recv acc got que out t bs t')
  then obtain n m where i: "rx_inv V t n" "tx_inv V t m" and l: "map (take cap) acc = got @ map (take cap) (waiting t n)" "que = out @ unsent V t m" by blast
  from recv_lemma [OF i path_recv.prems(1,2) path_recv.hyps(2)] show ?case
  proof
    assume "n = 0 \<and> bs = [] \<and> t' = t"
    then have c: "(if bs = [] then got else got @ [bs]) = got" "t' = t" by simp_all
    show ?thesis unfolding c using i l by blast
  next
    assume "\<exists>k. n = Suc k \<and> bs \<noteq> [] \<and> rx_inv V t' k \<and> tx_inv V t' m \<and> unsent V t' m = unsent V t m \<and>
      map (take cap) (waiting t n) = bs # map (take cap) (waiting t' k)"
    then obtain k where k: "bs \<noteq> []" "rx_inv V t' k" "tx_inv V t' m" "unsent V t' m = unsent V t m"
      "map (take cap) (waiting t n) = bs # map (take cap) (waiting t' k)" by (elim exE conjE) (rule that)
    have c: "(if bs = [] then got else got @ [bs]) = got @ [bs]" using k(1) by simp
    have "map (take cap) acc = (got @ [bs]) @ map (take cap) (waiting t' k)" unfolding l(1) k(5) by simp
    moreover have "que = out @ unsent V t' m" unfolding k(4) by (rule l(2))
    ultimately show ?thesis unfolding c using k(2,3) by blast
  qed
next
  case (path_send acc got que out t frame k t')
  then obtain n m where i: "rx_inv V t n" "tx_inv V t m" and l: "map (take cap) acc = got @ map (take cap) (waiting t n)" "que = out @ unsent V t m" by blast
  have "k = - 1 \<and> t' = t \<or> k = int (length frame) \<and> rx_inv V t' n \<and> tx_inv V t' (Suc m) \<and> waiting t' n = waiting t n \<and>
      unsent V t' (Suc m) = unsent V t m @ [frame]"
  proof (cases "m < 16")
    case True
    from send_lemma [OF i path_send.prems(1) True path_send.hyps(2)] show ?thesis by blast
  next
    case False
    then have "m = 16" using i(2) by (simp add: tx_inv_def TX_DESC_COUNT_def)
    then show ?thesis using full_ring_stalls(2) [OF i(1), of R frame] i(2) path_send.hyps(2) by simp
  qed
  then show ?case
  proof
    assume "k = - 1 \<and> t' = t"
    then have c: "(if k < 0 then que else que @ [frame]) = que" "t' = t" by simp_all
    show ?thesis unfolding c using i l by blast
  next
    assume k: "k = int (length frame) \<and> rx_inv V t' n \<and> tx_inv V t' (Suc m) \<and> waiting t' n = waiting t n \<and> unsent V t' (Suc m) = unsent V t m @ [frame]"
    then have c: "(if k < 0 then que else que @ [frame]) = que @ [frame]" by simp
    have "que @ [frame] = out @ unsent V t' (Suc m)" using k l(2) by (metis append_assoc)
    moreover have "map (take cap) acc = got @ map (take cap) (waiting t' n)" using k l(1) by metis
    ultimately show ?thesis unfolding c using k by blast
  qed
next
  case (path_depart acc got que out t frame t')
  then obtain n m where i: "rx_inv V t n" "tx_inv V t m" and l: "map (take cap) acc = got @ map (take cap) (waiting t n)" "que = out @ unsent V t m" by blast
  from depart_lemma [OF i path_depart.hyps(2)] obtain k where
    k: "rx_inv V t' n" "tx_inv V t' k" "waiting t' n = waiting t n" "unsent V t m = frame # unsent V t' k" by blast
  have "map (take cap) acc = got @ map (take cap) (waiting t' n)" unfolding k(3) by (rule l(1))
  moreover have "que = (out @ [frame]) @ unsent V t' k" using l(2) unfolding k(4) by simp
  ultimately show ?case using k(1,2) by blast
qed
section \<open>After initialisation\<close>

lemma card_after:
  assumes "ring_card R V" "reg \<noteq> REG_CTRL"
  shows "v_rdh V (wr R reg v c) = (if reg = REG_RDH then unat v else v_rdh V c)"
    "v_rdt V (wr R reg v c) = (if reg = REG_RDT then unat v else v_rdt V c)"
    "v_tdh V (wr R reg v c) = (if reg = REG_TDH then unat v else v_tdh V c)"
    "v_tdt V (wr R reg v c) = (if reg = REG_TDT then unat v else v_tdt V c)"
  using assms by (simp_all add: ring_card_def)

lemmas register_numbers = REG_CTRL_def REG_EERD_def REG_IMC_def REG_RCTL_def REG_TCTL_def REG_TIPG_def REG_RDBAL_def REG_RDBAH_def
  REG_RDLEN_def REG_RDH_def REG_RDT_def REG_TDBAL_def REG_TDBAH_def REG_TDLEN_def REG_TDH_def REG_TDT_def

lemma alloc_rx_bufs_length: "alloc_rx_bufs n pm = Some (as, pm') \<Longrightarrow> length as = n"
  by (induction n arbitrary: pm as pm') (auto simp: bind_Some_iff)

text \<open>The pages of the rings and buffers are pages nobody owned before, each handed out once.\<close>

lemma need_page_fresh:
  assumes "pmm_inv pm" "need_pages 1 pm = Some (a, pm')"
  shows "pmm_inv pm' \<and> (\<exists>p. a = of_nat (p * 4096) \<and> p < 2 ^ 40 \<and> \<not> used (bitmap pm) p \<and> (\<forall>c. used (bitmap pm') c \<longleftrightarrow> c = p \<or> used (bitmap pm) c))"
proof -
  from assms(2) obtain n where n: "pmm_alloc_page pm = Some (n, pm')" "n \<noteq> 0" "a = of_nat n"
    by (auto simp: need_pages_def pmm_alloc_page_def bind_Some_iff split: if_splits)
  have "page_alloc kernel_pages pm = Some (n, pm')" using n(1) by (simp add: kernel_pages_def)
  from pages.alloc_page [OF assms(1) this n(2)] show ?thesis using n(3) by blast
qed

lemma alloc_rx_bufs_fresh:
  assumes "pmm_inv pm" "alloc_rx_bufs n pm = Some (as, pm')"
  shows "pmm_inv pm' \<and> (\<exists>ps. as = map (\<lambda>p. of_nat (p * 4096)) ps \<and> distinct ps \<and> (\<forall>p\<in>set ps. p < 2 ^ 40 \<and> \<not> used (bitmap pm) p) \<and>
    (\<forall>c. used (bitmap pm') c \<longleftrightarrow> c \<in> set ps \<or> used (bitmap pm) c))"
  using assms
proof (induction n arbitrary: pm as pm')
  case 0
  then show ?case by (intro conjI exI [of _ "[]"]) auto
next
  case (Suc n)
  from Suc.prems(2) obtain a pm1 bs where s: "need_pages 1 pm = Some (a, pm1)" "alloc_rx_bufs n pm1 = Some (bs, pm')" "as = a # bs"
    by (auto simp: bind_Some_iff)
  from need_page_fresh [OF Suc.prems(1) s(1)] obtain p where
    p: "pmm_inv pm1" "a = of_nat (p * 4096)" "p < 2 ^ 40" "\<not> used (bitmap pm) p" "\<forall>c. used (bitmap pm1) c \<longleftrightarrow> c = p \<or> used (bitmap pm) c" by blast
  from Suc.IH [OF p(1) s(2)] obtain ps where q: "pmm_inv pm'" "bs = map (\<lambda>p. of_nat (p * 4096)) ps" "distinct ps"
    "\<forall>r\<in>set ps. r < 2 ^ 40 \<and> \<not> used (bitmap pm1) r" "\<forall>c. used (bitmap pm') c \<longleftrightarrow> c \<in> set ps \<or> used (bitmap pm1) c" by blast
  have "p \<notin> set ps" using q(4) p(5) by blast
  then show ?case using p q s(3) by (intro conjI exI [of _ "p # ps"]) auto
qed

lemma setup_rx_ok:
  assumes R: "ring_card R V" and e: "setup_rx R s pm = Some (t, pm')"
  shows "length (rx_ring t) = 32" "length (rx_bufs t) = 32" "\<forall>b\<in>set (rx_bufs t). length b = 4096" "rx_tail t = 0"
    "v_rdh V (card t) = 0" "v_rdt V (card t) = 31" "\<forall>i < 32. rx_status (rx_ring t ! i) = 0" "up t = up s"
proof -
  from e obtain ring bufs pm1 where "length bufs = 32" and
    t: "t = s\<lparr>card := wr R REG_RDT 31 (wr R REG_RDH 0 (wr R REG_RDLEN 512 (wr R REG_RDBAH (ucast (drop_bit 32 ring)) (wr R REG_RDBAL (ucast ring) (card s))))),
          rx_ring_phys := ring, rx_bufs_phys := bufs, rx_bufs := replicate 32 (replicate 4096 0),
          rx_ring := map (\<lambda>a. \<lparr>rx_addr = a, rx_length = 0, rx_checksum = 0, rx_status = 0, rx_errors = 0, rx_special = 0\<rparr>) bufs,
          rx_tail := 0\<rparr>"
    by (auto simp: setup_rx_def bind_Some_iff RX_DESC_COUNT_def Let_def dest: alloc_rx_bufs_length)
  then show "length (rx_ring t) = 32" "length (rx_bufs t) = 32" "\<forall>b\<in>set (rx_bufs t). length b = 4096" "rx_tail t = 0"
    "v_rdh V (card t) = 0" "v_rdt V (card t) = 31" "\<forall>i < 32. rx_status (rx_ring t ! i) = 0" "up t = up s"
    using card_after [OF R] by (simp_all add: register_numbers)
qed

lemma setup_tx_ok:
  assumes R: "ring_card R V" and e: "setup_tx R s pm = Some (t, pm')"
  shows "length (tx_ring t) = 16" "length (tx_buf t) = 16 * 2048" "tx_tail t = 0" "v_tdh V (card t) = 0" "v_tdt V (card t) = 0"
    "\<forall>i < 16. tx_status (tx_ring t ! i) = 1" "v_rdh V (card t) = v_rdh V (card s)" "v_rdt V (card t) = v_rdt V (card s)"
    "rx_ring t = rx_ring s" "rx_bufs t = rx_bufs s" "rx_tail t = rx_tail s"
proof -
  from e obtain ring buf where
    t: "t = s\<lparr>card := wr R REG_TDT 0 (wr R REG_TDH 0 (wr R REG_TDLEN 256 (wr R REG_TDBAH (ucast (drop_bit 32 ring)) (wr R REG_TDBAL (ucast ring) (card s))))),
          tx_ring_phys := ring, tx_buf_phys := buf, tx_buf := replicate 32768 0,
          tx_ring := replicate 16 \<lparr>tx_addr = 0, tx_length = 0, tx_cso = 0, tx_cmd = 0, tx_status = 1, tx_css = 0, tx_special = 0\<rparr>, tx_tail := 0\<rparr>"
    by (auto simp: setup_tx_def bind_Some_iff TX_DESC_COUNT_def Let_def)
  then show "length (tx_ring t) = 16" "length (tx_buf t) = 16 * 2048" "tx_tail t = 0" "v_tdh V (card t) = 0" "v_tdt V (card t) = 0"
    "\<forall>i < 16. tx_status (tx_ring t ! i) = 1" "v_rdh V (card t) = v_rdh V (card s)" "v_rdt V (card t) = v_rdt V (card s)"
    "rx_ring t = rx_ring s" "rx_bufs t = rx_bufs s" "rx_tail t = rx_tail s"
    using card_after [OF R] by (simp_all add: register_numbers)
qed

lemma rings_empty:
  assumes R: "ring_card R V" and e: "setup_rx R s0 pm = Some (s1, pm1)" "setup_tx R s1 pm1 = Some (s2, pm2)"
  shows "rx_inv V (s2\<lparr>card := wr R REG_TIPG x (wr R REG_TCTL y (wr R REG_RCTL z (card s2))), up := True\<rparr>) 0"
    "tx_inv V (s2\<lparr>card := wr R REG_TIPG x (wr R REG_TCTL y (wr R REG_RCTL z (card s2))), up := True\<rparr>) 0"
  using setup_rx_ok [OF R e(1)] setup_tx_ok [OF R e(2)] card_after [OF R]
  by (simp_all add: rx_inv_def tx_inv_def e1000_sizes register_numbers)

lemma e1000_init_rings:
  assumes R: "ring_card R V" and e: "e1000_init P R junk h pml4 s pm d t = Some (True, s', pm', d', t')"
  shows "rx_inv V s' 0 \<and> tx_inv V s' 0"
proof -
  have "\<exists>s0 pm0 s1 pm1 s2 x y z. setup_rx R s0 pm0 = Some (s1, pm1) \<and> setup_tx R s1 pm1 = Some (s2, pm') \<and>
      s' = s2\<lparr>card := wr R REG_TIPG x (wr R REG_TCTL y (wr R REG_RCTL z (card s2))), up := True\<rparr>"
    using e unfolding e1000_init_def Let_def case_prod_unfold
    by (auto simp: bind_Some_iff split: option.splits if_splits) blast+
  then show ?thesis using rings_empty [OF R] by blast
qed

section \<open>Enough memory\<close>

text \<open>A run of \<open>n\<close> free pages. The first fit takes from its front or from elsewhere.\<close>

definition room :: "nat \<Rightarrow> pmm \<Rightarrow> bool" where
  "room n pm \<longleftrightarrow> (\<exists>t\<ge>1. t + n \<le> highest_page pm \<and> free_run (bitmap pm) t n)"

lemma room_less: "room n pm \<Longrightarrow> m \<le> n \<Longrightarrow> room m pm"
  unfolding room_def free_run_def by (meson add_left_mono le_trans less_le_trans)

lemma alloc_room:
  assumes "pmm_inv pm" "room n pm" "0 < c" "c \<le> n"
  shows "\<exists>a pm'. pmm_alloc_pages c pm = Some (a, pm') \<and> a \<noteq> 0 \<and> pmm_inv pm' \<and> room (n - c) pm'"
proof -
  from assms(2) obtain t where t: "1 \<le> t" "t + n \<le> highest_page pm" "free_run (bitmap pm) t n" by (auto simp: room_def)
  then have tc: "t + c \<le> highest_page pm" "free_run (bitmap pm) t c" using assms(4) by (simp_all add: free_run_def)
  from pmm_alloc_pages_first_fit_lemma [OF assms(1,3)] obtain a pm' where
    a: "pmm_alloc_pages c pm = Some (a, pm')" "first_fit_outcome c pm a pm'" by blast
  have "a \<noteq> 0"
  proof
    assume "a = 0"
    with a(2) have "\<not> (\<exists>t\<ge>1. t + c \<le> highest_page pm \<and> free_run (bitmap pm) t c)" by (simp add: first_fit_outcome_def)
    with t(1) tc show False by blast
  qed
  with a(2) obtain p where p: "\<not> (\<exists>t. 1 \<le> t \<and> t < p \<and> free_run (bitmap pm) t c)" "pmm_inv pm'" "highest_page pm' = highest_page pm"
    "\<forall>k. used (bitmap pm') k = (p \<le> k \<and> k < p + c \<or> used (bitmap pm) k)" by (auto simp: first_fit_outcome_def)
  have "p \<le> t" using p(1) t(1) tc(2) by (meson not_le)
  then have "free_run (bitmap pm') (t + c) (n - c)" using p(4) t(3) by (auto simp: free_run_def add.assoc)
  then have "room (n - c) pm'" using t(1,2) p(3) assms(4) by (auto simp: room_def intro!: exI [of _ "t + c"])
  then show ?thesis using a(1) \<open>a \<noteq> 0\<close> p(2) by blast
qed

lemma next_level_room:
  assumes "pmm_inv pm" "room (Suc n) pm"
  shows "\<exists>r pm'. get_next_level kernel_pages t i True pm = Some (Some r, pm') \<and> pmm_inv pm' \<and> room n pm'"
proof (cases "word_read kernel_pages pm (t div 8 + i) AND PTE_PRESENT = 0")
  case True
  from alloc_room [OF assms zero_less_one] obtain a pm' where a: "page_alloc kernel_pages pm = Some (a, pm')" "a \<noteq> 0" "pmm_inv pm'" "room n pm'"
    by (auto simp: kernel_pages_def pmm_alloc_page_def)
  then show ?thesis using True by (simp add: get_next_level_def Let_def) (simp add: kernel_pages_def inv_simps room_def)
next
  case False
  then show ?thesis using assms room_less [OF assms(2), of n] by (simp add: get_next_level_def Let_def)
qed

lemma map_page_room:
  assumes "pmm_inv pm" "room (n + 3) pm"
  shows "\<exists>pm'. vmm_map_page kernel_pages pml4 v p f pm = Some pm' \<and> pmm_inv pm' \<and> room n pm'"
proof -
  have "room (Suc (Suc (Suc n))) pm" using assms(2) by (simp add: numeral_3_eq_3)
  from next_level_room [OF assms(1) this] obtain r1 pm1 where 1: "get_next_level kernel_pages pml4 (pt_index 39 v) True pm = Some (Some r1, pm1)"
    "pmm_inv pm1" "room (Suc (Suc n)) pm1" by blast
  from next_level_room [OF 1(2,3)] obtain r2 pm2 where 2: "get_next_level kernel_pages r1 (pt_index 30 v) True pm1 = Some (Some r2, pm2)"
    "pmm_inv pm2" "room (Suc n) pm2" by blast
  from next_level_room [OF 2(2,3)] obtain r3 pm3 where 3: "get_next_level kernel_pages r2 (pt_index 21 v) True pm2 = Some (Some r3, pm3)"
    "pmm_inv pm3" "room n pm3" by blast
  show ?thesis using 1(1) 2(1) 3 by (simp add: vmm_map_page_def) (simp add: kernel_pages_def inv_simps room_def)
qed

text \<open>The window has 32 pages, each of which needs three tables at most.\<close>

lemma map_window_room:
  assumes "pmm_inv pm" "room (n + 96) pm"
  shows "\<exists>pm'. map_window off pml4 bar0 pm = Some pm' \<and> pmm_inv pm' \<and> room n pm'"
proof -
  have "\<exists>pm'. foldM (\<lambda>i. vmm_map_page kernel_pages pml4 (off + bar0 + of_nat (i * 4096)) (bar0 + of_nat (i * 4096))
      (PTE_PRESENT OR PTE_WRITABLE OR PTE_CACHE_DISABLE)) is pm = Some pm' \<and> pmm_inv pm' \<and> room n pm'"
    if "pmm_inv pm" "room (n + 3 * length is) pm" for "is" pm
    using that
  proof (induction "is" arbitrary: pm)
    case (Cons i "is")
    then have "room (n + 3 * length is + 3) pm" by (simp add: add.commute add.left_commute)
    from map_page_room [OF Cons.prems(1) this] obtain pm1 where
      1: "vmm_map_page kernel_pages pml4 (off + bar0 + of_nat (i * 4096)) (bar0 + of_nat (i * 4096))
            (PTE_PRESENT OR PTE_WRITABLE OR PTE_CACHE_DISABLE) pm = Some pm1" "pmm_inv pm1" "room (n + 3 * length is) pm1" by blast
    from Cons.IH [OF 1(2,3)] show ?case by (simp only: foldM.simps 1(1) bind.bind_lunit)
  qed simp
  from this [OF assms(1), of "[0..<0x20000 div 4096]"] assms(2) show ?thesis by (simp add: map_window_def)
qed

lemma need_pages_room:
  assumes "pmm_inv pm" "room (n + c) pm" "0 < c"
  shows "\<exists>a pm'. need_pages c pm = Some (a, pm') \<and> pmm_inv pm' \<and> room n pm'"
  using alloc_room [OF assms] by (auto simp: need_pages_def)

lemma alloc_rx_bufs_room:
  "pmm_inv pm \<Longrightarrow> room (n + k) pm \<Longrightarrow> \<exists>as pm'. alloc_rx_bufs k pm = Some (as, pm') \<and> pmm_inv pm' \<and> room n pm'"
proof (induction k arbitrary: pm)
  case (Suc k)
  have "room ((n + k) + 1) pm" using Suc.prems(2) by simp
  from need_pages_room [OF Suc.prems(1) this] Suc.IH show ?case by fastforce
qed simp

lemma setup_room:
  assumes "pmm_inv pm" "room (n + 42) pm"
  shows "\<exists>s1 pm1 s2 pm2. setup_rx R s pm = Some (s1, pm1) \<and> setup_tx R s1 pm1 = Some (s2, pm2) \<and> pmm_inv pm2 \<and> room n pm2"
proof -
  have r: "room (n + 8 + 1 + 32 + 1) pm" using assms(2) by (simp add: add.commute)
  from need_pages_room [OF assms(1) r zero_less_one] obtain a1 pm1 where 1: "need_pages 1 pm = Some (a1, pm1)" "pmm_inv pm1" "room (n + 8 + 1 + 32) pm1" by blast
  from alloc_rx_bufs_room [OF 1(2,3)] obtain as pm2 where 2: "alloc_rx_bufs 32 pm1 = Some (as, pm2)" "pmm_inv pm2" "room (n + 8 + 1) pm2" by blast
  from need_pages_room [OF 2(2,3) zero_less_one] obtain a3 pm3 where 3: "need_pages 1 pm2 = Some (a3, pm3)" "pmm_inv pm3" "room (n + 8) pm3" by blast
  from need_pages_room [OF 3(2,3)] obtain a4 pm4 where 4: "need_pages 8 pm3 = Some (a4, pm4)" "pmm_inv pm4" "room n pm4" by auto
  have div: "16 div 2 = (8 :: nat)" by simp
  show ?thesis using 1(1) 2(1) 3(1) 4 by (simp add: setup_rx_def setup_tx_def RX_DESC_COUNT_def TX_DESC_COUNT_def)
qed

lemma read_mac_length: "length (fst (read_mac R c)) = 6"
  by (simp add: read_mac_def eeprom_mac_def Let_def split: prod.splits option.splits)

lemma mac_line:
  assumes "512 \<le> length junk" "length m = 6"
  shows "\<exists>u. kprintf junk (bytes ''e1000: up, MAC %02x:%02x:%02x:%02x:%02x:%02x'' @ [10]) (map (\<lambda>b. Num (ucast b)) m) t = Some u"
proof -
  obtain m0 m1 m2 m3 m4 m5 where m: "m = [m0, m1, m2, m3, m4, m5]"
    using assms(2) by (auto simp: eval_nat_numeral length_Suc_conv)
  have "format_text (bytes ''e1000: up, MAC %02x:%02x:%02x:%02x:%02x:%02x'' @ [10]) (map (\<lambda>b. Num (ucast b)) m) \<noteq> None"
    unfolding m by (simp add: directive_def convert_text_def Let_def)
  then show ?thesis using vsnprintf_lemma [OF assms(1)] by (auto simp: kprintf_def)
qed

lemma plain_line: "512 \<le> length junk \<Longrightarrow> 37 \<notin> set (bytes m) \<Longrightarrow> \<exists>u. kprintf junk (bytes m @ [10]) [] t = Some u"
proof -
  assume a: "512 \<le> length junk" "37 \<notin> set (bytes m)"
  have "format_text x [] = Some x" if "37 \<notin> set x" for x using that by (induction x) simp_all
  then have "format_text (bytes m @ [10]) [] \<noteq> None" using a(2) by simp
  then show ?thesis using vsnprintf_lemma [OF a(1)] by (auto simp: kprintf_def)
qed

lemma bind_not_None: "x \<noteq> None \<Longrightarrow> (\<And>a. x = Some a \<Longrightarrow> f a \<noteq> None) \<Longrightarrow> x \<bind> f \<noteq> None"
  by (cases x) simp_all

text \<open>The set-up of the card does not fault when there is no card, or memory for its tables, rings and buffers.\<close>

lemma e1000_init_total:
  assumes j: "512 \<le> length junk" and p: "pmm_inv pm"
    and m: "fst (pci_find P 0x8086 0x100E d) = None \<or> room 138 pm"
  shows "\<exists>found s' pm' d' t'. e1000_init P R junk h pml4 s pm d t = Some (found, s', pm', d', t')"
proof (cases "pci_find P 0x8086 0x100E d")
  case (Pair dev d1)
  obtain u where u: "kprintf junk (bytes ''e1000: not found on PCI bus'' @ [10]) [] t = Some u"
    using plain_line [OF j, of "''e1000: not found on PCI bus''"] by auto
  obtain v where v: "kprintf junk (bytes ''e1000: unsupported BAR0'' @ [10]) [] t = Some v"
    using plain_line [OF j, of "''e1000: unsupported BAR0''"] by auto
  show ?thesis
  proof (cases dev)
    case None
    with Pair u have "e1000_init P R junk h pml4 s pm d t = Some (False, s, pm, d1, u)" by (simp add: e1000_init_def)
    then show ?thesis by blast
  next
    case (Some dv)
    obtain bar0 d2 where b: "pci_bar0 P dv (pci_enable_bus_master P dv d1) = (bar0, d2)" by (metis surj_pair)
    have "room (42 + 96) pm" using m Some Pair by simp
    from map_window_room [OF p this] obtain pm1 where w: "map_window h pml4 bar0 pm = Some pm1" "pmm_inv pm1" "room 42 pm1" by blast
    have "room (0 + 42) pm1" using w(3) by simp
    from setup_room [OF w(2) this] have st: "\<exists>s1 pm2 s2 pm3. setup_rx R x pm1 = Some (s1, pm2) \<and> setup_tx R s1 pm2 = Some (s2, pm3)" for x
      by blast
    have rx: "setup_rx R x pm1 \<noteq> None" for x using st [of x] by auto
    have tx: "setup_rx R x pm1 = Some (s1, pm2) \<Longrightarrow> setup_tx R s1 pm2 \<noteq> None" for x s1 pm2 using st [of x] by auto
    have up: "kprintf junk (bytes ''e1000: up, MAC %02x:%02x:%02x:%02x:%02x:%02x'' @ [10]) (map (\<lambda>b. Num (ucast b)) (fst (read_mac R c))) t \<noteq> None" for c
      using mac_line [OF j read_mac_length, of R c t] by blast
    have "e1000_init P R junk h pml4 s pm d t \<noteq> None"
    proof (cases "bar0 = 0")
      case True
      then show ?thesis unfolding e1000_init_def Pair Some prod.case option.case Let_def b using v by simp
    next
      case False
      then show ?thesis
        unfolding e1000_init_def case_prod_unfold Let_def Pair Some fst_conv snd_conv option.case b w(1) bind.bind_lunit if_not_P [OF False]
        by (intro bind_not_None rx up) (auto dest: tx)
    qed
    then show ?thesis by (metis not_None_eq prod_cases5)
  qed
qed

section \<open>Property\<close>

text \<open>
  C14: The two rings are queues: in every interleaving of the driver's calls with the card's steps from the state that
  \<open>e1000\_init\<close> leaves, the frames \<open>e1000\_recv\<close> returns are the frames the card accepted, in order, each once and
  cut to the caller's buffer, the rest still waiting unread in at most 31 descriptors; and what the card puts on the
  wire are the frames \<open>e1000\_send\<close> took, in order, byte for byte, the rest waiting in at most 16. While fewer than
  sixteen frames wait every frame of a legal size is taken; with sixteen the ring has stalled: the card sends nothing
  and every send is refused, so that this state of the transmit side is never left.
\<close>

theorem e1000_rings_fifo:
  assumes "ring_card R V" "rx_inv V s 0" "tx_inv V s 0" "0 < cap" "e1000_path R V cap s acc got que out t"
  shows "\<exists>n m. n \<le> 31 \<and> m \<le> 16 \<and> map (take cap) acc = got @ map (take cap) (waiting t n) \<and> que = out @ unsent V t m \<and>
    (m < 16 \<longrightarrow> (\<forall>frame. length frame \<le> 1518 \<longrightarrow> (\<exists>t'. e1000_send R (\<lambda>s. s) frame t = Some (int (length frame), t')))) \<and>
    (m = 16 \<longrightarrow> (\<forall>frame u. \<not> card_sends V frame t u) \<and> (\<forall>frame. e1000_send R (\<lambda>s. s) frame t = Some (- 1, t)))"
proof -
  from rings_fifo_lemma [OF assms(5,1,4,2,3)] obtain n m where r: "rx_inv V t n" "tx_inv V t m"
    "map (take cap) acc = got @ map (take cap) (waiting t n)" "que = out @ unsent V t m" by blast
  have "n \<le> 31" "m \<le> 16" using r(1,2) by (simp_all add: rx_inv_def tx_inv_def e1000_sizes)
  moreover have "m = 16 \<longrightarrow> (\<forall>frame u. \<not> card_sends V frame t u) \<and> (\<forall>frame. e1000_send R (\<lambda>s. s) frame t = Some (- 1, t))"
    using full_ring_stalls [OF r(1)] r(2) by blast
  ultimately show ?thesis using r(3,4) send_accepts [OF r(1,2)] by blast
qed

text \<open>A card that is its register file, and the state after initialisation.\<close>

definition file_regs :: "(u32 \<Rightarrow> u32) card_regs" where
  "file_regs = \<lparr>rd = (\<lambda>r c. (c r, c)), wr = (\<lambda>r v c. c(r := v))\<rparr>"

definition file_view :: "(u32 \<Rightarrow> u32) card_view" where
  "file_view = \<lparr>v_rdh = (\<lambda>c. unat (c REG_RDH)), v_rdt = (\<lambda>c. unat (c REG_RDT)), v_tdh = (\<lambda>c. unat (c REG_TDH)), v_tdt = (\<lambda>c. unat (c REG_TDT))\<rparr>"

definition sample_nic :: "(u32 \<Rightarrow> u32) e1000" where
  "sample_nic = \<lparr>card = (\<lambda>r. if r = REG_RDT then 31 else 0), hhdm = 0,
     rx_ring = replicate 32 \<lparr>rx_addr = 0, rx_length = 0, rx_checksum = 0, rx_status = 0, rx_errors = 0, rx_special = 0\<rparr>,
     tx_ring = replicate 16 \<lparr>tx_addr = 0, tx_length = 0, tx_cso = 0, tx_cmd = 0, tx_status = 1, tx_css = 0, tx_special = 0\<rparr>,
     rx_ring_phys = 0, tx_ring_phys = 0, rx_bufs = replicate 32 (replicate 4096 0), rx_bufs_phys = replicate 32 0,
     tx_buf = replicate 32768 0, tx_buf_phys = 0, rx_tail = 0, tx_tail = 0, mac = replicate 6 0, up = True\<rparr>"

lemma sample_nic_ok: "ring_card file_regs file_view" "rx_inv file_view sample_nic 0" "tx_inv file_view sample_nic 0"
  by (simp_all add: ring_card_def file_regs_def file_view_def register_numbers rx_inv_def tx_inv_def sample_nic_def e1000_sizes)

text \<open>One frame comes in and is read; seventeen sends put sixteen one-byte frames in the ring.\<close>

primrec sends :: "nat \<Rightarrow> (u32 \<Rightarrow> u32) e1000 \<Rightarrow> (u32 \<Rightarrow> u32) e1000" where
  "sends 0 s = s"
| "sends (Suc n) s = (case e1000_send file_regs (\<lambda>s. s) [of_nat n] (sends n s) of None \<Rightarrow> s | Some (k, t) \<Rightarrow> t)"

lemma sends_path:
  assumes "e1000_path file_regs file_view 1600 sample_nic acc got [] [] s" "rx_inv file_view s j" "tx_inv file_view s 0" "n \<le> 16"
  shows "e1000_path file_regs file_view 1600 sample_nic acc got (map (\<lambda>i. [of_nat i]) [0..<n]) [] (sends n s) \<and>
    rx_inv file_view (sends n s) j \<and> tx_inv file_view (sends n s) n"
  using assms(4)
proof (induction n)
  case (Suc n)
  then have p: "e1000_path file_regs file_view 1600 sample_nic acc got (map (\<lambda>i. [of_nat i]) [0..<n]) [] (sends n s)"
    and i: "rx_inv file_view (sends n s) j" "tx_inv file_view (sends n s) n" and n: "n < 16" by simp_all
  obtain t where t: "e1000_send file_regs (\<lambda>s. s) [of_nat n] (sends n s) = Some (1, t)"
    using send_accepts [OF i n, of "[of_nat n]" file_regs] by auto
  from path_send [OF p t] send_lemma [OF i sample_nic_ok(1) n t] t show ?case by simp
qed (use assms in simp)

theorem e1000_rings_fifo_witness:
  "\<exists>t que. e1000_path file_regs file_view 1600 sample_nic [[1, 2, 3]] [[1, 2, 3]] que [] t \<and> length que = 16 \<and>
     e1000_send file_regs (\<lambda>s. s) [99] t = Some (- 1, t) \<and> que = unsent file_view t 16"
proof -
  define c where "c = (card sample_nic)(REG_RDH := 1)"
  define rest where "rest = replicate 4093 (0 :: u8)"
  define desc where "desc = \<lparr>rx_addr = 0, rx_length = 3, rx_checksum = 0, rx_status = 1, rx_errors = 0, rx_special = 0\<rparr>"
  define s1 where "s1 = sample_nic\<lparr>card := c, rx_ring := (rx_ring sample_nic)[0 := desc], rx_bufs := (rx_bufs sample_nic)[0 := [1, 2, 3] @ rest]\<rparr>"
  have h0: "v_rdh file_view (card sample_nic) = 0" by (simp add: file_view_def sample_nic_def register_numbers)
  have "card_receives file_view [1, 2, 3] sample_nic s1"
    unfolding card_receives_def h0
    by (intro conjI exI [of _ c] exI [of _ rest] exI [of _ desc])
      (simp_all add: file_view_def sample_nic_def register_numbers c_def desc_def rest_def s1_def e1000_sizes)
  with path_start have "e1000_path file_regs file_view 1600 sample_nic ([] @ [[1, 2, 3]]) [] [] [] s1" by (rule path_arrive)
  moreover obtain s2 where "e1000_recv file_regs 1600 s1 = Some ([1, 2, 3], s2)"
    by (simp add: e1000_recv_def s1_def sample_nic_def desc_def rest_def slice_at_def Let_def)
  ultimately have "e1000_path file_regs file_view 1600 sample_nic ([] @ [[1, 2, 3]]) (if [1, 2, 3 :: u8] = [] then [] else [] @ [[1, 2, 3]]) [] [] s2"
    by (rule path_recv)
  then have p: "e1000_path file_regs file_view 1600 sample_nic [[1, 2, 3]] [[1, 2, 3]] [] [] s2" by simp
  have z: "0 < (1600 :: nat)" by simp
  from rings_fifo_lemma [OF p sample_nic_ok(1) z sample_nic_ok(2,3)] obtain j m where j: "rx_inv file_view s2 j" "tx_inv file_view s2 m"
    "[] = [] @ unsent file_view s2 m" by blast
  then have "m = 0" by (simp add: unsent_def slots_def)
  then have "tx_inv file_view s2 0" using j(2) by simp
  from sends_path [OF p j(1) this order_refl] have q:
    "e1000_path file_regs file_view 1600 sample_nic [[1, 2, 3]] [[1, 2, 3]] (map (\<lambda>i. [of_nat i]) [0..<16]) [] (sends 16 s2)" by blast
  from e1000_rings_fifo [OF sample_nic_ok z q] obtain m where m: "m \<le> 16"
    "map (\<lambda>i. [of_nat i]) [0..<16] = unsent file_view (sends 16 s2) m"
    "m = 16 \<longrightarrow> (\<forall>frame. e1000_send file_regs (\<lambda>s. s) frame (sends 16 s2) = Some (- 1, sends 16 s2))" by auto
  have "length (unsent file_view (sends 16 s2) m) = 16" unfolding m(2) [symmetric] by (simp del: upt_Suc)
  then have "m = 16" by (simp add: unsent_def slots_def)
  have "length (map (\<lambda>i. [of_nat i :: u8]) [0..<16]) = 16" by (simp del: upt_Suc)
  then show ?thesis using q m(2,3) unfolding \<open>m = 16\<close> by blast
qed

end

