(* ===== verification/Ps2.thy ===== *)
theory Ps2
  imports Devices Strings
begin

text \<open>
  The PS/2 controller of \<open>ps2.c\<close> and the set-up of the keyboard (\<open>keyboard\_init\<close> of \<open>keyboard.c\<close>), over the ports
  of theory Devices. \<open>None\<close> is a wait that does not end, \<open>Halted\<close> the state in which the code has called
  \<open>hcf\<close> and stops the machine.
\<close>

section \<open>State\<close>

definition DATA_PORT :: u16 where "DATA_PORT = 0x60"
definition STATUS_REGISTER :: u16 where "STATUS_REGISTER = 0x64"
definition COMMAND_PORT :: u16 where "COMMAND_PORT = 0x64"
definition DEVICE_COMMAND_RESET :: u8 where "DEVICE_COMMAND_RESET = 0xFF"
definition DEVICE_ACK :: u8 where "DEVICE_ACK = 0xFA"
definition DEVICE_RESEND :: u8 where "DEVICE_RESEND = 0xFE"
definition DEVICE_SELF_TEST_PASSED :: u8 where "DEVICE_SELF_TEST_PASSED = 0xAA"
definition DEVICE_SELF_TEST_FAILED_1 :: u8 where "DEVICE_SELF_TEST_FAILED_1 = 0xFC"
definition DEVICE_SELF_TEST_FAILED_2 :: u8 where "DEVICE_SELF_TEST_FAILED_2 = 0xFD"
definition STATUS_OUTPUT_BUFFER_MASK :: u8 where "STATUS_OUTPUT_BUFFER_MASK = push_bit 0 1"
definition STATUS_INPUT_BUFFER_MASK :: u8 where "STATUS_INPUT_BUFFER_MASK = push_bit 1 1"
definition COMMAND_READ_CONFIG_BYTE :: u8 where "COMMAND_READ_CONFIG_BYTE = 0x20"
definition COMMAND_WRITE_CONFIG_BYTE :: u8 where "COMMAND_WRITE_CONFIG_BYTE = 0x60"
definition COMMAND_DISABLE_FIRST_PORT :: u8 where "COMMAND_DISABLE_FIRST_PORT = 0xAD"
definition COMMAND_ENABLE_FIRST_PORT :: u8 where "COMMAND_ENABLE_FIRST_PORT = 0xAE"
definition COMMAND_DISABLE_SECOND_PORT :: u8 where "COMMAND_DISABLE_SECOND_PORT = 0xA7"
definition COMMAND_ENABLE_SECOND_PORT :: u8 where "COMMAND_ENABLE_SECOND_PORT = 0xA8"
definition COMMAND_TEST_CONTROLLER :: u8 where "COMMAND_TEST_CONTROLLER = 0xAA"
definition COMMAND_TEST_FIRST_PORT :: u8 where "COMMAND_TEST_FIRST_PORT = 0xAB"
definition COMMAND_TEST_SECOND_PORT :: u8 where "COMMAND_TEST_SECOND_PORT = 0xA9"
definition COMMAND_WRITE_SECOND_PORT :: u8 where "COMMAND_WRITE_SECOND_PORT = 0xD4"
definition RESPONSE_CONTROLLER_TEST_PASSED :: u8 where "RESPONSE_CONTROLLER_TEST_PASSED = 0x55"
definition RESPONSE_PORT_TEST_PASSED :: u8 where "RESPONSE_PORT_TEST_PASSED = 0x00"
definition RESPONSE_PORT_TEST_CLOCK_LOW :: u8 where "RESPONSE_PORT_TEST_CLOCK_LOW = 0x01"
definition RESPONSE_PORT_TEST_CLOCK_HIGH :: u8 where "RESPONSE_PORT_TEST_CLOCK_HIGH = 0x02"
definition RESPONSE_PORT_TEST_DATA_LOW :: u8 where "RESPONSE_PORT_TEST_DATA_LOW = 0x03"
definition RESPONSE_PORT_TEST_DATA_HIGH :: u8 where "RESPONSE_PORT_TEST_DATA_HIGH = 0x04"
definition CONFIG_FIRST_PORT_INTERRUPT_MASK :: u8 where "CONFIG_FIRST_PORT_INTERRUPT_MASK = push_bit 0 1"
definition CONFIG_SECOND_PORT_INTERRUPT_MASK :: u8 where "CONFIG_SECOND_PORT_INTERRUPT_MASK = push_bit 1 1"
definition CONFIG_SECOND_PORT_CLOCK_MASK :: u8 where "CONFIG_SECOND_PORT_CLOCK_MASK = push_bit 5 1"
definition CONFIG_FIRST_PORT_TRANSLATION_MASK :: u8 where "CONFIG_FIRST_PORT_TRANSLATION_MASK = push_bit 6 1"
definition KEYBOARD_ENABLE_SCANNING :: u8 where "KEYBOARD_ENABLE_SCANNING = 0xF4"
definition KEYBOARD_SCAN_CODE_SET :: u8 where "KEYBOARD_SCAN_CODE_SET = 0xF0"
definition KEYBOARD_SET_SCAN_CODE_2 :: u8 where "KEYBOARD_SET_SCAN_CODE_2 = 0x02"

lemmas ps2_numbers = DATA_PORT_def STATUS_REGISTER_def COMMAND_PORT_def DEVICE_COMMAND_RESET_def DEVICE_ACK_def DEVICE_RESEND_def
  DEVICE_SELF_TEST_PASSED_def DEVICE_SELF_TEST_FAILED_1_def DEVICE_SELF_TEST_FAILED_2_def STATUS_OUTPUT_BUFFER_MASK_def
  STATUS_INPUT_BUFFER_MASK_def COMMAND_READ_CONFIG_BYTE_def COMMAND_WRITE_CONFIG_BYTE_def COMMAND_DISABLE_FIRST_PORT_def
  COMMAND_ENABLE_FIRST_PORT_def COMMAND_DISABLE_SECOND_PORT_def COMMAND_ENABLE_SECOND_PORT_def COMMAND_TEST_CONTROLLER_def
  COMMAND_TEST_FIRST_PORT_def COMMAND_TEST_SECOND_PORT_def COMMAND_WRITE_SECOND_PORT_def RESPONSE_CONTROLLER_TEST_PASSED_def
  RESPONSE_PORT_TEST_PASSED_def CONFIG_FIRST_PORT_INTERRUPT_MASK_def CONFIG_SECOND_PORT_INTERRUPT_MASK_def
  CONFIG_SECOND_PORT_CLOCK_MASK_def CONFIG_FIRST_PORT_TRANSLATION_MASK_def KEYBOARD_ENABLE_SCANNING_def
  KEYBOARD_SCAN_CODE_SET_def KEYBOARD_SET_SCAN_CODE_2_def

text \<open>The devices behind the ports, the flag of the driver, and the terminal the messages go to.\<close>

record 'd ps2 =
  device :: 'd
  dual_channel :: bool
  messages :: term_state

text \<open>What the code's automatic buffers held before: 512 bytes of \<open>kprintf\<close>, 64 for a number.\<close>

record junk =
  print_buf :: "u8 list"
  number_buf :: "u8 list"

datatype 's halting = Halted 's | Running 's

fun proceed :: "('s \<Rightarrow> 's halting option) \<Rightarrow> 's halting \<Rightarrow> 's halting option" where
  "proceed f (Running s) = f s"
| "proceed f (Halted s) = Some (Halted s)"

section \<open>Bytes and messages\<close>

definition ps2_data_out :: "'d ports \<Rightarrow> u8 \<Rightarrow> 'd ps2 \<Rightarrow> 'd ps2 option" where
  "ps2_data_out P v s =
     poll_until P STATUS_REGISTER (\<lambda>st. st AND STATUS_INPUT_BUFFER_MASK = 0) (device s) \<bind> (\<lambda>d.
     Some (s\<lparr>device := outb P DATA_PORT v d\<rparr>))"

definition ps2_data_in :: "'d ports \<Rightarrow> 'd ps2 \<Rightarrow> (u8 \<times> 'd ps2) option" where
  "ps2_data_in P s =
     poll_until P STATUS_REGISTER (\<lambda>st. st AND STATUS_OUTPUT_BUFFER_MASK \<noteq> 0) (device s) \<bind> (\<lambda>d.
     case inb P DATA_PORT d of (v, d) \<Rightarrow> Some (v, s\<lparr>device := d\<rparr>))"

definition ps2_command :: "'d ports \<Rightarrow> u8 \<Rightarrow> 'd ps2 \<Rightarrow> 'd ps2" where
  "ps2_command P c s = s\<lparr>device := outb P COMMAND_PORT c (device s)\<rparr>"

definition say :: "junk \<Rightarrow> u8 list \<Rightarrow> 'd ps2 \<Rightarrow> 'd ps2 option" where
  "say j m s = kprintf (print_buf j) m [] (messages s) \<bind> (\<lambda>t. Some (s\<lparr>messages := t\<rparr>))"

definition say_line :: "junk \<Rightarrow> string \<Rightarrow> 'd ps2 \<Rightarrow> 'd ps2 option" where
  "say_line j m s = say j (bytes m @ [10]) s"

text \<open>A byte in decimal, printed as a format of its own.\<close>

definition say_byte :: "junk \<Rightarrow> u8 \<Rightarrow> 'd ps2 \<Rightarrow> 'd ps2 option" where
  "say_byte j v s = to_string (ucast v) (number_buf j) \<bind> (\<lambda>buf. say j (c_string buf) s)"

definition print_config_byte :: "'d ports \<Rightarrow> junk \<Rightarrow> 'd ps2 \<Rightarrow> 'd ps2 option" where
  "print_config_byte P j s =
     ps2_data_in P (ps2_command P COMMAND_READ_CONFIG_BYTE s) \<bind> (\<lambda>(config_byte, s).
     to_string (ucast config_byte) (number_buf j) \<bind> (\<lambda>buf.
     say j (bytes ''Config byte: '') s \<bind> say j (c_string buf)))"

definition halt :: "'d ps2 \<Rightarrow> 'd ps2 halting option" where
  "halt s = Some (Halted s)"

definition go_on :: "'d ps2 \<Rightarrow> 'd ps2 halting option" where
  "go_on s = Some (Running s)"

section \<open>Responses\<close>

definition ps2_test_device_reset_response_byte :: "'d ports \<Rightarrow> junk \<Rightarrow> u8 \<Rightarrow> 'd ps2 \<Rightarrow> 'd ps2 halting option" where
  "ps2_test_device_reset_response_byte P j response s =
     (if response = DEVICE_ACK then
        say_line j ''PS/2 device reset acknowledged'' s \<bind> ps2_data_in P \<bind> (\<lambda>(r, s).
        if r = DEVICE_SELF_TEST_PASSED then say_line j ''PS/2 device self test passed'' s \<bind> go_on
        else if r = DEVICE_SELF_TEST_FAILED_1 then say_line j ''PS/2 device self test failed: First failure code'' s \<bind> halt
        else if r = DEVICE_SELF_TEST_FAILED_2 then say_line j ''PS/2 device self test failed: Second failure code'' s \<bind> halt
        else say_line j ''PS/2 device self test failed: Unknown response byte'' s \<bind> say_byte j r \<bind> halt)
      else if response = DEVICE_RESEND then say j (bytes ''PS/2 device reset request resent'') s \<bind> halt
      else say j (bytes ''PS/2 device reset failed: Unknown response byte'') s \<bind> say_byte j response \<bind> halt)"

definition ps2_test_port_response_byte :: "junk \<Rightarrow> u8 \<Rightarrow> 'd ps2 \<Rightarrow> 'd ps2 halting option" where
  "ps2_test_port_response_byte j response s =
     (if response = RESPONSE_PORT_TEST_PASSED then say_line j ''PS/2 port test passed'' s \<bind> go_on
      else if response = RESPONSE_PORT_TEST_CLOCK_LOW then say j (bytes ''PS/2 port test failed: Clock line low'') s \<bind> halt
      else if response = RESPONSE_PORT_TEST_CLOCK_HIGH then say j (bytes ''PS/2 port test failed: Clock line high'') s \<bind> halt
      else if response = RESPONSE_PORT_TEST_DATA_LOW then say j (bytes ''PS/2 port test failed: Data line low'') s \<bind> halt
      else if response = RESPONSE_PORT_TEST_DATA_HIGH then say j (bytes ''PS/2 port test failed: Data line high'') s \<bind> halt
      else say j (bytes ''PS/2 port test failed: Unknown response byte'') s \<bind> halt)"

section \<open>Initialisation\<close>

text \<open>The steps of the one function, in its order.\<close>

partial_function (option) ps2_flush :: "'d ports \<Rightarrow> 'd \<Rightarrow> 'd option" where
  "ps2_flush P d =
     (case inb P STATUS_REGISTER d of (st, d) \<Rightarrow>
        if st AND STATUS_OUTPUT_BUFFER_MASK \<noteq> 0 then (case inb P DATA_PORT d of (v, d) \<Rightarrow> ps2_flush P d) else Some d)"

definition ps2_disable :: "'d ports \<Rightarrow> junk \<Rightarrow> 'd ps2 \<Rightarrow> 'd ps2 option" where
  "ps2_disable P j s =
     say_line j ''Disabling PS/2 devices'' s \<bind> (\<lambda>s.
     let s = ps2_command P COMMAND_DISABLE_FIRST_PORT s;
         s = ps2_command P COMMAND_DISABLE_SECOND_PORT s
     in say_line j ''Flushing PS/2 output buffer'' s \<bind> (\<lambda>s.
        ps2_flush P (device s) \<bind> (\<lambda>d. Some (s\<lparr>device := d\<rparr>))))"

definition ps2_write_config :: "'d ports \<Rightarrow> u8 \<Rightarrow> 'd ps2 \<Rightarrow> 'd ps2 option" where
  "ps2_write_config P v s = ps2_data_out P v (ps2_command P COMMAND_WRITE_CONFIG_BYTE s)"

definition ps2_configure :: "'d ports \<Rightarrow> junk \<Rightarrow> 'd ps2 \<Rightarrow> 'd ps2 option" where
  "ps2_configure P j s =
     say_line j ''Disabling PS/2 IRQs and translation'' s \<bind> (\<lambda>s.
     ps2_data_in P (ps2_command P COMMAND_READ_CONFIG_BYTE s) \<bind> (\<lambda>(config_byte, s).
     let config_byte = config_byte AND
           NOT (CONFIG_FIRST_PORT_INTERRUPT_MASK OR CONFIG_SECOND_PORT_INTERRUPT_MASK OR CONFIG_FIRST_PORT_TRANSLATION_MASK)
     in ps2_write_config P config_byte s \<bind> (\<lambda>s.
        let s = s\<lparr>dual_channel := (config_byte AND CONFIG_SECOND_PORT_CLOCK_MASK \<noteq> 0)\<rparr>
        in say_line j (if dual_channel s then ''PS/2 initially detected as dual channel'' else ''PS/2 confirmed as single channel'') s)))"

definition ps2_self_test :: "'d ports \<Rightarrow> junk \<Rightarrow> 'd ps2 \<Rightarrow> 'd ps2 halting option" where
  "ps2_self_test P j s =
     say_line j ''Initiating PS/2 controller self test'' s \<bind> (\<lambda>s.
     ps2_data_in P (ps2_command P COMMAND_TEST_CONTROLLER s) \<bind> (\<lambda>(response, s).
     if response = RESPONSE_CONTROLLER_TEST_PASSED then say_line j ''PS/2 controller self test passed'' s \<bind> go_on
     else say_line j ''PS/2 controller self test failed'' s \<bind> halt))"

definition ps2_detect_second :: "'d ports \<Rightarrow> junk \<Rightarrow> 'd ps2 \<Rightarrow> 'd ps2 option" where
  "ps2_detect_second P j s =
     (if dual_channel s then
        ps2_data_in P (ps2_command P COMMAND_READ_CONFIG_BYTE (ps2_command P COMMAND_ENABLE_SECOND_PORT s)) \<bind> (\<lambda>(config_byte, s).
        let s = s\<lparr>dual_channel := (config_byte AND CONFIG_SECOND_PORT_CLOCK_MASK = 0)\<rparr>
        in say_line j (if dual_channel s then ''PS/2 confirmed as dual channel'' else ''PS/2 confirmed as single channel'') s)
      else Some s)"

definition ps2_test_ports :: "'d ports \<Rightarrow> junk \<Rightarrow> 'd ps2 \<Rightarrow> 'd ps2 halting option" where
  "ps2_test_ports P j s =
     say_line j ''Testing PS/2 first port'' (ps2_command P COMMAND_TEST_FIRST_PORT s) \<bind> ps2_data_in P \<bind> (\<lambda>(r, s).
     ps2_test_port_response_byte j r s \<bind> proceed (\<lambda>s.
       if dual_channel s then
         say_line j ''Testing PS/2 second port'' (ps2_command P COMMAND_TEST_SECOND_PORT s) \<bind> ps2_data_in P \<bind> (\<lambda>(r, s).
         ps2_test_port_response_byte j r s)
       else say_line j ''Skipping PS/2 second port test'' s \<bind> go_on))"

definition ps2_enable :: "'d ports \<Rightarrow> junk \<Rightarrow> 'd ps2 \<Rightarrow> 'd ps2 option" where
  "ps2_enable P j s =
     say_line j ''Enabling PS/2 devices'' s \<bind> (\<lambda>s.
     let s = ps2_command P COMMAND_ENABLE_FIRST_PORT s;
         s = (if dual_channel s then ps2_command P COMMAND_ENABLE_SECOND_PORT s else s)
     in say_line j ''Enabling PS/2 IRQs'' s \<bind> (\<lambda>s.
        ps2_data_in P (ps2_command P COMMAND_READ_CONFIG_BYTE s) \<bind> (\<lambda>(config_byte, s).
        let config_byte = config_byte OR CONFIG_FIRST_PORT_INTERRUPT_MASK;
            config_byte = (if dual_channel s then config_byte OR CONFIG_SECOND_PORT_INTERRUPT_MASK else config_byte)
        in ps2_write_config P config_byte s)))"

definition ps2_reset :: "'d ports \<Rightarrow> junk \<Rightarrow> 'd ps2 \<Rightarrow> 'd ps2 halting option" where
  "ps2_reset P j s =
     say_line j ''Resetting PS/2 devices'' s \<bind> say_line j ''Resetting PS/2 devices on port 1'' \<bind>
     ps2_data_out P DEVICE_COMMAND_RESET \<bind> ps2_data_in P \<bind> (\<lambda>(r, s).
     ps2_test_device_reset_response_byte P j r s \<bind> proceed (\<lambda>s.
       if dual_channel s then
         say_line j ''Resetting PS/2 devices on port 2'' s \<bind> (\<lambda>s.
         ps2_data_out P DEVICE_COMMAND_RESET (ps2_command P COMMAND_WRITE_SECOND_PORT s) \<bind> ps2_data_in P \<bind> (\<lambda>(r, s).
         ps2_test_device_reset_response_byte P j r s \<bind> proceed (\<lambda>s.
         ps2_data_in P s \<bind> (\<lambda>(v, s). go_on s))))
       else say_line j ''Skipping PS/2 second port reset'' s \<bind> go_on))"

definition ps2_init_controller :: "'d ports \<Rightarrow> junk \<Rightarrow> 'd ps2 \<Rightarrow> 'd ps2 halting option" where
  "ps2_init_controller P j s =
     ps2_disable P j s \<bind> ps2_configure P j \<bind> ps2_self_test P j \<bind> proceed (\<lambda>s.
     ps2_detect_second P j s \<bind> ps2_test_ports P j \<bind> proceed (\<lambda>s.
     ps2_enable P j s \<bind> ps2_reset P j \<bind> proceed (\<lambda>s.
     say_line j ''PS/2 controller initialised'' s \<bind> go_on)))"

definition keyboard_init :: "'d ports \<Rightarrow> junk \<Rightarrow> 'd ps2 \<Rightarrow> 'd ps2 option" where
  "keyboard_init P j s =
     ps2_data_out P KEYBOARD_ENABLE_SCANNING s \<bind> ps2_data_in P \<bind> (\<lambda>(ack, s).
     ps2_data_out P KEYBOARD_SCAN_CODE_SET s \<bind> ps2_data_in P \<bind> (\<lambda>(ack, s).
     ps2_data_out P KEYBOARD_SET_SCAN_CODE_2 s \<bind> ps2_data_in P \<bind> (\<lambda>(ack, s).
     say_line j ''keyboard: scancode set 2 ready'' s)))"

section \<open>The controller\<close>

text \<open>
  What the documentation of the 8042 says of its two ports, as steps on an abstract controller: the bytes that wait
  for the driver, the configuration byte, where the next data byte goes, and whether there is a second port. It takes
  its time: \<open>k\_busy\<close> more reads of the status register find the input buffer full, and \<open>k\_wait\<close> more find no
  answer. The devices acknowledge every byte, and a reset also answers that the self test has passed, on the
  second port followed by the identity of a mouse.
\<close>

datatype data_goes_to = To_keyboard | To_mouse | To_config

record kbc =
  k_out :: "u8 list"
  k_conf :: u8
  k_mode :: data_goes_to
  k_second :: bool
  k_busy :: nat
  k_wait :: nat

definition kbc_command :: "u8 \<Rightarrow> kbc \<Rightarrow> kbc" where
  "kbc_command c k =
     (if c = 0x20 then k\<lparr>k_out := k_out k @ [k_conf k]\<rparr>
      else if c = 0x60 then k\<lparr>k_mode := To_config\<rparr>
      else if c = 0xAD then k\<lparr>k_conf := k_conf k OR 0x10\<rparr>
      else if c = 0xAE then k\<lparr>k_conf := k_conf k AND NOT 0x10\<rparr>
      else if c = 0xA7 \<and> k_second k then k\<lparr>k_conf := k_conf k OR 0x20\<rparr>
      else if c = 0xA8 \<and> k_second k then k\<lparr>k_conf := k_conf k AND NOT 0x20\<rparr>
      else if c = 0xAA then k\<lparr>k_out := k_out k @ [0x55]\<rparr>
      else if c = 0xAB then k\<lparr>k_out := k_out k @ [0]\<rparr>
      else if c = 0xA9 \<and> k_second k then k\<lparr>k_out := k_out k @ [0]\<rparr>
      else if c = 0xD4 \<and> k_second k then k\<lparr>k_mode := To_mouse\<rparr>
      else k)"

definition kbc_data :: "u8 \<Rightarrow> kbc \<Rightarrow> kbc" where
  "kbc_data v k =
     (case k_mode k of
        To_config \<Rightarrow> k\<lparr>k_conf := v, k_mode := To_keyboard\<rparr>
      | To_keyboard \<Rightarrow> k\<lparr>k_out := k_out k @ (if v = 0xFF then [0xFA, 0xAA] else [0xFA])\<rparr>
      | To_mouse \<Rightarrow> k\<lparr>k_out := k_out k @ (if v = 0xFF then [0xFA, 0xAA, 0x00] else [0xFA]), k_mode := To_keyboard\<rparr>)"

text \<open>
  A byte is taken in \<open>n\<close> polls, and what it makes the controller answer is there no earlier; an answer
  that waits already keeps its time.
\<close>

definition takes_in :: "kbc \<Rightarrow> kbc \<Rightarrow> kbc \<Rightarrow> bool" where
  "takes_in k k1 k' \<longleftrightarrow> (\<exists>n m. n \<le> m \<and> k' = k1\<lparr>k_busy := n, k_wait := (if k_out k = [] then m else k_wait k)\<rparr>)"

text \<open>
  The laws. Nothing is said of a write while the input buffer is full, nor of a read from the data port
  before the status shows a byte.
\<close>

definition i8042 :: "'d ports \<Rightarrow> ('d \<Rightarrow> kbc) \<Rightarrow> bool" where
  "i8042 P V \<longleftrightarrow> (\<forall>d.
     V (snd (inb P 0x64 d)) = (V d)\<lparr>k_busy := k_busy (V d) - 1, k_wait := k_wait (V d) - 1\<rparr> \<and>
     (fst (inb P 0x64 d) AND 1 \<noteq> 0 \<longleftrightarrow> k_out (V d) \<noteq> [] \<and> k_wait (V d) = 0) \<and>
     (fst (inb P 0x64 d) AND 2 = 0 \<longleftrightarrow> k_busy (V d) = 0) \<and>
     (\<forall>x xs. k_out (V d) = x # xs \<and> k_wait (V d) = 0 \<longrightarrow>
        fst (inb P 0x60 d) = x \<and> (\<exists>m. V (snd (inb P 0x60 d)) = (V d)\<lparr>k_out := xs, k_wait := m\<rparr>)) \<and>
     (\<forall>c. k_busy (V d) = 0 \<longrightarrow> takes_in (V d) (kbc_command c (V d)) (V (outb P 0x64 c d)) \<and>
        takes_in (V d) (kbc_data c (V d)) (V (outb P 0x60 c d))))"

text \<open>
  The code writes commands without looking at the input buffer. It relies on a controller that has taken in
  the byte before: the enabling and disabling of ports and the configuration byte at once, as no answer
  tells when they are done.
\<close>

definition prompt :: "'d ports \<Rightarrow> ('d \<Rightarrow> kbc) \<Rightarrow> bool" where
  "prompt P V \<longleftrightarrow> (\<forall>d. k_busy (V d) = 0 \<longrightarrow>
     (\<forall>c\<in>{0xAD, 0xAE, 0xA7, 0xA8}. k_busy (V (outb P 0x64 c d)) = 0) \<and>
     (\<forall>v. k_mode (V d) = To_config \<longrightarrow> k_busy (V (outb P 0x60 v d)) = 0))"

text \<open>
  The devices when the input buffer is empty, and when an answer is there; after a byte has been taken, and
  after one has been sent.
\<close>

definition settled :: "'d ports \<Rightarrow> 'd \<Rightarrow> 'd" where
  "settled P d = the (poll_until P 0x64 (\<lambda>st. st AND 2 = 0) d)"

definition answered :: "'d ports \<Rightarrow> 'd \<Rightarrow> 'd" where
  "answered P d = the (poll_until P 0x64 (\<lambda>st. st AND 1 \<noteq> 0) d)"

definition taken :: "'d ports \<Rightarrow> 'd \<Rightarrow> 'd" where
  "taken P d = snd (inb P 0x60 (answered P d))"

definition given :: "'d ports \<Rightarrow> u8 \<Rightarrow> 'd \<Rightarrow> 'd" where
  "given P v d = outb P 0x60 v (settled P d)"

definition said :: "junk \<Rightarrow> string \<Rightarrow> term_state \<Rightarrow> term_state" where
  "said j m t = the (kprintf (print_buf j) (bytes m @ [10]) [] t)"

lemma plain_format: "37 \<notin> set m \<Longrightarrow> format_text m args = Some m"
  by (induction m) simp_all

lemma say_line_ok:
  assumes "512 \<le> length (print_buf j)" "37 \<notin> set (bytes m)"
  shows "say_line j m s = Some (s\<lparr>messages := said j m (messages s)\<rparr>)"
proof -
  have "\<exists>t. kprintf (print_buf j) (bytes m @ [10]) [] (messages s) = Some t"
    using assms(2) vsnprintf_lemma [OF assms(1)] plain_format [of "bytes m @ [10]"] by (simp add: kprintf_def)
  then show ?thesis by (auto simp: say_line_def say_def said_def)
qed

lemma poll_step: "poll_until P port ok d = (if ok (fst (inb P port d)) then Some (snd (inb P port d)) else poll_until P port ok (snd (inb P port d)))"
  by (subst poll_until.simps) (simp add: case_prod_unfold)

lemma i8042_status:
  assumes "i8042 P V"
  shows "V (snd (inb P 0x64 d)) = (V d)\<lparr>k_busy := k_busy (V d) - 1, k_wait := k_wait (V d) - 1\<rparr>"
    "fst (inb P 0x64 d) AND 1 = 0 \<longleftrightarrow> k_out (V d) = [] \<or> k_wait (V d) \<noteq> 0"
    "fst (inb P 0x64 d) AND 2 = 0 \<longleftrightarrow> k_busy (V d) = 0"
proof -
  note a = spec [OF assms [unfolded i8042_def], of d]
  show "V (snd (inb P 0x64 d)) = (V d)\<lparr>k_busy := k_busy (V d) - 1, k_wait := k_wait (V d) - 1\<rparr>" by (rule a [THEN conjunct1])
  have "fst (inb P 0x64 d) AND 1 \<noteq> 0 \<longleftrightarrow> k_out (V d) \<noteq> [] \<and> k_wait (V d) = 0" by (rule a [THEN conjunct2, THEN conjunct1])
  then show "fst (inb P 0x64 d) AND 1 = 0 \<longleftrightarrow> k_out (V d) = [] \<or> k_wait (V d) \<noteq> 0" by argo
  show "fst (inb P 0x64 d) AND 2 = 0 \<longleftrightarrow> k_busy (V d) = 0" by (rule a [THEN conjunct2, THEN conjunct2, THEN conjunct1])
qed

lemma i8042_data:
  assumes "i8042 P V" "k_out (V d) = x # xs" "k_wait (V d) = 0"
  shows "fst (inb P 0x60 d) = x" "\<exists>m. V (snd (inb P 0x60 d)) = (V d)\<lparr>k_out := xs, k_wait := m\<rparr>"
  using assms unfolding i8042_def by blast+

text \<open>The waits end.\<close>

lemma settles:
  assumes "i8042 P V"
  shows "\<exists>e. poll_until P 0x64 (\<lambda>st. st AND 2 = 0) d = Some e \<and> (\<exists>m. V e = (V d)\<lparr>k_busy := 0, k_wait := m\<rparr>)"
proof (induction "k_busy (V d)" arbitrary: d)
  case 0
  have b: "k_busy (V d) = 0" by (rule 0 [symmetric])
  then have "fst (inb P 0x64 d) AND 2 = 0" using i8042_status(3) [OF assms] by blast
  moreover have "V (snd (inb P 0x64 d)) = (V d)\<lparr>k_busy := 0, k_wait := k_wait (V d) - 1\<rparr>"
    using i8042_status(1) [OF assms, of d] unfolding b by simp
  moreover have "poll_until P 0x64 (\<lambda>st. st AND 2 = 0) d = Some (snd (inb P 0x64 d))"
    using calculation(1) by (subst poll_step) (simp only: if_True simp_thms)
  ultimately show ?case by blast
next
  case (Suc n)
  let ?d = "snd (inb P 0x64 d)"
  note v = i8042_status(1) [OF assms, of d]
  then have "k_busy (V ?d) = n" using Suc(2) by simp
  from Suc(1) [OF this [symmetric]] obtain e m where e: "poll_until P 0x64 (\<lambda>st. st AND 2 = 0) ?d = Some e"
    "V e = (V ?d)\<lparr>k_busy := 0, k_wait := m\<rparr>" by blast
  have "fst (inb P 0x64 d) AND 2 \<noteq> 0" using Suc(2) by (simp add: i8042_status [OF assms])
  then show ?case using e v by (subst poll_step) auto
qed

lemma answers:
  assumes "i8042 P V" "k_out (V d) \<noteq> []" "k_busy (V d) \<le> k_wait (V d)"
  shows "\<exists>e. poll_until P 0x64 (\<lambda>st. st AND 1 \<noteq> 0) d = Some e \<and> V e = (V d)\<lparr>k_busy := 0, k_wait := 0\<rparr>"
  using assms(2,3)
proof (induction "k_wait (V d)" arbitrary: d)
  case 0
  have "V (snd (inb P 0x64 d)) = (V d)\<lparr>k_busy := 0, k_wait := 0\<rparr>" "fst (inb P 0x64 d) AND 1 \<noteq> 0"
    using i8042_status [OF assms(1), of d] 0 by simp_all
  then show ?case by (subst poll_step) simp
next
  case (Suc n)
  let ?d = "snd (inb P 0x64 d)"
  note v = i8042_status(1) [OF assms(1), of d]
  then have "k_wait (V ?d) = n" "k_out (V ?d) \<noteq> []" "k_busy (V ?d) \<le> k_wait (V ?d)" using Suc(2-4) by simp_all
  from Suc(1) [OF this(1) [symmetric] this(2,3)] obtain e where e: "poll_until P 0x64 (\<lambda>st. st AND 1 \<noteq> 0) ?d = Some e"
    "V e = (V ?d)\<lparr>k_busy := 0, k_wait := 0\<rparr>" by blast
  have "\<not> fst (inb P 0x64 d) AND 1 \<noteq> 0" using Suc(2) by (simp add: i8042_status [OF assms(1)])
  then show ?case using e v by (subst poll_step) auto
qed

text \<open>What each access leaves, field by field.\<close>

lemma settled_fields:
  assumes "i8042 P V"
  shows "k_out (V (settled P d)) = k_out (V d)" "k_conf (V (settled P d)) = k_conf (V d)" "k_mode (V (settled P d)) = k_mode (V d)"
    "k_second (V (settled P d)) = k_second (V d)" "k_busy (V (settled P d)) = 0"
  using settles [OF assms, of d] by (auto simp: settled_def)

lemma taken_fields:
  assumes "i8042 P V" "k_out (V d) = x # xs" "k_busy (V d) \<le> k_wait (V d)"
  shows "k_out (V (taken P d)) = xs" "k_conf (V (taken P d)) = k_conf (V d)" "k_mode (V (taken P d)) = k_mode (V d)"
    "k_second (V (taken P d)) = k_second (V d)" "k_busy (V (taken P d)) = 0" "fst (inb P 0x60 (answered P d)) = x"
proof -
  have e: "V (answered P d) = (V d)\<lparr>k_busy := 0, k_wait := 0\<rparr>"
    using answers [OF assms(1) _ assms(3)] assms(2) by (auto simp: answered_def)
  then have "k_out (V (answered P d)) = x # xs \<and> k_wait (V (answered P d)) = 0" using assms(2) by simp
  then obtain m where "fst (inb P 0x60 (answered P d)) = x" "V (taken P d) = (V (answered P d))\<lparr>k_out := xs, k_wait := m\<rparr>"
    using i8042_data [OF assms(1)] unfolding taken_def by blast
  then show "k_out (V (taken P d)) = xs" "k_conf (V (taken P d)) = k_conf (V d)" "k_mode (V (taken P d)) = k_mode (V d)"
    "k_second (V (taken P d)) = k_second (V d)" "k_busy (V (taken P d)) = 0" "fst (inb P 0x60 (answered P d)) = x"
    using e by simp_all
qed

lemma takes_in_fields:
  assumes "takes_in k k1 k'"
  shows "k_out k' = k_out k1" "k_conf k' = k_conf k1" "k_mode k' = k_mode k1" "k_second k' = k_second k1"
    "k_out k = [] \<Longrightarrow> k_busy k' \<le> k_wait k'" "k_out k \<noteq> [] \<Longrightarrow> k_wait k' = k_wait k"
  using assms by (auto simp: takes_in_def)

lemma written_fields:
  assumes "i8042 P V" "k_busy (V d) = 0"
  shows "k_out (V (outb P 0x64 c d)) = k_out (kbc_command c (V d))" "k_conf (V (outb P 0x64 c d)) = k_conf (kbc_command c (V d))"
    "k_mode (V (outb P 0x64 c d)) = k_mode (kbc_command c (V d))" "k_second (V (outb P 0x64 c d)) = k_second (kbc_command c (V d))"
    "k_out (V d) = [] \<Longrightarrow> k_busy (V (outb P 0x64 c d)) \<le> k_wait (V (outb P 0x64 c d))"
    "k_out (V d) \<noteq> [] \<Longrightarrow> k_wait (V (outb P 0x64 c d)) = k_wait (V d)"
    "k_out (V (outb P 0x60 c d)) = k_out (kbc_data c (V d))" "k_conf (V (outb P 0x60 c d)) = k_conf (kbc_data c (V d))"
    "k_mode (V (outb P 0x60 c d)) = k_mode (kbc_data c (V d))" "k_second (V (outb P 0x60 c d)) = k_second (kbc_data c (V d))"
    "k_out (V d) = [] \<Longrightarrow> k_busy (V (outb P 0x60 c d)) \<le> k_wait (V (outb P 0x60 c d))"
proof -
  have t: "takes_in (V d) (kbc_command c (V d)) (V (outb P 0x64 c d))" "takes_in (V d) (kbc_data c (V d)) (V (outb P 0x60 c d))"
    using assms unfolding i8042_def by blast+
  show "k_out (V (outb P 0x64 c d)) = k_out (kbc_command c (V d))" "k_conf (V (outb P 0x64 c d)) = k_conf (kbc_command c (V d))"
    "k_mode (V (outb P 0x64 c d)) = k_mode (kbc_command c (V d))" "k_second (V (outb P 0x64 c d)) = k_second (kbc_command c (V d))"
    "k_out (V d) = [] \<Longrightarrow> k_busy (V (outb P 0x64 c d)) \<le> k_wait (V (outb P 0x64 c d))"
    "k_out (V d) \<noteq> [] \<Longrightarrow> k_wait (V (outb P 0x64 c d)) = k_wait (V d)"
    using takes_in_fields [OF t(1)] by simp_all
  show "k_out (V (outb P 0x60 c d)) = k_out (kbc_data c (V d))" "k_conf (V (outb P 0x60 c d)) = k_conf (kbc_data c (V d))"
    "k_mode (V (outb P 0x60 c d)) = k_mode (kbc_data c (V d))" "k_second (V (outb P 0x60 c d)) = k_second (kbc_data c (V d))"
    "k_out (V d) = [] \<Longrightarrow> k_busy (V (outb P 0x60 c d)) \<le> k_wait (V (outb P 0x60 c d))"
    using takes_in_fields [OF t(2)] by simp_all
qed

lemma given_fields:
  assumes "i8042 P V"
  shows "k_out (V (given P v d)) = k_out (kbc_data v (V (settled P d)))" "k_conf (V (given P v d)) = k_conf (kbc_data v (V (settled P d)))"
    "k_mode (V (given P v d)) = k_mode (kbc_data v (V (settled P d)))" "k_second (V (given P v d)) = k_second (kbc_data v (V (settled P d)))"
    "k_out (V d) = [] \<Longrightarrow> k_busy (V (given P v d)) \<le> k_wait (V (given P v d))"
  using written_fields(7-11) [OF assms settled_fields(5) [OF assms, of d], of v] settled_fields(1) [OF assms, of d] by (simp_all add: given_def)

lemma prompt_fields:
  assumes "prompt P V"
  shows "k_busy (V d) = 0 \<Longrightarrow> k_busy (V (outb P 0x64 0xAD d)) = 0" "k_busy (V d) = 0 \<Longrightarrow> k_busy (V (outb P 0x64 0xAE d)) = 0"
    "k_busy (V d) = 0 \<Longrightarrow> k_busy (V (outb P 0x64 0xA7 d)) = 0" "k_busy (V d) = 0 \<Longrightarrow> k_busy (V (outb P 0x64 0xA8 d)) = 0"
    "i8042 P V \<Longrightarrow> k_mode (V d) = To_config \<Longrightarrow> k_busy (V (given P v d)) = 0"
  using assms settled_fields [of P V d] by (simp_all add: prompt_def given_def)

lemma data_out_ok:
  assumes "i8042 P V"
  shows "ps2_data_out P v s = Some (s\<lparr>device := given P v (device s)\<rparr>)"
  using settles [OF assms, of "device s"] by (auto simp: ps2_data_out_def given_def settled_def ps2_numbers)

lemma data_in_ok:
  assumes "i8042 P V" "k_out (V (device s)) = x # xs" "k_busy (V (device s)) \<le> k_wait (V (device s))"
  shows "ps2_data_in P s = Some (x, s\<lparr>device := taken P (device s)\<rparr>)"
proof -
  obtain e where "poll_until P 0x64 (\<lambda>st. st AND 1 \<noteq> 0) (device s) = Some e"
    using answers [OF assms(1) _ assms(3)] assms(2) by auto
  then show ?thesis using taken_fields(6) [OF assms]
    by (simp add: ps2_data_in_def taken_def answered_def ps2_numbers case_prod_unfold)
qed

definition emptied :: "kbc \<Rightarrow> kbc \<Rightarrow> bool" where
  "emptied k' k \<longleftrightarrow> k_out k' = [] \<and> k_busy k' = 0 \<and> k_conf k' = k_conf k \<and> k_mode k' = k_mode k \<and> k_second k' = k_second k"

text \<open>The output buffer holds one byte; with the ports off no other follows it.\<close>

lemma flush_ok:
  assumes dev: "i8042 P V" and o: "length (k_out (V d)) \<le> 1" "k_out (V d) \<noteq> [] \<Longrightarrow> k_wait (V d) = 0" "k_busy (V d) = 0"
  shows "\<exists>e. ps2_flush P d = Some e \<and> emptied (V e) (V d)"
proof -
  have empty: "\<exists>e. ps2_flush P d = Some e \<and> V e = (V d)\<lparr>k_busy := k_busy (V d) - 1, k_wait := k_wait (V d) - 1\<rparr>"
    if "k_out (V d) = []" for d
  proof -
    have "fst (inb P 0x64 d) AND 1 = 0" using that by (simp add: i8042_status [OF dev])
    then show ?thesis by (subst ps2_flush.simps) (simp add: ps2_numbers case_prod_unfold i8042_status [OF dev])
  qed
  show ?thesis
  proof (cases "k_out (V d)")
    case Nil
    from empty [OF this] Nil o(3) show ?thesis by (auto simp: emptied_def)
  next
    case (Cons x xs)
    let ?d = "snd (inb P 0x64 d)"
    note w = o(2) [unfolded Cons, simplified]
    have v: "V ?d = V d" using w o(3) by (simp add: i8042_status [OF dev])
    obtain m where t: "V (snd (inb P 0x60 ?d)) = (V d)\<lparr>k_out := [], k_wait := m\<rparr>"
      using i8042_data(2) [OF dev, of ?d x xs] Cons o(1) w v by auto
    then have "k_out (V (snd (inb P 0x60 ?d))) = []" by simp
    from empty [OF this] obtain e where "ps2_flush P (snd (inb P 0x60 ?d)) = Some e" "emptied (V e) (V d)"
      using t o(3) by (auto simp: emptied_def)
    moreover have "fst (inb P 0x64 d) AND 1 \<noteq> 0" using Cons w by (simp add: i8042_status [OF dev])
    ultimately show ?thesis by (subst ps2_flush.simps) (auto simp: ps2_numbers case_prod_unfold)
  qed
qed

text \<open>The steps of the initialisation on a controller that waits for a command.\<close>

lemmas ps2_steps = say_line_ok data_out_ok data_in_ok settled_fields taken_fields written_fields given_fields prompt_fields
  ps2_command_def ps2_write_config_def go_on_def kbc_command_def kbc_data_def ps2_numbers Let_def

definition ready :: "kbc \<Rightarrow> u8 \<Rightarrow> bool \<Rightarrow> bool" where
  [inv_simps]: "ready k c two \<longleftrightarrow> k_out k = [] \<and> k_conf k = c \<and> k_mode k = To_keyboard \<and> k_second k = two \<and> k_busy k = 0"

lemma disable_ok:
  assumes "i8042 P V" "prompt P V" "512 \<le> length (print_buf j)" "k_mode (V (device s)) = To_keyboard"
    "k_busy (V (device s)) = 0" "length (k_out (V (device s))) \<le> 1" "k_out (V (device s)) \<noteq> [] \<Longrightarrow> k_wait (V (device s)) = 0"
  shows "\<exists>t. ps2_disable P j s = Some t \<and>
    ready (V (device t)) (k_conf (V (device s)) OR (if k_second (V (device s)) then 0x30 else 0x10)) (k_second (V (device s)))"
proof -
  let ?d = "outb P 0x64 0xA7 (outb P 0x64 0xAD (device s))"
  have d: "k_out (V ?d) = k_out (V (device s))" "k_mode (V ?d) = To_keyboard" "k_second (V ?d) = k_second (V (device s))"
    "k_conf (V ?d) = k_conf (V (device s)) OR (if k_second (V (device s)) then 0x30 else 0x10)" "k_busy (V ?d) = 0"
    using assms(1-5) by (simp_all add: ps2_steps or.assoc)
  have "k_out (V ?d) \<noteq> [] \<Longrightarrow> k_wait (V ?d) = 0" using assms(1,2,5,7) d(1) by (simp add: ps2_steps)
  from flush_ok [OF assms(1) _ this] d assms(6) obtain e where "ps2_flush P ?d = Some e" "emptied (V e) (V ?d)" by auto
  then show ?thesis using assms(3) d by (simp add: ps2_disable_def say_line_ok ps2_command_def ps2_numbers Let_def ready_def emptied_def)
qed

lemma configure_ok:
  assumes "i8042 P V" "prompt P V" "512 \<le> length (print_buf j)" "ready (V (device s)) c two"
  shows "\<exists>t. ps2_configure P j s = Some t \<and> ready (V (device t)) (c AND NOT 0x43) two \<and>
    dual_channel t = ((c AND NOT 0x43) AND 0x20 \<noteq> 0)"
  using assms by (simp add: ps2_configure_def ready_def ps2_steps)

lemma self_test_ok:
  assumes "i8042 P V" "512 \<le> length (print_buf j)" "ready (V (device s)) c two"
  shows "\<exists>t. ps2_self_test P j s = Some (Running t) \<and> ready (V (device t)) c two \<and> dual_channel t = dual_channel s"
  using assms by (simp add: ps2_self_test_def ready_def ps2_steps)

lemma detect_second_ok:
  assumes "i8042 P V" "prompt P V" "512 \<le> length (print_buf j)" "ready (V (device s)) c two" "dual_channel s = two"
  shows "\<exists>t. ps2_detect_second P j s = Some t \<and> ready (V (device t)) (if two then c AND NOT 0x20 else c) two \<and> dual_channel t = two"
  using assms by (cases two) (simp_all add: ps2_detect_second_def ready_def ps2_steps and.assoc)

lemma port_passed: "512 \<le> length (print_buf j) \<Longrightarrow>
    ps2_test_port_response_byte j 0 s = Some (Running (s\<lparr>messages := said j ''PS/2 port test passed'' (messages s)\<rparr>))"
  by (simp add: ps2_test_port_response_byte_def ps2_steps)

lemma test_ports_ok:
  assumes "i8042 P V" "512 \<le> length (print_buf j)" "ready (V (device s)) c two" "dual_channel s = two"
  shows "\<exists>t. ps2_test_ports P j s = Some (Running t) \<and> ready (V (device t)) c two \<and> dual_channel t = two"
  using assms by (cases two) (simp_all add: ps2_test_ports_def ready_def ps2_steps port_passed)

lemma enable_ok:
  assumes "i8042 P V" "prompt P V" "512 \<le> length (print_buf j)" "ready (V (device s)) c two" "dual_channel s = two"
  shows "\<exists>t. ps2_enable P j s = Some t \<and> dual_channel t = two \<and>
    ready (V (device t)) (if two then (c AND NOT 0x30 OR 1) OR 2 else c AND NOT 0x10 OR 1) two"
  using assms by (cases two) (simp_all add: ps2_enable_def ready_def ps2_steps and.assoc)

lemma reset_ok:
  assumes "i8042 P V" "512 \<le> length (print_buf j)" "ready (V (device s)) c two" "dual_channel s = two"
  shows "\<exists>t. ps2_reset P j s = Some (Running t) \<and> ready (V (device t)) c two \<and> dual_channel t = two"
  using assms by (cases two) (simp_all add: ps2_reset_def ps2_test_device_reset_response_byte_def ready_def ps2_steps)

lemma keyboard_init_ok:
  assumes "i8042 P V" "512 \<le> length (print_buf j)" "ready (V (device s)) c two"
  shows "\<exists>t. keyboard_init P j s = Some t \<and> ready (V (device t)) c two \<and> dual_channel t = dual_channel s"
  using assms by (simp add: keyboard_init_def ready_def ps2_steps)

lemma config_bytes: "list_all (\<lambda>k. let c = of_nat k :: u8; two = (c OR 0x30) AND NOT 0x43; one = (c OR 0x10) AND NOT 0x43 in
    two AND 0x20 \<noteq> 0 \<and> ((two AND NOT 0x20) AND NOT 0x30 OR 1) OR 2 = (c AND NOT 0x73) OR 3 \<and>
    (c AND 0x20 = 0 \<longrightarrow> one AND 0x20 = 0 \<and> one AND NOT 0x10 OR 1 = (c AND NOT 0x73) OR 1)) [0..<256]"
  by code_simp

lemma config_byte:
  fixes c :: u8
  shows "((c OR 0x30) AND NOT 0x43) AND 0x20 \<noteq> 0" "((((c OR 0x30) AND NOT 0x43) AND NOT 0x20) AND NOT 0x30 OR 1) OR 2 = (c AND NOT 0x73) OR 3"
    "c AND 0x20 = 0 \<Longrightarrow> ((c OR 0x10) AND NOT 0x43) AND 0x20 = 0"
    "c AND 0x20 = 0 \<Longrightarrow> ((c OR 0x10) AND NOT 0x43) AND NOT 0x10 OR 1 = (c AND NOT 0x73) OR 1"
proof -
  have "unat c \<in> set [0..<256]" using unat_less_2p [of c] by simp
  with config_bytes have b: "let c = of_nat (unat c) :: u8; two = (c OR 0x30) AND NOT 0x43; one = (c OR 0x10) AND NOT 0x43 in
    two AND 0x20 \<noteq> 0 \<and> ((two AND NOT 0x20) AND NOT 0x30 OR 1) OR 2 = (c AND NOT 0x73) OR 3 \<and>
    (c AND 0x20 = 0 \<longrightarrow> one AND 0x20 = 0 \<and> one AND NOT 0x10 OR 1 = (c AND NOT 0x73) OR 1)"
    unfolding list_all_iff by (rule bspec)
  note b = b [unfolded Let_def of_nat_unat ucast_id]
  show "((c OR 0x30) AND NOT 0x43) AND 0x20 \<noteq> 0" "((((c OR 0x30) AND NOT 0x43) AND NOT 0x20) AND NOT 0x30 OR 1) OR 2 = (c AND NOT 0x73) OR 3"
    "c AND 0x20 = 0 \<Longrightarrow> ((c OR 0x10) AND NOT 0x43) AND 0x20 = 0"
    "c AND 0x20 = 0 \<Longrightarrow> ((c OR 0x10) AND NOT 0x43) AND NOT 0x10 OR 1 = (c AND NOT 0x73) OR 1"
    using b by (simp_all only: simp_thms)
qed

lemma ps2_up_lemma:
  assumes dev: "i8042 P V" "prompt P V" and j: "512 \<le> length (print_buf j)" and m: "k_mode (V (device s)) = To_keyboard"
    and o: "k_busy (V (device s)) = 0" "length (k_out (V (device s))) \<le> 1" "k_out (V (device s)) \<noteq> [] \<Longrightarrow> k_wait (V (device s)) = 0"
    and one: "\<not> k_second (V (device s)) \<Longrightarrow> k_conf (V (device s)) AND 0x20 = 0"
  shows "\<exists>t u. ps2_init_controller P j s = Some (Running t) \<and> keyboard_init P j t = Some u \<and>
    dual_channel u = k_second (V (device s)) \<and> k_out (V (device u)) = [] \<and>
    k_conf (V (device u)) = (k_conf (V (device s)) AND NOT 0x73) OR (if k_second (V (device s)) then 3 else 1)"
proof -
  let ?c = "k_conf (V (device s))" and ?two = "k_second (V (device s))"
  let ?c1 = "?c OR (if ?two then 0x30 else 0x10)" let ?c2 = "?c1 AND NOT 0x43" let ?c3 = "if ?two then ?c2 AND NOT 0x20 else ?c2"
  let ?c4 = "if ?two then (?c3 AND NOT 0x30 OR 1) OR 2 else ?c3 AND NOT 0x10 OR 1"
  from disable_ok [OF dev j m o] obtain s1 where 1: "ps2_disable P j s = Some s1" "ready (V (device s1)) ?c1 ?two" by blast
  from configure_ok [OF dev j 1(2)] obtain s2 where 2: "ps2_configure P j s1 = Some s2" "ready (V (device s2)) ?c2 ?two"
    "dual_channel s2 = (?c2 AND 0x20 \<noteq> 0)" by blast
  from self_test_ok [OF dev(1) j 2(2)] obtain s3 where 3: "ps2_self_test P j s2 = Some (Running s3)" "ready (V (device s3)) ?c2 ?two"
    "dual_channel s3 = dual_channel s2" by blast
  have "dual_channel s3 = ?two" using 2(3) 3(3) config_byte(1,3) [of ?c] one by (cases ?two) simp_all
  from detect_second_ok [OF dev j 3(2) this] obtain s4 where 4: "ps2_detect_second P j s3 = Some s4" "ready (V (device s4)) ?c3 ?two"
    "dual_channel s4 = ?two" by blast
  from test_ports_ok [OF dev(1) j 4(2,3)] obtain s5 where 5: "ps2_test_ports P j s4 = Some (Running s5)" "ready (V (device s5)) ?c3 ?two"
    "dual_channel s5 = ?two" by blast
  from enable_ok [OF dev j 5(2,3)] obtain s6 where 6: "ps2_enable P j s5 = Some s6" "dual_channel s6 = ?two" "ready (V (device s6)) ?c4 ?two" by blast
  from reset_ok [OF dev(1) j 6(3,2)] obtain s7 where 7: "ps2_reset P j s6 = Some (Running s7)" "ready (V (device s7)) ?c4 ?two"
    "dual_channel s7 = ?two" by blast
  define t where "t = s7\<lparr>messages := said j ''PS/2 controller initialised'' (messages s7)\<rparr>"
  have t: "ps2_init_controller P j s = Some (Running t)"
    using j by (simp add: ps2_init_controller_def 1 2 3 4 5 6 7 say_line_ok go_on_def t_def)
  have "ready (V (device t)) ?c4 ?two" using 7(2) by (simp add: t_def)
  from keyboard_init_ok [OF dev(1) j this] obtain u where u: "keyboard_init P j t = Some u" "ready (V (device u)) ?c4 ?two"
    "dual_channel u = dual_channel t" by blast
  have "?c4 = (?c AND NOT 0x73) OR (if ?two then 3 else 1)" using config_byte(2,4) [of ?c] one by (cases ?two) simp_all
  then show ?thesis using t u 7(3) by (simp add: t_def ready_def)
qed

section \<open>Property\<close>


text \<open>
  A slow controller behind its ports, with a mouse and a byte left over: an answer is there after five polls, a
  command that a data byte follows takes three, a byte for a device two. Nothing is on the PCI bus.
\<close>

definition slow :: "nat \<Rightarrow> kbc \<Rightarrow> kbc \<Rightarrow> kbc" where
  "slow n k k1 = k1\<lparr>k_busy := n, k_wait := (if k_out k = [] then 5 else k_wait k)\<rparr>"

definition kbc_ports :: "kbc ports" where
  "kbc_ports = \<lparr>inb = (\<lambda>port k. if port = 0x64
       then ((if k_out k \<noteq> [] \<and> k_wait k = 0 then 1 else 0) OR (if k_busy k = 0 then 0 else 2),
         k\<lparr>k_busy := k_busy k - 1, k_wait := k_wait k - 1\<rparr>)
       else (hd (k_out k), k\<lparr>k_out := tl (k_out k), k_wait := 5\<rparr>)),
     outb = (\<lambda>port c k. if port = 0x64 then slow (if c \<in> {0xAD, 0xAE, 0xA7, 0xA8} then 0 else 3) k (kbc_command c k)
       else if port = 0x60 then slow (if k_mode k = To_config then 0 else 2) k (kbc_data c k) else k),
     inl = (\<lambda>port k. (0xFFFFFFFF, k)), outl = (\<lambda>port v k. k)\<rparr>"

lemma kbc_ports_ok: "i8042 kbc_ports (\<lambda>k. k)" "prompt kbc_ports (\<lambda>k. k)"
proof -
  have "takes_in k k1 (slow n k k1)" if "n \<le> 5" for n k k1 using that by (auto simp: takes_in_def slow_def)
  then show "i8042 kbc_ports (\<lambda>k. k)" by (auto simp: i8042_def kbc_ports_def)
  show "prompt kbc_ports (\<lambda>k. k)" by (simp add: prompt_def kbc_ports_def slow_def)
qed

definition sample_ps2 :: "kbc ps2" where
  "sample_ps2 = \<lparr>device = \<lparr>k_out = [0x1C], k_conf = 0x47, k_mode = To_keyboard, k_second = True, k_busy = 0, k_wait = 0\<rparr>,
     dual_channel = False, messages = sample_term\<rparr>"


end
