(* ===== verification/Interrupts.thy ===== *)
theory Interrupts
  imports Devices Sched Keyboard
begin

text \<open>
  The interrupt table of \<open>idt.c\<close> and the handlers of \<open>isr.c\<close>, which the assembly stubs call: the timer, the
  yielding interrupt, the keyboard, and the processor's exceptions. \<open>None\<close> is a fault of one of the parts that a
  handler calls.
\<close>

section \<open>The table\<close>

definition IDT_MAX_DESCRIPTORS :: nat where "IDT_MAX_DESCRIPTORS = 256"
definition GDT_OFFSET_KERNEL_CODE :: u16 where "GDT_OFFSET_KERNEL_CODE = 0x28"
definition IDT_INTERRUPT_GATE :: u8 where "IDT_INTERRUPT_GATE = 0x8E"
definition IDT_EXCEPTION_COUNT :: nat where "IDT_EXCEPTION_COUNT = 32"

record idt_entry =
  isr_low :: u16
  kernel_cs :: u16
  ist :: u8
  attributes :: u8
  isr_mid :: u16
  isr_high :: u32
  reserved :: u32

record idtr =
  limit :: u16
  base :: u64

text \<open>The table and its register image in memory, what \<open>lidt\<close> has loaded, and the processor's interrupt flag.\<close>

record interrupts =
  idt :: "idt_entry list"
  idtr :: idtr
  loaded :: idtr
  enabled :: bool

definition idt_set_descriptor :: "u8 \<Rightarrow> u64 \<Rightarrow> u8 \<Rightarrow> interrupts \<Rightarrow> interrupts" where
  "idt_set_descriptor vector isr flags s =
     s\<lparr>idt := (idt s)[unat vector := \<lparr>isr_low = ucast (isr AND 0xFFFF), kernel_cs = GDT_OFFSET_KERNEL_CODE, ist = 0,
         attributes = flags, isr_mid = ucast (drop_bit 16 isr AND 0xFFFF), isr_high = ucast (drop_bit 32 isr AND 0xFFFFFFFF),
         reserved = 0\<rparr>]\<rparr>"

text \<open>\<open>at\<close> is the address of the table, \<open>stubs\<close> the table of the assembly stubs, \<open>yield\<close> the address of \<open>isr\_yield\<close>.\<close>

definition idt_init :: "u64 \<Rightarrow> u64 list \<Rightarrow> u64 \<Rightarrow> u8 list \<Rightarrow> interrupts \<Rightarrow> term_state \<Rightarrow> (interrupts \<times> term_state) option" where
  "idt_init at stubs yield junk s t =
     (if length stubs \<le> 33 then None
      else
        let s = s\<lparr>idtr := \<lparr>limit = of_nat (16 * IDT_MAX_DESCRIPTORS - 1), base = at\<rparr>\<rparr>;
            s = fold (\<lambda>vector. idt_set_descriptor (of_nat vector) (stubs ! vector) IDT_INTERRUPT_GATE) [0..<IDT_EXCEPTION_COUNT] s;
            s = idt_set_descriptor 32 (stubs ! 32) IDT_INTERRUPT_GATE s;
            s = idt_set_descriptor 33 (stubs ! 33) IDT_INTERRUPT_GATE s;
            s = idt_set_descriptor 0x30 yield IDT_INTERRUPT_GATE s;
            s = s\<lparr>loaded := idtr s, enabled := True\<rparr>
        in kprintf junk (bytes ''IDT initialized'' @ [10]) [] t \<bind> (\<lambda>t. Some (s, t)))"

section \<open>Handlers\<close>

text \<open>The tick counter, the devices behind the ports, and the scheduler.\<close>

definition isr_timer_handler :: "'d ports \<Rightarrow> 'h heap_ops \<Rightarrow> u64 \<Rightarrow> u64 \<Rightarrow> 'd \<Rightarrow> 'h sched \<Rightarrow> (u64 \<times> u64 \<times> 'd \<times> 'h sched) option" where
  "isr_timer_handler P ops rsp ticks d s =
     (let ticks = timer_handler ticks;
          d = pic_send_eoi P PIC_TIMER_IRQ_LINE d
      in sched_tick ops ticks rsp s \<bind> (\<lambda>(rsp, s). Some (rsp, ticks, d, s)))"

definition isr_yield_handler :: "'h heap_ops \<Rightarrow> u64 \<Rightarrow> u64 \<Rightarrow> 'h sched \<Rightarrow> (u64 \<times> 'h sched) option" where
  "isr_yield_handler ops ticks rsp s = sched_preempt ops ticks rsp s"

definition isr_keyboard_handler :: "'d ports \<Rightarrow> 'd \<Rightarrow> kbd \<Rightarrow> 'd \<times> kbd" where
  "isr_keyboard_handler P d k =
     (case inb P 0x60 d of (sc, d) \<Rightarrow> (pic_send_eoi P PIC_KEYBOARD_IRQ_LINE d, keyboard_handler sc k))"

definition exception_names :: "string list" where
  "exception_names =
     [''Division Error'', ''Debug'', ''NMI'', ''Breakpoint'', ''Overflow'', ''Bound Range Exceeded'', ''Invalid Opcode'',
      ''Device Not Available'', ''Double Fault'', ''Coprocessor Segment Overrun'', ''Invalid TSS'', ''Segment Not Present'',
      ''Stack-Segment Fault'', ''General Protection Fault'', ''Page Fault'', ''Reserved'', ''x87 FP Exception'',
      ''Alignment Check'', ''Machine Check'', ''SIMD FP Exception'', ''Virtualization Exception'',
      ''Control Protection Exception'', ''Reserved'', ''Reserved'', ''Reserved'', ''Reserved'', ''Reserved'', ''Reserved'',
      ''Hypervisor Injection'', ''VMM Communication'', ''Security Exception'', ''Reserved'']"

definition exception_name :: "u64 \<Rightarrow> u8 list" where
  "exception_name vector = bytes (if vector < 32 then exception_names ! unat vector else ''Unknown'')"

text \<open>
  The report of an exception; after it the machine is stopped. \<open>junk\<close> is what the buffer of \<open>kprintf\<close> held before,
  \<open>buf\<close> the 128 bytes of the handler's own buffer, \<open>cr2\<close> the address of a page fault.
\<close>

definition isr_exception_handler :: "font \<Rightarrow> u8 list \<Rightarrow> u8 list \<Rightarrow> u64 \<Rightarrow> u64 \<Rightarrow> u64 \<Rightarrow> u64 \<Rightarrow> term_state \<Rightarrow> term_state option" where
  "isr_exception_handler f junk buf cr2 vector error_code rip t =
     (let name = exception_name vector
      in kprintf junk ([10] @ bytes ''!!! EXCEPTION %lu (%s) err=%lx rip=%lx'' @ [10])
           [Num vector, Str (Some name), Num error_code, Num rip] t \<bind> (\<lambda>t.
         (if vector = 14 then kprintf junk (bytes ''    page fault address: %lx'' @ [10]) [Num cr2] t else Some t) \<bind>
         on_fb (framebuffer_clear 0x300000) \<bind> (\<lambda>t.
         vsnprintf buf 128 (bytes ''EXCEPTION %lu: %s'') [Num vector, Str (Some name)] \<bind> (\<lambda>(n, buf).
         on_fb (framebuffer_put_string f (c_string buf) 2 2 0xFFFFFF 0x300000) t \<bind> (\<lambda>t.
         vsnprintf buf 128 (bytes ''error=0x%lx rip=0x%lx'') [Num error_code, Num rip] \<bind> (\<lambda>(n, buf).
         on_fb (framebuffer_put_string f (c_string buf) 2 4 0xFFFFFF 0x300000) t \<bind>
         on_fb (framebuffer_put_string f (bytes ''system halted'') 2 6 0xFF8888 0x300000)))))))"

section \<open>What the processor reads\<close>

text \<open>
  The table lies in memory as packed entries of sixteen bytes. The processor takes the descriptor of a vector from the
  sixteen bytes at that multiple of the base; the handler's address is scattered over three fields.
\<close>

definition word_bytes :: "nat \<Rightarrow> 'a::len word \<Rightarrow> u8 list" where
  "word_bytes n w = map (\<lambda>i. ucast (drop_bit (8 * i) w)) [0..<n]"

definition entry_bytes :: "idt_entry \<Rightarrow> u8 list" where
  "entry_bytes e = word_bytes 2 (isr_low e) @ word_bytes 2 (kernel_cs e) @ [ist e, attributes e] @ word_bytes 2 (isr_mid e) @
     word_bytes 4 (isr_high e) @ word_bytes 4 (reserved e)"

definition of_bytes :: "u8 list \<Rightarrow> u64" where
  "of_bytes bs = foldr (\<lambda>b a. ucast b OR push_bit 8 a) bs 0"

definition descriptor_at :: "nat \<Rightarrow> interrupts \<Rightarrow> u8 list" where
  "descriptor_at v s = take 16 (drop (16 * v) (concat (map entry_bytes (idt s))))"

definition gate_offset :: "u8 list \<Rightarrow> u64" where
  "gate_offset g = of_bytes (take 2 g @ take 2 (drop 6 g) @ take 4 (drop 8 g))"

definition gate_selector :: "u8 list \<Rightarrow> u64" where
  "gate_selector g = of_bytes (take 2 (drop 2 g))"

definition gate_present :: "u8 list \<Rightarrow> bool" where
  "gate_present g \<longleftrightarrow> bit (g ! 5) 7"

lemma entry_bytes_length [simp]: "length (entry_bytes e) = 16"
  by (simp add: entry_bytes_def word_bytes_def)

lemma concat_slice:
  assumes "\<forall>x\<in>set xs. length (f x) = n" "i < length xs"
  shows "take n (drop (n * i) (concat (map f xs))) = f (xs ! i)"
  using assms
proof (induction xs arbitrary: i)
  case (Cons x xs)
  then show ?case by (cases i) simp_all
qed simp

lemma descriptor_entry: "v < length (idt s) \<Longrightarrow> descriptor_at v s = entry_bytes (idt s ! v)"
  by (simp add: descriptor_at_def concat_slice)

lemma bit_of_bytes: "bit (of_bytes bs) n \<longleftrightarrow> n < 64 \<and> n div 8 < length bs \<and> bit (bs ! (n div 8)) (n mod 8)"
proof (induction bs arbitrary: n)
  case (Cons b bs)
  have s: "of_bytes (b # bs) = ucast b OR push_bit 8 (of_bytes bs)" by (simp only: of_bytes_def foldr.simps comp_apply)
  show ?case
  proof (cases "n < 8")
    case True
    then show ?thesis unfolding s by (simp add: bit_or_iff bit_ucast_iff bit_push_bit_iff)
  next
    case False
    then obtain k where n: "n = 8 + k" using le_Suc_ex [of 8 n] by auto
    have "\<not> bit b (8 + k)" using bit_imp_le_length [of b "8 + k"] by auto
    moreover have "(8 + k) div 8 = Suc (k div 8)" by simp
    ultimately show ?thesis unfolding s n using Cons.IH [of k] by (auto simp: bit_or_iff bit_ucast_iff bit_push_bit_iff)
  qed
qed (simp add: of_bytes_def)

lemma of_word_bytes: "of_bytes (word_bytes 8 (a :: u64)) = a"
proof (rule bit_word_eqI)
  fix n assume "n < LENGTH(64)"
  then have "n div 8 < 8" "8 * (n div 8) + n mod 8 = n" by simp_all
  then show "bit (of_bytes (word_bytes 8 a)) n = bit a n"
    using \<open>n < LENGTH(64)\<close> by (simp add: bit_of_bytes word_bytes_def bit_ucast_iff bit_drop_bit_eq)
qed

text \<open>The three fields put together are the address.\<close>

lemma field_bytes:
  fixes a :: u64
  shows "i < 2 \<Longrightarrow> (ucast (drop_bit (8 * i) (ucast (drop_bit k a AND 0xFFFF) :: u16)) :: u8) = ucast (drop_bit (8 * i + k) a)"
    "i < 4 \<Longrightarrow> (ucast (drop_bit (8 * i) (ucast (drop_bit k a AND 0xFFFFFFFF) :: u32)) :: u8) = ucast (drop_bit (8 * i + k) a)"
proof -
  have m: "(0xFFFF :: u64) = mask 16" "(0xFFFFFFFF :: u64) = mask 32" by (simp_all add: mask_eq_exp_minus_1)
  show "i < 2 \<Longrightarrow> (ucast (drop_bit (8 * i) (ucast (drop_bit k a AND 0xFFFF) :: u16)) :: u8) = ucast (drop_bit (8 * i + k) a)"
    unfolding m by (rule bit_word_eqI) (auto simp: bit_ucast_iff bit_drop_bit_eq bit_and_iff bit_mask_iff ac_simps)
  show "i < 4 \<Longrightarrow> (ucast (drop_bit (8 * i) (ucast (drop_bit k a AND 0xFFFFFFFF) :: u32)) :: u8) = ucast (drop_bit (8 * i + k) a)"
    unfolding m by (rule bit_word_eqI) (auto simp: bit_ucast_iff bit_drop_bit_eq bit_and_iff bit_mask_iff ac_simps)
qed

lemma scattered_address:
  fixes a :: u64
  shows "gate_offset (entry_bytes \<lparr>isr_low = ucast (a AND 0xFFFF), kernel_cs = c, ist = i, attributes = f,
     isr_mid = ucast (drop_bit 16 a AND 0xFFFF), isr_high = ucast (drop_bit 32 a AND 0xFFFFFFFF), reserved = r\<rparr>) = a"
proof -
  have low: "word_bytes 2 (ucast (a AND 0xFFFF) :: u16) = map (\<lambda>i. ucast (drop_bit (8 * i) a)) [0..<2]"
    unfolding word_bytes_def using field_bytes(1) [of _ 0 a] by simp
  have mid: "word_bytes 2 (ucast (drop_bit 16 a AND 0xFFFF) :: u16) = map (\<lambda>i. ucast (drop_bit (8 * i + 16) a)) [0..<2]"
    unfolding word_bytes_def using field_bytes(1) [of _ 16 a] by simp
  have high: "word_bytes 4 (ucast (drop_bit 32 a AND 0xFFFFFFFF) :: u32) = map (\<lambda>i. ucast (drop_bit (8 * i + 32) a)) [0..<4]"
    unfolding word_bytes_def using field_bytes(2) [of _ 32 a] by simp
  have all: "word_bytes 8 a = word_bytes 2 (ucast (a AND 0xFFFF) :: u16) @ word_bytes 2 (ucast (drop_bit 16 a AND 0xFFFF) :: u16) @
      word_bytes 4 (ucast (drop_bit 32 a AND 0xFFFFFFFF) :: u32)"
    unfolding low mid high by (simp add: word_bytes_def upt_rec)
  have "gate_offset (entry_bytes \<lparr>isr_low = ucast (a AND 0xFFFF), kernel_cs = c, ist = i, attributes = f,
     isr_mid = ucast (drop_bit 16 a AND 0xFFFF), isr_high = ucast (drop_bit 32 a AND 0xFFFFFFFF), reserved = r\<rparr>) = of_bytes (word_bytes 8 a)"
    unfolding all by (simp add: gate_offset_def entry_bytes_def) (simp add: word_bytes_def)
  then show ?thesis unfolding of_word_bytes .
qed

section \<open>The table after initialisation\<close>

definition gate_entry :: "u64 \<Rightarrow> idt_entry" where
  "gate_entry isr = \<lparr>isr_low = ucast (isr AND 0xFFFF), kernel_cs = GDT_OFFSET_KERNEL_CODE, ist = 0,
     attributes = IDT_INTERRUPT_GATE, isr_mid = ucast (drop_bit 16 isr AND 0xFFFF), isr_high = ucast (drop_bit 32 isr AND 0xFFFFFFFF),
     reserved = 0\<rparr>"

lemma set_gate: "idt_set_descriptor v isr IDT_INTERRUPT_GATE s = s\<lparr>idt := (idt s)[unat v := gate_entry isr]\<rparr>"
  by (simp add: idt_set_descriptor_def gate_entry_def)

lemma set_gates:
  assumes "n \<le> 256" "length (idt s) = 256"
  shows "\<exists>xs. fold (\<lambda>v. idt_set_descriptor (of_nat v) (stubs ! v) IDT_INTERRUPT_GATE) [0..<n] s = s\<lparr>idt := xs\<rparr> \<and> length xs = 256 \<and>
    (\<forall>i<256. xs ! i = (if i < n then gate_entry (stubs ! i) else idt s ! i))"
  using assms(1)
proof (induction n)
  case 0
  then show ?case using assms(2) by (intro exI [of _ "idt s"]) simp
next
  case (Suc n)
  then obtain xs where xs: "fold (\<lambda>v. idt_set_descriptor (of_nat v) (stubs ! v) IDT_INTERRUPT_GATE) [0..<n] s = s\<lparr>idt := xs\<rparr>"
    "length xs = 256" "\<forall>i<256. xs ! i = (if i < n then gate_entry (stubs ! i) else idt s ! i)" by auto
  have n: "unat (of_nat n :: u8) = n" using Suc.prems by (intro unat_of_nat_small) simp
  have "fold (\<lambda>v. idt_set_descriptor (of_nat v) (stubs ! v) IDT_INTERRUPT_GATE) [0..<Suc n] s = s\<lparr>idt := xs[n := gate_entry (stubs ! n)]\<rparr>"
    by (simp only: upt_Suc_append le0 fold_append fold.simps comp_apply id_apply xs(1) set_gate n) simp
  then show ?case using xs(2,3) Suc.prems
    by (intro exI [of _ "xs[n := gate_entry (stubs ! n)]"]) (auto simp: nth_list_update less_Suc_eq simp del: upt_Suc)
qed

lemma gate_entry_read:
  "gate_offset (entry_bytes (gate_entry a)) = a" "gate_selector (entry_bytes (gate_entry a)) = 0x28"
  "entry_bytes (gate_entry a) ! 5 = 0x8E"
proof -
  show "gate_offset (entry_bytes (gate_entry a)) = a" unfolding gate_entry_def by (rule scattered_address)
  have c: "word_bytes 2 (0x28 :: u16) = [0x28, 0]" "of_bytes [0x28, 0] = 0x28" by code_simp+
  have l: "length (word_bytes n w) = n" for n and w :: u16 by (simp add: word_bytes_def)
  show "gate_selector (entry_bytes (gate_entry a)) = 0x28"
    by (simp add: gate_selector_def gate_entry_def entry_bytes_def l c GDT_OFFSET_KERNEL_CODE_def)
  show "entry_bytes (gate_entry a) ! 5 = 0x8E"
    by (simp add: gate_entry_def entry_bytes_def l nth_append IDT_INTERRUPT_GATE_def)
qed

lemma no_gate: "attributes e = 0 \<Longrightarrow> \<not> gate_present (entry_bytes e)"
  by (simp add: gate_present_def entry_bytes_def word_bytes_def nth_append)

section \<open>Property\<close>

text \<open>
  C39: After \<open>idt\_init\<close> the processor finds the table: its register covers all 256 descriptors, and read back from
  the bytes in memory the exceptions, the timer and the keyboard have the address of their stub, interrupt 0x30 that
  of the yield stub, all as present interrupt gates of the kernel's code segment, and every other vector is absent.
\<close>

theorem idt_gates:
  assumes "length stubs = 34" "length (idt s) = 256" "\<forall>e\<in>set (idt s). attributes e = 0" "512 \<le> length junk"
  shows "\<exists>s' t'. idt_init at stubs yield junk s t = Some (s', t') \<and> enabled s' \<and> base (loaded s') = at \<and>
    (\<forall>v<256. 16 * v + 15 \<le> unat (limit (loaded s')) \<and>
      (if v < 34 \<or> v = 0x30
       then gate_offset (descriptor_at v s') = (if v < 34 then stubs ! v else yield) \<and>
         gate_selector (descriptor_at v s') = 0x28 \<and> descriptor_at v s' ! 5 = 0x8E
       else \<not> gate_present (descriptor_at v s')))"
proof -
  let ?s0 = "s\<lparr>idtr := \<lparr>limit = of_nat (16 * IDT_MAX_DESCRIPTORS - 1), base = at\<rparr>\<rparr>"
  from set_gates [of 32 ?s0 stubs] assms(2) obtain xs where xs:
    "fold (\<lambda>v. idt_set_descriptor (of_nat v) (stubs ! v) IDT_INTERRUPT_GATE) [0..<32] ?s0 = ?s0\<lparr>idt := xs\<rparr>" "length xs = 256"
    "\<forall>i<256. xs ! i = (if i < 32 then gate_entry (stubs ! i) else idt s ! i)" by auto
  define ys where "ys = xs[32 := gate_entry (stubs ! 32), 33 := gate_entry (stubs ! 33), 0x30 := gate_entry yield]"
  define s' where "s' = ?s0\<lparr>idt := ys, loaded := \<lparr>limit = 4095, base = at\<rparr>, enabled := True\<rparr>"
  obtain t' where "kprintf junk (bytes ''IDT initialized'' @ [10]) [] t = Some t'"
    using vsnprintf_lemma [OF assms(4)] by (simp add: kprintf_def)
  then have run: "idt_init at stubs yield junk s t = Some (s', t')"
    using xs(1) assms(1) by (simp add: idt_init_def Let_def set_gate IDT_EXCEPTION_COUNT_def IDT_MAX_DESCRIPTORS_def s'_def ys_def)
  have gates: "ys ! v = (if v < 34 then gate_entry (stubs ! v) else if v = 0x30 then gate_entry yield else idt s ! v)" if "v < 256" for v
    using xs that by (auto simp: ys_def nth_list_update)
  have at: "descriptor_at v s' = entry_bytes (ys ! v)" if "v < 256" for v
    using that xs(2) by (simp add: descriptor_entry s'_def ys_def)
  have "if v < 34 \<or> v = 0x30 then gate_offset (descriptor_at v s') = (if v < 34 then stubs ! v else yield) \<and>
      gate_selector (descriptor_at v s') = 0x28 \<and> descriptor_at v s' ! 5 = 0x8E else \<not> gate_present (descriptor_at v s')" if v: "v < 256" for v
    unfolding at [OF v] gates [OF v] using assms(2,3) v by (simp add: gate_entry_read no_gate)
  moreover have "16 * v + 15 \<le> unat (limit (loaded s'))" if "v < 256" for v using that by (simp add: s'_def)
  moreover have "enabled s'" "base (loaded s') = at" by (simp_all add: s'_def)
  ultimately show ?thesis using run by blast
qed

definition sample_idt :: interrupts where
  "sample_idt = \<lparr>idt = replicate 256 \<lparr>isr_low = 0, kernel_cs = 0, ist = 0, attributes = 0, isr_mid = 0, isr_high = 0, reserved = 0\<rparr>,
     idtr = \<lparr>limit = 0, base = 0\<rparr>, loaded = \<lparr>limit = 0, base = 0\<rparr>, enabled = False\<rparr>"

theorem idt_gates_witness:
  "\<exists>s' t'. idt_init 0xFFFFFFFF80010000 (replicate 34 0xFFFFFFFF80001234) 0xFFFFFFFF8000ABCD (replicate 512 0) sample_idt sample_term =
      Some (s', t') \<and> gate_offset (descriptor_at 14 s') = 0xFFFFFFFF80001234 \<and> \<not> gate_present (descriptor_at 200 s')"
proof -
  from idt_gates [of "replicate 34 0xFFFFFFFF80001234" sample_idt "replicate 512 0" "0xFFFFFFFF80010000" "0xFFFFFFFF8000ABCD" sample_term]
  obtain s' t' where "idt_init 0xFFFFFFFF80010000 (replicate 34 0xFFFFFFFF80001234) 0xFFFFFFFF8000ABCD (replicate 512 0) sample_idt sample_term =
      Some (s', t')" and v: "\<forall>v<256. 16 * v + 15 \<le> unat (limit (loaded s')) \<and>
      (if v < 34 \<or> v = 0x30
       then gate_offset (descriptor_at v s') = (if v < 34 then replicate 34 0xFFFFFFFF80001234 ! v else 0xFFFFFFFF8000ABCD) \<and>
         gate_selector (descriptor_at v s') = 0x28 \<and> descriptor_at v s' ! 5 = 0x8E
       else \<not> gate_present (descriptor_at v s'))" by (auto simp: sample_idt_def)
  moreover have "gate_offset (descriptor_at 14 s') = 0xFFFFFFFF80001234" using v [rule_format, of 14] by simp
  moreover have "\<not> gate_present (descriptor_at 200 s')" using v [rule_format, of 200] by simp
  ultimately show ?thesis by blast
qed

end
