(* ===== verification/Boot.thy ===== *)
theory Boot
  imports Initrd Net Ps2 Interrupts E1000
begin

text \<open>
  The start of the kernel, \<open>main.c\<close>: every component is brought up in the order of the code, on the state that the
  components share; and the listing of the boot loader's memory map, \<open>mem.c\<close>. \<open>None\<close> is a fault or a wait
  that does not end, \<open>Halted\<close> a machine that has been stopped. Interrupts that come in before the scheduler is
  active only count ticks and queue keys; they are left out.
\<close>

section \<open>The memory map\<close>

record raw_entry =
  raw_base :: u64
  raw_length :: u64
  raw_type :: u64

definition memory_name :: "u64 \<Rightarrow> string option" where
  "memory_name ty =
     (if ty = 0 then Some ''[Usable RAM]''
      else if ty = 1 then Some ''[Reserved]''
      else if ty = 2 then Some ''[ACPI Reclaimable]''
      else if ty = 3 then Some ''[ACPI NVS]''
      else if ty = 4 then Some ''[Bad Memory]''
      else if ty = 5 then Some ''[Bootloader Reclaimable]''
      else if ty = 6 then Some ''[Kernel and Modules]''
      else if ty = 7 then Some ''[Framebuffer]''
      else None)"

text \<open>\<open>bufs\<close> are the 64 bytes of each of the two buffers before the numbers are written to them.\<close>

definition debug_entry :: "font \<Rightarrow> u8 list \<times> u8 list \<Rightarrow> raw_entry \<Rightarrow> term_state \<Rightarrow> term_state option" where
  "debug_entry f bufs e t =
     to_string (raw_base e) (fst bufs) \<bind> (\<lambda>base_buf.
     to_string (raw_length e) (snd bufs) \<bind> (\<lambda>length_buf.
     case memory_name (raw_type e) of
       Some name \<Rightarrow>
         term_print_with_color f (bytes name @ [10]) 0x0cb1e8 TERM_COLOR_BLACK t \<bind>
         term_print f (c_string base_buf) \<bind> term_print f [10] \<bind>
         term_print f (c_string length_buf) \<bind> term_print f [10]
     | None \<Rightarrow> term_print_with_color f (bytes ''[Unknown Memory Type]'' @ [10]) TERM_COLOR_WHITE TERM_COLOR_RED t))"

definition debug_memmap :: "font \<Rightarrow> u8 list \<times> u8 list \<Rightarrow> raw_entry list \<Rightarrow> term_state \<Rightarrow> term_state option" where
  "debug_memmap f bufs entries = foldM (debug_entry f bufs) entries"

section \<open>The whole kernel\<close>

text \<open>What the boot loader answers: \<open>None\<close> where there is no response.\<close>

record boot_info =
  revision_supported :: bool
  memmap :: "mm_entry list option"
  hhdm_offset :: "u64 option"
  modules :: "modul list option"
  boot_cr3 :: u64
  ram :: "nat \<Rightarrow> u64"

text \<open>Addresses that the linker has given.\<close>

record addresses =
  at_idt :: u64
  at_stubs :: "u64 list"
  at_isr_yield :: u64
  at_trampoline :: u64
  at_shell_thread :: u64
  at_net_rx_thread :: u64
  at_root :: u64

text \<open>The heap is part of the file system's and of the scheduler's state; here it is the one in \<open>k_vfs\<close>.\<close>

record ('c, 'd) kernel =
  k_cr0 :: u64
  k_cr4 :: u64
  k_ps2 :: "'d ps2"
  k_pmm :: pmm
  k_vmm :: vmm
  k_vfs :: "heap vfs"
  k_idt :: interrupts
  k_sched :: "heap sched"
  k_ticks :: u64
  k_nic :: "'c e1000"
  k_net :: net

definition enable_sse :: "('c, 'd) kernel \<Rightarrow> ('c, 'd) kernel" where
  "enable_sse k = k\<lparr>k_cr0 := k_cr0 k AND NOT (push_bit 2 1) OR push_bit 1 1, k_cr4 := k_cr4 k OR (push_bit 9 1 OR push_bit 10 1)\<rparr>"

text \<open>A step of the scheduler's code uses the heap and leaves it changed.\<close>

definition on_sched :: "(heap sched \<Rightarrow> heap sched option) \<Rightarrow> ('c, 'd) kernel \<Rightarrow> ('c, 'd) kernel option" where
  "on_sched op k = op (k_sched k\<lparr>sheap := vheap (k_vfs k)\<rparr>) \<bind> (\<lambda>s. Some (k\<lparr>k_sched := s, k_vfs := (k_vfs k)\<lparr>vheap := sheap s\<rparr>\<rparr>))"

text \<open>The steps of \<open>\_start\<close>, in its order.\<close>

definition console_up :: "'d ports \<Rightarrow> font \<Rightarrow> junk \<Rightarrow> ('c, 'd) kernel \<Rightarrow> ('c, 'd) kernel option" where
  "console_up P f j k =
     (let s = k_ps2 k
      in say j ([10] @ bytes ''choco-os: booting'' @ [10]) (s\<lparr>device := serial_init P (device s)\<rparr>) \<bind> (\<lambda>s.
         term_init f (messages s) \<bind> (\<lambda>t. Some (k\<lparr>k_ps2 := s\<lparr>messages := t\<rparr>\<rparr>))))"

text \<open>\<open>heap\_init\<close> uses the offset of the direct map without asking whether there is one.\<close>

definition memory_up :: "boot_info \<Rightarrow> ('c, 'd) kernel \<Rightarrow> ('c, 'd) kernel option" where
  "memory_up info k =
     pmm_init (memmap info) (hhdm_offset info \<noteq> None) (ram info) \<bind> (\<lambda>pm.
     hhdm_offset info \<bind> (\<lambda>off.
     heap_init off pm (vheap (k_vfs k)) \<bind> (\<lambda>(h, pm).
     Some (k\<lparr>k_pmm := pm, k_vfs := (k_vfs k)\<lparr>vheap := h\<rparr>, k_vmm := vmm_init (hhdm_offset info) (boot_cr3 info) (k_vmm k)\<rparr>))))"

definition devices_up :: "'d ports \<Rightarrow> junk \<Rightarrow> ('c, 'd) kernel \<Rightarrow> ('c, 'd) kernel halting option" where
  "devices_up P j k =
     ps2_init_controller P j (k_ps2 k) \<bind> (\<lambda>r. case r of
       Halted s \<Rightarrow> Some (Halted (k\<lparr>k_ps2 := s\<rparr>))
     | Running s \<Rightarrow>
         keyboard_init P j s \<bind> (\<lambda>s.
         timer_init P (print_buf j) (device s) (messages s) \<bind> (\<lambda>(d, t).
         Some (Running (k\<lparr>k_ps2 := s\<lparr>device := d, messages := t\<rparr>\<rparr>)))))"

definition files_up :: "(nat \<Rightarrow> u8) \<Rightarrow> addresses \<Rightarrow> boot_info \<Rightarrow> ('c, 'd) kernel \<Rightarrow> ('c, 'd) kernel option" where
  "files_up tj a info k = initrd_init kernel_heap tj (at_root a) (modules info) (k_vfs k) \<bind> (\<lambda>v. Some (k\<lparr>k_vfs := v\<rparr>))"

definition interrupts_up :: "'d ports \<Rightarrow> junk \<Rightarrow> addresses \<Rightarrow> ('c, 'd) kernel \<Rightarrow> ('c, 'd) kernel option" where
  "interrupts_up P j a k =
     pic_init P (print_buf j) (device (k_ps2 k)) (messages (k_ps2 k)) \<bind> (\<lambda>(d, t).
     idt_init (at_idt a) (at_stubs a) (at_isr_yield a) (print_buf j) (k_idt k) t \<bind> (\<lambda>(i, t).
     Some (k\<lparr>k_ps2 := (k_ps2 k)\<lparr>device := d, messages := t\<rparr>, k_idt := i\<rparr>)))"

text \<open>Creating a thread; the code does not look at the answer.\<close>

definition start_thread :: "addresses \<Rightarrow> string \<Rightarrow> u64 \<Rightarrow> ('c, 'd) kernel \<Rightarrow> ('c, 'd) kernel option" where
  "start_thread a name entry =
     on_sched (\<lambda>s. map_option snd (thread_create kernel_heap (at_trampoline a) (bytes name @ [0]) entry 0 s))"

definition net_up :: "'d ports \<Rightarrow> 'c card_regs \<Rightarrow> junk \<Rightarrow> addresses \<Rightarrow> ('c, 'd) kernel \<Rightarrow> ('c, 'd) kernel option" where
  "net_up P R j a k =
     e1000_init P R (print_buf j) (vmm_hhdm_offset (k_vmm k)) (unat (vmm_switch_pml4 (k_vmm k) (kernel_pml4 (k_vmm k))))
       (k_nic k) (k_pmm k) (device (k_ps2 k)) (messages (k_ps2 k)) \<bind> (\<lambda>(found, nic, pm, d, t).
     let k = k\<lparr>k_nic := nic, k_pmm := pm, k_ps2 := (k_ps2 k)\<lparr>device := d, messages := t\<rparr>\<rparr>
     in if found then start_thread a ''net-rx'' (at_net_rx_thread a) (k\<lparr>k_net := net_init (Some (e1000_get_mac nic)) (k_net k)\<rparr>)
        else Some k)"

definition kernel_boot :: "'d ports \<Rightarrow> 'c card_regs \<Rightarrow> font \<Rightarrow> junk \<Rightarrow> (nat \<Rightarrow> u8) \<Rightarrow> addresses \<Rightarrow> boot_info \<Rightarrow>
    ('c, 'd) kernel \<Rightarrow> ('c, 'd) kernel halting option" where
  "kernel_boot P R f j tj a info k =
     (if \<not> revision_supported info then Some (Halted k)
      else
        console_up P f j (enable_sse k) \<bind> memory_up info \<bind> devices_up P j \<bind> proceed (\<lambda>k.
        files_up tj a info k \<bind> interrupts_up P j a \<bind> (\<lambda>k.
        net_up P R j a (k\<lparr>k_sched := sched_init (k_sched k)\<rparr>) \<bind>
        start_thread a ''shell'' (at_shell_thread a) \<bind> (\<lambda>k. Some (Running k)))))"

text \<open>The last call turns the boot context into the idle thread.\<close>

definition kernel_start :: "'d ports \<Rightarrow> 'c card_regs \<Rightarrow> font \<Rightarrow> junk \<Rightarrow> (nat \<Rightarrow> u8) \<Rightarrow> addresses \<Rightarrow> boot_info \<Rightarrow>
    ('c, 'd) kernel \<Rightarrow> ('c, 'd) kernel halting option" where
  "kernel_start P R f j tj a info k =
     kernel_boot P R f j tj a info k \<bind> proceed (\<lambda>k.
     on_sched (sched_start kernel_heap (k_ticks k)) k \<bind> (\<lambda>k. Some (Running k)))"

section \<open>Sharing the heap\<close>

text \<open>
  For a client the heap without the regions \<open>R\<close> of the others is a heap again: so what is proved of the scheduler on
  its own heap holds on the shared one, and it leaves the file system's regions alone.
\<close>

context heap_allocator
begin

lemma rest_of_heap: "heap_allocator ops (\<lambda>h. regions h - R) (\<lambda>h. inv h \<and> R \<subseteq> regions h \<and> arena h = A) arena"
proof
  fix h h' and sz p :: u64 and n m :: nat
  show "heap_malloc ops sz h = Some (p, h') \<Longrightarrow> arena h' = arena h" by (rule malloc_arena)
  show "heap_free ops p h = Some h' \<Longrightarrow> arena h' = arena h" by (rule free_arena)
  assume i: "inv h \<and> R \<subseteq> regions h \<and> arena h = A"
  then have I: "inv h" by blast
  show "(0, n) \<notin> regions h - R" using region_null [OF I] by blast
  show "(p, n) \<in> regions h - R \<Longrightarrow> p \<in> arena h" using region_arena [OF I] by blast
  show "(p, n) \<in> regions h - R \<Longrightarrow> (p, m) \<in> regions h - R \<Longrightarrow> m = n" using region_unique [OF I] by blast
  {
    assume r: "(p, n) \<in> regions h - R"
    then obtain k where k: "heap_free ops p h = Some k" "inv k" "regions k = regions h - {(p, n)}"
      using free_region [OF I] by blast
    then show "\<exists>h'. heap_free ops p h = Some h' \<and> (inv h' \<and> R \<subseteq> regions h' \<and> arena h' = A) \<and>
        regions h' - R = regions h - R - {(p, n)}"
      using i r free_arena [OF k(1)] by auto
  }
  assume sz: "sz \<noteq> 0" "unat sz \<le> 2 ^ 64 - 16"
  show "heap_malloc ops sz h \<noteq> None" by (rule malloc_total [OF I sz])
  show "heap_malloc ops sz h = Some (0, h') \<Longrightarrow> h' = h" by (rule malloc_null [OF I sz])
  assume m: "heap_malloc ops sz h = Some (p, h')" "p \<noteq> 0"
  from malloc_region [OF I sz m] obtain l where l: "inv h'" "16 dvd unat p" "unat sz \<le> l" "unat p + l < 2 ^ 64"
    "regions h' = insert (p, l) (regions h)" "\<forall>n. (p, n) \<notin> regions h" by blast
  then have "regions h' - R = insert (p, l) (regions h - R)" "R \<subseteq> regions h'" "\<forall>n. (p, n) \<notin> regions h - R" using i by blast+
  then show "(inv h' \<and> R \<subseteq> regions h' \<and> arena h' = A) \<and> 16 dvd unat p \<and> (\<exists>m. unat sz \<le> m \<and> unat p + m < 2 ^ 64 \<and>
      regions h' - R = insert (p, m) (regions h - R) \<and> (\<forall>n. (p, n) \<notin> regions h - R))"
    using l malloc_arena [OF m(1)] i by blast
qed

lemma other_region:
  assumes "inv h" "R \<subseteq> regions h"
  shows "fst ` (regions h - R) \<inter> fst ` R = {}"
proof (rule ccontr)
  assume "fst ` (regions h - R) \<inter> fst ` R \<noteq> {}"
  then obtain p n m where "(p, n) \<in> regions h - R" "(p, m) \<in> R" by force
  then show False using region_unique [OF assms(1), of p n m] assms(2) by blast
qed

end

lemma vfs_frame:
  assumes "vfs_inv hinv regions arena root kids s" "hinv h" "regions (vheap s) \<subseteq> regions h" "arena h = arena (vheap s)"
  shows "vfs_inv hinv regions arena root kids (s\<lparr>vheap := h\<rparr>)"
proof -
  have "file_ok regions s x \<Longrightarrow> file_ok regions (s\<lparr>vheap := h\<rparr>) x" for x
    using assms(3) by (fastforce simp: file_ok_def split: option.splits)
  then show ?thesis using assms unfolding vfs_inv_def by simp blast
qed

text \<open>The scheduler's invariants for a part of the heap are its invariants on the whole.\<close>

lemma sched_inv_whole: "sched_inv (\<lambda>h. hinv h \<and> R \<subseteq> regions h \<and> arena h = A) (\<lambda>h. regions h - R) xs s \<Longrightarrow> sched_inv hinv regions xs s"
  unfolding sched_inv_def by blast

section \<open>The steps of the start\<close>

lemma say_ok:
  assumes "512 \<le> length (print_buf j)" "37 \<notin> set m"
  shows "\<exists>t. say j m s = Some (s\<lparr>messages := t\<rparr>)"
proof -
  have "\<exists>t. kprintf (print_buf j) m [] (messages s) = Some t"
    using assms(2) vsnprintf_lemma [OF assms(1)] plain_format [of m] by (simp add: kprintf_def)
  then show ?thesis by (auto simp: say_def)
qed

lemma console_ok:
  assumes "512 \<le> length (print_buf j)" "fb_ok (fb (messages (k_ps2 k)))"
  shows "\<exists>t. console_up P f j k = Some (k\<lparr>k_ps2 := (k_ps2 k)\<lparr>device := serial_init P (device (k_ps2 k)), messages := t\<rparr>\<rparr>)"
proof -
  have "\<exists>t. kprintf (print_buf j) ([10] @ bytes ''choco-os: booting'' @ [10]) [] (messages (k_ps2 k)) = Some t \<and> fb t = fb (messages (k_ps2 k))"
    using vsnprintf_lemma [OF assms(1)] plain_format [of "[10] @ bytes ''choco-os: booting'' @ [10]"]
    by (simp add: kprintf_def serial_out_def)
  then obtain t where t: "kprintf (print_buf j) ([10] @ bytes ''choco-os: booting'' @ [10]) [] (messages (k_ps2 k)) = Some t" "fb t = fb (messages (k_ps2 k))"
    by blast
  from clear_lemma [OF assms(2)] obtain s where "framebuffer_clear TERM_COLOR_BLACK (fb (messages (k_ps2 k))) = Some s" by blast
  then have "\<exists>u. term_init f t = Some u" using t(2) by (simp add: term_init_def term_clear_def on_fb_def)
  then show ?thesis using t(1) unfolding console_up_def Let_def say_def by auto
qed

text \<open>
  A memory map that serves: usable regions of whole pages below 2^52, room for the bitmap of the page allocator at \<open>b\<close>,
  and a run of 24 MiB beside it for the heap; the direct map at \<open>off\<close> does not wrap, and ends below the kernel's root node.
\<close>

definition good_memory :: "mm_entry list \<Rightarrow> nat \<Rightarrow> u64 \<Rightarrow> u64 \<Rightarrow> bool" where
  "good_memory es b off root \<longleftrightarrow> usable_aligned es \<and> 4096 \<le> highest_addr es 0 \<and> highest_addr es 0 \<le> 2 ^ 52 \<and>
     find_bitmap (bitmap_bytes es) es = Some b \<and>
     (\<exists>t\<ge>1. \<forall>p. t \<le> p \<and> p < t + 6144 \<longrightarrow> usable_page es p \<and> \<not> (b \<le> 4096 * p \<and> 4096 * p < b + bitmap_bytes es)) \<and>
     16 dvd unat off \<and> unat off + highest_addr es 0 < unat root"

lemma usable_below_top:
  assumes "usable_aligned es" "usable_page es p"
  shows "p < highest_addr es 0 div 4096"
proof -
  from assms(2) obtain e where e: "e \<in> set es" "mm_kind e = Usable" "4096 * p < mm_base e + mm_length e" by (auto simp: usable_page_def)
  then have "4096 dvd mm_base e + mm_length e" using assms(1) by (simp add: usable_aligned_def)
  then obtain q where q: "mm_base e + mm_length e = 4096 * q" ..
  have "mm_base e + mm_length e \<le> highest_addr es 0" using e(1,2) highest_addr_ge by (simp add: counts_for_top_def)
  then have "q \<le> highest_addr es 0 div 4096" using q by simp
  then show ?thesis using e(3) q by simp
qed

text \<open>A run of pages that the memory map offers is free after \<open>pmm\_init\<close>.\<close>

lemma free_pages:
  assumes g: "good_memory es b off root" and m: "1 \<le> t" "0 < m"
    and run: "\<forall>p. t \<le> p \<and> p < t + m \<longrightarrow> usable_page es p \<and> \<not> (b \<le> 4096 * p \<and> 4096 * p < b + bitmap_bytes es)"
  shows "\<exists>pm. pmm_init (Some es) True r = Some pm \<and> pmm_inv pm \<and> highest_page pm = highest_addr es 0 div 4096 \<and>
    t + m \<le> highest_page pm \<and> free_run (bitmap pm) t m"
proof -
  let ?H = "highest_addr es 0"
  have G: "usable_aligned es" "4096 \<le> ?H" "?H \<le> 2 ^ 52" "find_bitmap (bitmap_bytes es) es = Some b"
    using g by (simp_all add: good_memory_def)
  from pmm_init_lemma [OF G, of r] obtain pm where pm: "pmm_init (Some es) True r = Some pm" "pmm_inv pm"
    "highest_page pm = ?H div 4096" "{p. p < 8 * length (bitmap pm) \<and> \<not> used (bitmap pm) p} =
      {p. p \<noteq> 0 \<and> usable_page es p \<and> \<not> (b \<le> 4096 * p \<and> 4096 * p < b + bitmap_bytes es)}" by blast
  have free: "\<not> used (bitmap pm) p" if "t \<le> p" "p < t + m" for p
  proof -
    have "p \<in> {p. p \<noteq> 0 \<and> usable_page es p \<and> \<not> (b \<le> 4096 * p \<and> 4096 * p < b + bitmap_bytes es)}" using run m(1) that by auto
    then show ?thesis unfolding pm(4) [symmetric] by simp
  qed
  have "usable_page es (t + (m - 1))" using run m(2) by simp
  from usable_below_top [OF G(1) this] have "t + m \<le> highest_page pm" using pm(3) m(2) by simp
  moreover have "free_run (bitmap pm) t m" using free by (simp add: free_run_def)
  ultimately show ?thesis using pm by blast
qed

lemma memory_ok:
  assumes g: "good_memory es b off root" and i: "memmap info = Some es" "hhdm_offset info = Some off"
  shows "\<exists>pm h. memory_up info k = Some (k\<lparr>k_pmm := pm, k_vfs := (k_vfs k)\<lparr>vheap := h\<rparr>, k_vmm := vmm_init (Some off) (boot_cr3 info) (k_vmm k)\<rparr>) \<and>
    pmm_inv pm \<and> heap_ok h \<and> root \<notin> heap_arena h"
proof -
  let ?H = "highest_addr es 0"
  have G: "usable_aligned es" "4096 \<le> ?H" "?H \<le> 2 ^ 52" "find_bitmap (bitmap_bytes es) es = Some b" "16 dvd unat off" "unat off + ?H < unat root"
    using g by (simp_all add: good_memory_def)
  from g obtain t where t: "1 \<le> t" "\<forall>p. t \<le> p \<and> p < t + 6144 \<longrightarrow> usable_page es p \<and> \<not> (b \<le> 4096 * p \<and> 4096 * p < b + bitmap_bytes es)"
    by (auto simp: good_memory_def)
  from free_pages [OF g t(1) _ t(2), of "ram info"] obtain pm where pm: "pmm_init (Some es) True (ram info) = Some pm" "pmm_inv pm"
    "highest_page pm = ?H div 4096" "t + 6144 \<le> highest_page pm" "free_run (bitmap pm) t 6144" by auto
  then have run: "\<exists>t. 1 \<le> t \<and> t + 6144 \<le> highest_page pm \<and> free_run (bitmap pm) t 6144" using t(1) by blast
  have hp: "4096 * highest_page pm \<le> ?H" using pm(3) by simp
  have "unat off + 4096 * highest_page pm < 2 ^ 64" using hp G(6) unat_less_2p [of root] by simp
  from heap_init_sound [OF pm(2) G(5) this, of "vheap (k_vfs k)"] run obtain h pm' p n where h:
    "heap_init off pm (vheap (k_vfs k)) = Some (h, pm')" "1 \<le> p" "p + n \<le> highest_page pm"
    "heap_inv (unat off + 4096 * p) [(4096 * n - 32, True)] h" "pmm_inv pm'" "6144 \<le> n" by blast
  have T: "seg_total [(4096 * n - 32, True)] = 4096 * n" using h(6) by simp
  have H: "heap_head h = of_nat (unat off + 4096 * p)" "total_size h = of_nat (4096 * n)"
    using h(4) unfolding heap_inv_def T by simp_all
  have le: "unat off + 4096 * p + 4096 * n < unat root" using h(3) hp G(6) by simp
  have "heap_head h + total_size h = of_nat (unat off + 4096 * p + 4096 * n)" unfolding H by (simp only: of_nat_add)
  moreover have "unat (of_nat (unat off + 4096 * p + 4096 * n) :: u64) = unat off + 4096 * p + 4096 * n"
    using le unat_less_2p [of root] by (intro unat_of_nat_small) simp
  ultimately have "unat (heap_head h + total_size h) < unat root" using le by simp
  then have "root \<notin> heap_arena h" by (auto simp: heap_arena_def word_le_nat_alt)
  moreover have "heap_ok h" using h(4) unfolding heap_ok_def by blast
  ultimately show ?thesis using h(1,5) pm(1) i by (auto simp: memory_up_def)
qed

lemma heap_init_pages:
  assumes "pmm_inv pm" "heap_init off pm h = Some (h', pm')"
  shows "highest_page pm' = highest_page pm"
proof -
  obtain ph w pm1 where c: "heap_claim HEAP_MAX pm = Some (ph, w, pm1)"
    "if ph = 0 then pm1 = pm \<and> \<not> (\<exists>t. 1 \<le> t \<and> t + 6144 \<le> highest_page pm \<and> free_run (bitmap pm) t 6144)
     else (\<exists>i\<le>5. w = 3 * 2 ^ (23 + i)) \<and> first_fit_outcome (w div 4096) pm ph pm1"
    using heap_claim_spec [OF assms(1), of 5] by (auto simp: HEAP_MAX_def)
  then have "highest_page pm1 = highest_page pm" by (auto simp: first_fit_outcome_def split: if_splits)
  moreover have "pm' = pm1" using assms(2) c(1) by (auto simp: heap_init_def Let_def split: if_splits)
  ultimately show ?thesis by simp
qed

text \<open>What the heap leaves: of a run longer than the heap's 768 MiB by \<open>2 n\<close> pages, \<open>n\<close> in a row stay.\<close>

lemma memory_left:
  assumes g: "good_memory es b off root" and i: "memmap info = Some es" "hhdm_offset info = Some off" and n: "1 \<le> t" "0 < n"
    and run: "\<forall>p. t \<le> p \<and> p < t + (196608 + 2 * n) \<longrightarrow> usable_page es p \<and> \<not> (b \<le> 4096 * p \<and> 4096 * p < b + bitmap_bytes es)"
    and up: "memory_up info k = Some k'"
  shows "room n (k_pmm k')"
proof -
  let ?H = "highest_addr es 0"
  have G: "16 dvd unat off" "unat off + ?H < unat root" using g by (simp_all add: good_memory_def)
  from free_pages [OF g n(1) _ run, of "ram info"] n(2) obtain pm where pm: "pmm_init (Some es) True (ram info) = Some pm" "pmm_inv pm"
    "highest_page pm = ?H div 4096" "t + (196608 + 2 * n) \<le> highest_page pm" "free_run (bitmap pm) t (196608 + 2 * n)" by auto
  have "4096 * highest_page pm \<le> ?H" using pm(3) by simp
  then have "unat off + 4096 * highest_page pm < 2 ^ 64" using G(2) unat_less_2p [of root] by simp
  from heap_init_sound [OF pm(2) G(1) this, of "vheap (k_vfs k)"] have "room n pm'"
    if h: "heap_init off pm (vheap (k_vfs k)) = Some (h, pm')" for h pm'
  proof (elim disjE exE conjE)
    assume "heap_init off pm (vheap (k_vfs k)) = Some (vheap (k_vfs k), pm)"
    then have "pm' = pm" using h by simp
    then show ?thesis using pm(4,5) n(1) by (auto simp: room_def free_run_def intro!: exI [of _ t])
  next
    fix h' pm1 p m assume a: "heap_init off pm (vheap (k_vfs k)) = Some (h', pm1)" "m \<le> 196608"
      "\<forall>c. used (bitmap pm1) c \<longleftrightarrow> p \<le> c \<and> c < p + m \<or> used (bitmap pm) c" "pmm_inv pm1"
    have pm1: "pm' = pm1" using a(1) h by simp
    have hi: "highest_page pm' = highest_page pm" by (rule heap_init_pages [OF pm(2) h])
    show ?thesis
    proof (cases "t + n \<le> p")
      case True
      then have "free_run (bitmap pm') t n" using a(3) pm(5) by (auto simp: free_run_def pm1)
      then show ?thesis using n(1) pm(4) hi by (auto simp: room_def intro!: exI [of _ t])
    next
      case False
      have "\<not> used (bitmap pm) (t + (196608 + n + i))" if "i < n" for i using pm(5) that by (simp add: free_run_def)
      with False have "free_run (bitmap pm') (t + (196608 + n)) n" using a(2,3) by (auto simp: free_run_def pm1 add.assoc)
      then show ?thesis using n(1) pm(4) hi by (auto simp: room_def intro!: exI [of _ "t + (196608 + n)"])
    qed
  qed
  then show ?thesis using up pm(1) i by (auto simp: memory_up_def bind_eq_Some_conv)
qed

lemma memory_up_pmm:
  "vheap (k_vfs k1) = vheap (k_vfs k) \<Longrightarrow> map_option k_pmm (memory_up info k1) = map_option k_pmm (memory_up info k)"
  by (auto simp: memory_up_def map_option_case split: Option.bind_split option.splits)

lemma kprintf_some:
  assumes "512 \<le> length junk" "format_text fmt args \<noteq> None"
  shows "\<exists>u. kprintf junk fmt args t = Some u"
  using assms(2) vsnprintf_lemma [OF assms(1)] by (auto simp: kprintf_def)

lemma kprintf_line: "512 \<le> length junk \<Longrightarrow> 37 \<notin> set m \<Longrightarrow> \<exists>u. kprintf junk (m @ [10]) [] t = Some u"
  by (rule kprintf_some) (simp_all add: plain_format)

lemma timer_line: "format_text (bytes ''timer: PIT at %d Hz'' @ [10]) [Num w] \<noteq> None"
  by (simp add: directive_def convert_text_def Let_def)

text \<open>The controller as the boot loader hands it over: idle, with one byte at most, that is ready to be read.\<close>

definition quiet :: "kbc \<Rightarrow> bool" where
  "quiet c \<longleftrightarrow> k_mode c = To_keyboard \<and> k_busy c = 0 \<and> length (k_out c) \<le> 1 \<and> (k_out c \<noteq> [] \<longrightarrow> k_wait c = 0)"

lemma devices_ok:
  assumes dev: "i8042 P V" "prompt P V" and j: "512 \<le> length (print_buf j)" and m: "quiet (V (device (k_ps2 k)))"
    and one: "\<not> k_second (V (device (k_ps2 k))) \<Longrightarrow> k_conf (V (device (k_ps2 k))) AND 0x20 = 0"
  shows "\<exists>s. devices_up P j k = Some (Running (k\<lparr>k_ps2 := s\<rparr>)) \<and> dual_channel s = k_second (V (device (k_ps2 k)))"
proof -
  have q: "k_mode (V (device (k_ps2 k))) = To_keyboard" "k_busy (V (device (k_ps2 k))) = 0"
    "length (k_out (V (device (k_ps2 k)))) \<le> 1" "k_out (V (device (k_ps2 k))) \<noteq> [] \<Longrightarrow> k_wait (V (device (k_ps2 k))) = 0"
    using m by (auto simp: quiet_def)
  from ps2_up_lemma [OF dev j q one] obtain t u where u: "ps2_init_controller P j (k_ps2 k) = Some (Running t)" "keyboard_init P j t = Some u"
    "dual_channel u = k_second (V (device (k_ps2 k)))" by blast
  have "\<exists>d t. timer_init P (print_buf j) (device u) (messages u) = Some (d, t)"
  proof -
    obtain t where "kprintf (print_buf j) (bytes ''timer: PIT at %d Hz'' @ [10]) [Num (of_nat TIMER_HZ)] (messages u) = Some t"
      using kprintf_some [OF j timer_line] by blast
    then show ?thesis unfolding timer_init_def Let_def by simp
  qed
  then show ?thesis using u by (auto simp: devices_up_def)
qed

lemma interrupts_ok:
  assumes "512 \<le> length (print_buf j)" "length (at_stubs a) = 34"
  shows "\<exists>s i. interrupts_up P j a k = Some (k\<lparr>k_ps2 := s, k_idt := i\<rparr>) \<and> enabled i \<and> dual_channel s = dual_channel (k_ps2 k)"
proof -
  obtain t where 1: "kprintf (print_buf j) (bytes ''PIC initialized'' @ [10]) [] (messages (k_ps2 k)) = Some t"
    using kprintf_line [OF assms(1), of "bytes ''PIC initialized''"] by auto
  then obtain d where t: "pic_init P (print_buf j) (device (k_ps2 k)) (messages (k_ps2 k)) = Some (d, t)"
    unfolding pic_init_def Let_def by simp
  obtain u where 2: "kprintf (print_buf j) (bytes ''IDT initialized'' @ [10]) [] t = Some u"
    using kprintf_line [OF assms(1), of "bytes ''IDT initialized''"] by auto
  then obtain i where i: "idt_init (at_idt a) (at_stubs a) (at_isr_yield a) (print_buf j) (k_idt k) t = Some (i, u)" "enabled i"
    using assms(2) unfolding idt_init_def Let_def by simp
  then show ?thesis using t
    by (intro exI [of _ "(k_ps2 k)\<lparr>device := d, messages := u\<rparr>"] exI [of _ i]) (simp add: interrupts_up_def)
qed

section \<open>Threads beside the files\<close>

text \<open>
  \<open>waiting\_threads R A xs k\<close>: the ring holds the threads \<open>xs\<close>, none has run, and their memory is no region of \<open>R\<close>.
\<close>

definition waiting_threads :: "(u64 \<times> nat) set \<Rightarrow> u64 set \<Rightarrow> u64 list \<Rightarrow> ('c, 'd) kernel \<Rightarrow> bool" where
  "waiting_threads R A xs k \<longleftrightarrow>
     ring_inv (\<lambda>h. heap_ok h \<and> R \<subseteq> heap_regions h \<and> heap_arena h = A) (\<lambda>h. heap_regions h - R) xs (k_sched k\<lparr>sheap := vheap (k_vfs k)\<rparr>) \<and>
     (\<forall>x\<in>set xs. id_of (threads (k_sched k)) x \<noteq> 0 \<and> state_of (threads (k_sched k)) x = T_READY)"

lemma start_thread_ok:
  assumes w: "waiting_threads R A xs k" and n: "0 \<notin> set (bytes name)"
  shows "\<exists>s h ys. start_thread a name entry k = Some (k\<lparr>k_sched := s, k_vfs := (k_vfs k)\<lparr>vheap := h\<rparr>\<rparr>) \<and>
    waiting_threads R A ys (k\<lparr>k_sched := s, k_vfs := (k_vfs k)\<lparr>vheap := h\<rparr>\<rparr>)"
proof -
  let ?s = "k_sched k\<lparr>sheap := vheap (k_vfs k)\<rparr>" and ?inv = "\<lambda>h. heap_ok h \<and> R \<subseteq> heap_regions h \<and> heap_arena h = A"
  let ?reg = "\<lambda>h. heap_regions h - R"
  have rest: "heap_allocator kernel_heap ?reg ?inv heap_arena" by (rule kheap.rest_of_heap)
  have I: "ring_inv ?inv ?reg xs ?s" and F: "\<forall>x\<in>set xs. id_of (threads ?s) x \<noteq> 0 \<and> state_of (threads ?s) x = T_READY"
    using w by (simp_all add: waiting_threads_def)
  from heap_allocator.thread_create_lemma [OF rest I n, of "at_trampoline a" "[]" entry 0] show ?thesis
  proof (elim disjE exE conjE)
    fix h assume e: "thread_create kernel_heap (at_trampoline a) (bytes name @ [0]) entry 0 ?s = Some (- 1, ?s\<lparr>sheap := h\<rparr>)"
      and h: "heap_ok h" "R \<subseteq> heap_regions h" "heap_arena h = A" "heap_regions h - R = heap_regions (sheap ?s) - R"
    have "ring_inv ?inv ?reg xs (?s\<lparr>sheap := h, next_id := next_id ?s, stack_words := stack_words ?s\<rparr>)"
      by (rule heap_allocator.ring_inv_heap [OF rest I]) (use h in simp_all)
    then show ?thesis using e F
      by (intro exI [of _ "?s\<lparr>sheap := h\<rparr>"] exI [of _ h] exI [of _ xs]) (simp add: start_thread_def on_sched_def waiting_threads_def)
  next
    fix t s' assume e: "thread_create kernel_heap (at_trampoline a) (bytes name @ [0]) entry 0 ?s = Some (next_id ?s + 1, s')"
      and i: "ring_inv ?inv ?reg (insert_second t xs) s'" and t: "t \<notin> set xs" and c: "created (at_trampoline a) entry 0 (bytes name) ?s t s'"
    have "id_of (threads s') x \<noteq> 0 \<and> state_of (threads s') x = T_READY" if x: "x \<in> set (insert_second t xs)" for x
    proof (cases "x = t")
      case True
      then show ?thesis using c ring_invD(9) [OF I] by (auto simp: created_def)
    next
      case False
      then have xs: "x \<in> set xs" using x by simp
      then have "xs \<noteq> []" by auto
      then have d: "threads ?s x \<noteq> None" using path_dom [OF ring_invD(4) [OF I] xs] by auto
      have v: "view (threads ?s) x = view (threads s') x" using c False by (simp add: created_def)
      show ?thesis using bspec [OF F xs] unfolding view_fields(2,3) [OF v d] .
    qed
    moreover have "s'\<lparr>sheap := sheap s'\<rparr> = s'" by simp
    ultimately show ?thesis using e i
      by (intro exI [of _ s'] exI [of _ "sheap s'"] exI [of _ "insert_second t xs"])
        (simp add: start_thread_def on_sched_def waiting_threads_def del: insert_second_set)
  qed
qed

text \<open>The card's set-up has the memory that it takes, or there is no card.\<close>

lemma net_ok:
  assumes w: "waiting_threads R A xs k" and i: "pmm_inv (k_pmm k)" and j: "512 \<le> length (print_buf j)"
    and nic: "(\<forall>d. fst (pci_find P 0x8086 0x100E d) = None) \<or> room 138 (k_pmm k)"
  shows "\<exists>k' ys. net_up P R' j a k = Some k' \<and> waiting_threads R A ys k' \<and> (\<exists>h. k_vfs k' = (k_vfs k)\<lparr>vheap := h\<rparr>) \<and>
    k_idt k' = k_idt k \<and> dual_channel (k_ps2 k') = dual_channel (k_ps2 k)"
proof -
  have nic': "fst (pci_find P 0x8086 0x100E d) = None \<or> room 138 (k_pmm k)" for d using nic by blast
  obtain found nic pm d t where e: "e1000_init P R' (print_buf j) (vmm_hhdm_offset (k_vmm k)) (unat (vmm_switch_pml4 (k_vmm k) (kernel_pml4 (k_vmm k))))
       (k_nic k) (k_pmm k) (device (k_ps2 k)) (messages (k_ps2 k)) = Some (found, nic, pm, d, t)"
    using e1000_init_total [OF j i nic'] by blast
  define k1 where "k1 = k\<lparr>k_nic := nic, k_pmm := pm, k_ps2 := (k_ps2 k)\<lparr>device := d, messages := t\<rparr>\<rparr>"
  show ?thesis
  proof (cases found)
    case False
    then have "net_up P R' j a k = Some k1" using e by (simp add: net_up_def k1_def Let_def)
    moreover have "waiting_threads R A xs k1" using w by (simp add: waiting_threads_def k1_def)
    moreover have "k_vfs k1 = (k_vfs k)\<lparr>vheap := vheap (k_vfs k)\<rparr>" "k_idt k1 = k_idt k" "dual_channel (k_ps2 k1) = dual_channel (k_ps2 k)"
      by (simp_all add: k1_def)
    ultimately show ?thesis by blast
  next
    case True
    let ?k = "k1\<lparr>k_net := net_init (Some (e1000_get_mac nic)) (k_net k1)\<rparr>"
    have "waiting_threads R A xs ?k" using w by (simp add: waiting_threads_def k1_def)
    from start_thread_ok [OF this, of "''net-rx''" a "at_net_rx_thread a"] obtain s h ys where
      s: "start_thread a ''net-rx'' (at_net_rx_thread a) ?k = Some (?k\<lparr>k_sched := s, k_vfs := (k_vfs ?k)\<lparr>vheap := h\<rparr>\<rparr>)"
      "waiting_threads R A ys (?k\<lparr>k_sched := s, k_vfs := (k_vfs ?k)\<lparr>vheap := h\<rparr>\<rparr>)" by auto
    have "net_up P R' j a k = Some (?k\<lparr>k_sched := s, k_vfs := (k_vfs ?k)\<lparr>vheap := h\<rparr>\<rparr>)"
      using e True s(1) by (simp add: net_up_def k1_def Let_def)
    moreover have "k_vfs (?k\<lparr>k_sched := s, k_vfs := (k_vfs ?k)\<lparr>vheap := h\<rparr>\<rparr>) = (k_vfs k)\<lparr>vheap := h\<rparr>"
      "k_idt (?k\<lparr>k_sched := s, k_vfs := (k_vfs ?k)\<lparr>vheap := h\<rparr>\<rparr>) = k_idt k"
      "dual_channel (k_ps2 (?k\<lparr>k_sched := s, k_vfs := (k_vfs ?k)\<lparr>vheap := h\<rparr>\<rparr>)) = dual_channel (k_ps2 k)" by (simp_all add: k1_def)
    ultimately show ?thesis using s(2) by blast
  qed
qed

text \<open>\<open>sched\_start\<close> fails only without memory for the idle thread.\<close>

lemma sched_start_ok:
  assumes w: "waiting_threads R A xs k" and r: "(p, h) = the (malloc THREAD_SIZE (vheap (k_vfs k)))"
  shows "if p = 0 then on_sched (sched_start kernel_heap (k_ticks k)) k = None
    else \<exists>s ys idle. on_sched (sched_start kernel_heap (k_ticks k)) k = Some (k\<lparr>k_sched := s, k_vfs := (k_vfs k)\<lparr>vheap := sheap s\<rparr>\<rparr>) \<and>
      sched_inv (\<lambda>h. heap_ok h \<and> R \<subseteq> heap_regions h \<and> heap_arena h = A) (\<lambda>h. heap_regions h - R) ys s \<and> current s \<in> set ys - set xs"
proof -
  let ?s = "k_sched k\<lparr>sheap := vheap (k_vfs k)\<rparr>" and ?inv = "\<lambda>h. heap_ok h \<and> R \<subseteq> heap_regions h \<and> heap_arena h = A"
  let ?reg = "\<lambda>h. heap_regions h - R"
  have rest: "heap_allocator kernel_heap ?reg ?inv heap_arena" by (rule kheap.rest_of_heap)
  have I: "ring_inv ?inv ?reg xs ?s" and F: "\<And>x. x \<in> set xs \<Longrightarrow> id_of (threads ?s) x \<noteq> 0 \<and> state_of (threads ?s) x = T_READY"
    using w by (simp_all add: waiting_threads_def)
  have "THREAD_SIZE \<noteq> 0" "unat THREAD_SIZE \<le> 2 ^ 64 - 16" by (simp_all add: THREAD_SIZE_def)
  from heap_allocator.malloc_total [OF rest ring_invD(5) [OF I] this] have m: "malloc THREAD_SIZE (vheap (k_vfs k)) = Some (p, h)"
    using r by (auto simp: kernel_heap_def)
  show ?thesis
  proof (cases "p = 0")
    case True
    then show ?thesis using m by (simp add: on_sched_def sched_start_def kernel_heap_def)
  next
    case False
    have "ring ?s = 0 \<or> (\<exists>rt. threads ?s (ring ?s) = Some rt)"
      using ring_invD(3,4) [OF I] by (cases xs) (auto split: option.splits)
    then have ins: "\<exists>s2. ring_insert p th (?s\<lparr>sheap := h\<rparr>) = Some s2" for th by (auto simp: ring_insert_def)
    obtain nm where nm: "c_strcpy (replicate 24 0) [105, 100, 108, 101, 0] = Some nm" using idle_name by blast
    obtain s2 where "ring_insert p \<lparr>fxsave = fxarea_init, t_rsp = 0, t_id = 0, t_name = nm, t_state = T_RUNNING,
           wake_tick = 0, stack_base = 0, t_next = 0\<rparr> (?s\<lparr>sheap := h\<rparr>) = Some s2" using ins by blast
    then have "sched_start kernel_heap (k_ticks k) ?s = Some (s2\<lparr>current := p, slice_start := k_ticks k, active := True\<rparr>)"
      using m False nm by (simp add: sched_start_def kernel_heap_def)
    then obtain s where s: "sched_start kernel_heap (k_ticks k) ?s = Some s" by blast
    from heap_allocator.sched_start_lemma [OF rest I F s] obtain t where t: "t \<notin> set xs" "current s = t"
      "sched_inv ?inv ?reg (insert_second t xs) s" by blast
    have "current s \<in> set (insert_second t xs) - set xs" using t(1,2) by simp
    moreover have "on_sched (sched_start kernel_heap (k_ticks k)) k = Some (k\<lparr>k_sched := s, k_vfs := (k_vfs k)\<lparr>vheap := sheap s\<rparr>\<rparr>)"
      using s by (simp add: on_sched_def)
    ultimately show ?thesis unfolding if_not_P [OF False] using t(3) by blast
  qed
qed

text \<open>The memory that the files and the threads own.\<close>

definition file_blocks :: "u64 \<Rightarrow> heap vfs \<Rightarrow> u64 set" where
  "file_blocks root s = {x. nodes s x \<noteq> None \<and> x \<noteq> root} \<union>
     {v_data n |x n. nodes s x = Some n \<and> \<not> v_is_dir n \<and> \<not> v_readonly n \<and> v_data n \<noteq> 0}"

definition thread_blocks :: "u64 list \<Rightarrow> heap sched \<Rightarrow> u64 set" where
  "thread_blocks xs s = (\<Union>x\<in>set xs. set (blocks_of (threads s) x))"

lemma file_blocks_regions:
  assumes "fs_inv root kids s"
  shows "file_blocks root s \<subseteq> fst ` heap_regions (vheap s)"
proof
  fix x assume "x \<in> file_blocks root s"
  then consider n where "nodes s x = Some n" "x \<noteq> root"
    | y n where "nodes s y = Some n" "\<not> v_is_dir n" "\<not> v_readonly n" "v_data n \<noteq> 0" "x = v_data n"
    by (auto simp: file_blocks_def)
  then have "\<exists>m. (x, m) \<in> heap_regions (vheap s)"
  proof cases
    case 1
    then show ?thesis using assms by (auto simp: vfs_inv_def)
  next
    case 2
    then have "file_ok heap_regions s y" using assms by (auto simp: vfs_inv_def)
    then show ?thesis using 2 by (auto simp: file_ok_def)
  qed
  then show "x \<in> fst ` heap_regions (vheap s)" by force
qed

lemma thread_blocks_apart:
  assumes "sched_inv (\<lambda>h. heap_ok h \<and> R \<subseteq> heap_regions h \<and> heap_arena h = A) (\<lambda>h. heap_regions h - R) xs s"
    "B \<subseteq> fst ` R"
  shows "B \<inter> thread_blocks xs s = {}"
proof -
  have "thread_blocks xs s \<subseteq> fst ` (heap_regions (sheap s) - R)" using sched_invD(8) [OF assms(1)] by (simp add: thread_blocks_def)
  moreover have "fst ` (heap_regions (sheap s) - R) \<inter> fst ` R = {}"
    using kheap.other_region sched_invD(6) [OF assms(1)] by blast
  ultimately show ?thesis using assms(2) by blast
qed

lemma serial_init_elsewhere:
  assumes "\<And>port v d. port \<noteq> 0x60 \<Longrightarrow> port \<noteq> 0x64 \<Longrightarrow> V (outb P port v d) = V d"
  shows "V (serial_init P d) = V d"
  by (simp add: serial_init_def COM1_def assms)

lemma first_threads:
  assumes "fs_inv root kids (k_vfs k)" "next_id (k_sched k) = 0"
  shows "waiting_threads (heap_regions (vheap (k_vfs k))) (heap_arena (vheap (k_vfs k))) [] (k\<lparr>k_sched := sched_init (k_sched k)\<rparr>)"
  using assms by (simp add: waiting_threads_def ring_inv_def sched_init_def vfs_inv_def)

text \<open>The state in which the last call finds the kernel.\<close>

lemma kernel_boot_ok:
  assumes rev: "revision_supported info" and junk: "512 \<le> length (print_buf j)" and stubs: "length (at_stubs a) = 34"
    and screen: "fb_ok (fb (messages (k_ps2 k)))"
    and mem: "memmap info = Some es" "hhdm_offset info = Some off" "good_memory es b off (at_root a)"
    and files: "nodes (k_vfs k) = Map.empty" "next_id (k_sched k) = 0"
      "\<And>tar. module_find (modules info) initrd_name = Some tar \<Longrightarrow> tar_ok (mod_bytes tar) 0"
    and ps2: "i8042 P V" "prompt P V" "\<And>port v d. port \<noteq> 0x60 \<Longrightarrow> port \<noteq> 0x64 \<Longrightarrow> V (outb P port v d) = V d"
      "quiet (V (device (k_ps2 k)))"
      "\<not> k_second (V (device (k_ps2 k))) \<Longrightarrow> k_conf (V (device (k_ps2 k))) AND 0x20 = 0"
    and nic: "(\<forall>d. fst (pci_find P 0x8086 0x100E d) = None) \<or> (\<forall>k'. memory_up info k = Some k' \<longrightarrow> room 138 (k_pmm k'))"
  shows "\<exists>k1 v kids h xs. kernel_boot P R f j tj a info k = Some (Running k1) \<and> enabled (k_idt k1) \<and>
    dual_channel (k_ps2 k1) = k_second (V (device (k_ps2 k))) \<and> fs_inv (at_root a) kids v \<and> k_vfs k1 = v\<lparr>vheap := h\<rparr> \<and>
    waiting_threads (heap_regions (vheap v)) (heap_arena (vheap v)) xs k1"
proof -
  let ?two = "k_second (V (device (k_ps2 k)))"
  from console_ok [OF junk, of "enable_sse k" P f] screen obtain t where
    1: "console_up P f j (enable_sse k) = Some ((enable_sse k)\<lparr>k_ps2 := (k_ps2 k)\<lparr>device := serial_init P (device (k_ps2 k)), messages := t\<rparr>\<rparr>)"
    by (auto simp: enable_sse_def)
  define ka where "ka = (enable_sse k)\<lparr>k_ps2 := (k_ps2 k)\<lparr>device := serial_init P (device (k_ps2 k)), messages := t\<rparr>\<rparr>"
  have a: "V (device (k_ps2 ka)) = V (device (k_ps2 k))" "k_vfs ka = k_vfs k" "k_sched ka = k_sched k"
    using serial_init_elsewhere [of V P, OF ps2(3)] by (simp_all add: ka_def enable_sse_def)
  from memory_ok [OF mem(3,1,2), of ka] obtain pm h0 where
    2: "memory_up info ka = Some (ka\<lparr>k_pmm := pm, k_vfs := (k_vfs ka)\<lparr>vheap := h0\<rparr>, k_vmm := vmm_init (Some off) (boot_cr3 info) (k_vmm ka)\<rparr>)"
    "pmm_inv pm" "heap_ok h0" "at_root a \<notin> heap_arena h0" by blast
  have "map_option k_pmm (memory_up info k) = Some pm"
    using memory_up_pmm [of ka k info] 2(1) a(2) by simp
  then have left: "(\<forall>d. fst (pci_find P 0x8086 0x100E d) = None) \<or> room 138 pm" using nic by auto
  define kb where "kb = ka\<lparr>k_pmm := pm, k_vfs := (k_vfs ka)\<lparr>vheap := h0\<rparr>, k_vmm := vmm_init (Some off) (boot_cr3 info) (k_vmm ka)\<rparr>"
  have b: "V (device (k_ps2 kb)) = V (device (k_ps2 k))" "k_vfs kb = (k_vfs k)\<lparr>vheap := h0\<rparr>" "k_sched kb = k_sched k" "k_pmm kb = pm"
    using a by (simp_all add: kb_def)
  from devices_ok [OF ps2(1,2) junk, of kb] ps2(4,5) obtain s where 3: "devices_up P j kb = Some (Running (kb\<lparr>k_ps2 := s\<rparr>))" "dual_channel s = ?two"
    unfolding b(1) by blast
  have r0: "at_root a \<noteq> 0" using mem(3) by (auto simp: good_memory_def)
  have "\<exists>v kids. initrd_init kernel_heap tj (at_root a) (modules info) (k_vfs kb) = Some v \<and> fs_inv (at_root a) kids v"
    by (rule kheap.initrd_inv) (use files(1,3) 2(3,4) r0 in \<open>simp_all add: b(2)\<close>)
  then obtain v kids where v: "initrd_init kernel_heap tj (at_root a) (modules info) (k_vfs kb) = Some v" "fs_inv (at_root a) kids v" by blast
  define kc where "kc = kb\<lparr>k_ps2 := s, k_vfs := v\<rparr>"
  have 4: "files_up tj a info (kb\<lparr>k_ps2 := s\<rparr>) = Some kc" using v(1) by (simp add: files_up_def kc_def)
  from interrupts_ok [OF junk stubs, of P kc] obtain s' i where 5: "interrupts_up P j a kc = Some (kc\<lparr>k_ps2 := s', k_idt := i\<rparr>)"
    "enabled i" "dual_channel s' = dual_channel (k_ps2 kc)" by blast
  define kd where "kd = kc\<lparr>k_ps2 := s', k_idt := i\<rparr>"
  have d: "k_vfs kd = v" "k_sched kd = k_sched k" "k_pmm kd = pm" "k_idt kd = i" "dual_channel (k_ps2 kd) = ?two"
    using b(3,4) 3(2) 5(3) by (simp_all add: kd_def kc_def)
  let ?ke = "kd\<lparr>k_sched := sched_init (k_sched kd)\<rparr>" and ?R = "heap_regions (vheap v)" and ?A = "heap_arena (vheap v)"
  have "waiting_threads ?R ?A [] ?ke" using first_threads [of "at_root a" kids kd] v(2) files(2) unfolding d(1,2) by blast
  from net_ok [OF this _ junk, of P R a] left 2(2) obtain kf ys h1 where 6: "net_up P R j a ?ke = Some kf" "waiting_threads ?R ?A ys kf"
    "k_vfs kf = (k_vfs ?ke)\<lparr>vheap := h1\<rparr>" "k_idt kf = k_idt ?ke" "dual_channel (k_ps2 kf) = dual_channel (k_ps2 ?ke)"
    by (auto simp: d(3))
  from start_thread_ok [OF 6(2), of "''shell''" a "at_shell_thread a"] obtain s2 h2 xs where
    7: "start_thread a ''shell'' (at_shell_thread a) kf = Some (kf\<lparr>k_sched := s2, k_vfs := (k_vfs kf)\<lparr>vheap := h2\<rparr>\<rparr>)"
    "waiting_threads ?R ?A xs (kf\<lparr>k_sched := s2, k_vfs := (k_vfs kf)\<lparr>vheap := h2\<rparr>\<rparr>)" by auto
  let ?k1 = "kf\<lparr>k_sched := s2, k_vfs := (k_vfs kf)\<lparr>vheap := h2\<rparr>\<rparr>"
  have "kernel_boot P R f j tj a info k = Some (Running ?k1)"
    unfolding kernel_boot_def using rev
    by (simp add: 1 [folded ka_def] 2(1) [folded kb_def] 3(1) 4 5(1) [folded kd_def] 6(1) 7(1))
  moreover have "enabled (k_idt ?k1)" "dual_channel (k_ps2 ?k1) = ?two" "k_vfs ?k1 = v\<lparr>vheap := h2\<rparr>"
    using 6(3,4,5) d 5(2) by simp_all
  ultimately show ?thesis using v(2) 7(2) by blast
qed

section \<open>Property\<close>


text \<open>
  A machine with 1 GiB of memory, the controller and the mouse of \<open>kbc\_ports\<close>, no modules, and the card as the
  first device of the PCI bus, its registers at 0xFEB80000: the configuration space is read at the address written last.
\<close>

definition pc_config :: "u32 \<Rightarrow> u32" where
  "pc_config a = (if a = 0x80000000 then 0x100E8086 else if a = 0x80000004 then 0x00100003
     else if a = 0x80000010 then 0xFEB80000 else 0xFFFFFFFF)"

definition pc_ports :: "(kbc \<times> u32) ports" where
  "pc_ports = \<lparr>inb = (\<lambda>port (k, a). case inb kbc_ports port k of (v, k) \<Rightarrow> (v, k, a)),
     outb = (\<lambda>port v (k, a). (outb kbc_ports port v k, a)),
     inl = (\<lambda>port (k, a). (if port = 0xCFC then pc_config a else 0xFFFFFFFF, k, a)),
     outl = (\<lambda>port v (k, a). (k, if port = 0xCF8 then v else a))\<rparr>"

lemma pc_i8042: "i8042 pc_ports fst" "prompt pc_ports fst"
proof -
  have "i8042 pc_ports fst = i8042 kbc_ports (\<lambda>k. k)" by (simp add: i8042_def pc_ports_def case_prod_unfold)
  then show "i8042 pc_ports fst" using kbc_ports_ok by simp
  have "prompt pc_ports fst = prompt kbc_ports (\<lambda>k. k)" by (simp add: prompt_def pc_ports_def case_prod_unfold)
  then show "prompt pc_ports fst" using kbc_ports_ok by simp
qed

lemma pc_card: "fst (pci_find pc_ports 0x8086 0x100E d) \<noteq> None"
proof -
  obtain k a where d: "d = (k, a)" by (cases d)
  have 0: "[0..<256] = 0 # [1..<256]" "[0..<32] = 0 # [1..<32]" "[0..<8] = 0 # [1..<8]" by (simp_all add: upt_conv_Cons)
  have rd: "pci_read32 pc_ports 0 0 0 0 (k, a) = (0x100E8086, k, 0x80000000)"
    by (simp add: pci_read32_def pc_ports_def pc_config_def config_address_def PCI_CONFIG_ADDR_def PCI_CONFIG_DATA_def)
  show ?thesis unfolding pci_find_def 0 d by (simp add: 0 rd)
qed

definition sample_memory :: "mm_entry list" where
  "sample_memory = [\<lparr>mm_base = 0, mm_length = 1073741824, mm_kind = Usable\<rparr>]"

lemma sample_memory_numbers: "highest_addr sample_memory 0 = 1073741824" "bitmap_bytes sample_memory = 32768"
  by (simp_all add: sample_memory_def bitmap_bytes_def counts_for_top_def)

lemma sample_memory_run:
  assumes "8 \<le> p" "p < 262144"
  shows "usable_page sample_memory p \<and> \<not> (0 \<le> 4096 * p \<and> 4096 * p < 0 + bitmap_bytes sample_memory)"
  using assms unfolding sample_memory_numbers by (simp add: usable_page_def sample_memory_def)

lemma sample_memory_good: "good_memory sample_memory 0 0xffff800000000000 0xffffffff80000000"
proof -
  have "\<forall>p. 8 \<le> p \<and> p < 8 + 6144 \<longrightarrow> usable_page sample_memory p \<and> \<not> (0 \<le> 4096 * p \<and> 4096 * p < 0 + bitmap_bytes sample_memory)"
    using sample_memory_run by simp
  then have r: "\<exists>t\<ge>1. \<forall>p. t \<le> p \<and> p < t + 6144 \<longrightarrow>
      usable_page sample_memory p \<and> \<not> (0 \<le> 4096 * p \<and> 4096 * p < 0 + bitmap_bytes sample_memory)"
    by (intro exI [of _ 8]) simp
  have "find_bitmap 32768 sample_memory = Some 0" "usable_aligned sample_memory" by (simp_all add: sample_memory_def usable_aligned_def)
  then show ?thesis unfolding good_memory_def using r sample_memory_numbers by (simp add: dvd_eq_mod_eq_0)
qed

definition sample_info :: boot_info where
  "sample_info = \<lparr>revision_supported = True, memmap = Some sample_memory, hhdm_offset = Some 0xffff800000000000, modules = None,
     boot_cr3 = 0x1000, ram = (\<lambda>_. 0)\<rparr>"

lemma sample_memory_left: "memory_up sample_info k = Some k' \<Longrightarrow> room 138 (k_pmm k')"
  by (rule memory_left [OF sample_memory_good, where t = 8 and info = sample_info])
    (use sample_memory_run in \<open>simp_all add: sample_info_def\<close>)

definition sample_addresses :: addresses where
  "sample_addresses = \<lparr>at_idt = 0xffffffff80010000, at_stubs = replicate 34 0xffffffff80001000, at_isr_yield = 0xffffffff80001100,
     at_trampoline = 0xffffffff80001200, at_shell_thread = 0xffffffff80001300, at_net_rx_thread = 0xffffffff80001400,
     at_root = 0xffffffff80000000\<rparr>"

definition sample_kernel :: "(u32 \<Rightarrow> u32, kbc \<times> u32) kernel" where
  "sample_kernel = \<lparr>k_cr0 = 0, k_cr4 = 0,
     k_ps2 = \<lparr>device = (device sample_ps2, 0), dual_channel = False, messages = sample_term\<rparr>,
     k_pmm = \<lparr>bitmap = [], highest_page = 0, phys = \<lambda>_. 0\<rparr>,
     k_vmm = \<lparr>vmm_hhdm_offset = 0, kernel_pml4 = 0\<rparr>, k_vfs = \<lparr>nodes = Map.empty, objects = Map.empty, vheap = sample_heap\<rparr>,
     k_idt = sample_idt, k_sched = boot_sched\<lparr>next_id := 0\<rparr>, k_ticks = 0, k_nic = sample_nic, k_net = net_boot\<rparr>"


end
