(* ===== verification/SelfTest.thy ===== *)
theory SelfTest
  imports Shell
begin

text \<open>
  The self-test of the heap, \<open>test\_malloc\<close> of \<open>heap.c\<close>, as the command \<open>testmalloc\<close> runs it on the heap the file
  system uses: what it reports and what it leaves behind. A NULL result of the first \<open>malloc\<close> is written to: \<open>None\<close>.
\<close>

section \<open>The test\<close>

definition on_heap :: "(heap \<Rightarrow> ('r \<times> heap) option) \<Rightarrow> shell \<Rightarrow> ('r \<times> shell) option" where
  "on_heap op sh = map_option (\<lambda>(r, h). (r, sh\<lparr>files := (files sh)\<lparr>vheap := h\<rparr>\<rparr>)) (op (vheap (files sh)))"

definition write_pattern :: "u64 \<Rightarrow> heap \<Rightarrow> heap" where
  "write_pattern p h = h\<lparr>payload := fold (\<lambda>i m. m(p + of_nat i := of_nat i)) [0..<128] (payload h)\<rparr>"

definition holds_pattern :: "u64 \<Rightarrow> heap \<Rightarrow> bool" where
  "holds_pattern p h = list_all (\<lambda>i. payload h (p + of_nat i) = of_nat i) [0..<128]"

definition holds_zeros :: "u64 \<Rightarrow> heap \<Rightarrow> bool" where
  "holds_zeros p h = list_all (\<lambda>i. payload h (p + of_nat i) = 0) [0..<100]"

definition verdict :: "bool \<Rightarrow> u8 list" where
  "verdict ok = (if ok then bytes ''PASS'' else bytes ''FAIL'')"

text \<open>The line of a test, with its result.\<close>

definition print_verdict :: "env \<Rightarrow> string \<Rightarrow> bool \<Rightarrow> shell \<Rightarrow> shell option" where
  "print_verdict e test ok = print_fmt e (bytes test @ bytes '': %s'' @ [10]) [Str (Some (verdict ok))]"

definition free_on :: "u64 \<Rightarrow> shell \<Rightarrow> shell option" where
  "free_on p sh = map_option snd (on_heap (\<lambda>h. map_option (Pair ()) (free_block p h)) sh)"

definition test_malloc :: "env \<Rightarrow> shell \<Rightarrow> shell option" where
  "test_malloc e sh =
     print_fmt e (bytes ''heap: %lu MiB total, %lu KiB used'' @ [10])
       [Num (total_size (vheap (files sh)) div (1024 * 1024)), Num (used_size (vheap (files sh)) div 1024)] sh \<bind> (\<lambda>sh.
     on_heap (malloc 128) sh \<bind> (\<lambda>(p1, sh).
     if p1 = 0 then None
     else
       on_heap (\<lambda>h. Some ((), write_pattern p1 h)) sh \<bind> (\<lambda>(_, sh).
       print_verdict e ''1. malloc+write'' (holds_pattern p1 (vheap (files sh))) sh \<bind> (\<lambda>sh.
       on_heap (calloc 10 10) sh \<bind> (\<lambda>(p2, sh).
       print_verdict e ''2. calloc zeroing'' (p2 \<noteq> 0 \<and> holds_zeros p2 (vheap (files sh))) sh \<bind> (\<lambda>sh.
       on_heap (realloc p1 256) sh \<bind> (\<lambda>(p3, sh).
       print_verdict e ''3. realloc'' (p3 \<noteq> 0 \<and> holds_pattern p3 (vheap (files sh))) sh \<bind> (\<lambda>sh.
       on_heap (malloc (64 * 1024 * 1024)) sh \<bind> (\<lambda>(big, sh).
       print_verdict e ''4. 64 MiB alloc'' (big \<noteq> 0) sh \<bind>
       free_on p2 \<bind> free_on p3 \<bind> free_on big \<bind> (\<lambda>sh.
       print_fmt e (bytes ''heap after tests: %lu KiB used'' @ [10]) [Num (used_size (vheap (files sh)) div 1024)] sh))))))))))"

section \<open>Steps on the heap\<close>

text \<open>The region an allocation owns; none when the answer was NULL.\<close>

definition own :: "nat \<Rightarrow> nat \<Rightarrow> (nat \<times> nat) set" where
  "own p n = (if p = 0 then {} else {(p, n)})"

definition same_bytes :: "(nat \<times> nat) set \<Rightarrow> heap \<Rightarrow> heap \<Rightarrow> bool" where
  "same_bytes L h h' \<longleftrightarrow> (\<forall>r l. (r, l) \<in> L \<longrightarrow> (\<forall>i<l. payload h' (of_nat (r + i)) = payload h (of_nat (r + i))))"

lemma same_bytes_trans: "same_bytes L h h' \<Longrightarrow> same_bytes L h' h'' \<Longrightarrow> same_bytes L h h''"
  by (simp add: same_bytes_def)

lemma same_bytes_mono: "same_bytes L h h' \<Longrightarrow> K \<subseteq> L \<Longrightarrow> same_bytes K h h'"
  by (auto simp: same_bytes_def)

lemma same_bytes_payload: "payload h' = payload h \<Longrightarrow> same_bytes L h h'"
  by (simp add: same_bytes_def)

lemma live_not_null:
  assumes "heap_inv base xs h" "(p, n) \<in> live base xs"
  shows "0 < p" "p + n < 2 ^ 64" "(of_nat p :: u64) \<noteq> 0"
proof -
  show b: "0 < p" "p + n < 2 ^ 64" using live_header [OF assms] by blast+
  then show "(of_nat p :: u64) \<noteq> 0" using addr_neq [of p 0] by simp
qed

lemma malloc_step:
  assumes "heap_inv base xs h" "sz \<noteq> 0" "unat sz \<le> 2 ^ 64 - 16"
  obtains p n h' xs' where "malloc sz h = Some (of_nat p, h')" "heap_inv base xs' h'" "payload h' = payload h"
    "live base xs' = live base xs \<union> own p n" "own p n \<inter> live base xs = {}" "p \<noteq> 0 \<longrightarrow> unat sz \<le> n"
  using assms
proof (cases rule: malloc_live_lemma)
  case full
  show ?thesis by (rule that [of 0 h xs 0]) (use full assms(1) in \<open>simp_all add: own_def\<close>)
next
  case (got p m h' xs')
  have "0 < p" using live_not_null [OF got(2), of p m] got(6) by simp
  then show ?thesis using that [of p h' xs' m] got by (simp add: own_def)
qed

lemma free_step:
  assumes inv: "heap_inv base xs h" and p: "own p n \<subseteq> live base xs"
  obtains h' xs' where "free_block (of_nat p) h = Some h'" "heap_inv base xs' h'" "payload h' = payload h"
    "live base xs' = live base xs - own p n"
proof (cases "p = 0")
  case True
  then show ?thesis using that [of h xs] inv by (simp add: own_def free_block_def)
next
  case False
  then have "(p, n) \<in> live base xs" using p by (simp add: own_def)
  from free_live_lemma [OF inv this] obtain h' xs' where "free_block (of_nat p) h = Some h'" "heap_inv base xs' h'"
    "payload h' = payload h" "live base xs' = live base xs - {(p, n)}" .
  then show ?thesis using that False by (simp add: own_def)
qed

lemma pattern_at:
  assumes "p + 128 \<le> 2 ^ 64" "a < 2 ^ 64"
  shows "payload (write_pattern (of_nat p) h) (of_nat a) = (if p \<le> a \<and> a < p + 128 then of_nat (a - p) else payload h (of_nat a))"
proof -
  have "fold (\<lambda>i m. m(of_nat p + of_nat i := of_nat i)) [0..<k] m (of_nat a) =
      (if p \<le> a \<and> a < p + k then of_nat (a - p) else m (of_nat a))" if "k \<le> 128" for k and m :: "u64 \<Rightarrow> u8"
    using that
  proof (induction k)
    case (Suc k)
    have "(of_nat a :: u64) = of_nat (p + k) \<longleftrightarrow> a = p + k"
      using Suc.prems assms addr_neq [of a "p + k"] by force
    then have "(of_nat a :: u64) = of_nat p + of_nat k \<longleftrightarrow> a = p + k" by simp
    then show ?case using Suc by (auto simp: fun_upd_apply)
  qed auto
  then show ?thesis by (simp add: write_pattern_def)
qed

lemma holds_pattern_moved:
  assumes "holds_pattern (of_nat p) h" "\<And>i. i < 128 \<Longrightarrow> payload h' (of_nat (q + i)) = payload h (of_nat (p + i))"
  shows "holds_pattern (of_nat q) h'"
  using assms by (simp add: holds_pattern_def list_all_iff)

lemma write_step:
  assumes inv: "heap_inv base xs h" and p: "(p, n) \<in> live base xs" "128 \<le> n"
  shows "heap_inv base xs (write_pattern (of_nat p) h)" "holds_pattern (of_nat p) (write_pattern (of_nat p) h)"
    "same_bytes (live base xs - {(p, n)}) h (write_pattern (of_nat p) h)"
proof -
  let ?h = "write_pattern (of_nat p) h"
  have b: "p + n < 2 ^ 64" using live_not_null [OF inv p(1)] by blast
  have at: "payload ?h (of_nat a) = (if p \<le> a \<and> a < p + 128 then of_nat (a - p) else payload h (of_nat a))"
    if "a < 2 ^ 64" for a
    using pattern_at [of p a h] that b p(2) by linarith
  show "heap_inv base xs ?h" using inv by (simp add: write_pattern_def heap_inv_payload)
  have "payload ?h (of_nat (p + i)) = of_nat i" if "i < 128" for i
    using at [of "p + i"] that b p(2) by simp
  then show "holds_pattern (of_nat p) ?h" by (simp add: holds_pattern_def list_all_iff)
  have "payload ?h (of_nat (r + i)) = payload h (of_nat (r + i))"
    if r: "(r, l) \<in> live base xs" "(r, l) \<noteq> (p, n)" and i: "i < l" for r l i
  proof -
    have "p + n + 32 \<le> r \<or> r + l + 32 \<le> p" using live_disjoint [OF p(1) r(1)] r(2) by blast
    then have "\<not> (p \<le> r + i \<and> r + i < p + 128)" using i p(2) by linarith
    moreover have "r + i < 2 ^ 64" using live_not_null(2) [OF inv r(1)] i by linarith
    ultimately show ?thesis using at by (simp only: if_False)
  qed
  then show "same_bytes (live base xs - {(p, n)}) h ?h" by (auto simp: same_bytes_def)
qed

lemma calloc_step:
  assumes inv: "heap_inv base xs h"
  obtains p n h' xs' where "calloc 10 10 h = Some (of_nat p, h')" "heap_inv base xs' h'"
    "live base xs' = live base xs \<union> own p n" "own p n \<inter> live base xs = {}" "same_bytes (live base xs) h h'"
    "p \<noteq> 0 \<longrightarrow> holds_zeros (of_nat p) h'"
proof -
  have sz: "(10 :: u64) \<noteq> 0" "(10 :: u64) \<noteq> 0"
    "unat (10 :: u64) * unat (10 :: u64) \<le> 2 ^ 64 - 16 \<or> 2 ^ 64 \<le> unat (10 :: u64) * unat (10 :: u64)" by simp_all
  show ?thesis
    using calloc_zeroed [OF inv sz]
  proof (elim disjE exE conjE)
    assume "calloc 10 10 h = Some (0, h)"
    then show ?thesis using that [of 0 h xs 0] inv by (simp add: own_def same_bytes_def)
  next
    fix p m h' xs'
    assume r: "calloc 10 10 h = Some (of_nat p, h')" "heap_inv base xs' h'" "live base xs' = insert (p, m) (live base xs)"
      "(p, m) \<notin> live base xs" "\<forall>i<unat (10 :: u64) * unat (10 :: u64). payload h' (of_nat (p + i)) = 0"
      "\<forall>r l. (r, l) \<in> live base xs \<longrightarrow> (\<forall>i<l. payload h' (of_nat (r + i)) = payload h (of_nat (r + i)))"
    have "0 < p" using live_not_null [OF r(2), of p m] r(3) by simp
    then show ?thesis using that [of p h' xs' m] r by (simp add: own_def same_bytes_def holds_zeros_def list_all_iff)
  qed
qed

lemma realloc_step:
  assumes inv: "heap_inv base xs h" and p: "(p, n) \<in> live base xs" "128 \<le> n" and pat: "holds_pattern (of_nat p) h"
  obtains q m h' xs' where "realloc (of_nat p) 256 h = Some (of_nat q, h')" "heap_inv base xs' h'"
    "live base xs' = (if q = 0 then live base xs else insert (q, m) (live base xs - {(p, n)}))"
    "(q, m) \<notin> live base xs - {(p, n)}" "same_bytes (live base xs - {(p, n)}) h h'" "q \<noteq> 0 \<longrightarrow> holds_pattern (of_nat q) h'"
proof -
  have sz: "(256 :: u64) \<noteq> 0" "unat (256 :: u64) \<le> 2 ^ 64 - 16" by simp_all
  have p0: "0 < p" using live_not_null [OF inv p(1)] by simp
  have n0: "(0, m) \<notin> live base xs" for m using live_not_null(1) [OF inv] by blast
  show ?thesis
    using realloc_lemma [OF inv p(1) sz]
  proof (elim disjE exE conjE)
    assume "realloc (of_nat p) 256 h = Some (of_nat p, h)"
    then show ?thesis using that [of p h xs n] inv p pat p0 by (auto simp: same_bytes_def)
  next
    assume "realloc (of_nat p) 256 h = Some (0, h)"
    then show ?thesis using that [of 0 h xs 0] inv n0 by (simp add: same_bytes_def)
  next
    fix q m h' xs'
    assume r: "realloc (of_nat p) 256 h = Some (of_nat q, h')" "heap_inv base xs' h'"
      "live base xs' = insert (q, m) (live base xs - {(p, n)})" "(q, m) \<notin> live base xs"
      "\<forall>i<n. payload h' (of_nat (q + i)) = payload h (of_nat (p + i))"
      "\<forall>r l. (r, l) \<in> live base xs \<and> (r, l) \<noteq> (p, n) \<longrightarrow> (\<forall>i<l. payload h' (of_nat (r + i)) = payload h (of_nat (r + i)))"
    have q0: "0 < q" using live_not_null [OF r(2), of q m] r(3) by simp
    have "holds_pattern (of_nat q) h'"
      by (rule holds_pattern_moved [OF pat]) (use r(5) p(2) in \<open>simp del: of_nat_add\<close>)
    then show ?thesis using that [of q h' xs' m] r q0 by (simp add: same_bytes_def)
  qed
qed
section \<open>The whole test\<close>

text \<open>
  \<open>trial h p1 p2 p3 big h'\<close>: the calls of the test on the heap \<open>h\<close> answer these pointers and leave \<open>h'\<close>; what is
  allocated is what the test looks for.
\<close>

definition trial :: "heap \<Rightarrow> u64 \<Rightarrow> u64 \<Rightarrow> u64 \<Rightarrow> u64 \<Rightarrow> heap \<Rightarrow> bool" where
  "trial h p1 p2 p3 big h' \<longleftrightarrow>
     (\<exists>h1 h2 h3 h4 h5 h6. malloc 128 h = Some (p1, h1) \<and> holds_pattern p1 (write_pattern p1 h1) \<and>
        calloc 10 10 (write_pattern p1 h1) = Some (p2, h2) \<and> (p2 \<noteq> 0 \<longrightarrow> holds_zeros p2 h2) \<and>
        realloc p1 256 h2 = Some (p3, h3) \<and> (p3 \<noteq> 0 \<longrightarrow> holds_pattern p3 h3) \<and>
        malloc (64 * 1024 * 1024) h3 = Some (big, h4) \<and>
        free_block p2 h4 = Some h5 \<and> free_block p3 h5 = Some h6 \<and> free_block big h6 = Some h')"

lemma trial_runs:
  assumes inv: "heap_inv base xs h" and m: "malloc 128 h = Some (p1, h1)" "p1 \<noteq> 0"
  shows "\<exists>p2 p3 big h' xs'. trial h p1 p2 p3 big h' \<and> heap_inv base xs' h' \<and> same_bytes (live base xs) h h' \<and>
    (if p3 = 0 then \<exists>p n. p1 = of_nat p \<and> (p, n) \<notin> live base xs \<and> live base xs' = insert (p, n) (live base xs)
     else live base xs' = live base xs)"
proof -
  let ?L = "live base xs"
  have sz: "(128 :: u64) \<noteq> 0" "unat (128 :: u64) \<le> 2 ^ 64 - 16" "(64 * 1024 * 1024 :: u64) \<noteq> 0"
    "unat (64 * 1024 * 1024 :: u64) \<le> 2 ^ 64 - 16" by simp_all
  obtain a n k xs1 where K: "malloc 128 h = Some (of_nat a, k)" "heap_inv base xs1 k" "payload k = payload h"
      "live base xs1 = ?L \<union> own a n" "own a n \<inter> ?L = {}" "a \<noteq> 0 \<longrightarrow> unat (128 :: u64) \<le> n"
    by (rule malloc_step [OF inv sz(1,2)])
  then have A: "p1 = of_nat a" "heap_inv base xs1 h1" "payload h1 = payload h" "live base xs1 = ?L \<union> own a n"
      "own a n \<inter> ?L = {}" "a \<noteq> 0 \<longrightarrow> 128 \<le> n"
    using m(1) by simp_all
  have a0: "a \<noteq> 0" using A(1) m(2) by (cases a) auto
  have own1: "own a n = {(a, n)}" using a0 by (simp add: own_def)
  have live1: "live base xs1 = insert (a, n) ?L" "(a, n) \<notin> ?L" using A(4,5) unfolding own1 by simp_all
  then have an: "(a, n) \<in> live base xs1" "128 \<le> n" using A(6) a0 by simp_all
  have rest: "live base xs1 - {(a, n)} = ?L" using live1 by blast
  note W = write_step [OF A(2) an, folded A(1), unfolded rest]
  obtain b k h2 xs2 where B: "calloc 10 10 (write_pattern p1 h1) = Some (of_nat b, h2)" "heap_inv base xs2 h2"
      "live base xs2 = live base xs1 \<union> own b k" "own b k \<inter> live base xs1 = {}"
      "same_bytes (live base xs1) (write_pattern p1 h1) h2" "b \<noteq> 0 \<longrightarrow> holds_zeros (of_nat b) h2"
    by (rule calloc_step [OF W(1)])
  have an2: "(a, n) \<in> live base xs2" using an(1) B(3) by blast
  have "payload h2 (of_nat (a + i)) = payload (write_pattern p1 h1) (of_nat (a + i))" if "i < 128" for i
    using B(5) an that by (simp add: same_bytes_def del: of_nat_add)
  then have pat: "holds_pattern (of_nat a) h2"
    by (rule holds_pattern_moved [OF W(2) [unfolded A(1)], folded A(1)])
  obtain c l h3 xs3 where C: "realloc p1 256 h2 = Some (of_nat c, h3)"
      "heap_inv base xs3 h3" "live base xs3 = (if c = 0 then live base xs2 else insert (c, l) (live base xs2 - {(a, n)}))"
      "(c, l) \<notin> live base xs2 - {(a, n)}" "same_bytes (live base xs2 - {(a, n)}) h2 h3" "c \<noteq> 0 \<longrightarrow> holds_pattern (of_nat c) h3"
    by (rule realloc_step [OF B(2) an2 an(2) pat, folded A(1)])
  obtain d j h4 xs4 where D: "malloc (64 * 1024 * 1024) h3 = Some (of_nat d, h4)" "heap_inv base xs4 h4" "payload h4 = payload h3"
      "live base xs4 = live base xs3 \<union> own d j" "own d j \<inter> live base xs3 = {}"
    by (rule malloc_step [OF C(2) sz(3,4)])
  have ba: "(a, n) \<notin> own b k" using B(4) an(1) by auto
  have bc: "own b k \<subseteq> live base xs3" "own b k \<inter> own c l = {}" "own c l \<subseteq> live base xs3"
    using B(3) C(3,4) ba by (auto simp: own_def)
  obtain h5 xs5 where E: "free_block (of_nat b) h4 = Some h5" "heap_inv base xs5 h5" "payload h5 = payload h4"
      "live base xs5 = live base xs4 - own b k"
    by (rule free_step [OF D(2), of b k]) (use bc(1) D(4) in auto)
  obtain h6 xs6 where F: "free_block (of_nat c) h5 = Some h6" "heap_inv base xs6 h6" "payload h6 = payload h5"
      "live base xs6 = live base xs5 - own c l"
    by (rule free_step [OF E(2), of c l]) (use bc E(4) D(4) in auto)
  obtain h7 xs7 where G: "free_block (of_nat d) h6 = Some h7" "heap_inv base xs7 h7" "payload h7 = payload h6"
      "live base xs7 = live base xs6 - own d j"
    by (rule free_step [OF F(2), of d j]) (use bc E(4) D(4,5) F(4) in auto)
  have "live base xs7 = live base xs3 - own b k - own c l" using G(4) F(4) E(4) D(4,5) by auto
  moreover have "own b k \<inter> ?L = {}" "own c l \<inter> ?L = {}" if "c \<noteq> 0"
    using B(3,4) C(4) live1 that by (auto simp: own_def)
  ultimately have live: "live base xs7 = (if c = 0 then insert (a, n) ?L else ?L)"
    using B(3,4) C(3,4) live1 by (auto simp: own_def)
  have "same_bytes ?L h h1" using A(3) by (rule same_bytes_payload)
  then have "same_bytes ?L h (write_pattern p1 h1)" using W(3) by (rule same_bytes_trans)
  then have "same_bytes ?L h h2" by (rule same_bytes_trans [OF _ same_bytes_mono [OF B(5)]]) (use live1 in auto)
  then have "same_bytes ?L h h3" by (rule same_bytes_trans [OF _ same_bytes_mono [OF C(5)]]) (use live1 B(3) in auto)
  then have kept: "same_bytes ?L h h7" using G(3) F(3) E(3) D(3) by (simp add: same_bytes_def)
  have c0: "of_nat c = (0 :: u64) \<longleftrightarrow> c = 0"
  proof (cases "c = 0")
    case False
    then have "(c, l) \<in> live base xs3" using C(3) by simp
    then show ?thesis using live_not_null(3) [OF C(2)] False by simp
  qed simp
  have b0: "of_nat b \<noteq> (0 :: u64) \<longrightarrow> b \<noteq> 0" by (cases "b = 0") simp_all
  have T: "trial h p1 (of_nat b) (of_nat c) (of_nat d) h7"
    unfolding trial_def using m(1) W(2) B(1,6) C(1,6) D(1) E(1) F(1) G(1) b0 c0 by blast
  have "if of_nat c = (0 :: u64) then \<exists>p n. p1 = of_nat p \<and> (p, n) \<notin> ?L \<and> live base xs7 = insert (p, n) ?L
      else live base xs7 = ?L"
    unfolding c0 using live live1(2) A(1) by (cases "c = 0") auto
  then show ?thesis using T G(2) kept by blast
qed

section \<open>The report\<close>

text \<open>During the test only the screen and the heap change.\<close>

definition at_test :: "shell \<Rightarrow> term_state \<Rightarrow> heap \<Rightarrow> shell" where
  "at_test sh t h = sh\<lparr>screen := t, files := (files sh)\<lparr>vheap := h\<rparr>\<rparr>"

lemma at_test_simps [simp]: "vheap (files (at_test sh t h)) = h" "screen (at_test sh t h) = t"
  "(at_test sh t h)\<lparr>screen := u\<rparr> = at_test sh u h"
  "(at_test sh t h)\<lparr>files := (files (at_test sh t h))\<lparr>vheap := k\<rparr>\<rparr> = at_test sh t k"
  by (simp_all add: at_test_def)

lemma at_test_start: "at_test sh (screen sh) (vheap (files sh)) = sh"
  by (simp add: at_test_def)

lemma on_heap_at [simp]: "on_heap op (at_test sh t h) = map_option (\<lambda>(r, k). (r, at_test sh t k)) (op h)"
  by (simp add: on_heap_def)

lemma free_on_at [simp]: "free_on p (at_test sh t h) = map_option (at_test sh t) (free_block p h)"
  by (simp add: free_on_def option.map_comp comp_def)

lemma print_fmt_some:
  assumes "screen_ok e sh" "512 \<le> length (e_stack e)" "format_text fmt args \<noteq> None"
  shows "\<exists>out. writes e out sh (print_fmt e fmt args sh)"
proof -
  from assms(3) obtain s where s: "format_text fmt args = Some s" by blast
  define buf where "buf = take (512 - 1) s @ 0 # drop (length (take (512 - 1) s) + 1) (e_stack e)"
  have "vsnprintf (e_stack e) 512 fmt args = Some (length s, buf)"
    unfolding vsnprintf_lemma [OF assms(2) zero_less_numeral] s by (simp add: buf_def)
  then have "term_printf (e_font e) (e_stack e) fmt args = term_print (e_font e) (c_string buf)"
    by (simp add: term_printf_def fun_eq_iff)
  then have "print_fmt e fmt args = print e (c_string buf)" by (simp add: print_fmt_def print_def)
  then show ?thesis using print_writes [OF assms(1), of "c_string buf"] by auto
qed

lemma sizes_line:
  assumes "term_ok (e_font e) t" "512 \<le> length (e_stack e)" "format_text fmt args \<noteq> None"
  shows "\<exists>u out. print_fmt e fmt args (at_test sh t h) = Some (at_test sh u h) \<and> term_ok (e_font e) u \<and> serial u = serial t @ out"
  using print_fmt_some [of e "at_test sh t h", OF _ assms(2,3)] assms(1) by (auto simp: screen_ok_def writes_def)

definition verdict_line :: "string \<Rightarrow> bool \<Rightarrow> u8 list" where
  "verdict_line test ok = bytes test @ [58, 32] @ verdict ok @ [13, 10]"

lemma verdict_at:
  assumes "term_ok (e_font e) t" "512 \<le> length (e_stack e)"
    and "\<forall>c\<in>set (bytes test). printable c" "37 \<notin> set (bytes test)" "length test < 400"
  shows "\<exists>u. print_verdict e test ok (at_test sh t h) = Some (at_test sh u h) \<and> term_ok (e_font e) u \<and>
    serial u = serial t @ verdict_line test ok"
proof -
  have s: "screen_ok e (at_test sh t h)" using assms(1) by (simp add: screen_ok_def)
  have len: "length (bytes test) = length test" by simp
  have "writes e ((bytes test @ [58, 32]) @ verdict ok @ [] @ [13, 10]) (at_test sh t h)
      (print_fmt e ((bytes test @ [58, 32]) @ [37, 115] @ [] @ [10]) [Str (Some (verdict ok))] (at_test sh t h))"
    by (rule message_writes [OF s assms(2)]) (use assms(3-5) len in \<open>auto simp: verdict_def printable_def\<close>)
  then show ?thesis by (simp add: print_verdict_def writes_def verdict_line_def)
qed

lemma size_formats:
  "format_text (bytes ''heap: %lu MiB total, %lu KiB used'' @ [10]) [Num v, Num w] \<noteq> None"
  "format_text (bytes ''heap after tests: %lu KiB used'' @ [10]) [Num w] \<noteq> None"
  by (simp_all add: directive_def convert_text_def Let_def)

text \<open>What the test prints between the two lines with sizes.\<close>

definition test_report :: "bool \<Rightarrow> bool \<Rightarrow> bool \<Rightarrow> u8 list" where
  "test_report calloc_ok realloc_ok big_ok =
     verdict_line ''1. malloc+write'' True @ verdict_line ''2. calloc zeroing'' calloc_ok @
     verdict_line ''3. realloc'' realloc_ok @ verdict_line ''4. 64 MiB alloc'' big_ok"

definition test_name :: "string \<Rightarrow> bool" where
  "test_name x \<longleftrightarrow> (\<forall>c\<in>set (bytes x). printable c) \<and> 37 \<notin> set (bytes x) \<and> length x < 400"

lemma test_names: "test_name ''1. malloc+write''" "test_name ''2. calloc zeroing''" "test_name ''3. realloc''" "test_name ''4. 64 MiB alloc''"
  by (simp_all add: test_name_def printable_def)

lemma test_line:
  assumes "term_ok (e_font e) t" "512 \<le> length (e_stack e)" "test_name x"
  obtains u where "print_verdict e x ok (at_test sh t h) = Some (at_test sh u h)" "term_ok (e_font e) u"
    "serial u = serial t @ verdict_line x ok"
  using verdict_at [OF assms(1,2)] assms(3) unfolding test_name_def by blast

lemma self_test_lemma:
  assumes s: "screen_ok e sh" and j: "512 \<le> length (e_stack e)" and inv: "heap_inv base xs (vheap (files sh))"
    and m: "malloc 128 (vheap (files sh)) = Some (p1, h1)" "p1 \<noteq> 0"
  shows "\<exists>p2 p3 big h' xs' t a b. trial (vheap (files sh)) p1 p2 p3 big h' \<and> test_malloc e sh = Some (at_test sh t h') \<and>
    term_ok (e_font e) t \<and> serial t = serial (screen sh) @ a @ test_report (p2 \<noteq> 0) (p3 \<noteq> 0) (big \<noteq> 0) @ b \<and>
    heap_inv base xs' h' \<and> same_bytes (live base xs) (vheap (files sh)) h' \<and>
    (if p3 = 0 then \<exists>p n. p1 = of_nat p \<and> (p, n) \<notin> live base xs \<and> live base xs' = insert (p, n) (live base xs)
     else live base xs' = live base xs)"
proof -
  let ?h = "vheap (files sh)"
  from trial_runs [OF inv m] obtain p2 p3 big h' xs' where T: "trial ?h p1 p2 p3 big h'" "heap_inv base xs' h'"
    "same_bytes (live base xs) ?h h'"
    "if p3 = 0 then \<exists>p n. p1 = of_nat p \<and> (p, n) \<notin> live base xs \<and> live base xs' = insert (p, n) (live base xs)
     else live base xs' = live base xs" by blast
  from T(1) obtain k h2 h3 h4 h5 h6 where K: "malloc 128 ?h = Some (p1, k)" "holds_pattern p1 (write_pattern p1 k)"
    "calloc 10 10 (write_pattern p1 k) = Some (p2, h2)" "p2 \<noteq> 0 \<longrightarrow> holds_zeros p2 h2" "realloc p1 256 h2 = Some (p3, h3)"
    "p3 \<noteq> 0 \<longrightarrow> holds_pattern p3 h3" "malloc (64 * 1024 * 1024) h3 = Some (big, h4)" "free_block p2 h4 = Some h5"
    "free_block p3 h5 = Some h6" "free_block big h6 = Some h'" unfolding trial_def by blast
  have "k = h1" using K(1) m(1) by simp
  note R = K(2-) [unfolded this]
  have ok: "(p2 \<noteq> 0 \<and> holds_zeros p2 h2) = (p2 \<noteq> 0)" "(p3 \<noteq> 0 \<and> holds_pattern p3 h3) = (p3 \<noteq> 0)" using R(3,5) by blast+
  from sizes_line [OF s [unfolded screen_ok_def] j size_formats(1)] obtain t0 a where
    t0: "print_fmt e (bytes ''heap: %lu MiB total, %lu KiB used'' @ [10]) [Num (total_size ?h div (1024 * 1024)), Num (used_size ?h div 1024)]
      (at_test sh (screen sh) ?h) = Some (at_test sh t0 ?h)" "term_ok (e_font e) t0" "serial t0 = serial (screen sh) @ a" by blast
  obtain t1 where t1: "print_verdict e ''1. malloc+write'' True (at_test sh t0 (write_pattern p1 h1)) = Some (at_test sh t1 (write_pattern p1 h1))"
    "term_ok (e_font e) t1" "serial t1 = serial t0 @ verdict_line ''1. malloc+write'' True"
    by (rule test_line [OF t0(2) j]) (rule test_names)
  obtain t2 where t2: "print_verdict e ''2. calloc zeroing'' (p2 \<noteq> 0) (at_test sh t1 h2) = Some (at_test sh t2 h2)"
    "term_ok (e_font e) t2" "serial t2 = serial t1 @ verdict_line ''2. calloc zeroing'' (p2 \<noteq> 0)"
    by (rule test_line [OF t1(2) j]) (rule test_names)
  obtain t3 where t3: "print_verdict e ''3. realloc'' (p3 \<noteq> 0) (at_test sh t2 h3) = Some (at_test sh t3 h3)"
    "term_ok (e_font e) t3" "serial t3 = serial t2 @ verdict_line ''3. realloc'' (p3 \<noteq> 0)"
    by (rule test_line [OF t2(2) j]) (rule test_names)
  obtain t4 where t4: "print_verdict e ''4. 64 MiB alloc'' (big \<noteq> 0) (at_test sh t3 h4) = Some (at_test sh t4 h4)"
    "term_ok (e_font e) t4" "serial t4 = serial t3 @ verdict_line ''4. 64 MiB alloc'' (big \<noteq> 0)"
    by (rule test_line [OF t3(2) j]) (rule test_names)
  from sizes_line [OF t4(2) j size_formats(2)] obtain t5 b where
    t5: "print_fmt e (bytes ''heap after tests: %lu KiB used'' @ [10]) [Num (used_size h' div 1024)] (at_test sh t4 h') = Some (at_test sh t5 h')"
      "term_ok (e_font e) t5" "serial t5 = serial t4 @ b" by blast
  have "test_malloc e (at_test sh (screen sh) ?h) = Some (at_test sh t5 h')"
    unfolding test_malloc_def using m
    by (simp only: at_test_simps t0(1) bind.bind_lunit on_heap_at option.map(2) prod.case if_False R(1,2,4,6-9) t1(1) ok t2(1) t3(1) t4(1) free_on_at t5(1))
  moreover have "serial t5 = serial (screen sh) @ a @ test_report (p2 \<noteq> 0) (p3 \<noteq> 0) (big \<noteq> 0) @ b"
    by (simp add: t5(3) t4(3) t3(3) t2(3) t1(3) t0(3) test_report_def)
  ultimately show ?thesis using T t5(2) unfolding at_test_start by blast
qed

section \<open>Properties\<close>

text \<open>
  C30: on a well-formed heap whose first allocation succeeds, \<open>testmalloc\<close> runs to the end and reports what is true: the
  pattern test passes, and each of the other three passes exactly when the allocator gave memory. Everything the test
  allocates is released and no byte of another region changes; only when \<open>realloc\<close> has answered NULL the first block is
  left allocated.
\<close>

theorem heap_passes_self_test:
  assumes "screen_ok e sh" "512 \<le> length (e_stack e)" "heap_inv base xs (vheap (files sh))"
    and "malloc 128 (vheap (files sh)) = Some (p1, h1)" "p1 \<noteq> 0"
  shows "\<exists>p2 p3 big h' xs' t a b. trial (vheap (files sh)) p1 p2 p3 big h' \<and>
    test_malloc e sh = Some (sh\<lparr>screen := t, files := (files sh)\<lparr>vheap := h'\<rparr>\<rparr>) \<and>
    term_ok (e_font e) t \<and> serial t = serial (screen sh) @ a @ test_report (p2 \<noteq> 0) (p3 \<noteq> 0) (big \<noteq> 0) @ b \<and>
    heap_inv base xs' h' \<and> same_bytes (live base xs) (vheap (files sh)) h' \<and>
    (if p3 = 0 then \<exists>p n. p1 = of_nat p \<and> (p, n) \<notin> live base xs \<and> live base xs' = insert (p, n) (live base xs)
     else live base xs' = live base xs)"
  using self_test_lemma [OF assms] unfolding at_test_def .

definition tested_shell :: shell where
  "tested_shell = sample_shell\<lparr>files := sample_tree\<lparr>vheap :=
     \<lparr>blocks = [4096 \<mapsto> \<lparr>b_size = 8192, b_free = True, b_next = 0, b_prev = 0\<rparr>], heap_head = 4096,
      total_size = 8224, used_size = 0, payload = (\<lambda>_. 7)\<rparr>\<rparr>\<rparr>"

theorem heap_passes_self_test_witness:
  "\<exists>t h'. test_malloc sample_env tested_shell = Some (tested_shell\<lparr>screen := t, files := (files tested_shell)\<lparr>vheap := h'\<rparr>\<rparr>) \<and>
     (\<exists>xs'. heap_inv 4096 xs' h') \<and> term_ok sample_font t"
proof -
  have s: "screen_ok sample_env tested_shell" using sample_shell_ok by (simp add: shell_ok_def screen_ok_def tested_shell_def)
  have j: "512 \<le> length (e_stack sample_env)" and f: "e_font sample_env = sample_font" by (simp_all add: sample_env_def)
  have inv: "heap_inv 4096 [(8192, True)] (vheap (files tested_shell))" by (simp add: inv_simps tested_shell_def)
  have sz: "(128 :: u64) \<noteq> 0" "unat (128 :: u64) \<le> 2 ^ 64 - 16" by simp_all
  have r: "unat (round_size 128) = 128" by (simp add: round_size_eq)
  obtain p1 h1 where m: "malloc 128 (vheap (files tested_shell)) = Some (p1, h1)" "p1 \<noteq> 0"
    using inv sz
  proof (cases rule: malloc_live_lemma)
    case full
    then show ?thesis by (simp add: r fits_def)
  next
    case (got p n h1 xs1)
    then show ?thesis using that live_not_null(3) [OF got(2), of p n] by simp
  qed
  show ?thesis using heap_passes_self_test [OF s j inv m] unfolding f by blast
qed

end
