(* ===== verification/Commands.thy ===== *)
theory Commands
  imports SelfTest Boot QwenRun Chat Snake Pong
begin

text \<open>
  The commands of \<open>shell.c\<close> that start other parts of the kernel: threads, network, clock, power, language models,
  games and chat. They run on the shell together with the state of those parts. \<open>None\<close> is a fault or a wait that does
  not end.
\<close>

section \<open>The shell among the other parts\<close>

text \<open>
  The clock is the one of the network, \<open>m\_turns\<close> what happens during the waits to come. \<open>m\_inside\<close>: a game or the chat
  has used up its inputs and has not returned to the shell.
\<close>

record ('f, 'd) machine =
  m_shell :: shell
  m_net :: net
  m_turns :: "turn list"
  m_dev :: 'd
  m_sched :: "heap sched"
  m_llm :: "'f llm_state"
  m_kbd :: kbd
  m_snake :: snake
  m_pong :: pong
  m_chat :: chat
  m_panel :: panel
  m_inside :: bool

text \<open>
  What comes from outside: the ports, the floating-point operations, the boot loader's modules and memory map, the
  readings of the clock around a generation, and for a game its memory, its start and its inputs.
\<close>

record ('f, 'd) world =
  w_env :: env
  w_ports :: "'d ports"
  w_outw :: "u16 \<Rightarrow> u16 \<Rightarrow> 'd \<Rightarrow> 'd"
  w_math :: "'f fmath"
  w_modules :: "modul list option"
  w_memmap :: "raw_entry list"
  w_bufs :: "u8 list \<times> u8 list"
  w_opts :: "u8 list"
  w_clock :: "u64 \<times> u64 \<times> u64"
  w_block :: "(u8 \<times> u8) list option"
  w_alloc :: "u64 \<Rightarrow> u32 list option"
  w_lines :: "wrap_line list option"
  w_start :: u64
  w_snake :: "(u64 \<times> u8 list \<times> (u8 \<times> u8) list option) list"
  w_pong :: "(u64 \<times> u8 list) list"
  w_chat :: "chat_turn list"

definition on_shell :: "(shell \<Rightarrow> shell option) \<Rightarrow> ('f, 'd) machine \<Rightarrow> ('f, 'd) machine option" where
  "on_shell op m = map_option (\<lambda>sh. m\<lparr>m_shell := sh\<rparr>) (op (m_shell m))"

definition on_net :: "(turn list \<Rightarrow> net \<Rightarrow> ('r \<times> net \<times> turn list) option) \<Rightarrow> ('f, 'd) machine \<Rightarrow> ('r \<times> ('f, 'd) machine) option" where
  "on_net op m = map_option (\<lambda>(r, s, ts). (r, m\<lparr>m_net := s, m_turns := ts\<rparr>)) (op (m_turns m) (m_net m))"

definition set_cursor :: "env \<Rightarrow> bool \<Rightarrow> shell \<Rightarrow> shell option" where
  "set_cursor e visible = on_screen (term_set_cursor_visible (e_font e) visible)"

text \<open>The number in a word, as \<open>atoi\<close> reads it.\<close>

definition number_of :: "u8 list \<Rightarrow> int option" where
  "number_of w = map_option sint (c_atoi (w @ [0]))"

section \<open>Threads, memory and power\<close>

definition state_name :: "thread_state \<Rightarrow> string" where
  "state_name st = (case st of T_READY \<Rightarrow> ''ready'' | T_RUNNING \<Rightarrow> ''running'' | T_SLEEPING \<Rightarrow> ''sleeping'' | T_ZOMBIE \<Rightarrow> ''zombie'')"

definition print_thread :: "env \<Rightarrow> int \<times> u8 list \<times> thread_state \<Rightarrow> shell \<Rightarrow> shell option" where
  "print_thread e = (\<lambda>(i, nm, st).
     print_fmt e (bytes ''  %-4d %-16s %s'' @ [10]) [Num (of_int i), Str (Some (c_string nm)), Str (Some (bytes (state_name st)))])"

definition print_threads :: "env \<Rightarrow> heap sched \<Rightarrow> shell \<Rightarrow> shell option" where
  "print_threads e s sh =
     (if (if Sched.current s \<noteq> 0 then Sched.current s else ring s) = 0 then print e (bytes ''scheduler not started'' @ [10]) sh
      else
        print_fmt e (bytes ''  %-4s %-16s %s'' @ [10]) [Str (Some (bytes ''ID'')), Str (Some (bytes ''NAME'')), Str (Some (bytes ''STATE''))] sh \<bind>
        (\<lambda>sh. sched_dump s \<bind> (\<lambda>rows. foldM (print_thread e) rows sh)))"

definition cmd_ps :: "('f, 'd) world \<Rightarrow> u8 list list \<Rightarrow> ('f, 'd) machine \<Rightarrow> ('f, 'd) machine option" where
  "cmd_ps W argv m = on_shell (print_threads (w_env W) (m_sched m)) m"

definition cmd_memmap :: "('f, 'd) world \<Rightarrow> u8 list list \<Rightarrow> ('f, 'd) machine \<Rightarrow> ('f, 'd) machine option" where
  "cmd_memmap W argv = on_shell (on_screen (debug_memmap (e_font (w_env W)) (w_bufs W) (w_memmap W)))"

definition cmd_testmalloc :: "('f, 'd) world \<Rightarrow> u8 list list \<Rightarrow> ('f, 'd) machine \<Rightarrow> ('f, 'd) machine option" where
  "cmd_testmalloc W argv = on_shell (test_malloc (w_env W))"

definition cmd_reboot :: "('f, 'd) world \<Rightarrow> u8 list list \<Rightarrow> ('f, 'd) machine \<Rightarrow> ('f, 'd) machine option" where
  "cmd_reboot W argv m = Some (m\<lparr>m_dev := outb (w_ports W) 0x64 0xFE (m_dev m)\<rparr>)"

definition cmd_shutdown :: "('f, 'd) world \<Rightarrow> u8 list list \<Rightarrow> ('f, 'd) machine \<Rightarrow> ('f, 'd) machine option" where
  "cmd_shutdown W argv m =
     on_shell (print (w_env W) (bytes ''shutdown failed (not running under QEMU?)'' @ [10]))
       (m\<lparr>m_dev := w_outw W 0x604 0x2000 (m_dev m)\<rparr>)"

section \<open>Time\<close>

definition pause :: "u64 \<Rightarrow> ('f, 'd) machine \<Rightarrow> ('f, 'd) machine option" where
  "pause ms m = map_option snd
     (on_net (\<lambda>ts s. wait_until net_rx_thread (\<lambda>s. Some (None :: unit option, s)) (ticks s + ms) ts s) m)"

definition cmd_sleep :: "('f, 'd) world \<Rightarrow> u8 list list \<Rightarrow> ('f, 'd) machine \<Rightarrow> ('f, 'd) machine option" where
  "cmd_sleep W argv m =
     (if length argv < 2 then on_shell (print (w_env W) (bytes ''usage: sleep <ms>'' @ [10])) m
      else number_of (argv ! 1) \<bind> (\<lambda>ms. pause (of_int ms) m))"

definition month_names :: "string list" where
  "month_names = [''Jan'', ''Feb'', ''Mar'', ''Apr'', ''May'', ''Jun'', ''Jul'', ''Aug'', ''Sep'', ''Oct'', ''Nov'', ''Dec'']"

definition month_name :: "u8 \<Rightarrow> string" where
  "month_name k = (if 1 \<le> k \<and> k \<le> 12 then month_names ! (unat k - 1) else ''???'')"

definition cmd_date :: "('f, 'd) world \<Rightarrow> u8 list list \<Rightarrow> ('f, 'd) machine \<Rightarrow> ('f, 'd) machine option" where
  "cmd_date W argv m =
     rtc_read (w_ports W) (m_dev m) \<bind> (\<lambda>(t, d).
     on_shell (print_fmt (w_env W) (bytes ''%s %d %d %02d:%02d:%02d UTC'' @ [10])
       [Str (Some (bytes (month_name (t_month t)))), Num (ucast (t_day t)), Num (ucast (t_year t)), Num (ucast (t_hour t)),
        Num (ucast (t_minute t)), Num (ucast (t_second t))]) (m\<lparr>m_dev := d\<rparr>))"

section \<open>Network\<close>

definition net_ensure :: "('f, 'd) world \<Rightarrow> ('f, 'd) machine \<Rightarrow> (bool \<times> ('f, 'd) machine) option" where
  "net_ensure W m =
     (let e = w_env W
      in if \<not> nic_up (m_net m) then
           on_shell (print e (bytes ''no network card (run QEMU with -device e1000)'' @ [10])) m \<bind> (\<lambda>m. Some (False, m))
         else if \<not> configured (m_net m) then
           on_shell (print e (bytes ''acquiring address via DHCP...'' @ [10])) m \<bind> (\<lambda>m.
           on_net (\<lambda>ts. net_dhcp ts (w_opts W) 5000) m \<bind> (\<lambda>(ok, m).
           if ok then Some (True, m)
           else on_shell (on_screen (term_print_error (e_font e) (bytes ''DHCP failed'' @ [10]))) m \<bind> (\<lambda>m. Some (False, m))))
         else Some (True, m))"

text \<open>The text of an address, in a buffer of 16 bytes on the stack.\<close>

definition ip_text :: "env \<Rightarrow> u32 \<Rightarrow> u8 list option" where
  "ip_text e ip = map_option c_string (ip_to_str ip (take 16 (e_stack e)))"

definition show_config :: "env \<Rightarrow> ('f, 'd) machine \<Rightarrow> ('f, 'd) machine option" where
  "show_config e m =
     (let s = m_net m; mac = our_mac s
      in ip_text e (our_ip s) \<bind> (\<lambda>ip. ip_text e (our_mask s) \<bind> (\<lambda>mask.
         ip_text e (our_gw s) \<bind> (\<lambda>gw. ip_text e (our_dns s) \<bind> (\<lambda>dns.
         on_shell (print_fmt e (bytes ''eth0: %s'' @ [10]) [Str (Some ip)]) m \<bind>
         on_shell (print_fmt e (bytes ''  mask %s  gateway %s  dns %s'' @ [10]) [Str (Some mask), Str (Some gw), Str (Some dns)]) \<bind>
         on_shell (print_fmt e (bytes ''  mac %02x:%02x:%02x:%02x:%02x:%02x'' @ [10]) (map (\<lambda>i. Num (ucast (mac ! i))) [0..<6])))))))"

definition cmd_ifconfig :: "('f, 'd) world \<Rightarrow> u8 list list \<Rightarrow> ('f, 'd) machine \<Rightarrow> ('f, 'd) machine option" where
  "cmd_ifconfig W argv m = net_ensure W m \<bind> (\<lambda>(ok, m). if \<not> ok then Some m else show_config (w_env W) m)"

text \<open>The requests with the numbers of a list; the result is how many were answered.\<close>

primrec ping_loop :: "env \<Rightarrow> u8 list \<Rightarrow> u32 \<Rightarrow> nat \<Rightarrow> nat list \<Rightarrow> nat \<Rightarrow> ('f, 'd) machine \<Rightarrow> (nat \<times> ('f, 'd) machine) option" where
  "ping_loop e ipstr ip num [] received m = Some (received, m)"
| "ping_loop e ipstr ip num (i # is) received m =
     on_net (\<lambda>ts. net_ping ts ip (of_nat (i + 1)) 2000) m \<bind> (\<lambda>(rtt, m).
     (if rtt \<ge> 0
      then on_shell (print_fmt e (bytes ''64 bytes from %s: icmp_seq=%d time=%d ms'' @ [10])
          [Str (Some ipstr), Num (of_nat (i + 1)), Num (of_int rtt)]) m
      else on_shell (print_fmt e (bytes ''icmp_seq=%d timeout'' @ [10]) [Num (of_nat (i + 1))]) m) \<bind> (\<lambda>m.
     (if i + 1 < num then pause 500 m else Some m) \<bind>
     ping_loop e ipstr ip num is (if rtt \<ge> 0 then received + 1 else received)))"

definition ping_count :: "u8 list list \<Rightarrow> nat option" where
  "ping_count argv =
     map_option (\<lambda>n. if n < 1 \<or> n > 100 then 4 else nat n) (if length argv > 2 then number_of (argv ! 2) else Some 4)"

definition ping_host :: "env \<Rightarrow> u8 list list \<Rightarrow> u32 \<Rightarrow> ('f, 'd) machine \<Rightarrow> ('f, 'd) machine option" where
  "ping_host e argv ip m =
     ip_text e ip \<bind> (\<lambda>ipstr. ping_count argv \<bind> (\<lambda>num.
     ping_loop e ipstr ip num [0..<num] 0 m \<bind> (\<lambda>(received, m).
     on_shell (print_fmt e (bytes ''--- %s: %d/%d received ---'' @ [10])
       [Str (Some ipstr), Num (of_nat received), Num (of_nat num)]) m)))"

definition cmd_ping :: "('f, 'd) world \<Rightarrow> u8 list list \<Rightarrow> ('f, 'd) machine \<Rightarrow> ('f, 'd) machine option" where
  "cmd_ping W argv m =
     (let e = w_env W
      in if length argv < 2 then on_shell (print e (bytes ''usage: ping <host> [count]'' @ [10])) m
         else net_ensure W m \<bind> (\<lambda>(ok, m).
           if \<not> ok then Some m
           else on_net (\<lambda>ts. net_resolve ts (argv ! 1) 3000) m \<bind> (\<lambda>(r, m). case r of
             None \<Rightarrow> on_shell (print_fmt e (bytes ''ping: cannot resolve %s'' @ [10]) [Str (Some (argv ! 1))]) m
           | Some ip \<Rightarrow> ping_host e argv ip m)))"

definition cmd_nslookup :: "('f, 'd) world \<Rightarrow> u8 list list \<Rightarrow> ('f, 'd) machine \<Rightarrow> ('f, 'd) machine option" where
  "cmd_nslookup W argv m =
     (let e = w_env W
      in if length argv < 2 then on_shell (print e (bytes ''usage: nslookup <name>'' @ [10])) m
         else net_ensure W m \<bind> (\<lambda>(ok, m).
           if \<not> ok then Some m
           else on_net (\<lambda>ts. net_resolve ts (argv ! 1) 3000) m \<bind> (\<lambda>(r, m). case r of
             None \<Rightarrow> on_shell (print_fmt e (bytes ''nslookup: cannot resolve %s'' @ [10]) [Str (Some (argv ! 1))]) m
           | Some ip \<Rightarrow>
               ip_text e ip \<bind> (\<lambda>ipstr.
               on_shell (print_fmt e (bytes ''%s -> %s'' @ [10]) [Str (Some (argv ! 1)), Str (Some ipstr)]) m))))"

section \<open>Language models\<close>

definition TERM_COLOR_YELLOW :: u32 where "TERM_COLOR_YELLOW = 0x00F1FA8C"

record llm_options =
  o_model :: "u8 list"
  o_tokens :: int
  o_temp :: int
  o_topp :: int

definition default_options :: llm_options where
  "default_options = \<lparr>o_model = bytes ''stories15M'', o_tokens = 0, o_temp = 80, o_topp = 90\<rparr>"

text \<open>The options before the prompt; the second result tells that \<open>-i\<close> was given, the third is what is left.\<close>

function parse_options :: "u8 list list \<Rightarrow> llm_options \<Rightarrow> (llm_options \<times> bool \<times> u8 list list) option" where
  "parse_options ws opts =
     (if ws = [] then Some (opts, False, [])
      else if hd ws = bytes ''-m'' \<and> tl ws \<noteq> [] then parse_options (tl (tl ws)) (opts\<lparr>o_model := hd (tl ws)\<rparr>)
      else if hd ws = bytes ''-n'' \<and> tl ws \<noteq> [] then
        number_of (hd (tl ws)) \<bind> (\<lambda>n. parse_options (tl (tl ws)) (opts\<lparr>o_tokens := n\<rparr>))
      else if hd ws = bytes ''-t'' \<and> tl ws \<noteq> [] then
        number_of (hd (tl ws)) \<bind> (\<lambda>n. parse_options (tl (tl ws)) (opts\<lparr>o_temp := n\<rparr>))
      else if hd ws = bytes ''-p'' \<and> tl ws \<noteq> [] then
        number_of (hd (tl ws)) \<bind> (\<lambda>n. parse_options (tl (tl ws)) (opts\<lparr>o_topp := n\<rparr>))
      else if hd ws = bytes ''-i'' then Some (opts, True, [])
      else Some (opts, False, ws))"
  by pat_completeness auto
termination
  by (relation "measure (\<lambda>(ws, opts). length ws)") (auto simp: neq_Nil_conv)

declare parse_options.simps [simp del]

text \<open>The prompt of at most 255 bytes; a word that does not fit is left out.\<close>

definition add_word :: "u8 list \<Rightarrow> u8 list \<Rightarrow> u8 list" where
  "add_word w p =
     (let p = (if p \<noteq> [] \<and> length p + 1 < LINE_MAX then p @ [32] else p)
      in if length p + length w < LINE_MAX then p @ w else p)"

definition gather_prompt :: "u8 list list \<Rightarrow> u8 list" where
  "gather_prompt ws = fold add_word ws []"

definition llm_emit_term :: "env \<Rightarrow> u8 list \<Rightarrow> shell \<Rightarrow> shell option" where
  "llm_emit_term e pce sh = print e pce sh \<bind> on_screen (\<lambda>t. Some (serial_out (serial_bytes pce) t))"

definition llm_usage :: "env \<Rightarrow> shell \<Rightarrow> shell option" where
  "llm_usage e sh =
     print e (bytes ''usage: llm [-m model] [-n tokens] [-t temp%] [-p topp%] <prompt>'' @ [10]) sh \<bind>
     print e (bytes ''       llm -i [-m model]    show model info'' @ [10]) \<bind>
     print e (bytes ''models: stories15M (default), stories260K (fast), qwen3 (chat, slow)'' @ [10])"

definition llm_info :: "('f, 'd) world \<Rightarrow> u8 list \<Rightarrow> ('f, 'd) machine \<Rightarrow> ('f, 'd) machine option" where
  "llm_info W model m =
     llm_describe kernel_heap (w_math W) (w_modules W) model (m_llm m) (vheap (files (m_shell m))) \<bind> (\<lambda>(info, s, h).
     let sh = (m_shell m)\<lparr>files := (files (m_shell m))\<lparr>vheap := h\<rparr>\<rparr>
     in on_shell (print_fmt (w_env W) (bytes ''%s: %s'' @ [10])
          [Str (Some model), Str (Some (case info of None \<Rightarrow> bytes ''unavailable'' | Some t \<Rightarrow> c_string t))]) (m\<lparr>m_llm := s, m_shell := sh\<rparr>))"

text \<open>What is printed after a generation of \<open>dt\<close> milliseconds with the result \<open>n\<close>.\<close>

definition llm_report :: "env \<Rightarrow> u8 list \<Rightarrow> int \<Rightarrow> u64 \<Rightarrow> shell \<Rightarrow> shell option" where
  "llm_report e model n dt sh =
     (if n < 0 then
        if n = LLM_ERR_NO_MODEL
        then print_fmt e ([10] @ bytes ''llm: model '' @ [39] @ bytes ''%s'' @ [39] @ bytes '' not found (boot with the model module)'' @ [10])
          [Str (Some model)] sh
        else if n = LLM_ERR_BUSY then print e ([10] @ bytes ''llm: another generation is in progress'' @ [10]) sh
        else print_fmt e ([10] @ bytes ''llm: error %d'' @ [10]) [Num (of_int n)] sh
      else
        let toks_per_10s = (if dt \<noteq> 0 then of_int n * 10000 div dt else 0)
        in print_fmt e [10] [] sh \<bind>
           print_fmt e (bytes ''[%d tokens in %lu.%lus, %lu.%lu tok/s]'' @ [10])
             [Num (of_int n), Num (dt div 1000), Num (dt mod 1000 div 100), Num (toks_per_10s div 10), Num (toks_per_10s mod 10)])"

text \<open>The pieces are printed as the generation emits them; it does not look at the screen.\<close>

definition cmd_llm :: "('f, 'd) world \<Rightarrow> u8 list list \<Rightarrow> ('f, 'd) machine \<Rightarrow> ('f, 'd) machine option" where
  "cmd_llm W argv m =
     (let e = w_env W
      in parse_options (tl argv) default_options \<bind> (\<lambda>(opts, info, ws).
         if info then llm_info W (o_model opts) m
         else if gather_prompt ws = [] then on_shell (llm_usage e) m
         else case w_clock W of (t0, t1, t2) \<Rightarrow>
           on_shell (print_color e (gather_prompt ws) TERM_COLOR_YELLOW) m \<bind> (\<lambda>m.
           llm_generate kernel_heap (w_math W) (w_modules W) (o_model opts) (gather_prompt ws) (o_tokens opts) (o_temp opts)
             (o_topp opts) (t1 XOR 0x9E3779B97F4A7C15) False (m_llm m) (vheap (files (m_shell m))) \<bind> (\<lambda>(n, pcs, s, h).
           let sh = (m_shell m)\<lparr>files := (files (m_shell m))\<lparr>vheap := h\<rparr>\<rparr>
           in on_shell (foldM (llm_emit_term e) pcs) (m\<lparr>m_llm := s, m_shell := sh\<rparr>) \<bind>
              on_shell (llm_report e (o_model opts) n (t2 - t0))))))"

section \<open>Games and chat\<close>

text \<open>Back in the shell: the cursor is shown again on an empty screen.\<close>

definition back_to_shell :: "env \<Rightarrow> shell \<Rightarrow> shell option" where
  "back_to_shell e sh = set_cursor e True sh \<bind> clear"

definition screen_fb :: "shell \<Rightarrow> framebuffer" where
  "screen_fb sh = fb (screen sh)"

definition put_fb :: "framebuffer \<Rightarrow> shell \<Rightarrow> shell" where
  "put_fb s sh = sh\<lparr>screen := (screen sh)\<lparr>fb := s\<rparr>\<rparr>"

definition cmd_snake :: "('f, 'd) world \<Rightarrow> u8 list list \<Rightarrow> ('f, 'd) machine \<Rightarrow> ('f, 'd) machine option" where
  "cmd_snake W argv m =
     on_shell (set_cursor (w_env W) False) m \<bind> (\<lambda>m.
     snake_init (w_block W) (w_alloc W) (w_start W) (w_snake W) (m_snake m) (m_kbd m) (screen_fb (m_shell m)) \<bind> (\<lambda>(over, s, k, b).
     let m = m\<lparr>m_snake := s, m_kbd := k, m_shell := put_fb b (m_shell m)\<rparr>
     in if over then on_shell (back_to_shell (w_env W)) m else Some (m\<lparr>m_inside := True\<rparr>)))"

definition cmd_pong :: "('f, 'd) world \<Rightarrow> u8 list list \<Rightarrow> ('f, 'd) machine \<Rightarrow> ('f, 'd) machine option" where
  "cmd_pong W argv m =
     on_shell (set_cursor (w_env W) False) m \<bind> (\<lambda>m.
     pong_init (w_alloc W) (e_font (w_env W)) (e_stack (w_env W)) (w_start W) (w_pong W) (m_pong m) (m_kbd m) (screen_fb (m_shell m)) \<bind>
     (\<lambda>(over, s, k, b).
     let m = m\<lparr>m_pong := s, m_kbd := k, m_shell := put_fb b (m_shell m)\<rparr>
     in if over then on_shell (back_to_shell (w_env W)) m else Some (m\<lparr>m_inside := True\<rparr>)))"

definition cmd_chat :: "('f, 'd) world \<Rightarrow> u8 list list \<Rightarrow> ('f, 'd) machine \<Rightarrow> ('f, 'd) machine option" where
  "cmd_chat W argv m =
     on_shell (set_cursor (w_env W) False) m \<bind> (\<lambda>m.
     chat_run (e_font (w_env W)) (w_lines W) (w_start W) (w_chat W) (kbd_flush (m_kbd m)) (m_chat m)
       \<lparr>v_fb = screen_fb (m_shell m), v_panel = m_panel m\<rparr> \<bind> (\<lambda>(k, z).
     let m = m\<lparr>m_chat := s_chat z, m_panel := v_panel (s_view z), m_kbd := k, m_shell := put_fb (v_fb (s_view z)) (m_shell m)\<rparr>
     in if \<not> running (s_chat z) then on_shell (back_to_shell (w_env W)) (m\<lparr>m_kbd := kbd_flush k\<rparr>)
        else Some (m\<lparr>m_inside := True\<rparr>)))"

section \<open>Running a line\<close>

definition machine_commands :: "(u8 list \<times> (('f, 'd) world \<Rightarrow> u8 list list \<Rightarrow> ('f, 'd) machine \<Rightarrow> ('f, 'd) machine option)) list" where
  "machine_commands =
     [(bytes ''ps'', cmd_ps), (bytes ''ifconfig'', cmd_ifconfig), (bytes ''ping'', cmd_ping), (bytes ''nslookup'', cmd_nslookup),
      (bytes ''date'', cmd_date), (bytes ''sleep'', cmd_sleep), (bytes ''llm'', cmd_llm), (bytes ''chat'', cmd_chat),
      (bytes ''snake'', cmd_snake), (bytes ''pong'', cmd_pong), (bytes ''memmap'', cmd_memmap), (bytes ''testmalloc'', cmd_testmalloc),
      (bytes ''reboot'', cmd_reboot), (bytes ''shutdown'', cmd_shutdown)]"

text \<open>A line of the shell with every command of the table.\<close>

definition machine_line :: "('f, 'd) world \<Rightarrow> u8 list \<Rightarrow> ('f, 'd) machine \<Rightarrow> ('f, 'd) machine option" where
  "machine_line W l m =
     (let argv = split_args ARGV_MAX l
      in case (if argv = [] then None else map_of machine_commands (hd argv)) of
           Some cmd \<Rightarrow> cmd W argv m
         | None \<Rightarrow> on_shell (process_command (w_env W) l) m)"

end
