(* ===== verification/NetClient.thy ===== *)
theory NetClient
  imports NetReceive
begin

text \<open>
  The operations of \<open>net.c\<close> that wait for an answer, in a network that is set up: whatever frames the receive thread
  handles while they wait, they run to the end, stay inside their buffers and leave the configuration alone.
\<close>

section \<open>Waiting\<close>

definition frames_ok :: "turn list \<Rightarrow> bool" where
  "frames_ok ts \<longleftrightarrow> (\<forall>t\<in>set ts. \<forall>f\<in>set (snd t). length f \<le> 1580)"

lemma frames_ok_subset: "frames_ok ts \<Longrightarrow> set us \<subseteq> set ts \<Longrightarrow> frames_ok us"
  by (auto simp: frames_ok_def)

text \<open>The state is well formed and has the configuration of \<open>s\<close>.\<close>

definition keeps :: "net \<Rightarrow> net \<Rightarrow> bool" where
  "keeps s t \<longleftrightarrow> net_ok t \<and> net_config t = net_config s"

lemma keeps_refl [simp]: "keeps s s \<longleftrightarrow> net_ok s"
  by (simp add: keeps_def)

lemma keeps_trans: "keeps r s \<Longrightarrow> keeps s t \<Longrightarrow> keeps r t"
  by (simp add: keeps_def)

lemma keeps_rx: "keeps r s \<Longrightarrow> rx_step s t \<Longrightarrow> keeps r t"
  by (simp add: keeps_def rx_step_def)

text \<open>Fields that are neither configuration nor bounded.\<close>

lemma keeps_update [simp]:
  "keeps s (t\<lparr>ticks := x\<rparr>) \<longleftrightarrow> keeps s t" "keeps s (t\<lparr>icmp_waiting := b\<rparr>) \<longleftrightarrow> keeps s t"
  "keeps s (t\<lparr>ip_id := i\<rparr>) \<longleftrightarrow> keeps s t" "keeps s (t\<lparr>udp_port := i\<rparr>) \<longleftrightarrow> keeps s t"
  by (simp_all add: keeps_def net_ok_def net_config_def)

lemma rx_thread_keeps:
  assumes "keeps r s" "\<forall>f\<in>set (snd t). length f \<le> 1580"
  shows "\<exists>u. net_rx_thread t s = Some u \<and> keeps r u"
proof -
  have "\<exists>u. foldM handle_frame fs s = Some u \<and> keeps r u" if "keeps r s" "\<forall>f\<in>set fs. length f \<le> 1580" for fs s
    using that
  proof (induction fs arbitrary: s)
    case (Cons f fs)
    then have "net_ok s" "length f \<le> 1580" by (simp_all add: keeps_def)
    from handle_frame_lemma [OF this] obtain u where "handle_frame f s = Some u" "rx_step s u" by blast
    with Cons keeps_rx [of r s u] show ?case by simp
  qed simp
  then show ?thesis using assms by (simp add: net_rx_thread_def)
qed

text \<open>A wait whose test does not fault ends, and its answer satisfies what the test promises.\<close>

lemma wait_keeps:
  assumes check: "\<And>t. keeps r t \<Longrightarrow> \<exists>a u. check t = Some (a, u) \<and> keeps r u \<and> (\<forall>v. a = Some v \<longrightarrow> Q v)"
    and "keeps r s" "frames_ok ts"
  shows "\<exists>a u us. wait_until net_rx_thread check d ts s = Some (a, u, us) \<and> keeps r u \<and> frames_ok us \<and> (\<forall>v. a = Some v \<longrightarrow> Q v)"
  using assms(2,3)
proof (induction ts arbitrary: s)
  case Nil
  from check [OF Nil(1)] obtain a u where "check s = Some (a, u)" "keeps r u" "\<forall>v. a = Some v \<longrightarrow> Q v" by blast
  then show ?case using Nil by (cases a) auto
next
  case (Cons t ts)
  from check [OF Cons.prems(1)] obtain a u where c: "check s = Some (a, u)" "keeps r u" "\<forall>v. a = Some v \<longrightarrow> Q v" by blast
  show ?case
  proof (cases "ticks s < d \<and> a = None")
    case True
    obtain w where "net_rx_thread t u = Some w" "keeps r w"
      using rx_thread_keeps [OF c(2), of t] Cons.prems(2) by (auto simp: frames_ok_def)
    then show ?thesis using Cons.IH [of w] Cons.prems(2) True c(1) by (simp add: frames_ok_def)
  qed (use c Cons.prems in \<open>auto split: option.splits\<close>)
qed

section \<open>Sending\<close>

lemma resolve_mac_keeps:
  assumes "keeps r s" "frames_ok ts"
  shows "\<exists>mac u us. resolve_mac net_rx_thread ts dst n s = Some (mac, u, us) \<and> keeps r u \<and> frames_ok us \<and>
    (\<forall>v. mac = Some v \<longrightarrow> length v = 6)"
proof -
  let ?hop = "next_hop dst s" and ?check = "\<lambda>hop s. Some (arp_cache_get hop (arp_cache s), s)"
  have ok: "net_ok s" using assms(1) by (simp add: keeps_def)
  have check: "\<exists>a u. ?check hop t = Some (a, u) \<and> keeps r u \<and> (\<forall>v. a = Some v \<longrightarrow> length v = 6)" if "keeps r t" for t hop
    using arp_cache_get_ok [of hop "arp_cache t"] that by (auto simp: keeps_def net_ok_def)
  consider "?hop = 0xFFFFFFFF \<or> ?hop = 0" | "\<not> (?hop = 0xFFFFFFFF \<or> ?hop = 0)" "arp_cache_get ?hop (arp_cache s) \<noteq> None"
    | "\<not> (?hop = 0xFFFFFFFF \<or> ?hop = 0)" "arp_cache_get ?hop (arp_cache s) = None" by blast
  then show ?thesis
  proof cases
    case 1
    then show ?thesis using assms by (auto simp: resolve_mac_def Let_def bcast_mac_def)
  next
    case 2
    then show ?thesis using assms check [OF assms(1), of ?hop] by (auto simp: resolve_mac_def Let_def)
  next
    case 3
    have "length (arp_packet 1 (replicate 6 0) ?hop s) = 28" using ok by (simp add: arp_packet_def net_ok_def)
    then obtain t where t: "arp_request ?hop s = Some t" "rx_step s t"
      using eth_send_ok [where mac = bcast_mac and payload = "arp_packet 1 (replicate 6 0) ?hop s" and ty = "0x0806", OF ok]
      by (auto simp: arp_request_def bcast_mac_def FRAME_MAX_def)
    have "resolve_mac net_rx_thread ts dst n s = wait_until net_rx_thread (?check ?hop) (ticks s + ucast n) ts t"
      using 3 t(1) by (simp add: resolve_mac_def Let_def)
    then show ?thesis using wait_keeps [OF check keeps_rx [OF assms(1) t(2)] assms(2)] by simp
  qed
qed

lemma ip_send_keeps:
  assumes "keeps r s" "frames_ok ts" "34 + length payload \<le> FRAME_MAX"
  shows "\<exists>u us. ip_send net_rx_thread ts dst proto payload s = Some (u, us) \<and> keeps r u \<and> frames_ok us"
proof -
  from resolve_mac_keeps [OF assms(1,2), of dst 1000] obtain mac t us where
    t: "resolve_mac net_rx_thread ts dst 1000 s = Some (mac, t, us)" "keeps r t" "frames_ok us" "\<forall>v. mac = Some v \<longrightarrow> length v = 6"
    by blast
  show ?thesis
  proof (cases mac)
    case None
    then show ?thesis using t by (simp add: ip_send_def)
  next
    case (Some v)
    define s1 where "s1 = t\<lparr>ip_id := ip_id t + 1\<rparr>"
    define hdr where "hdr = ip_header (of_nat (20 + length payload)) (ip_id t) proto
      (checksum16 (ip_header (of_nat (20 + length payload)) (ip_id t) proto 0 (our_ip t) dst) 0) (our_ip t) dst"
    have k: "keeps r s1" using t(2) by (simp add: s1_def)
    then have ok: "net_ok s1" by (simp add: keeps_def)
    have m: "length v = 6" using t(4) Some by simp
    have "length (hdr @ payload) = 20 + length payload" by (simp add: hdr_def ip_header_def)
    then obtain u where u: "eth_send v 0x0800 (hdr @ payload) s1 = Some u" "rx_step s1 u"
      using eth_send_ok [where payload = "hdr @ payload" and ty = "0x0800", OF ok m] assms(3) by auto
    have "ip_send net_rx_thread ts dst proto payload s = Some (u, us)"
      using t(1) Some assms(3) u(1) by (simp add: ip_send_def Let_def hdr_def s1_def)
    then show ?thesis using keeps_rx [OF k u(2)] t(3) by blast
  qed
qed

lemma udp_send_keeps:
  assumes "keeps r s" "frames_ok ts" "42 + length payload \<le> FRAME_MAX"
  shows "\<exists>u us. udp_send net_rx_thread ts dst sport dport payload s = Some (u, us) \<and> keeps r u \<and> frames_ok us"
  using assms ip_send_keeps [OF assms(1,2), where proto = 17 and dst = dst and payload =
      "le16 (htons16 sport) @ le16 (htons16 dport) @ le16 (htons16 (of_nat (8 + length payload))) @ [0, 0] @ payload"]
  by (simp add: udp_send_def)

section \<open>Ping and name lookup\<close>

lemma net_ping_keeps:
  assumes "net_ok s" "frames_ok ts"
  shows "\<exists>rtt u us. net_ping ts ip seq n s = Some (rtt, u, us) \<and> keeps s u \<and> frames_ok us"
proof (cases "configured s")
  case True
  let ?s = "s\<lparr>icmp_id := htons16 0xC0C0, icmp_seq := htons16 seq, icmp_got := False, icmp_waiting := True\<rparr>"
  have k: "keeps s ?s" using assms(1) by (simp add: keeps_def net_ok_def net_config_def)
  have len: "34 + length (ping_packet seq) \<le> FRAME_MAX" by (simp add: ping_packet_def Let_def FRAME_MAX_def)
  from ip_send_keeps [OF k assms(2) len] obtain t us where
    t: "ip_send net_rx_thread ts ip 1 (ping_packet seq) ?s = Some (t, us)" "keeps s t" "frames_ok us" by blast
  have check: "\<exists>a u. ping_check v = Some (a, u) \<and> keeps s u \<and> (\<forall>v. a = Some v \<longrightarrow> True)" if "keeps s v" for v
    using that by (simp add: ping_check_def)
  obtain a u vs where "wait_until net_rx_thread ping_check (ticks s + ucast n) us t = Some (a, u, vs)" "keeps s u" "frames_ok vs"
    using wait_keeps [where check = ping_check and Q = "\<lambda>_. True", OF check t(2,3)] by blast
  then show ?thesis using True t(1) by (cases a) (simp_all add: net_ping_def Let_def)
qed (use assms in \<open>simp add: net_ping_def\<close>)

lemma dns_labels_length: "dns_labels p pos = Some l \<Longrightarrow> l \<noteq> [] \<longrightarrow> pos + length l \<le> 500"
proof (induction p pos arbitrary: l rule: dns_labels.induct)
  case (1 p pos)
  let ?k = "length (takeWhile (\<lambda>c. c \<noteq> 46) p)"
  show ?case
  proof (cases "p = []")
    case True
    then show ?thesis using "1.prems" by (subst (asm) dns_labels.simps) simp
  next
    case False
    then obtain r where r: "dns_labels (drop (?k + 1) p) (pos + 1 + ?k) = Some r" "l = of_nat ?k # takeWhile (\<lambda>c. c \<noteq> 46) p @ r"
      "\<not> (?k = 0 \<or> ?k > 63 \<or> pos + ?k + 1 > 500)"
      using "1.prems" by (subst (asm) dns_labels.simps) (auto simp: Let_def split: if_splits)
    from "1.IH" [OF False refl refl r(3,1)] show ?thesis using r(2,3) by (cases r) auto
  qed
qed

lemma dns_check_keeps:
  assumes "keeps r s"
  shows "\<exists>a u. dns_check qid s = Some (a, u) \<and> keeps r u"
proof -
  have "udp_len s \<le> length (udp_data s)" using assms by (simp add: keeps_def net_ok_def)
  from dns_parse_total [OF this, of qid] obtain a where "dns_parse qid (udp_data s) (udp_len s) = Some a" by blast
  then show ?thesis using assms
    by (cases a) (auto simp: dns_check_def keeps_def net_ok_def net_config_def)
qed

lemma net_resolve_keeps:
  assumes "net_ok s" "frames_ok ts"
  shows "\<exists>a u us. net_resolve ts name n s = Some (a, u, us) \<and> keeps s u \<and> frames_ok us"
proof (cases "str_to_ip name = None \<and> configured s \<and> our_dns s \<noteq> 0 \<and> dns_labels name 12 \<noteq> None")
  case True
  then obtain l where l: "dns_labels name 12 = Some l" by blast
  let ?q = "ucast (ticks s)" and ?next = "if eport s + 1 < 49152 then 49152 else eport s + 1"
  let ?s = "s\<lparr>eport := ?next, udp_len := 0, udp_port := eport s\<rparr>"
  have k: "keeps s ?s" using assms(1) by (simp add: keeps_def net_ok_def net_config_def)
  have len: "42 + length (dns_query ?q l) \<le> FRAME_MAX" using dns_labels_length [OF l] by (cases l) (auto simp: dns_query_def FRAME_MAX_def)
  from udp_send_keeps [OF k assms(2) len] obtain t us where
    t: "udp_send net_rx_thread ts (our_dns ?s) (eport s) 53 (dns_query ?q l) ?s = Some (t, us)" "keeps s t" "frames_ok us" by blast
  have check: "\<exists>a u. dns_check ?q v = Some (a, u) \<and> keeps s u \<and> (\<forall>v. a = Some v \<longrightarrow> True)" if "keeps s v" for v
    using dns_check_keeps [OF that] by simp
  obtain a u vs where "wait_until net_rx_thread (dns_check ?q) (ticks t + ucast n) us t = Some (a, u, vs)" "keeps s u" "frames_ok vs"
    using wait_keeps [where check = "dns_check ?q" and Q = "\<lambda>_. True", OF check t(2,3)] by blast
  then show ?thesis using True l t(1) by (cases a) (simp_all add: net_resolve_def Let_def)
qed (use assms in \<open>auto simp: net_resolve_def Let_def split: option.splits\<close>)

end
