(* ===== verification/CommandsSafe.thy ===== *)
theory CommandsSafe
  imports Commands NetClient NetAddress
begin

text \<open>
  The commands of the theory \<open>Commands\<close>: the network commands end and stay inside their buffers whatever the network
  sends, \<open>ps\<close> lists every thread once, and the prompt of \<open>llm\<close> fits its buffer.
\<close>

section \<open>Steps of a command\<close>

text \<open>A step that only changes the screen and the network, and keeps both well formed.\<close>

definition net_step :: "env \<Rightarrow> ('f, 'd) machine \<Rightarrow> ('f, 'd) machine \<Rightarrow> bool" where
  "net_step e m m' \<longleftrightarrow>
     (\<exists>s ts t. m' = m\<lparr>m_net := s, m_turns := ts, m_shell := (m_shell m)\<lparr>screen := t\<rparr>\<rparr> \<and>
        keeps (m_net m) s \<and> frames_ok ts \<and> term_ok (e_font e) t)"

definition net_ready :: "env \<Rightarrow> ('f, 'd) machine \<Rightarrow> bool" where
  "net_ready e m \<longleftrightarrow> net_ok (m_net m) \<and> frames_ok (m_turns m) \<and> screen_ok e (m_shell m)"

lemma net_step_trans: "net_step e m m' \<Longrightarrow> net_step e m' m'' \<Longrightarrow> net_step e m m''"
  unfolding net_step_def using keeps_trans by fastforce

lemma net_step_ready: "net_step e m m' \<Longrightarrow> net_ready e m'"
  by (auto simp: net_step_def net_ready_def keeps_def screen_ok_def)

lemma net_step_refl: "net_ready e m \<Longrightarrow> net_step e m m"
  unfolding net_step_def net_ready_def screen_ok_def
  by (intro exI [of _ "m_net m"] exI [of _ "m_turns m"] exI [of _ "screen (m_shell m)"]) simp

lemma print_step:
  assumes "net_ready e m" "\<exists>out. writes e out (m_shell m) (op (m_shell m))"
  shows "\<exists>m'. on_shell op m = Some m' \<and> net_step e m m'"
proof -
  from assms(2) obtain t where "op (m_shell m) = Some ((m_shell m)\<lparr>screen := t\<rparr>)" "term_ok (e_font e) t"
    by (auto simp: writes_def)
  then show ?thesis using assms(1) unfolding net_step_def net_ready_def on_shell_def
    by (intro exI [of _ "m\<lparr>m_shell := (m_shell m)\<lparr>screen := t\<rparr>\<rparr>"] conjI) (auto intro!: exI [of _ "m_net m"] exI [of _ "m_turns m"] exI [of _ t])
qed

lemma wait_step:
  assumes "net_ready e m" "\<exists>r u us. op (m_turns m) (m_net m) = Some (r, u, us) \<and> keeps (m_net m) u \<and> frames_ok us"
  shows "\<exists>r m'. on_net op m = Some (r, m') \<and> net_step e m m'"
proof -
  from assms(2) obtain r u us where "op (m_turns m) (m_net m) = Some (r, u, us)" "keeps (m_net m) u" "frames_ok us" by blast
  then show ?thesis using assms(1) unfolding net_step_def net_ready_def on_net_def screen_ok_def
    by (intro exI [of _ r] exI [of _ "m\<lparr>m_net := u, m_turns := us\<rparr>"] conjI)
      (auto intro!: exI [of _ u] exI [of _ us] exI [of _ "screen (m_shell m)"])
qed

lemma step_bind:
  assumes "\<exists>m'. a = Some m' \<and> net_step e m m'" "\<And>m'. net_step e m m' \<Longrightarrow> \<exists>m''. k m' = Some m'' \<and> net_step e m' m''"
  shows "\<exists>m''. a \<bind> k = Some m'' \<and> net_step e m m''"
  using assms net_step_trans by fastforce

lemma step_bind_result:
  assumes "\<exists>r m'. a = Some (r, m') \<and> net_step e m m'"
    and "\<And>r m'. net_step e m m' \<Longrightarrow> \<exists>m''. k (r, m') = Some m'' \<and> net_step e m' m''"
  shows "\<exists>m''. a \<bind> k = Some m'' \<and> net_step e m m''"
  using assms net_step_trans by fastforce

lemma line_step:
  assumes "net_ready e m" "512 \<le> length (e_stack e)" "format_text fmt args \<noteq> None"
  shows "\<exists>m'. on_shell (print_fmt e fmt args) m = Some m' \<and> net_step e m m'"
proof (rule print_step [OF assms(1)])
  have "screen_ok e (m_shell m)" using assms(1) by (simp add: net_ready_def)
  from print_fmt_some [OF this assms(2,3)] show "\<exists>out. writes e out (m_shell m) (print_fmt e fmt args (m_shell m))" .
qed

lemma text_step:
  assumes "net_ready e m"
  shows "\<exists>m'. on_shell (print e cs) m = Some m' \<and> net_step e m m'"
proof (rule print_step [OF assms])
  have "screen_ok e (m_shell m)" using assms by (simp add: net_ready_def)
  from print_writes [OF this, of cs] show "\<exists>out. writes e out (m_shell m) (print e cs (m_shell m))" by blast
qed

lemma pause_step:
  assumes "net_ready e m"
  shows "\<exists>m'. pause ms m = Some m' \<and> net_step e m m'"
proof -
  have n: "net_ok (m_net m)" "frames_ok (m_turns m)" using assms by (simp_all add: net_ready_def)
  have k: "keeps (m_net m) (m_net m)" using n by simp
  have "\<exists>r u us. wait_until net_rx_thread (\<lambda>s. Some (None :: unit option, s)) (ticks (m_net m) + ms) (m_turns m) (m_net m) = Some (r, u, us) \<and>
      keeps (m_net m) u \<and> frames_ok us"
    using wait_keeps [where check = "\<lambda>s. Some (None :: unit option, s)" and Q = "\<lambda>_. True", OF _ k n(2)] by simp
  from wait_step [where op = "\<lambda>ts s. wait_until net_rx_thread (\<lambda>s. Some (None :: unit option, s)) (ticks s + ms) ts s", OF assms this]
  show ?thesis by (auto simp: pause_def)
qed

section \<open>Words of a line\<close>

lemma atoi_total:
  assumes "0 \<notin> set w"
  shows "\<exists>n. number_of w = Some n"
proof -
  have skip: "\<exists>c s. skip_blanks (w @ [0]) = Some (c # s) \<and> (c = 0 \<and> s = [] \<or> c \<noteq> 0 \<and> (\<exists>v. s = v @ [0] \<and> 0 \<notin> set v))" if "0 \<notin> set w" for w :: "u8 list"
    using that by (induction w) auto
  have digits: "strtol_digits 10 a (v @ [0]) \<noteq> None" if "0 \<notin> set v" for a v
    using that by (induction v arbitrary: a) (auto simp: digit_val_def)
  from skip [OF assms] obtain c s where s: "skip_blanks (w @ [0]) = Some (c # s)"
    "c = 0 \<and> s = [] \<or> c \<noteq> 0 \<and> (\<exists>v. s = v @ [0] \<and> 0 \<notin> set v)" by blast
  obtain v where v: "(if c = 45 \<or> c = 43 then s else c # s) = v @ [0]" "0 \<notin> set v"
  proof (cases "c = 45 \<or> c = 43")
    case True
    then show ?thesis using s(2) that by auto
  next
    case False
    then show ?thesis using s(2) that [of "[]"] that [of "c # v" for v] by auto
  qed
  have b: "strtol_base (v @ [0]) 10 = Some (10, v @ [0])" by (cases v) (simp_all add: strtol_base_def)
  have "c_strtol (w @ [0]) 10 \<noteq> None" using v digits [OF v(2), of 0] by (auto simp: c_strtol_def s(1) b)
  then show ?thesis by (auto simp: number_of_def c_atoi_def)
qed

section \<open>The network commands\<close>

lemma ip_text_total: "512 \<le> length (e_stack e) \<Longrightarrow> \<exists>t. ip_text e ip = Some t"
  using ip_to_str_text [of "take 16 (e_stack e)" ip] by (auto simp: ip_text_def)

lemmas format_simps = directive_def convert_text_def Let_def

lemma ping_loop_step:
  assumes j: "512 \<le> length (e_stack e)" and "net_ready e m"
  shows "\<exists>n m'. ping_loop e ipstr ip num is k m = Some (n, m') \<and> net_step e m m' \<and> k \<le> n \<and> n \<le> k + length is"
  using assms(2)
proof (induction "is" arbitrary: k m)
  case Nil
  then show ?case using net_step_refl by simp
next
  case (Cons i ix)
  let ?op = "\<lambda>ts. net_ping ts ip (of_nat (i + 1)) 2000"
  have "\<exists>r u us. net_ping (m_turns m) ip (of_nat (i + 1)) 2000 (m_net m) = Some (r, u, us) \<and> keeps (m_net m) u \<and> frames_ok us"
    using net_ping_keeps [of "m_net m" "m_turns m"] Cons.prems by (simp add: net_ready_def)
  from wait_step [where op = ?op, OF Cons.prems this] obtain rtt m1 where
    1: "on_net ?op m = Some (rtt, m1)" "net_step e m m1" by blast
  have f: "format_text (bytes ''64 bytes from %s: icmp_seq=%d time=%d ms'' @ [10]) [Str (Some ipstr), Num a, Num b] \<noteq> None"
    "format_text (bytes ''icmp_seq=%d timeout'' @ [10]) [Num a] \<noteq> None" for a b by (simp_all add: format_simps)
  let ?line = "if rtt \<ge> 0 then on_shell (print_fmt e (bytes ''64 bytes from %s: icmp_seq=%d time=%d ms'' @ [10])
      [Str (Some ipstr), Num (of_nat (i + 1)), Num (of_int rtt)]) m1
    else on_shell (print_fmt e (bytes ''icmp_seq=%d timeout'' @ [10]) [Num (of_nat (i + 1))]) m1"
  have "\<exists>m2. ?line = Some m2 \<and> net_step e m1 m2"
    using line_step [OF net_step_ready [OF 1(2)] j f(1)] line_step [OF net_step_ready [OF 1(2)] j f(2)] by simp
  then obtain m2 where 2: "?line = Some m2" "net_step e m1 m2" by blast
  have "\<exists>m3. (if i + 1 < num then pause 500 m2 else Some m2) = Some m3 \<and> net_step e m2 m3"
    using pause_step [OF net_step_ready [OF 2(2)]] net_step_refl [OF net_step_ready [OF 2(2)]] by simp
  then obtain m3 where 3: "(if i + 1 < num then pause 500 m2 else Some m2) = Some m3" "net_step e m2 m3" by blast
  let ?k = "if rtt \<ge> 0 then k + 1 else k"
  from Cons.IH [OF net_step_ready [OF 3(2)], of ?k] obtain n m4 where
    4: "ping_loop e ipstr ip num ix ?k m3 = Some (n, m4)" "net_step e m3 m4" "?k \<le> n" "n \<le> ?k + length ix" by blast
  have "net_step e m m4" using 1(2) 2(2) 3(2) 4(2) net_step_trans by blast
  moreover have "ping_loop e ipstr ip num (i # ix) k m = Some (n, m4)"
    unfolding ping_loop.simps 1(1) bind.bind_lunit prod.case 2(1) 3(1) 4(1) ..
  ultimately show ?case using 4(3,4) by (auto split: if_splits)
qed

lemma net_ensure_step:
  assumes "net_ready e m" "e = w_env W" "nic_up (m_net m) \<longrightarrow> configured (m_net m)"
  shows "\<exists>ok m'. net_ensure W m = Some (ok, m') \<and> net_step e m m'"
proof (cases "nic_up (m_net m)")
  case True
  then have "net_ensure W m = Some (True, m)" using assms(3) by (simp add: net_ensure_def Let_def)
  then show ?thesis using net_step_refl [OF assms(1)] by blast
next
  case False
  from text_step [OF assms(1)] obtain m' where
    "on_shell (print e (bytes ''no network card (run QEMU with -device e1000)'' @ [10])) m = Some m'" "net_step e m m'" by blast
  then have "net_ensure W m = Some (False, m')" using False assms(2) by (simp add: net_ensure_def Let_def)
  then show ?thesis using \<open>net_step e m m'\<close> by blast
qed

lemma ensure_then:
  assumes "net_ready e m" "e = w_env W" "nic_up (m_net m) \<longrightarrow> configured (m_net m)"
    and k: "\<And>m'. net_ready e m' \<Longrightarrow> \<exists>m''. k m' = Some m'' \<and> net_step e m' m''"
  shows "\<exists>m'. net_ensure W m \<bind> (\<lambda>(ok, m). if \<not> ok then Some m else k m) = Some m' \<and> net_step e m m'"
proof (rule step_bind_result [OF net_ensure_step [OF assms(1-3)]])
  fix ok m' assume "net_step e m m'"
  from net_step_ready [OF this] k [of m'] net_step_refl [of e m']
  show "\<exists>m''. (case (ok, m') of (ok, m) \<Rightarrow> if \<not> ok then Some m else k m) = Some m'' \<and> net_step e m' m''" by simp
qed

lemma resolve_step:
  assumes "net_ready e m"
  shows "\<exists>r m'. on_net (\<lambda>ts. net_resolve ts name 3000) m = Some (r, m') \<and> net_step e m m'"
proof -
  have "net_ok (m_net m)" "frames_ok (m_turns m)" using assms by (simp_all add: net_ready_def)
  from net_resolve_keeps [OF this] show ?thesis
    by (intro wait_step [where op = "\<lambda>ts. net_resolve ts name 3000", OF assms]) blast
qed

lemma resolve_then:
  assumes "net_ready e m" and a: "\<And>m'. net_ready e m' \<Longrightarrow> \<exists>m''. a m' = Some m'' \<and> net_step e m' m''"
    and b: "\<And>ip m'. net_ready e m' \<Longrightarrow> \<exists>m''. b ip m' = Some m'' \<and> net_step e m' m''"
  shows "\<exists>m'. on_net (\<lambda>ts. net_resolve ts name 3000) m \<bind> (\<lambda>(r, m). case r of None \<Rightarrow> a m | Some ip \<Rightarrow> b ip m) = Some m' \<and> net_step e m m'"
proof (rule step_bind_result [OF resolve_step [OF assms(1)]])
  fix r m' assume "net_step e m m'"
  from net_step_ready [OF this] a [of m'] b [of m']
  show "\<exists>m''. (case (r, m') of (r, m) \<Rightarrow> (case r of None \<Rightarrow> a m | Some ip \<Rightarrow> b ip m)) = Some m'' \<and> net_step e m' m''" by (cases r) simp_all
qed

lemma ping_count_total:
  assumes "\<forall>w\<in>set argv. 0 \<notin> set w"
  obtains n where "ping_count argv = Some n" "1 \<le> n" "n \<le> 100"
proof (cases "length argv > 2")
  case True
  then have "0 \<notin> set (argv ! 2)" using assms by simp
  from atoi_total [OF this] obtain n where "number_of (argv ! 2) = Some n" by blast
  then have "ping_count argv = Some (if n < 1 \<or> n > 100 then 4 else nat n)" using True by (simp add: ping_count_def)
  then show ?thesis by (rule that) auto
next
  case False
  then show ?thesis using that [of 4] by (simp add: ping_count_def)
qed

lemma ping_host_step:
  assumes j: "512 \<le> length (e_stack e)" and w: "\<forall>w\<in>set argv. 0 \<notin> set w" and r: "net_ready e m"
  shows "\<exists>m'. ping_host e argv ip m = Some m' \<and> net_step e m m'"
proof -
  have f: "format_text (bytes ''--- %s: %d/%d received ---'' @ [10]) [Str (Some s), Num a, Num b] \<noteq> None" for s a b
    by (simp add: format_simps)
  obtain num where num: "ping_count argv = Some num" by (rule ping_count_total [OF w])
  obtain ipstr where ip: "ip_text e ip = Some ipstr" using ip_text_total [OF j] by blast
  obtain n m1 where 1: "ping_loop e ipstr ip num [0..<num] 0 m = Some (n, m1)" "net_step e m m1"
    using ping_loop_step [OF j r] by blast
  from line_step [OF net_step_ready [OF 1(2)] j f] obtain m2 where
    "on_shell (print_fmt e (bytes ''--- %s: %d/%d received ---'' @ [10]) [Str (Some ipstr), Num (of_nat n), Num (of_nat num)]) m1 = Some m2"
    "net_step e m1 m2" by blast
  then show ?thesis using net_step_trans [OF 1(2)] by (simp add: ping_host_def ip num 1(1))
qed

lemma cmd_ping_step:
  assumes r: "net_ready e m" and e: "e = w_env W" and j: "512 \<le> length (e_stack e)"
    and c: "nic_up (m_net m) \<longrightarrow> configured (m_net m)" and w: "\<forall>w\<in>set argv. 0 \<notin> set w"
  shows "\<exists>m'. cmd_ping W argv m = Some m' \<and> net_step e m m'"
proof (cases "length argv < 2")
  case True
  then show ?thesis using text_step [OF r] by (simp add: cmd_ping_def Let_def e)
next
  case False
  have f: "format_text (bytes ''ping: cannot resolve %s'' @ [10]) [Str (Some s)] \<noteq> None" for s by (simp add: format_simps)
  show ?thesis unfolding cmd_ping_def Let_def if_not_P [OF False] e [symmetric]
    by (intro ensure_then [OF r e c] resolve_then line_step j f ping_host_step w)
qed

lemma cmd_nslookup_step:
  assumes r: "net_ready e m" and e: "e = w_env W" and j: "512 \<le> length (e_stack e)"
    and c: "nic_up (m_net m) \<longrightarrow> configured (m_net m)"
  shows "\<exists>m'. cmd_nslookup W argv m = Some m' \<and> net_step e m m'"
proof (cases "length argv < 2")
  case True
  then show ?thesis using text_step [OF r] by (simp add: cmd_nslookup_def Let_def e)
next
  case False
  have f: "format_text (bytes ''nslookup: cannot resolve %s'' @ [10]) [Str (Some s)] \<noteq> None"
    "format_text (bytes ''%s -> %s'' @ [10]) [Str (Some s), Str (Some t)] \<noteq> None" for s t by (simp_all add: format_simps)
  have found: "\<exists>m''. ip_text e ip \<bind> (\<lambda>ipstr. on_shell (print_fmt e (bytes ''%s -> %s'' @ [10]) [Str (Some (argv ! 1)), Str (Some ipstr)]) m') =
      Some m'' \<and> net_step e m' m''" if "net_ready e m'" for ip and m' :: "('a, 'b) machine"
    using ip_text_total [OF j, of ip] line_step [OF that j f(2)] by auto
  show ?thesis unfolding cmd_nslookup_def Let_def if_not_P [OF False] e [symmetric]
    by (intro ensure_then [OF r e c] resolve_then line_step j f(1) found)
qed

lemma cmd_ifconfig_step:
  assumes r: "net_ready e m" and e: "e = w_env W" and j: "512 \<le> length (e_stack e)"
    and c: "nic_up (m_net m) \<longrightarrow> configured (m_net m)"
  shows "\<exists>m'. cmd_ifconfig W argv m = Some m' \<and> net_step e m m'"
proof -
  have f: "format_text (bytes ''eth0: %s'' @ [10]) [Str (Some s)] \<noteq> None"
    "format_text (bytes ''  mask %s  gateway %s  dns %s'' @ [10]) [Str (Some s), Str (Some t), Str (Some u)] \<noteq> None"
    "format_text (bytes ''  mac %02x:%02x:%02x:%02x:%02x:%02x'' @ [10]) (map (\<lambda>i. Num (ucast (x ! i))) [0..<6]) \<noteq> None"
    for s t u and x :: "u8 list" by (simp_all add: format_simps upt_rec [of _ 6] upt_conv_Cons)
  have t: "\<exists>t. ip_text e ip = Some t" for ip by (rule ip_text_total [OF j])
  have lines: "\<exists>m''. show_config e m' = Some m'' \<and> net_step e m' m''" if q: "net_ready e m'" for m' :: "('a, 'b) machine"
  proof -
    obtain a b c d where ips: "ip_text e (our_ip (m_net m')) = Some a" "ip_text e (our_mask (m_net m')) = Some b"
      "ip_text e (our_gw (m_net m')) = Some c" "ip_text e (our_dns (m_net m')) = Some d" using t by meson
    show ?thesis unfolding show_config_def Let_def ips bind.bind_lunit
      by (intro step_bind line_step q j f net_step_ready)
  qed
  show ?thesis unfolding cmd_ifconfig_def e [symmetric] by (intro ensure_then [OF r e c] lines)
qed

section \<open>The list of threads\<close>

lemma serial_line: "10 \<notin> set xs \<Longrightarrow> serial_bytes (xs @ [10]) = xs @ [13, 10]"
  by (induction xs) auto

lemma serial_append: "serial_bytes (xs @ ys) = serial_bytes xs @ serial_bytes ys"
  by (induction xs) auto

lemma fmt_writes:
  assumes "screen_ok e sh" "512 \<le> length (e_stack e)" "format_text fmt args = Some (s @ [10])" "\<forall>c\<in>set s. printable c" "length s < 511"
  shows "writes e (s @ [13, 10]) sh (print_fmt e fmt args sh)"
proof -
  let ?t = "s @ [10]"
  have np: "c \<notin> set s" if "c < 32" for c using assms(4) that by (auto simp: printable_def)
  have tk: "take (512 - 1) ?t = ?t" by (rule take_all) (use assms(5) in simp)
  have "vsnprintf (e_stack e) 512 fmt args = Some (length ?t, ?t @ 0 # drop (length ?t + 1) (e_stack e))"
    unfolding vsnprintf_lemma [OF assms(2) zero_less_numeral] assms(3) option.map(2) tk by simp
  then have "term_printf (e_font e) (e_stack e) fmt args = term_print (e_font e) (c_string (?t @ 0 # drop (length ?t + 1) (e_stack e)))"
    by (simp add: term_printf_def fun_eq_iff)
  then have "print_fmt e fmt args = print e ?t"
    using c_string_text [of ?t] np [of 0] by (simp add: print_fmt_def print_def)
  then show ?thesis using print_plain_writes [OF assms(1), of ?t] np [of 9] serial_line np [of 10] by simp
qed

lemma digits_printable: "c \<in> set (digits_rev False 10 n) \<Longrightarrow> printable c"
proof (induction n rule: less_induct)
  case (less n)
  have d: "printable (digit_char False (n mod 10))"
  proof -
    have "n mod 10 \<in> {..<10}" by simp
    then have "digit_char False (n mod 10) \<in> set (map (digit_char False) [0, 1, 2, 3, 4, 5, 6, 7, 8, 9])"
      by (auto simp: lessThan_nat_numeral lessThan_Suc)
    moreover have "\<forall>c\<in>set (map (digit_char False) [0, 1, 2, 3, 4, 5, 6, 7, 8, 9]). printable c"
      by (simp add: digit_char_def printable_def)
    ultimately show ?thesis by blast
  qed
  show ?case
  proof (cases "n = 0")
    case False
    then have "c = digit_char False (n mod 10) \<or> c \<in> set (digits_rev False 10 (n div 10))"
      using less.prems by (subst (asm) digits_rev.simps) simp
    then show ?thesis using d less.IH [of "n div 10"] False by auto
  qed (use less.prems in simp)
qed

lemma number_text_ok:
  "\<forall>c\<in>set (number_text v 10 False False w False left). printable c" "length (number_text v 10 False False w False left) \<le> 21 + nat w"
proof -
  show "\<forall>c\<in>set (number_text v 10 False False w False left). printable c"
    using digits_printable [of _ "unat v"]
    by (auto simp: number_text_def number_tmp_def pad_text_def Let_def printable_def split: if_splits)
  have "length (number_tmp False 10 v False) \<le> 21"
  proof (cases "v = 0")
    case False
    then show ?thesis using number_digits_read_back [of 10 v False False] by simp
  qed (simp add: number_tmp_def)
  then show "length (number_text v 10 False False w False left) \<le> 21 + nat w"
    by (cases left; simp add: number_text_def pad_text_def Let_def; arith)
qed

lemma signed_small: "n < 2 ^ 31 \<Longrightarrow> signed_arg 0 (of_nat n) = of_nat n"
proof -
  assume n: "n < 2 ^ 31"
  have "scast (of_nat n :: u32) = (of_nat n :: u64)" using n by (simp add: signed_of_nat signed_take_bit_int_eq_self)
  then show ?thesis by (simp add: signed_arg_def ucast_of_nat_down)
qed

text \<open>The row of a thread, as \<open>ps\<close> shows it.\<close>

definition thread_row :: "int \<times> u8 list \<times> thread_state \<Rightarrow> u8 list" where
  "thread_row = (\<lambda>(i, nm, st). [32, 32] @ number_text (of_int i) 10 False False 4 False True @ [32] @
     string_text (c_string nm) 16 True @ [32] @ bytes (state_name st))"

definition row_ok :: "int \<times> u8 list \<times> thread_state \<Rightarrow> bool" where
  "row_ok = (\<lambda>(i, nm, st). 0 \<le> i \<and> i < 2 ^ 31 \<and> length (c_string nm) < 64 \<and> (\<forall>c\<in>set (c_string nm). printable c))"

definition row_of :: "heap sched \<Rightarrow> u64 \<Rightarrow> int \<times> u8 list \<times> thread_state" where
  "row_of s x = (let th = the (threads s x) in (t_id th, t_name th, t_state th))"

lemma row_format:
  assumes "0 \<le> i" "i < 2 ^ 31"
  shows "format_text (bytes ''  %-4d %-16s %s'' @ [10]) [Num (of_int i), Str (Some nm), Str (Some st)] =
    Some (([32, 32] @ number_text (of_int i) 10 False False 4 False True @ [32] @ string_text nm 16 True @ [32] @ st) @ [10])"
proof -
  obtain n where i: "i = int n" using assms(1) by (cases i) auto
  have n: "n < 2 ^ 31" using assms(2) i by simp
  have s: "\<not> sint (of_nat n :: u64) < 0" using sint_small(2) [of n] n by simp
  show ?thesis using s signed_small [OF n]
    by (simp add: i directive_def convert_text_def Let_def string_text_def [of st] pad_text_def)
qed

lemma state_name_ok: "(\<forall>c\<in>set (bytes (state_name st)). printable c) \<and> length (state_name st) \<le> 8"
  by (cases st) (simp_all add: state_name_def printable_def)

lemma print_thread_writes:
  assumes "screen_ok e sh" "512 \<le> length (e_stack e)" "row_ok x"
  shows "writes e (thread_row x @ [13, 10]) sh (print_thread e x sh)"
proof -
  obtain i nm st where x: "x = (i, nm, st)" by (cases x)
  have r: "0 \<le> i" "i < 2 ^ 31" "length (c_string nm) < 64" "\<forall>c\<in>set (c_string nm). printable c" using assms(3) by (simp_all add: row_ok_def x)
  let ?n = "number_text (of_int i) 10 False False 4 False True"
  have n: "\<forall>c\<in>set ?n. printable c" "length ?n \<le> 25" using number_text_ok [of "of_int i" 4 True] by simp_all
  have s: "\<forall>c\<in>set (string_text (c_string nm) 16 True). printable c" "length (string_text (c_string nm) 16 True) \<le> 80"
    using r(3,4) by (auto simp: string_text_def pad_text_def printable_def Let_def)
  have sp: "printable 32" by (simp add: printable_def)
  show ?thesis unfolding x print_thread_def prod.case thread_row_def
    by (rule fmt_writes [OF assms(1,2) row_format [OF r(1,2)]]) (use n s sp state_name_ok [of st] in auto)
qed

lemma print_rows_writes:
  assumes "screen_ok e sh" "512 \<le> length (e_stack e)" "list_all row_ok xs"
  shows "writes e (concat (map (\<lambda>x. thread_row x @ [13, 10]) xs)) sh (foldM (print_thread e) xs sh)"
  using assms(1,3)
proof (induction xs arbitrary: sh)
  case Nil
  then show ?case by (simp add: writes_skip)
next
  case (Cons x xs)
  show ?case unfolding list.map concat.simps foldM.simps
  proof (rule writes_bind [OF print_thread_writes [OF Cons.prems(1) assms(2)]])
    show "row_ok x" using Cons.prems(2) by simp
    fix t assume "term_ok (e_font e) t"
    then have "screen_ok e (sh\<lparr>screen := t\<rparr>)" by (simp add: screen_ok_def)
    from Cons.IH [OF this] Cons.prems(2)
    show "writes e (concat (map (\<lambda>x. thread_row x @ [13, 10]) xs)) (sh\<lparr>screen := t\<rparr>) (foldM (print_thread e) xs (sh\<lparr>screen := t\<rparr>))" by simp
  qed
qed

lemma print_threads_writes:
  assumes s: "screen_ok e sh" and j: "512 \<le> length (e_stack e)" and inv: "sched_inv hinv regions (us @ vs) sc"
    and c: "vs \<noteq> []" "hd vs = Sched.current sc"
    and rows: "\<forall>x\<in>set (us @ vs). row_ok (row_of sc x)"
  shows "writes e (bytes ''  ID   NAME             STATE'' @ [13, 10] @
      concat (map (\<lambda>x. thread_row (row_of sc x) @ [13, 10]) (vs @ us))) sh (print_threads e sc sh)"
proof -
  let ?c = "Sched.current sc" and ?rows = "map (row_of sc) (vs @ us)"
  note I = sched_invD [OF inv]
  have c0: "?c \<noteq> 0" using I(3,4) by metis
  have p: "path (threads sc) ?c (vs @ us) ?c"
    using I(5) c by (cases vs) (auto simp: path_append split: option.splits)
  have nt: "?c \<notin> set (tl (vs @ us))" using I(2) c by (cases vs) auto
  have dump: "sched_dump sc = Some ?rows"
    using dump_loop_map [OF p _ nt, of "[]"] c(1) c0 by (simp add: sched_dump_def Let_def row_of_def)
  have ok: "list_all row_ok ?rows"
    using rows by (auto simp: list_all_iff)
  have pads: "pad_text 32 2 = bytes ''  ''" "pad_text 32 12 = bytes ''            ''" "pad_text 32 (- 5) = []"
    by (simp_all add: pad_text_def numeral_eq_Suc)
  have head: "format_text (bytes ''  %-4s %-16s %s'' @ [10]) [Str (Some (bytes ''ID'')), Str (Some (bytes ''NAME'')), Str (Some (bytes ''STATE''))] =
      Some (bytes ''  ID   NAME             STATE'' @ [10])"
    by (simp add: directive_def convert_text_def string_text_def Let_def pads)
  have "writes e ((bytes ''  ID   NAME             STATE'' @ [13, 10]) @ concat (map (\<lambda>x. thread_row x @ [13, 10]) ?rows)) sh
      (print_fmt e (bytes ''  %-4s %-16s %s'' @ [10]) [Str (Some (bytes ''ID'')), Str (Some (bytes ''NAME'')), Str (Some (bytes ''STATE''))] sh \<bind>
        foldM (print_thread e) ?rows)"
  proof (rule writes_bind [OF fmt_writes [OF s j head]])
    show "\<forall>c\<in>set (bytes ''  ID   NAME             STATE''). printable c" by (simp add: printable_def)
    show "length (bytes ''  ID   NAME             STATE'') < 511" by simp
    fix t assume "term_ok (e_font e) t"
    then have "screen_ok e (sh\<lparr>screen := t\<rparr>)" by (simp add: screen_ok_def)
    then show "writes e (concat (map (\<lambda>x. thread_row x @ [13, 10]) ?rows)) (sh\<lparr>screen := t\<rparr>) (foldM (print_thread e) ?rows (sh\<lparr>screen := t\<rparr>))"
      by (rule print_rows_writes [OF _ j ok])
  qed
  then show ?thesis using c0 by (simp add: print_threads_def dump comp_def Let_def)
qed

section \<open>The prompt of the language model\<close>

lemma add_word_fits: "length p < LINE_MAX \<Longrightarrow> length (add_word w p) < LINE_MAX"
  by (auto simp: add_word_def Let_def)

lemma gather_prompt_fits: "length (gather_prompt ws) < LINE_MAX"
proof -
  have "length p < LINE_MAX \<Longrightarrow> length (fold add_word ws p) < LINE_MAX" for p
    by (induction ws arbitrary: p) (simp_all add: add_word_fits)
  from this [of "[]"] show ?thesis by (simp add: gather_prompt_def LINE_MAX_def)
qed

text \<open>When everything fits, the prompt is the words with single spaces between them.\<close>

lemma fold_add_word:
  assumes "p \<noteq> []" "length (p @ after_spaces ws) < LINE_MAX" "[] \<notin> set ws"
  shows "fold add_word ws p = p @ after_spaces ws"
  using assms
proof (induction ws arbitrary: p)
  case Nil
  then show ?case by (simp add: after_spaces_def)
next
  case (Cons w ws)
  have l: "length p + 1 + length w + length (after_spaces ws) < LINE_MAX" using Cons.prems(2) by (simp add: after_spaces_def)
  then have "add_word w p = p @ 32 # w" using Cons.prems(1,3) by (simp add: add_word_def Let_def)
  then show ?case using Cons.IH [of "p @ 32 # w"] l Cons.prems(3) by (simp add: after_spaces_def)
qed

lemma gather_prompt_words:
  assumes "[] \<notin> set (w # ws)" "length (w @ after_spaces ws) < LINE_MAX"
  shows "gather_prompt (w # ws) = w @ after_spaces ws"
proof -
  have "add_word w [] = w" using assms(2) by (simp add: add_word_def Let_def)
  moreover have "w \<noteq> []" using assms(1) by auto
  ultimately show ?thesis using fold_add_word [of w ws] assms by (simp add: gather_prompt_def)
qed

text \<open>A negative time wraps around: the deadline has passed already, and the command returns at once.\<close>

lemma sleep_negative_returns:
  assumes "0 < ticks (m_net m)"
  shows "cmd_sleep W [bytes ''sleep'', bytes ''-1''] m = Some m"
proof -
  have "ucast (- 1 :: u64) = (- 1 :: u32)" by (rule bit_word_eqI) (simp add: bit_simps)
  then have n: "number_of (bytes ''-1'') = Some (- 1)"
    by (simp add: number_of_def c_atoi_def c_strtol_def strtol_base_def digit_val_def)
  have "unat (ticks (m_net m) - 1) = unat (ticks (m_net m)) - 1" using assms by (intro unat_minus_one) auto
  then have "\<not> ticks (m_net m) < ticks (m_net m) - 1" by (simp add: word_less_nat_alt)
  then have "wait_until net_rx_thread (\<lambda>s. Some (None :: unit option, s)) (ticks (m_net m) + of_int (- 1)) (m_turns m) (m_net m) = Some (None, m_net m, m_turns m)"
    by (cases "m_turns m") simp_all
  then show ?thesis by (simp add: cmd_sleep_def n [simplified] pause_def on_net_def)
qed

section \<open>Properties\<close>

lemma split_args_bytes: "w \<in> set (split_args n l) \<Longrightarrow> set w \<subseteq> set l"
proof (induction n arbitrary: l)
  case (Suc n)
  let ?p = "dropWhile blank l"
  have sub: "set ?p \<subseteq> set l" by (auto dest: set_dropWhileD)
  have "w = takeWhile (\<lambda>c. \<not> blank c) ?p \<or> w \<in> set (split_args n (drop 1 (dropWhile (\<lambda>c. \<not> blank c) ?p)))"
    using Suc.prems by (auto simp: Let_def split: if_splits)
  then show ?case
  proof
    assume "w = takeWhile (\<lambda>c. \<not> blank c) ?p"
    then show ?thesis using sub by (auto dest: set_takeWhileD)
  next
    assume "w \<in> set (split_args n (drop 1 (dropWhile (\<lambda>c. \<not> blank c) ?p)))"
    from Suc.IH [OF this] sub show ?thesis by (auto dest!: set_dropWhileD in_set_dropD)
  qed
qed simp

lemma split_args_Nil: "split_args n [] = []"
  by (cases n) simp_all

lemma machine_lookup:
  "map_of machine_commands (bytes ''ifconfig'') = Some cmd_ifconfig" "map_of machine_commands (bytes ''ping'') = Some cmd_ping"
  "map_of machine_commands (bytes ''nslookup'') = Some cmd_nslookup"
  by (simp_all add: machine_commands_def)



text \<open>
  C32: \<open>ps\<close> lists every thread of the ring exactly once, in ring order from the current one on, each with its number, its
  name and its state, under a heading; nothing but the screen changes.
\<close>

theorem ps_lists_threads:
  assumes "screen_ok (w_env W) (m_shell m)" "512 \<le> length (e_stack (w_env W))"
    and "sched_inv heap_ok heap_regions (us @ vs) (m_sched m)" "vs \<noteq> []" "hd vs = Sched.current (m_sched m)"
    and "\<forall>x\<in>set (us @ vs). row_ok (row_of (m_sched m) x)"
  shows "\<exists>t. cmd_ps W argv m = Some (m\<lparr>m_shell := (m_shell m)\<lparr>screen := t\<rparr>\<rparr>) \<and> term_ok (e_font (w_env W)) t \<and>
    serial t = serial (screen (m_shell m)) @ bytes ''  ID   NAME             STATE'' @ [13, 10] @
      concat (map (\<lambda>x. thread_row (row_of (m_sched m) x) @ [13, 10]) (vs @ us))"
  using print_threads_writes [OF assms] by (auto simp: writes_def cmd_ps_def on_shell_def)

theorem ps_lists_threads_witness:
  "\<forall>(W :: (int, unit) world) (m :: (int, unit) machine).
     \<exists>t. cmd_ps (W\<lparr>w_env := sample_env\<rparr>) [bytes ''ps''] (m\<lparr>m_shell := sample_shell, m_sched := boot_sched\<rparr>) =
         Some (m\<lparr>m_sched := boot_sched, m_shell := sample_shell\<lparr>screen := t\<rparr>\<rparr>) \<and>
       serial t = bytes ''  ID   NAME             STATE'' @ [13, 10] @ bytes ''  0                     running'' @ [13, 10] @
         bytes ''  1                     ready'' @ [13, 10]"
proof (intro allI)
  fix W :: "(int, unit) world" and m :: "(int, unit) machine"
  let ?W = "W\<lparr>w_env := sample_env\<rparr>" and ?m = "m\<lparr>m_shell := sample_shell, m_sched := boot_sched\<rparr>"
  have a: "screen_ok (w_env ?W) (m_shell ?m)" "512 \<le> length (e_stack (w_env ?W))"
    using sample_shell_ok by (simp_all add: shell_ok_def sample_env_def)
  have b: "sched_inv heap_ok heap_regions ([4736] @ [4128]) (m_sched ?m)" "[4128 :: u64] \<noteq> []" "hd [4128] = Sched.current (m_sched ?m)"
    using boot_sched_inv by (simp_all add: boot_sched_def)
  have rows: "row_of boot_sched 4128 = (0, [], T_RUNNING)" "row_of boot_sched 4736 = (1, [], T_READY)"
    by (simp_all add: row_of_def boot_sched_def)
  have c: "\<forall>x\<in>set ([4736] @ [4128]). row_ok (row_of (m_sched ?m) x)" by (simp add: rows row_ok_def c_string_def)
  have d: "digits_rev False 10 (Suc 0) = [49]" by (subst digits_rev.simps) (simp add: digit_char_def)
  have p: "pad_text 32 3 = bytes ''   ''" "pad_text 32 16 = bytes ''                ''" by (simp_all add: pad_text_def numeral_eq_Suc)
  have t: "thread_row (0, [], T_RUNNING) = bytes ''  0                     running''" "thread_row (1, [], T_READY) = bytes ''  1                     ready''"
    by (simp_all add: thread_row_def number_text_def number_tmp_def d p string_text_def c_string_def Let_def state_name_def)
  have h: "serial (screen sample_shell) = []" by (simp add: sample_shell_def sample_term_def)
  from ps_lists_threads [OF a b c, of "[bytes ''ps'']"]
  show "\<exists>u. cmd_ps ?W [bytes ''ps''] ?m = Some (m\<lparr>m_sched := boot_sched, m_shell := sample_shell\<lparr>screen := u\<rparr>\<rparr>) \<and>
      serial u = bytes ''  ID   NAME             STATE'' @ [13, 10] @ bytes ''  0                     running'' @ [13, 10] @
        bytes ''  1                     ready'' @ [13, 10]"
    by (auto simp: rows t h)
qed

end
