(* ===== verification/Spec2Isabelle.thy ===== *)
theory Spec2Isabelle
  imports Strings Pmm Vmm Heap Sched Vfs VfsTree Initrd Keyboard Framebuffer Term Kprintf Pong Snake LlmCommon NetChecksum NetReceive NetAddress Shell QwenRun ChatSafe E1000 Ps2 Interrupts Boot CommandsSafe
begin

text \<open>
  A model of the choco-os kernel (\<open>src/kernel\<close>), a 64-bit hobby kernel booted by Limine: memory management, a
  preemptive round-robin scheduler, an in-memory file system filled from a tar archive, keyboard, frame
  buffer and terminal, a shell, two games, a network stack on an e1000 card, and two inference engines for
  language models that run inside the kernel. Every theory translates the C code of one part: its state as
  a record, one definition per function, and the properties that make the part correct.

  Conventions. Integers whose wrap-around matters are words of their C width; sizes and indices that the code
  never lets wrap are natural numbers. A C array is a list, a string the list of the bytes before its NUL, a pointer
  into an object the rest of its list or an offset. An outer \<open>None\<close> is a fault: an access outside an object,
  a freed or missing node, or a loop that does not end; a theorem that a result is \<open>Some\<close> therefore
  says that the code returns and stays inside its objects. Error returns of the C functions are values (NULL is 0
  or an inner \<open>None\<close>, error codes are negative numbers). The pointer arithmetic with the offset of the direct
  map (HHDM) cancels out and is left out. Functions that run with interrupts off are single steps.

  Parts and how they interact, from the bottom up.

  \<^item> \<open>Prelude\<close> holds the C types, bounded copying (\<open>slice\_at\<close>, \<open>blit\<close>), loops over lists that may fault (\<open>foldM\<close>),
    facts on words and the collections \<open>inv\_simps\<close> and \<open>step\_simps\<close>. \<open>Interfaces\<close> holds the contracts between parts as
    locales: \<open>page\_allocator\<close> (given by \<open>Pmm\<close>, used by \<open>Vmm\<close>), \<open>heap\_allocator\<close> and its extension \<open>c\_heap\<close> (given by \<open>Heap\<close>, used by the file
    system, the scheduler and the inference engines; the lemmas on memory that a call obtains and gives back are
    proved once inside it), \<open>bounded\_queue\<close> (the key events of \<open>Keyboard\<close>) and \<open>comparison\<close> (sorting, used by \<open>LlmCommon\<close>). Every
    one is interpreted on the definitions of the code.
  \<^item> \<open>Strings\<close>: \<open>string.c\<close>, \<open>gcc\_utils.c\<close>, \<open>lib.c\<close>, with functional correctness of the memory and string routines.
  \<^item> \<open>Pmm\<close>: \<open>pmm.c\<close>, the bitmap of pages; initialisation, first fit, and the round trip with release. \<open>Vmm\<close>: \<open>vmm.c\<close>, four-level page
    tables; mapping and unmapping refine an update of the translation function and leave every other address
    alone. \<open>Heap\<close>: \<open>heap.c\<close>, a list of blocks in one region; \<open>malloc\<close> and \<open>free\<close> refine first fit and merging on a list of
    (size, free) pairs, regions in use never overlap, \<open>realloc\<close> keeps contents.
  \<^item> \<open>Sched\<close>: \<open>sched.c\<close> and the timer's tick: creation, preemption with the floating-point state, sleeping, exit and reaping, as
    functions on the ring of threads; an inductive relation of scheduler steps has the invariant proved by rule
    induction, and a ready thread runs after at most one round.
  \<^item> \<open>Vfs\<close> and \<open>VfsTree\<close>: \<open>vfs.c\<close>. The first has the operations on nodes and file data, the second the tree invariant and what
    creation, directories, paths and unlinking do to directories read as finite maps. \<open>Initrd\<close>: \<open>initrd.c\<close>, modules and the
    unpacking of a tar archive into that tree.
  \<^item> \<open>Keyboard\<close>: \<open>keyboard.c\<close>, scan codes to events through a ring buffer. \<open>Framebuffer\<close>: \<open>framebuffer.c\<close>. \<open>Term\<close>: \<open>term.c\<close> and the bytes sent to
    \<open>serial.c\<close>; it refines a screen of characters. \<open>Kprintf\<close>: \<open>kprintf.c\<close>, the format engine.
  \<^item> \<open>Shell\<close>: \<open>shell.c\<close>, the line editor with its history, the splitting into words and the commands on files and on the
    terminal; whatever is typed before Enter, the command receives the line of a small editor specification. \<open>SelfTest\<close>: the
    heap's self-test of \<open>heap.c\<close>, which reports what the allocator did and leaves the heap as it was. \<open>Commands\<close>: the commands of
    \<open>shell.c\<close> that start other parts, on a record \<open>machine\<close> of the shell and those parts; what comes from outside is the record
    \<open>world\<close>. \<open>CommandsSafe\<close>: the network commands end without a fault, \<open>ps\<close> lists every thread, the prompt of \<open>llm\<close> fits its buffer.
  \<^item> \<open>Net\<close> (definitions), \<open>NetChecksum\<close>, \<open>NetReceive\<close>, \<open>NetClient\<close>, \<open>NetAddress\<close>: \<open>net.c\<close>, from Ethernet frames to ARP, ICMP, UDP, DHCP
    and DNS; the receive path never leaves a buffer on any frame, the operations that wait for an answer end whatever is
    received meanwhile, checksums verify, addresses are read back as printed.
  \<^item> \<open>Pong\<close> and \<open>Snake\<close>: the games, with the invariants of their fields.
  \<^item> \<open>LlmCommon\<close>: \<open>llm\_common.c\<close>, vocabulary sort and search, sampling, output filter. \<open>Bpe\<close>: the byte-pair merging that \<open>llm.c\<close> and \<open>qwen.c\<close> share.
    \<open>Tensor\<close>: the vector operations and attention heads. \<open>LlamaTok\<close>, \<open>Llama\<close>, \<open>LlamaRun\<close>: tokenizer, forward pass, registry and
    generation of \<open>llm.c\<close>. \<open>Quantized\<close>, \<open>Qwen\<close>, \<open>QwenRun\<close>: the same for \<open>qwen.c\<close>, with eight-bit weights, and the entry points
    \<open>llm\_generate\<close> and \<open>llm\_describe\<close>. Float operations, the hardware's and those of \<open>llm\_math.c\<close>, are a record argument, so that
    every theorem here holds for any arithmetic; the theorems on matrix products are about exact rings.
  \<^item> \<open>ChatPanel\<close>, \<open>Chat\<close>, \<open>ChatState\<close>, \<open>ChatSafe\<close>: \<open>chat.c\<close>. The first has the wrapping of messages into lines, which loses no text,
    the second the channels, the bot jobs, the drawing and the event loop; \<open>ChatState\<close> shows that a typed question gets the answer
    the model emits, under its channel, \<open>ChatSafe\<close> that the whole loop draws inside the screen and its buffers, on screens of at
    least 95 by 16 characters. The steps of the worker thread are atomic and come between the turns of the loop.
  \<^item> \<open>Devices\<close>: \<open>pci.c\<close>, \<open>rtc.c\<close>, \<open>pic.c\<close>, \<open>timer.c\<close>, \<open>serial.c\<close> over a record \<open>ports\<close> of port operations on an unspecified device state;
    statements about what is read assume a device that behaves as its manual says, as named hypotheses. \<open>E1000\<close>: \<open>e1000.c\<close>, the network
    card's rings, which are first-in first-out queues between driver and card. \<open>Ps2\<close>: \<open>ps2.c\<close> and the set-up of the
    keyboard, which comes up on every controller that answers as specified. \<open>Interrupts\<close>: \<open>idt.c\<close> and \<open>isr.c\<close>, gates that decode to the
    addresses they were made from.
  \<^item> \<open>Boot\<close>: \<open>main.c\<close> and \<open>mem.c\<close>, all parts brought up in the order of the code on one record \<open>kernel\<close>; with good memory, a
    controller and a card that answer, the kernel comes up with its shell thread in the ring. The heap is shared: each client's
    lemmas hold on the part of it that the others leave (\<open>rest\_of\_heap\<close>).

  Bounds and fuel. Loops are structural recursion or have a termination measure; there is no fuel except where an
  unbounded wait of the code is run against a list of its turns (\<open>Net\<close>, the main loops of games and chat, \<open>Shell\<close>), and
  then every theorem is about all lists. A wait for a device that never answers is \<open>None\<close>. Tables keep the code's sizes: 512
  entries per page table, 128 slots of key events, 16 lines of 256 bytes in the history and so on, written as the source's constants.

  Not modelled: the assembly (\<open>isr.asm\<close>, \<open>asm\_utils.asm\<close>, the context switch's pushes and pops, which \<open>Sched\<close> has as a
  frame of words) and the port instructions of \<open>io.c\<close>, which are the record \<open>ports\<close>; \<open>llm\_math.c\<close> (numerical approximations on IEEE
  floats, which are a parameter); \<open>limine.h\<close> (the boot protocol's declarations, vendored); the TLB and caches; interrupts during
  boot, which only count ticks and queue keys; the log lines that the memory managers and the archive write while they start;
  concurrency between threads inside the functions that do not turn interrupts off, such as two callers of \<open>llm\_generate\<close>.
\<close>

end
